(* ===== verification/Prelude.thy ===== *)
theory Prelude
  imports Main "HOL-Library.Word"
begin

text \<open>
  Shared vocabulary of the development: the result type of fallible operations, Go's slice
  expressions, and the collections of rewrite rules that the component theories extend.

  A Go function returning \<open>(T, error)\<close> is a function into \<open>'e + 'a\<close>: \<open>Inl e\<close> is a returned
  error, \<open>Inr x\<close> a normal return. A run-time panic (an index out of range) is a value too, an
  element of the error type of the component that can raise it. Go's \<open>int\<close>, which is 64 bits
  wide, is read as \<open>int\<close>; where the code relies on it not overflowing the bound is a theorem. A string is
  the list of its code points, whose lexicographic order is that of the UTF-8 bytes; a \<^verbatim>\<open>time.Time\<close> is its
  number of nanoseconds, since 1970 or, where the code asks for the zero time only, since the first instant of year 1.
\<close>

type_synonym unit16 = "16 word"
type_synonym byte = "8 word"
type_synonym rune = nat
type_synonym str = "rune list"
type_synonym time = int
type_synonym ('e, 'a) result = "'e + 'a"

named_theorems go_defs \<open>defining equations of small source helpers\<close>
named_theorems edit_simps \<open>how the edit algebra computes\<close>

subsection \<open>Fallible computations\<close>

definition rbind :: "('e, 'a) result \<Rightarrow> ('a \<Rightarrow> ('e, 'b) result) \<Rightarrow> ('e, 'b) result" where
  "rbind m k = (case m of Inl e \<Rightarrow> Inl e | Inr x \<Rightarrow> k x)"

lemma rbind_simps [simp]:
  "rbind (Inl e) k = Inl e"
  "rbind (Inr x) k = k x"
  by (simp_all add: rbind_def)

lemma rbind_eq_Inr: "rbind m k = Inr y \<longleftrightarrow> (\<exists>x. m = Inr x \<and> k x = Inr y)"
  by (cases m) auto

text \<open>A loop over a list whose body may fail: it stops at the first error.\<close>

fun foldr_err :: "('s \<Rightarrow> 'a \<Rightarrow> ('e, 's) result) \<Rightarrow> 's \<Rightarrow> 'a list \<Rightarrow> ('e, 's) result" where
  "foldr_err f s [] = Inr s"
| "foldr_err f s (x # xs) = rbind (f s x) (\<lambda>s'. foldr_err f s' xs)"

lemma foldr_err_append:
  "foldr_err f s (xs @ ys) = rbind (foldr_err f s xs) (\<lambda>s'. foldr_err f s' ys)"
proof (induction xs arbitrary: s)
  case Nil
  then show ?case by simp
next
  case (Cons x xs)
  then show ?case by (cases "f s x") auto
qed

lemma foldr_err_invariant:
  assumes "foldr_err f s xs = Inr s'" and "P s"
    and "\<And>s x s'. P s \<Longrightarrow> x \<in> set xs \<Longrightarrow> f s x = Inr s' \<Longrightarrow> P s'"
  shows "P s'"
  using assms
proof (induction xs arbitrary: s)
  case Nil
  then show ?case by simp
next
  case (Cons x xs)
  from Cons.prems(1) obtain s1 where s1: "f s x = Inr s1" and rest: "foldr_err f s1 xs = Inr s'"
    by (auto simp: rbind_eq_Inr)
  from Cons.prems(2,3) s1 have "P s1" by auto
  with rest Cons.prems(3) show ?case by (intro Cons.IH [OF rest]) auto
qed

subsection \<open>Slice expressions\<close>

text \<open>
  \<open>xs[lo:hi]\<close>. Go panics unless \<open>0 \<le> lo \<le> hi \<le> cap(xs)\<close>; the model asks for \<open>hi \<le> len(xs)\<close>, which is
  the bound the code means, and \<open>None\<close> is the panic.
\<close>

definition slice :: "'a list \<Rightarrow> int \<Rightarrow> int \<Rightarrow> 'a list option" where
  "slice xs lo hi =
     (if 0 \<le> lo \<and> lo \<le> hi \<and> hi \<le> int (length xs)
      then Some (take (nat (hi - lo)) (drop (nat lo) xs)) else None)"

definition sub :: "'a list \<Rightarrow> int \<Rightarrow> int \<Rightarrow> 'a list" where
  "sub xs lo hi = take (nat (hi - lo)) (drop (nat lo) xs)"

lemma slice_sub: "slice xs lo hi = Some ys \<Longrightarrow> ys = sub xs lo hi"
  by (auto simp: slice_def sub_def split: if_splits)

lemma length_sub:
  "0 \<le> lo \<Longrightarrow> lo \<le> hi \<Longrightarrow> hi \<le> int (length xs) \<Longrightarrow> length (sub xs lo hi) = nat (hi - lo)"
  by (simp add: sub_def)

lemma take_drop_append_left:
  "a + n \<le> length xs \<Longrightarrow> take n (drop a (xs @ ys)) = take n (drop a xs)"
  by simp

lemma take_join: "take a d @ take b (drop a d) = take (a + b) d"
  by (simp add: take_add)

lemma take_split: "n \<le> e \<Longrightarrow> take e d = take n d @ take (e - n) (drop n d)"
  by (metis le_add_diff_inverse take_add)

lemma take_append_take:
  "n \<le> e \<Longrightarrow> n \<le> length d \<Longrightarrow> take e (take n d @ x) = take n d @ take (e - n) x"
  by (simp add: min_def)

lemma butlast_last_eq: "xs \<noteq> [] \<Longrightarrow> xs = butlast xs @ [last xs]"
  by simp

subsection \<open>Strings\<close>

definition HasPrefix :: "str \<Rightarrow> str \<Rightarrow> bool" where
  "HasPrefix s p \<longleftrightarrow> length p \<le> length s \<and> take (length p) s = p"

definition HasSuffix :: "str \<Rightarrow> str \<Rightarrow> bool" where
  "HasSuffix s p \<longleftrightarrow> length p \<le> length s \<and> drop (length s - length p) s = p"

lemma HasPrefix_append [simp]: "HasPrefix (p @ s) p"
  by (simp add: HasPrefix_def)

lemma HasSuffix_append [simp]: "HasSuffix (s @ p) p"
  by (simp add: HasSuffix_def)

end
