(* ===== verification/Edits.thy ===== *)
theory Edits
  imports Prelude
begin

text \<open>
  The abstract specification of operations: an edit script is a list of steps that walk a
  document from start to end. \<open>run\<close> is its meaning, generic in what an insert contributes, so
  that one theory covers the text of a document and the authorship of its units. \<open>follow\<close> and
  \<open>xform\<close> are the reference composition and transformation, and the lemmas here are the algebra
  that the implementation in \<open>OT\<close> is proved to refine.
\<close>

datatype edit = is_Keep: Keep nat | is_Add: Add "unit16 list" | is_Drop: Drop nat

fun run :: "(unit16 list \<Rightarrow> 'a list) \<Rightarrow> edit list \<Rightarrow> 'a list \<Rightarrow> 'a list" where
  "run f [] d = []"
| "run f (Keep n # es) d = take n d @ run f es (drop n d)"
| "run f (Add t # es) d = f t @ run f es d"
| "run f (Drop n # es) d = run f es (drop n d)"

fun step_base :: "edit \<Rightarrow> nat" where
  "step_base (Keep n) = n"
| "step_base (Add t) = 0"
| "step_base (Drop n) = n"

fun step_target :: "edit \<Rightarrow> nat" where
  "step_target (Keep n) = n"
| "step_target (Add t) = length t"
| "step_target (Drop n) = 0"

fun step_size :: "edit \<Rightarrow> nat" where
  "step_size (Keep n) = n"
| "step_size (Add t) = length t"
| "step_size (Drop n) = n"

definition base :: "edit list \<Rightarrow> nat" where
  "base es = sum_list (map step_base es)"

definition target :: "edit list \<Rightarrow> nat" where
  "target es = sum_list (map step_target es)"

definition proper :: "edit list \<Rightarrow> bool" where
  "proper es \<longleftrightarrow> (\<forall>e \<in> set es. 0 < step_size e)"

lemma base_simps [simp]:
  "base [] = 0" "base (e # es) = step_base e + base es" "base (es @ es') = base es + base es'"
  by (simp_all add: base_def)

lemma target_simps [simp]:
  "target [] = 0" "target (e # es) = step_target e + target es"
  "target (es @ es') = target es + target es'"
  by (simp_all add: target_def)

lemma proper_simps [simp]:
  "proper []" "proper (e # es) \<longleftrightarrow> 0 < step_size e \<and> proper es"
  "proper (es @ es') \<longleftrightarrow> proper es \<and> proper es'"
  by (auto simp: proper_def)

text \<open>
  What \<^verbatim>\<open>Apply\<close> and \<^verbatim>\<open>applyAttribution\<close> both rely on: the contribution of an insert has one
  element per inserted unit and is the concatenation of its parts' contributions.
\<close>

locale contribution =
  fixes f :: "unit16 list \<Rightarrow> 'a list"
  assumes f_append: "f (s @ t) = f s @ f t"
    and f_length: "length (f t) = length t"
begin

lemma f_Nil: "f [] = []"
  using f_length [of "[]"] by simp

lemma length_run: "length d = base es \<Longrightarrow> length (run f es d) = target es"
proof (induction es arbitrary: d)
  case (Cons e es)
  then show ?case by (cases e) (auto simp: f_length)
qed simp

lemma f_take_drop: "f (take n t) @ f (drop n t) = f t"
  by (simp flip: f_append)

end

interpretation text_units: contribution "\<lambda>t. t"
  by unfold_locales auto

interpretation attribution: contribution "\<lambda>t. replicate (length t) a"
  by unfold_locales (auto simp: replicate_add)

text \<open>Running a concatenation: the second part sees what the first did not consume.\<close>

lemma run_append: "run f (es @ es') d = run f es d @ run f es' (drop (base es) d)"
  by (induction f es d rule: run.induct) (auto simp: add.commute)

lemma run_append_exact:
  "length x = base es \<Longrightarrow> run f (es @ es') (x @ d) = run f es x @ run f es' d"
proof -
  assume x: "length x = base es"
  have "run f es (x @ d) = run f es x"
    using x
  proof (induction f es x rule: run.induct)
    case (2 f n es x)
    then have "n \<le> length x" by simp
    with 2 show ?case by simp
  next
    case (4 f n es x)
    then have "n \<le> length x" by simp
    with 4 show ?case by simp
  qed auto
  with x show ?thesis by (simp add: run_append)
qed

subsection \<open>Taking steps apart\<close>

fun chop :: "nat \<Rightarrow> edit \<Rightarrow> edit" where
  "chop n (Keep m) = Keep n"
| "chop n (Add t) = Add (take n t)"
| "chop n (Drop m) = Drop n"

fun rest_step :: "nat \<Rightarrow> edit \<Rightarrow> edit" where
  "rest_step n (Keep m) = Keep (m - n)"
| "rest_step n (Add t) = Add (drop n t)"
| "rest_step n (Drop m) = Drop (m - n)"

text \<open>What is left of a script after \<open>n\<close> units of its first step.\<close>

fun consume :: "nat \<Rightarrow> edit list \<Rightarrow> edit list" where
  "consume n [] = []"
| "consume n (e # es) = (if n < step_size e then rest_step n e # es else es)"

lemma step_size_chop [simp]: "n \<le> step_size e \<Longrightarrow> step_size (chop n e) = n"
  by (cases e) auto

lemma chop_all [simp]: "chop (step_size e) e = e"
  by (cases e) auto

lemma step_size_rest_step [simp]: "step_size (rest_step n e) = step_size e - n"
  by (cases e) auto

lemma proper_consume: "proper es \<Longrightarrow> proper (consume n es)"
  by (cases es) auto

lemma base_consume:
  "n \<le> step_size e \<Longrightarrow> base (e # es) = step_base (chop n e) + base (consume n (e # es))"
  by (cases e) auto

lemma target_consume:
  "n \<le> step_size e \<Longrightarrow> target (e # es) = step_target (chop n e) + target (consume n (e # es))"
  by (cases e) auto

lemma length_consume: "length (consume n es) \<le> length es"
  by (cases es) auto

lemma length_consume_all: "es \<noteq> [] \<Longrightarrow> step_size (hd es) \<le> n \<Longrightarrow> length (consume n es) < length es"
  by (cases es) auto

lemma consume_meet_less:
  "n = min (step_size a) (step_size b) \<Longrightarrow>
     length (consume n (a # as)) + length (consume n (b # bs)) < Suc (Suc (length as + length bs))"
  by (auto simp: min_def)

context contribution begin

lemma run_consume:
  "n \<le> step_size e \<Longrightarrow> run f (e # es) d = run f (chop n e # consume n (e # es)) d"
  by (cases e) (auto simp: take_add [symmetric] f_take_drop append_assoc [symmetric]
      simp del: append_assoc)

end

subsection \<open>Reference composition\<close>

text \<open>
  \<open>follow as bs\<close> does \<open>as\<close> and then \<open>bs\<close>. Where neither side acts alone, the first steps meet on
  the shorter of their lengths; an insert that the second script drops leaves nothing.
\<close>

fun meet :: "nat \<Rightarrow> edit \<Rightarrow> edit \<Rightarrow> edit list" where
  "meet n (Keep _) (Keep _) = [Keep n]"
| "meet n (Keep _) (Drop _) = [Drop n]"
| "meet n (Add t) (Keep _) = [Add (take n t)]"
| "meet n _ _ = []"

function (sequential) follow :: "edit list \<Rightarrow> edit list \<Rightarrow> edit list option" where
  "follow (Drop n # as) bs = map_option (Cons (Drop n)) (follow as bs)"
| "follow as (Add t # bs) = map_option (Cons (Add t)) (follow as bs)"
| "follow [] [] = Some []"
| "follow (a # as) (b # bs) =
     (let n = min (step_size a) (step_size b)
      in map_option (append (meet n a b)) (follow (consume n (a # as)) (consume n (b # bs))))"
| "follow _ _ = None"
  by pat_completeness auto
termination
  by (relation "measure (\<lambda>(as, bs). length as + length bs)")
    (simp_all add: consume_meet_less del: consume.simps step_size.simps)

subsection \<open>Reference transformation\<close>

text \<open>
  \<open>xform as bs\<close> carries each of two concurrent scripts over the other. An insert of \<open>as\<close> goes
  first when both insert at one place.
\<close>

fun meet_left :: "nat \<Rightarrow> edit \<Rightarrow> edit \<Rightarrow> edit list" where
  "meet_left n (Keep _) (Keep _) = [Keep n]"
| "meet_left n (Drop _) (Keep _) = [Drop n]"
| "meet_left n _ _ = []"

function (sequential) xform :: "edit list \<Rightarrow> edit list \<Rightarrow> (edit list \<times> edit list) option" where
  "xform (Add t # as) bs =
     map_option (\<lambda>(as', bs'). (Add t # as', Keep (length t) # bs')) (xform as bs)"
| "xform as (Add t # bs) =
     map_option (\<lambda>(as', bs'). (Keep (length t) # as', Add t # bs')) (xform as bs)"
| "xform [] [] = Some ([], [])"
| "xform (a # as) (b # bs) =
     (let n = min (step_size a) (step_size b)
      in map_option (\<lambda>(as', bs'). (meet_left n a b @ as', meet_left n b a @ bs'))
           (xform (consume n (a # as)) (consume n (b # bs))))"
| "xform _ _ = None"
  by pat_completeness auto
termination
  by (relation "measure (\<lambda>(as, bs). length as + length bs)")
    (simp_all add: consume_meet_less del: consume.simps step_size.simps)

subsection \<open>Uniform equations and induction rules\<close>

definition adds_first :: "edit list \<Rightarrow> bool" where
  "adds_first es \<longleftrightarrow> es \<noteq> [] \<and> is_Add (hd es)"

definition drops_first :: "edit list \<Rightarrow> bool" where
  "drops_first es \<longleftrightarrow> es \<noteq> [] \<and> is_Drop (hd es)"

lemma first_simps [simp]:
  "\<not> adds_first []" "adds_first (e # es) \<longleftrightarrow> is_Add e"
  "\<not> drops_first []" "drops_first (e # es) \<longleftrightarrow> is_Drop e"
  by (simp_all add: adds_first_def drops_first_def)

lemma follow_eqs:
  "follow (Drop n # as) bs = map_option (Cons (Drop n)) (follow as bs)"
  "\<not> drops_first as \<Longrightarrow> follow as (Add t # bs) = map_option (Cons (Add t)) (follow as bs)"
  "follow [] [] = Some []"
  "\<not> is_Drop a \<Longrightarrow> \<not> is_Add b \<Longrightarrow> n = min (step_size a) (step_size b) \<Longrightarrow>
     follow (a # as) (b # bs) = map_option (append (meet n a b)) (follow (consume n (a # as)) (consume n (b # bs)))"
  "\<not> is_Add b \<Longrightarrow> follow [] (b # bs) = None"
  "\<not> is_Drop a \<Longrightarrow> follow (a # as) [] = None"
proof -
  show "\<not> drops_first as \<Longrightarrow> follow as (Add t # bs) = map_option (Cons (Add t)) (follow as bs)"
    by (cases as; cases "hd as") auto
  show "\<not> is_Drop a \<Longrightarrow> \<not> is_Add b \<Longrightarrow> n = min (step_size a) (step_size b) \<Longrightarrow>
     follow (a # as) (b # bs) = map_option (append (meet n a b)) (follow (consume n (a # as)) (consume n (b # bs)))"
    by (cases a; cases b) (simp_all add: Let_def del: consume.simps meet.simps step_size.simps)
  show "\<not> is_Add b \<Longrightarrow> follow [] (b # bs) = None" by (cases b) auto
  show "\<not> is_Drop a \<Longrightarrow> follow (a # as) [] = None" by (cases a) auto
qed simp_all

lemma follow_induct [case_names drop add nil meet short_left short_right]:
  assumes "\<And>n as bs. P as bs \<Longrightarrow> P (Drop n # as) bs"
    and "\<And>as t bs. \<not> drops_first as \<Longrightarrow> P as bs \<Longrightarrow> P as (Add t # bs)"
    and "P [] []"
    and "\<And>n a as b bs. \<not> is_Drop a \<Longrightarrow> \<not> is_Add b \<Longrightarrow> n = min (step_size a) (step_size b) \<Longrightarrow>
           P (consume n (a # as)) (consume n (b # bs)) \<Longrightarrow> P (a # as) (b # bs)"
    and "\<And>b bs. \<not> is_Add b \<Longrightarrow> P [] (b # bs)"
    and "\<And>a as. \<not> is_Drop a \<Longrightarrow> P (a # as) []"
  shows "P as bs"
  by (induction as bs rule: follow.induct)
    (use assms in \<open>simp_all del: consume.simps step_size.simps\<close>)

declare follow.simps [simp del]
lemma xform_eqs:
  "xform (Add t # as) bs =
     map_option (\<lambda>(as', bs'). (Add t # as', Keep (length t) # bs')) (xform as bs)"
  "\<not> adds_first as \<Longrightarrow> xform as (Add t # bs) =
     map_option (\<lambda>(as', bs'). (Keep (length t) # as', Add t # bs')) (xform as bs)"
  "xform [] [] = Some ([], [])"
  "\<not> is_Add a \<Longrightarrow> \<not> is_Add b \<Longrightarrow> n = min (step_size a) (step_size b) \<Longrightarrow>
     xform (a # as) (b # bs) =
       map_option (\<lambda>(as', bs'). (meet_left n a b @ as', meet_left n b a @ bs'))
         (xform (consume n (a # as)) (consume n (b # bs)))"
  "\<not> is_Add b \<Longrightarrow> xform [] (b # bs) = None"
  "\<not> is_Add a \<Longrightarrow> xform (a # as) [] = None"
proof -
  show "\<not> adds_first as \<Longrightarrow> xform as (Add t # bs) =
     map_option (\<lambda>(as', bs'). (Keep (length t) # as', Add t # bs')) (xform as bs)"
    by (cases as; cases "hd as") auto
  show "\<not> is_Add a \<Longrightarrow> \<not> is_Add b \<Longrightarrow> n = min (step_size a) (step_size b) \<Longrightarrow>
     xform (a # as) (b # bs) =
       map_option (\<lambda>(as', bs'). (meet_left n a b @ as', meet_left n b a @ bs'))
         (xform (consume n (a # as)) (consume n (b # bs)))"
    by (cases a; cases b) (simp_all add: Let_def del: consume.simps meet_left.simps step_size.simps)
  show "\<not> is_Add b \<Longrightarrow> xform [] (b # bs) = None" by (cases b) auto
  show "\<not> is_Add a \<Longrightarrow> xform (a # as) [] = None" by (cases a) auto
qed simp_all

lemma xform_induct [case_names add_left add_right nil meet short_left short_right]:
  assumes "\<And>t as bs. P as bs \<Longrightarrow> P (Add t # as) bs"
    and "\<And>as t bs. \<not> adds_first as \<Longrightarrow> P as bs \<Longrightarrow> P as (Add t # bs)"
    and "P [] []"
    and "\<And>n a as b bs. \<not> is_Add a \<Longrightarrow> \<not> is_Add b \<Longrightarrow> n = min (step_size a) (step_size b) \<Longrightarrow>
           P (consume n (a # as)) (consume n (b # bs)) \<Longrightarrow> P (a # as) (b # bs)"
    and "\<And>b bs. \<not> is_Add b \<Longrightarrow> P [] (b # bs)"
    and "\<And>a as. \<not> is_Add a \<Longrightarrow> P (a # as) []"
  shows "P as bs"
  by (induction as bs rule: xform.induct)
    (use assms in \<open>simp_all del: consume.simps step_size.simps\<close>)

declare xform.simps [simp del] consume.simps [simp del]

subsection \<open>Lengths of the results\<close>

lemma meet_lengths:
  "n = min (step_size a) (step_size b) \<Longrightarrow> \<not> is_Add b \<Longrightarrow> \<not> is_Drop a \<Longrightarrow>
     base (meet n a b) = step_base (chop n a) \<and> target (meet n a b) = step_target (chop n b) \<and>
     step_target (chop n a) = step_base (chop n b)"
  by (cases a; cases b) auto

lemma meet_left_lengths:
  "n = min (step_size a) (step_size b) \<Longrightarrow> \<not> is_Add a \<Longrightarrow> \<not> is_Add b \<Longrightarrow>
     base (meet_left n a b) = step_target (chop n b) \<and>
     target (meet_left n a b) = target (meet_left n b a) \<and>
     step_base (chop n a) = step_base (chop n b)"
  by (cases a; cases b) auto

lemma meet_parts:
  assumes "n = min (step_size a) (step_size b)"
  shows "base (a # as) = step_base (chop n a) + base (consume n (a # as)) \<and>
    base (b # bs) = step_base (chop n b) + base (consume n (b # bs)) \<and>
    target (a # as) = step_target (chop n a) + target (consume n (a # as)) \<and>
    target (b # bs) = step_target (chop n b) + target (consume n (b # bs))"
  using assms by (intro conjI base_consume target_consume) simp_all

lemma follow_lengths:
  "follow as bs = Some cs \<Longrightarrow> target as = base bs \<and> base cs = base as \<and> target cs = target bs"
proof (induction as bs arbitrary: cs rule: follow_induct)
  case (meet n a as b bs)
  from meet.prems(1) obtain cs' where cs: "cs = meet n a b @ cs'"
    and f: "follow (consume n (a # as)) (consume n (b # bs)) = Some cs'"
    unfolding follow_eqs(4) [OF meet.hyps(1-3)] by blast
  from meet.IH [OF f] meet_parts [OF meet.hyps(3), of as bs] meet_lengths [OF meet.hyps(3,2,1)]
  show ?case unfolding cs base_simps(3) target_simps(3) by (elim conjE, intro conjI; linarith)
qed (auto simp: follow_eqs)

lemma xform_lengths:
  "xform as bs = Some (as', bs') \<Longrightarrow>
     base as = base bs \<and> base as' = target bs \<and> base bs' = target as \<and> target as' = target bs'"
proof (induction as bs arbitrary: as' bs' rule: xform_induct)
  case (meet n a as b bs)
  from meet.prems(1) obtain as'' bs'' where
    res: "as' = meet_left n a b @ as''" "bs' = meet_left n b a @ bs''"
    and f: "xform (consume n (a # as)) (consume n (b # bs)) = Some (as'', bs'')"
    unfolding xform_eqs(4) [OF meet.hyps(1-3)] by auto
  have n': "n = min (step_size b) (step_size a)" using meet.hyps(3) by simp
  from meet.IH [OF f] meet_parts [OF meet.hyps(3), of as bs]
    meet_left_lengths [OF meet.hyps(3,1,2)] meet_left_lengths [OF n' meet.hyps(2,1)]
  show ?case unfolding res base_simps(3) target_simps(3) by (elim conjE, intro conjI; linarith)
qed (auto simp: xform_eqs)

lemma proper_meet: "0 < n \<Longrightarrow> n \<le> step_size a \<Longrightarrow> proper (meet n a b)"
  by (cases a; cases b) auto

lemma proper_meet_left: "0 < n \<Longrightarrow> proper (meet_left n a b)"
  by (cases a; cases b) auto

lemma base_pos: "proper es \<Longrightarrow> es \<noteq> [] \<Longrightarrow> \<not> is_Add (hd es) \<Longrightarrow> 0 < base es"
  by (cases es; cases "hd es") auto

lemma target_pos: "proper es \<Longrightarrow> es \<noteq> [] \<Longrightarrow> \<not> is_Drop (hd es) \<Longrightarrow> 0 < target es"
  by (cases es; cases "hd es") auto

lemma follow_total:
  "target as = base bs \<Longrightarrow> proper as \<Longrightarrow> proper bs \<Longrightarrow> \<exists>cs. follow as bs = Some cs \<and> proper cs"
proof (induction as bs rule: follow_induct)
  case (meet n a as b bs)
  from meet.prems meet.hyps have n: "0 < n" "n \<le> step_size a" by auto
  from meet.prems(1) meet_parts [OF meet.hyps(3), of as bs] meet_lengths [OF meet.hyps(3,2,1)]
  have "target (consume n (a # as)) = base (consume n (b # bs))" by simp
  then obtain cs where "follow (consume n (a # as)) (consume n (b # bs)) = Some cs" "proper cs"
    using meet.IH [OF _ proper_consume [OF meet.prems(2)] proper_consume [OF meet.prems(3)]] by blast
  with proper_meet [OF n] show ?case
    by (simp add: follow_eqs(4) [OF meet.hyps(1-3)])
next
  case (short_left b bs)
  then have "0 < base (b # bs)" by (intro base_pos) simp_all
  with short_left.prems(1) show ?case by (simp only: base_simps target_simps)
next
  case (short_right a as)
  then have "0 < target (a # as)" by (intro target_pos) simp_all
  with short_right.prems(1) show ?case by (simp only: base_simps target_simps)
qed (auto simp: follow_eqs)

lemma xform_total:
  "base as = base bs \<Longrightarrow> proper as \<Longrightarrow> proper bs \<Longrightarrow>
     \<exists>as' bs'. xform as bs = Some (as', bs') \<and> proper as' \<and> proper bs'"
proof (induction as bs rule: xform_induct)
  case (meet n a as b bs)
  from meet.prems meet.hyps have n: "0 < n" by auto
  from meet.prems(1) meet_parts [OF meet.hyps(3), of as bs] meet_left_lengths [OF meet.hyps(3,1,2)]
  have "base (consume n (a # as)) = base (consume n (b # bs))" by simp
  then obtain as' bs' where "xform (consume n (a # as)) (consume n (b # bs)) = Some (as', bs')"
    "proper as'" "proper bs'"
    using meet.IH [OF _ proper_consume [OF meet.prems(2)] proper_consume [OF meet.prems(3)]] by blast
  with proper_meet_left [OF n] show ?case
    by (simp add: xform_eqs(4) [OF meet.hyps(1-3)])
next
  case (short_left b bs)
  then have "0 < base (b # bs)" by (intro base_pos) simp_all
  with short_left.prems(1) show ?case by (simp only: base_simps target_simps)
next
  case (short_right a as)
  then have "0 < base (a # as)" by (intro base_pos) simp_all
  with short_right.prems(1) show ?case by (simp only: base_simps target_simps)
qed (auto simp: xform_eqs)

subsection \<open>Composition and transformation are correct\<close>

context contribution begin

lemma run_follow:
  "follow as bs = Some cs \<Longrightarrow> length d = base as \<Longrightarrow> run f cs d = run f bs (run f as d)"
proof (induction as bs arbitrary: cs d rule: follow_induct)
  case (add as t bs)
  then show ?case by (auto simp: follow_eqs)
next
  case (meet n a as b bs)
  from meet.prems(1) obtain cs' where cs: "cs = meet n a b @ cs'"
    and f: "follow (consume n (a # as)) (consume n (b # bs)) = Some cs'"
    unfolding follow_eqs(4) [OF meet.hyps(1-3)] by blast
  have n: "n \<le> step_size a" "n \<le> step_size b" using meet.hyps(3) by auto
  let ?d = "drop (step_base (chop n a)) d"
  have "length ?d = base (consume n (a # as))"
    using meet.prems(2) base_consume [OF n(1), of as] by simp
  note IH = meet.IH [OF f this]
  have d: "step_base (chop n a) \<le> length d"
    using meet.prems(2) base_consume [OF n(1), of as] by simp
  show ?case
    unfolding cs run_consume [OF n(1)] run_consume [OF n(2)]
    using meet.hyps(1,2) IH d n
    by (cases a; cases b) (simp_all add: f_length f_Nil)
qed (auto simp: follow_eqs)

end

text \<open>
  The diamond: carried over each other, two concurrent scripts end in the same result. The two
  scripts may contribute different things, so the same lemma speaks of text and of authorship.
\<close>

lemma run_xform:
  assumes f: "contribution f" and g: "contribution g"
  shows "xform as bs = Some (as', bs') \<Longrightarrow> length d = base as \<Longrightarrow>
    run f as' (run g bs d) = run g bs' (run f as d)"
proof (induction as bs arbitrary: as' bs' d rule: xform_induct)
  case (add_left t as bs)
  then show ?case by (auto simp: xform_eqs contribution.f_length [OF f])
next
  case (add_right as t bs)
  then show ?case by (auto simp: xform_eqs contribution.f_length [OF g])
next
  case (meet n a as b bs)
  from meet.prems(1) obtain as'' bs'' where
    res: "as' = meet_left n a b @ as''" "bs' = meet_left n b a @ bs''"
    and x: "xform (consume n (a # as)) (consume n (b # bs)) = Some (as'', bs'')"
    unfolding xform_eqs(4) [OF meet.hyps(1-3)] by auto
  have n: "n \<le> step_size a" "n \<le> step_size b" using meet.hyps(3) by auto
  have sb: "step_base (chop n a) = n" using meet.hyps(1) by (cases a) auto
  have d: "n \<le> length d" "length (drop n d) = base (consume n (a # as))"
    using meet.prems(2) base_consume [OF n(1), of as] sb by simp_all
  note IH = meet.IH [OF x d(2)]
  show ?case
    unfolding res contribution.run_consume [OF f n(1)] contribution.run_consume [OF g n(2)]
    using meet.hyps(1,2) IH d(1) by (cases a; cases b) simp_all
qed (auto simp: xform_eqs)

end
