(* ===== verification/Utf16.thy ===== *)
theory Utf16
  imports Prelude
begin

text \<open>
  The text encoding of \<^verbatim>\<open>internal/collab/ot.go\<close>: a Go string is the list of its runes, a document
  is a list of UTF-16 code units, \<open>encodeText\<close> and \<open>decodeText\<close> convert (they call the standard
  library's \<^verbatim>\<open>unicode/utf16\<close>), and \<open>insidePair\<close> recognises a position between the two halves of a
  surrogate pair. The lemmas show when the conversions lose nothing.
\<close>

subsection \<open>The standard library's utf16 package\<close>

definition max_rune :: nat where
  "max_rune = 0x10FFFF"

definition replacement_rune :: rune where
  "replacement_rune = 0xFFFD"

definition valid_rune :: "rune \<Rightarrow> bool" where
  "valid_rune r \<longleftrightarrow> r < 0xD800 \<or> (0xE000 \<le> r \<and> r \<le> max_rune)"

definition is_surrogate :: "unit16 \<Rightarrow> bool" where
  "is_surrogate u \<longleftrightarrow> 0xD800 \<le> unat u \<and> unat u < 0xE000"

text \<open>\<^verbatim>\<open>utf16.Encode\<close>: one unit below 0x10000, a pair above, the replacement rune otherwise.\<close>

definition encode_rune :: "rune \<Rightarrow> unit16 list" where
  "encode_rune r =
     (if r < 0xD800 \<or> (0xE000 \<le> r \<and> r < 0x10000) then [of_nat r]
      else if 0x10000 \<le> r \<and> r \<le> max_rune
      then [of_nat (0xD800 + (r - 0x10000) div 0x400), of_nat (0xDC00 + (r - 0x10000) mod 0x400)]
      else [of_nat replacement_rune])"

definition encodeText :: "rune list \<Rightarrow> unit16 list" where
  "encodeText text = concat (map encode_rune text)"

definition isHighSurrogate :: "unit16 \<Rightarrow> bool" where
  "isHighSurrogate u \<longleftrightarrow> 0xD800 \<le> unat u \<and> unat u \<le> 0xDBFF"

definition isLowSurrogate :: "unit16 \<Rightarrow> bool" where
  "isLowSurrogate u \<longleftrightarrow> 0xDC00 \<le> unat u \<and> unat u \<le> 0xDFFF"

definition pair_rune :: "unit16 \<Rightarrow> unit16 \<Rightarrow> rune" where
  "pair_rune h l = (unat h - 0xD800) * 0x400 + (unat l - 0xDC00) + 0x10000"

text \<open>\<^verbatim>\<open>utf16.Decode\<close>: a unit that is half of no pair becomes the replacement rune.\<close>

fun decodeText :: "unit16 list \<Rightarrow> rune list" where
  "decodeText [] = []"
| "decodeText [u] = [if is_surrogate u then replacement_rune else unat u]"
| "decodeText (u # v # us) =
     (if \<not> is_surrogate u then unat u # decodeText (v # us)
      else if isHighSurrogate u \<and> isLowSurrogate v then pair_rune u v # decodeText us
      else replacement_rune # decodeText (v # us))"

subsection \<open>Positions inside a pair\<close>

definition insidePair :: "unit16 list \<Rightarrow> int \<Rightarrow> bool" where
  "insidePair doc position \<longleftrightarrow>
     position > 0 \<and> position < int (length doc) \<and>
     isHighSurrogate (doc ! nat (position - 1)) \<and> isLowSurrogate (doc ! nat position)"

text \<open>Text in which every surrogate is half of a pair.\<close>

fun paired :: "unit16 list \<Rightarrow> bool" where
  "paired [] = True"
| "paired [u] = (\<not> is_surrogate u)"
| "paired (u # v # us) =
     (if \<not> is_surrogate u then paired (v # us)
      else isHighSurrogate u \<and> isLowSurrogate v \<and> paired us)"

lemma high_is_surrogate: "isHighSurrogate u \<Longrightarrow> is_surrogate u"
  by (auto simp: isHighSurrogate_def is_surrogate_def)

lemma low_is_surrogate: "isLowSurrogate u \<Longrightarrow> is_surrogate u"
  by (auto simp: isLowSurrogate_def is_surrogate_def)

lemma low_not_high: "isLowSurrogate u \<Longrightarrow> \<not> isHighSurrogate u"
  by (auto simp: isHighSurrogate_def isLowSurrogate_def)

lemma surrogate_cases: "is_surrogate u \<longleftrightarrow> isHighSurrogate u \<or> isLowSurrogate u"
  by (auto simp: isHighSurrogate_def isLowSurrogate_def is_surrogate_def)

lemma paired_append: "paired xs \<Longrightarrow> paired ys \<Longrightarrow> paired (xs @ ys)"
proof (induction xs rule: paired.induct)
  case (2 u)
  then show ?case by (cases ys) auto
qed (auto split: if_splits)

lemma paired_appendD2: "paired (xs @ ys) \<Longrightarrow> paired xs \<Longrightarrow> paired ys"
proof (induction xs rule: paired.induct)
  case (2 u)
  then show ?case by (cases ys) auto
qed (auto split: if_splits)

subsection \<open>Round trips\<close>

lemma unat_unit16: "n < 0x10000 \<Longrightarrow> unat (of_nat n :: unit16) = n"
  by (simp add: unat_of_nat)

lemma high_half: "r \<le> max_rune \<Longrightarrow> (r - 0x10000) div 0x400 < 0x400"
  by (rule less_mult_imp_div_less) (simp add: max_rune_def)

lemma encode_rune_paired: "paired (encode_rune r)"
proof -
  consider "r < 0xD800 \<or> (0xE000 \<le> r \<and> r < 0x10000)" | "0x10000 \<le> r \<and> r \<le> max_rune"
    | "\<not> (r < 0xD800 \<or> (0xE000 \<le> r \<and> r < 0x10000))" "\<not> (0x10000 \<le> r \<and> r \<le> max_rune)"
    by blast
  then show ?thesis
  proof cases
    case 1
    then show ?thesis
      by (auto simp: encode_rune_def is_surrogate_def unat_of_nat)
  next
    case 2
    then have hi: "(r - 0x10000) div 0x400 < 0x400" by (simp add: high_half)
    have lo: "(r - 0x10000) mod 0x400 < 0x400" by simp
    from 2 hi lo show ?thesis
      by (simp add: encode_rune_def is_surrogate_def isHighSurrogate_def isLowSurrogate_def
          unat_unit16 del: of_nat_add)
  next
    case 3
    then have "encode_rune r = [of_nat replacement_rune]"
      by (auto simp: encode_rune_def)
    then show ?thesis by (simp add: is_surrogate_def replacement_rune_def)
  qed
qed

lemma encodeText_paired: "paired (encodeText rs)"
  by (induction rs) (auto simp: encodeText_def intro: paired_append encode_rune_paired)

lemma encodeText_append: "encodeText (s @ t) = encodeText s @ encodeText t"
  by (simp add: encodeText_def)

lemma encodeText_simps [simp]:
  "encodeText [] = []"
  "encodeText (r # rs) = encode_rune r @ encodeText rs"
  by (simp_all add: encodeText_def)

lemma encode_rune_nonempty: "encode_rune r \<noteq> []"
  by (simp add: encode_rune_def)

lemma encodeText_Nil_iff [simp]: "encodeText rs = [] \<longleftrightarrow> rs = []"
  by (cases rs) (auto simp: encode_rune_nonempty)

lemma decode_encode_rune:
  assumes "valid_rune r"
  shows "decodeText (encode_rune r @ us) = r # decodeText us"
proof (cases "r < 0x10000")
  case True
  with assms have r: "r < 0xD800 \<or> (0xE000 \<le> r \<and> r < 0x10000)"
    by (auto simp: valid_rune_def)
  then have "\<not> is_surrogate (of_nat r)" "unat (of_nat r :: unit16) = r"
    by (auto simp: is_surrogate_def unat_of_nat)
  with r show ?thesis by (cases us) (auto simp: encode_rune_def)
next
  case False
  with assms have r: "0x10000 \<le> r" "r \<le> max_rune" by (auto simp: valid_rune_def)
  then have hi: "(r - 0x10000) div 0x400 < 0x400" by (simp add: high_half)
  have lo: "(r - 0x10000) mod 0x400 < 0x400" by simp
  let ?h = "of_nat (0xD800 + (r - 0x10000) div 0x400) :: unit16"
  let ?l = "of_nat (0xDC00 + (r - 0x10000) mod 0x400) :: unit16"
  from hi have h: "unat ?h = 0xD800 + (r - 0x10000) div 0x400" by (simp add: unat_unit16 del: of_nat_add)
  from lo have l: "unat ?l = 0xDC00 + (r - 0x10000) mod 0x400" by (simp add: unat_unit16 del: of_nat_add)
  have "pair_rune ?h ?l = r"
    using r(1) by (simp add: pair_rune_def h l del: of_nat_add)
  moreover have "isHighSurrogate ?h" "isLowSurrogate ?l"
    using hi lo by (simp_all add: isHighSurrogate_def isLowSurrogate_def h l del: of_nat_add)
  ultimately show ?thesis
    using r by (simp add: encode_rune_def high_is_surrogate del: of_nat_add)
qed

lemma decode_encode:
  "list_all valid_rune rs \<Longrightarrow> decodeText (encodeText rs) = rs"
  by (induction rs) (auto simp: decode_encode_rune)

lemma encode_unpaired_unit:
  "\<not> is_surrogate u \<Longrightarrow> encode_rune (unat u) = [u]"
  using unsigned_less [of u, where ?'a = nat] by (auto simp: encode_rune_def is_surrogate_def)

lemma encode_pair:
  assumes "isHighSurrogate u" and "isLowSurrogate v"
  shows "encode_rune (pair_rune u v) = [u, v]"
proof -
  define a where "a = unat u - 0xD800"
  define b where "b = unat v - 0xDC00"
  from assms have u: "unat u = 0xD800 + a" and v: "unat v = 0xDC00 + b"
    and a: "a < 0x400" and b: "b < 0x400"
    by (auto simp: a_def b_def isHighSurrogate_def isLowSurrogate_def)
  have r: "pair_rune u v = 0x10000 + (a * 0x400 + b)"
    by (simp add: pair_rune_def a_def b_def)
  have "(a * 0x400 + b) div 0x400 = a" "(a * 0x400 + b) mod 0x400 = b"
    using b by auto
  moreover have "a * 0x400 + b \<le> 0xFFFFF" using a b by simp
  ultimately have "encode_rune (pair_rune u v) = [of_nat (0xD800 + a), of_nat (0xDC00 + b)]"
    by (simp add: encode_rune_def r max_rune_def)
  also have "\<dots> = [u, v]" by (simp only: u [symmetric] v [symmetric] of_nat_unat ucast_id)
  finally show ?thesis .
qed

lemma encode_decode: "paired us \<Longrightarrow> encodeText (decodeText us) = us"
proof (induction us rule: paired.induct)
  case (2 u)
  then show ?case by (simp add: encode_unpaired_unit)
next
  case (3 u v us)
  then show ?case by (auto simp: encode_unpaired_unit encode_pair split: if_splits)
qed simp

end
