(* ===== verification/OT.thy ===== *)
theory OT
  imports Edits Utf16
begin

text \<open>
  \<^verbatim>\<open>internal/collab/ot.go\<close>: operations, their builder methods, application to a document, the
  component cursors and the two loops that run over them, \<open>Compose\<close> and \<open>Transform\<close>. Every
  definition is the Go function of the same name; the loops are functions over the same cursor
  state, shown to terminate for every input. The abstraction \<open>edits\<close> maps an operation to an edit
  script, and the refinement lemmas say that each function computes its reference in \<open>Edits\<close>.
\<close>

subsection \<open>Operations\<close>

text \<open>\<open>comp\<close> is a retain (\<open>n > 0\<close>), a delete (\<open>n < 0\<close>), or an insert (\<open>n = 0\<close>, \<open>ins\<close> set).\<close>

record comp =
  n_of :: int
  ins_of :: "unit16 list"

definition isRetain :: "comp \<Rightarrow> bool" where "isRetain c \<longleftrightarrow> n_of c > 0"

definition isDelete :: "comp \<Rightarrow> bool" where "isDelete c \<longleftrightarrow> n_of c < 0"

definition isInsert :: "comp \<Rightarrow> bool" where "isInsert c \<longleftrightarrow> n_of c = 0"

record op =
  comps :: "comp list"
  baseLen :: int
  targetLen :: int

text \<open>
  The three errors of the file, and the run-time panic of a slice expression out of range, which
  the functional lemmas show no well-formed operation reaches.
\<close>

datatype ot_error = ErrBaseLength | ErrCompose | ErrTransform | SlicePanic

definition NewOp :: op where
  "NewOp = \<lparr>comps = [], baseLen = 0, targetLen = 0\<rparr>"

definition IsNoop :: "op \<Rightarrow> bool" where
  "IsNoop p \<longleftrightarrow> length (comps p) = 0 \<or> (length (comps p) = 1 \<and> isRetain (comps p ! 0))"

subsection \<open>The builder methods\<close>

definition Retain :: "op \<Rightarrow> int \<Rightarrow> op" where
  "Retain p n =
     (if n \<le> 0 then p
      else let p = p\<lparr>baseLen := baseLen p + n, targetLen := targetLen p + n\<rparr>; cs = comps p in
        if cs \<noteq> [] \<and> isRetain (last cs)
        then p\<lparr>comps := butlast cs @ [(last cs)\<lparr>n_of := n_of (last cs) + n\<rparr>]\<rparr>
        else p\<lparr>comps := cs @ [\<lparr>n_of = n, ins_of = []\<rparr>]\<rparr>)"

definition Delete :: "op \<Rightarrow> int \<Rightarrow> op" where
  "Delete p n =
     (if n \<le> 0 then p
      else let p = p\<lparr>baseLen := baseLen p + n\<rparr>; cs = comps p in
        if cs \<noteq> [] \<and> isDelete (last cs)
        then p\<lparr>comps := butlast cs @ [(last cs)\<lparr>n_of := n_of (last cs) - n\<rparr>]\<rparr>
        else p\<lparr>comps := cs @ [\<lparr>n_of = - n, ins_of = []\<rparr>]\<rparr>)"

text \<open>An insert that directly follows a delete is stored before it.\<close>

definition Insert :: "op \<Rightarrow> unit16 list \<Rightarrow> op" where
  "Insert p t =
     (if length t = 0 then p
      else let p = p\<lparr>targetLen := targetLen p + int (length t)\<rparr>; cs = comps p in
        if cs \<noteq> [] \<and> isInsert (last cs)
        then p\<lparr>comps := butlast cs @ [(last cs)\<lparr>ins_of := ins_of (last cs) @ t\<rparr>]\<rparr>
        else if cs \<noteq> [] \<and> isDelete (last cs)
        then (if butlast cs \<noteq> [] \<and> isInsert (last (butlast cs))
              then p\<lparr>comps := butlast (butlast cs) @
                       [(last (butlast cs))\<lparr>ins_of := ins_of (last (butlast cs)) @ t\<rparr>, last cs]\<rparr>
              else p\<lparr>comps := butlast cs @ [\<lparr>n_of = 0, ins_of = t\<rparr>, last cs]\<rparr>)
        else p\<lparr>comps := cs @ [\<lparr>n_of = 0, ins_of = t\<rparr>]\<rparr>)"

definition InsertString :: "op \<Rightarrow> rune list \<Rightarrow> op" where
  "InsertString p s = Insert p (encodeText s)"

definition replaceOp :: "int \<Rightarrow> int \<Rightarrow> int \<Rightarrow> unit16 list \<Rightarrow> op" where
  "replaceOp len start end_pos t =
     Retain (Delete (Insert (Retain NewOp start) t) (end_pos - start)) (len - end_pos)"

subsection \<open>Application\<close>

fun apply_loop :: "unit16 list \<Rightarrow> comp list \<Rightarrow> unit16 list \<Rightarrow> int \<Rightarrow> (ot_error, unit16 list) result" where
  "apply_loop doc [] out position = Inr out"
| "apply_loop doc (c # cs) out position =
     (if isRetain c then
        (case slice doc position (position + n_of c) of
           None \<Rightarrow> Inl SlicePanic
         | Some kept \<Rightarrow> apply_loop doc cs (out @ kept) (position + n_of c))
      else if isInsert c then apply_loop doc cs (out @ ins_of c) position
      else apply_loop doc cs out (position - n_of c))"

definition Apply :: "op \<Rightarrow> unit16 list \<Rightarrow> (ot_error, unit16 list) result" where
  "Apply p doc =
     (if int (length doc) \<noteq> baseLen p then Inl ErrBaseLength
      else apply_loop doc (comps p) [] 0)"

subsection \<open>Cursors\<close>

record cursor =
  cur_comps :: "comp list"
  cur_index :: nat
  cur_used :: int

definition new_cursor :: "comp list \<Rightarrow> cursor" where
  "new_cursor cs = \<lparr>cur_comps = cs, cur_index = 0, cur_used = 0\<rparr>"

definition cur_done :: "cursor \<Rightarrow> bool" where
  "cur_done c \<longleftrightarrow> cur_index c \<ge> length (cur_comps c)"

definition peek :: "cursor \<Rightarrow> comp" where
  "peek c = cur_comps c ! cur_index c"

definition remaining :: "cursor \<Rightarrow> int" where
  "remaining c =
     (let current = peek c in
      if isInsert current then int (length (ins_of current)) - cur_used c
      else if isRetain current then n_of current - cur_used c
      else - n_of current - cur_used c)"

text \<open>
  \<open>cur_take\<close> is called with \<open>n \<le> remaining\<close> only, so \<open>ins[used : used + n]\<close> is always in range
  (lemma \<open>cur_take_in_range\<close>).
\<close>

definition cur_take :: "cursor \<Rightarrow> int \<Rightarrow> unit16 list \<times> cursor" where
  "cur_take c n =
     (let current = peek c;
          t = (if isInsert current then sub (ins_of current) (cur_used c) (cur_used c + n) else []);
          c' = c\<lparr>cur_used := cur_used c + n\<rparr>
      in if remaining c' = 0 then (t, c'\<lparr>cur_index := cur_index c' + 1, cur_used := 0\<rparr>)
         else (t, c'))"

definition left_over :: "cursor \<Rightarrow> nat" where
  "left_over c = length (cur_comps c) - cur_index c"

lemma cur_take_comps [simp]: "cur_comps (snd (cur_take c n)) = cur_comps c"
  by (simp add: cur_take_def Let_def)

lemma cur_take_progress:
  "\<not> cur_done c \<Longrightarrow> left_over (snd (cur_take c n)) \<le> left_over c"
  "\<not> cur_done c \<Longrightarrow> left_over (snd (cur_take c (remaining c))) < left_over c"
  by (auto simp: cur_take_def Let_def left_over_def cur_done_def remaining_def peek_def)

lemma min_remaining_progress:
  assumes "\<not> cur_done l" and "\<not> cur_done r" and "n = min (remaining l) (remaining r)"
  shows "left_over (snd (cur_take l n)) + left_over (snd (cur_take r n)) < left_over l + left_over r"
proof (cases "remaining l \<le> remaining r")
  case True
  then show ?thesis
    using assms cur_take_progress(2) [of l] cur_take_progress(1) [of r n]
    by (simp add: min_def add_less_le_mono)
next
  case False
  then show ?thesis
    using assms cur_take_progress(1) [of l n] cur_take_progress(2) [of r]
    by (simp add: min_def add_le_less_mono)
qed

subsection \<open>Compose\<close>

function compose_loop :: "op \<Rightarrow> cursor \<Rightarrow> cursor \<Rightarrow> (ot_error, op) result" where
  "compose_loop out left right =
     (if \<not> cur_done left \<and> isDelete (peek left) then
        compose_loop (Delete out (remaining left)) (snd (cur_take left (remaining left))) right
      else if \<not> cur_done right \<and> isInsert (peek right) then
        compose_loop (Insert out (fst (cur_take right (remaining right))))
          left (snd (cur_take right (remaining right)))
      else if cur_done left \<and> cur_done right then Inr out
      else if cur_done left \<or> cur_done right then Inl ErrCompose
      else
        let n = min (remaining left) (remaining right); l = peek left; r = peek right;
            out' = (if isRetain l \<and> isRetain r then Retain out n
                    else if isRetain l \<and> isDelete r then Delete out n
                    else if isInsert l \<and> isRetain r
                    then Insert out (sub (ins_of l) (cur_used left) (cur_used left + n))
                    else out)
        in compose_loop out' (snd (cur_take left n)) (snd (cur_take right n)))"
  by pat_completeness auto
termination
  by (relation "measure (\<lambda>(out, left, right). left_over left + left_over right)")
    (auto simp: cur_take_progress min_remaining_progress)

definition Compose :: "op \<Rightarrow> op \<Rightarrow> (ot_error, op) result" where
  "Compose a b =
     (if targetLen a \<noteq> baseLen b then Inl ErrCompose
      else compose_loop NewOp (new_cursor (comps a)) (new_cursor (comps b)))"

subsection \<open>Transform\<close>

function transform_loop :: "op \<Rightarrow> op \<Rightarrow> cursor \<Rightarrow> cursor \<Rightarrow> (ot_error, op \<times> op) result" where
  "transform_loop aPrime bPrime left right =
     (if \<not> cur_done left \<and> isInsert (peek left) then
        let t = fst (cur_take left (remaining left)) in
        transform_loop (Insert aPrime t) (Retain bPrime (int (length t)))
          (snd (cur_take left (remaining left))) right
      else if \<not> cur_done right \<and> isInsert (peek right) then
        let t = fst (cur_take right (remaining right)) in
        transform_loop (Retain aPrime (int (length t))) (Insert bPrime t)
          left (snd (cur_take right (remaining right)))
      else if cur_done left \<and> cur_done right then Inr (aPrime, bPrime)
      else if cur_done left \<or> cur_done right then Inl ErrTransform
      else
        let n = min (remaining left) (remaining right); l = peek left; r = peek right;
            primes = (if isRetain l \<and> isRetain r then (Retain aPrime n, Retain bPrime n)
                      else if isDelete l \<and> isRetain r then (Delete aPrime n, bPrime)
                      else if isRetain l \<and> isDelete r then (aPrime, Delete bPrime n)
                      else (aPrime, bPrime))
        in transform_loop (fst primes) (snd primes) (snd (cur_take left n)) (snd (cur_take right n)))"
  by pat_completeness auto
termination
  by (relation "measure (\<lambda>(a, b, left, right). left_over left + left_over right)")
    (auto simp: cur_take_progress min_remaining_progress)

definition Transform :: "op \<Rightarrow> op \<Rightarrow> (ot_error, op \<times> op) result" where
  "Transform a b =
     (if baseLen a \<noteq> baseLen b then Inl ErrTransform
      else transform_loop NewOp NewOp (new_cursor (comps a)) (new_cursor (comps b)))"

declare compose_loop.simps [simp del] transform_loop.simps [simp del]

subsection \<open>Well-formed operations and the scripts they denote\<close>

text \<open>
  A component is well-formed when its text is set exactly for an insert; an operation is when its
  components are and the two cached lengths are those of its components. These are the values
  the builder methods make.
\<close>

definition comp_wf :: "comp \<Rightarrow> bool" where
  "comp_wf c \<longleftrightarrow> (n_of c = 0 \<longleftrightarrow> ins_of c \<noteq> [])"

definition edit_of :: "comp \<Rightarrow> edit" where
  "edit_of c =
     (if isRetain c then Keep (nat (n_of c))
      else if isInsert c then Add (ins_of c)
      else Drop (nat (- n_of c)))"

definition edits :: "op \<Rightarrow> edit list" where
  "edits p = map edit_of (comps p)"

definition op_wf :: "op \<Rightarrow> bool" where
  "op_wf p \<longleftrightarrow> list_all comp_wf (comps p) \<and>
     baseLen p = int (base (edits p)) \<and> targetLen p = int (target (edits p))"

lemmas comp_kind_defs = isRetain_def isDelete_def isInsert_def

lemma edit_of_simps [edit_simps]:
  "isRetain c \<Longrightarrow> edit_of c = Keep (nat (n_of c))"
  "isInsert c \<Longrightarrow> edit_of c = Add (ins_of c)"
  "isDelete c \<Longrightarrow> edit_of c = Drop (nat (- n_of c))"
  by (auto simp: edit_of_def comp_kind_defs)

lemma edit_of_kind [edit_simps]:
  "is_Keep (edit_of c) \<longleftrightarrow> isRetain c"
  "is_Add (edit_of c) \<longleftrightarrow> isInsert c"
  "is_Drop (edit_of c) \<longleftrightarrow> isDelete c"
  by (auto simp: edit_of_def comp_kind_defs)

lemma step_size_edit_of: "comp_wf c \<Longrightarrow> 0 < step_size (edit_of c)"
  by (auto simp: edit_of_def comp_kind_defs comp_wf_def)

lemma proper_edits: "op_wf p \<Longrightarrow> proper (edits p)"
  by (auto simp: op_wf_def edits_def proper_def list_all_iff step_size_edit_of)

lemma op_wf_NewOp [simp]: "op_wf NewOp" "edits NewOp = []"
  by (simp_all add: op_wf_def NewOp_def edits_def)

text \<open>The builder call that appends one step, and a list of such calls.\<close>

fun emit :: "op \<Rightarrow> edit \<Rightarrow> op" where
  "emit p (Keep n) = Retain p (int n)"
| "emit p (Add t) = Insert p t"
| "emit p (Drop n) = Delete p (int n)"

definition build :: "op \<Rightarrow> edit list \<Rightarrow> op" where
  "build p es = foldl emit p es"

lemma build_simps [simp]:
  "build p [] = p" "build p (e # es) = build (emit p e) es"
  "build p (es @ es') = build (build p es) es'"
  by (simp_all add: build_def)

lemma op_wf_emit:
  assumes "op_wf p"
  shows "op_wf (emit p e) \<and> base (edits (emit p e)) = base (edits p) + step_base e \<and>
    target (edits (emit p e)) = target (edits p) + step_target e"
proof (cases "comps p" rule: rev_cases)
  case Nil
  with assms show ?thesis
    by (cases e) (auto simp: Retain_def Delete_def Insert_def op_wf_def edits_def comp_wf_def
        edit_of_def comp_kind_defs Let_def)
next
  case (snoc cs c)
  show ?thesis
  proof (cases cs rule: rev_cases)
    case Nil
    with assms snoc show ?thesis
      by (cases e) (auto simp: Retain_def Delete_def Insert_def op_wf_def edits_def comp_wf_def
          edit_of_def comp_kind_defs Let_def)
  next
    case (snoc ds d)
    with assms \<open>comps p = cs @ [c]\<close> show ?thesis
      by (cases e) (auto simp: Retain_def Delete_def Insert_def op_wf_def edits_def comp_wf_def
          edit_of_def comp_kind_defs Let_def butlast_append)
  qed
qed

context contribution begin

lemma run_emit:
  assumes "op_wf p"
  shows "run f (edits (emit p e)) d = run f (edits p @ [e]) d"
proof (cases "comps p" rule: rev_cases)
  case Nil
  with assms show ?thesis
    by (cases e) (auto simp: Retain_def Delete_def Insert_def op_wf_def edits_def comp_wf_def
        edit_of_def comp_kind_defs Let_def f_Nil)
next
  case (snoc cs c)
  then have c: "comp_wf c" using assms by (simp add: op_wf_def)
  show ?thesis
  proof (cases cs rule: rev_cases)
    case Nil
    with c snoc show ?thesis
      by (cases e) (auto simp: Retain_def Delete_def Insert_def edits_def comp_wf_def
          edit_of_def comp_kind_defs Let_def f_Nil f_append take_join nat_add_distrib nat_diff_distrib
          drop_drop ac_simps)
  next
    case (snoc ds d')
    have d': "comp_wf d'" using assms snoc \<open>comps p = cs @ [c]\<close> by (simp add: op_wf_def)
    have p: "comps p = ds @ [d', c]" using snoc \<open>comps p = cs @ [c]\<close> by simp
    show ?thesis
    proof (cases e)
      case (Keep n)
      have join: "take (n + nat (n_of c)) xs = take (nat (n_of c)) xs @ take n (drop (nat (n_of c)) xs)"
        for xs :: "'a list"
        by (metis take_add add.commute)
      from Keep c p show ?thesis
        by (cases "isRetain c") (auto simp: Retain_def edits_def edit_of_def comp_kind_defs Let_def
            join nat_add_distrib drop_drop ac_simps butlast_append run_append)
    next
      case (Add t)
      with c d' p show ?thesis
        by (auto simp: Insert_def edits_def comp_wf_def
            edit_of_def comp_kind_defs Let_def f_Nil f_append butlast_append run_append)
    next
      case (Drop n)
      with c p show ?thesis
        by (cases "isDelete c") (auto simp: Delete_def edits_def edit_of_def comp_kind_defs Let_def
            nat_add_distrib nat_diff_distrib drop_drop ac_simps butlast_append run_append)
    qed
  qed
qed

end

lemma op_wf_build: "op_wf p \<Longrightarrow> op_wf (build p es) \<and>
    base (edits (build p es)) = base (edits p) + base es \<and>
    target (edits (build p es)) = target (edits p) + target es"
proof (induction es arbitrary: p)
  case (Cons e es)
  then show ?case using op_wf_emit [OF Cons.prems, of e] by simp
qed simp

context contribution begin

lemma run_build: "op_wf p \<Longrightarrow> run f (edits (build p es)) d = run f (edits p @ es) d"
proof (induction es arbitrary: p)
  case (Cons e es)
  from op_wf_emit [OF Cons.prems, of e] have wf: "op_wf (emit p e)"
    and b: "base (edits (emit p e)) = base (edits p) + step_base e" by auto
  have "run f (edits (build p (e # es))) d = run f (edits (emit p e) @ es) d"
    using Cons.IH [OF wf] by simp
  also have "\<dots> = run f (edits p @ [e] @ es) d"
    using run_emit [OF Cons.prems, of e d] b run_append [of f "[e]" es "drop (base (edits p)) d"]
    by (simp add: run_append add.commute)
  finally show ?case by simp
qed simp

end

subsection \<open>What a cursor has left\<close>

definition cur_inv :: "cursor \<Rightarrow> bool" where
  "cur_inv c \<longleftrightarrow> list_all comp_wf (cur_comps c) \<and>
     (cur_done c \<or> (0 \<le> cur_used c \<and> cur_used c < int (step_size (edit_of (peek c)))))"

definition rest :: "cursor \<Rightarrow> edit list" where
  "rest c = (if cur_done c then []
     else consume (nat (cur_used c)) (map edit_of (drop (cur_index c) (cur_comps c))))"

lemma rest_step_0 [simp]: "rest_step 0 e = e"
  by (cases e) auto

lemma cursor_drop:
  "\<not> cur_done c \<Longrightarrow>
     drop (cur_index c) (cur_comps c) = peek c # drop (Suc (cur_index c)) (cur_comps c)"
  by (simp add: cur_done_def peek_def Cons_nth_drop_Suc)

lemma peek_wf: "cur_inv c \<Longrightarrow> \<not> cur_done c \<Longrightarrow> comp_wf (peek c)"
  by (auto simp: cur_inv_def list_all_iff cur_done_def peek_def)

lemma rest_Nil: "cur_done c \<Longrightarrow> rest c = []"
  by (simp add: rest_def)

lemma rest_Cons:
  assumes "cur_inv c" and "\<not> cur_done c"
  obtains e where "rest c = e # map edit_of (drop (Suc (cur_index c)) (cur_comps c))"
    and "e = rest_step (nat (cur_used c)) (edit_of (peek c))"
    and "step_size e = nat (remaining c)" and "0 < remaining c"
    and "is_Keep e \<longleftrightarrow> isRetain (peek c)" and "is_Add e \<longleftrightarrow> isInsert (peek c)"
    and "is_Drop e \<longleftrightarrow> isDelete (peek c)"
proof
  let ?e = "rest_step (nat (cur_used c)) (edit_of (peek c))"
  from assms have used: "0 \<le> cur_used c" "cur_used c < int (step_size (edit_of (peek c)))"
    by (auto simp: cur_inv_def)
  then show "rest c = ?e # map edit_of (drop (Suc (cur_index c)) (cur_comps c))"
    using assms by (simp add: rest_def cursor_drop consume.simps nat_less_iff)
  show "step_size ?e = nat (remaining c)" "0 < remaining c"
    using used by (auto simp: remaining_def edit_of_def Let_def nat_diff_distrib comp_kind_defs
        split: if_splits)
  show "is_Keep ?e \<longleftrightarrow> isRetain (peek c)" "is_Add ?e \<longleftrightarrow> isInsert (peek c)"
    "is_Drop ?e \<longleftrightarrow> isDelete (peek c)"
    by (auto simp: edit_of_def comp_kind_defs)
qed simp

lemma new_cursor_rest [simp]:
  assumes "op_wf p"
  shows "cur_inv (new_cursor (comps p))" and "rest (new_cursor (comps p)) = edits p"
  using assms
  by (auto simp: cur_inv_def new_cursor_def op_wf_def rest_def edits_def cur_done_def peek_def
      list_all_iff step_size_edit_of consume.simps neq_Nil_conv split: list.splits
      intro!: step_size_edit_of)


lemma cur_take_rest:
  assumes inv: "cur_inv c" and d: "\<not> cur_done c" and n: "0 < n" "n \<le> remaining c"
  shows "cur_inv (snd (cur_take c n)) \<and> rest (snd (cur_take c n)) = consume (nat n) (rest c)"
proof -
  obtain e where r: "rest c = e # map edit_of (drop (Suc (cur_index c)) (cur_comps c))"
    and e: "e = rest_step (nat (cur_used c)) (edit_of (peek c))"
    and s: "step_size e = nat (remaining c)" and pos: "0 < remaining c"
    using rest_Cons [OF inv d] by metis
  have used: "0 \<le> cur_used c" "cur_used c < int (step_size (edit_of (peek c)))"
    using inv d by (auto simp: cur_inv_def)
  have wf: "list_all comp_wf (cur_comps c)" using inv by (simp add: cur_inv_def)
  let ?c1 = "c\<lparr>cur_used := cur_used c + n\<rparr>"
  have rem: "remaining ?c1 = remaining c - n" by (simp add: remaining_def Let_def peek_def)
  show ?thesis
  proof (cases "n = remaining c")
    case True
    let ?c2 = "?c1\<lparr>cur_index := cur_index c + 1, cur_used := 0\<rparr>"
    have t: "snd (cur_take c n) = ?c2"
      using True rem by (simp add: cur_take_def Let_def)
    have "cur_inv ?c2"
      using wf by (auto simp: cur_inv_def cur_done_def peek_def list_all_iff intro!: step_size_edit_of)
    moreover have "rest ?c2 = map edit_of (drop (Suc (cur_index c)) (cur_comps c))"
    proof (cases "cur_done ?c2")
      case True
      then show ?thesis by (simp add: rest_def cur_done_def)
    next
      case False
      then have "comp_wf (peek ?c2)" using wf by (auto simp: list_all_iff cur_done_def peek_def)
      then show ?thesis
        using False cursor_drop [OF False]
        by (simp add: rest_def consume.simps step_size_edit_of)
    qed
    ultimately show ?thesis
      unfolding t r using True s by (simp add: consume.simps)
  next
    case False
    have t: "snd (cur_take c n) = ?c1"
      using False rem by (simp add: cur_take_def Let_def)
    have nd: "\<not> cur_done ?c1" and pk: "peek ?c1 = peek c"
      using d by (simp_all add: cur_done_def peek_def)
    have lt: "n < remaining c" using False n by simp
    have size: "step_size (edit_of (peek c)) = nat (remaining c) + nat (cur_used c)"
      using s used by (simp add: e)
    then have u: "cur_used c + n < int (step_size (edit_of (peek c)))"
      using lt used by linarith
    have "cur_inv ?c1"
      using wf used n u nd pk by (simp add: cur_inv_def)
    moreover have "rest ?c1 = consume (nat n) (rest c)"
    proof -
      have un: "nat (cur_used c + n) < step_size (edit_of (peek c))"
        using u used n by (simp add: nat_less_iff)
      have "rest ?c1 = rest_step (nat (cur_used c + n)) (edit_of (peek c)) #
          map edit_of (drop (Suc (cur_index c)) (cur_comps c))"
        using un nd pk cursor_drop [OF d] by (simp add: rest_def consume.simps)
      also have "rest_step (nat (cur_used c + n)) (edit_of (peek c)) = rest_step (nat n) e"
        using used n by (cases "edit_of (peek c)") (auto simp: e nat_add_distrib add.commute)
      finally show ?thesis using lt n s by (simp add: r consume.simps nat_less_iff)
    qed
    ultimately show ?thesis by (simp add: t)
  qed
qed

lemma cur_take_text:
  assumes inv: "cur_inv c" and d: "\<not> cur_done c" and "isInsert (peek c)" and "0 < n"
  shows "fst (cur_take c n) = (case hd (rest c) of Add t \<Rightarrow> take (nat n) t)"
    and "sub (ins_of (peek c)) (cur_used c) (cur_used c + n) = (case hd (rest c) of Add t \<Rightarrow> take (nat n) t)"
  using assms
  by (auto simp: cur_take_def Let_def sub_def rest_def cursor_drop consume.simps edit_of_simps
      cur_inv_def nat_less_iff)

text \<open>\<open>cur_take\<close> never slices out of range, even on a component that is not well-formed.\<close>

lemma cur_take_in_range:
  assumes "cur_inv c" and "\<not> cur_done c" and "isInsert (peek c)" and "0 < n" and "n \<le> remaining c"
  shows "slice (ins_of (peek c)) (cur_used c) (cur_used c + n) =
    Some (sub (ins_of (peek c)) (cur_used c) (cur_used c + n))"
  using assms by (auto simp: slice_def sub_def remaining_def cur_inv_def edit_of_simps)


subsection \<open>The loops compute the reference functions\<close>

subsection \<open>The loops compute the reference functions\<close>

lemma cursor_kind:
  assumes "cur_inv c"
  shows "cur_done c \<longleftrightarrow> rest c = []"
    and "\<not> cur_done c \<and> isDelete (peek c) \<longleftrightarrow> drops_first (rest c)"
    and "\<not> cur_done c \<and> isInsert (peek c) \<longleftrightarrow> adds_first (rest c)"
proof -
  show "cur_done c \<longleftrightarrow> rest c = []"
    using rest_Cons [OF assms] rest_Nil by (metis list.distinct(1))
  show "\<not> cur_done c \<and> isDelete (peek c) \<longleftrightarrow> drops_first (rest c)"
    using rest_Cons [OF assms] rest_Nil first_simps(3,4) by metis
  show "\<not> cur_done c \<and> isInsert (peek c) \<longleftrightarrow> adds_first (rest c)"
    using rest_Cons [OF assms] rest_Nil first_simps(1,2) by metis
qed

lemma cursor_head:
  assumes "cur_inv c" and "rest c = e # es"
  shows "remaining c = int (step_size e)" and "0 < step_size e" and "\<not> cur_done c"
    and "isRetain (peek c) \<longleftrightarrow> is_Keep e" and "isInsert (peek c) \<longleftrightarrow> is_Add e"
    and "isDelete (peek c) \<longleftrightarrow> is_Drop e"
proof -
  show nd: "\<not> cur_done c" using assms rest_Nil by fastforce
  obtain e' where "rest c = e' # map edit_of (drop (Suc (cur_index c)) (cur_comps c))"
    and s: "step_size e' = nat (remaining c)" "0 < remaining c"
    and k: "is_Keep e' \<longleftrightarrow> isRetain (peek c)" "is_Add e' \<longleftrightarrow> isInsert (peek c)"
      "is_Drop e' \<longleftrightarrow> isDelete (peek c)"
    using rest_Cons [OF assms(1) nd] by metis
  with assms(2) have "e' = e" by simp
  with s k show "remaining c = int (step_size e)" "0 < step_size e"
    "isRetain (peek c) \<longleftrightarrow> is_Keep e" "isInsert (peek c) \<longleftrightarrow> is_Add e"
    "isDelete (peek c) \<longleftrightarrow> is_Drop e"
    by auto
qed

text \<open>Consuming the whole first step, and the first \<open>n\<close> units of it.\<close>

lemma cursor_take_all:
  assumes "cur_inv c" and "rest c = e # es"
  shows "cur_inv (snd (cur_take c (remaining c)))" and "rest (snd (cur_take c (remaining c))) = es"
    and "is_Add e \<Longrightarrow> e = Add (fst (cur_take c (remaining c)))"
proof -
  note h = cursor_head [OF assms]
  have pos: "0 < remaining c" using h(1,2) by simp
  from cur_take_rest [OF assms(1) h(3) pos order_refl] h(1) assms(2)
  show "cur_inv (snd (cur_take c (remaining c)))" "rest (snd (cur_take c (remaining c))) = es"
    by (simp_all add: consume.simps)
  show "e = Add (fst (cur_take c (remaining c)))" if "is_Add e"
    using cur_take_text(1) [OF assms(1) h(3) _ pos] that h(1,5) assms(2) by (cases e) auto
qed

lemma cursor_take_part:
  assumes "cur_inv c" and "rest c = e # es" and "0 < n" and "n \<le> step_size e"
  shows "cur_inv (snd (cur_take c (int n)))"
    and "rest (snd (cur_take c (int n))) = consume n (e # es)"
    and "e = Add t \<Longrightarrow> sub (ins_of (peek c)) (cur_used c) (cur_used c + int n) = take n t"
proof -
  note h = cursor_head [OF assms(1,2)]
  have n: "0 < int n" "int n \<le> remaining c" using h(1) assms(3,4) by simp_all
  from cur_take_rest [OF assms(1) h(3) n] assms(2)
  show "cur_inv (snd (cur_take c (int n)))" "rest (snd (cur_take c (int n))) = consume n (e # es)"
    by simp_all
  show "sub (ins_of (peek c)) (cur_used c) (cur_used c + int n) = take n t" if "e = Add t"
    using cur_take_text(2) [OF assms(1) h(3) _ n(1)] that h(5) assms(2) by simp
qed

lemma compose_loop_refines:
  assumes "cur_inv left" and "cur_inv right"
  shows "compose_loop out left right =
    (case follow (rest left) (rest right) of None \<Rightarrow> Inl ErrCompose | Some cs \<Rightarrow> Inr (build out cs))"
  using assms
proof (induction out left right rule: compose_loop.induct)
  case (1 out left right)
  note step = compose_loop.simps [of out left right]
  note kind = cursor_kind [OF "1.prems"(1)] cursor_kind [OF "1.prems"(2)]
  consider (drop) "drops_first (rest left)"
    | (add) "\<not> drops_first (rest left)" "adds_first (rest right)"
    | (nil) "rest left = []" "rest right = []"
    | (short) "\<not> drops_first (rest left)" "\<not> adds_first (rest right)"
        "(rest left = []) \<noteq> (rest right = [])"
    | (meet) "\<not> drops_first (rest left)" "\<not> adds_first (rest right)" "rest left \<noteq> []" "rest right \<noteq> []"
    by blast
  then show ?case
  proof cases
    case drop
    then obtain k es where r: "rest left = Drop k # es"
      by (metis drops_first_def list.collapse is_Drop_def)
    note take_all = cursor_take_all [OF "1.prems"(1) r] and h = cursor_head [OF "1.prems"(1) r]
    have c1: "\<not> cur_done left \<and> isDelete (peek left)" using drop kind by blast
    show ?thesis
      using "1.IH"(1) [OF c1 take_all(1) "1.prems"(2)] take_all(2) c1 h(1)
      by (simp add: step r follow_eqs split: option.split)
  next
    case add
    then obtain t es where r: "rest right = Add t # es"
      by (metis adds_first_def list.collapse is_Add_def)
    note take_all = cursor_take_all [OF "1.prems"(2) r]
    have c1: "\<not> (\<not> cur_done left \<and> isDelete (peek left))" "\<not> cur_done right \<and> isInsert (peek right)"
      using add kind by blast+
    have "compose_loop out left right =
        compose_loop (Insert out t) left (snd (cur_take right (remaining right)))"
      using take_all(3) by (subst step) (simp only: c1 if_False if_True simp_thms edit.inject edit.disc)
    then show ?thesis
      using "1.IH"(2) [OF c1 "1.prems"(1) take_all(1)] take_all(2,3) add(1)
      by (simp add: r follow_eqs split: option.split)
  next
    case nil
    then show ?thesis using kind by (simp add: step follow_eqs)
  next
    case short
    have "follow (rest left) (rest right) = None"
      using short by (cases "rest left"; cases "rest right") (auto simp: follow_eqs)
    with short kind show ?thesis by (auto simp: step)
  next
    case meet
    then obtain a as b bs where l: "rest left = a # as" and r: "rest right = b # bs"
      and ab: "\<not> is_Drop a" "\<not> is_Add b"
      by (metis drops_first_def adds_first_def list.exhaust_sel)
    note hl = cursor_head [OF "1.prems"(1) l] and hr = cursor_head [OF "1.prems"(2) r]
    define n where "n = min (step_size a) (step_size b)"
    have n: "min (remaining left) (remaining right) = int n" "0 < n" "n \<le> step_size a" "n \<le> step_size b"
      using hl hr by (auto simp: n_def)
    note tl = cursor_take_part [OF "1.prems"(1) l n(2,3)] and tr = cursor_take_part [OF "1.prems"(2) r n(2,4)]
    define out' where "out' = build out (meet n a b)"
    have c: "\<not> (\<not> cur_done left \<and> isDelete (peek left))" "\<not> (\<not> cur_done right \<and> isInsert (peek right))"
      "\<not> (cur_done left \<and> cur_done right)" "\<not> (cur_done left \<or> cur_done right)"
      using hl hr ab by blast+
    have out: "(if isRetain (peek left) \<and> isRetain (peek right) then Retain out (int n)
       else if isRetain (peek left) \<and> isDelete (peek right) then Delete out (int n)
       else if isInsert (peek left) \<and> isRetain (peek right)
       then Insert out (sub (ins_of (peek left)) (cur_used left) (cur_used left + int n))
       else out) = out'"
      using ab hl(4,5,6) hr(4,5,6) tl(3) by (cases a; cases b) (auto simp: out'_def)
    have "compose_loop out left right = compose_loop out' (snd (cur_take left (int n))) (snd (cur_take right (int n)))"
      using c out by (simp add: step n(1) Let_def)
    also have "\<dots> = (case follow (consume n (a # as)) (consume n (b # bs)) of
        None \<Rightarrow> Inl ErrCompose | Some cs \<Rightarrow> Inr (build out' cs))"
      using "1.IH"(3) [OF c n(1) [symmetric] refl refl out [symmetric] tl(1) tr(1)] tl(2) tr(2)
      by simp
    finally show ?thesis
      by (simp add: l r follow_eqs(4) [OF ab n_def] out'_def option.map_comp split: option.split)
  qed
qed

lemma transform_loop_refines:
  assumes "cur_inv left" and "cur_inv right"
  shows "transform_loop aPrime bPrime left right =
    (case xform (rest left) (rest right) of
       None \<Rightarrow> Inl ErrTransform
     | Some (as', bs') \<Rightarrow> Inr (build aPrime as', build bPrime bs'))"
  using assms
proof (induction aPrime bPrime left right rule: transform_loop.induct)
  case (1 aPrime bPrime left right)
  note step = transform_loop.simps [of aPrime bPrime left right]
  note kind = cursor_kind [OF "1.prems"(1)] cursor_kind [OF "1.prems"(2)]
  consider (left) "adds_first (rest left)"
    | (right) "\<not> adds_first (rest left)" "adds_first (rest right)"
    | (nil) "rest left = []" "rest right = []"
    | (short) "\<not> adds_first (rest left)" "\<not> adds_first (rest right)"
        "(rest left = []) \<noteq> (rest right = [])"
    | (meet) "\<not> adds_first (rest left)" "\<not> adds_first (rest right)" "rest left \<noteq> []" "rest right \<noteq> []"
    by blast
  then show ?case
  proof cases
    case left
    then obtain t es where r: "rest left = Add t # es"
      by (metis adds_first_def list.collapse is_Add_def)
    note take_all = cursor_take_all [OF "1.prems"(1) r]
    have t: "fst (cur_take left (remaining left)) = t" using take_all(3) by simp
    have c1: "\<not> cur_done left \<and> isInsert (peek left)" using left kind by blast
    have "transform_loop aPrime bPrime left right =
        transform_loop (Insert aPrime t) (Retain bPrime (int (length t)))
          (snd (cur_take left (remaining left))) right"
      by (subst step) (simp only: c1 if_True simp_thms Let_def t)
    then show ?thesis
      using "1.IH"(1) [OF c1 t [symmetric] take_all(1) "1.prems"(2)] take_all(2)
      by (simp add: r xform_eqs split: option.split)
  next
    case right
    then obtain t es where r: "rest right = Add t # es"
      by (metis adds_first_def list.collapse is_Add_def)
    note take_all = cursor_take_all [OF "1.prems"(2) r]
    have t: "fst (cur_take right (remaining right)) = t" using take_all(3) by simp
    have c1: "\<not> (\<not> cur_done left \<and> isInsert (peek left))" "\<not> cur_done right \<and> isInsert (peek right)"
      using right kind by blast+
    have "transform_loop aPrime bPrime left right =
        transform_loop (Retain aPrime (int (length t))) (Insert bPrime t)
          left (snd (cur_take right (remaining right)))"
      by (subst step) (simp only: c1 if_True if_False simp_thms Let_def t)
    then show ?thesis
      using "1.IH"(2) [OF c1 t [symmetric] "1.prems"(1) take_all(1)] take_all(2) right(1)
      by (simp add: r xform_eqs split: option.split)
  next
    case nil
    then show ?thesis using kind by (simp add: step xform_eqs)
  next
    case short
    have "xform (rest left) (rest right) = None"
      using short by (cases "rest left"; cases "rest right") (auto simp: xform_eqs)
    with short kind show ?thesis by (auto simp: step)
  next
    case meet
    then obtain a as b bs where l: "rest left = a # as" and r: "rest right = b # bs"
      and ab: "\<not> is_Add a" "\<not> is_Add b"
      by (metis adds_first_def list.exhaust_sel)
    note hl = cursor_head [OF "1.prems"(1) l] and hr = cursor_head [OF "1.prems"(2) r]
    define n where "n = min (step_size a) (step_size b)"
    have n: "min (remaining left) (remaining right) = int n" "0 < n" "n \<le> step_size a" "n \<le> step_size b"
      using hl hr by (auto simp: n_def)
    note tl = cursor_take_part [OF "1.prems"(1) l n(2,3)] and tr = cursor_take_part [OF "1.prems"(2) r n(2,4)]
    define primes where "primes = (build aPrime (meet_left n a b), build bPrime (meet_left n b a))"
    have c: "\<not> (\<not> cur_done left \<and> isInsert (peek left))" "\<not> (\<not> cur_done right \<and> isInsert (peek right))"
      "\<not> (cur_done left \<and> cur_done right)" "\<not> (cur_done left \<or> cur_done right)"
      using hl hr ab by blast+
    have out: "(if isRetain (peek left) \<and> isRetain (peek right)
         then (Retain aPrime (int n), Retain bPrime (int n))
       else if isDelete (peek left) \<and> isRetain (peek right) then (Delete aPrime (int n), bPrime)
       else if isRetain (peek left) \<and> isDelete (peek right) then (aPrime, Delete bPrime (int n))
       else (aPrime, bPrime)) = primes"
      using ab hl(4,5,6) hr(4,5,6) by (cases a; cases b) (auto simp: primes_def)
    have "transform_loop aPrime bPrime left right =
        transform_loop (fst primes) (snd primes) (snd (cur_take left (int n))) (snd (cur_take right (int n)))"
      using c out by (simp add: step n(1) Let_def)
    also have "\<dots> = (case xform (consume n (a # as)) (consume n (b # bs)) of
        None \<Rightarrow> Inl ErrTransform | Some (as', bs') \<Rightarrow> Inr (build (fst primes) as', build (snd primes) bs'))"
      using "1.IH"(3) [OF c n(1) [symmetric] refl refl out [symmetric] tl(1) tr(1)] tl(2) tr(2)
      by simp
    finally show ?thesis
      by (simp add: l r xform_eqs(4) [OF ab n_def] primes_def option.map_comp split: option.split)
  qed
qed

lemma apply_loop_run:
  assumes "list_all comp_wf cs" and "pos + base (map edit_of cs) \<le> length doc"
  shows "apply_loop doc cs out (int pos) = Inr (out @ run (\<lambda>t. t) (map edit_of cs) (drop pos doc))"
  using assms
proof (induction cs arbitrary: out pos)
  case (Cons c cs)
  show ?case
  proof (cases "isRetain c")
    case True
    then obtain k where n: "n_of c = int k" by (metis isRetain_def pos_int_cases)
    from True Cons.prems n have len: "pos + k \<le> length doc" by (simp add: edit_of_simps)
    then have "slice doc (int pos) (int pos + int k) = Some (take k (drop pos doc))"
      by (simp add: slice_def)
    moreover have "apply_loop doc cs (out @ take k (drop pos doc)) (int (pos + k)) =
        Inr ((out @ take k (drop pos doc)) @ run (\<lambda>t. t) (map edit_of cs) (drop (pos + k) doc))"
      using True n Cons.prems by (intro Cons.IH) (auto simp: edit_of_simps)
    ultimately show ?thesis using True n by (simp add: edit_of_simps add.commute)
  next
    case False
    show ?thesis
    proof (cases "isInsert c")
      case True
      with False Cons.prems Cons.IH [of pos "out @ ins_of c"] show ?thesis
        by (simp add: edit_of_simps)
    next
      case del: False
      with False have d: "isDelete c" by (auto simp: comp_kind_defs)
      then have n: "int pos - n_of c = int (pos + nat (- n_of c))" by (simp add: isDelete_def)
      show ?thesis
        using False del d n Cons.prems Cons.IH [of "pos + nat (- n_of c)" out]
        by (simp add: edit_of_simps add.commute)
    qed
  qed
qed simp

lemma Apply_run:
  assumes "op_wf p"
  shows "Apply p doc =
    (if int (length doc) = baseLen p then Inr (run (\<lambda>t. t) (edits p) doc) else Inl ErrBaseLength)"
  using assms apply_loop_run [of "comps p" 0 doc "[]"]
  by (auto simp: Apply_def op_wf_def edits_def)

lemma Compose_refines:
  assumes "op_wf a" and "op_wf b"
  shows "Compose a b = (if targetLen a \<noteq> baseLen b then Inl ErrCompose
    else case follow (edits a) (edits b) of None \<Rightarrow> Inl ErrCompose | Some cs \<Rightarrow> Inr (build NewOp cs))"
  using assms by (simp add: Compose_def compose_loop_refines)

lemma Transform_refines:
  assumes "op_wf a" and "op_wf b"
  shows "Transform a b = (if baseLen a \<noteq> baseLen b then Inl ErrTransform
    else case xform (edits a) (edits b) of None \<Rightarrow> Inl ErrTransform
      | Some (as', bs') \<Rightarrow> Inr (build NewOp as', build NewOp bs'))"
  using assms by (simp add: Transform_def transform_loop_refines)

lemma build_NewOp:
  "op_wf (build NewOp es)"
  "baseLen (build NewOp es) = int (base es)"
  "targetLen (build NewOp es) = int (target es)"
  using op_wf_build [OF op_wf_NewOp(1), of es] by (auto simp: op_wf_def)

context contribution begin

lemma run_build_NewOp: "run f (edits (build NewOp es)) d = run f es d"
  using run_build [OF op_wf_NewOp(1), of es d] by simp

end

lemma op_wf_lengths: "op_wf p \<Longrightarrow> baseLen p = int (base (edits p)) \<and> targetLen p = int (target (edits p))"
  by (simp add: op_wf_def)

text \<open>Transformation in one statement: it succeeds, its results fit, and they close the diamond.\<close>

lemma Transform_diamond:
  assumes a: "op_wf a" and b: "op_wf b" and len: "baseLen a = baseLen b"
  obtains a' b' where "Transform a b = Inr (a', b')" and "op_wf a'" and "op_wf b'"
    and "baseLen a' = targetLen b" and "baseLen b' = targetLen a" and "targetLen a' = targetLen b'"
    and "\<And>f g (d :: 'a list). contribution f \<Longrightarrow> contribution g \<Longrightarrow> length d = base (edits a) \<Longrightarrow>
      run f (edits a') (run g (edits b) d) = run g (edits b') (run f (edits a) d)"
proof -
  from len a b have "base (edits a) = base (edits b)" by (simp add: op_wf_def)
  from xform_total [OF this proper_edits [OF a] proper_edits [OF b]]
  obtain as bs where x: "xform (edits a) (edits b) = Some (as, bs)" by blast
  from xform_lengths [OF x] a b len show ?thesis
    by (intro that [of "build NewOp as" "build NewOp bs"])
      (simp_all add: Transform_refines x build_NewOp op_wf_lengths contribution.run_build_NewOp
        run_xform [OF _ _ x])
qed

subsection \<open>Properties\<close>

text \<open>
  C1: two operations made concurrently against the same document always transform, and applying
  either one and then the transform of the other gives the same document.
\<close>

theorem transform_converges:
  assumes "op_wf a" and "op_wf b" and "baseLen a = baseLen b"
  shows "\<exists>a' b'. Transform a b = Inr (a', b') \<and> op_wf a' \<and> op_wf b' \<and>
    baseLen a' = targetLen b \<and> baseLen b' = targetLen a \<and>
    (\<forall>doc. int (length doc) = baseLen a \<longrightarrow>
      (\<exists>out. rbind (Apply a doc) (Apply b') = Inr out \<and> rbind (Apply b doc) (Apply a') = Inr out))"
proof -
  obtain a' b' where T: "Transform a b = Inr (a', b')" "op_wf a'" "op_wf b'"
    "baseLen a' = targetLen b" "baseLen b' = targetLen a"
    and d: "\<And>f g (d :: unit16 list). contribution f \<Longrightarrow> contribution g \<Longrightarrow> length d = base (edits a) \<Longrightarrow>
      run f (edits a') (run g (edits b) d) = run g (edits b') (run f (edits a) d)"
    using Transform_diamond [OF assms, where 'a = unit16] by metis
  have "\<exists>out. rbind (Apply a doc) (Apply b') = Inr out \<and> rbind (Apply b doc) (Apply a') = Inr out"
    if "int (length doc) = baseLen a" for doc
    using that assms T d [OF text_units.contribution_axioms text_units.contribution_axioms, of doc]
    by (simp add: Apply_run op_wf_lengths text_units.length_run)
  with T show ?thesis by blast
qed

theorem transform_converges_witness:
  "\<exists>a' b'. Transform (Retain (Insert (Retain NewOp 1) [120]) 1) (Delete (Retain NewOp 1) 1) = Inr (a', b') \<and>
    (\<exists>out. rbind (Apply (Delete (Retain NewOp 1) 1) [97, 98]) (Apply a') = Inr out)"
proof -
  let ?a = "Retain (Insert (Retain NewOp 1) [120]) 1" and ?b = "Delete (Retain NewOp 1) 1"
  have a: "op_wf ?a" and b: "op_wf ?b" and l: "baseLen ?a = baseLen ?b" "baseLen ?a = 2"
    by (simp_all add: op_wf_def edits_def edit_of_def comp_wf_def comp_kind_defs NewOp_def Retain_def
        Insert_def Delete_def Let_def)
  show ?thesis
    using transform_converges [OF a b l(1)] l(2) by (auto dest: spec [of _ "[97, 98]"])
qed

text \<open>
  composing two operations whose lengths meet always succeeds, and the result does what
  applying the first and then the second does; operations whose lengths differ are refused.
\<close>

theorem compose_correct:
  assumes "op_wf a" and "op_wf b"
  shows "(if targetLen a = baseLen b
     then \<exists>c. Compose a b = Inr c \<and> op_wf c \<and> baseLen c = baseLen a \<and> targetLen c = targetLen b \<and>
       (\<forall>doc. int (length doc) = baseLen a \<longrightarrow> Apply c doc = rbind (Apply a doc) (Apply b))
     else Compose a b = Inl ErrCompose)"
proof (cases "targetLen a = baseLen b")
  case True
  with assms have "target (edits a) = base (edits b)" by (simp add: op_wf_lengths)
  from follow_total [OF this proper_edits [OF assms(1)] proper_edits [OF assms(2)]]
  obtain cs where f: "follow (edits a) (edits b) = Some cs" by blast
  have c: "Compose a b = Inr (build NewOp cs)" using True assms by (simp add: Compose_refines f)
  have "Apply (build NewOp cs) doc = rbind (Apply a doc) (Apply b)"
    if "int (length doc) = baseLen a" for doc
    using that assms follow_lengths [OF f]
    by (simp add: Apply_run build_NewOp op_wf_lengths text_units.run_build_NewOp
        text_units.run_follow [OF f] text_units.length_run)
  with True c follow_lengths [OF f] assms show ?thesis
    by (auto simp: build_NewOp op_wf_lengths)
next
  case False
  with assms show ?thesis by (simp add: Compose_refines)
qed

theorem compose_correct_witness:
  "\<exists>c. Compose (Insert NewOp [104, 105]) (Delete (Retain NewOp 1) 1) = Inr c \<and> op_wf c \<and> targetLen c = 1"
proof -
  have w: "op_wf (Insert NewOp [104, 105])" "op_wf (Delete (Retain NewOp 1) 1)"
    by (simp_all add: op_wf_def edits_def edit_of_def comp_wf_def comp_kind_defs NewOp_def Retain_def
        Insert_def Delete_def Let_def)
  have l: "targetLen (Insert NewOp [104, 105]) = 2" "baseLen (Delete (Retain NewOp 1) 1) = 2"
    "targetLen (Delete (Retain NewOp 1) 1) = 1"
    by (simp_all add: NewOp_def Retain_def Insert_def Delete_def Let_def isRetain_def isDelete_def)
  show ?thesis using compose_correct [OF w] by (auto simp: l)
qed

text \<open>
  an operation applies to documents of exactly its base length, gives a document of its target
  length, and never slices the document out of range.
\<close>

theorem apply_exact_lengths:
  assumes "op_wf p"
  shows "(case Apply p doc of
      Inl e \<Rightarrow> e = ErrBaseLength \<and> int (length doc) \<noteq> baseLen p
    | Inr out \<Rightarrow> int (length doc) = baseLen p \<and> int (length out) = targetLen p)"
  using assms by (simp add: Apply_run op_wf_lengths text_units.length_run)

theorem apply_exact_lengths_witness:
  "\<exists>out. Apply (Retain (Insert NewOp [65]) 1) [66] = Inr out \<and> int (length out) = 2"
proof -
  have w: "op_wf (Retain (Insert NewOp [65]) 1)"
    and l: "baseLen (Retain (Insert NewOp [65]) 1) = 1" "targetLen (Retain (Insert NewOp [65]) 1) = 2"
    by (simp_all add: op_wf_def edits_def edit_of_def comp_wf_def comp_kind_defs NewOp_def Retain_def
        Insert_def Let_def)
  show ?thesis
    using apply_exact_lengths [OF w, of "[66]"] by (auto simp: l split: sum.splits)
qed

end
