(* ===== verification/Positions.thy ===== *)
theory Positions
  imports OT
begin

text \<open>
  The position functions of \<^verbatim>\<open>internal/collab/ot.go\<close>: \<open>MapPos\<close> and \<open>MapRange\<close> move positions and
  ranges of the base document to the target document, \<open>EditPos\<close> finds the author's caret. The
  reference functions \<open>shift\<close> and \<open>hits\<close> on edit scripts carry the proofs; the main result is that
  a range reported as untouched still holds exactly the text it held.
\<close>

fun mapPos_loop :: "comp list \<Rightarrow> int \<Rightarrow> bool \<Rightarrow> int \<Rightarrow> int \<Rightarrow> int" where
  "mapPos_loop [] position afterInsert mapped index = mapped"
| "mapPos_loop (c # cs) position afterInsert mapped index =
     (if index > position then mapped
      else if isRetain c then mapPos_loop cs position afterInsert mapped (index + n_of c)
      else if isInsert c then
        mapPos_loop cs position afterInsert
          (if index < position \<or> (index = position \<and> afterInsert)
           then mapped + int (length (ins_of c)) else mapped) index
      else
        mapPos_loop cs position afterInsert
          (if index < position then mapped - min (- n_of c) (position - index) else mapped)
          (index - n_of c))"

definition MapPos :: "op \<Rightarrow> int \<Rightarrow> bool \<Rightarrow> int" where
  "MapPos p position afterInsert = mapPos_loop (comps p) position afterInsert position 0"

fun touched_loop :: "comp list \<Rightarrow> int \<Rightarrow> int \<Rightarrow> bool \<Rightarrow> int \<Rightarrow> bool" where
  "touched_loop [] start end_pos touched index = touched"
| "touched_loop (c # cs) start end_pos touched index =
     (if isRetain c then touched_loop cs start end_pos touched (index + n_of c)
      else if isInsert c then
        touched_loop cs start end_pos (if index > start \<and> index < end_pos then True else touched) index
      else
        let deleteEnd = index - n_of c;
            touched = (if start = end_pos
                       then (if index < start \<and> deleteEnd > start then True else touched)
                       else if index < end_pos \<and> deleteEnd > start then True else touched)
        in touched_loop cs start end_pos touched deleteEnd)"

definition MapRange :: "op \<Rightarrow> int \<Rightarrow> int \<Rightarrow> int \<times> int \<times> bool" where
  "MapRange p start end_pos =
     (if touched_loop (comps p) start end_pos False 0
      then (MapPos p start False, MapPos p end_pos True, True)
      else
        let mappedStart = MapPos p start True; mappedEnd = MapPos p end_pos False in
        (mappedStart, if mappedEnd < mappedStart then mappedStart else mappedEnd, False))"

fun editPos_loop :: "comp list \<Rightarrow> int \<Rightarrow> int \<times> bool \<Rightarrow> int \<times> bool" where
  "editPos_loop [] index res = res"
| "editPos_loop (c # cs) index res =
     (if isRetain c then editPos_loop cs (index + n_of c) res
      else if isInsert c then
        editPos_loop cs (index + int (length (ins_of c))) (index + int (length (ins_of c)), True)
      else editPos_loop cs index (index, True))"

definition EditPos :: "op \<Rightarrow> int \<times> bool" where
  "EditPos p = editPos_loop (comps p) 0 (0, False)"

subsection \<open>References on edit scripts\<close>

text \<open>\<open>shift after es p\<close>: where position \<open>p\<close>, counted from the first step, ends up.\<close>

fun shift :: "bool \<Rightarrow> edit list \<Rightarrow> nat \<Rightarrow> nat" where
  "shift after [] p = p"
| "shift after (Keep n # es) p = (if p < n then p else n + shift after es (p - n))"
| "shift after (Add t # es) p = (if 0 < p \<or> after then length t else 0) + shift after es p"
| "shift after (Drop n # es) p = (if p < n then 0 else shift after es (p - n))"

fun hits :: "edit list \<Rightarrow> int \<Rightarrow> int \<Rightarrow> bool" where
  "hits [] s e = False"
| "hits (Keep n # es) s e = hits es (s - int n) (e - int n)"
| "hits (Add t # es) s e = ((s < 0 \<and> 0 < e) \<or> hits es s e)"
| "hits (Drop n # es) s e =
     ((if s = e then 0 < s \<and> s < int n else 0 < e \<and> s < int n) \<or> hits es (s - int n) (e - int n))"

lemma mapPos_loop_passed: "position < index \<Longrightarrow> mapPos_loop cs position a mapped index = mapped"
  by (cases cs) auto

lemma mapPos_loop_shift:
  assumes "list_all comp_wf cs"
  shows "mapPos_loop cs (index + int p) a mapped index =
    mapped + int (shift a (map edit_of cs) p) - int p"
  using assms
proof (induction cs arbitrary: index p mapped)
  case (Cons c cs)
  show ?case
  proof (cases "isRetain c")
    case True
    then obtain k where n: "n_of c = int k" by (metis isRetain_def pos_int_cases)
    show ?thesis
    proof (cases "p < k")
      case True
      with \<open>isRetain c\<close> n show ?thesis by (simp add: edit_of_simps mapPos_loop_passed)
    next
      case False
      then have e: "index + int k + int (p - k) = index + int p" by simp
      show ?thesis
        using Cons.IH [of "index + int k" "p - k" mapped, unfolded e] Cons.prems \<open>isRetain c\<close> n False
        by (simp add: edit_of_simps)
    qed
  next
    case nr: False
    show ?thesis
    proof (cases "isInsert c")
      case True
      with nr Cons show ?thesis by (auto simp: edit_of_simps)
    next
      case False
      with nr have d: "isDelete c" by (auto simp: comp_kind_defs)
      then obtain k where n: "n_of c = - int k" by (metis isDelete_def neg_int_cases)
      show ?thesis
      proof (cases "p < k")
        case True
        then have "min (int k) (int p) = int p" by simp
        with True nr False d n show ?thesis by (auto simp: edit_of_simps mapPos_loop_passed)
      next
        case le: False
        then have e: "index + int k + int (p - k) = index + int p" by simp
        have "0 < k" using d n by (simp add: isDelete_def)
        with le nr False d n Cons.prems Cons.IH [of "index + int k" "p - k", unfolded e]
        show ?thesis by (simp add: edit_of_simps)
      qed
    qed
  qed
qed simp

lemma touched_loop_hits:
  "list_all comp_wf cs \<Longrightarrow>
     touched_loop cs s e touched index \<longleftrightarrow> touched \<or> hits (map edit_of cs) (s - index) (e - index)"
proof (induction cs arbitrary: index touched)
  case (Cons c cs)
  then show ?case
    by (auto simp: edit_of_def comp_kind_defs Let_def algebra_simps)
qed simp

lemma MapPos_shift:
  assumes "op_wf p"
  shows "MapPos p (int k) a = int (shift a (edits p) k)"
  using assms mapPos_loop_shift [of "comps p" 0 k a "int k"]
  by (simp add: MapPos_def op_wf_def edits_def)

lemma MapRange_shift:
  assumes "op_wf p"
  shows "MapRange p (int s) (int e) =
    (if hits (edits p) (int s) (int e)
     then (int (shift False (edits p) s), int (shift True (edits p) e), True)
     else (int (shift True (edits p) s),
           int (max (shift True (edits p) s) (shift False (edits p) e)), False))"
  using assms touched_loop_hits [of "comps p" "int s" "int e" False 0]
  by (auto simp: MapRange_def MapPos_shift op_wf_def edits_def Let_def max_def)

subsection \<open>How positions move\<close>

lemma shift_le_target: "p \<le> base es \<Longrightarrow> shift a es p \<le> target es"
  by (induction a es p rule: shift.induct) auto

lemma shift_mono: "p \<le> q \<Longrightarrow> shift a es p \<le> shift a es q"
proof (induction es arbitrary: p q)
  case (Cons e es)
  then show ?case by (cases e) (auto intro: add_mono trans_le_add2)
qed simp

lemma shift_after: "shift False es p \<le> shift True es p"
proof (induction es arbitrary: p)
  case (Cons e es)
  then show ?case by (cases e) (auto intro: trans_le_add2)
qed simp

lemma shift_False_0: "shift False es 0 = 0"
proof (induction es)
  case (Cons e es)
  then show ?case by (cases e) auto
qed simp

text \<open>A range that reaches in from the left and is not hit: its part ahead is kept as it is.\<close>

lemma not_hit_prefix:
  "\<not> hits es s (int e) \<Longrightarrow> s < 0 \<Longrightarrow> e \<le> base es \<Longrightarrow> length d = base es \<Longrightarrow>
     shift False es e = e \<and> take e (run f es d) = take e d"
proof (induction es arbitrary: s e d)
  case (Cons x es)
  show ?case
  proof (cases "e = 0")
    case True
    then show ?thesis by (simp add: shift_False_0)
  next
    case e: False
    show ?thesis
    proof (cases x)
      case (Keep n)
      show ?thesis
      proof (cases "e < n")
        case True
        with Keep Cons.prems show ?thesis by simp
      next
        case False
        then have i: "int (e - n) = int e - int n" by simp
        have "shift False es (e - n) = e - n \<and> take (e - n) (run f es (drop n d)) = take (e - n) (drop n d)"
          using Keep Cons.prems False by (intro Cons.IH [of "s - int n"]) (simp_all add: i)
        moreover have "n \<le> e" "n \<le> length d" using Keep Cons.prems False by auto
        ultimately show ?thesis
          using Keep take_split [of n e d] take_append_take [of n e d "run f es (drop n d)"] by simp
      qed
    qed (use Cons.prems e in auto)
  qed
qed simp

lemma not_hit_kept:
  "\<not> hits es (int s) (int e) \<Longrightarrow> s < e \<Longrightarrow> e \<le> base es \<Longrightarrow> length d = base es \<Longrightarrow> contribution f \<Longrightarrow>
     shift False es e = shift True es s + (e - s) \<and>
     take (e - s) (drop (shift True es s) (run f es d)) = take (e - s) (drop s d)"
proof (induction es arbitrary: s e d)
  case (Cons x es)
  show ?case
  proof (cases x)
    case (Keep n)
    show ?thesis
    proof (cases "s < n")
      case True
      show ?thesis
      proof (cases "e < n")
        case True
        with Keep Cons.prems \<open>s < n\<close> show ?thesis by (simp add: drop_take)
      next
        case False
        have i: "int (e - n) = int e - int n" using False by simp
        have "shift False es (e - n) = e - n \<and> take (e - n) (run f es (drop n d)) = take (e - n) (drop n d)"
          using Keep Cons.prems True False
          by (intro not_hit_prefix [of es "int s - int n"]) (simp_all add: i)
        then have IH: "shift False es (e - n) = e - n" "take (e - n) (run f es (drop n d)) = take (e - n) (drop n d)"
          by blast+
        have n: "n \<le> e" "n \<le> length d" using False Keep Cons.prems by auto
        have "take e (run f (x # es) d) = take e d"
          using Keep IH(2) take_split [OF n(1), of d] take_append_take [OF n] by simp
        then have "take (e - s) (drop s (run f (x # es) d)) = take (e - s) (drop s d)"
          by (simp only: drop_take [symmetric])
        moreover have "shift False (x # es) e = shift True (x # es) s + (e - s)"
          using Keep True False IH(1) Cons.prems(2) by simp
        ultimately show ?thesis using Keep True by simp
      qed
    next
      case False
      have i: "int (s - n) = int s - int n" "int (e - n) = int e - int n"
        using False Cons.prems by auto
      have "shift False es (e - n) = shift True es (s - n) + (e - n - (s - n)) \<and>
          take (e - n - (s - n)) (drop (shift True es (s - n)) (run f es (drop n d))) =
          take (e - n - (s - n)) (drop (s - n) (drop n d))"
        using Keep Cons.prems False by (intro Cons.IH) (simp_all add: i)
      with Keep Cons.prems False show ?thesis by simp
    qed
  next
    case (Add t)
    with Cons.prems Cons.IH [of s e d] show ?thesis
      by (auto simp: contribution.f_length)
  next
    case (Drop n)
    with Cons.prems have "n \<le> s" by auto
    then have i: "int (s - n) = int s - int n" "int (e - n) = int e - int n"
      using Cons.prems by auto
    have "shift False es (e - n) = shift True es (s - n) + (e - n - (s - n)) \<and>
        take (e - n - (s - n)) (drop (shift True es (s - n)) (run f es (drop n d))) =
        take (e - n - (s - n)) (drop (s - n) (drop n d))"
      using Drop Cons.prems by (intro Cons.IH) (auto simp: i)
    with Drop Cons.prems \<open>n \<le> s\<close> show ?thesis by simp
  qed
qed simp

text \<open>The two properties of a range in terms of the reference: inside the result, and kept.\<close>

lemma MapRange_untouched:
  assumes p: "op_wf p" and r: "s \<le> e" "e \<le> base (edits p)" and d: "length doc = base (edits p)"
    and m: "MapRange p (int s) (int e) = (s', e', False)"
  shows "e' - s' = int e - int s \<and> sub (run (\<lambda>t. t) (edits p) doc) s' e' = sub doc (int s) (int e)"
proof (cases "s = e")
  case True
  with m show ?thesis
    using shift_after [of "edits p" e] by (auto simp: MapRange_shift [OF p] sub_def split: if_splits)
next
  case False
  have h: "\<not> hits (edits p) (int s) (int e)"
    and s': "s' = int (shift True (edits p) s)"
    and e': "e' = int (max (shift True (edits p) s) (shift False (edits p) e))"
    using m by (simp_all add: MapRange_shift [OF p] split: if_splits)
  from not_hit_kept [OF h _ r(2) d text_units.contribution_axioms] False r(1)
  have k: "shift False (edits p) e = shift True (edits p) s + (e - s)"
    "take (e - s) (drop (shift True (edits p) s) (run (\<lambda>t. t) (edits p) doc)) = take (e - s) (drop s doc)"
    by auto
  have n: "nat (e' - s') = e - s" "nat s' = shift True (edits p) s" "nat (int e - int s) = e - s"
    unfolding s' e' k(1) by simp_all
  have "e' - s' = int e - int s" unfolding s' e' k(1) using r(1) by simp
  with k(2) show ?thesis unfolding sub_def n by simp
qed

lemma MapRange_in_target:
  assumes p: "op_wf p" and r: "s \<le> e" "e \<le> base (edits p)"
    and m: "MapRange p (int s) (int e) = (s', e', touched)"
  shows "0 \<le> s' \<and> s' \<le> e' \<and> e' \<le> targetLen p"
  using m r shift_mono [OF r(1), of False "edits p"] shift_after [of "edits p" e]
    shift_le_target [OF r(2)] shift_le_target [of s "edits p" True] op_wf_lengths [OF p]
  by (auto simp: MapRange_shift [OF p] split: if_splits intro: order_trans)

text \<open>The caret of an edit.\<close>

fun caret :: "edit list \<Rightarrow> nat \<Rightarrow> nat \<times> bool \<Rightarrow> nat \<times> bool" where
  "caret [] i r = r"
| "caret (Keep n # es) i r = caret es (i + n) r"
| "caret (Add t # es) i r = caret es (i + length t) (i + length t, True)"
| "caret (Drop n # es) i r = caret es i (i, True)"

lemma editPos_loop_caret:
  "list_all comp_wf cs \<Longrightarrow> editPos_loop cs (int i) (int q, ok) =
     (int (fst (caret (map edit_of cs) i (q, ok))), snd (caret (map edit_of cs) i (q, ok)))"
proof (induction cs arbitrary: i q ok)
  case (Cons c cs)
  consider "isRetain c" | "isInsert c" "\<not> isRetain c" | "isDelete c" "\<not> isRetain c" "\<not> isInsert c"
    by (metis comp_kind_defs linorder_cases)
  then show ?case
  proof cases
    case 1
    then have i: "int i + n_of c = int (i + nat (n_of c))" by (simp add: isRetain_def)
    with 1 Cons.IH [of "i + nat (n_of c)"] Cons.prems show ?thesis by (simp add: edit_of_simps i del: of_nat_add)
  next
    case 2
    from 2 Cons.IH [of "i + length (ins_of c)" "i + length (ins_of c)" True] Cons.prems
    show ?thesis by (simp add: edit_of_simps)
  next
    case 3
    with Cons show ?thesis by (simp add: edit_of_simps)
  qed
qed simp

lemma caret_le: "q \<le> i \<Longrightarrow> fst (caret es i (q, ok)) \<le> i + target es"
proof (induction es arbitrary: i q ok)
  case (Cons e es)
  show ?case
  proof (cases e)
    case (Keep n)
    then show ?thesis using Cons.IH [of q "i + n" ok] Cons.prems by simp
  next
    case (Add t)
    then show ?thesis using Cons.IH [of "i + length t" "i + length t" True] by simp
  next
    case (Drop n)
    then show ?thesis using Cons.IH [of i i] by simp
  qed
qed simp

lemma caret_True: "snd (caret es i r) \<longleftrightarrow> snd r \<or> (\<exists>e \<in> set es. \<not> is_Keep e)"
  by (induction es i r rule: caret.induct) auto

subsection \<open>Replacement\<close>

lemma replaceOp_build:
  assumes "0 \<le> s" and "s \<le> e" and "e \<le> n"
  shows "replaceOp n s e t = build NewOp [Keep (nat s), Add t, Drop (nat (e - s)), Keep (nat (n - e))]"
  using assms by (simp add: replaceOp_def)

lemma replaceOp_wf:
  assumes "0 \<le> s" and "s \<le> e" and "e \<le> n"
  shows "op_wf (replaceOp n s e t)" "baseLen (replaceOp n s e t) = n"
    "targetLen (replaceOp n s e t) = n - (e - s) + int (length t)"
  unfolding replaceOp_build [OF assms] using assms by (simp_all add: build_NewOp del: build_simps)

lemma replaceOp_Apply:
  assumes "0 \<le> s" and "s \<le> e" and "e \<le> int (length doc)"
  shows "Apply (replaceOp (int (length doc)) s e t) doc =
    Inr (take (nat s) doc @ t @ drop (nat e) doc)"
proof -
  have d: "nat (e - s) + nat s = nat e" "take (nat (int (length doc) - e)) (drop (nat e) doc) = drop (nat e) doc"
    using assms by auto
  show ?thesis
    using replaceOp_wf [OF assms]
    by (simp add: Apply_run) (simp add: replaceOp_build [OF assms] text_units.run_build_NewOp d del: build_simps)
qed

subsection \<open>Properties\<close>

text \<open>
  when \<open>MapRange\<close> reports that nothing inside a range changed, the mapped range lies inside the
  new document and holds exactly the text that the range held before the operation.
\<close>

theorem mapRange_untouched_text:
  assumes "op_wf p" and "0 \<le> s" and "s \<le> e" and "e \<le> baseLen p"
    and "Apply p doc = Inr out" and "MapRange p s e = (s', e', False)"
  shows "0 \<le> s' \<and> e' - s' = e - s \<and> e' \<le> int (length out) \<and> sub out s' e' = sub doc s e"
proof -
  have d: "length doc = base (edits p)" and out: "out = run (\<lambda>t. t) (edits p) doc"
    using assms(1,5) by (auto simp: Apply_run op_wf_lengths split: if_splits)
  have r: "nat s \<le> nat e" "nat e \<le> base (edits p)"
    using assms(1-4) by (auto simp: op_wf_lengths)
  have m: "MapRange p (int (nat s)) (int (nat e)) = (s', e', False)" using assms(2,3,6) by simp
  have "length out = target (edits p)" using d by (simp add: out text_units.length_run)
  then show ?thesis
    using MapRange_untouched [OF assms(1) r d m] MapRange_in_target [OF assms(1) r m] assms(1-3)
    by (simp add: out op_wf_lengths)
qed

theorem mapRange_untouched_text_witness:
  "\<exists>out. Apply (Retain (Insert (Retain NewOp 1) [120]) 2) [97, 98, 99] = Inr out \<and> sub out 2 4 = [98, 99]"
proof -
  let ?p = "Retain (Insert (Retain NewOp 1) [120]) 2"
  have w: "op_wf ?p" and l: "baseLen ?p = 3"
    by (simp_all add: op_wf_def edits_def edit_of_def comp_wf_def comp_kind_defs NewOp_def Retain_def
        Insert_def Let_def)
  then have "\<exists>out. Apply ?p [97, 98, 99] = Inr out" by (simp add: Apply_run)
  then obtain out where out: "Apply ?p [97, 98, 99] = Inr out" by blast
  have m: "MapRange ?p 1 3 = (2, 4, False)"
    by (simp add: MapRange_def MapPos_def comp_kind_defs NewOp_def Retain_def Insert_def Let_def)
  have "sub out 2 4 = sub [97, 98, 99] 1 3"
    using mapRange_untouched_text [OF w _ _ _ out m] l by simp
  with out show ?thesis by (simp add: sub_def)
qed

text \<open>
  positions of the old document move to positions of the new one and keep their order; staying in front of
  text inserted at the position never lands behind going after it; a mapped range is a range
  of the new document whether it was touched or not.
\<close>

theorem positions_stay_in_document:
  assumes "op_wf p" and "0 \<le> i" and "i \<le> j" and "j \<le> baseLen p"
  shows "0 \<le> MapPos p i after \<and> MapPos p i after \<le> MapPos p j after \<and> MapPos p j after \<le> targetLen p \<and>
    MapPos p i False \<le> MapPos p i True \<and>
    (case MapRange p i j of (s, e, touched) \<Rightarrow> 0 \<le> s \<and> s \<le> e \<and> e \<le> targetLen p)"
proof -
  have r: "nat i \<le> nat j" "nat j \<le> base (edits p)"
    using assms by (auto simp: op_wf_lengths)
  have pos: "MapPos p i a = int (shift a (edits p) (nat i))" "MapPos p j a = int (shift a (edits p) (nat j))" for a
    using MapPos_shift [OF assms(1), of "nat i" a] MapPos_shift [OF assms(1), of "nat j" a] assms(2,3) by simp_all
  have "0 \<le> MapPos p i after" "MapPos p i after \<le> MapPos p j after" "MapPos p j after \<le> targetLen p"
    "MapPos p i False \<le> MapPos p i True"
    using shift_mono [OF r(1)] shift_le_target [OF r(2)] shift_after assms(1)
    by (simp_all add: pos op_wf_lengths)
  moreover have "(case MapRange p i j of (s, e, touched) \<Rightarrow> 0 \<le> s \<and> s \<le> e \<and> e \<le> targetLen p)"
    using MapRange_in_target [OF assms(1) r] assms(2,3) by (auto split: prod.split)
  ultimately show ?thesis by blast
qed

theorem positions_stay_in_document_witness:
  "(0::int) \<le> MapPos (Delete (Retain NewOp 1) 1) 1 False \<and> MapPos (Delete (Retain NewOp 1) 1) 2 False \<le> 1"
proof -
  have w: "op_wf (Delete (Retain NewOp 1) 1)"
    and l: "baseLen (Delete (Retain NewOp 1) 1) = 2" "targetLen (Delete (Retain NewOp 1) 1) = 1"
    by (simp_all add: op_wf_def edits_def edit_of_def comp_wf_def comp_kind_defs NewOp_def Retain_def
        Delete_def Let_def)
  show ?thesis
    using positions_stay_in_document [OF w, of 1 2 False] by (simp add: l)
qed

text \<open>
  \<open>EditPos\<close> answers \<open>ok\<close> exactly for operations that insert or delete, and then the caret
  is a position of the document after the operation.
\<close>

theorem editPos_in_target:
  assumes "op_wf p"
  shows "(case EditPos p of (position, ok) \<Rightarrow>
    (ok \<longleftrightarrow> (\<exists>c \<in> set (comps p). \<not> isRetain c)) \<and> 0 \<le> position \<and> position \<le> targetLen p)"
proof -
  have "EditPos p = (int (fst (caret (edits p) 0 (0, False))), snd (caret (edits p) 0 (0, False)))"
    using assms editPos_loop_caret [of "comps p" 0 0 False] by (simp add: EditPos_def op_wf_def edits_def)
  then show ?thesis
    using caret_le [of 0 0 "edits p" False] op_wf_lengths [OF assms]
    by (auto simp: caret_True edits_def edit_of_kind)
qed

theorem editPos_in_target_witness:
  "fst (EditPos (Retain (Insert (Retain NewOp 1) [120]) 2)) \<le> 4"
proof -
  let ?p = "Retain (Insert (Retain NewOp 1) [120]) 2"
  have w: "op_wf ?p" and l: "targetLen ?p = 4"
    by (simp_all add: op_wf_def edits_def edit_of_def comp_wf_def comp_kind_defs NewOp_def Retain_def
        Insert_def Let_def)
  show ?thesis using editPos_in_target [OF w] by (auto simp: l split: prod.splits)
qed

text \<open>
  the operation that accepts a suggestion, \<open>replaceOp\<close>, is well-formed for any range of the
  document and replaces exactly that range by the new text.
\<close>

theorem replaceOp_replaces:
  assumes "0 \<le> s" and "s \<le> e" and "e \<le> int (length doc)"
  shows "op_wf (replaceOp (int (length doc)) s e t) \<and>
    Apply (replaceOp (int (length doc)) s e t) doc = Inr (take (nat s) doc @ t @ drop (nat e) doc)"
  using replaceOp_wf [OF assms] replaceOp_Apply [OF assms] by blast+

theorem replaceOp_replaces_witness:
  "Apply (replaceOp 3 1 2 [120, 121]) [97, 98, 99] = Inr [97, 120, 121, 99]"
  using replaceOp_replaces [of 1 2 "[97, 98, 99]" "[120, 121]"] by simp

end
