(* ===== verification/Normal.thy ===== *)
theory Normal
  imports OT
begin

text \<open>
  The normal form of operations. \<open>Retain\<close>, \<open>Delete\<close> and \<open>Insert\<close> merge adjacent components and
  store an insert before a delete it follows (\<^verbatim>\<open>internal/collab/ot.go\<close>), \<^emph>\<open>so equal edits always
  have one representation\<close>: the lemmas show that the builder methods keep the form, and that two
  operations in normal form with the same effect are the same operation.
\<close>

subsection \<open>The normal form the builder methods keep\<close>

text \<open>
  Adjacent components are of different kinds and no insert follows a delete.
\<close>

definition may_follow :: "comp \<Rightarrow> comp \<Rightarrow> bool" where
  "may_follow c d \<longleftrightarrow> \<not> (isRetain c \<and> isRetain d) \<and> \<not> (isInsert c \<and> isInsert d) \<and>
     (isDelete c \<longrightarrow> isRetain d)"

fun normal :: "comp list \<Rightarrow> bool" where
  "normal (c # d # cs) \<longleftrightarrow> may_follow c d \<and> normal (d # cs)"
| "normal cs \<longleftrightarrow> True"

lemma normal_snoc:
  "normal (cs @ [c]) \<longleftrightarrow> normal cs \<and> (cs \<noteq> [] \<longrightarrow> may_follow (last cs) c)"
  by (induction cs rule: normal.induct) auto

lemma normal_snoc2:
  "normal (cs @ [d, c]) \<longleftrightarrow> normal (cs @ [d]) \<and> may_follow d c"
  "normal (cs @ [b, d, c]) \<longleftrightarrow> normal (cs @ [b]) \<and> may_follow b d \<and> may_follow d c"
  using normal_snoc [of "cs @ [d]" c] normal_snoc [of "cs @ [b, d]" c] normal_snoc [of "cs @ [b]" d] by auto

lemma may_follow_kind:
  "may_follow (c\<lparr>ins_of := t\<rparr>) d \<longleftrightarrow> may_follow c d" "may_follow c (d\<lparr>ins_of := t\<rparr>) \<longleftrightarrow> may_follow c d"
  by (auto simp: may_follow_def comp_kind_defs)

lemma normal_emit:
  assumes "op_wf p" and "normal (comps p)"
  shows "normal (comps (emit p e))"
proof (cases "comps p" rule: rev_cases)
  case Nil
  then show ?thesis by (cases e) (auto simp: Retain_def Delete_def Insert_def Let_def)
next
  case p: (snoc cs c)
  show ?thesis
  proof (cases cs rule: rev_cases)
    case Nil
    with p assms show ?thesis
      by (cases e) (auto simp: Retain_def Delete_def Insert_def Let_def comp_kind_defs may_follow_def)
  next
    case (snoc ds d)
    with p have p: "comps p = ds @ [d, c]" by simp
    with assms(2) have n: "normal ds" "ds \<noteq> [] \<Longrightarrow> may_follow (last ds) d" "may_follow d c"
      by (auto simp: normal_snoc2 normal_snoc)
    show ?thesis
    proof (cases e)
      case (Add t)
      with p n show ?thesis
        by (auto simp: Insert_def Let_def butlast_append normal_snoc normal_snoc2 may_follow_kind)
          (auto simp: may_follow_def comp_kind_defs)
    qed (use p n in \<open>auto simp: Retain_def Delete_def Let_def butlast_append normal_snoc normal_snoc2
          may_follow_def comp_kind_defs\<close>)
  qed
qed

lemma normal_build: "op_wf p \<Longrightarrow> normal (comps p) \<Longrightarrow> normal (comps (build p es))"
proof (induction es arbitrary: p)
  case (Cons e es)
  then show ?case using op_wf_emit [OF Cons.prems(1), of e] normal_emit [OF Cons.prems, of e] by simp
qed simp

text \<open>Rebuilding a normal operation from its own steps gives it back.\<close>

lemma emit_snoc:
  assumes "comp_wf c" and "comps p \<noteq> [] \<Longrightarrow> may_follow (last (comps p)) c"
  shows "comps (emit p (edit_of c)) = comps p @ [c]"
proof -
  have c: "n_of c \<noteq> 0 \<Longrightarrow> c = \<lparr>n_of = n_of c, ins_of = []\<rparr>" "n_of c = 0 \<Longrightarrow> c = \<lparr>n_of = 0, ins_of = ins_of c\<rparr>"
    using assms(1) by (cases c; simp add: comp_wf_def)+
  consider "isRetain c" | "isInsert c" | "isDelete c" by (metis comp_kind_defs linorder_cases)
  then show ?thesis
  proof cases
    case 1
    with assms(2) c(1) show ?thesis
      by (auto simp: edit_of_simps Retain_def Let_def may_follow_def isRetain_def)
  next
    case 2
    with assms c(2) show ?thesis
      by (auto simp: edit_of_simps Insert_def Let_def may_follow_def comp_wf_def comp_kind_defs)
  next
    case 3
    with assms(2) c(1) show ?thesis
      by (auto simp: edit_of_simps Delete_def Let_def may_follow_def comp_kind_defs)
  qed
qed

lemma normal_prefix: "normal (xs @ ys) \<Longrightarrow> normal xs"
  by (induction xs rule: normal.induct) auto

lemma build_edits_comps:
  "list_all comp_wf cs \<Longrightarrow> normal (comps p @ cs) \<Longrightarrow> comps (build p (map edit_of cs)) = comps p @ cs"
proof (induction cs arbitrary: p)
  case (Cons c cs)
  from Cons.prems(2) have n: "normal ((comps p @ [c]) @ cs)" by simp
  then have "normal (comps p @ [c])" by (rule normal_prefix)
  then have "comps (emit p (edit_of c)) = comps p @ [c]"
    using Cons.prems(1) by (intro emit_snoc) (auto simp: normal_snoc)
  with Cons.IH [of "emit p (edit_of c)"] Cons.prems n show ?case by simp
qed simp

lemma build_edits:
  assumes "op_wf p" and "normal (comps p)"
  shows "build NewOp (edits p) = p"
proof -
  have c: "comps (build NewOp (edits p)) = comps p"
    using assms build_edits_comps [of "comps p" NewOp] by (simp add: op_wf_def edits_def NewOp_def)
  have l: "baseLen (build NewOp (edits p)) = baseLen p" "targetLen (build NewOp (edits p)) = targetLen p"
    unfolding build_NewOp using op_wf_lengths [OF assms(1)] by simp_all
  show ?thesis by (rule op.equality) (simp_all add: c l)
qed

subsection \<open>One representation\<close>

text \<open>Two scripts agree when they fit the same documents and do the same to them.\<close>

definition agree :: "edit list \<Rightarrow> edit list \<Rightarrow> bool" where
  "agree es fs \<longleftrightarrow> base es = base fs \<and>
     (\<forall>d. length d = base es \<longrightarrow> run (\<lambda>t. t) es d = run (\<lambda>t. t) fs d)"

fun fits :: "edit \<Rightarrow> edit \<Rightarrow> bool" where
  "fits (Keep _) e \<longleftrightarrow> \<not> is_Keep e"
| "fits (Add _) e \<longleftrightarrow> \<not> is_Add e"
| "fits (Drop _) e \<longleftrightarrow> is_Keep e"

fun canonical :: "edit list \<Rightarrow> bool" where
  "canonical (a # b # es) \<longleftrightarrow> fits a b \<and> canonical (b # es)"
| "canonical es \<longleftrightarrow> True"

lemma canonical_edits: "normal cs \<Longrightarrow> canonical (map edit_of cs)"
proof (induction cs rule: normal.induct)
  case (1 c d cs)
  moreover have "fits (edit_of c) (edit_of d)" using 1(2)
    by (auto simp: edit_of_def may_follow_def comp_kind_defs)
  ultimately show ?case by simp
qed auto

lemma agree_sym: "agree es fs \<Longrightarrow> agree fs es"
  by (simp add: agree_def)

lemma agreeD: "agree es fs \<Longrightarrow> length d = base es \<Longrightarrow> run (\<lambda>t. t) es d = run (\<lambda>t. t) fs d"
  by (simp add: agree_def)

lemma agree_base: "agree es fs \<Longrightarrow> base es = base fs"
  by (simp add: agree_def)

lemma agree_target: "agree es fs \<Longrightarrow> target es = target fs"
  using text_units.length_run [of "replicate (base es) 0" es] text_units.length_run [of "replicate (base es) 0" fs]
  by (auto simp: agree_def)

lemma agree_Keep:
  assumes "agree (Keep n # es) (Keep m # fs)" and "n \<le> m"
  shows "agree es (if n = m then fs else Keep (m - n) # fs)"
proof -
  let ?fs = "if n = m then fs else Keep (m - n) # fs"
  from assms have b: "base es = base ?fs" by (auto simp: agree_def)
  have "run (\<lambda>t. t) es d = run (\<lambda>t. t) ?fs d" if "length d = base es" for d
  proof -
    let ?d = "replicate n 0 @ d"
    have "run (\<lambda>t. t) (Keep n # es) ?d = run (\<lambda>t. t) (Keep m # fs) ?d"
      using assms(1) that by (intro agreeD) auto
    moreover have "run (\<lambda>t. t) (Keep m # fs) ?d = replicate n 0 @ run (\<lambda>t. t) ?fs d"
      using \<open>n \<le> m\<close> by auto
    ultimately show ?thesis by simp
  qed
  with b show ?thesis by (simp add: agree_def)
qed

lemma agree_Drop:
  assumes "agree (Drop n # es) (Drop m # fs)" and "n \<le> m"
  shows "agree es (if n = m then fs else Drop (m - n) # fs)"
proof -
  let ?fs = "if n = m then fs else Drop (m - n) # fs"
  from assms have b: "base es = base ?fs" by (auto simp: agree_def)
  have "run (\<lambda>t. t) es d = run (\<lambda>t. t) ?fs d" if "length d = base es" for d
  proof -
    let ?d = "replicate n 0 @ d"
    have "run (\<lambda>t. t) (Drop n # es) ?d = run (\<lambda>t. t) (Drop m # fs) ?d"
      using assms(1) that by (intro agreeD) auto
    with \<open>n \<le> m\<close> show ?thesis by auto
  qed
  with b show ?thesis by (simp add: agree_def)
qed

lemma agree_Add:
  assumes "agree (Add t # es) (Add u # fs)" and "length t \<le> length u"
  shows "\<exists>v. u = t @ v \<and> agree es (if v = [] then fs else Add v # fs)"
proof -
  have eq: "t @ run (\<lambda>t. t) es d = u @ run (\<lambda>t. t) fs d" if "length d = base es" for d
    using agreeD [OF assms(1), of d] that by simp
  from eq [of "replicate (base es) 0"] assms(2) obtain v where v: "u = t @ v"
    by (auto simp: append_eq_append_conv2)
  with eq have "run (\<lambda>t. t) es d = v @ run (\<lambda>t. t) fs d" if "length d = base es" for d
    using that by fastforce
  with v assms(1) show ?thesis by (auto simp: agree_def)
qed

text \<open>A kept unit shows in the output; nothing else that can come first does.\<close>

lemma not_agree_Keep:
  assumes "0 < m" and "proper es" and "es \<noteq> [] \<Longrightarrow> \<not> is_Keep (hd es)"
  shows "\<not> agree (Keep m # fs) es"
proof
  assume a: "agree (Keep m # fs) es"
  define r :: "unit16 list" where "r = replicate (base es - 1) 0"
  have b: "0 < base es" using agree_base [OF a] assms(1) by simp
  have out: "run (\<lambda>t. t) (Keep m # fs) (x # r) = run (\<lambda>t. t) es (x # r)" for x
    using agreeD [OF a] agree_base [OF a] b by (simp add: r_def)
  obtain k where m: "m = Suc k" using assms(1) by (cases m) auto
  have h: "hd (run (\<lambda>t. t) es (x # r)) = x" for x
    using out [of x] by (simp add: m)
      (metis list.sel(1))
  show False
  proof (cases es)
    case Nil
    with b show False by simp
  next
    case (Cons e es')
    have "hd (run (\<lambda>t. t) es (0 # r)) = hd (run (\<lambda>t. t) es (1 # r))"
      using Cons assms(2,3) by (cases e) (auto simp: drop_Cons')
    with h [of 0] h [of 1] show False by simp
  qed
qed

lemma not_agree_Add_Drop:
  assumes "t \<noteq> []" and "fs \<noteq> [] \<Longrightarrow> is_Keep (hd fs) \<and> 0 < step_size (hd fs)"
  shows "\<not> agree (Add t # es) (Drop k # fs)"
proof
  assume a: "agree (Add t # es) (Drop k # fs)"
  show False
  proof (cases fs)
    case Nil
    with agree_target [OF a] assms(1) show False by simp
  next
    case (Cons f fs')
    with assms(2) obtain n where f: "f = Keep (Suc n)"
      by (cases f) (auto simp: gr0_conv_Suc)
    let ?d = "replicate (base es) (hd t + 1)"
    have "run (\<lambda>t. t) (Add t # es) ?d = run (\<lambda>t. t) (Drop k # fs) ?d"
      by (rule agreeD [OF a]) simp
    then have "hd t = hd (run (\<lambda>t. t) (Drop k # fs) ?d)" using assms(1) by (metis hd_append2 run.simps(3))
    moreover have "k + Suc n \<le> base es" using agree_base [OF a] by (simp add: Cons f)
    then have "hd (run (\<lambda>t. t) (Drop k # fs) ?d) = hd t + 1"
      by (simp add: Cons f)
    ultimately show False by simp
  qed
qed

lemma canonical_Cons: "canonical (e # es) \<longleftrightarrow> canonical es \<and> (es \<noteq> [] \<longrightarrow> fits e (hd es))"
  by (cases es) auto

lemma agree_first_Keep:
  assumes "agree (Keep n # es) (Keep m # fs)" "n \<le> m" "canonical (Keep n # es)" "proper es"
  shows "n = m \<and> agree es fs"
proof (cases "n = m")
  case False
  with assms have "agree (Keep (m - n) # fs) es"
    using agree_Keep [OF assms(1,2)] by (simp add: agree_sym)
  moreover have "es \<noteq> [] \<Longrightarrow> \<not> is_Keep (hd es)" using assms(3) by (simp add: canonical_Cons)
  ultimately show ?thesis using not_agree_Keep [of "m - n" es fs] assms False by auto
qed (use agree_Keep [OF assms(1,2)] in simp)

lemma agree_first_Drop:
  assumes "agree (Drop n # es) (Drop m # fs)" "n \<le> m" "canonical (Drop n # es)" "proper es" "proper fs"
  shows "n = m \<and> agree es fs"
proof (cases "n = m")
  case False
  with assms have a: "agree es (Drop (m - n) # fs)"
    using agree_Drop [OF assms(1,2)] by simp
  show ?thesis
  proof (cases es)
    case Nil
    with agree_base [OF a] False assms(2) show ?thesis by simp
  next
    case (Cons e es')
    with assms(3) have "is_Keep e" by (simp add: canonical_Cons)
    with Cons assms(4) obtain k where "e = Keep k" "0 < k" by (cases e) auto
    with a Cons not_agree_Keep [of k "Drop (m - n) # fs" es'] assms(2,5) False show ?thesis by auto
  qed
qed (use agree_Drop [OF assms(1,2)] in simp)

lemma agree_first_Add:
  assumes a: "agree (Add t # es) (Add u # fs)" "length t \<le> length u" and "canonical (Add t # es)"
    and "proper es" "proper fs"
  shows "t = u \<and> agree es fs"
proof -
  from agree_Add [OF a] obtain v where v: "u = t @ v" "agree es (if v = [] then fs else Add v # fs)"
    by blast
  have "v = []"
  proof (rule ccontr)
    assume ne: "v \<noteq> []"
    with v have a: "agree es (Add v # fs)" by simp
    show False
    proof (cases es)
      case Nil
      with agree_target [OF a] ne show False by simp
    next
      case (Cons e es')
      with assms(3) have "\<not> is_Add e" by (simp add: canonical_Cons)
      then consider k where "e = Keep k" | k where "e = Drop k" by (cases e) auto
      then show False
      proof cases
        case 1
        with Cons a assms(4,5) ne not_agree_Keep [of k "Add v # fs" es'] show False by simp
      next
        case 2
        have "es' \<noteq> [] \<Longrightarrow> is_Keep (hd es') \<and> 0 < step_size (hd es')"
          using assms(3,4) Cons 2 by (cases es') (auto simp: canonical_Cons)
        with not_agree_Add_Drop [OF ne, of es' fs k] agree_sym [OF a] Cons 2 show False by simp
      qed
    qed
  qed
  with v show ?thesis by simp
qed

lemma agree_Nil: "agree [] fs \<Longrightarrow> proper fs \<Longrightarrow> fs = []"
proof (cases fs)
  case (Cons f fs')
  assume a: "agree [] fs" "proper fs"
  with Cons agree_base [OF a(1)] agree_target [OF a(1)] show ?thesis by (cases f) auto
qed simp

lemma agree_heads:
  assumes "agree (e # es) (f # fs)" "canonical (e # es)" "canonical (f # fs)" "proper (e # es)" "proper (f # fs)"
  shows "e = f \<and> agree es fs"
proof -
  note sym = agree_sym [OF assms(1)]
  have keep: False if "is_Keep x" "\<not> is_Keep y" "agree (x # xs) (y # ys)" "proper (x # xs)" "proper (y # ys)"
    for x y xs ys
    using that not_agree_Keep [of "step_size x" "y # ys" xs] by (cases x) auto
  have add: False if "is_Add x" "is_Drop y" "agree (x # xs) (y # ys)" "proper (x # xs)" "proper (y # ys)"
    "canonical (y # ys)" for x y xs ys
  proof -
    from that obtain t k where xy: "x = Add t" "y = Drop k" by (cases x; cases y) auto
    have "ys \<noteq> [] \<Longrightarrow> is_Keep (hd ys) \<and> 0 < step_size (hd ys)"
      using that xy by (cases ys) (auto simp: canonical_Cons)
    with not_agree_Add_Drop [of t ys xs k] that xy show False by auto
  qed
  have kinds: "is_Keep e = is_Keep f" "is_Add e \<Longrightarrow> \<not> is_Drop f" "is_Drop e \<Longrightarrow> \<not> is_Add f"
    using keep [OF _ _ assms(1,4,5)] keep [OF _ _ sym assms(5,4)]
      add [OF _ _ assms(1,4,5,3)] add [OF _ _ sym assms(5,4,2)] by blast+
  have fwd: "x = y \<and> agree xs ys"
    if "agree (x # xs) (y # ys)" "is_Keep x = is_Keep y" "is_Add x \<Longrightarrow> \<not> is_Drop y" "is_Drop x \<Longrightarrow> \<not> is_Add y"
      "step_size x \<le> step_size y" "canonical (x # xs)" "proper xs" "proper ys" for x y xs ys
  proof (cases x)
    case (Keep n)
    with that(2) obtain m where "y = Keep m" by (cases y) auto
    with Keep agree_first_Keep [of n xs m ys] that show ?thesis by simp
  next
    case (Add t)
    with that(2,3) obtain u where "y = Add u" by (cases y) auto
    with Add agree_first_Add [of t xs u ys] that show ?thesis by simp
  next
    case (Drop n)
    with that(2,4) obtain m where "y = Drop m" by (cases y) auto
    with Drop agree_first_Drop [of n xs m ys] that show ?thesis by simp
  qed
  have p: "proper es" "proper fs" using assms(4,5) by auto
  show ?thesis
  proof (cases "step_size e \<le> step_size f")
    case True
    with fwd [OF assms(1) kinds _ assms(2) p] show ?thesis by blast
  next
    case False
    then have "f = e \<and> agree fs es"
      using kinds by (intro fwd [OF sym _ _ _ _ assms(3) p(2,1)]) auto
    then show ?thesis using agree_sym by blast
  qed
qed

lemma agree_unique:
  "agree es fs \<Longrightarrow> canonical es \<Longrightarrow> canonical fs \<Longrightarrow> proper es \<Longrightarrow> proper fs \<Longrightarrow> es = fs"
proof (induction es arbitrary: fs)
  case Nil
  then show ?case using agree_Nil [of fs] by simp
next
  case (Cons e es)
  show ?case
  proof (cases fs)
    case Nil
    with Cons.prems agree_Nil [of "e # es"] show ?thesis by (simp add: agree_sym)
  next
    case f: (Cons f fs')
    with agree_heads [of e es f fs'] Cons.prems have "e = f" "agree es fs'" by auto
    with Cons.IH [of fs'] Cons.prems f show ?thesis by (simp add: canonical_Cons)
  qed
qed

subsection \<open>Property\<close>

text \<open>
  two well-formed operations in normal form that fit documents of the same length and do the
  same to every such document are the same operation, component by component.
\<close>

theorem equal_edits_one_representation:
  assumes "op_wf p" and "op_wf q" and "normal (comps p)" and "normal (comps q)"
    and "baseLen p = baseLen q"
    and "\<And>doc. int (length doc) = baseLen p \<Longrightarrow> Apply p doc = Apply q doc"
  shows "p = q"
proof -
  have "agree (edits p) (edits q)"
    using assms(1,2,5,6) by (simp add: agree_def op_wf_lengths Apply_run)
  then have "edits p = edits q"
    using canonical_edits [OF assms(3)] canonical_edits [OF assms(4)]
      proper_edits [OF assms(1)] proper_edits [OF assms(2)]
    unfolding edits_def by (rule agree_unique)
  then show ?thesis
    using build_edits [OF assms(1,3)] build_edits [OF assms(2,4)] by metis
qed

theorem equal_edits_one_representation_witness:
  "Insert (Delete NewOp 1) [120] = Delete (Insert NewOp [120]) 1"
proof -
  let ?p = "Insert (Delete NewOp 1) [120]" and ?q = "Delete (Insert NewOp [120]) 1"
  have w: "op_wf ?p" "op_wf ?q" "normal (comps ?p)" "normal (comps ?q)" and b: "baseLen ?p = baseLen ?q"
    by (simp_all add: op_wf_def edits_def edit_of_def comp_wf_def comp_kind_defs NewOp_def
        Insert_def Delete_def Let_def may_follow_def)
  have eq: "Apply ?p doc = Apply ?q doc" for doc
    by (simp add: Apply_def NewOp_def Insert_def Delete_def Let_def comp_kind_defs)
  show ?thesis by (rule equal_edits_one_representation [OF w b]) (rule eq)
qed

end
