(* ===== verification/Wire.thy ===== *)
theory Wire
  imports Normal
begin

text \<open>
  The wire form of \<^verbatim>\<open>internal/collab/ot.go\<close>: \<open>MarshalJSON\<close> and \<open>UnmarshalJSON\<close> with their limits,
  the guard \<open>checkText\<close> on incoming operations and \<open>normalizeNewlines\<close>. JSON is modelled as its
  values; the standard library's \<^verbatim>\<open>encoding/json\<close> turns them into bytes and back. The lemmas give
  the normal form of operations, the round trip, and what the guards promise of the document.
\<close>

subsection \<open>JSON values\<close>

text \<open>
  \<open>JNum\<close> is a number literal that denotes an integer, \<open>JFrac\<close> any other number literal, which
  does not decode into an integer. Strings are lists of runes.
\<close>

datatype json = JNull | JBool bool | JNum int | JFrac | JStr "rune list" | JArr "json list"
  | JObj "(rune list \<times> json) list"

datatype wire_error = ErrNotArray | ErrTooMany | ErrEmptyInsert | ErrComponent | ErrTooLarge | ErrZero

definition maxOpComponents :: nat where "maxOpComponents = 20000"

definition maxComponentLength :: int where "maxComponentLength = 2 ^ 30"

definition MarshalJSON :: "op \<Rightarrow> json" where
  "MarshalJSON p =
     JArr (map (\<lambda>c. if isInsert c then JStr (decodeText (ins_of c)) else JNum (n_of c)) (comps p))"

text \<open>\<open>json.Unmarshal(part, &n)\<close> for \<open>n\<close> an \<open>int64\<close> that is zero: \<open>null\<close> leaves it as it is.\<close>

definition unmarshal_int64 :: "json \<Rightarrow> int option" where
  "unmarshal_int64 j =
     (case j of JNull \<Rightarrow> Some 0
      | JNum n \<Rightarrow> if - (2 ^ 63) \<le> n \<and> n < 2 ^ 63 then Some n else None
      | _ \<Rightarrow> None)"

fun unmarshal_loop :: "op \<Rightarrow> json list \<Rightarrow> (wire_error, op) result" where
  "unmarshal_loop decoded [] = Inr decoded"
| "unmarshal_loop decoded (part # parts) =
     (case part of
        JStr t \<Rightarrow> if t = [] then Inl ErrEmptyInsert
          else unmarshal_loop (InsertString decoded t) parts
      | _ \<Rightarrow>
        (case unmarshal_int64 part of
           None \<Rightarrow> Inl ErrComponent
         | Some n \<Rightarrow>
           if n > maxComponentLength \<or> n < - maxComponentLength then Inl ErrTooLarge
           else if n > 0 then unmarshal_loop (Retain decoded n) parts
           else if n < 0 then unmarshal_loop (Delete decoded (- n)) parts
           else Inl ErrZero))"

text \<open>\<open>json.Unmarshal\<close> into a slice of raw messages accepts \<open>null\<close>, which leaves the slice nil.\<close>

definition UnmarshalJSON :: "json \<Rightarrow> (wire_error, op) result" where
  "UnmarshalJSON j =
     (case j of
        JNull \<Rightarrow> Inr NewOp
      | JArr parts \<Rightarrow> if length parts > maxOpComponents then Inl ErrTooMany
          else unmarshal_loop NewOp parts
      | _ \<Rightarrow> Inl ErrNotArray)"

subsection \<open>Guards on text\<close>

datatype text_error = ErrInsertInsidePair | ErrCarriageReturn | ErrDeleteHalf

definition carriage_return :: unit16 where "carriage_return = 13"

fun checkText_loop :: "unit16 list \<Rightarrow> comp list \<Rightarrow> int \<Rightarrow> text_error option" where
  "checkText_loop doc [] position = None"
| "checkText_loop doc (c # cs) position =
     (if isRetain c then checkText_loop doc cs (position + n_of c)
      else if isInsert c then
        if insidePair doc position then Some ErrInsertInsidePair
        else if carriage_return \<in> set (ins_of c) then Some ErrCarriageReturn
        else checkText_loop doc cs position
      else if insidePair doc position \<or> insidePair doc (position - n_of c) then Some ErrDeleteHalf
      else checkText_loop doc cs (position - n_of c))"

definition checkText :: "op \<Rightarrow> unit16 list \<Rightarrow> text_error option" where
  "checkText p doc = checkText_loop doc (comps p) 0"

text \<open>\<open>strings.ReplaceAll\<close> for the two patterns the code uses.\<close>

fun replace_crlf :: "rune list \<Rightarrow> rune list" where
  "replace_crlf (r # s # rs) = (if r = 13 \<and> s = 10 then 10 # replace_crlf rs else r # replace_crlf (s # rs))"
| "replace_crlf rs = rs"

definition replace_cr :: "rune list \<Rightarrow> rune list" where
  "replace_cr rs = map (\<lambda>r. if r = 13 then 10 else r) rs"

definition normalizeNewlines :: "rune list \<Rightarrow> rune list" where
  "normalizeNewlines t = (if 13 \<notin> set t then t else replace_cr (replace_crlf t))"

subsection \<open>Decoding runs the builder\<close>

lemma unmarshal_loop_build:
  assumes "unmarshal_loop p parts = Inr q"
  shows "\<exists>es. q = build p es \<and> length es = length parts \<and> (\<forall>e \<in> set es. step_size e > 0 \<and>
    (case e of Add t \<Rightarrow> paired t | _ \<Rightarrow> int (step_size e) \<le> maxComponentLength))"
  using assms
proof (induction parts arbitrary: p)
  case (Cons part parts)
  have num: ?case if "unmarshal_int64 part = Some n" "\<not> (\<exists>t. part = JStr t)" for n
  proof -
    have n: "n \<le> maxComponentLength" "- maxComponentLength \<le> n" "n \<noteq> 0"
      and u: "unmarshal_loop (if n > 0 then Retain p n else Delete p (- n)) parts = Inr q"
      using Cons.prems that by (auto split: json.splits if_splits)
    let ?e = "if n > 0 then Keep (nat n) else Drop (nat (- n))"
    have "emit p ?e = (if n > 0 then Retain p n else Delete p (- n))" using n by auto
    with u Cons.IH [OF u] obtain es where es: "q = build (emit p ?e) es" "length es = length parts"
      "\<forall>e \<in> set es. step_size e > 0 \<and> (case e of Add t \<Rightarrow> paired t | _ \<Rightarrow> int (step_size e) \<le> maxComponentLength)"
      by auto
    with n show ?thesis by (intro exI [of _ "?e # es"]) auto
  qed
  show ?case
  proof (cases "\<exists>t. part = JStr t")
    case True
    then obtain t where t: "part = JStr t" by blast
    with Cons.prems have ne: "t \<noteq> []" and u: "unmarshal_loop (InsertString p t) parts = Inr q"
      by (auto split: if_splits)
    from Cons.IH [OF u] obtain es where es: "q = build (InsertString p t) es" "length es = length parts"
      "\<forall>e \<in> set es. step_size e > 0 \<and> (case e of Add t \<Rightarrow> paired t | _ \<Rightarrow> int (step_size e) \<le> maxComponentLength)"
      by auto
    with ne show ?thesis
      by (intro exI [of _ "Add (encodeText t) # es"]) (auto simp: InsertString_def encodeText_paired)
  next
    case False
    moreover have "unmarshal_int64 part \<noteq> None" using Cons.prems False by (auto split: json.splits option.splits)
    ultimately show ?thesis using num by auto
  qed
qed simp

text \<open>What an operation has to satisfy to be sent without loss.\<close>

definition sendable :: "op \<Rightarrow> bool" where
  "sendable p \<longleftrightarrow> op_wf p \<and> normal (comps p) \<and> length (comps p) \<le> maxOpComponents \<and>
     (\<forall>c \<in> set (comps p). \<bar>n_of c\<bar> \<le> maxComponentLength \<and> paired (ins_of c))"

lemma unmarshal_loop_marshal:
  assumes "\<forall>c \<in> set cs. comp_wf c \<and> \<bar>n_of c\<bar> \<le> maxComponentLength \<and> paired (ins_of c)"
  shows "unmarshal_loop p (map (\<lambda>c. if isInsert c then JStr (decodeText (ins_of c)) else JNum (n_of c)) cs) =
    Inr (build p (map edit_of cs))"
  using assms
proof (induction cs arbitrary: p)
  case (Cons c cs)
  show ?case
  proof (cases "isInsert c")
    case True
    moreover have "encodeText (decodeText (ins_of c)) = ins_of c" using Cons.prems by (simp add: encode_decode)
    moreover have "ins_of c \<noteq> []" using True Cons.prems by (auto simp: comp_wf_def isInsert_def)
    ultimately show ?thesis
      using Cons by (auto simp: edit_of_simps InsertString_def)
  next
    case False
    then have "isRetain c \<or> isDelete c" by (auto simp: comp_kind_defs)
    moreover have "- maxComponentLength \<le> n_of c" "n_of c \<le> maxComponentLength" using Cons.prems by auto
    ultimately show ?thesis
      using Cons False
      by (auto simp: unmarshal_int64_def edit_of_simps maxComponentLength_def comp_kind_defs edit_of_def)
  qed
qed simp

lemma UnmarshalJSON_built:
  assumes "UnmarshalJSON j = Inr p"
  obtains es where "p = build NewOp es" and "length es \<le> maxOpComponents"
    and "\<And>e. e \<in> set es \<Longrightarrow> 0 < step_size e"
    and "\<And>t. Add t \<in> set es \<Longrightarrow> paired t"
    and "\<And>e. e \<in> set es \<Longrightarrow> \<not> is_Add e \<Longrightarrow> int (step_size e) \<le> maxComponentLength"
proof (cases j)
  case JNull
  with assms that [of "[]"] show ?thesis by (simp add: UnmarshalJSON_def)
next
  case (JArr parts)
  with assms have len: "length parts \<le> maxOpComponents" and u: "unmarshal_loop NewOp parts = Inr p"
    by (auto simp: UnmarshalJSON_def split: if_splits)
  from unmarshal_loop_build [OF u] obtain es where es: "p = build NewOp es" "length es = length parts"
    "\<forall>e \<in> set es. step_size e > 0 \<and>
      (case e of Add t \<Rightarrow> paired t | _ \<Rightarrow> int (step_size e) \<le> maxComponentLength)"
    by blast
  show ?thesis
  proof (rule that [OF es(1)])
    show "length es \<le> maxOpComponents" using es(2) len by simp
    fix e assume "e \<in> set es"
    with es(3) have "step_size e > 0 \<and>
      (case e of Add t \<Rightarrow> paired t | _ \<Rightarrow> int (step_size e) \<le> maxComponentLength)" by blast
    then show "0 < step_size e" and "\<not> is_Add e \<Longrightarrow> int (step_size e) \<le> maxComponentLength"
      by (cases e; simp)+
  next
    fix t assume "Add t \<in> set es"
    with es(3) show "paired t" by force
  qed
qed (use assms in \<open>auto simp: UnmarshalJSON_def\<close>)

lemma base_bound:
  "(\<And>e. e \<in> set es \<Longrightarrow> \<not> is_Add e \<Longrightarrow> int (step_size e) \<le> m) \<Longrightarrow> 0 \<le> m \<Longrightarrow>
     int (base es) \<le> int (length es) * m"
proof (induction es)
  case (Cons e es)
  have "int (step_base e) \<le> m" using Cons.prems(1) [of e] Cons.prems(2) by (cases e) auto
  with Cons show ?case by (simp add: algebra_simps)
qed simp

subsection \<open>Text guards on edit scripts\<close>

definition inside :: "unit16 list \<Rightarrow> nat \<Rightarrow> bool" where
  "inside doc k \<longleftrightarrow> 0 < k \<and> k < length doc \<and> isHighSurrogate (doc ! (k - 1)) \<and> isLowSurrogate (doc ! k)"

fun text_ok :: "unit16 list \<Rightarrow> edit list \<Rightarrow> nat \<Rightarrow> bool" where
  "text_ok doc [] k \<longleftrightarrow> True"
| "text_ok doc (Keep n # es) k \<longleftrightarrow> text_ok doc es (k + n)"
| "text_ok doc (Add t # es) k \<longleftrightarrow> \<not> inside doc k \<and> carriage_return \<notin> set t \<and> text_ok doc es k"
| "text_ok doc (Drop n # es) k \<longleftrightarrow> \<not> inside doc k \<and> \<not> inside doc (k + n) \<and> text_ok doc es (k + n)"

lemma insidePair_inside: "insidePair doc (int k) \<longleftrightarrow> inside doc k"
proof -
  have "nat (int k - 1) = k - 1" by simp
  then show ?thesis by (simp add: insidePair_def inside_def)
qed

lemma checkText_loop_text_ok:
  "list_all comp_wf cs \<Longrightarrow>
     checkText_loop doc cs (int k) = None \<longleftrightarrow> text_ok doc (map edit_of cs) k"
proof (induction cs arbitrary: k)
  case (Cons c cs)
  consider "isRetain c" | "isInsert c" "\<not> isRetain c" | "isDelete c" "\<not> isRetain c" "\<not> isInsert c"
    by (metis comp_kind_defs linorder_cases)
  then show ?case
  proof cases
    case 1
    then have i: "int k + n_of c = int (k + nat (n_of c))" by (simp add: isRetain_def)
    show ?thesis using 1 Cons.IH [of "k + nat (n_of c)"] Cons.prems by (simp add: edit_of_simps i del: of_nat_add)
  next
    case 2
    with Cons show ?thesis by (simp add: edit_of_simps insidePair_inside)
  next
    case 3
    then have i: "int k - n_of c = int (k + nat (- n_of c))" by (simp add: isDelete_def)
    show ?thesis using 3 Cons.IH [of "k + nat (- n_of c)"] Cons.prems
      by (simp add: edit_of_simps i insidePair_inside del: of_nat_add)
  qed
qed simp

lemma checkText_text_ok: "op_wf p \<Longrightarrow> checkText p doc = None \<longleftrightarrow> text_ok doc (edits p) 0"
  using checkText_loop_text_ok [of "comps p" doc 0] by (simp add: checkText_def op_wf_def edits_def)

text \<open>Cutting text at a position that is not inside a pair.\<close>

lemma inside_Suc: "0 < k \<Longrightarrow> inside (u # us) (Suc k) \<longleftrightarrow> inside us k"
  by (cases k) (auto simp: inside_def)

lemma inside_drop: "0 < n \<Longrightarrow> inside (drop k doc) n \<longleftrightarrow> inside doc (k + n)"
  by (cases n) (auto simp: inside_def less_diff_conv add.commute)

lemma paired_plain: "\<not> is_surrogate u \<Longrightarrow> paired (u # us) \<longleftrightarrow> paired us"
  by (cases us) auto

lemma clean_cut: "paired doc \<Longrightarrow> \<not> inside doc k \<Longrightarrow> paired (take k doc) \<and> paired (drop k doc)"
proof (induction doc arbitrary: k rule: paired.induct)
  case (2 u)
  then show ?case by (cases k) auto
next
  case (3 u v us)
  show ?case
  proof (cases k)
    case (Suc j)
    show ?thesis
    proof (cases "is_surrogate u")
      case False
      have "\<not> inside (v # us) j"
        using 3(4) Suc inside_Suc [of j u "v # us"] by (cases "j = 0") (auto simp: inside_def)
      with 3 Suc False show ?thesis by (simp add: paired_plain)
    next
      case True
      with 3(3) have pair: "isHighSurrogate u" "isLowSurrogate v" "paired us" by auto
      with 3(4) Suc obtain i where j: "j = Suc i" by (cases j) (auto simp: inside_def)
      have "\<not> inside us i"
        using 3(4) Suc j inside_Suc [of j u "v # us"] inside_Suc [of i v us]
        by (cases "i = 0") (auto simp: inside_def)
      with 3(2) True pair Suc j show ?thesis by simp
    qed
  qed (use 3 in simp)
qed simp

lemma not_inside_after: "inside doc k \<Longrightarrow> \<not> inside doc (Suc k)"
  by (auto simp: inside_def dest: low_not_high)

text \<open>Output that begins at position \<open>k\<close>: all of it is paired, or all but the low half that completes a pair.\<close>

definition completes :: "unit16 list \<Rightarrow> nat \<Rightarrow> unit16 list \<Rightarrow> bool" where
  "completes doc k s \<longleftrightarrow> (if inside doc k then \<exists>s'. s = doc ! k # s' \<and> paired s' else paired s)"

lemma keep_completes:
  assumes doc: "paired doc" and k: "\<not> inside doc k" "k + n \<le> length doc" and s: "completes doc (k + n) s"
  shows "paired (take n (drop k doc) @ s)"
proof -
  from clean_cut [OF doc k(1)] have d: "paired (drop k doc)" by simp
  show ?thesis
  proof (cases "inside doc (k + n)")
    case True
    with s obtain s' where s': "s = doc ! (k + n) # s'" "paired s'" by (auto simp: completes_def)
    from not_inside_after [OF True] have "\<not> inside (drop k doc) (Suc n)" by (simp add: inside_drop)
    then have "paired (take (Suc n) (drop k doc))" using clean_cut [OF d] by blast
    moreover have "take (Suc n) (drop k doc) = take n (drop k doc) @ [doc ! (k + n)]"
    proof -
      have "n < length (drop k doc)" using True by (auto simp: inside_def)
      from take_Suc_conv_app_nth [OF this] show ?thesis using k(2) by simp
    qed
    ultimately show ?thesis using s' paired_append by fastforce
  next
    case False
    have "\<not> inside (drop k doc) n" using False inside_drop [of n k doc] by (cases "n = 0") (auto simp: inside_def)
    then show ?thesis using clean_cut [OF d] False s by (simp add: completes_def paired_append)
  qed
qed

lemma run_completes:
  assumes "paired doc"
  shows "text_ok doc es k \<Longrightarrow> k + base es = length doc \<Longrightarrow> proper es \<Longrightarrow> (\<forall>t. Add t \<in> set es \<longrightarrow> paired t) \<Longrightarrow>
    completes doc k (run (\<lambda>t. t) es (drop k doc))"
proof (induction es arbitrary: k)
  case Nil
  then show ?case by (simp add: completes_def inside_def)
next
  case (Cons e es)
  show ?case
  proof (cases e)
    case (Keep n)
    let ?s = "run (\<lambda>t. t) es (drop (k + n) doc)"
    have s: "completes doc (k + n) ?s" using Cons Keep by simp
    show ?thesis
    proof (cases "inside doc k")
      case True
      obtain m where n: "n = Suc m" using Cons.prems(3) Keep by (cases n) auto
      have "drop k doc = doc ! k # drop (Suc k) doc" using True by (simp add: inside_def Cons_nth_drop_Suc)
      then have "run (\<lambda>t. t) (e # es) (drop k doc) = doc ! k # (take m (drop (Suc k) doc) @ ?s)"
        using Keep n by (simp add: add.commute)
      moreover have "paired (take m (drop (Suc k) doc) @ ?s)"
        using True s n Keep Cons.prems(2) by (intro keep_completes assms not_inside_after) simp_all
      ultimately show ?thesis using True by (simp add: completes_def)
    next
      case False
      with keep_completes [OF assms False _ s] Keep Cons.prems(2) show ?thesis
        by (simp add: completes_def add.commute)
    qed
  next
    case (Add t)
    with Cons show ?thesis by (auto simp: completes_def paired_append)
  next
    case (Drop n)
    with Cons.prems Cons.IH [of "k + n"] show ?thesis by (simp add: completes_def add.commute)
  qed
qed

lemma run_units: "u \<in> set (run (\<lambda>t. t) es d) \<Longrightarrow> u \<in> set d \<or> (\<exists>t. Add t \<in> set es \<and> u \<in> set t)"
proof (induction es arbitrary: d)
  case (Cons e es)
  then show ?case by (cases e) (auto dest: in_set_takeD in_set_dropD)
qed simp

lemma text_ok_no_cr: "text_ok doc es k \<Longrightarrow> Add t \<in> set es \<Longrightarrow> carriage_return \<notin> set t"
  by (induction doc es k rule: text_ok.induct) auto

lemma emit_paired:
  assumes "\<forall>c \<in> set (comps p). paired (ins_of c)" and "\<And>t. e = Add t \<Longrightarrow> paired t"
  shows "\<forall>c \<in> set (comps (emit p e)). paired (ins_of c)"
  using assms
  by (cases e; cases "comps p" rule: rev_cases)
    (auto simp: Retain_def Delete_def Insert_def Let_def paired_append dest: in_set_butlastD intro!: paired_append last_in_set)

lemma build_paired:
  "\<forall>c \<in> set (comps p). paired (ins_of c) \<Longrightarrow> (\<And>t. Add t \<in> set es \<Longrightarrow> paired t) \<Longrightarrow>
     \<forall>c \<in> set (comps (build p es)). paired (ins_of c)"
proof (induction es arbitrary: p)
  case (Cons e es)
  then show ?case using emit_paired [of p e] by simp
qed simp

lemma edits_paired:
  "\<forall>c \<in> set (comps p). paired (ins_of c) \<Longrightarrow> Add t \<in> set (edits p) \<Longrightarrow> paired t"
  by (auto simp: edits_def edit_of_def split: if_splits)

text \<open>One pass that replaces every style of line end.\<close>

fun newlines :: "rune list \<Rightarrow> rune list" where
  "newlines [] = []"
| "newlines [r] = [if r = 13 then 10 else r]"
| "newlines (r # s # rs) =
     (if r = 13 \<and> s = 10 then 10 # newlines rs else (if r = 13 then 10 else r) # newlines (s # rs))"

lemma newlines_replace: "replace_cr (replace_crlf t) = newlines t"
  by (induction t rule: newlines.induct) (auto simp: replace_cr_def)

lemma newlines_id: "13 \<notin> set t \<Longrightarrow> newlines t = t"
  by (induction t rule: newlines.induct) auto

lemma newlines_no_cr: "13 \<notin> set (newlines t)"
  by (induction t rule: newlines.induct) auto

subsection \<open>Properties\<close>

text \<open>
  an operation in normal form whose inserts hold whole characters and whose size is within the
  limits comes back unchanged when it is written as JSON and read again.
\<close>

theorem wire_roundtrip:
  assumes "sendable p"
  shows "UnmarshalJSON (MarshalJSON p) = Inr p"
proof -
  from assms have p: "op_wf p" "normal (comps p)" "length (comps p) \<le> maxOpComponents"
    "\<forall>c \<in> set (comps p). comp_wf c \<and> \<bar>n_of c\<bar> \<le> maxComponentLength \<and> paired (ins_of c)"
    by (auto simp: sendable_def op_wf_def list_all_iff)
  have "UnmarshalJSON (MarshalJSON p) = Inr (build NewOp (edits p))"
    using p(3) unmarshal_loop_marshal [OF p(4)] by (simp add: UnmarshalJSON_def MarshalJSON_def edits_def)
  with build_edits [OF p(1,2)] show ?thesis by simp
qed

theorem wire_roundtrip_witness:
  "UnmarshalJSON (MarshalJSON (Delete (Insert (Retain NewOp 5) [97, 98]) 2)) =
     Inr (Delete (Insert (Retain NewOp 5) [97, 98]) 2)"
proof (rule wire_roundtrip)
  show "sendable (Delete (Insert (Retain NewOp 5) [97, 98]) 2)"
    by (simp add: sendable_def op_wf_def edits_def edit_of_def comp_wf_def comp_kind_defs NewOp_def
        Retain_def Insert_def Delete_def Let_def may_follow_def maxOpComponents_def maxComponentLength_def
        is_surrogate_def)
qed

text \<open>
  whatever JSON arrives, an operation that decodes is well-formed and in normal form, its inserts hold
  whole characters, and the document length it expects is at most \<open>maxOpComponents\<close> times
  \<open>maxComponentLength\<close>, far from the end of a 64-bit integer.
\<close>

theorem decoded_operation:
  assumes "UnmarshalJSON j = Inr p"
  shows "op_wf p \<and> normal (comps p) \<and> (\<forall>c \<in> set (comps p). paired (ins_of c)) \<and>
    baseLen p \<le> int maxOpComponents * maxComponentLength \<and> baseLen p < 2 ^ 63"
proof -
  from UnmarshalJSON_built [OF assms] obtain es where es: "p = build NewOp es" "length es \<le> maxOpComponents"
    "\<And>t. Add t \<in> set es \<Longrightarrow> paired t"
    "\<And>e. e \<in> set es \<Longrightarrow> \<not> is_Add e \<Longrightarrow> int (step_size e) \<le> maxComponentLength"
    by metis
  have "int (base es) \<le> int (length es) * maxComponentLength"
    using es(4) by (intro base_bound) (auto simp: maxComponentLength_def)
  also have "\<dots> \<le> int maxOpComponents * maxComponentLength"
    using es(2) by (intro mult_right_mono) (auto simp: maxComponentLength_def)
  finally have len: "baseLen p \<le> int maxOpComponents * maxComponentLength" by (simp add: es(1) build_NewOp)
  moreover have "int maxOpComponents * maxComponentLength < 2 ^ 63"
    by (simp add: maxOpComponents_def maxComponentLength_def)
  moreover have "\<forall>c \<in> set (comps p). paired (ins_of c)"
    unfolding es(1) by (rule build_paired [OF _ es(3)]) (simp add: NewOp_def)
  moreover have "op_wf p" "normal (comps p)"
    using normal_build [OF op_wf_NewOp(1), of es] build_NewOp(1) by (simp_all add: es(1)) (simp add: NewOp_def)
  ultimately show ?thesis by auto
qed

theorem decoded_operation_witness:
  "normal (comps (Retain (InsertString NewOp [0x1F600]) 3))"
proof -
  have "UnmarshalJSON (JArr [JStr [0x1F600], JNum 3]) = Inr (Retain (InsertString NewOp [0x1F600]) 3)"
    by (simp add: UnmarshalJSON_def unmarshal_int64_def maxOpComponents_def maxComponentLength_def)
  from decoded_operation [OF this] show ?thesis by blast
qed

text \<open>
  an operation from the wire that passes \<open>checkText\<close> leaves a document without broken characters and
  without carriage returns in that state, so sending the new text as JSON loses nothing.
\<close>

theorem checkText_keeps_text:
  assumes "UnmarshalJSON j = Inr p" and "checkText p doc = None" and "Apply p doc = Inr out"
    and "paired doc" and "carriage_return \<notin> set doc"
  shows "paired out \<and> carriage_return \<notin> set out \<and> encodeText (decodeText out) = out"
proof -
  from decoded_operation [OF assms(1)] have p: "op_wf p" "\<forall>c \<in> set (comps p). paired (ins_of c)" by auto
  from assms(3) have out: "out = run (\<lambda>t. t) (edits p) doc" and len: "length doc = base (edits p)"
    using op_wf_lengths [OF p(1)] by (auto simp: Apply_run [OF p(1)] split: if_splits)
  have ok: "text_ok doc (edits p) 0" using assms(2) checkText_text_ok [OF p(1)] by simp
  have "completes doc 0 (run (\<lambda>t. t) (edits p) (drop 0 doc))"
    using ok len proper_edits [OF p(1)] edits_paired [OF p(2)] by (intro run_completes assms(4)) auto
  then have "paired out" by (simp add: completes_def inside_def out)
  moreover have "carriage_return \<notin> set out"
    using run_units [of carriage_return "edits p" doc] text_ok_no_cr [OF ok] assms(5) by (auto simp: out)
  ultimately show ?thesis by (simp add: encode_decode)
qed

theorem checkText_keeps_text_witness:
  "paired [0xD83D, 0xDE00, 97]"
proof -
  let ?p = "InsertString (Retain NewOp 2) [97]"
  have u: "UnmarshalJSON (JArr [JNum 2, JStr [97]]) = Inr ?p"
    by (simp add: UnmarshalJSON_def unmarshal_int64_def maxOpComponents_def maxComponentLength_def)
  have c: "checkText ?p [0xD83D, 0xDE00] = None"
    by (simp add: checkText_def InsertString_def NewOp_def Retain_def Insert_def Let_def comp_kind_defs
        encode_rune_def insidePair_def carriage_return_def)
  have a: "Apply ?p [0xD83D, 0xDE00] = Inr [0xD83D, 0xDE00, 97]"
    by (simp add: Apply_def InsertString_def NewOp_def Retain_def Insert_def Let_def comp_kind_defs
        encode_rune_def slice_def)
  have d: "paired [0xD83D, 0xDE00]" "carriage_return \<notin> set [0xD83D, 0xDE00]"
    by (simp_all add: is_surrogate_def isHighSurrogate_def isLowSurrogate_def carriage_return_def)
  show ?thesis using checkText_keeps_text [OF u c a d] by blast
qed

text \<open>
  \<open>normalizeNewlines\<close> is the one-pass replacement of every line end, CRLF or CR, by a single LF,
  and leaves no carriage return.
\<close>

theorem normalizeNewlines_spec:
  "normalizeNewlines t = newlines t \<and> 13 \<notin> set (normalizeNewlines t)"
  by (simp add: normalizeNewlines_def newlines_replace newlines_id newlines_no_cr)

end
