(* ===== verification/DocState.thy ===== *)
theory DocState
  imports Positions Wire
begin

text \<open>
  \<^verbatim>\<open>internal/collab/state.go\<close>: a document as rebuilt from its log. \<open>apply_record\<close> folds one record
  into the state, live and during \<open>replay\<close>; \<open>catchUp\<close> carries an operation made at an older
  revision across everything committed since; \<open>mapRangeFrom\<close> does the same for a range. The
  invariant \<open>doc_inv\<close> says what every reachable state satisfies.
\<close>

subsection \<open>Data\<close>

record author =
  a_id :: str
  a_name :: str
  a_kind :: str
  a_model :: str

text \<open>Suggestion statuses. The log is JSON, so a status is one of the five or any other string.\<close>

datatype status = StatusPending | StatusStale | StatusAccepted | StatusRejected | StatusDismissed
  | OtherStatus str

datatype placement = PlaceReplace | PlaceAfter | OtherPlacement str

record suggestion =
  s_id :: str
  s_agent :: author
  s_invokedBy :: author
  s_instruction :: str
  s_command :: bool
  s_baseRev :: int
  s_rev :: int
  s_start :: int
  s_end :: int
  s_placement :: placement
  s_original :: str
  s_body :: str
  s_note :: str
  s_status :: status
  s_attempts :: int
  s_createdAt :: time
  s_resolvedBy :: "author option"
  s_resolvedAt :: "time option"

datatype rec_kind = RecMeta | RecOp | RecSuggest | RecResolve | RecOther str

text \<open>
  One line of the log. The parameter is the operation: \<open>op\<close> in memory, \<open>json\<close> in a payload.
\<close>

record 'o log_record =
  r_kind :: rec_kind
  r_time :: time
  r_title :: str
  r_rev :: int
  r_op :: "'o option"
  r_author :: "author option"
  r_client :: str
  r_opID :: str
  r_accepts :: str
  r_by :: "author option"
  r_suggestion :: "suggestion option"
  r_suggestionID :: str
  r_action :: status

record committed =
  c_op :: op
  c_author :: nat
  c_client :: str
  c_id :: str

text \<open>\<open>client + "\x00" + id\<close>\<close>

definition opKey :: "str \<Rightarrow> str \<Rightarrow> str" where
  "opKey client id' = client @ [0] @ id'"

record doc_state =
  d_id :: str
  d_title :: str
  d_createdAt :: time
  d_updatedAt :: time
  d_text :: "unit16 list"
  d_attr :: "32 word list"
  d_authors :: "author list"
  d_lookup :: "author \<rightharpoonup> nat"
  d_rev :: int
  d_history :: "committed list"
  d_opIDs :: "str \<rightharpoonup> int"
  d_suggestions :: "str \<rightharpoonup> suggestion"
  d_order :: "str list"

text \<open>Errors of the file; \<open>DocPanic\<close> is a run-time panic (index out of range, nil pointer).\<close>

datatype doc_error =
    ErrNoSuggestion | ErrDuplicateSuggestion | ErrAnchor | ErrUnknownSuggestion | ErrUnknownAction
  | ErrUnknownKind | ErrIncomplete | ErrRevision | ErrAcceptsUnknown | ErrOp ot_error
  | ErrRevRange | ErrBaseLengthAt | ErrTooStale | ErrRange | ErrRecord nat | DocPanic

definition newDocState :: "str \<Rightarrow> doc_state" where
  "newDocState id' = \<lparr>d_id = id', d_title = [], d_createdAt = 0, d_updatedAt = 0, d_text = [], d_attr = [],
     d_authors = [], d_lookup = Map.empty, d_rev = 0, d_history = [], d_opIDs = Map.empty,
     d_suggestions = Map.empty, d_order = []\<rparr>"

definition authorIndex :: "doc_state \<Rightarrow> author \<Rightarrow> nat \<times> doc_state" where
  "authorIndex d a =
     (case d_lookup d a of
        Some index \<Rightarrow> (index, d)
      | None \<Rightarrow>
          (length (d_authors d),
           d\<lparr>d_authors := d_authors d @ [a], d_lookup := (d_lookup d)(a \<mapsto> length (d_authors d))\<rparr>))"

subsection \<open>Applying an operation record\<close>

fun applyAttribution_loop ::
    "32 word list \<Rightarrow> comp list \<Rightarrow> 32 word \<Rightarrow> 32 word list \<Rightarrow> int \<Rightarrow> (doc_error, 32 word list) result" where
  "applyAttribution_loop attr [] a out position = Inr out"
| "applyAttribution_loop attr (c # cs) a out position =
     (if isRetain c then
        (case slice attr position (position + n_of c) of
           None \<Rightarrow> Inl DocPanic
         | Some kept \<Rightarrow> applyAttribution_loop attr cs a (out @ kept) (position + n_of c))
      else if isInsert c then
        applyAttribution_loop attr cs a (out @ replicate (length (ins_of c)) a) position
      else applyAttribution_loop attr cs a out (position - n_of c))"

definition applyAttribution :: "32 word list \<Rightarrow> op \<Rightarrow> 32 word \<Rightarrow> (doc_error, 32 word list) result" where
  "applyAttribution attr p a = applyAttribution_loop attr (comps p) a [] 0"

definition is_open :: "suggestion \<Rightarrow> bool" where
  "is_open s \<longleftrightarrow> s_status s = StatusPending \<or> s_status s = StatusStale"

text \<open>The body of the loop that moves the anchors of open suggestions.\<close>

definition moveAnchor ::
    "op \<Rightarrow> (str \<rightharpoonup> suggestion) \<times> str list \<Rightarrow> str \<Rightarrow> (doc_error, (str \<rightharpoonup> suggestion) \<times> str list) result" where
  "moveAnchor p st id' =
     (case st of (sugs, changed) \<Rightarrow>
        (case sugs id' of
           None \<Rightarrow> Inl DocPanic
         | Some s \<Rightarrow>
             if \<not> is_open s then Inr (sugs, changed)
             else (case MapRange p (s_start s) (s_end s) of (start, end_pos, touched) \<Rightarrow>
               let s = s\<lparr>s_start := start, s_end := end_pos\<rparr> in
               if touched \<and> s_status s = StatusPending
               then Inr (sugs(id' \<mapsto> s\<lparr>s_status := StatusStale\<rparr>), changed @ [id'])
               else Inr (sugs(id' \<mapsto> s), changed))))"

text \<open>
  Everything after the guards of \<open>applyOp\<close>. A pointer to a suggestion is its id here: the returned
  list names the suggestions whose status changed.
\<close>

definition commitOp :: "doc_state \<Rightarrow> op log_record \<Rightarrow> op \<Rightarrow> author \<Rightarrow> suggestion option \<Rightarrow> unit16 list \<Rightarrow>
    (doc_error, doc_state \<times> str list) result" where
  "commitOp d r p a accepted t =
     (case authorIndex d a of (index, d) \<Rightarrow>
      rbind (applyAttribution (d_attr d) p (of_nat index)) (\<lambda>attr.
        let d = d\<lparr>d_attr := attr, d_text := t, d_rev := r_rev r, d_updatedAt := r_time r,
                  d_history := d_history d @ [\<lparr>c_op = p, c_author = index, c_client = r_client r, c_id = r_opID r\<rparr>],
                  d_opIDs := (if r_opID r \<noteq> [] then (d_opIDs d)(opKey (r_client r) (r_opID r) \<mapsto> r_rev r)
                              else d_opIDs d)\<rparr>;
            sugs = (case accepted of None \<Rightarrow> d_suggestions d
                    | Some s \<Rightarrow> (d_suggestions d)(r_accepts r \<mapsto>
                        s\<lparr>s_status := StatusAccepted, s_resolvedBy := r_by r, s_resolvedAt := Some (r_time r)\<rparr>));
            changed = (case accepted of None \<Rightarrow> [] | Some s \<Rightarrow> [r_accepts r])
        in rbind (foldr_err (moveAnchor p) (sugs, changed) (d_order d)) (\<lambda>(sugs, changed).
             Inr (d\<lparr>d_suggestions := sugs\<rparr>, changed))))"

definition applyOp :: "doc_state \<Rightarrow> op log_record \<Rightarrow> doc_state \<times> (doc_error, str list) result" where
  "applyOp d r =
     (case (r_op r, r_author r) of
        (Some p, Some a) \<Rightarrow>
          if r_rev r \<noteq> d_rev d + 1 then (d, Inl ErrRevision)
          else if r_accepts r \<noteq> [] \<and> d_suggestions d (r_accepts r) = None then (d, Inl ErrAcceptsUnknown)
          else
            let accepted = (if r_accepts r \<noteq> [] then d_suggestions d (r_accepts r) else None) in
            (case Apply p (d_text d) of
               Inl e \<Rightarrow> (d, Inl (ErrOp e))
             | Inr t \<Rightarrow>
                 (case commitOp d r p a accepted t of
                    Inl e \<Rightarrow> (d, Inl e)
                  | Inr (d', changed) \<Rightarrow> (d', Inr changed)))
      | _ \<Rightarrow> (d, Inl ErrIncomplete))"

subsection \<open>Applying a record\<close>

definition apply_record :: "doc_state \<Rightarrow> op log_record \<Rightarrow> doc_state \<times> (doc_error, str list) result" where
  "apply_record d r =
     (case r_kind r of
        RecMeta \<Rightarrow>
          (d\<lparr>d_createdAt := (if d_createdAt d = 0 then r_time r else d_createdAt d),
             d_title := r_title r, d_updatedAt := r_time r\<rparr>, Inr [])
      | RecOp \<Rightarrow> applyOp d r
      | RecSuggest \<Rightarrow>
          (case r_suggestion r of
             None \<Rightarrow> (d, Inl ErrNoSuggestion)
           | Some s \<Rightarrow>
               if s_id s = [] then (d, Inl ErrNoSuggestion)
               else if d_suggestions d (s_id s) \<noteq> None then (d, Inl ErrDuplicateSuggestion)
               else if s_start s < 0 \<or> s_end s < s_start s \<or> s_end s > int (length (d_text d))
               then (d, Inl ErrAnchor)
               else (d\<lparr>d_suggestions := (d_suggestions d)(s_id s \<mapsto> s), d_order := d_order d @ [s_id s]\<rparr>,
                     Inr [s_id s]))
      | RecResolve \<Rightarrow>
          (case d_suggestions d (r_suggestionID r) of
             None \<Rightarrow> (d, Inl ErrUnknownSuggestion)
           | Some s \<Rightarrow>
               if r_action r = StatusRejected \<or> r_action r = StatusDismissed
               then (d\<lparr>d_suggestions := (d_suggestions d)(r_suggestionID r \<mapsto>
                        s\<lparr>s_status := r_action r, s_resolvedBy := r_by r, s_resolvedAt := Some (r_time r)\<rparr>)\<rparr>,
                     Inr [r_suggestionID r])
               else (d, Inl ErrUnknownAction))
      | RecOther k \<Rightarrow> (d, Inl ErrUnknownKind))"

subsection \<open>Replay\<close>

text \<open>
  A payload is what \<^verbatim>\<open>json.Unmarshal\<close> sees: not the JSON of a record at all, or a record whose
  operation is still JSON and is decoded by the operation's own method; \<open>null\<close> for a pointer leaves
  it nil without calling the method.
\<close>

datatype payload = NotRecord | Payload "json log_record"

definition with_op :: "'o log_record \<Rightarrow> 'p option \<Rightarrow> 'p log_record" where
  "with_op r p = \<lparr>r_kind = r_kind r, r_time = r_time r, r_title = r_title r, r_rev = r_rev r, r_op = p,
     r_author = r_author r, r_client = r_client r, r_opID = r_opID r, r_accepts = r_accepts r, r_by = r_by r,
     r_suggestion = r_suggestion r, r_suggestionID = r_suggestionID r, r_action = r_action r\<rparr>"

definition marshal_record :: "op log_record \<Rightarrow> payload" where
  "marshal_record r = Payload (with_op r (map_option MarshalJSON (r_op r)))"

definition unmarshal_record :: "payload \<Rightarrow> op log_record option" where
  "unmarshal_record w =
     (case w of
        NotRecord \<Rightarrow> None
      | Payload r \<Rightarrow>
          (case r_op r of
             None \<Rightarrow> Some (with_op r None)
           | Some JNull \<Rightarrow> Some (with_op r None)
           | Some j \<Rightarrow> (case UnmarshalJSON j of Inl e \<Rightarrow> None | Inr p \<Rightarrow> Some (with_op r (Some p)))))"

fun replay_loop :: "doc_state \<Rightarrow> nat \<Rightarrow> payload list \<Rightarrow> (doc_error, doc_state) result" where
  "replay_loop state index [] = Inr state"
| "replay_loop state index (w # ws) =
     (case unmarshal_record w of
        None \<Rightarrow> Inl (ErrRecord index)
      | Some r \<Rightarrow>
          (case apply_record state r of
             (state', Inl e) \<Rightarrow> Inl (ErrRecord index)
           | (state', Inr changed) \<Rightarrow> replay_loop state' (index + 1) ws))"

definition replay :: "str \<Rightarrow> payload list \<Rightarrow> (doc_error, doc_state) result" where
  "replay id' payloads = replay_loop (newDocState id') 0 payloads"

subsection \<open>Catching up\<close>

definition lengthAt :: "doc_state \<Rightarrow> int \<Rightarrow> int" where
  "lengthAt d at_rev =
     (if at_rev < d_rev d then baseLen (c_op (d_history d ! nat at_rev)) else int (length (d_text d)))"

definition maxTransformWork :: nat where "maxTransformWork = 5000000"

fun catchUp_loop :: "op \<Rightarrow> nat \<Rightarrow> committed list \<Rightarrow> (doc_error, op) result" where
  "catchUp_loop p work [] = Inr p"
| "catchUp_loop p work (earlier # es) =
     (let work = work + (length (comps p) + length (comps (c_op earlier))) in
      if work > maxTransformWork then Inl ErrTooStale
      else (case Transform p (c_op earlier) of
              Inl e \<Rightarrow> Inl (ErrOp e)
            | Inr (transformed, _) \<Rightarrow> catchUp_loop transformed work es))"

definition catchUp :: "doc_state \<Rightarrow> op \<Rightarrow> int \<Rightarrow> (doc_error, op) result" where
  "catchUp d p baseRev =
     (if baseRev < 0 \<or> baseRev > d_rev d then Inl ErrRevRange
      else if baseLen p \<noteq> lengthAt d baseRev then Inl ErrBaseLengthAt
      else catchUp_loop p 0 (drop (nat baseRev) (d_history d)))"

fun mapRange_loop :: "committed list \<Rightarrow> int \<Rightarrow> int \<Rightarrow> bool \<Rightarrow> int \<times> int \<times> bool" where
  "mapRange_loop [] start end_pos touched = (start, end_pos, touched)"
| "mapRange_loop (later # es) start end_pos touched =
     (case MapRange (c_op later) start end_pos of (start, end_pos, hit) \<Rightarrow>
        mapRange_loop es start end_pos (touched \<or> hit))"

definition mapRangeFrom :: "doc_state \<Rightarrow> int \<Rightarrow> int \<Rightarrow> int \<Rightarrow> (doc_error, int \<times> int \<times> bool) result" where
  "mapRangeFrom d baseRev start end_pos =
     (if baseRev < 0 \<or> baseRev > d_rev d then Inl ErrRevRange
      else if start < 0 \<or> end_pos < start \<or> end_pos > lengthAt d baseRev then Inl ErrRange
      else Inr (mapRange_loop (drop (nat baseRev) (d_history d)) start end_pos False))"

subsection \<open>Views\<close>

record span =
  sp_start :: nat
  sp_length :: nat
  sp_author :: nat

fun spans_loop :: "32 word list \<Rightarrow> nat \<Rightarrow> span list \<Rightarrow> span list" where
  "spans_loop [] index runs = runs"
| "spans_loop (a # as) index runs =
     (if runs \<noteq> [] \<and> sp_author (last runs) = unat a
      then spans_loop as (index + 1) (butlast runs @ [(last runs)\<lparr>sp_length := sp_length (last runs) + 1\<rparr>])
      else spans_loop as (index + 1) (runs @ [\<lparr>sp_start = index, sp_length = 1, sp_author = unat a\<rparr>]))"

definition spans :: "doc_state \<Rightarrow> span list" where
  "spans d = spans_loop (d_attr d) 0 []"

definition openSuggestions :: "doc_state \<Rightarrow> suggestion list" where
  "openSuggestions d = filter is_open (map (\<lambda>id'. the (d_suggestions d id')) (d_order d))"

subsection \<open>The invariant\<close>

definition authors_inv :: "doc_state \<Rightarrow> bool" where
  "authors_inv d \<longleftrightarrow>
     (\<forall>a i. d_lookup d a = Some i \<longleftrightarrow> i < length (d_authors d) \<and> d_authors d ! i = a)"

definition attr_inv :: "doc_state \<Rightarrow> bool" where
  "attr_inv d \<longleftrightarrow> length (d_attr d) = length (d_text d) \<and>
     (\<forall>a \<in> set (d_attr d). \<exists>i < length (d_authors d). a = of_nat i)"

text \<open>The text after a history, from the empty document.\<close>

definition run_history :: "unit16 list \<Rightarrow> committed list \<Rightarrow> (ot_error, unit16 list) result" where
  "run_history t h = foldr_err (\<lambda>t c. Apply (c_op c) t) t h"

definition history_inv :: "doc_state \<Rightarrow> bool" where
  "history_inv d \<longleftrightarrow> d_rev d = int (length (d_history d)) \<and>
     (\<forall>c \<in> set (d_history d). op_wf (c_op c) \<and> c_author c < length (d_authors d)) \<and>
     run_history [] (d_history d) = Inr (d_text d)"

definition ids_inv :: "doc_state \<Rightarrow> bool" where
  "ids_inv d \<longleftrightarrow>
     (\<forall>k n. d_opIDs d k = Some n \<longrightarrow> (\<exists>i < length (d_history d). n = int i + 1 \<and>
        c_id (d_history d ! i) \<noteq> [] \<and> k = opKey (c_client (d_history d ! i)) (c_id (d_history d ! i)))) \<and>
     (\<forall>c \<in> set (d_history d). c_id c \<noteq> [] \<longrightarrow> d_opIDs d (opKey (c_client c) (c_id c)) \<noteq> None)"

definition anchor_ok :: "nat \<Rightarrow> suggestion \<Rightarrow> bool" where
  "anchor_ok len s \<longleftrightarrow> (is_open s \<longrightarrow> 0 \<le> s_start s \<and> s_start s \<le> s_end s \<and> s_end s \<le> int len)"

definition suggestions_inv :: "doc_state \<Rightarrow> bool" where
  "suggestions_inv d \<longleftrightarrow> distinct (d_order d) \<and> set (d_order d) = dom (d_suggestions d) \<and>
     (\<forall>id' s. d_suggestions d id' = Some s \<longrightarrow> s_id s = id' \<and> anchor_ok (length (d_text d)) s)"

definition doc_inv :: "doc_state \<Rightarrow> bool" where
  "doc_inv d \<longleftrightarrow> authors_inv d \<and> attr_inv d \<and> history_inv d \<and> ids_inv d \<and> suggestions_inv d"

text \<open>A record as it comes out of \<open>unmarshal_record\<close>: its operation, if any, is well-formed.\<close>

definition record_ok :: "op log_record \<Rightarrow> bool" where
  "record_ok r \<longleftrightarrow> (\<forall>p. r_op r = Some p \<longrightarrow> op_wf p)"

lemma doc_inv_new: "doc_inv (newDocState id')"
  by (simp add: doc_inv_def newDocState_def authors_inv_def attr_inv_def history_inv_def ids_inv_def
      suggestions_inv_def run_history_def)

lemma run_history_snoc:
  "run_history t (h @ [c]) = rbind (run_history t h) (Apply (c_op c))"
  by (simp add: run_history_def foldr_err_append) (cases "foldr_err (\<lambda>t c. Apply (c_op c) t) t h"; simp add: rbind_def split: sum.split)

lemma run_history_append: "run_history t (h @ h') = rbind (run_history t h) (\<lambda>t. run_history t h')"
  by (simp add: run_history_def foldr_err_append)

subsection \<open>Authors\<close>

lemma authorIndex_inv:
  assumes "authors_inv d" and "authorIndex d a = (i, d')"
  shows "authors_inv d'" "i < length (d_authors d')" "d_authors d' ! i = a"
    "length (d_authors d) \<le> length (d_authors d')"
    "\<exists>as lk. d' = d\<lparr>d_authors := as, d_lookup := lk\<rparr>"
proof -
  show "authors_inv d'"
  proof (cases "d_lookup d a")
    case None
    then have new: "\<And>j. j < length (d_authors d) \<Longrightarrow> d_authors d ! j \<noteq> a"
      using assms(1) by (auto simp: authors_inv_def) (metis option.distinct(1))
    with None assms show ?thesis
      by (auto simp: authors_inv_def authorIndex_def nth_append less_Suc_eq split: if_splits)
  qed (use assms in \<open>auto simp: authors_inv_def authorIndex_def\<close>)
  show "i < length (d_authors d')" "d_authors d' ! i = a" "length (d_authors d) \<le> length (d_authors d')"
    using assms by (auto simp: authors_inv_def authorIndex_def split: option.splits)
  show "\<exists>as lk. d' = d\<lparr>d_authors := as, d_lookup := lk\<rparr>"
    using assms(2) by (cases d) (auto simp: authorIndex_def split: option.splits)
qed

subsection \<open>Attribution\<close>

lemma applyAttribution_loop_run:
  assumes "list_all comp_wf cs" and "pos + base (map edit_of cs) \<le> length attr"
  shows "applyAttribution_loop attr cs a out (int pos) =
    Inr (out @ run (\<lambda>t. replicate (length t) a) (map edit_of cs) (drop pos attr))"
  using assms
proof (induction cs arbitrary: out pos)
  case (Cons c cs)
  consider "isRetain c" | "isInsert c" "\<not> isRetain c" | "isDelete c" "\<not> isRetain c" "\<not> isInsert c"
    by (metis comp_kind_defs linorder_cases)
  then show ?case
  proof cases
    case 1
    define k where "k = nat (n_of c)"
    with 1 have n: "n_of c = int k" by (simp add: isRetain_def)
    have "slice attr (int pos) (int pos + int k) = Some (take k (drop pos attr))"
      using 1 Cons.prems n by (simp add: slice_def edit_of_simps)
    with 1 n Cons.prems Cons.IH [of "pos + k" "out @ take k (drop pos attr)"] show ?thesis
      by (simp add: edit_of_simps add.commute)
  next
    case 2
    with Cons show ?thesis by (simp add: edit_of_simps)
  next
    case 3
    define k where "k = nat (- n_of c)"
    with 3 have n: "int pos - n_of c = int (pos + k)" "nat (- n_of c) = k" by (simp_all add: isDelete_def)
    with 3 Cons.prems Cons.IH [of "pos + k" out] show ?thesis
      by (simp add: edit_of_simps n(1) add.commute [of k] del: of_nat_add)
  qed
qed simp

lemma applyAttribution_run:
  assumes "op_wf p" and "length attr = base (edits p)"
  shows "applyAttribution attr p a = Inr (run (\<lambda>t. replicate (length t) a) (edits p) attr)"
  using assms applyAttribution_loop_run [of "comps p" 0 attr a "[]"]
  by (simp add: applyAttribution_def op_wf_def edits_def)

lemma set_run_replicate: "set (run (\<lambda>t. replicate (length t) a) es d) \<subseteq> insert a (set d)"
proof (induction es arbitrary: d)
  case (Cons e es)
  have "x = a \<or> x \<in> set d" if "x \<in> set (run (\<lambda>t. replicate (length t) a) es (drop n d))" for n x
    using that Cons.IH [of "drop n d"] by (auto dest: in_set_dropD)
  with Cons.IH [of d] show ?case
    by (cases e) (auto dest: in_set_takeD)
qed simp

subsection \<open>Anchors\<close>

definition moved :: "op \<Rightarrow> suggestion \<Rightarrow> suggestion" where
  "moved p s =
     (if is_open s
      then case MapRange p (s_start s) (s_end s) of (start, end_pos, touched) \<Rightarrow>
        s\<lparr>s_start := start, s_end := end_pos, s_status := (if touched then StatusStale else s_status s)\<rparr>
      else s)"

definition becomes_stale :: "op \<Rightarrow> suggestion \<Rightarrow> bool" where
  "becomes_stale p s \<longleftrightarrow> s_status s = StatusPending \<and> snd (snd (MapRange p (s_start s) (s_end s)))"

lemma moveAnchor_eq:
  assumes "sugs id' = Some s"
  shows "moveAnchor p (sugs, changed) id' =
    Inr (sugs(id' \<mapsto> moved p s), if becomes_stale p s then changed @ [id'] else changed)"
  using assms
  by (cases s) (auto simp: moveAnchor_def moved_def becomes_stale_def is_open_def Let_def
      fun_upd_idem split: prod.split)

lemma moveAnchors:
  assumes "distinct ids" and "set ids \<subseteq> dom sugs"
  shows "foldr_err (moveAnchor p) (sugs, changed) ids =
    Inr (\<lambda>id'. if id' \<in> set ids then map_option (moved p) (sugs id') else sugs id',
         changed @ filter (\<lambda>id'. becomes_stale p (the (sugs id'))) ids)"
  using assms
proof (induction ids arbitrary: sugs changed)
  case (Cons i ids)
  then obtain s where s: "sugs i = Some s" by auto
  let ?sugs = "sugs(i \<mapsto> moved p s)"
  have "filter (\<lambda>id'. becomes_stale p (the (?sugs id'))) ids = filter (\<lambda>id'. becomes_stale p (the (sugs id'))) ids"
    using Cons.prems(1) by (intro filter_cong) auto
  moreover have "(\<lambda>id'. if id' \<in> set ids then map_option (moved p) (?sugs id') else ?sugs id') =
      (\<lambda>id'. if id' \<in> set (i # ids) then map_option (moved p) (sugs id') else sugs id')"
    using Cons.prems(1) s by auto
  moreover have "set ids \<subseteq> dom ?sugs" using Cons.prems(2) by auto
  ultimately show ?case
    using Cons.IH [of ?sugs "if becomes_stale p s then changed @ [i] else changed"] Cons.prems s
    by (auto simp: moveAnchor_eq simp del: fun_upd_apply dom_fun_upd)
qed (auto intro!: ext)

lemma anchor_ok_moved:
  assumes "op_wf p" and "anchor_ok (base (edits p)) s"
  shows "anchor_ok (target (edits p)) (moved p s)"
proof (cases "is_open s")
  case True
  with assms(2) have r: "0 \<le> s_start s" "nat (s_start s) \<le> nat (s_end s)" "nat (s_end s) \<le> base (edits p)"
    by (auto simp: anchor_ok_def)
  obtain s' e' t where m: "MapRange p (s_start s) (s_end s) = (s', e', t)" by (cases "MapRange p (s_start s) (s_end s)")
  with r have "MapRange p (int (nat (s_start s))) (int (nat (s_end s))) = (s', e', t)"
    using assms(2) True by (simp add: anchor_ok_def)
  from MapRange_in_target [OF assms(1) r(2,3) this] op_wf_lengths [OF assms(1)] show ?thesis
    by (simp add: anchor_ok_def moved_def True m)
qed (simp add: anchor_ok_def moved_def)

lemma moved_id [simp]: "s_id (moved p s) = s_id s"
  by (simp add: moved_def split: prod.split)

subsection \<open>What a committed operation does to the state\<close>

definition mark_accepted :: "op log_record \<Rightarrow> (str \<rightharpoonup> suggestion) \<Rightarrow> (str \<rightharpoonup> suggestion)" where
  "mark_accepted r sugs =
     (if r_accepts r = [] then sugs
      else sugs(r_accepts r := map_option (\<lambda>s. s\<lparr>s_status := StatusAccepted, s_resolvedBy := r_by r,
                                              s_resolvedAt := Some (r_time r)\<rparr>) (sugs (r_accepts r))))"

definition after_op :: "doc_state \<Rightarrow> op log_record \<Rightarrow> op \<Rightarrow> author \<Rightarrow> doc_state" where
  "after_op d r p a =
     (case authorIndex d a of (i, d) \<Rightarrow>
       d\<lparr>d_text := run (\<lambda>t. t) (edits p) (d_text d),
         d_attr := run (\<lambda>t. replicate (length t) (of_nat i)) (edits p) (d_attr d),
         d_rev := r_rev r, d_updatedAt := r_time r,
         d_history := d_history d @ [\<lparr>c_op = p, c_author = i, c_client = r_client r, c_id = r_opID r\<rparr>],
         d_opIDs := (if r_opID r \<noteq> [] then (d_opIDs d)(opKey (r_client r) (r_opID r) \<mapsto> r_rev r) else d_opIDs d),
         d_suggestions := (\<lambda>id'. map_option (moved p) (mark_accepted r (d_suggestions d) id'))\<rparr>)"

definition changed_by :: "doc_state \<Rightarrow> op log_record \<Rightarrow> op \<Rightarrow> str list" where
  "changed_by d r p = (if r_accepts r = [] then [] else [r_accepts r]) @
     filter (\<lambda>id'. becomes_stale p (the (mark_accepted r (d_suggestions d) id'))) (d_order d)"

lemma doc_inv_dom: "doc_inv d \<Longrightarrow> set (d_order d) = dom (d_suggestions d) \<and> distinct (d_order d)"
  by (simp add: doc_inv_def suggestions_inv_def)

lemma dom_mark_accepted: "dom (mark_accepted r sugs) = dom sugs"
  by (auto simp: mark_accepted_def split: if_splits)

lemma commitOp_after:
  assumes inv: "doc_inv d" and p: "op_wf p" and len: "length (d_text d) = base (edits p)"
    and acc: "r_accepts r = [] \<or> d_suggestions d (r_accepts r) \<noteq> None"
  shows "commitOp d r p a (if r_accepts r \<noteq> [] then d_suggestions d (r_accepts r) else None)
      (run (\<lambda>t. t) (edits p) (d_text d)) = Inr (after_op d r p a, changed_by d r p)"
proof -
  obtain i d1 where ai: "authorIndex d a = (i, d1)" by (cases "authorIndex d a")
  have auth: "authors_inv d" using inv by (simp add: doc_inv_def)
  from authorIndex_inv(5) [OF auth ai] obtain as lk where d1: "d1 = d\<lparr>d_authors := as, d_lookup := lk\<rparr>"
    by blast
  have attr: "applyAttribution (d_attr d) p x = Inr (run (\<lambda>t. replicate (length t) x) (edits p) (d_attr d))" for x
    using applyAttribution_run [OF p] inv len by (simp add: doc_inv_def attr_inv_def)
  have dom: "set (d_order d) = dom (mark_accepted r (d_suggestions d))" "distinct (d_order d)"
    using doc_inv_dom [OF inv] by (auto simp: dom_mark_accepted)
  have all: "(\<lambda>id'. if id' \<in> set (d_order d) then map_option (moved p) (mark_accepted r (d_suggestions d) id')
      else mark_accepted r (d_suggestions d) id') =
      (\<lambda>id'. map_option (moved p) (mark_accepted r (d_suggestions d) id'))"
    by (rule ext) (use dom(1) in \<open>auto simp: domIff\<close>)
  note moves = moveAnchors [OF dom(2), of "mark_accepted r (d_suggestions d)" p
      "if r_accepts r = [] then [] else [r_accepts r]", unfolded all]
  show ?thesis
  proof (cases "r_accepts r = []")
    case True
    then have m: "mark_accepted r (d_suggestions d) = d_suggestions d" by (simp add: mark_accepted_def)
    show ?thesis
      using moves dom(1)
      by (simp add: True m commitOp_def ai d1 attr Let_def after_op_def changed_by_def)
  next
    case False
    with acc obtain s where s: "d_suggestions d (r_accepts r) = Some s" by auto
    then have m: "mark_accepted r (d_suggestions d) = (d_suggestions d)(r_accepts r \<mapsto>
        s\<lparr>s_status := StatusAccepted, s_resolvedBy := r_by r, s_resolvedAt := Some (r_time r)\<rparr>)"
      using False by (simp add: mark_accepted_def)
    show ?thesis
      using moves dom(1) unfolding m
      by (simp add: False s m commitOp_def ai d1 attr Let_def after_op_def changed_by_def)
  qed
qed

lemma applyOp_cases:
  assumes "doc_inv d" and "record_ok r"
  shows "(\<exists>e. applyOp d r = (d, Inl e) \<and> e \<noteq> DocPanic) \<or>
    (\<exists>p a. r_op r = Some p \<and> r_author r = Some a \<and> r_rev r = d_rev d + 1 \<and>
       (r_accepts r = [] \<or> d_suggestions d (r_accepts r) \<noteq> None) \<and>
       length (d_text d) = base (edits p) \<and> op_wf p \<and>
       applyOp d r = (after_op d r p a, Inr (changed_by d r p)))"
proof (cases "\<exists>p a. r_op r = Some p \<and> r_author r = Some a \<and> r_rev r = d_rev d + 1 \<and>
       (r_accepts r = [] \<or> d_suggestions d (r_accepts r) \<noteq> None) \<and> length (d_text d) = base (edits p)")
  case True
  then obtain p a where *: "r_op r = Some p" "r_author r = Some a" "r_rev r = d_rev d + 1"
    "r_accepts r = [] \<or> d_suggestions d (r_accepts r) \<noteq> None" "length (d_text d) = base (edits p)" by blast
  with assms(2) have p: "op_wf p" by (simp add: record_ok_def)
  have "Apply p (d_text d) = Inr (run (\<lambda>t. t) (edits p) (d_text d))"
    using *(5) op_wf_lengths [OF p] by (simp add: Apply_run [OF p])
  with * commitOp_after [OF assms(1) p *(5,4)] p show ?thesis
    by (auto simp: applyOp_def Let_def)
next
  case False
  then show ?thesis
    using assms(2) op_wf_lengths
    by (auto simp: applyOp_def Let_def record_ok_def Apply_run split: option.splits)
qed

lemmas after_op_fields = after_op_def Let_def

lemma mark_accepted_Some:
  assumes "mark_accepted r sugs id' = Some s"
  shows "\<exists>s0. sugs id' = Some s0 \<and> s_id s = s_id s0 \<and> s_start s = s_start s0 \<and> s_end s = s_end s0 \<and>
    s_original s = s_original s0 \<and> (s = s0 \<or> s_status s = StatusAccepted)"
  using assms by (auto simp: mark_accepted_def split: if_splits)

lemma after_op_inv:
  assumes inv: "doc_inv d" and p: "op_wf p" and len: "length (d_text d) = base (edits p)"
    and rev: "r_rev r = d_rev d + 1"
  shows "doc_inv (after_op d r p a)"
proof -
  obtain i d1 where ai: "authorIndex d a = (i, d1)" by (cases "authorIndex d a")
  have parts: "authors_inv d" "attr_inv d" "history_inv d" "ids_inv d" "suggestions_inv d"
    using inv by (auto simp: doc_inv_def)
  note index = authorIndex_inv [OF parts(1) ai]
  from index(5) obtain as lk where d1: "d1 = d\<lparr>d_authors := as, d_lookup := lk\<rparr>" by blast
  have as: "length (d_authors d) \<le> length as" "i < length as" using index(2,4) by (simp_all add: d1)
  let ?d = "after_op d r p a"
  have "authors_inv ?d" using index(1) by (simp add: after_op_def ai d1 authors_inv_def)
  moreover have "attr_inv ?d"
    using parts(2) as len set_run_replicate [of "of_nat i" "edits p" "d_attr d"]
      attribution.length_run [of "d_attr d" "edits p" "of_nat i"] text_units.length_run [of "d_text d" "edits p"]
    by (auto simp: after_op_def ai d1 attr_inv_def) (meson dual_order.strict_trans1 insertE subsetD)
  moreover have "history_inv ?d"
  proof -
    have "Apply p (d_text d) = Inr (run (\<lambda>t. t) (edits p) (d_text d))"
      using len op_wf_lengths [OF p] by (simp add: Apply_run [OF p])
    with parts(3) as p rev show ?thesis
      by (auto simp: after_op_def ai d1 history_inv_def run_history_snoc)
  qed
  moreover have "ids_inv ?d"
  proof -
    have rev': "r_rev r = int (length (d_history d)) + 1" using rev parts(3) by (simp add: history_inv_def)
    from parts(4) show ?thesis
      by (auto simp: after_op_def ai d1 ids_inv_def nth_append rev' intro: less_SucI)
  qed
  moreover have "suggestions_inv ?d"
  proof -
    have each: "s_id s' = id' \<and> anchor_ok (target (edits p)) s'"
      if s': "map_option (moved p) (mark_accepted r (d_suggestions d) id') = Some s'" for id' s'
    proof -
      from s' obtain s where s: "mark_accepted r (d_suggestions d) id' = Some s" "s' = moved p s" by auto
      from mark_accepted_Some [OF s(1)] obtain s0 where s0: "d_suggestions d id' = Some s0" "s_id s = s_id s0"
        "s_start s = s_start s0" "s_end s = s_end s0" "s = s0 \<or> s_status s = StatusAccepted" by blast
      from parts(5) s0(1) have "s_id s0 = id'" "anchor_ok (base (edits p)) s0"
        by (auto simp: suggestions_inv_def len)
      with s0 have "s_id s = id'" "anchor_ok (base (edits p)) s"
        by (auto simp: anchor_ok_def is_open_def)
      with anchor_ok_moved [OF p] show ?thesis by (simp add: s(2))
    qed
    have dom: "dom (\<lambda>id'. map_option (moved p) (mark_accepted r (d_suggestions d) id')) = dom (d_suggestions d)"
      by (simp add: dom_map_option dom_mark_accepted)
    have fields: "d_suggestions ?d = (\<lambda>id'. map_option (moved p) (mark_accepted r (d_suggestions d) id'))"
      "d_order ?d = d_order d" "length (d_text ?d) = target (edits p)"
      using len text_units.length_run [of "d_text d" "edits p"] by (simp_all add: after_op_def ai d1)
    have "distinct (d_order d) \<and> set (d_order d) = dom (d_suggestions d)"
      using parts(5) by (simp add: suggestions_inv_def)
    then show ?thesis unfolding suggestions_inv_def fields dom using each by blast
  qed
  ultimately show ?thesis by (simp add: doc_inv_def)
qed

lemma apply_record_op: "r_kind r = RecOp \<Longrightarrow> apply_record d r = applyOp d r"
  by (simp add: apply_record_def)

lemma doc_inv_suggestions:
  assumes "doc_inv d" and "suggestions_inv (d\<lparr>d_suggestions := m, d_order := xs\<rparr>)"
  shows "doc_inv (d\<lparr>d_suggestions := m, d_order := xs\<rparr>)"
  using assms by (simp add: doc_inv_def authors_inv_def attr_inv_def history_inv_def ids_inv_def)

lemma apply_record_inv:
  assumes inv: "doc_inv d" and r: "record_ok r"
  shows "doc_inv (fst (apply_record d r)) \<and>
    (case snd (apply_record d r) of Inl e \<Rightarrow> fst (apply_record d r) = d \<and> e \<noteq> DocPanic | Inr changed \<Rightarrow> True)"
proof (cases "r_kind r")
  case RecMeta
  with inv show ?thesis
    by (simp add: apply_record_def doc_inv_def authors_inv_def attr_inv_def history_inv_def ids_inv_def
        suggestions_inv_def)
next
  case RecOp
  then show ?thesis
    using applyOp_cases [OF inv r] after_op_inv [OF inv] inv by (auto simp: apply_record_op)
next
  case RecSuggest
  have "suggestions_inv (d\<lparr>d_suggestions := (d_suggestions d)(s_id s \<mapsto> s), d_order := d_order d @ [s_id s]\<rparr>)"
    if "d_suggestions d (s_id s) = None" "\<not> (s_start s < 0 \<or> s_end s < s_start s \<or> s_end s > int (length (d_text d)))" for s
    using that inv by (auto simp: doc_inv_def suggestions_inv_def anchor_ok_def)
  with RecSuggest inv show ?thesis
    by (auto simp: apply_record_def intro: doc_inv_suggestions split: option.splits)
next
  case RecResolve
  have "suggestions_inv (d\<lparr>d_suggestions := (d_suggestions d)(r_suggestionID r \<mapsto>
      s\<lparr>s_status := r_action r, s_resolvedBy := r_by r, s_resolvedAt := Some (r_time r)\<rparr>), d_order := d_order d\<rparr>)"
    if "d_suggestions d (r_suggestionID r) = Some s" "r_action r = StatusRejected \<or> r_action r = StatusDismissed" for s
    using that inv by (auto simp: doc_inv_def suggestions_inv_def anchor_ok_def is_open_def)
  from doc_inv_suggestions [OF inv this] RecResolve inv show ?thesis
    by (auto simp: apply_record_def split: option.splits)
next
  case (RecOther k)
  with inv show ?thesis by (simp add: apply_record_def)
qed

lemma applyOp_done:
  assumes "doc_inv d" and "op_wf p" and "length (d_text d) = base (edits p)"
    and "r_op r = Some p" and "r_author r = Some a" and "r_rev r = d_rev d + 1"
    and "r_accepts r = [] \<or> d_suggestions d (r_accepts r) \<noteq> None"
  shows "applyOp d r = (after_op d r p a, Inr (changed_by d r p))"
proof -
  have "Apply p (d_text d) = Inr (run (\<lambda>t. t) (edits p) (d_text d))"
    using assms(3) op_wf_lengths [OF assms(2)] by (simp add: Apply_run [OF assms(2)])
  with commitOp_after [OF assms(1-3,7)] assms(4-7) show ?thesis
    by (auto simp: applyOp_def Let_def)
qed

subsection \<open>Text and authorship together\<close>

lemma run_map: "map h (run f es d) = run (\<lambda>t. map h (f t)) es (map h d)"
  by (induction f es d rule: run.induct) (simp_all add: take_map drop_map)

text \<open>A document whose units carry their author.\<close>

definition signed_text :: "doc_state \<Rightarrow> (unit16 \<times> 32 word) list" where
  "signed_text d = zip (d_text d) (d_attr d)"

definition sign :: "32 word \<Rightarrow> unit16 list \<Rightarrow> (unit16 \<times> 32 word) list" where
  "sign a t = map (\<lambda>u. (u, a)) t"

interpretation signed: contribution "sign a"
  by unfold_locales (auto simp: sign_def)

lemma map_sign: "map fst (sign a t) = t" "map snd (sign a t) = replicate (length t) a"
  by (simp_all add: sign_def comp_def map_replicate_const)

lemma run_sign:
  assumes "length d = length b"
  shows "run (sign a) es (zip d b) = zip (run (\<lambda>t. t) es d) (run (\<lambda>t. replicate (length t) a) es b)"
proof -
  have "map fst (run (sign a) es (zip d b)) = run (\<lambda>t. t) es d"
    "map snd (run (sign a) es (zip d b)) = run (\<lambda>t. replicate (length t) a) es b"
    using assms by (simp_all add: run_map map_sign)
  then show ?thesis by (metis zip_map_fst_snd)
qed

subsection \<open>What pending suggestions are anchored to\<close>

text \<open>The range of every pending suggestion holds the text the agent read.\<close>

definition holds_original :: "unit16 list \<Rightarrow> suggestion \<Rightarrow> bool" where
  "holds_original t s \<longleftrightarrow>
     (s_status s = StatusPending \<longrightarrow> sub t (s_start s) (s_end s) = encodeText (s_original s))"

definition anchored :: "doc_state \<Rightarrow> bool" where
  "anchored d \<longleftrightarrow> (\<forall>id' s. d_suggestions d id' = Some s \<longrightarrow> holds_original (d_text d) s)"

lemma moved_holds:
  assumes p: "op_wf p" and len: "length t = base (edits p)" and ok: "anchor_ok (length t) s"
    and h: "holds_original t s"
  shows "holds_original (run (\<lambda>t. t) (edits p) t) (moved p s)"
proof (cases "s_status (moved p s) = StatusPending")
  case True
  obtain s' e' touched where m: "MapRange p (s_start s) (s_end s) = (s', e', touched)"
    by (cases "MapRange p (s_start s) (s_end s)")
  from True have st: "s_status s = StatusPending" "\<not> touched"
    by (auto simp: moved_def m is_open_def split: if_splits)
  then have open': "is_open s" by (simp add: is_open_def)
  with ok have r: "0 \<le> s_start s" "nat (s_start s) \<le> nat (s_end s)" "nat (s_end s) \<le> base (edits p)"
    by (auto simp: anchor_ok_def len)
  have "MapRange p (int (nat (s_start s))) (int (nat (s_end s))) = (s', e', False)"
    using m st(2) r ok open' by (simp add: anchor_ok_def)
  from MapRange_untouched [OF p r(2,3) len this] h st r ok open' m show ?thesis
    by (simp add: holds_original_def moved_def anchor_ok_def)
qed (simp add: holds_original_def)

lemma anchored_after_op:
  assumes inv: "doc_inv d" and p: "op_wf p" and len: "length (d_text d) = base (edits p)" and h: "anchored d"
  shows "anchored (after_op d r p a)"
proof -
  have each: "holds_original (run (\<lambda>t. t) (edits p) (d_text d)) s'"
    if s': "map_option (moved p) (mark_accepted r (d_suggestions d) id') = Some s'" for id' s'
  proof -
    from s' obtain s where s: "mark_accepted r (d_suggestions d) id' = Some s" "s' = moved p s" by auto
    from mark_accepted_Some [OF s(1)] obtain s0 where s0: "d_suggestions d id' = Some s0"
      "s = s0 \<or> s_status s = StatusAccepted" by blast
    show ?thesis
    proof (cases "s_status s = StatusAccepted")
      case True
      then show ?thesis by (simp add: s(2) moved_def is_open_def holds_original_def)
    next
      case False
      with s0 h inv have "holds_original (d_text d) s" "anchor_ok (length (d_text d)) s"
        by (auto simp: anchored_def doc_inv_def suggestions_inv_def)
      with moved_holds [OF p len] show ?thesis by (simp add: s(2))
    qed
  qed
  obtain i d1 where ai: "authorIndex d a = (i, d1)" by (cases "authorIndex d a")
  have "authors_inv d" using inv by (simp add: doc_inv_def)
  from authorIndex_inv(5) [OF this ai] obtain as lk where d1: "d1 = d\<lparr>d_authors := as, d_lookup := lk\<rparr>"
    by blast
  have "d_suggestions (after_op d r p a) = (\<lambda>id'. map_option (moved p) (mark_accepted r (d_suggestions d) id'))"
    "d_text (after_op d r p a) = run (\<lambda>t. t) (edits p) (d_text d)"
    by (simp_all add: after_op_def ai d1)
  then show ?thesis unfolding anchored_def using each by simp
qed

lemma apply_record_anchored:
  assumes "doc_inv d" and "record_ok r" and "anchored d"
    and "\<And>s. r_kind r = RecSuggest \<Longrightarrow> r_suggestion r = Some s \<Longrightarrow> holds_original (d_text d) s"
  shows "anchored (fst (apply_record d r))"
proof (cases "r_kind r")
  case RecOp
  with applyOp_cases [OF assms(1,2)] anchored_after_op [OF assms(1)] assms(3) show ?thesis
    by (auto simp: apply_record_op)
next
  case RecResolve
  have "anchored (d\<lparr>d_suggestions := (d_suggestions d)(r_suggestionID r \<mapsto>
      s\<lparr>s_status := r_action r, s_resolvedBy := r_by r, s_resolvedAt := Some (r_time r)\<rparr>)\<rparr>)"
    if "r_action r = StatusRejected \<or> r_action r = StatusDismissed" for s
    using assms(3) that by (auto simp: anchored_def holds_original_def)
  with RecResolve assms(3) show ?thesis by (auto simp: apply_record_def split: option.splits)
qed (use assms(3,4) in \<open>auto simp: apply_record_def anchored_def split: option.splits\<close>)

subsection \<open>Properties\<close>

text \<open>
  C3: every record keeps the invariant of a document: authorship has the length of the text and
  names known authors, the text is the result of the history, operation ids point at the
  revisions they produced, and the anchors of open suggestions lie in the text. A record that is refused
  leaves the document exactly as it was, and no record causes a run-time panic.
\<close>

theorem apply_keeps_document:
  assumes "doc_inv d" and "record_ok r"
  shows "doc_inv (fst (apply_record d r)) \<and>
    (\<forall>e. snd (apply_record d r) = Inl e \<longrightarrow> fst (apply_record d r) = d \<and> e \<noteq> DocPanic)"
  using apply_record_inv [OF assms] by (auto split: sum.splits)

definition meta_record :: "str \<Rightarrow> op log_record" where
  "meta_record t = \<lparr>r_kind = RecMeta, r_time = 1, r_title = t, r_rev = 0, r_op = None, r_author = None,
     r_client = [], r_opID = [], r_accepts = [], r_by = None, r_suggestion = None, r_suggestionID = [],
     r_action = StatusPending\<rparr>"

definition op_record :: "int \<Rightarrow> op \<Rightarrow> author \<Rightarrow> op log_record" where
  "op_record n p a = (meta_record [])\<lparr>r_kind := RecOp, r_rev := n, r_op := Some p, r_author := Some a\<rparr>"

theorem apply_keeps_document_witness:
  "doc_inv (fst (apply_record (newDocState []) (op_record 1 (Insert NewOp [97]) \<lparr>a_id = [117], a_name = [], a_kind = [], a_model = []\<rparr>)))"
proof -
  have "op_wf (Insert NewOp [97])"
    by (simp add: op_wf_def edits_def edit_of_def comp_wf_def comp_kind_defs NewOp_def Insert_def Let_def)
  then have "record_ok (op_record 1 (Insert NewOp [97]) a)" for a
    by (simp add: record_ok_def op_record_def)
  with apply_keeps_document [OF doc_inv_new] show ?thesis by blast
qed

text \<open>
  an operation that is applied changes text and authorship together: units it keeps keep their author, and
  units it inserts belong to the author of the operation, whose index is the same at every use.
\<close>

theorem operation_signs_its_text:
  assumes "doc_inv d" and "record_ok r" and "r_kind r = RecOp" and "apply_record d r = (d', Inr changed)"
    and "r_op r = Some p" and "r_author r = Some a"
  shows "\<exists>i < length (d_authors d'). d_authors d' ! i = a \<and> d_rev d' = d_rev d + 1 \<and>
    signed_text d' = run (sign (of_nat i)) (edits p) (signed_text d)"
proof -
  from applyOp_cases [OF assms(1,2)] assms(3-6) have d': "d' = after_op d r p a"
    and *: "r_rev r = d_rev d + 1" "op_wf p" "length (d_text d) = base (edits p)"
    by (auto simp: apply_record_op)
  obtain i d1 where ai: "authorIndex d a = (i, d1)" by (cases "authorIndex d a")
  have auth: "authors_inv d" "length (d_attr d) = length (d_text d)"
    using assms(1) by (auto simp: doc_inv_def attr_inv_def)
  note index = authorIndex_inv [OF auth(1) ai]
  from index(5) obtain as lk where d1: "d1 = d\<lparr>d_authors := as, d_lookup := lk\<rparr>" by blast
  show ?thesis
    using index(2,3) *(1) auth(2) run_sign [of "d_text d" "d_attr d" "of_nat i" "edits p"]
    by (intro exI [of _ i]) (simp add: d' after_op_def ai d1 signed_text_def)
qed

theorem operation_signs_its_text_witness:
  "\<exists>i. signed_text (fst (apply_record (newDocState []) (op_record 1 (Insert NewOp [97, 98])
     \<lparr>a_id = [117], a_name = [], a_kind = [], a_model = []\<rparr>))) = [(97, of_nat i), (98, of_nat i)]"
proof -
  let ?p = "Insert NewOp [97, 98]" and ?a = "\<lparr>a_id = [117], a_name = [], a_kind = [], a_model = []\<rparr>"
  let ?r = "op_record 1 ?p ?a"
  have "op_wf ?p"
    by (simp add: op_wf_def edits_def edit_of_def comp_wf_def comp_kind_defs NewOp_def Insert_def Let_def)
  then have ok: "record_ok ?r" by (simp add: record_ok_def op_record_def)
  have "\<exists>d' c. apply_record (newDocState []) ?r = (d', Inr c)"
    by (simp add: op_record_def meta_record_def apply_record_def applyOp_def newDocState_def commitOp_def
        authorIndex_def Apply_def applyAttribution_def NewOp_def Insert_def Let_def comp_kind_defs)
  then obtain d' c where d': "apply_record (newDocState []) ?r = (d', Inr c)" by blast
  have "edits ?p = [Add [97, 98]]" by (simp add: edits_def edit_of_def comp_kind_defs NewOp_def Insert_def Let_def)
  with operation_signs_its_text [OF doc_inv_new ok _ d', of ?p ?a] d' show ?thesis
    by (auto simp: op_record_def meta_record_def sign_def)
qed

text \<open>
  C33: as long as a suggestion is pending, the range it is anchored to holds exactly the text the agent read,
  whatever records are applied; once that text is edited the suggestion is no longer pending.
\<close>

theorem pending_suggestions_stay_anchored:
  assumes "doc_inv d" and "record_ok r" and "anchored d"
    and "\<And>s. r_kind r = RecSuggest \<Longrightarrow> r_suggestion r = Some s \<Longrightarrow> holds_original (d_text d) s"
  shows "anchored (fst (apply_record d r))"
  using assms by (rule apply_record_anchored)

theorem pending_suggestions_stay_anchored_witness:
  "anchored (fst (apply_record (newDocState []) (op_record 1 (Insert NewOp [97])
     \<lparr>a_id = [117], a_name = [], a_kind = [], a_model = []\<rparr>)))"
proof (rule pending_suggestions_stay_anchored [OF doc_inv_new])
  show "record_ok (op_record 1 (Insert NewOp [97]) \<lparr>a_id = [117], a_name = [], a_kind = [], a_model = []\<rparr>)"
    by (simp add: record_ok_def op_record_def op_wf_def edits_def edit_of_def comp_wf_def comp_kind_defs
        NewOp_def Insert_def Let_def)
  show "anchored (newDocState [])" by (simp add: anchored_def newDocState_def)
qed (simp add: op_record_def)

end
