(* ===== verification/CatchUp.thy ===== *)
theory CatchUp
  imports DocState
begin

text \<open>
  How \<open>catchUp\<close>, \<open>mapRangeFrom\<close>, \<open>replay\<close> and \<open>spans\<close> of \<^verbatim>\<open>internal/collab/state.go\<close> behave on
  every state that satisfies the invariant. The interface \<open>ot_engine\<close> is what the document asks of
  the operational transformation engine; convergence over a whole history is proved from it.
\<close>

subsection \<open>The engine as an interface\<close>

text \<open>
  Carrying one operation over a list of concurrent ones. The second result is what the author's
  own replica does with the list: each operation transformed over the author's.
\<close>

fun carry :: "('o \<Rightarrow> 'o \<Rightarrow> ('e, 'o \<times> 'o) result) \<Rightarrow> 'o \<Rightarrow> 'o list \<Rightarrow> ('e, 'o \<times> 'o list) result" where
  "carry xf a [] = Inr (a, [])"
| "carry xf a (b # bs) = rbind (xf a b) (\<lambda>(a', b'). rbind (carry xf a' bs) (\<lambda>(a'', bs'). Inr (a'', b' # bs')))"

fun run_ops :: "('o \<Rightarrow> 'd \<Rightarrow> ('e, 'd) result) \<Rightarrow> 'd \<Rightarrow> 'o list \<Rightarrow> ('e, 'd) result" where
  "run_ops app d [] = Inr d"
| "run_ops app d (b # bs) = rbind (app b d) (\<lambda>d. run_ops app d bs)"

locale ot_engine =
  fixes wf :: "'o \<Rightarrow> bool"
    and bl :: "'o \<Rightarrow> int"
    and tl_of :: "'o \<Rightarrow> int"
    and sz :: "'d \<Rightarrow> int"
    and app :: "'o \<Rightarrow> 'd \<Rightarrow> ('e, 'd) result"
    and xf :: "'o \<Rightarrow> 'o \<Rightarrow> ('e, 'o \<times> 'o) result"
  assumes app_fits: "wf a \<Longrightarrow> sz d = bl a \<Longrightarrow> \<exists>d'. app a d = Inr d' \<and> sz d' = tl_of a"
    and app_needs: "wf a \<Longrightarrow> app a d = Inr d' \<Longrightarrow> sz d = bl a"
    and xf_fits: "wf a \<Longrightarrow> wf b \<Longrightarrow> bl a = bl b \<Longrightarrow>
      \<exists>a' b'. xf a b = Inr (a', b') \<and> wf a' \<and> wf b' \<and> bl a' = tl_of b \<and> bl b' = tl_of a"
    and diamond: "wf a \<Longrightarrow> wf b \<Longrightarrow> bl a = bl b \<Longrightarrow> xf a b = Inr (a', b') \<Longrightarrow> sz d = bl a \<Longrightarrow>
      rbind (app a d) (app b') = rbind (app b d) (app a')"
begin

lemma carry_converges:
  assumes "wf a" and "\<forall>b \<in> set bs. wf b" and "sz d = bl a" and "run_ops app d bs = Inr d'"
  shows "\<exists>a' bs'. carry xf a bs = Inr (a', bs') \<and> wf a' \<and> bl a' = sz d' \<and> length bs' = length bs \<and>
    rbind (app a d) (\<lambda>x. run_ops app x bs') = app a' d'"
  using assms
proof (induction bs arbitrary: a d)
  case Nil
  then show ?case by (cases "app a d") auto
next
  case (Cons b bs)
  from Cons.prems(4) obtain d1 where d1: "app b d = Inr d1" "run_ops app d1 bs = Inr d'"
    by (auto simp: rbind_eq_Inr)
  have len: "bl a = bl b" using app_needs [OF _ d1(1)] Cons.prems(2,3) by simp
  from xf_fits [OF Cons.prems(1) _ len] Cons.prems(2) obtain a' b' where
    x: "xf a b = Inr (a', b')" "wf a'" "wf b'" "bl a' = tl_of b" "bl b' = tl_of a" by auto
  have "sz d1 = tl_of b" using app_fits [of b d] Cons.prems(2,3) len d1(1) by auto
  then have "sz d1 = bl a'" using x(4) by simp
  from Cons.IH [OF x(2) _ this d1(2)] Cons.prems(2) obtain a'' bs' where
    c: "carry xf a' bs = Inr (a'', bs')" "wf a''" "bl a'' = sz d'" "length bs' = length bs"
    "rbind (app a' d1) (\<lambda>x. run_ops app x bs') = app a'' d'" by auto
  have "rbind (app a d) (\<lambda>x. run_ops app x (b' # bs')) = rbind (rbind (app a d) (app b')) (\<lambda>x. run_ops app x bs')"
    by (cases "app a d") auto
  also have "\<dots> = rbind (app a' d1) (\<lambda>x. run_ops app x bs')"
    using diamond [OF Cons.prems(1) _ len x(1) Cons.prems(3)] Cons.prems(2) d1(1) by simp
  finally show ?case using x(1) c by simp
qed

end

interpretation ot: ot_engine op_wf baseLen targetLen "\<lambda>d. int (length d)" Apply Transform
proof (unfold_locales, goal_cases)
  case (1 a d)
  then show ?case by (simp add: Apply_run op_wf_lengths text_units.length_run)
next
  case (2 a d d')
  then show ?case by (simp add: Apply_run split: if_splits)
next
  case (3 a b)
  then show ?case using Transform_diamond [OF 3, where 'a = unit16] by metis
next
  case (4 a b a' b' d)
  obtain a1 b1 where T: "Transform a b = Inr (a1, b1)" "op_wf a1" "op_wf b1"
    "baseLen a1 = targetLen b" "baseLen b1 = targetLen a"
    and dia: "\<And>f g (d :: unit16 list). contribution f \<Longrightarrow> contribution g \<Longrightarrow> length d = base (edits a) \<Longrightarrow>
      run f (edits a1) (run g (edits b) d) = run g (edits b1) (run f (edits a) d)"
    using Transform_diamond [OF 4(1-3), where 'a = unit16] by metis
  with 4 dia [OF text_units.contribution_axioms text_units.contribution_axioms, of d] show ?case
    by (simp add: Apply_run op_wf_lengths text_units.length_run)
qed

subsection \<open>Texts of earlier revisions\<close>

lemma run_history_run_ops: "run_history t h = run_ops Apply t (map c_op h)"
  by (induction h arbitrary: t) (simp_all add: run_history_def)

text \<open>The document as it was at a revision.\<close>

definition text_at :: "doc_state \<Rightarrow> int \<Rightarrow> unit16 list" where
  "text_at d at_rev = (case run_history [] (take (nat at_rev) (d_history d)) of Inl e \<Rightarrow> [] | Inr t \<Rightarrow> t)"

lemma text_at:
  assumes "doc_inv d" and "0 \<le> at_rev" and "at_rev \<le> d_rev d"
  shows "run_history (text_at d at_rev) (drop (nat at_rev) (d_history d)) = Inr (d_text d)"
    and "int (length (text_at d at_rev)) = lengthAt d at_rev"
proof -
  define k where "k = nat at_rev"
  let ?h = "d_history d"
  from assms(1) have h: "d_rev d = int (length ?h)" "\<forall>c \<in> set ?h. op_wf (c_op c)" "run_history [] ?h = Inr (d_text d)"
    by (auto simp: doc_inv_def history_inv_def)
  have "rbind (run_history [] (take k ?h)) (\<lambda>t. run_history t (drop k ?h)) = Inr (d_text d)"
    using h(3) by (metis append_take_drop_id run_history_append)
  then obtain t where t: "run_history [] (take k ?h) = Inr t" "run_history t (drop k ?h) = Inr (d_text d)"
    by (auto simp: rbind_eq_Inr)
  then have at: "text_at d at_rev = t" by (simp add: text_at_def k_def)
  with t(2) show "run_history (text_at d at_rev) (drop (nat at_rev) ?h) = Inr (d_text d)" by (simp add: k_def)
  show "int (length (text_at d at_rev)) = lengthAt d at_rev"
  proof (cases "at_rev < d_rev d")
    case True
    with h(1) assms(2) have k: "k < length ?h" by (simp add: k_def)
    then have "drop k ?h = ?h ! k # drop (Suc k) ?h" by (simp add: Cons_nth_drop_Suc)
    with t(2) obtain t' where "Apply (c_op (?h ! k)) t = Inr t'"
      by (auto simp: run_history_run_ops rbind_eq_Inr)
    then have "int (length t) = baseLen (c_op (?h ! k))" using h(2) k by (intro ot.app_needs) auto
    with True show ?thesis by (simp add: at lengthAt_def k_def)
  next
    case False
    then have "drop k ?h = []" using h(1) assms(2) by (simp add: k_def)
    with t(2) False show ?thesis by (simp add: at lengthAt_def run_history_def)
  qed
qed

lemma history_wf: "doc_inv d \<Longrightarrow> \<forall>p \<in> set (map c_op (drop k (d_history d))). op_wf p"
  by (auto simp: doc_inv_def history_inv_def dest: in_set_dropD)

subsection \<open>Catching up\<close>

text \<open>The work bound aside, the loop carries the operation over the history.\<close>

lemma catchUp_loop_carry:
  assumes "carry Transform p (map c_op h) = Inr (p', bs)"
  shows "catchUp_loop p work h = Inl ErrTooStale \<or> catchUp_loop p work h = Inr p'"
  using assms
proof (induction h arbitrary: p work bs)
  case (Cons c h)
  then obtain q b' bs' where q: "Transform p (c_op c) = Inr (q, b')" "carry Transform q (map c_op h) = Inr (p', bs')"
    by (auto simp: rbind_eq_Inr)
  from Cons.IH [OF q(2)] q(1) show ?case by (auto simp: Let_def)
qed simp

text \<open>Transformation adds at most the components of the other operation, and inserts the same text.\<close>

lemma length_meet_left: "length (meet_left n a b) \<le> 1"
  by (cases a; cases b) auto

lemma xform_length: "xform as bs = Some (as', bs') \<Longrightarrow> length as' \<le> length as + length bs"
proof (induction as bs arbitrary: as' bs' rule: xform_induct)
  case (meet n a as b bs)
  from meet.prems(1) obtain as'' bs'' where
    res: "as' = meet_left n a b @ as''" "bs' = meet_left n b a @ bs''"
    and x: "xform (consume n (a # as)) (consume n (b # bs)) = Some (as'', bs'')"
    unfolding xform_eqs(4) [OF meet.hyps(1-3)] by auto
  have "length (consume n (a # as)) + length (consume n (b # bs)) < Suc (Suc (length as + length bs))"
    by (rule consume_meet_less [OF meet.hyps(3)])
  with meet.IH [OF x] length_meet_left [of n a b] show ?case by (simp add: res(1))
qed (auto simp: xform_eqs)

lemma length_emit: "length (comps (emit p e)) \<le> Suc (length (comps p))"
  by (cases e; cases "comps p" rule: rev_cases) (auto simp: Retain_def Delete_def Insert_def Let_def)

lemma length_build: "length (comps (build p es)) \<le> length (comps p) + length es"
proof (induction es arbitrary: p)
  case (Cons e es)
  from Cons.IH [of "emit p e"] length_emit [of p e] show ?case by simp
qed simp

lemma Transform_length:
  assumes "op_wf a" and "op_wf b" and "Transform a b = Inr (a', b')"
  shows "length (comps a') \<le> length (comps a) + length (comps b)"
proof -
  obtain as bs where x: "xform (edits a) (edits b) = Some (as, bs)" and a': "a' = build NewOp as"
    using assms(3) by (auto simp: Transform_refines [OF assms(1,2)] split: if_splits option.splits)
  have "length (comps a') \<le> length as" using length_build [of NewOp as] by (simp add: a' NewOp_def)
  with xform_length [OF x] show ?thesis by (simp add: edits_def)
qed

definition history_size :: "committed list \<Rightarrow> nat" where
  "history_size h = (\<Sum>c\<leftarrow>h. length (comps (c_op c)))"

lemma catchUp_loop_fits:
  assumes "carry Transform p (map c_op h) = Inr (p', bs)" and "op_wf p" and "\<forall>c \<in> set h. op_wf (c_op c)"
    and "work + length h * (length (comps p) + history_size h) \<le> maxTransformWork"
  shows "catchUp_loop p work h = Inr p'"
  using assms
proof (induction h arbitrary: p work bs)
  case (Cons c h)
  then obtain q b' bs' where q: "Transform p (c_op c) = Inr (q, b')" "carry Transform q (map c_op h) = Inr (p', bs')"
    by (auto simp: rbind_eq_Inr)
  let ?w = "length (comps p) + length (comps (c_op c))"
  have wf: "op_wf q"
    using q(1) Cons.prems(2,3) by (auto simp: Transform_refines build_NewOp split: if_splits option.splits)
  have "length (comps q) \<le> ?w" using Transform_length [OF _ _ q(1)] Cons.prems(2,3) by simp
  then have "length h * (length (comps q) + history_size h) \<le> length h * (?w + history_size h)"
    by (intro mult_le_mono2) simp
  moreover have "work + (?w + history_size h) + length h * (?w + history_size h) \<le> maxTransformWork"
    using Cons.prems(4) by (simp add: history_size_def algebra_simps)
  ultimately have le: "work + ?w + length h * (length (comps q) + history_size h) \<le> maxTransformWork" by linarith
  from Cons.IH [OF q(2) wf _ le] Cons.prems(3) q(1) le show ?case by (simp add: Let_def)
qed simp

lemma catchUp_carry:
  assumes "doc_inv d" and "op_wf p" and "0 \<le> at_rev" and "at_rev \<le> d_rev d" and "baseLen p = lengthAt d at_rev"
  obtains p' bs where "carry Transform p (map c_op (drop (nat at_rev) (d_history d))) = Inr (p', bs)"
    and "op_wf p'" and "baseLen p' = int (length (d_text d))"
    and "rbind (Apply p (text_at d at_rev)) (\<lambda>t. run_ops Apply t bs) = Apply p' (d_text d)"
    and "length bs = length (d_history d) - nat at_rev"
    and "catchUp d p at_rev = Inl ErrTooStale \<or> catchUp d p at_rev = Inr p'"
proof -
  let ?h = "drop (nat at_rev) (d_history d)"
  note at = text_at [OF assms(1,3,4)]
  from ot.carry_converges [OF assms(2) history_wf [OF assms(1)], of "text_at d at_rev" "nat at_rev" "d_text d"]
    at assms(5) obtain p' bs where
    c: "carry Transform p (map c_op ?h) = Inr (p', bs)" "op_wf p'" "baseLen p' = int (length (d_text d))"
      "length bs = length ?h" "rbind (Apply p (text_at d at_rev)) (\<lambda>t. run_ops Apply t bs) = Apply p' (d_text d)"
    unfolding run_history_run_ops length_map by metis
  with catchUp_loop_carry [OF c(1), of 0] assms(3-5) show ?thesis
    by (intro that [OF c(1-3,5)]) (auto simp: catchUp_def)
qed

subsection \<open>Inserted text survives\<close>

definition inserted :: "op \<Rightarrow> unit16 list" where
  "inserted p = concat (map ins_of (comps p))"

definition added :: "edit list \<Rightarrow> unit16 list" where
  "added es = concat (map (\<lambda>e. case e of Add t \<Rightarrow> t | _ \<Rightarrow> []) es)"

lemma inserted_added: "op_wf p \<Longrightarrow> inserted p = added (edits p)"
proof -
  have "list_all comp_wf cs \<Longrightarrow> concat (map ins_of cs) = added (map edit_of cs)" for cs
    by (induction cs) (auto simp: added_def edit_of_def comp_kind_defs comp_wf_def)
  then show "op_wf p \<Longrightarrow> inserted p = added (edits p)" by (simp add: inserted_def op_wf_def edits_def)
qed

lemma inserted_emit:
  assumes "op_wf p"
  shows "inserted (emit p e) = inserted p @ added [e]"
proof (cases "comps p" rule: rev_cases)
  case Nil
  then show ?thesis
    by (cases e) (auto simp: inserted_def added_def Retain_def Delete_def Insert_def Let_def)
next
  case p: (snoc cs c)
  with assms have c: "comp_wf c" by (simp add: op_wf_def)
  show ?thesis
  proof (cases cs rule: rev_cases)
    case Nil
    with p c show ?thesis
      by (cases e) (auto simp: inserted_def added_def Retain_def Delete_def Insert_def Let_def comp_wf_def comp_kind_defs)
  next
    case (snoc ds b)
    with p c show ?thesis
      by (cases e) (auto simp: inserted_def added_def Retain_def Delete_def Insert_def Let_def comp_wf_def comp_kind_defs butlast_append)
  qed
qed

lemma inserted_build: "op_wf p \<Longrightarrow> inserted (build p es) = inserted p @ added es"
proof (induction es arbitrary: p)
  case (Cons e es)
  with op_wf_emit [OF Cons.prems, of e] inserted_emit [OF Cons.prems, of e] show ?case
    by (simp add: added_def)
qed (simp add: added_def)

lemma xform_added: "xform as bs = Some (as', bs') \<Longrightarrow> added as' = added as"
proof (induction as bs arbitrary: as' bs' rule: xform_induct)
  case (meet n a as b bs)
  from meet.prems(1) obtain as'' bs'' where
    res: "as' = meet_left n a b @ as''" "bs' = meet_left n b a @ bs''"
    and x: "xform (consume n (a # as)) (consume n (b # bs)) = Some (as'', bs'')"
    unfolding xform_eqs(4) [OF meet.hyps(1-3)] by auto
  have "added (meet_left n a b) = []" by (cases a; cases b) (auto simp: added_def)
  moreover have "added (consume n (a # as)) = added (a # as)"
    using meet.hyps(1) by (cases a) (auto simp: added_def consume.simps)
  ultimately show ?case using meet.IH [OF x] by (simp add: res added_def)
qed (auto simp: xform_eqs added_def)

lemma Transform_inserted:
  assumes "op_wf a" and "op_wf b" and "Transform a b = Inr (a', b')"
  shows "inserted a' = inserted a"
proof -
  obtain as bs where x: "xform (edits a) (edits b) = Some (as, bs)" and a': "a' = build NewOp as"
    using assms(3) by (auto simp: Transform_refines [OF assms(1,2)] split: if_splits option.splits)
  show ?thesis
    using xform_added [OF x] inserted_build [OF op_wf_NewOp(1), of as] inserted_added [OF assms(1)]
    by (simp add: a') (simp add: inserted_def NewOp_def)
qed

lemma carry_inserted:
  "carry Transform p bs = Inr (p', bs') \<Longrightarrow> op_wf p \<Longrightarrow> \<forall>b \<in> set bs. op_wf b \<Longrightarrow> inserted p' = inserted p"
proof (induction bs arbitrary: p bs')
  case (Cons b bs)
  then obtain q b' bs'' where q: "Transform p b = Inr (q, b')" "carry Transform q bs = Inr (p', bs'')"
    by (auto simp: rbind_eq_Inr)
  have "op_wf q"
    using q(1) Cons.prems(2,3) by (auto simp: Transform_refines build_NewOp split: if_splits option.splits)
  from Cons.IH [OF q(2) this] Cons.prems(2,3) Transform_inserted [OF _ _ q(1)] show ?case by simp
qed simp

subsection \<open>Ranges across revisions\<close>

lemma mapRange_loop_text:
  assumes "\<forall>c \<in> set h. op_wf (c_op c)" and "run_history t h = Inr t'"
    and "0 \<le> s" and "s \<le> e" and "e \<le> int (length t)" and "mapRange_loop h s e touched = (s', e', touched')"
  shows "0 \<le> s' \<and> s' \<le> e' \<and> e' \<le> int (length t') \<and> (touched \<longrightarrow> touched') \<and>
    (\<not> touched' \<longrightarrow> sub t' s' e' = sub t s e)"
  using assms
proof (induction h arbitrary: t s e touched)
  case (Cons c h)
  from Cons.prems(2) obtain t1 where t1: "Apply (c_op c) t = Inr t1" "run_history t1 h = Inr t'"
    by (auto simp: run_history_run_ops rbind_eq_Inr)
  have wf: "op_wf (c_op c)" and len: "int (length t) = baseLen (c_op c)"
    using Cons.prems(1) ot.app_needs [OF _ t1(1)] by auto
  have t1': "t1 = run (\<lambda>t. t) (edits (c_op c)) t" "length t = base (edits (c_op c))"
    using t1(1) len op_wf_lengths [OF wf] by (auto simp: Apply_run [OF wf])
  obtain s1 e1 hit where m: "MapRange (c_op c) s e = (s1, e1, hit)" by (cases "MapRange (c_op c) s e")
  have r: "nat s \<le> nat e" "nat e \<le> base (edits (c_op c))" "MapRange (c_op c) (int (nat s)) (int (nat e)) = (s1, e1, hit)"
    using Cons.prems(3-5) m t1'(2) by auto
  have in1: "0 \<le> s1" "s1 \<le> e1" "e1 \<le> int (length t1)"
    using MapRange_in_target [OF wf r] t1' op_wf_lengths [OF wf] text_units.length_run [OF t1'(2)] by auto
  have keep: "sub t1 s1 e1 = sub t s e" if "\<not> hit"
    using MapRange_untouched [OF wf r(1,2) t1'(2)] r(3) that Cons.prems(3,4) by (simp add: t1'(1))
  show ?case
    using Cons.IH [OF _ t1(2) in1, of "touched \<or> hit"] Cons.prems(1,6) m keep by auto
qed (simp add: run_history_def)

subsection \<open>Replay\<close>

lemma unmarshal_record_ok: "unmarshal_record w = Some r \<Longrightarrow> record_ok r"
  using decoded_operation
  by (auto simp: unmarshal_record_def record_ok_def with_op_def split: payload.splits option.splits json.splits sum.splits)

lemma replay_loop_inv:
  "replay_loop d i ws = Inr d' \<Longrightarrow> doc_inv d \<Longrightarrow> doc_inv d'"
proof (induction d i ws rule: replay_loop.induct)
  case (2 d i w ws)
  then obtain r d1 changed where r: "unmarshal_record w = Some r" "apply_record d r = (d1, Inr changed)"
    "replay_loop d1 (i + 1) ws = Inr d'"
    by (auto split: option.splits sum.splits prod.splits)
  have "doc_inv d1" using apply_record_inv [OF 2(3) unmarshal_record_ok [OF r(1)]] r(2) by simp
  with 2(1) [OF r(1) r(2) [symmetric] refl r(3)] show ?case by blast
qed simp

text \<open>Records that JSON carries without loss, and the state they lead to.\<close>

definition record_sendable :: "op log_record \<Rightarrow> bool" where
  "record_sendable r \<longleftrightarrow> (\<forall>p. r_op r = Some p \<longrightarrow> sendable p)"

lemma with_op_same [simp]: "with_op (with_op r x) (r_op r) = r" "r_op (with_op r x) = x" "with_op (with_op r x) y = with_op r y"
  by (simp_all add: with_op_def)

lemma with_op_id [simp]: "with_op r (r_op r) = r"
  by (simp add: with_op_def)

lemma unmarshal_marshal:
  assumes "record_sendable r"
  shows "unmarshal_record (marshal_record r) = Some r"
proof (cases "r_op r")
  case None
  then have "with_op r None = r" by (metis with_op_id)
  with None show ?thesis by (simp add: unmarshal_record_def marshal_record_def)
next
  case (Some p)
  with assms have "UnmarshalJSON (MarshalJSON p) = Inr p" by (simp add: record_sendable_def wire_roundtrip)
  moreover have "with_op r (Some p) = r" using Some by (metis with_op_id)
  ultimately show ?thesis
    using Some by (simp add: unmarshal_record_def marshal_record_def) (simp add: MarshalJSON_def)
qed

text \<open>Applying records one after the other, as the live server does.\<close>

fun apply_all :: "doc_state \<Rightarrow> op log_record list \<Rightarrow> (doc_error, doc_state) result" where
  "apply_all d [] = Inr d"
| "apply_all d (r # rs) =
     (case apply_record d r of (d', Inl e) \<Rightarrow> Inl e | (d', Inr changed) \<Rightarrow> apply_all d' rs)"

lemma replay_loop_apply_all:
  "\<forall>r \<in> set rs. record_sendable r \<Longrightarrow>
     replay_loop d i (map marshal_record rs) = Inr d' \<longleftrightarrow> apply_all d rs = Inr d'"
proof (induction rs arbitrary: d i)
  case (Cons r rs)
  then show ?case by (auto simp: unmarshal_marshal split: prod.split sum.split)
qed simp

lemma apply_all_snoc:
  "apply_all d (rs @ [r]) =
     (case apply_all d rs of Inl e \<Rightarrow> Inl e
      | Inr d' \<Rightarrow> (case apply_record d' r of (d'', Inl e) \<Rightarrow> Inl e | (d'', Inr changed) \<Rightarrow> Inr d''))"
  by (induction rs arbitrary: d) (auto split: prod.split sum.split)

subsection \<open>Spans\<close>

text \<open>What a list of spans says of each unit, and when it is well-formed from an index on.\<close>

definition expand :: "span list \<Rightarrow> nat list" where
  "expand sps = concat (map (\<lambda>sp. replicate (sp_length sp) (sp_author sp)) sps)"

fun contiguous :: "nat \<Rightarrow> span list \<Rightarrow> bool" where
  "contiguous i [] \<longleftrightarrow> True"
| "contiguous i (sp # sps) \<longleftrightarrow> sp_start sp = i \<and> 0 < sp_length sp \<and>
     (sps \<noteq> [] \<longrightarrow> sp_author (hd sps) \<noteq> sp_author sp) \<and> contiguous (i + sp_length sp) sps"

lemma expand_append: "expand (xs @ ys) = expand xs @ expand ys"
  by (simp add: expand_def)

lemma contiguous_snoc:
  "contiguous i (xs @ [sp]) \<longleftrightarrow> contiguous i xs \<and> sp_start sp = i + length (expand xs) \<and> 0 < sp_length sp \<and>
     (xs \<noteq> [] \<longrightarrow> sp_author (last xs) \<noteq> sp_author sp)"
proof (induction xs arbitrary: i)
  case (Cons x xs)
  have e: "length (expand (x # xs)) = sp_length x + length (expand xs)" by (simp add: expand_def)
  show ?case
    unfolding append_Cons contiguous.simps Cons.IH e by (cases "xs = []") (auto simp: add.assoc)
qed (simp add: expand_def)

lemma spans_loop_expand:
  assumes "contiguous 0 runs" and "index = length (expand runs)"
  shows "contiguous 0 (spans_loop as index runs) \<and> expand (spans_loop as index runs) = expand runs @ map unat as"
  using assms
proof (induction as arbitrary: index runs)
  case (Cons a as)
  show ?case
  proof (cases "runs \<noteq> [] \<and> sp_author (last runs) = unat a")
    case True
    then obtain rs sp where runs: "runs = rs @ [sp]" "sp_author sp = unat a" by (metis append_butlast_last_id)
    let ?runs = "rs @ [sp\<lparr>sp_length := sp_length sp + 1\<rparr>]"
    have "contiguous 0 ?runs" using Cons.prems(1) by (simp add: runs contiguous_snoc)
    moreover have e: "expand ?runs = expand runs @ [unat a]"
      using runs by (simp add: expand_append) (simp add: expand_def replicate_append_same [symmetric])
    ultimately show ?thesis
      using Cons.IH [of ?runs "index + 1"] Cons.prems(2) True runs(1) by simp
  next
    case False
    let ?runs = "runs @ [\<lparr>sp_start = index, sp_length = 1, sp_author = unat a\<rparr>]"
    have "contiguous 0 ?runs" using Cons.prems False by (auto simp: contiguous_snoc)
    moreover have "expand ?runs = expand runs @ [unat a]" by (simp add: expand_append) (simp add: expand_def)
    moreover have "spans_loop (a # as) index runs = spans_loop as (index + 1) ?runs"
      by (simp only: spans_loop.simps False if_False)
    ultimately show ?thesis
      using Cons.IH [of ?runs "index + 1"] Cons.prems(2) by simp
  qed
qed simp

subsection \<open>Properties\<close>

text \<open>
  C2: an operation made at any revision of the document either is refused for one of three stated
  reasons, the revision, the length at that revision, or too much work, or becomes an
  operation for the current text. That operation inserts exactly the text the author inserted, and
  the author's replica, which applies the original and then the missed operations carried over it,
  reaches the same text as the server. Transformation itself never fails.
\<close>

theorem catchUp_converges:
  assumes "doc_inv d" and "op_wf p"
  shows "case catchUp d p at_rev of
      Inl e \<Rightarrow> (e = ErrRevRange \<and> (at_rev < 0 \<or> at_rev > d_rev d)) \<or>
        (e = ErrBaseLengthAt \<and> baseLen p \<noteq> int (length (text_at d at_rev))) \<or>
        (e = ErrTooStale \<and> maxTransformWork <
          (length (d_history d) - nat at_rev) * (length (comps p) + history_size (drop (nat at_rev) (d_history d))))
    | Inr p' \<Rightarrow> op_wf p' \<and> baseLen p' = int (length (d_text d)) \<and> inserted p' = inserted p \<and>
        (\<exists>missed out. carry Transform p (map c_op (drop (nat at_rev) (d_history d))) = Inr (p', missed) \<and>
           Apply p' (d_text d) = Inr out \<and>
           rbind (Apply p (text_at d at_rev)) (\<lambda>t. run_ops Apply t missed) = Inr out)"
proof (cases "0 \<le> at_rev \<and> at_rev \<le> d_rev d \<and> baseLen p = lengthAt d at_rev")
  case True
  then obtain p' bs where c: "carry Transform p (map c_op (drop (nat at_rev) (d_history d))) = Inr (p', bs)"
    "op_wf p'" "baseLen p' = int (length (d_text d))"
    "rbind (Apply p (text_at d at_rev)) (\<lambda>t. run_ops Apply t bs) = Apply p' (d_text d)"
    "catchUp d p at_rev = Inl ErrTooStale \<or> catchUp d p at_rev = Inr p'"
    using catchUp_carry [OF assms, of at_rev] by metis
  have wf: "\<forall>c \<in> set (drop (nat at_rev) (d_history d)). op_wf (c_op c)" using history_wf [OF assms(1)] by simp
  have "inserted p' = inserted p" using carry_inserted [OF c(1) assms(2)] wf by simp
  moreover have "\<exists>out. Apply p' (d_text d) = Inr out" using ot.app_fits [OF c(2), of "d_text d"] c(3) by auto
  moreover have "catchUp d p at_rev = Inr p'"
    if "(length (d_history d) - nat at_rev) * (length (comps p) + history_size (drop (nat at_rev) (d_history d)))
      \<le> maxTransformWork"
    using catchUp_loop_fits [OF c(1) assms(2) wf, of 0] that True by (simp add: catchUp_def)
  ultimately show ?thesis using c by (cases "catchUp d p at_rev") (auto simp: not_le [symmetric])
next
  case False
  then show ?thesis
    using text_at(2) [OF assms(1), of at_rev] by (auto simp: catchUp_def)
qed

text \<open>A document with two committed operations, and an operation made against the first revision.\<close>

definition two_ops :: "op log_record list" where
  "two_ops = map (\<lambda>(n, p). \<lparr>r_kind = RecOp, r_time = 1, r_title = [], r_rev = n, r_op = Some p,
     r_author = Some \<lparr>a_id = [117], a_name = [], a_kind = [], a_model = []\<rparr>, r_client = [], r_opID = [],
     r_accepts = [], r_by = None, r_suggestion = None, r_suggestionID = [], r_action = StatusPending\<rparr>)
     [(1, Insert NewOp [97, 98]), (2, Retain (Insert NewOp [99]) 2)]"

definition example_doc :: doc_state where
  "example_doc = fst (apply_record (fst (apply_record (newDocState []) (two_ops ! 0))) (two_ops ! 1))"

lemma example_doc:
  "doc_inv example_doc" "d_rev example_doc = 2" "d_text example_doc = [99, 97, 98]"
  "d_history example_doc = [\<lparr>c_op = Insert NewOp [97, 98], c_author = 0, c_client = [], c_id = []\<rparr>,
     \<lparr>c_op = Retain (Insert NewOp [99]) 2, c_author = 0, c_client = [], c_id = []\<rparr>]"
proof -
  have w: "op_wf (Insert NewOp [97, 98])" "op_wf (Retain (Insert NewOp [99]) 2)"
    by (simp_all add: op_wf_def edits_def edit_of_def comp_wf_def comp_kind_defs NewOp_def Retain_def
        Insert_def Let_def)
  then have "record_ok (two_ops ! 0)" "record_ok (two_ops ! 1)" by (simp_all add: record_ok_def two_ops_def)
  then show "doc_inv example_doc"
    unfolding example_doc_def using apply_record_inv doc_inv_new by blast
  show "d_rev example_doc = 2" "d_text example_doc = [99, 97, 98]"
    "d_history example_doc = [\<lparr>c_op = Insert NewOp [97, 98], c_author = 0, c_client = [], c_id = []\<rparr>,
     \<lparr>c_op = Retain (Insert NewOp [99]) 2, c_author = 0, c_client = [], c_id = []\<rparr>]"
    by (simp_all add: example_doc_def two_ops_def apply_record_def applyOp_def newDocState_def commitOp_def
        authorIndex_def Apply_def applyAttribution_def NewOp_def Retain_def Insert_def Let_def comp_kind_defs
        slice_def)
qed

theorem catchUp_converges_witness:
  "case catchUp example_doc (Insert (Retain NewOp 2) [100]) 1 of Inl e \<Rightarrow> e \<noteq> ErrRevRange
    | Inr p' \<Rightarrow> inserted p' = [100]"
proof -
  have w: "op_wf (Insert (Retain NewOp 2) [100])"
    by (simp add: op_wf_def edits_def edit_of_def comp_wf_def comp_kind_defs NewOp_def Retain_def
        Insert_def Let_def)
  have i: "inserted (Insert (Retain NewOp 2) [100]) = [100]"
    by (simp add: inserted_def NewOp_def Retain_def Insert_def Let_def comp_kind_defs)
  show ?thesis
    using catchUp_converges [OF example_doc(1) w, of 1] by (auto simp: i example_doc(2) split: sum.splits)
qed

text \<open>
  a range read at an older revision maps into the current text; if no operation in between
  touched it, it still holds the text it held at that revision.
\<close>

theorem mapRangeFrom_text:
  assumes "doc_inv d" and "mapRangeFrom d at_rev s e = Inr (s', e', touched)"
  shows "0 \<le> s' \<and> s' \<le> e' \<and> e' \<le> int (length (d_text d)) \<and>
    (\<not> touched \<longrightarrow> sub (d_text d) s' e' = sub (text_at d at_rev) s e)"
proof -
  from assms(2) have r: "0 \<le> at_rev" "at_rev \<le> d_rev d" "0 \<le> s" "s \<le> e" "e \<le> lengthAt d at_rev"
    and m: "mapRange_loop (drop (nat at_rev) (d_history d)) s e False = (s', e', touched)"
    by (auto simp: mapRangeFrom_def split: if_splits)
  note at = text_at [OF assms(1) r(1,2)]
  have "\<forall>c \<in> set (drop (nat at_rev) (d_history d)). op_wf (c_op c)" using history_wf [OF assms(1)] by simp
  from mapRange_loop_text [OF this at(1) r(3,4) _ m] at(2) r(5) show ?thesis by auto
qed

theorem mapRangeFrom_text_witness:
  "sub (d_text example_doc) 2 3 = sub (text_at example_doc 1) 1 2"
proof -
  have "mapRangeFrom example_doc 1 1 2 = Inr (2, 3, False)"
    by (simp add: mapRangeFrom_def example_doc lengthAt_def MapRange_def MapPos_def comp_kind_defs NewOp_def
        Retain_def Insert_def Let_def)
  from mapRangeFrom_text [OF example_doc(1) this] show ?thesis by blast
qed

text \<open>
  C22: replaying a log gives a state that satisfies the invariant, in particular whose text is the
  result of its whole history; and replaying the records that were applied live, in order,
  gives exactly the live state, provided the operation of every record is within the limits its
  decoder sets (which the server does not check: C37 is a committed record beyond them).
\<close>

theorem replay_rebuilds_live_state:
  shows "(\<forall>d. replay id' payloads = Inr d \<longrightarrow> doc_inv d \<and> run_history [] (d_history d) = Inr (d_text d)) \<and>
    (\<forall>rs d. (\<forall>r \<in> set rs. record_sendable r) \<longrightarrow> apply_all (newDocState id') rs = Inr d \<longrightarrow>
       replay id' (map marshal_record rs) = Inr d)"
  using replay_loop_inv [OF _ doc_inv_new] replay_loop_apply_all
  by (auto simp: replay_def doc_inv_def history_inv_def)

theorem replay_rebuilds_live_state_witness:
  "replay [] (map marshal_record two_ops) = Inr example_doc"
proof -
  have "\<forall>r \<in> set two_ops. record_sendable r"
    by (simp add: two_ops_def record_sendable_def sendable_def op_wf_def edits_def edit_of_def comp_wf_def
        comp_kind_defs NewOp_def Retain_def Insert_def Let_def may_follow_def maxOpComponents_def
        maxComponentLength_def is_surrogate_def)
  moreover have "apply_all (newDocState []) two_ops = Inr example_doc"
    by (simp add: example_doc_def two_ops_def apply_record_def applyOp_def newDocState_def commitOp_def
        authorIndex_def Apply_def applyAttribution_def NewOp_def Retain_def Insert_def Let_def comp_kind_defs
        slice_def)
  ultimately show ?thesis using replay_rebuilds_live_state [of "[]" "[]"] by blast
qed

text \<open>
  the spans sent to clients are contiguous, non-empty runs of different authors, and together give each
  unit of the text its author.
\<close>

theorem spans_give_authors:
  "contiguous 0 (spans d) \<and> expand (spans d) = map unat (d_attr d)"
  using spans_loop_expand [of "[]" 0 "d_attr d"] by (simp add: spans_def expand_def)

end
