(* ===== verification/OpLog.thy ===== *)
theory OpLog
  imports Prelude
begin

text \<open>
  The durable log of \<^verbatim>\<open>internal/collab/oplog.go\<close>. A file is a list of bytes; a line is the CRC-32
  of the payload in eight hex digits, a space, the payload and a newline. \<open>readRecords\<close> reads a
  file back and treats a bad last line as torn, \<open>Append\<close> writes a batch. The interface \<open>log_device\<close> is
  what a session relies on; both logs of the file, on disk and in memory, provide it.
\<close>

unbundle bit_operations_syntax

subsection \<open>CRC-32\<close>

text \<open>\<^verbatim>\<open>crc32.ChecksumIEEE\<close>: the reflected polynomial 0xEDB88320, initial value and final XOR all ones.\<close>

definition crc_bit :: "32 word \<Rightarrow> 32 word" where
  "crc_bit c = (if c AND 1 = 1 then drop_bit 1 c XOR 0xEDB88320 else drop_bit 1 c)"

definition crc_byte :: "32 word \<Rightarrow> byte \<Rightarrow> 32 word" where
  "crc_byte c b = (crc_bit ^^ 8) (c XOR ucast b)"

definition ChecksumIEEE :: "byte list \<Rightarrow> 32 word" where
  "ChecksumIEEE bs = NOT (foldl crc_byte (NOT 0) bs)"

subsection \<open>Hexadecimal\<close>

definition hex_digit :: "nat \<Rightarrow> byte" where
  "hex_digit n = (if n < 10 then of_nat (48 + n) else of_nat (87 + n))"

text \<open>\<^verbatim>\<open>fmt.Fprintf("%08x")\<close>\<close>

definition hex8 :: "32 word \<Rightarrow> byte list" where
  "hex8 w = map (\<lambda>i. hex_digit (unat w div 16 ^ (7 - i) mod 16)) [0..<8]"

definition hex_value :: "byte \<Rightarrow> nat option" where
  "hex_value b =
     (let n = unat b in
      if 48 \<le> n \<and> n \<le> 57 then Some (n - 48)
      else if 97 \<le> n \<and> n \<le> 102 then Some (n - 87)
      else if 65 \<le> n \<and> n \<le> 70 then Some (n - 55)
      else None)"

fun parse_hex :: "nat \<Rightarrow> byte list \<Rightarrow> nat option" where
  "parse_hex acc [] = Some acc"
| "parse_hex acc (b # bs) = (case hex_value b of None \<Rightarrow> None | Some d \<Rightarrow> parse_hex (16 * acc + d) bs)"

text \<open>\<^verbatim>\<open>strconv.ParseUint(s, 16, 32)\<close> refuses the empty string, other characters and values over 32 bits.\<close>

definition ParseUint16 :: "byte list \<Rightarrow> 32 word option" where
  "ParseUint16 s =
     (if s = [] then None
      else case parse_hex 0 s of None \<Rightarrow> None | Some n \<Rightarrow> if n < 2 ^ 32 then Some (of_nat n) else None)"

subsection \<open>Lines\<close>

definition crcWidth :: nat where "crcWidth = 8"

definition newline :: byte where "newline = 10"

definition space :: byte where "space = 32"

definition checkLine :: "byte list \<Rightarrow> byte list option" where
  "checkLine line =
     (if length line < crcWidth + 2 \<or> line ! crcWidth \<noteq> space then None
      else case ParseUint16 (take crcWidth line) of
        None \<Rightarrow> None
      | Some want \<Rightarrow>
          let payload = drop (crcWidth + 1) line in
          if ChecksumIEEE payload \<noteq> want then None else Some payload)"

text \<open>\<^verbatim>\<open>reader.ReadBytes('\n')\<close>: the bytes up to the newline and the rest, or the end of the file.\<close>

fun ReadBytes :: "byte list \<Rightarrow> (byte list \<times> byte list) option" where
  "ReadBytes [] = None"
| "ReadBytes (b # bs) =
     (if b = newline then Some ([], bs)
      else case ReadBytes bs of None \<Rightarrow> None | Some (line, rest) \<Rightarrow> Some (b # line, rest))"

datatype log_error = ErrCorruptLog nat | ErrNewline | ErrIO

lemma ReadBytes_length: "ReadBytes bs = Some (line, rest) \<Longrightarrow> length bs = length line + 1 + length rest"
  by (induction bs arbitrary: line) (auto split: if_splits option.splits)

function readRecords_loop :: "byte list \<Rightarrow> byte list list \<Rightarrow> nat \<Rightarrow> (log_error, byte list list \<times> nat) result" where
  "readRecords_loop bs records offset =
     (case ReadBytes bs of
        None \<Rightarrow> Inr (records, offset)
      | Some (line, rest) \<Rightarrow>
          (case checkLine line of
             None \<Rightarrow> if rest = [] then Inr (records, offset) else Inl (ErrCorruptLog offset)
           | Some payload \<Rightarrow> readRecords_loop rest (records @ [payload]) (offset + length line + 1)))"
  by pat_completeness auto
termination
  by (relation "measure (\<lambda>(bs, records, offset). length bs)") (auto dest: ReadBytes_length)

declare readRecords_loop.simps [simp del]

text \<open>Without I/O errors, which the model has as the separate outcome \<open>ErrIO\<close> of opening.\<close>

definition readRecords :: "byte list \<Rightarrow> (log_error, byte list list \<times> nat) result" where
  "readRecords bytes = readRecords_loop bytes [] 0"

subsection \<open>The file log\<close>

record file_log =
  fl_file :: "byte list"
  fl_size :: nat

text \<open>
  Opening a log: the torn tail is cut off. The argument says whether the system calls succeed.
\<close>

definition openFileLog :: "bool \<Rightarrow> byte list \<Rightarrow> (log_error, file_log \<times> byte list list) result" where
  "openFileLog io bytes =
     (if \<not> io then Inl ErrIO
      else rbind (readRecords bytes) (\<lambda>(records, validBytes).
        Inr (\<lparr>fl_file = (if length bytes \<noteq> validBytes then take validBytes bytes else bytes),
              fl_size = validBytes\<rparr>, records)))"

definition log_line :: "byte list \<Rightarrow> byte list" where
  "log_line payload = hex8 (ChecksumIEEE payload) @ [space] @ payload @ [newline]"

fun append_buffer :: "byte list list \<Rightarrow> (log_error, byte list) result" where
  "append_buffer [] = Inr []"
| "append_buffer (payload # ps) =
     (if newline \<in> set payload then Inl ErrNewline
      else rbind (append_buffer ps) (\<lambda>buffer. Inr (log_line payload @ buffer)))"

text \<open>
  What the disk does during an append: everything written and synced, or a failure after which
  the first \<open>n\<close> bytes of the buffer are in the file and truncating them again succeeds or not.
\<close>

datatype disk = DiskOk | DiskFail nat bool

definition Append :: "disk \<Rightarrow> file_log \<Rightarrow> byte list list \<Rightarrow> file_log \<times> (log_error, unit) result" where
  "Append disk l records =
     (if records = [] then (l, Inr ())
      else case append_buffer records of
        Inl e \<Rightarrow> (l, Inl e)
      | Inr buffer \<Rightarrow>
          (case disk of
             DiskOk \<Rightarrow> (l\<lparr>fl_file := fl_file l @ buffer, fl_size := fl_size l + length buffer\<rparr>, Inr ())
           | DiskFail n truncated \<Rightarrow>
               let written = fl_file l @ take n buffer in
               (l\<lparr>fl_file := (if truncated then take (fl_size l) written else written)\<rparr>, Inl ErrIO)))"

subsection \<open>The memory log\<close>

text \<open>It copies whatever it is given, so its model is generic in the payload.\<close>

record 'p memory_log =
  ml_records :: "'p list"
  ml_failing :: bool

definition memory_Append :: "'p memory_log \<Rightarrow> 'p list \<Rightarrow> 'p memory_log \<times> (log_error, unit) result" where
  "memory_Append l records =
     (if ml_failing l then (l, Inl ErrIO) else (l\<lparr>ml_records := ml_records l @ records\<rparr>, Inr ()))"

subsection \<open>Hex digits read back\<close>

lemma hex_value_digit: "n < 16 \<Longrightarrow> hex_value (hex_digit n) = Some n"
proof -
  assume "n < 16"
  then have "unat (hex_digit n) = (if n < 10 then 48 + n else 87 + n)"
    by (simp add: hex_digit_def unat_of_nat del: of_nat_add)
  with \<open>n < 16\<close> show ?thesis by (simp add: hex_value_def Let_def)
qed

lemma hex_digit_not_newline: "n < 16 \<Longrightarrow> hex_digit n \<noteq> newline"
  using hex_value_digit [of n] by (auto simp: newline_def hex_value_def)

lemma parse_hex_digits:
  "parse_hex acc (map (\<lambda>i. hex_digit (n div 16 ^ (k - i) mod 16)) [j..<k + 1]) =
     Some (acc * 16 ^ (k + 1 - j) + n mod 16 ^ (k + 1 - j))" if "j \<le> k + 1"
  using that
proof (induction "k + 1 - j" arbitrary: acc j)
  case 0
  then have "j = k + 1" by simp
  then show ?case by simp
next
  case (Suc m)
  then have j: "j \<le> k" "m = k - j" by auto
  have "[j..<k + 1] = j # [j + 1..<k + 1]" using j by (simp add: upt_conv_Cons)
  moreover have "parse_hex (16 * acc + n div 16 ^ (k - j) mod 16)
      (map (\<lambda>i. hex_digit (n div 16 ^ (k - i) mod 16)) [j + 1..<k + 1]) =
      Some ((16 * acc + n div 16 ^ (k - j) mod 16) * 16 ^ (k - j) + n mod 16 ^ (k - j))"
    using Suc(1) [of "j + 1" "16 * acc + n div 16 ^ (k - j) mod 16"] Suc(2,3) j by simp
  moreover have "n mod 16 ^ (k + 1 - j) = 16 ^ (k - j) * (n div 16 ^ (k - j) mod 16) + n mod 16 ^ (k - j)"
    using j(1) mod_mult2_eq [of n "16 ^ (k - j)" 16] by (simp add: Suc_diff_le mult.commute)
  ultimately show ?case
    using j(1) by (simp add: hex_value_digit Suc_diff_le algebra_simps)
qed

lemma ParseUint16_hex8: "ParseUint16 (hex8 w) = Some w"
proof -
  have lt: "unat w < 2 ^ 32" using unsigned_less [of w, where ?'a = nat] by simp
  have "parse_hex 0 (hex8 w) = Some (unat w mod 16 ^ 8)"
    using parse_hex_digits [of 0 7 0 "unat w"] by (simp add: hex8_def del: upt_Suc)
  also have "unat w mod 16 ^ 8 = unat w" using lt by simp
  finally show ?thesis using lt by (simp add: ParseUint16_def hex8_def)
qed

lemma length_hex8 [simp]: "length (hex8 w) = 8"
  by (simp add: hex8_def)

lemma hex8_no_newline: "newline \<notin> set (hex8 w)"
  by (auto simp: hex8_def hex_digit_not_newline dest!: sym [of newline])

subsection \<open>Reading back what was written\<close>

text \<open>Payloads the log can hold: not empty, and on one line.\<close>

definition payload_ok :: "byte list \<Rightarrow> bool" where
  "payload_ok p \<longleftrightarrow> p \<noteq> [] \<and> newline \<notin> set p"

definition log_file :: "byte list list \<Rightarrow> byte list" where
  "log_file ps = concat (map log_line ps)"

lemma log_file_simps [simp]:
  "log_file [] = []" "log_file (p # ps) = log_line p @ log_file ps" "log_file (ps @ qs) = log_file ps @ log_file qs"
  by (simp_all add: log_file_def)

lemma ReadBytes_line: "newline \<notin> set line \<Longrightarrow> ReadBytes (line @ newline # rest) = Some (line, rest)"
  by (induction line) auto

lemma ReadBytes_none: "ReadBytes bs = None \<longleftrightarrow> newline \<notin> set bs"
  by (induction bs) (auto split: option.split)

lemma checkLine_log_line:
  assumes "payload_ok p"
  shows "checkLine (hex8 (ChecksumIEEE p) @ space # p) = Some p"
  using assms by (cases p) (auto simp: checkLine_def crcWidth_def ParseUint16_hex8 payload_ok_def nth_append)

lemma readRecords_loop_line:
  assumes "payload_ok p"
  shows "readRecords_loop (log_line p @ rest) records offset =
    readRecords_loop rest (records @ [p]) (offset + length (log_line p))"
proof -
  have "newline \<notin> set (hex8 (ChecksumIEEE p) @ space # p)"
    using assms hex8_no_newline by (auto simp: payload_ok_def space_def newline_def)
  from ReadBytes_line [OF this] have "ReadBytes (log_line p @ rest) = Some (hex8 (ChecksumIEEE p) @ space # p, rest)"
    by (simp add: log_line_def)
  then show ?thesis
    by (subst readRecords_loop.simps) (simp add: checkLine_log_line [OF assms] log_line_def add.left_commute add.commute)
qed

lemma readRecords_loop_file:
  "\<forall>p \<in> set ps. payload_ok p \<Longrightarrow>
     readRecords_loop (log_file ps @ rest) records offset =
       readRecords_loop rest (records @ ps) (offset + length (log_file ps))"
  by (induction ps arbitrary: records offset) (auto simp: readRecords_loop_line add.assoc)

text \<open>A torn tail: part of one line.\<close>

lemma readRecords_torn:
  assumes "\<forall>p \<in> set ps. payload_ok p" and "newline \<notin> set torn"
  shows "readRecords (log_file ps @ torn) = Inr (ps, length (log_file ps))"
proof -
  have "ReadBytes torn = None" using assms(2) by (simp add: ReadBytes_none)
  then show ?thesis
    using assms(1) by (simp add: readRecords_def readRecords_loop_file) (subst readRecords_loop.simps, simp)
qed

lemma prefix_of_lines:
  assumes "\<forall>p \<in> set ps. payload_ok p"
  shows "\<exists>k torn. take n (log_file ps) = log_file (take k ps) @ torn \<and> newline \<notin> set torn"
  using assms
proof (induction ps arbitrary: n)
  case (Cons p ps)
  show ?case
  proof (cases "n < length (log_line p)")
    case True
    have "newline \<notin> set (hex8 (ChecksumIEEE p) @ space # p)"
      using Cons.prems hex8_no_newline by (auto simp: payload_ok_def space_def newline_def)
    moreover have "log_file (p # ps) = (hex8 (ChecksumIEEE p) @ space # p) @ newline # log_file ps"
      "n \<le> length (hex8 (ChecksumIEEE p) @ space # p)"
      using True by (simp_all add: log_line_def)
    then have "take n (log_file (p # ps)) = take n (hex8 (ChecksumIEEE p) @ space # p)"
      by (simp only: take_append diff_is_0_eq [THEN iffD2] take_0 append_Nil2)
    ultimately have "newline \<notin> set (take n (log_file (p # ps)))" by (metis in_set_takeD)
    then show ?thesis by (intro exI [of _ 0]) simp
  next
    case False
    from Cons.IH [of "n - length (log_line p)"] Cons.prems obtain k torn where
      "take (n - length (log_line p)) (log_file ps) = log_file (take k ps) @ torn" "newline \<notin> set torn" by auto
    with False show ?thesis by (intro exI [of _ "Suc k"] exI [of _ torn]) simp
  qed
qed simp

lemma append_buffer_file: "\<forall>p \<in> set ps. payload_ok p \<Longrightarrow> append_buffer ps = Inr (log_file ps)"
  by (induction ps) (auto simp: payload_ok_def)

definition log_holds :: "file_log \<Rightarrow> byte list list \<Rightarrow> bool" where
  "log_holds l ps \<longleftrightarrow> (\<forall>p \<in> set ps. payload_ok p) \<and> fl_file l = log_file ps \<and> fl_size l = length (log_file ps)"

lemma openFileLog_torn:
  assumes "\<forall>p \<in> set ps. payload_ok p" and "newline \<notin> set torn"
  shows "openFileLog True (log_file ps @ torn) = Inr (\<lparr>fl_file = log_file ps, fl_size = length (log_file ps)\<rparr>, ps)"
  using readRecords_torn [OF assms] by (simp add: openFileLog_def)

text \<open>The records a later process finds in the file.\<close>

definition reopen :: "file_log \<Rightarrow> byte list list option" where
  "reopen l = (case openFileLog True (fl_file l) of Inl e \<Rightarrow> None | Inr (l', records) \<Rightarrow> Some records)"

lemma reopen_torn:
  "\<forall>p \<in> set ps. payload_ok p \<Longrightarrow> newline \<notin> set torn \<Longrightarrow> fl_file l = log_file ps @ torn \<Longrightarrow> reopen l = Some ps"
  by (simp add: reopen_def openFileLog_torn)

subsection \<open>The log as an interface\<close>

locale log_device =
  fixes ok :: "'p \<Rightarrow> bool"
    and append_to :: "'l \<Rightarrow> 'p list \<Rightarrow> 'l \<times> (log_error, unit) result"
    and found :: "'l \<Rightarrow> 'p list option"
    and holds :: "'l \<Rightarrow> 'p list \<Rightarrow> bool"
  assumes found_holds: "holds l ps \<Longrightarrow> found l = Some ps"
    and append_done: "holds l ps \<Longrightarrow> \<forall>q \<in> set qs. ok q \<Longrightarrow> append_to l qs = (l', Inr u) \<Longrightarrow> holds l' (ps @ qs)"
    and append_failed: "holds l ps \<Longrightarrow> \<forall>q \<in> set qs. ok q \<Longrightarrow> append_to l qs = (l', Inl e) \<Longrightarrow>
      \<exists>k. found l' = Some (ps @ take k qs)"
begin

text \<open>Whatever happens to an append, what was acknowledged before is found again, and nothing but the batch is added.\<close>

lemma append_keeps:
  assumes "holds l ps" and "\<forall>q \<in> set qs. ok q" and "append_to l qs = (l', res)"
  shows "\<exists>k. found l' = Some (ps @ take k qs) \<and> (res = Inr () \<longrightarrow> take k qs = qs)"
proof (cases res)
  case (Inl e)
  with append_failed [OF assms(1,2)] assms(3) show ?thesis by auto
next
  case (Inr u)
  with append_done [OF assms(1,2)] assms(3) found_holds show ?thesis
    by (intro exI [of _ "length qs"]) auto
qed

end

interpretation disk_log: log_device payload_ok "Append disk" reopen log_holds for disk
proof (unfold_locales, goal_cases)
  case (1 l ps)
  then show ?case by (intro reopen_torn [of ps "[]"]) (auto simp: log_holds_def)
next
  case (2 l ps qs l' u)
  then show ?case
    by (auto simp: Append_def log_holds_def append_buffer_file Let_def split: if_splits disk.splits)
next
  case (3 l ps qs l' e)
  then obtain n cut where d: "disk = DiskFail n cut" "qs \<noteq> []"
    by (auto simp: Append_def append_buffer_file split: if_splits disk.splits)
  with 3 have l': "fl_file l' = (if cut then log_file ps else log_file ps @ take n (log_file qs))"
    by (auto simp: Append_def append_buffer_file log_holds_def Let_def)
  obtain k torn where t: "take n (log_file qs) = log_file (take k qs) @ torn" "newline \<notin> set torn"
    using prefix_of_lines [OF 3(2)] by blast
  have ok: "\<forall>p \<in> set (ps @ take k qs). payload_ok p" "\<forall>p \<in> set ps. payload_ok p"
    using 3(1,2) by (auto simp: log_holds_def dest: in_set_takeD)
  show ?case
  proof (cases cut)
    case True
    with l' reopen_torn [OF ok(2), of "[]"] show ?thesis by (intro exI [of _ 0]) simp
  next
    case False
    with l' t reopen_torn [OF ok(1) t(2)] show ?thesis by (intro exI [of _ k]) simp
  qed
qed

interpretation mem_log: log_device "\<lambda>_. True" memory_Append "\<lambda>l. Some (ml_records l)" "\<lambda>l ps. ml_records l = ps"
proof (unfold_locales, goal_cases)
  case (3 l ps qs l' e)
  then show ?case by (intro exI [of _ 0]) (auto simp: memory_Append_def split: if_splits)
qed (auto simp: memory_Append_def split: if_splits)

subsection \<open>Properties\<close>

text \<open>
  a log survives a crash in the middle of any append. Whatever part of a batch reached the
  file, opening it again finds every record acknowledged before and a prefix of the batch, leaves a file of
  exactly those records, and finds all of the batch if the append was acknowledged.
\<close>

theorem log_survives_crash:
  assumes "log_holds l ps" and "\<forall>q \<in> set qs. payload_ok q" and "Append disk l qs = (l', res)"
  shows "\<exists>k l''. openFileLog True (fl_file l') = Inr (l'', ps @ take k qs) \<and> log_holds l'' (ps @ take k qs) \<and>
    (res = Inr () \<longrightarrow> take k qs = qs)"
proof -
  from disk_log.append_keeps [OF assms] obtain k where k: "reopen l' = Some (ps @ take k qs)" "res = Inr () \<longrightarrow> take k qs = qs"
    by blast
  then obtain l'' where l'': "openFileLog True (fl_file l') = Inr (l'', ps @ take k qs)"
    by (auto simp: reopen_def split: sum.splits)
  have "\<exists>rs torn. fl_file l' = log_file rs @ torn \<and> (\<forall>p \<in> set rs. payload_ok p) \<and> newline \<notin> set torn"
  proof (cases "qs = [] \<or> disk = DiskOk")
    case True
    with assms have "fl_file l' = log_file (ps @ qs) @ []"
      by (auto simp: Append_def log_holds_def append_buffer_file split: if_splits)
    with assms(1,2) show ?thesis by (intro exI [of _ "ps @ qs"] exI [of _ "[]"]) (auto simp: log_holds_def)
  next
    case False
    then obtain n cut where d: "disk = DiskFail n cut" "qs \<noteq> []" by (cases disk) auto
    with assms have after: "fl_file l' = (if cut then log_file ps else log_file ps @ take n (log_file qs))"
      by (auto simp: Append_def append_buffer_file log_holds_def Let_def)
    obtain j torn where t: "take n (log_file qs) = log_file (take j qs) @ torn" "newline \<notin> set torn"
      using prefix_of_lines [OF assms(2)] by blast
    then have "fl_file l' = (if cut then log_file ps @ [] else log_file (ps @ take j qs) @ torn)"
      using after by auto
    with assms(1,2) t show ?thesis
      by (intro exI [of _ "if cut then ps else ps @ take j qs"] exI [of _ "if cut then [] else torn"])
        (auto simp: log_holds_def dest: in_set_takeD)
  qed
  then obtain rs torn where rs: "fl_file l' = log_file rs @ torn" "\<forall>p \<in> set rs. payload_ok p" "newline \<notin> set torn"
    by blast
  from openFileLog_torn [OF rs(2,3)] l'' have "log_holds l'' (ps @ take k qs)"
    using rs(1,2) by (auto simp: log_holds_def)
  with l'' k(2) show ?thesis by blast
qed

theorem log_survives_crash_witness:
  "\<exists>records l''. openFileLog True (fl_file (fst (Append (DiskFail 3 False) \<lparr>fl_file = [], fl_size = 0\<rparr> [[123, 125]]))) =
     Inr (l'', records)"
proof -
  obtain l' res where a: "Append (DiskFail 3 False) \<lparr>fl_file = [], fl_size = 0\<rparr> [[123, 125]] = (l', res)"
    by (cases "Append (DiskFail 3 False) \<lparr>fl_file = [], fl_size = 0\<rparr> [[123, 125]]")
  have "log_holds \<lparr>fl_file = [], fl_size = 0\<rparr> []" "\<forall>q \<in> set [[123, 125]]. payload_ok q"
    by (simp_all add: log_holds_def payload_ok_def newline_def)
  from log_survives_crash [OF this a] show ?thesis unfolding a by auto
qed

text \<open>
  a line written by \<open>Append\<close> passes \<open>checkLine\<close> and gives its payload back, and a payload that would
  break the line structure is refused before anything is written.
\<close>

theorem log_line_roundtrip:
  "(payload_ok p \<longrightarrow> checkLine (butlast (log_line p)) = Some p) \<and>
   (newline \<in> set p \<longrightarrow> Append disk l [p] = (l, Inl ErrNewline))"
  by (auto simp: log_line_def butlast_append checkLine_log_line Append_def)

theorem log_line_roundtrip_witness:
  "checkLine (butlast (log_line [123, 125])) = Some [123, 125]"
  using log_line_roundtrip [of "[123, 125]"] by (simp add: payload_ok_def newline_def)

end
