(* ===== verification/GoLib.thy ===== *)
theory GoLib
  imports Prelude "HOL-Library.Word" "HOL-Library.AList"
begin

unbundle bit_operations_syntax

text \<open>
  What the services use of Go's library on strings, numbers and times: \<^verbatim>\<open>strings\<close>, \<^verbatim>\<open>strconv\<close>, \<^verbatim>\<open>unicode/utf8\<close>, \<^verbatim>\<open>hash/fnv\<close> and \<^verbatim>\<open>time\<close>.
\<close>

type_synonym uint32 = "32 word"
type_synonym uint64 = "64 word"

subsection \<open>Strings\<close>

text \<open>\<^verbatim>\<open>unicode.IsSpace\<close>\<close>

definition is_space :: "rune \<Rightarrow> bool" where
  "is_space r \<longleftrightarrow> (9 \<le> r \<and> r \<le> 13) \<or> r = 0x20 \<or> r = 0x85 \<or> r = 0xA0 \<or> r = 0x1680 \<or>
     (0x2000 \<le> r \<and> r \<le> 0x200A) \<or> r = 0x2028 \<or> r = 0x2029 \<or> r = 0x202F \<or> r = 0x205F \<or> r = 0x3000"

definition TrimSpace :: "str \<Rightarrow> str" where
  "TrimSpace s = rev (dropWhile is_space (rev (dropWhile is_space s)))"

text \<open>A string that is empty once trimmed.\<close>

definition blank :: "str \<Rightarrow> bool" where "blank s \<longleftrightarrow> TrimSpace s = []"

text \<open>\<^verbatim>\<open>strings.FieldsFunc\<close>, with the field being read as an accumulator.\<close>

fun fields_loop :: "(rune \<Rightarrow> bool) \<Rightarrow> str \<Rightarrow> str \<Rightarrow> str list" where
  "fields_loop sep cur [] = (if cur = [] then [] else [cur])"
| "fields_loop sep cur (r # rs) =
     (if sep r then (if cur = [] then fields_loop sep [] rs else cur # fields_loop sep [] rs)
      else fields_loop sep (cur @ [r]) rs)"

fun join_space :: "str list \<Rightarrow> str" where
  "join_space [] = []"
| "join_space [w] = w"
| "join_space (w # ws) = w @ [0x20] @ join_space ws"

text \<open>The bytes of a string and their number, its \<^verbatim>\<open>len\<close>.\<close>

definition utf8 :: "rune \<Rightarrow> byte list" where
  "utf8 r =
     (if r < 0x80 then [word_of_nat r]
      else if r < 0x800 then [word_of_nat (0xc0 + r div 64), word_of_nat (0x80 + r mod 64)]
      else if r < 0x10000 then [word_of_nat (0xe0 + r div 4096), word_of_nat (0x80 + r div 64 mod 64), word_of_nat (0x80 + r mod 64)]
      else [word_of_nat (0xf0 + r div 262144), word_of_nat (0x80 + r div 4096 mod 64), word_of_nat (0x80 + r div 64 mod 64),
            word_of_nat (0x80 + r mod 64)])"

definition bytes_of :: "str \<Rightarrow> byte list" where "bytes_of s = concat (map utf8 s)"

definition utf8_len :: "rune \<Rightarrow> nat" where
  "utf8_len r = (if r < 0x80 then 1 else if r < 0x800 then 2 else if r < 0x10000 then 3 else 4)"

definition byte_len :: "str \<Rightarrow> nat" where
  "byte_len s = sum_list (map utf8_len s)"

lemma length_bytes_of [simp]: "length (bytes_of s) = byte_len s"
  by (induction s) (simp_all add: bytes_of_def byte_len_def utf8_def utf8_len_def)

subsection \<open>Numbers\<close>

text \<open>Numbers in a base up to 36.\<close>

definition base_digit :: "nat \<Rightarrow> rune" where
  "base_digit n = (if n < 10 then 48 + n else 87 + n)"

fun digits :: "nat \<Rightarrow> nat \<Rightarrow> str" where
  "digits b n = (if b < 2 \<or> n < b then [base_digit n] else digits b (n div b) @ [base_digit (n mod b)])"

declare digits.simps [simp del]

definition FormatInt :: "int \<Rightarrow> nat \<Rightarrow> str" where
  "FormatInt n b = (if n < 0 then 45 # digits b (nat (- n)) else digits b (nat n))"

text \<open>\<^verbatim>\<open>%d\<close> and \<^verbatim>\<open>%016x\<close> of \<^verbatim>\<open>fmt\<close>\<close>

definition decimal :: "int \<Rightarrow> str" where "decimal n = FormatInt n 10"

definition hex16 :: "uint64 \<Rightarrow> str" where
  "hex16 w = map (\<lambda>i. base_digit (unat w div 16 ^ (15 - i) mod 16)) [0..<16]"

text \<open>\<^verbatim>\<open>hex.EncodeToString\<close>\<close>

definition hex_string :: "byte list \<Rightarrow> str" where
  "hex_string bs = concat (map (\<lambda>b. [base_digit (unat b div 16), base_digit (unat b mod 16)]) bs)"

subsection \<open>Hashes\<close>

definition fnv64a :: "byte list \<Rightarrow> uint64" where
  "fnv64a bs = foldl (\<lambda>h b. (h XOR ucast b) * 1099511628211) 14695981039346656037 bs"

definition fnv32a :: "byte list \<Rightarrow> uint32" where
  "fnv32a bs = foldl (\<lambda>h b. (h XOR ucast b) * 16777619) 2166136261 bs"

subsection \<open>Times\<close>

text \<open>\<^verbatim>\<open>time.Time{}\<close>, the first instant of year 1, in nanoseconds relative to 1970.\<close>

definition zero_time :: time where "zero_time = - 62135596800000000000"

text \<open>
  \<^verbatim>\<open>time.Duration\<close> is a number of nanoseconds in 64 bits: a product with \<^verbatim>\<open>time.Second\<close> wraps around, a difference of times saturates.
\<close>

definition wrap64 :: "int \<Rightarrow> int" where "wrap64 n = sint (word_of_int n :: uint64)"

definition seconds :: "int \<Rightarrow> int" where "seconds n = wrap64 (n * 1000000000)"

definition time_Sub :: "time \<Rightarrow> time \<Rightarrow> int" where
  "time_Sub t u = max (- (2 ^ 63)) (min (2 ^ 63 - 1) (t - u))"

lemma wrap64_mod: "wrap64 n = (n + 2 ^ 63) mod 2 ^ 64 - 2 ^ 63"
  by (simp add: wrap64_def sint_sbintrunc' signed_take_bit_eq_take_bit_shift take_bit_eq_mod)

lemma wrap64_small:
  assumes "- (2 ^ 63) \<le> n" and "n < 2 ^ 63"
  shows "wrap64 n = n"
proof -
  have "(n + 2 ^ 63) mod 2 ^ 64 = n + 2 ^ 63" using assms by (intro mod_pos_pos_trivial) auto
  then show ?thesis by (simp add: wrap64_mod)
qed

subsection \<open>Association lists\<close>

lemma update_members: "ks \<in> set (AList.update k y m) \<Longrightarrow> ks = (k, y) \<or> ks \<in> set m"
  by (induction m) (auto split: if_splits)

lemma update_absent: "map_of m k = None \<Longrightarrow> AList.update k y m = m @ [(k, y)]"
  by (induction m) (auto split: if_splits)

end
