(* ===== verification/Session.thy ===== *)
theory Session
  imports CatchUp OpLog GoLib
begin

text \<open>
  \<^verbatim>\<open>internal/collab/session.go\<close>: the actor that owns one document. An event changes the session and a
  batch; \<open>run_batch\<close> executes events, appends what they committed to the log and only then delivers
  the messages. Connections are handles into a store, as pointers are in the code; the set of joined
  connections is a list of handles, whose order no result depends on. \<^verbatim>\<open>time.Now\<close> is a field of
  the session, read by the handlers.
\<close>

subsection \<open>Strings\<close>

text \<open>\<^verbatim>\<open>strings.Fields\<close> and \<^verbatim>\<open>strings.Join\<close>\<close>

definition cleanText :: "str \<Rightarrow> nat \<Rightarrow> str" where
  "cleanText value maxRunes =
     (let value = join_space (fields_loop is_space [] value) in
      if length value > maxRunes then take maxRunes value else value)"

subsection \<open>Messages\<close>

datatype msg_type = MsgHello | MsgPing | MsgOp | MsgCursor | MsgResolve | MsgTitle | MsgOther str

datatype resolve_action = ActAccept | ActReject | ActDismiss | ActOther str

record client_msg =
  m_T :: msg_type
  m_client :: str
  m_user :: "author option"
  m_rev :: "int option"
  m_epoch :: str
  m_id :: str
  m_op :: "op option"
  m_pos :: "int option"
  m_anchor :: "int option"
  m_sid :: str
  m_action :: resolve_action
  m_title :: str

record wireOp =
  w_rev :: int
  w_op :: op
  w_id :: str
  w_conn :: str
  w_author :: author

record presence =
  p_conn :: str
  p_name :: str
  p_agent :: bool
  p_color :: int
  p_pos :: "int option"
  p_anchor :: "int option"
  p_model :: str
  p_invokedBy :: str

record docInfo =
  i_id :: str
  i_title :: str
  i_rev :: int
  i_length :: nat
  i_createdAt :: time
  i_updatedAt :: time
  i_editors :: nat
  i_open :: nat

record initMsg =
  in_doc :: docInfo
  in_rev :: int
  in_epoch :: str
  in_text :: "str option"
  in_ops :: "wireOp list"
  in_reset :: bool
  in_you :: str
  in_color :: nat
  in_clients :: "presence list"
  in_suggestions :: "suggestion list"

text \<open>\<open>OutClose\<close> is the nil message that asks the writer to close after flushing.\<close>

datatype out_msg = OutError | OutPong | OutInit initMsg | OutPresence "presence list" | OutAck int str
  | OutOp wireOp | OutSug suggestion | OutCursor str int int | OutTitle str | OutClose

subsection \<open>Connections, the session, batches\<close>

definition maxDocUnits :: int where "maxDocUnits = 1000000"
definition maxBatch :: nat where "maxBatch = 128"
definition sendQueue :: nat where "sendQueue = 512"
definition paletteSize :: nat where "paletteSize = 8"
definition maxNameRunes :: nat where "maxNameRunes = 40"

record conn =
  cn_id :: str
  cn_client :: str
  cn_user :: author
  cn_color :: nat
  cn_joined :: bool
  cn_dropped :: bool
  cn_pos :: int
  cn_anchor :: int
  cn_hasCur :: bool
  cn_out :: "out_msg list"
  cn_done :: bool

definition newConn :: conn where
  "newConn = \<lparr>cn_id = [], cn_client = [], cn_user = \<lparr>a_id = [], a_name = [], a_kind = [], a_model = []\<rparr>, cn_color = 0,
     cn_joined = False, cn_dropped = False, cn_pos = 0, cn_anchor = 0, cn_hasCur = False, cn_out = [], cn_done = False\<rparr>"

definition kill :: "conn \<Rightarrow> conn" where
  "kill c = c\<lparr>cn_done := True\<rparr>"

definition enqueue :: "conn \<Rightarrow> out_msg \<Rightarrow> conn" where
  "enqueue c message =
     (if cn_done c then c
      else if length (cn_out c) < sendQueue then c\<lparr>cn_out := cn_out c @ [message]\<rparr>
      else kill c)"

record agentRun =
  ar_id :: str
  ar_agent :: author
  ar_invokedBy :: str
  ar_start :: int
  ar_end :: int

record batch =
  b_payloads :: "payload list"
  b_after :: "(nat \<times> out_msg) list"
  b_changed :: bool

definition newBatch :: batch where
  "newBatch = \<lparr>b_payloads = [], b_after = [], b_changed = False\<rparr>"

record summary =
  su_info :: docInfo
  su_snippet :: str

record 'l session =
  ss_state :: doc_state
  ss_log :: 'l
  ss_now :: time
  ss_dead :: bool
  ss_published :: "summary option"
  ss_store :: "nat \<Rightarrow> conn"
  ss_conns :: "nat list"
  ss_runs :: "agentRun list"
  ss_nextConn :: nat
  ss_nextSug :: nat
  ss_nextRun :: nat

definition info :: "'l session \<Rightarrow> docInfo" where
  "info s = (let d = ss_state s in
     \<lparr>i_id = d_id d, i_title = d_title d, i_rev = d_rev d, i_length = length (d_text d),
      i_createdAt = d_createdAt d, i_updatedAt = d_updatedAt d, i_editors = length (ss_conns s),
      i_open = length (openSuggestions d)\<rparr>)"

definition snippetUnits :: nat where "snippetUnits = 600"

definition publish :: "'l session \<Rightarrow> 'l session" where
  "publish s =
     (let head = d_text (ss_state s);
          head = (if length head > snippetUnits
                  then let head = take snippetUnits head in
                    if isHighSurrogate (last head) then butlast head else head
                  else head)
      in s\<lparr>ss_published := Some \<lparr>su_info = info s, su_snippet = decodeText head\<rparr>\<rparr>)"

definition newSession :: "doc_state \<Rightarrow> 'l \<Rightarrow> time \<Rightarrow> 'l session" where
  "newSession d log now = publish
     \<lparr>ss_state = d, ss_log = log, ss_now = now, ss_dead = False, ss_published = None, ss_store = (\<lambda>_. newConn),
      ss_conns = [], ss_runs = [], ss_nextConn = 0, ss_nextSug = length (d_order d), ss_nextRun = 0\<rparr>"

definition set_conn :: "'l session \<Rightarrow> nat \<Rightarrow> conn \<Rightarrow> 'l session" where
  "set_conn s h c = s\<lparr>ss_store := (ss_store s)(h := c)\<rparr>"

definition fail :: "'l session \<Rightarrow> 'l session" where
  "fail s = s\<lparr>ss_dead := True,
     ss_store := (\<lambda>h. if h \<in> set (ss_conns s) then kill (ss_store s h) else ss_store s h)\<rparr>"

definition deliver :: "'l session \<Rightarrow> (nat \<times> out_msg) \<Rightarrow> 'l session" where
  "deliver s hm = (case hm of (h, message) \<Rightarrow> set_conn s h (enqueue (ss_store s h) message))"

text \<open>
  The log's \<open>Append\<close> is an argument, so that the session runs on either log. When it fails the
  memory is ahead of the log and the session ends.
\<close>

type_synonym 'l event = "'l session \<times> batch \<Rightarrow> 'l session \<times> batch"

definition run_batch ::
    "('l \<Rightarrow> payload list \<Rightarrow> 'l \<times> (log_error, unit) result) \<Rightarrow> 'l event list \<Rightarrow> 'l session \<Rightarrow> 'l session" where
  "run_batch append_to events s =
     (if ss_dead s then s
      else case fold (\<lambda>event. event) events (s, newBatch) of (s, b) \<Rightarrow>
        if b_payloads b \<noteq> [] then
          (case append_to (ss_log s) (b_payloads b) of
             (l, Inl e) \<Rightarrow> fail (s\<lparr>ss_log := l\<rparr>)
           | (l, Inr u) \<Rightarrow> foldl deliver (publish (s\<lparr>ss_log := l\<rparr>)) (b_after b))
        else foldl deliver (publish s) (b_after b))"

definition commit :: "'l session \<Rightarrow> batch \<Rightarrow> op log_record \<Rightarrow> ('l session \<times> batch) \<times> (doc_error, str list) result" where
  "commit s b r =
     (case apply_record (ss_state s) r of
        (d, Inl e) \<Rightarrow> ((s\<lparr>ss_state := d\<rparr>, b), Inl e)
      | (d, Inr changed) \<Rightarrow>
          ((s\<lparr>ss_state := d\<rparr>, b\<lparr>b_payloads := b_payloads b @ [marshal_record r], b_changed := True\<rparr>), Inr changed))"

subsection \<open>Sending\<close>

definition send :: "batch \<Rightarrow> nat \<Rightarrow> out_msg \<Rightarrow> batch" where
  "send b h message = b\<lparr>b_after := b_after b @ [(h, message)]\<rparr>"

definition broadcast :: "'l session \<Rightarrow> batch \<Rightarrow> nat option \<Rightarrow> out_msg \<Rightarrow> batch" where
  "broadcast s b skip message =
     b\<lparr>b_after := b_after b @ map (\<lambda>h. (h, message)) (filter (\<lambda>h. Some h \<noteq> skip) (ss_conns s))\<rparr>"

text \<open>\<^verbatim>\<open>sort.Slice\<close> by connection id, as an insertion sort; \<open>str_le\<close> is Go's order on strings.\<close>

fun str_le :: "str \<Rightarrow> str \<Rightarrow> bool" where
  "str_le [] t \<longleftrightarrow> True"
| "str_le (r # rs) [] \<longleftrightarrow> False"
| "str_le (r # rs) (t # ts) \<longleftrightarrow> r < t \<or> (r = t \<and> str_le rs ts)"

fun insert_presence :: "presence \<Rightarrow> presence list \<Rightarrow> presence list" where
  "insert_presence p [] = [p]"
| "insert_presence p (q # qs) = (if str_le (p_conn p) (p_conn q) then p # q # qs else q # insert_presence p qs)"

definition presenceList :: "'l session \<Rightarrow> presence list" where
  "presenceList s =
     (let people = map (\<lambda>h. let c = ss_store s h in
            \<lparr>p_conn = cn_id c, p_name = a_name (cn_user c), p_agent = False, p_color = int (cn_color c),
             p_pos = (if cn_hasCur c then Some (cn_pos c) else None),
             p_anchor = (if cn_hasCur c then Some (cn_anchor c) else None), p_model = [], p_invokedBy = []\<rparr>) (ss_conns s);
          agents = map (\<lambda>run. \<lparr>p_conn = ar_id run, p_name = a_name (ar_agent run), p_agent = True, p_color = -1,
             p_pos = Some (ar_end run), p_anchor = Some (ar_start run), p_model = a_model (ar_agent run),
             p_invokedBy = ar_invokedBy run\<rparr>) (ss_runs s)
      in foldr insert_presence (people @ agents) [])"

definition leave :: "'l session \<Rightarrow> batch \<Rightarrow> nat \<Rightarrow> 'l session \<times> batch" where
  "leave s b h =
     (if h \<notin> set (ss_conns s) then (s, b)
      else let s = s\<lparr>ss_conns := filter (\<lambda>x. x \<noteq> h) (ss_conns s)\<rparr> in
        (s, broadcast s b None (OutPresence (presenceList s))))"

definition reject :: "'l session \<Rightarrow> batch \<Rightarrow> nat \<Rightarrow> 'l session \<times> batch" where
  "reject s b h =
     (case leave (set_conn s h ((ss_store s h)\<lparr>cn_dropped := True\<rparr>)) b h of
        (s, b) \<Rightarrow> (s, send (send b h OutError) h OutClose))"

subsection \<open>Joining\<close>

definition pickColor :: "'l session \<Rightarrow> nat" where
  "pickColor s =
     (case find (\<lambda>color. color \<notin> set (map (\<lambda>h. cn_color (ss_store s h)) (ss_conns s))) [0..<paletteSize] of
        Some color \<Rightarrow> color
      | None \<Rightarrow> ss_nextConn s mod paletteSize)"

text \<open>\<^verbatim>\<open>UnixNano\<close> of a time counted in nanoseconds from the zero time.\<close>

definition unixNano :: "time \<Rightarrow> int" where
  "unixNano t = t - 62135596800 * 10 ^ 9"

definition epoch :: "'l session \<Rightarrow> str" where
  "epoch s = FormatInt (unixNano (d_createdAt (ss_state s))) 36"

definition kind_human :: str where "kind_human = [104, 117, 109, 97, 110]"

text \<open>The operations a returning client missed.\<close>

definition missedOps :: "doc_state \<Rightarrow> str \<Rightarrow> int \<Rightarrow> wireOp list" where
  "missedOps d client from =
     map (\<lambda>index. let entry = d_history d ! index in
       \<lparr>w_rev = int index + 1, w_op = c_op entry,
        w_id = (if c_client entry = client then c_id entry else []), w_conn = [],
        w_author = d_authors d ! c_author entry\<rparr>) [nat from..<nat (d_rev d)]"

definition handleHello :: "'l session \<Rightarrow> batch \<Rightarrow> nat \<Rightarrow> client_msg \<Rightarrow> 'l session \<times> batch" where
  "handleHello s b h m =
     (if cn_joined (ss_store s h) then reject s b h
      else case m_user m of
        None \<Rightarrow> reject s b h
      | Some u \<Rightarrow>
          if cleanText (a_name u) maxNameRunes = [] \<or> cleanText (m_client m) 64 = [] then reject s b h
          else
            let s = s\<lparr>ss_nextConn := ss_nextConn s + 1\<rparr>;
                client = cleanText (m_client m) 64;
                uid = cleanText (a_id u) 64;
                user = \<lparr>a_id = (if uid = [] then client else uid), a_name = cleanText (a_name u) maxNameRunes,
                        a_kind = kind_human, a_model = []\<rparr>;
                color = pickColor s;
                d = ss_state s;
                c = (ss_store s h)\<lparr>cn_id := 99 # digits 10 (ss_nextConn s), cn_client := client, cn_user := user,
                                   cn_color := color\<rparr>;
                sameHistory = (m_epoch m = [] \<or> m_epoch m = epoch s);
                caughtUp = (case m_rev m of None \<Rightarrow> False | Some r \<Rightarrow> sameHistory \<and> 0 \<le> r \<and> r \<le> d_rev d);
                s = set_conn s h (c\<lparr>cn_joined := True\<rparr>);
                s = s\<lparr>ss_conns := ss_conns s @ [h]\<rparr>;
                init = \<lparr>in_doc = info s, in_rev = d_rev d, in_epoch = epoch s,
                        in_text = (if caughtUp then None else Some (decodeText (d_text d))),
                        in_ops = (if caughtUp then missedOps d client (the (m_rev m)) else []),
                        in_reset = (\<not> caughtUp \<and> m_rev m \<noteq> None), in_you = cn_id c, in_color = color,
                        in_clients = presenceList s, in_suggestions = openSuggestions d\<rparr>
            in (s, broadcast s (send b h (OutInit init)) (Some h) (OutPresence (presenceList s))))"

subsection \<open>Operations\<close>

definition send_all :: "batch \<Rightarrow> nat list \<Rightarrow> out_msg \<Rightarrow> batch" where
  "send_all b hs message = b\<lparr>b_after := b_after b @ map (\<lambda>h. (h, message)) hs\<rparr>"

definition broadcast_changed :: "'l session \<Rightarrow> batch \<Rightarrow> str list \<Rightarrow> batch" where
  "broadcast_changed s b changed =
     foldl (\<lambda>b sid. broadcast s b None (OutSug (the (d_suggestions (ss_state s) sid)))) b changed"

definition moveCarets :: "op \<Rightarrow> nat option \<Rightarrow> 'l session \<Rightarrow> 'l session" where
  "moveCarets p origin s = s\<lparr>ss_store := (\<lambda>h. let c = ss_store s h in
     if h \<in> set (ss_conns s) \<and> Some h \<noteq> origin \<and> cn_hasCur c
     then c\<lparr>cn_pos := MapPos p (cn_pos c) False, cn_anchor := MapPos p (cn_anchor c) False\<rparr> else c)\<rparr>"

definition moveRuns :: "op \<Rightarrow> 'l session \<Rightarrow> 'l session" where
  "moveRuns p s = s\<lparr>ss_runs := map (\<lambda>run. case MapRange p (ar_start run) (ar_end run) of (start, end_pos, _) \<Rightarrow>
     run\<lparr>ar_start := start, ar_end := end_pos\<rparr>) (ss_runs s)\<rparr>"

definition setOrigin :: "op \<Rightarrow> nat \<Rightarrow> 'l session \<Rightarrow> 'l session" where
  "setOrigin p h s = (case EditPos p of (position, ok) \<Rightarrow>
     if ok then set_conn s h ((ss_store s h)\<lparr>cn_pos := position, cn_anchor := position, cn_hasCur := True\<rparr>) else s)"

definition afterOp :: "'l session \<Rightarrow> batch \<Rightarrow> nat option \<Rightarrow> op \<Rightarrow> str \<Rightarrow> author \<Rightarrow> str list \<Rightarrow> 'l session \<times> batch" where
  "afterOp s b origin p id' a changed =
     (let s = moveRuns p (moveCarets p origin s);
          message = \<lparr>w_rev = d_rev (ss_state s), w_op = p, w_id = [], w_conn = [], w_author = a\<rparr>
      in case origin of
        None \<Rightarrow> (s, broadcast_changed s (send_all b (ss_conns s) (OutOp message)) changed)
      | Some h \<Rightarrow>
          let s = setOrigin p h s; c = ss_store s h;
              message = message\<lparr>w_conn := cn_id c\<rparr>;
              b = send b h (OutAck (d_rev (ss_state s)) id');
              same = filter (\<lambda>x. x \<noteq> h \<and> cn_client (ss_store s x) = cn_client c) (ss_conns s);
              others = filter (\<lambda>x. x \<noteq> h \<and> cn_client (ss_store s x) \<noteq> cn_client c) (ss_conns s);
              b = send_all (send_all b same (OutOp (message\<lparr>w_id := id'\<rparr>))) others (OutOp message)
          in (s, broadcast_changed s b changed))"

text \<open>The record of an operation that a client or the server commits.\<close>

definition op_rec :: "time \<Rightarrow> int \<Rightarrow> op \<Rightarrow> author \<Rightarrow> str \<Rightarrow> str \<Rightarrow> str \<Rightarrow> author option \<Rightarrow> op log_record" where
  "op_rec now rev' p a client id' accepts by' =
     \<lparr>r_kind = RecOp, r_time = now, r_title = [], r_rev = rev', r_op = Some p, r_author = Some a, r_client = client,
      r_opID = id', r_accepts = accepts, r_by = by', r_suggestion = None, r_suggestionID = [],
      r_action = OtherStatus []\<rparr>"

definition handleOp :: "'l session \<Rightarrow> batch \<Rightarrow> nat \<Rightarrow> client_msg \<Rightarrow> 'l session \<times> batch" where
  "handleOp s b h m =
     (case (m_op m, m_rev m) of
        (Some p0, Some r) \<Rightarrow>
          if m_id m = [] \<or> byte_len (m_id m) > 128 then reject s b h
          else let c = ss_store s h; d = ss_state s in
            if d_opIDs d (opKey (cn_client c) (m_id m)) \<noteq> None then (s, b)
            else (case catchUp d p0 r of
                    Inl e \<Rightarrow> reject s b h
                  | Inr p \<Rightarrow>
                      if targetLen p > maxDocUnits then reject s b h
                      else if checkText p (d_text d) \<noteq> None then reject s b h
                      else let a = cn_user c in
                        (case commit s b (op_rec (ss_now s) (d_rev d + 1) p a (cn_client c) (m_id m) [] None) of
                           ((s, b), Inl e) \<Rightarrow> reject s b h
                         | ((s, b), Inr changed) \<Rightarrow> afterOp s b (Some h) p (m_id m) a changed))
      | _ \<Rightarrow> reject s b h)"

fun mapPos_history :: "committed list \<Rightarrow> int \<Rightarrow> int" where
  "mapPos_history [] position = position"
| "mapPos_history (later # es) position = mapPos_history es (MapPos (c_op later) position False)"

definition handleCursor :: "'l session \<Rightarrow> batch \<Rightarrow> nat \<Rightarrow> client_msg \<Rightarrow> 'l session \<times> batch" where
  "handleCursor s b h m =
     (case (m_rev m, m_pos m) of
        (Some r, Some pos) \<Rightarrow>
          let anchor = (case m_anchor m of None \<Rightarrow> pos | Some x \<Rightarrow> x); d = ss_state s in
          if r < 0 \<or> r > d_rev d then (s, b)
          else let len = lengthAt d r in
            if pos < 0 \<or> pos > len \<or> anchor < 0 \<or> anchor > len then (s, b)
            else
              let later = drop (nat r) (d_history d);
                  pos = mapPos_history later pos; anchor = mapPos_history later anchor;
                  c = (ss_store s h)\<lparr>cn_pos := pos, cn_anchor := anchor, cn_hasCur := True\<rparr>;
                  s = set_conn s h c
              in (s, broadcast s b (Some h) (OutCursor (cn_id c) pos anchor))
      | _ \<Rightarrow> (s, b))"

text \<open>A record that resolves a suggestion or sets the title.\<close>

definition resolve_rec :: "time \<Rightarrow> str \<Rightarrow> status \<Rightarrow> author \<Rightarrow> op log_record" where
  "resolve_rec now sid action by' =
     \<lparr>r_kind = RecResolve, r_time = now, r_title = [], r_rev = 0, r_op = None, r_author = None, r_client = [],
      r_opID = [], r_accepts = [], r_by = Some by', r_suggestion = None, r_suggestionID = sid, r_action = action\<rparr>"

definition meta_rec :: "time \<Rightarrow> str \<Rightarrow> op log_record" where
  "meta_rec now title =
     \<lparr>r_kind = RecMeta, r_time = now, r_title = title, r_rev = 0, r_op = None, r_author = None, r_client = [],
      r_opID = [], r_accepts = [], r_by = None, r_suggestion = None, r_suggestionID = [], r_action = OtherStatus []\<rparr>"

definition acceptOp :: "doc_state \<Rightarrow> suggestion \<Rightarrow> op" where
  "acceptOp d sg =
     (let start = (if s_placement sg = PlaceAfter then s_end sg else s_start sg) in
      replaceOp (int (length (d_text d))) start (s_end sg) (encodeText (s_body sg)))"

definition handleResolve :: "'l session \<Rightarrow> batch \<Rightarrow> nat \<Rightarrow> client_msg \<Rightarrow> 'l session \<times> batch" where
  "handleResolve s b h m =
     (let d = ss_state s; by' = cn_user (ss_store s h) in
      case d_suggestions d (m_sid m) of
        None \<Rightarrow> (s, b)
      | Some sg \<Rightarrow>
          (case m_action m of
             ActAccept \<Rightarrow>
               if s_status sg \<noteq> StatusPending then (s, send b h (OutSug sg))
               else let p = acceptOp d sg in
                 if targetLen p > maxDocUnits then (s, b)
                 else (case commit s b (op_rec (ss_now s) (d_rev d + 1) p (s_agent sg) [] [] (s_id sg) (Some by')) of
                         ((s, b), Inl e) \<Rightarrow> (s, b)
                       | ((s, b), Inr changed) \<Rightarrow> afterOp s b None p [] (s_agent sg) changed)
           | ActOther a \<Rightarrow> (s, b)
           | _ \<Rightarrow>
               if s_status sg \<noteq> StatusPending \<and> s_status sg \<noteq> StatusStale then (s, b)
               else let action = (if s_status sg = StatusStale then StatusDismissed else StatusRejected) in
                 (case commit s b (resolve_rec (ss_now s) (s_id sg) action by') of
                    ((s, b), Inl e) \<Rightarrow> (s, b)
                  | ((s, b), Inr changed) \<Rightarrow> (s, broadcast_changed s b changed))))"

definition handleTitle :: "'l session \<Rightarrow> batch \<Rightarrow> nat \<Rightarrow> client_msg \<Rightarrow> 'l session \<times> batch" where
  "handleTitle s b h m =
     (let title = cleanText (m_title m) 120 in
      if title = [] \<or> title = d_title (ss_state s) then (s, b)
      else (case commit s b (meta_rec (ss_now s) title) of
              ((s, b), Inl e) \<Rightarrow> (s, b)
            | ((s, b), Inr changed) \<Rightarrow> (s, broadcast s b None (OutTitle title))))"

definition handle :: "'l session \<Rightarrow> batch \<Rightarrow> nat \<Rightarrow> client_msg \<Rightarrow> 'l session \<times> batch" where
  "handle s b h m =
     (let c = ss_store s h in
      if cn_dropped c then (s, b)
      else if m_T m = MsgHello then handleHello s b h m
      else if \<not> cn_joined c then reject s b h
      else case m_T m of
        MsgPing \<Rightarrow> (s, send b h OutPong)
      | MsgOp \<Rightarrow> handleOp s b h m
      | MsgCursor \<Rightarrow> handleCursor s b h m
      | MsgResolve \<Rightarrow> handleResolve s b h m
      | MsgTitle \<Rightarrow> handleTitle s b h m
      | _ \<Rightarrow> reject s b h)"

text \<open>The events a connection raises.\<close>

definition message_event :: "nat \<Rightarrow> client_msg \<Rightarrow> 'l event" where
  "message_event h m = (\<lambda>(s, b). handle s b h m)"

definition leave_event :: "nat \<Rightarrow> 'l event" where
  "leave_event h = (\<lambda>(s, b). leave s b h)"

definition stop_event :: "'l event" where
  "stop_event = (\<lambda>(s, b). (fail s, b))"

subsection \<open>What the helpers leave alone\<close>

definition core :: "'l session \<times> batch \<Rightarrow> doc_state \<times> 'l \<times> payload list \<times> bool" where
  "core sb = (ss_state (fst sb), ss_log (fst sb), b_payloads (snd sb), ss_dead (fst sb))"

lemma set_conn_fields [simp]:
  "ss_state (set_conn s h c) = ss_state s" "ss_log (set_conn s h c) = ss_log s"
  "ss_dead (set_conn s h c) = ss_dead s" "ss_conns (set_conn s h c) = ss_conns s"
  "ss_runs (set_conn s h c) = ss_runs s" "ss_store (set_conn s h c) = (ss_store s)(h := c)"
  by (simp_all add: set_conn_def)

lemma batch_fields [simp]:
  "b_payloads (send b h m) = b_payloads b" "b_payloads (send_all b hs m) = b_payloads b"
  "b_payloads (broadcast s b skip m) = b_payloads b"
  by (simp_all add: send_def send_all_def broadcast_def)

lemma broadcast_changed_payloads [simp]: "b_payloads (broadcast_changed s b changed) = b_payloads b"
  unfolding broadcast_changed_def by (induction changed arbitrary: b) simp_all

lemma leave_core [simp]: "core (leave s b h) = core (s, b)"
  by (simp add: leave_def core_def Let_def)

lemma reject_core [simp]: "core (reject s b h) = core (s, b)"
proof -
  let ?s = "set_conn s h ((ss_store s h)\<lparr>cn_dropped := True\<rparr>)"
  obtain s' b' where l: "leave ?s b h = (s', b')" by (cases "leave ?s b h")
  with leave_core [of ?s b h] show ?thesis by (simp add: reject_def core_def)
qed

lemma setOrigin_core [simp]:
  "ss_state (setOrigin p h s) = ss_state s" "ss_log (setOrigin p h s) = ss_log s" "ss_dead (setOrigin p h s) = ss_dead s"
  by (simp_all add: setOrigin_def split: prod.split)

lemma afterOp_core [simp]: "core (afterOp s b origin p id' a changed) = core (s, b)"
  by (simp add: afterOp_def core_def Let_def moveRuns_def moveCarets_def split: option.split)

lemma handleHello_core: "core (handleHello s b h m) = core (s, b)"
  by (simp add: handleHello_def Let_def split: option.split) (simp add: core_def)

lemma handleCursor_core: "core (handleCursor s b h m) = core (s, b)"
  by (simp add: handleCursor_def Let_def core_def split: option.split)

subsection \<open>What events add to the log\<close>

text \<open>From one session and batch to another: records were applied to the state and queued, in order.\<close>

definition evolves :: "'l session \<times> batch \<Rightarrow> 'l session \<times> batch \<Rightarrow> bool" where
  "evolves x y \<longleftrightarrow> (\<exists>rs. ss_log (fst y) = ss_log (fst x) \<and>
     b_payloads (snd y) = b_payloads (snd x) @ map marshal_record rs \<and>
     apply_all (ss_state (fst x)) rs = Inr (ss_state (fst y)))"

lemma evolves_core: "core y = core x \<Longrightarrow> evolves x y"
  by (auto simp: evolves_def core_def intro: exI [of _ "[]"])

lemma evolves_core_right: "evolves x y \<Longrightarrow> core z = core y \<Longrightarrow> evolves x z"
  by (simp add: evolves_def core_def)

lemma apply_all_append:
  "apply_all d (rs @ qs) = (case apply_all d rs of Inl e \<Rightarrow> Inl e | Inr d' \<Rightarrow> apply_all d' qs)"
  by (induction rs arbitrary: d) (auto split: prod.split sum.split)

lemma evolves_trans:
  assumes "evolves x y" and "evolves y z"
  shows "evolves x z"
proof -
  from assms obtain rs qs where
    "ss_log (fst y) = ss_log (fst x)" "b_payloads (snd y) = b_payloads (snd x) @ map marshal_record rs"
    "apply_all (ss_state (fst x)) rs = Inr (ss_state (fst y))"
    "ss_log (fst z) = ss_log (fst y)" "b_payloads (snd z) = b_payloads (snd y) @ map marshal_record qs"
    "apply_all (ss_state (fst y)) qs = Inr (ss_state (fst z))"
    by (auto simp: evolves_def)
  then show ?thesis unfolding evolves_def
    by (intro exI [of _ "rs @ qs"]) (simp add: apply_all_append)
qed

lemma apply_record_Inl: "apply_record d r = (d', Inl e) \<Longrightarrow> d' = d"
  by (auto simp: apply_record_def applyOp_def Let_def
      split: rec_kind.splits option.splits if_splits sum.splits prod.splits)

lemma newBatch_payloads: "b_payloads newBatch = []"
  by (simp add: newBatch_def)

lemma commit_evolves:
  "commit s b r = (x, Inr changed) \<Longrightarrow> evolves (s, b) x"
  "commit s b r = (x, Inl e) \<Longrightarrow> x = (s, b)"
proof -
  show "commit s b r = (x, Inr changed) \<Longrightarrow> evolves (s, b) x"
    by (auto simp: commit_def evolves_def split: prod.splits sum.splits intro!: exI [of _ "[r]"])
  show "commit s b r = (x, Inl e) \<Longrightarrow> x = (s, b)"
    by (auto simp: commit_def split: prod.splits sum.splits dest: apply_record_Inl)
qed

lemma evolves_refl: "evolves x x"
  by (simp add: evolves_core)

lemma evolves_reject: "evolves (s, b) (reject s b h)"
  by (simp add: evolves_core)

lemma handleOp_evolves: "evolves (s, b) (handleOp s b h m)"
proof -
  have "evolves (s, b) (case commit s b r of ((s, b), Inl e) \<Rightarrow> reject s b h
      | ((s, b), Inr changed) \<Rightarrow> afterOp s b origin p id' a changed)" for r origin p id' a
  proof -
    obtain s' b' res where c: "commit s b r = ((s', b'), res)" by (cases "commit s b r") auto
    with commit_evolves [of s b r] show ?thesis
      by (cases res) (auto intro: evolves_core evolves_core_right)
  qed
  then show ?thesis
    by (auto simp: handleOp_def Let_def evolves_refl evolves_reject split: option.split sum.split)
qed

lemma handleResolve_evolves: "evolves (s, b) (handleResolve s b h m)"
proof (cases "d_suggestions (ss_state s) (m_sid m)")
  case None
  then show ?thesis by (simp add: handleResolve_def Let_def evolves_core)
next
  case (Some sg)
  have resolve: "evolves (s, b) (case commit s b r of ((s, b), Inl e) \<Rightarrow> (s, b)
      | ((s, b), Inr changed) \<Rightarrow> (s, broadcast_changed s b changed))" for r
  proof -
    obtain s' b' res where c: "commit s b r = ((s', b'), res)" by (cases "commit s b r") auto
    with commit_evolves [of s b r] show ?thesis
      by (cases res) (auto simp: core_def intro: evolves_core evolves_core_right)
  qed
  have accept: "evolves (s, b) (case commit s b r of ((s, b), Inl e) \<Rightarrow> (s, b)
      | ((s, b), Inr changed) \<Rightarrow> afterOp s b None p [] a changed)" for r p a
  proof -
    obtain s' b' res where c: "commit s b r = ((s', b'), res)" by (cases "commit s b r") auto
    with commit_evolves [of s b r] show ?thesis
      by (cases res) (auto intro: evolves_core evolves_core_right)
  qed
  show ?thesis
    using Some resolve accept
    by (cases "m_action m") (auto simp: handleResolve_def Let_def core_def intro: evolves_core)
qed

lemma handleTitle_evolves: "evolves (s, b) (handleTitle s b h m)"
proof -
  let ?r = "meta_rec (ss_now s) (cleanText (m_title m) 120)"
  obtain s' b' res where c: "commit s b ?r = ((s', b'), res)" by (cases "commit s b ?r") auto
  with commit_evolves [of s b ?r] show ?thesis
    by (cases res) (auto simp: handleTitle_def Let_def core_def intro: evolves_core evolves_core_right)
qed

lemma handle_evolves: "evolves (s, b) (handle s b h m)"
proof -
  note steps = evolves_core [OF handleHello_core] evolves_core [OF handleCursor_core] evolves_core [OF reject_core]
    handleOp_evolves handleResolve_evolves handleTitle_evolves
  have "evolves (s, b) (s, b)" "evolves (s, b) (s, send b h OutPong)"
    by (rule evolves_core, simp add: core_def)+
  then show ?thesis by (cases "m_T m") (simp_all add: steps handle_def Let_def)
qed

text \<open>An event that only evolves the session: every event the server raises is one.\<close>

definition proper_event :: "'l event \<Rightarrow> bool" where
  "proper_event ev \<longleftrightarrow> (\<forall>x. evolves x (ev x))"

lemma proper_events: "proper_event (message_event h m)" "proper_event (leave_event h)" "proper_event stop_event"
proof -
  show "proper_event (message_event h m)"
    by (auto simp: proper_event_def message_event_def handle_evolves)
  show "proper_event (leave_event h)"
    by (auto simp: proper_event_def leave_event_def intro: evolves_core)
  show "proper_event stop_event"
    by (auto simp: proper_event_def stop_event_def evolves_def fail_def intro!: exI [of _ "[]"])
qed

lemma fold_evolves: "\<forall>ev \<in> set evs. proper_event ev \<Longrightarrow> evolves x (fold (\<lambda>event. event) evs x)"
proof (induction evs arbitrary: x)
  case Nil
  then show ?case by (simp add: evolves_core)
next
  case (Cons ev evs)
  then have "evolves x (ev x)" "evolves (ev x) (fold (\<lambda>event. event) evs (ev x))"
    by (simp_all add: proper_event_def del: split_paired_All)
  from evolves_trans [OF this] show ?case by simp
qed

subsection \<open>Durability\<close>

text \<open>The log holds exactly the records that made the state.\<close>

definition log_matches :: "(('l \<Rightarrow> payload list \<Rightarrow> bool)) \<Rightarrow> 'l session \<Rightarrow> bool" where
  "log_matches holds s \<longleftrightarrow> (\<exists>rs. holds (ss_log s) (map marshal_record rs) \<and>
     apply_all (newDocState (d_id (ss_state s))) rs = Inr (ss_state s))"

lemma deliver_fields [simp]:
  "ss_state (foldl deliver s ms) = ss_state s" "ss_log (foldl deliver s ms) = ss_log s"
  "ss_dead (foldl deliver s ms) = ss_dead s"
  by (induction ms arbitrary: s) (auto simp: deliver_def split: prod.split)

lemma publish_fields [simp]:
  "ss_state (publish s) = ss_state s" "ss_log (publish s) = ss_log s" "ss_dead (publish s) = ss_dead s"
  "ss_store (publish s) = ss_store s" "ss_conns (publish s) = ss_conns s"
  by (simp_all add: publish_def Let_def)

lemma apply_record_id: "d_id (fst (apply_record d r)) = d_id d"
proof -
  have ai: "d_id (snd (authorIndex d a)) = d_id d" for a
    by (auto simp: authorIndex_def split: option.split)
  have "commitOp d r p a acc t = Inr (d', ch) \<Longrightarrow> d_id d' = d_id d" for p a acc t d' ch
    using ai [of a] by (auto simp: commitOp_def Let_def rbind_eq_Inr split: prod.splits)
  then have "d_id (fst (applyOp d r)) = d_id d"
    by (auto simp: applyOp_def Let_def split: option.split sum.split prod.split)
  then show ?thesis
    by (auto simp: apply_record_def split: rec_kind.split option.split)
qed

lemma apply_all_id: "apply_all d rs = Inr d' \<Longrightarrow> d_id d' = d_id d"
proof (induction rs arbitrary: d)
  case (Cons r rs)
  then show ?case using apply_record_id [of d r] by (auto split: prod.splits sum.splits)
qed simp

text \<open>A log for a session's records, all of which it can hold.\<close>

locale session_log = log_device ok append_to found holds
  for ok :: "payload \<Rightarrow> bool"
    and append_to :: "'l \<Rightarrow> payload list \<Rightarrow> 'l \<times> (log_error, unit) result"
    and found :: "'l \<Rightarrow> payload list option"
    and holds :: "'l \<Rightarrow> payload list \<Rightarrow> bool" +
  assumes holds_any: "ok w"
begin

text \<open>
  One batch on any log: the session stays in step with its log, or it dies and the log holds what it held
  before and a prefix of the batch.
\<close>

lemma run_batch_durable:
  assumes evs: "\<forall>ev \<in> set evs. proper_event ev"
    and log: "holds (ss_log s) (map marshal_record rs)"
    and st: "apply_all (newDocState (d_id (ss_state s))) rs = Inr (ss_state s)"
  shows "\<exists>new k. found (ss_log (run_batch append_to evs s)) = Some (map marshal_record (rs @ take k new)) \<and>
    (\<not> ss_dead (run_batch append_to evs s) \<longrightarrow> take k new = new \<and>
       apply_all (newDocState (d_id (ss_state s))) (rs @ new) = Inr (ss_state (run_batch append_to evs s)))"
proof (cases "ss_dead s")
  case True
  then show ?thesis using found_holds [OF log] by (intro exI [of _ "[]"]) (simp add: run_batch_def)
next
  case False
  obtain s1 b1 where fold: "fold (\<lambda>event. event) evs (s, newBatch) = (s1, b1)"
    by (cases "fold (\<lambda>event. event) evs (s, newBatch)")
  from fold_evolves [OF evs, of "(s, newBatch)"] obtain new where new:
    "ss_log s1 = ss_log s" "b_payloads b1 = map marshal_record new" "apply_all (ss_state s) new = Inr (ss_state s1)"
    by (auto simp: fold evolves_def newBatch_payloads)
  have all: "apply_all (newDocState (d_id (ss_state s))) (rs @ new) = Inr (ss_state s1)"
    by (simp add: apply_all_append st new(3))
  show ?thesis
  proof (cases "b_payloads b1 = []")
    case True
    then have "new = []" using new(2) by simp
    then show ?thesis
      using found_holds [OF log] all False fold True new(1)
      by (intro exI [of _ "[]"]) (simp add: run_batch_def)
  next
    case ne: False
    obtain l res where ap: "append_to (ss_log s1) (b_payloads b1) = (l, res)" by (cases "append_to (ss_log s1) (b_payloads b1)")
    from append_keeps [OF log _ ap [unfolded new(1)]] holds_any obtain k where
      k: "found l = Some (map marshal_record rs @ take k (b_payloads b1))" "res = Inr () \<longrightarrow> take k (b_payloads b1) = b_payloads b1"
      by blast
    have run: "ss_log (run_batch append_to evs s) = l"
      "\<not> ss_dead (run_batch append_to evs s) \<Longrightarrow> res = Inr () \<and> ss_state (run_batch append_to evs s) = ss_state s1"
      using False fold ap ne by (auto simp: run_batch_def fail_def split: sum.splits)
    have "take k new = new" if "res = Inr ()"
    proof -
      have "length (take k (b_payloads b1)) = length (b_payloads b1)" using k(2) that by simp
      then show ?thesis by (simp add: new(2))
    qed
    with k(1) run all show ?thesis
      by (intro exI [of _ new] exI [of _ k]) (auto simp: new(2) take_map)
  qed
qed

end

interpretation mem_session: session_log "\<lambda>_. True" memory_Append "\<lambda>l. Some (ml_records l)" "\<lambda>l ps. ml_records l = ps"
  by unfold_locales simp

end
