(* ===== verification/LogLimits.thy ===== *)
theory LogLimits
  imports Session
begin

text \<open>
  A limit of \<^verbatim>\<open>internal/collab\<close> that applies to operations when they are read but not when they are
  committed: \<open>UnmarshalJSON\<close> refuses more than \<open>maxOpComponents\<close> components, while \<open>catchUp\<close> can
  make an accepted operation longer. The theorem gives a document whose log can then not be read back.
\<close>

fun comp_of :: "edit \<Rightarrow> comp" where
  "comp_of (Keep n) = \<lparr>n_of = int n, ins_of = []\<rparr>"
| "comp_of (Add t) = \<lparr>n_of = 0, ins_of = t\<rparr>"
| "comp_of (Drop n) = \<lparr>n_of = - int n, ins_of = []\<rparr>"

lemma comp_of_wf: "0 < step_size e \<Longrightarrow> comp_wf (comp_of e) \<and> edit_of (comp_of e) = e"
  by (cases e) (auto simp: comp_wf_def edit_of_def comp_kind_defs)

lemma comp_of_follow: "fits a b \<Longrightarrow> 0 < step_size a \<Longrightarrow> 0 < step_size b \<Longrightarrow> may_follow (comp_of a) (comp_of b)"
  by (cases a; cases b) (auto simp: may_follow_def comp_kind_defs)

lemma normal_comp_of: "canonical es \<Longrightarrow> proper es \<Longrightarrow> normal (map comp_of es)"
  by (induction es rule: canonical.induct) (auto simp: comp_of_follow)

lemma build_canonical:
  assumes "canonical es" and "proper es"
  shows "comps (build NewOp es) = map comp_of es" and "edits (build NewOp es) = es"
proof -
  have p: "\<forall>e \<in> set es. 0 < step_size e" using assms(2) by (simp add: proper_def)
  then have "list_all comp_wf (map comp_of es)" "map edit_of (map comp_of es) = es"
    using comp_of_wf by (auto simp: list_all_iff intro: map_idI)
  with build_edits_comps [of "map comp_of es" NewOp] normal_comp_of [OF assms]
  show "comps (build NewOp es) = map comp_of es" and "edits (build NewOp es) = es"
    by (simp_all add: NewOp_def edits_def)
qed

text \<open>\<open>n\<close> times: delete two units, keep one.\<close>

fun comb :: "nat \<Rightarrow> edit list" where
  "comb 0 = []"
| "comb (Suc n) = Drop 2 # Keep 1 # comb n"

lemma comb_facts:
  "length (comb n) = 2 * n" "base (comb n) = 3 * n" "target (comb n) = n" "proper (comb n)"
  "\<forall>e \<in> set (comb n). \<not> is_Add e \<and> step_size e \<le> 2"
  by (induction n) auto

lemma hd_comb: "comb n \<noteq> [] \<Longrightarrow> hd (comb n) = Drop 2"
  by (cases n) auto

lemma canonical_comb: "canonical (comb n)"
  by (induction n) (auto simp: canonical_Cons hd_comb)

definition keeps :: "nat \<Rightarrow> edit list" where
  "keeps n = (if n = 0 then [] else [Keep n])"

lemma xform_comb: "\<exists>bs. xform (comb n) (keeps (3 * n)) = Some (comb n, bs)"
proof (induction n)
  case 0
  then show ?case by (simp add: keeps_def xform_eqs)
next
  case (Suc n)
  then obtain bs where IH: "xform (comb n) (keeps (3 * n)) = Some (comb n, bs)" by blast
  have c1: "consume 2 (Drop 2 # Keep 1 # comb n) = Keep 1 # comb n" "consume 2 [Keep (3 * n + 3)] = [Keep (3 * n + 1)]"
    "consume 1 (Keep 1 # comb n) = comb n" "consume 1 [Keep (3 * n + 1)] = keeps (3 * n)"
    by (simp_all add: consume.simps keeps_def)
  have "xform (Keep 1 # comb n) [Keep (3 * n + 1)] = Some (Keep 1 # comb n, Keep 1 # bs)"
    using IH c1 by (subst xform_eqs(4) [where n = 1]) simp_all
  then have "xform (Drop 2 # Keep 1 # comb n) [Keep (3 * n + 3)] = Some (comb (Suc n), Keep 1 # bs)"
    using c1 by (subst xform_eqs(4) [where n = 2]) simp_all
  then show ?case by (simp add: keeps_def add.commute)
qed

text \<open>One insert inside the first deletion splits it.\<close>

lemma xform_comb_split:
  "\<exists>bs. xform (comb (Suc n)) [Keep 1, Add t, Keep (3 * n + 2)] =
     Some (Drop 1 # Keep (length t) # Drop 1 # Keep 1 # comb n, bs)"
proof -
  obtain bs where IH: "xform (comb n) (keeps (3 * n)) = Some (comb n, bs)" using xform_comb by blast
  have c: "consume 1 (Drop 2 # Keep 1 # comb n) = Drop 1 # Keep 1 # comb n"
    "consume 1 [Keep 1, Add t, Keep (3 * n + 2)] = [Add t, Keep (3 * n + 2)]"
    "consume 1 (Drop 1 # Keep 1 # comb n) = Keep 1 # comb n" "consume 1 [Keep (3 * n + 2)] = [Keep (3 * n + 1)]"
    "consume 1 (Keep 1 # comb n) = comb n" "consume 1 [Keep (3 * n + 1)] = keeps (3 * n)"
    by (simp_all add: consume.simps keeps_def)
  have "xform (Keep 1 # comb n) [Keep (3 * n + 1)] = Some (Keep 1 # comb n, Keep 1 # bs)"
    using IH c by (subst xform_eqs(4) [where n = 1]) simp_all
  then have "xform (Drop 1 # Keep 1 # comb n) [Keep (3 * n + 2)] = Some (Drop 1 # Keep 1 # comb n, Keep 1 # bs)"
    using c by (subst xform_eqs(4) [where n = 1]) simp_all
  then have "xform (Drop 1 # Keep 1 # comb n) [Add t, Keep (3 * n + 2)] =
      Some (Keep (length t) # Drop 1 # Keep 1 # comb n, Add t # Keep 1 # bs)"
    by (subst xform_eqs(2)) simp_all
  then show ?thesis
    using c by (simp add: xform_eqs(4) [where n = 1])
qed

lemma checkText_plain:
  assumes "\<forall>u \<in> set doc. \<not> isHighSurrogate u" and "\<forall>c \<in> set (comps p). carriage_return \<notin> set (ins_of c)"
  shows "checkText p doc = None"
proof -
  have i: "\<not> insidePair doc k" for k
    using assms(1) by (auto simp: insidePair_def)
  have "\<forall>c \<in> set cs. carriage_return \<notin> set (ins_of c) \<Longrightarrow> checkText_loop doc cs k = None" for cs k
    by (induction cs arbitrary: k) (simp_all add: i)
  with assms(2) show ?thesis by (simp add: checkText_def)
qed

subsection \<open>A log that cannot be read back\<close>

definition half :: nat where "half = 10000"

definition letters :: "unit16 list" where "letters = replicate (3 * half) 97"

definition writer :: author where
  "writer = \<lparr>a_id = [119], a_name = [119], a_kind = kind_human, a_model = []\<rparr>"

definition fill_op :: op where "fill_op = build NewOp [Add letters]"

definition split_op :: op where "split_op = build NewOp [Keep 1, Add [98], Keep (3 * half - 1)]"

definition fill_rec :: "op log_record" where
  "fill_rec = op_rec 1 1 fill_op writer [97] [] [] None"

definition split_rec :: "op log_record" where
  "split_rec = op_rec 2 2 split_op writer [98] [] [] None"

definition incoming :: op where "incoming = build NewOp (comb half)"

definition outgrown :: op where
  "outgrown = build NewOp (Drop 1 # Keep 1 # Drop 1 # Keep 1 # comb (half - 1))"

definition doc1 :: doc_state where "doc1 = after_op (newDocState []) fill_rec fill_op writer"

definition doc2 :: doc_state where
  "doc2 = after_op doc1 split_rec split_op writer"

lemma half_pos: "half = Suc (half - 1)" "0 < half"
  by (simp_all add: half_def)

lemma letters_facts: "letters \<noteq> []" "length letters = 3 * half" "paired letters" "set letters = {97}"
proof -
  have "paired (replicate n 97)" for n
    by (induction n) (auto simp: paired_plain is_surrogate_def)
  then show "paired letters" by (simp add: letters_def)
qed (simp_all add: letters_def half_def)

lemma step_edits:
  "edits fill_op = [Add letters]"
  "edits split_op = [Keep 1, Add [98], Keep (3 * half - 1)]"
  "edits incoming = comb half" "comps incoming = map comp_of (comb half)"
  "comps outgrown = map comp_of (Drop 1 # Keep 1 # Drop 1 # Keep 1 # comb (half - 1))"
proof -
  show "edits fill_op = [Add letters]"
    unfolding fill_op_def using letters_facts(1) by (intro build_canonical(2)) auto
  show "edits split_op = [Keep 1, Add [98], Keep (3 * half - 1)]"
    unfolding split_op_def by (intro build_canonical(2)) (auto simp: half_def)
  show "edits incoming = comb half" "comps incoming = map comp_of (comb half)"
    unfolding incoming_def using build_canonical [OF canonical_comb comb_facts(4)] by blast+
  show "comps outgrown = map comp_of (Drop 1 # Keep 1 # Drop 1 # Keep 1 # comb (half - 1))"
    unfolding outgrown_def
    by (intro build_canonical(1)) (auto simp: canonical_Cons hd_comb comb_facts canonical_comb)
qed

lemma split_facts: "op_wf split_op" "baseLen split_op = int (3 * half)" "length (comps split_op) \<le> 3"
  using build_NewOp [of "[Keep 1, Add [98], Keep (3 * half - 1)]"]
    length_build [of NewOp "[Keep 1, Add [98], Keep (3 * half - 1)]"]
  by (auto simp: split_op_def half_def NewOp_def)

lemma newDoc: "authorIndex (newDocState []) writer = (0, (newDocState [])\<lparr>d_authors := [writer], d_lookup := [writer \<mapsto> 0]\<rparr>)"
  by (simp add: authorIndex_def newDocState_def)

lemma doc1_facts:
  "apply_record (newDocState []) fill_rec = (doc1, Inr [])" "doc_inv doc1" "d_text doc1 = letters" "d_rev doc1 = 1"
  "d_history doc1 = [\<lparr>c_op = fill_op, c_author = 0, c_client = [97], c_id = []\<rparr>]"
  "d_lookup doc1 = [writer \<mapsto> 0]" "d_order doc1 = []" "d_suggestions doc1 = Map.empty" "d_authors doc1 = [writer]"
proof -
  have r: "r_kind fill_rec = RecOp" "r_op fill_rec = Some fill_op" "r_author fill_rec = Some writer"
    "r_rev fill_rec = d_rev (newDocState []) + 1" "r_accepts fill_rec = []" "r_client fill_rec = [97]" "r_opID fill_rec = []"
    by (simp_all add: fill_rec_def op_rec_def newDocState_def)
  have w: "op_wf fill_op" unfolding fill_op_def by (rule build_NewOp)
  have len: "length (d_text (newDocState [])) = base (edits fill_op)"
    by (simp only: step_edits) (simp add: newDocState_def)
  show "apply_record (newDocState []) fill_rec = (doc1, Inr [])"
    using applyOp_done [OF doc_inv_new w len r(2,3,4)] r(5)
    by (simp add: apply_record_op [OF r(1)] doc1_def changed_by_def) (simp add: newDocState_def)
  show "doc_inv doc1" unfolding doc1_def by (rule after_op_inv [OF doc_inv_new w len r(4)])
  show "d_text doc1 = letters" "d_rev doc1 = 1"
    "d_history doc1 = [\<lparr>c_op = fill_op, c_author = 0, c_client = [97], c_id = []\<rparr>]"
    "d_lookup doc1 = [writer \<mapsto> 0]" "d_order doc1 = []" "d_suggestions doc1 = Map.empty" "d_authors doc1 = [writer]"
    using r by (simp_all add: doc1_def after_op_def newDoc step_edits mark_accepted_def)
      (simp_all add: newDocState_def)
qed

lemma doc2_facts:
  "apply_record doc1 split_rec = (doc2, Inr [])" "doc_inv doc2" "d_rev doc2 = 2"
  "d_text doc2 = 97 # 98 # drop 1 letters"
  "d_history doc2 = d_history doc1 @
     [\<lparr>c_op = split_op, c_author = 0, c_client = [98], c_id = []\<rparr>]"
  "d_order doc2 = []"
proof -
  let ?p = split_op
  have r: "r_kind split_rec = RecOp" "r_op split_rec = Some ?p" "r_author split_rec = Some writer"
    "r_rev split_rec = d_rev doc1 + 1" "r_accepts split_rec = []" "r_client split_rec = [98]" "r_opID split_rec = []"
    by (simp_all add: split_rec_def op_rec_def doc1_facts(4))
  have w: "op_wf ?p" by (rule split_facts)
  have len: "length (d_text doc1) = base (edits ?p)"
    by (simp only: step_edits doc1_facts letters_facts) (simp add: half_def)
  have ai: "authorIndex doc1 writer = (0, doc1)" by (simp add: authorIndex_def doc1_facts)
  show "apply_record doc1 split_rec = (doc2, Inr [])"
    using applyOp_done [OF doc1_facts(2) w len r(2,3,4)] r(5)
    by (simp add: apply_record_op [OF r(1)] doc2_def changed_by_def doc1_facts(7))
  show "doc_inv doc2" unfolding doc2_def by (rule after_op_inv [OF doc1_facts(2) w len r(4)])
  show "d_rev doc2 = 2" "d_order doc2 = []"
    using r by (simp_all add: doc2_def after_op_def ai doc1_facts)
  have "take 1 letters = [97]" "take (3 * half - 1) (drop 1 letters) = drop 1 letters"
    by (simp_all add: letters_def half_def)
  then show "d_text doc2 = 97 # 98 # drop 1 letters"
    by (simp add: doc2_def after_op_def ai doc1_facts step_edits)
  show "d_history doc2 = d_history doc1 @ [\<lparr>c_op = ?p, c_author = 0, c_client = [98], c_id = []\<rparr>]"
    using r by (simp add: doc2_def after_op_def ai)
qed

lemma incoming_facts: "op_wf incoming" "baseLen incoming = int (3 * half)" "sendable incoming" "length (comps incoming) = 2 * half"
proof -
  show w: "op_wf incoming" "baseLen incoming = int (3 * half)"
    unfolding incoming_def using build_NewOp [of "comb half"] comb_facts(2) by simp_all
  have c: "\<bar>n_of (comp_of e)\<bar> \<le> maxComponentLength \<and> paired (ins_of (comp_of e))" if "e \<in> set (comb half)" for e
    using comb_facts(5) [of half] that by (cases e) (auto simp: maxComponentLength_def)
  show l: "length (comps incoming) = 2 * half" by (simp add: step_edits comb_facts)
  show "sendable incoming"
    using w(1) l c normal_comp_of [OF canonical_comb comb_facts(4)]
    by (auto simp: sendable_def step_edits maxOpComponents_def half_def)
qed

lemma catchUp_incoming: "catchUp doc2 incoming 1 = Inr outgrown"
proof -
  let ?b = split_op
  have e: "3 * half - 1 = 3 * (half - 1) + 2" by (simp add: half_def)
  obtain bs where "xform (comb half) [Keep 1, Add [98], Keep (3 * half - 1)] =
      Some (Drop 1 # Keep 1 # Drop 1 # Keep 1 # comb (half - 1), bs)"
    using xform_comb_split [of "half - 1" "[98]"] half_pos(1) e by auto
  then have "Transform incoming ?b = Inr (outgrown, build NewOp bs)"
    using incoming_facts(1,2) split_facts(1,2) by (simp add: Transform_refines step_edits outgrown_def)
  moreover have "length (comps incoming) + length (comps ?b) \<le> maxTransformWork"
    using split_facts(3) incoming_facts(4) by (simp add: half_def maxTransformWork_def)
  moreover have "drop (nat 1) (d_history doc2) = [\<lparr>c_op = ?b, c_author = 0, c_client = [98], c_id = []\<rparr>]"
    by (simp add: doc2_facts(5) doc1_facts(5))
  moreover have "lengthAt doc2 1 = int (3 * half)"
    by (simp add: lengthAt_def doc2_facts doc1_facts split_facts)
  ultimately show ?thesis
    using incoming_facts(2) by (simp add: catchUp_def doc2_facts(3) Let_def)
qed

lemma outgrown_facts:
  "op_wf outgrown" "length (comps outgrown) = 2 * half + 2" "baseLen outgrown = int (3 * half + 1)"
  "targetLen outgrown \<le> maxDocUnits" "checkText outgrown (d_text doc2) = None"
proof -
  note b = build_NewOp [of "Drop 1 # Keep 1 # Drop 1 # Keep 1 # comb (half - 1)"]
  show "op_wf outgrown" "baseLen outgrown = int (3 * half + 1)" "targetLen outgrown \<le> maxDocUnits"
    unfolding outgrown_def b using comb_facts(2,3) [of "half - 1"] b(1) by (simp_all add: half_def maxDocUnits_def)
  show "length (comps outgrown) = 2 * half + 2"
    using comb_facts(1) [of "half - 1"] by (simp add: step_edits half_def)
  have "ins_of (comp_of e) = []" if "e \<in> set (comb (half - 1))" for e
    using comb_facts(5) [of "half - 1"] that by (cases e) auto
  then show "checkText outgrown (d_text doc2) = None"
    using letters_facts(4) set_drop_subset [of 1 letters]
    by (intro checkText_plain) (auto simp: step_edits doc2_facts(4) isHighSurrogate_def)
qed

lemma sendable_steps: "record_sendable fill_rec" "record_sendable split_rec"
proof -
  have fill: "comps fill_op = [\<lparr>n_of = 0, ins_of = letters\<rparr>]"
    using letters_facts(1) by (simp add: fill_op_def NewOp_def Insert_def Let_def)
  have split: "comps split_op = map comp_of [Keep 1, Add [98], Keep (3 * half - 1)]"
    unfolding split_op_def by (intro build_canonical(1)) (auto simp: half_def)
  have "op_wf fill_op" by (simp add: fill_op_def build_NewOp del: build_simps)
  with fill letters_facts split split_facts(1) show "record_sendable fill_rec" "record_sendable split_rec"
    by (auto simp: record_sendable_def fill_rec_def split_rec_def op_rec_def sendable_def maxOpComponents_def
        maxComponentLength_def may_follow_def comp_kind_defs is_surrogate_def half_def)
qed

definition fatal_rec :: "op log_record" where
  "fatal_rec = op_rec 3 3 outgrown writer [99] [49] [] None"

subsection \<open>Property\<close>

text \<open>
  C37: an edit can be accepted, committed and acknowledged although its log cannot be read back. Here an
  operation of 20000 components arrives that the decoder accepts; caught up with one insert it has 20002; it
  passes every check of \<open>handleOp\<close> and applies; and the log that now ends with it is refused by \<open>replay\<close>,
  while without it the same log is read back to the document as it was.
\<close>

theorem committed_edit_breaks_log:
  "UnmarshalJSON (MarshalJSON incoming) = Inr incoming \<and>
   replay [] (map marshal_record [fill_rec, split_rec]) = Inr doc2 \<and>
   catchUp doc2 incoming 1 = Inr outgrown \<and> targetLen outgrown \<le> maxDocUnits \<and>
   checkText outgrown (d_text doc2) = None \<and>
   (\<exists>d changed. apply_record doc2 fatal_rec = (d, Inr changed) \<and> d_rev d = 3) \<and>
   replay [] (map marshal_record [fill_rec, split_rec, fatal_rec]) = Inl (ErrRecord 2)"
proof (intro conjI)
  show "UnmarshalJSON (MarshalJSON incoming) = Inr incoming" using incoming_facts(3) by (rule wire_roundtrip)
  show "replay [] (map marshal_record [fill_rec, split_rec]) = Inr doc2"
    using sendable_steps by (simp add: replay_def unmarshal_marshal doc1_facts(1) doc2_facts(1))
  show "catchUp doc2 incoming 1 = Inr outgrown" by (rule catchUp_incoming)
  show "targetLen outgrown \<le> maxDocUnits" "checkText outgrown (d_text doc2) = None" using outgrown_facts by blast+
  have r: "r_kind fatal_rec = RecOp" "r_op fatal_rec = Some outgrown" "r_author fatal_rec = Some writer"
    "r_rev fatal_rec = d_rev doc2 + 1" "r_accepts fatal_rec = []"
    by (simp_all add: fatal_rec_def op_rec_def doc2_facts(3))
  have "length (d_text doc2) = base (edits outgrown)"
    using outgrown_facts(3) op_wf_lengths [OF outgrown_facts(1)] letters_facts(2)
    by (simp add: doc2_facts(4) half_def)
  from applyOp_done [OF doc2_facts(2) outgrown_facts(1) this r(2-4)] r(5)
  show "\<exists>d changed. apply_record doc2 fatal_rec = (d, Inr changed) \<and> d_rev d = 3"
    by (simp add: apply_record_op [OF r(1)] after_op_def r(4) doc2_facts(3) split: prod.split)
  have "unmarshal_record (marshal_record fatal_rec) = None"
    using outgrown_facts(2)
    by (simp add: unmarshal_record_def marshal_record_def r(2) MarshalJSON_def UnmarshalJSON_def
        maxOpComponents_def half_def)
  then show "replay [] (map marshal_record [fill_rec, split_rec, fatal_rec]) = Inl (ErrRecord 2)"
    using sendable_steps by (simp add: replay_def unmarshal_marshal doc1_facts(1) doc2_facts(1))
qed

end
