(* ===== verification/SessionProps.thy ===== *)
theory SessionProps
  imports Session
begin

text \<open>
  What the session of \<^verbatim>\<open>internal/collab/session.go\<close> guarantees: its invariant, exactly-once commits of
  resent operations, catching up a returning client, durability before delivery, and the
  life of an accepted suggestion.
\<close>

subsection \<open>The invariant of a session\<close>

definition op_keys :: "doc_state \<Rightarrow> str list" where
  "op_keys d = map (\<lambda>c. opKey (c_client c) (c_id c)) (filter (\<lambda>c. c_id c \<noteq> []) (d_history d))"

definition caret_in :: "int \<Rightarrow> conn \<Rightarrow> bool" where
  "caret_in len c \<longleftrightarrow> (cn_hasCur c \<longrightarrow> 0 \<le> cn_pos c \<and> cn_pos c \<le> len \<and> 0 \<le> cn_anchor c \<and> cn_anchor c \<le> len)"

definition run_in :: "int \<Rightarrow> agentRun \<Rightarrow> bool" where
  "run_in len r \<longleftrightarrow> 0 \<le> ar_start r \<and> ar_start r \<le> ar_end r \<and> ar_end r \<le> len"

definition view_ok :: "int \<Rightarrow> 'l session \<Rightarrow> bool" where
  "view_ok len s \<longleftrightarrow> (\<forall>h \<in> set (ss_conns s). caret_in len (ss_store s h) \<and> cn_joined (ss_store s h)) \<and>
     (\<forall>h. \<not> cn_joined (ss_store s h) \<longrightarrow> \<not> cn_hasCur (ss_store s h)) \<and>
     distinct (ss_conns s) \<and> (\<forall>r \<in> set (ss_runs s). run_in len r)"

definition session_inv :: "'l session \<Rightarrow> bool" where
  "session_inv s \<longleftrightarrow> doc_inv (ss_state s) \<and> distinct (op_keys (ss_state s)) \<and>
     int (length (d_text (ss_state s))) \<le> maxDocUnits \<and>
     view_ok (int (length (d_text (ss_state s)))) s"

text \<open>A message as it comes out of the decoder.\<close>

definition msg_ok :: "client_msg \<Rightarrow> bool" where
  "msg_ok m \<longleftrightarrow> (\<forall>p. m_op m = Some p \<longrightarrow> op_wf p)"

lemma view_leave: "view_ok len s \<Longrightarrow> view_ok len (fst (leave s b h))"
  by (auto simp: view_ok_def leave_def Let_def)

lemma view_dropped: "view_ok len s \<Longrightarrow> view_ok len (set_conn s h ((ss_store s h)\<lparr>cn_dropped := True\<rparr>))"
  by (auto simp: view_ok_def caret_in_def)

lemma view_reject:
  assumes "view_ok len s"
  shows "view_ok len (fst (reject s b h))"
proof -
  let ?s = "set_conn s h ((ss_store s h)\<lparr>cn_dropped := True\<rparr>)"
  obtain s' b' where l: "leave ?s b h = (s', b')" by (cases "leave ?s b h")
  from view_leave [OF view_dropped [OF assms], of h b h] show ?thesis
    by (simp add: reject_def l)
qed

lemma view_hello:
  assumes "view_ok len s"
  shows "view_ok len (fst (handleHello s b h m))"
proof -
  have new: "h \<notin> set (ss_conns s)" "\<not> cn_hasCur (ss_store s h)" if "\<not> cn_joined (ss_store s h)"
    using assms that by (auto simp: view_ok_def)
  show ?thesis
    using assms view_reject [OF assms] new
    by (auto simp: handleHello_def Let_def split: option.split) (auto simp: view_ok_def caret_in_def)
qed

lemma MapPos_in:
  assumes "op_wf p" and "0 \<le> i" and "i \<le> baseLen p"
  shows "0 \<le> MapPos p i a" "MapPos p i a \<le> targetLen p"
proof -
  have "MapPos p i a = int (shift a (edits p) (nat i))" using MapPos_shift [OF assms(1), of "nat i" a] assms(2) by simp
  with shift_le_target [of "nat i" "edits p" a] assms op_wf_lengths [OF assms(1)]
  show "0 \<le> MapPos p i a" "MapPos p i a \<le> targetLen p" by auto
qed

lemma run_in_moved:
  assumes "op_wf p" and "run_in (baseLen p) r" and "MapRange p (ar_start r) (ar_end r) = (s, e, t)"
  shows "0 \<le> s \<and> s \<le> e \<and> e \<le> targetLen p"
proof -
  from assms(2) op_wf_lengths [OF assms(1)] have r: "nat (ar_start r) \<le> nat (ar_end r)" "nat (ar_end r) \<le> base (edits p)"
    "MapRange p (int (nat (ar_start r))) (int (nat (ar_end r))) = (s, e, t)"
    using assms(3) by (auto simp: run_in_def)
  from MapRange_in_target [OF assms(1) r] show ?thesis .
qed

lemma EditPos_in:
  assumes "op_wf p" and "EditPos p = (q, ok)"
  shows "0 \<le> q \<and> q \<le> targetLen p \<and> (\<not> ok \<longrightarrow> targetLen p = baseLen p)"
proof -
  have e: "EditPos p = (int (fst (caret (edits p) 0 (0, False))), snd (caret (edits p) 0 (0, False)))"
    using assms(1) editPos_loop_caret [of "comps p" 0 0 False] by (simp add: EditPos_def op_wf_def edits_def)
  have "(\<forall>e \<in> set es. is_Keep e) \<Longrightarrow> target es = base es" for es
  proof (induction es)
    case (Cons e es)
    then show ?case by (cases e) auto
  qed simp
  with e caret_le [of 0 0 "edits p" False] caret_True [of "edits p" 0 "(0, False)"] assms op_wf_lengths [OF assms(1)]
  show ?thesis by auto
qed

lemma moveCarets_view:
  assumes "op_wf p" and v: "view_ok (baseLen p) s"
  shows "\<forall>h \<in> set (ss_conns s). Some h \<noteq> origin \<longrightarrow> caret_in (targetLen p) (ss_store (moveCarets p origin s) h)"
    and "\<forall>h. ss_store (moveCarets p (Some h) s) h = ss_store s h"
    and "\<forall>h. cn_joined (ss_store (moveCarets p origin s) h) = cn_joined (ss_store s h) \<and>
      cn_hasCur (ss_store (moveCarets p origin s) h) = cn_hasCur (ss_store s h)"
proof -
  have "caret_in (targetLen p) (ss_store (moveCarets p origin s) h)"
    if "h \<in> set (ss_conns s)" "Some h \<noteq> origin" for h
  proof (cases "cn_hasCur (ss_store s h)")
    case True
    with v that(1) have "0 \<le> cn_pos (ss_store s h)" "cn_pos (ss_store s h) \<le> baseLen p"
      "0 \<le> cn_anchor (ss_store s h)" "cn_anchor (ss_store s h) \<le> baseLen p"
      by (auto simp: view_ok_def caret_in_def)
    with MapPos_in [OF assms(1)] that True show ?thesis by (simp add: moveCarets_def Let_def caret_in_def)
  next
    case False
    then show ?thesis by (simp add: moveCarets_def Let_def caret_in_def)
  qed
  then show "\<forall>h \<in> set (ss_conns s). Some h \<noteq> origin \<longrightarrow> caret_in (targetLen p) (ss_store (moveCarets p origin s) h)"
    by blast
qed (simp_all add: moveCarets_def Let_def)

lemma afterOp_view:
  assumes p: "op_wf p" and v: "view_ok (baseLen p) s" and h: "\<And>h. origin = Some h \<Longrightarrow> cn_joined (ss_store s h)"
  shows "view_ok (targetLen p) (fst (afterOp s b origin p id' a changed))"
proof -
  let ?s = "moveRuns p (moveCarets p origin s)"
  note mc = moveCarets_view [OF p v]
  have each: "run_in (targetLen p) (case MapRange p (ar_start r) (ar_end r) of (start, end_pos, _) \<Rightarrow>
      r\<lparr>ar_start := start, ar_end := end_pos\<rparr>)" if "r \<in> set (ss_runs s)" for r
  proof -
    obtain s' e t where m: "MapRange p (ar_start r) (ar_end r) = (s', e, t)" by (cases "MapRange p (ar_start r) (ar_end r)")
    have "run_in (baseLen p) r" using v that by (simp add: view_ok_def)
    from run_in_moved [OF p this m] show ?thesis by (simp add: m run_in_def)
  qed
  then have runs: "\<forall>r \<in> set (ss_runs ?s). run_in (targetLen p) r"
    by (simp add: moveRuns_def moveCarets_def)
  have fields: "ss_conns (moveRuns p (moveCarets p x s)) = ss_conns s"
    "ss_store (moveRuns p (moveCarets p x s)) = ss_store (moveCarets p x s)" for x
    by (simp_all add: moveRuns_def moveCarets_def)
  show ?thesis
  proof (cases origin)
    case None
    then show ?thesis
      using mc(1,3) v runs by (auto simp: afterOp_def Let_def view_ok_def fields)
  next
    case (Some h)
    obtain q ok where e: "EditPos p = (q, ok)" by (cases "EditPos p")
    from EditPos_in [OF p e] have q: "0 \<le> q" "q \<le> targetLen p" "\<not> ok \<Longrightarrow> targetLen p = baseLen p" by auto
    have j: "cn_joined (ss_store s h)" using h Some by simp
    have view: "view_ok (targetLen p) (setOrigin p h ?s)"
    proof (cases ok)
      case True
      then have so: "setOrigin p h ?s = set_conn ?s h ((ss_store ?s h)\<lparr>cn_pos := q, cn_anchor := q, cn_hasCur := True\<rparr>)"
        by (simp add: setOrigin_def e)
      show ?thesis
        unfolding so using mc(1,3) v runs q j Some by (auto simp: view_ok_def fields caret_in_def)
    next
      case False
      then have so: "setOrigin p h ?s = ?s" by (simp add: setOrigin_def e)
      have "caret_in (targetLen p) (ss_store (moveCarets p origin s) x)" if "x \<in> set (ss_conns s)" for x
        using v that mc(1) [of origin] mc(2) q(3) False Some
        by (cases "x = h") (simp_all add: view_ok_def)
      then show ?thesis
        unfolding so using mc(3) v runs by (simp add: view_ok_def fields)
    qed
    then show ?thesis by (simp add: afterOp_def Some Let_def)
  qed
qed

subsection \<open>Commits\<close>

lemma commit_state:
  "commit s b r = ((s', b'), Inr changed) \<Longrightarrow>
     \<exists>d. apply_record (ss_state s) r = (d, Inr changed) \<and> s' = s\<lparr>ss_state := d\<rparr>"
  by (auto simp: commit_def split: prod.splits sum.splits)

lemma commit_op_state:
  assumes "doc_inv (ss_state s)" and "op_wf p"
    and "commit s b (op_rec now n p a client id' accepts by') = ((s', b'), Inr changed)"
  shows "s' = s\<lparr>ss_state := after_op (ss_state s) (op_rec now n p a client id' accepts by') p a\<rparr>"
    and "doc_inv (ss_state s')" and "length (d_text (ss_state s)) = base (edits p)"
    and "d_text (ss_state s') = run (\<lambda>t. t) (edits p) (d_text (ss_state s))"
    and "op_keys (ss_state s') = op_keys (ss_state s) @ (if id' = [] then [] else [opKey client id'])"
proof -
  let ?r = "op_rec now n p a client id' accepts by'"
  from commit_state [OF assms(3)] obtain d where d: "apply_record (ss_state s) ?r = (d, Inr changed)"
    "s' = s\<lparr>ss_state := d\<rparr>" by blast
  have ok: "record_ok ?r" using assms(2) by (simp add: record_ok_def op_rec_def)
  have k: "r_kind ?r = RecOp" "r_op ?r = Some p" "r_author ?r = Some a" "r_client ?r = client" "r_opID ?r = id'"
    by (simp_all add: op_rec_def)
  from applyOp_cases [OF assms(1) ok] d(1) k have
    d': "d = after_op (ss_state s) ?r p a" "length (d_text (ss_state s)) = base (edits p)" "r_rev ?r = d_rev (ss_state s) + 1"
    by (auto simp: apply_record_op)
  then show "s' = s\<lparr>ss_state := after_op (ss_state s) ?r p a\<rparr>" "length (d_text (ss_state s)) = base (edits p)"
    using d(2) by simp_all
  show "doc_inv (ss_state s')" using after_op_inv [OF assms(1,2) d'(2,3)] d(2) d'(1) by simp
  obtain i d1 where ai: "authorIndex (ss_state s) a = (i, d1)" by (cases "authorIndex (ss_state s) a")
  have "authors_inv (ss_state s)" using assms(1) by (simp add: doc_inv_def)
  from authorIndex_inv(5) [OF this ai] obtain as lk where d1: "d1 = (ss_state s)\<lparr>d_authors := as, d_lookup := lk\<rparr>"
    by blast
  show "d_text (ss_state s') = run (\<lambda>t. t) (edits p) (d_text (ss_state s))"
    "op_keys (ss_state s') = op_keys (ss_state s) @ (if id' = [] then [] else [opKey client id'])"
    by (simp_all add: d(2) d'(1) after_op_def ai d1 op_keys_def k(4,5))
qed

lemma new_key:
  assumes "doc_inv d" and "d_opIDs d k = None"
  shows "k \<notin> set (op_keys d)"
  using assms by (auto simp: doc_inv_def ids_inv_def op_keys_def)

lemma commit_other_state:
  assumes "doc_inv (ss_state s)" and "record_ok r" and "r_kind r \<noteq> RecOp"
    and "commit s b r = ((s', b'), Inr changed)"
  shows "doc_inv (ss_state s')" and "d_text (ss_state s') = d_text (ss_state s)"
    and "op_keys (ss_state s') = op_keys (ss_state s)" and "s' = s\<lparr>ss_state := ss_state s'\<rparr>"
proof -
  from commit_state [OF assms(4)] obtain d where d: "apply_record (ss_state s) r = (d, Inr changed)"
    "s' = s\<lparr>ss_state := d\<rparr>" by blast
  from apply_record_inv [OF assms(1,2)] d show "doc_inv (ss_state s')" by simp
  show "s' = s\<lparr>ss_state := ss_state s'\<rparr>" using d(2) by simp
  show "d_text (ss_state s') = d_text (ss_state s)" "op_keys (ss_state s') = op_keys (ss_state s)"
    using d assms(3) by (auto simp: apply_record_def op_keys_def split: rec_kind.splits option.splits if_splits)
qed

lemma session_inv_view:
  assumes "session_inv s" and "ss_state s' = ss_state s" and "view_ok (int (length (d_text (ss_state s)))) s'"
  shows "session_inv s'"
  using assms by (simp add: session_inv_def)

lemma core_state: "core x = core y \<Longrightarrow> ss_state (fst x) = ss_state (fst y)"
  by (simp add: core_def)

lemma view_state_update [simp]: "view_ok len (s\<lparr>ss_state := d\<rparr>) = view_ok len s"
  by (simp add: view_ok_def)

lemma reject_inv: "session_inv s \<Longrightarrow> session_inv (fst (reject s b h))"
proof (rule session_inv_view)
  assume s: "session_inv s"
  then show "session_inv s" .
  show "ss_state (fst (reject s b h)) = ss_state s" using core_state [OF reject_core, of s b h] by simp
  show "view_ok (int (length (d_text (ss_state s)))) (fst (reject s b h))"
    using s by (intro view_reject) (simp add: session_inv_def)
qed

text \<open>Committing an operation and telling everyone.\<close>

lemma commit_afterOp_inv:
  assumes inv: "session_inv s" and p: "op_wf p" and size: "targetLen p \<le> maxDocUnits"
    and key: "id' \<noteq> [] \<Longrightarrow> d_opIDs (ss_state s) (opKey client id') = None"
    and h: "\<And>h. origin = Some h \<Longrightarrow> cn_joined (ss_store s h)"
    and c: "commit s b (op_rec now n p a client id' accepts by') = ((s', b'), Inr changed)"
  shows "session_inv (fst (afterOp s' b' origin p id'' a changed))"
proof -
  have d: "doc_inv (ss_state s)" using inv by (simp add: session_inv_def)
  note cs = commit_op_state [OF d p c]
  have s': "view_ok len s' = view_ok len s" "ss_store s' = ss_store s" for len unfolding cs(1) by simp_all
  have len: "baseLen p = int (length (d_text (ss_state s)))" "targetLen p = int (length (d_text (ss_state s')))"
    using cs(3,4) op_wf_lengths [OF p] text_units.length_run [OF cs(3)] by simp_all
  have "view_ok (targetLen p) (fst (afterOp s' b' origin p id'' a changed))"
    using inv h by (intro afterOp_view [OF p]) (auto simp: s' session_inv_def len(1))
  moreover have "ss_state (fst (afterOp s' b' origin p id'' a changed)) = ss_state s'"
    using core_state [OF afterOp_core, of s' b' origin p id'' a changed] by simp
  moreover have "distinct (op_keys (ss_state s'))"
    using inv key new_key [OF d] cs(5) by (auto simp: session_inv_def)
  ultimately show ?thesis using cs(2) size len by (simp add: session_inv_def)
qed

subsection \<open>Every message keeps the invariant\<close>

lemma mapPos_history_in:
  assumes "\<forall>c \<in> set h. op_wf (c_op c)" and "run_history t h = Inr t'" and "0 \<le> i" and "i \<le> int (length t)"
  shows "0 \<le> mapPos_history h i \<and> mapPos_history h i \<le> int (length t')"
  using assms
proof (induction h arbitrary: t i)
  case (Cons c h)
  from Cons.prems(2) obtain t1 where t1: "Apply (c_op c) t = Inr t1" "run_history t1 h = Inr t'"
    by (auto simp: run_history_run_ops rbind_eq_Inr)
  have wf: "op_wf (c_op c)" using Cons.prems(1) by simp
  have len: "int (length t) = baseLen (c_op c)" using ot.app_needs [OF wf t1(1)] .
  then have "int (length t1) = targetLen (c_op c)" using ot.app_fits [OF wf len] t1(1) by auto
  then have "0 \<le> MapPos (c_op c) i False" "MapPos (c_op c) i False \<le> int (length t1)"
    using MapPos_in [OF wf, of i False] Cons.prems(3,4) len by auto
  from Cons.IH [OF _ t1(2) this] Cons.prems(1) show ?case by simp
qed (simp add: run_history_def)

lemma handleCursor_inv:
  assumes inv: "session_inv s" and j: "cn_joined (ss_store s h)"
  shows "session_inv (fst (handleCursor s b h m))"
proof (rule session_inv_view [OF inv])
  show "ss_state (fst (handleCursor s b h m)) = ss_state s"
    using core_state [OF handleCursor_core, of s b h m] by simp
  let ?len = "int (length (d_text (ss_state s)))"
  have d: "doc_inv (ss_state s)" and v: "view_ok ?len s" using inv by (auto simp: session_inv_def)
  have mapped: "0 \<le> mapPos_history (drop (nat r) (d_history (ss_state s))) i \<and>
      mapPos_history (drop (nat r) (d_history (ss_state s))) i \<le> ?len"
    if "0 \<le> r" "r \<le> d_rev (ss_state s)" "0 \<le> i" "i \<le> lengthAt (ss_state s) r" for r i
    using text_at [OF d that(1,2)] history_wf [OF d, of "nat r"] that(3,4)
    by (intro mapPos_history_in [where t = "text_at (ss_state s) r"]) auto
  have keep: "view_ok ?len (set_conn s h ((ss_store s h)\<lparr>cn_pos := x, cn_anchor := y, cn_hasCur := True\<rparr>))"
    if "0 \<le> x \<and> x \<le> ?len" "0 \<le> y \<and> y \<le> ?len" for x y
    using v j that by (auto simp: view_ok_def caret_in_def)
  show "view_ok ?len (fst (handleCursor s b h m))"
    using v keep mapped by (auto simp: handleCursor_def Let_def not_less not_le split: option.split)
qed

lemma handleOp_inv:
  assumes inv: "session_inv s" and j: "cn_joined (ss_store s h)" and m: "msg_ok m"
  shows "session_inv (fst (handleOp s b h m))"
proof -
  let ?d = "ss_state s"
  have d: "doc_inv ?d" using inv by (simp add: session_inv_def)
  have step: "session_inv (fst (case commit s b (op_rec now (d_rev ?d + 1) p a (cn_client (ss_store s h)) (m_id m) [] None) of
        ((s, b), Inl e) \<Rightarrow> reject s b h
      | ((s, b), Inr changed) \<Rightarrow> afterOp s b (Some h) p (m_id m) a changed))"
    if c: "catchUp ?d p0 r = Inr p" "m_op m = Some p0" "\<not> targetLen p > maxDocUnits"
      "d_opIDs ?d (opKey (cn_client (ss_store s h)) (m_id m)) = None" for p0 r p a now
  proof -
    have "op_wf p0" using m c(2) by (simp add: msg_ok_def)
    from catchUp_converges [OF d this, of r] c(1) have p: "op_wf p" by simp
    let ?r = "op_rec now (d_rev ?d + 1) p a (cn_client (ss_store s h)) (m_id m) [] None"
    obtain s' b' res where cm: "commit s b ?r = ((s', b'), res)" by (cases "commit s b ?r") auto
    show ?thesis
    proof (cases res)
      case (Inl e)
      then have "(s', b') = (s, b)" using commit_evolves(2) [of s b ?r] cm by blast
      then show ?thesis using cm Inl reject_inv [OF inv] by simp
    next
      case (Inr changed)
      with commit_afterOp_inv [OF inv p _ _ _ cm [unfolded Inr], of "Some h" "m_id m"] c(3,4) j show ?thesis
        by (simp add: cm)
    qed
  qed
  show ?thesis
    using inv reject_inv [OF inv] step by (auto simp: handleOp_def Let_def split: option.split sum.split)
qed

lemma commit_other_inv:
  assumes inv: "session_inv s" and "record_ok r" and "r_kind r \<noteq> RecOp" and c: "commit s b r = ((s', b'), res)"
  shows "session_inv s'"
proof (cases res)
  case (Inl e)
  then have "(s', b') = (s, b)" using commit_evolves(2) [of s b r] c by blast
  then show ?thesis using inv by simp
next
  case (Inr changed)
  have d: "doc_inv (ss_state s)" using inv by (simp add: session_inv_def)
  note cs = commit_other_state [OF d assms(2,3) c [unfolded Inr]]
  have "view_ok len s' = view_ok len s" for len by (subst cs(4)) simp
  with cs(1-3) inv show ?thesis by (simp add: session_inv_def)
qed

lemma acceptOp_wf:
  assumes "doc_inv d" and "d_suggestions d i = Some sg" and "is_open sg"
  shows "op_wf (acceptOp d sg)"
    and "Apply (acceptOp d sg) (d_text d) = Inr (take (nat (if s_placement sg = PlaceAfter then s_end sg else s_start sg)) (d_text d) @
      encodeText (s_body sg) @ drop (nat (s_end sg)) (d_text d))"
proof -
  have r: "0 \<le> s_start sg" "s_start sg \<le> s_end sg" "s_end sg \<le> int (length (d_text d))"
    using assms by (auto simp: doc_inv_def suggestions_inv_def anchor_ok_def)
  then have "0 \<le> (if s_placement sg = PlaceAfter then s_end sg else s_start sg)"
    "(if s_placement sg = PlaceAfter then s_end sg else s_start sg) \<le> s_end sg" by auto
  from replaceOp_wf(1) [OF this r(3)] replaceOp_Apply [OF this r(3)]
  show "op_wf (acceptOp d sg)"
    and "Apply (acceptOp d sg) (d_text d) = Inr (take (nat (if s_placement sg = PlaceAfter then s_end sg else s_start sg)) (d_text d) @
      encodeText (s_body sg) @ drop (nat (s_end sg)) (d_text d))"
    by (simp_all only: acceptOp_def Let_def)
qed

lemma handleResolve_inv:
  assumes inv: "session_inv s" and j: "cn_joined (ss_store s h)"
  shows "session_inv (fst (handleResolve s b h m))"
proof (cases "d_suggestions (ss_state s) (m_sid m)")
  case None
  with inv show ?thesis by (simp add: handleResolve_def Let_def)
next
  case (Some sg)
  let ?d = "ss_state s"
  have d: "doc_inv ?d" using inv by (simp add: session_inv_def)
  have accept: "session_inv (fst (case commit s b (op_rec now n (acceptOp ?d sg) a [] [] sid by') of
        ((s, b), Inl e) \<Rightarrow> (s, b) | ((s, b), Inr changed) \<Rightarrow> afterOp s b None (acceptOp ?d sg) [] a changed))"
    if "s_status sg = StatusPending" "\<not> targetLen (acceptOp ?d sg) > maxDocUnits" for now n a sid by'
  proof -
    have p: "op_wf (acceptOp ?d sg)" using acceptOp_wf(1) [OF d Some] that(1) by (simp add: is_open_def)
    let ?r = "op_rec now n (acceptOp ?d sg) a [] [] sid by'"
    obtain s' b' res where cm: "commit s b ?r = ((s', b'), res)" by (cases "commit s b ?r") auto
    show ?thesis
    proof (cases res)
      case (Inl e)
      then have "(s', b') = (s, b)" using commit_evolves(2) [of s b ?r] cm by blast
      then show ?thesis using cm Inl inv by simp
    next
      case (Inr changed)
      with commit_afterOp_inv [OF inv p _ _ _ cm [unfolded Inr], of None "[]"] that(2) show ?thesis
        by (simp add: cm)
    qed
  qed
  have resolve: "session_inv (fst (case commit s b (resolve_rec now sid act by') of ((s, b), Inl e) \<Rightarrow> (s, b)
      | ((s, b), Inr changed) \<Rightarrow> (s, broadcast_changed s b changed)))" for now sid act by'
  proof -
    obtain s' b' res where cm: "commit s b (resolve_rec now sid act by') = ((s', b'), res)"
      by (cases "commit s b (resolve_rec now sid act by')") auto
    with commit_other_inv [OF inv _ _ cm] show ?thesis
      by (cases res) (auto simp: resolve_rec_def record_ok_def)
  qed
  show ?thesis
    using inv Some accept resolve by (cases "m_action m") (auto simp: handleResolve_def Let_def)
qed

lemma handleTitle_inv:
  assumes inv: "session_inv s"
  shows "session_inv (fst (handleTitle s b h m))"
proof -
  let ?r = "meta_rec (ss_now s) (cleanText (m_title m) 120)"
  obtain s' b' res where cm: "commit s b ?r = ((s', b'), res)" by (cases "commit s b ?r") auto
  with commit_other_inv [OF inv _ _ cm] inv show ?thesis
    by (cases res) (auto simp: handleTitle_def Let_def meta_rec_def record_ok_def)
qed

lemma handleHello_inv:
  assumes inv: "session_inv s"
  shows "session_inv (fst (handleHello s b h m))"
  using core_state [OF handleHello_core, of s b h m] inv
  by (intro session_inv_view [OF inv] view_hello) (simp_all add: session_inv_def)

lemma handle_inv:
  assumes inv: "session_inv s" and m: "msg_ok m"
  shows "session_inv (fst (handle s b h m))"
  using inv reject_inv [OF inv] handleHello_inv [OF inv] handleTitle_inv [OF inv] handleCursor_inv [OF inv]
    handleResolve_inv [OF inv] handleOp_inv [OF inv _ m]
  by (auto simp: handle_def Let_def split: msg_type.split)

lemma leave_inv: "session_inv s \<Longrightarrow> session_inv (fst (leave s b h))"
proof (rule session_inv_view)
  assume s: "session_inv s"
  then show "session_inv s" .
  show "ss_state (fst (leave s b h)) = ss_state s" using core_state [OF leave_core, of s b h] by simp
  show "view_ok (int (length (d_text (ss_state s)))) (fst (leave s b h))"
    using s by (intro view_leave) (simp add: session_inv_def)
qed

lemma accepted_status:
  assumes "doc_inv d" and "d_suggestions d i = Some sg" and "i \<noteq> []" and "r_accepts r = i"
  shows "\<exists>sg'. d_suggestions (after_op d r p a) i = Some sg' \<and> s_status sg' = StatusAccepted"
proof -
  obtain j d1 where ai: "authorIndex d a = (j, d1)" by (cases "authorIndex d a")
  have "authors_inv d" using assms(1) by (simp add: doc_inv_def)
  from authorIndex_inv(5) [OF this ai] obtain as lk where d1: "d1 = d\<lparr>d_authors := as, d_lookup := lk\<rparr>" by blast
  show ?thesis
    using assms(2-4) by (simp add: after_op_def ai d1 mark_accepted_def moved_def is_open_def)
qed

subsection \<open>Properties\<close>

text \<open>A session with one joined editor, for the witnesses.\<close>

definition editor :: author where
  "editor = \<lparr>a_id = [117], a_name = [85], a_kind = kind_human, a_model = []\<rparr>"

definition joined_session :: "payload memory_log session" where
  "joined_session = (newSession (newDocState [100]) \<lparr>ml_records = [], ml_failing = False\<rparr> 5)
     \<lparr>ss_store := (\<lambda>h. if h = 0 then newConn\<lparr>cn_id := [99, 49], cn_client := [97], cn_user := editor, cn_joined := True\<rparr>
        else newConn), ss_conns := [0], ss_nextConn := 1\<rparr>"

definition insert_msg :: client_msg where
  "insert_msg = \<lparr>m_T = MsgOp, m_client = [], m_user = None, m_rev = Some 0, m_epoch = [], m_id = [49],
     m_op = Some (Insert NewOp [104, 105]), m_pos = None, m_anchor = None, m_sid = [], m_action = ActOther [],
     m_title = []\<rparr>"

lemma joined_session_inv: "session_inv joined_session"
  using doc_inv_new [of "[100]"]
  by (simp add: session_inv_def joined_session_def newSession_def publish_def Let_def op_keys_def view_ok_def
      caret_in_def newDocState_def newConn_def maxDocUnits_def)

lemma insert_msg_ok: "msg_ok insert_msg"
  by (simp add: msg_ok_def insert_msg_def op_wf_def edits_def edit_of_def comp_wf_def comp_kind_defs NewOp_def
      Insert_def Let_def)

lemma insert_msg_commits:
  "d_text (ss_state (fst (handle joined_session newBatch 0 insert_msg))) = [104, 105]"
  "d_opIDs (ss_state (fst (handle joined_session newBatch 0 insert_msg))) (opKey [97] [49]) = Some 1"
  by (simp_all add: handle_def handleOp_def joined_session_def insert_msg_def newSession_def publish_def Let_def
      newConn_def newDocState_def byte_len_def utf8_len_def opKey_def catchUp_def lengthAt_def checkText_def
      commit_def apply_record_def applyOp_def commitOp_def authorIndex_def Apply_def applyAttribution_def
      NewOp_def Insert_def comp_kind_defs op_rec_def maxDocUnits_def insidePair_def carriage_return_def
      afterOp_def moveRuns_def moveCarets_def setOrigin_def EditPos_def)

text \<open>
  C13: every message a connection can send keeps the session's invariant: the document invariant, no
  operation id committed twice by one client, the size limit, and carets and agent ranges inside the text.
\<close>

theorem handle_keeps_session:
  assumes "session_inv s" and "msg_ok m"
  shows "session_inv (fst (handle s b h m))"
  by (rule handle_inv [OF assms])

theorem handle_keeps_session_witness:
  "session_inv (fst (handle joined_session newBatch 0 insert_msg))"
  by (rule handle_keeps_session [OF joined_session_inv insert_msg_ok])

text \<open>
  C24: a resent operation is committed exactly once. If its id is already committed for the client of the connection,
  the message changes nothing and sends nothing, at whatever revision and with whatever operation it is resent; and an
  operation that was committed is recognised when it is sent again.
\<close>

theorem resend_is_ignored:
  assumes "session_inv s" and "msg_ok m" and "m_T m = MsgOp" and "cn_joined (ss_store s h)"
    and "m_id m \<noteq> []" and "byte_len (m_id m) \<le> 128" and "m_op m \<noteq> None" and "m_rev m \<noteq> None"
  shows "(d_opIDs (ss_state s) (opKey (cn_client (ss_store s h)) (m_id m)) \<noteq> None \<longrightarrow> handle s b h m = (s, b)) \<and>
    (let s' = fst (handle s b h m) in
     d_rev (ss_state s') \<noteq> d_rev (ss_state s) \<longrightarrow>
       d_opIDs (ss_state s') (opKey (cn_client (ss_store s h)) (m_id m)) \<noteq> None \<and>
       d_rev (ss_state s') = d_rev (ss_state s) + 1)"
proof -
  obtain p0 r where pr: "m_op m = Some p0" "m_rev m = Some r" using assms(7,8) by auto
  let ?k = "opKey (cn_client (ss_store s h)) (m_id m)" and ?d = "ss_state s"
  have d: "doc_inv ?d" using assms(1) by (simp add: session_inv_def)
  have "handle s b h m = (s, b)" if "d_opIDs ?d ?k \<noteq> None"
    using that assms(3-8) pr by (auto simp: handle_def handleOp_def Let_def)
  moreover have "d_opIDs (ss_state (fst (handle s b h m))) ?k \<noteq> None \<and>
      d_rev (ss_state (fst (handle s b h m))) = d_rev ?d + 1"
    if ne: "d_rev (ss_state (fst (handle s b h m))) \<noteq> d_rev ?d"
  proof -
    have rej: "ss_state (fst (reject s b h)) = ?d" using core_state [OF reject_core, of s b h] by simp
    obtain p where p: "catchUp ?d p0 r = Inr p"
      using ne rej assms(3-8) pr by (auto simp: handle_def handleOp_def Let_def split: if_splits sum.splits)
    let ?r = "op_rec (ss_now s) (d_rev ?d + 1) p (cn_user (ss_store s h)) (cn_client (ss_store s h)) (m_id m) [] None"
    obtain s' b' res where cm: "commit s b ?r = ((s', b'), res)" by (cases "commit s b ?r") auto
    obtain changed where res: "res = Inr changed"
      using ne rej assms(3-8) pr p cm commit_evolves(2) [of s b ?r "(s', b')"]
      by (cases res) (auto simp: handle_def handleOp_def Let_def split: if_splits)
    have h: "handle s b h m = afterOp s' b' (Some h) p (m_id m) (cn_user (ss_store s h)) changed"
      using ne rej assms(3-8) pr p cm res by (auto simp: handle_def handleOp_def Let_def split: if_splits)
    have st: "ss_state (fst (handle s b h m)) = ss_state s'"
      using core_state [OF afterOp_core, of s' b' "Some h" p "m_id m" "cn_user (ss_store s h)" changed] by (simp add: h)
    have "op_wf p0" using assms(2) pr(1) by (simp add: msg_ok_def)
    from catchUp_converges [OF d this, of r] p have wf: "op_wf p" by simp
    note cs = commit_op_state [OF d wf cm [unfolded res]]
    have "?k \<in> set (op_keys (ss_state s'))" using cs(5) assms(5) by simp
    then have "d_opIDs (ss_state s') ?k \<noteq> None"
      using new_key [OF cs(2)] by blast
    moreover have "d_rev (ss_state s') = d_rev ?d + 1"
      by (simp add: cs(1) after_op_def op_rec_def split: prod.split)
    ultimately show ?thesis by (simp add: st)
  qed
  ultimately show ?thesis by (auto simp: Let_def)
qed

theorem resend_is_ignored_witness:
  "handle (fst (handle joined_session newBatch 0 insert_msg)) newBatch 0 insert_msg =
     (fst (handle joined_session newBatch 0 insert_msg), newBatch)"
proof -
  let ?s = "fst (handle joined_session newBatch 0 insert_msg)"
  have c: "cn_joined (ss_store ?s 0)" "cn_client (ss_store ?s 0) = [97]"
    by (simp_all add: handle_def handleOp_def joined_session_def insert_msg_def newSession_def publish_def Let_def
      newConn_def newDocState_def byte_len_def utf8_len_def opKey_def catchUp_def lengthAt_def checkText_def
      commit_def apply_record_def applyOp_def commitOp_def authorIndex_def Apply_def applyAttribution_def
      NewOp_def Insert_def comp_kind_defs op_rec_def maxDocUnits_def insidePair_def carriage_return_def
      afterOp_def moveRuns_def moveCarets_def setOrigin_def EditPos_def)
  have m: "m_T insert_msg = MsgOp" "m_id insert_msg \<noteq> []" "byte_len (m_id insert_msg) \<le> 128"
    "m_op insert_msg \<noteq> None" "m_rev insert_msg \<noteq> None" "m_id insert_msg = [49]"
    by (simp_all add: insert_msg_def byte_len_def utf8_len_def)
  show ?thesis
    using resend_is_ignored [OF handle_inv [OF joined_session_inv insert_msg_ok] insert_msg_ok m(1) c(1) m(2-5), of newBatch]
      insert_msg_commits(2) by (simp add: c(2) m(6))
qed

text \<open>
  a batch of messages is on the log before anyone hears of it. If the session is alive after the batch, the log
  holds exactly the records that made its state, old and new; if it died, because the append failed, the log holds
  what it held before and at most a prefix of the batch, no connection is sent anything and every editor is cut off.
\<close>

theorem batch_durable_before_delivery:
  assumes "\<forall>ev \<in> set evs. proper_event ev" and "\<not> ss_dead s"
    and "ml_records (ss_log s) = map marshal_record rs"
    and "apply_all (newDocState (d_id (ss_state s))) rs = Inr (ss_state s)"
  shows "\<exists>new. (case fold (\<lambda>event. event) evs (s, newBatch) of (s1, b1) \<Rightarrow>
    let s' = run_batch memory_Append evs s in
    b_payloads b1 = map marshal_record new \<and>
    (if ml_failing (ss_log s) \<and> new \<noteq> []
     then ml_records (ss_log s') = map marshal_record rs \<and> ss_dead s' \<and>
       (\<forall>h. cn_out (ss_store s' h) = cn_out (ss_store s1 h)) \<and> (\<forall>h \<in> set (ss_conns s1). cn_done (ss_store s' h))
     else ml_records (ss_log s') = map marshal_record (rs @ new) \<and> ss_dead s' = ss_dead s1 \<and>
       apply_all (newDocState (d_id (ss_state s))) (rs @ new) = Inr (ss_state s')))"
proof -
  obtain s1 b1 where f: "fold (\<lambda>event. event) evs (s, newBatch) = (s1, b1)"
    by (cases "fold (\<lambda>event. event) evs (s, newBatch)")
  from fold_evolves [OF assms(1), of "(s, newBatch)"] obtain new where new:
    "ss_log s1 = ss_log s" "b_payloads b1 = map marshal_record new" "apply_all (ss_state s) new = Inr (ss_state s1)"
    by (auto simp: f evolves_def newBatch_payloads)
  have all: "apply_all (newDocState (d_id (ss_state s))) (rs @ new) = Inr (ss_state s1)"
    by (simp add: apply_all_append assms(4) new(3))
  show ?thesis
    using new all assms(2,3)
    by (intro exI [of _ new]) (auto simp: f run_batch_def memory_Append_def fail_def kill_def Let_def)
qed

theorem batch_durable_before_delivery_witness:
  "ml_records (ss_log (run_batch memory_Append [message_event 0 insert_msg] joined_session)) \<noteq> []"
proof -
  have s: "\<not> ss_dead joined_session" "ml_records (ss_log joined_session) = map marshal_record []"
    "apply_all (newDocState (d_id (ss_state joined_session))) [] = Inr (ss_state joined_session)"
    "\<not> ml_failing (ss_log joined_session)"
    by (simp_all add: joined_session_def newSession_def publish_def Let_def newDocState_def)
  have e: "\<forall>ev \<in> set [message_event 0 insert_msg]. proper_event ev" using proper_events(1) by simp
  have "b_payloads (snd (handle joined_session newBatch 0 insert_msg)) \<noteq> []"
    by (simp add: handle_def handleOp_def joined_session_def insert_msg_def newSession_def publish_def Let_def
      newConn_def newDocState_def byte_len_def utf8_len_def opKey_def catchUp_def lengthAt_def checkText_def
      commit_def apply_record_def applyOp_def commitOp_def authorIndex_def Apply_def applyAttribution_def
      NewOp_def Insert_def comp_kind_defs op_rec_def maxDocUnits_def insidePair_def carriage_return_def
      afterOp_def moveRuns_def moveCarets_def setOrigin_def EditPos_def newBatch_payloads)
  moreover obtain s1 b1 where hd: "handle joined_session newBatch 0 insert_msg = (s1, b1)"
    by (cases "handle joined_session newBatch 0 insert_msg")
  moreover have "fold (\<lambda>event. event) [message_event 0 insert_msg] (joined_session, newBatch) = (s1, b1)"
    by (simp add: message_event_def hd)
  ultimately show ?thesis
    using batch_durable_before_delivery [OF e s(1-3)] s(4) by (auto simp: Let_def)
qed

text \<open>
  an editor that returns with an older revision of this document is sent exactly the operations it
  missed: applied to the text of its revision they give the current text, and it is told the ids of its own operations
  only. Any other editor is sent the whole text.
\<close>

theorem hello_catches_up:
  assumes "doc_inv (ss_state s)" and "\<not> cn_joined (ss_store s h)" and "m_user m = Some u"
    and "cleanText (a_name u) maxNameRunes \<noteq> []" and "cleanText (m_client m) 64 \<noteq> []"
  shows "\<exists>init others. b_after (snd (handleHello s b h m)) = b_after b @ (h, OutInit init) # others \<and>
    in_rev init = d_rev (ss_state s) \<and> in_suggestions init = openSuggestions (ss_state s) \<and>
    (if \<exists>r. m_rev m = Some r \<and> 0 \<le> r \<and> r \<le> d_rev (ss_state s) \<and> (m_epoch m = [] \<or> m_epoch m = epoch s)
     then in_text init = None \<and>
       run_ops Apply (text_at (ss_state s) (the (m_rev m))) (map w_op (in_ops init)) = Inr (d_text (ss_state s)) \<and>
       (\<forall>w \<in> set (in_ops init). w_id w \<noteq> [] \<longrightarrow>
          (\<exists>c \<in> set (d_history (ss_state s)). c_client c = cleanText (m_client m) 64 \<and> w_id w = c_id c))
     else in_text init = Some (decodeText (d_text (ss_state s))) \<and> in_ops init = [])"
proof -
  let ?d = "ss_state s" and ?c = "cleanText (m_client m) 64"
  have ops: "map w_op (missedOps ?d client r) = map c_op (drop (nat r) (d_history ?d))" if "0 \<le> r" for client r
  proof -
    have "d_rev ?d = int (length (d_history ?d))" using assms(1) by (simp add: doc_inv_def history_inv_def)
    then show ?thesis
      by (intro nth_equalityI) (simp_all add: missedOps_def Let_def)
  qed
  have ids: "\<exists>c \<in> set (d_history ?d). c_client c = client \<and> w_id w = c_id c"
    if "w \<in> set (missedOps ?d client r)" "w_id w \<noteq> []" for w client r
  proof -
    have "d_rev ?d = int (length (d_history ?d))" using assms(1) by (simp add: doc_inv_def history_inv_def)
    with that show ?thesis
      by (auto simp: missedOps_def Let_def split: if_splits)
  qed
  have caught: "run_ops Apply (text_at ?d r) (map w_op (missedOps ?d client r)) = Inr (d_text ?d)"
    if "0 \<le> r" "r \<le> d_rev ?d" for client r
    using text_at(1) [OF assms(1) that] ops [OF that(1)] by (simp add: run_history_run_ops)
  define caughtUp where "caughtUp \<longleftrightarrow> (case m_rev m of None \<Rightarrow> False
    | Some r \<Rightarrow> (m_epoch m = [] \<or> m_epoch m = epoch s) \<and> 0 \<le> r \<and> r \<le> d_rev ?d)"
  have e: "epoch (s\<lparr>ss_nextConn := n\<rparr>) = epoch s" for n by (simp add: epoch_def)
  obtain init others where out: "b_after (snd (handleHello s b h m)) = b_after b @ (h, OutInit init) # others"
    and init: "in_rev init = d_rev ?d" "in_suggestions init = openSuggestions ?d"
      "in_text init = (if caughtUp then None else Some (decodeText (d_text ?d)))"
      "in_ops init = (if caughtUp then missedOps ?d ?c (the (m_rev m)) else [])"
    using assms(2-5)
    by (cases "m_rev m") (auto simp: handleHello_def Let_def send_def broadcast_def caughtUp_def e cong: if_cong)
  have c: "caughtUp \<longleftrightarrow> (\<exists>r. m_rev m = Some r \<and> 0 \<le> r \<and> r \<le> d_rev ?d \<and> (m_epoch m = [] \<or> m_epoch m = epoch s))"
    by (auto simp: caughtUp_def split: option.split)
  show ?thesis
    using out init caught ids unfolding c [symmetric]
    by (intro exI [of _ init] exI [of _ others]) (auto simp: c)
qed

theorem hello_catches_up_witness:
  "\<exists>init. (1, OutInit init) \<in> set (b_after (snd (handleHello joined_session newBatch 1
     (insert_msg\<lparr>m_T := MsgHello, m_client := [98], m_user := Some editor\<rparr>)))) \<and> in_rev init = 0"
proof -
  let ?m = "insert_msg\<lparr>m_T := MsgHello, m_client := [98], m_user := Some editor\<rparr>"
  have d: "doc_inv (ss_state joined_session)" using joined_session_inv by (simp add: session_inv_def)
  have p: "\<not> cn_joined (ss_store joined_session 1)" "m_user ?m = Some editor"
    "cleanText (a_name editor) maxNameRunes \<noteq> []" "cleanText (m_client ?m) 64 \<noteq> []" "d_rev (ss_state joined_session) = 0"
    by (simp_all add: joined_session_def newConn_def editor_def cleanText_def is_space_def Let_def maxNameRunes_def
        newSession_def newDocState_def)
  show ?thesis
    using hello_catches_up [OF d p(1-4), of newBatch] by (auto simp: p(5))
qed

text \<open>
  accepting a pending suggestion replaces exactly its range, or inserts behind it, by the proposed text, in the name
  of the agent; the suggestion is then accepted, and accepting it a second time changes nothing.
\<close>

theorem accept_replaces_once:
  assumes "session_inv s" and "d_suggestions (ss_state s) (m_sid m) = Some sg" and "s_status sg = StatusPending"
    and "m_sid m \<noteq> []" and "m_action m = ActAccept" and "targetLen (acceptOp (ss_state s) sg) \<le> maxDocUnits"
  shows "let s' = fst (handleResolve s b h m); start = (if s_placement sg = PlaceAfter then s_end sg else s_start sg) in
    d_text (ss_state s') = take (nat start) (d_text (ss_state s)) @ encodeText (s_body sg) @
      drop (nat (s_end sg)) (d_text (ss_state s)) \<and>
    (\<exists>sg'. d_suggestions (ss_state s') (m_sid m) = Some sg' \<and> s_status sg' = StatusAccepted) \<and>
    ss_state (fst (handleResolve s' b' h' m)) = ss_state s'"
proof -
  let ?d = "ss_state s"
  have d: "doc_inv ?d" using assms(1) by (simp add: session_inv_def)
  have sid: "s_id sg = m_sid m" using d assms(2) by (auto simp: doc_inv_def suggestions_inv_def)
  note acc = acceptOp_wf [OF d assms(2)]
  have p: "op_wf (acceptOp ?d sg)" using acc(1) assms(3) by (simp add: is_open_def)
  let ?by = "cn_user (ss_store s h)"
  let ?r = "op_rec (ss_now s) (d_rev ?d + 1) (acceptOp ?d sg) (s_agent sg) [] [] (s_id sg) (Some ?by)"
  have applied: "Apply (acceptOp ?d sg) (d_text ?d) = Inr (take (nat (if s_placement sg = PlaceAfter then s_end sg else s_start sg)) (d_text ?d) @
      encodeText (s_body sg) @ drop (nat (s_end sg)) (d_text ?d))"
    using acc(2) assms(3) by (simp add: is_open_def)
  have ok: "record_ok ?r" using p by (simp add: record_ok_def op_rec_def)
  have k: "r_kind ?r = RecOp" "r_op ?r = Some (acceptOp ?d sg)" "r_author ?r = Some (s_agent sg)"
    "r_rev ?r = d_rev ?d + 1" "r_accepts ?r = m_sid m"
    by (simp_all add: op_rec_def sid)
  have len: "length (d_text ?d) = base (edits (acceptOp ?d sg))"
    using applied op_wf_lengths [OF p] by (simp add: Apply_run [OF p] split: if_splits)
  have "r_accepts ?r = [] \<or> d_suggestions ?d (r_accepts ?r) \<noteq> None" using assms(2) k(5) by simp
  from applyOp_done [OF d p len k(2-4) this] obtain ch where ap: "apply_record ?d ?r = (after_op ?d ?r (acceptOp ?d sg) (s_agent sg), Inr ch)"
    by (simp add: apply_record_op [OF k(1)])
  obtain s1 b1 where cm: "commit s b ?r = ((s1, b1), Inr ch)"
    by (simp add: commit_def ap)
  have st: "ss_state s1 = after_op ?d ?r (acceptOp ?d sg) (s_agent sg)"
    using cm by (auto simp: commit_def ap)
  note cs = commit_op_state [OF d p cm]
  have h: "handleResolve s b h m = afterOp s1 b1 None (acceptOp ?d sg) [] (s_agent sg) ch"
    using assms cm by (simp add: handleResolve_def Let_def)
  have fin: "ss_state (fst (handleResolve s b h m)) = ss_state s1"
    using core_state [OF afterOp_core, of s1 b1 None "acceptOp ?d sg" "[]" "s_agent sg" ch] by (simp add: h)
  have new_text: "d_text (ss_state s1) = take (nat (if s_placement sg = PlaceAfter then s_end sg else s_start sg)) (d_text ?d) @
      encodeText (s_body sg) @ drop (nat (s_end sg)) (d_text ?d)"
    using cs(4) applied cs(3) op_wf_lengths [OF p] by (simp add: Apply_run [OF p])
  from accepted_status [OF d assms(2,4) k(5)] obtain sg' where
    sg': "d_suggestions (ss_state s1) (m_sid m) = Some sg'" "s_status sg' = StatusAccepted" by (auto simp: st)
  have "ss_state (fst (handleResolve s' b' h' m)) = ss_state s'"
    if "ss_state s' = ss_state s1" for s' :: "'a session"
    using sg' assms(5) that by (simp add: handleResolve_def Let_def)
  then show ?thesis using new_text sg' fin by (auto simp: Let_def)
qed

theorem accept_replaces_once_witness:
  "\<exists>s :: payload memory_log session. d_text (ss_state (fst (handleResolve s newBatch 0
     (insert_msg\<lparr>m_sid := [115], m_action := ActAccept\<rparr>)))) = [120]"
proof -
  define sg where "sg = \<lparr>s_id = [115], s_agent = editor, s_invokedBy = editor, s_instruction = [], s_command = False,
    s_baseRev = 0, s_rev = 0, s_start = 0, s_end = 0, s_placement = PlaceReplace, s_original = [], s_body = [120],
    s_note = [], s_status = StatusPending, s_attempts = 1, s_createdAt = 1, s_resolvedBy = None, s_resolvedAt = None\<rparr>"
  define r :: "op log_record" where "r = (meta_rec 1 [])\<lparr>r_kind := RecSuggest, r_suggestion := Some sg\<rparr>"
  have r: "record_ok r" "r_kind r \<noteq> RecOp" by (simp_all add: r_def record_ok_def meta_rec_def)
  obtain s' b' res where cm: "commit joined_session newBatch r = ((s', b'), res)"
    by (cases "commit joined_session newBatch r") auto
  have inv: "session_inv s'" by (rule commit_other_inv [OF joined_session_inv r cm])
  have sug: "d_suggestions (ss_state s') [115] = Some sg" "d_text (ss_state s') = []"
    using cm by (auto simp: commit_def r_def apply_record_def meta_rec_def sg_def joined_session_def newSession_def
        publish_def Let_def newDocState_def)
  have p: "targetLen (acceptOp (ss_state s') sg) \<le> maxDocUnits"
    by (simp add: acceptOp_def sug sg_def replaceOp_def NewOp_def Retain_def Insert_def Delete_def Let_def
        comp_kind_defs encode_rune_def maxDocUnits_def)
  have "d_text (ss_state (fst (handleResolve s' newBatch 0 (insert_msg\<lparr>m_sid := [115], m_action := ActAccept\<rparr>)))) = [120]"
    using accept_replaces_once [OF inv, of "insert_msg\<lparr>m_sid := [115], m_action := ActAccept\<rparr>" sg newBatch 0 newBatch 0]
      sug p by (simp add: Let_def sg_def encode_rune_def)
  then show ?thesis by blast
qed

end
