(* ===== verification/Agent.thy ===== *)
theory Agent
  imports SessionProps
begin

text \<open>
  \<^verbatim>\<open>internal/collab/agent.go\<close>: the budget that limits what agents may cost, the two events by which an
  agent run touches a document, \<open>beginRead\<close> and \<open>propose\<close>, and the review of what an agent returns. The
  agent itself and the time it takes are arguments; between the two events any other events happen.
\<close>

subsection \<open>Budget\<close>

definition hour :: time where "hour = 3600 * 10 ^ 9"

record budget =
  bg_perHour :: nat
  bg_concurrent :: int
  bg_started :: "str \<Rightarrow> time list"
  bg_running :: "str \<Rightarrow> int"

datatype agent_error = ErrAgentBusy | ErrBudget | ErrUnknownAgent | ErrNoInvoker | ErrInstruction | ErrTooMuchText

definition newBudget :: "nat \<Rightarrow> int \<Rightarrow> budget" where
  "newBudget perHour concurrent =
     \<lparr>bg_perHour = perHour, bg_concurrent = concurrent, bg_started = (\<lambda>_. []), bg_running = (\<lambda>_. 0)\<rparr>"

definition acquire :: "budget \<Rightarrow> str \<Rightarrow> time \<Rightarrow> budget \<times> (agent_error, unit) result" where
  "acquire b doc now =
     (let recent = filter (\<lambda>at_time. now - at_time < hour) (bg_started b doc);
          b = b\<lparr>bg_started := (bg_started b)(doc := recent)\<rparr>
      in if bg_running b doc \<ge> bg_concurrent b then (b, Inl ErrAgentBusy)
         else if length recent \<ge> bg_perHour b then (b, Inl ErrBudget)
         else (b\<lparr>bg_started := (bg_started b)(doc := recent @ [now]),
                 bg_running := (bg_running b)(doc := bg_running b doc + 1)\<rparr>, Inr ()))"

definition release :: "budget \<Rightarrow> str \<Rightarrow> bool \<Rightarrow> budget" where
  "release b doc charge =
     (let b = b\<lparr>bg_running := (bg_running b)(doc := bg_running b doc - 1)\<rparr>; started = bg_started b doc in
      if \<not> charge \<and> length started > 0 then b\<lparr>bg_started := (bg_started b)(doc := butlast started)\<rparr> else b)"

subsection \<open>Reading\<close>

record agentRead =
  rd_rev :: int
  rd_start :: int
  rd_end :: int
  rd_title :: str
  rd_before :: str
  rd_text :: str
  rd_after :: str

datatype read_error = ReadDoc doc_error | ErrSplitsCharacter

definition set_run :: "agentRun \<Rightarrow> agentRun list \<Rightarrow> agentRun list" where
  "set_run ar runs = filter (\<lambda>r. ar_id r \<noteq> ar_id ar) runs @ [ar]"

definition beginRead :: "'l session \<Rightarrow> batch \<Rightarrow> str \<Rightarrow> author \<Rightarrow> str \<Rightarrow> int \<Rightarrow> int \<Rightarrow> int \<Rightarrow>
    ('l session \<times> batch) \<times> (read_error, agentRead) result" where
  "beginRead s b runID agent invokedBy at_rev start end_pos =
     (case mapRangeFrom (ss_state s) at_rev start end_pos of
        Inl e \<Rightarrow> ((s, b), Inl (ReadDoc e))
      | Inr (start, end_pos, _) \<Rightarrow>
          let t = d_text (ss_state s) in
          if insidePair t start \<or> insidePair t end_pos then ((s, b), Inl ErrSplitsCharacter)
          else
            let s = s\<lparr>ss_runs := set_run \<lparr>ar_id = runID, ar_agent = agent, ar_invokedBy = invokedBy,
                        ar_start = start, ar_end = end_pos\<rparr> (ss_runs s)\<rparr>
            in ((s, broadcast s b None (OutPresence (presenceList s))),
                Inr \<lparr>rd_rev = d_rev (ss_state s), rd_start = start, rd_end = end_pos, rd_title = d_title (ss_state s),
                     rd_before = decodeText (sub t 0 start), rd_text = decodeText (sub t start end_pos),
                     rd_after = decodeText (sub t end_pos (int (length t)))\<rparr>))"

definition endRun :: "'l session \<Rightarrow> batch \<Rightarrow> str \<Rightarrow> 'l session \<times> batch" where
  "endRun s b runID =
     (if runID \<notin> ar_id ` set (ss_runs s) then (s, b)
      else let s = s\<lparr>ss_runs := filter (\<lambda>r. ar_id r \<noteq> runID) (ss_runs s)\<rparr> in
        (s, broadcast s b None (OutPresence (presenceList s))))"

subsection \<open>Proposing\<close>

definition maxAgentAttempts :: nat where "maxAgentAttempts = 2"
definition maxInstruction :: nat where "maxInstruction = 2000"
definition maxSuggestion :: nat where "maxSuggestion = 40000"

datatype proposal = Retry int int int | Posted suggestion

definition sug_rec :: "time \<Rightarrow> suggestion \<Rightarrow> op log_record" where
  "sug_rec now sg = (meta_rec now [])\<lparr>r_kind := RecSuggest, r_suggestion := Some sg\<rparr>"

definition propose :: "'l session \<Rightarrow> batch \<Rightarrow> agentRead \<Rightarrow> suggestion \<Rightarrow> nat \<Rightarrow>
    ('l session \<times> batch) \<times> (doc_error, proposal) result" where
  "propose s b rd draft attempt =
     (case mapRangeFrom (ss_state s) (rd_rev rd) (rd_start rd) (rd_end rd) of
        Inl e \<Rightarrow> ((s, b), Inl e)
      | Inr (start, end_pos, touched) \<Rightarrow>
          if touched \<and> attempt < maxAgentAttempts
          then ((s, b), Inr (Retry (d_rev (ss_state s)) start end_pos))
          else
            let s = s\<lparr>ss_nextSug := ss_nextSug s + 1\<rparr>;
                draft = draft\<lparr>s_id := 115 # digits 10 (ss_nextSug s), s_baseRev := rd_rev rd, s_rev := d_rev (ss_state s),
                  s_start := start, s_end := end_pos, s_original := rd_text rd, s_attempts := int attempt,
                  s_createdAt := ss_now s, s_status := (if touched then StatusStale else StatusPending)\<rparr>
            in (case commit s b (sug_rec (ss_now s) draft) of
                  ((s, b), Inl e) \<Rightarrow> ((s, b), Inl e)
                | ((s, b), Inr changed) \<Rightarrow>
                    let posted = the (d_suggestions (ss_state s) (hd changed)) in
                    ((s, broadcast s b None (OutSug posted)), Inr (Posted posted))))"

subsection \<open>What an agent returned\<close>

record agentResult =
  res_text :: str
  res_placement :: placement
  res_note :: str

datatype review = TooMuchText | NothingToSuggest | Propose placement str

text \<open>The part of \<open>Invoke\<close> between the agent's answer and the proposal.\<close>

definition reviewResult :: "bool \<Rightarrow> agentRead \<Rightarrow> agentResult \<Rightarrow> review" where
  "reviewResult command rd result =
     (let t = normalizeNewlines (res_text result);
          placement = (if res_placement result \<noteq> PlaceAfter \<or> command then PlaceReplace else res_placement result);
          nothingToDo = (t = [] \<and> (placement = PlaceAfter \<or> rd_start rd = rd_end rd));
          unchanged = (placement = PlaceReplace \<and> t = rd_text rd)
      in if byte_len t > maxSuggestion then TooMuchText
         else if nothingToDo \<or> unchanged then NothingToSuggest
         else Propose placement t)"

subsection \<open>Budget lemmas\<close>

definition budget_inv :: "budget \<Rightarrow> bool" where
  "budget_inv b \<longleftrightarrow> (\<forall>doc. bg_running b doc \<le> bg_concurrent b \<and> length (bg_started b doc) \<le> bg_perHour b)"

lemma release_inv:
  assumes "budget_inv b"
  shows "budget_inv (release b doc charge)"
proof -
  have "bg_running b doc - 1 \<le> bg_concurrent b" "length (bg_started b doc) - 1 \<le> bg_perHour b"
    using assms by (auto simp: budget_inv_def intro: order_trans [of _ "bg_running b doc"] le_trans [OF diff_le_self])
  with assms show ?thesis by (auto simp: budget_inv_def release_def Let_def)
qed

lemma acquire_inv:
  assumes "budget_inv b"
  shows "budget_inv (fst (acquire b doc now))"
proof -
  have "length (filter (\<lambda>at_time. now - at_time < hour) (bg_started b doc)) \<le> bg_perHour b"
    using assms by (intro le_trans [OF length_filter_le]) (simp add: budget_inv_def)
  with assms show ?thesis by (auto simp: budget_inv_def acquire_def Let_def)
qed

subsection \<open>What a read says of the document\<close>

text \<open>The snapshot an agent holds: its range and text at a revision of the document.\<close>

definition read_ok :: "doc_state \<Rightarrow> agentRead \<Rightarrow> bool" where
  "read_ok d rd \<longleftrightarrow> 0 \<le> rd_rev rd \<and> rd_rev rd \<le> d_rev d \<and> 0 \<le> rd_start rd \<and> rd_start rd \<le> rd_end rd \<and>
     rd_end rd \<le> lengthAt d (rd_rev rd) \<and>
     encodeText (rd_text rd) = sub (text_at d (rd_rev rd)) (rd_start rd) (rd_end rd)"

lemma sub_paired:
  assumes "paired t" and "0 \<le> i" and "i \<le> j" and "j \<le> int (length t)"
    and "\<not> insidePair t i" and "\<not> insidePair t j"
  shows "paired (sub t i j)"
proof -
  have i: "\<not> inside t (nat i)" "\<not> inside t (nat j)"
    using assms insidePair_inside [of t "nat i"] insidePair_inside [of t "nat j"] by auto
  from clean_cut [OF assms(1) i(1)] have d: "paired (drop (nat i) t)" by simp
  have "\<not> inside (drop (nat i) t) (nat (j - i))"
  proof (cases "i = j")
    case True
    then show ?thesis by (simp add: inside_def)
  next
    case False
    then have "0 < nat (j - i)" "nat i + nat (j - i) = nat j" using assms(2,3) by auto
    then show ?thesis using inside_drop [of "nat (j - i)" "nat i" t] i(2) by simp
  qed
  with clean_cut [OF d] show ?thesis by (simp add: sub_def)
qed

lemma text_at_now: "doc_inv d \<Longrightarrow> text_at d (d_rev d) = d_text d"
  by (simp add: text_at_def doc_inv_def history_inv_def)

lemma beginRead_ok:
  assumes "doc_inv (ss_state s)" and "paired (d_text (ss_state s))"
    and "beginRead s b runID agent by' at_rev start end_pos = ((s', b'), Inr rd)"
  shows "read_ok (ss_state s) rd" and "ss_state s' = ss_state s"
proof -
  let ?d = "ss_state s"
  obtain s1 e1 touched where m: "mapRangeFrom ?d at_rev start end_pos = Inr (s1, e1, touched)"
    and np: "\<not> insidePair (d_text ?d) s1" "\<not> insidePair (d_text ?d) e1"
    and rd: "rd_rev rd = d_rev ?d" "rd_start rd = s1" "rd_end rd = e1" "rd_text rd = decodeText (sub (d_text ?d) s1 e1)"
    and s': "ss_state s' = ?d"
    using assms(3) by (auto simp: beginRead_def Let_def split: sum.splits prod.splits if_splits)
  show "ss_state s' = ?d" by (rule s')
  from mapRangeFrom_text [OF assms(1) m] have r: "0 \<le> s1" "s1 \<le> e1" "e1 \<le> int (length (d_text ?d))" by auto
  have "encodeText (decodeText (sub (d_text ?d) s1 e1)) = sub (d_text ?d) s1 e1"
    by (rule encode_decode [OF sub_paired [OF assms(2) r np]])
  moreover have "0 \<le> d_rev ?d" using assms(1) by (simp add: doc_inv_def history_inv_def)
  ultimately show "read_ok ?d rd"
    using r by (simp add: read_ok_def rd lengthAt_def text_at_now [OF assms(1)])
qed

text \<open>What is read stays true of that revision while the document goes on.\<close>

lemma history_grows:
  assumes "doc_inv d" and "record_ok r"
  shows "\<exists>h. d_history (fst (apply_record d r)) = d_history d @ h"
proof -
  have ai: "d_history (snd (authorIndex d a)) = d_history d" for a
    by (auto simp: authorIndex_def split: option.split)
  have "\<exists>h. d_history (after_op d r p a) = d_history d @ h" for p a
    using ai [of a] by (auto simp: after_op_def split: prod.split)
  then show ?thesis
    using applyOp_cases [OF assms]
    by (cases "r_kind r") (auto simp: apply_record_def split: option.split)
qed

lemma read_ok_grows:
  assumes inv: "doc_inv d" "record_ok r" and rd: "read_ok d rd"
  shows "read_ok (fst (apply_record d r)) rd"
proof -
  let ?d = "fst (apply_record d r)"
  obtain h where h: "d_history ?d = d_history d @ h" using history_grows [OF inv] by blast
  have inv': "doc_inv ?d" using apply_record_inv [OF inv] by simp
  have rev': "d_rev d = int (length (d_history d))" "d_rev ?d = int (length (d_history d @ h))"
    using inv(1) inv' h by (auto simp: doc_inv_def history_inv_def)
  have at_same: "text_at ?d (rd_rev rd) = text_at d (rd_rev rd)"
  proof -
    have "nat (rd_rev rd) - length (d_history d) = 0" using rd rev'(1) by (simp add: read_ok_def nat_le_iff)
    then show ?thesis by (simp add: text_at_def h)
  qed
  have "rd_rev rd \<le> d_rev ?d" using rd rev' by (simp add: read_ok_def)
  moreover have "int (length (text_at ?d (rd_rev rd))) = lengthAt ?d (rd_rev rd)"
    using text_at(2) [OF inv'] rd calculation by (simp add: read_ok_def)
  ultimately show ?thesis
    using rd text_at(2) [OF inv(1), of "rd_rev rd"] by (simp add: read_ok_def at_same)
qed

lemma apply_suggest:
  "r_kind r = RecSuggest \<Longrightarrow> r_suggestion r = Some sg \<Longrightarrow> apply_record d r = (d', Inr changed) \<Longrightarrow>
     changed = [s_id sg] \<and> d_suggestions d' (s_id sg) = Some sg \<and> d_text d' = d_text d"
  by (auto simp: apply_record_def split: if_splits)

lemma digits_nonempty [simp]: "digits b n \<noteq> []"
  by (subst digits.simps) auto

subsection \<open>Properties\<close>

text \<open>
  an agent's proposal is anchored to what the agent read. Whatever records are applied between the read and the
  proposal, the suggestion that is posted holds, while it is pending, exactly the text of the read in its range;
  and the document still has every other pending suggestion anchored to its own text.
\<close>

theorem proposal_is_anchored:
  assumes "doc_inv (ss_state s)" and "anchored (ss_state s)" and "read_ok (ss_state s) rd"
    and "propose s b rd draft attempt = ((s', b'), res)"
  shows "doc_inv (ss_state s') \<and> anchored (ss_state s') \<and>
    (\<forall>sg. res = Inr (Posted sg) \<longrightarrow> s_original sg = rd_text rd \<and> d_suggestions (ss_state s') (s_id sg) = Some sg \<and>
       (s_status sg = StatusPending \<or> s_status sg = StatusStale) \<and> holds_original (d_text (ss_state s')) sg)"
proof -
  let ?d = "ss_state s"
  have res_keep: "doc_inv (ss_state s') \<and> anchored (ss_state s')" if "ss_state s' = ?d" using that assms(1,2) by simp
  obtain s1 e1 touched where m: "mapRangeFrom ?d (rd_rev rd) (rd_start rd) (rd_end rd) = Inr (s1, e1, touched)"
    using assms(3)
    by (cases "mapRange_loop (drop (nat (rd_rev rd)) (d_history ?d)) (rd_start rd) (rd_end rd) False")
      (auto simp: mapRangeFrom_def read_ok_def)
  show ?thesis
  proof (cases "touched \<and> attempt < maxAgentAttempts")
    case True
    with assms(4) m have "s' = s" "res = Inr (Retry (d_rev ?d) s1 e1)" by (auto simp: propose_def)
    with assms(1,2) show ?thesis by simp
  next
    case False
    let ?sg = "draft\<lparr>s_id := 115 # digits 10 (ss_nextSug s + 1), s_baseRev := rd_rev rd, s_rev := d_rev ?d,
      s_start := s1, s_end := e1, s_original := rd_text rd, s_attempts := int attempt,
      s_createdAt := ss_now s, s_status := (if touched then StatusStale else StatusPending)\<rparr>"
    let ?r = "sug_rec (ss_now s) ?sg" and ?s = "s\<lparr>ss_nextSug := ss_nextSug s + 1\<rparr>"
    have holds: "holds_original (d_text ?d) ?sg"
      using mapRangeFrom_text [OF assms(1) m] assms(3) by (auto simp: holds_original_def read_ok_def)
    have r: "record_ok ?r" "r_kind ?r = RecSuggest" "r_suggestion ?r = Some ?sg"
      by (simp_all add: record_ok_def sug_rec_def meta_rec_def)
    have anch: "anchored (fst (apply_record ?d ?r))"
      using holds r(3) by (intro apply_record_anchored assms(1,2) r(1)) auto
    have inv: "doc_inv (fst (apply_record ?d ?r))" using apply_record_inv [OF assms(1) r(1)] by simp
    obtain s2 b2 cres where cm: "commit ?s b ?r = ((s2, b2), cres)" by (cases "commit ?s b ?r") auto
    have s2: "ss_state s2 = fst (apply_record ?d ?r)"
      using cm by (auto simp: commit_def split: prod.splits sum.splits)
    show ?thesis
    proof (cases cres)
      case (Inl e)
      with assms(4) m False cm have "s' = s2" "res = Inl e" by (auto simp: propose_def Let_def)
      with s2 anch inv show ?thesis by simp
    next
      case (Inr changed)
      have ap: "apply_record ?d ?r = (ss_state s2, Inr changed)"
        using cm Inr by (auto simp: commit_def split: prod.splits sum.splits)
      then have ch: "changed = [s_id ?sg]" "d_suggestions (ss_state s2) (s_id ?sg) = Some ?sg" "d_text (ss_state s2) = d_text ?d"
        using apply_suggest [OF r(2,3)] by blast+
      with assms(4) m False cm Inr have "s' = s2" "res = Inr (Posted ?sg)" by (auto simp: propose_def Let_def)
      with s2 anch inv ch holds show ?thesis by auto
    qed
  qed
qed

definition sample_draft :: suggestion where
  "sample_draft = \<lparr>s_id = [], s_agent = editor, s_invokedBy = editor, s_instruction = [], s_command = False,
     s_baseRev = 0, s_rev = 0, s_start = 0, s_end = 0, s_placement = PlaceAfter, s_original = [], s_body = [120],
     s_note = [], s_status = StatusPending, s_attempts = 1, s_createdAt = 1, s_resolvedBy = None, s_resolvedAt = None\<rparr>"

theorem proposal_is_anchored_witness:
  "anchored (ss_state (fst (fst (propose joined_session newBatch
     \<lparr>rd_rev = 0, rd_start = 0, rd_end = 0, rd_title = [], rd_before = [], rd_text = [], rd_after = []\<rparr> sample_draft 1))))"
proof -
  let ?rd = "\<lparr>rd_rev = 0, rd_start = 0, rd_end = 0, rd_title = [], rd_before = [], rd_text = [], rd_after = []\<rparr>"
  have d: "doc_inv (ss_state joined_session)" using joined_session_inv by (simp add: session_inv_def)
  have a: "anchored (ss_state joined_session)"
    by (simp add: joined_session_def newSession_def newDocState_def anchored_def)
  have r: "read_ok (ss_state joined_session) ?rd"
    by (simp add: joined_session_def newSession_def newDocState_def read_ok_def lengthAt_def sub_def)
  obtain s' b' res where p: "propose joined_session newBatch ?rd sample_draft 1 = ((s', b'), res)"
    by (cases "propose joined_session newBatch ?rd sample_draft 1") auto
  from proposal_is_anchored [OF d a r p] p show ?thesis by auto
qed

text \<open>
  the budget caps hold after every step: a document never has more runs going than \<open>concurrent\<close> and never
  more than \<open>perHour\<close> counted starts; and a start is refused exactly when one of the two caps is reached.
\<close>

theorem budget_caps:
  assumes "budget_inv b"
  shows "budget_inv (fst (acquire b doc now)) \<and> budget_inv (release b doc charge) \<and>
    (snd (acquire b doc now) = Inr () \<longleftrightarrow> bg_running b doc < bg_concurrent b \<and>
       length (filter (\<lambda>at_time. now - at_time < hour) (bg_started b doc)) < bg_perHour b) \<and>
    (snd (acquire b doc now) = Inr () \<longrightarrow>
       bg_running (release (fst (acquire b doc now)) doc False) doc = bg_running b doc)"
  using acquire_inv [OF assms] release_inv [OF assms]
  by (auto simp: acquire_def release_def Let_def)

theorem budget_caps_witness:
  "snd (acquire (newBudget 1 1) [100] 5) = Inr ()"
proof -
  have "budget_inv (newBudget 1 1)" by (simp add: budget_inv_def newBudget_def)
  from budget_caps [OF this, of "[100]" 5] show ?thesis by (simp add: newBudget_def)
qed

text \<open>
  A run that is not charged gives back the latest start, whichever run it was. With two runs an hour allowed, runs
  started at minutes 0 and 59, the first of them not charged, leave the start at minute 0 counted, so that
  after minute 60 two more runs start: three charged runs within two minutes.
\<close>

definition minute :: time where "minute = 60 * 10 ^ 9"

lemma acquire_fields:
  "bg_running b doc < bg_concurrent b \<Longrightarrow>
   length (filter (\<lambda>at_time. now - at_time < hour) (bg_started b doc)) < bg_perHour b \<Longrightarrow>
   snd (acquire b doc now) = Inr () \<and>
   bg_started (fst (acquire b doc now)) doc = filter (\<lambda>at_time. now - at_time < hour) (bg_started b doc) @ [now] \<and>
   bg_running (fst (acquire b doc now)) doc = bg_running b doc + 1 \<and>
   bg_perHour (fst (acquire b doc now)) = bg_perHour b \<and> bg_concurrent (fst (acquire b doc now)) = bg_concurrent b"
  by (simp add: acquire_def Let_def)

lemma release_fields:
  "bg_started (release b doc charge) doc = (if charge then bg_started b doc else butlast (bg_started b doc))"
  "bg_running (release b doc charge) doc = bg_running b doc - 1"
  "bg_perHour (release b doc charge) = bg_perHour b" "bg_concurrent (release b doc charge) = bg_concurrent b"
  by (simp_all add: release_def Let_def)

lemma uncharged_release_forgets_other_run:
  assumes "b0 = newBudget 2 2" and "b1 = fst (acquire b0 doc 0)" and "b2 = fst (acquire b1 doc (59 * minute))"
    and "b3 = release b2 doc False" and "b4 = release b3 doc True" and "b5 = fst (acquire b4 doc (60 * minute))"
  shows "snd (acquire b0 doc 0) = Inr () \<and> snd (acquire b1 doc (59 * minute)) = Inr () \<and>
    snd (acquire b4 doc (60 * minute)) = Inr () \<and> snd (acquire b5 doc (60 * minute)) = Inr ()"
proof -
  have b0: "bg_running b0 doc = 0" "bg_started b0 doc = []" "bg_perHour b0 = 2" "bg_concurrent b0 = 2"
    by (simp_all add: assms(1) newBudget_def)
  have b1: "snd (acquire b0 doc 0) = Inr ()" "bg_running b1 doc = 1" "bg_started b1 doc = [0]" "bg_perHour b1 = 2" "bg_concurrent b1 = 2"
    using acquire_fields [of b0 doc 0] b0 by (simp_all add: assms(2))
  have b2: "snd (acquire b1 doc (59 * minute)) = Inr ()" "bg_running b2 doc = 2" "bg_started b2 doc = [0, 59 * minute]"
    "bg_perHour b2 = 2" "bg_concurrent b2 = 2"
    using acquire_fields [of b1 doc "59 * minute"] b1 by (simp_all add: assms(3) hour_def minute_def)
  have b4: "bg_running b4 doc = 0" "bg_started b4 doc = [0]" "bg_perHour b4 = 2" "bg_concurrent b4 = 2"
    using b2 by (simp_all add: assms(4,5) release_fields)
  have b5: "snd (acquire b4 doc (60 * minute)) = Inr ()" "bg_running b5 doc = 1" "bg_started b5 doc = [60 * minute]"
    "bg_perHour b5 = 2" "bg_concurrent b5 = 2"
    using acquire_fields [of b4 doc "60 * minute"] b4 by (simp_all add: assms(6) hour_def minute_def)
  have "snd (acquire b5 doc (60 * minute)) = Inr ()"
    using acquire_fields [of b5 doc "60 * minute"] b5 by (simp add: hour_def minute_def)
  with b1(1) b2(1) b5(1) show ?thesis by blast
qed

end
