(* ===== verification/LogReads.thy ===== *)
theory LogReads
  imports OpLog
begin

text \<open>
  Log files however they were written: \<open>log_reads\<close> only asks that the file reads back to the given records and
  nothing is left over, as is so of every file that \<open>openFileLog\<close> accepts (a checksum may be in capital digits, for example).
\<close>

definition log_reads :: "file_log \<Rightarrow> byte list list \<Rightarrow> bool" where
  "log_reads l ps \<longleftrightarrow> readRecords (fl_file l) = Inr (ps, length (fl_file l)) \<and> fl_size l = length (fl_file l)"

lemma ReadBytes_split: "ReadBytes bs = Some (line, rest) \<Longrightarrow> bs = line @ newline # rest \<and> newline \<notin> set line"
  by (induction bs arbitrary: line) (auto split: if_splits option.splits)

lemma ReadBytes_more: "ReadBytes bs = Some (line, rest) \<Longrightarrow> ReadBytes (bs @ tl_bs) = Some (line, rest @ tl_bs)"
  by (induction bs arbitrary: line) (auto split: if_splits option.splits)

text \<open>A file read to its end is read first when more bytes follow it.\<close>

lemma readRecords_loop_more:
  "readRecords_loop bs records offset = Inr (ps, offset + length bs) \<Longrightarrow>
     readRecords_loop (bs @ tl_bs) records offset = readRecords_loop tl_bs ps (offset + length bs)"
proof (induction bs records offset rule: readRecords_loop.induct)
  case (1 bs records offset)
  show ?case
  proof (cases "ReadBytes bs")
    case None
    with 1(2) have "bs = []" "ps = records" by (simp_all add: readRecords_loop.simps [of bs])
    then show ?thesis by simp
  next
    case (Some lr)
    obtain line rest where lr: "lr = (line, rest)" by (cases lr)
    with Some have len: "length bs = length line + 1 + length rest" by (simp add: ReadBytes_length)
    with 1(2) Some lr obtain p where p: "checkLine line = Some p"
      by (cases "checkLine line") (simp_all add: readRecords_loop.simps [of bs] split: if_splits)
    with 1 Some lr len show ?thesis
      by (simp add: readRecords_loop.simps [of bs] readRecords_loop.simps [of "bs @ tl_bs"] ReadBytes_more add.assoc)
  qed
qed

text \<open>What is cut off after opening does not change what was read.\<close>

lemma readRecords_loop_valid:
  "readRecords_loop bs records offset = Inr (ps, n) \<Longrightarrow>
     offset \<le> n \<and> n \<le> offset + length bs \<and> readRecords_loop (take (n - offset) bs) records offset = Inr (ps, n)"
proof (induction bs records offset rule: readRecords_loop.induct)
  case (1 bs records offset)
  show ?case
  proof (cases "ReadBytes bs")
    case None
    with 1(2) show ?thesis by (auto simp: readRecords_loop.simps [of bs] readRecords_loop.simps [of "[]"])
  next
    case (Some lr)
    obtain line rest where lr: "lr = (line, rest)" by (cases lr)
    with Some have bs: "bs = line @ newline # rest" and "newline \<notin> set line" using ReadBytes_split by auto
    show ?thesis
    proof (cases "checkLine line")
      case None
      with 1(2) Some lr show ?thesis
        by (auto simp: readRecords_loop.simps [of bs] readRecords_loop.simps [of "[]"] split: if_splits)
    next
      case p: (Some p)
      with 1(2) Some lr have loop: "readRecords_loop rest (records @ [p]) (offset + length line + 1) = Inr (ps, n)"
        by (simp add: readRecords_loop.simps [of bs])
      from 1(1) [OF Some lr [symmetric] p this] have ih: "offset + length line + 1 \<le> n" "n \<le> offset + length bs"
        "readRecords_loop (take (n - (offset + length line + 1)) rest) (records @ [p]) (offset + length line + 1) = Inr (ps, n)"
        by (simp_all add: bs)
      have part: "take (n - offset) bs = line @ newline # take (n - (offset + length line + 1)) rest"
        using ih(1) by (simp add: bs take_Cons')
      have "ReadBytes (take (n - offset) bs) = Some (line, take (n - (offset + length line + 1)) rest)"
        using \<open>newline \<notin> set line\<close> by (simp add: part ReadBytes_line)
      with ih p show ?thesis by (simp add: readRecords_loop.simps [of "take (n - offset) bs"])
    qed
  qed
qed

lemma readRecords_more:
  "log_reads l ps \<Longrightarrow> readRecords (fl_file l @ tl_bs) = readRecords_loop tl_bs ps (length (fl_file l))"
  using readRecords_loop_more [of "fl_file l" "[]" 0 ps tl_bs] by (simp add: log_reads_def readRecords_def)

lemma log_holds_reads: "log_holds l ps \<Longrightarrow> log_reads l ps"
  using readRecords_torn [of ps "[]"] by (simp add: log_holds_def log_reads_def)

lemma openFileLog_reads:
  assumes "openFileLog True bytes = Inr (l, ps)"
  shows "log_reads l ps"
proof -
  from assms obtain n where n: "readRecords bytes = Inr (ps, n)"
    "l = \<lparr>fl_file = (if length bytes \<noteq> n then take n bytes else bytes), fl_size = n\<rparr>"
    by (auto simp: openFileLog_def rbind_eq_Inr split: if_splits)
  with readRecords_loop_valid [of bytes "[]" 0 ps n] show ?thesis
    by (auto simp: log_reads_def readRecords_def)
qed

lemma reads_reopen: "log_reads l ps \<Longrightarrow> openFileLog True (fl_file l) = Inr (l, ps)"
  by (simp add: log_reads_def openFileLog_def)

lemma reopen_iff: "reopen l = Some ps \<longleftrightarrow> (\<exists>l'. openFileLog True (fl_file l) = Inr (l', ps))"
  by (auto simp: reopen_def split: sum.split prod.split)

interpretation found_log: log_device payload_ok "Append disk" reopen log_reads for disk
proof (unfold_locales, goal_cases)
  case (1 l ps)
  then show ?case using reads_reopen by (auto simp: reopen_iff)
next
  case (2 l ps qs l' u)
  then show ?case
    using readRecords_more [OF 2(1), of "log_file qs"] readRecords_loop_file [OF 2(2), of "[]" ps "length (fl_file l)"]
    by (auto simp: Append_def log_reads_def append_buffer_file Let_def readRecords_loop.simps [of "[]"] split: if_splits disk.splits)
next
  case (3 l ps qs l' e)
  then obtain n cut where d: "disk = DiskFail n cut" "qs \<noteq> []"
    by (auto simp: Append_def append_buffer_file split: if_splits disk.splits)
  with 3 have l': "fl_file l' = (if cut then fl_file l else fl_file l @ take n (log_file qs))"
    by (auto simp: Append_def append_buffer_file log_reads_def Let_def)
  obtain k torn where t: "take n (log_file qs) = log_file (take k qs) @ torn" "newline \<notin> set torn"
    using prefix_of_lines [OF 3(2)] by blast
  have "readRecords_loop (log_file (take k qs) @ torn) ps m = Inr (ps @ take k qs, m + length (log_file (take k qs)))" for m
    using readRecords_loop_file [of "take k qs" torn ps m] 3(2) t(2)
    by (auto simp: readRecords_loop.simps [of torn] ReadBytes_none [THEN iffD2] dest: in_set_takeD)
  with readRecords_more [OF 3(1)] reads_reopen [OF 3(1)] show ?case
    by (cases cut) (auto simp: l' t reopen_iff openFileLog_def intro: exI [of _ 0] exI [of _ k])
qed

end
