(* ===== verification/DocStore.thy ===== *)
theory DocStore
  imports Agent LogReads
begin

text \<open>
  \<^verbatim>\<open>internal/collab/store.go\<close>: the documents of one directory, a session for each over the log in its file. Files are
  their bytes and a directory a map from names; the file of a document is written through whenever its session runs. What JSON
  makes of a record is a parameter, as are the outcomes of system calls, the clock and the random bytes of a new id.
\<close>

subsection \<open>Files and errors\<close>

text \<open>How records become bytes.\<close>

record rec_codec =
  rc_marshal :: "payload \<Rightarrow> byte list"
  rc_unmarshal :: "byte list \<Rightarrow> payload"

definition file_append :: "rec_codec \<Rightarrow> disk \<Rightarrow> file_log \<Rightarrow> payload list \<Rightarrow> file_log \<times> (log_error, unit) result" where
  "file_append J disk l ws = Append disk l (map (rc_marshal J) ws)"

datatype dirent = SubDir | LogFile "byte list"

type_synonym dir = "str \<rightharpoonup> dirent"

datatype store_error = ErrNotFound | ErrOpenLog log_error | ErrReplay doc_error | ErrInUse | ErrReadDir | ErrSameAgent str
  | ErrTitle | ErrTemplate | ErrRandom | ErrSessionClosed | ErrCommit doc_error

definition logSuffix :: str where "logSuffix = map of_char ''.oplog''"

definition log_name :: "str \<Rightarrow> str" where "log_name id' = id' @ logSuffix"

text \<open>\<^verbatim>\<open>docIDPattern\<close>, \<^verbatim>\<open>^[a-z0-9]{8,32}$\<close>\<close>

definition docIDPattern :: "str \<Rightarrow> bool" where
  "docIDPattern id' \<longleftrightarrow> 8 \<le> length id' \<and> length id' \<le> 32 \<and>
     list_all (\<lambda>r. (97 \<le> r \<and> r \<le> 122) \<or> (48 \<le> r \<and> r \<le> 57)) id'"

definition CutSuffix :: "str \<Rightarrow> str \<Rightarrow> str \<times> bool" where
  "CutSuffix s suffix = (if HasSuffix s suffix then (take (length s - length suffix) s, True) else (s, False))"

subsection \<open>The store\<close>

record agentInfo =
  ai_ID :: str
  ai_Name :: str
  ai_Kind :: str
  ai_Model :: str

record store =
  st_dir :: dir
  st_sessions :: "(str \<times> file_log session) list"
  st_damaged :: "(str \<times> store_error) list"
  st_closed :: bool
  st_agents :: "(str \<times> agentInfo) list"
  st_budget :: budget

definition librarian :: agentInfo where
  "librarian = \<lparr>ai_ID = map of_char ''librarian'', ai_Name = map of_char ''Librarian'', ai_Kind = map of_char ''retrieval'', ai_Model = []\<rparr>"

text \<open>
  Opening the log of one document. A missing file is created; a torn tail is cut off before the records are replayed.
\<close>

definition file_bytes :: "dirent option \<Rightarrow> byte list" where
  "file_bytes f = (case f of Some (LogFile bs) \<Rightarrow> bs | _ \<Rightarrow> [])"

definition openSession :: "rec_codec \<Rightarrow> bool \<Rightarrow> time \<Rightarrow> dir \<Rightarrow> str \<Rightarrow> dir \<times> (store_error, file_log session) result" where
  "openSession J io now dir id' =
     (let name = log_name id' in
      if dir name = Some SubDir then (dir, Inl (ErrOpenLog ErrIO))
      else case openFileLog io (file_bytes (dir name)) of
        Inl e \<Rightarrow> (dir(name \<mapsto> LogFile (file_bytes (dir name))), Inl (ErrOpenLog e))
      | Inr (log, payloads) \<Rightarrow>
          let dir = dir(name \<mapsto> LogFile (fl_file log)) in
          (case replay id' (map (rc_unmarshal J) payloads) of
             Inl e \<Rightarrow> (dir, Inl (ErrReplay e))
           | Inr state \<Rightarrow> (dir, Inr (newSession state log now))))"

text \<open>Registering the agents, the built-in one first.\<close>

fun register :: "(str \<times> agentInfo) list \<Rightarrow> agentInfo list \<Rightarrow> (store_error, (str \<times> agentInfo) list) result" where
  "register agents [] = Inr agents"
| "register agents (a # as) =
     (if map_of agents (ai_ID a) \<noteq> None then Inl (ErrSameAgent (ai_ID a)) else register (agents @ [(ai_ID a, a)]) as)"

text \<open>One entry of the directory: damaged documents are noted, unfinished creations dropped.\<close>

definition open_entry :: "rec_codec \<Rightarrow> (str \<Rightarrow> bool) \<Rightarrow> time \<Rightarrow> store \<Rightarrow> str \<Rightarrow> store" where
  "open_entry J io now st name =
     (case CutSuffix name logSuffix of (id', isLog) \<Rightarrow>
      if st_dir st name = Some SubDir \<or> \<not> isLog \<or> \<not> docIDPattern id' then st
      else case openSession J (io id') now (st_dir st) id' of
        (dir, Inl e) \<Rightarrow> st\<lparr>st_dir := dir, st_damaged := st_damaged st @ [(id', e)]\<rparr>
      | (dir, Inr s) \<Rightarrow>
          if d_createdAt (ss_state s) = 0 then st\<lparr>st_dir := dir\<rparr>
          else st\<lparr>st_dir := dir, st_sessions := AList.update id' s (st_sessions st)\<rparr>)"

text \<open>
  \<open>names\<close> is what \<^verbatim>\<open>os.ReadDir\<close> lists, if it succeeds; \<open>locked\<close> says that another process holds the directory.
\<close>

definition with_default_int :: "int \<Rightarrow> int \<Rightarrow> int" where "with_default_int n k = (if n \<le> 0 then k else n)"

definition OpenStore :: "rec_codec \<Rightarrow> (str \<Rightarrow> bool) \<Rightarrow> time \<Rightarrow> bool \<Rightarrow> int \<Rightarrow> int \<Rightarrow> agentInfo list \<Rightarrow> str list option \<Rightarrow> dir \<Rightarrow>
    (store_error, store) result" where
  "OpenStore J io now locked perHour concurrency agents names dir =
     (if locked then Inl ErrInUse
      else rbind (register [] (librarian # agents)) (\<lambda>registered.
        case names of
          None \<Rightarrow> Inl ErrReadDir
        | Some names \<Rightarrow>
            Inr (foldl (open_entry J io now)
              \<lparr>st_dir = dir, st_sessions = [], st_damaged = [], st_closed = False, st_agents = registered,
               st_budget = newBudget (nat (with_default_int perHour 30)) (with_default_int concurrency 2)\<rparr> names)))"

subsection \<open>Running a session\<close>

definition put_session :: "store \<Rightarrow> str \<Rightarrow> file_log session \<Rightarrow> store" where
  "put_session st id' s =
     st\<lparr>st_dir := (st_dir st)(log_name id' \<mapsto> LogFile (fl_file (ss_log s))), st_sessions := AList.update id' s (st_sessions st)\<rparr>"

definition run_session :: "rec_codec \<Rightarrow> disk \<Rightarrow> file_log event list \<Rightarrow> store \<Rightarrow> str \<Rightarrow> store" where
  "run_session J disk events st id' =
     (case map_of (st_sessions st) id' of
        None \<Rightarrow> st
      | Some s \<Rightarrow> put_session st id' (run_batch (file_append J disk) events s))"

text \<open>
  \<open>ask\<close>: a request that is answered once its batch is durable. Other events can share the batch, before or after it.
\<close>

type_synonym ('l, 'a) request = "'l session \<times> batch \<Rightarrow> ('l session \<times> batch) \<times> 'a"

definition batch_of :: "'l event list \<Rightarrow> 'l session \<Rightarrow> 'l session \<times> batch" where
  "batch_of events s = fold (\<lambda>event. event) events (s, newBatch)"

definition durable ::
    "('l \<Rightarrow> payload list \<Rightarrow> 'l \<times> (log_error, unit) result) \<Rightarrow> 'l event list \<Rightarrow> 'l session \<Rightarrow> bool" where
  "durable append_to events s =
     (case batch_of events s of (s', b) \<Rightarrow> b_payloads b = [] \<or> snd (append_to (ss_log s') (b_payloads b)) = Inr ())"

definition ask ::
    "('l \<Rightarrow> payload list \<Rightarrow> 'l \<times> (log_error, unit) result) \<Rightarrow> 'l event list \<Rightarrow> ('l, 'a) request \<Rightarrow> 'l event list \<Rightarrow>
     'l session \<Rightarrow> 'l session \<times> (store_error, 'a) result" where
  "ask append_to before request after s =
     (let events = before @ [\<lambda>x. fst (request x)] @ after in
      (run_batch append_to events s,
       if \<not> ss_dead s \<and> durable append_to events s then Inr (snd (request (batch_of before s))) else Inl ErrSessionClosed))"

text \<open>The live session of a document; one whose log failed is opened again from its file.\<close>

definition get_session :: "rec_codec \<Rightarrow> bool \<Rightarrow> time \<Rightarrow> store \<Rightarrow> str \<Rightarrow> store \<times> (store_error, file_log session) result" where
  "get_session J io now st id' =
     (case map_of (st_sessions st) id' of
        None \<Rightarrow> (st, Inl ErrNotFound)
      | Some s \<Rightarrow>
          if st_closed st then (st, Inl ErrNotFound)
          else if ss_dead s then
            (case openSession J io now (st_dir st) id' of
               (dir, Inl e) \<Rightarrow> (st\<lparr>st_dir := dir\<rparr>, Inl e)
             | (dir, Inr s) \<Rightarrow> (st\<lparr>st_dir := dir, st_sessions := AList.update id' s (st_sessions st)\<rparr>, Inr s))
          else (st, Inr s))"

definition ask_store :: "rec_codec \<Rightarrow> bool \<Rightarrow> time \<Rightarrow> disk \<Rightarrow> file_log event list \<Rightarrow> (file_log, 'a) request \<Rightarrow> file_log event list \<Rightarrow>
    store \<Rightarrow> str \<Rightarrow> store \<times> (store_error, 'a) result" where
  "ask_store J io now disk before request after st id' =
     (case get_session J io now st id' of
        (st, Inl e) \<Rightarrow> (st, Inl e)
      | (st, Inr s) \<Rightarrow>
          (case ask (file_append J disk) before request after s of (s, res) \<Rightarrow> (put_session st id' s, res)))"

subsection \<open>Templates\<close>

text \<open>The date of a time counted from the first instant of year 1, by eras of 400 years that begin in March.\<close>

definition day_ns :: int where "day_ns = 86400 * 10 ^ 9"

definition civil :: "time \<Rightarrow> int \<times> nat \<times> nat" where
  "civil t =
     (let z = t div day_ns + 306; era = z div 146097; doe = z mod 146097;
          yoe = (doe - doe div 1460 + doe div 36524 - doe div 146096) div 365;
          doy = doe - (365 * yoe + yoe div 4 - yoe div 100);
          mp = (5 * doy + 2) div 153;
          day = doy - (153 * mp + 2) div 5 + 1;
          month = (if mp < 10 then mp + 3 else mp - 9)
      in (yoe + era * 400 + (if month \<le> 2 then 1 else 0), nat month, nat day))"

definition month_names :: "str list" where
  "month_names = map (map of_char) [''Jan'', ''Feb'', ''Mar'', ''Apr'', ''May'', ''Jun'', ''Jul'', ''Aug'', ''Sep'', ''Oct'', ''Nov'', ''Dec'']"

text \<open>\<^verbatim>\<open>Format("Jan 2, 2006")\<close>: the year has at least four digits.\<close>

definition four_digits :: "int \<Rightarrow> str" where
  "four_digits n = (let ds = digits 10 (nat n) in replicate (4 - length ds) 48 @ ds)"

definition format_date :: "time \<Rightarrow> str" where
  "format_date t = (case civil t of (year, month, day) \<Rightarrow>
     month_names ! (month - 1) @ [32] @ digits 10 day @ map of_char '', '' @ four_digits year)"

definition lines_of :: "string list \<Rightarrow> str" where
  "lines_of ls = concat (map (\<lambda>l. map of_char l @ [10]) ls)"

definition blank_template :: "time \<Rightarrow> str" where "blank_template now = []"

definition factoid_template :: "time \<Rightarrow> str" where
  "factoid_template now =
     map of_char ''# Factoids, '' @ format_date now @ lines_of ['''', '''',
       ''One section per person. Type @librarian and a topic on its own line, then press Enter, to pull related work from Atlas.'', '''',
       ''## Your name'', ''Paper or talk: '', ''Link: '', ''Problem: '', ''Method: '', ''Results: '', ''What interested me: '',
       ''What could be better: '']"

definition experiment_template :: "time \<Rightarrow> str" where
  "experiment_template now =
     lines_of [''# Experiment notes'', ''''] @ map of_char ''Started '' @ format_date now @
     lines_of ['''', '''', ''## Hypothesis'', '''', ''## Setup'', '''', ''## Results'', '''', ''## Next steps'']"

definition templates :: "(str \<times> (time \<Rightarrow> str)) list" where
  "templates = [(map of_char ''blank'', blank_template), (map of_char ''factoid'', factoid_template),
     (map of_char ''experiment'', experiment_template)]"

subsection \<open>Creating\<close>

definition kind_system :: str where "kind_system = map of_char ''system''"

definition template_author :: "str \<Rightarrow> author" where
  "template_author template =
     \<lparr>a_id = map of_char ''template:'' @ template, a_name = map of_char ''Template'', a_kind = kind_system, a_model = []\<rparr>"

definition creator_of :: "author \<Rightarrow> author" where
  "creator_of by' = \<lparr>a_id = cleanText (a_id by') 64, a_name = cleanText (a_name by') maxNameRunes, a_kind = kind_human, a_model = []\<rparr>"

text \<open>The records a new document starts with, and the request that commits them.\<close>

definition create_meta :: "time \<Rightarrow> str \<Rightarrow> author \<Rightarrow> op log_record" where
  "create_meta now title by' =
     (meta_rec now title)\<lparr>r_by := (if a_name (creator_of by') \<noteq> [] then Some (creator_of by') else None)\<rparr>"

definition create_text :: "time \<Rightarrow> str \<Rightarrow> str \<Rightarrow> op log_record" where
  "create_text now template seed =
     op_rec now 1 (InsertString NewOp seed) (template_author template) [] [] [] None"

definition create_request :: "str \<Rightarrow> str \<Rightarrow> (time \<Rightarrow> str) \<Rightarrow> author \<Rightarrow> ('l, (doc_error, docInfo) result) request" where
  "create_request title template seed by' = (\<lambda>(s, b).
     let now = ss_now s in
     case commit s b (create_meta now title by') of
       (x, Inl e) \<Rightarrow> (x, Inl e)
     | ((s, b), Inr changed) \<Rightarrow>
         if seed now \<noteq> [] then
           (case commit s b (create_text now template (seed now)) of
              (x, Inl e) \<Rightarrow> (x, Inl e)
            | ((s, b), Inr changed) \<Rightarrow> ((s, b), Inr (info s)))
         else ((s, b), Inr (info s)))"

text \<open>\<^verbatim>\<open>newDocID\<close>: eight random bytes in hexadecimal, if the system has any.\<close>

definition newDocID :: "byte list option \<Rightarrow> str option" where
  "newDocID random = map_option hex_string random"

text \<open>Taking a failed creation back; \<open>removed\<close> says whether its file could be removed.\<close>

definition undo_create :: "bool \<Rightarrow> store \<Rightarrow> str \<Rightarrow> store" where
  "undo_create removed st id' =
     st\<lparr>st_sessions := AList.delete id' (st_sessions st),
        st_dir := (if removed then (st_dir st)(log_name id' := None) else st_dir st)\<rparr>"

definition template_name :: "str \<Rightarrow> str" where
  "template_name template = (if template = [] then map of_char ''blank'' else template)"

definition Create :: "rec_codec \<Rightarrow> bool \<Rightarrow> time \<Rightarrow> disk \<Rightarrow> bool \<Rightarrow> byte list option \<Rightarrow> store \<Rightarrow> str \<Rightarrow> str \<Rightarrow> author \<Rightarrow>
    store \<times> (store_error, docInfo) result" where
  "Create J io now disk removed random st title template by' =
     (let title = cleanText title 120; template = template_name template in
      if title = [] then (st, Inl ErrTitle)
      else case map_of templates template of
        None \<Rightarrow> (st, Inl ErrTemplate)
      | Some seed \<Rightarrow>
          (case newDocID random of
             None \<Rightarrow> (st, Inl ErrRandom)
           | Some id' \<Rightarrow>
               if st_closed st then (st, Inl ErrNotFound)
               else (case openSession J io now (st_dir st) id' of
                  (dir, Inl e) \<Rightarrow> (st\<lparr>st_dir := dir\<rparr>, Inl e)
                | (dir, Inr s) \<Rightarrow>
                    let st = st\<lparr>st_dir := dir, st_sessions := AList.update id' s (st_sessions st)\<rparr> in
                    (case ask (file_append J disk) [] (create_request title template seed by') [] s of
                       (s, Inr (Inr i)) \<Rightarrow> (put_session st id' s, Inr i)
                     | (s, Inr (Inl e)) \<Rightarrow> (undo_create removed (put_session st id' s) id', Inl (ErrCommit e))
                     | (s, Inl e) \<Rightarrow> (undo_create removed (put_session st id' s) id', Inl e)))))"

subsection \<open>Reading\<close>

definition doc_before :: "docInfo \<Rightarrow> docInfo \<Rightarrow> bool" where
  "doc_before a b \<longleftrightarrow> (if i_updatedAt a = i_updatedAt b then str_le (i_id a) (i_id b) else i_updatedAt b < i_updatedAt a)"

fun insert_doc :: "docInfo \<Rightarrow> docInfo list \<Rightarrow> docInfo list" where
  "insert_doc d [] = [d]"
| "insert_doc d (e # es) = (if doc_before d e then d # e # es else e # insert_doc d es)"

definition published_docs :: "store \<Rightarrow> docInfo list" where
  "published_docs st = List.map_filter (\<lambda>(id', s).
     case ss_published s of
       Some p \<Rightarrow> if i_createdAt (su_info p) \<noteq> 0 then Some (su_info p) else None
     | None \<Rightarrow> None) (st_sessions st)"

definition List_docs :: "store \<Rightarrow> docInfo list" where
  "List_docs st = foldr insert_doc (published_docs st) []"

record snapshot =
  sn_doc :: docInfo
  sn_text :: str
  sn_suggestions :: "suggestion list"

definition read_request :: "('l, snapshot) request" where
  "read_request = (\<lambda>(s, b). ((s, b),
     \<lparr>sn_doc = info s, sn_text = decodeText (d_text (ss_state s)), sn_suggestions = openSuggestions (ss_state s)\<rparr>))"

definition Read :: "rec_codec \<Rightarrow> bool \<Rightarrow> time \<Rightarrow> disk \<Rightarrow> file_log event list \<Rightarrow> file_log event list \<Rightarrow> store \<Rightarrow> str \<Rightarrow>
    store \<times> (store_error, snapshot) result" where
  "Read J io now disk before after st id' = ask_store J io now disk before read_request after st id'"

definition Summary :: "store \<Rightarrow> str \<Rightarrow> summary option" where
  "Summary st id' =
     (case map_of (st_sessions st) id' of
        None \<Rightarrow> None
      | Some s \<Rightarrow>
          (case ss_published s of
             Some p \<Rightarrow> if i_createdAt (su_info p) = 0 then None else Some p
           | None \<Rightarrow> None))"

definition Count :: "store \<Rightarrow> nat" where "Count st = length (st_sessions st)"

definition Agents :: "store \<Rightarrow> agentInfo list" where "Agents st = map snd (st_agents st)"

text \<open>The history of a document as it is handed out: one record per line.\<close>

definition handleLog :: "rec_codec \<Rightarrow> bool \<Rightarrow> time \<Rightarrow> store \<Rightarrow> str \<Rightarrow> store \<times> (store_error, byte list) result" where
  "handleLog J io now st id' =
     (case get_session J io now st id' of
        (st, Inl e) \<Rightarrow> (st, Inl e)
      | (st, Inr s) \<Rightarrow>
          (st, case st_dir st (log_name id') of
             Some (LogFile bs) \<Rightarrow>
               (case readRecords bs of
                  Inl e \<Rightarrow> Inl (ErrOpenLog e)
                | Inr (records, n) \<Rightarrow> Inr (concat (map (\<lambda>p. p @ [newline]) records)))
           | _ \<Rightarrow> Inl (ErrOpenLog ErrIO)))"

definition Close_store :: "rec_codec \<Rightarrow> (str \<Rightarrow> disk) \<Rightarrow> store \<Rightarrow> store" where
  "Close_store J disk st =
     foldl (\<lambda>st id'. run_session J (disk id') [stop_event] st id') (st\<lparr>st_closed := True\<rparr>) (map fst (st_sessions st))"

end
