(* ===== verification/StoreProps.thy ===== *)
theory StoreProps
  imports DocStore
begin

text \<open>
  What a store of documents guarantees: whatever its sessions do and whatever the disk does to their logs, every document it serves is the one its
  file holds, and a store opened on the same directory serves it again.
\<close>

subsection \<open>Records in files\<close>

text \<open>JSON gives this record back, on one line; and its operation is one the decoder accepts.\<close>

definition json_keeps :: "rec_codec \<Rightarrow> payload \<Rightarrow> bool" where
  "json_keeps J w \<longleftrightarrow> payload_ok (rc_marshal J w) \<and> rc_unmarshal J (rc_marshal J w) = w"

definition carried :: "rec_codec \<Rightarrow> op log_record \<Rightarrow> bool" where
  "carried J r \<longleftrightarrow> record_sendable r \<and> json_keeps J (marshal_record r)"

definition reads_as :: "rec_codec \<Rightarrow> str \<Rightarrow> byte list list \<Rightarrow> doc_state \<Rightarrow> bool" where
  "reads_as J id' ps d \<longleftrightarrow> replay id' (map (rc_unmarshal J) ps) = Inr d"

lemma replay_loop_append:
  "replay_loop d i (ws @ vs) = (case replay_loop d i ws of Inl e \<Rightarrow> Inl e | Inr d' \<Rightarrow> replay_loop d' (i + length ws) vs)"
  by (induction ws arbitrary: d i) (auto split: option.split prod.split sum.split)

lemma reads_as_records:
  assumes "reads_as J id' ps d" and "\<forall>r \<in> set rs. carried J r"
  shows "reads_as J id' (ps @ map (\<lambda>r. rc_marshal J (marshal_record r)) rs) d' \<longleftrightarrow> apply_all d rs = Inr d'"
proof -
  have "map (rc_unmarshal J) (map (\<lambda>r. rc_marshal J (marshal_record r)) rs) = map marshal_record rs"
    using assms(2) by (simp add: carried_def json_keeps_def)
  moreover have "\<forall>r \<in> set rs. record_sendable r" using assms(2) by (auto simp: carried_def)
  ultimately show ?thesis
    using assms(1) by (simp add: reads_as_def replay_def replay_loop_append replay_loop_apply_all del: map_map)
qed

lemma reads_as_empty [simp]: "reads_as J id' [] d \<longleftrightarrow> d = newDocState id'"
  by (auto simp: reads_as_def replay_def)

lemma apply_record_created: "d_createdAt d \<noteq> 0 \<Longrightarrow> d_createdAt (fst (apply_record d r)) \<noteq> 0"
proof -
  have ai: "d_createdAt (snd (authorIndex d a)) = d_createdAt d" for a
    by (auto simp: authorIndex_def split: option.split)
  have "commitOp d r p a acc t = Inr (d', ch) \<Longrightarrow> d_createdAt d' = d_createdAt d" for p a acc t d' ch
    using ai [of a] by (auto simp: commitOp_def Let_def rbind_eq_Inr split: prod.splits)
  then have "d_createdAt (fst (applyOp d r)) = d_createdAt d"
    by (auto simp: applyOp_def Let_def split: option.split sum.split prod.split)
  then show "d_createdAt d \<noteq> 0 \<Longrightarrow> d_createdAt (fst (apply_record d r)) \<noteq> 0"
    by (auto simp: apply_record_def split: rec_kind.split option.split)
qed

lemma apply_all_created: "apply_all d rs = Inr d' \<Longrightarrow> d_createdAt d \<noteq> 0 \<Longrightarrow> d_createdAt d' \<noteq> 0"
proof (induction rs arbitrary: d)
  case (Cons r rs)
  then show ?case using apply_record_created [of d r] by (auto split: prod.splits sum.splits)
qed simp

lemma apply_all_take: "apply_all d rs = Inr d' \<Longrightarrow> \<exists>d''. apply_all d (take k rs) = Inr d''"
  using apply_all_append [of d "take k rs" "drop k rs"] by (auto split: sum.splits)

subsection \<open>Sessions backed by their files\<close>

text \<open>The document a session's file holds is the one it serves, unless it is dead: then the file is what counts.\<close>

definition backed :: "rec_codec \<Rightarrow> str \<Rightarrow> file_log session \<Rightarrow> bool" where
  "backed J id' s \<longleftrightarrow> (\<exists>ps d. reopen (ss_log s) = Some ps \<and> reads_as J id' ps d \<and> d_createdAt d \<noteq> 0 \<and>
     (\<not> ss_dead s \<longrightarrow> log_reads (ss_log s) ps \<and> d = ss_state s))"

text \<open>The records a batch commits: applied in order they lead to its state.\<close>

definition commits :: "'l event list \<Rightarrow> 'l session \<Rightarrow> op log_record list \<Rightarrow> bool" where
  "commits events s rs \<longleftrightarrow> b_payloads (snd (batch_of events s)) = map marshal_record rs \<and>
     apply_all (ss_state s) rs = Inr (ss_state (fst (batch_of events s)))"

definition good_run :: "rec_codec \<Rightarrow> file_log event list \<Rightarrow> file_log session \<Rightarrow> bool" where
  "good_run J events s \<longleftrightarrow> (\<forall>ev \<in> set events. proper_event ev) \<and> (\<exists>rs. commits events s rs \<and> (\<forall>r \<in> set rs. carried J r))"

lemma batch_of_records:
  assumes "good_run J events s"
  obtains rs where "ss_log (fst (batch_of events s)) = ss_log s" and "commits events s rs" and "\<forall>r \<in> set rs. carried J r"
  using assms fold_evolves [of events "(s, newBatch)"]
  by (auto simp: good_run_def batch_of_def evolves_def)

text \<open>One batch on the file: what the file holds afterwards, whatever the disk did.\<close>

lemma run_batch_log:
  fixes disk
  assumes run: "good_run J events s" and alive: "\<not> ss_dead s" and log: "log_reads (ss_log s) ps" and d: "reads_as J id' ps (ss_state s)"
  defines "s' \<equiv> run_batch (file_append J disk) events s"
  shows "\<exists>rs k d. commits events s rs \<and> (\<forall>r \<in> set rs. carried J r) \<and> apply_all (ss_state s) (take k rs) = Inr d \<and>
    (let qs = ps @ map (\<lambda>r. rc_marshal J (marshal_record r)) (take k rs) in
     reopen (ss_log s') = Some qs \<and> reads_as J id' qs d \<and>
     (durable (file_append J disk) events s \<longrightarrow> log_reads (ss_log s') qs \<and> take k rs = rs \<and> ss_state s' = d \<and>
        ss_dead s' = ss_dead (fst (batch_of events s))) \<and>
     (\<not> ss_dead s' \<longrightarrow> durable (file_append J disk) events s))"
proof -
  obtain rs where rs: "ss_log (fst (batch_of events s)) = ss_log s" "b_payloads (snd (batch_of events s)) = map marshal_record rs"
    "apply_all (ss_state s) rs = Inr (ss_state (fst (batch_of events s)))" "\<forall>r \<in> set rs. carried J r"
    using run by (rule batch_of_records) (simp add: commits_def)
  obtain s1 b1 where b: "batch_of events s = (s1, b1)" by (cases "batch_of events s")
  let ?qs = "map (\<lambda>r. rc_marshal J (marshal_record r)) rs"
  have ok: "\<forall>q \<in> set ?qs. payload_ok q" using rs(4) by (auto simp: carried_def json_keeps_def)
  obtain l res where ap: "Append disk (ss_log s) ?qs = (l, res)" by (cases "Append disk (ss_log s) ?qs")
  from found_log.append_keeps [OF log ok ap] obtain k where
    k: "reopen l = Some (ps @ take k ?qs)" "res = Inr () \<longrightarrow> take k ?qs = ?qs" by blast
  obtain d where d': "apply_all (ss_state s) (take k rs) = Inr d" using apply_all_take [OF rs(3)] by blast
  have reads: "reads_as J id' (ps @ take k ?qs) d"
    using reads_as_records [OF d, of "take k rs"] rs(4) d' by (auto simp: take_map dest: in_set_takeD)
  have all: "take k rs = rs" if "res = Inr ()"
  proof -
    have "length (take k ?qs) = length ?qs" using k(2) that by simp
    then show ?thesis by simp
  qed
  have full: "log_reads l (ps @ ?qs)" if "res = Inr ()" using found_log.append_done [OF log ok] ap that by blast
  have same: "l = ss_log s \<and> res = Inr ()" if "rs = []" using ap that by (simp add: Append_def)
  have fap: "file_append J disk (ss_log s) (map marshal_record rs) = (l, res)" using ap by (simp add: file_append_def comp_def)
  have s': "ss_log s' = l" "\<not> ss_dead s' \<Longrightarrow> res = Inr ()" "res = Inr () \<Longrightarrow> ss_state s' = ss_state s1 \<and> ss_dead s' = ss_dead s1" "durable (file_append J disk) events s \<longleftrightarrow> res = Inr ()"
    using b alive rs(1,2) fap same
    by (cases "rs = []"; cases res; simp add: s'_def run_batch_def batch_of_def [symmetric] fail_def durable_def)+
  show ?thesis
    using rs d' k(1) reads all full s' b
    by (intro exI [of _ rs] exI [of _ k] exI [of _ d]) (auto simp: Let_def take_map commits_def)
qed

text \<open>
  C23: a batch of messages is in the log's file before anyone hears of it. After a write that succeeded a later process reads the old records and
  all of the batch, and the session serves the state they lead to. When the write or its synchronisation fails, wherever in the batch, the
  session dies: no connection is sent anything and every editor is cut off; a later process reads the old records and at most a prefix of the batch,
  and the file is as before if it could be cut back.
\<close>

theorem batch_is_written_before_delivery:
  assumes "\<forall>ev \<in> set evs. proper_event ev" and alive: "\<not> ss_dead s" and log: "log_reads (ss_log s) ps" and line: "\<And>w. payload_ok (rc_marshal J w)"
  shows "\<exists>new k. (case batch_of evs s of (s1, b1) \<Rightarrow>
    let s' = run_batch (file_append J disk) evs s; lines = map (\<lambda>r. rc_marshal J (marshal_record r)) new in
    b_payloads b1 = map marshal_record new \<and> apply_all (ss_state s) new = Inr (ss_state s1) \<and> reopen (ss_log s') = Some (ps @ take k lines) \<and>
    (if disk = DiskOk \<or> new = []
     then take k lines = lines \<and> log_reads (ss_log s') (ps @ lines) \<and> ss_dead s' = ss_dead s1 \<and> ss_state s' = ss_state s1
     else ss_dead s' \<and> (\<forall>h. cn_out (ss_store s' h) = cn_out (ss_store s1 h)) \<and> (\<forall>h \<in> set (ss_conns s1). cn_done (ss_store s' h)) \<and>
       (\<forall>n. disk = DiskFail n True \<longrightarrow> fl_file (ss_log s') = fl_file (ss_log s))))"
proof -
  obtain s1 b1 where b: "batch_of evs s = (s1, b1)" by fastforce
  from fold_evolves [OF assms(1), of "(s, newBatch)"] b obtain new where new:
    "ss_log s1 = ss_log s" "b_payloads b1 = map marshal_record new" "apply_all (ss_state s) new = Inr (ss_state s1)"
    by (auto simp: batch_of_def evolves_def newBatch_payloads)
  let ?lines = "map (\<lambda>r. rc_marshal J (marshal_record r)) new"
  have ok: "\<forall>q \<in> set ?lines. payload_ok q" using line by simp
  obtain l res where ap: "Append disk (ss_log s) ?lines = (l, res)" by fastforce
  have fap: "file_append J disk (ss_log s) (map marshal_record new) = (l, res)" using ap by (simp add: file_append_def comp_def)
  from found_log.append_keeps [OF log ok ap] obtain k where
    k: "reopen l = Some (ps @ take k ?lines)" "res = Inr () \<longrightarrow> take k ?lines = ?lines" by blast
  have buffer: "append_buffer ?lines = Inr (log_file ?lines)" using ok by (simp add: append_buffer_file)
  show ?thesis
  proof (cases "disk = DiskOk \<or> new = []")
    case True
    then have res: "res = Inr ()" and same: "new = [] \<Longrightarrow> l = ss_log s" using ap buffer by (auto simp: Append_def split: if_splits)
    have "log_reads l (ps @ ?lines)" using found_log.append_done [OF log ok] ap res by blast
    moreover have "ss_log (run_batch (file_append J disk) evs s) = l \<and> ss_dead (run_batch (file_append J disk) evs s) = ss_dead s1 \<and>
        ss_state (run_batch (file_append J disk) evs s) = ss_state s1"
      using b alive new(1,2) fap res same by (cases "new = []") (simp_all add: run_batch_def batch_of_def [symmetric])
    ultimately show ?thesis using True new(2,3) k res by (intro exI [of _ new] exI [of _ k]) (simp add: b Let_def)
  next
    case False
    then obtain n cut where disk: "disk = DiskFail n cut" by (cases disk) auto
    have l: "l = (ss_log s)\<lparr>fl_file := (if cut then take (fl_size (ss_log s)) (fl_file (ss_log s) @ take n (log_file ?lines))
        else fl_file (ss_log s) @ take n (log_file ?lines))\<rparr>" and res: "res = Inl ErrIO"
      using ap buffer False by (auto simp: Append_def disk Let_def)
    have cut_back: "fl_file l = fl_file (ss_log s)" if "cut" using that log by (simp add: l log_reads_def)
    have "run_batch (file_append J disk) evs s = fail (s1\<lparr>ss_log := l\<rparr>)"
      using b alive new(1,2) fap res False by (simp add: run_batch_def batch_of_def [symmetric])
    then show ?thesis using False new(2,3) k(1) cut_back
      by (intro exI [of _ new] exI [of _ k]) (auto simp: b Let_def fail_def kill_def disk)
  qed
qed

definition editing_session :: "file_log session" where
  "editing_session = (newSession (newDocState [100]) \<lparr>fl_file = [], fl_size = 0\<rparr> 5)
     \<lparr>ss_store := (\<lambda>h. if h = 0 then newConn\<lparr>cn_id := [99, 49], cn_client := [97], cn_user := editor, cn_joined := True\<rparr>
        else newConn), ss_conns := [0], ss_nextConn := 1\<rparr>"

definition line_codec :: rec_codec where "line_codec = \<lparr>rc_marshal = (\<lambda>_. [123, 125]), rc_unmarshal = (\<lambda>_. NotRecord)\<rparr>"

theorem batch_is_written_before_delivery_witness:
  "reopen (ss_log (run_batch (file_append line_codec DiskOk) [message_event 0 insert_msg] editing_session)) = Some [[123, 125]] \<and>
   ss_dead (run_batch (file_append line_codec (DiskFail 3 False)) [message_event 0 insert_msg] editing_session)"
proof -
  have s: "\<not> ss_dead editing_session" "log_reads (ss_log editing_session) []"
    by (simp_all add: editing_session_def newSession_def publish_def Let_def log_reads_def readRecords_def readRecords_loop.simps [of "[]"])
  have e: "\<forall>ev \<in> set [message_event 0 insert_msg :: file_log event]. proper_event ev" using proper_events(1) by simp
  have line: "payload_ok (rc_marshal line_codec w)" for w by (simp add: line_codec_def payload_ok_def newline_def)
  have one: "length (b_payloads (snd (batch_of [message_event 0 insert_msg] editing_session))) = 1"
    by (simp add: batch_of_def message_event_def handle_def handleOp_def editing_session_def insert_msg_def newSession_def publish_def Let_def
      newConn_def newDocState_def byte_len_def utf8_len_def opKey_def catchUp_def lengthAt_def checkText_def
      commit_def apply_record_def applyOp_def commitOp_def authorIndex_def Apply_def applyAttribution_def
      NewOp_def Insert_def comp_kind_defs op_rec_def maxDocUnits_def insidePair_def carriage_return_def
      afterOp_def moveRuns_def moveCarets_def setOrigin_def EditPos_def newBatch_payloads)
  obtain s1 b1 where b: "batch_of [message_event 0 insert_msg] editing_session = (s1, b1)" by fastforce
  have single: "map (\<lambda>r. rc_marshal line_codec (marshal_record r)) new = [[123, 125]] \<and> new \<noteq> []" if "b_payloads b1 = map marshal_record new" for new
    using one that b by (cases new) (auto simp: line_codec_def)
  show ?thesis
    using batch_is_written_before_delivery [OF e s line, of DiskOk] batch_is_written_before_delivery [OF e s line, of "DiskFail 3 False"] single
    by (fastforce simp: b Let_def)
qed

lemma run_batch_backed:
  assumes "backed J id' s" and "good_run J events s"
  shows "backed J id' (run_batch (file_append J disk) events s)"
proof (cases "ss_dead s")
  case True
  then show ?thesis using assms(1) by (simp add: run_batch_def)
next
  case False
  with assms(1) obtain ps where ps: "log_reads (ss_log s) ps" "reads_as J id' ps (ss_state s)" "d_createdAt (ss_state s) \<noteq> 0"
    by (auto simp: backed_def)
  from run_batch_log [OF assms(2) False ps(1,2), of disk] obtain rs k d where
    r: "apply_all (ss_state s) (take k rs) = Inr d"
      "reopen (ss_log (run_batch (file_append J disk) events s)) = Some (ps @ map (\<lambda>r. rc_marshal J (marshal_record r)) (take k rs))"
      "reads_as J id' (ps @ map (\<lambda>r. rc_marshal J (marshal_record r)) (take k rs)) d"
      "\<not> ss_dead (run_batch (file_append J disk) events s) \<longrightarrow>
         log_reads (ss_log (run_batch (file_append J disk) events s)) (ps @ map (\<lambda>r. rc_marshal J (marshal_record r)) (take k rs)) \<and>
         ss_state (run_batch (file_append J disk) events s) = d"
    by (auto simp: Let_def)
  with apply_all_created [OF r(1) ps(3)] show ?thesis
    unfolding backed_def by (intro exI conjI impI) auto
qed

subsection \<open>The store invariant\<close>

text \<open>Every session is one of a document whose file holds what the session's log says, and is backed by it.\<close>

definition in_step :: "rec_codec \<Rightarrow> dir \<Rightarrow> str \<Rightarrow> file_log session \<Rightarrow> bool" where
  "in_step J dir id' s \<longleftrightarrow> docIDPattern id' \<and> dir (log_name id') = Some (LogFile (fl_file (ss_log s))) \<and> backed J id' s"

definition store_ok :: "rec_codec \<Rightarrow> store \<Rightarrow> bool" where
  "store_ok J st \<longleftrightarrow> (\<forall>id' s. map_of (st_sessions st) id' = Some s \<longrightarrow> in_step J (st_dir st) id' s)"

lemma log_name_inject [simp]: "log_name a = log_name b \<longleftrightarrow> a = b"
  by (simp add: log_name_def)

lemma CutSuffix_name: "CutSuffix name logSuffix = (id', True) \<longleftrightarrow> name = log_name id'"
proof
  assume "CutSuffix name logSuffix = (id', True)"
  then have "HasSuffix name logSuffix" "id' = take (length name - length logSuffix) name"
    by (auto simp: CutSuffix_def split: if_splits)
  then show "name = log_name id'"
    using append_take_drop_id [of "length name - length logSuffix" name] by (simp add: HasSuffix_def log_name_def)
qed (simp add: CutSuffix_def log_name_def)

text \<open>Opening the file of a session finds the document it is backed by.\<close>

lemma openSession_backed:
  assumes "in_step J dir id' s"
  shows "\<exists>l ps d. openSession J True now dir id' = (dir(log_name id' \<mapsto> LogFile (fl_file l)), Inr (newSession d l now)) \<and>
    reopen (ss_log s) = Some ps \<and> log_reads l ps \<and> reads_as J id' ps d \<and> d_createdAt d \<noteq> 0 \<and>
    (\<not> ss_dead s \<longrightarrow> d = ss_state s \<and> l = ss_log s)"
proof -
  from assms obtain ps d where b: "reopen (ss_log s) = Some ps" "reads_as J id' ps d" "d_createdAt d \<noteq> 0"
    "\<not> ss_dead s \<longrightarrow> log_reads (ss_log s) ps \<and> d = ss_state s" and f: "dir (log_name id') = Some (LogFile (fl_file (ss_log s)))"
    by (auto simp: in_step_def backed_def)
  obtain l where l: "openFileLog True (fl_file (ss_log s)) = Inr (l, ps)" using b(1) by (auto simp: reopen_iff)
  with b(4) reads_reopen [of "ss_log s" ps] have "\<not> ss_dead s \<longrightarrow> l = ss_log s" by auto
  with b l f openFileLog_reads [OF l] show ?thesis
    by (intro exI [of _ l] exI [of _ ps] exI [of _ d]) (simp add: openSession_def Let_def file_bytes_def reads_as_def)
qed

lemma newSession_fields [simp]:
  "ss_state (newSession d l now) = d" "ss_log (newSession d l now) = l" "ss_dead (newSession d l now) = False"
  "ss_now (newSession d l now) = now"
  by (simp_all add: newSession_def publish_def Let_def)

text \<open>A session that was opened is backed by its file, as soon as the document was created.\<close>

lemma openSession_opened:
  assumes "openSession J io now dir id' = (dir', Inr s)"
  obtains l ps where "io" and "dir' = dir(log_name id' \<mapsto> LogFile (fl_file l))" and "s = newSession (ss_state s) l now" and "log_reads l ps"
    and "reads_as J id' ps (ss_state s)" and "openFileLog True (file_bytes (dir (log_name id'))) = Inr (l, ps)"
proof -
  have io: "io" using assms by (cases io) (auto simp: openSession_def Let_def openFileLog_def split: if_splits)
  then obtain l ps d where o: "openFileLog True (file_bytes (dir (log_name id'))) = Inr (l, ps)"
    "replay id' (map (rc_unmarshal J) ps) = Inr d" "dir' = dir(log_name id' \<mapsto> LogFile (fl_file l))" "s = newSession d l now"
    using assms by (auto simp: openSession_def Let_def split: if_splits sum.splits)
  show ?thesis
    by (rule that [OF io o(3) _ openFileLog_reads [OF o(1)] _ o(1)]) (use o in \<open>simp_all add: reads_as_def\<close>)
qed

lemma openSession_in_step:
  assumes "openSession J io now dir id' = (dir', Inr s)" and "d_createdAt (ss_state s) \<noteq> 0" and "docIDPattern id'"
  shows "in_step J dir' id' s"
  using assms(1)
proof (rule openSession_opened)
  fix l ps
  assume o: "dir' = dir(log_name id' \<mapsto> LogFile (fl_file l))" "s = newSession (ss_state s) l now" "log_reads l ps"
    "reads_as J id' ps (ss_state s)"
  have "ss_log s = l" "\<not> ss_dead s" using o(2) newSession_fields(2,3) by metis+
  moreover have "reopen l = Some ps" using reads_reopen [OF o(3)] by (simp add: reopen_iff)
  ultimately show ?thesis using o assms(2,3) by (auto simp: in_step_def backed_def)
qed

lemma openSession_frame:
  "openSession J io now dir id' = (dir', res) \<Longrightarrow> name \<noteq> log_name id' \<Longrightarrow> dir' name = dir name"
  by (auto simp: openSession_def Let_def split: if_splits sum.splits prod.splits)

lemma in_step_frame:
  "in_step J dir id' s \<Longrightarrow> dir' (log_name id') = dir (log_name id') \<Longrightarrow> in_step J dir' id' s"
  by (simp add: in_step_def)

text \<open>An attempt to open that fails leaves the file of a served document as it was.\<close>

lemma openSession_refused:
  assumes "store_ok J st" and "openSession J io now (st_dir st) id' = (dir', Inl e)"
  shows "store_ok J (st\<lparr>st_dir := dir'\<rparr>)"
proof -
  have "in_step J dir' i s" if m: "map_of (st_sessions st) i = Some s" for i s
  proof -
    have st: "in_step J (st_dir st) i s" using assms(1) m by (simp add: store_ok_def)
    have "dir' (log_name i) = st_dir st (log_name i)"
    proof (cases "i = id'")
      case True
      with openSession_backed [OF st, of now] assms(2) have "\<not> io" by auto
      with assms(2) st True show ?thesis
        by (auto simp: openSession_def openFileLog_def Let_def in_step_def file_bytes_def split: if_splits)
    qed (use openSession_frame [OF assms(2), of "log_name i"] in simp)
    with st show ?thesis by (rule in_step_frame)
  qed
  then show ?thesis by (simp add: store_ok_def)
qed

text \<open>Changing one document leaves the others in step.\<close>

lemma store_ok_update:
  assumes "store_ok J st" and "\<forall>name. name \<noteq> log_name id' \<longrightarrow> dir' name = st_dir st name" and "in_step J dir' id' s"
  shows "store_ok J (st\<lparr>st_dir := dir', st_sessions := AList.update id' s (st_sessions st)\<rparr>)"
proof -
  have "in_step J dir' i t" if "map_of (AList.update id' s (st_sessions st)) i = Some t" for i t
    using that assms in_step_frame [of J "st_dir st" i t dir']
    by (cases "i = id'") (auto simp: store_ok_def update_conv')
  then show ?thesis by (simp add: store_ok_def)
qed

lemma put_session_ok:
  assumes "store_ok J st" and "docIDPattern id'" and "backed J id' s"
  shows "store_ok J (put_session st id' s)"
  using store_ok_update [OF assms(1), of id' "(st_dir st)(log_name id' \<mapsto> LogFile (fl_file (ss_log s)))" s] assms(2,3)
  by (simp add: put_session_def in_step_def)

lemma run_session_ok:
  assumes "store_ok J st" and "\<And>s. map_of (st_sessions st) id' = Some s \<Longrightarrow> good_run J events s"
  shows "store_ok J (run_session J disk events st id')"
proof (cases "map_of (st_sessions st) id'")
  case (Some s)
  with assms have "docIDPattern id'" "backed J id' s" "good_run J events s" by (auto simp: store_ok_def in_step_def)
  with Some put_session_ok [OF assms(1) _ run_batch_backed] show ?thesis by (simp add: run_session_def)
qed (simp add: run_session_def assms(1))

lemma get_session_ok:
  assumes "store_ok J st" and "get_session J io now st id' = (st', res)"
  shows "store_ok J st' \<and> (\<forall>s. res = Inr s \<longrightarrow> map_of (st_sessions st') id' = Some s \<and> \<not> ss_dead s)"
proof (cases "map_of (st_sessions st) id' = None \<or> st_closed st \<or> (\<exists>s. map_of (st_sessions st) id' = Some s \<and> \<not> ss_dead s)")
  case True
  with assms show ?thesis by (auto simp: get_session_def split: if_splits option.splits)
next
  case False
  then obtain s where s: "map_of (st_sessions st) id' = Some s" "ss_dead s" "\<not> st_closed st" by auto
  obtain dir' opened where op: "openSession J io now (st_dir st) id' = (dir', opened)" by (cases "openSession J io now (st_dir st) id'")
  show ?thesis
  proof (cases opened)
    case (Inl e)
    with s op assms openSession_refused [OF assms(1)] show ?thesis by (auto simp: get_session_def)
  next
    case (Inr t)
    have step: "in_step J (st_dir st) id' s" using assms(1) s(1) by (simp add: store_ok_def)
    from op Inr have io: "io" by (auto elim: openSession_opened)
    from openSession_backed [OF step, of now] io op Inr have t: "d_createdAt (ss_state t) \<noteq> 0" "\<not> ss_dead t" by auto
    have "in_step J dir' id' t" using openSession_in_step [OF op [unfolded Inr] t(1)] step by (simp add: in_step_def)
    with store_ok_update [OF assms(1), of id' dir' t] openSession_frame [OF op] s op Inr assms(2) t(2) show ?thesis
      by (auto simp: get_session_def update_conv')
  qed
qed

subsection \<open>Opening a store\<close>

lemma store_ok_frame:
  assumes "store_ok J st" and "st_sessions st' = st_sessions st"
    and "\<And>id' s. map_of (st_sessions st) id' = Some s \<Longrightarrow> st_dir st' (log_name id') = st_dir st (log_name id')"
  shows "store_ok J st'"
  using assms in_step_frame unfolding store_ok_def by metis

lemma open_entry_ok:
  assumes "store_ok J st"
  shows "store_ok J (open_entry J io now st name)"
proof (cases "st_dir st name = Some SubDir \<or> \<not> snd (CutSuffix name logSuffix) \<or> \<not> docIDPattern (fst (CutSuffix name logSuffix))")
  case True
  then show ?thesis using assms by (auto simp: open_entry_def split: prod.split)
next
  case False
  then obtain id' where id': "CutSuffix name logSuffix = (id', True)" "docIDPattern id'" "st_dir st name \<noteq> Some SubDir"
    by (cases "CutSuffix name logSuffix") auto
  obtain dir' opened where op: "openSession J (io id') now (st_dir st) id' = (dir', opened)"
    by (cases "openSession J (io id') now (st_dir st) id'")
  show ?thesis
  proof (cases opened)
    case (Inl e)
    from store_ok_frame [OF openSession_refused [OF assms op [unfolded Inl]]] id' op Inl show ?thesis
      by (simp add: open_entry_def)
  next
    case (Inr s)
    show ?thesis
    proof (cases "d_createdAt (ss_state s) = 0")
      case True
      have "map_of (st_sessions st) id' = None"
      proof (cases "map_of (st_sessions st) id'")
        case (Some t)
        then have "in_step J (st_dir st) id' t" using assms by (simp add: store_ok_def)
        from openSession_backed [OF this, of now] op Inr True show ?thesis by (cases "io id'") (auto elim: openSession_opened)
      qed
      then have "store_ok J (st\<lparr>st_dir := dir'\<rparr>)"
        using openSession_frame [OF op] by (intro store_ok_frame [OF assms]) (auto simp del: log_name_def, metis log_name_inject option.distinct(1))
      with id' op Inr True show ?thesis by (simp add: open_entry_def)
    next
      case nz: False
      with store_ok_update [OF assms, of id' dir' s] openSession_frame [OF op]
        openSession_in_step [OF op [unfolded Inr] nz id'(2)] id' op Inr
      show ?thesis by (simp add: open_entry_def)
    qed
  qed
qed

lemma open_entries_ok: "store_ok J st \<Longrightarrow> store_ok J (foldl (open_entry J io now) st names)"
  by (induction names arbitrary: st) (simp_all add: open_entry_ok)

definition empty_store :: "(str \<times> agentInfo) list \<Rightarrow> budget \<Rightarrow> dir \<Rightarrow> store" where
  "empty_store agents b dir =
     \<lparr>st_dir = dir, st_sessions = [], st_damaged = [], st_closed = False, st_agents = agents, st_budget = b\<rparr>"

lemma OpenStore_folds:
  assumes "OpenStore J io now locked perHour concurrency agents names dir = Inr st"
  obtains ns registered b where "names = Some ns" and "\<not> locked"
    and "st = foldl (open_entry J io now) (empty_store registered b dir) ns"
  using assms by (auto simp: OpenStore_def empty_store_def rbind_eq_Inr split: if_splits option.splits)

lemma empty_store_ok: "store_ok J (empty_store agents b dir)"
  by (simp add: store_ok_def empty_store_def)

lemma OpenStore_ok: "OpenStore J io now locked perHour concurrency agents names dir = Inr st \<Longrightarrow> store_ok J st"
  by (elim OpenStore_folds) (simp add: open_entries_ok empty_store_ok)

text \<open>An entry of the directory does not touch other documents.\<close>

lemma open_entry_other:
  assumes "name \<noteq> log_name id'"
  shows "st_dir (open_entry J io now st name) (log_name id') = st_dir st (log_name id') \<and>
    map_of (st_sessions (open_entry J io now st name)) id' = map_of (st_sessions st) id'"
proof -
  obtain i isLog where c: "CutSuffix name logSuffix = (i, isLog)" by (cases "CutSuffix name logSuffix")
  obtain dir' opened where op: "openSession J (io i) now (st_dir st) i = (dir', opened)"
    by (cases "openSession J (io i) now (st_dir st) i")
  have "i \<noteq> id'" if "isLog" using c that assms CutSuffix_name [of name i] by auto
  with c op openSession_frame [OF op, of "log_name id'"] show ?thesis
    by (auto simp: open_entry_def update_conv' split: sum.split)
qed

lemma open_entries_other:
  "log_name id' \<notin> set names \<Longrightarrow>
     st_dir (foldl (open_entry J io now) st names) (log_name id') = st_dir st (log_name id') \<and>
     map_of (st_sessions (foldl (open_entry J io now) st names)) id' = map_of (st_sessions st) id'"
proof (induction names arbitrary: st)
  case (Cons name names)
  then show ?case using open_entry_other [of name id' J io now st] by auto
qed simp

lemma open_entry_session:
  assumes "openSession J (io id') now (st_dir st) id' = (dir', Inr s)" and "docIDPattern id'" and "d_createdAt (ss_state s) \<noteq> 0"
    and "st_dir st (log_name id') \<noteq> Some SubDir"
  shows "map_of (st_sessions (open_entry J io now st (log_name id'))) id' = Some s"
  using assms CutSuffix_name [of "log_name id'" id'] by (simp add: open_entry_def update_conv')

text \<open>What a restart serves for a document depends on its own file only.\<close>

lemma restart_serves:
  assumes st2: "OpenStore J io now False perHour concurrency agents (Some names) dir = Inr st2"
    and names: "distinct names" "log_name id' \<in> set names" and s: "in_step J dir id' s" and io: "io id'"
  shows "\<exists>ps s2. map_of (st_sessions st2) id' = Some s2 \<and> reopen (ss_log s) = Some ps \<and> reads_as J id' ps (ss_state s2) \<and>
    (\<not> ss_dead s \<longrightarrow> ss_state s2 = ss_state s)"
proof -
  obtain xs ys where xy: "names = xs @ log_name id' # ys" using names(2) by (auto dest: split_list)
  with names(1) have notin: "log_name id' \<notin> set xs" "log_name id' \<notin> set ys" by auto
  from st2 obtain registered b where fold: "st2 = foldl (open_entry J io now) (empty_store registered b dir) names"
    by (elim OpenStore_folds) auto
  define stx where "stx = foldl (open_entry J io now) (empty_store registered b dir) xs"
  have "st_dir stx (log_name id') = dir (log_name id')"
    using open_entries_other [OF notin(1), of J io now "empty_store registered b dir"] by (simp add: stx_def empty_store_def)
  then have "in_step J (st_dir stx) id' s" "st_dir stx (log_name id') \<noteq> Some SubDir" "docIDPattern id'"
    using s by (auto simp: in_step_def)
  moreover from openSession_backed [OF this(1), of now] obtain l ps d where
    o: "openSession J (io id') now (st_dir stx) id' = ((st_dir stx)(log_name id' \<mapsto> LogFile (fl_file l)), Inr (newSession d l now))"
      "reopen (ss_log s) = Some ps" "reads_as J id' ps d" "d_createdAt d \<noteq> 0" "\<not> ss_dead s \<longrightarrow> d = ss_state s"
    using io by auto
  ultimately have "map_of (st_sessions (open_entry J io now stx (log_name id'))) id' = Some (newSession d l now)"
    by (intro open_entry_session) auto
  moreover have "st2 = foldl (open_entry J io now) (open_entry J io now stx (log_name id')) ys"
    by (simp add: fold xy stx_def)
  ultimately have "map_of (st_sessions st2) id' = Some (newSession d l now)"
    using open_entries_other [OF notin(2), of J io now "open_entry J io now stx (log_name id')"] by simp
  with o show ?thesis by (intro exI [of _ ps] exI [of _ "newSession d l now"]) simp
qed

text \<open>A file without records is no document.\<close>

lemma readRecords_empty: "readRecords [] = Inr ([], 0)"
  by (simp add: readRecords_def readRecords_loop.simps [of "[]"])

lemma openSession_empty:
  assumes "file_bytes (dir (log_name id')) = []" and "dir (log_name id') \<noteq> Some SubDir"
  shows "openSession J io now dir id' = (dir(log_name id' \<mapsto> LogFile []),
    if io then Inr (newSession (newDocState id') \<lparr>fl_file = [], fl_size = 0\<rparr> now) else Inl (ErrOpenLog ErrIO))"
  using assms by (simp add: openSession_def Let_def openFileLog_def readRecords_empty replay_def)

definition unwritten :: "str \<Rightarrow> store \<Rightarrow> bool" where
  "unwritten id' st \<longleftrightarrow> st_dir st (log_name id') \<noteq> Some SubDir \<and> file_bytes (st_dir st (log_name id')) = [] \<and>
     map_of (st_sessions st) id' = None"

lemma open_entry_unwritten:
  assumes "unwritten id' st"
  shows "unwritten id' (open_entry J io now st name)"
proof (cases "name = log_name id'")
  case True
  with assms CutSuffix_name [of name id'] openSession_empty [of "st_dir st" id' J "io id'" now] show ?thesis
    by (simp add: open_entry_def unwritten_def newDocState_def) (simp add: file_bytes_def)
next
  case False
  with assms open_entry_other [OF False, of J io now st] show ?thesis by (simp add: unwritten_def)
qed

lemma restart_skips:
  assumes "OpenStore J io now locked perHour concurrency agents names dir = Inr st2"
    and "dir (log_name id') \<noteq> Some SubDir" and "file_bytes (dir (log_name id')) = []"
  shows "map_of (st_sessions st2) id' = None"
proof -
  have "unwritten id' st \<Longrightarrow> unwritten id' (foldl (open_entry J io now) st ns)" for st ns
    by (induction ns arbitrary: st) (simp_all add: open_entry_unwritten)
  moreover have "unwritten id' (empty_store registered b dir)" for registered b
    using assms(2,3) by (simp add: unwritten_def empty_store_def)
  ultimately show ?thesis using assms(1) by (elim OpenStore_folds) (auto simp: unwritten_def)
qed

subsection \<open>Creating a document\<close>

lemma newDocID_pattern:
  assumes "newDocID (Some bs) = Some id'" and "length bs = 8"
  shows "docIDPattern id'"
proof -
  have digit: "(97 \<le> base_digit n \<and> base_digit n \<le> 122) \<or> (48 \<le> base_digit n \<and> base_digit n \<le> 57)" if "n < 16" for n
    using that by (auto simp: base_digit_def)
  have "unat b < 256" for b :: byte using unsigned_less [of b, where ?'a = nat] by simp
  then have "list_all (\<lambda>r. (97 \<le> r \<and> r \<le> 122) \<or> (48 \<le> r \<and> r \<le> 57)) [base_digit (unat b div 16), base_digit (unat b mod 16)]"
    for b :: byte using digit by (simp add: div_less_iff_less_mult)
  then have "list_all (\<lambda>r. (97 \<le> r \<and> r \<le> 122) \<or> (48 \<le> r \<and> r \<le> 57))
      (concat (map (\<lambda>b. [base_digit (unat b div 16), base_digit (unat b mod 16)]) cs))" for cs :: "byte list"
    by (induction cs) simp_all
  moreover have "length (concat (map (\<lambda>b. [base_digit (unat b div 16), base_digit (unat b mod 16)]) cs)) = 2 * length cs"
    for cs :: "byte list"
    by (induction cs) simp_all
  ultimately show ?thesis using assms by (auto simp: newDocID_def hex_string_def docIDPattern_def)
qed

lemma seed_sendable:
  assumes "seed \<noteq> []"
  shows "sendable (InsertString NewOp seed)" and "comps (InsertString NewOp seed) = [\<lparr>n_of = 0, ins_of = encodeText seed\<rparr>]"
    and "Apply (InsertString NewOp seed) [] = Inr (encodeText seed)"
    and "applyAttribution [] (InsertString NewOp seed) a = Inr (replicate (length (encodeText seed)) a)"
  using assms encodeText_paired [of seed]
  by (simp_all add: sendable_def InsertString_def op_wf_def edits_def edit_of_def comp_wf_def comp_kind_defs NewOp_def
      Insert_def Let_def may_follow_def maxOpComponents_def maxComponentLength_def Apply_def applyAttribution_def)

text \<open>The request of \<open>Create\<close> on a new session: both records are applied.\<close>

definition created_doc :: "time \<Rightarrow> str \<Rightarrow> str \<Rightarrow> doc_state \<Rightarrow> bool" where
  "created_doc now title seed d \<longleftrightarrow> d_title d = title \<and> d_createdAt d = now \<and> d_text d = encodeText seed"

definition create_records :: "time \<Rightarrow> str \<Rightarrow> str \<Rightarrow> (time \<Rightarrow> str) \<Rightarrow> author \<Rightarrow> op log_record list" where
  "create_records now title template seed by' =
     create_meta now title by' # (if seed now \<noteq> [] then [create_text now template (seed now)] else [])"

lemma create_record_facts:
  "r_kind (create_meta now title by') = RecMeta" "r_time (create_meta now title by') = now"
  "r_title (create_meta now title by') = title" "r_op (create_meta now title by') = None"
  by (simp_all add: create_meta_def meta_rec_def)

lemma newDocState_fields: "d_id (newDocState id') = id'" "d_text (newDocState id') = []"
  by (simp_all add: newDocState_def)

lemma create_meta_applied:
  "apply_record (newDocState id') (create_meta now title by') =
     ((newDocState id')\<lparr>d_createdAt := now, d_title := title, d_updatedAt := now\<rparr>, Inr [])"
  by (simp add: apply_record_def create_record_facts newDocState_def)

lemma create_text_applied:
  assumes "seed \<noteq> []" and "d = (newDocState id')\<lparr>d_createdAt := now, d_title := title, d_updatedAt := now\<rparr>"
  shows "\<exists>d'. apply_record d (create_text now template seed) = (d', Inr []) \<and>
    d_id d' = id' \<and> created_doc now title seed d'"
  using assms seed_sendable(3,4) [OF assms(1)]
  by (simp add: apply_record_def create_text_def op_rec_def applyOp_def commitOp_def authorIndex_def newDocState_def created_doc_def)

lemma create_request_commits:
  assumes now: "now \<noteq> 0" and s: "ss_state s = newDocState id'" "ss_now s = now"
  shows "\<exists>s' b' i. create_request title template seed by' (s, newBatch) = ((s', b'), Inr i) \<and>
    b_payloads b' = map marshal_record (create_records now title template seed by') \<and>
    apply_all (newDocState id') (create_records now title template seed by') = Inr (ss_state s') \<and>
    i_id i = id' \<and> i_title i = title \<and> created_doc now title (seed now) (ss_state s') \<and> ss_dead s' = ss_dead s"
proof (cases "seed now = []")
  case True
  then show ?thesis
    using s by (simp add: create_request_def commit_def create_meta_applied create_records_def Let_def newBatch_payloads
        info_def created_doc_def newDocState_fields)
next
  case False
  let ?d = "(newDocState id')\<lparr>d_createdAt := now, d_title := title, d_updatedAt := now\<rparr>"
  obtain d' where "apply_record ?d (create_text now template (seed now)) = (d', Inr [])" "d_id d' = id'"
    "created_doc now title (seed now) d'"
    using create_text_applied [OF False refl] by blast
  then show ?thesis
    using s False by (simp add: create_request_def commit_def create_meta_applied create_records_def Let_def newBatch_payloads
        info_def created_doc_def)
qed

lemma proper_commits:
  "evolves x (s, b) \<Longrightarrow> commit s b r = (y, res) \<Longrightarrow> evolves x y"
  using commit_evolves [of s b r] by (cases res) (auto intro: evolves_trans)

lemma create_request_proper: "proper_event (\<lambda>x. fst (create_request title template seed by' x))"
  unfolding proper_event_def
proof
  fix x :: "'a session \<times> batch"
  obtain s b where x: "x = (s, b)" by (cases x)
  obtain s1 b1 r1 where c1: "commit s b (create_meta (ss_now s) title by') = ((s1, b1), r1)"
    by (cases "commit s b (create_meta (ss_now s) title by')") auto
  obtain y2 r2 where c2: "commit s1 b1 (create_text (ss_now s) template (seed (ss_now s))) = (y2, r2)"
    by (cases "commit s1 b1 (create_text (ss_now s) template (seed (ss_now s)))") auto
  have e1: "evolves x (s1, b1)" using proper_commits [OF evolves_refl c1] x by simp
  have e2: "evolves x y2" by (rule proper_commits [OF e1 c2])
  show "evolves x (fst (create_request title template seed by' x))"
    using e1 e2 c1 c2 by (auto simp: create_request_def x Let_def split: sum.split prod.split)
qed

definition create_good :: "rec_codec \<Rightarrow> time \<Rightarrow> byte list option \<Rightarrow> store \<Rightarrow> str \<Rightarrow> str \<Rightarrow> author \<Rightarrow> bool" where
  "create_good J now random st title template by' \<longleftrightarrow> now \<noteq> 0 \<and>
     (\<forall>bs id'. random = Some bs \<longrightarrow> newDocID random = Some id' \<longrightarrow> length bs = 8 \<and> st_dir st (log_name id') = None) \<and>
     (\<forall>seed. map_of templates (template_name template) = Some seed \<longrightarrow>
        (\<forall>r \<in> set (create_records now (cleanText title 120) (template_name template) seed by'). json_keeps J (marshal_record r)))"

lemma create_records_sendable: "\<forall>r \<in> set (create_records now title template seed by'). record_sendable r"
  using seed_sendable(1) by (auto simp: create_records_def record_sendable_def create_record_facts create_text_def op_rec_def)

lemma create_run:
  fixes l id'
  assumes now: "now \<noteq> 0" and keeps: "\<forall>r \<in> set (create_records now title template seed by'). json_keeps J (marshal_record r)"
  defines "s0 \<equiv> newSession (newDocState id') l now" and "req \<equiv> create_request title template seed by'"
  shows "good_run J [\<lambda>x. fst (req x)] s0 \<and> (\<exists>i. snd (req (s0, newBatch)) = Inr i \<and> i_id i = id' \<and> i_title i = title) \<and>
    created_doc now title (seed now) (ss_state (fst (batch_of [\<lambda>x. fst (req x)] s0))) \<and>
    \<not> ss_dead (fst (batch_of [\<lambda>x. fst (req x)] s0)) \<and>
    commits [\<lambda>x. fst (req x)] s0 (create_records now title template seed by')"
proof -
  obtain s' b' i where c: "req (s0, newBatch) = ((s', b'), Inr i)"
    "b_payloads b' = map marshal_record (create_records now title template seed by')"
    "i_id i = id'" "i_title i = title" "created_doc now title (seed now) (ss_state s')" "\<not> ss_dead s'"
    "apply_all (newDocState id') (create_records now title template seed by') = Inr (ss_state s')"
    using create_request_commits [OF now, of s0 id' title template seed by'] by (auto simp: s0_def req_def)
  then have "commits [\<lambda>x. fst (req x)] s0 (create_records now title template seed by')"
    using c by (simp add: commits_def batch_of_def) (simp add: s0_def)
  then show ?thesis
    using c create_request_proper [of title template seed by'] keeps create_records_sendable [of now title template seed by']
    by (auto simp: good_run_def carried_def batch_of_def req_def intro!: exI [of _ "create_records now title template seed by'"])
qed

text \<open>The new session either commits both records or its log has failed.\<close>

lemma ask_create:
  fixes title template seed by' id'
  assumes now: "now \<noteq> 0" and keeps: "\<forall>r \<in> set (create_records now title template seed by'). json_keeps J (marshal_record r)"
    and ask: "ask (file_append J disk) [] (create_request title template seed by') []
      (newSession (newDocState id') \<lparr>fl_file = [], fl_size = 0\<rparr> now) = (s, res)"
  shows "res = Inl ErrSessionClosed \<or> (\<exists>i. res = Inr (Inr i) \<and> i_id i = id' \<and> i_title i = title \<and> \<not> ss_dead s \<and>
    backed J id' s \<and> created_doc now title (seed now) (ss_state s))"
proof -
  let ?l = "\<lparr>fl_file = [], fl_size = 0\<rparr>"
  define s0 where "s0 = newSession (newDocState id') ?l now"
  define req where "req = (create_request title template seed by' :: (file_log, (doc_error, docInfo) result) request)"
  define ev where "ev = (\<lambda>x. fst (req x))"
  from create_run [OF now keeps, of id' ?l] obtain i where run: "good_run J [ev] s0" "snd (req (s0, newBatch)) = Inr i"
    "i_id i = id'" "i_title i = title" "created_doc now title (seed now) (ss_state (fst (batch_of [ev] s0)))"
    "\<not> ss_dead (fst (batch_of [ev] s0))"
    by (auto simp: s0_def req_def ev_def)
  have alive: "\<not> ss_dead s0" and start: "ss_log s0 = ?l" "ss_state s0 = newDocState id'" by (simp_all add: s0_def)
  have ask_is: "s = run_batch (file_append J disk) [ev] s0"
    "res = (if durable (file_append J disk) [ev] s0 then Inr (Inr i) else Inl ErrSessionClosed)"
    using ask run(2) alive by (auto simp: ask_def batch_of_def Let_def req_def s0_def ev_def)
  have "log_reads ?l []" "reads_as J id' [] (newDocState id')" by (simp_all add: log_reads_def readRecords_empty)
  with run_batch_log [OF run(1) alive, of "[]" id' disk] obtain rs k d where r: "commits [ev] s0 rs"
    "apply_all (newDocState id') (take k rs) = Inr d"
    "durable (file_append J disk) [ev] s0 \<Longrightarrow> log_reads (ss_log s) (map (\<lambda>r. rc_marshal J (marshal_record r)) (take k rs)) \<and>
       take k rs = rs \<and> ss_state s = d \<and> ss_dead s = ss_dead (fst (batch_of [ev] s0))"
    "reads_as J id' (map (\<lambda>r. rc_marshal J (marshal_record r)) (take k rs)) d"
    by (auto simp: start Let_def ask_is(1))
  show ?thesis
  proof (cases "durable (file_append J disk) [ev] s0")
    case True
    have d: "d = ss_state (fst (batch_of [ev] s0))" using r(1,2) r(3) [OF True] by (simp add: commits_def start)
    with run(5) now have "d_createdAt d \<noteq> 0" by (simp add: created_doc_def)
    with r(3) [OF True] r(4) reads_reopen have "backed J id' s"
      unfolding backed_def reopen_iff by (intro exI conjI impI) auto
    with r(3) [OF True] d run(3-6) ask_is(2) True show ?thesis by simp
  qed (simp add: ask_is(2))
qed

text \<open>What \<open>Create\<close> can come to.\<close>

definition with_file :: "store \<Rightarrow> str \<Rightarrow> store" where
  "with_file st id' = st\<lparr>st_dir := (st_dir st)(log_name id' \<mapsto> LogFile [])\<rparr>"

definition with_session :: "store \<Rightarrow> str \<Rightarrow> file_log session \<Rightarrow> file_log session \<Rightarrow> store" where
  "with_session st id' s0 s = put_session ((with_file st id')\<lparr>st_sessions := AList.update id' s0 (st_sessions st)\<rparr>) id' s"

lemma Create_cases [consumes 2, case_names refused unopened failed created]:
  assumes good: "create_good J now random st title template by'"
    and c: "Create J io now disk removed random st title template by' = (st', res)"
  obtains e where "st' = st" and "res = Inl e"
    | id' e where "newDocID random = Some id'" and "st' = with_file st id'" and "res = Inl e"
    | id' s0 s e where "newDocID random = Some id'" and "st' = undo_create removed (with_session st id' s0 s) id'" and "res = Inl e"
    | id' s0 s i seed where "newDocID random = Some id'" and "docIDPattern id'" and "st' = with_session st id' s0 s" and "res = Inr i"
      and "i_id i = id'" and "i_title i = cleanText title 120" and "\<not> ss_dead s" and "backed J id' s"
      and "map_of templates (template_name template) = Some seed" and "created_doc now (cleanText title 120) (seed now) (ss_state s)"
proof -
  let ?title = "cleanText title 120" and ?t = "template_name template"
  consider (none) e where "st' = st" "res = Inl e"
    | (some) id' seed where "newDocID random = Some id'" "map_of templates ?t = Some seed" "?title \<noteq> []" "\<not> st_closed st"
    using c by (auto simp: Create_def Let_def split: if_splits option.splits)
  then show thesis
  proof cases
    case none
    then show thesis by (rule that(1))
  next
    case some
    obtain bs where bs: "random = Some bs" using some(1) by (auto simp: newDocID_def)
    with good some(1) have fresh: "st_dir st (log_name id') = None" "docIDPattern id'" "now \<noteq> 0"
      using newDocID_pattern [of bs id'] by (auto simp: create_good_def)
    define s0 where "s0 = newSession (newDocState id') \<lparr>fl_file = [], fl_size = 0\<rparr> now"
    have op: "openSession J io now (st_dir st) id' = ((st_dir st)(log_name id' \<mapsto> LogFile []), if io then Inr s0 else Inl (ErrOpenLog ErrIO))"
      using openSession_empty [of "st_dir st" id'] fresh(1) by (simp add: file_bytes_def s0_def)
    obtain s asked where ask: "ask (file_append J disk) [] (create_request ?title ?t seed by') [] s0 = (s, asked)"
      by (cases "ask (file_append J disk) [] (create_request ?title ?t seed by') [] s0")
    have keeps: "\<forall>r \<in> set (create_records now ?title ?t seed by'). json_keeps J (marshal_record r)"
      using good some(2) by (simp add: create_good_def)
    note made = with_session_def with_file_def
    consider "\<not> io" | "io" "asked = Inl ErrSessionClosed" | i where "io" "asked = Inr (Inr i)" "i_id i = id'" "i_title i = ?title"
      "\<not> ss_dead s" "backed J id' s" "created_doc now ?title (seed now) (ss_state s)"
      using ask_create [OF fresh(3) keeps ask [unfolded s0_def]] by blast
    then show thesis
    proof cases
      case 1
      with c some op have "st' = with_file st id'" "res = Inl (ErrOpenLog ErrIO)" by (simp_all add: Create_def Let_def with_file_def)
      then show thesis by (rule that(2) [OF some(1)])
    next
      case 2
      with c some op ask have "st' = undo_create removed (with_session st id' s0 s) id'" "res = Inl ErrSessionClosed"
        by (simp_all add: Create_def Let_def made)
      then show thesis by (rule that(3) [OF some(1)])
    next
      case 3
      with c some op ask have "st' = with_session st id' s0 s" "res = Inr i" by (simp_all add: Create_def Let_def made)
      then show thesis by (rule that(4) [OF some(1) fresh(2) _ _ 3(3-6) some(2) 3(7)])
    qed
  qed
qed

lemma with_session_maps [simp]:
  "map_of (st_sessions (with_session st id' s0 s)) = (map_of (st_sessions st))(id' \<mapsto> s)"
  "st_dir (with_session st id' s0 s) = (st_dir st)(log_name id' \<mapsto> LogFile (fl_file (ss_log s)))"
  "map_of (st_sessions (undo_create removed st id')) = (map_of (st_sessions st))(id' := None)"
  by (simp_all add: with_session_def with_file_def put_session_def undo_create_def update_conv' delete_conv' fun_eq_iff restrict_map_def)

subsection \<open>Reachable stores\<close>

text \<open>
  What happens to a store: it is opened on some directory, batches run on its sessions and any disk, sessions are fetched and dead
  ones opened again, documents are created.
\<close>

inductive store_reachable :: "rec_codec \<Rightarrow> store \<Rightarrow> bool" for J where
  opened: "OpenStore J io now locked perHour concurrency agents names dir = Inr st \<Longrightarrow> store_reachable J st"
| ran: "store_reachable J st \<Longrightarrow> \<forall>s. map_of (st_sessions st) id' = Some s \<longrightarrow> good_run J events s \<Longrightarrow>
    store_reachable J (run_session J disk events st id')"
| fetched: "store_reachable J st \<Longrightarrow> get_session J io now st id' = (st', res) \<Longrightarrow> store_reachable J st'"
| created: "store_reachable J st \<Longrightarrow> create_good J now random st title template by' \<Longrightarrow>
    Create J io now disk removed random st title template by' = (st', info_res) \<Longrightarrow> store_reachable J st'"

lemma fresh_not_served:
  assumes "store_ok J st" and "create_good J now random st title template by'" and "newDocID random = Some id'"
  shows "map_of (st_sessions st) id' = None" and "st_dir st (log_name id') = None"
proof -
  show "st_dir st (log_name id') = None" using assms(2,3) by (auto simp: create_good_def newDocID_def)
  then show "map_of (st_sessions st) id' = None"
    using assms(1) by (cases "map_of (st_sessions st) id'") (auto simp: store_ok_def in_step_def)
qed

lemma Create_ok:
  assumes ok: "store_ok J st" and good: "create_good J now random st title template by'"
    and c: "Create J io now disk removed random st title template by' = (st', res)"
  shows "store_ok J st'"
  using good c
proof (cases rule: Create_cases)
  case (refused e)
  with ok show ?thesis by simp
next
  case (unopened id' e)
  note fresh = fresh_not_served [OF ok good unopened(1)]
  show ?thesis
    using fresh by (intro store_ok_frame [OF ok]) (auto simp: unopened(2) with_file_def)
next
  case (failed id' s0 s e)
  note fresh = fresh_not_served [OF ok good failed(1)]
  have "in_step J (st_dir st') i t" if "map_of (st_sessions st') i = Some t" for i t
  proof -
    have "i \<noteq> id'" "map_of (st_sessions st) i = Some t" using that failed(2) by (auto split: if_splits)
    then have "in_step J (st_dir st) i t" "st_dir st' (log_name i) = st_dir st (log_name i)"
      using ok by (auto simp: store_ok_def failed(2) undo_create_def)
    then show ?thesis by (rule in_step_frame)
  qed
  then show ?thesis by (simp add: store_ok_def)
next
  case (created id' s0 s i seed)
  have "in_step J (st_dir st') j t" if m: "map_of (st_sessions st') j = Some t" for j t
  proof (cases "j = id'")
    case True
    with m created(2,3,8) show ?thesis by (simp add: in_step_def)
  next
    case False
    with m created(3) have "map_of (st_sessions st) j = Some t" by simp
    with ok have "in_step J (st_dir st) j t" by (simp add: store_ok_def)
    then show ?thesis by (rule in_step_frame) (use False in \<open>simp add: created(3)\<close>)
  qed
  then show ?thesis by (simp add: store_ok_def)
qed

lemma reachable_ok: "store_reachable J st \<Longrightarrow> store_ok J st"
proof (induction rule: store_reachable.induct)
  case opened
  then show ?case by (rule OpenStore_ok)
next
  case ran
  then show ?case using run_session_ok by blast
next
  case fetched
  then show ?case using get_session_ok by blast
next
  case created
  then show ?case using Create_ok by blast
qed

subsection \<open>Properties\<close>

lemma register_distinct:
  "distinct (map ai_ID as) \<Longrightarrow> set (map ai_ID as) \<inter> fst ` set agents = {} \<Longrightarrow> \<exists>r. register agents as = Inr r"
proof (induction as arbitrary: agents)
  case (Cons a as)
  then have "map_of agents (ai_ID a) = None" by (simp add: map_of_eq_None_iff)
  moreover have "\<exists>r. register (agents @ [(ai_ID a, a)]) as = Inr r" using Cons by (intro Cons.IH) auto
  ultimately show ?case by simp
qed simp

text \<open>
  C17: a store survives a crash at any moment. Opened again on the files as they are, it has a session for every document it had one for,
  whatever batches ran and whatever the disk did to their records; the document is the one its file holds, and the same as before unless the
  log of the session had failed. The committed records are ones the decoder accepts again (C37 is one that is not) and JSON carries, documents are
  created at a time other than the zero of the clock under ids no file has, and opening finds every file of the directory.
\<close>

theorem store_survives_crash:
  assumes "store_reachable J st" and "distinct (map ai_ID (librarian # agents))" and "distinct names" and "set names = dom (st_dir st)"
  shows "\<exists>st2. OpenStore J (\<lambda>_. True) now False perHour concurrency agents (Some names) (st_dir st) = Inr st2 \<and>
    (\<forall>id' s. map_of (st_sessions st) id' = Some s \<longrightarrow>
       (\<exists>ps s2. map_of (st_sessions st2) id' = Some s2 \<and> reopen (ss_log s) = Some ps \<and>
          replay id' (map (rc_unmarshal J) ps) = Inr (ss_state s2) \<and> (\<not> ss_dead s \<longrightarrow> ss_state s2 = ss_state s)))"
proof -
  obtain r where "register [] (librarian # agents) = Inr r" using register_distinct [OF assms(2), of "[]"] by auto
  then obtain st2 where st2: "OpenStore J (\<lambda>_. True) now False perHour concurrency agents (Some names) (st_dir st) = Inr st2"
    using that by (simp add: OpenStore_def del: register.simps)
  have "\<exists>ps s2. map_of (st_sessions st2) id' = Some s2 \<and> reopen (ss_log s) = Some ps \<and> reads_as J id' ps (ss_state s2) \<and>
      (\<not> ss_dead s \<longrightarrow> ss_state s2 = ss_state s)" if "map_of (st_sessions st) id' = Some s" for id' s
  proof -
    have step: "in_step J (st_dir st) id' s" using reachable_ok [OF assms(1)] that by (simp add: store_ok_def)
    then have "log_name id' \<in> set names" by (auto simp: in_step_def assms(4))
    from restart_serves [OF st2 assms(3) this step] show ?thesis by simp
  qed
  then show ?thesis using st2 unfolding reads_as_def by (intro exI [of _ st2] conjI allI impI) simp_all
qed

text \<open>
  C18: a document exists from the moment its creation is acknowledged, and never before. An acknowledged one has the title and the text of its
  template, and so it has in every store opened on the directory later; one that was refused, and whose file could be
  removed, is in no store opened later; no other document is touched.
\<close>

theorem created_or_never_there:
  assumes "store_reachable J st" and "create_good J now random st title template by'"
    and "Create J io now disk removed random st title template by' = (st', res)"
  shows "(\<forall>other. newDocID random \<noteq> Some other \<longrightarrow> map_of (st_sessions st') other = map_of (st_sessions st) other \<and>
       st_dir st' (log_name other) = st_dir st (log_name other)) \<and>
    (case res of
       Inr i \<Rightarrow> (\<exists>s seed. newDocID random = Some (i_id i) \<and> i_title i = cleanText title 120 \<and> map_of (st_sessions st') (i_id i) = Some s \<and>
         map_of templates (template_name template) = Some seed \<and> created_doc now (cleanText title 120) (seed now) (ss_state s) \<and>
         (\<forall>io2 now2 perHour concurrency agents names st2.
            OpenStore J io2 now2 False perHour concurrency agents (Some names) (st_dir st') = Inr st2 \<longrightarrow> distinct names \<longrightarrow>
            set names = dom (st_dir st') \<longrightarrow> io2 (i_id i) \<longrightarrow>
            (\<exists>s2. map_of (st_sessions st2) (i_id i) = Some s2 \<and> ss_state s2 = ss_state s)))
     | Inl e \<Rightarrow> removed \<longrightarrow>
         (\<forall>id' io2 now2 perHour concurrency agents names st2. newDocID random = Some id' \<longrightarrow>
            OpenStore J io2 now2 False perHour concurrency agents names (st_dir st') = Inr st2 \<longrightarrow> map_of (st_sessions st2) id' = None))"
proof -
  note ok = reachable_ok [OF assms(1)]
  have skips: "map_of (st_sessions st2) id' = None"
    if "st_dir st' (log_name id') = None \<or> st_dir st' (log_name id') = Some (LogFile [])"
      "OpenStore J io2 now2 False perHour concurrency agents names (st_dir st') = Inr st2"
    for id' io2 now2 perHour concurrency agents names st2
    using restart_skips [OF that(2), of id'] that(1) by (auto simp: file_bytes_def)
  from assms(2,3) show ?thesis
  proof (cases rule: Create_cases)
    case (refused e)
    then show ?thesis using skips fresh_not_served(2) [OF ok assms(2)] by auto
  next
    case (unopened id' e)
    then show ?thesis using skips by (auto simp: with_file_def)
  next
    case (failed id' s0 s e)
    have none: "st_dir st' (log_name id') = None" if "removed" using that by (simp add: failed(2) undo_create_def)
    have others: "map_of (st_sessions st') other = map_of (st_sessions st) other \<and> st_dir st' (log_name other) = st_dir st (log_name other)"
      if "newDocID random \<noteq> Some other" for other
      using that failed(1,2) by (auto simp: undo_create_def)
    show ?thesis using skips none others failed(1,3) by auto
  next
    case (created id' s0 s i seed)
    have step: "in_step J (st_dir st') id' s" using created(2,3,8) by (simp add: in_step_def)
    have "\<exists>s2. map_of (st_sessions st2) id' = Some s2 \<and> ss_state s2 = ss_state s"
      if "OpenStore J io2 now2 False perHour concurrency agents (Some names) (st_dir st') = Inr st2" "distinct names"
        "set names = dom (st_dir st')" "io2 id'" for io2 now2 perHour concurrency agents names st2
    proof -
      have "log_name id' \<in> set names" using step that(3) by (auto simp: in_step_def)
      from restart_serves [OF that(1,2) this step, of] that(4) created(7) show ?thesis by auto
    qed
    moreover have "map_of (st_sessions st') other = map_of (st_sessions st) other \<and> st_dir st' (log_name other) = st_dir st (log_name other)"
      if "newDocID random \<noteq> Some other" for other
      using that created(1,3) by auto
    ultimately show ?thesis using created by (auto simp del: split_paired_All)
  qed
qed

lemma batch_of_append: "batch_of (es @ fs) s = fold (\<lambda>event. event) fs (batch_of es s)"
  by (simp add: batch_of_def)

text \<open>The records of the first events of a batch come first.\<close>

lemma commits_prefix:
  assumes es: "commits es s rs" "\<forall>r \<in> set rs. record_sendable r" and all: "commits (es @ fs) s qs" "\<forall>r \<in> set qs. record_sendable r"
    and fs: "\<forall>ev \<in> set fs. proper_event ev"
  shows "rs = take (length rs) qs"
proof -
  from fold_evolves [OF fs, of "batch_of es s"] obtain more where
    "b_payloads (snd (batch_of (es @ fs) s)) = b_payloads (snd (batch_of es s)) @ map marshal_record more"
    by (auto simp: evolves_def batch_of_append)
  then have eq: "map marshal_record qs = map marshal_record rs @ map marshal_record more"
    using es(1) all(1) by (simp add: commits_def)
  have undo: "map unmarshal_record (map marshal_record ts) = map Some ts" if "\<forall>r \<in> set ts. record_sendable r" for ts
    using that by (simp add: unmarshal_marshal)
  have "map Some qs = map Some rs @ map unmarshal_record (map marshal_record more)"
    using arg_cong [OF eq, of "map unmarshal_record"] by (simp only: map_append undo [OF es(2)] undo [OF all(2)])
  then have "take (length rs) (map Some qs) = map Some rs" by simp
  then have "map Some (take (length rs) qs) = map Some rs" by (simp add: take_map)
  then show ?thesis by (metis list.inj_map_strong option.inject)
qed

text \<open>
  nobody is shown words the log could still lose. The answer of \<open>Read\<close> may contain edits that were made in its own batch, but
  when it is given they are in the file: the text and the open suggestions shown are those of a prefix of the records found there.
\<close>

theorem read_shows_durable_text:
  assumes "store_reachable J st" and "Read J io now disk before after st id' = (st', Inr sn)"
    and "\<And>st1 s. get_session J io now st id' = (st1, Inr s) \<Longrightarrow>
      good_run J before s \<and> good_run J (before @ [\<lambda>x. fst (read_request x)] @ after) s"
  shows "\<exists>bs l ps n d. st_dir st' (log_name id') = Some (LogFile bs) \<and> openFileLog True bs = Inr (l, ps) \<and>
    replay id' (map (rc_unmarshal J) (take n ps)) = Inr d \<and> sn_text sn = decodeText (d_text d) \<and> sn_suggestions sn = openSuggestions d"
proof -
  let ?all = "before @ [\<lambda>x. fst (read_request x)] @ after"
  obtain st1 s where g: "get_session J io now st id' = (st1, Inr s)"
    and st': "st' = put_session st1 id' (run_batch (file_append J disk) ?all s)" and dur: "durable (file_append J disk) ?all s"
    and sn: "sn = snd (read_request (batch_of before s))"
    using assms(2) by (auto simp: Read_def ask_store_def ask_def Let_def split: prod.splits sum.splits if_splits)
  from assms(3) [OF g] have run: "good_run J before s" "good_run J ?all s" by blast+
  from get_session_ok [OF reachable_ok [OF assms(1)] g] have "\<not> ss_dead s" "backed J id' s"
    by (auto simp: store_ok_def in_step_def)
  then obtain ps where ps: "log_reads (ss_log s) ps" "reads_as J id' ps (ss_state s)" by (auto simp: backed_def)
  from run_batch_log [OF run(2) \<open>\<not> ss_dead s\<close> ps, of disk] dur obtain qs where
    qs: "commits ?all s qs" "\<forall>r \<in> set qs. carried J r"
      "log_reads (ss_log (run_batch (file_append J disk) ?all s)) (ps @ map (\<lambda>r. rc_marshal J (marshal_record r)) qs)"
    by (auto simp: Let_def)
  obtain rs where rs: "commits before s rs" "\<forall>r \<in> set rs. carried J r" using run(1) by (auto simp: good_run_def)
  have "rs = take (length rs) qs"
    by (rule commits_prefix [OF rs(1) _ qs(1)]) (use rs(2) qs(2) run(2) in \<open>auto simp: carried_def good_run_def\<close>)
  then have prefix: "take (length ps + length rs) (ps @ map (\<lambda>r. rc_marshal J (marshal_record r)) qs) =
      ps @ map (\<lambda>r. rc_marshal J (marshal_record r)) rs"
    by (simp add: take_map)
  have "reads_as J id' (ps @ map (\<lambda>r. rc_marshal J (marshal_record r)) rs) (ss_state (fst (batch_of before s)))"
    using reads_as_records [OF ps(2) rs(2)] rs(1) by (simp add: commits_def)
  with prefix have "replay id' (map (rc_unmarshal J) (take (length ps + length rs) (ps @ map (\<lambda>r. rc_marshal J (marshal_record r)) qs))) =
      Inr (ss_state (fst (batch_of before s)))"
    by (simp only: reads_as_def)
  moreover have "sn_text sn = decodeText (d_text (ss_state (fst (batch_of before s))))"
    "sn_suggestions sn = openSuggestions (ss_state (fst (batch_of before s)))"
    by (cases "batch_of before s", simp add: sn read_request_def)+
  moreover have "st_dir st' (log_name id') = Some (LogFile (fl_file (ss_log (run_batch (file_append J disk) ?all s))))"
    by (simp add: st' put_session_def)
  ultimately show ?thesis using reads_reopen [OF qs(3)] by blast
qed

text \<open>
  A document whose records do not replay is reported as damaged, but its file is not left as it was found: the log is
  opened before it is replayed, and opening cuts a torn last line off.
\<close>

theorem damaged_file_is_cut:
  assumes "docIDPattern id'" and "st_dir st (log_name id') = Some (LogFile (log_file ps @ torn))" and "\<forall>p \<in> set ps. payload_ok p"
    and "newline \<notin> set torn" and "torn \<noteq> []" and "replay id' (map (rc_unmarshal J) ps) = Inl e" and "io id'"
  shows "(id', ErrReplay e) \<in> set (st_damaged (open_entry J io now st (log_name id'))) \<and>
    st_dir (open_entry J io now st (log_name id')) (log_name id') = Some (LogFile (log_file ps)) \<and>
    log_file ps \<noteq> log_file ps @ torn"
  using assms openFileLog_torn [OF assms(3,4)] CutSuffix_name [of "log_name id'" id']
  by (simp add: open_entry_def openSession_def Let_def file_bytes_def)

subsection \<open>A store with one document\<close>

definition nobody :: author where "nobody = \<lparr>a_id = [], a_name = [], a_kind = [], a_model = []\<rparr>"

definition plain_codec :: rec_codec where
  "plain_codec = \<lparr>rc_marshal = (\<lambda>_. [123, 125]), rc_unmarshal = (\<lambda>_. marshal_record (create_meta 1 [116] nobody))\<rparr>"

definition first_store :: store where
  "first_store = empty_store [(ai_ID librarian, librarian)] (newBudget 30 2) Map.empty"

lemma first_store: "OpenStore plain_codec (\<lambda>_. True) 1 False 0 0 [] (Some []) Map.empty = Inr first_store"
  by (simp add: OpenStore_def first_store_def empty_store_def with_default_int_def)

definition zero_bytes :: "byte list" where "zero_bytes = [0, 0, 0, 0, 0, 0, 0, 0]"

definition zero_id :: str where "zero_id = [48, 48, 48, 48, 48, 48, 48, 48, 48, 48, 48, 48, 48, 48, 48, 48]"

lemma zero_id: "newDocID (Some zero_bytes) = Some zero_id" "docIDPattern zero_id"
  by (simp_all add: newDocID_def hex_string_def zero_bytes_def base_digit_def zero_id_def docIDPattern_def)

lemma first_good: "create_good plain_codec 1 (Some zero_bytes) first_store [116] [] nobody"
proof -
  have "cleanText [116] 120 = [116]" by (simp add: cleanText_def is_space_def)
  moreover have "map_of templates (template_name []) = Some blank_template"
    by (simp add: templates_def template_name_def)
  ultimately show ?thesis
    by (simp add: create_good_def create_records_def blank_template_def json_keeps_def plain_codec_def payload_ok_def newline_def
        first_store_def empty_store_def zero_bytes_def)
qed

lemma first_create: "\<exists>st' i. Create plain_codec True 1 DiskOk True (Some zero_bytes) first_store [116] [] nobody = (st', Inr i)"
proof -
  have t: "cleanText [116] 120 = [116]" by (simp add: cleanText_def is_space_def)
  have b: "map_of templates (template_name []) = Some blank_template" by (simp add: templates_def template_name_def)
  have op: "openSession plain_codec True 1 (st_dir first_store) zero_id =
      ((st_dir first_store)(log_name zero_id \<mapsto> LogFile []), Inr (newSession (newDocState zero_id) \<lparr>fl_file = [], fl_size = 0\<rparr> 1))"
    using openSession_empty [of "st_dir first_store" zero_id plain_codec True 1]
    by (simp add: first_store_def empty_store_def file_bytes_def)
  have keeps: "\<forall>r \<in> set (create_records 1 [116] (template_name []) blank_template nobody). json_keeps plain_codec (marshal_record r)"
    using first_good b t by (simp add: create_good_def)
  obtain i where ask: "\<exists>s. ask (file_append plain_codec DiskOk) [] (create_request [116] (template_name []) blank_template nobody) []
      (newSession (newDocState zero_id) \<lparr>fl_file = [], fl_size = 0\<rparr> 1) = (s, Inr (Inr i))"
    by (simp add: ask_def durable_def batch_of_def create_request_def commit_def create_meta_applied blank_template_def newBatch_payloads
        file_append_def Append_def plain_codec_def append_buffer_file [of "[[123, 125]]"] payload_ok_def newline_def Let_def)
  then show ?thesis
    using t b op zero_id by (auto simp: Create_def Let_def first_store_def empty_store_def)
qed

theorem created_or_never_there_witness:
  "\<exists>st' i s. Create plain_codec True 1 DiskOk True (Some zero_bytes) first_store [116] [] nobody = (st', Inr i) \<and>
     map_of (st_sessions st') (i_id i) = Some s \<and> d_createdAt (ss_state s) = 1"
proof -
  obtain st' i where c: "Create plain_codec True 1 DiskOk True (Some zero_bytes) first_store [116] [] nobody = (st', Inr i)"
    using first_create by blast
  from created_or_never_there [OF store_reachable.opened [OF first_store] first_good c] c show ?thesis
    by (auto simp: created_doc_def)
qed

text \<open>Its store is reachable and holds the document.\<close>

definition second_store :: store where
  "second_store = fst (Create plain_codec True 1 DiskOk True (Some zero_bytes) first_store [116] [] nobody)"

lemma second_store:
  "store_reachable plain_codec second_store"
  "\<exists>s. map_of (st_sessions second_store) zero_id = Some s \<and> \<not> ss_dead s \<and> \<not> st_closed second_store"
proof -
  obtain st' i where c: "Create plain_codec True 1 DiskOk True (Some zero_bytes) first_store [116] [] nobody = (st', Inr i)"
    using first_create by blast
  then have st': "second_store = st'" by (simp add: second_store_def)
  note reach = store_reachable.opened [OF first_store]
  show "store_reachable plain_codec second_store"
    using store_reachable.created [OF reach first_good c] by (simp add: st')
  from first_good c show "\<exists>s. map_of (st_sessions second_store) zero_id = Some s \<and> \<not> ss_dead s \<and> \<not> st_closed second_store"
    by (cases rule: Create_cases)
      (auto simp: st' zero_id with_session_def put_session_def with_file_def first_store_def empty_store_def update_conv')
qed

theorem store_survives_crash_witness:
  "\<exists>st2 s2. OpenStore plain_codec (\<lambda>_. True) 2 False 0 0 [] (Some [log_name zero_id]) (st_dir second_store) = Inr st2 \<and>
     map_of (st_sessions st2) zero_id = Some s2"
proof -
  have dom: "set [log_name zero_id] = dom (st_dir second_store)"
  proof -
    obtain st' i where c: "Create plain_codec True 1 DiskOk True (Some zero_bytes) first_store [116] [] nobody = (st', Inr i)"
      using first_create by blast
    have "set [log_name zero_id] = dom (st_dir st')"
      using first_good c by (cases rule: Create_cases) (auto simp: zero_id first_store_def empty_store_def)
    then show ?thesis using c by (simp add: second_store_def)
  qed
  from store_survives_crash [OF second_store(1) _ _ dom, of "[]" 2 0 0] second_store(2) show ?thesis
    by (auto simp: librarian_def) blast
qed

theorem read_shows_durable_text_witness:
  "\<exists>bs. st_dir (fst (Read plain_codec True 2 DiskOk [] [] second_store zero_id)) (log_name zero_id) = Some (LogFile bs)"
proof -
  obtain s where s: "map_of (st_sessions second_store) zero_id = Some s" "\<not> ss_dead s" "\<not> st_closed second_store"
    using second_store(2) by blast
  then have g: "get_session plain_codec True 2 second_store zero_id = (second_store, Inr s)" by (simp add: get_session_def)
  have idle: "commits [] t [] \<and> commits [\<lambda>x. fst (read_request x)] t []" for t :: "file_log session"
    by (simp add: commits_def batch_of_def newBatch_payloads read_request_def)
  have "proper_event (\<lambda>x. fst ((read_request :: (file_log, snapshot) request) x))"
    unfolding proper_event_def by (auto simp: read_request_def evolves_refl)
  then have run: "good_run plain_codec [] t \<and> good_run plain_codec ([] @ [\<lambda>x. fst (read_request x)] @ []) t" for t
    using idle [of t] by (auto simp: good_run_def intro!: exI [of _ "[]"])
  obtain st' sn where r: "Read plain_codec True 2 DiskOk [] [] second_store zero_id = (st', Inr sn)"
    using s(2) by (auto simp: Read_def ask_store_def g ask_def durable_def batch_of_def read_request_def newBatch_payloads Let_def)
  from read_shows_durable_text [OF second_store(1) r run] r show ?thesis by auto
qed

theorem damaged_file_is_cut_witness:
  "\<exists>e. (zero_id, e) \<in> set (st_damaged (open_entry (plain_codec\<lparr>rc_unmarshal := (\<lambda>_. NotRecord)\<rparr>) (\<lambda>_. True) 1
     (first_store\<lparr>st_dir := [log_name zero_id \<mapsto> LogFile (log_file [[123, 125]] @ [48])]\<rparr>) (log_name zero_id)))"
proof -
  have "replay zero_id (map (rc_unmarshal (plain_codec\<lparr>rc_unmarshal := (\<lambda>_. NotRecord)\<rparr>)) [[123, 125]]) = Inl (ErrRecord 0)"
    by (simp add: replay_def unmarshal_record_def)
  from damaged_file_is_cut [OF zero_id(2) _ _ _ _ this, of "first_store\<lparr>st_dir := [log_name zero_id \<mapsto> LogFile (log_file [[123, 125]] @ [48])]\<rparr>"
      "[48]" "\<lambda>_. True" 1]
  show ?thesis by (auto simp: payload_ok_def newline_def)
qed

end
