(* ===== verification/Invoke.thy ===== *)
theory Invoke
  imports Complex_Main StoreProps
begin

text \<open>
  \<open>Invoke\<close> and the built-in agent of \<^verbatim>\<open>internal/collab/agent.go\<close>: a run reads, waits for its agent, proposes, and reads again once if the text it
  read was edited. The agent's answers, the disk and what other events do to the session in between are arguments.
\<close>

subsection \<open>Requests and results\<close>

record agentRequest =
  rq_DocID :: str
  rq_DocTitle :: str
  rq_Before :: str
  rq_Selection :: str
  rq_After :: str
  rq_Instruction :: str
  rq_Command :: bool
  rq_InvokedBy :: author

record invokeRequest =
  vq_Agent :: str
  vq_Rev :: int
  vq_Start :: int
  vq_End :: int
  vq_Instruction :: str
  vq_Command :: bool
  vq_User :: author

record invokeResult =
  vr_Suggestion :: "suggestion option"
  vr_Note :: str
  vr_Attempts :: nat

text \<open>An agent's own error, which may be that its time ran out.\<close>

datatype run_failure = DeadlineExceeded | RunFailed str

datatype invoke_error = InvStore store_error | InvAgent agent_error | InvRead read_error | InvRun run_failure | InvPropose doc_error

text \<open>The status a refusal is reported with.\<close>

definition error_status :: "invoke_error \<Rightarrow> nat" where
  "error_status e =
     (if e = InvStore ErrNotFound \<or> e = InvAgent ErrUnknownAgent then 404
      else if e = InvAgent ErrBudget \<or> e = InvAgent ErrAgentBusy then 429
      else if e = InvStore ErrSessionClosed then 503
      else if e = InvRun DeadlineExceeded then 504
      else 400)"

text \<open>What surrounds a run: the agent's answer to each attempt, the disk of each request, what happens to the session while the agent works and
  before it reads again, and what other runs make of the budget until this one gives its place back.\<close>

record 'l surroundings =
  sr_answer :: "nat \<Rightarrow> agentRequest \<Rightarrow> (run_failure, agentResult) result"
  sr_append :: "nat \<Rightarrow> 'l \<Rightarrow> payload list \<Rightarrow> 'l \<times> (log_error, unit) result"
  sr_meanwhile :: "nat \<Rightarrow> 'l session \<Rightarrow> 'l session"
  sr_budget :: "budget \<Rightarrow> budget"

record run_params =
  rp_doc :: str
  rp_info :: agentInfo
  rp_author :: author
  rp_invoker :: author
  rp_runID :: str
  rp_instruction :: str
  rp_command :: bool

definition agent_request :: "run_params \<Rightarrow> agentRead \<Rightarrow> agentRequest" where
  "agent_request p rd =
     \<lparr>rq_DocID = rp_doc p, rq_DocTitle = rd_title rd, rq_Before = rd_before rd, rq_Selection = rd_text rd, rq_After = rd_after rd,
      rq_Instruction = rp_instruction p, rq_Command = rp_command p, rq_InvokedBy = rp_invoker p\<rparr>"

definition draft_of :: "run_params \<Rightarrow> placement \<Rightarrow> str \<Rightarrow> str \<Rightarrow> suggestion" where
  "draft_of p placement body note =
     \<lparr>s_id = [], s_agent = rp_author p, s_invokedBy = rp_invoker p, s_instruction = rp_instruction p, s_command = rp_command p,
      s_baseRev = 0, s_rev = 0, s_start = 0, s_end = 0, s_placement = placement, s_original = [], s_body = body, s_note = note,
      s_status = OtherStatus [], s_attempts = 0, s_createdAt = 0, s_resolvedBy = None, s_resolvedAt = None\<rparr>"

definition nothing_note :: "run_params \<Rightarrow> agentResult \<Rightarrow> str" where
  "nothing_note p result =
     (if res_note result = [] then ai_Name (rp_info p) @ map of_char '' had nothing to suggest.'' else res_note result)"

text \<open>A proposal that asks for another read is made with an attempt to spare: this is why the loop of \<open>Invoke\<close> ends.\<close>

lemma propose_retry: "snd (propose s b rd draft attempt) = Inr (Retry r i j) \<Longrightarrow> attempt < maxAgentAttempts"
  by (auto simp: propose_def Let_def split: sum.splits prod.splits if_splits)

lemma ask_answer: "ask append_to es req fs s = (s', Inr v) \<Longrightarrow> v = snd (req (batch_of es s))"
  by (auto simp: ask_def Let_def split: if_splits)

lemma ask_retry:
  assumes "ask append_to es (\<lambda>(s, b). propose s b rd draft attempt) fs s = (s', Inr (Inr (Retry r i j)))"
  shows "attempt < maxAgentAttempts"
  using ask_answer [OF assms] by (cases "batch_of es s") (metis case_prod_conv propose_retry)

function invoke_loop :: "'l surroundings \<Rightarrow> run_params \<Rightarrow> 'l session \<Rightarrow> bool \<Rightarrow> int \<Rightarrow> int \<Rightarrow> int \<Rightarrow> nat \<Rightarrow>
    'l session \<times> bool \<times> (invoke_error, invokeResult) result" where
  "invoke_loop env p s answered at_rev start end_pos attempt =
     (case ask (sr_append env (2 * attempt)) []
         (\<lambda>(s, b). beginRead s b (rp_runID p) (rp_author p) (a_name (rp_invoker p)) at_rev start end_pos) [] s of
        (s, Inl e) \<Rightarrow> (s, answered, Inl (InvStore e))
      | (s, Inr (Inl e)) \<Rightarrow> (s, answered, Inl (InvRead e))
      | (s, Inr (Inr rd)) \<Rightarrow>
          (case sr_answer env attempt (agent_request p rd) of
             Inl e \<Rightarrow> (s, answered, Inl (InvRun e))
           | Inr result \<Rightarrow>
               let s = sr_meanwhile env (2 * attempt) s in
               (case reviewResult (rp_command p) rd result of
                  TooMuchText \<Rightarrow> (s, True, Inl (InvAgent ErrTooMuchText))
                | NothingToSuggest \<Rightarrow>
                    (s, True, Inr \<lparr>vr_Suggestion = None, vr_Note = nothing_note p result, vr_Attempts = attempt\<rparr>)
                | Propose placement body \<Rightarrow>
                    (case ask (sr_append env (2 * attempt + 1)) []
                        (\<lambda>(s, b). propose s b rd (draft_of p placement body (res_note result)) attempt) [] s of
                       (s, Inl e) \<Rightarrow> (s, True, Inl (InvStore e))
                     | (s, Inr (Inl e)) \<Rightarrow> (s, True, Inl (InvPropose e))
                     | (s, Inr (Inr (Posted sg))) \<Rightarrow>
                         (s, True, Inr \<lparr>vr_Suggestion = Some sg, vr_Note = res_note result, vr_Attempts = attempt\<rparr>)
                     | (s, Inr (Inr (Retry at_rev start end_pos))) \<Rightarrow>
                         invoke_loop env p (sr_meanwhile env (2 * attempt + 1) s) True at_rev start end_pos (attempt + 1)))))"
  by pat_completeness auto
termination
proof (relation "measure (\<lambda>(env, p, s, answered, at_rev, start, end_pos, attempt). maxAgentAttempts - attempt)", simp, goal_cases)
  case (1 env p s answered at_rev start end_pos attempt)
  then have "attempt < maxAgentAttempts" by (auto dest!: ask_retry [OF sym])
  then show ?case by simp
qed

declare invoke_loop.simps [simp del]

text \<open>The whole run: its budget, its presence in the document, and taking both back however it ends.\<close>

definition run_id :: "agentInfo \<Rightarrow> int \<Rightarrow> str" where
  "run_id ag n = map of_char ''agent:'' @ ai_ID ag @ [58] @ decimal n"

definition kind_agent :: str where "kind_agent = map of_char ''agent''"

definition Invoke :: "rec_codec \<Rightarrow> bool \<Rightarrow> time \<Rightarrow> file_log surroundings \<Rightarrow> int \<Rightarrow> store \<Rightarrow> str \<Rightarrow> invokeRequest \<Rightarrow>
    store \<times> (invoke_error, invokeResult) result" where
  "Invoke J io now env runCounter st doc request =
     (case map_of (st_agents st) (vq_Agent request) of
        None \<Rightarrow> (st, Inl (InvAgent ErrUnknownAgent))
      | Some ag \<Rightarrow>
          (case get_session J io now st doc of
             (st, Inl e) \<Rightarrow> (st, Inl (InvStore e))
           | (st, Inr s) \<Rightarrow>
               let invoker = creator_of (vq_User request); instruction = TrimSpace (vq_Instruction request) in
               if a_name invoker = [] then (st, Inl (InvAgent ErrNoInvoker))
               else if byte_len instruction > maxInstruction then (st, Inl (InvAgent ErrInstruction))
               else (case acquire (st_budget st) doc now of
                  (b, Inl e) \<Rightarrow> (st\<lparr>st_budget := b\<rparr>, Inl (InvAgent e))
                | (b, Inr _) \<Rightarrow>
                    let p = \<lparr>rp_doc = doc, rp_info = ag,
                             rp_author = \<lparr>a_id = ai_ID ag, a_name = ai_Name ag, a_kind = kind_agent, a_model = ai_Model ag\<rparr>,
                             rp_invoker = invoker, rp_runID = run_id ag (runCounter + 1), rp_instruction = instruction,
                             rp_command = vq_Command request\<rparr> in
                    (case invoke_loop env p s False (vq_Rev request) (vq_Start request) (vq_End request) 1 of
                       (s, answered, res) \<Rightarrow>
                         let s = fst (ask (sr_append env 0) [] (\<lambda>(s, b). (endRun s b (rp_runID p), ())) [] s) in
                         ((put_session st doc s)\<lparr>st_budget := release (sr_budget env b) doc answered\<rparr>, res)))))"

subsection \<open>The librarian\<close>

record hit =
  ht_ID :: str
  ht_Title :: str
  ht_Type :: str
  ht_Snippet :: str
  ht_Score :: real

definition librarianHits :: nat where "librarianHits = 5"

definition hit_line :: "hit \<Rightarrow> str" where
  "hit_line h = map of_char ''- '' @ ht_Title h @
     (if ht_Type h \<noteq> [] then map of_char '' ('' @ ht_Type h @ map of_char '')'' else []) @
     (if ht_Snippet h \<noteq> [] then map of_char '': '' @ ht_Snippet h else [])"

fun librarian_lines :: "str \<Rightarrow> hit list \<Rightarrow> str list \<Rightarrow> str list" where
  "librarian_lines doc [] lines = lines"
| "librarian_lines doc (h # hs) lines =
     (if ht_ID h = map of_char ''doc:'' @ doc \<or> length lines = librarianHits then librarian_lines doc hs lines
      else librarian_lines doc hs (lines @ [hit_line h]))"

text \<open>What to look for: the instruction, else the selection, else the line the caret is on.\<close>

definition librarian_query :: "agentRequest \<Rightarrow> str" where
  "librarian_query request =
     (let query = TrimSpace (rq_Instruction request);
          query = (if query = [] \<and> \<not> rq_Command request then TrimSpace (rq_Selection request) else query)
      in if query = []
         then TrimSpace (rev (takeWhile (\<lambda>r. r \<noteq> 10) (rev (rq_Before request))) @ takeWhile (\<lambda>r. r \<noteq> 10) (rq_After request))
         else query)"

fun join_lines :: "str list \<Rightarrow> str" where
  "join_lines [] = []"
| "join_lines [l] = l"
| "join_lines (l # ls) = l @ [10] @ join_lines ls"

definition Librarian_Run :: "(str \<Rightarrow> nat \<Rightarrow> hit list) option \<Rightarrow> agentRequest \<Rightarrow> (run_failure, agentResult) result" where
  "Librarian_Run search request =
     (if librarian_query request = [] then Inl (RunFailed (map of_char ''select some text or say what to look for''))
      else case search of
        None \<Rightarrow> Inl (RunFailed (map of_char ''search is not available''))
      | Some find_hits \<Rightarrow>
          let lines = librarian_lines (rq_DocID request) (find_hits (librarian_query request) (librarianHits + 1)) [];
              list = map of_char ''Related in Atlas:'' @ [10] @ join_lines lines in
          if lines = [] then
            Inr \<lparr>res_text = [], res_placement = OtherPlacement [], res_note = map of_char ''Nothing related is indexed in Atlas yet.''\<rparr>
          else if rq_Command request then Inr \<lparr>res_text = list, res_placement = PlaceReplace, res_note = []\<rparr>
          else Inr \<lparr>res_text = [10, 10] @ list, res_placement = PlaceAfter, res_note = []\<rparr>)"

lemma librarian_lines_take:
  "length lines \<le> librarianHits \<Longrightarrow> librarian_lines doc hs lines =
     take librarianHits (lines @ map hit_line (filter (\<lambda>h. ht_ID h \<noteq> map of_char ''doc:'' @ doc) hs))"
  by (induction hs arbitrary: lines) (auto simp: take_Cons')

subsection \<open>What a run leaves behind\<close>

text \<open>A suggestion as a run posts it.\<close>

definition posted_by :: "run_params \<Rightarrow> nat \<Rightarrow> suggestion \<Rightarrow> bool" where
  "posted_by p attempt sg \<longleftrightarrow> s_agent sg = rp_author p \<and> s_invokedBy sg = rp_invoker p \<and> s_attempts sg = int attempt \<and>
     byte_len (s_body sg) \<le> maxSuggestion \<and> (rp_command p \<longrightarrow> s_placement sg = PlaceReplace) \<and>
     (s_status sg = StatusPending \<or> s_status sg = StatusStale \<and> maxAgentAttempts \<le> attempt)"

lemma propose_posts:
  assumes "propose s b rd draft attempt = (x, Inr (Posted sg))"
  shows "s_agent sg = s_agent draft \<and> s_invokedBy sg = s_invokedBy draft \<and> s_body sg = s_body draft \<and>
    s_placement sg = s_placement draft \<and> s_attempts sg = int attempt \<and>
    (s_status sg = StatusPending \<or> s_status sg = StatusStale \<and> maxAgentAttempts \<le> attempt)"
proof -
  obtain start end_pos touched where m: "mapRangeFrom (ss_state s) (rd_rev rd) (rd_start rd) (rd_end rd) = Inr (start, end_pos, touched)"
    using assms by (auto simp: propose_def split: sum.splits prod.splits)
  let ?sg = "draft\<lparr>s_id := 115 # digits 10 (ss_nextSug s + 1), s_baseRev := rd_rev rd, s_rev := d_rev (ss_state s),
    s_start := start, s_end := end_pos, s_original := rd_text rd, s_attempts := int attempt,
    s_createdAt := ss_now s, s_status := (if touched then StatusStale else StatusPending)\<rparr>"
  let ?s = "s\<lparr>ss_nextSug := ss_nextSug s + 1\<rparr>" and ?r = "sug_rec (ss_now s) ?sg"
  have t: "\<not> (touched \<and> attempt < maxAgentAttempts)" using assms m by (auto simp: propose_def split: if_splits)
  obtain s2 b2 res where cm: "commit ?s b ?r = ((s2, b2), res)" by (cases "commit ?s b ?r") auto
  with assms m t obtain changed where ch: "res = Inr changed" "sg = the (d_suggestions (ss_state s2) (hd changed))"
    by (cases res) (auto simp: propose_def Let_def)
  have "apply_record (ss_state s) ?r = (ss_state s2, Inr changed)"
    using cm ch(1) by (auto simp: commit_def split: prod.splits sum.splits)
  then have "changed = [s_id ?sg] \<and> d_suggestions (ss_state s2) (s_id ?sg) = Some ?sg \<and> d_text (ss_state s2) = d_text (ss_state s)"
    by (intro apply_suggest [where r = ?r]) (simp_all add: sug_rec_def meta_rec_def)
  then have "sg = ?sg" using ch(2) by simp
  then show ?thesis using t by (simp add: not_less)
qed

lemma review_proposes:
  "reviewResult command rd result = Propose placement body \<Longrightarrow>
     byte_len body \<le> maxSuggestion \<and> (command \<longrightarrow> placement = PlaceReplace)"
  by (auto simp: reviewResult_def Let_def split: if_splits)

lemma ask_posts:
  assumes "ask append_to es (\<lambda>(s, b). propose s b rd (draft_of p placement body note) attempt) fs s = (s', Inr (Inr (Posted sg)))"
    and "byte_len body \<le> maxSuggestion" and "rp_command p \<longrightarrow> placement = PlaceReplace"
  shows "posted_by p attempt sg"
proof -
  obtain s1 b1 where b: "batch_of es s = (s1, b1)" by (cases "batch_of es s")
  obtain x where "propose s1 b1 rd (draft_of p placement body note) attempt = (x, Inr (Posted sg))"
    using ask_answer [OF assms(1)] b by (cases "propose s1 b1 rd (draft_of p placement body note) attempt") auto
  from propose_posts [OF this] assms(2,3) show ?thesis by (auto simp: posted_by_def draft_of_def)
qed

lemma invoke_loop_result:
  "invoke_loop env p s answered at_rev start end_pos attempt = (s', answered', res) \<Longrightarrow> attempt \<le> maxAgentAttempts \<Longrightarrow>
     (\<forall>r. res = Inr r \<longrightarrow> answered' \<and> attempt \<le> vr_Attempts r \<and> vr_Attempts r \<le> maxAgentAttempts \<and>
        (\<forall>sg. vr_Suggestion r = Some sg \<longrightarrow> posted_by p (vr_Attempts r) sg))"
proof (induction env p s answered at_rev start end_pos attempt arbitrary: s' answered' res rule: invoke_loop.induct)
  case (1 env p s answered at_rev start end_pos attempt)
  obtain s1 read where a: "ask (sr_append env (2 * attempt)) []
      (\<lambda>(s, b). beginRead s b (rp_runID p) (rp_author p) (a_name (rp_invoker p)) at_rev start end_pos) [] s = (s1, read)"
    by (cases "ask (sr_append env (2 * attempt)) []
      (\<lambda>(s, b). beginRead s b (rp_runID p) (rp_author p) (a_name (rp_invoker p)) at_rev start end_pos) [] s")
  note loop = 1(2) [unfolded invoke_loop.simps [of env p s answered] a]
  show ?case
  proof (cases "\<exists>rd result placement body. read = Inr (Inr rd) \<and> sr_answer env attempt (agent_request p rd) = Inr result \<and>
      reviewResult (rp_command p) rd result = Propose placement body")
    case False
    with loop 1(3) show ?thesis by (auto simp: Let_def split: sum.splits review.splits)
  next
    case True
    then obtain rd result placement body where rd: "read = Inr (Inr rd)" "sr_answer env attempt (agent_request p rd) = Inr result"
      "reviewResult (rp_command p) rd result = Propose placement body" by blast
    obtain s2 offered where b: "ask (sr_append env (2 * attempt + 1)) []
        (\<lambda>(s, b). propose s b rd (draft_of p placement body (res_note result)) attempt) [] (sr_meanwhile env (2 * attempt) s1) = (s2, offered)"
      by (cases "ask (sr_append env (2 * attempt + 1)) []
        (\<lambda>(s, b). propose s b rd (draft_of p placement body (res_note result)) attempt) [] (sr_meanwhile env (2 * attempt) s1)")
    consider (err) "\<exists>e. res = Inl e" | (posted) sg where "offered = Inr (Inr (Posted sg))"
      | (again) r i j where "offered = Inr (Inr (Retry r i j))"
      using loop rd b by (cases offered) (auto split: sum.splits proposal.splits)
    then show ?thesis
    proof cases
      case err
      then show ?thesis by auto
    next
      case (posted sg)
      with loop rd b ask_posts [OF b [unfolded posted]] review_proposes [OF rd(3)] 1(3) show ?thesis by auto
    next
      case (again r i j)
      from ask_retry [OF b [unfolded again]] have "attempt + 1 \<le> maxAgentAttempts" by simp
      moreover from loop rd b again have "invoke_loop env p (sr_meanwhile env (2 * attempt + 1) s2) True r i j (attempt + 1) = (s', answered', res)"
        by simp
      ultimately show ?thesis
        using "1.IH" [OF a [symmetric] rd(1) refl rd(2) refl rd(3) b [symmetric] again refl refl] by auto
    qed
  qed
qed

lemma delivered_runs: "ss_runs (foldl deliver s ms) = ss_runs s"
  by (induction ms arbitrary: s) (auto simp: deliver_def set_conn_def split: prod.split)

lemma published_runs: "ss_runs (publish s) = ss_runs s"
  by (simp add: publish_def Let_def)

lemma run_batch_endRun:
  "\<not> ss_dead (run_batch append_to [\<lambda>x. fst ((\<lambda>(s, b). (endRun s b runID, ())) x)] s) \<Longrightarrow>
     runID \<notin> ar_id ` set (ss_runs (run_batch append_to [\<lambda>x. fst ((\<lambda>(s, b). (endRun s b runID, ())) x)] s))"
proof -
  obtain s' b' where e: "endRun s newBatch runID = (s', b')" by (cases "endRun s newBatch runID")
  then have "b_payloads b' = []" "runID \<notin> ar_id ` set (ss_runs s')"
    by (auto simp: endRun_def Let_def newBatch_payloads split: if_splits)
  then show "\<not> ss_dead (run_batch append_to [\<lambda>x. fst ((\<lambda>(s, b). (endRun s b runID, ())) x)] s) \<Longrightarrow> ?thesis"
    using e by (simp add: run_batch_def delivered_runs published_runs split: if_splits)
qed

text \<open>A run is refused before it starts, or it starts and is taken back.\<close>

lemma acquire_cases:
  "acquire b doc now = (b', res) \<Longrightarrow> bg_running b' = (if res = Inr () then (bg_running b)(doc := bg_running b doc + 1) else bg_running b) \<and>
     (res = Inr () \<longrightarrow> now \<in> set (bg_started b' doc))"
  by (auto simp: acquire_def Let_def split: if_splits)

lemma get_session_keeps:
  "get_session J io now st doc = (st1, res) \<Longrightarrow> st_budget st1 = st_budget st \<and> st_agents st1 = st_agents st"
  by (auto simp: get_session_def split: option.splits prod.splits sum.splits if_splits)

lemma Invoke_cases [consumes 1, case_names refused ran]:
  assumes "Invoke J io now env runCounter st doc request = (st', res)"
  obtains e where "res = Inl e" and "bg_running (st_budget st') = bg_running (st_budget st)"
    | st1 s b p s1 s2 answered where "get_session J io now st doc = (st1, Inr s)" and "acquire (st_budget st) doc now = (b, Inr ())"
      and "map_of (st_agents st) (vq_Agent request) = Some (rp_info p)" and "rp_runID p = run_id (rp_info p) (runCounter + 1)"
      and "a_id (rp_author p) = ai_ID (rp_info p)" and "a_kind (rp_author p) = kind_agent" and "rp_invoker p = creator_of (vq_User request)"
      and "rp_command p = vq_Command request"
      and "invoke_loop env p s False (vq_Rev request) (vq_Start request) (vq_End request) 1 = (s1, answered, res)"
      and "s2 = run_batch (sr_append env 0) [\<lambda>x. fst ((\<lambda>(s, b). (endRun s b (rp_runID p), ())) x)] s1"
      and "st' = (put_session st1 doc s2)\<lparr>st_budget := release (sr_budget env b) doc answered\<rparr>"
proof (cases "map_of (st_agents st) (vq_Agent request)")
  case None
  with assms show thesis by (intro that(1)) (auto simp: Invoke_def)
next
  case (Some ag)
  obtain st1 got where g: "get_session J io now st doc = (st1, got)" by (cases "get_session J io now st doc")
  note keep = get_session_keeps [OF g]
  obtain b acq where a: "acquire (st_budget st) doc now = (b, acq)" by (cases "acquire (st_budget st) doc now")
  define p where "p = \<lparr>rp_doc = doc, rp_info = ag,
    rp_author = \<lparr>a_id = ai_ID ag, a_name = ai_Name ag, a_kind = kind_agent, a_model = ai_Model ag\<rparr>,
    rp_invoker = creator_of (vq_User request), rp_runID = run_id ag (runCounter + 1), rp_instruction = TrimSpace (vq_Instruction request),
    rp_command = vq_Command request\<rparr>"
  show thesis
  proof (cases "(\<exists>s. got = Inr s) \<and> a_name (creator_of (vq_User request)) \<noteq> [] \<and>
      byte_len (TrimSpace (vq_Instruction request)) \<le> maxInstruction \<and> acq = Inr ()")
    case False
    with assms Some g a keep acquire_cases [OF a]
    have "(\<exists>e. res = Inl e) \<and> bg_running (st_budget st') = bg_running (st_budget st)"
      by (auto simp: Invoke_def Let_def split: sum.splits if_splits)
    then show thesis using that(1) by blast
  next
    case True
    then obtain s where s: "got = Inr s" by blast
    obtain s1 answered res' where l: "invoke_loop env p s False (vq_Rev request) (vq_Start request) (vq_End request) 1 = (s1, answered, res')"
      by (cases "invoke_loop env p s False (vq_Rev request) (vq_Start request) (vq_End request) 1") auto
    with assms Some g a s True keep have "res' = res"
      "st' = (put_session st1 doc (run_batch (sr_append env 0) [\<lambda>x. fst ((\<lambda>(s, b). (endRun s b (rp_runID p), ())) x)] s1))\<lparr>st_budget := release (sr_budget env b) doc answered\<rparr>"
      by (simp_all add: Invoke_def Let_def p_def ask_def)
    with l g a s True Some show thesis by (intro that(2)) (auto simp: p_def)
  qed
qed

subsection \<open>Properties\<close>

text \<open>
  whatever an agent answers, a run ends after at most two attempts, and what it posts is the agent's: signed by it and by the person asking, of bounded
  length, replacing the line of a command; it is out of date only if the run had no attempt left.
\<close>

theorem invoke_posts_own_suggestion:
  assumes "Invoke J io now env runCounter st doc request = (st', Inr r)"
  shows "1 \<le> vr_Attempts r \<and> vr_Attempts r \<le> maxAgentAttempts \<and>
    (\<forall>sg. vr_Suggestion r = Some sg \<longrightarrow>
       a_id (s_agent sg) = ai_ID (the (map_of (st_agents (fst (get_session J io now st doc))) (vq_Agent request))) \<and>
       a_kind (s_agent sg) = kind_agent \<and> s_invokedBy sg = creator_of (vq_User request) \<and> byte_len (s_body sg) \<le> maxSuggestion \<and>
       (vq_Command request \<longrightarrow> s_placement sg = PlaceReplace) \<and> s_attempts sg = int (vr_Attempts r) \<and>
       (s_status sg = StatusPending \<or> s_status sg = StatusStale \<and> vr_Attempts r = maxAgentAttempts))"
  using assms
proof (cases rule: Invoke_cases)
  case (ran st1 s b p s1 s2 answered)
  note ran(1,3,5-8) [simp]
  from get_session_keeps [OF ran(1)] have "st_agents st1 = st_agents st" by simp
  with invoke_loop_result [OF ran(9)] show ?thesis by (auto simp: posted_by_def maxAgentAttempts_def)
qed simp

text \<open>
  C26: a run that is refused before it starts leaves the counts of running agents alone. One that started gives back its place however it ends, with a
  suggestion, without one, or with an error of the agent, the document or the log, and whatever other runs start and end meanwhile: the counts have
  changed by what the others did, and the agent is not shown in the document any more, unless the session has died with all it showed. A run that
  returned was entered for the hourly limit when it started, and takes no entry back.
\<close>

theorem invoke_gives_back:
  assumes "Invoke J io now env runCounter st doc request = (st', res)"
    and others: "\<And>b d. bg_running (sr_budget env b) d = bg_running b d + others d"
  shows "let b = fst (acquire (st_budget st) doc now) in
    (bg_running (st_budget st') = bg_running (st_budget st) \<and> (\<exists>e. res = Inl e)) \<or>
    ((\<forall>d. bg_running (st_budget st') d = bg_running (st_budget st) d + others d) \<and>
     (\<exists>s ag. map_of (st_sessions st') doc = Some s \<and> map_of (st_agents st) (vq_Agent request) = Some ag \<and>
        (ss_dead s \<or> run_id ag (runCounter + 1) \<notin> ar_id ` set (ss_runs s))) \<and>
     (\<forall>r. res = Inr r \<longrightarrow> now \<in> set (bg_started b doc) \<and> bg_started (st_budget st') = bg_started (sr_budget env b)))"
  using assms(1)
proof (cases rule: Invoke_cases)
  case (refused e)
  then show ?thesis by (simp add: Let_def)
next
  case (ran st1 s b p s1 s2 answered)
  note acq = acquire_cases [OF ran(2)]
  have answered: "answered" if "res = Inr r" for r using invoke_loop_result [OF ran(9)] that by (simp add: maxAgentAttempts_def)
  have budget: "st_budget st' = release (sr_budget env b) doc answered" by (simp add: ran(11))
  have "bg_running (st_budget st') d = bg_running (st_budget st) d + others d" for d
    using acq by (simp add: budget release_def Let_def others)
  moreover have "ss_dead s2 \<or> rp_runID p \<notin> ar_id ` set (ss_runs s2)" using run_batch_endRun by (auto simp: ran(10))
  moreover have "map_of (st_sessions st') doc = Some s2" by (simp add: ran(11) put_session_def update_conv')
  moreover have "bg_started (st_budget st') = bg_started (sr_budget env b)" if "res = Inr r" for r
    using answered [OF that] by (simp add: budget release_def Let_def)
  ultimately show ?thesis using acq ran(2-4) by (auto simp: Let_def)
qed

subsection \<open>A run that finds nothing\<close>

definition idle_run :: "file_log surroundings" where
  "idle_run = \<lparr>sr_answer = (\<lambda>_ _. Inr \<lparr>res_text = [], res_placement = OtherPlacement [], res_note = []\<rparr>),
     sr_append = (\<lambda>_. file_append plain_codec DiskOk), sr_meanwhile = (\<lambda>_ s. s), sr_budget = (\<lambda>b. b)\<rparr>"

definition idle_request :: "int \<Rightarrow> invokeRequest" where
  "idle_request n = \<lparr>vq_Agent = ai_ID librarian, vq_Rev = n, vq_Start = 0, vq_End = 0, vq_Instruction = [], vq_Command = False,
     vq_User = \<lparr>a_id = [], a_name = [97], a_kind = [], a_model = []\<rparr>\<rparr>"

lemma beginRead_start:
  assumes "doc_inv (ss_state s)"
  shows "\<exists>x rd. beginRead s b runID agent by' (d_rev (ss_state s)) 0 0 = (x, Inr rd) \<and> rd_start rd = 0 \<and> rd_end rd = 0 \<and> rd_text rd = [] \<and>
    b_payloads (snd x) = b_payloads b"
proof -
  have r: "d_rev (ss_state s) = int (length (d_history (ss_state s)))" using assms by (simp add: doc_inv_def history_inv_def)
  have "\<not> insidePair (d_text (ss_state s)) 0" by (simp add: insidePair_def)
  with r show ?thesis by (simp add: beginRead_def mapRangeFrom_def lengthAt_def Let_def sub_def)
qed

lemma idle_runs: "\<exists>n st' r. Invoke plain_codec True 2 (idle_run\<lparr>sr_budget := f\<rparr>) 0 second_store zero_id (idle_request n) = (st', Inr r)"
proof -
  obtain s where s: "map_of (st_sessions second_store) zero_id = Some s" "\<not> ss_dead s" "\<not> st_closed second_store"
    using second_store(2) by blast
  then have g: "get_session plain_codec True 2 second_store zero_id = (second_store, Inr s)" by (simp add: get_session_def)
  from s reachable_ok [OF second_store(1)] have "backed plain_codec zero_id s" by (simp add: store_ok_def in_step_def)
  with s(2) have inv: "doc_inv (ss_state s)"
    using replay_loop_inv [OF _ doc_inv_new] by (auto simp: backed_def reads_as_def replay_def)
  have ag: "st_agents second_store = [(ai_ID librarian, librarian)] \<and> st_budget second_store = newBudget 30 2"
  proof -
    obtain st' i where c: "Create plain_codec True 1 DiskOk True (Some zero_bytes) first_store [116] [] nobody = (st', Inr i)"
      using first_create by blast
    from first_good c have "st_agents st' = [(ai_ID librarian, librarian)] \<and> st_budget st' = newBudget 30 2"
      by (cases rule: Create_cases) (auto simp: with_session_def put_session_def with_file_def first_store_def empty_store_def)
    with c show ?thesis by (simp add: second_store_def)
  qed
  let ?asker = "\<lparr>a_id = [], a_name = [97], a_kind = kind_human, a_model = []\<rparr>"
  have who: "creator_of \<lparr>a_id = [], a_name = [97], a_kind = [], a_model = []\<rparr> = ?asker"
    by (simp add: creator_of_def cleanText_def is_space_def maxNameRunes_def)
  obtain b where acq: "acquire (newBudget 30 2) zero_id 2 = (b, Inr ())" by (simp add: acquire_def newBudget_def)
  have loop: "\<exists>s' r. invoke_loop (idle_run\<lparr>sr_budget := f\<rparr>) p s False (d_rev (ss_state s)) 0 0 1 = (s', True, Inr r)" for p
  proof -
    obtain x rd where b: "beginRead s newBatch (rp_runID p) (rp_author p) (a_name (rp_invoker p)) (d_rev (ss_state s)) 0 0 = (x, Inr rd)"
      "rd_start rd = 0" "rd_end rd = 0" "rd_text rd = []" "b_payloads (snd x) = []"
      using beginRead_start [OF inv, of newBatch] newBatch_payloads by metis
    then show ?thesis
      using s(2) by (cases x; subst invoke_loop.simps)
        (simp add: ask_def durable_def batch_of_def Let_def idle_run_def reviewResult_def normalizeNewlines_def byte_len_def maxSuggestion_def
          split: prod.split)
  qed
  obtain s' r where l: "invoke_loop (idle_run\<lparr>sr_budget := f\<rparr>) \<lparr>rp_doc = zero_id, rp_info = librarian,
      rp_author = \<lparr>a_id = ai_ID librarian, a_name = ai_Name librarian, a_kind = kind_agent, a_model = ai_Model librarian\<rparr>,
      rp_invoker = ?asker, rp_runID = run_id librarian 1, rp_instruction = [], rp_command = False\<rparr> s False (d_rev (ss_state s)) 0 0 1 =
    (s', True, Inr r)"
    using loop by blast
  show ?thesis
    using ag acq who l
    by (intro exI [of _ "d_rev (ss_state s)"]) (simp add: Invoke_def g Let_def idle_request_def TrimSpace_def byte_len_def)
qed

theorem invoke_posts_own_suggestion_witness:
  "\<exists>n st' r. Invoke plain_codec True 2 idle_run 0 second_store zero_id (idle_request n) = (st', Inr r) \<and> vr_Attempts r \<le> maxAgentAttempts"
proof -
  have "idle_run\<lparr>sr_budget := (\<lambda>b. b)\<rparr> = idle_run" by (simp add: idle_run_def)
  then obtain n st' r where "Invoke plain_codec True 2 idle_run 0 second_store zero_id (idle_request n) = (st', Inr r)" using idle_runs by metis
  with invoke_posts_own_suggestion [OF this] show ?thesis by blast
qed

text \<open>Meanwhile another run of the document begins.\<close>

definition crowded_run :: "file_log surroundings" where
  "crowded_run = idle_run\<lparr>sr_budget := (\<lambda>b. b\<lparr>bg_running := (bg_running b)(zero_id := bg_running b zero_id + 1)\<rparr>)\<rparr>"

theorem invoke_gives_back_witness:
  "\<exists>n st' r. Invoke plain_codec True 2 crowded_run 0 second_store zero_id (idle_request n) = (st', Inr r) \<and>
     bg_running (st_budget st') zero_id = bg_running (st_budget second_store) zero_id + 1"
proof -
  obtain n st' r where run': "Invoke plain_codec True 2 crowded_run 0 second_store zero_id (idle_request n) = (st', Inr r)" unfolding crowded_run_def using idle_runs by blast
  have "bg_running (sr_budget crowded_run b) d = bg_running b d + (if d = zero_id then 1 else 0)" for b d by (simp add: crowded_run_def)
  from invoke_gives_back [OF run' this] have "bg_running (st_budget st') zero_id = bg_running (st_budget second_store) zero_id + 1"
    by (auto simp: Let_def)
  with run' show ?thesis by blast
qed

end
