(* ===== verification/Provenance.thy ===== *)
theory Provenance
  imports SessionProps "HOL-Library.Multiset"
begin

text \<open>
  \<^verbatim>\<open>Provenance\<close> of \<^verbatim>\<open>internal/collab/store.go\<close>: who wrote what of a document's current text, and what became of each agent's suggestions.
\<close>

subsection \<open>The report\<close>

record authorShare =
  as_author :: author
  as_units :: nat

record agentStats =
  ag_agent :: author
  ag_proposed :: nat
  ag_accepted :: nat
  ag_rejected :: nat
  ag_stale :: nat
  ag_pending :: nat

record provenance =
  pv_doc :: docInfo
  pv_units :: nat
  pv_byKind :: "(str \<times> nat) list"
  pv_shares :: "authorShare list"
  pv_authors :: "author list"
  pv_spans :: "span list"
  pv_agents :: "agentStats list"

text \<open>Counting the units of each author; an index that is out of range is a run-time panic.\<close>

fun count_units :: "nat list \<Rightarrow> 32 word list \<Rightarrow> (doc_error, nat list) result" where
  "count_units units [] = Inr units"
| "count_units units (a # as) =
     (if unat a < length units then count_units (units[unat a := units ! unat a + 1]) as else Inl DocPanic)"

text \<open>\<^verbatim>\<open>m[k] += n\<close>\<close>

definition bump :: "'k \<Rightarrow> nat \<Rightarrow> ('k \<times> nat) list \<Rightarrow> ('k \<times> nat) list" where
  "bump k n m = AList.update k ((case map_of m k of None \<Rightarrow> 0 | Some old \<Rightarrow> old) + n) m"

fun shares_loop :: "author list \<Rightarrow> nat list \<Rightarrow> authorShare list \<Rightarrow> (str \<times> nat) list \<Rightarrow> authorShare list \<times> (str \<times> nat) list" where
  "shares_loop (a # as) (n # ns) shares byKind =
     (if n = 0 then shares_loop as ns shares byKind
      else shares_loop as ns (shares @ [\<lparr>as_author = a, as_units = n\<rparr>]) (bump (a_kind a) n byKind))"
| "shares_loop as ns shares byKind = (shares, byKind)"

definition new_stats :: "author \<Rightarrow> agentStats" where
  "new_stats a = \<lparr>ag_agent = a, ag_proposed = 0, ag_accepted = 0, ag_rejected = 0, ag_stale = 0, ag_pending = 0\<rparr>"

definition count_status :: "status \<Rightarrow> agentStats \<Rightarrow> agentStats" where
  "count_status status e =
     (let e = e\<lparr>ag_proposed := ag_proposed e + 1\<rparr> in
      case status of
        StatusAccepted \<Rightarrow> e\<lparr>ag_accepted := ag_accepted e + 1\<rparr>
      | StatusRejected \<Rightarrow> e\<lparr>ag_rejected := ag_rejected e + 1\<rparr>
      | StatusStale \<Rightarrow> e\<lparr>ag_stale := ag_stale e + 1\<rparr>
      | StatusDismissed \<Rightarrow> e\<lparr>ag_stale := ag_stale e + 1\<rparr>
      | _ \<Rightarrow> e\<lparr>ag_pending := ag_pending e + 1\<rparr>)"

definition stats_step :: "(str \<rightharpoonup> suggestion) \<Rightarrow> (author \<times> agentStats) list \<Rightarrow> str \<Rightarrow> (doc_error, (author \<times> agentStats) list) result" where
  "stats_step sugs stats id' =
     (case sugs id' of
        None \<Rightarrow> Inl DocPanic
      | Some s \<Rightarrow>
          let entry = (case map_of stats (s_agent s) of None \<Rightarrow> new_stats (s_agent s) | Some e \<Rightarrow> e) in
          Inr (AList.update (s_agent s) (count_status (s_status s) entry) stats))"

text \<open>By the id of the agent; among agents of one id the order of the report is not determined, the model takes one.\<close>

fun insert_stats :: "agentStats \<Rightarrow> agentStats list \<Rightarrow> agentStats list" where
  "insert_stats e [] = [e]"
| "insert_stats e (f # fs) = (if str_le (a_id (ag_agent e)) (a_id (ag_agent f)) then e # f # fs else f # insert_stats e fs)"

definition report :: "'l session \<Rightarrow> (doc_error, provenance) result" where
  "report s =
     (let d = ss_state s in
      rbind (count_units (replicate (length (d_authors d)) 0) (d_attr d)) (\<lambda>units.
      rbind (foldr_err (stats_step (d_suggestions d)) [] (d_order d)) (\<lambda>stats.
        case shares_loop (d_authors d) units [] [] of (shares, byKind) \<Rightarrow>
          Inr \<lparr>pv_doc = info s, pv_units = length (d_text d), pv_byKind = byKind, pv_shares = sort_key (\<lambda>a. - int (as_units a)) shares,
               pv_authors = d_authors d, pv_spans = spans d, pv_agents = foldr insert_stats (map snd stats) []\<rparr>)))"

subsection \<open>Counting units\<close>

lemma count_units_total:
  "\<forall>a \<in> set as. unat a < length units \<Longrightarrow>
     \<exists>ns. count_units units as = Inr ns \<and> length ns = length units \<and>
       (\<forall>i < length units. ns ! i = units ! i + length (filter (\<lambda>a. unat a = i) as)) \<and> sum_list ns = sum_list units + length as"
proof (induction as arbitrary: units)
  case (Cons a as)
  let ?u = "units[unat a := units ! unat a + 1]"
  have a: "unat a < length units" using Cons.prems by simp
  from Cons obtain ns where ns: "count_units ?u as = Inr ns" "length ns = length units"
    "\<forall>i < length units. ns ! i = ?u ! i + length (filter (\<lambda>a. unat a = i) as)" "sum_list ns = sum_list ?u + length as"
    by (metis length_list_update list.set_intros(2))
  have "sum_list ?u = sum_list units + 1" using a elem_le_sum_list [OF a] by (simp add: sum_list_update)
  with ns a show ?case by (auto simp: nth_list_update)
qed simp

lemma sum_bump: "sum_list (map snd (bump k n m)) = sum_list (map snd m) + n"
proof -
  have "sum_list (map snd (AList.update k ((case map_of m k of None \<Rightarrow> 0 | Some old \<Rightarrow> old) + n) m)) = sum_list (map snd m) + n"
    by (induction m) auto
  then show ?thesis by (simp add: bump_def)
qed

lemma shares_loop_sums:
  "length as = length ns \<Longrightarrow> shares_loop as ns shares byKind = (shares', byKind') \<Longrightarrow>
     sum_list (map as_units shares') = sum_list (map as_units shares) + sum_list ns \<and>
     sum_list (map snd byKind') = sum_list (map snd byKind) + sum_list ns"
proof (induction as ns shares byKind rule: shares_loop.induct)
  case (1 a as n ns shares byKind)
  then show ?case by (cases "n = 0") (auto simp: sum_bump)
qed auto

lemma shares_loop_members:
  "length as = length ns \<Longrightarrow> set (fst (shares_loop as ns shares byKind)) =
     set shares \<union> {\<lparr>as_author = as ! i, as_units = ns ! i\<rparr> | i. i < length as \<and> ns ! i \<noteq> 0}"
proof (induction as ns shares byKind rule: shares_loop.induct)
  case (1 a as n ns shares byKind)
  have split: "{\<lparr>as_author = (a # as) ! i, as_units = (n # ns) ! i\<rparr> | i. i < length (a # as) \<and> (n # ns) ! i \<noteq> 0} =
      (if n = 0 then {} else {\<lparr>as_author = a, as_units = n\<rparr>}) \<union> {\<lparr>as_author = as ! i, as_units = ns ! i\<rparr> | i. i < length as \<and> ns ! i \<noteq> 0}"
    by (auto simp: less_Suc_eq_0_disj) (metis Suc_less_eq nth_Cons_0 nth_Cons_Suc zero_less_Suc)+
  show ?case
    unfolding split using 1 by (cases "n = 0") auto
qed auto

subsection \<open>Counting suggestions\<close>

text \<open>What the report should say of an agent: its suggestions, by what became of them.\<close>

definition stats_of :: "(str \<rightharpoonup> suggestion) \<Rightarrow> str list \<Rightarrow> author \<Rightarrow> agentStats" where
  "stats_of sugs ids a =
     (let mine = filter (\<lambda>s. s_agent s = a) (map (\<lambda>i. the (sugs i)) ids);
          with_status = (\<lambda>P. length (filter (\<lambda>s. P (s_status s)) mine)) in
      \<lparr>ag_agent = a, ag_proposed = length mine, ag_accepted = with_status (\<lambda>t. t = StatusAccepted),
       ag_rejected = with_status (\<lambda>t. t = StatusRejected), ag_stale = with_status (\<lambda>t. t = StatusStale \<or> t = StatusDismissed),
       ag_pending = with_status (\<lambda>t. t = StatusPending \<or> (\<exists>u. t = OtherStatus u))\<rparr>)"

definition stats_inv :: "(str \<rightharpoonup> suggestion) \<Rightarrow> str list \<Rightarrow> (author \<times> agentStats) list \<Rightarrow> bool" where
  "stats_inv sugs ids stats \<longleftrightarrow> distinct (map fst stats) \<and>
     map_of stats = (\<lambda>a. if a \<in> (\<lambda>i. s_agent (the (sugs i))) ` set ids then Some (stats_of sugs ids a) else None)"

lemma stats_of_new: "a \<notin> (\<lambda>i. s_agent (the (sugs i))) ` set ids \<Longrightarrow> stats_of sugs ids a = new_stats a"
  by (induction ids) (auto simp: stats_of_def new_stats_def)

lemma stats_of_snoc:
  "stats_of sugs (ids @ [i]) a =
     (if s_agent (the (sugs i)) = a then count_status (s_status (the (sugs i))) (stats_of sugs ids a) else stats_of sugs ids a)"
  by (auto simp: stats_of_def count_status_def Let_def split: status.split)

lemma stats_step_inv:
  assumes "stats_inv sugs ids stats" and "sugs i = Some s" and "stats_step sugs stats i = Inr stats'"
  shows "stats_inv sugs (ids @ [i]) stats'"
proof -
  let ?a = "s_agent s"
  have entry: "(case map_of stats ?a of None \<Rightarrow> new_stats ?a | Some e \<Rightarrow> e) = stats_of sugs ids ?a"
    using assms(1) by (auto simp: stats_inv_def stats_of_new)
  have stats': "stats' = AList.update ?a (count_status (s_status s) (stats_of sugs ids ?a)) stats"
    using assms(2,3) entry by (simp add: stats_step_def Let_def)
  then have "distinct (map fst stats')" using assms(1) distinct_update by (auto simp: stats_inv_def)
  moreover have "map_of stats' a = (if a \<in> (\<lambda>i. s_agent (the (sugs i))) ` set (ids @ [i]) then Some (stats_of sugs (ids @ [i]) a) else None)" for a
    using assms(1,2) by (auto simp: stats' update_conv' stats_inv_def stats_of_snoc)
  ultimately show ?thesis by (auto simp: stats_inv_def)
qed

lemma stats_fold:
  "stats_inv sugs done_ids stats \<Longrightarrow> set ids \<subseteq> dom sugs \<Longrightarrow>
     \<exists>stats'. foldr_err (stats_step sugs) stats ids = Inr stats' \<and> stats_inv sugs (done_ids @ ids) stats'"
proof (induction ids arbitrary: done_ids stats)
  case (Cons i ids)
  then obtain s where s: "sugs i = Some s" by auto
  then obtain stats1 where one: "stats_step sugs stats i = Inr stats1" by (simp add: stats_step_def Let_def)
  from Cons.IH [OF stats_step_inv [OF Cons.prems(1) s one]] Cons.prems(2) one show ?case by auto
qed simp

lemma set_insert_stats: "set (foldr insert_stats es fs) = set es \<union> set fs"
proof -
  have "set (insert_stats e fs) = insert e (set fs)" for e fs by (induction fs) auto
  then show ?thesis by (induction es) auto
qed

lemma stats_members:
  assumes "stats_inv sugs ids stats"
  shows "snd ` set stats = stats_of sugs ids ` (\<lambda>i. s_agent (the (sugs i))) ` set ids"
proof -
  have m: "(a, e) \<in> set stats \<longleftrightarrow> a \<in> (\<lambda>i. s_agent (the (sugs i))) ` set ids \<and> e = stats_of sugs ids a" for a e
    using assms map_of_eq_Some_iff [of stats a e] by (auto simp: stats_inv_def split: if_splits)
  then have "set stats = (\<lambda>a. (a, stats_of sugs ids a)) ` (\<lambda>i. s_agent (the (sugs i))) ` set ids" by auto
  then show ?thesis by (simp add: image_image)
qed

lemma author_units:
  assumes "authors_inv d" and "i < length (d_authors d)" and "\<forall>u \<in> set attr. unat u < length (d_authors d)"
  shows "filter (\<lambda>u. d_authors d ! unat u = d_authors d ! i) attr = filter (\<lambda>u. unat u = i) attr"
proof (rule filter_cong [OF refl])
  fix u assume "u \<in> set attr"
  then have "unat u < length (d_authors d)" using assms(3) by blast
  with assms(1,2) have "d_lookup d (d_authors d ! unat u) = Some (unat u)" "d_lookup d (d_authors d ! i) = Some i"
    by (auto simp: authors_inv_def)
  then show "d_authors d ! unat u = d_authors d ! i \<longleftrightarrow> unat u = i" by (metis option.inject)
qed

lemma shares_are_counts:
  assumes au: "authors_inv d" and range: "\<forall>u \<in> set attr. unat u < length (d_authors d)" and len: "length ns = length (d_authors d)"
    and ns: "\<And>i. i < length (d_authors d) \<Longrightarrow> ns ! i = length (filter (\<lambda>u. unat u = i) attr)"
  shows "\<lparr>as_author = a, as_units = n\<rparr> \<in> set (fst (shares_loop (d_authors d) ns [] byKind)) \<longleftrightarrow>
    n \<noteq> 0 \<and> n = length (filter (\<lambda>u. d_authors d ! unat u = a) attr)"
proof -
  have "\<lparr>as_author = a, as_units = n\<rparr> \<in> set (fst (shares_loop (d_authors d) ns [] byKind)) \<longleftrightarrow>
      (\<exists>i < length (d_authors d). a = d_authors d ! i \<and> n = ns ! i \<and> ns ! i \<noteq> 0)"
    using shares_loop_members [of "d_authors d" ns "[]" byKind] len by auto
  also have "\<dots> \<longleftrightarrow> n \<noteq> 0 \<and> n = length (filter (\<lambda>u. d_authors d ! unat u = a) attr)" (is "?l \<longleftrightarrow> ?r")
  proof
    assume ?l
    then show ?r using ns author_units [OF au _ range] by auto
  next
    assume r: ?r
    then obtain u where u: "u \<in> set attr" "d_authors d ! unat u = a" by (auto simp: filter_empty_conv)
    then have "unat u < length (d_authors d)" using range by blast
    then show ?l using r u(2) ns author_units [OF au _ range] by (intro exI [of _ "unat u"]) auto
  qed
  finally show ?thesis .
qed

subsection \<open>Properties\<close>

text \<open>
  C25: the report accounts for every unit of the text and every suggestion. It never fails; each author with a unit in the text is listed once with
  the number of units attributed to them, most units first; the shares and the totals by kind add up to the length of the text; each agent
  with a suggestion is listed with exactly the counts of what became of its suggestions.
\<close>

theorem provenance_accounts_for_text:
  assumes "doc_inv (ss_state s)"
  shows "\<exists>pv. report s = Inr pv \<and> pv_units pv = length (d_text (ss_state s)) \<and>
    sum_list (map as_units (pv_shares pv)) = pv_units pv \<and> sum_list (map snd (pv_byKind pv)) = pv_units pv \<and>
    sorted_wrt (\<lambda>a b. as_units b \<le> as_units a) (pv_shares pv) \<and>
    (\<forall>a n. \<lparr>as_author = a, as_units = n\<rparr> \<in> set (pv_shares pv) \<longleftrightarrow>
       n \<noteq> 0 \<and> n = length (filter (\<lambda>u. pv_authors pv ! unat u = a) (d_attr (ss_state s)))) \<and>
    set (pv_agents pv) = stats_of (d_suggestions (ss_state s)) (d_order (ss_state s)) `
      (\<lambda>i. s_agent (the (d_suggestions (ss_state s) i))) ` set (d_order (ss_state s))"
proof -
  let ?d = "ss_state s"
  have au: "authors_inv ?d" and at: "attr_inv ?d" and dom: "set (d_order ?d) \<subseteq> dom (d_suggestions ?d)"
    using assms doc_inv_dom by (auto simp: doc_inv_def)
  have range: "\<forall>a \<in> set (d_attr ?d). unat a < length (d_authors ?d)"
  proof
    fix a assume "a \<in> set (d_attr ?d)"
    with at obtain i where "i < length (d_authors ?d)" "a = of_nat i" by (auto simp: attr_inv_def)
    then show "unat a < length (d_authors ?d)" by (simp add: unat_of_nat le_less_trans [OF mod_less_eq_dividend])
  qed
  with count_units_total [of "d_attr ?d" "replicate (length (d_authors ?d)) 0"] obtain ns where
    ns: "count_units (replicate (length (d_authors ?d)) 0) (d_attr ?d) = Inr ns" "length ns = length (d_authors ?d)"
      "\<And>i. i < length (d_authors ?d) \<Longrightarrow> ns ! i = length (filter (\<lambda>u. unat u = i) (d_attr ?d))"
      "sum_list ns = length (d_text ?d)"
    using at by (auto simp: attr_inv_def)
  obtain shares byKind where sh: "shares_loop (d_authors ?d) ns [] [] = (shares, byKind)"
    by (cases "shares_loop (d_authors ?d) ns [] []")
  obtain stats where stats: "foldr_err (stats_step (d_suggestions ?d)) [] (d_order ?d) = Inr stats"
    "stats_inv (d_suggestions ?d) (d_order ?d) stats"
    using stats_fold [of "d_suggestions ?d" "[]" "[]" "d_order ?d"] dom by (auto simp: stats_inv_def fun_eq_iff)
  define pv where "pv = \<lparr>pv_doc = info s, pv_units = length (d_text ?d), pv_byKind = byKind,
    pv_shares = sort_key (\<lambda>a. - int (as_units a)) shares, pv_authors = d_authors ?d, pv_spans = spans ?d,
    pv_agents = foldr insert_stats (map snd stats) []\<rparr>"
  have "report s = Inr pv" by (simp add: report_def Let_def ns(1) stats(1) sh pv_def)
  moreover have "mset (map as_units (sort_key (\<lambda>a. - int (as_units a)) shares)) = mset (map as_units shares)" by simp
  then have "sum_list (map as_units (pv_shares pv)) = sum_list (map as_units shares)" by (simp add: pv_def flip: sum_mset_sum_list)
  moreover have "sorted_wrt (\<lambda>a b. as_units b \<le> as_units a) (pv_shares pv)"
    using sorted_sort_key [of "\<lambda>a. - int (as_units a)" shares] by (simp add: pv_def sorted_map)
  ultimately show ?thesis
    using shares_loop_sums [OF ns(2) [symmetric] sh] ns(4) shares_are_counts [OF au range ns(2,3), of _ _ "[]"] sh stats_members [OF stats(2)]
    by (intro exI [of _ pv]) (simp add: pv_def set_insert_stats)
qed

theorem provenance_accounts_for_text_witness:
  "\<exists>pv. report joined_session = Inr pv \<and> pv_units pv = 0"
proof -
  have "doc_inv (ss_state joined_session)" using joined_session_inv by (simp add: session_inv_def)
  from provenance_accounts_for_text [OF this] show ?thesis
    by (auto simp: joined_session_def newSession_def publish_def Let_def newDocState_def)
qed

end
