(* ===== verification/GoHeap.thy ===== *)
theory GoHeap
  imports Prelude "HOL-Library.Multiset"
begin

text \<open>
  Go's \<^verbatim>\<open>container/heap\<close> as \<^verbatim>\<open>internal/video/index.go\<close> uses it. The package works on any value with the
  methods \<open>Less\<close>, \<open>Swap\<close>, \<open>Push\<close> and \<open>Pop\<close>; the functions here take \<open>Less\<close> and \<open>Swap\<close> as arguments and leave
  the other two to their callers. The interface \<open>heap_interface\<close> says what the methods owe the package: they
  act on the sequence of keys the value holds. Inside it the sifting loops are proved to restore the heap order.
\<close>

subsection \<open>The sifting loops\<close>

text \<open>\<^verbatim>\<open>up(h, j)\<close>; the parent of slot 0 is slot 0, since Go's division truncates.\<close>

definition par :: "nat \<Rightarrow> nat" where "par j = (j - 1) div 2"

function heap_up :: "('h \<Rightarrow> nat \<Rightarrow> nat \<Rightarrow> bool) \<Rightarrow> ('h \<Rightarrow> nat \<Rightarrow> nat \<Rightarrow> 'h) \<Rightarrow> 'h \<Rightarrow> nat \<Rightarrow> 'h" where
  "heap_up Less Swap h j =
     (let i = par j in
      if i = j \<or> \<not> Less h j i then h else heap_up Less Swap (Swap h i j) i)"
  by pat_completeness auto
termination
  by (relation "measure (\<lambda>(Less, Swap, h, j). j)") (auto simp: par_def)

text \<open>\<^verbatim>\<open>down(h, i0, n)\<close>: the loop, which ends at the slot it returns, and the answer whether anything moved.\<close>

function down_loop :: "('h \<Rightarrow> nat \<Rightarrow> nat \<Rightarrow> bool) \<Rightarrow> ('h \<Rightarrow> nat \<Rightarrow> nat \<Rightarrow> 'h) \<Rightarrow> nat \<Rightarrow> 'h \<Rightarrow> nat \<Rightarrow> 'h \<times> nat" where
  "down_loop Less Swap n h i =
     (let j1 = 2 * i + 1 in
      if j1 \<ge> n then (h, i)
      else
        let j = (if j1 + 1 < n \<and> Less h (j1 + 1) j1 then j1 + 1 else j1) in
        if \<not> Less h j i then (h, i) else down_loop Less Swap n (Swap h i j) j)"
  by pat_completeness auto
termination
  by (relation "measure (\<lambda>(Less, Swap, n, h, i). n - i)") (auto simp: Let_def split: if_splits)

declare heap_up.simps [simp del] down_loop.simps [simp del]

definition heap_down :: "('h \<Rightarrow> nat \<Rightarrow> nat \<Rightarrow> bool) \<Rightarrow> ('h \<Rightarrow> nat \<Rightarrow> nat \<Rightarrow> 'h) \<Rightarrow> 'h \<Rightarrow> nat \<Rightarrow> nat \<Rightarrow> 'h \<times> bool" where
  "heap_down Less Swap h i0 n = (case down_loop Less Swap n h i0 of (h, i) \<Rightarrow> (h, i > i0))"

subsection \<open>Heap order on the first n slots\<close>

definition heap_n :: "nat \<Rightarrow> 'k::linorder list \<Rightarrow> bool" where
  "heap_n n ks \<longleftrightarrow> (\<forall>c. 0 < c \<and> c < n \<longrightarrow> ks ! par c \<le> ks ! c)"

text \<open>Heap order but for the edges at slot \<open>i\<close>; the edges skipping it hold.\<close>

definition near_n :: "nat \<Rightarrow> nat \<Rightarrow> 'k::linorder list \<Rightarrow> bool" where
  "near_n n i ks \<longleftrightarrow> (\<forall>c. 0 < c \<and> c < n \<longrightarrow>
     (c \<noteq> i \<and> par c \<noteq> i \<longrightarrow> ks ! par c \<le> ks ! c) \<and> (par c = i \<and> 0 < i \<longrightarrow> ks ! par i \<le> ks ! c))"

definition parent_ok :: "nat \<Rightarrow> 'k::linorder list \<Rightarrow> bool" where
  "parent_ok i ks \<longleftrightarrow> (0 < i \<longrightarrow> ks ! par i \<le> ks ! i)"

definition children_ok :: "nat \<Rightarrow> nat \<Rightarrow> 'k::linorder list \<Rightarrow> bool" where
  "children_ok n i ks \<longleftrightarrow> (\<forall>c. 0 < c \<and> c < n \<and> par c = i \<longrightarrow> ks ! i \<le> ks ! c)"

definition swap_at :: "'a list \<Rightarrow> nat \<Rightarrow> nat \<Rightarrow> 'a list" where
  "swap_at xs i j = xs[i := xs ! j, j := xs ! i]"

lemma length_swap_at [simp]: "length (swap_at xs i j) = length xs"
  by (simp add: swap_at_def)

lemma mset_swap_at [simp]: "i < length xs \<Longrightarrow> j < length xs \<Longrightarrow> mset (swap_at xs i j) = mset xs"
  by (simp add: swap_at_def mset_swap)

lemma nth_swap_at:
  "i < length xs \<Longrightarrow> j < length xs \<Longrightarrow>
     swap_at xs i j ! k = (if k = j then xs ! i else if k = i then xs ! j else xs ! k)"
  by (auto simp: swap_at_def nth_list_update)

lemma map_swap_at: "i < length xs \<Longrightarrow> j < length xs \<Longrightarrow> map f (swap_at xs i j) = swap_at (map f xs) i j"
  by (simp add: swap_at_def map_update)

lemma par_less: "0 < c \<Longrightarrow> par c < c"
  unfolding par_def by linarith

lemma par_zero [simp]: "par 0 = 0" "par (Suc 0) = 0"
  by (simp_all add: par_def)

lemma par_eq: "0 < c \<and> par c = i \<longleftrightarrow> c = 2 * i + 1 \<or> c = 2 * i + 2"
  unfolding par_def by presburger

lemma par_children [simp]: "par (Suc (2 * i)) = i" "par (Suc (Suc (2 * i))) = i"
  unfolding par_def by presburger+

lemma all_children: "(\<forall>c. 0 < c \<and> c < n \<and> par c = i \<longrightarrow> P c) \<longleftrightarrow>
  (2 * i + 1 < n \<longrightarrow> P (2 * i + 1)) \<and> (2 * i + 2 < n \<longrightarrow> P (2 * i + 2))"
  using par_eq [of _ i] by (metis (no_types, opaque_lifting))

lemma heap_nI: "near_n n i ks \<Longrightarrow> parent_ok i ks \<Longrightarrow> children_ok n i ks \<Longrightarrow> heap_n n ks"
  unfolding near_n_def parent_ok_def children_ok_def heap_n_def by metis

lemma near_nI:
  assumes "heap_n n ks" "i < n"
  shows "near_n n i ks"
  unfolding near_n_def
proof (intro allI impI conjI)
  fix c assume c: "0 < c \<and> c < n"
  { assume "c \<noteq> i \<and> par c \<noteq> i"
    with assms c show "ks ! par c \<le> ks ! c" by (simp add: heap_n_def) }
  assume p: "par c = i \<and> 0 < i"
  with assms have "ks ! par i \<le> ks ! i" by (simp add: heap_n_def)
  moreover have "ks ! i \<le> ks ! c" using assms c p by (auto simp: heap_n_def)
  ultimately show "ks ! par i \<le> ks ! c" by simp
qed

lemma near_n_change:
  assumes "near_n n i ks" and "\<forall>k. k < n \<and> k \<noteq> i \<longrightarrow> ks' ! k = ks ! k"
  shows "near_n n i ks'"
  unfolding near_n_def
proof (intro allI impI conjI)
  fix c assume c: "0 < c \<and> c < n"
  then have pc: "par c < n" using par_less [of c] by simp
  { assume "c \<noteq> i \<and> par c \<noteq> i"
    with assms c pc show "ks' ! par c \<le> ks' ! c" by (simp add: near_n_def) }
  assume p: "par c = i \<and> 0 < i"
  then have "par i < n" "par i \<noteq> i" "c \<noteq> i" using par_less [of i] par_less [of c] c by auto
  with assms c p show "ks' ! par i \<le> ks' ! c" by (auto simp: near_n_def)
qed

text \<open>The root of a heap is its least element.\<close>

lemma heap_root:
  assumes "heap_n n ks" and "c < n"
  shows "ks ! 0 \<le> ks ! c"
  using assms(2)
proof (induction c rule: less_induct)
  case (less c)
  show ?case
  proof (cases "c = 0")
    case False
    with less par_less [of c] have "ks ! 0 \<le> ks ! par c" by simp
    also have "\<dots> \<le> ks ! c" using assms(1) less.prems False by (simp add: heap_n_def)
    finally show ?thesis .
  qed simp
qed

text \<open>One step up: the defect moves to the parent.\<close>

lemma near_up:
  assumes "near_n n j ks" and "children_ok n j ks" and "0 < j" "j < n" "n \<le> length ks" and "ks ! j < ks ! par j"
  shows "near_n n (par j) (swap_at ks (par j) j) \<and> children_ok n (par j) (swap_at ks (par j) j)"
proof -
  let ?p = "par j"
  have pj: "?p < j" by (rule par_less [OF assms(3)])
  have nth: "swap_at ks ?p j ! k = (if k = j then ks ! ?p else if k = ?p then ks ! j else ks ! k)" for k
    using pj assms(4,5) by (intro nth_swap_at) auto
  have ordered: "ks ! par c \<le> ks ! c" if "0 < c" "c < n" "c \<noteq> j" "par c \<noteq> j" for c
    using assms(1) that by (simp add: near_n_def)
  have skip: "ks ! ?p \<le> ks ! c" if "0 < c" "c < n" "par c = j" for c
    using assms(1,3) that by (simp add: near_n_def)
  show ?thesis
  proof (rule conjI)
    show "near_n n ?p (swap_at ks ?p j)"
      unfolding near_n_def
    proof (intro allI impI conjI)
      fix c assume c: "0 < c \<and> c < n"
      { assume "c \<noteq> ?p \<and> par c \<noteq> ?p"
        with c assms(2) skip ordered show "swap_at ks ?p j ! par c \<le> swap_at ks ?p j ! c"
          by (auto simp: nth children_ok_def) }
      assume p: "par c = ?p \<and> 0 < ?p"
      then have up: "ks ! par ?p \<le> ks ! ?p" using ordered [of ?p] par_less [of ?p] pj assms(4) by simp
      have ne: "par ?p \<noteq> j" "par ?p \<noteq> ?p" "c \<noteq> ?p" using par_less [of ?p] par_less [of c] p pj c by auto
      show "swap_at ks ?p j ! par ?p \<le> swap_at ks ?p j ! c"
      proof (cases "c = j")
        case False
        then have "ks ! ?p \<le> ks ! c" using ordered [of c] c p pj by auto
        with up ne False show ?thesis by (simp add: nth)
      qed (simp add: nth ne up)
    qed
    show "children_ok n ?p (swap_at ks ?p j)"
      unfolding children_ok_def
    proof (intro allI impI)
      fix c assume c: "0 < c \<and> c < n \<and> par c = ?p"
      then have "c \<noteq> ?p" using par_less [of c] by auto
      moreover have "ks ! j \<le> ks ! c" if "c \<noteq> j"
        using ordered [of c] c that pj assms(6) by (auto intro: order_trans less_imp_le)
      ultimately show "swap_at ks ?p j ! ?p \<le> swap_at ks ?p j ! c"
        using pj assms(6) by (auto simp: nth)
    qed
  qed
qed

text \<open>One step down: the smaller child moves up, the defect to where it was.\<close>

lemma near_down:
  assumes "near_n n i ks" and "j < n" "n \<le> length ks" and "0 < j" "par j = i"
    and least: "\<forall>c. 0 < c \<and> c < n \<and> par c = i \<longrightarrow> ks ! j \<le> ks ! c" and "ks ! j < ks ! i"
  shows "near_n n j (swap_at ks i j) \<and> parent_ok j (swap_at ks i j)"
proof -
  have ij: "i < j" using par_less [OF assms(4)] assms(5) by simp
  have nth: "swap_at ks i j ! k = (if k = j then ks ! i else if k = i then ks ! j else ks ! k)" for k
    using ij assms(2,3) by (intro nth_swap_at) auto
  have ordered: "ks ! par c \<le> ks ! c" if "0 < c" "c < n" "c \<noteq> i" "par c \<noteq> i" for c
    using assms(1) that by (simp add: near_n_def)
  have skip: "ks ! par i \<le> ks ! j" if "0 < i"
    using assms(1,2,4,5) that by (simp add: near_n_def)
  have "near_n n j (swap_at ks i j)"
    unfolding near_n_def
  proof (intro allI impI conjI)
    fix c assume c: "0 < c \<and> c < n"
    { assume p: "c \<noteq> j \<and> par c \<noteq> j"
      show "swap_at ks i j ! par c \<le> swap_at ks i j ! c"
      proof (cases "c = i")
        case True
        with c skip p par_less [of i] show ?thesis by (simp add: nth)
      next
        case False
        with p c least ordered [of c] show ?thesis by (auto simp: nth)
      qed }
    assume p: "par c = j \<and> 0 < j"
    then have "c \<noteq> i" "c \<noteq> j" "par c \<noteq> i" using par_less [of c] c ij by auto
    with p c ordered [of c] ij assms(5) show "swap_at ks i j ! par j \<le> swap_at ks i j ! c"
      by (simp add: nth)
  qed
  moreover have "parent_ok j (swap_at ks i j)"
    using ij assms(4,5,7) by (auto simp: parent_ok_def nth)
  ultimately show ?thesis ..
qed

subsection \<open>The interface of the package\<close>

text \<open>
  \<open>items h\<close> is what a heap value holds, slot by slot, \<open>key\<close> what \<open>Less\<close> compares by; \<open>good\<close> is what the value's own
  bookkeeping needs.
\<close>

locale heap_interface =
  fixes Less :: "'h \<Rightarrow> nat \<Rightarrow> nat \<Rightarrow> bool" and Swap :: "'h \<Rightarrow> nat \<Rightarrow> nat \<Rightarrow> 'h"
    and items :: "'h \<Rightarrow> 'a list" and key :: "'a \<Rightarrow> 'k::linorder" and good :: "'h \<Rightarrow> bool"
  assumes Less_items: "good h \<Longrightarrow> i < length (items h) \<Longrightarrow> j < length (items h) \<Longrightarrow>
      Less h i j \<longleftrightarrow> key (items h ! i) < key (items h ! j)"
    and items_Swap: "good h \<Longrightarrow> i < length (items h) \<Longrightarrow> j < length (items h) \<Longrightarrow>
      items (Swap h i j) = swap_at (items h) i j"
    and good_Swap_items: "good h \<Longrightarrow> i < length (items h) \<Longrightarrow> j < length (items h) \<Longrightarrow> good (Swap h i j)"
begin

definition keys :: "'h \<Rightarrow> 'k list" where "keys h = map key (items h)"

lemma length_keys [simp]: "length (keys h) = length (items h)"
  by (simp add: keys_def)

lemma Less: "good h \<Longrightarrow> i < length (keys h) \<Longrightarrow> j < length (keys h) \<Longrightarrow> Less h i j \<longleftrightarrow> keys h ! i < keys h ! j"
  by (simp add: Less_items keys_def)

lemma keys_Swap: "good h \<Longrightarrow> i < length (keys h) \<Longrightarrow> j < length (keys h) \<Longrightarrow> keys (Swap h i j) = swap_at (keys h) i j"
  by (simp add: items_Swap keys_def map_swap_at)

lemma good_Swap: "good h \<Longrightarrow> i < length (keys h) \<Longrightarrow> j < length (keys h) \<Longrightarrow> good (Swap h i j)"
  by (simp add: good_Swap_items)

lemma up_correct:
  assumes "good h" and "near_n n j (keys h)" and "children_ok n j (keys h)" and "j < n" "n \<le> length (keys h)"
  shows "good (heap_up Less Swap h j) \<and> mset (items (heap_up Less Swap h j)) = mset (items h) \<and>
    heap_n n (keys (heap_up Less Swap h j)) \<and>
    (\<forall>k. n \<le> k \<longrightarrow> items (heap_up Less Swap h j) ! k = items h ! k)"
  using assms
proof (induction j arbitrary: h rule: less_induct)
  case (less j)
  let ?ks = "keys h" and ?i = "par j"
  show ?case
  proof (cases "?i = j \<or> \<not> Less h j ?i")
    case True
    have "parent_ok j ?ks"
    proof (cases "j = 0")
      case False
      with True par_less [of j] have "\<not> Less h j ?i" by auto
      with less.prems par_less [of j] False Less [of h j ?i] show ?thesis by (auto simp: parent_ok_def)
    qed (simp add: parent_ok_def)
    from heap_nI [OF less.prems(2) this less.prems(3)] True less.prems(1) show ?thesis
      by (simp add: heap_up.simps [of Less Swap h j] Let_def)
  next
    case False
    then have "0 < j" by (cases "j = 0") auto
    then have j: "0 < j" "?i < j" using par_less [of j] by auto
    have le: "j < length ?ks" "?i < length ?ks" using j less.prems by auto
    have lt: "?ks ! j < ?ks ! ?i" using False Less [OF less.prems(1) le] by simp
    have h': "keys (Swap h ?i j) = swap_at ?ks ?i j" "good (Swap h ?i j)" "items (Swap h ?i j) = swap_at (items h) ?i j"
      using keys_Swap [OF less.prems(1) le(2,1)] good_Swap [OF less.prems(1) le(2,1)] items_Swap [of h ?i j] less.prems(1) le
      by auto
    have "near_n n ?i (keys (Swap h ?i j))" "children_ok n ?i (keys (Swap h ?i j))"
      using near_up [OF less.prems(2,3) j(1) less.prems(4,5) lt] h'(1) by auto
    from less.IH [OF j(2) h'(2) this] j less.prems le h'(1,3) False show ?thesis
      by (simp add: heap_up.simps [of Less Swap h j] Let_def nth_swap_at)
  qed
qed

text \<open>The child that moves up is a least child.\<close>

definition least_child :: "'h \<Rightarrow> nat \<Rightarrow> nat \<Rightarrow> nat" where
  "least_child h n i = (if 2 * i + 2 < n \<and> Less h (2 * i + 2) (2 * i + 1) then 2 * i + 2 else 2 * i + 1)"

lemma least_child:
  assumes "good h" and "2 * i + 1 < n" and "n \<le> length (keys h)"
  shows "least_child h n i < n \<and> 0 < least_child h n i \<and> par (least_child h n i) = i \<and>
    (\<forall>c. 0 < c \<and> c < n \<and> par c = i \<longrightarrow> keys h ! least_child h n i \<le> keys h ! c)"
proof -
  have "Less h (2 * i + 2) (2 * i + 1) \<longleftrightarrow> keys h ! (2 * i + 2) < keys h ! (2 * i + 1)" if "2 * i + 2 < n"
    using that assms by (intro Less) auto
  with assms(2) show ?thesis unfolding all_children by (auto simp: least_child_def)
qed

lemma down_loop_step:
  "down_loop Less Swap n h i =
     (if n \<le> 2 * i + 1 \<or> \<not> Less h (least_child h n i) i then (h, i)
      else down_loop Less Swap n (Swap h i (least_child h n i)) (least_child h n i))"
  by (subst down_loop.simps) (simp add: least_child_def Let_def)

lemma stays_children:
  assumes "good h" "i < n" "n \<le> length (keys h)" and "n \<le> 2 * i + 1 \<or> \<not> Less h (least_child h n i) i"
  shows "children_ok n i (keys h)"
proof (cases "n \<le> 2 * i + 1")
  case True
  then show ?thesis by (simp add: children_ok_def all_children)
next
  case False
  with least_child [OF assms(1) _ assms(3), of i] assms Less [of h "least_child h n i" i]
  show ?thesis by (fastforce simp: children_ok_def)
qed

lemma down_correct:
  assumes "good h" and "near_n n i (keys h)" and "parent_ok i (keys h)" and "i < n" "n \<le> length (keys h)"
  shows "good (fst (down_loop Less Swap n h i)) \<and> mset (items (fst (down_loop Less Swap n h i))) = mset (items h) \<and>
    heap_n n (keys (fst (down_loop Less Swap n h i))) \<and>
    (\<forall>k. n \<le> k \<longrightarrow> items (fst (down_loop Less Swap n h i)) ! k = items h ! k) \<and> i \<le> snd (down_loop Less Swap n h i)"
  using assms
proof (induction "n - i" arbitrary: h i rule: less_induct)
  case less
  let ?ks = "keys h" and ?j = "least_child h n i"
  show ?case
  proof (cases "n \<le> 2 * i + 1 \<or> \<not> Less h ?j i")
    case True
    from heap_nI [OF less.prems(2,3) stays_children [OF less.prems(1,4,5) True]] True less.prems(1)
    show ?thesis by (simp add: down_loop_step [of n h i])
  next
    case False
    then have c: "?j < n" "0 < ?j" "par ?j = i" "\<forall>c. 0 < c \<and> c < n \<and> par c = i \<longrightarrow> ?ks ! ?j \<le> ?ks ! c"
      using least_child [OF less.prems(1) _ less.prems(5)] by auto
    then have ij: "i < ?j" using par_less [of ?j] by simp
    have le: "i < length ?ks" "?j < length ?ks" using c less.prems by auto
    have lt: "?ks ! ?j < ?ks ! i" using False Less [OF less.prems(1) le(2,1)] by simp
    have h': "keys (Swap h i ?j) = swap_at ?ks i ?j" "good (Swap h i ?j)" "items (Swap h i ?j) = swap_at (items h) i ?j"
      using keys_Swap [OF less.prems(1) le] good_Swap [OF less.prems(1) le] items_Swap [of h i ?j] less.prems(1) le by auto
    have "near_n n ?j (keys (Swap h i ?j))" "parent_ok ?j (keys (Swap h i ?j))"
      using near_down [OF less.prems(2) c(1) less.prems(5) c(2,3,4) lt] h'(1) by auto
    from less.hyps [OF _ h'(2) this c(1)] ij c(1) less.prems(4,5) le h'(1,3)
    have "good (fst (down_loop Less Swap n (Swap h i ?j) ?j)) \<and>
      mset (items (fst (down_loop Less Swap n (Swap h i ?j) ?j))) = mset (items h) \<and>
      heap_n n (keys (fst (down_loop Less Swap n (Swap h i ?j) ?j))) \<and>
      (\<forall>k. n \<le> k \<longrightarrow> items (fst (down_loop Less Swap n (Swap h i ?j) ?j)) ! k = items h ! k) \<and>
      ?j \<le> snd (down_loop Less Swap n (Swap h i ?j) ?j)"
      by (simp add: nth_swap_at)
    moreover have "down_loop Less Swap n h i = down_loop Less Swap n (Swap h i ?j) ?j"
      using False by (simp add: down_loop_step [of n h i])
    ultimately show ?thesis using ij by (auto intro: order_trans less_imp_le)
  qed
qed

text \<open>Down and, where nothing moved, up: what \<^verbatim>\<open>heap.Remove\<close> does at the vacated slot.\<close>

lemma down_moved:
  assumes "good h" and "near_n n i (keys h)" and "i < n" "n \<le> length (keys h)"
    and "snd (heap_down Less Swap h i n)"
  shows "good (fst (heap_down Less Swap h i n)) \<and> mset (items (fst (heap_down Less Swap h i n))) = mset (items h) \<and>
    heap_n n (keys (fst (heap_down Less Swap h i n))) \<and>
    (\<forall>k. n \<le> k \<longrightarrow> items (fst (heap_down Less Swap h i n)) ! k = items h ! k)"
proof -
  let ?ks = "keys h" and ?j = "least_child h n i"
  have go: "\<not> (n \<le> 2 * i + 1 \<or> \<not> Less h ?j i)"
    using assms(5) by (auto simp: heap_down_def down_loop_step [of n h i] split: if_splits)
  then have c: "?j < n" "0 < ?j" "par ?j = i" "\<forall>c. 0 < c \<and> c < n \<and> par c = i \<longrightarrow> ?ks ! ?j \<le> ?ks ! c"
    using least_child [OF assms(1) _ assms(4)] by auto
  have le: "i < length ?ks" "?j < length ?ks" using c assms by auto
  have lt: "?ks ! ?j < ?ks ! i" using go Less [OF assms(1) le(2,1)] by simp
  have h': "keys (Swap h i ?j) = swap_at ?ks i ?j" "good (Swap h i ?j)" "items (Swap h i ?j) = swap_at (items h) i ?j"
    using keys_Swap [OF assms(1) le] good_Swap [OF assms(1) le] items_Swap [of h i ?j] assms(1) le by auto
  have "near_n n ?j (keys (Swap h i ?j))" "parent_ok ?j (keys (Swap h i ?j))"
    using near_down [OF assms(2) c(1) assms(4) c(2,3,4) lt] h'(1) by auto
  from down_correct [OF h'(2) this c(1)] le c(1) assms(3,4) h'(1,3) go show ?thesis
    by (simp add: heap_down_def down_loop_step [of n h i] nth_swap_at split_beta)
qed

lemma down_stays:
  assumes "good h" and "near_n n i (keys h)" and "i < n" "n \<le> length (keys h)"
    and "\<not> snd (heap_down Less Swap h i n)"
  shows "fst (heap_down Less Swap h i n) = h \<and> children_ok n i (keys h)"
proof -
  let ?ks = "keys h" and ?j = "least_child h n i"
  have stop: "n \<le> 2 * i + 1 \<or> \<not> Less h ?j i"
  proof (rule ccontr)
    assume go: "\<not> ?thesis"
    then have c: "?j < n" "0 < ?j" "par ?j = i" "\<forall>c. 0 < c \<and> c < n \<and> par c = i \<longrightarrow> ?ks ! ?j \<le> ?ks ! c"
      using least_child [OF assms(1) _ assms(4)] by auto
    have le: "i < length ?ks" "?j < length ?ks" using c assms by auto
    have lt: "?ks ! ?j < ?ks ! i" using go Less [OF assms(1) le(2,1)] by simp
    have h': "keys (Swap h i ?j) = swap_at ?ks i ?j" "good (Swap h i ?j)" "items (Swap h i ?j) = swap_at (items h) i ?j"
      using keys_Swap [OF assms(1) le] good_Swap [OF assms(1) le] items_Swap [of h i ?j] assms(1) le by auto
    have "near_n n ?j (keys (Swap h i ?j))" "parent_ok ?j (keys (Swap h i ?j))"
      using near_down [OF assms(2) c(1) assms(4) c(2,3,4) lt] h'(1) by auto
    from down_correct [OF h'(2) this c(1)] le assms h'(1)
    have "?j \<le> snd (down_loop Less Swap n (Swap h i ?j) ?j)" by simp
    moreover have "i < ?j" using par_less [of ?j] c by simp
    ultimately show False using assms(5) go by (simp add: heap_down_def down_loop_step [of n h i] split_beta)
  qed
  then have "fst (heap_down Less Swap h i n) = h" by (simp add: heap_down_def down_loop_step [of n h i])
  with stays_children [OF assms(1,3,4) stop] show ?thesis by simp
qed

end

end
