(* ===== verification/JobHeap.thy ===== *)
theory JobHeap
  imports GoHeap GoLib "HOL-Library.List_Lexorder" "HOL-Library.Product_Lexorder"
begin

text \<open>
  Jobs (\<^verbatim>\<open>internal/video/queue.go\<close>) and the heap of index entries (\<open>jobHeap\<close> of \<^verbatim>\<open>internal/video/index.go\<close>). Go
  keeps pointers to entries both in the map and in the heaps; an entry is filed under the job it is for, so
  the model's pointer is the job's id: a heap is a list of ids over the shared store of entries, and swapping
  two slots writes the two entries' positions into that store. \<open>entry_order\<close> is the interface of the two
  comparison functions; it makes the heap of entries an instance of \<open>heap_interface\<close>.
\<close>

subsection \<open>Jobs\<close>

datatype jobState = Queued | Leased | Completed | Dead | OtherState str

record job =
  j_ID :: str
  j_Name :: str
  j_SizeBytes :: int
  j_IdempotencyKey :: str
  j_InputPath :: str
  j_OutputPath :: str
  j_State :: jobState
  j_Attempts :: int
  j_MaxAttempts :: int
  j_LeaseOwner :: str
  j_LeaseUntil :: time
  j_NextAttempt :: time
  j_LastError :: str
  j_CreatedAt :: time
  j_UpdatedAt :: time

subsection \<open>Index entries and heaps\<close>

record indexEntry =
  ie_id :: str
  ie_createdAt :: time
  ie_due :: time
  ie_ready :: bool
  ie_position :: int

type_synonym entries = "str \<rightharpoonup> indexEntry"
type_synonym jobHeap = "entries \<times> str list"

definition leaseOrder :: "indexEntry \<Rightarrow> indexEntry \<Rightarrow> bool" where
  "leaseOrder a b =
     (if ie_createdAt a \<noteq> ie_createdAt b then ie_createdAt a < ie_createdAt b else ie_id a < ie_id b)"

definition dueBefore :: "indexEntry \<Rightarrow> indexEntry \<Rightarrow> bool" where
  "dueBefore a b = (if ie_due a \<noteq> ie_due b then ie_due a < ie_due b else ie_id a < ie_id b)"

definition place :: "entries \<Rightarrow> str \<Rightarrow> int \<Rightarrow> entries" where
  "place E jid p = E(jid \<mapsto> (the (E jid))\<lparr>ie_position := p\<rparr>)"

definition jobHeap_Less :: "(indexEntry \<Rightarrow> indexEntry \<Rightarrow> bool) \<Rightarrow> jobHeap \<Rightarrow> nat \<Rightarrow> nat \<Rightarrow> bool" where
  "jobHeap_Less lt h i j = lt (the (fst h (snd h ! i))) (the (fst h (snd h ! j)))"

definition jobHeap_Swap :: "jobHeap \<Rightarrow> nat \<Rightarrow> nat \<Rightarrow> jobHeap" where
  "jobHeap_Swap h i j =
     (let slots = swap_at (snd h) i j in (place (place (fst h) (slots ! i) (int i)) (slots ! j) (int j), slots))"

definition jobHeap_Push :: "jobHeap \<Rightarrow> str \<Rightarrow> jobHeap" where
  "jobHeap_Push h jid = (place (fst h) jid (int (length (snd h))), snd h @ [jid])"

definition jobHeap_Pop :: "jobHeap \<Rightarrow> jobHeap \<times> str" where
  "jobHeap_Pop h = (let jid = last (snd h) in ((place (fst h) jid (- 1), butlast (snd h)), jid))"

text \<open>\<^verbatim>\<open>heap.Push\<close>, \<^verbatim>\<open>heap.Pop\<close> and \<^verbatim>\<open>heap.Remove\<close> on a \<open>jobHeap\<close>.\<close>

definition heap_Push :: "(indexEntry \<Rightarrow> indexEntry \<Rightarrow> bool) \<Rightarrow> jobHeap \<Rightarrow> str \<Rightarrow> jobHeap" where
  "heap_Push lt h jid =
     (let h = jobHeap_Push h jid in heap_up (jobHeap_Less lt) jobHeap_Swap h (length (snd h) - 1))"

definition heap_Pop :: "(indexEntry \<Rightarrow> indexEntry \<Rightarrow> bool) \<Rightarrow> jobHeap \<Rightarrow> jobHeap \<times> str" where
  "heap_Pop lt h =
     (let n = length (snd h) - 1; h = jobHeap_Swap h 0 n; h = fst (heap_down (jobHeap_Less lt) jobHeap_Swap h 0 n)
      in jobHeap_Pop h)"

definition heap_Remove :: "(indexEntry \<Rightarrow> indexEntry \<Rightarrow> bool) \<Rightarrow> jobHeap \<Rightarrow> nat \<Rightarrow> jobHeap \<times> str" where
  "heap_Remove lt h i =
     (let n = length (snd h) - 1 in
      jobHeap_Pop
        (if n \<noteq> i then
           (let h = jobHeap_Swap h i n in
            case heap_down (jobHeap_Less lt) jobHeap_Swap h i n of
              (h, moved) \<Rightarrow> if \<not> moved then heap_up (jobHeap_Less lt) jobHeap_Swap h i else h)
         else h))"

subsection \<open>Entries up to their positions\<close>

definition unplaced :: "indexEntry \<Rightarrow> indexEntry" where "unplaced e = e\<lparr>ie_position := 0\<rparr>"

lemma unplaced_simps [simp]:
  "unplaced (e\<lparr>ie_position := p\<rparr>) = unplaced e"
  "ie_id (unplaced e) = ie_id e" "ie_createdAt (unplaced e) = ie_createdAt e" "ie_due (unplaced e) = ie_due e"
  "ie_ready (unplaced e) = ie_ready e"
  by (simp_all add: unplaced_def)

text \<open>Only positions changed, and only of the entries in \<open>S\<close>.\<close>

definition repositioned :: "str set \<Rightarrow> entries \<Rightarrow> entries \<Rightarrow> bool" where
  "repositioned S E E' \<longleftrightarrow> (\<forall>jid. map_option unplaced (E' jid) = map_option unplaced (E jid)) \<and> (\<forall>jid. jid \<notin> S \<longrightarrow> E' jid = E jid)"

lemma repositioned_refl [simp]: "repositioned S E E"
  by (simp add: repositioned_def)

lemma repositioned_trans: "repositioned S E E' \<Longrightarrow> repositioned S E' E'' \<Longrightarrow> repositioned S E E''"
  by (simp add: repositioned_def)

lemma repositioned_mono: "repositioned S E E' \<Longrightarrow> S \<subseteq> T \<Longrightarrow> repositioned T E E'"
  by (auto simp: repositioned_def)

lemma repositioned_place: "jid \<in> S \<Longrightarrow> jid \<in> dom E \<Longrightarrow> repositioned S E (place E jid p)"
  by (auto simp: repositioned_def place_def)

lemma repositioned_dom: "repositioned S E E' \<Longrightarrow> dom E' = dom E"
  by (auto simp: repositioned_def dom_def map_option_eq_Some) (metis not_None_eq option.map_disc_iff)+

lemma repositioned_unplaced:
  assumes "repositioned S E E'"
  shows "jid \<in> dom E \<Longrightarrow> unplaced (the (E' jid)) = unplaced (the (E jid))"
  using assms repositioned_dom [OF assms] unfolding repositioned_def
  by (metis domD option.map_sel option.sel option.distinct(1))

lemma same_unplaced:
  assumes "unplaced a = unplaced b"
  shows "ie_id a = ie_id b \<and> ie_createdAt a = ie_createdAt b \<and> ie_due a = ie_due b \<and> ie_ready a = ie_ready b"
  using assms unplaced_simps(2-5) by metis

subsection \<open>Well-placed heaps\<close>

definition placed :: "jobHeap \<Rightarrow> bool" where
  "placed h \<longleftrightarrow> distinct (snd h) \<and> set (snd h) \<subseteq> dom (fst h) \<and>
     (\<forall>k < length (snd h). ie_position (the (fst h (snd h ! k))) = int k)"

definition slot_keys :: "(indexEntry \<Rightarrow> 'k) \<Rightarrow> jobHeap \<Rightarrow> 'k list" where
  "slot_keys key h = map (\<lambda>jid. key (the (fst h jid))) (snd h)"

definition good_from :: "entries \<Rightarrow> str set \<Rightarrow> jobHeap \<Rightarrow> bool" where
  "good_from E S h \<longleftrightarrow> placed h \<and> set (snd h) = S \<and> repositioned S E (fst h)"

lemma length_slot_keys [simp]: "length (slot_keys key h) = length (snd h)"
  by (simp add: slot_keys_def)

lemma place_same [simp]: "the (place E jid p jid) = (the (E jid))\<lparr>ie_position := p\<rparr>"
  by (simp add: place_def)

lemma place_other: "jid \<noteq> jid' \<Longrightarrow> place E jid p jid' = E jid'"
  by (simp add: place_def)

lemma dom_place [simp]: "dom (place E jid p) = insert jid (dom E)"
  by (auto simp: place_def)

lemma placed_Swap:
  assumes "placed h" and "i < length (snd h)" "j < length (snd h)"
  shows "placed (jobHeap_Swap h i j) \<and> set (snd (jobHeap_Swap h i j)) = set (snd h) \<and>
    repositioned (set (snd h)) (fst h) (fst (jobHeap_Swap h i j))"
proof -
  obtain E ids where h: "h = (E, ids)" by (cases h)
  let ?s = "swap_at ids i j" and ?E' = "place (place E (swap_at ids i j ! i) (int i)) (swap_at ids i j ! j) (int j)"
  have ids: "distinct ids" "set ids \<subseteq> dom E" "i < length ids" "j < length ids"
    "\<And>k. k < length ids \<Longrightarrow> ie_position (the (E (ids ! k))) = int k"
    using assms by (auto simp: placed_def h)
  have ms: "mset ?s = mset ids" using ids(3,4) by simp
  have set_s: "set ?s = set ids" "distinct ?s"
    using mset_eq_setD [OF ms] mset_eq_imp_distinct_iff [OF ms] ids(1) by auto
  have s_in: "?s ! i \<in> set ids" "?s ! j \<in> set ids"
    using ids set_s(1) nth_mem [of i ?s] nth_mem [of j ?s] by simp_all
  have pos: "ie_position (the (?E' (?s ! k))) = int k" if k: "k < length ids" for k
  proof -
    have eq: "?s ! k = ?s ! i \<longleftrightarrow> k = i" "?s ! k = ?s ! j \<longleftrightarrow> k = j"
      using set_s(2) ids k by (simp_all add: nth_eq_iff_index_eq)
    show ?thesis
    proof (cases "k = i \<or> k = j")
      case True
      with eq show ?thesis by (cases "k = j") (auto simp: place_def)
    next
      case False
      moreover have "?s ! k = ids ! k" using False ids by (simp add: nth_swap_at)
      ultimately show ?thesis using eq ids(5) [OF k] by (auto simp: place_def)
    qed
  qed
  have r: "repositioned (set ids) E ?E'"
    using s_in ids(2) by (intro repositioned_trans [OF repositioned_place repositioned_place]) auto
  have "set ?s \<subseteq> dom ?E'" using ids(2) set_s(1) by auto
  with pos set_s r show ?thesis
    by (simp add: h jobHeap_Swap_def Let_def placed_def)
qed

definition heap_ok :: "(indexEntry \<Rightarrow> 'k::linorder) \<Rightarrow> jobHeap \<Rightarrow> bool" where
  "heap_ok key h \<longleftrightarrow> placed h \<and> heap_n (length (snd h)) (slot_keys key h)"

subsection \<open>The interface of the comparison functions\<close>

locale entry_order =
  fixes lt :: "indexEntry \<Rightarrow> indexEntry \<Rightarrow> bool" and key :: "indexEntry \<Rightarrow> 'k::linorder"
  assumes less_key: "lt a b \<longleftrightarrow> key a < key b"
    and key_unplaced: "key (unplaced e) = key e"
begin

lemma key_repositioned: "repositioned S E E' \<Longrightarrow> jid \<in> dom E \<Longrightarrow> key (the (E' jid)) = key (the (E jid))"
  using repositioned_unplaced key_unplaced by metis

lemma slot_keys_repositioned:
  "repositioned S E E' \<Longrightarrow> set ids \<subseteq> dom E \<Longrightarrow> slot_keys key (E', ids) = slot_keys key (E, ids)"
  by (auto simp: slot_keys_def intro!: key_repositioned)

lemma good_dom: "good_from E S h \<Longrightarrow> S \<subseteq> dom E"
  using repositioned_dom [of S E "fst h"] by (auto simp: good_from_def placed_def)

lemma slot_keys_good: "good_from E S h \<Longrightarrow> slot_keys key h = map (\<lambda>jid. key (the (E jid))) (snd h)"
  using good_dom [of E S h] by (auto simp: good_from_def slot_keys_def intro!: key_repositioned)

lemma is_heap_interface:
  "heap_interface (jobHeap_Less lt) jobHeap_Swap snd (\<lambda>jid. key (the (E jid))) (good_from E S)"
proof (unfold_locales, goal_cases)
  case (1 h i j)
  then have "snd h ! i \<in> dom E" "snd h ! j \<in> dom E" "repositioned S E (fst h)"
    using good_dom [of E S h] nth_mem by (auto simp: good_from_def)
  then show ?case by (simp add: jobHeap_Less_def less_key key_repositioned)
next
  case (2 h i j)
  then show ?case by (simp add: jobHeap_Swap_def Let_def)
next
  case (3 h i j)
  then show ?case using placed_Swap [of h i j] repositioned_trans by (fastforce simp: good_from_def)
qed

end

sublocale entry_order \<subseteq> heap: heap_interface "jobHeap_Less lt" jobHeap_Swap snd "\<lambda>jid. key (the (E jid))" "good_from E S" for E S
  by (rule is_heap_interface)

context entry_order
begin

lemma keys_good: "good_from E S h \<Longrightarrow> heap.keys E h = slot_keys key h"
  by (simp add: heap.keys_def slot_keys_good)

lemma Push_correct:
  assumes "heap_ok key (E, ids)" and "jid \<in> dom E" and "jid \<notin> set ids" and "heap_Push lt (E, ids) jid = (E', ids')"
  shows "heap_ok key (E', ids') \<and> set ids' = insert jid (set ids) \<and> repositioned (insert jid (set ids)) E E'"
proof -
  let ?h = "jobHeap_Push (E, ids) jid" and ?n = "length ids"
  let ?S = "insert jid (set ids)"
  have h: "snd ?h = ids @ [jid]" "fst ?h = place E jid (int ?n)" by (simp_all add: jobHeap_Push_def)
  have ids: "distinct ids" "set ids \<subseteq> dom E" "\<And>k. k < ?n \<Longrightarrow> ie_position (the (E (ids ! k))) = int k"
    "heap_n ?n (slot_keys key (E, ids))"
    using assms(1) by (auto simp: heap_ok_def placed_def)
  have ne: "jid \<noteq> ids ! k" if "k < ?n" for k using that assms(3) nth_mem by metis
  have rep: "repositioned ?S E (fst ?h)" unfolding h by (rule repositioned_place) (use assms(2) in auto)
  have good: "good_from E ?S ?h"
    using ids(1,2,3) assms(2,3) rep h ne
    by (auto simp: good_from_def placed_def nth_append place_other less_Suc_eq dest: not_sym)
  have keys: "slot_keys key ?h ! k = slot_keys key (E, ids) ! k" if "k < ?n" for k
    using that ne [OF that] by (simp add: slot_keys_def h nth_append place_other)
  have "near_n (Suc ?n) ?n (slot_keys key ?h)"
    unfolding near_n_def
  proof (intro allI impI conjI)
    fix c assume c: "0 < c \<and> c < Suc ?n"
    { assume "c \<noteq> ?n \<and> par c \<noteq> ?n"
      then have "c < ?n" "par c < ?n" using c par_less [of c] by auto
      with c ids(4) show "slot_keys key ?h ! par c \<le> slot_keys key ?h ! c"
        by (simp add: keys heap_n_def) }
    assume "par c = ?n \<and> 0 < ?n"
    then show "slot_keys key ?h ! par ?n \<le> slot_keys key ?h ! c" using c par_less [of c] by auto
  qed
  moreover have "children_ok (Suc ?n) ?n (slot_keys key ?h)"
    unfolding children_ok_def using par_less by (metis less_Suc_eq_le not_le)
  ultimately have up: "good_from E ?S (E', ids')" "heap_n (Suc ?n) (heap.keys E (E', ids'))"
      "mset ids' = mset (snd ?h)"
    using heap.up_correct [OF good, of "Suc ?n" ?n] assms(4) h by (simp_all add: heap_Push_def Let_def keys_good [OF good])
  have "length ids' = Suc ?n" using h mset_eq_length [OF up(3)] by simp
  with up keys_good [OF up(1)] show ?thesis by (simp add: heap_ok_def good_from_def)
qed

text \<open>Taking the last slot off, after the package has moved the wanted entry there.\<close>

lemma jobHeap_Pop_correct:
  assumes "good_from E S (E1, ids1)" and "heap_n (length ids1 - 1) (slot_keys key (E1, ids1))" and "ids1 \<noteq> []"
    and "jobHeap_Pop (E1, ids1) = ((E', ids'), jid)"
  shows "jid = last ids1 \<and> heap_ok key (E', ids') \<and> set ids' = S - {jid} \<and> repositioned S E E'"
proof -
  have eq: "jid = last ids1" "ids' = butlast ids1" "E' = place E1 (last ids1) (- 1)"
    using assms(4) by (auto simp: jobHeap_Pop_def Let_def)
  have g: "distinct ids1" "set ids1 \<subseteq> dom E1" "set ids1 = S" "repositioned S E E1"
    "\<And>k. k < length ids1 \<Longrightarrow> ie_position (the (E1 (ids1 ! k))) = int k"
    using assms(1) by (auto simp: good_from_def placed_def)
  have split: "ids1 = ids' @ [jid]" using assms(3) eq by simp
  have set': "set ids' = S - {jid}" "jid \<notin> set ids'" "distinct ids'" using g(1,3) split by auto
  have rep: "repositioned S E E'"
    unfolding eq(3) by (rule repositioned_trans [OF g(4) repositioned_place]) (use g(2,3) assms(3) in \<open>auto simp: subset_eq domIff\<close>)
  have same: "E' x = E1 x" if "x \<in> set ids'" for x using that set'(2) eq by (auto simp: place_def)
  have nth: "ids1 ! k = ids' ! k" if "k < length ids'" for k using that split by (simp add: nth_append)
  have "ie_position (the (E' (ids' ! k))) = int k" if "k < length ids'" for k
    using that g(5) [of k] same [of "ids' ! k"] split nth [OF that] by simp
  moreover have "set ids' \<subseteq> dom E'" using set'(1) g(2,3) unfolding eq(3) by auto
  ultimately have placed: "placed (E', ids')" using set'(3) by (simp add: placed_def)
  have "slot_keys key (E', ids') = slot_keys key (E1, ids')" by (simp add: slot_keys_def same)
  moreover have "slot_keys key (E1, ids1) = slot_keys key (E1, ids') @ [key (the (E1 jid))]"
    by (simp add: slot_keys_def split)
  then have "slot_keys key (E1, ids1) ! k = slot_keys key (E1, ids') ! k" if "k < length ids'" for k
    using that by (simp add: nth_append)
  moreover have "length ids1 - 1 = length ids'" using split by simp
  ultimately have "heap_n (length ids') (slot_keys key (E', ids'))"
    using assms(2) par_less by (simp add: heap_n_def) (metis order_less_trans)
  with placed show ?thesis using rep set'(1) eq(1) by (simp add: heap_ok_def)
qed

text \<open>The heap after the package exchanged slot \<open>i\<close> with the last one.\<close>

lemma swap_last:
  assumes "heap_ok key (E, ids)" and "n = length ids - 1" and "i < n" and "h = jobHeap_Swap (E, ids) i n"
  shows "good_from E (set ids) h \<and> near_n n i (heap.keys E h) \<and> length (snd h) = Suc n \<and> snd h ! n = ids ! i"
proof -
  have g0: "good_from E (set ids) (E, ids)" using assms(1) by (simp add: heap_ok_def good_from_def)
  have le: "i < length ids" "n < length ids" using assms(2,3) by auto
  have k: "heap.keys E h = swap_at (heap.keys E (E, ids)) i n" "good_from E (set ids) h"
    using heap.keys_Swap [OF g0, of i n] heap.good_Swap [OF g0, of i n] assms(4) le by auto
  have "heap_n n (heap.keys E (E, ids))"
    using assms(1,2) keys_good [OF g0] by (auto simp: heap_ok_def heap_n_def)
  then have "near_n n i (heap.keys E (E, ids))" by (rule near_nI [OF _ assms(3)])
  then have "near_n n i (heap.keys E h)"
    by (rule near_n_change) (use le k(1) in \<open>auto simp: nth_swap_at\<close>)
  moreover have "snd h = swap_at ids i n" by (simp add: assms(4) jobHeap_Swap_def Let_def)
  ultimately show ?thesis using k(2) assms(2,3) le by (auto simp: nth_swap_at)
qed

lemma pop_sifted:
  assumes "good_from E S h" and "heap_n (length (snd h) - 1) (heap.keys E h)" and "snd h \<noteq> []"
    and "jobHeap_Pop h = ((E', ids'), jid)" and "snd h ! (length (snd h) - 1) = x"
  shows "jid = x \<and> heap_ok key (E', ids') \<and> set ids' = S - {jid} \<and> repositioned S E E'"
  using jobHeap_Pop_correct [of E S "fst h" "snd h" E' ids' jid] assms keys_good [OF assms(1)]
  by (simp add: last_conv_nth)

lemma Pop_correct:
  assumes "heap_ok key (E, ids)" and "ids \<noteq> []" and "heap_Pop lt (E, ids) = ((E', ids'), jid)"
  shows "jid = hd ids \<and> heap_ok key (E', ids') \<and> set ids' = set ids - {jid} \<and> repositioned (set ids) E E'"
proof -
  let ?n = "length ids - 1"
  let ?h = "jobHeap_Swap (E, ids) 0 ?n"
  let ?h' = "fst (heap_down (jobHeap_Less lt) jobHeap_Swap ?h 0 ?n)"
  have pop: "jobHeap_Pop ?h' = ((E', ids'), jid)" using assms(3) by (simp add: heap_Pop_def Let_def)
  have g0: "good_from E (set ids) (E, ids)" using assms(1) by (simp add: heap_ok_def good_from_def)
  have "good_from E (set ids) ?h' \<and> mset (snd ?h') = mset ids \<and> heap_n ?n (heap.keys E ?h') \<and> snd ?h' ! ?n = ids ! 0"
  proof (cases "0 < ?n")
    case True
    from swap_last [OF assms(1) refl True refl]
    have s: "good_from E (set ids) ?h" "near_n ?n 0 (heap.keys E ?h)" "length (snd ?h) = Suc ?n" "snd ?h ! ?n = ids ! 0"
      by auto
    have "0 < length ids" "?n < length ids" using True by auto
    from mset_swap_at [OF this] have "mset (snd ?h) = mset ids" by (simp add: jobHeap_Swap_def Let_def)
    with heap.down_correct [OF s(1,2) _ True] s show ?thesis
      by (simp add: heap_down_def split_beta parent_ok_def)
  next
    case False
    then have one: "length ids = 1" "?n = 0" using assms(2) by (cases ids, auto)
    then have "?h' = ?h" by (simp add: heap_down_def down_loop.simps)
    moreover have "good_from E (set ids) ?h" using heap.good_Swap [OF g0, of 0 0] one by simp
    moreover have "snd ?h = ids" using one by (cases ids) (auto simp: jobHeap_Swap_def Let_def swap_at_def)
    ultimately show ?thesis using one(2) by (simp add: heap_n_def)
  qed
  moreover from this have "length (snd ?h') = length ids" by (auto dest: mset_eq_length)
  moreover from this have "snd ?h' \<noteq> []" using assms(2) by auto
  ultimately show ?thesis
    using pop_sifted [of E "set ids" ?h' E' ids' jid "ids ! 0"] pop assms(2) by (simp add: hd_conv_nth)
qed

lemma Remove_correct:
  assumes "heap_ok key (E, ids)" and "i < length ids" and "heap_Remove lt (E, ids) i = ((E', ids'), jid)"
  shows "jid = ids ! i \<and> heap_ok key (E', ids') \<and> set ids' = set ids - {jid} \<and> repositioned (set ids) E E'"
proof -
  let ?n = "length ids - 1"
  have g0: "good_from E (set ids) (E, ids)" using assms(1) by (simp add: heap_ok_def good_from_def)
  show ?thesis
  proof (cases "?n = i")
    case True
    then have "jobHeap_Pop (E, ids) = ((E', ids'), jid)" using assms(3) by (simp add: heap_Remove_def Let_def)
    moreover have "heap_n (length ids - 1) (heap.keys E (E, ids))"
      using assms(1) keys_good [OF g0] by (auto simp: heap_ok_def heap_n_def)
    moreover have "ids \<noteq> []" using assms(2) by auto
    ultimately show ?thesis
      using pop_sifted [OF g0, of E' ids' jid "ids ! i"] True by simp
  next
    case False
    then have i: "i < ?n" using assms(2) by simp
    let ?h = "jobHeap_Swap (E, ids) i ?n"
    let ?d = "heap_down (jobHeap_Less lt) jobHeap_Swap ?h i ?n"
    let ?h' = "if \<not> snd ?d then heap_up (jobHeap_Less lt) jobHeap_Swap (fst ?d) i else fst ?d"
    have pop: "jobHeap_Pop ?h' = ((E', ids'), jid)"
      using assms(3) False by (simp only: heap_Remove_def Let_def split_beta if_True fst_conv snd_conv not_False_eq_True)
    from swap_last [OF assms(1) refl i refl]
    have s: "good_from E (set ids) ?h" "near_n ?n i (heap.keys E ?h)" "length (snd ?h) = Suc ?n" "snd ?h ! ?n = ids ! i"
      by auto
    have len: "?n \<le> length (heap.keys E ?h)" using s(3) by simp
    have "good_from E (set ids) ?h' \<and> mset (snd ?h') = mset (snd ?h) \<and> heap_n ?n (heap.keys E ?h') \<and> snd ?h' ! ?n = ids ! i"
    proof (cases "snd ?d")
      case True
      with heap.down_moved [OF s(1,2) i len] s(4) show ?thesis by simp
    next
      case False
      with heap.down_stays [OF s(1,2) i len] have d: "fst ?d = ?h" "children_ok ?n i (heap.keys E ?h)" by auto
      with heap.up_correct [OF s(1,2) d(2) i len] s(4) False show ?thesis by simp
    qed
    then have h': "good_from E (set ids) ?h'" "heap_n ?n (heap.keys E ?h')" "snd ?h' ! ?n = ids ! i" "mset (snd ?h') = mset (snd ?h)"
      by blast+
    have "Suc ?n = length ids" using assms(2) by simp
    then have "length (snd ?h') = length ids" using mset_eq_length [OF h'(4)] s(3) by argo
    moreover from this have "snd ?h' \<noteq> []" using assms(2) by auto
    ultimately show ?thesis
      using pop_sifted [OF h'(1) _ _ pop, of "ids ! i"] h'(2,3) by presburger
  qed
qed

text \<open>The first slot holds the entry that comes first.\<close>

lemma hd_least:
  assumes "heap_ok key (E, ids)" and "x \<in> set ids"
  shows "key (the (E (hd ids))) \<le> key (the (E x))"
proof -
  obtain k where k: "k < length ids" "ids ! k = x" using assms(2) by (auto simp: in_set_conv_nth)
  then have "ids \<noteq> []" by auto
  with heap_root [of "length ids" "slot_keys key (E, ids)" k] assms(1) k show ?thesis
    by (simp add: heap_ok_def slot_keys_def hd_conv_nth)
qed

text \<open>What a heap says depends only on the entries it holds.\<close>

lemma heap_ok_cong: "heap_ok key (E, ids) \<Longrightarrow> (\<And>x. x \<in> set ids \<Longrightarrow> E' x = E x) \<Longrightarrow> heap_ok key (E', ids)"
  by (auto simp: heap_ok_def placed_def slot_keys_def subset_eq domIff cong: map_cong)

end

definition lease_key :: "indexEntry \<Rightarrow> time \<times> str" where "lease_key e = (ie_createdAt e, ie_id e)"

definition due_key :: "indexEntry \<Rightarrow> time \<times> str" where "due_key e = (ie_due e, ie_id e)"

interpretation ready_heap: entry_order leaseOrder lease_key
  by unfold_locales (auto simp: leaseOrder_def lease_key_def less_prod_def)

interpretation waiting_heap: entry_order dueBefore due_key
  by unfold_locales (auto simp: dueBefore_def due_key_def less_prod_def)

end
