(* ===== verification/LeaseIndex.thy ===== *)
theory LeaseIndex
  imports JobHeap
begin

text \<open>
  The lease index of \<^verbatim>\<open>internal/video/index.go\<close>: which job is leased next. Queued and leased jobs have an entry
  in one of two heaps over a common store, \<open>waiting\<close> by due time and \<open>ready\<close> in lease order. \<open>update\<close> and \<open>remove\<close>
  follow changes of a job; \<open>next\<close> moves entries between the heaps until the first ready entry is due. The
  abstraction \<open>view\<close> forgets the heaps: it gives the creation and the due time of every filed job.
\<close>

subsection \<open>Operations\<close>

record leaseIndex =
  li_entries :: entries
  li_waiting :: "str list"
  li_ready :: "str list"
  li_now :: time

definition newLeaseIndex :: leaseIndex where
  "newLeaseIndex = \<lparr>li_entries = (\<lambda>_. None), li_waiting = [], li_ready = [], li_now = zero_time\<rparr>"

definition leasableAt :: "job \<Rightarrow> time option" where
  "leasableAt j = (case j_State j of Queued \<Rightarrow> Some (j_NextAttempt j) | Leased \<Rightarrow> Some (j_LeaseUntil j) | _ \<Rightarrow> None)"

definition with_ready :: "leaseIndex \<Rightarrow> jobHeap \<Rightarrow> leaseIndex" where
  "with_ready x h = x\<lparr>li_entries := fst h, li_ready := snd h\<rparr>"

definition with_waiting :: "leaseIndex \<Rightarrow> jobHeap \<Rightarrow> leaseIndex" where
  "with_waiting x h = x\<lparr>li_entries := fst h, li_waiting := snd h\<rparr>"

definition set_entry :: "leaseIndex \<Rightarrow> str \<Rightarrow> indexEntry option \<Rightarrow> leaseIndex" where
  "set_entry x jid e = x\<lparr>li_entries := (li_entries x)(jid := e)\<rparr>"

definition detach :: "leaseIndex \<Rightarrow> indexEntry \<Rightarrow> leaseIndex" where
  "detach x entry =
     (if ie_ready entry
      then with_ready x (fst (heap_Remove leaseOrder (li_entries x, li_ready x) (nat (ie_position entry))))
      else with_waiting x (fst (heap_Remove dueBefore (li_entries x, li_waiting x) (nat (ie_position entry)))))"

definition push_ready :: "leaseIndex \<Rightarrow> str \<Rightarrow> leaseIndex" where
  "push_ready x jid = with_ready x (heap_Push leaseOrder (li_entries x, li_ready x) jid)"

definition push_waiting :: "leaseIndex \<Rightarrow> str \<Rightarrow> leaseIndex" where
  "push_waiting x jid = with_waiting x (heap_Push dueBefore (li_entries x, li_waiting x) jid)"

definition index_update :: "leaseIndex \<Rightarrow> str \<Rightarrow> job \<Rightarrow> leaseIndex" where
  "index_update x jid j =
     (let entry = li_entries x jid; x = (case entry of Some e \<Rightarrow> detach x e | None \<Rightarrow> x) in
      case leasableAt j of
        None \<Rightarrow> set_entry x jid None
      | Some due \<Rightarrow>
          let e = (case entry of
                None \<Rightarrow> \<lparr>ie_id = jid, ie_createdAt = zero_time, ie_due = zero_time, ie_ready = False, ie_position = 0\<rparr>
              | Some _ \<Rightarrow> the (li_entries x jid));
              e = e\<lparr>ie_createdAt := j_CreatedAt j, ie_due := due, ie_ready := \<not> due > li_now x\<rparr>;
              x = set_entry x jid (Some e)
          in if ie_ready e then push_ready x jid else push_waiting x jid)"

definition index_remove :: "leaseIndex \<Rightarrow> str \<Rightarrow> leaseIndex" where
  "index_remove x jid =
     (case li_entries x jid of None \<Rightarrow> x | Some e \<Rightarrow> set_entry (detach x e) jid None)"

text \<open>The two loops of \<open>next\<close>; the lengths decrease because a heap operation keeps the number of slots.\<close>

lemma length_Swap [simp]: "length (snd (jobHeap_Swap h i j)) = length (snd h)"
  by (simp add: jobHeap_Swap_def Let_def)

lemma length_down [simp]: "length (snd (fst (down_loop (jobHeap_Less lt) jobHeap_Swap n h i))) = length (snd h)"
proof (induction "n - i" arbitrary: h i rule: less_induct)
  case less
  show ?case
    by (subst down_loop.simps) (auto simp: Let_def less)
qed

lemma length_Pop: "length (snd (fst (heap_Pop lt h))) = length (snd h) - 1"
  by (simp add: heap_Pop_def Let_def jobHeap_Pop_def heap_down_def split_beta)

definition promote :: "leaseIndex \<Rightarrow> leaseIndex" where
  "promote x =
     (case heap_Pop dueBefore (li_entries x, li_waiting x) of
        (h, jid) \<Rightarrow>
          let x = with_waiting x h in
          push_ready (set_entry x jid (Some ((the (li_entries x jid))\<lparr>ie_ready := True\<rparr>))) jid)"

definition demote :: "leaseIndex \<Rightarrow> leaseIndex" where
  "demote x =
     (case heap_Pop leaseOrder (li_entries x, li_ready x) of
        (h, jid) \<Rightarrow>
          let x = with_ready x h in
          push_waiting (set_entry x jid (Some ((the (li_entries x jid))\<lparr>ie_ready := False\<rparr>))) jid)"

lemma length_promote: "li_waiting x \<noteq> [] \<Longrightarrow> length (li_waiting (promote x)) < length (li_waiting x)"
  using length_Pop [of dueBefore "(li_entries x, li_waiting x)"]
  by (simp add: promote_def split_beta with_waiting_def with_ready_def push_ready_def set_entry_def Let_def)

lemma length_demote: "li_ready x \<noteq> [] \<Longrightarrow> length (li_ready (demote x)) < length (li_ready x)"
  using length_Pop [of leaseOrder "(li_entries x, li_ready x)"]
  by (simp add: demote_def split_beta with_waiting_def with_ready_def push_waiting_def set_entry_def Let_def)

function promote_due :: "leaseIndex \<Rightarrow> time \<Rightarrow> leaseIndex" where
  "promote_due x now =
     (if li_waiting x \<noteq> [] \<and> \<not> ie_due (the (li_entries x (li_waiting x ! 0))) > now
      then promote_due (promote x) now else x)"
  by pat_completeness auto
termination
  by (relation "measure (\<lambda>(x, now). length (li_waiting x))") (auto simp: length_promote)

function first_due :: "leaseIndex \<Rightarrow> time \<Rightarrow> leaseIndex \<times> str option" where
  "first_due x now =
     (if li_ready x \<noteq> [] then
        let entry = the (li_entries x (li_ready x ! 0)) in
        if \<not> ie_due entry > now then (x, Some (ie_id entry)) else first_due (demote x) now
      else (x, None))"
  by pat_completeness auto
termination
  by (relation "measure (\<lambda>(x, now). length (li_ready x))") (auto simp: length_demote)

declare promote_due.simps [simp del] first_due.simps [simp del]

definition index_next :: "leaseIndex \<Rightarrow> time \<Rightarrow> leaseIndex \<times> str option" where
  "index_next x now = first_due (promote_due (x\<lparr>li_now := now\<rparr>) now) now"

subsection \<open>The invariant\<close>

text \<open>Every entry but those in \<open>S\<close> is in exactly one heap, the one its flag names, at its position.\<close>

definition idx_but :: "str set \<Rightarrow> leaseIndex \<Rightarrow> bool" where
  "idx_but S x \<longleftrightarrow> heap_ok due_key (li_entries x, li_waiting x) \<and> heap_ok lease_key (li_entries x, li_ready x) \<and>
     set (li_waiting x) \<inter> set (li_ready x) = {} \<and> S \<inter> (set (li_waiting x) \<union> set (li_ready x)) = {} \<and>
     dom (li_entries x) = S \<union> set (li_waiting x) \<union> set (li_ready x) \<and>
     (\<forall>jid \<in> dom (li_entries x). ie_id (the (li_entries x jid)) = jid) \<and>
     (\<forall>jid \<in> set (li_waiting x). \<not> ie_ready (the (li_entries x jid))) \<and>
     (\<forall>jid \<in> set (li_ready x). ie_ready (the (li_entries x jid)))"

definition idx_inv :: "leaseIndex \<Rightarrow> bool" where "idx_inv x \<longleftrightarrow> idx_but {} x"

definition view_of :: "entries \<Rightarrow> str \<Rightarrow> (time \<times> time) option" where
  "view_of E jid = map_option (\<lambda>e. (ie_createdAt e, ie_due e)) (E jid)"

definition view :: "leaseIndex \<Rightarrow> str \<Rightarrow> (time \<times> time) option" where "view x = view_of (li_entries x)"

lemma new_inv: "idx_inv newLeaseIndex"
  by (auto simp: idx_inv_def idx_but_def newLeaseIndex_def heap_ok_def placed_def heap_n_def)

lemma new_view: "view newLeaseIndex = (\<lambda>_. None)"
  by (auto simp: newLeaseIndex_def view_def view_of_def)

lemma repositioned_fields:
  assumes "repositioned S E E'" and "jid \<in> dom E"
  shows "ie_id (the (E' jid)) = ie_id (the (E jid)) \<and> ie_ready (the (E' jid)) = ie_ready (the (E jid))"
  using same_unplaced [OF repositioned_unplaced [OF assms]] by blast

lemma view_repositioned:
  assumes "repositioned S E E'"
  shows "view_of E' = view_of E"
proof
  fix jid
  have "map_option unplaced (E' jid) = map_option unplaced (E jid)" using assms by (simp add: repositioned_def)
  then show "view_of E' jid = view_of E jid"
    by (cases "E jid"; cases "E' jid") (auto simp: view_of_def dest: same_unplaced)
qed

text \<open>The other heap does not notice.\<close>

lemma ready_frame:
  assumes "heap_ok lease_key (E, R)" and "repositioned S E E'" and "S \<inter> set R = {}"
  shows "heap_ok lease_key (E', R)"
proof (rule ready_heap.heap_ok_cong [OF assms(1)])
  fix x assume "x \<in> set R"
  with assms(3) have "x \<notin> S" by blast
  with assms(2) show "E' x = E x" by (simp add: repositioned_def)
qed

lemma waiting_frame:
  assumes "heap_ok due_key (E, W)" and "repositioned S E E'" and "S \<inter> set W = {}"
  shows "heap_ok due_key (E', W)"
proof (rule waiting_heap.heap_ok_cong [OF assms(1)])
  fix x assume "x \<in> set W"
  with assms(3) have "x \<notin> S" by blast
  with assms(2) show "E' x = E x" by (simp add: repositioned_def)
qed

definition tags_ok :: "str set \<Rightarrow> entries \<Rightarrow> str set \<Rightarrow> str set \<Rightarrow> bool" where
  "tags_ok S E W R \<longleftrightarrow> W \<inter> R = {} \<and> S \<inter> (W \<union> R) = {} \<and> dom E = S \<union> W \<union> R \<and>
     (\<forall>jid \<in> dom E. ie_id (the (E jid)) = jid) \<and>
     (\<forall>jid \<in> W. \<not> ie_ready (the (E jid))) \<and> (\<forall>jid \<in> R. ie_ready (the (E jid)))"

lemma idx_but_tags:
  "idx_but S x \<longleftrightarrow> heap_ok due_key (li_entries x, li_waiting x) \<and> heap_ok lease_key (li_entries x, li_ready x) \<and>
     tags_ok S (li_entries x) (set (li_waiting x)) (set (li_ready x))"
  by (auto simp: idx_but_def tags_ok_def)

lemma tags_repositioned:
  assumes "tags_ok S E W R" and "repositioned T E E'"
  shows "tags_ok S E' W R"
proof -
  have sub: "W \<subseteq> dom E" "R \<subseteq> dom E" using assms(1) unfolding tags_ok_def by blast+
  have same: "ie_id (the (E' j)) = ie_id (the (E j))" "ie_ready (the (E' j)) = ie_ready (the (E j))" if "j \<in> dom E" for j
    using repositioned_fields [OF assms(2) that] by auto
  have "\<forall>jid \<in> W. \<not> ie_ready (the (E' jid))" "\<forall>jid \<in> R. ie_ready (the (E' jid))" "\<forall>jid \<in> dom E. ie_id (the (E' jid)) = jid"
    using assms(1) sub by (simp_all add: tags_ok_def same subsetD)
  with assms(1) show ?thesis unfolding tags_ok_def repositioned_dom [OF assms(2)] by simp
qed

lemma tags_move_out: "tags_ok S E W R \<Longrightarrow> jid \<in> W \<union> R \<Longrightarrow> tags_ok (insert jid S) E (W - {jid}) (R - {jid})"
  by (auto simp: tags_ok_def)

lemma position_of:
  assumes "heap_ok key (E, ids)" and "x \<in> set ids"
  shows "nat (ie_position (the (E x))) < length ids" and "ids ! nat (ie_position (the (E x))) = x"
proof -
  obtain k where "k < length ids" "ids ! k = x" using assms(2) by (auto simp: in_set_conv_nth)
  with assms(1) show "nat (ie_position (the (E x))) < length ids" "ids ! nat (ie_position (the (E x))) = x"
    by (auto simp: heap_ok_def placed_def)
qed

lemma with_simps [simp]:
  "li_entries (with_ready x h) = fst h" "li_ready (with_ready x h) = snd h" "li_waiting (with_ready x h) = li_waiting x"
  "li_now (with_ready x h) = li_now x"
  "li_entries (with_waiting x h) = fst h" "li_waiting (with_waiting x h) = snd h" "li_ready (with_waiting x h) = li_ready x"
  "li_now (with_waiting x h) = li_now x"
  "li_entries (set_entry x jid e) = (li_entries x)(jid := e)" "li_waiting (set_entry x jid e) = li_waiting x"
  "li_ready (set_entry x jid e) = li_ready x" "li_now (set_entry x jid e) = li_now x"
  by (simp_all add: with_ready_def with_waiting_def set_entry_def)

lemma leave_ready:
  assumes "idx_but S x" and "heap_ok lease_key (E', R')" "set R' = set (li_ready x) - {jid}"
    and "repositioned (set (li_ready x)) (li_entries x) E'" and "jid \<in> set (li_ready x)"
  shows "idx_but (insert jid S) (with_ready x (E', R')) \<and> view (with_ready x (E', R')) = view x"
proof -
  let ?W = "set (li_waiting x)" and ?R = "set (li_ready x)"
  from assms(1) have t: "tags_ok S (li_entries x) ?W ?R" and w: "heap_ok due_key (li_entries x, li_waiting x)"
    by (simp_all add: idx_but_tags)
  then have W: "?W - {jid} = ?W" "?R \<inter> ?W = {}" using assms(5) by (auto simp: tags_ok_def)
  have "tags_ok (insert jid S) E' ?W (?R - {jid})"
    using tags_repositioned [OF tags_move_out [OF t, of jid] assms(4)] assms(5) W(1) by simp
  with waiting_frame [OF w assms(4) W(2)] assms(2,3) view_repositioned [OF assms(4)] show ?thesis
    by (simp add: idx_but_tags view_def)
qed

lemma leave_waiting:
  assumes "idx_but S x" and "heap_ok due_key (E', W')" "set W' = set (li_waiting x) - {jid}"
    and "repositioned (set (li_waiting x)) (li_entries x) E'" and "jid \<in> set (li_waiting x)"
  shows "idx_but (insert jid S) (with_waiting x (E', W')) \<and> view (with_waiting x (E', W')) = view x"
proof -
  let ?W = "set (li_waiting x)" and ?R = "set (li_ready x)"
  from assms(1) have t: "tags_ok S (li_entries x) ?W ?R" and r: "heap_ok lease_key (li_entries x, li_ready x)"
    by (simp_all add: idx_but_tags)
  then have R: "?R - {jid} = ?R" "?W \<inter> ?R = {}" using assms(5) by (auto simp: tags_ok_def)
  have "tags_ok (insert jid S) E' (?W - {jid}) ?R"
    using tags_repositioned [OF tags_move_out [OF t, of jid] assms(4)] assms(5) R(1) by simp
  with ready_frame [OF r assms(4) R(2)] assms(2,3) view_repositioned [OF assms(4)] show ?thesis
    by (simp add: idx_but_tags view_def)
qed

lemma detach_but:
  assumes "idx_inv x" and "li_entries x jid = Some e"
  shows "idx_but {jid} (detach x e) \<and> view (detach x e) = view x \<and> li_now (detach x e) = li_now x"
proof -
  have inv: "idx_but {} x" and h: "heap_ok due_key (li_entries x, li_waiting x)" "heap_ok lease_key (li_entries x, li_ready x)"
    and t: "tags_ok {} (li_entries x) (set (li_waiting x)) (set (li_ready x))"
    using assms(1) by (simp_all add: idx_inv_def idx_but_tags)
  have the_e: "the (li_entries x jid) = e" using assms(2) by simp
  have "jid \<in> set (li_waiting x) \<union> set (li_ready x)" using t assms(2) unfolding tags_ok_def by blast
  then have jin: "jid \<in> (if ie_ready e then set (li_ready x) else set (li_waiting x))"
    using t unfolding tags_ok_def the_e [symmetric] by auto
  show ?thesis
  proof (cases "ie_ready e")
    case True
    obtain E' R' j where r: "heap_Remove leaseOrder (li_entries x, li_ready x) (nat (ie_position e)) = ((E', R'), j)"
      by (metis prod.collapse)
    from position_of [OF h(2), of jid] jin True have p: "nat (ie_position e) < length (li_ready x)"
      "li_ready x ! nat (ie_position e) = jid" by (simp_all add: the_e)
    from ready_heap.Remove_correct [OF h(2) p(1) r] p(2)
    have "heap_ok lease_key (E', R')" "set R' = set (li_ready x) - {jid}" "repositioned (set (li_ready x)) (li_entries x) E'"
      by auto
    from leave_ready [OF inv this] jin True show ?thesis by (simp add: detach_def r)
  next
    case False
    obtain E' W' j where r: "heap_Remove dueBefore (li_entries x, li_waiting x) (nat (ie_position e)) = ((E', W'), j)"
      by (metis prod.collapse)
    from position_of [OF h(1), of jid] jin False have p: "nat (ie_position e) < length (li_waiting x)"
      "li_waiting x ! nat (ie_position e) = jid" by (simp_all add: the_e)
    from waiting_heap.Remove_correct [OF h(1) p(1) r] p(2)
    have "heap_ok due_key (E', W')" "set W' = set (li_waiting x) - {jid}" "repositioned (set (li_waiting x)) (li_entries x) E'"
      by auto
    from leave_waiting [OF inv this] jin False show ?thesis by (simp add: detach_def r)
  qed
qed

text \<open>Writing an entry that is in no heap, and filing it.\<close>

lemma set_entry_but:
  assumes "idx_but S x" and "jid \<notin> set (li_waiting x) \<union> set (li_ready x)" and "ie_id e = jid"
  shows "idx_but (insert jid S) (set_entry x jid (Some e)) \<and>
    view (set_entry x jid (Some e)) = (view x)(jid \<mapsto> (ie_createdAt e, ie_due e))"
proof -
  have h: "heap_ok due_key (li_entries x, li_waiting x)" "heap_ok lease_key (li_entries x, li_ready x)"
    and t: "tags_ok S (li_entries x) (set (li_waiting x)) (set (li_ready x))"
    using assms(1) by (simp_all add: idx_but_tags)
  have "heap_ok due_key ((li_entries x)(jid \<mapsto> e), li_waiting x)"
    by (rule waiting_heap.heap_ok_cong [OF h(1)]) (use assms(2) in auto)
  moreover have "heap_ok lease_key ((li_entries x)(jid \<mapsto> e), li_ready x)"
    by (rule ready_heap.heap_ok_cong [OF h(2)]) (use assms(2) in auto)
  moreover have "tags_ok (insert jid S) ((li_entries x)(jid \<mapsto> e)) (set (li_waiting x)) (set (li_ready x))"
    using t assms(2,3) unfolding tags_ok_def by auto
  ultimately show ?thesis by (auto simp: idx_but_tags view_def view_of_def)
qed

lemma clear_entry_but:
  assumes "idx_but {jid} x"
  shows "idx_inv (set_entry x jid None) \<and> view (set_entry x jid None) = (view x)(jid := None)"
proof -
  have h: "heap_ok due_key (li_entries x, li_waiting x)" "heap_ok lease_key (li_entries x, li_ready x)"
    and t: "tags_ok {jid} (li_entries x) (set (li_waiting x)) (set (li_ready x))"
    using assms(1) by (simp_all add: idx_but_tags)
  have "heap_ok due_key ((li_entries x)(jid := None), li_waiting x)"
    by (rule waiting_heap.heap_ok_cong [OF h(1)]) (use t in \<open>auto simp: tags_ok_def\<close>)
  moreover have "heap_ok lease_key ((li_entries x)(jid := None), li_ready x)"
    by (rule ready_heap.heap_ok_cong [OF h(2)]) (use t in \<open>auto simp: tags_ok_def\<close>)
  moreover have "tags_ok {} ((li_entries x)(jid := None)) (set (li_waiting x)) (set (li_ready x))"
    using t unfolding tags_ok_def by auto
  ultimately show ?thesis by (auto simp: idx_inv_def idx_but_tags view_def view_of_def)
qed

lemma push_ready_but:
  assumes "idx_but {jid} x" and "ie_ready (the (li_entries x jid))"
  shows "idx_inv (push_ready x jid) \<and> view (push_ready x jid) = view x \<and> li_now (push_ready x jid) = li_now x \<and>
    set (li_waiting (push_ready x jid)) = set (li_waiting x) \<and> set (li_ready (push_ready x jid)) = insert jid (set (li_ready x))"
proof -
  have h: "heap_ok due_key (li_entries x, li_waiting x)" "heap_ok lease_key (li_entries x, li_ready x)"
    and t: "tags_ok {jid} (li_entries x) (set (li_waiting x)) (set (li_ready x))"
    using assms(1) by (simp_all add: idx_but_tags)
  obtain E' R' where p: "heap_Push leaseOrder (li_entries x, li_ready x) jid = (E', R')" by (metis prod.collapse)
  have j: "jid \<in> dom (li_entries x)" "jid \<notin> set (li_ready x)" "jid \<notin> set (li_waiting x)"
    using t unfolding tags_ok_def by auto
  from ready_heap.Push_correct [OF h(2) j(1,2) p]
  have p': "heap_ok lease_key (E', R')" "set R' = insert jid (set (li_ready x))"
    "repositioned (insert jid (set (li_ready x))) (li_entries x) E'" by auto
  have "insert jid (set (li_ready x)) \<inter> set (li_waiting x) = {}" using t j(3) unfolding tags_ok_def by auto
  from waiting_frame [OF h(1) p'(3) this] have "heap_ok due_key (E', li_waiting x)" .
  moreover have "tags_ok {} (li_entries x) (set (li_waiting x)) (insert jid (set (li_ready x)))"
    using t assms(2) j(3) unfolding tags_ok_def by auto
  ultimately show ?thesis
    using p'(1,2) tags_repositioned [OF _ p'(3)] view_repositioned [OF p'(3)]
    by (simp add: push_ready_def p idx_inv_def idx_but_tags view_def)
qed

lemma push_waiting_but:
  assumes "idx_but {jid} x" and "\<not> ie_ready (the (li_entries x jid))"
  shows "idx_inv (push_waiting x jid) \<and> view (push_waiting x jid) = view x \<and> li_now (push_waiting x jid) = li_now x \<and>
    set (li_waiting (push_waiting x jid)) = insert jid (set (li_waiting x)) \<and> set (li_ready (push_waiting x jid)) = set (li_ready x)"
proof -
  have h: "heap_ok due_key (li_entries x, li_waiting x)" "heap_ok lease_key (li_entries x, li_ready x)"
    and t: "tags_ok {jid} (li_entries x) (set (li_waiting x)) (set (li_ready x))"
    using assms(1) by (simp_all add: idx_but_tags)
  obtain E' W' where p: "heap_Push dueBefore (li_entries x, li_waiting x) jid = (E', W')" by (metis prod.collapse)
  have j: "jid \<in> dom (li_entries x)" "jid \<notin> set (li_waiting x)" "jid \<notin> set (li_ready x)"
    using t unfolding tags_ok_def by auto
  from waiting_heap.Push_correct [OF h(1) j(1,2) p]
  have p': "heap_ok due_key (E', W')" "set W' = insert jid (set (li_waiting x))"
    "repositioned (insert jid (set (li_waiting x))) (li_entries x) E'" by auto
  have "insert jid (set (li_waiting x)) \<inter> set (li_ready x) = {}" using t j(3) unfolding tags_ok_def by auto
  from ready_frame [OF h(2) p'(3) this] have "heap_ok lease_key (E', li_ready x)" .
  moreover have "tags_ok {} (li_entries x) (insert jid (set (li_waiting x))) (set (li_ready x))"
    using t assms(2) j(3) unfolding tags_ok_def by auto
  ultimately show ?thesis
    using p'(1,2) tags_repositioned [OF _ p'(3)] view_repositioned [OF p'(3)]
    by (simp add: push_waiting_def p idx_inv_def idx_but_tags view_def)
qed

lemma view_absent: "li_entries x jid = None \<Longrightarrow> (view x)(jid := None) = view x"
  by (auto simp: view_def view_of_def)

subsection \<open>Following a job\<close>

definition filed :: "job \<Rightarrow> (time \<times> time) option" where
  "filed j = map_option (\<lambda>due. (j_CreatedAt j, due)) (leasableAt j)"

lemma index_update_correct:
  assumes "idx_inv x"
  shows "idx_inv (index_update x jid j) \<and> view (index_update x jid j) = (view x)(jid := filed j)"
proof -
  define x1 where "x1 = (case li_entries x jid of Some e \<Rightarrow> detach x e | None \<Rightarrow> x)"
  have x1: "view x1 = view x" "jid \<notin> set (li_waiting x1) \<union> set (li_ready x1)" "idx_but (if li_entries x jid = None then {} else {jid}) x1"
    "li_entries x jid \<noteq> None \<Longrightarrow> ie_id (the (li_entries x1 jid)) = jid" "li_entries x jid = None \<Longrightarrow> li_entries x1 jid = None"
  proof -
    have "view x1 = view x \<and> jid \<notin> set (li_waiting x1) \<union> set (li_ready x1) \<and> idx_but (if li_entries x jid = None then {} else {jid}) x1 \<and>
      (li_entries x jid \<noteq> None \<longrightarrow> ie_id (the (li_entries x1 jid)) = jid) \<and> (li_entries x jid = None \<longrightarrow> li_entries x1 jid = None)"
    proof (cases "li_entries x jid")
      case None
      then have "jid \<notin> dom (li_entries x)" by auto
      with None assms show ?thesis by (auto simp: x1_def idx_inv_def idx_but_tags tags_ok_def)
    next
      case (Some e)
      from detach_but [OF assms Some] Some show ?thesis by (auto simp: x1_def idx_but_tags tags_ok_def)
    qed
    then show "view x1 = view x" "jid \<notin> set (li_waiting x1) \<union> set (li_ready x1)"
      "idx_but (if li_entries x jid = None then {} else {jid}) x1"
      "li_entries x jid \<noteq> None \<Longrightarrow> ie_id (the (li_entries x1 jid)) = jid" "li_entries x jid = None \<Longrightarrow> li_entries x1 jid = None"
      by blast+
  qed
  show ?thesis
  proof (cases "leasableAt j")
    case None
    have up: "index_update x jid j = set_entry x1 jid None" by (simp add: index_update_def x1_def None Let_def)
    show ?thesis
    proof (cases "li_entries x jid")
      case None
      with x1(5) have same: "set_entry x1 jid None = x1" "(view x)(jid := None) = view x"
        by (auto simp: set_entry_def view_absent fun_upd_idem_iff)
      from x1(1,3) None show ?thesis by (simp add: up same filed_def \<open>leasableAt j = None\<close> idx_inv_def)
    next
      case (Some e)
      with clear_entry_but [of jid x1] x1(1,3) show ?thesis by (simp add: up filed_def \<open>leasableAt j = None\<close>)
    qed
  next
    case (Some due)
    define e0 where "e0 = (case li_entries x jid of
        None \<Rightarrow> \<lparr>ie_id = jid, ie_createdAt = zero_time, ie_due = zero_time, ie_ready = False, ie_position = 0\<rparr>
      | Some _ \<Rightarrow> the (li_entries x1 jid))"
    define e where "e = e0\<lparr>ie_createdAt := j_CreatedAt j, ie_due := due, ie_ready := \<not> due > li_now x1\<rparr>"
    have up: "index_update x jid j = (let x2 = set_entry x1 jid (Some e) in
        if ie_ready e then push_ready x2 jid else push_waiting x2 jid)"
      by (cases "li_entries x jid") (simp_all add: index_update_def x1_def Some Let_def e_def e0_def)
    have eid: "ie_id e = jid" using x1(4) by (simp add: e_def e0_def split: option.split)
    have "idx_but {jid} (set_entry x1 jid (Some e)) \<and>
      view (set_entry x1 jid (Some e)) = (view x)(jid \<mapsto> (j_CreatedAt j, due))"
      using set_entry_but [OF x1(3,2) eid] x1(1) by (auto simp: e_def split: if_splits)
    with push_ready_but [of jid "set_entry x1 jid (Some e)"] push_waiting_but [of jid "set_entry x1 jid (Some e)"]
    show ?thesis by (simp add: up Let_def filed_def Some)
  qed
qed

lemma index_remove_correct:
  assumes "idx_inv x"
  shows "idx_inv (index_remove x jid) \<and> view (index_remove x jid) = (view x)(jid := None)"
proof (cases "li_entries x jid")
  case None
  then show ?thesis using assms by (simp add: index_remove_def view_absent)
next
  case (Some e)
  with detach_but [OF assms Some] clear_entry_but [of jid "detach x e"] show ?thesis
    by (simp add: index_remove_def)
qed

subsection \<open>Finding the next job\<close>

lemma view_entry: "jid \<in> dom (li_entries x) \<Longrightarrow> view x jid = Some (ie_createdAt (the (li_entries x jid)), ie_due (the (li_entries x jid)))"
  by (auto simp: view_def view_of_def)

lemma reset_ready_but:
  assumes "idx_but {jid} x"
  shows "idx_but {jid} (set_entry x jid (Some ((the (li_entries x jid))\<lparr>ie_ready := b\<rparr>))) \<and>
    view (set_entry x jid (Some ((the (li_entries x jid))\<lparr>ie_ready := b\<rparr>))) = view x"
proof -
  have t: "tags_ok {jid} (li_entries x) (set (li_waiting x)) (set (li_ready x))" using assms by (simp add: idx_but_tags)
  then have j: "jid \<in> dom (li_entries x)" "jid \<notin> set (li_waiting x) \<union> set (li_ready x)" "ie_id (the (li_entries x jid)) = jid"
    unfolding tags_ok_def by auto
  show ?thesis
    using set_entry_but [OF assms j(2), of "(the (li_entries x jid))\<lparr>ie_ready := b\<rparr>"] j(3) view_entry [OF j(1)]
    by (simp add: fun_upd_idem_iff)
qed

lemma promote_correct:
  assumes "idx_inv x" and "li_waiting x \<noteq> []"
  shows "idx_inv (promote x) \<and> view (promote x) = view x \<and> li_now (promote x) = li_now x"
proof -
  obtain E' W' jid where p: "heap_Pop dueBefore (li_entries x, li_waiting x) = ((E', W'), jid)" by (metis prod.collapse)
  have inv: "idx_but {} x" and h: "heap_ok due_key (li_entries x, li_waiting x)"
    using assms(1) by (simp_all add: idx_inv_def idx_but_tags)
  from waiting_heap.Pop_correct [OF h assms(2) p] assms(2)
  have "heap_ok due_key (E', W')" "set W' = set (li_waiting x) - {jid}" "repositioned (set (li_waiting x)) (li_entries x) E'"
    "jid \<in> set (li_waiting x)" by auto
  from leave_waiting [OF inv this] have x1: "idx_but {jid} (with_waiting x (E', W'))" "view (with_waiting x (E', W')) = view x"
    by auto
  show ?thesis
    using push_ready_but [OF conjunct1 [OF reset_ready_but [OF x1(1), of True]]] reset_ready_but [OF x1(1), of True] x1(2)
    by (simp add: promote_def p Let_def)
qed

lemma demote_correct:
  assumes "idx_inv x" and "li_ready x \<noteq> []"
  shows "idx_inv (demote x) \<and> view (demote x) = view x \<and> li_now (demote x) = li_now x \<and>
    set (li_waiting (demote x)) = insert (li_ready x ! 0) (set (li_waiting x))"
proof -
  obtain E' R' jid where p: "heap_Pop leaseOrder (li_entries x, li_ready x) = ((E', R'), jid)" by (metis prod.collapse)
  have inv: "idx_but {} x" and h: "heap_ok lease_key (li_entries x, li_ready x)"
    using assms(1) by (simp_all add: idx_inv_def idx_but_tags)
  from ready_heap.Pop_correct [OF h assms(2) p] assms(2)
  have p': "heap_ok lease_key (E', R')" "set R' = set (li_ready x) - {jid}" "repositioned (set (li_ready x)) (li_entries x) E'"
    "jid \<in> set (li_ready x)" and j: "jid = li_ready x ! 0" by (auto simp: hd_conv_nth)
  from leave_ready [OF inv p'] have x1: "idx_but {jid} (with_ready x (E', R'))" "view (with_ready x (E', R')) = view x"
    by auto
  show ?thesis
    using push_waiting_but [OF conjunct1 [OF reset_ready_but [OF x1(1), of False]]] reset_ready_but [OF x1(1), of False] x1(2) j
    by (simp add: demote_def p Let_def)
qed

definition not_due :: "leaseIndex \<Rightarrow> time \<Rightarrow> str \<Rightarrow> bool" where
  "not_due x now jid \<longleftrightarrow> (\<exists>c d. view x jid = Some (c, d) \<and> now < d)"

lemma waiting_in: "idx_inv x \<Longrightarrow> jid \<in> set (li_waiting x) \<Longrightarrow> jid \<in> dom (li_entries x)"
  unfolding idx_inv_def idx_but_def by blast

lemma promote_due_correct:
  assumes "idx_inv x"
  shows "idx_inv (promote_due x now) \<and> view (promote_due x now) = view x \<and> li_now (promote_due x now) = li_now x \<and>
    (\<forall>jid \<in> set (li_waiting (promote_due x now)). not_due x now jid)"
  using assms
proof (induction x now rule: promote_due.induct)
  case (1 x now)
  show ?case
  proof (cases "li_waiting x \<noteq> [] \<and> \<not> ie_due (the (li_entries x (li_waiting x ! 0))) > now")
    case True
    with 1 promote_correct [OF 1(2)] show ?thesis
      by (subst (1 2 3 4) promote_due.simps) (simp add: not_due_def)
  next
    case False
    have "not_due x now jid" if j: "jid \<in> set (li_waiting x)" for jid
    proof -
      from j have "li_waiting x \<noteq> []" by auto
      with False have "now < ie_due (the (li_entries x (hd (li_waiting x))))" by (simp add: hd_conv_nth)
      also have "\<dots> \<le> ie_due (the (li_entries x jid))"
        using waiting_heap.hd_least [of "li_entries x" "li_waiting x" jid] j 1(2)
        by (auto simp: idx_inv_def idx_but_def due_key_def less_eq_prod_def)
      finally show ?thesis using view_entry [OF waiting_in [OF 1(2) j]] by (simp add: not_due_def)
    qed
    moreover have "promote_due x now = x" using False by (subst promote_due.simps) argo
    ultimately show ?thesis using 1(2) by simp
  qed
qed

text \<open>What \<open>next\<close> promises of its answer: the first job in lease order among those that are due.\<close>

definition first_of :: "(str \<Rightarrow> (time \<times> time) option) \<Rightarrow> time \<Rightarrow> str option \<Rightarrow> bool" where
  "first_of v now r \<longleftrightarrow>
     (case r of
        None \<Rightarrow> (\<forall>jid c d. v jid = Some (c, d) \<longrightarrow> now < d)
      | Some jid \<Rightarrow> (\<exists>c d. v jid = Some (c, d) \<and> d \<le> now \<and>
          (\<forall>jid' c' d'. v jid' = Some (c', d') \<and> d' \<le> now \<longrightarrow> (c, jid) \<le> (c', jid'))))"

lemma first_due_correct:
  assumes "idx_inv x" and "\<forall>jid \<in> set (li_waiting x). not_due x now jid" and "first_due x now = (x', r)"
  shows "idx_inv x' \<and> view x' = view x \<and> li_now x' = li_now x \<and> first_of (view x) now r"
  using assms
proof (induction x now rule: first_due.induct)
  case (1 x now)
  have dom: "dom (li_entries x) = set (li_waiting x) \<union> set (li_ready x)"
    and ids: "\<And>jid. jid \<in> dom (li_entries x) \<Longrightarrow> ie_id (the (li_entries x jid)) = jid"
    and h: "heap_ok lease_key (li_entries x, li_ready x)"
    using 1(2) by (auto simp: idx_inv_def idx_but_def)
  have viewed: "jid \<in> set (li_waiting x) \<or> jid \<in> set (li_ready x)" if "view x jid \<noteq> None" for jid
    using that dom by (auto simp: view_def view_of_def)
  have wait: "now < d" if "view x jid = Some (c, d)" "jid \<in> set (li_waiting x)" for jid c d
    using that 1(3) by (auto simp: not_due_def)
  show ?case
  proof (cases "li_ready x = []")
    case True
    with 1(4) have "x' = x" "r = None" by (auto simp: first_due.simps)
    with 1(2) True viewed wait show ?thesis by (fastforce simp: first_of_def)
  next
    case False
    let ?j = "li_ready x ! 0" and ?e = "the (li_entries x (li_ready x ! 0))"
    have j: "?j \<in> dom (li_entries x)" "ie_id ?e = ?j" using False dom ids by auto
    show ?thesis
    proof (cases "ie_due ?e > now")
      case True
      have step: "first_due (demote x) now = (x', r)" using 1(4) False True by (simp add: first_due.simps [of x] Let_def)
      have dm: "idx_inv (demote x)" "view (demote x) = view x" "li_now (demote x) = li_now x"
        "set (li_waiting (demote x)) = insert ?j (set (li_waiting x))"
        using demote_correct [OF 1(2) False] by auto
      have "\<forall>jid \<in> set (li_waiting (demote x)). not_due (demote x) now jid"
        using 1(3) True view_entry [OF j(1)] by (auto simp: dm(2,4) not_due_def)
      from 1(1) [OF False refl _ dm(1) this step] True dm(2,3) show ?thesis by simp
    next
      case due: False
      with 1(4) False j(2) have r: "x' = x" "r = Some ?j" by (auto simp: first_due.simps [of x] Let_def)
      have least: "(ie_createdAt ?e, ?j) \<le> (c', jid')" if v: "view x jid' = Some (c', d')" "d' \<le> now" for jid' c' d'
      proof -
        have r': "jid' \<in> set (li_ready x)" using viewed [of jid'] wait [OF v(1)] v by fastforce
        then have "jid' \<in> dom (li_entries x)" using dom by blast
        with ready_heap.hd_least [OF h r'] view_entry [of jid' x] ids [of jid'] v(1) j(2) False show ?thesis
          by (simp add: lease_key_def hd_conv_nth)
      qed
      have "first_of (view x) now r"
        using view_entry [OF j(1)] due least by (auto simp: first_of_def r)
      with r 1(2) show ?thesis by simp
    qed
  qed
qed

lemma index_next_correct:
  assumes "idx_inv x" and "index_next x now = (x', r)"
  shows "idx_inv x' \<and> view x' = view x \<and> first_of (view x) now r"
proof -
  have inv: "idx_inv (x\<lparr>li_now := now\<rparr>)" and v: "view (x\<lparr>li_now := now\<rparr>) = view x"
    using assms(1) by (simp_all add: idx_inv_def idx_but_def view_def)
  let ?y = "promote_due (x\<lparr>li_now := now\<rparr>) now"
  have y: "idx_inv ?y" "view ?y = view x" "\<forall>jid \<in> set (li_waiting ?y). not_due ?y now jid"
    using promote_due_correct [OF inv, of now] v by (auto simp: not_due_def)
  from first_due_correct [OF y(1,3)] assms(2) y(2) show ?thesis by (auto simp: index_next_def)
qed

end
