(* ===== verification/Queue.thy ===== *)
theory Queue
  imports LeaseIndex OpLog "HOL-Library.AList"
begin

text \<open>
  The job queue of \<^verbatim>\<open>internal/video/queue.go\<close>: jobs and idempotency keys in memory, made durable by a snapshot
  and a journal of one checksummed line per change. A Go map is an association list with distinct keys. The JSON
  encoders of the two file formats are the argument \<open>C\<close>; what the system calls of a commit do is an argument too,
  down to the number of bytes a failed write leaves behind.
\<close>

subsection \<open>Files and records\<close>

record queueFile =
  qf_Jobs :: "(str \<times> job) list"
  qf_IdempotencyKeys :: "(str \<times> str) list"
  qf_JournalSeq :: nat

record journalRecord =
  jr_Seq :: nat
  jr_ID :: str
  jr_Job :: job
  jr_IdempotencyKey :: str

record codec =
  enc_record :: "journalRecord \<Rightarrow> byte list option"
  dec_record :: "byte list \<Rightarrow> journalRecord option"
  enc_file :: "queueFile \<Rightarrow> byte list option"
  dec_file :: "byte list \<Rightarrow> queueFile option"

record queue =
  q_jobs :: "(str \<times> job) list"
  q_keys :: "(str \<times> str) list"
  q_index :: leaseIndex
  q_open :: bool
  q_snapshot :: "byte list option"
  q_journal :: "byte list"
  q_journalSize :: nat
  q_journalRecords :: nat
  q_seq :: nat
  q_compactMin :: nat
  q_snapshotDue :: bool

datatype queue_error = ErrNoJob | ErrLeaseOwner | ErrJobNotFound | ErrQueueClosed | ErrRequired | ErrNotDead
  | ErrCorruptJournal nat | ErrDecodeQueue | ErrMarshal | ErrQueueIO | PanicNegativeShift

definition zero_job :: job where
  "zero_job = \<lparr>j_ID = [], j_Name = [], j_SizeBytes = 0, j_IdempotencyKey = [], j_InputPath = [], j_OutputPath = [],
     j_State = OtherState [], j_Attempts = 0, j_MaxAttempts = 0, j_LeaseOwner = [], j_LeaseUntil = zero_time,
     j_NextAttempt = zero_time, j_LastError = [], j_CreatedAt = zero_time, j_UpdatedAt = zero_time\<rparr>"

definition journalCompactMin :: nat where "journalCompactMin = 1024"

subsection \<open>Committing a change\<close>

text \<open>
  What a snapshot's system calls do: nothing is renamed into place; the new file is in place but the journal is
  not known to be empty (its bytes may be gone); or everything succeeds.
\<close>

datatype snap_io = SnapFails | SnapRenamed bool | SnapDone

definition appendLocked :: "codec \<Rightarrow> disk \<Rightarrow> queue \<Rightarrow> journalRecord \<Rightarrow> queue \<times> queue_error option" where
  "appendLocked C disk q record =
     (case enc_record C record of
        None \<Rightarrow> (q\<lparr>q_snapshotDue := True\<rparr>, Some ErrMarshal)
      | Some payload \<Rightarrow>
          let line = log_line payload in
          (case disk of
             DiskOk \<Rightarrow>
               (q\<lparr>q_journal := q_journal q @ line, q_journalSize := q_journalSize q + length line,
                  q_journalRecords := q_journalRecords q + 1\<rparr>, None)
           | DiskFail n truncated \<Rightarrow>
               let written = q_journal q @ take n line in
               (q\<lparr>q_journal := (if truncated then take (q_journalSize q) written else written), q_snapshotDue := True\<rparr>,
                Some ErrQueueIO)))"

definition snapshotLocked :: "codec \<Rightarrow> snap_io \<Rightarrow> queue \<Rightarrow> queue \<times> queue_error option" where
  "snapshotLocked C io q =
     (let q = q\<lparr>q_snapshotDue := True\<rparr> in
      case enc_file C \<lparr>qf_Jobs = q_jobs q, qf_IdempotencyKeys = q_keys q, qf_JournalSeq = q_seq q\<rparr> of
        None \<Rightarrow> (q, Some ErrMarshal)
      | Some payload \<Rightarrow>
          (case io of
             SnapFails \<Rightarrow> (q, Some ErrQueueIO)
           | SnapRenamed truncated \<Rightarrow>
               (q\<lparr>q_snapshot := Some payload, q_journal := (if truncated then [] else q_journal q)\<rparr>, None)
           | SnapDone \<Rightarrow>
               (q\<lparr>q_snapshot := Some payload, q_journal := [], q_journalSize := 0, q_journalRecords := 0,
                  q_snapshotDue := False\<rparr>, None)))"

definition commitLocked :: "codec \<Rightarrow> disk \<times> snap_io \<Rightarrow> queue \<Rightarrow> str \<Rightarrow> job \<Rightarrow> str \<Rightarrow> queue \<times> queue_error option" where
  "commitLocked C io q jid j idempotencyKey =
     (if \<not> q_open q then (q, Some ErrQueueClosed)
      else
        let q = q\<lparr>q_jobs := AList.update jid j (q_jobs q), q_index := index_update (q_index q) jid j, q_seq := q_seq q + 1\<rparr> in
        if q_snapshotDue q \<or> q_journalRecords q \<ge> max (q_compactMin q) (length (q_jobs q))
        then snapshotLocked C (snd io) q
        else appendLocked C (fst io) q
               \<lparr>jr_Seq = q_seq q, jr_ID = jid, jr_Job = j, jr_IdempotencyKey = idempotencyKey\<rparr>)"

subsection \<open>Operations\<close>

definition key_of :: "queue \<Rightarrow> str \<Rightarrow> str" where
  "key_of q k = (case map_of (q_keys q) k of Some jid \<Rightarrow> jid | None \<Rightarrow> [])"

definition Get :: "queue \<Rightarrow> str \<Rightarrow> job \<times> bool" where
  "Get q jid = (case map_of (q_jobs q) jid of Some j \<Rightarrow> (j, True) | None \<Rightarrow> (zero_job, False))"

definition Create :: "codec \<Rightarrow> disk \<times> snap_io \<Rightarrow> time \<Rightarrow> queue \<Rightarrow> job \<Rightarrow> queue \<times> job \<times> bool \<times> queue_error option" where
  "Create C io now q j =
     (if key_of q (j_IdempotencyKey j) \<noteq> [] then (q, fst (Get q (key_of q (j_IdempotencyKey j))), False, None)
      else if j_ID j = [] \<or> j_IdempotencyKey j = [] \<or> j_InputPath j = [] \<or> j_OutputPath j = []
      then (q, zero_job, False, Some ErrRequired)
      else
        let j = (if j_MaxAttempts j \<le> 0 then j\<lparr>j_MaxAttempts := 5\<rparr> else j) in
        if \<not> q_open q then (q, zero_job, False, Some ErrQueueClosed)
        else
          let j = j\<lparr>j_State := Queued, j_CreatedAt := now, j_UpdatedAt := now\<rparr>;
              q = q\<lparr>q_keys := AList.update (j_IdempotencyKey j) (j_ID j) (q_keys q)\<rparr> in
          (case commitLocked C io q (j_ID j) j (j_IdempotencyKey j) of
             (q, Some e) \<Rightarrow>
               (q\<lparr>q_jobs := AList.delete (j_ID j) (q_jobs q), q_keys := AList.delete (j_IdempotencyKey j) (q_keys q),
                  q_index := index_remove (q_index q) (j_ID j)\<rparr>, zero_job, False, Some e)
           | (q, None) \<Rightarrow> (q, j, True, None)))"

definition Lease :: "codec \<Rightarrow> disk \<times> snap_io \<Rightarrow> time \<Rightarrow> queue \<Rightarrow> str \<Rightarrow> int \<Rightarrow> queue \<times> job \<times> queue_error option" where
  "Lease C io now q owner duration =
     (case index_next (q_index q) now of
        (x, None) \<Rightarrow> (q\<lparr>q_index := x\<rparr>, zero_job, Some ErrNoJob)
      | (x, Some jid) \<Rightarrow>
          let q = q\<lparr>q_index := x\<rparr>; j = fst (Get q jid);
              j = j\<lparr>j_State := Leased, j_Attempts := j_Attempts j + 1, j_LeaseOwner := owner,
                j_LeaseUntil := now + duration, j_UpdatedAt := now\<rparr>
          in (case commitLocked C io q jid j [] of
                (q, Some e) \<Rightarrow> (q, zero_job, Some e)
              | (q, None) \<Rightarrow> (q, j, None)))"

definition owns :: "job \<Rightarrow> str \<Rightarrow> time \<Rightarrow> bool" where
  "owns j owner now \<longleftrightarrow> j_State j = Leased \<and> j_LeaseOwner j = owner \<and> j_LeaseUntil j > now"

definition ownedLocked :: "time \<Rightarrow> queue \<Rightarrow> str \<Rightarrow> str \<Rightarrow> job \<times> queue_error option" where
  "ownedLocked now q jid owner =
     (case map_of (q_jobs q) jid of
        None \<Rightarrow> (zero_job, Some ErrJobNotFound)
      | Some j \<Rightarrow> if \<not> owns j owner now then (zero_job, Some ErrLeaseOwner) else (j, None))"

definition commit_job :: "codec \<Rightarrow> disk \<times> snap_io \<Rightarrow> queue \<Rightarrow> str \<Rightarrow> job \<Rightarrow> queue \<times> job \<times> queue_error option" where
  "commit_job C io q jid j = (case commitLocked C io q jid j [] of (q, e) \<Rightarrow> (q, j, e))"

definition Heartbeat :: "codec \<Rightarrow> disk \<times> snap_io \<Rightarrow> time \<Rightarrow> queue \<Rightarrow> str \<Rightarrow> str \<Rightarrow> int \<Rightarrow> queue \<times> job \<times> queue_error option" where
  "Heartbeat C io now q jid owner duration =
     (case map_of (q_jobs q) jid of
        None \<Rightarrow> (q, zero_job, Some ErrJobNotFound)
      | Some j \<Rightarrow>
          if \<not> owns j owner now then (q, zero_job, Some ErrLeaseOwner)
          else commit_job C io q jid (j\<lparr>j_LeaseUntil := now + duration, j_UpdatedAt := now\<rparr>))"

definition Complete :: "codec \<Rightarrow> disk \<times> snap_io \<Rightarrow> time \<Rightarrow> queue \<Rightarrow> str \<Rightarrow> str \<Rightarrow> queue \<times> job \<times> queue_error option" where
  "Complete C io now q jid owner =
     (case ownedLocked now q jid owner of
        (_, Some e) \<Rightarrow> (q, zero_job, Some e)
      | (j, None) \<Rightarrow>
          commit_job C io q jid
            (j\<lparr>j_State := Completed, j_LeaseOwner := [], j_LastError := [], j_LeaseUntil := zero_time, j_UpdatedAt := now\<rparr>))"

text \<open>\<^verbatim>\<open>baseDelay * time.Duration(1<<shift)\<close> on 64-bit durations; a negative shift count panics.\<close>

definition mul64 :: "int \<Rightarrow> int \<Rightarrow> int" where "mul64 a b = signed_take_bit 63 (a * b)"

definition backoff :: "int \<Rightarrow> int \<Rightarrow> int option" where
  "backoff baseDelay attempts =
     (let shift = min (attempts - 1) 10 in if shift < 0 then None else Some (mul64 baseDelay (2 ^ nat shift)))"

definition Fail :: "codec \<Rightarrow> disk \<times> snap_io \<Rightarrow> time \<Rightarrow> queue \<Rightarrow> str \<Rightarrow> str \<Rightarrow> str \<Rightarrow> int \<Rightarrow> queue \<times> job \<times> queue_error option" where
  "Fail C io now q jid owner message baseDelay =
     (case ownedLocked now q jid owner of
        (_, Some e) \<Rightarrow> (q, zero_job, Some e)
      | (j, None) \<Rightarrow>
          let j = j\<lparr>j_LeaseOwner := [], j_LeaseUntil := zero_time, j_UpdatedAt := now, j_LastError := message\<rparr> in
          if j_Attempts j \<ge> j_MaxAttempts j then commit_job C io q jid (j\<lparr>j_State := Dead\<rparr>)
          else (case backoff baseDelay (j_Attempts j) of
                  None \<Rightarrow> (q, zero_job, Some PanicNegativeShift)
                | Some delay \<Rightarrow> commit_job C io q jid (j\<lparr>j_State := Queued, j_NextAttempt := now + delay\<rparr>)))"

definition ReplayDead :: "codec \<Rightarrow> disk \<times> snap_io \<Rightarrow> time \<Rightarrow> queue \<Rightarrow> str \<Rightarrow> queue \<times> job \<times> queue_error option" where
  "ReplayDead C io now q jid =
     (case map_of (q_jobs q) jid of
        None \<Rightarrow> (q, zero_job, Some ErrJobNotFound)
      | Some j \<Rightarrow>
          if j_State j \<noteq> Dead then (q, zero_job, Some ErrNotDead)
          else commit_job C io q jid
            (j\<lparr>j_State := Queued, j_Attempts := 0, j_LastError := [], j_NextAttempt := zero_time, j_UpdatedAt := now\<rparr>))"

text \<open>
  \<open>List\<close> sorts by creation time, newest first. \<^verbatim>\<open>sort.Slice\<close> is not stable and map iteration has no order:
  the outcomes are the stable sorts of the enumerations \<open>js\<close> of the jobs.
\<close>

definition List_jobs :: "job list \<Rightarrow> job list" where
  "List_jobs js = sort_key (\<lambda>j. - j_CreatedAt j) js"

definition Close :: "queue \<Rightarrow> queue" where "Close q = q\<lparr>q_open := False\<rparr>"

subsection \<open>Opening\<close>

definition checkJournalLine :: "byte list \<Rightarrow> byte list option" where "checkJournalLine = checkLine"

definition replay_record :: "nat \<Rightarrow> queue \<Rightarrow> journalRecord \<Rightarrow> queue" where
  "replay_record snapshotSeq q r =
     (let q = (if jr_Seq r > snapshotSeq then
           q\<lparr>q_jobs := AList.update (jr_ID r) (jr_Job r) (q_jobs q),
             q_keys := (if jr_IdempotencyKey r \<noteq> [] then AList.update (jr_IdempotencyKey r) (jr_ID r) (q_keys q) else q_keys q),
             q_seq := max (q_seq q) (jr_Seq r)\<rparr>
         else q)
      in q\<lparr>q_journalRecords := q_journalRecords q + 1\<rparr>)"

function replayJournal :: "codec \<Rightarrow> nat \<Rightarrow> byte list \<Rightarrow> queue \<Rightarrow> nat \<Rightarrow> (queue_error, queue \<times> nat) result" where
  "replayJournal C snapshotSeq bytes q offset =
     (case ReadBytes bytes of
        None \<Rightarrow> Inr (q, offset)
      | Some (line, rest) \<Rightarrow>
          (case checkJournalLine line of
             None \<Rightarrow> if rest = [] then Inr (q, offset) else Inl (ErrCorruptJournal offset)
           | Some payload \<Rightarrow>
               (case dec_record C payload of
                  None \<Rightarrow> Inl (ErrCorruptJournal offset)
                | Some r \<Rightarrow>
                    if jr_ID r = [] then Inl (ErrCorruptJournal offset)
                    else replayJournal C snapshotSeq rest (replay_record snapshotSeq q r) (offset + length line + 1))))"
  by pat_completeness auto
termination
  by (relation "measure (\<lambda>(C, s, bytes, q, offset). length bytes)") (auto dest: ReadBytes_length)

declare replayJournal.simps [simp del]

definition openJournal :: "codec \<Rightarrow> queue \<Rightarrow> bool \<Rightarrow> (queue_error, queue) result" where
  "openJournal C q replay =
     rbind (if replay then replayJournal C (q_seq q) (q_journal q) q 0 else Inr (q, 0)) (\<lambda>(q, valid).
       Inr (q\<lparr>q_journal := (if length (q_journal q) \<noteq> valid then take valid (q_journal q) else q_journal q),
              q_open := True, q_journalSize := valid\<rparr>))"

text \<open>The argument \<open>io\<close> says whether the system calls succeed.\<close>

definition OpenQueue :: "codec \<Rightarrow> bool \<Rightarrow> byte list option \<Rightarrow> byte list \<Rightarrow> (queue_error, queue) result" where
  "OpenQueue C io snapshot journal =
     (if \<not> io then Inl ErrQueueIO
      else
        let q = \<lparr>q_jobs = [], q_keys = [], q_index = newLeaseIndex, q_open = False, q_snapshot = snapshot, q_journal = journal,
                 q_journalSize = 0, q_journalRecords = 0, q_seq = 0, q_compactMin = journalCompactMin, q_snapshotDue = False\<rparr> in
        rbind (case snapshot of
                 None \<Rightarrow> Inr q
               | Some payload \<Rightarrow>
                   (case dec_file C payload of
                      None \<Rightarrow> Inl ErrDecodeQueue
                    | Some stored \<Rightarrow> Inr (q\<lparr>q_jobs := qf_Jobs stored, q_keys := qf_IdempotencyKeys stored,
                        q_seq := qf_JournalSeq stored\<rparr>)))
          (\<lambda>q. let q = q\<lparr>q_snapshotDue := (q_seq q = 0)\<rparr> in
             rbind (openJournal C q (\<not> q_snapshotDue q)) (\<lambda>q.
               Inr (q\<lparr>q_index := foldl (\<lambda>x (jid, j). index_update x jid j) (q_index q) (q_jobs q)\<rparr>))))"

end
