(* ===== verification/QueueProps.thy ===== *)
theory QueueProps
  imports Queue
begin

text \<open>
  What the job queue guarantees: the index always describes the jobs, a lease goes to the first job that is
  due and to nobody else while it lasts, and an acknowledged change is found again after a crash.
\<close>

subsection \<open>The index describes the jobs\<close>

definition queue_inv :: "queue \<Rightarrow> bool" where
  "queue_inv q \<longleftrightarrow> idx_inv (q_index q) \<and> view (q_index q) = (\<lambda>jid. Option.bind (map_of (q_jobs q) jid) filed) \<and>
     distinct (map fst (q_jobs q)) \<and> [] \<notin> fst ` set (q_jobs q)"

lemma alist_simps [simp]:
  "map_of (AList.update k v xs) = (map_of xs)(k \<mapsto> v)"
  "map_of (AList.delete k xs) = (map_of xs)(k := None)"
  "fst ` set (AList.update k v xs) = insert k (fst ` set xs)"
  "distinct (map fst xs) \<Longrightarrow> distinct (map fst (AList.update k v xs))"
  by (simp_all add: update_conv' delete_conv' dom_update distinct_update)

lemma delete_keys_simps [simp]:
  "fst ` set (AList.delete k xs) = fst ` set xs - {k}"
  "distinct (map fst xs) \<Longrightarrow> distinct (map fst (AList.delete k xs))"
  by (auto simp: AList.delete_eq filter_map distinct_map inj_on_def)

lemma snapshot_fields:
  "snapshotLocked C io q = (q', e) \<Longrightarrow>
     q_jobs q' = q_jobs q \<and> q_keys q' = q_keys q \<and> q_index q' = q_index q \<and> q_seq q' = q_seq q \<and> q_open q' = q_open q"
  by (auto simp: snapshotLocked_def Let_def split: option.splits snap_io.splits)

lemma append_fields:
  "appendLocked C d q r = (q', e) \<Longrightarrow>
     q_jobs q' = q_jobs q \<and> q_keys q' = q_keys q \<and> q_index q' = q_index q \<and> q_seq q' = q_seq q \<and> q_open q' = q_open q"
  by (auto simp: appendLocked_def Let_def split: option.splits disk.splits)

lemma commit_fields:
  assumes "commitLocked C io q jid j k = (q', e)" and "q_open q"
  shows "q_jobs q' = AList.update jid j (q_jobs q) \<and> q_keys q' = q_keys q \<and>
    q_index q' = index_update (q_index q) jid j \<and> q_seq q' = q_seq q + 1 \<and> q_open q'"
  using assms by (auto simp: commitLocked_def Let_def split: if_splits dest!: snapshot_fields append_fields)

lemma commit_closed: "\<not> q_open q \<Longrightarrow> commitLocked C io q jid j k = (q, Some ErrQueueClosed)"
  by (simp add: commitLocked_def)

lemma commit_inv:
  assumes "queue_inv q" and "jid \<noteq> []" and "commitLocked C io q jid j k = (q', e)"
  shows "queue_inv q'"
proof (cases "q_open q")
  case True
  from commit_fields [OF assms(3) True] assms(1,2) index_update_correct [of "q_index q" jid j] show ?thesis
    by (auto simp: queue_inv_def)
next
  case False
  with assms(1,3) show ?thesis by (simp add: commit_closed)
qed

lemma commit_job_inv:
  "queue_inv q \<Longrightarrow> jid \<noteq> [] \<Longrightarrow> queue_inv (fst (commit_job C io q jid j))"
  by (cases "commitLocked C io q jid j []") (simp add: commit_job_def commit_inv)

lemma stored_id: "queue_inv q \<Longrightarrow> map_of (q_jobs q) jid = Some j \<Longrightarrow> jid \<noteq> []"
  by (force simp: queue_inv_def dest: map_of_SomeD)

text \<open>What a request does to the queue, and whether it fails.\<close>

datatype request = ReqCreate job | ReqLease str int | ReqHeartbeat str str int | ReqComplete str str
  | ReqFail str str str int | ReqReplayDead str

definition serve :: "codec \<Rightarrow> disk \<times> snap_io \<Rightarrow> time \<Rightarrow> queue \<Rightarrow> request \<Rightarrow> queue \<times> queue_error option" where
  "serve C io now q req =
     (case req of
        ReqCreate j \<Rightarrow> (case Create C io now q j of (q, _, _, e) \<Rightarrow> (q, e))
      | ReqLease owner duration \<Rightarrow> (case Lease C io now q owner duration of (q, _, e) \<Rightarrow> (q, e))
      | ReqHeartbeat jid owner duration \<Rightarrow> (case Heartbeat C io now q jid owner duration of (q, _, e) \<Rightarrow> (q, e))
      | ReqComplete jid owner \<Rightarrow> (case Complete C io now q jid owner of (q, _, e) \<Rightarrow> (q, e))
      | ReqFail jid owner message delay \<Rightarrow> (case Fail C io now q jid owner message delay of (q, _, e) \<Rightarrow> (q, e))
      | ReqReplayDead jid \<Rightarrow> (case ReplayDead C io now q jid of (q, _, e) \<Rightarrow> (q, e)))"

text \<open>Every request changes the queue by at most one commit.\<close>

definition with_key :: "str \<Rightarrow> str \<Rightarrow> queue \<Rightarrow> queue" where
  "with_key k jid q = (if k = [] then q else q\<lparr>q_keys := AList.update k jid (q_keys q)\<rparr>)"

definition rolled_back :: "str \<Rightarrow> str \<Rightarrow> queue \<Rightarrow> queue" where
  "rolled_back k jid q = q\<lparr>q_jobs := AList.delete jid (q_jobs q), q_keys := AList.delete k (q_keys q),
     q_index := index_remove (q_index q) jid\<rparr>"

definition with_index :: "leaseIndex \<Rightarrow> queue \<Rightarrow> queue" where "with_index x q = q\<lparr>q_index := x\<rparr>"

lemma Lease_cases:
  assumes "queue_inv q" and "Lease C io now q owner duration = (q', j', e)"
  obtains x where "q' = with_index x q" "queue_inv (with_index x q)" "e = Some ErrNoJob" "first_of (view (q_index q)) now None"
  | x jid j where "map_of (q_jobs q) jid = Some j" "queue_inv (with_index x q)" "first_of (view (q_index q)) now (Some jid)"
      "commitLocked C io (with_index x q) jid (j\<lparr>j_State := Leased, j_Attempts := j_Attempts j + 1, j_LeaseOwner := owner,
         j_LeaseUntil := now + duration, j_UpdatedAt := now\<rparr>) [] = (q', e)"
      "j' = (if e = None then j\<lparr>j_State := Leased, j_Attempts := j_Attempts j + 1, j_LeaseOwner := owner,
         j_LeaseUntil := now + duration, j_UpdatedAt := now\<rparr> else zero_job)"
proof -
  obtain x r where n: "index_next (q_index q) now = (x, r)" by (cases "index_next (q_index q) now")
  from assms(1) have "idx_inv (q_index q)" by (simp add: queue_inv_def)
  from index_next_correct [OF this n] have x: "idx_inv x" "view x = view (q_index q)" "first_of (view (q_index q)) now r"
    by auto
  with assms(1) have inv: "queue_inv (with_index x q)" by (simp add: queue_inv_def with_index_def)
  show thesis
  proof (cases r)
    case None
    with assms(2) n x inv show thesis by (intro that(1) [of x]) (auto simp: Lease_def with_index_def)
  next
    case (Some jid)
    from x(3) Some obtain c d where "view (q_index q) jid = Some (c, d)" by (auto simp: first_of_def)
    with assms(1) obtain j where j: "map_of (q_jobs q) jid = Some j"
      by (auto simp: queue_inv_def bind_eq_Some_conv)
    let ?j = "j\<lparr>j_State := Leased, j_Attempts := j_Attempts j + 1, j_LeaseOwner := owner,
         j_LeaseUntil := now + duration, j_UpdatedAt := now\<rparr>"
    obtain q1 e1 where c: "commitLocked C io (with_index x q) jid ?j [] = (q1, e1)"
      by (cases "commitLocked C io (with_index x q) jid ?j []")
    with assms(2) n Some j have "q' = q1" "e = e1" "j' = (if e1 = None then ?j else zero_job)"
      by (auto simp: Lease_def Get_def with_index_def split: option.splits)
    with c j x(3) Some inv show thesis by (intro that(2) [of jid j x]) auto
  qed
qed

text \<open>
  A request changes nothing but the order inside the index, or commits one job, the same one whatever the writes do; a failed
  \<open>Create\<close> is taken back.
\<close>

definition commit_outcome :: "codec \<Rightarrow> disk \<times> snap_io \<Rightarrow> queue \<Rightarrow> str \<Rightarrow> job \<Rightarrow> str \<Rightarrow> queue \<times> queue_error option" where
  "commit_outcome C io q jid j k =
     (case commitLocked C io (with_key k jid q) jid j k of (q1, e) \<Rightarrow> (if e \<noteq> None \<and> k \<noteq> [] then rolled_back k jid q1 else q1, e))"

lemma serve_plan:
  assumes "queue_inv q"
  obtains x e where "queue_inv (with_index x q)" "\<And>io. serve C io now q req = (with_index x q, e)"
  | x jid j k where "q_open q" "jid \<noteq> []" "queue_inv (with_index x q)" "\<And>io. serve C io now q req = commit_outcome C io (with_index x q) jid j k"
proof -
  note ends = that
  have same: "with_index (q_index q) q = q" by (simp add: with_index_def)
  have unchanged: thesis if "\<And>io. serve C io now q req = (q, e)" for e using ends(1) [of "q_index q" e] that assms(1) by (simp add: same)
  have one: thesis if c: "\<And>io. serve C io now q req = commitLocked C io (with_index x q) jid j []" "jid \<noteq> []" and inv: "queue_inv (with_index x q)" for x jid j
  proof (cases "q_open q")
    case True
    show thesis using ends(2) [OF True c(2) inv, of j "[]"] c(1) by (simp add: commit_outcome_def with_key_def)
  next
    case False
    then have "commitLocked C io (with_index x q) jid j [] = (with_index x q, Some ErrQueueClosed)" for io
      by (simp add: commit_closed with_index_def)
    then show thesis using ends(1) [OF inv] c(1) by simp
  qed
  have job: thesis if "\<And>io. serve C io now q req = (case commit_job C io q jid j of (q, _, e) \<Rightarrow> (q, e))" "map_of (q_jobs q) jid = Some j0" for jid j j0
    using that one [of "q_index q" jid j] stored_id [OF assms(1) that(2)] assms(1)
    by (simp add: commit_job_def same split: prod.splits)
  show thesis
  proof (cases req)
    case (ReqCreate j)
    show thesis
    proof (cases "key_of q (j_IdempotencyKey j) \<noteq> [] \<or> j_ID j = [] \<or> j_IdempotencyKey j = [] \<or> j_InputPath j = [] \<or>
        j_OutputPath j = [] \<or> \<not> q_open q")
      case True
      then have "serve C io now q req = (q, snd (serve C (DiskOk, SnapDone) now q req))" for io
        using ReqCreate by (auto simp: serve_def Create_def Let_def)
      then show thesis by (rule unchanged)
    next
      case False
      define j1 where "j1 = (if j_MaxAttempts j \<le> 0 then j\<lparr>j_MaxAttempts := 5\<rparr> else j)
        \<lparr>j_State := Queued, j_CreatedAt := now, j_UpdatedAt := now\<rparr>"
      have "serve C io now q req = commit_outcome C io q (j_ID j) j1 (j_IdempotencyKey j)" for io
        using False ReqCreate
        by (cases "j_MaxAttempts j \<le> 0") (simp_all add: serve_def Create_def Let_def with_key_def rolled_back_def j1_def commit_outcome_def split: option.split prod.split)
      with False assms(1) show thesis by (intro ends(2) [of "j_ID j" "q_index q" j1 "j_IdempotencyKey j"]) (simp_all add: same)
    qed
  next
    case (ReqLease owner duration)
    obtain x r where n: "index_next (q_index q) now = (x, r)" by (cases "index_next (q_index q) now")
    from assms(1) have "idx_inv (q_index q)" by (simp add: queue_inv_def)
    from index_next_correct [OF this n] have x: "idx_inv x" "view x = view (q_index q)" "first_of (view (q_index q)) now r" by auto
    with assms(1) have inv: "queue_inv (with_index x q)" by (simp add: queue_inv_def with_index_def)
    show thesis
    proof (cases r)
      case None
      then show thesis using n inv ReqLease by (intro ends(1) [of x "Some ErrNoJob"]) (simp_all add: serve_def Lease_def with_index_def)
    next
      case (Some jid)
      from x(3) Some obtain c d where "view (q_index q) jid = Some (c, d)" by (auto simp: first_of_def)
      with assms(1) obtain j where j: "map_of (q_jobs q) jid = Some j" by (auto simp: queue_inv_def bind_eq_Some_conv)
      show thesis
        by (rule one [of x jid "j\<lparr>j_State := Leased, j_Attempts := j_Attempts j + 1, j_LeaseOwner := owner, j_LeaseUntil := now + duration,
            j_UpdatedAt := now\<rparr>"])
          (use n Some j inv ReqLease stored_id [OF assms(1) j] in
            \<open>simp_all add: serve_def Lease_def Get_def with_index_def Let_def split: option.split prod.split\<close>)
    qed
  next
    case (ReqHeartbeat jid owner duration)
    show thesis
    proof (cases "map_of (q_jobs q) jid")
      case None
      then show thesis using ReqHeartbeat unchanged by (simp add: serve_def Heartbeat_def)
    next
      case (Some j)
      then show thesis using ReqHeartbeat job [OF _ Some] unchanged by (cases "owns j owner now") (simp_all add: serve_def Heartbeat_def)
    qed
  next
    case (ReqComplete jid owner)
    show thesis
    proof (cases "map_of (q_jobs q) jid")
      case None
      then show thesis using ReqComplete unchanged by (simp add: serve_def Complete_def ownedLocked_def)
    next
      case (Some j)
      then show thesis using ReqComplete job [OF _ Some] unchanged
        by (cases "owns j owner now") (simp_all add: serve_def Complete_def ownedLocked_def)
    qed
  next
    case (ReqFail jid owner message delay)
    show thesis
    proof (cases "map_of (q_jobs q) jid")
      case None
      then show thesis using ReqFail unchanged by (simp add: serve_def Fail_def ownedLocked_def)
    next
      case (Some j)
      consider "\<not> owns j owner now" | "owns j owner now" "j_Attempts j \<ge> j_MaxAttempts j" | "owns j owner now" "j_Attempts j < j_MaxAttempts j" by fastforce
      then show thesis
      proof cases
        case 3
        then show thesis using ReqFail Some job [OF _ Some] unchanged
          by (cases "backoff delay (j_Attempts j)") (simp_all add: serve_def Fail_def ownedLocked_def Let_def)
      qed (use ReqFail Some job [OF _ Some] unchanged in \<open>simp_all add: serve_def Fail_def ownedLocked_def Let_def\<close>)
    qed
  next
    case (ReqReplayDead jid)
    show thesis
    proof (cases "map_of (q_jobs q) jid")
      case None
      then show thesis using ReqReplayDead unchanged by (simp add: serve_def ReplayDead_def)
    next
      case (Some j)
      then show thesis using ReqReplayDead job [OF _ Some] unchanged by (cases "j_State j = Dead") (simp_all add: serve_def ReplayDead_def)
    qed
  qed
qed

lemma with_key_inv [simp]: "queue_inv (with_key k jid q) = queue_inv q" "q_open (with_key k jid q) = q_open q"
  by (simp_all add: with_key_def queue_inv_def)

lemma rolled_back_inv: "queue_inv q \<Longrightarrow> queue_inv (rolled_back k jid q)"
  using index_remove_correct [of "q_index q" jid] by (auto simp: queue_inv_def rolled_back_def)

lemma serve_inv:
  assumes "queue_inv q" and "serve C io now q req = (q', e)"
  shows "queue_inv q'"
proof (cases rule: serve_plan [OF assms(1), of C now req])
  case (1 x e)
  then show ?thesis using assms(2) by simp
next
  case (2 x jid j k)
  obtain q1 e1 where c: "commitLocked C io (with_key k jid (with_index x q)) jid j k = (q1, e1)" by fastforce
  have "queue_inv q1" by (rule commit_inv [OF _ 2(2) c]) (simp add: 2(3))
  then show ?thesis using assms(2) 2(4) c by (auto simp: commit_outcome_def rolled_back_inv split: if_splits)
qed

subsection \<open>Durability\<close>

text \<open>
  What the code relies on of the JSON package: what it encodes it decodes again, the entries of a map in any order; a record's encoding is
  one line that is not empty. A decoded map, as any Go map, has each key once: \<open>go_maps\<close>.
\<close>

definition codec_ok :: "codec \<Rightarrow> bool" where
  "codec_ok C \<longleftrightarrow> (\<forall>r p. enc_record C r = Some p \<longrightarrow> dec_record C p = Some r \<and> payload_ok p) \<and>
     (\<forall>f p. enc_file C f = Some p \<longrightarrow> (\<exists>f'. dec_file C p = Some f' \<and> map_of (qf_Jobs f') = map_of (qf_Jobs f) \<and>
        map_of (qf_IdempotencyKeys f') = map_of (qf_IdempotencyKeys f) \<and> qf_JournalSeq f' = qf_JournalSeq f))"

definition go_maps :: "codec \<Rightarrow> bool" where
  "go_maps C \<longleftrightarrow> (\<forall>f p. dec_file C p = Some f \<longrightarrow> distinct (map fst (qf_Jobs f)))"

text \<open>The contents of a queue: its jobs, its keys, and how many changes led there.\<close>

type_synonym contents = "(str \<rightharpoonup> job) \<times> (str \<rightharpoonup> str) \<times> nat"

definition contents :: "queue \<Rightarrow> contents" where
  "contents q = (map_of (q_jobs q), map_of (q_keys q), q_seq q)"

definition recover :: "codec \<Rightarrow> queue \<Rightarrow> contents option" where
  "recover C q = (case OpenQueue C True (q_snapshot q) (q_journal q) of Inl _ \<Rightarrow> None | Inr q' \<Rightarrow> Some (contents q'))"

text \<open>The abstract meaning of the files: the records newer than the snapshot, over the snapshot.\<close>

definition replay_contents :: "nat \<Rightarrow> contents \<Rightarrow> journalRecord \<Rightarrow> contents" where
  "replay_contents s c r = (case c of (J, K, n) \<Rightarrow>
     if jr_Seq r > s
     then (J(jr_ID r \<mapsto> jr_Job r), if jr_IdempotencyKey r \<noteq> [] then K(jr_IdempotencyKey r \<mapsto> jr_ID r) else K, max n (jr_Seq r))
     else c)"

lemma contents_replay: "contents (replay_record s q r) = replay_contents s (contents q) r"
  by (simp add: contents_def replay_record_def replay_contents_def Let_def)

lemma contents_replays: "contents (foldl (replay_record s) q rs) = foldl (replay_contents s) (contents q) rs"
  by (induction rs arbitrary: q) (simp_all add: contents_replay)

definition journal_bytes :: "codec \<Rightarrow> journalRecord list \<Rightarrow> byte list" where
  "journal_bytes C rs = log_file (map (\<lambda>r. the (enc_record C r)) rs)"

definition journal_ok :: "codec \<Rightarrow> byte list \<Rightarrow> journalRecord list \<Rightarrow> byte list \<Rightarrow> bool" where
  "journal_ok C bytes rs torn \<longleftrightarrow> bytes = journal_bytes C rs @ torn \<and> newline \<notin> set torn \<and>
     (\<forall>r \<in> set rs. enc_record C r \<noteq> None \<and> jr_ID r \<noteq> [])"

lemma ReadBytes_log_line:
  assumes "payload_ok p"
  shows "ReadBytes (log_line p @ rest) = Some (hex8 (ChecksumIEEE p) @ space # p, rest)"
proof -
  have "newline \<notin> set (hex8 (ChecksumIEEE p) @ space # p)"
    using assms hex8_no_newline by (auto simp: payload_ok_def space_def newline_def)
  from ReadBytes_line [OF this] show ?thesis by (simp add: log_line_def)
qed

lemma replayJournal_record:
  assumes "codec_ok C" and "enc_record C r = Some p" and "jr_ID r \<noteq> []"
  shows "replayJournal C s (log_line p @ rest) q n =
    replayJournal C s rest (replay_record s q r) (n + length (log_line p))"
proof -
  have p: "payload_ok p" "dec_record C p = Some r" using assms(1,2) by (auto simp: codec_ok_def)
  show ?thesis
    by (subst replayJournal.simps, simp only: ReadBytes_log_line [OF p(1)])
      (simp add: checkJournalLine_def checkLine_log_line [OF p(1)] p(2) assms(3) log_line_def add_ac)
qed

lemma replayJournal_records:
  assumes "codec_ok C" and "newline \<notin> set torn" and "\<forall>r \<in> set rs. enc_record C r \<noteq> None \<and> jr_ID r \<noteq> []"
  shows "replayJournal C s (journal_bytes C rs @ torn) q n =
    Inr (foldl (replay_record s) q rs, n + length (journal_bytes C rs))"
  using assms(3)
proof (induction rs arbitrary: q n)
  case Nil
  have "ReadBytes torn = None" using assms(2) by (simp add: ReadBytes_none)
  then show ?case by (simp add: journal_bytes_def) (subst replayJournal.simps, simp)
next
  case (Cons r rs)
  then obtain p where "enc_record C r = Some p" "jr_ID r \<noteq> []" by auto
  with replayJournal_record [OF assms(1) this] Cons show ?case
    by (simp add: journal_bytes_def add.assoc)
qed

text \<open>The snapshot file and what it says; without one there are no jobs.\<close>

definition snapshot_says :: "codec \<Rightarrow> byte list option \<Rightarrow> queueFile \<Rightarrow> bool" where
  "snapshot_says C snap f \<longleftrightarrow>
     (case snap of None \<Rightarrow> f = \<lparr>qf_Jobs = [], qf_IdempotencyKeys = [], qf_JournalSeq = 0\<rparr> | Some p \<Rightarrow> dec_file C p = Some f)"

definition file_contents :: "queueFile \<Rightarrow> contents" where
  "file_contents f = (map_of (qf_Jobs f), map_of (qf_IdempotencyKeys f), qf_JournalSeq f)"

definition recovered :: "queueFile \<Rightarrow> journalRecord list \<Rightarrow> contents" where
  "recovered f rs = (if qf_JournalSeq f = 0 then file_contents f
     else foldl (replay_contents (qf_JournalSeq f)) (file_contents f) rs)"

lemma contents_index [simp]: "contents (q\<lparr>q_index := x\<rparr>) = contents q"
  by (simp add: contents_def)

lemma replay_record_files [simp]:
  "q_journal (replay_record s q r) = q_journal q" "q_snapshot (replay_record s q r) = q_snapshot q"
  "q_index (replay_record s q r) = q_index q" "q_snapshotDue (replay_record s q r) = q_snapshotDue q"
  "q_compactMin (replay_record s q r) = q_compactMin q"
  by (simp_all add: replay_record_def Let_def)

lemma foldl_replay_files [simp]:
  "q_journal (foldl (replay_record s) q rs) = q_journal q" "q_snapshot (foldl (replay_record s) q rs) = q_snapshot q"
  "q_index (foldl (replay_record s) q rs) = q_index q" "q_snapshotDue (foldl (replay_record s) q rs) = q_snapshotDue q"
  by (induction rs arbitrary: q) simp_all

definition loaded :: "queueFile \<Rightarrow> byte list option \<Rightarrow> byte list \<Rightarrow> queue" where
  "loaded f snap bytes = \<lparr>q_jobs = qf_Jobs f, q_keys = qf_IdempotencyKeys f, q_index = newLeaseIndex, q_open = False,
    q_snapshot = snap, q_journal = bytes, q_journalSize = 0, q_journalRecords = 0, q_seq = qf_JournalSeq f,
    q_compactMin = journalCompactMin, q_snapshotDue = (qf_JournalSeq f = 0)\<rparr>"

definition rebuilt :: "queue \<Rightarrow> queue" where
  "rebuilt q = q\<lparr>q_index := foldl (\<lambda>x (jid, j). index_update x jid j) (q_index q) (q_jobs q)\<rparr>"

lemma OpenQueue_loaded:
  "snapshot_says C snap f \<Longrightarrow> OpenQueue C True snap bytes =
     rbind (openJournal C (loaded f snap bytes) (qf_JournalSeq f \<noteq> 0)) (\<lambda>q. Inr (rebuilt q))"
  by (cases snap) (simp_all add: OpenQueue_def snapshot_says_def loaded_def rebuilt_def Let_def)

lemma open_recovers:
  assumes "codec_ok C" and "snapshot_says C snap f" and "journal_ok C bytes rs torn"
  shows "\<exists>q. OpenQueue C True snap bytes = Inr q \<and> contents q = recovered f rs \<and> q_open q \<and> q_snapshot q = snap \<and>
    q_snapshotDue q = (qf_JournalSeq f = 0) \<and>
    q_journal q = (if qf_JournalSeq f = 0 then [] else journal_bytes C rs) \<and> q_journalSize q = length (q_journal q)"
proof -
  define q0 where "q0 = loaded f snap bytes"
  have op: "OpenQueue C True snap bytes = rbind (openJournal C q0 (qf_JournalSeq f \<noteq> 0)) (\<lambda>q. Inr (rebuilt q))"
    using OpenQueue_loaded [OF assms(2)] by (simp add: q0_def)
  have c0: "contents q0 = file_contents f" by (simp add: q0_def loaded_def contents_def file_contents_def)
  have b: "bytes = journal_bytes C rs @ torn" using assms(3) by (simp add: journal_ok_def)
  show ?thesis
  proof (cases "qf_JournalSeq f = 0")
    case True
    then have "openJournal C q0 (qf_JournalSeq f \<noteq> 0) = Inr (q0\<lparr>q_journal := [], q_open := True, q_journalSize := 0\<rparr>)"
      by (auto simp: openJournal_def q0_def loaded_def)
    with op c0 True show ?thesis by (simp add: recovered_def contents_def q0_def loaded_def rebuilt_def file_contents_def)
  next
    case False
    have "replayJournal C (q_seq q0) (q_journal q0) q0 0 = Inr (foldl (replay_record (q_seq q0)) q0 rs, length (journal_bytes C rs))"
      using replayJournal_records [OF assms(1), of torn rs] assms(3) b by (simp add: journal_ok_def q0_def loaded_def)
    then have oj: "openJournal C q0 (qf_JournalSeq f \<noteq> 0) = Inr ((foldl (replay_record (q_seq q0)) q0 rs)
        \<lparr>q_journal := journal_bytes C rs, q_open := True, q_journalSize := length (journal_bytes C rs)\<rparr>)"
      using False b by (simp add: openJournal_def q0_def loaded_def)
    have "contents (foldl (replay_record (q_seq q0)) q0 rs) = recovered f rs"
      using False by (simp add: contents_replays c0 recovered_def) (simp add: q0_def loaded_def)
    with op oj False show ?thesis by (auto simp: contents_def q0_def loaded_def rebuilt_def)
  qed
qed

lemma recover_files:
  assumes "codec_ok C" and "snapshot_says C (q_snapshot q) f" and "journal_ok C (q_journal q) rs torn"
  shows "recover C q = Some (recovered f rs)"
  using open_recovers [OF assms] by (auto simp: recover_def)

text \<open>
  The files of a queue: a readable snapshot, a readable journal none of whose records is newer than memory, and, unless
  the next change rewrites everything, files that say what memory says.
\<close>

definition files_ok :: "codec \<Rightarrow> queue \<Rightarrow> bool" where
  "files_ok C q \<longleftrightarrow> (\<exists>f rs torn. snapshot_says C (q_snapshot q) f \<and> journal_ok C (q_journal q) rs torn \<and>
     (\<forall>r \<in> set rs. jr_Seq r \<le> q_seq q))"

definition durable :: "codec \<Rightarrow> queue \<Rightarrow> bool" where
  "durable C q \<longleftrightarrow> (\<exists>f rs torn. snapshot_says C (q_snapshot q) f \<and> journal_ok C (q_journal q) rs torn \<and>
     (\<forall>r \<in> set rs. jr_Seq r \<le> q_seq q) \<and>
     (q_snapshotDue q \<or> qf_JournalSeq f \<noteq> 0 \<and> qf_JournalSeq f \<le> q_seq q \<and> torn = [] \<and>
        q_journalSize q = length (q_journal q) \<and> recovered f rs = contents q))"

lemma files_okI:
  "snapshot_says C (q_snapshot q) f \<Longrightarrow> journal_ok C (q_journal q) rs torn \<Longrightarrow> \<forall>r \<in> set rs. jr_Seq r \<le> q_seq q \<Longrightarrow> files_ok C q"
  unfolding files_ok_def by blast

lemma durable_files: "durable C q \<Longrightarrow> files_ok C q"
  by (auto simp: durable_def files_ok_def)

lemma durable_due: "q_snapshotDue q \<Longrightarrow> durable C q \<longleftrightarrow> files_ok C q"
  by (auto simp: durable_def files_ok_def)

lemma old_records: "\<forall>r \<in> set rs. jr_Seq r \<le> s \<Longrightarrow> foldl (replay_contents s) c rs = c"
  by (induction rs arbitrary: c) (auto simp: replay_contents_def split: prod.split)

lemma recovered_old:
  "\<forall>r \<in> set rs. jr_Seq r \<le> qf_JournalSeq f \<Longrightarrow> recovered f rs = file_contents f"
  by (simp add: recovered_def old_records)

lemma journal_ok_snoc:
  assumes "journal_ok C bytes rs []" and "enc_record C r = Some p" and "jr_ID r \<noteq> []"
  shows "journal_ok C (bytes @ log_line p) (rs @ [r]) []"
  using assms by (auto simp: journal_ok_def journal_bytes_def)

text \<open>A write that breaks off: all of the line reached the file, or a torn part of it.\<close>

lemma journal_ok_torn:
  assumes "codec_ok C" and "journal_ok C bytes rs []" and "enc_record C r = Some p" and "jr_ID r \<noteq> []"
  shows "\<exists>rs' torn. journal_ok C (bytes @ take n (log_line p)) rs' torn \<and> (rs' = rs \<or> rs' = rs @ [r])"
proof -
  have p: "payload_ok p" using assms(1,3) by (auto simp: codec_ok_def)
  obtain k torn where t: "take n (log_file [p]) = log_file (take k [p]) @ torn" "newline \<notin> set torn"
    using prefix_of_lines [of "[p]" n] p by auto
  show ?thesis
  proof (cases "k = 0")
    case True
    with t assms(2) have "journal_ok C (bytes @ take n (log_line p)) rs torn" by (simp add: journal_ok_def)
    then show ?thesis by blast
  next
    case False
    then have "take n (log_line p) = log_line p @ torn" using t(1) by (simp add: take_Cons')
    with t(2) assms have "journal_ok C (bytes @ take n (log_line p)) (rs @ [r]) torn"
      by (auto simp: journal_ok_def journal_bytes_def)
    then show ?thesis by blast
  qed
qed

lemma recovered_snoc:
  assumes "qf_JournalSeq f \<noteq> 0"
  shows "recovered f (rs @ [r]) = replay_contents (qf_JournalSeq f) (recovered f rs) r"
  using assms by (simp add: recovered_def)

text \<open>Writing a snapshot.\<close>

lemma snapshot_durable:
  assumes "codec_ok C" and "files_ok C q" and "0 < q_seq q" and "snapshotLocked C io q = (q', e)"
  shows "durable C q' \<and> (recover C q' = recover C q \<and> e \<noteq> None \<or> recover C q' = Some (contents q') \<and> e = None)"
proof -
  from assms(2) obtain f rs torn where d: "snapshot_says C (q_snapshot q) f" "journal_ok C (q_journal q) rs torn"
    "\<forall>r \<in> set rs. jr_Seq r \<le> q_seq q" by (auto simp: files_ok_def)
  let ?f = "\<lparr>qf_Jobs = q_jobs q, qf_IdempotencyKeys = q_keys q, qf_JournalSeq = q_seq q\<rparr>"
  have says: "\<exists>f'. snapshot_says C (Some payload) f' \<and> file_contents f' = contents q \<and> qf_JournalSeq f' = q_seq q" if "enc_file C ?f = Some payload" for payload
    using assms(1) that by (fastforce simp: snapshot_says_def codec_ok_def file_contents_def contents_def)
  have none: "journal_ok C [] [] []" by (simp add: journal_ok_def journal_bytes_def)
  show ?thesis
  proof (cases "enc_file C ?f")
    case None
    with assms(4) have q': "q' = q\<lparr>q_snapshotDue := True\<rparr>" "e \<noteq> None" by (auto simp: snapshotLocked_def Let_def)
    with assms(2) show ?thesis by (auto simp: durable_due files_ok_def recover_def)
  next
    case (Some payload)
    from says [OF Some] obtain f' where f': "snapshot_says C (Some payload) f'" and cont: "file_contents f' = contents q" "qf_JournalSeq f' = q_seq q" by blast
    show ?thesis
    proof (cases io)
      case SnapFails
      with assms(4) Some have q': "q' = q\<lparr>q_snapshotDue := True\<rparr>" "e \<noteq> None" by (auto simp: snapshotLocked_def Let_def)
      with assms(2) show ?thesis by (auto simp: durable_due files_ok_def recover_def)
    next
      case (SnapRenamed truncated)
      with assms(4) Some have q': "q' = q\<lparr>q_snapshotDue := True, q_snapshot := Some payload,
          q_journal := (if truncated then [] else q_journal q)\<rparr>" "e = None" by (auto simp: snapshotLocked_def Let_def)
      have "\<exists>rs' torn'. journal_ok C (q_journal q') rs' torn' \<and> (\<forall>r \<in> set rs'. jr_Seq r \<le> q_seq q)"
        using d(2,3) none q'(1)
        by (intro exI [of _ "if truncated then [] else rs"] exI [of _ "if truncated then [] else torn"]) simp
      then obtain rs' torn' where j: "journal_ok C (q_journal q') rs' torn'" "\<forall>r \<in> set rs'. jr_Seq r \<le> q_seq q" by blast
      have s: "snapshot_says C (q_snapshot q') f'" using f' q' by simp
      have "recover C q' = Some (contents q')"
        using recover_files [OF assms(1) s j(1)] recovered_old [of rs' f'] j(2) cont q'(1) by (simp add: contents_def)
      moreover have "durable C q'" using files_okI [OF s j(1)] j(2) q'(1) by (simp add: durable_due)
      ultimately show ?thesis using q'(2) by simp
    next
      case SnapDone
      with assms(4) Some have q': "q' = q\<lparr>q_snapshot := Some payload, q_journal := [], q_journalSize := 0,
          q_journalRecords := 0, q_snapshotDue := False\<rparr>" "e = None" by (auto simp: snapshotLocked_def Let_def)
      have s: "snapshot_says C (q_snapshot q') f'" "journal_ok C (q_journal q') [] []"
        using f' q' none by simp_all
      have r: "recovered f' [] = contents q'" using cont q'(1) by (simp add: recovered_old contents_def)
      with recover_files [OF assms(1) s] have "recover C q' = Some (contents q')" by simp
      moreover have "durable C q'"
        unfolding durable_def
        by (rule exI [of _ f'], rule exI [of _ "[]"], rule exI [of _ "[]"]) (use s r assms(3) q'(1) cont(2) in simp)
      ultimately show ?thesis using q'(2) by simp
    qed
  qed
qed

text \<open>Appending a record to a journal that is up to date.\<close>

lemma append_durable:
  assumes "codec_ok C" and "snapshot_says C (q_snapshot q) f" and "journal_ok C (q_journal q) rs []"
    and "qf_JournalSeq f \<noteq> 0" "qf_JournalSeq f \<le> q_seq q" "q_journalSize q = length (q_journal q)"
    and "\<forall>r \<in> set rs. jr_Seq r \<le> q_seq q" and "jr_ID r \<noteq> []" "jr_Seq r \<le> q_seq q" "\<not> q_snapshotDue q"
    and "replay_contents (qf_JournalSeq f) (recovered f rs) r = contents q"
    and "appendLocked C disk q r = (q', e)"
  shows "durable C q' \<and> (recover C q' = recover C q \<and> e \<noteq> None \<or> recover C q' = Some (contents q') \<and> enc_record C r \<noteq> None)
    \<and> (e = None \<longrightarrow> recover C q' = Some (contents q'))"
proof (cases "enc_record C r")
  case None
  with assms(12) have "q' = q\<lparr>q_snapshotDue := True\<rparr>" "e \<noteq> None" by (auto simp: appendLocked_def)
  with assms(2,3,7) show ?thesis by (auto simp: durable_due files_ok_def recover_def)
next
  case (Some p)
  have snoc: "recovered f (rs @ [r]) = contents q" using assms(4,11) by (simp add: recovered_snoc)
  show ?thesis
  proof (cases disk)
    case DiskOk
    with assms(12) Some have q': "q' = q\<lparr>q_journal := q_journal q @ log_line p,
        q_journalSize := q_journalSize q + length (log_line p), q_journalRecords := q_journalRecords q + 1\<rparr>" "e = None"
      by (auto simp: appendLocked_def Let_def)
    have j: "journal_ok C (q_journal q') (rs @ [r]) []" using journal_ok_snoc [OF assms(3) Some assms(8)] q' by simp
    have s: "snapshot_says C (q_snapshot q') f" using assms(2) q' by simp
    have "durable C q'"
      unfolding durable_def
      by (rule exI [of _ f], rule exI [of _ "rs @ [r]"], rule exI [of _ "[]"])
        (use s j assms(4-9) snoc q'(1) in \<open>auto simp: contents_def\<close>)
    with recover_files [OF assms(1) s j] snoc q' Some show ?thesis by (simp add: contents_def)
  next
    case (DiskFail n truncated)
    with assms(12) Some have q': "q' = q\<lparr>q_journal := (if truncated then q_journal q else q_journal q @ take n (log_line p)),
        q_snapshotDue := True\<rparr>" "e \<noteq> None"
      by (auto simp: appendLocked_def Let_def assms(6))
    obtain rs' torn where j: "journal_ok C (q_journal q') rs' torn" "rs' = rs \<or> rs' = rs @ [r]"
      using journal_ok_torn [OF assms(1,3) Some assms(8), of n] assms(3) q'(1) by (cases truncated) auto
    have s: "snapshot_says C (q_snapshot q') f" using assms(2) q' by simp
    have "\<forall>r \<in> set rs'. jr_Seq r \<le> q_seq q'" using j(2) assms(7,9) q'(1) by auto
    with files_okI [OF s j(1)] q'(1) have "durable C q'" by (simp add: durable_due)
    moreover have "recover C q' = Some (recovered f rs')" by (rule recover_files [OF assms(1) s j(1)])
    moreover have "recover C q = Some (recovered f rs)" by (rule recover_files [OF assms(1-3)])
    ultimately show ?thesis using j(2) snoc q' Some by (auto simp: contents_def)
  qed
qed

lemma commit_durable:
  assumes "codec_ok C" and "durable C q" and "q_open q" and "jid \<noteq> []"
    and "commitLocked C io (with_key k jid q) jid j k = (q', e)"
  shows "durable C q' \<and> (recover C q' = recover C q \<and> e \<noteq> None \<or>
      recover C q' = Some (contents q') \<and> snd (commitLocked C (DiskOk, SnapDone) (with_key k jid q) jid j k) = None)
    \<and> (e = None \<longrightarrow> recover C q' = Some (contents q'))"
proof -
  define q1 where "q1 = (with_key k jid q)\<lparr>q_jobs := AList.update jid j (q_jobs q),
    q_index := index_update (q_index q) jid j, q_seq := q_seq q + 1\<rparr>"
  let ?r = "\<lparr>jr_Seq = q_seq q1, jr_ID = jid, jr_Job = j, jr_IdempotencyKey = k\<rparr>"
  have q1: "q_snapshot q1 = q_snapshot q" "q_journal q1 = q_journal q" "q_seq q1 = q_seq q + 1" "q_open q1"
    "q_snapshotDue q1 = q_snapshotDue q" "q_journalSize q1 = q_journalSize q"
    using assms(3) by (simp_all add: q1_def with_key_def)
  have rec: "recover C q1 = recover C q" by (simp add: recover_def q1)
  have c1: "contents q1 = ((map_of (q_jobs q))(jid \<mapsto> j), if k \<noteq> [] then (map_of (q_keys q))(k \<mapsto> jid) else map_of (q_keys q), q_seq q + 1)"
    by (simp add: contents_def q1_def with_key_def)
  have step: "commitLocked C io (with_key k jid q) jid j k =
      (if q_snapshotDue q1 \<or> q_journalRecords q1 \<ge> max (q_compactMin q1) (length (q_jobs q1))
       then snapshotLocked C (snd io) q1 else appendLocked C (fst io) q1 ?r)" for io
    using assms(3) by (simp add: commitLocked_def Let_def q1_def with_key_def)
  show ?thesis
  proof (cases "q_snapshotDue q1 \<or> q_journalRecords q1 \<ge> max (q_compactMin q1) (length (q_jobs q1))")
    case True
    have "files_ok C q1" using durable_files [OF assms(2)] by (fastforce simp: files_ok_def q1)
    moreover have snap: "snapshotLocked C (snd io) q1 = (q', e)" using step [of io] True assms(5) by simp
    moreover have "snd (snapshotLocked C SnapDone q1) = None" if "e = None"
      using snap that by (auto simp: snapshotLocked_def Let_def split: option.splits snap_io.splits)
    ultimately show ?thesis using snapshot_durable [OF assms(1), of q1 "snd io" q' e] step True rec q1(3) by auto
  next
    case False
    then obtain f rs where d: "snapshot_says C (q_snapshot q) f" "journal_ok C (q_journal q) rs []"
      "\<forall>r \<in> set rs. jr_Seq r \<le> q_seq q" "qf_JournalSeq f \<noteq> 0" "qf_JournalSeq f \<le> q_seq q"
      "q_journalSize q = length (q_journal q)" "recovered f rs = contents q"
      using assms(2) q1(5) by (auto simp: durable_def)
    have "replay_contents (qf_JournalSeq f) (recovered f rs) ?r = contents q1"
      using d(5) by (simp add: d(7) contents_def [of q] replay_contents_def c1 q1(3))
    moreover have "appendLocked C (fst io) q1 ?r = (q', e)" using assms(5) unfolding step if_not_P [OF False] .
    moreover have okay: "snd (commitLocked C (DiskOk, SnapDone) (with_key k jid q) jid j k) = None" if "enc_record C ?r \<noteq> None"
      using that unfolding step if_not_P [OF False] by (auto simp: appendLocked_def Let_def)
    moreover have "\<forall>r \<in> set rs. jr_Seq r \<le> q_seq q1" using d(3) q1(3) by auto
    ultimately have "durable C q' \<and> (recover C q' = recover C q \<and> e \<noteq> None \<or> recover C q' = Some (contents q') \<and> enc_record C ?r \<noteq> None) \<and>
        (e = None \<longrightarrow> recover C q' = Some (contents q'))"
      using append_durable [OF assms(1), of q1 f rs ?r "fst io" q' e] d q1 rec False assms(4) by simp
    then show ?thesis using okay by blast
  qed
qed

lemma with_index_same [simp]:
  "durable C (with_index x q) = durable C q" "recover C (with_index x q) = recover C q"
  "q_seq (with_index x q) = q_seq q" "q_jobs (with_index x q) = q_jobs q" "q_open (with_index x q) = q_open q"
  by (simp_all add: with_index_def durable_def recover_def)

lemma rolled_back_files [simp]:
  "recover C (rolled_back k jid q) = recover C q" "files_ok C (rolled_back k jid q) = files_ok C q"
  "q_snapshotDue (rolled_back k jid q) = q_snapshotDue q"
  by (simp_all add: rolled_back_def recover_def files_ok_def)

text \<open>After a failed write the next change rewrites everything.\<close>

lemma commit_failed_due:
  "commitLocked C io q jid j k = (q', e) \<Longrightarrow> q_open q \<Longrightarrow> e \<noteq> None \<Longrightarrow> q_snapshotDue q'"
  by (auto simp: commitLocked_def snapshotLocked_def appendLocked_def Let_def
      split: if_splits option.splits snap_io.splits disk.splits)

subsection \<open>Opening gives a good queue\<close>

lemma replay_record_keys:
  "distinct (map fst (q_jobs q)) \<and> [] \<notin> fst ` set (q_jobs q) \<Longrightarrow> jr_ID r \<noteq> [] \<Longrightarrow>
     distinct (map fst (q_jobs (replay_record s q r))) \<and> [] \<notin> fst ` set (q_jobs (replay_record s q r))"
  by (simp add: replay_record_def Let_def)

lemma replayJournal_keys:
  assumes "replayJournal C s bytes q n = Inr (q', m)" and "distinct (map fst (q_jobs q)) \<and> [] \<notin> fst ` set (q_jobs q)"
  shows "distinct (map fst (q_jobs q')) \<and> [] \<notin> fst ` set (q_jobs q') \<and> q_index q' = q_index q"
  using assms
proof (induction C s bytes q n rule: replayJournal.induct)
  case (1 C s bytes q n)
  show ?case
  proof (cases "ReadBytes bytes")
    case None
    with 1(2,3) show ?thesis by (simp add: replayJournal.simps [of C s bytes])
  next
    case (Some a)
    obtain line rest where a: "a = (line, rest)" by (cases a)
    show ?thesis
    proof (cases "checkJournalLine line")
      case None
      with 1(2,3) Some a show ?thesis by (auto simp: replayJournal.simps [of C s bytes] split: if_splits)
    next
      case p: (Some payload)
      with 1(2) Some a obtain r where r: "dec_record C payload = Some r" "jr_ID r \<noteq> []"
        "replayJournal C s rest (replay_record s q r) (n + length line + 1) = Inr (q', m)"
        by (auto simp: replayJournal.simps [of C s bytes] split: option.splits if_splits)
      from 1(1) [OF Some [unfolded a] refl p r(1,2,3) replay_record_keys [OF 1(3) r(2)]] show ?thesis by simp
    qed
  qed
qed

lemma rebuild_index:
  assumes "distinct (map fst js)" and "idx_inv x" and "\<forall>jid \<in> fst ` set js. view x jid = None"
  shows "idx_inv (foldl (\<lambda>x (jid, j). index_update x jid j) x js) \<and>
    view (foldl (\<lambda>x (jid, j). index_update x jid j) x js) =
      (\<lambda>jid. case map_of js jid of None \<Rightarrow> view x jid | Some j \<Rightarrow> filed j)"
  using assms
proof (induction js arbitrary: x)
  case Nil
  then show ?case by simp
next
  case (Cons a js)
  obtain jid j where a: "a = (jid, j)" by (cases a)
  have u: "idx_inv (index_update x jid j)" "view (index_update x jid j) = (view x)(jid := filed j)"
    using index_update_correct [OF Cons.prems(2)] by auto
  have "\<forall>jid' \<in> fst ` set js. view (index_update x jid j) jid' = None"
    using Cons.prems(1,3) u(2) a by (auto simp: image_iff)
  from Cons.IH [OF _ u(1) this] Cons.prems(1) a u(2) show ?case
    by (auto simp: fun_eq_iff image_iff split: option.split dest: map_of_SomeD)
qed

lemma open_inv:
  assumes "go_maps C" and "OpenQueue C io snap bytes = Inr q" and "\<forall>p f. snap = Some p \<longrightarrow> dec_file C p = Some f \<longrightarrow> [] \<notin> fst ` set (qf_Jobs f)"
  shows "queue_inv q"
proof -
  have io: "OpenQueue C True snap bytes = Inr q" using assms(2) by (auto simp: OpenQueue_def split: if_splits)
  then obtain f where f: "snapshot_says C snap f"
    by (cases snap) (auto simp: OpenQueue_def snapshot_says_def Let_def split: option.splits)
  from io [unfolded OpenQueue_loaded [OF f]] obtain q1 where
    q1: "openJournal C (loaded f snap bytes) (qf_JournalSeq f \<noteq> 0) = Inr q1" and q: "q = rebuilt q1"
    by (auto simp: rbind_eq_Inr)
  have "distinct (map fst (qf_Jobs f)) \<and> [] \<notin> fst ` set (qf_Jobs f)"
    using f assms(1,3) by (cases snap) (auto simp: snapshot_says_def go_maps_def)
  then have q0: "distinct (map fst (q_jobs (loaded f snap bytes))) \<and> [] \<notin> fst ` set (q_jobs (loaded f snap bytes))"
    "q_index (loaded f snap bytes) = newLeaseIndex" by (simp_all add: loaded_def)
  have "distinct (map fst (q_jobs q1)) \<and> [] \<notin> fst ` set (q_jobs q1) \<and> q_index q1 = newLeaseIndex"
  proof (cases "qf_JournalSeq f = 0")
    case True
    with q1 q0 show ?thesis by (auto simp: openJournal_def)
  next
    case False
    with q1 obtain q2 n where "replayJournal C (q_seq (loaded f snap bytes)) (q_journal (loaded f snap bytes)) (loaded f snap bytes) 0 = Inr (q2, n)"
      "q_jobs q1 = q_jobs q2" "q_index q1 = q_index q2" by (auto simp: openJournal_def rbind_eq_Inr)
    with replayJournal_keys [OF this(1) q0(1)] q0(2) show ?thesis by simp
  qed
  with rebuild_index [of "q_jobs q1" newLeaseIndex] show ?thesis
    by (auto simp: q rebuilt_def queue_inv_def new_inv new_view fun_eq_iff split: option.split)
qed

subsection \<open>Properties\<close>

definition leasable_now :: "job \<Rightarrow> time \<Rightarrow> bool" where
  "leasable_now j now = (case leasableAt j of Some due \<Rightarrow> due \<le> now | None \<Rightarrow> False)"

lemma viewed_job:
  assumes "queue_inv q"
  shows "view (q_index q) jid = Some (c, d) \<longleftrightarrow>
    (\<exists>j. map_of (q_jobs q) jid = Some j \<and> j_CreatedAt j = c \<and> leasableAt j = Some d)"
  using assms by (auto simp: queue_inv_def filed_def bind_eq_Some_conv)

lemma first_of_jobs:
  assumes "queue_inv q" and "first_of (view (q_index q)) now r"
  shows "case r of
      None \<Rightarrow> (\<forall>jid j. map_of (q_jobs q) jid = Some j \<longrightarrow> \<not> leasable_now j now)
    | Some jid \<Rightarrow> (\<exists>j. map_of (q_jobs q) jid = Some j \<and> leasable_now j now \<and>
        (\<forall>jid2 j2. map_of (q_jobs q) jid2 = Some j2 \<and> leasable_now j2 now \<longrightarrow> (j_CreatedAt j, jid) \<le> (j_CreatedAt j2, jid2)))"
proof (cases r)
  case None
  with assms(2) viewed_job [OF assms(1)] show ?thesis
    by (fastforce simp: first_of_def leasable_now_def split: option.splits)
next
  case (Some jid)
  with assms(2) obtain c d where v: "view (q_index q) jid = Some (c, d)" "d \<le> now"
    and least: "\<And>jid' c' d'. view (q_index q) jid' = Some (c', d') \<Longrightarrow> d' \<le> now \<Longrightarrow> (c, jid) \<le> (c', jid')"
    unfolding first_of_def by auto
  from v(1) obtain j where j: "map_of (q_jobs q) jid = Some j" "j_CreatedAt j = c" "leasableAt j = Some d"
    unfolding viewed_job [OF assms(1)] by blast
  have "(c, jid) \<le> (j_CreatedAt j2, jid2)" if "map_of (q_jobs q) jid2 = Some j2" "leasable_now j2 now" for jid2 j2
  proof -
    from that(2) obtain d2 where "leasableAt j2 = Some d2" "d2 \<le> now" by (auto simp: leasable_now_def split: option.splits)
    with that(1) viewed_job [OF assms(1), of jid2 "j_CreatedAt j2" d2] least show ?thesis by blast
  qed
  with j v(2) Some show ?thesis by (auto simp: leasable_now_def)
qed

lemma leasable_not_owned: "leasable_now j now \<Longrightarrow> \<not> owns j owner now"
  by (auto simp: leasable_now_def owns_def leasableAt_def)

lemma commit_not_NoJob: "commitLocked C io q jid j k = (q', e) \<Longrightarrow> e \<noteq> Some ErrNoJob"
  by (auto simp: commitLocked_def snapshotLocked_def appendLocked_def Let_def
      split: if_splits option.splits snap_io.splits disk.splits)

text \<open>
  whatever a queue's files hold, if they can be opened and name no job without an id, the queue is in order, and every request keeps it in
  order, whether or not its write succeeds: the two heaps describe exactly the queued and the leased jobs.
\<close>

theorem queue_keeps_index:
  assumes "go_maps C" and "OpenQueue C io0 snap bytes = Inr q"
    and "\<forall>p f. snap = Some p \<longrightarrow> dec_file C p = Some f \<longrightarrow> [] \<notin> fst ` set (qf_Jobs f)"
  shows "queue_inv (foldl (\<lambda>q (io, now, req). fst (serve C io now q req)) q reqs)"
proof -
  have "queue_inv q" by (rule open_inv [OF assms])
  then show ?thesis
  proof (induction reqs arbitrary: q)
    case (Cons a reqs)
    obtain io now req where a: "a = (io, now, req)" by (cases a)
    have "queue_inv (fst (serve C io now q req))"
      using serve_inv [OF Cons.prems] by (metis prod.collapse)
    with Cons.IH a show ?case by simp
  qed simp
qed

definition no_codec :: codec where
  "no_codec = \<lparr>enc_record = (\<lambda>_. None), dec_record = (\<lambda>_. None), enc_file = (\<lambda>_. None), dec_file = (\<lambda>_. None)\<rparr>"

theorem queue_keeps_index_witness:
  "\<exists>q. OpenQueue no_codec True None [1, 2] = Inr q \<and>
     queue_inv (foldl (\<lambda>q (io, now, req). fst (serve no_codec io now q req)) q [((DiskOk, SnapDone), 5, ReqLease [1] 3)])"
proof -
  have c: "go_maps no_codec" by (simp add: go_maps_def no_codec_def)
  obtain q where q: "OpenQueue no_codec True None [1, 2] = Inr q"
    by (simp add: OpenQueue_def openJournal_def Let_def)
  note kept = queue_keeps_index [OF c q, where reqs = "[((DiskOk, SnapDone), 5, ReqLease [1] 3)]"]
  then show ?thesis using q by simp
qed

text \<open>
  C32: \<open>Lease\<close> finds no job exactly if none is queued past its next attempt or leased past its expiry. Otherwise it takes
  the first such job by creation time and id, which at that time no worker owns, and when it
  succeeds only that job has changed.
\<close>

theorem lease_takes_first_due:
  assumes "queue_inv q" and "Lease C io now q owner duration = (q', j', e)"
  shows "(e = Some ErrNoJob \<longleftrightarrow> (\<forall>jid j. map_of (q_jobs q) jid = Some j \<longrightarrow> \<not> leasable_now j now)) \<and>
    (e \<noteq> Some ErrNoJob \<longrightarrow> (\<exists>jid j. map_of (q_jobs q) jid = Some j \<and> leasable_now j now \<and>
       (\<forall>jid2 j2. map_of (q_jobs q) jid2 = Some j2 \<and> leasable_now j2 now \<longrightarrow> (j_CreatedAt j, jid) \<le> (j_CreatedAt j2, jid2)) \<and>
       (\<forall>other. \<not> owns j other now) \<and>
       (e = None \<longrightarrow> map_of (q_jobs q') = (map_of (q_jobs q))(jid \<mapsto> j') \<and> j_State j' = Leased \<and>
          j_LeaseOwner j' = owner \<and> j_LeaseUntil j' = now + duration \<and> j_Attempts j' = j_Attempts j + 1)))"
proof (rule Lease_cases [OF assms], goal_cases)
  case (1 x)
  with first_of_jobs [OF assms(1) 1(4)] show ?case by simp
next
  case (2 x jid j)
  from first_of_jobs [OF assms(1) 2(3)] 2(1) have first: "leasable_now j now"
    "\<forall>jid2 j2. map_of (q_jobs q) jid2 = Some j2 \<and> leasable_now j2 now \<longrightarrow> (j_CreatedAt j, jid) \<le> (j_CreatedAt j2, jid2)" by auto
  have "map_of (q_jobs q') = (map_of (q_jobs q))(jid \<mapsto> j')" if "e = None"
  proof -
    have "q_open (with_index x q)"
      using commit_closed [of "with_index x q"] 2(4) that by (cases "q_open (with_index x q)") auto
    from commit_fields [OF 2(4) this] that 2(5) show ?thesis by simp
  qed
  moreover have "e \<noteq> Some ErrNoJob" by (rule commit_not_NoJob [OF 2(4)])
  ultimately show ?case using 2(1,5) first leasable_not_owned [OF first(1)] by auto
qed

text \<open>
  C19: while a worker's lease lasts nobody else moves the job. No request of another worker, no \<open>Lease\<close>, no replay of dead
  letters and no failing write changes it; only its owner's requests do, and a \<open>Create\<close> that names its id again.
\<close>

theorem lease_protects_job:
  assumes "queue_inv q" and "map_of (q_jobs q) jid = Some j" and "owns j owner now"
    and "serve C io now q req = (q', e)"
    and "\<forall>j'. req = ReqCreate j' \<longrightarrow> j_ID j' \<noteq> jid"
    and "\<forall>d. req \<noteq> ReqHeartbeat jid owner d" "req \<noteq> ReqComplete jid owner" "\<forall>m d. req \<noteq> ReqFail jid owner m d"
  shows "map_of (q_jobs q') jid = Some j"
proof -
  have other: "map_of (q_jobs q1) jid = Some j" if "commit_job C io q jid2 j2 = (q1, j1, e1)" "jid2 \<noteq> jid" for jid2 j2 q1 j1 e1
  proof (cases "q_open q")
    case True
    from that(1) have "commitLocked C io q jid2 j2 [] = (q1, e1)" by (simp add: commit_job_def split: prod.splits)
    from commit_fields [OF this True] that(2) assms(2) show ?thesis by simp
  next
    case False
    with that(1) assms(2) show ?thesis by (auto simp: commit_job_def commit_closed)
  qed
  have mine: "\<not> owns j other now" if "other \<noteq> owner" for other using assms(3) that by (simp add: owns_def)
  show ?thesis
  proof (cases req)
    case (ReqCreate j')
    with assms(5) have "j_ID j' \<noteq> jid" by simp
    then have "map_of (q_jobs (fst (Create C io now q j'))) jid = Some j"
      using assms(2) by (auto simp: Create_def Let_def dest!: commit_fields split: prod.split option.split)
    with assms(4) ReqCreate show ?thesis by (auto simp: serve_def split: prod.splits)
  next
    case (ReqLease owner' d)
    then obtain j' where l: "Lease C io now q owner' d = (q', j', e)"
      using assms(4) by (auto simp: serve_def split: prod.splits)
    show ?thesis
    proof (rule Lease_cases [OF assms(1) l], goal_cases)
      case (1 x)
      then show ?case using assms(2) by simp
    next
      case (2 x jid2 j2)
      from first_of_jobs [OF assms(1) 2(3)] 2(1) have "leasable_now j2 now" by auto
      with leasable_not_owned assms(2,3) 2(1) have ne: "jid2 \<noteq> jid" by auto
      show ?case
      proof (cases "q_open q")
        case True
        with commit_fields [OF 2(4)] ne assms(2) show ?thesis by simp
      next
        case False
        with commit_closed [of "with_index x q"] 2(4) assms(2) show ?thesis by (auto simp: with_index_def)
      qed
    qed
  next
    case (ReqHeartbeat jid2 owner2 d)
    with assms(2,4,6) other mine show ?thesis
      by (cases "jid2 = jid"; cases "owner2 = owner")
        (auto simp: serve_def Heartbeat_def split: option.splits if_splits prod.splits)
  next
    case (ReqComplete jid2 owner2)
    with assms(2,4,7) other mine show ?thesis
      by (cases "jid2 = jid"; cases "owner2 = owner")
        (auto simp: serve_def Complete_def ownedLocked_def split: option.splits if_splits prod.splits)
  next
    case (ReqFail jid2 owner2 m d)
    with assms(2,4,8) other mine show ?thesis
      by (cases "jid2 = jid"; cases "owner2 = owner")
        (auto simp: serve_def Fail_def ownedLocked_def Let_def split: option.splits if_splits prod.splits)
  next
    case (ReqReplayDead jid2)
    with assms(2,3,4) other show ?thesis
      by (cases "jid2 = jid")
        (auto simp: serve_def ReplayDead_def owns_def split: option.splits if_splits prod.splits)
  qed
qed

text \<open>A queue with one job, leased or not, whose files are still empty.\<close>

definition sample_job :: job where
  "sample_job = zero_job\<lparr>j_ID := [1], j_IdempotencyKey := [2], j_InputPath := [3], j_OutputPath := [4], j_State := Queued,
     j_MaxAttempts := 5, j_CreatedAt := 5\<rparr>"

definition sample_lease :: job where
  "sample_lease = sample_job\<lparr>j_State := Leased, j_LeaseOwner := [9], j_LeaseUntil := 100, j_Attempts := 1\<rparr>"

definition sample_queue :: "job \<Rightarrow> queue" where
  "sample_queue j = \<lparr>q_jobs = [([1], j)], q_keys = [([2], [1])], q_index = index_update newLeaseIndex [1] j, q_open = True,
     q_snapshot = None, q_journal = [], q_journalSize = 0, q_journalRecords = 0, q_seq = 1, q_compactMin = journalCompactMin,
     q_snapshotDue = True\<rparr>"

lemma sample_queue_inv: "queue_inv (sample_queue j)"
  using index_update_correct [OF new_inv, of "[1]" j]
  by (auto simp: queue_inv_def sample_queue_def new_view fun_eq_iff)


theorem lease_takes_first_due_witness:
  "\<exists>q' j' e. Lease no_codec (DiskOk, SnapDone) 10 (sample_queue sample_job) [9] 30 = (q', j', e) \<and> e \<noteq> Some ErrNoJob"
proof -
  obtain q' j' e where l: "Lease no_codec (DiskOk, SnapDone) 10 (sample_queue sample_job) [9] 30 = (q', j', e)"
    by (metis prod.collapse)
  have "map_of (q_jobs (sample_queue sample_job)) [1] = Some sample_job" "leasable_now sample_job 10"
    by (simp_all add: sample_queue_def sample_job_def zero_job_def leasable_now_def leasableAt_def zero_time_def)
  with lease_takes_first_due [OF sample_queue_inv l] l show ?thesis by blast
qed

theorem lease_protects_job_witness:
  "map_of (q_jobs (fst (serve no_codec (DiskOk, SnapDone) 50 (sample_queue sample_lease) (ReqComplete [1] [8])))) [1] =
     Some sample_lease"
proof -
  obtain q' e where s: "serve no_codec (DiskOk, SnapDone) 50 (sample_queue sample_lease) (ReqComplete [1] [8]) = (q', e)"
    by (metis prod.collapse)
  have "map_of (q_jobs (sample_queue sample_lease)) [1] = Some sample_lease" "owns sample_lease [9] 50"
    by (simp_all add: sample_queue_def sample_lease_def owns_def)
  from lease_protects_job [OF sample_queue_inv this s] s show ?thesis by simp
qed

text \<open>What a request makes of the queue when every write succeeds.\<close>

definition intended :: "codec \<Rightarrow> time \<Rightarrow> queue \<Rightarrow> request \<Rightarrow> queue" where
  "intended C now q req = fst (serve C (DiskOk, SnapDone) now q req)"

lemma serve_durable:
  assumes "codec_ok C" and "queue_inv q" and "durable C q" and "serve C io now q req = (q', e)"
  shows "durable C q' \<and> (recover C q' = recover C q \<or> recover C q' = Some (contents (intended C now q req))) \<and>
    (e = None \<and> q_seq q' \<noteq> q_seq q \<longrightarrow> recover C q' = Some (contents q'))"
proof (cases rule: serve_plan [OF assms(2), of C now req])
  case (1 x e')
  then have "q' = with_index x q" using assms(4) by simp
  with assms(3) show ?thesis by simp
next
  case (2 x jid j k)
  let ?q = "with_index x q"
  obtain q1 e1 where c: "commitLocked C io (with_key k jid ?q) jid j k = (q1, e1)" by fastforce
  obtain q2 e2 where ok: "commitLocked C (DiskOk, SnapDone) (with_key k jid ?q) jid j k = (q2, e2)" by fastforce
  have op: "q_open ?q" "q_open (with_key k jid ?q)" using 2(1) by simp_all
  have q': "q' = (if e1 \<noteq> None \<and> k \<noteq> [] then rolled_back k jid q1 else q1)" "e = e1"
    using assms(4) c by (auto simp: 2(4) commit_outcome_def)
  have rec: "recover C q' = recover C q1" by (simp add: q')
  have d: "durable C q1" "recover C q1 = recover C ?q \<and> e1 \<noteq> None \<or> recover C q1 = Some (contents q1) \<and> e2 = None"
      "e1 = None \<longrightarrow> recover C q1 = Some (contents q1)"
    using commit_durable [OF assms(1) _ op(1) 2(2) c] assms(3) ok by simp_all
  have "durable C q'"
    using d(1) commit_failed_due [OF c op(2)] by (cases "e1 = None") (simp_all add: q' durable_due)
  moreover have "contents q1 = contents (intended C now q req)" if "e2 = None"
    using that commit_fields [OF c op(2)] commit_fields [OF ok op(2)]
    by (simp add: intended_def 2(4) commit_outcome_def ok contents_def)
  ultimately show ?thesis using d(2,3) q' rec by auto
qed

text \<open>
  C20: a change the queue acknowledged survives a crash at once. Whatever the writes do, the files can always be opened again; after an
  acknowledged change they say exactly what memory says, and after a failed or interrupted one they say what they said before, or what the
  queue would hold if that request had succeeded.
\<close>

theorem acknowledged_changes_survive:
  assumes "codec_ok C" and "queue_inv q" and "durable C q" and "serve C io now q req = (q', e)"
  shows "(\<exists>q''. OpenQueue C True (q_snapshot q') (q_journal q') = Inr q'' \<and> durable C q'' \<and>
      (e = None \<and> q_seq q' \<noteq> q_seq q \<longrightarrow> contents q'' = contents q') \<and>
      (recover C q = Some (contents q'') \<or> contents q'' = contents (intended C now q req))) \<and>
    durable C q'"
proof -
  have d: "durable C q'" using serve_durable [OF assms] by blast
  then obtain f rs torn where f: "snapshot_says C (q_snapshot q') f" "journal_ok C (q_journal q') rs torn"
    by (auto simp: durable_def)
  from open_recovers [OF assms(1) f] obtain q'' where q'': "OpenQueue C True (q_snapshot q') (q_journal q') = Inr q''"
    "contents q'' = recovered f rs" "q_snapshot q'' = q_snapshot q'" "q_snapshotDue q'' = (qf_JournalSeq f = 0)"
    "q_journal q'' = (if qf_JournalSeq f = 0 then [] else journal_bytes C rs)" "q_journalSize q'' = length (q_journal q'')"
    by auto
  have rec: "recover C q' = Some (contents q'')" by (simp add: recover_def q''(1))
  have seq: "\<forall>r \<in> set rs. jr_Seq r \<le> q_seq q''" "qf_JournalSeq f \<le> q_seq q''" if "qf_JournalSeq f \<noteq> 0"
  proof -
    have "snd (snd (foldl (replay_contents s) (J, K, n) rs)) = fold max (map jr_Seq (filter (\<lambda>r. jr_Seq r > s) rs)) n" for s J K n
      by (induction rs arbitrary: J K n) (auto simp: replay_contents_def max.commute)
    then have "q_seq q'' = fold max (map jr_Seq (filter (\<lambda>r. jr_Seq r > qf_JournalSeq f) rs)) (qf_JournalSeq f)"
      using q''(2) that by (simp add: recovered_def file_contents_def contents_def prod_eq_iff)
    moreover have "n \<le> fold max ns n \<and> (\<forall>m \<in> set ns. m \<le> fold max ns n)" for ns and n :: nat
      by (induction ns arbitrary: n) (auto, (meson max.bounded_iff order_trans)+)
    ultimately show "qf_JournalSeq f \<le> q_seq q''" "\<forall>r \<in> set rs. jr_Seq r \<le> q_seq q''" by (fastforce)+
  qed
  have "journal_ok C (q_journal q'') (if qf_JournalSeq f = 0 then [] else rs) []"
    using f(2) q''(5) by (simp add: journal_ok_def journal_bytes_def)
  then have "durable C q''"
    using f(1) q'' seq unfolding durable_def
    by (intro exI [of _ f] exI [of _ "if qf_JournalSeq f = 0 then [] else rs"] exI [of _ "[]"]) auto
  with serve_durable [OF assms] d rec q''(1) show ?thesis by (intro conjI exI [of _ q'']) auto
qed

definition new_job :: job where
  "new_job = zero_job\<lparr>j_ID := [7], j_IdempotencyKey := [8], j_InputPath := [3], j_OutputPath := [4], j_State := Queued,
     j_MaxAttempts := 5, j_CreatedAt := 6, j_UpdatedAt := 6\<rparr>"

definition sample_file :: queueFile where
  "sample_file = \<lparr>qf_Jobs = [([1], sample_job)], qf_IdempotencyKeys = [([2], [1])], qf_JournalSeq = 1\<rparr>"

definition new_record :: journalRecord where "new_record = \<lparr>jr_Seq = 2, jr_ID = [7], jr_Job = new_job, jr_IdempotencyKey = [8]\<rparr>"

definition sample_codec :: codec where
  "sample_codec = \<lparr>enc_record = (\<lambda>r. if r = new_record then Some [65] else None), dec_record = (\<lambda>p. if p = [65] then Some new_record else None),
     enc_file = (\<lambda>f. if f = sample_file then Some [123] else None),
     dec_file = (\<lambda>p. if p = [123] then Some sample_file else None)\<rparr>"

lemma sample_codec_ok: "codec_ok sample_codec"
  by (auto simp: codec_ok_def sample_codec_def payload_ok_def newline_def split: if_splits)

text \<open>A queue whose snapshot is in place: changes go to the journal.\<close>

definition journaling :: queue where
  "journaling = (sample_queue sample_job)\<lparr>q_snapshot := Some [123], q_journal := [], q_journalSize := 0, q_journalRecords := 0, q_compactMin := 1024,
     q_snapshotDue := False\<rparr>"

lemma journaling_ok: "queue_inv journaling" "durable sample_codec journaling"
proof -
  show "queue_inv journaling" using sample_queue_inv [of sample_job] by (simp add: journaling_def queue_inv_def)
  show "durable sample_codec journaling" unfolding durable_def
    by (rule exI [of _ sample_file], rule exI [of _ "[]"], rule exI [of _ "[]"])
      (simp add: journaling_def sample_queue_def sample_codec_def sample_file_def snapshot_says_def journal_ok_def journal_bytes_def
        recovered_def file_contents_def contents_def)
qed

theorem acknowledged_changes_survive_witness:
  "\<exists>q' q''. serve sample_codec (DiskOk, SnapDone) 6 journaling (ReqCreate new_job) = (q', None) \<and> q_journal q' = log_line [65] \<and>
     OpenQueue sample_codec True (q_snapshot q') (q_journal q') = Inr q'' \<and> map_of (q_jobs q'') [7] = Some new_job"
proof -
  obtain q' e where s: "serve sample_codec (DiskOk, SnapDone) 6 journaling (ReqCreate new_job) = (q', e)" by (metis prod.collapse)
  have "new_job\<lparr>j_State := Queued, j_CreatedAt := 6, j_UpdatedAt := 6\<rparr> = new_job" by (simp add: new_job_def)
  with s have q': "e = None" "q_seq q' = 2" "q_jobs q' = [([1], sample_job), ([7], new_job)]" "q_journal q' = log_line [65]"
    by (auto simp: serve_def Create_def Let_def key_of_def journaling_def sample_queue_def new_job_def commitLocked_def appendLocked_def
        sample_codec_def new_record_def)
  have "q_seq journaling = 1" by (simp add: journaling_def sample_queue_def)
  with acknowledged_changes_survive [OF sample_codec_ok journaling_ok s] q'(1,2) obtain q'' where
    "OpenQueue sample_codec True (q_snapshot q') (q_journal q') = Inr q''" "contents q'' = contents q'" by auto
  with s q'(1,3,4) show ?thesis by (auto simp: contents_def)
qed

lemma mul64_small:
  assumes "0 \<le> a" and "a < 2 ^ 53" and "k \<le> 10"
  shows "mul64 a (2 ^ k) = a * 2 ^ k"
proof -
  have "(2::int) ^ k \<le> 2 ^ 10" using assms(3) by (intro power_increasing) auto
  then have "a * 2 ^ k \<le> a * 2 ^ 10" using assms(1) by (rule mult_left_mono)
  then have "a * 2 ^ k < 2 ^ 63" "0 \<le> a * 2 ^ k" using assms(1,2) by auto
  then show ?thesis unfolding mul64_def by (intro signed_take_bit_int_eq_self) auto
qed

text \<open>
  a failed attempt is retried after a capped exponential backoff and dead-lettered when the attempts are used up. For a delay
  that leaves room in 64 bits the multiplication does not wrap around and the shift does not panic: the next
  attempt is between one and 1024 delays away.
\<close>

theorem failed_attempt_backs_off:
  assumes "map_of (q_jobs q) jid = Some j" and "owns j owner now" and "1 \<le> j_Attempts j" and "0 \<le> delay" "delay < 2 ^ 53"
    and "Fail C io now q jid owner message delay = (q', j', e)"
  shows "e \<noteq> Some PanicNegativeShift \<and> j_LastError j' = message \<and>
    (if j_Attempts j \<ge> j_MaxAttempts j then j_State j' = Dead
     else j_State j' = Queued \<and> j_NextAttempt j' = now + delay * 2 ^ nat (min (j_Attempts j - 1) 10) \<and>
       now + delay \<le> j_NextAttempt j' \<and> j_NextAttempt j' \<le> now + 1024 * delay)"
proof -
  let ?k = "nat (min (j_Attempts j - 1) 10)"
  have k: "?k \<le> 10" by simp
  have b: "backoff delay (j_Attempts j) = Some (delay * 2 ^ ?k)"
    using assms(3) mul64_small [OF assms(4,5) k] by (simp add: backoff_def Let_def)
  have "(2::int) ^ ?k \<le> 2 ^ 10" using k by (intro power_increasing) auto
  then have bound: "delay \<le> delay * 2 ^ ?k" "delay * 2 ^ ?k \<le> 1024 * delay"
    using assms(4) mult_left_mono [of "2 ^ ?k" 1024 delay] mult_left_mono [of 1 "2 ^ ?k" delay] by (auto simp: mult.commute)
  have noshift: "e1 \<noteq> Some PanicNegativeShift" if "commit_job C io q jid j1 = (q1, j2, e1)" for j1 q1 j2 e1
    using that by (auto simp: commit_job_def commitLocked_def snapshotLocked_def appendLocked_def Let_def
        split: if_splits option.splits snap_io.splits disk.splits prod.splits)
  have own: "ownedLocked now q jid owner = (j, None)" using assms(1,2) by (simp add: ownedLocked_def)
  have ret: "j2 = j1" if "commit_job C io q jid j1 = (q1, j2, e1)" for j1 q1 j2 e1
    using that by (simp add: commit_job_def split: prod.splits)
  show ?thesis
  proof (cases "j_Attempts j \<ge> j_MaxAttempts j")
    case True
    with assms(6) own have "commit_job C io q jid (j\<lparr>j_LeaseOwner := [], j_LeaseUntil := zero_time, j_UpdatedAt := now,
        j_LastError := message, j_State := Dead\<rparr>) = (q', j', e)" by (simp add: Fail_def Let_def)
    with noshift [OF this] ret [OF this] True show ?thesis by simp
  next
    case False
    with assms(6) own b have "commit_job C io q jid (j\<lparr>j_LeaseOwner := [], j_LeaseUntil := zero_time, j_UpdatedAt := now,
        j_LastError := message, j_State := Queued, j_NextAttempt := now + delay * 2 ^ ?k\<rparr>) = (q', j', e)"
      by (simp add: Fail_def Let_def)
    with noshift [OF this] ret [OF this] False bound show ?thesis by simp
  qed
qed

theorem failed_attempt_backs_off_witness:
  "\<exists>q' j' e. Fail no_codec (DiskOk, SnapDone) 50 (sample_queue sample_lease) [1] [9] [33] 2000000000 = (q', j', e) \<and>
     j_NextAttempt j' = 2000000050"
proof -
  obtain q' j' e where f: "Fail no_codec (DiskOk, SnapDone) 50 (sample_queue sample_lease) [1] [9] [33] 2000000000 = (q', j', e)"
    by (metis prod.collapse)
  have "map_of (q_jobs (sample_queue sample_lease)) [1] = Some sample_lease" "owns sample_lease [9] 50" "1 \<le> j_Attempts sample_lease"
    by (simp_all add: sample_queue_def sample_lease_def owns_def)
  from failed_attempt_backs_off [OF this _ _ f] f show ?thesis
    by (simp add: sample_lease_def sample_job_def)
qed

text \<open>
  \<open>Create\<close> looks only at the idempotency key. Under a new key it takes over a job that exists under the same id, whatever its
  state: if its write succeeds the job is queued afresh, a completed or a leased one too, and if its write fails the job is gone
  from memory. The HTTP handler takes the id from the upload and the key from a request header, so two
  requests completing one upload do this.
\<close>

theorem create_takes_over_job:
  assumes "q_open q" and "map_of (q_jobs q) (j_ID j) = Some old" and "key_of q (j_IdempotencyKey j) = []"
    and "j_ID j \<noteq> []" "j_IdempotencyKey j \<noteq> []" "j_InputPath j \<noteq> []" "j_OutputPath j \<noteq> []"
    and "Create C io now q j = (q', j', created, e)"
  shows "(e = None \<longrightarrow> created \<and> map_of (q_jobs q') (j_ID j) = Some j' \<and> j_State j' = Queued \<and> j_Attempts j' = j_Attempts j) \<and>
    (e \<noteq> None \<longrightarrow> map_of (q_jobs q') (j_ID j) = None)"
proof -
  define j1 where "j1 = (if j_MaxAttempts j \<le> 0 then j\<lparr>j_MaxAttempts := 5\<rparr> else j)
    \<lparr>j_State := Queued, j_CreatedAt := now, j_UpdatedAt := now\<rparr>"
  obtain q1 e1 where c: "commitLocked C io (with_key (j_IdempotencyKey j) (j_ID j) q) (j_ID j) j1 (j_IdempotencyKey j) = (q1, e1)"
    by (metis prod.collapse)
  have "Create C io now q j = (case e1 of
      Some e \<Rightarrow> (rolled_back (j_IdempotencyKey j) (j_ID j) q1, zero_job, False, Some e) | None \<Rightarrow> (q1, j1, True, None))"
    using assms(1,3-7) c
    by (cases "j_MaxAttempts j \<le> 0") (simp_all add: Create_def Let_def with_key_def rolled_back_def j1_def split: option.split)
  moreover have "map_of (q_jobs q1) (j_ID j) = Some j1" "j_State j1 = Queued" "j_Attempts j1 = j_Attempts j"
    using commit_fields [OF c] assms(1) by (simp_all add: j1_def)
  ultimately show ?thesis using assms(8) by (auto simp: rolled_back_def split: option.splits)
qed

theorem create_takes_over_job_witness:
  "\<exists>q' j' created e. Create no_codec (DiskOk, SnapDone) 60 (sample_queue (sample_job\<lparr>j_State := Completed\<rparr>))
      (sample_job\<lparr>j_IdempotencyKey := [99]\<rparr>) = (q', j', created, e) \<and> map_of (q_jobs q') [1] = None"
proof -
  let ?q = "sample_queue (sample_job\<lparr>j_State := Completed\<rparr>)" and ?j = "sample_job\<lparr>j_IdempotencyKey := [99]\<rparr>"
  obtain q' j' created e where c: "Create no_codec (DiskOk, SnapDone) 60 ?q ?j = (q', j', created, e)" by (metis prod.collapse)
  have "q_open ?q" "map_of (q_jobs ?q) (j_ID ?j) = Some (sample_job\<lparr>j_State := Completed\<rparr>)" "key_of ?q (j_IdempotencyKey ?j) = []"
    "j_ID ?j \<noteq> []" "j_IdempotencyKey ?j \<noteq> []" "j_InputPath ?j \<noteq> []" "j_OutputPath ?j \<noteq> []"
    by (simp_all add: sample_queue_def sample_job_def key_of_def)
  from create_takes_over_job [OF this c]
  have r: "e \<noteq> None \<longrightarrow> map_of (q_jobs q') [1] = None" by (simp add: sample_job_def)
  have "e \<noteq> None"
    using c by (auto simp: Create_def Let_def key_of_def sample_queue_def sample_job_def zero_job_def commitLocked_def
        snapshotLocked_def no_codec_def)
  with r c show ?thesis by blast
qed

end
