(* ===== verification/KVState.thy ===== *)
theory KVState
  imports Prelude "HOL-Library.AList" "HOL-Library.List_Lexorder"
begin

text \<open>
  The replicated state machine of \<^verbatim>\<open>engineering-labs/quorum-kv/internal/kv/state.go\<close>: a map from keys to values
  with an expiry, changed by commands, read by key or by range. A Go map is an association list; times are
  nanoseconds.
\<close>

datatype operation = OpPut | OpDelete | OtherOperation str

record command =
  cmd_Operation :: operation
  cmd_Key :: str
  cmd_Value :: str
  cmd_ExpiresAt :: int

record kvalue =
  kv_Data :: str
  kv_ExpiresAt :: int

type_synonym machine = "(str \<times> kvalue) list"

definition NewStateMachine :: machine where "NewStateMachine = []"

definition machine_Apply :: "machine \<Rightarrow> command \<Rightarrow> machine" where
  "machine_Apply m c =
     (case cmd_Operation c of
        OpPut \<Rightarrow> AList.update (cmd_Key c) \<lparr>kv_Data = cmd_Value c, kv_ExpiresAt = cmd_ExpiresAt c\<rparr> m
      | OpDelete \<Rightarrow> AList.delete (cmd_Key c) m
      | OtherOperation _ \<Rightarrow> m)"

definition expired :: "kvalue \<Rightarrow> time \<Rightarrow> bool" where
  "expired v now \<longleftrightarrow> kv_ExpiresAt v \<noteq> 0 \<and> kv_ExpiresAt v \<le> now"

definition machine_Get :: "machine \<Rightarrow> str \<Rightarrow> time \<Rightarrow> str option" where
  "machine_Get m k now =
     (case map_of m k of None \<Rightarrow> None | Some v \<Rightarrow> if expired v now then None else Some (kv_Data v))"

definition in_range :: "str \<Rightarrow> str \<Rightarrow> str \<Rightarrow> time \<Rightarrow> str \<times> kvalue \<Rightarrow> bool" where
  "in_range start end_key p now kv =
     (case kv of (k, v) \<Rightarrow>
        \<not> (expired v now \<or> (p \<noteq> [] \<and> \<not> HasPrefix k p) \<or> (start \<noteq> [] \<and> k < start) \<or> (end_key \<noteq> [] \<and> k \<ge> end_key)))"

definition machine_Range :: "machine \<Rightarrow> str \<Rightarrow> str \<Rightarrow> str \<Rightarrow> int \<Rightarrow> time \<Rightarrow> (str \<times> str) list" where
  "machine_Range m start end_key p limit now =
     (let keys = sort (map fst (filter (in_range start end_key p now) m));
          keys = (if limit > 0 \<and> int (length keys) > limit then take (nat limit) keys else keys)
      in map (\<lambda>k. (k, kv_Data (the (map_of m k)))) keys)"

definition copyData :: "machine \<Rightarrow> machine" where "copyData m = m"

definition replaceData :: "machine \<Rightarrow> machine \<Rightarrow> machine" where "replaceData m data = data"

subsection \<open>What reads see\<close>

definition machine_inv :: "machine \<Rightarrow> bool" where "machine_inv m \<longleftrightarrow> distinct (map fst m)"

lemma delete_distinct: "distinct (map fst m) \<Longrightarrow> distinct (map fst (AList.delete k m))"
  by (auto simp: AList.delete_eq filter_map distinct_map inj_on_def)

lemma apply_inv: "machine_inv m \<Longrightarrow> machine_inv (machine_Apply m c)"
  by (auto simp: machine_inv_def machine_Apply_def distinct_update delete_distinct split: operation.split)

lemma apply_all_inv: "machine_inv m \<Longrightarrow> machine_inv (foldl machine_Apply m cs)"
  by (induction cs arbitrary: m) (simp_all add: apply_inv)

text \<open>The abstract map the machine stands for.\<close>

definition command_effect :: "(str \<rightharpoonup> kvalue) \<Rightarrow> command \<Rightarrow> (str \<rightharpoonup> kvalue)" where
  "command_effect M c =
     (case cmd_Operation c of
        OpPut \<Rightarrow> M(cmd_Key c \<mapsto> \<lparr>kv_Data = cmd_Value c, kv_ExpiresAt = cmd_ExpiresAt c\<rparr>)
      | OpDelete \<Rightarrow> M(cmd_Key c := None)
      | OtherOperation _ \<Rightarrow> M)"

lemma apply_effect: "map_of (machine_Apply m c) = command_effect (map_of m) c"
  by (simp add: machine_Apply_def command_effect_def update_conv' delete_conv' split: operation.split)

lemma apply_all_effect: "map_of (foldl machine_Apply m cs) = foldl command_effect (map_of m) cs"
  by (induction cs arbitrary: m) (simp_all add: apply_effect)

lemma live_keys:
  assumes "machine_inv m"
  shows "set (map fst (filter (in_range start end_key p now) m)) =
    {k. \<exists>d. machine_Get m k now = Some d \<and> (p \<noteq> [] \<longrightarrow> HasPrefix k p) \<and> (start \<noteq> [] \<longrightarrow> start \<le> k) \<and> (end_key \<noteq> [] \<longrightarrow> k < end_key)}"
proof (rule set_eqI)
  fix k
  have "k \<in> set (map fst (filter (in_range start end_key p now) m)) \<longleftrightarrow>
      (\<exists>v. map_of m k = Some v \<and> in_range start end_key p now (k, v))"
    using assms by (force simp: machine_inv_def)
  also have "\<dots> \<longleftrightarrow> (\<exists>d. machine_Get m k now = Some d \<and> (p \<noteq> [] \<longrightarrow> HasPrefix k p) \<and> (start \<noteq> [] \<longrightarrow> start \<le> k) \<and>
      (end_key \<noteq> [] \<longrightarrow> k < end_key))"
    by (cases "map_of m k") (auto simp: machine_Get_def in_range_def not_less not_le)
  finally show "k \<in> set (map fst (filter (in_range start end_key p now) m)) \<longleftrightarrow>
      k \<in> {k. \<exists>d. machine_Get m k now = Some d \<and> (p \<noteq> [] \<longrightarrow> HasPrefix k p) \<and> (start \<noteq> [] \<longrightarrow> start \<le> k) \<and>
        (end_key \<noteq> [] \<longrightarrow> k < end_key)}" by simp
qed

text \<open>
  a range read returns the live keys of the range, each with the value a single read returns, in strictly ascending order;
  a positive limit keeps the first of them.
\<close>

theorem range_lists_live_keys:
  assumes "machine_inv m" and "items = machine_Range m start end_key p limit now"
  shows "sorted_wrt (<) (map fst items) \<and> (\<forall>(k, d) \<in> set items. machine_Get m k now = Some d) \<and>
    (limit > 0 \<longrightarrow> int (length items) \<le> limit) \<and>
    (\<forall>k d. machine_Get m k now = Some d \<and> (p \<noteq> [] \<longrightarrow> HasPrefix k p) \<and> (start \<noteq> [] \<longrightarrow> start \<le> k) \<and> (end_key \<noteq> [] \<longrightarrow> k < end_key) \<longrightarrow>
       (k, d) \<in> set items \<or> (limit > 0 \<and> int (length items) = limit \<and> (\<forall>(k', d') \<in> set items. k' < k)))"
proof -
  let ?ks = "sort (map fst (filter (in_range start end_key p now) m))"
  define ks where "ks = (if limit > 0 \<and> int (length ?ks) > limit then take (nat limit) ?ks else ?ks)"
  have items: "items = map (\<lambda>k. (k, kv_Data (the (map_of m k)))) ks"
    using assms(2) by (simp add: machine_Range_def ks_def Let_def)
  have "distinct ?ks" using assms(1) by (simp add: machine_inv_def distinct_map_filter)
  then have strict: "sorted_wrt (<) ?ks" by (simp add: strict_sorted_iff)
  then have sorted_ks: "sorted_wrt (<) ks" by (simp add: ks_def sorted_wrt_take)
  have got: "machine_Get m k now = Some (kv_Data (the (map_of m k)))" if "k \<in> set ?ks" for k
    using that live_keys [OF assms(1)] by (auto simp: machine_Get_def split: option.splits if_splits)
  have sub: "set ks \<subseteq> set ?ks" by (auto simp: ks_def dest: in_set_takeD)
  have reads: "\<forall>k \<in> set ks. machine_Get m k now = Some (kv_Data (the (map_of m k)))" using got sub by blast
  have "int (length ks) \<le> limit" if "limit > 0" using that by (auto simp: ks_def)
  moreover have "(k, d) \<in> set items \<or> (limit > 0 \<and> int (length items) = limit \<and> (\<forall>(k', d') \<in> set items. k' < k))"
    if "machine_Get m k now = Some d" "(p \<noteq> [] \<longrightarrow> HasPrefix k p) \<and> (start \<noteq> [] \<longrightarrow> start \<le> k) \<and> (end_key \<noteq> [] \<longrightarrow> k < end_key)" for k d
  proof -
    have k: "k \<in> set ?ks" using that live_keys [OF assms(1)] by simp
    show ?thesis
    proof (cases "k \<in> set ks")
      case True
      with got [OF k] that(1) show ?thesis by (auto simp: items)
    next
      case False
      with k have cut: "limit > 0" "ks = take (nat limit) ?ks" "int (length ?ks) > limit" by (auto simp: ks_def split: if_splits)
      from k False have "k \<in> set (drop (nat limit) ?ks)" by (metis Un_iff append_take_drop_id cut(2) set_append)
      with strict have "\<forall>k' \<in> set ks. k' < k"
        using sorted_wrt_append [of "(<)" "take (nat limit) ?ks" "drop (nat limit) ?ks"] cut(2) by simp
      with cut show ?thesis by (auto simp: items)
    qed
  qed
  ultimately show ?thesis using sorted_ks reads unfolding items by (auto simp: comp_def)
qed

theorem range_lists_live_keys_witness:
  "sorted_wrt (<) (map fst (machine_Range [([98], \<lparr>kv_Data = [1], kv_ExpiresAt = 0\<rparr>), ([97], \<lparr>kv_Data = [2], kv_ExpiresAt = 9\<rparr>)] [] [] [] 0 5))"
proof -
  have "machine_inv [([98], \<lparr>kv_Data = [1], kv_ExpiresAt = 0\<rparr>), ([97], \<lparr>kv_Data = [2], kv_ExpiresAt = 9\<rparr>)]"
    by (simp add: machine_inv_def)
  from range_lists_live_keys [OF this refl, of "[]" "[]" "[]" 0 5] show ?thesis by blast
qed

end
