(* ===== verification/Scanner.thy ===== *)
theory Scanner
  imports OpLog
begin

text \<open>
  \<^verbatim>\<open>bufio.Scanner\<close> over a file, as the stores use it to read their logs, and what it makes of files
  written one line at a time.
\<close>

text \<open>
  A line whose newline is not among the first \<open>n\<close> bytes is too long, where \<open>n\<close> is 65536 unless the scanner was given a buffer; the last line may lack its newline, and a carriage return before the newline is dropped. The result is the
  tokens and whether the scanner ended without an error.
\<close>

definition MaxScanTokenSize :: nat where "MaxScanTokenSize = 64 * 1024"

definition dropCR :: "byte list \<Rightarrow> byte list" where
  "dropCR line = (if line \<noteq> [] \<and> last line = 13 then butlast line else line)"

function scan_lines :: "nat \<Rightarrow> byte list \<Rightarrow> byte list list \<times> bool" where
  "scan_lines n bytes =
     (if bytes = [] then ([], True)
      else case ReadBytes bytes of
        None \<Rightarrow> if length bytes \<ge> n then ([], False) else ([dropCR bytes], True)
      | Some (line, rest) \<Rightarrow>
          if length line \<ge> n then ([], False)
          else (case scan_lines n rest of (tokens, ok) \<Rightarrow> (dropCR line # tokens, ok)))"
  by pat_completeness auto
termination
  by (relation "measure (\<lambda>(n, bytes). length bytes)") (auto dest: ReadBytes_length)

declare scan_lines.simps [simp del]

text \<open>The loop \<^verbatim>\<open>for scanner.Scan()\<close> followed by \<^verbatim>\<open>scanner.Err()\<close>.\<close>

definition scan_loop :: "nat \<Rightarrow> ('s \<Rightarrow> byte list \<Rightarrow> ('e, 's) result) \<Rightarrow> 'e \<Rightarrow> byte list \<Rightarrow> 's \<Rightarrow> ('e, 's) result" where
  "scan_loop n body tooLong bytes s =
     (case scan_lines n bytes of (tokens, ok) \<Rightarrow>
        rbind (foldr_err body s tokens) (\<lambda>s. if ok then Inr s else Inl tooLong))"

subsection \<open>Files of lines\<close>

definition line_ok :: "byte list \<Rightarrow> bool" where
  "line_ok l \<longleftrightarrow> newline \<notin> set l \<and> l \<noteq> [] \<and> last l \<noteq> 13"

definition lines_file :: "byte list list \<Rightarrow> byte list" where
  "lines_file ls = concat (map (\<lambda>l. l @ [newline]) ls)"

definition short :: "nat \<Rightarrow> byte list \<Rightarrow> bool" where
  "short n l \<longleftrightarrow> length l < n"

lemma lines_file_simps [simp]:
  "lines_file [] = []" "lines_file (l # ls) = l @ newline # lines_file ls" "lines_file (ls @ ms) = lines_file ls @ lines_file ms"
  by (simp_all add: lines_file_def)

lemma dropCR_line [simp]: "line_ok l \<Longrightarrow> dropCR l = l"
  by (simp add: dropCR_def line_ok_def)

lemma scan_line:
  assumes "line_ok l"
  shows "scan_lines n (l @ newline # rest) =
    (if short n l then (case scan_lines n rest of (tokens, ok) \<Rightarrow> (l # tokens, ok)) else ([], False))"
proof -
  have "ReadBytes (l @ newline # rest) = Some (l, rest)" using assms ReadBytes_line by (simp add: line_ok_def)
  then show ?thesis using assms by (subst scan_lines.simps) (simp add: short_def not_less)
qed

text \<open>A file of lines is read up to the first line that is too long, and the rest only if there is none.\<close>

lemma scan_file:
  assumes "\<forall>l \<in> set ls. line_ok l"
  shows "scan_lines n (lines_file ls @ rest) =
    (if \<forall>l \<in> set ls. short n l then (case scan_lines n rest of (tokens, ok) \<Rightarrow> (ls @ tokens, ok)) else (takeWhile (short n) ls, False))"
  using assms by (induction ls) (auto simp: scan_line split: prod.split)

lemma scan_nothing [simp]: "scan_lines n [] = ([], True)"
  by (simp add: scan_lines.simps)

lemma scan_torn:
  assumes "newline \<notin> set torn" and "torn \<noteq> []" and "short n torn"
  shows "scan_lines n torn = ([dropCR torn], True)"
proof -
  have "ReadBytes torn = None" using assms(1) by (simp add: ReadBytes_none)
  then show ?thesis using assms(2,3) by (subst scan_lines.simps) (simp add: short_def)
qed

lemma scan_loop_file:
  assumes "\<forall>l \<in> set ls. line_ok l" and "\<forall>l \<in> set ls. short n l"
  shows "scan_loop n body e (lines_file ls) s = foldr_err body s ls"
  using scan_file [OF assms(1), where rest = "[]" and n = n] assms(2) by (simp add: scan_loop_def rbind_def split: sum.split)

lemma scan_loop_long:
  assumes "\<forall>l \<in> set ls. line_ok l" and "\<not> (\<forall>l \<in> set ls. short n l)" and "foldr_err body s (takeWhile (short n) ls) = Inr s'"
  shows "scan_loop n body e (lines_file ls) s = Inl e"
  using scan_file [OF assms(1), where rest = "[]" and n = n] assms(2,3) by (auto simp: scan_loop_def rbind_def)

end
