(* ===== verification/RaftStore.thy ===== *)
theory RaftStore
  imports KVState Scanner
begin

text \<open>
  The files of a Raft node (\<^verbatim>\<open>engineering-labs/quorum-kv/internal/kv/storage.go\<close>): metadata, a write-ahead log of one
  JSON line per entry, a snapshot. \<open>C\<close> is the JSON encoding of entries; metadata and snapshot are replaced
  as a whole and appear as values. The interface \<open>entry_store\<close> is what a node needs of its log file.
\<close>

subsection \<open>Data\<close>

record entry =
  e_Index :: nat
  e_Term :: nat
  e_Command :: command

record metadata =
  md_Term :: nat
  md_VotedFor :: str
  md_CommitIndex :: nat

record diskSnapshot =
  ds_LastApplied :: nat
  ds_Data :: machine

record entry_codec =
  ec_marshal :: "entry \<Rightarrow> byte list"
  ec_unmarshal :: "byte list \<Rightarrow> entry option"

record logStore =
  ls_log :: "byte list option"
  ls_meta :: "metadata option"
  ls_snapshot :: "diskSnapshot option"

datatype store_error = ErrDecodeWAL | ErrNonContiguous nat | ErrTooLong | ErrStoreIO | ErrCommitExceedsLog nat

definition no_command :: command where
  "no_command = \<lparr>cmd_Operation = OtherOperation [], cmd_Key = [], cmd_Value = [], cmd_ExpiresAt = 0\<rparr>"

text \<open>\<^verbatim>\<open>Entry{Index: 0, Term: 0}\<close>\<close>

definition sentinel :: entry where "sentinel = \<lparr>e_Index = 0, e_Term = 0, e_Command = no_command\<rparr>"

definition empty_store :: logStore where "empty_store = \<lparr>ls_log = None, ls_meta = None, ls_snapshot = None\<rparr>"

subsection \<open>Reading the log\<close>

definition read_entry :: "entry_codec \<Rightarrow> entry list \<Rightarrow> byte list \<Rightarrow> (store_error, entry list) result" where
  "read_entry C entries token =
     (case ec_unmarshal C token of
        None \<Rightarrow> Inl ErrDecodeWAL
      | Some e \<Rightarrow> if e_Index e \<noteq> length entries then Inl (ErrNonContiguous (e_Index e)) else Inr (entries @ [e]))"

definition readEntries :: "entry_codec \<Rightarrow> logStore \<Rightarrow> (store_error, entry list) result" where
  "readEntries C s =
     (case ls_log s of None \<Rightarrow> Inr [sentinel] | Some bytes \<Rightarrow> scan_loop MaxScanTokenSize (read_entry C) ErrTooLong bytes [sentinel])"

definition OpenLogStore :: "entry_codec \<Rightarrow> logStore \<Rightarrow> (store_error, metadata \<times> entry list) result" where
  "OpenLogStore C s =
     (let meta = (case ls_meta s of None \<Rightarrow> \<lparr>md_Term = 0, md_VotedFor = [], md_CommitIndex = 0\<rparr> | Some meta \<Rightarrow> meta) in
      case readEntries C s of Inl e \<Rightarrow> Inl e | Inr entries \<Rightarrow> Inr (meta, entries))"

subsection \<open>Writing\<close>

text \<open>\<^verbatim>\<open>json.Encoder\<close> writes the value and a newline.\<close>

definition encode_entry :: "entry_codec \<Rightarrow> entry \<Rightarrow> byte list" where
  "encode_entry C e = ec_marshal C e @ [newline]"

text \<open>An append succeeds, or fails after some bytes of the line reached the file.\<close>

datatype append_io = AppendOk | AppendFails nat

definition log_bytes_of :: "logStore \<Rightarrow> byte list" where
  "log_bytes_of s = (case ls_log s of None \<Rightarrow> [] | Some bytes \<Rightarrow> bytes)"

definition store_Append :: "entry_codec \<Rightarrow> append_io \<Rightarrow> logStore \<Rightarrow> entry \<Rightarrow> logStore \<times> bool" where
  "store_Append C io s e =
     (case io of
        AppendOk \<Rightarrow> (s\<lparr>ls_log := Some (log_bytes_of s @ encode_entry C e)\<rparr>, True)
      | AppendFails n \<Rightarrow> (s\<lparr>ls_log := Some (log_bytes_of s @ take n (encode_entry C e))\<rparr>, False))"

text \<open>The temporary file is renamed into place only when it is written and synced.\<close>

definition store_Rewrite :: "entry_codec \<Rightarrow> bool \<Rightarrow> logStore \<Rightarrow> entry list \<Rightarrow> logStore \<times> bool" where
  "store_Rewrite C ok s entries =
     (if ok then (s\<lparr>ls_log := Some (concat (map (encode_entry C) (filter (\<lambda>e. e_Index e \<noteq> 0) entries)))\<rparr>, True)
      else (s, False))"

definition SaveMetadata :: "bool \<Rightarrow> logStore \<Rightarrow> metadata \<Rightarrow> logStore \<times> bool" where
  "SaveMetadata ok s meta = (if ok then (s\<lparr>ls_meta := Some meta\<rparr>, True) else (s, False))"

definition SaveSnapshot :: "bool \<Rightarrow> logStore \<Rightarrow> nat \<Rightarrow> machine \<Rightarrow> logStore \<times> bool" where
  "SaveSnapshot ok s lastApplied m =
     (if ok then (s\<lparr>ls_snapshot := Some \<lparr>ds_LastApplied = lastApplied, ds_Data = copyData m\<rparr>\<rparr>, True) else (s, False))"

definition LoadSnapshot :: "logStore \<Rightarrow> machine \<Rightarrow> machine \<times> nat" where
  "LoadSnapshot s m =
     (case ls_snapshot s of None \<Rightarrow> (m, 0) | Some snap \<Rightarrow> (replaceData m (ds_Data snap), ds_LastApplied snap))"

subsection \<open>What a file of entries reads back as\<close>

definition entry_codec_ok :: "entry_codec \<Rightarrow> bool" where
  "entry_codec_ok C \<longleftrightarrow> (\<forall>e. ec_unmarshal C (ec_marshal C e) = Some e \<and> line_ok (ec_marshal C e))"

text \<open>The entries of a node's log: the sentinel, then entries numbered by their position.\<close>

definition log_ok :: "entry list \<Rightarrow> bool" where
  "log_ok es \<longleftrightarrow> es \<noteq> [] \<and> es ! 0 = sentinel \<and> (\<forall>k < length es. e_Index (es ! k) = k)"

definition fits :: "entry_codec \<Rightarrow> entry \<Rightarrow> bool" where
  "fits C e \<longleftrightarrow> short MaxScanTokenSize (ec_marshal C e)"

definition file_of :: "entry_codec \<Rightarrow> entry list \<Rightarrow> byte list" where
  "file_of C es = concat (map (encode_entry C) es)"

lemma read_entry_all:
  assumes "entry_codec_ok C" and "\<forall>k < length es. e_Index (es ! k) = length entries + k"
  shows "foldr_err (read_entry C) entries (map (ec_marshal C) es) = Inr (entries @ es)"
  using assms(2)
proof (induction es arbitrary: entries)
  case Nil
  then show ?case by simp
next
  case (Cons e es)
  have "e_Index e = length entries" using Cons.prems by fastforce
  moreover have "\<forall>k < length es. e_Index (es ! k) = length (entries @ [e]) + k" using Cons.prems by force
  ultimately show ?case
    using Cons.IH [of "entries @ [e]"] assms(1) by (simp add: read_entry_def entry_codec_ok_def)
qed

lemma readEntries_file:
  assumes "entry_codec_ok C" and "\<forall>k < length es. e_Index (es ! k) = length entries + k"
  shows "scan_loop MaxScanTokenSize (read_entry C) ErrTooLong (file_of C es) entries =
    (if \<forall>e \<in> set es. fits C e then Inr (entries @ es) else Inl ErrTooLong)"
proof -
  let ?ls = "map (ec_marshal C) es"
  have content: "file_of C es = lines_file ?ls" by (simp add: file_of_def lines_file_def encode_entry_def [abs_def] comp_def)
  have ok: "\<forall>l \<in> set ?ls. line_ok l" using assms(1) by (simp add: entry_codec_ok_def)
  show ?thesis
  proof (cases "\<forall>l \<in> set ?ls. short MaxScanTokenSize l")
    case True
    then show ?thesis using scan_loop_file [OF ok True, where body = "read_entry C" and e = ErrTooLong and s = entries] read_entry_all [OF assms] by (simp add: content fits_def)
  next
    case False
    obtain n where n: "takeWhile (short MaxScanTokenSize) ?ls = map (ec_marshal C) (take n es)"
      by (metis takeWhile_eq_take take_map)
    have "\<forall>k < length (take n es). e_Index (take n es ! k) = length entries + k" using assms(2) by simp
    from scan_loop_long [OF ok False, where body = "read_entry C" and e = ErrTooLong and s = entries] read_entry_all [OF assms(1) this] n False show ?thesis by (simp add: content fits_def)
  qed
qed

definition store_holds :: "entry_codec \<Rightarrow> logStore \<Rightarrow> entry list \<Rightarrow> bool" where
  "store_holds C s es \<longleftrightarrow> entry_codec_ok C \<and> log_ok es \<and> log_bytes_of s = file_of C (tl es)"

lemma log_ok_sentinel: "log_ok [sentinel]"
  by (simp add: log_ok_def sentinel_def)

lemma log_ok_snoc: "log_ok es \<Longrightarrow> e_Index e = length es \<Longrightarrow> log_ok (es @ [e])"
  by (auto simp: log_ok_def nth_append less_Suc_eq)

lemma log_ok_cons: "log_ok es \<Longrightarrow> es = sentinel # tl es"
  by (cases es) (auto simp: log_ok_def)

lemma holds_read:
  assumes "store_holds C s es"
  shows "readEntries C s = (if \<forall>e \<in> set (tl es). fits C e then Inr es else Inl ErrTooLong)"
proof -
  have es: "log_ok es" "log_bytes_of s = file_of C (tl es)" and C: "entry_codec_ok C"
    using assms by (simp_all add: store_holds_def)
  have ix: "\<forall>k < length (tl es). e_Index (tl es ! k) = length [sentinel] + k"
    using es(1) by (auto simp: log_ok_def nth_tl)
  show ?thesis
  proof (cases "ls_log s")
    case None
    then have "file_of C (tl es) = []" using es(2) by (simp add: log_bytes_of_def)
    then have "tl es = []" by (cases "tl es") (simp_all add: file_of_def encode_entry_def)
    then show ?thesis using log_ok_cons [OF es(1)] None by (simp add: readEntries_def)
  next
    case (Some bytes)
    then have "bytes = file_of C (tl es)" using es(2) by (simp add: log_bytes_of_def)
    with readEntries_file [OF C ix] log_ok_cons [OF es(1)] Some show ?thesis by (simp add: readEntries_def)
  qed
qed

lemma filter_sentinel: "log_ok es \<Longrightarrow> filter (\<lambda>e. e_Index e \<noteq> 0) es = tl es"
proof -
  assume ok: "log_ok es"
  then have "\<forall>e \<in> set (tl es). e_Index e \<noteq> 0" by (auto simp: log_ok_def in_set_conv_nth nth_tl)
  then have "filter (\<lambda>e. e_Index e \<noteq> 0) (tl es) = tl es" by simp
  then show ?thesis by (subst log_ok_cons [OF ok]) (simp add: sentinel_def)
qed

subsection \<open>The log file as an interface\<close>

text \<open>
  What a node needs of its log file: an append or a rewrite that reports success holds the new entries, and reading gives
  the entries held or an error, never other entries.
\<close>

locale entry_store =
  fixes append_one :: "'s \<Rightarrow> entry \<Rightarrow> 's \<times> bool" and rewrite_all :: "'s \<Rightarrow> entry list \<Rightarrow> 's \<times> bool"
    and load :: "'s \<Rightarrow> (store_error, entry list) result" and holds :: "'s \<Rightarrow> entry list \<Rightarrow> bool"
  assumes append_ok: "holds s es \<Longrightarrow> e_Index e = length es \<Longrightarrow> append_one s e = (s', True) \<Longrightarrow> holds s' (es @ [e])"
    and rewrite_ok: "holds s es \<Longrightarrow> log_ok es' \<Longrightarrow> rewrite_all s es' = (s', True) \<Longrightarrow> holds s' es'"
    and rewrite_failed: "holds s es \<Longrightarrow> rewrite_all s es' = (s', False) \<Longrightarrow> holds s' es"
    and load_held: "holds s es \<Longrightarrow> load s = Inr es \<or> (\<exists>e. load s = Inl e)"
begin

text \<open>Rewriting keeps the file in step with the log if it is only ever rewritten to good logs.\<close>

lemma rewrite_holds:
  assumes "holds s es" and "log_ok es'" and "rewrite_all s es' = (s', ok)"
  shows "holds s' (if ok then es' else es)"
  using rewrite_ok [OF assms(1,2)] rewrite_failed [OF assms(1)] assms(3) by (cases ok) auto

lemma loaded_is_held: "holds s es \<Longrightarrow> load s = Inr es' \<Longrightarrow> es' = es"
  using load_held by fastforce

end

text \<open>The WAL file is such a store, for every encoding that reads back what it writes.\<close>

interpretation wal: entry_store "store_Append C io" "store_Rewrite C ok" "readEntries C" "store_holds C" for C io ok
proof (unfold_locales, goal_cases)
  case (1 s es e s')
  moreover have "tl (es @ [e]) = tl es @ [e]" using 1(1) by (auto simp: store_holds_def log_ok_def)
  ultimately show ?case
    by (auto simp: store_holds_def store_Append_def log_ok_snoc file_of_def log_bytes_of_def split: append_io.splits)
next
  case (2 s es es' s')
  then show ?case
    by (cases ok) (auto simp: store_holds_def store_Rewrite_def filter_sentinel file_of_def log_bytes_of_def simp del: neq0_conv)
next
  case (3 s es es' s')
  then show ?case by (auto simp: store_Rewrite_def split: if_splits)
next
  case (4 s es)
  with holds_read [OF 4] show ?case by auto
qed

end
