(* ===== verification/Raft.thy ===== *)
theory Raft
  imports RaftStore
begin

text \<open>
  A Raft node (\<^verbatim>\<open>engineering-labs/quorum-kv/internal/kv/raft.go\<close>). Every stretch of code between taking and releasing
  the node's mutex is one function from node to node; a call that waits for other nodes is several of them:
  \<open>startElection\<close> is \<open>election_begin\<close>, one \<open>election_count\<close> per response and \<open>election_end\<close>; \<open>Propose\<close> is
  \<open>propose_begin\<close>, the rounds \<open>replicate_request\<close> and \<open>replicate_response\<close> per peer, and \<open>propose_end\<close>. Booleans
  say whether a write to disk succeeds. A result \<open>None\<close> is a panic, an index out of range.
\<close>

subsection \<open>Messages and state\<close>

datatype role = Follower | Candidate | Leader

record requestVote =
  rv_Term :: nat
  rv_CandidateID :: str
  rv_LastLogIndex :: nat
  rv_LastLogTerm :: nat

record voteResponse =
  vr_Term :: nat
  vr_VoteGranted :: bool

record appendEntries =
  ae_Term :: nat
  ae_LeaderID :: str
  ae_PrevLogIndex :: nat
  ae_PrevLogTerm :: nat
  ae_Entries :: "entry list"
  ae_LeaderCommit :: nat

record appendResponse =
  ar_Term :: nat
  ar_Success :: bool
  ar_ConflictIndex :: nat

record node =
  n_id :: str
  n_peers :: "str list"
  n_store :: logStore
  n_machine :: machine
  n_role :: role
  n_term :: nat
  n_votedFor :: str
  n_leaderID :: str
  n_log :: "entry list"
  n_commitIndex :: nat
  n_lastApplied :: nat

datatype raft_error = ErrNotLeader | ErrRaftIO | PanicIndex

subsection \<open>Starting\<close>

text \<open>The entries after \<open>applied\<close> up to \<open>commit\<close>, applied in order.\<close>

definition apply_between :: "machine \<Rightarrow> entry list \<Rightarrow> nat \<Rightarrow> nat \<Rightarrow> machine" where
  "apply_between m es applied commit = foldl (\<lambda>m k. machine_Apply m (e_Command (es ! k))) m [applied + 1..<commit + 1]"

definition NewNode :: "entry_codec \<Rightarrow> str \<Rightarrow> str list \<Rightarrow> logStore \<Rightarrow> (store_error, node) result" where
  "NewNode C nid peers store =
     (case OpenLogStore C store of
        Inl e \<Rightarrow> Inl e
      | Inr (meta, entries) \<Rightarrow>
          (case LoadSnapshot store NewStateMachine of
             (m, lastApplied) \<Rightarrow>
               if md_CommitIndex meta \<ge> length entries then Inl (ErrCommitExceedsLog (md_CommitIndex meta))
               else Inr \<lparr>n_id = nid, n_peers = peers, n_store = store,
                 n_machine = apply_between m entries lastApplied (md_CommitIndex meta),
                 n_role = Follower, n_term = md_Term meta, n_votedFor = md_VotedFor meta, n_leaderID = [], n_log = entries,
                 n_commitIndex = md_CommitIndex meta, n_lastApplied = max lastApplied (md_CommitIndex meta)\<rparr>))"

subsection \<open>Small steps under the lock\<close>

definition persistMetadataLocked :: "bool \<Rightarrow> node \<Rightarrow> node \<times> bool" where
  "persistMetadataLocked ok n =
     (case SaveMetadata ok (n_store n) \<lparr>md_Term = n_term n, md_VotedFor = n_votedFor n, md_CommitIndex = n_commitIndex n\<rparr> of
        (s, done) \<Rightarrow> (n\<lparr>n_store := s\<rparr>, done))"

definition becomeFollowerLocked :: "bool \<Rightarrow> node \<Rightarrow> nat \<Rightarrow> str \<Rightarrow> node" where
  "becomeFollowerLocked ok n new_term leader =
     (let n = (if new_term > n_term n then n\<lparr>n_term := new_term, n_votedFor := []\<rparr> else n) in
      fst (persistMetadataLocked ok (n\<lparr>n_role := Follower, n_leaderID := leader\<rparr>)))"

definition applyCommittedLocked :: "node \<Rightarrow> node option" where
  "applyCommittedLocked n =
     (if n_lastApplied n < n_commitIndex n then
        (if n_commitIndex n < length (n_log n)
         then Some (n\<lparr>n_machine := apply_between (n_machine n) (n_log n) (n_lastApplied n) (n_commitIndex n),
                      n_lastApplied := n_commitIndex n\<rparr>)
         else None)
      else Some n)"

definition needed :: "node \<Rightarrow> nat" where "needed n = (length (n_peers n) + 1) div 2 + 1"

subsection \<open>Elections\<close>

definition election_begin :: "bool \<Rightarrow> node \<Rightarrow> node \<times> requestVote option" where
  "election_begin ok n =
     (if n_role n = Leader then (n, None)
      else
        let n = n\<lparr>n_role := Candidate, n_term := n_term n + 1, n_votedFor := n_id n, n_leaderID := []\<rparr>;
            last_entry = last (n_log n)
        in (fst (persistMetadataLocked ok n),
            Some \<lparr>rv_Term = n_term n, rv_CandidateID = n_id n, rv_LastLogIndex = e_Index last_entry,
                  rv_LastLogTerm = e_Term last_entry\<rparr>))"

text \<open>One response; no count means the candidate gave up.\<close>

definition election_count :: "bool \<Rightarrow> node \<Rightarrow> nat \<Rightarrow> voteResponse \<Rightarrow> node \<times> nat option" where
  "election_count ok n granted response =
     (if vr_Term response > n_term n then (becomeFollowerLocked ok n (vr_Term response) [], None)
      else (n, Some (if vr_VoteGranted response then granted + 1 else granted)))"

definition election_end :: "node \<Rightarrow> nat \<Rightarrow> node" where
  "election_end n election_term =
     (if n_role n = Candidate \<and> n_term n = election_term then n\<lparr>n_role := Leader, n_leaderID := n_id n\<rparr> else n)"

definition HandleRequestVote :: "bool \<times> bool \<Rightarrow> node \<Rightarrow> requestVote \<Rightarrow> node \<times> voteResponse" where
  "HandleRequestVote ok n request =
     (if rv_Term request < n_term n then (n, \<lparr>vr_Term = n_term n, vr_VoteGranted = False\<rparr>)
      else
        let n = (if rv_Term request > n_term n then becomeFollowerLocked (fst ok) n (rv_Term request) [] else n);
            last_entry = last (n_log n);
            upToDate = (rv_LastLogTerm request > e_Term last_entry \<or>
              (rv_LastLogTerm request = e_Term last_entry \<and> rv_LastLogIndex request \<ge> e_Index last_entry))
        in if upToDate \<and> (n_votedFor n = [] \<or> n_votedFor n = rv_CandidateID request)
           then (fst (persistMetadataLocked (snd ok) (n\<lparr>n_votedFor := rv_CandidateID request\<rparr>)),
                 \<lparr>vr_Term = n_term n, vr_VoteGranted = True\<rparr>)
           else (n, \<lparr>vr_Term = n_term n, vr_VoteGranted = False\<rparr>))"

subsection \<open>Log replication\<close>

fun conflict_start :: "entry list \<Rightarrow> nat \<Rightarrow> nat \<Rightarrow> nat" where
  "conflict_start es t 0 = 0"
| "conflict_start es t (Suc index) = (if e_Term (es ! index) = t then conflict_start es t index else Suc index)"

fun merge_entries :: "entry list \<Rightarrow> nat \<Rightarrow> entry list \<Rightarrow> bool \<Rightarrow> entry list \<times> bool" where
  "merge_entries es index [] changed = (es, changed)"
| "merge_entries es index (incoming # rest) changed =
     (let (es, changed) = (if index < length es \<and> e_Term (es ! index) \<noteq> e_Term incoming then (take index es, True) else (es, changed));
          (es, changed) = (if index = length es then (es @ [incoming], True) else (es, changed))
      in merge_entries es (index + 1) rest changed)"

text \<open>The writes: metadata on stepping down, the log, metadata after a commit.\<close>

record append_writes =
  aw_step_down :: bool
  aw_rewrite :: bool
  aw_commit :: bool

definition refuse :: "node \<Rightarrow> nat \<Rightarrow> appendResponse" where
  "refuse n index = \<lparr>ar_Term = n_term n, ar_Success = False, ar_ConflictIndex = index\<rparr>"

definition HandleAppendEntries :: "entry_codec \<Rightarrow> append_writes \<Rightarrow> node \<Rightarrow> appendEntries \<Rightarrow> (node \<times> appendResponse) option" where
  "HandleAppendEntries C ok n request =
     (if ae_Term request < n_term n then Some (n, refuse n (length (n_log n)))
      else
        let n = (if ae_Term request > n_term n \<or> n_role n \<noteq> Follower
                 then becomeFollowerLocked (aw_step_down ok) n (ae_Term request) (ae_LeaderID request) else n);
            n = n\<lparr>n_leaderID := ae_LeaderID request\<rparr>
        in if ae_PrevLogIndex request \<ge> length (n_log n) then Some (n, refuse n (length (n_log n)))
           else if e_Term (n_log n ! ae_PrevLogIndex request) \<noteq> ae_PrevLogTerm request
           then Some (n, refuse n (conflict_start (n_log n) (e_Term (n_log n ! ae_PrevLogIndex request)) (ae_PrevLogIndex request)))
           else
             (case merge_entries (n_log n) (ae_PrevLogIndex request + 1) (ae_Entries request) False of
                (es, changed) \<Rightarrow>
                  let n = n\<lparr>n_log := es\<rparr>;
                      (s, written) = (if changed then store_Rewrite C (aw_rewrite ok) (n_store n) es else (n_store n, True));
                      n = n\<lparr>n_store := s\<rparr>
                  in if \<not> written then Some (n, refuse n (length (n_log n)))
                     else
                       let success = \<lparr>ar_Term = n_term n, ar_Success = True, ar_ConflictIndex = 0\<rparr> in
                       if ae_LeaderCommit request > n_commitIndex n then
                         (case applyCommittedLocked (n\<lparr>n_commitIndex := min (ae_LeaderCommit request) (length (n_log n) - 1)\<rparr>) of
                            None \<Rightarrow> None
                          | Some n \<Rightarrow> Some (fst (persistMetadataLocked (aw_commit ok) n), success))
                       else Some (n, success)))"

definition propose_begin :: "entry_codec \<Rightarrow> append_io \<Rightarrow> node \<Rightarrow> command \<Rightarrow> node \<times> (raft_error, entry \<times> nat) result" where
  "propose_begin C io n c =
     (if n_role n \<noteq> Leader then (n, Inl ErrNotLeader)
      else
        let e = \<lparr>e_Index = length (n_log n), e_Term = n_term n, e_Command = c\<rparr> in
        (case store_Append C io (n_store n) e of
           (s, False) \<Rightarrow> (n\<lparr>n_store := s\<rparr>, Inl ErrRaftIO)
         | (s, True) \<Rightarrow> (n\<lparr>n_store := s, n_log := n_log n @ [e]\<rparr>, Inr (e, n_term n))))"

text \<open>
  What a leader sends a peer, whose next entry is \<open>next_index\<close>. The index below it is a \<^verbatim>\<open>uint64\<close>, so that 0 wraps around
  to an index out of range.
\<close>

definition replicate_request :: "node \<Rightarrow> nat \<Rightarrow> nat \<Rightarrow> (raft_error, appendEntries) result" where
  "replicate_request n expectedTerm next_index =
     (if n_role n \<noteq> Leader \<or> n_term n \<noteq> expectedTerm then Inl ErrNotLeader
      else if next_index = 0 \<or> next_index > length (n_log n) then Inl PanicIndex
      else Inr \<lparr>ae_Term = n_term n, ae_LeaderID = n_id n, ae_PrevLogIndex = next_index - 1,
        ae_PrevLogTerm = e_Term (n_log n ! (next_index - 1)), ae_Entries = drop next_index (n_log n),
        ae_LeaderCommit = n_commitIndex n\<rparr>)"

text \<open>The end of a round: the answer for this peer, or the next index to try.\<close>

definition replicate_response :: "bool \<Rightarrow> node \<Rightarrow> appendResponse \<Rightarrow> node \<times> (bool + nat)" where
  "replicate_response ok n response =
     (if ar_Term response > n_term n then (becomeFollowerLocked ok n (ar_Term response) [], Inl False)
      else if ar_Success response then (n, Inl True)
      else if ar_ConflictIndex response = 0 then (n, Inl False)
      else (n, Inr (ar_ConflictIndex response)))"

definition first_next :: "node \<Rightarrow> nat" where "first_next n = length (n_log n) - 1"

text \<open>
  \<^verbatim>\<open>replicateToPeer\<close> while nobody else takes the lock and every request reaches the peer \<open>f\<close>; no result means that the fuel
  did not suffice.
\<close>

fun replicate_rounds :: "entry_codec \<Rightarrow> append_writes \<Rightarrow> bool \<Rightarrow> nat \<Rightarrow> node \<Rightarrow> node \<Rightarrow> nat \<Rightarrow> nat \<Rightarrow>
    (raft_error, node \<times> node \<times> bool) result option" where
  "replicate_rounds C aw ok 0 n f expectedTerm next_index = None"
| "replicate_rounds C aw ok (Suc fuel) n f expectedTerm next_index =
     (case replicate_request n expectedTerm next_index of
        Inl e \<Rightarrow> Some (if e = ErrNotLeader then Inr (n, f, False) else Inl e)
      | Inr request \<Rightarrow>
          (case HandleAppendEntries C aw f request of
             None \<Rightarrow> Some (Inl PanicIndex)
           | Some (f, response) \<Rightarrow>
               (case replicate_response ok n response of
                  (n, Inl answer) \<Rightarrow> Some (Inr (n, f, answer))
                | (n, Inr next_index) \<Rightarrow> replicate_rounds C aw ok fuel n f expectedTerm next_index)))"

definition replicateToPeer :: "entry_codec \<Rightarrow> append_writes \<Rightarrow> bool \<Rightarrow> nat \<Rightarrow> node \<Rightarrow> node \<Rightarrow> nat \<Rightarrow>
    (raft_error, node \<times> node \<times> bool) result option" where
  "replicateToPeer C aw ok fuel n f expectedTerm = replicate_rounds C aw ok fuel n f expectedTerm (first_next n)"

definition propose_end :: "bool \<Rightarrow> node \<Rightarrow> nat \<Rightarrow> entry \<Rightarrow> (node \<times> (raft_error, nat) result) option" where
  "propose_end ok n start_term e =
     (if n_role n \<noteq> Leader \<or> n_term n \<noteq> start_term then Some (n, Inl ErrNotLeader)
      else
        (case applyCommittedLocked (n\<lparr>n_commitIndex := e_Index e\<rparr>) of
           None \<Rightarrow> None
         | Some n \<Rightarrow>
             (case persistMetadataLocked ok n of
                (n, False) \<Rightarrow> Some (n, Inl ErrRaftIO)
              | (n, True) \<Rightarrow> Some (n, Inr (e_Index e)))))"

subsection \<open>Reads\<close>

definition heartbeat_request :: "node \<Rightarrow> appendEntries option" where
  "heartbeat_request n =
     (if n_role n \<noteq> Leader then None
      else Some \<lparr>ae_Term = n_term n, ae_LeaderID = n_id n, ae_PrevLogIndex = e_Index (last (n_log n)),
        ae_PrevLogTerm = e_Term (last (n_log n)), ae_Entries = [], ae_LeaderCommit = n_commitIndex n\<rparr>)"

definition quorumHeartbeat :: "node \<Rightarrow> nat \<Rightarrow> bool" where
  "quorumHeartbeat n successes \<longleftrightarrow> n_role n = Leader \<and> 1 + successes \<ge> needed n"

text \<open>The machine is read after the heartbeats, when the node is \<open>later\<close>.\<close>

definition LinearizableGet :: "node \<Rightarrow> nat \<Rightarrow> node \<Rightarrow> str \<Rightarrow> time \<Rightarrow> (raft_error, str option) result" where
  "LinearizableGet n successes later k now =
     (if \<not> quorumHeartbeat n successes then Inl ErrNotLeader else Inr (machine_Get (n_machine later) k now))"

definition LinearizableRange :: "node \<Rightarrow> nat \<Rightarrow> node \<Rightarrow> str \<Rightarrow> str \<Rightarrow> str \<Rightarrow> int \<Rightarrow> time \<Rightarrow> (raft_error, (str \<times> str) list) result" where
  "LinearizableRange n successes later start end_key p limit now =
     (if \<not> quorumHeartbeat n successes then Inl ErrNotLeader
      else Inr (machine_Range (n_machine later) start end_key p limit now))"

definition node_Snapshot :: "bool \<Rightarrow> node \<Rightarrow> node \<times> bool" where
  "node_Snapshot ok n =
     (case SaveSnapshot ok (n_store n) (n_lastApplied n) (n_machine n) of (s, done) \<Rightarrow> (n\<lparr>n_store := s\<rparr>, done))"

subsection \<open>What the steps change\<close>

lemma persist_fields [simp]:
  "n_id (fst (persistMetadataLocked ok n)) = n_id n" "n_peers (fst (persistMetadataLocked ok n)) = n_peers n"
  "n_role (fst (persistMetadataLocked ok n)) = n_role n" "n_term (fst (persistMetadataLocked ok n)) = n_term n"
  "n_votedFor (fst (persistMetadataLocked ok n)) = n_votedFor n" "n_log (fst (persistMetadataLocked ok n)) = n_log n"
  "n_commitIndex (fst (persistMetadataLocked ok n)) = n_commitIndex n" "n_machine (fst (persistMetadataLocked ok n)) = n_machine n"
  "n_lastApplied (fst (persistMetadataLocked ok n)) = n_lastApplied n"
  "ls_log (n_store (fst (persistMetadataLocked ok n))) = ls_log (n_store n)"
  "ls_snapshot (n_store (fst (persistMetadataLocked ok n))) = ls_snapshot (n_store n)"
  by (simp_all add: persistMetadataLocked_def SaveMetadata_def split: prod.split)

lemma persist_meta [simp]:
  "ls_meta (n_store (fst (persistMetadataLocked True n))) =
     Some \<lparr>md_Term = n_term n, md_VotedFor = n_votedFor n, md_CommitIndex = n_commitIndex n\<rparr>"
  by (simp add: persistMetadataLocked_def SaveMetadata_def)

lemma follower_fields [simp]:
  "n_id (becomeFollowerLocked ok n t l) = n_id n" "n_peers (becomeFollowerLocked ok n t l) = n_peers n"
  "n_role (becomeFollowerLocked ok n t l) = Follower" "n_term (becomeFollowerLocked ok n t l) = max t (n_term n)"
  "n_votedFor (becomeFollowerLocked ok n t l) = (if t > n_term n then [] else n_votedFor n)"
  "n_log (becomeFollowerLocked ok n t l) = n_log n"
  "n_commitIndex (becomeFollowerLocked ok n t l) = n_commitIndex n" "n_machine (becomeFollowerLocked ok n t l) = n_machine n"
  "n_lastApplied (becomeFollowerLocked ok n t l) = n_lastApplied n"
  "ls_log (n_store (becomeFollowerLocked ok n t l)) = ls_log (n_store n)"
  by (simp_all add: becomeFollowerLocked_def Let_def)

lemma follower_meta [simp]:
  "ls_meta (n_store (becomeFollowerLocked True n t l)) = Some \<lparr>md_Term = max t (n_term n),
     md_VotedFor = (if t > n_term n then [] else n_votedFor n), md_CommitIndex = n_commitIndex n\<rparr>"
  by (simp add: becomeFollowerLocked_def Let_def max_def)

text \<open>The parts of a node that elections and logs are about, and that a restart brings back.\<close>

definition meta_synced :: "node \<Rightarrow> bool" where
  "meta_synced n \<longleftrightarrow> (case ls_meta (n_store n) of
     None \<Rightarrow> n_term n = 0 \<and> n_votedFor n = [] | Some m \<Rightarrow> md_Term m = n_term n \<and> md_VotedFor m = n_votedFor n)"

lemma meta_synced_simps [simp]:
  "meta_synced (n\<lparr>n_leaderID := l\<rparr>) = meta_synced n" "meta_synced (n\<lparr>n_log := es\<rparr>) = meta_synced n"
  "meta_synced (n\<lparr>n_role := r\<rparr>) = meta_synced n" "meta_synced (n\<lparr>n_commitIndex := k\<rparr>) = meta_synced n"
  "meta_synced (fst (persistMetadataLocked True n))" "meta_synced (becomeFollowerLocked True n t l)"
  by (simp_all add: meta_synced_def split: option.split)

definition log_synced :: "entry_codec \<Rightarrow> node \<Rightarrow> bool" where
  "log_synced C n \<longleftrightarrow> store_holds C (n_store n) (n_log n)"

lemma holds_same_log: "ls_log s = ls_log s' \<Longrightarrow> store_holds C s es = store_holds C s' es"
  by (simp add: store_holds_def log_bytes_of_def)

lemma applyCommitted_fields:
  "applyCommittedLocked n = Some n' \<Longrightarrow> n_id n' = n_id n \<and> n_peers n' = n_peers n \<and> n_role n' = n_role n \<and> n_term n' = n_term n \<and>
     n_votedFor n' = n_votedFor n \<and> n_log n' = n_log n \<and> n_store n' = n_store n \<and> n_commitIndex n' = n_commitIndex n"
  by (auto simp: applyCommittedLocked_def split: if_splits)

lemma rewrite_fields [simp]:
  "ls_meta (fst (store_Rewrite C ok s es)) = ls_meta s" "ls_snapshot (fst (store_Rewrite C ok s es)) = ls_snapshot s"
  by (simp_all add: store_Rewrite_def)

end
