(* ===== verification/RaftHandlers.thy ===== *)
theory RaftHandlers
  imports Raft
begin

text \<open>
  What the handlers of a node change when its disk works, and what merging the entries of a leader does to a log:
  \<open>canonical\<close> logs, of which every entry comes with the log it was created on, stay canonical.
\<close>

subsection \<open>The effect of the handlers\<close>

lemma vote_effect:
  assumes "HandleRequestVote (True, True) n req = (n', resp)" and "meta_synced n"
  shows "n_id n' = n_id n \<and> n_peers n' = n_peers n \<and> n_log n' = n_log n \<and> ls_log (n_store n') = ls_log (n_store n) \<and>
    n_term n' = max (n_term n) (rv_Term req) \<and> meta_synced n' \<and>
    n_role n' = (if rv_Term req > n_term n then Follower else n_role n) \<and>
    (vr_VoteGranted resp \<longrightarrow> vr_Term resp = n_term n' \<and> n_votedFor n' = rv_CandidateID req \<and>
       (n_term n = n_term n' \<longrightarrow> n_votedFor n = [] \<or> n_votedFor n = rv_CandidateID req)) \<and>
    (\<not> vr_VoteGranted resp \<longrightarrow> n_votedFor n' = (if rv_Term req > n_term n then [] else n_votedFor n))"
proof (cases "rv_Term req < n_term n")
  case True
  with assms show ?thesis by (auto simp: HandleRequestVote_def)
next
  case False
  define n1 where "n1 = (if rv_Term req > n_term n then becomeFollowerLocked True n (rv_Term req) [] else n)"
  have n1: "n_id n1 = n_id n" "n_peers n1 = n_peers n" "n_log n1 = n_log n" "ls_log (n_store n1) = ls_log (n_store n)"
    "n_term n1 = rv_Term req" "meta_synced n1" "n_role n1 = (if rv_Term req > n_term n then Follower else n_role n)"
    "n_votedFor n1 = (if rv_Term req > n_term n then [] else n_votedFor n)"
    using False assms(2) by (auto simp: n1_def)
  let ?up = "rv_LastLogTerm req > e_Term (last (n_log n1)) \<or>
    (rv_LastLogTerm req = e_Term (last (n_log n1)) \<and> rv_LastLogIndex req \<ge> e_Index (last (n_log n1)))"
  have h: "(n', resp) = (if ?up \<and> (n_votedFor n1 = [] \<or> n_votedFor n1 = rv_CandidateID req)
      then (fst (persistMetadataLocked True (n1\<lparr>n_votedFor := rv_CandidateID req\<rparr>)), \<lparr>vr_Term = n_term n1, vr_VoteGranted = True\<rparr>)
      else (n1, \<lparr>vr_Term = n_term n1, vr_VoteGranted = False\<rparr>))"
    using assms(1) [symmetric] False unfolding HandleRequestVote_def Let_def fst_conv snd_conv n1_def [symmetric]
    by (simp only: if_False)
  show ?thesis
  proof (cases "?up \<and> (n_votedFor n1 = [] \<or> n_votedFor n1 = rv_CandidateID req)")
    case True
    with h n1 False show ?thesis by auto
  next
    case False
    then have "n' = n1" "resp = \<lparr>vr_Term = n_term n1, vr_VoteGranted = False\<rparr>" using h by auto
    with n1 \<open>\<not> rv_Term req < n_term n\<close> show ?thesis by auto
  qed
qed

lemma merge_changed [simp]: "snd (merge_entries es k rs True)"
  by (induction es k rs "True" rule: merge_entries.induct) (auto simp: Let_def)

lemma merge_unchanged: "\<not> snd (merge_entries es k rs ch) \<Longrightarrow> fst (merge_entries es k rs ch) = es"
  by (induction es k rs ch rule: merge_entries.induct) (auto simp: Let_def split: if_splits)

definition all_written :: append_writes where
  "all_written = \<lparr>aw_step_down = True, aw_rewrite = True, aw_commit = True\<rparr>"

text \<open>The node after it has recognised the leader, and after it has taken over the entries.\<close>

definition heard :: "node \<Rightarrow> appendEntries \<Rightarrow> node" where
  "heard n req = (if ae_Term req > n_term n \<or> n_role n \<noteq> Follower
     then becomeFollowerLocked True n (ae_Term req) (ae_LeaderID req) else n)\<lparr>n_leaderID := ae_LeaderID req\<rparr>"

abbreviation merged :: "node \<Rightarrow> appendEntries \<Rightarrow> entry list \<times> bool" where
  "merged n req \<equiv> merge_entries (n_log n) (ae_PrevLogIndex req + 1) (ae_Entries req) False"

definition taken_over :: "entry_codec \<Rightarrow> node \<Rightarrow> appendEntries \<Rightarrow> node" where
  "taken_over C n req = (let (es, changed) = merged n req; n1 = heard n req in
     n1\<lparr>n_log := es, n_store := (if changed then fst (store_Rewrite C True (n_store n1) es) else n_store n1)\<rparr>)"

definition success :: "node \<Rightarrow> appendResponse" where
  "success n = \<lparr>ar_Term = n_term n, ar_Success = True, ar_ConflictIndex = 0\<rparr>"

lemma heard_fields:
  assumes "\<not> ae_Term req < n_term n" and "meta_synced n"
  shows "n_id (heard n req) = n_id n \<and> n_peers (heard n req) = n_peers n \<and> n_term (heard n req) = max (n_term n) (ae_Term req) \<and>
    n_role (heard n req) = Follower \<and> n_votedFor (heard n req) = (if ae_Term req > n_term n then [] else n_votedFor n) \<and>
    meta_synced (heard n req) \<and> n_log (heard n req) = n_log n \<and> ls_log (n_store (heard n req)) = ls_log (n_store n) \<and>
    n_commitIndex (heard n req) = n_commitIndex n"
  using assms by (auto simp: heard_def)

lemma append_unfold:
  assumes "\<not> ae_Term req < n_term n" and "meta_synced n"
  shows "HandleAppendEntries C all_written n req =
    (if ae_PrevLogIndex req \<ge> length (n_log n) then Some (heard n req, refuse (heard n req) (length (n_log n)))
     else if e_Term (n_log n ! ae_PrevLogIndex req) \<noteq> ae_PrevLogTerm req
     then Some (heard n req,
       refuse (heard n req) (conflict_start (n_log n) (e_Term (n_log n ! ae_PrevLogIndex req)) (ae_PrevLogIndex req)))
     else if ae_LeaderCommit req > n_commitIndex n then
       (case applyCommittedLocked ((taken_over C n req)\<lparr>n_commitIndex := min (ae_LeaderCommit req) (length (fst (merged n req)) - 1)\<rparr>) of
          None \<Rightarrow> None | Some n' \<Rightarrow> Some (fst (persistMetadataLocked True n'), success (heard n req)))
     else Some (taken_over C n req, success (heard n req)))"
proof -
  define n1 where "n1 = heard n req"
  note h = heard_fields [OF assms]
  have n1: "n_log n1 = n_log n" "n_commitIndex n1 = n_commitIndex n" using h by (simp_all add: n1_def)
  have h0: "HandleAppendEntries C all_written n req =
      (if ae_PrevLogIndex req \<ge> length (n_log n1) then Some (n1, refuse n1 (length (n_log n1)))
       else if e_Term (n_log n1 ! ae_PrevLogIndex req) \<noteq> ae_PrevLogTerm req
       then Some (n1, refuse n1 (conflict_start (n_log n1) (e_Term (n_log n1 ! ae_PrevLogIndex req)) (ae_PrevLogIndex req)))
       else (case merge_entries (n_log n1) (ae_PrevLogIndex req + 1) (ae_Entries req) False of (es, changed) \<Rightarrow>
         case (if changed then store_Rewrite C True (n_store (n1\<lparr>n_log := es\<rparr>)) es else (n_store (n1\<lparr>n_log := es\<rparr>), True)) of
           (s, written) \<Rightarrow>
             if \<not> written then Some (n1\<lparr>n_log := es, n_store := s\<rparr>, refuse (n1\<lparr>n_log := es, n_store := s\<rparr>) (length es))
             else if ae_LeaderCommit req > n_commitIndex n1 then
               (case applyCommittedLocked (n1\<lparr>n_log := es, n_store := s,
                    n_commitIndex := min (ae_LeaderCommit req) (length es - 1)\<rparr>) of
                  None \<Rightarrow> None
                | Some n \<Rightarrow> Some (fst (persistMetadataLocked True n), success n1))
             else Some (n1\<lparr>n_log := es, n_store := s\<rparr>, success n1)))"
    using assms(1) unfolding HandleAppendEntries_def Let_def all_written_def n1_def heard_def success_def
    by (simp cong: if_cong prod.case_cong option.case_cong)
  obtain es changed where m: "merged n req = (es, changed)" by (metis prod.collapse)
  obtain wr where w: "store_Rewrite C True (n_store n1) es = (wr, True)" by (simp add: store_Rewrite_def)
  have t: "taken_over C n req = n1\<lparr>n_log := es, n_store := (if changed then wr else n_store n1)\<rparr>"
    unfolding taken_over_def m Let_def n1_def [symmetric] by (simp add: w)
  show ?thesis
    unfolding h0 n1 m fst_conv t unfolding n1_def [symmetric] by (cases changed) (simp_all add: w)
qed

lemma taken_over_fields:
  assumes "\<not> ae_Term req < n_term n" and "meta_synced n"
  shows "n_id (taken_over C n req) = n_id n \<and> n_peers (taken_over C n req) = n_peers n \<and> n_term (taken_over C n req) = max (n_term n) (ae_Term req) \<and>
    n_role (taken_over C n req) = Follower \<and> n_votedFor (taken_over C n req) = (if ae_Term req > n_term n then [] else n_votedFor n) \<and>
    meta_synced (taken_over C n req) \<and> n_log (taken_over C n req) = fst (merged n req) \<and>
    ls_log (n_store (taken_over C n req)) =
      (if snd (merged n req) then ls_log (fst (store_Rewrite C True (n_store n) (fst (merged n req)))) else ls_log (n_store n))"
  using heard_fields [OF assms]
  by (auto simp: taken_over_def Let_def meta_synced_def store_Rewrite_def split: option.splits prod.splits)

lemma append_effect:
  assumes "HandleAppendEntries C all_written n req = Some (n', resp)" and "meta_synced n"
  shows "n_id n' = n_id n \<and> n_peers n' = n_peers n \<and> n_term n' = max (n_term n) (ae_Term req) \<and>
    n_votedFor n' = (if ae_Term req > n_term n then [] else n_votedFor n) \<and> meta_synced n' \<and>
    (n_role n' = Follower \<or> n' = n) \<and>
    (n_log n' = n_log n \<and> ls_log (n_store n') = ls_log (n_store n) \<or>
       ae_PrevLogIndex req < length (n_log n) \<and> e_Term (n_log n ! ae_PrevLogIndex req) = ae_PrevLogTerm req \<and>
       n_log n' = fst (merged n req) \<and> ls_log (n_store n') = ls_log (fst (store_Rewrite C True (n_store n) (n_log n'))))"
proof (cases "ae_Term req < n_term n")
  case True
  with assms show ?thesis by (auto simp: HandleAppendEntries_def)
next
  case False
  note h = heard_fields [OF False assms(2)] and t = taken_over_fields [OF False assms(2), of C]
  have unchanged: "fst (merged n req) = n_log n" if "\<not> snd (merged n req)"
    using merge_unchanged that by blast
  consider "n' = heard n req" | "ae_PrevLogIndex req < length (n_log n)" "e_Term (n_log n ! ae_PrevLogIndex req) = ae_PrevLogTerm req"
      "n' = taken_over C n req"
    | n3 where "ae_PrevLogIndex req < length (n_log n)" "e_Term (n_log n ! ae_PrevLogIndex req) = ae_PrevLogTerm req"
      "applyCommittedLocked ((taken_over C n req)\<lparr>n_commitIndex := min (ae_LeaderCommit req) (length (fst (merged n req)) - 1)\<rparr>) = Some n3"
      "n' = fst (persistMetadataLocked True n3)"
    using assms(1) append_unfold [OF False assms(2)] by (auto simp: not_le split: if_splits option.splits)
  then show ?thesis
  proof cases
    case 1
    with h show ?thesis by simp
  next
    case 2
    with t unchanged show ?thesis by (cases "snd (merged n req)") auto
  next
    case 3
    have "n_id n' = n_id (taken_over C n req) \<and> n_peers n' = n_peers (taken_over C n req) \<and> n_role n' = n_role (taken_over C n req) \<and>
        n_term n' = n_term (taken_over C n req) \<and> n_votedFor n' = n_votedFor (taken_over C n req) \<and>
        n_log n' = n_log (taken_over C n req) \<and> ls_log (n_store n') = ls_log (n_store (taken_over C n req)) \<and> meta_synced n'"
      using applyCommitted_fields [OF 3(3)] 3(4) by simp
    with t unchanged 3(1,2) show ?thesis by (cases "snd (merged n req)") auto
  qed
qed

subsection \<open>Logs\<close>

text \<open>\<open>K t k\<close> is the log on which the entry of term \<open>t\<close> at index \<open>k\<close> was created, up to that entry.\<close>

type_synonym canon = "nat \<Rightarrow> nat \<Rightarrow> entry list option"

definition canonical :: "canon \<Rightarrow> entry list \<Rightarrow> bool" where
  "canonical K es \<longleftrightarrow> log_ok es \<and> (\<forall>k. 0 < k \<and> k < length es \<longrightarrow> K (e_Term (es ! k)) k = Some (take (k + 1) es))"

definition extends :: "canon \<Rightarrow> canon \<Rightarrow> bool" where
  "extends K K' \<longleftrightarrow> (\<forall>t k es. K t k = Some es \<longrightarrow> K' t k = Some es)"

lemma canonical_mono: "canonical K es \<Longrightarrow> extends K K' \<Longrightarrow> canonical K' es"
  by (simp add: canonical_def extends_def)

lemma log_ok_prefix:
  assumes "log_ok (xs @ ys)" and "xs \<noteq> []"
  shows "log_ok xs"
proof -
  have "e_Index (xs ! k) = k" if "k < length xs" for k
  proof -
    have "e_Index ((xs @ ys) ! k) = k" using assms(1) that by (simp add: log_ok_def)
    then show ?thesis using that by (simp add: nth_append)
  qed
  moreover have "xs ! 0 = sentinel" using assms by (auto simp: log_ok_def nth_append)
  ultimately show ?thesis using assms(2) by (simp add: log_ok_def)
qed

lemma canonical_prefix:
  assumes "canonical K (xs @ ys)" and "xs \<noteq> []"
  shows "canonical K xs"
proof -
  have "K (e_Term (xs ! k)) k = Some (take (k + 1) xs)" if "0 < k" "k < length xs" for k
    using assms(1) that by (auto simp: canonical_def nth_append dest!: spec [of _ k])
  then show ?thesis using assms log_ok_prefix by (auto simp: canonical_def)
qed

lemma canonical_matches:
  assumes "canonical K es" and "canonical K fs" and "k < length es" "k < length fs" and "e_Term (es ! k) = e_Term (fs ! k)"
  shows "take (k + 1) es = take (k + 1) fs"
proof (cases "k = 0")
  case True
  have "es ! 0 = fs ! 0" "es \<noteq> []" "fs \<noteq> []" using assms(1,2) by (auto simp: canonical_def log_ok_def)
  with True show ?thesis by (cases es; cases fs) auto
next
  case False
  with assms have "K (e_Term (es ! k)) k = Some (take (k + 1) es)" "K (e_Term (fs ! k)) k = Some (take (k + 1) fs)"
    by (auto simp: canonical_def)
  with assms(5) show ?thesis by simp
qed

text \<open>One incoming entry at index \<open>k\<close>: a conflicting entry and all that follow it are cut off.\<close>

definition merge_at :: "entry list \<Rightarrow> nat \<Rightarrow> entry \<Rightarrow> entry list" where
  "merge_at es k r =
     (if k < length es \<and> e_Term (es ! k) \<noteq> e_Term r then take k es @ [r] else if k = length es then es @ [r] else es)"

lemma merge_step: "\<exists>ch'. merge_entries es k (r # rs) ch = merge_entries (merge_at es k r) (k + 1) rs ch'"
proof (cases "k < length es \<and> e_Term (es ! k) \<noteq> e_Term r")
  case True
  then have "merge_entries es k (r # rs) ch = merge_entries (merge_at es k r) (k + 1) rs True"
    by (simp add: Let_def merge_at_def)
  then show ?thesis ..
next
  case False
  then have "merge_entries es k (r # rs) ch = merge_entries (merge_at es k r) (k + 1) rs (ch \<or> k = length es)"
    by (auto simp: Let_def merge_at_def)
  then show ?thesis ..
qed

lemma merge_length: "k \<le> length es \<Longrightarrow> k + length rs \<le> length (fst (merge_entries es k rs ch))"
proof (induction rs arbitrary: es k ch)
  case (Cons r rs)
  obtain ch' where s: "merge_entries es k (r # rs) ch = merge_entries (merge_at es k r) (k + 1) rs ch'" using merge_step by blast
  have "k + 1 \<le> length (merge_at es k r)" using Cons.prems by (auto simp: merge_at_def)
  from Cons.IH [OF this, of ch'] s show ?case by simp
qed simp

lemma merge_canonical:
  assumes "canonical K es" and "canonical K (l @ rs)" and "l \<noteq> []" and "take (length l) es = l"
  shows "canonical K (fst (merge_entries es (length l) rs ch)) \<and>
    take (length (l @ rs)) (fst (merge_entries es (length l) rs ch)) = l @ rs"
  using assms
proof (induction rs arbitrary: es l ch)
  case Nil
  then show ?case by simp
next
  case (Cons r rs)
  define es2 where "es2 = merge_at es (length l) r"
  obtain ch' where step: "merge_entries es (length l) (r # rs) ch = merge_entries es2 (length (l @ [r])) rs ch'"
    using merge_step [of es "length l" r rs ch] unfolding es2_def by auto
  have lr: "canonical K ((l @ [r]) @ rs)" using Cons.prems(2) by simp
  then have lr1: "canonical K (l @ [r])" by (rule canonical_prefix) simp
  have "canonical K es2 \<and> take (length (l @ [r])) es2 = l @ [r]"
  proof (cases "length l < length es")
    case False
    then have "es = l" using Cons.prems(4) by (metis not_le take_all nat_le_linear)
    then have "es2 = l @ [r]" by (simp add: merge_at_def es2_def)
    with lr1 show ?thesis by simp
  next
    case len: True
    show ?thesis
    proof (cases "e_Term (es ! length l) = e_Term r")
      case False
      then have "es2 = l @ [r]" using len Cons.prems(4) by (simp add: merge_at_def es2_def)
      with lr1 show ?thesis by simp
    next
      case True
      then have "es2 = es" using len by (simp add: merge_at_def es2_def)
      moreover have "take (length l + 1) es = take (length l + 1) (l @ [r])"
        using canonical_matches [OF Cons.prems(1) lr1 len] True by simp
      ultimately show ?thesis using Cons.prems(1) by simp
    qed
  qed
  with Cons.IH [of es2 "l @ [r]" ch'] lr step show ?case by simp
qed

end
