(* ===== verification/RaftSafety.thy ===== *)
theory RaftSafety
  imports RaftHandlers
begin

text \<open>
  A cluster of Raft nodes whose disks work: the step relation interleaves the locked sections of all nodes in
  any order, messages are delivered late, repeatedly, to anyone or never, and nodes restart from their files. The
  history variables record who voted for whom, who led which term and which log each entry was created on. By rule
  induction at most one node leads a term, and logs with a common entry agree up to it.
\<close>

subsection \<open>The cluster\<close>

text \<open>
  \<open>c_asked\<close> and \<open>c_sent\<close> are the requests sent so far, \<open>c_votes\<close> the votes granted (voter, term, candidate),
  \<open>c_polls\<close> the running elections (candidate, term, members whose votes are counted), \<open>c_led\<close> who became leader of a term.
\<close>

record cluster =
  c_node :: "str \<Rightarrow> node"
  c_asked :: "requestVote set"
  c_sent :: "appendEntries set"
  c_votes :: "(str \<times> nat \<times> str) set"
  c_polls :: "(str \<times> nat \<times> str set) set"
  c_led :: "(nat \<times> str) set"
  c_canon :: canon

definition peers_of :: "str list \<Rightarrow> str \<Rightarrow> str list" where "peers_of M i = removeAll i M"

definition set_node :: "cluster \<Rightarrow> str \<Rightarrow> node \<Rightarrow> cluster" where
  "set_node s i n = s\<lparr>c_node := (c_node s)(i := n)\<rparr>"

definition fresh_node :: "str list \<Rightarrow> str \<Rightarrow> node" where
  "fresh_node M i = \<lparr>n_id = i, n_peers = peers_of M i, n_store = empty_store, n_machine = NewStateMachine, n_role = Follower,
     n_term = 0, n_votedFor = [], n_leaderID = [], n_log = [sentinel], n_commitIndex = 0, n_lastApplied = 0\<rparr>"

definition fresh_cluster :: "str list \<Rightarrow> cluster" where
  "fresh_cluster M = \<lparr>c_node = fresh_node M, c_asked = {}, c_sent = {}, c_votes = {}, c_polls = {}, c_led = {}, c_canon = (\<lambda>_ _. None)\<rparr>"

lemma fresh_node_is_new: "NewNode C i (peers_of M i) empty_store = Inr (fresh_node M i)"
  by (simp add: NewNode_def OpenLogStore_def readEntries_def empty_store_def LoadSnapshot_def fresh_node_def
    apply_between_def)

text \<open>A response that refuses may carry any term; it can only make the node step down.\<close>

inductive raft_step :: "entry_codec \<Rightarrow> str list \<Rightarrow> cluster \<Rightarrow> cluster \<Rightarrow> bool" for C M where
  timeout: "i \<in> set M \<Longrightarrow> election_begin True (c_node s i) = (n, Some req) \<Longrightarrow>
    raft_step C M s ((set_node s i n)\<lparr>c_asked := insert req (c_asked s), c_votes := insert (i, n_term n, i) (c_votes s),
      c_polls := insert (i, n_term n, {i}) (c_polls s)\<rparr>)"
| vote: "v \<in> set M \<Longrightarrow> req \<in> c_asked s \<Longrightarrow> HandleRequestVote (True, True) (c_node s v) req = (n, resp) \<Longrightarrow>
    raft_step C M s ((set_node s v n)\<lparr>c_votes :=
      (if vr_VoteGranted resp then insert (v, vr_Term resp, rv_CandidateID req) (c_votes s) else c_votes s)\<rparr>)"
| count: "i \<in> set M \<Longrightarrow> (i, t, S) \<in> c_polls s \<Longrightarrow> v \<in> set (n_peers (c_node s i)) \<Longrightarrow> v \<notin> S \<Longrightarrow> (v, t, i) \<in> c_votes s \<Longrightarrow>
    election_count True (c_node s i) (card S) \<lparr>vr_Term = t, vr_VoteGranted = True\<rparr> = (n, Some g) \<Longrightarrow>
    raft_step C M s ((set_node s i n)\<lparr>c_polls := insert (i, t, insert v S) (c_polls s)\<rparr>)"
| give_up: "i \<in> set M \<Longrightarrow> election_count True (c_node s i) g resp = (n, None) \<Longrightarrow> raft_step C M s (set_node s i n)"
| win: "i \<in> set M \<Longrightarrow> (i, t, S) \<in> c_polls s \<Longrightarrow> card S \<ge> needed (c_node s i) \<Longrightarrow> n_role (c_node s i) = Candidate \<Longrightarrow>
    n_term (c_node s i) = t \<Longrightarrow>
    raft_step C M s ((set_node s i (election_end (c_node s i) t))\<lparr>c_led := insert (t, i) (c_led s)\<rparr>)"
| send: "i \<in> set M \<Longrightarrow> replicate_request (c_node s i) t k = Inr req \<Longrightarrow> raft_step C M s (s\<lparr>c_sent := insert req (c_sent s)\<rparr>)"
| heartbeat: "i \<in> set M \<Longrightarrow> heartbeat_request (c_node s i) = Some req \<Longrightarrow> raft_step C M s (s\<lparr>c_sent := insert req (c_sent s)\<rparr>)"
| receive: "j \<in> set M \<Longrightarrow> req \<in> c_sent s \<Longrightarrow> HandleAppendEntries C all_written (c_node s j) req = Some (n, resp) \<Longrightarrow>
    raft_step C M s (set_node s j n)"
| response: "i \<in> set M \<Longrightarrow> replicate_response True (c_node s i) resp = (n, r) \<Longrightarrow> raft_step C M s (set_node s i n)"
| propose: "i \<in> set M \<Longrightarrow> propose_begin C AppendOk (c_node s i) c = (n, Inr (e, t)) \<Longrightarrow>
    raft_step C M s ((set_node s i n)\<lparr>c_canon := (c_canon s)(t := (c_canon s t)(e_Index e := Some (n_log n)))\<rparr>)"
| commit: "i \<in> set M \<Longrightarrow> propose_end True (c_node s i) t e = Some (n, r) \<Longrightarrow> raft_step C M s (set_node s i n)"
| snapshot: "i \<in> set M \<Longrightarrow> node_Snapshot True (c_node s i) = (n, ok) \<Longrightarrow> raft_step C M s (set_node s i n)"
| restart: "i \<in> set M \<Longrightarrow> NewNode C i (peers_of M i) (n_store (c_node s i)) = Inr n \<Longrightarrow>
    raft_step C M s ((set_node s i n)\<lparr>c_polls := {p \<in> c_polls s. fst p \<noteq> i}\<rparr>)"

inductive reachable :: "entry_codec \<Rightarrow> str list \<Rightarrow> cluster \<Rightarrow> bool" for C M where
  start: "reachable C M (fresh_cluster M)"
| step: "reachable C M s \<Longrightarrow> raft_step C M s s' \<Longrightarrow> reachable C M s'"

subsection \<open>The invariant\<close>

definition node_ok :: "entry_codec \<Rightarrow> str list \<Rightarrow> cluster \<Rightarrow> str \<Rightarrow> node \<Rightarrow> bool" where
  "node_ok C M s i n \<longleftrightarrow> n_id n = i \<and> n_peers n = peers_of M i \<and> meta_synced n \<and> log_synced C n \<and> canonical (c_canon s) (n_log n) \<and>
     (n_role n = Leader \<longrightarrow> (n_term n, i) \<in> c_led s) \<and>
     (\<forall>t. (t, i) \<in> c_led s \<longrightarrow> t \<le> n_term n \<and> (t = n_term n \<longrightarrow> n_role n \<noteq> Candidate)) \<and>
     (\<forall>t c. (i, t, c) \<in> c_votes s \<longrightarrow> t \<le> n_term n \<and> (t = n_term n \<longrightarrow> n_votedFor n = c)) \<and>
     (n_role n = Leader \<longrightarrow> (\<forall>k es. c_canon s (n_term n) k = Some es \<longrightarrow> take (k + 1) (n_log n) = es))"

definition votes_ok :: "str list \<Rightarrow> cluster \<Rightarrow> bool" where
  "votes_ok M s \<longleftrightarrow> (\<forall>v t c. (v, t, c) \<in> c_votes s \<longrightarrow> v \<in> set M \<and> c \<in> set M \<and> 0 < t) \<and>
     (\<forall>v t c d. (v, t, c) \<in> c_votes s \<and> (v, t, d) \<in> c_votes s \<longrightarrow> c = d) \<and>
     (\<forall>req \<in> c_asked s. rv_CandidateID req \<in> set M \<and> 0 < rv_Term req)"

definition backed :: "cluster \<Rightarrow> str \<Rightarrow> nat \<Rightarrow> str set \<Rightarrow> bool" where
  "backed s i t S \<longleftrightarrow> (\<forall>v \<in> S. (v, t, i) \<in> c_votes s)"

definition polls_ok :: "str list \<Rightarrow> cluster \<Rightarrow> bool" where
  "polls_ok M s \<longleftrightarrow> (\<forall>i t S. (i, t, S) \<in> c_polls s \<longrightarrow> backed s i t S) \<and>
     (\<forall>t i. (t, i) \<in> c_led s \<longrightarrow> i \<in> set M \<and> (\<exists>S. backed s i t S \<and> 2 * card S > length M))"

definition canon_ok :: "str list \<Rightarrow> cluster \<Rightarrow> bool" where
  "canon_ok M s \<longleftrightarrow> (\<forall>t k es. c_canon s t k = Some es \<longrightarrow>
     canonical (c_canon s) es \<and> length es = k + 1 \<and> 0 < k \<and> (\<exists>i. (t, i) \<in> c_led s))"

definition sent_ok :: "cluster \<Rightarrow> bool" where
  "sent_ok s \<longleftrightarrow> (\<forall>req \<in> c_sent s. \<exists>l. canonical (c_canon s) (l @ ae_Entries req) \<and> length l = ae_PrevLogIndex req + 1 \<and>
     e_Term (last l) = ae_PrevLogTerm req)"

definition cluster_inv :: "entry_codec \<Rightarrow> str list \<Rightarrow> cluster \<Rightarrow> bool" where
  "cluster_inv C M s \<longleftrightarrow> (\<forall>i \<in> set M. node_ok C M s i (c_node s i)) \<and> votes_ok M s \<and> polls_ok M s \<and> canon_ok M s \<and> sent_ok s"

definition members_ok :: "str list \<Rightarrow> bool" where "members_ok M \<longleftrightarrow> distinct M \<and> [] \<notin> set M"

subsection \<open>One leader per term\<close>

lemma majorities_meet:
  assumes "A \<subseteq> set M" "B \<subseteq> set M" "2 * card A > length M" "2 * card B > length M"
  shows "A \<inter> B \<noteq> {}"
proof
  assume "A \<inter> B = {}"
  then have "card A + card B = card (A \<union> B)" using assms(1,2) by (intro card_Un_disjoint [symmetric]) (auto intro: finite_subset)
  also have "\<dots> \<le> length M" using assms(1,2) by (meson List.finite_set Un_least card_length card_mono order_trans)
  finally show False using assms(3,4) by simp
qed

lemma led_unique:
  assumes "votes_ok M s" and "polls_ok M s" and "(t, i) \<in> c_led s" and "(t, j) \<in> c_led s"
  shows "i = j"
proof -
  obtain A B where "backed s i t A" "2 * card A > length M" "backed s j t B" "2 * card B > length M"
    using assms(2-4) unfolding polls_ok_def by meson
  moreover have "A \<subseteq> set M" "B \<subseteq> set M" using calculation assms(1) by (auto simp: backed_def votes_ok_def)
  ultimately obtain v where "v \<in> A" "v \<in> B" using majorities_meet [of A M B] by auto
  then have "(v, t, i) \<in> c_votes s" "(v, t, j) \<in> c_votes s" using \<open>backed s i t A\<close> \<open>backed s j t B\<close> by (auto simp: backed_def)
  then show ?thesis using assms(1) unfolding votes_ok_def by blast
qed

subsection \<open>Every step keeps the invariant\<close>

text \<open>A node that only learns a term or steps down stays in order.\<close>

definition settles :: "node \<Rightarrow> node \<Rightarrow> bool" where
  "settles n n' \<longleftrightarrow> n_id n' = n_id n \<and> n_peers n' = n_peers n \<and> meta_synced n' \<and> n_term n \<le> n_term n' \<and>
     (n_term n' = n_term n \<longrightarrow> n_votedFor n' = n_votedFor n) \<and>
     (n_role n' = Leader \<longrightarrow> n_role n = Leader \<and> n_term n' = n_term n \<and> n_log n' = n_log n) \<and>
     (n_role n' = Candidate \<longrightarrow> n_term n' = n_term n \<longrightarrow> n_role n = Candidate)"

definition same_log :: "node \<Rightarrow> node \<Rightarrow> bool" where
  "same_log n n' \<longleftrightarrow> n_log n' = n_log n \<and> log_bytes_of (n_store n') = log_bytes_of (n_store n)"

lemma settles_ok:
  assumes "node_ok C M s i n" and "settles n n'" and "log_synced C n'" and "canonical (c_canon s) (n_log n')"
  shows "node_ok C M s i n'"
proof -
  have "t \<le> n_term n' \<and> (t = n_term n' \<longrightarrow> n_role n' \<noteq> Candidate)" if "(t, i) \<in> c_led s" for t
  proof -
    have "t \<le> n_term n" "t = n_term n \<Longrightarrow> n_role n \<noteq> Candidate" using assms(1) that by (auto simp: node_ok_def)
    with assms(2) show ?thesis unfolding settles_def by (metis le_antisym le_trans)
  qed
  moreover have "t \<le> n_term n' \<and> (t = n_term n' \<longrightarrow> n_votedFor n' = c)" if "(i, t, c) \<in> c_votes s" for t c
  proof -
    have "t \<le> n_term n" "t = n_term n \<Longrightarrow> n_votedFor n = c" using assms(1) that by (auto simp: node_ok_def)
    with assms(2) show ?thesis unfolding settles_def by (metis le_antisym le_trans)
  qed
  ultimately show ?thesis using assms by (auto simp: node_ok_def settles_def)
qed

lemma same_log_ok:
  assumes "node_ok C M s i n" and "settles n n'" and "same_log n n'"
  shows "node_ok C M s i n'"
  using assms by (intro settles_ok [OF assms(1,2)]) (auto simp: node_ok_def same_log_def log_synced_def store_holds_def)

lemma set_node_simps [simp]:
  "c_node (set_node s i n) = (c_node s)(i := n)" "c_asked (set_node s i n) = c_asked s" "c_sent (set_node s i n) = c_sent s"
  "c_votes (set_node s i n) = c_votes s" "c_polls (set_node s i n) = c_polls s" "c_led (set_node s i n) = c_led s"
  "c_canon (set_node s i n) = c_canon s"
  by (simp_all add: set_node_def)

text \<open>The parts of the invariant depend on the history only.\<close>

definition same_history :: "cluster \<Rightarrow> cluster \<Rightarrow> bool" where
  "same_history s s' \<longleftrightarrow> c_asked s' = c_asked s \<and> c_sent s' = c_sent s \<and> c_votes s' = c_votes s \<and> c_polls s' \<subseteq> c_polls s \<and>
     c_led s' = c_led s \<and> c_canon s' = c_canon s"

lemma history_ok:
  assumes "same_history s s'" and "node_ok C M s i n"
  shows "node_ok C M s' i n"
  using assms by (simp add: same_history_def node_ok_def)

lemma node_step:
  assumes "cluster_inv C M s" and "same_history s s'" and "c_node s' = (c_node s)(i := n)" and "node_ok C M s i n"
  shows "cluster_inv C M s'"
proof -
  have "\<forall>j \<in> set M. node_ok C M s' j (c_node s' j)" using assms history_ok [OF assms(2)] by (auto simp: cluster_inv_def)
  moreover have "polls_ok M s'" using assms(1,2) by (simp add: cluster_inv_def polls_ok_def backed_def same_history_def) blast
  ultimately show ?thesis using assms(1,2)
    by (simp add: cluster_inv_def votes_ok_def canon_ok_def sent_ok_def same_history_def)
qed

lemma settled_step:
  assumes "cluster_inv C M s" and "i \<in> set M" and "settles (c_node s i) n" and "same_log (c_node s i) n"
  shows "cluster_inv C M (set_node s i n)"
  using assms node_step [OF assms(1), of "set_node s i n" i n] same_log_ok [of C M s i "c_node s i" n]
  by (auto simp: cluster_inv_def same_history_def)

lemma settles_refl: "meta_synced n \<Longrightarrow> settles n n \<and> same_log n n"
  by (simp add: settles_def same_log_def)

lemma settles_follower: "settles n (becomeFollowerLocked True n t l) \<and> same_log n (becomeFollowerLocked True n t l)"
  by (auto simp: settles_def same_log_def log_bytes_of_def)

lemma settles_count: "election_count True n g resp = (n', r) \<Longrightarrow> meta_synced n \<Longrightarrow> settles n n' \<and> same_log n n'"
  by (auto simp: election_count_def settles_refl settles_follower split: if_splits)

lemma settles_response: "replicate_response True n resp = (n', r) \<Longrightarrow> meta_synced n \<Longrightarrow> settles n n' \<and> same_log n n'"
  by (auto simp: replicate_response_def settles_refl settles_follower split: if_splits)

lemma settles_snapshot: "node_Snapshot True n = (n', ok) \<Longrightarrow> meta_synced n \<Longrightarrow> settles n n' \<and> same_log n n'"
  by (auto simp: node_Snapshot_def SaveSnapshot_def settles_def same_log_def meta_synced_def log_bytes_of_def split: option.splits)

lemma settles_commit:
  assumes "propose_end True n t e = Some (n', r)" and "meta_synced n"
  shows "settles n n' \<and> same_log n n'"
proof (cases "n_role n \<noteq> Leader \<or> n_term n \<noteq> t")
  case True
  with assms show ?thesis by (auto simp: propose_end_def settles_refl)
next
  case False
  then obtain m where m: "applyCommittedLocked (n\<lparr>n_commitIndex := e_Index e\<rparr>) = Some m" "n' = fst (persistMetadataLocked True m)"
    using assms(1) by (auto simp: propose_end_def persistMetadataLocked_def SaveMetadata_def split: option.splits)
  show ?thesis using applyCommitted_fields [OF m(1)] m(2) by (simp add: settles_def same_log_def log_bytes_of_def)
qed

lemma settles_restart:
  assumes "NewNode C i (peers_of M i) (n_store n) = Inr n'" and "node_ok C M s i n"
  shows "settles n n' \<and> same_log n n'"
proof -
  have n: "n_id n = i" "n_peers n = peers_of M i" "meta_synced n" "store_holds C (n_store n) (n_log n)"
    using assms(2) by (simp_all add: node_ok_def log_synced_def)
  have "n_log n' = n_log n"
    using assms(1) wal.loaded_is_held [OF n(4)]
    by (auto simp: NewNode_def OpenLogStore_def Let_def split: sum.splits if_splits prod.splits)
  moreover have "n_id n' = i" "n_peers n' = peers_of M i" "n_store n' = n_store n" "n_role n' = Follower"
    "(case ls_meta (n_store n) of None \<Rightarrow> n_term n' = 0 \<and> n_votedFor n' = []
      | Some m \<Rightarrow> n_term n' = md_Term m \<and> n_votedFor n' = md_VotedFor m)"
    using assms(1) by (auto simp: NewNode_def OpenLogStore_def Let_def split: sum.splits if_splits prod.splits option.splits)
  ultimately show ?thesis using n by (auto simp: settles_def same_log_def meta_synced_def split: option.splits)
qed

lemma receive_ok:
  assumes "HandleAppendEntries C all_written n req = Some (n', resp)" and "node_ok C M s i n" and "sent_ok s" and "req \<in> c_sent s"
  shows "node_ok C M s i n'"
proof (cases "n_log n' = n_log n \<and> ls_log (n_store n') = ls_log (n_store n)")
  case True
  have n: "meta_synced n" using assms(2) by (simp add: node_ok_def)
  from append_effect [OF assms(1) n] True
  have "settles n n' \<and> same_log n n'"
    by (cases "n' = n") (auto simp: settles_def same_log_def log_bytes_of_def settles_refl n max_def)
  then show ?thesis using same_log_ok [OF assms(2)] by blast
next
  case False
  let ?p = "ae_PrevLogIndex req"
  have n: "meta_synced n" "canonical (c_canon s) (n_log n)" "store_holds C (n_store n) (n_log n)"
    using assms(2) by (simp_all add: node_ok_def log_synced_def)
  from False append_effect [OF assms(1) n(1)] have e: "?p < length (n_log n)" "e_Term (n_log n ! ?p) = ae_PrevLogTerm req"
    "n_log n' = fst (merge_entries (n_log n) (?p + 1) (ae_Entries req) False)"
    "ls_log (n_store n') = ls_log (fst (store_Rewrite C True (n_store n) (n_log n')))" "n_role n' = Follower"
    "n_id n' = n_id n" "n_peers n' = n_peers n" "n_term n' = max (n_term n) (ae_Term req)" "meta_synced n'"
    "n_votedFor n' = (if ae_Term req > n_term n then [] else n_votedFor n)"
    by auto
  obtain l where l: "canonical (c_canon s) (l @ ae_Entries req)" "length l = ?p + 1" "e_Term (last l) = ae_PrevLogTerm req"
    using assms(3,4) unfolding sent_ok_def by blast
  have l_ne: "l \<noteq> []" using l(2) by auto
  have "take (?p + 1) (n_log n) = take (?p + 1) l"
    using canonical_matches [OF n(2) canonical_prefix [OF l(1) l_ne] e(1)] l(2,3) e(2) l_ne by (simp add: last_conv_nth)
  then have "take (length l) (n_log n) = l" using l(2) by simp
  from merge_canonical [OF n(2) l(1) l_ne this] have c: "canonical (c_canon s) (n_log n')" using e(3) l(2) by simp
  obtain st where st: "store_Rewrite C True (n_store n) (n_log n') = (st, True)" by (simp add: store_Rewrite_def)
  have "store_holds C st (n_log n')" using wal.rewrite_ok [OF n(3) _ st] c by (simp add: canonical_def)
  then have "log_synced C n'" using holds_same_log [of "n_store n'" st] e(4) st by (simp add: log_synced_def)
  moreover have "settles n n'" using e by (auto simp: settles_def max_def)
  ultimately show ?thesis using settles_ok [OF assms(2)] c by blast
qed

text \<open>A vote cast by a node that had not voted for anybody else in the term.\<close>

lemma ballot:
  assumes "cluster_inv C M s" and "v \<in> set M" and "c \<in> set M" and "node_ok C M s v n" and "n_votedFor n = c"
    and "c_node s' = (c_node s)(v := n)" "c_sent s' = c_sent s" "c_votes s' = insert (v, n_term n, c) (c_votes s)" "c_led s' = c_led s"
      "c_canon s' = c_canon s"
    and "\<forall>req \<in> c_asked s'. rv_CandidateID req \<in> set M \<and> 0 < rv_Term req" and "0 < n_term n" and "\<forall>i t S. (i, t, S) \<in> c_polls s' \<longrightarrow> (i, t, S) \<in> c_polls s \<or> backed s' i t S"
  shows "cluster_inv C M s'"
proof -
  have inv: "\<forall>i \<in> set M. node_ok C M s i (c_node s i)" "votes_ok M s" "polls_ok M s" "canon_ok M s" "sent_ok s"
    using assms(1) by (simp_all add: cluster_inv_def)
  have nv: "node_ok C M s' v n" using assms(4,5,8,9,10) by (auto simp: node_ok_def)
  have nj: "node_ok C M s' j (c_node s j)" if "j \<in> set M" "j \<noteq> v" for j
    using inv(1) that assms(8,9,10) by (auto simp: node_ok_def)
  have "\<forall>j \<in> set M. node_ok C M s' j (c_node s' j)" using nv nj assms(6) by auto
  moreover have "votes_ok M s'"
  proof -
    have "d = c" if "(v, n_term n, d) \<in> c_votes s" for d using that assms(4,5) unfolding node_ok_def by blast
    with inv(2) assms(2,3,8,11,12) show ?thesis by (simp add: votes_ok_def) blast
  qed
  moreover have "polls_ok M s'"
  proof -
    have "backed s' i t S" if "backed s i t S" for i t S using that assms(8) by (auto simp: backed_def)
    with inv(3) assms(9,13) show ?thesis unfolding polls_ok_def by metis
  qed
  ultimately show ?thesis using inv(4,5) assms(7,9,10) by (simp add: cluster_inv_def canon_ok_def sent_ok_def)
qed

lemma timeout_step:
  assumes "cluster_inv C M s" and "i \<in> set M" and "election_begin True (c_node s i) = (n, Some req)"
  shows "cluster_inv C M ((set_node s i n)\<lparr>c_asked := insert req (c_asked s), c_votes := insert (i, n_term n, i) (c_votes s),
      c_polls := insert (i, n_term n, {i}) (c_polls s)\<rparr>)"
proof -
  let ?m = "c_node s i"
  have m: "node_ok C M s i ?m" using assms(1,2) by (simp add: cluster_inv_def)
  have e: "n_id n = n_id ?m" "n_peers n = n_peers ?m" "n_log n = n_log ?m" "ls_log (n_store n) = ls_log (n_store ?m)"
    "n_role n = Candidate" "n_term n = n_term ?m + 1" "n_votedFor n = i" "meta_synced n" "rv_CandidateID req = i" "rv_Term req = n_term n"
    using assms(3) m by (auto simp: election_begin_def Let_def node_ok_def split: if_splits)
  have "log_synced C n" using m e(3,4) holds_same_log [of "n_store n" "n_store ?m"] by (simp add: node_ok_def log_synced_def)
  moreover have "t < n_term n" if "(t, i) \<in> c_led s" for t using m that e(6) by (fastforce simp: node_ok_def)
  moreover have "t < n_term n" if "(i, t, c) \<in> c_votes s" for t c using m that e(6) by (fastforce simp: node_ok_def)
  ultimately have "node_ok C M s i n" using m e by (fastforce simp: node_ok_def)
  then show ?thesis
    using assms(1,2) e by (intro ballot [OF assms(1) assms(2) assms(2)]) (auto simp: cluster_inv_def votes_ok_def backed_def)
qed

lemma vote_step:
  assumes "cluster_inv C M s" and "members_ok M" and "v \<in> set M" and "req \<in> c_asked s"
    and "HandleRequestVote (True, True) (c_node s v) req = (n, resp)"
  shows "cluster_inv C M ((set_node s v n)\<lparr>c_votes :=
      (if vr_VoteGranted resp then insert (v, vr_Term resp, rv_CandidateID req) (c_votes s) else c_votes s)\<rparr>)"
proof -
  let ?m = "c_node s v" and ?c = "rv_CandidateID req"
  have m: "node_ok C M s v ?m" "meta_synced ?m" using assms(1,3) by (simp_all add: cluster_inv_def node_ok_def)
  have c: "?c \<in> set M" "0 < rv_Term req" using assms(1,4) by (auto simp: cluster_inv_def votes_ok_def)
  note e = vote_effect [OF assms(5) m(2)]
  show ?thesis
  proof (cases "vr_VoteGranted resp")
    case False
    with e have "settles ?m n" "same_log ?m n" by (auto simp: settles_def same_log_def log_bytes_of_def)
    from settled_step [OF assms(1,3) this] show ?thesis using False by (simp add: set_node_def)
  next
    case True
    have voted: "d = ?c" if "(v, n_term n, d) \<in> c_votes s" for d
    proof -
      have "d \<noteq> []" using assms(1,2) that by (auto simp: cluster_inv_def votes_ok_def members_ok_def)
      moreover have "n_term n \<le> n_term ?m" "n_term n = n_term ?m \<Longrightarrow> n_votedFor ?m = d" using m(1) that by (auto simp: node_ok_def)
      ultimately show ?thesis using e True by auto
    qed
    have late: "t \<le> n_term n" if "(v, t, d) \<in> c_votes s" for t d
      using m(1) that e by (fastforce simp: node_ok_def)
    have led: "t \<le> n_term n \<and> (t = n_term n \<longrightarrow> n_role n \<noteq> Candidate)" if "(t, v) \<in> c_led s" for t
    proof -
      have "t \<le> n_term ?m" "t = n_term ?m \<Longrightarrow> n_role ?m \<noteq> Candidate" using m(1) that by (auto simp: node_ok_def)
      with e show ?thesis by (auto split: if_splits)
    qed
    have "log_synced C n" using m(1) e holds_same_log [of "n_store n" "n_store ?m"] by (simp add: node_ok_def log_synced_def)
    moreover have "n_role n = Leader \<Longrightarrow> n_term n = n_term ?m \<and> n_role ?m = Leader" using e by (auto split: if_splits)
    ultimately have "node_ok C M s v n" using m(1) e voted late led True unfolding node_ok_def by metis
    then show ?thesis
      using assms(1) e c(2) True by (intro ballot [OF assms(1) assms(3) c(1)]) (auto simp: cluster_inv_def votes_ok_def)
  qed
qed

lemma win_step:
  assumes "cluster_inv C M s" and "members_ok M" and "i \<in> set M" and "(i, t, S) \<in> c_polls s" and "card S \<ge> needed (c_node s i)"
    and "n_role (c_node s i) = Candidate" and "n_term (c_node s i) = t"
  shows "cluster_inv C M ((set_node s i (election_end (c_node s i) t))\<lparr>c_led := insert (t, i) (c_led s)\<rparr>)" (is "cluster_inv C M ?s'")
proof -
  let ?m = "c_node s i" and ?n = "(c_node s i)\<lparr>n_role := Leader, n_leaderID := n_id (c_node s i)\<rparr>"
  have inv: "\<forall>j \<in> set M. node_ok C M s j (c_node s j)" "votes_ok M s" "polls_ok M s" "canon_ok M s" "sent_ok s"
    using assms(1) by (simp_all add: cluster_inv_def)
  have m: "node_ok C M s i ?m" using inv(1) assms(3) by simp
  have "length (removeAll i M) = length M - 1"
    using assms(2,3) by (simp add: members_ok_def distinct_remove1_removeAll [symmetric] length_remove1)
  moreover have "length M > 0" using assms(3) by (cases M) auto
  ultimately have half: "2 * card S > length M" using assms(5) m by (auto simp: needed_def node_ok_def peers_of_def)
  have n: "election_end ?m t = ?n" using assms(6,7) by (simp add: election_end_def)
  have b: "backed s i t S" using inv(3) assms(4) by (simp add: polls_ok_def)
  have "j \<in> set M \<and> (\<exists>S. backed s j u S \<and> 2 * card S > length M)" if "(u, j) \<in> insert (t, i) (c_led s)" for u j
    using that b half assms(3) inv(3) unfolding polls_ok_def by blast
  moreover have "polls_ok M ?s' \<longleftrightarrow> (\<forall>i t S. (i, t, S) \<in> c_polls s \<longrightarrow> backed s i t S) \<and>
      (\<forall>u j. (u, j) \<in> insert (t, i) (c_led s) \<longrightarrow> j \<in> set M \<and> (\<exists>S. backed s j u S \<and> 2 * card S > length M))"
    by (simp add: polls_ok_def backed_def)
  ultimately have polls: "polls_ok M ?s'" using inv(3) unfolding polls_ok_def by blast
  have first: "(t, j) \<notin> c_led s" for j
  proof
    assume j: "(t, j) \<in> c_led s"
    have "votes_ok M ?s'" using inv(2) by (simp add: votes_ok_def)
    from led_unique [OF this polls] j have "i = j" by auto
    with j m assms(6,7) show False by (auto simp: node_ok_def)
  qed
  have "log_synced C ?n" using m by (simp add: node_ok_def log_synced_def)
  moreover have "c_canon s t k = None" for k
    using inv(4) first unfolding canon_ok_def by (cases "c_canon s t k") auto
  ultimately have "node_ok C M ?s' i ?n" using m assms(7) by (auto simp: node_ok_def)
  moreover have "node_ok C M ?s' j (c_node s j)" if "j \<in> set M" "j \<noteq> i" for j
    using inv(1) that by (auto simp: node_ok_def)
  ultimately have "\<forall>j \<in> set M. node_ok C M ?s' j (c_node ?s' j)" using n by simp
  moreover have "canon_ok M ?s'" using inv(4) by (simp add: canon_ok_def) blast
  ultimately show ?thesis using inv(2,5) polls by (simp add: cluster_inv_def votes_ok_def sent_ok_def)
qed

lemma send_step:
  assumes "cluster_inv C M s" and "canonical (c_canon s) (l @ ae_Entries req)" and "length l = ae_PrevLogIndex req + 1"
    and "e_Term (last l) = ae_PrevLogTerm req"
  shows "cluster_inv C M (s\<lparr>c_sent := insert req (c_sent s)\<rparr>)"
  using assms by (auto simp: cluster_inv_def node_ok_def votes_ok_def polls_ok_def backed_def canon_ok_def sent_ok_def)

lemma replicate_canonical:
  assumes "replicate_request n t k = Inr req" and "canonical K (n_log n)"
  shows "\<exists>l. canonical K (l @ ae_Entries req) \<and> length l = ae_PrevLogIndex req + 1 \<and> e_Term (last l) = ae_PrevLogTerm req"
proof -
  have r: "0 < k" "k \<le> length (n_log n)" "ae_PrevLogIndex req = k - 1" "ae_PrevLogTerm req = e_Term (n_log n ! (k - 1))"
    "ae_Entries req = drop k (n_log n)"
    using assms(1) by (auto simp: replicate_request_def split: if_splits)
  then have "last (take k (n_log n)) = n_log n ! (k - 1)" by (subst last_conv_nth) auto
  with r assms(2) show ?thesis by (intro exI [of _ "take k (n_log n)"]) simp
qed

lemma heartbeat_canonical:
  assumes "heartbeat_request n = Some req" and "canonical K (n_log n)"
  shows "\<exists>l. canonical K (l @ ae_Entries req) \<and> length l = ae_PrevLogIndex req + 1 \<and> e_Term (last l) = ae_PrevLogTerm req"
proof -
  have ok: "log_ok (n_log n)" using assms(2) by (simp add: canonical_def)
  then have "e_Index (last (n_log n)) + 1 = length (n_log n)" by (auto simp: log_ok_def last_conv_nth)
  with assms show ?thesis
    by (intro exI [of _ "n_log n"]) (auto simp: heartbeat_request_def split: if_splits)
qed

lemma propose_step:
  assumes "cluster_inv C M s" and "i \<in> set M" and "propose_begin C AppendOk (c_node s i) c = (n, Inr (e, t))"
  shows "cluster_inv C M ((set_node s i n)\<lparr>c_canon := (c_canon s)(t := (c_canon s t)(e_Index e := Some (n_log n)))\<rparr>)"
    (is "cluster_inv C M ?s'")
proof -
  let ?m = "c_node s i" and ?K = "c_canon s" and ?k = "length (n_log (c_node s i))"
  let ?K' = "?K(t := (?K t)(e_Index e := Some (n_log n)))"
  have inv: "\<forall>j \<in> set M. node_ok C M s j (c_node s j)" "votes_ok M s" "polls_ok M s" "canon_ok M s" "sent_ok s"
    using assms(1) by (simp_all add: cluster_inv_def)
  have m: "node_ok C M s i ?m" using inv(1) assms(2) by simp
  obtain st where st: "store_Append C AppendOk (n_store ?m) e = (st, True)" by (simp add: store_Append_def)
  have p: "n_role ?m = Leader" "t = n_term ?m" "e_Index e = ?k" "e_Term e = t" "n = ?m\<lparr>n_store := st, n_log := n_log ?m @ [e]\<rparr>"
    using assms(3) st by (auto simp: propose_begin_def Let_def split: if_splits prod.splits bool.splits)
  have led: "(t, i) \<in> c_led s" and own: "?K t k = Some es \<Longrightarrow> take (k + 1) (n_log ?m) = es" for k es
    using m p(1,2) by (auto simp: node_ok_def)
  have canon: "canonical ?K es" "length es = k + 1" "0 < k" if "?K u k = Some es" for u k es
    using inv(4) that by (auto simp: canon_ok_def)
  have new: "?K t ?k = None"
  proof (cases "?K t ?k")
    case (Some es)
    from own [OF this] canon(2) [OF this] show ?thesis by auto
  qed simp
  then have ext: "extends ?K ?K'" using p(3) by (auto simp: extends_def)
  have old: "canonical ?K (n_log ?m)" "store_holds C (n_store ?m) (n_log ?m)" using m by (simp_all add: node_ok_def log_synced_def)
  have pos: "0 < ?k" using old(1) by (auto simp: canonical_def log_ok_def)
  have log: "canonical ?K' (n_log n)"
  proof -
    have "log_ok (n_log n)" using old(1) p(3,5) log_ok_snoc by (simp add: canonical_def)
    moreover have "?K' (e_Term (n_log n ! k)) k = Some (take (k + 1) (n_log n))" if "0 < k" "k < length (n_log n)" for k
    proof (cases "k < ?k")
      case True
      then have "?K (e_Term (n_log ?m ! k)) k = Some (take (k + 1) (n_log ?m))" using old(1) that by (simp add: canonical_def)
      then have "?K' (e_Term (n_log ?m ! k)) k = Some (take (k + 1) (n_log ?m))" using ext unfolding extends_def by blast
      with True p(5) show ?thesis by (simp add: nth_append)
    next
      case False
      then have "k = ?k" using that(2) p(5) by simp
      then show ?thesis using p(3,4,5) by (simp add: nth_append)
    qed
    ultimately show ?thesis by (simp add: canonical_def)
  qed
  have sync: "log_synced C n" using wal.append_ok [OF old(2) p(3) st] p(5) by (simp add: log_synced_def)
  have mine: "take (k + 1) (n_log n) = es" if "?K' t k = Some es" for k es
  proof (cases "k = ?k")
    case True
    then show ?thesis using that p(3,5) by auto
  next
    case False
    then have K: "?K t k = Some es" using that p(3) by simp
    have "length (n_log ?m) \<ge> k + 1" using own [OF K] canon(2) [OF K] by auto
    then show ?thesis using own [OF K] p(5) by simp
  qed
  have "meta_synced n" using m p(5) st by (auto simp: node_ok_def meta_synced_def store_Append_def split: option.splits)
  then have "node_ok C M ?s' i n" using m log sync mine p by (auto simp: node_ok_def)
  moreover have "node_ok C M ?s' j (c_node s j)" if j: "j \<in> set M" "j \<noteq> i" for j
  proof -
    have nj: "node_ok C M s j (c_node s j)" using inv(1) j(1) by simp
    then have "canonical ?K' (n_log (c_node s j))" using canonical_mono [OF _ ext] by (simp add: node_ok_def)
    moreover have "n_term (c_node s j) \<noteq> t" if "n_role (c_node s j) = Leader"
      using nj that led led_unique [OF inv(2,3), of t i j] j(2) by (auto simp: node_ok_def)
    ultimately show ?thesis using nj by (simp add: node_ok_def)
  qed
  ultimately have "\<forall>j \<in> set M. node_ok C M ?s' j (c_node ?s' j)" by simp
  moreover have "canon_ok M ?s'"
  proof -
    have "canonical ?K' es \<and> length es = k + 1 \<and> 0 < k \<and> (\<exists>i. (u, i) \<in> c_led s)" if K': "?K' u k = Some es" for u k es
    proof (cases "u = t \<and> k = ?k")
      case True
      then have "es = n_log n" using K' p(3) by simp
      with True log led pos p(5) show ?thesis by auto
    next
      case False
      then have "?K u k = Some es" using K' p(3) by (auto split: if_splits)
      with inv(4) canonical_mono [OF _ ext] show ?thesis by (auto simp: canon_ok_def)
    qed
    then show ?thesis by (simp add: canon_ok_def)
  qed
  moreover have "sent_ok ?s'" using inv(5) canonical_mono [OF _ ext] by (simp add: sent_ok_def) blast
  ultimately show ?thesis using inv(2,3) by (simp add: cluster_inv_def votes_ok_def polls_ok_def backed_def)
qed

lemma step_keeps_inv:
  assumes "raft_step C M s s'" and "members_ok M" and "cluster_inv C M s"
  shows "cluster_inv C M s'"
proof -
  have m: "node_ok C M s i (c_node s i)" "meta_synced (c_node s i)" "canonical (c_canon s) (n_log (c_node s i))" if "i \<in> set M" for i
    using assms(3) that by (simp_all add: cluster_inv_def node_ok_def)
  show ?thesis
    using assms(1)
  proof cases
    case (timeout i n req)
    then show ?thesis using timeout_step [OF assms(3)] by blast
  next
    case (vote v req n resp)
    then show ?thesis using vote_step [OF assms(3,2)] by blast
  next
    case (count i t S v n g)
    let ?s = "s\<lparr>c_polls := insert (i, t, insert v S) (c_polls s)\<rparr>"
    have "backed s i t (insert v S)" using count(3,6) assms(3) by (auto simp: cluster_inv_def polls_ok_def backed_def)
    then have "cluster_inv C M ?s" using assms(3)
      by (auto simp: cluster_inv_def node_ok_def votes_ok_def polls_ok_def backed_def canon_ok_def sent_ok_def)
    moreover have "settles (c_node ?s i) n" "same_log (c_node ?s i) n" using settles_count [OF count(7)] m [OF count(2)] by simp_all
    ultimately have "cluster_inv C M (set_node ?s i n)" using settled_step count(2) by blast
    moreover have "s' = set_node ?s i n" using count(1) by (cases s) (simp add: set_node_def)
    ultimately show ?thesis by simp
  next
    case (give_up i g resp n)
    then show ?thesis using settled_step [OF assms(3)] settles_count m by blast
  next
    case (win i t S)
    then show ?thesis using win_step [OF assms(3,2)] by blast
  next
    case (send i t k req)
    with replicate_canonical [OF send(3) m(3)] show ?thesis using send_step [OF assms(3)] by blast
  next
    case (heartbeat i req)
    with heartbeat_canonical [OF heartbeat(3) m(3)] show ?thesis using send_step [OF assms(3)] by blast
  next
    case (receive j req n resp)
    then have "node_ok C M s j n" using receive_ok [OF receive(4)] m(1) assms(3) by (simp add: cluster_inv_def)
    then show ?thesis using node_step [OF assms(3), of s' j n] receive(1) by (simp add: same_history_def)
  next
    case (response i resp n r)
    then show ?thesis using settled_step [OF assms(3)] settles_response m by blast
  next
    case (propose i c n e t)
    then show ?thesis using propose_step [OF assms(3)] by blast
  next
    case (commit i t e n r)
    then show ?thesis using settled_step [OF assms(3)] settles_commit m by blast
  next
    case (snapshot i n ok)
    then show ?thesis using settled_step [OF assms(3)] settles_snapshot m by blast
  next
    case (restart i n)
    have "node_ok C M s i n" using settles_restart [OF restart(3)] same_log_ok m(1) restart(2) by blast
    then show ?thesis using node_step [OF assms(3), of s' i n] restart(1) by (simp add: same_history_def)
  qed
qed

lemma fresh_ok:
  assumes "entry_codec_ok C"
  shows "cluster_inv C M (fresh_cluster M)"
  using assms by (auto simp: cluster_inv_def node_ok_def votes_ok_def polls_ok_def canon_ok_def sent_ok_def fresh_cluster_def
    fresh_node_def meta_synced_def log_synced_def store_holds_def empty_store_def log_bytes_of_def file_of_def canonical_def log_ok_sentinel)

lemma reachable_inv:
  assumes "reachable C M s" and "members_ok M" and "entry_codec_ok C"
  shows "cluster_inv C M s"
  using assms(1) by induction (simp_all add: fresh_ok assms(2,3) step_keeps_inv [OF _ assms(2)])

subsection \<open>A run\<close>

text \<open>An encoding of entries that reads back what it writes: numbers as runs of zeros, strings with their length.\<close>

fun unary :: "nat list \<Rightarrow> byte list" where
  "unary [] = []"
| "unary (n # ns) = replicate n 48 @ 49 # unary ns"

fun from_unary :: "nat \<Rightarrow> byte list \<Rightarrow> nat list" where
  "from_unary n [] = []"
| "from_unary n (b # bs) = (if b = 48 then from_unary (n + 1) bs else n # from_unary 0 bs)"

definition string_nats :: "str \<Rightarrow> nat list" where "string_nats s = length s # s"

definition operation_nats :: "operation \<Rightarrow> nat list" where
  "operation_nats op = (case op of OpPut \<Rightarrow> 0 # string_nats [] | OpDelete \<Rightarrow> 1 # string_nats [] | OtherOperation s \<Rightarrow> 2 # string_nats s)"

definition take_string :: "nat list \<Rightarrow> str \<times> nat list" where
  "take_string ns = (take (hd ns) (tl ns), drop (hd ns) (tl ns))"

definition entry_nats :: "entry \<Rightarrow> nat list" where
  "entry_nats e = (let c = e_Command e; t = cmd_ExpiresAt c in
     e_Index e # e_Term e # nat (max 0 t) # nat (max 0 (- t)) # operation_nats (cmd_Operation c) @ string_nats (cmd_Key c) @ string_nats (cmd_Value c))"

definition nats_entry :: "nat list \<Rightarrow> entry option" where
  "nats_entry xs =
     (case xs of
        i # t # p # m # tag # ns \<Rightarrow>
          (case take_string ns of (other, ns) \<Rightarrow> case take_string ns of (k, ns) \<Rightarrow> case take_string ns of (v, _) \<Rightarrow>
             Some \<lparr>e_Index = i, e_Term = t, e_Command = \<lparr>cmd_Operation = (if tag = 0 then OpPut else if tag = 1 then OpDelete else OtherOperation other),
               cmd_Key = k, cmd_Value = v, cmd_ExpiresAt = int p - int m\<rparr>\<rparr>)
      | _ \<Rightarrow> None)"

definition unary_codec :: entry_codec where
  "unary_codec = \<lparr>ec_marshal = (\<lambda>e. unary (entry_nats e)), ec_unmarshal = (\<lambda>bs. nats_entry (from_unary 0 bs))\<rparr>"

lemma from_unary_zeros: "from_unary k (replicate n 48 @ 49 # bs) = (k + n) # from_unary 0 bs"
  by (induction n arbitrary: k) simp_all

lemma from_unary_unary: "from_unary 0 (unary ns) = ns"
  by (induction ns) (simp_all add: from_unary_zeros)

lemma take_string_nats [simp]: "take_string (string_nats s @ ns) = (s, ns)"
  by (simp add: take_string_def string_nats_def)

lemma unary_bytes: "set (unary ns) \<subseteq> {48, 49}"
  by (induction ns) auto

lemma nats_entry_nats: "nats_entry (entry_nats e) = Some e"
proof -
  have "int (nat (max 0 t)) - int (nat (max 0 (- t))) = t" for t by linarith
  then show ?thesis
    using take_string_nats [of _ "[]"]
    by (cases e, cases "e_Command e", cases "cmd_Operation (e_Command e)")
      (simp_all add: nats_entry_def entry_nats_def Let_def operation_nats_def)
qed

lemma unary_codec_ok: "entry_codec_ok unary_codec"
proof -
  have "newline \<notin> set (unary (entry_nats e)) \<and> unary (entry_nats e) \<noteq> [] \<and> last (unary (entry_nats e)) \<noteq> 13" for e
  proof -
    have u: "set (unary (entry_nats e)) \<subseteq> {48, 49}" "unary (entry_nats e) \<noteq> []"
      using unary_bytes [of "entry_nats e"] by (simp, simp add: entry_nats_def Let_def)
    then have "last (unary (entry_nats e)) \<in> {48, 49}" using last_in_set by blast
    with u show ?thesis by (auto simp: newline_def)
  qed
  then show ?thesis by (simp add: entry_codec_ok_def unary_codec_def from_unary_unary nats_entry_nats line_ok_def)
qed

text \<open>Two members: one is elected with the vote of the other, and a leader proposes an entry and sends it to the other.\<close>

definition same_data :: "node \<Rightarrow> node \<Rightarrow> bool" where
  "same_data n n' \<longleftrightarrow> n_id n' = n_id n \<and> n_peers n' = n_peers n \<and> n_commitIndex n' = n_commitIndex n \<and> n_machine n' = n_machine n \<and>
     n_lastApplied n' = n_lastApplied n"

lemma pair_election:
  assumes "x \<in> set M" and "y \<in> set M" and "x \<noteq> y" and "n_id (c_node s x) = x" and "n_peers (c_node s x) = [y]"
    and "n_role (c_node s x) \<noteq> Leader" and "n_log (c_node s y) = n_log (c_node s x)" and "n_term (c_node s y) \<le> n_term (c_node s x)"
  shows "\<exists>s'. (raft_step C M)\<^sup>*\<^sup>* s s' \<and> same_data (c_node s x) (c_node s' x) \<and> same_data (c_node s y) (c_node s' y) \<and>
    n_log (c_node s' x) = n_log (c_node s x) \<and> n_log (c_node s' y) = n_log (c_node s x) \<and> n_role (c_node s' x) = Leader \<and>
    n_role (c_node s' y) = Follower \<and> n_term (c_node s' x) = n_term (c_node s x) + 1 \<and> n_term (c_node s' y) = n_term (c_node s x) + 1 \<and>
    (n_term (c_node s x) + 1, x) \<in> c_led s'"
proof -
  let ?t = "n_term (c_node s x) + 1"
  obtain n1 req where n1: "election_begin True (c_node s x) = (n1, Some req)"
    using assms(6) by (simp add: election_begin_def Let_def)
  have f1: "n_log n1 = n_log (c_node s x)" "n_term n1 = ?t" "n_role n1 = Candidate" "n_id n1 = x" "n_peers n1 = [y]" "same_data (c_node s x) n1"
    "rv_Term req = ?t" "rv_CandidateID req = x" "rv_LastLogIndex req = e_Index (last (n_log n1))" "rv_LastLogTerm req = e_Term (last (n_log n1))"
    using n1 assms(4-6) by (auto simp: election_begin_def Let_def same_data_def)
  define s1 where "s1 = (set_node s x n1)\<lparr>c_asked := insert req (c_asked s), c_votes := insert (x, n_term n1, x) (c_votes s),
      c_polls := insert (x, n_term n1, {x}) (c_polls s)\<rparr>"
  have r1: "raft_step C M s s1" unfolding s1_def by (rule raft_step.timeout [OF assms(1) n1])
  obtain n2 resp where n2: "HandleRequestVote (True, True) (c_node s y) req = (n2, resp)" by fastforce
  have f2: "vr_VoteGranted resp" "vr_Term resp = ?t" "n_log n2 = n_log (c_node s x)" "n_term n2 = ?t" "n_role n2 = Follower" "same_data (c_node s y) n2"
    using n2 f1 assms(7,8) by (auto simp: HandleRequestVote_def Let_def same_data_def split: if_splits)
  define s2 where "s2 = (set_node s1 y n2)\<lparr>c_votes := insert (y, ?t, x) (c_votes s1)\<rparr>"
  have r2: "raft_step C M s1 s2"
    using raft_step.vote [OF assms(2), of req s1 n2 resp C] n2 f1 f2 assms(3) by (simp add: s1_def s2_def)
  have a2: "c_node s2 x = n1" "c_node s2 y = n2" "(x, ?t, {x}) \<in> c_polls s2" "(y, ?t, x) \<in> c_votes s2"
    using f1 assms(3) by (simp_all add: s2_def s1_def)
  define s3 where "s3 = (set_node s2 x n1)\<lparr>c_polls := insert (x, ?t, insert y {x}) (c_polls s2)\<rparr>"
  have r3: "raft_step C M s2 s3"
    unfolding s3_def by (rule raft_step.count [OF assms(1) a2(3), where g = 2]) (use a2 f1 assms(3) in \<open>simp_all add: election_count_def\<close>)
  define l where "l = election_end n1 ?t"
  define s4 where "s4 = (set_node s3 x l)\<lparr>c_led := insert (?t, x) (c_led s3)\<rparr>"
  have a3: "c_node s3 x = n1" "c_node s3 y = n2" using a2 assms(3) by (simp_all add: s3_def)
  have r4: "raft_step C M s3 s4"
    unfolding s4_def l_def a3(1) [symmetric]
    by (rule raft_step.win [OF assms(1), where S = "insert y {x}"]) (use a3 f1 assms(3) in \<open>simp_all add: s3_def needed_def\<close>)
  have "c_node s4 x = l" "c_node s4 y = n2" "(?t, x) \<in> c_led s4" using a3 assms(3) by (simp_all add: s4_def)
  moreover have "n_log l = n_log (c_node s x)" "n_term l = ?t" "n_role l = Leader" "same_data (c_node s x) l"
    using f1 by (simp_all add: l_def election_end_def same_data_def)
  moreover have "(raft_step C M)\<^sup>*\<^sup>* s s4"
    using r1 r2 r3 r4 by (meson rtranclp.rtrancl_into_rtrancl rtranclp.rtrancl_refl)
  ultimately show ?thesis using f2 by metis
qed

lemma pair_replication:
  assumes "x \<in> set M" and "y \<in> set M" and "x \<noteq> y" and "n_role (c_node s x) = Leader" and "n_role (c_node s y) = Follower"
    and "n_log (c_node s y) = n_log (c_node s x)" and "n_log (c_node s x) \<noteq> []" and "n_term (c_node s y) = n_term (c_node s x)"
    and "n_commitIndex (c_node s x) = n_commitIndex (c_node s y)"
    and "e = \<lparr>e_Index = length (n_log (c_node s x)), e_Term = n_term (c_node s x), e_Command = c\<rparr>"
  shows "\<exists>s'. (raft_step C M)\<^sup>*\<^sup>* s s' \<and> same_data (c_node s x) (c_node s' x) \<and> same_data (c_node s y) (c_node s' y) \<and>
    n_log (c_node s' x) = n_log (c_node s x) @ [e] \<and> n_log (c_node s' y) = n_log (c_node s x) @ [e] \<and> n_role (c_node s' x) = Leader \<and>
    n_role (c_node s' y) = Follower \<and> n_term (c_node s' x) = n_term (c_node s x) \<and> n_term (c_node s' y) = n_term (c_node s x) \<and>
    c_led s' = c_led s"
proof -
  let ?es = "n_log (c_node s x)" and ?t = "n_term (c_node s x)"
  obtain m where m: "propose_begin C AppendOk (c_node s x) c = (m, Inr (e, ?t))" "n_log m = ?es @ [e]" "n_role m = Leader" "n_term m = ?t"
    "same_data (c_node s x) m"
    using assms(4,10) by (simp add: propose_begin_def Let_def store_Append_def same_data_def)
  define s1 where "s1 = (set_node s x m)\<lparr>c_canon := (c_canon s)(?t := (c_canon s ?t)(e_Index e := Some (n_log m)))\<rparr>"
  have r1: "raft_step C M s s1" unfolding s1_def by (rule raft_step.propose [OF assms(1) m(1)])
  have a1: "c_node s1 x = m" "c_node s1 y = c_node s y" "c_led s1 = c_led s" using assms(3) by (simp_all add: s1_def)
  obtain ae where ae: "replicate_request m ?t (length ?es) = Inr ae" "ae_Entries ae = [e]" "ae_PrevLogIndex ae = length ?es - 1"
    "ae_PrevLogTerm ae = e_Term (last ?es)" "ae_Term ae = ?t" "ae_LeaderCommit ae = n_commitIndex (c_node s y)"
    using m assms(7,9) by (simp add: replicate_request_def same_data_def nth_append last_conv_nth)
  define s2 where "s2 = s1\<lparr>c_sent := insert ae (c_sent s1)\<rparr>"
  have r2: "raft_step C M s1 s2"
    unfolding s2_def by (rule raft_step.send [OF assms(1), where t = ?t and k = "length ?es"]) (use ae(1) a1 in simp)
  have prev: "Suc (ae_PrevLogIndex ae) = length ?es" "?es ! ae_PrevLogIndex ae = last ?es" "ae_PrevLogIndex ae < length ?es"
    using ae(3) assms(7) by (simp_all add: last_conv_nth)
  have "merge_entries ?es (length ?es) [e] False = (?es @ [e], True)" by (simp add: Let_def)
  then obtain k resp where k: "HandleAppendEntries C all_written (c_node s y) ae = Some (k, resp)" "n_log k = ?es @ [e]" "n_term k = ?t"
    "n_role k = Follower" "same_data (c_node s y) k"
    using ae(2,4-6) prev assms(5,6,8)
    by (simp add: HandleAppendEntries_def Let_def all_written_def store_Rewrite_def same_data_def not_le
      cong: if_cong prod.case_cong option.case_cong)
  have r3: "raft_step C M s2 (set_node s2 y k)"
    by (rule raft_step.receive [OF assms(2)]) (use k(1) a1 in \<open>simp_all add: s2_def\<close>)
  have "c_node (set_node s2 y k) x = m" "c_node (set_node s2 y k) y = k" "c_led (set_node s2 y k) = c_led s"
    using a1 assms(3) by (simp_all add: s2_def)
  moreover have "(raft_step C M)\<^sup>*\<^sup>* s (set_node s2 y k)"
    using r1 r2 r3 by (meson rtranclp.rtrancl_into_rtrancl rtranclp.rtrancl_refl)
  ultimately show ?thesis using m k by metis
qed

lemma reachable_steps: "(raft_step C M)\<^sup>*\<^sup>* s s' \<Longrightarrow> reachable C M s \<Longrightarrow> reachable C M s'"
  by (induction rule: rtranclp_induct) (auto intro: reachable.step)

abbreviation (input) "pair_of_members \<equiv> [[1], [2]] :: str list"

lemma pair_run:
  assumes "e = \<lparr>e_Index = 1, e_Term = 1, e_Command = c\<rparr>" and "M = [a, b]" and "a \<noteq> b"
  shows "\<exists>s. reachable C M s \<and> n_role (c_node s a) = Leader \<and> n_role (c_node s b) = Follower \<and> (1, a) \<in> c_led s \<and>
     n_log (c_node s a) = [sentinel, e] \<and> n_log (c_node s b) = [sentinel, e] \<and> n_term (c_node s a) = 1 \<and> n_term (c_node s b) = 1 \<and>
     same_data (fresh_node M a) (c_node s a) \<and> same_data (fresh_node M b) (c_node s b)"
proof -
  let ?s0 = "fresh_cluster M"
  have f: "n_id (c_node ?s0 i) = i" "n_peers (c_node ?s0 i) = peers_of M i" "n_role (c_node ?s0 i) = Follower" "n_log (c_node ?s0 i) = [sentinel]"
    "n_term (c_node ?s0 i) = 0" "n_commitIndex (c_node ?s0 i) = 0" "c_node ?s0 i = fresh_node M i" for i
    by (simp_all add: fresh_cluster_def fresh_node_def)
  have ab: "a \<in> set M" "b \<in> set M" "peers_of M a = [b]" using assms(2,3) by (auto simp: peers_of_def)
  obtain s1 where s1: "(raft_step C M)\<^sup>*\<^sup>* ?s0 s1" "same_data (c_node ?s0 a) (c_node s1 a)" "same_data (c_node ?s0 b) (c_node s1 b)"
    "n_log (c_node s1 a) = [sentinel]" "n_log (c_node s1 b) = [sentinel]" "n_role (c_node s1 a) = Leader"
    "n_role (c_node s1 b) = Follower" "n_term (c_node s1 a) = 1" "n_term (c_node s1 b) = 1" "(1, a) \<in> c_led s1"
    using pair_election [OF ab(1,2) assms(3), of ?s0 C] ab(3) by (auto simp: f(1-6))
  obtain s2 where s2: "(raft_step C M)\<^sup>*\<^sup>* s1 s2" "same_data (c_node s1 a) (c_node s2 a)" "same_data (c_node s1 b) (c_node s2 b)"
    "n_log (c_node s2 a) = [sentinel, e]" "n_log (c_node s2 b) = [sentinel, e]" "n_role (c_node s2 a) = Leader"
    "n_role (c_node s2 b) = Follower" "n_term (c_node s2 a) = 1" "n_term (c_node s2 b) = 1" "(1, a) \<in> c_led s2"
    using pair_replication [OF ab(1,2) assms(3), of s1 e c C] s1 assms(1) f(6) by (auto simp: same_data_def)
  have "reachable C M s2" using reachable_steps [OF s2(1)] reachable_steps [OF s1(1)] reachable.start by blast
  moreover have "same_data (fresh_node M a) (c_node s2 a)" "same_data (fresh_node M b) (c_node s2 b)"
    using s1(2,3) s2(2,3) by (simp_all add: f(7) same_data_def)
  ultimately show ?thesis using s2 by blast
qed

lemma sample_run:
  assumes "e = \<lparr>e_Index = 1, e_Term = 1, e_Command = c\<rparr>"
  shows "\<exists>s. reachable C pair_of_members s \<and> n_role (c_node s [1]) = Leader \<and> n_role (c_node s [2]) = Follower \<and> (1, [1]) \<in> c_led s \<and>
     n_log (c_node s [1]) = [sentinel, e] \<and> n_log (c_node s [2]) = [sentinel, e] \<and> n_term (c_node s [1]) = 1 \<and> n_term (c_node s [2]) = 1"
  using pair_run [OF assms, of pair_of_members "[1]" "[2]" C] by auto

subsection \<open>Safety\<close>

text \<open>
  C14: in every reachable state of a cluster whose disks work, no term ever had two leaders, and every node that acts as a
  leader is the leader of its term.
\<close>

theorem election_safety:
  assumes "entry_codec_ok C" and "members_ok M" and "reachable C M s"
  shows "(\<forall>t i j. (t, i) \<in> c_led s \<and> (t, j) \<in> c_led s \<longrightarrow> i = j) \<and>
    (\<forall>i \<in> set M. n_role (c_node s i) = Leader \<longrightarrow> (n_term (c_node s i), i) \<in> c_led s)"
proof -
  have inv: "cluster_inv C M s" using reachable_inv assms by blast
  then show ?thesis using led_unique [of M s] unfolding cluster_inv_def node_ok_def by metis
qed

theorem election_safety_witness:
  "\<exists>s :: cluster. n_role (c_node s [1]) = Leader \<and> (\<forall>j. (1, j) \<in> c_led s \<longrightarrow> j = [1])"
proof -
  obtain s where s: "reachable unary_codec pair_of_members s" "n_role (c_node s [1]) = Leader" "(1, [1]) \<in> c_led s"
    using sample_run [OF refl, of unary_codec no_command] by blast
  have "members_ok pair_of_members" by (simp add: members_ok_def)
  from election_safety [OF unary_codec_ok this s(1)] s(3) have "\<forall>j. (1, j) \<in> c_led s \<longrightarrow> j = [1]" by auto
  with s(2) show ?thesis by blast
qed

text \<open>
  C15: in every reachable state, two logs that hold an entry of the same term at the same index hold the same entries up to
  it, also after crashes, restarts and overwritten entries.
\<close>

theorem log_matching:
  assumes "entry_codec_ok C" and "members_ok M" and "reachable C M s" and "i \<in> set M" and "j \<in> set M"
    and "k < length (n_log (c_node s i))" and "k < length (n_log (c_node s j))"
    and "e_Term (n_log (c_node s i) ! k) = e_Term (n_log (c_node s j) ! k)"
  shows "take (k + 1) (n_log (c_node s i)) = take (k + 1) (n_log (c_node s j))"
proof -
  have "cluster_inv C M s" using reachable_inv assms(1-3) by blast
  then have "canonical (c_canon s) (n_log (c_node s i))" "canonical (c_canon s) (n_log (c_node s j))"
    using assms(4,5) by (simp_all add: cluster_inv_def node_ok_def)
  from canonical_matches [OF this assms(6-8)] show ?thesis .
qed

theorem log_matching_witness:
  "\<exists>s. reachable unary_codec pair_of_members s \<and> take 2 (n_log (c_node s [1])) = take 2 (n_log (c_node s [2]))"
proof -
  obtain s e where s: "reachable unary_codec pair_of_members s" "n_log (c_node s [1]) = [sentinel, e]" "n_log (c_node s [2]) = [sentinel, e]"
    using sample_run [OF refl, of unary_codec no_command] by blast
  have "members_ok pair_of_members" by (simp add: members_ok_def)
  from log_matching [OF unary_codec_ok this s(1), of "[1]" "[2]" 1] s show ?thesis by (auto simp: numeral_2_eq_2)
qed

end
