(* ===== verification/RaftReplicate.thy ===== *)
theory RaftReplicate
  imports RaftSafety
begin

text \<open>
  How a leader brings a follower up to date: in every refused round the index to try moves down, so that the rounds end,
  and when they end the log of the follower starts with the log of the leader.
\<close>

subsection \<open>One round\<close>

lemma conflict_start_le: "conflict_start es t k \<le> k"
  by (induction es t k rule: conflict_start.induct) auto

lemma conflict_start_pos:
  assumes "0 < k" and "e_Term (es ! 0) \<noteq> t"
  shows "0 < conflict_start es t k"
  using assms
proof (induction es t k rule: conflict_start.induct)
  case (2 es t k)
  then show ?case by (cases "k = 0") auto
qed simp

text \<open>What a follower answers the leader of its term or a later one: it never fails, and it refuses with a smaller index.\<close>

lemma append_round:
  assumes "meta_synced f" and "n_term f \<le> ae_Term req" and "n_log f \<noteq> []" and "0 < ae_PrevLogIndex req \<or> ae_PrevLogTerm req = 0"
    and "e_Term (n_log f ! 0) = 0" and "\<forall>k. 0 < k \<and> k < length (n_log f) \<longrightarrow> 0 < e_Term (n_log f ! k)"
  shows "\<exists>f' resp. HandleAppendEntries C all_written f req = Some (f', resp) \<and> ar_Term resp = ae_Term req \<and>
    meta_synced f' \<and> n_term f' = ae_Term req \<and>
    (if ar_Success resp then
       ae_PrevLogIndex req < length (n_log f) \<and> e_Term (n_log f ! ae_PrevLogIndex req) = ae_PrevLogTerm req \<and> n_log f' = fst (merged f req)
     else n_log f' = n_log f \<and> 0 < ar_ConflictIndex resp \<and> ar_ConflictIndex resp \<le> ae_PrevLogIndex req)"
proof -
  have late: "\<not> ae_Term req < n_term f" using assms(2) by simp
  note h = heard_fields [OF late assms(1)] and t = taken_over_fields [OF late assms(1), of C] and u = append_unfold [OF late assms(1), of C]
  have mx: "max (n_term f) (ae_Term req) = ae_Term req" using assms(2) by simp
  show ?thesis
  proof (cases "ae_PrevLogIndex req \<ge> length (n_log f)")
    case True
    with u h mx assms(3) show ?thesis by (simp add: refuse_def)
  next
    case short: False
    show ?thesis
    proof (cases "e_Term (n_log f ! ae_PrevLogIndex req) = ae_PrevLogTerm req")
      case False
      have pos: "0 < ae_PrevLogIndex req" using False assms(4,5) by (cases "ae_PrevLogIndex req") auto
      then have "0 < e_Term (n_log f ! ae_PrevLogIndex req)" using assms(6) short by simp
      then have "0 < conflict_start (n_log f) (e_Term (n_log f ! ae_PrevLogIndex req)) (ae_PrevLogIndex req)"
        using conflict_start_pos [OF pos] assms(5) by simp
      with u h mx False short conflict_start_le show ?thesis by (simp add: refuse_def)
    next
      case True
      show ?thesis
      proof (cases "ae_LeaderCommit req > n_commitIndex f")
        case False
        with u h t mx True short show ?thesis by (simp add: success_def)
      next
        case commit: True
        let ?es = "fst (merged f req)"
        have "length ?es \<ge> 1"
          using merge_length [of "ae_PrevLogIndex req + 1" "n_log f" "ae_Entries req" False] short by simp
        then obtain n' where n': "applyCommittedLocked ((taken_over C f req)\<lparr>n_commitIndex := min (ae_LeaderCommit req) (length ?es - 1)\<rparr>) = Some n'"
          using t by (fastforce simp: applyCommittedLocked_def)
        with applyCommitted_fields [OF n'] u h t mx True short commit show ?thesis by (simp add: success_def)
      qed
    qed
  qed
qed

subsection \<open>All rounds\<close>

definition good_log :: "canon \<Rightarrow> entry list \<Rightarrow> bool" where
  "good_log K es \<longleftrightarrow> canonical K es \<and> (\<forall>k. 0 < k \<and> k < length es \<longrightarrow> 0 < e_Term (es ! k))"

lemma good_log_start: "good_log K es \<Longrightarrow> es \<noteq> [] \<and> e_Term (es ! 0) = 0"
  by (auto simp: good_log_def canonical_def log_ok_def sentinel_def)

lemma rounds_repair:
  assumes "good_log K (n_log n)" and "n_role n = Leader" and "good_log K (n_log f)" and "meta_synced f" and "n_term f \<le> n_term n"
    and "0 < next_index" and "next_index \<le> length (n_log n)" and "next_index \<le> fuel"
  shows "\<exists>f'. replicate_rounds C all_written ok fuel n f (n_term n) next_index = Some (Inr (n, f', True)) \<and>
    take (length (n_log n)) (n_log f') = n_log n"
  using assms
proof (induction fuel arbitrary: f next_index)
  case 0
  then show ?case by simp
next
  case (Suc fuel)
  obtain req where req: "replicate_request n (n_term n) next_index = Inr req" "ae_Term req = n_term n" "ae_PrevLogIndex req = next_index - 1"
    "ae_PrevLogTerm req = e_Term (n_log n ! (next_index - 1))" "ae_Entries req = drop next_index (n_log n)"
    using Suc.prems(2,6,7) by (simp add: replicate_request_def)
  have start: "0 < ae_PrevLogIndex req \<or> ae_PrevLogTerm req = 0"
    using good_log_start [OF Suc.prems(1)] req(3,4) by (cases "next_index - 1") auto
  have f: "n_log f \<noteq> []" "e_Term (n_log f ! 0) = 0" "\<forall>k. 0 < k \<and> k < length (n_log f) \<longrightarrow> 0 < e_Term (n_log f ! k)"
    using good_log_start [OF Suc.prems(3)] Suc.prems(3) by (simp_all add: good_log_def)
  from append_round [OF Suc.prems(4) _ f(1) start f(2,3), of C] Suc.prems(5) req(2)
  obtain f' resp where r: "HandleAppendEntries C all_written f req = Some (f', resp)" "ar_Term resp = n_term n" "meta_synced f'"
    "n_term f' = n_term n"
    "if ar_Success resp then ae_PrevLogIndex req < length (n_log f) \<and> e_Term (n_log f ! ae_PrevLogIndex req) = ae_PrevLogTerm req \<and>
       n_log f' = fst (merged f req)
     else n_log f' = n_log f \<and> 0 < ar_ConflictIndex resp \<and> ar_ConflictIndex resp \<le> ae_PrevLogIndex req"
    by auto
  show ?case
  proof (cases "ar_Success resp")
    case True
    let ?l = "take next_index (n_log n)"
    have c: "canonical K (n_log f)" "canonical K (?l @ ae_Entries req)" "?l \<noteq> []" "length ?l = next_index"
      using Suc.prems(1,3,6,7) req(5) by (auto simp: good_log_def)
    have "e_Term (n_log f ! (next_index - 1)) = e_Term (n_log n ! (next_index - 1))" "next_index - 1 < length (n_log f)"
      using r(5) True req(3,4) by simp_all
    then have "take next_index (n_log f) = ?l"
      using canonical_matches [of K "n_log f" "n_log n" "next_index - 1"] Suc.prems(1,3,6,7) by (simp add: good_log_def)
    with c merge_canonical [OF c(1-3), of False] r(5) True req(3,5) Suc.prems(6)
    have "take (length (n_log n)) (n_log f') = n_log n" by simp
    with r True req show ?thesis by (simp add: replicate_response_def)
  next
    case False
    with r(5) have k: "n_log f' = n_log f" "0 < ar_ConflictIndex resp" "ar_ConflictIndex resp < next_index"
      using req(3) Suc.prems(6) by auto
    from Suc.IH [of f' "ar_ConflictIndex resp"] Suc.prems k r(3,4)
    have "\<exists>f''. replicate_rounds C all_written ok fuel n f' (n_term n) (ar_ConflictIndex resp) = Some (Inr (n, f'', True)) \<and>
      take (length (n_log n)) (n_log f'') = n_log n" by simp
    with r False req k(2) show ?thesis by (simp add: replicate_response_def)
  qed
qed

subsection \<open>Replication in a cluster\<close>

lemma reachable_good_log:
  assumes "cluster_inv C M s" and "i \<in> set M"
  shows "good_log (c_canon s) (n_log (c_node s i))"
proof -
  have i: "canonical (c_canon s) (n_log (c_node s i))" using assms by (simp add: cluster_inv_def node_ok_def)
  have "0 < e_Term (n_log (c_node s i) ! k)" if k: "0 < k" "k < length (n_log (c_node s i))" for k
  proof -
    let ?t = "e_Term (n_log (c_node s i) ! k)"
    have "c_canon s ?t k = Some (take (k + 1) (n_log (c_node s i)))" using i k by (simp add: canonical_def)
    then obtain l where "(?t, l) \<in> c_led s" using assms(1) unfolding cluster_inv_def canon_ok_def by blast
    then obtain S where S: "backed s l ?t S" "2 * card S > length M" using assms(1) unfolding cluster_inv_def polls_ok_def by blast
    then obtain v where "v \<in> S" by (cases "S = {}") auto
    then have "(v, ?t, l) \<in> c_votes s" using S(1) by (simp add: backed_def)
    then show ?thesis using assms(1) unfolding cluster_inv_def votes_ok_def by blast
  qed
  with i show ?thesis by (simp add: good_log_def)
qed

text \<open>
  C21: replication ends and repairs: in every reachable state, a leader that has proposed an entry and reaches a follower that
  knows no later term succeeds after at most as many rounds as its log is long, without running out of any log, and the follower's
  log then starts with the leader's, whatever conflicting entries it held before.
\<close>

theorem replication_repairs_follower:
  assumes "entry_codec_ok C" and "members_ok M" and "reachable C M s" and "i \<in> set M" and "j \<in> set M"
    and "n_role (c_node s i) = Leader" and "n_term (c_node s j) \<le> n_term (c_node s i)"
    and "1 < length (n_log (c_node s i))" and "length (n_log (c_node s i)) \<le> fuel"
  shows "\<exists>f. replicateToPeer C all_written ok fuel (c_node s i) (c_node s j) (n_term (c_node s i)) = Some (Inr (c_node s i, f, True)) \<and>
    take (length (n_log (c_node s i))) (n_log f) = n_log (c_node s i)"
proof -
  have inv: "cluster_inv C M s" using reachable_inv assms(1-3) by blast
  have j: "meta_synced (c_node s j)" using inv assms(5) by (simp add: cluster_inv_def node_ok_def)
  show ?thesis
    unfolding replicateToPeer_def first_next_def
    using rounds_repair [OF reachable_good_log [OF inv assms(4)] assms(6) reachable_good_log [OF inv assms(5)] j assms(7)] assms(8,9)
    by simp
qed

theorem replication_repairs_follower_witness:
  "\<exists>(s :: cluster) f. length (n_log (c_node s [1])) = 2 \<and>
     replicateToPeer unary_codec all_written True 2 (c_node s [1]) (c_node s [2]) (n_term (c_node s [1])) = Some (Inr (c_node s [1], f, True))"
proof -
  obtain s e where s: "reachable unary_codec pair_of_members s" "n_role (c_node s [1]) = Leader" "n_log (c_node s [1]) = [sentinel, e]"
    "n_term (c_node s [2]) \<le> n_term (c_node s [1])"
    using sample_run [OF refl, of unary_codec no_command] by (metis order_refl)
  have M: "members_ok pair_of_members" by (simp add: members_ok_def)
  have "length (n_log (c_node s [1])) = 2" using s(3) by simp
  with replication_repairs_follower [OF unary_codec_ok M s(1), of "[1]" "[2]" 2 True] s show ?thesis by fastforce
qed

end
