(* ===== verification/RaftFaults.thy ===== *)
theory RaftFaults
  imports RaftSafety
begin

text \<open>
  Raft nodes and their disks: what a restart brings back after acknowledged writes, and what it does not when a write failed and the
  node went on, or when a line of the log is longer than the reader takes.
\<close>

subsection \<open>What a restart brings back\<close>

definition machine_of :: "entry list \<Rightarrow> nat \<Rightarrow> machine" where
  "machine_of es k = apply_between NewStateMachine es 0 k"

lemma apply_between_trans:
  assumes "a \<le> b" and "b \<le> c"
  shows "apply_between (apply_between m es a b) es b c = apply_between m es a c"
proof -
  have "[a + 1..<c + 1] = [a + 1..<b + 1] @ [b + 1..<c + 1]" using upt_add_eq_append [of "a + 1" "b + 1" "c - b"] assms by simp
  then show ?thesis by (simp add: apply_between_def)
qed

lemma apply_between_prefix:
  assumes "c < length es"
  shows "apply_between m (es @ fs) a c = apply_between m es a c"
  using assms unfolding apply_between_def by (intro foldl_cong) (auto simp: nth_append)

text \<open>A node whose log, metadata and snapshot on disk are those in memory and whose machine holds the committed commands.\<close>

definition durable_node :: "entry_codec \<Rightarrow> node \<Rightarrow> bool" where
  "durable_node C n \<longleftrightarrow> log_synced C n \<and> (\<forall>e \<in> set (tl (n_log n)). fits C e) \<and>
     ls_meta (n_store n) = Some \<lparr>md_Term = n_term n, md_VotedFor = n_votedFor n, md_CommitIndex = n_commitIndex n\<rparr> \<and>
     n_commitIndex n < length (n_log n) \<and> n_lastApplied n = n_commitIndex n \<and> n_machine n = machine_of (n_log n) (n_commitIndex n) \<and>
     (case ls_snapshot (n_store n) of None \<Rightarrow> True
      | Some d \<Rightarrow> ds_LastApplied d \<le> n_commitIndex n \<and> ds_Data d = machine_of (n_log n) (ds_LastApplied d))"

lemma restart_node:
  assumes "durable_node C n"
  shows "\<exists>n'. NewNode C nid peers (n_store n) = Inr n' \<and> n_log n' = n_log n \<and> n_term n' = n_term n \<and> n_votedFor n' = n_votedFor n \<and>
    n_commitIndex n' = n_commitIndex n \<and> n_machine n' = n_machine n \<and> n_lastApplied n' = n_lastApplied n \<and> n_store n' = n_store n"
proof -
  have d: "store_holds C (n_store n) (n_log n)" "\<forall>e \<in> set (tl (n_log n)). fits C e"
    "ls_meta (n_store n) = Some \<lparr>md_Term = n_term n, md_VotedFor = n_votedFor n, md_CommitIndex = n_commitIndex n\<rparr>"
    "n_commitIndex n < length (n_log n)" "n_lastApplied n = n_commitIndex n" "n_machine n = machine_of (n_log n) (n_commitIndex n)"
    using assms by (simp_all add: durable_node_def log_synced_def)
  have r: "OpenLogStore C (n_store n) =
      Inr (\<lparr>md_Term = n_term n, md_VotedFor = n_votedFor n, md_CommitIndex = n_commitIndex n\<rparr>, n_log n)"
    using holds_read [OF d(1)] d(2,3) by (simp add: OpenLogStore_def)
  obtain m k where s: "LoadSnapshot (n_store n) NewStateMachine = (m, k)" "k \<le> n_commitIndex n" "m = machine_of (n_log n) k"
  proof (cases "ls_snapshot (n_store n)")
    case None
    then show thesis using that [of NewStateMachine 0] by (simp add: LoadSnapshot_def machine_of_def apply_between_def)
  next
    case (Some snap)
    then show thesis using that [of "ds_Data snap" "ds_LastApplied snap"] assms
      by (simp add: LoadSnapshot_def replaceData_def durable_node_def)
  qed
  then have "apply_between m (n_log n) k (n_commitIndex n) = n_machine n"
    using d(6) apply_between_trans [of 0 k "n_commitIndex n"] by (simp add: machine_of_def)
  with r s d(4,5) show ?thesis by (simp add: NewNode_def max_def)
qed

lemma propose_durable:
  assumes "durable_node C n" and "propose_begin C AppendOk n c = (n1, Inr (e, t))" and "fits C e" and "propose_end True n1 t e = Some (n2, r)"
  shows "r = Inr (e_Index e) \<and> e_Index e = length (n_log n) \<and> n_log n2 = n_log n @ [e] \<and> e_Command e = c \<and> durable_node C n2 \<and>
    n_machine n2 = apply_between (n_machine n) (n_log n @ [e]) (n_commitIndex n) (length (n_log n))"
proof -
  obtain st where st: "store_Append C AppendOk (n_store n) e = (st, True)" by (simp add: store_Append_def)
  have p: "n_role n = Leader" "t = n_term n" "e = \<lparr>e_Index = length (n_log n), e_Term = n_term n, e_Command = c\<rparr>"
    "n1 = n\<lparr>n_store := st, n_log := n_log n @ [e]\<rparr>"
    using assms(2) st by (auto simp: propose_begin_def Let_def split: if_splits prod.splits bool.splits)
  have d: "store_holds C (n_store n) (n_log n)" "n_commitIndex n < length (n_log n)" "n_lastApplied n = n_commitIndex n"
    "n_machine n = machine_of (n_log n) (n_commitIndex n)" "n_log n \<noteq> []"
    using assms(1) by (auto simp: durable_node_def log_synced_def)
  let ?m = "apply_between (n_machine n) (n_log n @ [e]) (n_commitIndex n) (length (n_log n))"
  have m: "?m = machine_of (n_log n @ [e]) (length (n_log n))"
    using d(2,4) apply_between_trans [of 0 "n_commitIndex n" "length (n_log n)" NewStateMachine "n_log n @ [e]"]
      apply_between_prefix [OF d(2), of NewStateMachine "[e]" 0]
    by (simp add: machine_of_def)
  have n2: "r = Inr (e_Index e)" "n2 = fst (persistMetadataLocked True (n1\<lparr>n_commitIndex := length (n_log n), n_machine := ?m, n_lastApplied := length (n_log n)\<rparr>))"
    using assms(4) p d(2,3)
    by (auto simp: propose_end_def applyCommittedLocked_def persistMetadataLocked_def SaveMetadata_def)
  have "store_holds C st (n_log n @ [e])" using wal.append_ok [OF d(1) _ st] p(3) by simp
  then have "log_synced C n2" using n2(2) p(4) holds_same_log [of "n_store n2" st] by (simp add: log_synced_def)
  moreover have "ls_snapshot st = ls_snapshot (n_store n)" using st by (auto simp: store_Append_def)
  moreover have "\<forall>e' \<in> set (tl (n_log n @ [e])). fits C e'" using assms(1,3) d(5) by (simp add: durable_node_def)
  moreover have "machine_of (n_log n @ [e]) k = machine_of (n_log n) k" if "k \<le> n_commitIndex n" for k
    using that d(2) by (simp add: machine_of_def apply_between_prefix)
  ultimately show ?thesis using assms(1) n2 p m d(2) unfolding durable_node_def by (auto split: option.splits)
qed

text \<open>
  C27: a write that the leader acknowledged survives a crash: the node restarted from its files has the entry in its log, and its machine
  is the one before the write with the command and nothing but entries of the log applied. The node's files are in step with its memory when the
  write begins, the line of the entry fits the 64 KiB of the reader (\<open>long_entry_blocks_restart\<close> is one that does not), all writes succeed,
  and the leader handles nothing else between appending the entry and acknowledging it.
\<close>

theorem acknowledged_write_survives_restart:
  assumes "durable_node C n" and "propose_begin C AppendOk n c = (n1, Inr (e, t))" and "fits C e" and "propose_end True n1 t e = Some (n2, r)"
  shows "r = Inr (length (n_log n)) \<and> (\<exists>n3. NewNode C (n_id n) (n_peers n) (n_store n2) = Inr n3 \<and> n_log n3 = n_log n @ [e] \<and>
    e_Command e = c \<and> n_commitIndex n3 = length (n_log n) \<and> durable_node C n3 \<and>
    n_machine n3 = apply_between (n_machine n) (n_log n @ [e]) (n_commitIndex n) (length (n_log n)))"
proof -
  note p = propose_durable [OF assms]
  then obtain n3 where n3: "NewNode C (n_id n) (n_peers n) (n_store n2) = Inr n3" "n_log n3 = n_log n2" "n_term n3 = n_term n2"
    "n_votedFor n3 = n_votedFor n2" "n_commitIndex n3 = n_commitIndex n2" "n_machine n3 = n_machine n2" "n_lastApplied n3 = n_lastApplied n2"
    "n_store n3 = n_store n2"
    using restart_node [of C n2] by blast
  then have "durable_node C n3" using p unfolding durable_node_def log_synced_def n3(2-8) by blast
  moreover have "n_commitIndex n2 = length (n_log n)"
    using assms(4) p by (auto simp: propose_end_def persistMetadataLocked_def SaveMetadata_def dest: applyCommitted_fields split: if_splits option.splits)
  ultimately show ?thesis using p n3 by auto
qed

definition sample_leader :: node where
  "sample_leader = \<lparr>n_id = [1], n_peers = [], n_store = empty_store\<lparr>ls_meta := Some \<lparr>md_Term = 1, md_VotedFor = [1], md_CommitIndex = 0\<rparr>\<rparr>,
     n_machine = NewStateMachine, n_role = Leader, n_term = 1, n_votedFor = [1], n_leaderID = [1], n_log = [sentinel],
     n_commitIndex = 0, n_lastApplied = 0\<rparr>"

lemma sample_leader_durable: "durable_node unary_codec sample_leader"
  by (simp add: durable_node_def sample_leader_def log_synced_def store_holds_def unary_codec_ok log_ok_sentinel log_bytes_of_def
    empty_store_def file_of_def machine_of_def apply_between_def)

definition put_command :: "str \<Rightarrow> str \<Rightarrow> command" where
  "put_command k v = \<lparr>cmd_Operation = OpPut, cmd_Key = k, cmd_Value = v, cmd_ExpiresAt = 0\<rparr>"

lemma length_unary: "length (unary ns) = sum_list ns + length ns"
  by (induction ns) simp_all

theorem acknowledged_write_survives_restart_witness:
  "\<exists>n1 e n2 n3. propose_begin unary_codec AppendOk sample_leader (put_command [7] [8]) = (n1, Inr (e, 1)) \<and>
     propose_end True n1 1 e = Some (n2, Inr 1) \<and> NewNode unary_codec [1] [] (n_store n2) = Inr n3 \<and> n_log n3 = [sentinel, e]"
proof -
  obtain n1 e where p: "propose_begin unary_codec AppendOk sample_leader (put_command [7] [8]) = (n1, Inr (e, 1))"
    "e = \<lparr>e_Index = 1, e_Term = 1, e_Command = put_command [7] [8]\<rparr>" "n_role n1 = Leader" "n_term n1 = 1"
    "n_log n1 = [sentinel, e]" "n_lastApplied n1 = 0"
    by (simp add: propose_begin_def sample_leader_def Let_def store_Append_def)
  have f: "fits unary_codec e"
    by (simp add: fits_def short_def unary_codec_def p(2) entry_nats_def Let_def put_command_def operation_nats_def string_nats_def length_unary
      MaxScanTokenSize_def)
  obtain n2 r where e: "propose_end True n1 1 e = Some (n2, r)"
    using p by (auto simp: propose_end_def applyCommittedLocked_def persistMetadataLocked_def SaveMetadata_def)
  from acknowledged_write_survives_restart [OF sample_leader_durable p(1) f e] p e show ?thesis
    by (auto simp: sample_leader_def)
qed

subsection \<open>Writes that fail\<close>

text \<open>
  a vote is granted although writing it down failed, so that after a crash the node votes for another candidate in the same
  term: two leaders of one term become possible.
\<close>

theorem failed_write_forgets_vote:
  assumes "durable_node C n" and "n_votedFor n = []" and "rv_Term r1 = n_term n" and "rv_Term r2 = n_term n"
    and "HandleRequestVote (True, False) n r1 = (n1, resp1)" and "vr_VoteGranted resp1"
    and "rv_LastLogTerm r2 = rv_LastLogTerm r1" and "rv_LastLogIndex r2 = rv_LastLogIndex r1"
  shows "\<exists>n2 n3. NewNode C (n_id n) (n_peers n) (n_store n1) = Inr n2 \<and>
    HandleRequestVote (True, True) n2 r2 = (n3, \<lparr>vr_Term = n_term n, vr_VoteGranted = True\<rparr>)"
proof -
  have n1: "n_store n1 = n_store n"
    using assms(2,3,5,6)
    by (auto simp: HandleRequestVote_def Let_def persistMetadataLocked_def SaveMetadata_def split: if_splits)
  have up: "rv_LastLogTerm r1 > e_Term (last (n_log n)) \<or>
      (rv_LastLogTerm r1 = e_Term (last (n_log n)) \<and> rv_LastLogIndex r1 \<ge> e_Index (last (n_log n)))"
    using assms(2,3,5,6) by (auto simp: HandleRequestVote_def Let_def split: if_splits)
  obtain n2 where n2: "NewNode C (n_id n) (n_peers n) (n_store n) = Inr n2" "n_log n2 = n_log n" "n_term n2 = n_term n"
    "n_votedFor n2 = []"
    using restart_node [OF assms(1)] assms(2) by metis
  have "\<exists>n3. HandleRequestVote (True, True) n2 r2 = (n3, \<lparr>vr_Term = n_term n, vr_VoteGranted = True\<rparr>)"
    using up n2 assms(4,7,8) by (auto simp: HandleRequestVote_def Let_def)
  with n1 n2(1) show ?thesis by simp
qed

definition sample_follower :: node where
  "sample_follower = sample_leader\<lparr>n_role := Follower, n_votedFor := [],
     n_store := empty_store\<lparr>ls_meta := Some \<lparr>md_Term = 1, md_VotedFor = [], md_CommitIndex = 0\<rparr>\<rparr>\<rparr>"

lemma sample_follower_durable: "durable_node unary_codec sample_follower"
  by (simp add: durable_node_def sample_follower_def sample_leader_def log_synced_def store_holds_def unary_codec_ok log_ok_sentinel
    log_bytes_of_def empty_store_def file_of_def machine_of_def apply_between_def)

definition sample_request :: "str \<Rightarrow> requestVote" where
  "sample_request c = \<lparr>rv_Term = 1, rv_CandidateID = c, rv_LastLogIndex = 0, rv_LastLogTerm = 0\<rparr>"

theorem failed_write_forgets_vote_witness:
  "\<exists>n1 n2 n3. HandleRequestVote (True, False) sample_follower (sample_request [2]) = (n1, \<lparr>vr_Term = 1, vr_VoteGranted = True\<rparr>) \<and>
     NewNode unary_codec [1] [] (n_store n1) = Inr n2 \<and>
     HandleRequestVote (True, True) n2 (sample_request [3]) = (n3, \<lparr>vr_Term = 1, vr_VoteGranted = True\<rparr>)"
proof -
  obtain n1 where v: "HandleRequestVote (True, False) sample_follower (sample_request [2]) = (n1, \<lparr>vr_Term = 1, vr_VoteGranted = True\<rparr>)"
    by (simp add: HandleRequestVote_def sample_follower_def sample_leader_def sample_request_def Let_def sentinel_def)
  have f: "n_votedFor sample_follower = []" "n_term sample_follower = 1" "n_id sample_follower = [1]" "n_peers sample_follower = []"
    by (simp_all add: sample_follower_def sample_leader_def)
  from failed_write_forgets_vote [OF sample_follower_durable f(1) _ _ v, of "sample_request [3]"] f v show ?thesis
    by (auto simp: sample_request_def)
qed

text \<open>Entries are merged into the log at its end, and found there the second time.\<close>

lemma merge_at_end: "merge_entries es (length es) rs ch = (es @ rs, ch \<or> rs \<noteq> [])"
proof (induction rs arbitrary: es ch)
  case (Cons r rs)
  from Cons [of "es @ [r]"] show ?case by (simp add: Let_def)
qed simp

lemma merge_again: "merge_entries (l @ rs @ l') (length l) rs False = (l @ rs @ l', False)"
proof (induction rs arbitrary: l)
  case (Cons r rs)
  from Cons [of "l @ [r]"] show ?case by (simp add: Let_def nth_append)
qed simp

text \<open>
  a follower that could not write new entries refuses them but keeps them in memory; when the leader sends them again it
  acknowledges them without having written them, and after a crash they are gone.
\<close>

theorem retry_acknowledges_unwritten_entries:
  assumes "durable_node C n" and "n_role n = Follower" and "ae_Term req = n_term n" and "ae_PrevLogIndex req + 1 = length (n_log n)"
    and "ae_PrevLogTerm req = e_Term (last (n_log n))" and "ae_Entries req \<noteq> []" and "ae_LeaderCommit req \<le> n_commitIndex n"
  shows "\<exists>n1 resp1 n2 resp2 n3.
    HandleAppendEntries C \<lparr>aw_step_down = True, aw_rewrite = False, aw_commit = True\<rparr> n req = Some (n1, resp1) \<and> \<not> ar_Success resp1 \<and>
    HandleAppendEntries C all_written n1 req = Some (n2, resp2) \<and> ar_Success resp2 \<and> n_log n2 = n_log n @ ae_Entries req \<and>
    NewNode C (n_id n) (n_peers n) (n_store n2) = Inr n3 \<and> n_log n3 = n_log n"
proof -
  have prev: "n_log n \<noteq> []" "n_log n ! ae_PrevLogIndex req = last (n_log n)" "ae_PrevLogIndex req < length (n_log n)"
  proof -
    show "n_log n \<noteq> []" using assms(4) by auto
    moreover have "ae_PrevLogIndex req = length (n_log n) - 1" using assms(4) by simp
    ultimately show "n_log n ! ae_PrevLogIndex req = last (n_log n)" "ae_PrevLogIndex req < length (n_log n)"
      using assms(4) by (simp_all add: last_conv_nth)
  qed
  have m: "merge_entries (n_log n) (Suc (ae_PrevLogIndex req)) (ae_Entries req) False = (n_log n @ ae_Entries req, True)"
    using merge_at_end [of "n_log n"] assms(4,6) by simp
  have m2: "merge_entries (n_log n @ ae_Entries req) (Suc (ae_PrevLogIndex req)) (ae_Entries req) False = (n_log n @ ae_Entries req, False)"
    using merge_again [of "n_log n" "ae_Entries req" "[]"] assms(4) by simp
  define n1 where "n1 = n\<lparr>n_leaderID := ae_LeaderID req, n_log := n_log n @ ae_Entries req\<rparr>"
  have h1: "HandleAppendEntries C \<lparr>aw_step_down = True, aw_rewrite = False, aw_commit = True\<rparr> n req =
      Some (n1, refuse n1 (length (n_log n1)))"
    using assms(2,3,5) prev m by (simp add: HandleAppendEntries_def Let_def n1_def store_Rewrite_def)
  have h2: "HandleAppendEntries C all_written n1 req = Some (n1, success n1)"
    using assms(2,3,5,7) prev m2 by (simp add: HandleAppendEntries_def Let_def n1_def success_def nth_append)
  obtain n3 where "NewNode C (n_id n) (n_peers n) (n_store n) = Inr n3" "n_log n3 = n_log n"
    using restart_node [OF assms(1)] by metis
  then show ?thesis using h1 h2 by (simp add: refuse_def success_def n1_def)
qed

definition sample_entries :: appendEntries where
  "sample_entries = \<lparr>ae_Term = 1, ae_LeaderID = [2], ae_PrevLogIndex = 0, ae_PrevLogTerm = 0,
     ae_Entries = [\<lparr>e_Index = 1, e_Term = 1, e_Command = put_command [7] [8]\<rparr>], ae_LeaderCommit = 0\<rparr>"

theorem retry_acknowledges_unwritten_entries_witness:
  "\<exists>(n2 :: node) (n3 :: node). n_log n2 = [sentinel, \<lparr>e_Index = 1, e_Term = 1, e_Command = put_command [7] [8]\<rparr>] \<and>
     NewNode unary_codec [1] [] (n_store n2) = Inr n3 \<and> n_log n3 = [sentinel]"
proof -
  have f: "n_role sample_follower = Follower" "n_log sample_follower = [sentinel]" "n_id sample_follower = [1]" "n_peers sample_follower = []"
    by (simp_all add: sample_follower_def sample_leader_def)
  show ?thesis
    using retry_acknowledges_unwritten_entries [OF sample_follower_durable f(1), of sample_entries] f(2-4)
    by (auto simp: sample_entries_def sample_follower_def sample_leader_def sentinel_def)
qed

subsection \<open>Entries that cannot be read back\<close>

text \<open>
  a leader appends and may acknowledge an entry whose line in the log is 65536 bytes or longer; from then on the node
  cannot be started from its files.
\<close>

theorem long_entry_blocks_restart:
  assumes "log_synced C n" and "n_role n = Leader"
    and "\<not> fits C \<lparr>e_Index = length (n_log n), e_Term = n_term n, e_Command = c\<rparr>"
  shows "\<exists>n' e. propose_begin C AppendOk n c = (n', Inr (e, n_term n)) \<and> NewNode C nid peers (n_store n') = Inl ErrTooLong"
proof -
  let ?e = "\<lparr>e_Index = length (n_log n), e_Term = n_term n, e_Command = c\<rparr>"
  obtain st where st: "store_Append C AppendOk (n_store n) ?e = (st, True)" by (simp add: store_Append_def)
  have "store_holds C st (n_log n @ [?e])" using wal.append_ok [OF _ _ st] assms(1) by (simp add: log_synced_def)
  moreover have "?e \<in> set (tl (n_log n @ [?e]))" using assms(1) by (auto simp: log_synced_def store_holds_def log_ok_def)
  ultimately have "readEntries C st = Inl ErrTooLong" using holds_read assms(3) by fastforce
  then have "NewNode C nid peers st = Inl ErrTooLong" by (simp add: NewNode_def OpenLogStore_def)
  then show ?thesis using assms(2) st by (simp add: propose_begin_def Let_def)
qed

theorem long_entry_blocks_restart_witness:
  "\<exists>n' e. propose_begin unary_codec AppendOk sample_leader (put_command (replicate 65536 0) []) = (n', Inr (e, 1)) \<and>
     NewNode unary_codec [1] [] (n_store n') = Inl ErrTooLong"
proof -
  have f: "log_synced unary_codec sample_leader" "n_role sample_leader = Leader" "n_term sample_leader = 1"
    using sample_leader_durable by (simp_all add: durable_node_def sample_leader_def)
  have "\<not> fits unary_codec \<lparr>e_Index = length (n_log sample_leader), e_Term = n_term sample_leader,
      e_Command = put_command (replicate 65536 0) []\<rparr>"
    by (simp add: fits_def short_def unary_codec_def entry_nats_def Let_def put_command_def operation_nats_def string_nats_def length_unary
      MaxScanTokenSize_def)
  from long_entry_blocks_restart [OF f(1,2) this] f(3) show ?thesis by simp
qed

subsection \<open>Reads after a change of leader\<close>

lemma acknowledged_put:
  assumes "n_role n = Leader" and "n_term n = 1" and "n_log n = [sentinel, e]" and "n_lastApplied n = 0" and "n_machine n = NewStateMachine"
    and "e_Index e = 1" and "e_Command e = put_command k v"
  shows "\<exists>n'. propose_end True n 1 e = Some (n', Inr 1) \<and> machine_Get (n_machine n') k now = Some v \<and> n_log n' = n_log n \<and>
    n_term n' = 1 \<and> n_commitIndex n' = 1"
  using assms
  by (simp add: propose_end_def applyCommittedLocked_def persistMetadataLocked_def SaveMetadata_def apply_between_def machine_Apply_def
    put_command_def machine_Get_def expired_def NewStateMachine_def)

text \<open>
  C34: a read that is confirmed by a quorum can miss an acknowledged write: a new leader that has the entry but has not learned that
  it is committed answers from its own machine.
\<close>

theorem new_leader_reads_stale_value:
  assumes "M = [a, b]" and "a \<noteq> b"
  shows "\<exists>s n e s' hb n' resp. reachable C M s \<and> e_Command e = put_command k v \<and>
    propose_end True (c_node s a) 1 e = Some (n, Inr (e_Index e)) \<and> machine_Get (n_machine n) k now = Some v \<and>
    (raft_step C M)\<^sup>*\<^sup>* (set_node s a n) s' \<and> n_role (c_node s' b) = Leader \<and> e \<in> set (n_log (c_node s' b)) \<and>
    heartbeat_request (c_node s' b) = Some hb \<and> HandleAppendEntries C all_written (c_node s' a) hb = Some (n', resp) \<and> ar_Success resp \<and>
    LinearizableGet (c_node s' b) 1 (c_node s' b) k now = Inr None"
proof -
  define e where "e = \<lparr>e_Index = 1, e_Term = 1, e_Command = put_command k v\<rparr>"
  have ab: "a \<in> set M" "b \<in> set M" "peers_of M b = [a]" using assms by (auto simp: peers_of_def)
  obtain s where s: "reachable C M s" "n_role (c_node s a) = Leader" "n_role (c_node s b) = Follower" "n_log (c_node s a) = [sentinel, e]"
    "n_log (c_node s b) = [sentinel, e]" "n_term (c_node s a) = 1" "n_term (c_node s b) = 1"
    "same_data (fresh_node M a) (c_node s a)" "same_data (fresh_node M b) (c_node s b)"
    using pair_run [OF e_def assms, of C] by blast
  have fresh: "n_lastApplied (c_node s a) = 0" "n_machine (c_node s a) = NewStateMachine" "n_commitIndex (c_node s b) = 0"
    "n_machine (c_node s b) = NewStateMachine" "n_id (c_node s b) = b" "n_peers (c_node s b) = [a]"
    using s(8,9) ab(3) by (simp_all add: same_data_def fresh_node_def)
  obtain n where n: "propose_end True (c_node s a) 1 e = Some (n, Inr 1)" "machine_Get (n_machine n) k now = Some v"
    "n_log n = [sentinel, e]" "n_term n = 1" "n_commitIndex n = 1"
    using acknowledged_put [OF s(2,6,4) fresh(1,2), of k v now] s(4) by (auto simp: e_def)
  let ?s1 = "set_node s a n"
  have a1: "c_node ?s1 a = n" "c_node ?s1 b = c_node s b" using assms(2) by simp_all
  obtain s' where s': "(raft_step C M)\<^sup>*\<^sup>* ?s1 s'" "same_data (c_node s b) (c_node s' b)" "same_data n (c_node s' a)"
    "n_log (c_node s' b) = [sentinel, e]" "n_log (c_node s' a) = [sentinel, e]" "n_role (c_node s' b) = Leader"
    "n_role (c_node s' a) = Follower" "n_term (c_node s' b) = 2" "n_term (c_node s' a) = 2"
    using pair_election [OF ab(2,1), of ?s1 C] assms(2) a1 fresh s(3,5,7) n(3,4) by auto
  obtain hb where hb: "heartbeat_request (c_node s' b) = Some hb" "ae_Term hb = 2" "ae_PrevLogIndex hb = 1" "ae_PrevLogTerm hb = 1"
    "ae_Entries hb = []" "ae_LeaderCommit hb = 0"
    using s'(2,4,6,8) fresh(3) by (simp add: heartbeat_request_def e_def same_data_def)
  have "n_commitIndex (c_node s' a) = 1" using s'(3) n(5) by (simp add: same_data_def)
  then obtain n' resp where r: "HandleAppendEntries C all_written (c_node s' a) hb = Some (n', resp)" "ar_Success resp"
    using hb s'(5,7,9) by (simp add: HandleAppendEntries_def Let_def all_written_def e_def)
  have "LinearizableGet (c_node s' b) 1 (c_node s' b) k now = Inr None"
    using s'(2,6) fresh(4,6) by (simp add: LinearizableGet_def quorumHeartbeat_def needed_def same_data_def machine_Get_def NewStateMachine_def)
  moreover have "e_Command e = put_command k v" "e_Index e = 1" by (simp_all add: e_def)
  ultimately show ?thesis using s n s' hb(1) r by (metis list.set_intros(1,2))
qed

theorem new_leader_reads_stale_value_witness:
  "\<exists>(s :: cluster) n e s'. e_Command e = put_command [7] [8] \<and> propose_end True (c_node s [1]) 1 e = Some (n, Inr (e_Index e)) \<and>
     (raft_step unary_codec [[1], [2]])\<^sup>*\<^sup>* (set_node s [1] n) s' \<and> LinearizableGet (c_node s' [2]) 1 (c_node s' [2]) [7] 0 = Inr None"
  using new_leader_reads_stale_value [of "[[1], [2]]" "[1]" "[2]" unary_codec "[7]" "[8]" 0] by fastforce

end
