(* ===== verification/TsCodec.thy ===== *)
theory TsCodec
  imports Prelude "HOL-Library.List_Lexorder"
begin

unbundle bit_operations_syntax

text \<open>
  The block encoding of the time-series store (\<^verbatim>\<open>internal/tsdb/codec.go\<close>): timestamps as deltas of deltas, values as
  exclusive ors of their bits, both as variable-length integers of \<^verbatim>\<open>encoding/binary\<close>. A \<^verbatim>\<open>float64\<close> is its 64 bits
  (\<^verbatim>\<open>math.Float64bits\<close>), an \<^verbatim>\<open>int64\<close> a word read by \<open>sint\<close>.
\<close>

record sample =
  sm_Timestamp :: "64 word"
  sm_Value :: "64 word"

datatype codec_error = ErrCount | ErrTimestamp | ErrValue | ErrDelta | ErrXor | ErrDeltaOfDelta | PanicMakeslice

subsection \<open>Variable-length integers\<close>

function PutUvarint :: "64 word \<Rightarrow> byte list" where
  "PutUvarint x = (if x \<ge> 0x80 then (ucast x OR 0x80) # PutUvarint (drop_bit 7 x) else [ucast x])"
  by pat_completeness auto
termination
proof (relation "measure unat")
  fix x :: "64 word"
  assume "x \<ge> 0x80"
  then have "unat x \<ge> 128" by (simp add: word_le_nat_alt)
  then have "unat x div 128 < unat x" by (intro div_less_dividend) simp_all
  then have "unat (drop_bit 7 x) < unat x" by (simp add: unat_drop_bit_eq drop_bit_eq_div unat_div)
  then show "(drop_bit 7 x, x) \<in> measure unat" by simp
qed simp

declare PutUvarint.simps [simp del]

definition MaxVarintLen64 :: nat where "MaxVarintLen64 = 10"

text \<open>The value and the rest of the input; nothing when \<^verbatim>\<open>Uvarint\<close> returns a length that is not positive.\<close>

fun Uvarint_loop :: "nat \<Rightarrow> 64 word \<Rightarrow> byte list \<Rightarrow> (64 word \<times> byte list) option" where
  "Uvarint_loop i x [] = None"
| "Uvarint_loop i x (b # bs) =
     (if i = MaxVarintLen64 then None
      else if b < 0x80 then
        (if i = MaxVarintLen64 - 1 \<and> b > 1 then None else Some (x OR push_bit (7 * i) (ucast b), bs))
      else Uvarint_loop (i + 1) (x OR push_bit (7 * i) (ucast (b AND 0x7f))) bs)"

definition Uvarint :: "byte list \<Rightarrow> (64 word \<times> byte list) option" where
  "Uvarint bs = Uvarint_loop 0 0 bs"

definition PutVarint :: "64 word \<Rightarrow> byte list" where
  "PutVarint x = PutUvarint (let ux = push_bit 1 x in if x <s 0 then NOT ux else ux)"

definition Varint :: "byte list \<Rightarrow> (64 word \<times> byte list) option" where
  "Varint bs = (case Uvarint bs of None \<Rightarrow> None | Some (ux, rest) \<Rightarrow>
     let x = drop_bit 1 ux in Some (if ux AND 1 \<noteq> 0 then NOT x else x, rest))"

subsection \<open>Encoding\<close>

fun deduplicate :: "sample list \<Rightarrow> sample list \<Rightarrow> sample list" where
  "deduplicate kept [] = kept"
| "deduplicate kept (sample # rest) =
     (if kept \<noteq> [] \<and> sm_Timestamp (last kept) = sm_Timestamp sample
      then deduplicate (kept[length kept - 1 := sample]) rest
      else deduplicate (kept @ [sample]) rest)"

definition sort_samples :: "sample list \<Rightarrow> sample list" where
  "sort_samples = sort_key (\<lambda>s. sint (sm_Timestamp s))"

fun encode_loop :: "64 word \<Rightarrow> 64 word \<Rightarrow> 64 word \<Rightarrow> sample list \<Rightarrow> byte list" where
  "encode_loop previous previousDelta previousBits [] = []"
| "encode_loop previous previousDelta previousBits (s # rest) =
     (let delta = sm_Timestamp s - previous; bits = sm_Value s in
      PutVarint (delta - previousDelta) @ PutUvarint (bits XOR previousBits) @ encode_loop (sm_Timestamp s) delta bits rest)"

definition encode_sorted :: "sample list \<Rightarrow> byte list" where
  "encode_sorted samples =
     (let s0 = hd samples in
      PutUvarint (of_nat (length samples)) @ PutVarint (sm_Timestamp s0) @ PutUvarint (sm_Value s0) @
      (case tl samples of
         [] \<Rightarrow> []
       | s1 # rest \<Rightarrow>
           let delta = sm_Timestamp s1 - sm_Timestamp s0 in
           PutVarint delta @ PutUvarint (sm_Value s1 XOR sm_Value s0) @ encode_loop (sm_Timestamp s1) delta (sm_Value s1) rest))"

definition encodeSamples :: "sample list \<Rightarrow> byte list" where
  "encodeSamples input = (if input = [] then [0] else encode_sorted (deduplicate [] (sort_samples input)))"

subsection \<open>Decoding\<close>

text \<open>\<^verbatim>\<open>make([]Sample, 0, count)\<close> panics when \<open>count\<close> samples of 16 bytes exceed the address space of 48 bits.\<close>

definition maxSamples :: "64 word" where "maxSamples = 2 ^ 44"

fun decode_loop :: "nat \<Rightarrow> byte list \<Rightarrow> 64 word \<Rightarrow> 64 word \<Rightarrow> 64 word \<Rightarrow> sample list \<Rightarrow> (codec_error, sample list) result" where
  "decode_loop 0 encoded timestamp delta bits result = Inr result"
| "decode_loop (Suc n) encoded timestamp delta bits result =
     (case Varint encoded of
        None \<Rightarrow> Inl ErrDeltaOfDelta
      | Some (deltaOfDelta, encoded) \<Rightarrow>
          (case Uvarint encoded of
             None \<Rightarrow> Inl ErrXor
           | Some (xor_bits, encoded) \<Rightarrow>
               let delta = delta + deltaOfDelta; timestamp = timestamp + delta; bits = bits XOR xor_bits in
               decode_loop n encoded timestamp delta bits (result @ [\<lparr>sm_Timestamp = timestamp, sm_Value = bits\<rparr>])))"

definition decodeSamples :: "byte list \<Rightarrow> (codec_error, sample list) result" where
  "decodeSamples encoded =
     (case Uvarint encoded of
        None \<Rightarrow> Inl ErrCount
      | Some (count, encoded) \<Rightarrow>
          if count = 0 then Inr []
          else (case Varint encoded of
            None \<Rightarrow> Inl ErrTimestamp
          | Some (timestamp, encoded) \<Rightarrow>
              (case Uvarint encoded of
                 None \<Rightarrow> Inl ErrValue
               | Some (bits, encoded) \<Rightarrow>
                   if count > maxSamples then Inl PanicMakeslice
                   else
                     let result = [\<lparr>sm_Timestamp = timestamp, sm_Value = bits\<rparr>] in
                     if count = 1 then Inr result
                     else (case Varint encoded of
                       None \<Rightarrow> Inl ErrDelta
                     | Some (delta, encoded) \<Rightarrow>
                         (case Uvarint encoded of
                            None \<Rightarrow> Inl ErrXor
                          | Some (xor_bits, encoded) \<Rightarrow>
                              let bits = bits XOR xor_bits; timestamp = timestamp + delta in
                              decode_loop (unat count - 2) encoded timestamp delta bits
                                (result @ [\<lparr>sm_Timestamp = timestamp, sm_Value = bits\<rparr>]))))))"

subsection \<open>Reading back\<close>

lemma drop_bit_word_less:
  fixes x :: "64 word"
  assumes "unat x < 2 ^ (n + 7)"
  shows "unat (drop_bit 7 x) < 2 ^ n"
proof -
  have "unat (drop_bit 7 x) = unat x div 2 ^ 7" by (simp add: unat_drop_bit_eq drop_bit_eq_div unat_div)
  also have "\<dots> < 2 ^ n" using assms by (simp add: less_mult_imp_div_less power_add)
  finally show ?thesis .
qed

lemma bit_7f: "bit (0x7f :: int) n \<longleftrightarrow> n < 7"
proof -
  have "(0x7f :: int) = mask 7" by (simp add: mask_eq_exp_minus_1)
  then show ?thesis using bit_mask_iff [of 7 n, where ?'a = int] by auto
qed

lemma bit_80: "bit (0x80 :: int) n \<longleftrightarrow> n = 7"
proof -
  have "(0x80 :: int) = 2 ^ 7" by simp
  then show ?thesis using bit_exp_iff [of 7 n, where ?'a = int] by auto
qed

lemma byte_less_128: "(b :: byte) < 0x80 \<longleftrightarrow> \<not> bit b 7"
proof -
  have "bit b 7 \<longleftrightarrow> bit (unat b) 7" by (simp add: bit_unsigned_iff)
  also have "\<dots> \<longleftrightarrow> odd (unat b div 128)" by (simp add: bit_iff_odd)
  finally have "bit b 7 \<longleftrightarrow> odd (unat b div 128)" .
  moreover have "unat b div 128 \<in> {0, 1}" using unsigned_less [of b, where ?'a = nat] by auto
  ultimately show ?thesis by (auto simp: word_less_nat_alt)
qed

lemma low_byte:
  fixes x :: "64 word"
  shows "ucast ((ucast x OR 0x80 :: byte) AND 0x7f) = x AND 0x7f"
  by (rule bit_word_eqI) (auto simp: bit_and_iff bit_or_iff bit_unsigned_iff bit_7f bit_80)

lemma continued_byte: "\<not> (w OR 0x80 :: byte) < 0x80"
  unfolding byte_less_128 by (simp add: bit_or_iff bit_80)

lemma join_bits:
  fixes x y :: "64 word"
  shows "(y OR push_bit k (x AND 0x7f)) OR push_bit (k + 7) (drop_bit 7 x) = y OR push_bit k x"
proof (rule bit_word_eqI)
  fix n
  show "bit ((y OR push_bit k (x AND 0x7f)) OR push_bit (k + 7) (drop_bit 7 x)) n = bit (y OR push_bit k x) n"
  proof (cases "k + 7 \<le> n")
    case True
    then have "7 + (n - (k + 7)) = n - k" "k \<le> n" by simp_all
    then show ?thesis using True by (auto simp: bit_and_iff bit_or_iff bit_push_bit_iff bit_drop_bit_eq bit_7f)
  qed (auto simp: bit_and_iff bit_or_iff bit_push_bit_iff bit_drop_bit_eq bit_7f)
qed

lemma zigzag:
  fixes v :: "64 word"
  defines "u \<equiv> (if v <s 0 then NOT (push_bit 1 v) else push_bit 1 v)"
  shows "(if u AND 1 \<noteq> 0 then NOT (drop_bit 1 u) else drop_bit 1 u) = v"
proof -
  have sign: "v <s 0 \<longleftrightarrow> bit v 63" using bit_last_iff [of v] by (simp add: word_sless_alt)
  have p: "bit (push_bit 1 v) n \<longleftrightarrow> 1 \<le> n \<and> n < 64 \<and> bit v (n - 1)" for n
    using bit_push_bit_iff [of 1 v n] by auto
  have q: "bit (NOT (push_bit 1 v)) n \<longleftrightarrow> n < 64 \<and> \<not> (1 \<le> n \<and> bit v (n - 1))" for n
    using bit_not_iff [of "push_bit 1 v" n] p [of n] by auto
  have "u AND 1 \<noteq> 0 \<longleftrightarrow> bit u 0" by (simp add: and_one_eq bit_0 odd_iff_mod_2_eq_one)
  also have "\<dots> \<longleftrightarrow> v <s 0" unfolding u_def using p [of 0] q [of 0] by (cases "v <s 0") (simp_all only: if_True if_False, auto)
  finally have low: "u AND 1 \<noteq> 0 \<longleftrightarrow> v <s 0" .
  show ?thesis
  proof (cases "v <s 0")
    case True
    have "NOT (drop_bit 1 u) = v"
    proof (rule bit_word_eqI)
      fix n assume n: "n < LENGTH(64)"
      have "bit (NOT (drop_bit 1 u)) n \<longleftrightarrow> \<not> bit u (n + 1)"
        using n by (simp add: bit_not_iff bit_drop_bit_eq)
      also have "\<dots> \<longleftrightarrow> \<not> (n + 1 < 64 \<and> \<not> bit v n)" using True q [of "n + 1"] by (simp only: u_def if_True) simp
      also have "\<dots> \<longleftrightarrow> bit v n"
      proof (cases "n = 63")
        case False
        with n show ?thesis by simp
      qed (use True sign in simp)
      finally show "bit (NOT (drop_bit 1 u)) n = bit v n" .
    qed
    then show ?thesis using low True by simp
  next
    case False
    have "drop_bit 1 u = v"
    proof (rule bit_word_eqI)
      fix n assume n: "n < LENGTH(64)"
      have "bit (drop_bit 1 u) n \<longleftrightarrow> bit u (n + 1)" by (simp add: bit_drop_bit_eq)
      also have "\<dots> \<longleftrightarrow> n + 1 < 64 \<and> bit v n" using False p [of "n + 1"] by (simp only: u_def if_False) simp
      also have "\<dots> \<longleftrightarrow> bit v n"
      proof (cases "n = 63")
        case False
        with n show ?thesis by auto
      qed (use False sign in simp)
      finally show "bit (drop_bit 1 u) n = bit v n" .
    qed
    then show ?thesis using low False by simp
  qed
qed

lemma Uvarint_loop_PutUvarint:
  assumes "unat v < 2 ^ (64 - 7 * i)" and "i \<le> 9"
  shows "Uvarint_loop i x (PutUvarint v @ rest) = Some (x OR push_bit (7 * i) v, rest)"
  using assms
proof (induction v arbitrary: i x rule: PutUvarint.induct)
  case (1 v)
  show ?case
  proof (cases "v \<ge> 0x80")
    case True
    then have "unat v \<ge> 2 ^ 7" by (simp add: word_le_nat_alt)
    then have i: "i \<le> 8" using "1.prems" by (cases "i = 9") auto
    have e: "64 - 7 * i = (64 - 7 * (i + 1)) + 7" using i by simp
    have small: "unat (drop_bit 7 v) < 2 ^ (64 - 7 * (i + 1))"
      using drop_bit_word_less [of v "64 - 7 * (i + 1)"] "1.prems"(1) e by metis
    have big: "\<not> (ucast v OR 0x80 :: byte) < 0x80" by (rule continued_byte)
    have "PutUvarint v = (ucast v OR 0x80) # PutUvarint (drop_bit 7 v)" using True by (simp add: PutUvarint.simps)
    then have "Uvarint_loop i x (PutUvarint v @ rest) =
        Uvarint_loop (i + 1) (x OR push_bit (7 * i) (v AND 0x7f)) (PutUvarint (drop_bit 7 v) @ rest)"
      using big i by (simp add: MaxVarintLen64_def low_byte)
    also have "\<dots> = Some ((x OR push_bit (7 * i) (v AND 0x7f)) OR push_bit (7 * (i + 1)) (drop_bit 7 v), rest)"
      using "1.IH" [OF True small] i by simp
    also have "(x OR push_bit (7 * i) (v AND 0x7f)) OR push_bit (7 * (i + 1)) (drop_bit 7 v) = x OR push_bit (7 * i) v"
      using join_bits [of x "7 * i" v] by (simp add: algebra_simps)
    finally show ?thesis .
  next
    case False
    then have v: "unat v < 128" by (simp add: word_le_nat_alt)
    then have "(ucast v :: byte) < 0x80" by (simp add: word_less_nat_alt unsigned_ucast_eq take_bit_eq_mod)
    moreover have "\<not> (i = 9 \<and> (ucast v :: byte) > 1)" using "1.prems" v by (auto simp: word_less_nat_alt unsigned_ucast_eq take_bit_eq_mod)
    moreover have "ucast (ucast v :: byte) = v" using v by (simp add: word_unat_eq_iff unsigned_ucast_eq take_bit_eq_mod unat_mod)
    ultimately show ?thesis using False "1.prems"(2) by (simp add: PutUvarint.simps MaxVarintLen64_def)
  qed
qed

lemma Uvarint_PutUvarint [simp]: "Uvarint (PutUvarint v @ rest) = Some (v, rest)"
proof -
  have "unat v < 2 ^ (64 - 7 * 0)" using unsigned_less [of v, where ?'a = nat] by simp
  from Uvarint_loop_PutUvarint [OF this, of 0 rest] show ?thesis by (simp add: Uvarint_def)
qed

lemma Varint_PutVarint [simp]: "Varint (PutVarint v @ rest) = Some (v, rest)"
  using zigzag [of v] unfolding Varint_def PutVarint_def Let_def Uvarint_PutUvarint option.case prod.case by (simp only:)

lemma xor_back: "b XOR (v XOR b) = (v :: 64 word)"
  by (metis xor.assoc xor.commute xor.right_neutral xor_self_eq)

lemma decode_loop_encode:
  "decode_loop (length rest) (encode_loop t d b rest @ tail) t d b result = Inr (result @ rest)"
  by (induction rest arbitrary: t d b result) (simp_all add: Let_def xor_back)

lemma decode_encode_sorted:
  assumes "samples \<noteq> []" and "length samples \<le> 2 ^ 44"
  shows "decodeSamples (encode_sorted samples @ tail) = Inr samples"
proof -
  let ?c = "of_nat (length samples) :: 64 word"
  have c: "unat ?c = length samples" using assms(2) by (simp add: unat_of_nat)
  then have "?c \<noteq> 0" using assms(1) by (metis length_0_conv unat_0)
  moreover have "\<not> ?c > maxSamples" using c assms(2) by (simp add: maxSamples_def word_less_nat_alt)
  moreover have "?c = 1 \<longleftrightarrow> length samples = 1" using c by (metis of_nat_1 unat_1)
  ultimately show ?thesis
    using assms(1) decode_loop_encode c
    by (cases samples; cases "tl samples") (simp_all add: decodeSamples_def encode_sorted_def Let_def xor_back)
qed

subsection \<open>The last value of every timestamp\<close>

definition value_at :: "sample list \<Rightarrow> 64 word \<rightharpoonup> 64 word" where
  "value_at xs = map_of (rev (map (\<lambda>s. (sm_Timestamp s, sm_Value s)) xs))"

definition ascending :: "sample list \<Rightarrow> bool" where
  "ascending xs \<longleftrightarrow> sorted_wrt (\<lambda>a b. sint (sm_Timestamp a) < sint (sm_Timestamp b)) xs"

lemma value_at_simps [simp]:
  "value_at [] = Map.empty"
  "value_at [s] = [sm_Timestamp s \<mapsto> sm_Value s]"
  "value_at (xs @ ys) = value_at xs ++ value_at ys"
  by (simp_all add: value_at_def)

lemma value_at_cons: "value_at (s # xs) = [sm_Timestamp s \<mapsto> sm_Value s] ++ value_at xs"
  using value_at_simps(3) [of "[s]" xs] by simp

lemma value_at_None: "value_at xs t = None \<longleftrightarrow> t \<notin> sm_Timestamp ` set xs"
  by (auto simp: value_at_def map_of_eq_None_iff image_image)

lemma sint_eq: "sint a = sint b \<longleftrightarrow> a = b"
  for a b :: "64 word"
  by (rule word_eq_iff_signed [symmetric])

lemma value_at_own:
  fixes t :: "64 word"
  shows "value_at (filter (\<lambda>s. sm_Timestamp s = t) xs) t = value_at xs t"
  by (induction xs) (auto simp: value_at_cons map_add_def split: option.splits)

lemma sort_value_at [simp]: "value_at (sort_samples xs) = value_at xs"
proof
  fix t :: "64 word"
  have "filter (\<lambda>s. sint (sm_Timestamp s) = sint t) (sort_samples xs) = filter (\<lambda>s. sint (sm_Timestamp s) = sint t) xs"
    unfolding sort_samples_def by (rule sort_key_stable)
  then have "filter (\<lambda>s. sm_Timestamp s = t) (sort_samples xs) = filter (\<lambda>s. sm_Timestamp s = t) xs"
    by (simp add: sint_eq)
  then show "value_at (sort_samples xs) t = value_at xs t"
    using value_at_own [of t xs] value_at_own [of t "sort_samples xs"] by simp
qed

lemma deduplicate_value_at: "value_at (deduplicate kept xs) = value_at (kept @ xs)"
proof (induction kept xs rule: deduplicate.induct)
  case (2 kept s xs)
  show ?case
  proof (cases "kept \<noteq> [] \<and> sm_Timestamp (last kept) = sm_Timestamp s")
    case True
    then obtain ks k where kept: "kept = ks @ [k]" "sm_Timestamp k = sm_Timestamp s" by (metis append_butlast_last_id)
    then have "value_at (kept[length kept - 1 := s]) = value_at (kept @ [s])"
      by (auto simp: value_at_cons map_add_def fun_eq_iff split: option.splits)
    with "2.IH"(1) [OF True] True show ?thesis by (simp add: value_at_cons map_add_assoc)
  next
    case False
    with "2.IH"(2) [OF False] False show ?thesis by (auto simp: value_at_cons map_add_assoc)
  qed
qed simp

lemma deduplicate_ascending:
  assumes "ascending kept" and "sorted (map (\<lambda>s. sint (sm_Timestamp s)) (kept @ xs))"
  shows "ascending (deduplicate kept xs)"
  using assms
proof (induction kept xs rule: deduplicate.induct)
  case (2 kept s xs)
  show ?case
  proof (cases "kept \<noteq> [] \<and> sm_Timestamp (last kept) = sm_Timestamp s")
    case True
    then obtain ks k where kept: "kept = ks @ [k]" "sm_Timestamp k = sm_Timestamp s" by (metis append_butlast_last_id)
    have "ascending (ks @ [s])" "sorted (map (\<lambda>s. sint (sm_Timestamp s)) ((ks @ [s]) @ xs))"
      using "2.prems" kept by (auto simp: ascending_def sorted_append sorted_wrt_append)
    with "2.IH"(1) [OF True] True kept(1) show ?thesis by simp
  next
    case False
    have "ascending (kept @ [s])"
    proof (cases "kept = []")
      case False
      then obtain ks k where kept: "kept = ks @ [k]" "sm_Timestamp k \<noteq> sm_Timestamp s"
        using \<open>\<not> (kept \<noteq> [] \<and> sm_Timestamp (last kept) = sm_Timestamp s)\<close> by (metis append_butlast_last_id)
      then have "sint (sm_Timestamp k) < sint (sm_Timestamp s)"
        using "2.prems"(2) by (auto simp: sorted_append sint_eq order.strict_iff_order)
      then show ?thesis using "2.prems"(1) kept(1) by (fastforce simp: ascending_def sorted_wrt_append)
    qed (simp add: ascending_def)
    with "2.IH"(2) [OF False] "2.prems"(2) False show ?thesis by auto
  qed
qed simp

lemma deduplicate_id: "ascending (kept @ xs) \<Longrightarrow> deduplicate kept xs = kept @ xs"
proof (induction kept xs rule: deduplicate.induct)
  case (2 kept s xs)
  have "\<forall>k \<in> set kept. sint (sm_Timestamp k) < sint (sm_Timestamp s)"
    using "2.prems" by (simp add: ascending_def sorted_wrt_append)
  then have "\<not> (kept \<noteq> [] \<and> sm_Timestamp (last kept) = sm_Timestamp s)" using last_in_set by fastforce
  with "2.IH"(2) "2.prems" show ?case by auto
qed simp

definition latest :: "sample list \<Rightarrow> sample list" where
  "latest xs = deduplicate [] (sort_samples xs)"

lemma latest_spec: "ascending (latest xs) \<and> value_at (latest xs) = value_at xs"
proof -
  have "sorted (map (\<lambda>s. sint (sm_Timestamp s)) ([] @ sort_samples xs))" by (simp add: sort_samples_def)
  from deduplicate_ascending [OF _ this] deduplicate_value_at [of "[]" "sort_samples xs"]
  show ?thesis by (simp add: latest_def ascending_def)
qed

lemma latest_id: "ascending xs \<Longrightarrow> latest xs = xs"
proof -
  assume a: "ascending xs"
  then have "sorted (map (\<lambda>s. sint (sm_Timestamp s)) xs)"
    unfolding ascending_def sorted_map by (rule sorted_wrt_mono_rel [rotated]) simp
  then have "sort_samples xs = xs" by (simp add: sort_samples_def sort_key_id_if_sorted)
  then show ?thesis using deduplicate_id [of "[]" xs] a by (simp add: latest_def)
qed

lemma deduplicate_length: "length (deduplicate kept xs) \<le> length kept + length xs"
  by (induction kept xs rule: deduplicate.induct) auto

lemma latest_length: "length (latest xs) \<le> length xs"
  using deduplicate_length [of "[]" "sort_samples xs"] by (simp add: latest_def sort_samples_def)

lemma value_at_empty: "value_at xs = Map.empty \<longleftrightarrow> xs = []"
proof
  assume e: "value_at xs = Map.empty"
  then have "\<forall>t. t \<notin> sm_Timestamp ` set xs" using value_at_None by metis
  then show "xs = []" by auto
qed simp

lemma latest_empty: "latest xs = [] \<longleftrightarrow> xs = []"
  using latest_spec [of xs] value_at_empty [of xs] value_at_empty [of "latest xs"] by simp

lemma decode_encode_samples:
  assumes "length xs \<le> 2 ^ 44"
  shows "decodeSamples (encodeSamples xs) = Inr (latest xs)"
proof (cases "xs = []")
  case True
  have "Uvarint [0] = Some (0, [])" by (simp add: Uvarint_def MaxVarintLen64_def)
  with True show ?thesis by (simp add: encodeSamples_def decodeSamples_def latest_def sort_samples_def)
next
  case False
  then have "latest xs \<noteq> []" using latest_empty by blast
  moreover have "length (latest xs) \<le> 2 ^ 44" using latest_length assms le_trans by blast
  ultimately show ?thesis
    using decode_encode_sorted [of "latest xs" "[]"] False by (simp add: encodeSamples_def latest_def)
qed

text \<open>
  C30: decoding what was encoded gives the samples back in ascending order of time, the last value given for each timestamp and
  no others; samples that were in ascending order come back unchanged, whatever their 64 bits are.
\<close>

theorem codec_roundtrip:
  assumes "length xs \<le> 2 ^ 44"
  shows "\<exists>ys. decodeSamples (encodeSamples xs) = Inr ys \<and> ascending ys \<and> value_at ys = value_at xs \<and> (ascending xs \<longrightarrow> ys = xs)"
  using decode_encode_samples [OF assms] latest_spec [of xs] latest_id by auto

theorem codec_roundtrip_witness:
  "\<exists>ys. decodeSamples (encodeSamples [\<lparr>sm_Timestamp = 5, sm_Value = 7\<rparr>, \<lparr>sm_Timestamp = -1, sm_Value = 8\<rparr>, \<lparr>sm_Timestamp = 5, sm_Value = 9\<rparr>]) = Inr ys \<and>
     value_at ys 5 = Some 9"
proof -
  let ?xs = "[\<lparr>sm_Timestamp = 5, sm_Value = 7\<rparr>, \<lparr>sm_Timestamp = -1, sm_Value = 8\<rparr>, \<lparr>sm_Timestamp = 5, sm_Value = 9\<rparr>] :: sample list"
  have "value_at ?xs 5 = Some 9" by (simp add: value_at_def)
  with codec_roundtrip [of ?xs] show ?thesis by force
qed

end
