(* ===== verification/TsStore.thy ===== *)
theory TsStore
  imports TsCodec Scanner GoLib "HOL-Library.AList"
begin

unbundle bit_operations_syntax

text \<open>
  The time-series store (\<^verbatim>\<open>internal/tsdb/store.go\<close>): a write-ahead log of one JSON line per sample, samples in
  memory, and block files named by series and time range. \<open>C\<close> holds the encodings of log records (JSON) and of blocks
  (gob, compressed). Files are their bytes, a directory is a list of names with contents. Whether system calls succeed,
  and how much of a failed write reaches the file, are arguments.
\<close>

subsection \<open>Data\<close>

record series =
  sr_Name :: str
  sr_Labels :: "(str \<times> str) list"

record pointBatch =
  pb_Series :: series
  pb_Samples :: "sample list"

record block =
  bk_Version :: int
  bk_Series :: series
  bk_Start :: "64 word"
  bk_End :: "64 word"
  bk_Encoded :: "byte list"

record walRecord =
  wr_Fingerprint :: str
  wr_Series :: series
  wr_Sample :: sample

record ts_codec =
  tc_wal :: "walRecord \<Rightarrow> byte list option"
  tc_unwal :: "byte list \<Rightarrow> walRecord option"
  tc_block :: "block \<Rightarrow> byte list"
  tc_unblock :: "byte list \<Rightarrow> block option"

record tsdb =
  db_wal :: "byte list"
  db_blocks :: "(str \<times> byte list) list"
  db_head :: "(str \<times> sample list) list"
  db_series :: "(str \<times> series) list"
  db_blockSize :: int

datatype ts_error = ErrNameMissing | ErrStoreFile | ErrReadBlock | ErrBlockVersion int | ErrSamples codec_error | ErrWalRecord | ErrWalLine

subsection \<open>Names\<close>

definition fingerprint :: "series \<Rightarrow> str" where
  "fingerprint s = hex16 (fnv64a (bytes_of (sr_Name s) @
     concat (map (\<lambda>k. 0 # bytes_of k @ 61 # bytes_of (the (map_of (sr_Labels s) k))) (sort (map fst (sr_Labels s))))))"

definition block_path :: "str \<Rightarrow> 64 word \<Rightarrow> 64 word \<Rightarrow> str" where
  "block_path key start end_time = key @ [45] @ decimal (sint start) @ [45] @ decimal (sint end_time) @ [46, 98, 108, 111, 99, 107]"

definition dot_block :: str where "dot_block = [46, 98, 108, 111, 99, 107]"

definition dot_tmp :: str where "dot_tmp = [46, 116, 109, 112]"

definition head_of :: "tsdb \<Rightarrow> str \<Rightarrow> sample list" where
  "head_of db key = (case map_of (db_head db) key of None \<Rightarrow> [] | Some samples \<Rightarrow> samples)"

definition zero_series :: series where "zero_series = \<lparr>sr_Name = [], sr_Labels = []\<rparr>"

subsection \<open>Writing blocks\<close>

text \<open>A failed flush may leave a temporary file behind.\<close>

datatype flush_io = FlushOk | FlushFails "byte list option"

text \<open>Sorting is in place: the samples in memory are sorted also when the flush fails.\<close>

definition flushSeriesLocked :: "ts_codec \<Rightarrow> flush_io \<Rightarrow> tsdb \<Rightarrow> str \<Rightarrow> tsdb \<times> ts_error option" where
  "flushSeriesLocked C io db key =
     (let samples = head_of db key in
      if samples = [] then (db, None)
      else
        let samples = sort_samples samples;
            db = db\<lparr>db_head := AList.update key samples (db_head db)\<rparr>;
            stored = \<lparr>bk_Version = 1, bk_Series = (case map_of (db_series db) key of None \<Rightarrow> zero_series | Some s \<Rightarrow> s),
              bk_Start = sm_Timestamp (hd samples), bk_End = sm_Timestamp (last samples), bk_Encoded = encodeSamples samples\<rparr>;
            path = block_path key (bk_Start stored) (bk_End stored);
            temporary = path @ dot_tmp
        in case io of
             FlushFails None \<Rightarrow> (db, Some ErrStoreFile)
           | FlushFails (Some bytes) \<Rightarrow> (db\<lparr>db_blocks := AList.update temporary bytes (db_blocks db)\<rparr>, Some ErrStoreFile)
           | FlushOk \<Rightarrow>
               (db\<lparr>db_blocks := AList.update path (tc_block C stored) (AList.delete temporary (db_blocks db)),
                   db_head := AList.delete key (db_head db)\<rparr>, None))"

text \<open>
  The keys of the map come in some order; each flush has its own outcome. An error ends the flush before the log is
  truncated, which may fail too.
\<close>

fun flush_all :: "ts_codec \<Rightarrow> (str \<times> flush_io) list \<Rightarrow> tsdb \<Rightarrow> tsdb \<times> ts_error option" where
  "flush_all C [] db = (db, None)"
| "flush_all C ((key, io) # rest) db =
     (case flushSeriesLocked C io db key of
        (db, Some e) \<Rightarrow> (db, Some e)
      | (db, None) \<Rightarrow> flush_all C rest db)"

definition Flush :: "ts_codec \<Rightarrow> (str \<times> flush_io) list \<Rightarrow> bool \<Rightarrow> tsdb \<Rightarrow> tsdb \<times> ts_error option" where
  "Flush C order truncated db =
     (case flush_all C order db of
        (db, Some e) \<Rightarrow> (db, Some e)
      | (db, None) \<Rightarrow> if truncated then (db\<lparr>db_wal := []\<rparr>, None) else (db, Some ErrStoreFile))"

subsection \<open>Writing samples\<close>

text \<open>The record of sample \<open>n\<close> fails after \<open>k\<close> bytes of its line, or the final \<^verbatim>\<open>Sync\<close> fails.\<close>

datatype wal_io = WalOk | WalFails nat nat | SyncFails

definition wal_next :: "wal_io \<Rightarrow> wal_io" where
  "wal_next io = (case io of WalFails (Suc n) k \<Rightarrow> WalFails n k | _ \<Rightarrow> io)"

fun write_samples :: "ts_codec \<Rightarrow> wal_io \<Rightarrow> str \<Rightarrow> series \<Rightarrow> tsdb \<Rightarrow> sample list \<Rightarrow> tsdb \<times> bool" where
  "write_samples C io key s db [] = (db, True)"
| "write_samples C io key s db (sample # rest) =
     (case tc_wal C \<lparr>wr_Fingerprint = key, wr_Series = s, wr_Sample = sample\<rparr> of
        None \<Rightarrow> (db, False)
      | Some line \<Rightarrow>
          (case io of
             WalFails 0 k \<Rightarrow> (db\<lparr>db_wal := db_wal db @ take k (line @ [newline])\<rparr>, False)
           | _ \<Rightarrow> write_samples C (wal_next io) key s
               (db\<lparr>db_wal := db_wal db @ line @ [newline], db_head := AList.update key (head_of db key @ [sample]) (db_head db)\<rparr>) rest))"

definition Write :: "ts_codec \<Rightarrow> wal_io \<Rightarrow> flush_io \<Rightarrow> tsdb \<Rightarrow> pointBatch \<Rightarrow> tsdb \<times> ts_error option" where
  "Write C io fio db batch =
     (if blank (sr_Name (pb_Series batch)) then (db, Some ErrNameMissing)
      else
        let key = fingerprint (pb_Series batch) in
        (case write_samples C io key (pb_Series batch) db (pb_Samples batch) of
           (db, False) \<Rightarrow> (db, Some ErrStoreFile)
         | (db, True) \<Rightarrow>
             if io = SyncFails then (db, Some ErrStoreFile)
             else
               let db = db\<lparr>db_series := AList.update key (pb_Series batch) (db_series db)\<rparr> in
               if int (length (head_of db key)) \<ge> db_blockSize db then flushSeriesLocked C fio db key else (db, None)))"

subsection \<open>Reading\<close>

definition readBlock :: "ts_codec \<Rightarrow> byte list \<Rightarrow> (ts_error, block) result" where
  "readBlock C bytes =
     (case tc_unblock C bytes of
        None \<Rightarrow> Inl ErrReadBlock
      | Some stored \<Rightarrow> if bk_Version stored \<noteq> 1 then Inl (ErrBlockVersion (bk_Version stored)) else Inr stored)"

text \<open>\<^verbatim>\<open>os.ReadDir\<close> lists the files by name.\<close>

definition ReadDir :: "(str \<times> byte list) list \<Rightarrow> (str \<times> byte list) list" where
  "ReadDir dir = map (\<lambda>name. (name, the (map_of dir name))) (sort (map fst dir))"

definition outside :: "64 word \<Rightarrow> 64 word \<Rightarrow> block \<Rightarrow> bool" where
  "outside start end_time stored \<longleftrightarrow> bk_End stored <s start \<or> (end_time \<noteq> 0 \<and> end_time \<le>s bk_Start stored)"

definition query_file :: "ts_codec \<Rightarrow> str \<Rightarrow> 64 word \<Rightarrow> 64 word \<Rightarrow> sample list \<Rightarrow> str \<times> byte list \<Rightarrow> (ts_error, sample list) result" where
  "query_file C key start end_time result nf =
     (case nf of (name, bytes) \<Rightarrow>
        if \<not> HasPrefix name (key @ [45]) then Inr result
        else (case readBlock C bytes of
          Inl e \<Rightarrow> Inl e
        | Inr stored \<Rightarrow>
            if outside start end_time stored then Inr result
            else (case decodeSamples (bk_Encoded stored) of Inl e \<Rightarrow> Inl (ErrSamples e) | Inr samples \<Rightarrow> Inr (result @ samples))))"

fun filter_samples :: "64 word \<Rightarrow> 64 word \<Rightarrow> sample list \<Rightarrow> sample list \<Rightarrow> sample list" where
  "filter_samples start end_time filtered [] = filtered"
| "filter_samples start end_time filtered (s # rest) =
     (if sm_Timestamp s <s start \<or> (end_time \<noteq> 0 \<and> end_time \<le>s sm_Timestamp s) then filter_samples start end_time filtered rest
      else if filtered \<noteq> [] \<and> sm_Timestamp (last filtered) = sm_Timestamp s
      then filter_samples start end_time (filtered[length filtered - 1 := s]) rest
      else filter_samples start end_time (filtered @ [s]) rest)"

definition Query :: "ts_codec \<Rightarrow> tsdb \<Rightarrow> series \<Rightarrow> 64 word \<Rightarrow> 64 word \<Rightarrow> (ts_error, sample list) result" where
  "Query C db s start end_time =
     (let key = fingerprint s in
      rbind (foldr_err (query_file C key start end_time) [] (ReadDir (db_blocks db)))
        (\<lambda>result. Inr (filter_samples start end_time [] (sort_samples (result @ head_of db key)))))"

definition SeriesCount :: "tsdb \<Rightarrow> nat" where "SeriesCount db = length (db_series db)"

subsection \<open>Retention and opening\<close>

text \<open>The files removed before an error stay removed. A removal succeeds or not by name.\<close>

fun delete_files :: "ts_codec \<Rightarrow> (str \<Rightarrow> bool) \<Rightarrow> 64 word \<Rightarrow> (str \<times> byte list) list \<Rightarrow> tsdb \<Rightarrow> nat \<Rightarrow> tsdb \<times> nat \<times> ts_error option" where
  "delete_files C removes cutoff [] db deleted = (db, deleted, None)"
| "delete_files C removes cutoff ((name, bytes) # rest) db deleted =
     (if \<not> HasSuffix name dot_block then delete_files C removes cutoff rest db deleted
      else (case readBlock C bytes of
        Inl e \<Rightarrow> (db, deleted, Some e)
      | Inr stored \<Rightarrow>
          if bk_End stored <s cutoff then
            (if removes name
             then delete_files C removes cutoff rest (db\<lparr>db_blocks := AList.delete name (db_blocks db)\<rparr>) (deleted + 1)
             else (db, deleted, Some ErrStoreFile))
          else delete_files C removes cutoff rest db deleted))"

definition DeleteExpired :: "ts_codec \<Rightarrow> (str \<Rightarrow> bool) \<Rightarrow> tsdb \<Rightarrow> 64 word \<Rightarrow> tsdb \<times> nat \<times> ts_error option" where
  "DeleteExpired C removes db cutoff = delete_files C removes cutoff (ReadDir (db_blocks db)) db 0"

definition load_file :: "ts_codec \<Rightarrow> tsdb \<Rightarrow> str \<times> byte list \<Rightarrow> (ts_error, tsdb) result" where
  "load_file C db nf =
     (case nf of (name, bytes) \<Rightarrow>
        if \<not> HasSuffix name dot_block then Inr db
        else (case readBlock C bytes of
          Inl e \<Rightarrow> Inl e
        | Inr stored \<Rightarrow> Inr (db\<lparr>db_series := AList.update (fingerprint (bk_Series stored)) (bk_Series stored) (db_series db)\<rparr>)))"

definition loadBlockMetadata :: "ts_codec \<Rightarrow> tsdb \<Rightarrow> (ts_error, tsdb) result" where
  "loadBlockMetadata C db = foldr_err (load_file C) db (ReadDir (db_blocks db))"

definition replay_sample :: "ts_codec \<Rightarrow> tsdb \<Rightarrow> byte list \<Rightarrow> (ts_error, tsdb) result" where
  "replay_sample C db token =
     (case tc_unwal C token of
        None \<Rightarrow> Inl ErrWalRecord
      | Some r \<Rightarrow> Inr (db\<lparr>db_series := AList.update (wr_Fingerprint r) (wr_Series r) (db_series db),
          db_head := AList.update (wr_Fingerprint r) (head_of db (wr_Fingerprint r) @ [wr_Sample r]) (db_head db)\<rparr>))"

definition replayWAL :: "ts_codec \<Rightarrow> tsdb \<Rightarrow> (ts_error, tsdb) result" where
  "replayWAL C db = scan_loop MaxScanTokenSize (replay_sample C) ErrWalLine (db_wal db) db"

definition OpenStore :: "ts_codec \<Rightarrow> int \<Rightarrow> byte list \<Rightarrow> (str \<times> byte list) list \<Rightarrow> (ts_error, tsdb) result" where
  "OpenStore C blockSize wal blocks =
     (let blockSize = (if blockSize \<le> 0 then 4096 else blockSize);
          db = \<lparr>db_wal = wal, db_blocks = blocks, db_head = [], db_series = [], db_blockSize = blockSize\<rparr>
      in rbind (loadBlockMetadata C db) (replayWAL C))"

end
