(* ===== verification/TsProps.thy ===== *)
theory TsProps
  imports TsStore "HOL-Library.Multiset"
begin

text \<open>
  What the time-series store guarantees: a query gives the last value of every timestamp of its window, a flush to disjoint blocks and
  a restart do not change the answers; and where it does not: blocks with one name replace each other, and a record cut off by a
  crash keeps the store from opening.
\<close>

subsection \<open>What a query sees\<close>

definition in_window :: "64 word \<Rightarrow> 64 word \<Rightarrow> 64 word \<Rightarrow> bool" where
  "in_window start end_time t \<longleftrightarrow> \<not> (t <s start \<or> (end_time \<noteq> 0 \<and> end_time \<le>s t))"

definition file_samples :: "ts_codec \<Rightarrow> byte list \<Rightarrow> sample list" where
  "file_samples C bytes =
     (case readBlock C bytes of Inl _ \<Rightarrow> []
      | Inr b \<Rightarrow> (case decodeSamples (bk_Encoded b) of Inl _ \<Rightarrow> [] | Inr xs \<Rightarrow> xs))"

definition file_ok :: "ts_codec \<Rightarrow> byte list \<Rightarrow> bool" where
  "file_ok C bytes \<longleftrightarrow> (\<exists>b xs. readBlock C bytes = Inr b \<and> decodeSamples (bk_Encoded b) = Inr xs \<and>
     (\<forall>x \<in> set xs. bk_Start b \<le>s sm_Timestamp x \<and> sm_Timestamp x \<le>s bk_End b))"

text \<open>A directory whose files are blocks, holding samples of the time range they state.\<close>

definition blocks_ok :: "ts_codec \<Rightarrow> (str \<times> byte list) list \<Rightarrow> bool" where
  "blocks_ok C dir \<longleftrightarrow> distinct (map fst dir) \<and> (\<forall>(name, bytes) \<in> set dir. file_ok C bytes)"

definition key_samples :: "ts_codec \<Rightarrow> str \<Rightarrow> (str \<times> byte list) list \<Rightarrow> sample list" where
  "key_samples C key fs = concat (map (\<lambda>(name, bytes). if HasPrefix name (key @ [45]) then file_samples C bytes else []) fs)"

definition all_samples :: "ts_codec \<Rightarrow> tsdb \<Rightarrow> str \<Rightarrow> sample list" where
  "all_samples C db key = key_samples C key (ReadDir (db_blocks db)) @ head_of db key"

lemma key_samples_simps [simp]:
  "key_samples C key [] = []"
  "key_samples C key ((name, bytes) # fs) = (if HasPrefix name (key @ [45]) then file_samples C bytes else []) @ key_samples C key fs"
  "key_samples C key (fs @ gs) = key_samples C key fs @ key_samples C key gs"
  by (simp_all add: key_samples_def)

lemma ReadDir_set: "distinct (map fst dir) \<Longrightarrow> set (ReadDir dir) = set dir"
  by (force simp: ReadDir_def)

lemma outside_empty:
  assumes "outside start end_time b" and "\<forall>x \<in> set xs. bk_Start b \<le>s sm_Timestamp x \<and> sm_Timestamp x \<le>s bk_End b"
  shows "filter (\<lambda>x. in_window start end_time (sm_Timestamp x)) xs = []"
  using assms by (fastforce simp: outside_def in_window_def word_sle_eq word_sless_alt filter_empty_conv)

lemma query_files:
  assumes "\<forall>(name, bytes) \<in> set fs. file_ok C bytes"
  shows "\<exists>ys. foldr_err (query_file C key start end_time) acc fs = Inr (acc @ ys) \<and>
    filter (\<lambda>x. in_window start end_time (sm_Timestamp x)) ys =
    filter (\<lambda>x. in_window start end_time (sm_Timestamp x)) (key_samples C key fs)"
  using assms
proof (induction fs arbitrary: acc)
  case Nil
  then show ?case by simp
next
  case (Cons f fs)
  obtain name bytes where f: "f = (name, bytes)" by fastforce
  obtain b xs where b: "readBlock C bytes = Inr b" "decodeSamples (bk_Encoded b) = Inr xs"
    "\<forall>x \<in> set xs. bk_Start b \<le>s sm_Timestamp x \<and> sm_Timestamp x \<le>s bk_End b"
    using Cons.prems f by (auto simp: file_ok_def)
  then have xs: "file_samples C bytes = xs" by (simp add: file_samples_def)
  define zs where "zs = (if HasPrefix name (key @ [45]) \<and> \<not> outside start end_time b then xs else [])"
  have step: "query_file C key start end_time acc f = Inr (acc @ zs)" using b(1,2) f by (simp add: query_file_def zs_def)
  have same: "filter (\<lambda>x. in_window start end_time (sm_Timestamp x)) zs =
      filter (\<lambda>x. in_window start end_time (sm_Timestamp x)) (if HasPrefix name (key @ [45]) then file_samples C bytes else [])"
    using xs outside_empty [OF _ b(3)] by (auto simp: zs_def)
  obtain ys where "foldr_err (query_file C key start end_time) (acc @ zs) fs = Inr ((acc @ zs) @ ys)"
    "filter (\<lambda>x. in_window start end_time (sm_Timestamp x)) ys =
     filter (\<lambda>x. in_window start end_time (sm_Timestamp x)) (key_samples C key fs)"
    using Cons.IH [of "acc @ zs"] Cons.prems by auto
  with step same f show ?case by (intro exI [of _ "zs @ ys"]) simp
qed

lemma filter_samples_deduplicate:
  "filter_samples start end_time kept xs = deduplicate kept (filter (\<lambda>x. in_window start end_time (sm_Timestamp x)) xs)"
  by (induction start end_time kept xs rule: filter_samples.induct) (auto simp: in_window_def)

lemma query_reference:
  assumes "blocks_ok C (db_blocks db)"
  shows "Query C db s start end_time =
    Inr (latest (filter (\<lambda>x. in_window start end_time (sm_Timestamp x)) (all_samples C db (fingerprint s))))"
proof -
  have "\<forall>(name, bytes) \<in> set (ReadDir (db_blocks db)). file_ok C bytes"
    using assms ReadDir_set by (auto simp: blocks_ok_def)
  from query_files [OF this, of "fingerprint s" start end_time "[]"] obtain ys where
    ys: "foldr_err (query_file C (fingerprint s) start end_time) [] (ReadDir (db_blocks db)) = Inr ys"
    "filter (\<lambda>x. in_window start end_time (sm_Timestamp x)) ys =
     filter (\<lambda>x. in_window start end_time (sm_Timestamp x)) (key_samples C (fingerprint s) (ReadDir (db_blocks db)))" by auto
  then show ?thesis
    by (simp add: Query_def Let_def filter_samples_deduplicate latest_def sort_samples_def filter_sort all_samples_def)
qed

lemma value_at_window:
  "value_at (filter (\<lambda>x. P (sm_Timestamp x)) xs) = value_at xs |` Collect P"
  by (induction xs) (auto simp: value_at_cons map_add_def fun_eq_iff restrict_map_def split: option.splits)

text \<open>
  C29: a query answers exactly the timestamps of its window that blocks or memory hold, in ascending order, each once, with the value that comes
  last when blocks are read by name and memory after them; skipping blocks by their stated range loses nothing. Last by name is not last
  written: of two blocks with one timestamp the older value can win. Every file of the directory is a readable block whose samples lie in the range it states, which
  excludes the temporary file a flush leaves when it is interrupted.
\<close>

theorem query_lists_latest:
  assumes "blocks_ok C (db_blocks db)"
  shows "\<exists>ys. Query C db s start end_time = Inr ys \<and> ascending ys \<and>
    value_at ys = value_at (all_samples C db (fingerprint s)) |` {t. in_window start end_time t}"
  using query_reference [OF assms] latest_spec value_at_window by simp

text \<open>
  The encodings read back what they wrote, for one block and one record; the labels of a series are a map, which may come back in
  another order.
\<close>

definition same_series :: "series \<Rightarrow> series \<Rightarrow> bool" where
  "same_series s t \<longleftrightarrow> sr_Name s = sr_Name t \<and> map_of (sr_Labels s) = map_of (sr_Labels t)"

definition block_reads_back :: "ts_codec \<Rightarrow> block \<Rightarrow> bool" where
  "block_reads_back C b \<longleftrightarrow> (\<exists>s. same_series s (bk_Series b) \<and> tc_unblock C (tc_block C b) = Some (b\<lparr>bk_Series := s\<rparr>))"

definition record_reads_back :: "ts_codec \<Rightarrow> walRecord \<Rightarrow> bool" where
  "record_reads_back C r \<longleftrightarrow> (\<exists>line s. tc_wal C r = Some line \<and> same_series s (wr_Series r) \<and>
     tc_unwal C line = Some (r\<lparr>wr_Series := s\<rparr>) \<and> line_ok line \<and> short MaxScanTokenSize line)"

lemma same_series_refl [simp]: "same_series s s" by (simp add: same_series_def)

lemma reads_back_exactly:
  "tc_unblock C (tc_block C b) = Some b \<Longrightarrow> block_reads_back C b"
  "tc_wal C r = Some line \<Longrightarrow> tc_unwal C line = Some r \<Longrightarrow> line_ok line \<Longrightarrow> short MaxScanTokenSize line \<Longrightarrow> record_reads_back C r"
  unfolding block_reads_back_def record_reads_back_def
  by (rule exI [of _ "bk_Series b"], simp, rule exI [of _ line], rule exI [of _ "wr_Series r"], simp)

definition sample_ts :: "64 word \<Rightarrow> 64 word \<Rightarrow> sample" where
  "sample_ts t v = \<lparr>sm_Timestamp = t, sm_Value = v\<rparr>"

definition sample_series :: series where "sample_series = \<lparr>sr_Name = [99, 112, 117], sr_Labels = [([104], [49])]\<rparr>"

definition sample_block :: block where
  "sample_block = \<lparr>bk_Version = 1, bk_Series = sample_series, bk_Start = 1, bk_End = 3, bk_Encoded = encodeSamples [sample_ts 1 10, sample_ts 3 30]\<rparr>"

definition one_block_codec :: ts_codec where
  "one_block_codec = \<lparr>tc_wal = (\<lambda>_. None), tc_unwal = (\<lambda>_. None), tc_block = (\<lambda>_. []), tc_unblock = (\<lambda>_. Some sample_block)\<rparr>"

definition sample_db :: tsdb where
  "sample_db = \<lparr>db_wal = [], db_blocks = [(block_path (fingerprint sample_series) 1 3, [])],
     db_head = [(fingerprint sample_series, [sample_ts 3 33])], db_series = [(fingerprint sample_series, sample_series)], db_blockSize = 4096\<rparr>"

theorem query_lists_latest_witness:
  "\<exists>ys. Query one_block_codec sample_db sample_series 2 0 = Inr ys \<and> value_at ys 3 = Some 33 \<and> value_at ys 1 = None"
proof -
  have d: "decodeSamples (encodeSamples [sample_ts 1 10, sample_ts 3 30]) = Inr [sample_ts 1 10, sample_ts 3 30]"
    using decode_encode_samples [of "[sample_ts 1 10, sample_ts 3 30]"] latest_id [of "[sample_ts 1 10, sample_ts 3 30]"]
    by (simp add: ascending_def sample_ts_def)
  have ok: "blocks_ok one_block_codec (db_blocks sample_db)"
    using d by (simp add: blocks_ok_def sample_db_def file_ok_def readBlock_def one_block_codec_def sample_block_def sample_ts_def word_sle_eq)
  have "all_samples one_block_codec sample_db (fingerprint sample_series) = [sample_ts 1 10, sample_ts 3 30, sample_ts 3 33]"
    using d by (simp add: all_samples_def sample_db_def ReadDir_def key_samples_def block_path_def file_samples_def readBlock_def
      one_block_codec_def sample_block_def head_of_def HasPrefix_def)
  moreover have "in_window 2 0 3" "\<not> in_window 2 0 1" by (simp_all add: in_window_def word_sless_alt)
  ultimately show ?thesis
    using query_lists_latest [OF ok, of sample_series 2 0] by (auto simp: value_at_def sample_ts_def restrict_map_def)
qed

subsection \<open>Flushing\<close>

text \<open>Samples in ascending order are determined by the value of every timestamp.\<close>

lemma ascending_unique:
  assumes "ascending xs" and "ascending ys" and "value_at xs = value_at ys"
  shows "xs = ys"
  using assms
proof (induction xs arbitrary: ys)
  case Nil
  then show ?case using value_at_empty [of ys] by simp
next
  case (Cons x xs)
  have dom: "sm_Timestamp ` set zs = dom (value_at zs)" for zs
    by (intro set_eqI) (metis domIff value_at_None)
  obtain y ys' where y: "ys = y # ys'" using Cons.prems(3) value_at_empty [of "x # xs"] value_at_empty [of ys] by (cases ys) auto
  have lt: "\<forall>z \<in> set xs. sint (sm_Timestamp x) < sint (sm_Timestamp z)" "\<forall>z \<in> set ys'. sint (sm_Timestamp y) < sint (sm_Timestamp z)"
    "ascending xs" "ascending ys'"
    using Cons.prems(1,2) y by (simp_all add: ascending_def)
  have "sm_Timestamp ` set (x # xs) = sm_Timestamp ` set (y # ys')" using dom Cons.prems(3) y by metis
  then have t: "sm_Timestamp x = sm_Timestamp y" using lt(1,2) by (smt (verit) image_iff list.set_intros(1) set_ConsD)
  have first: "value_at (z # zs) (sm_Timestamp z) = Some (sm_Value z)" if "\<forall>w \<in> set zs. sint (sm_Timestamp z) < sint (sm_Timestamp w)" for z zs
  proof -
    have "value_at zs (sm_Timestamp z) = None" using that value_at_None by fastforce
    then show ?thesis by (simp add: value_at_cons map_add_def)
  qed
  then have "sm_Value x = sm_Value y" using lt t Cons.prems(3) y by (metis option.inject)
  then have xy: "x = y" using t by simp
  have rest: "value_at zs = (value_at (z # zs))(sm_Timestamp z := None)" if "\<forall>w \<in> set zs. sint (sm_Timestamp z) < sint (sm_Timestamp w)" for z zs
  proof -
    have "value_at zs (sm_Timestamp z) = None" using that value_at_None by fastforce
    then show ?thesis by (auto simp: value_at_cons map_add_def fun_eq_iff split: option.splits)
  qed
  have "value_at xs = value_at ys'" using rest [OF lt(1)] rest [OF lt(2)] Cons.prems(3) y xy by simp
  then show ?case using Cons.IH [OF lt(3,4)] y xy by simp
qed

lemma latest_eq: "value_at xs = value_at ys \<Longrightarrow> latest xs = latest ys"
  using ascending_unique latest_spec by metis

lemma query_eq:
  assumes "blocks_ok C (db_blocks db)" and "blocks_ok C (db_blocks db')"
    and "value_at (all_samples C db (fingerprint s)) = value_at (all_samples C db' (fingerprint s))"
  shows "Query C db s start end_time = Query C db' s start end_time"
  unfolding query_reference [OF assms(1)] query_reference [OF assms(2)]
  using assms(3) by (intro arg_cong [where f = Inr] latest_eq) (simp add: value_at_window)

lemma insort_split: "\<exists>as bs. xs = as @ bs \<and> insort x xs = as @ x # bs"
proof (induction xs)
  case (Cons y ys)
  then obtain as bs where "ys = as @ bs" "insort x ys = as @ x # bs" by blast
  then show ?case
    by (cases "x \<le> y") (force intro: exI [of _ "[]"], force intro: exI [of _ "y # as"])
qed simp

text \<open>A new file appears somewhere in the listing.\<close>

lemma ReadDir_new:
  assumes "name \<notin> fst ` set dir"
  shows "\<exists>as bs. ReadDir dir = as @ bs \<and> ReadDir (AList.update name bytes dir) = as @ (name, bytes) # bs"
proof -
  have "map fst (AList.update name bytes dir) = map fst dir @ [name]" using assms by (simp add: update_keys)
  then have srt: "sort (map fst (AList.update name bytes dir)) = insort name (sort (map fst dir))"
    by (intro properties_for_sort) (simp_all add: sorted_insort)
  obtain as bs where ab: "sort (map fst dir) = as @ bs" "sort (map fst (AList.update name bytes dir)) = as @ name # bs"
    using insort_split [of "sort (map fst dir)" name] unfolding srt by blast
  have "set (as @ bs) = fst ` set dir" using arg_cong [OF ab(1), of set] by simp
  then have old: "map (\<lambda>n. (n, the (map_of (AList.update name bytes dir) n))) ns = map (\<lambda>n. (n, the (map_of dir n))) ns"
    if "set ns \<subseteq> set (as @ bs)" for ns
    using that assms by (auto simp: update_conv')
  show ?thesis
    unfolding ReadDir_def ab using old [of as] old [of bs]
    by (intro exI [of _ "map (\<lambda>n. (n, the (map_of dir n))) as"] exI [of _ "map (\<lambda>n. (n, the (map_of dir n))) bs"])
      (simp add: update_conv')
qed

lemma path_prefix:
  assumes "length k = length key"
  shows "HasPrefix (block_path key a b) (k @ [45]) \<longleftrightarrow> k = key"
  using assms by (auto simp: HasPrefix_def block_path_def)

lemma length_fingerprint: "length (fingerprint s) = 16"
  by (simp add: fingerprint_def hex16_def)

text \<open>What the flush of a series writes and leaves.\<close>

definition flushed_block :: "tsdb \<Rightarrow> str \<Rightarrow> block" where
  "flushed_block db key = (let samples = sort_samples (head_of db key) in
     \<lparr>bk_Version = 1, bk_Series = (case map_of (db_series db) key of None \<Rightarrow> zero_series | Some s \<Rightarrow> s),
      bk_Start = sm_Timestamp (hd samples), bk_End = sm_Timestamp (last samples), bk_Encoded = encodeSamples samples\<rparr>)"

definition flushed_path :: "tsdb \<Rightarrow> str \<Rightarrow> str" where
  "flushed_path db key = block_path key (bk_Start (flushed_block db key)) (bk_End (flushed_block db key))"

lemma flush_effect:
  assumes "head_of db key \<noteq> []"
  shows "flushSeriesLocked C FlushOk db key =
    (db\<lparr>db_head := AList.delete key (AList.update key (sort_samples (head_of db key)) (db_head db)),
        db_blocks := AList.update (flushed_path db key) (tc_block C (flushed_block db key))
          (AList.delete (flushed_path db key @ dot_tmp) (db_blocks db))\<rparr>, None)"
  using assms by (simp add: flushSeriesLocked_def flushed_block_def flushed_path_def Let_def)

lemma flushed_file:
  assumes "block_reads_back C (flushed_block db key)" and "head_of db key \<noteq> []" and "length (head_of db key) \<le> 2 ^ 44"
  shows "file_ok C (tc_block C (flushed_block db key)) \<and>
    value_at (file_samples C (tc_block C (flushed_block db key))) = value_at (head_of db key)"
proof -
  let ?xs = "sort_samples (head_of db key)"
  obtain s where r: "readBlock C (tc_block C (flushed_block db key)) = Inr ((flushed_block db key)\<lparr>bk_Series := s\<rparr>)"
    using assms(1) by (auto simp: block_reads_back_def readBlock_def flushed_block_def Let_def)
  have len: "length ?xs \<le> 2 ^ 44" using assms(3) by (simp add: sort_samples_def)
  have d: "decodeSamples (bk_Encoded (flushed_block db key)) = Inr (latest ?xs)"
    using decode_encode_samples [OF len] by (simp add: flushed_block_def Let_def)
  have v: "value_at (latest ?xs) = value_at ?xs" using latest_spec by simp
  have "sm_Timestamp x \<in> sm_Timestamp ` set ?xs" if "x \<in> set (latest ?xs)" for x
    using that v value_at_None by (metis image_eqI)
  moreover have "bk_Start (flushed_block db key) \<le>s sm_Timestamp x \<and> sm_Timestamp x \<le>s bk_End (flushed_block db key)" if x: "x \<in> set ?xs" for x
  proof -
    have s: "sorted (map (\<lambda>x. sint (sm_Timestamp x)) ?xs)" by (simp add: sort_samples_def)
    obtain i where i: "i < length ?xs" "x = ?xs ! i" using x unfolding in_set_conv_nth by blast
    have ne: "?xs \<noteq> []" using x by auto
    have mono: "sint (sm_Timestamp (?xs ! a)) \<le> sint (sm_Timestamp (?xs ! b))" if "a \<le> b" "b < length ?xs" for a b
      using sorted_nth_mono [OF s, of a b] that by simp
    have "sint (sm_Timestamp (?xs ! 0)) \<le> sint (sm_Timestamp (?xs ! i))" "sint (sm_Timestamp (?xs ! i)) \<le> sint (sm_Timestamp (?xs ! (length ?xs - 1)))"
      using mono [of 0 i] mono [of i "length ?xs - 1"] i by simp_all
    then show ?thesis using i ne by (simp add: flushed_block_def Let_def word_sle_eq hd_conv_nth last_conv_nth)
  qed
  ultimately have "\<forall>x \<in> set (latest ?xs). bk_Start (flushed_block db key) \<le>s sm_Timestamp x \<and> sm_Timestamp x \<le>s bk_End (flushed_block db key)"
    by (metis (no_types, lifting) image_iff)
  with r d v show ?thesis by (auto simp: file_ok_def file_samples_def)
qed

lemma head_of_simps:
  "head_of (db\<lparr>db_blocks := fs\<rparr>) k = head_of db k" "head_of (db\<lparr>db_wal := w\<rparr>) k = head_of db k"
  "head_of (db\<lparr>db_series := ss\<rparr>) k = head_of db k"
  "head_of (db\<lparr>db_head := AList.update key xs hs\<rparr>) k = (if k = key then xs else head_of (db\<lparr>db_head := hs\<rparr>) k)"
  "head_of (db\<lparr>db_head := AList.delete key hs\<rparr>) k = (if k = key then [] else head_of (db\<lparr>db_head := hs\<rparr>) k)"
  "head_of (db\<lparr>db_head := db_head db\<rparr>) k = head_of db k"
  by (simp_all add: head_of_def update_conv' delete_conv')

lemma update_subset: "set (AList.update k v xs) \<subseteq> insert (k, v) (set xs)"
  by (induction xs) auto

text \<open>
  a flush of a series whose samples in memory have timestamps no block of the series has, to a file that does not exist yet, changes no
  answer of any query.
\<close>

theorem flush_keeps_queries:
  assumes "blocks_ok C (db_blocks db)" and "block_reads_back C (flushed_block db key)" and "length key = 16"
    and "head_of db key \<noteq> []" and "length (head_of db key) \<le> 2 ^ 44"
    and "flushed_path db key \<notin> fst ` set (db_blocks db)" and "flushed_path db key @ dot_tmp \<notin> fst ` set (db_blocks db)"
    and "dom (value_at (head_of db key)) \<inter> dom (value_at (key_samples C key (ReadDir (db_blocks db)))) = {}"
    and "flushSeriesLocked C FlushOk db key = (db', e)"
  shows "e = None \<and> Query C db' s start end_time = Query C db s start end_time"
proof -
  let ?path = "flushed_path db key" and ?bytes = "tc_block C (flushed_block db key)" and ?k = "fingerprint s"
  have "AList.delete (?path @ dot_tmp) (db_blocks db) = db_blocks db"
    using assms(7) by (force simp: AList.delete_eq filter_id_conv)
  then have db': "e = None" "db_blocks db' = AList.update ?path ?bytes (db_blocks db)"
    "head_of db' k = (if k = key then [] else head_of db k)" for k
    using assms(9) flush_effect [OF assms(4), of C] by (auto simp: head_of_simps)
  note file_facts = flushed_file [OF assms(2,4,5)]
  obtain as bs where dir: "ReadDir (db_blocks db) = as @ bs" "ReadDir (db_blocks db') = as @ (?path, ?bytes) # bs"
    using ReadDir_new [OF assms(6), of ?bytes] db'(2) by auto
  have ok: "blocks_ok C (db_blocks db')"
  proof -
    show ?thesis using update_subset [of ?path ?bytes "db_blocks db"] assms(1) file_facts db'(2)
      by (auto simp: blocks_ok_def distinct_update)
  qed
  have "value_at (all_samples C db' ?k) = value_at (all_samples C db ?k)"
  proof (cases "?k = key")
    case True
    let ?A = "value_at (key_samples C key as)" and ?B = "value_at (key_samples C key bs)" and ?H = "value_at (head_of db key)"
    have "HasPrefix ?path (key @ [45])" using path_prefix [of key key] by (simp add: flushed_path_def)
    then have "value_at (all_samples C db' ?k) = ?A ++ (?H ++ ?B)"
      using True dir(2) db'(3) file_facts by (simp add: all_samples_def map_add_assoc)
    moreover have "dom ?H \<inter> dom ?B = {}" using assms(8) dir(1) by auto
    then have "?H ++ ?B = ?B ++ ?H" by (rule map_add_comm)
    ultimately show ?thesis using True dir(1) by (simp add: all_samples_def map_add_assoc)
  next
    case False
    then have "\<not> HasPrefix ?path (?k @ [45])"
      using path_prefix [of ?k key] assms(3) length_fingerprint [of s] by (simp add: flushed_path_def)
    then show ?thesis using False dir db'(3) by (simp add: all_samples_def)
  qed
  then show ?thesis using db'(1) query_eq [OF ok assms(1)] by blast
qed

definition fresh_db :: tsdb where
  "fresh_db = \<lparr>db_wal = [], db_blocks = [], db_head = [(fingerprint sample_series, [sample_ts 1 10, sample_ts 3 30])],
     db_series = [(fingerprint sample_series, sample_series)], db_blockSize = 4096\<rparr>"

theorem flush_keeps_queries_witness:
  "\<exists>db'. flushSeriesLocked one_block_codec FlushOk fresh_db (fingerprint sample_series) = (db', None) \<and> db_head db' = [] \<and>
     Query one_block_codec db' sample_series 0 0 = Query one_block_codec fresh_db sample_series 0 0"
proof -
  have h: "head_of fresh_db (fingerprint sample_series) = [sample_ts 1 10, sample_ts 3 30]" by (simp add: head_of_def fresh_db_def)
  have "sort_samples [sample_ts 1 10, sample_ts 3 30] = [sample_ts 1 10, sample_ts 3 30]"
    by (simp add: sort_samples_def sample_ts_def)
  then have "flushed_block fresh_db (fingerprint sample_series) = sample_block"
    using h by (simp add: flushed_block_def sample_block_def Let_def fresh_db_def sample_ts_def)
  then have r: "block_reads_back one_block_codec (flushed_block fresh_db (fingerprint sample_series))"
    by (intro reads_back_exactly) (simp add: one_block_codec_def)
  obtain db' e where f: "flushSeriesLocked one_block_codec FlushOk fresh_db (fingerprint sample_series) = (db', e)" by fastforce
  have "db_head db' = []" using f h flush_effect [of fresh_db "fingerprint sample_series" one_block_codec] by (auto simp: fresh_db_def)
  moreover have "blocks_ok one_block_codec (db_blocks fresh_db)" by (simp add: blocks_ok_def fresh_db_def)
  ultimately show ?thesis
    using flush_keeps_queries [OF _ r length_fingerprint _ _ _ _ _ f, of sample_series 0 0] f h
    by (simp add: fresh_db_def ReadDir_def)
qed

text \<open>
  the file of a block is named by its series and the first and last timestamp only, so that a later block with the same
  ends replaces it: the sample between them, acknowledged and flushed, is gone.
\<close>

theorem second_block_replaces_first:
  assumes "db_blocks db = []" and "head_of db key = [a, b, c]" and "ascending [a, b, c]" and "key = fingerprint s"
    and "0 \<le>s sm_Timestamp a" and "block_reads_back C (flushed_block db key)"
    and "flushSeriesLocked C FlushOk db key = (db1, e1)"
    and "db2 = db1\<lparr>db_head := AList.update key [a, c] (db_head db1)\<rparr>" and "block_reads_back C (flushed_block db2 key)"
    and "flushSeriesLocked C FlushOk db2 key = (db3, e3)"
  shows "e1 = None \<and> e3 = None \<and> Query C db1 s 0 0 = Inr [a, b, c] \<and> Query C db3 s 0 0 = Inr [a, c]"
proof -
  have ac: "ascending [a, c]" using assms(3) by (auto simp: ascending_def)
  have sorted_id: "sort_samples xs = xs" if "ascending xs" for xs
  proof -
    have "sorted (map (\<lambda>s. sint (sm_Timestamp s)) xs)"
      using that unfolding ascending_def sorted_map by (rule sorted_wrt_mono_rel [rotated]) simp
    then show ?thesis by (simp add: sort_samples_def sort_key_id_if_sorted)
  qed
  have window: "filter (\<lambda>x. in_window 0 0 (sm_Timestamp x)) [a, b, c] = [a, b, c]"
    using assms(3,5) by (auto simp: in_window_def ascending_def word_sle_eq word_sless_alt)
  then have window2: "filter (\<lambda>x. in_window 0 0 (sm_Timestamp x)) [a, c] = [a, c]" by (auto split: if_splits)
  have one: "Query C db' s 0 0 = Inr xs"
    if "db_blocks db' = [(flushed_path d key, tc_block C (flushed_block d key))]" "head_of db' key = []" "head_of d key = xs" "ascending xs"
      "block_reads_back C (flushed_block d key)" "xs \<noteq> []" "length xs \<le> 3" "filter (\<lambda>x. in_window 0 0 (sm_Timestamp x)) xs = xs" for db' d xs
  proof -
    have l: "length (head_of d key) \<le> 2 ^ 44" "head_of d key \<noteq> []" using that(3,6,7) by simp_all
    note f = flushed_file [OF that(5) l(2,1)]
    have "HasPrefix (flushed_path d key) (key @ [45])" using path_prefix [of key key] by (simp add: flushed_path_def)
    then have "value_at (all_samples C db' key) = value_at xs"
      using that(1-3) f by (simp add: all_samples_def ReadDir_def)
    moreover have "blocks_ok C (db_blocks db')" using that(1) f by (simp add: blocks_ok_def)
    ultimately have "Query C db' s 0 0 = Inr (latest (filter (\<lambda>x. in_window 0 0 (sm_Timestamp x)) xs))"
      using query_reference [of C db' s 0 0] assms(4) latest_eq by (metis value_at_window)
    then show ?thesis using that(4,8) latest_id by simp
  qed
  have db1: "e1 = None" "db_blocks db1 = [(flushed_path db key, tc_block C (flushed_block db key))]" "head_of db1 key = []" "db_series db1 = db_series db"
    using assms(7) flush_effect [of db key C] assms(1,2) by (auto simp: head_of_simps)
  have h2: "head_of db2 key = [a, c]" "db_series db2 = db_series db" "db_blocks db2 = db_blocks db1"
    using assms(8) db1 by (simp_all add: head_of_simps)
  have path: "flushed_path db2 key = flushed_path db key"
    using h2 assms(2) sorted_id [OF assms(3)] sorted_id [OF ac] by (simp add: flushed_path_def flushed_block_def Let_def)
  have "flushed_path db key @ dot_tmp \<noteq> flushed_path db key" by (simp add: dot_tmp_def)
  then have db3: "e3 = None" "db_blocks db3 = [(flushed_path db2 key, tc_block C (flushed_block db2 key))]" "head_of db3 key = []"
    using assms(10) flush_effect [of db2 key C] h2 db1(2) path by (auto simp: head_of_simps)
  show ?thesis
    using one [OF db1(2,3) assms(2,3,6)] one [OF db3(2,3) h2(1) ac assms(9)] window window2 db1(1) db3(1) by simp
qed

definition two_block_codec :: "block \<Rightarrow> block \<Rightarrow> ts_codec" where
  "two_block_codec b c = \<lparr>tc_wal = (\<lambda>_. None), tc_unwal = (\<lambda>_. None), tc_block = (\<lambda>x. if x = b then [1] else [2]),
     tc_unblock = (\<lambda>bytes. Some (if bytes = [1] then b else c))\<rparr>"

definition three_db :: tsdb where
  "three_db = fresh_db\<lparr>db_head := [(fingerprint sample_series, [sample_ts 1 10, sample_ts 2 20, sample_ts 3 30])]\<rparr>"

theorem second_block_replaces_first_witness:
  "\<exists>C db1 db3. flushSeriesLocked C FlushOk three_db (fingerprint sample_series) = (db1, None) \<and>
     flushSeriesLocked C FlushOk (db1\<lparr>db_head := AList.update (fingerprint sample_series) [sample_ts 1 10, sample_ts 3 30] (db_head db1)\<rparr>)
       (fingerprint sample_series) = (db3, None) \<and>
     Query C db1 sample_series 0 0 = Inr [sample_ts 1 10, sample_ts 2 20, sample_ts 3 30] \<and>
     Query C db3 sample_series 0 0 = Inr [sample_ts 1 10, sample_ts 3 30]"
proof -
  let ?k = "fingerprint sample_series" and ?xs = "[sample_ts 1 10, sample_ts 2 20, sample_ts 3 30]" and ?ys = "[sample_ts 1 10, sample_ts 3 30]"
  define c where "c = flushed_block fresh_db ?k"
  define C where "C = two_block_codec (flushed_block three_db ?k) c"
  have h: "head_of three_db ?k = ?xs" "db_blocks three_db = []" "db_series three_db = [(?k, sample_series)]" "db_head three_db = [(?k, ?xs)]"
    by (simp_all add: head_of_def three_db_def fresh_db_def)
  have b1: "block_reads_back C (flushed_block three_db ?k)" by (intro reads_back_exactly) (simp add: C_def two_block_codec_def)
  obtain db1 e1 where f1: "flushSeriesLocked C FlushOk three_db ?k = (db1, e1)" by fastforce
  define db2 where "db2 = db1\<lparr>db_head := AList.update ?k ?ys (db_head db1)\<rparr>"
  have "db_series db1 = [(?k, sample_series)]" using f1 flush_effect [of three_db ?k C] h by auto
  then have "flushed_block db2 ?k = c"
    by (simp add: flushed_block_def c_def db2_def head_of_simps fresh_db_def Let_def) (simp add: head_of_def)
  moreover have "c = b \<or> block_reads_back (two_block_codec b c) c" for b using reads_back_exactly(1) [of "two_block_codec b c" c] by (auto simp: two_block_codec_def)
  ultimately have b2: "block_reads_back C (flushed_block db2 ?k)" using b1 by (metis C_def)
  obtain db3 e3 where f3: "flushSeriesLocked C FlushOk db2 ?k = (db3, e3)" by fastforce
  have "ascending ?xs" "0 \<le>s sm_Timestamp (sample_ts 1 10)" by (simp_all add: ascending_def sample_ts_def word_sle_eq)
  from second_block_replaces_first [OF h(2,1) this(1) refl this(2) b1 f1 db2_def b2 f3] f1 f3 show ?thesis
    unfolding db2_def by blast
qed

end
