(* ===== verification/TsRecovery.thy ===== *)
theory TsRecovery
  imports TsProps
begin

text \<open>
  The write-ahead log of the time-series store: what opening the store after a crash finds.
\<close>

subsection \<open>The log and the samples in memory\<close>

definition wal_lines :: "ts_codec \<Rightarrow> walRecord list \<Rightarrow> byte list list" where
  "wal_lines C rs = map (\<lambda>r. the (tc_wal C r)) rs"

definition samples_of :: "str \<Rightarrow> walRecord list \<Rightarrow> sample list" where
  "samples_of k rs = map wr_Sample (filter (\<lambda>r. wr_Fingerprint r = k) rs)"

text \<open>The log holds the records \<open>rs\<close>.\<close>

definition log_holds :: "ts_codec \<Rightarrow> tsdb \<Rightarrow> walRecord list \<Rightarrow> bool" where
  "log_holds C db rs \<longleftrightarrow> (\<forall>r \<in> set rs. record_reads_back C r) \<and> db_wal db = lines_file (wal_lines C rs)"

lemma samples_of_simps [simp]:
  "samples_of k [] = []"
  "samples_of k (r # rs) = (if wr_Fingerprint r = k then [wr_Sample r] else []) @ samples_of k rs"
  "samples_of k (rs @ ss) = samples_of k rs @ samples_of k ss"
  by (simp_all add: samples_of_def)

lemma wal_lines_simps [simp]:
  "wal_lines C [] = []" "wal_lines C (r # rs) = the (tc_wal C r) # wal_lines C rs" "wal_lines C (rs @ ss) = wal_lines C rs @ wal_lines C ss"
  by (simp_all add: wal_lines_def)

definition sample_record :: "str \<Rightarrow> series \<Rightarrow> sample \<Rightarrow> walRecord" where
  "sample_record key s x = \<lparr>wr_Fingerprint = key, wr_Series = s, wr_Sample = x\<rparr>"

definition batch_records :: "pointBatch \<Rightarrow> walRecord list" where
  "batch_records batch = map (sample_record (fingerprint (pb_Series batch)) (pb_Series batch)) (pb_Samples batch)"

lemma samples_of_batch: "samples_of k (batch_records batch) = (if fingerprint (pb_Series batch) = k then pb_Samples batch else [])"
proof -
  have "samples_of k (map (sample_record key s) xs) = (if key = k then xs else [])" for key s xs
    by (induction xs) (simp_all add: sample_record_def)
  then show ?thesis by (simp add: batch_records_def)
qed

lemma write_samples_log:
  assumes "write_samples C io key s db xs = (db', True)"
  shows "db_wal db' = db_wal db @ lines_file (wal_lines C (map (sample_record key s) xs)) \<and>
    (\<forall>k. head_of db' k = (if k = key then head_of db key @ xs else head_of db k)) \<and> db_blocks db' = db_blocks db \<and>
    db_blockSize db' = db_blockSize db"
  using assms
proof (induction xs arbitrary: io db)
  case (Cons x xs)
  obtain line where line: "tc_wal C (sample_record key s x) = Some line" using Cons.prems by (auto simp: sample_record_def split: option.splits)
  let ?db = "db\<lparr>db_wal := db_wal db @ line @ [newline], db_head := AList.update key (head_of db key @ [x]) (db_head db)\<rparr>"
  have "write_samples C (wal_next io) key s ?db xs = (db', True)"
    using Cons.prems line by (auto simp: sample_record_def split: wal_io.splits nat.splits)
  from Cons.IH [OF this] line show ?case by (auto simp: head_of_def update_conv')
qed simp

subsection \<open>Opening\<close>

lemma load_files:
  assumes "\<forall>(name, bytes) \<in> set fs. file_ok C bytes"
  shows "\<exists>ss. foldr_err (load_file C) db fs = Inr (db\<lparr>db_series := ss\<rparr>)"
  using assms
proof (induction fs arbitrary: db)
  case Nil
  have "db = db\<lparr>db_series := db_series db\<rparr>" by simp
  then show ?case by (metis foldr_err.simps(1))
next
  case (Cons f fs)
  obtain name bytes where f: "f = (name, bytes)" by fastforce
  obtain b where b: "readBlock C bytes = Inr b" using Cons.prems f by (auto simp: file_ok_def)
  obtain ss where step: "load_file C db f = Inr (db\<lparr>db_series := ss\<rparr>)"
  proof (cases "HasSuffix name dot_block")
    case False
    then have "load_file C db f = Inr (db\<lparr>db_series := db_series db\<rparr>)" using f by (simp add: load_file_def)
    then show thesis by (rule that)
  qed (use f b that in \<open>simp add: load_file_def\<close>)
  from Cons.IH [of "db\<lparr>db_series := ss\<rparr>"] Cons.prems step show ?case by auto
qed

lemma replay_records:
  assumes "\<forall>r \<in> set rs. record_reads_back C r"
  shows "\<exists>db'. foldr_err (replay_sample C) db (wal_lines C rs) = Inr db' \<and> db_blocks db' = db_blocks db \<and> db_wal db' = db_wal db \<and>
    db_blockSize db' = db_blockSize db \<and> (\<forall>k. head_of db' k = head_of db k @ samples_of k rs)"
  using assms
proof (induction rs arbitrary: db)
  case Nil
  then show ?case by simp
next
  case (Cons r rs)
  obtain s where r: "tc_unwal C (the (tc_wal C r)) = Some (r\<lparr>wr_Series := s\<rparr>)" using Cons.prems by (auto simp: record_reads_back_def)
  let ?db = "db\<lparr>db_series := AList.update (wr_Fingerprint r) s (db_series db),
      db_head := AList.update (wr_Fingerprint r) (head_of db (wr_Fingerprint r) @ [wr_Sample r]) (db_head db)\<rparr>"
  have "head_of ?db k = (if k = wr_Fingerprint r then head_of db k @ [wr_Sample r] else head_of db k)" for k
    by (simp add: head_of_def update_conv')
  with Cons.IH [of ?db] Cons.prems r show ?case by (force simp: replay_sample_def)
qed

lemma wal_lines_ok:
  assumes "\<forall>r \<in> set rs. record_reads_back C r"
  shows "\<forall>l \<in> set (wal_lines C rs). line_ok l \<and> short MaxScanTokenSize l"
  using assms by (auto simp: wal_lines_def record_reads_back_def)

lemma open_after:
  assumes "log_holds C db rs" and "blocks_ok C (db_blocks db)"
  shows "\<exists>db'. OpenStore C bsize (db_wal db) (db_blocks db) = Inr db' \<and> db_blocks db' = db_blocks db \<and> db_wal db' = db_wal db \<and>
    db_blockSize db' = (if bsize \<le> 0 then 4096 else bsize) \<and> (\<forall>k. head_of db' k = samples_of k rs)"
proof -
  let ?db0 = "\<lparr>db_wal = db_wal db, db_blocks = db_blocks db, db_head = [], db_series = [], db_blockSize = (if bsize \<le> 0 then 4096 else bsize)\<rparr>"
  have ok: "\<forall>r \<in> set rs. record_reads_back C r" and wal: "db_wal db = lines_file (wal_lines C rs)"
    using assms(1) by (simp_all add: log_holds_def)
  have "\<forall>(name, bytes) \<in> set (ReadDir (db_blocks db)). file_ok C bytes"
    using assms(2) ReadDir_set by (auto simp: blocks_ok_def)
  then obtain ss where l: "loadBlockMetadata C ?db0 = Inr (?db0\<lparr>db_series := ss\<rparr>)"
    using load_files [of "ReadDir (db_blocks db)" C ?db0] by (auto simp: loadBlockMetadata_def)
  obtain db' where r: "foldr_err (replay_sample C) (?db0\<lparr>db_series := ss\<rparr>) (wal_lines C rs) = Inr db'" "db_blocks db' = db_blocks db"
    "db_wal db' = db_wal db" "db_blockSize db' = db_blockSize ?db0" "\<forall>k. head_of db' k = samples_of k rs"
    using replay_records [OF ok, of "?db0\<lparr>db_series := ss\<rparr>"] by (auto simp: head_of_def)
  have "replayWAL C (?db0\<lparr>db_series := ss\<rparr>) = Inr db'"
    using scan_loop_file [of "wal_lines C rs" MaxScanTokenSize "replay_sample C" ErrWalLine] wal_lines_ok [OF ok] wal r(1)
    by (simp add: replayWAL_def)
  then show ?thesis using l r by (simp add: OpenStore_def Let_def)
qed

subsection \<open>A store through writes, flushes and restarts\<close>

text \<open>
  Every operation of a store that succeeds: a batch is written, with the flush of its series when that fills a block, the whole store is flushed and
  its log emptied, old blocks are deleted, and the store is opened again on the files as they are, which is what a crash leaves.
  \<open>rs\<close> are the records written since the log was last emptied.
\<close>

definition series_of :: "tsdb \<Rightarrow> str \<Rightarrow> series" where
  "series_of db key = (case map_of (db_series db) key of None \<Rightarrow> zero_series | Some s \<Rightarrow> s)"

text \<open>The block of the samples in memory and \<open>xs\<close> reads back.\<close>

definition block_of :: "series \<Rightarrow> sample list \<Rightarrow> block" where
  "block_of s samples = \<lparr>bk_Version = 1, bk_Series = s, bk_Start = sm_Timestamp (hd (sort_samples samples)),
     bk_End = sm_Timestamp (last (sort_samples samples)), bk_Encoded = encodeSamples (sort_samples samples)\<rparr>"

definition block_ok :: "ts_codec \<Rightarrow> tsdb \<Rightarrow> str \<Rightarrow> series \<Rightarrow> sample list \<Rightarrow> bool" where
  "block_ok C db key s xs \<longleftrightarrow> length (head_of db key @ xs) \<le> 2 ^ 44 \<and> block_reads_back C (block_of s (head_of db key @ xs))"

lemma flushed_block_of: "flushed_block db key = block_of (series_of db key) (head_of db key)"
  by (simp add: flushed_block_def block_of_def series_of_def Let_def)

inductive store_runs :: "ts_codec \<Rightarrow> tsdb \<Rightarrow> walRecord list \<Rightarrow> bool" for C where
  fresh: "OpenStore C bsize [] [] = Inr db \<Longrightarrow> store_runs C db []"
| written: "store_runs C db rs \<Longrightarrow> Write C io fio db batch = (db', None) \<Longrightarrow> \<forall>r \<in> set (batch_records batch). record_reads_back C r \<Longrightarrow>
    (db_blockSize db \<le> int (length (head_of db (fingerprint (pb_Series batch)) @ pb_Samples batch)) \<longrightarrow>
      block_ok C db (fingerprint (pb_Series batch)) (pb_Series batch) (pb_Samples batch)) \<Longrightarrow> store_runs C db' (rs @ batch_records batch)"
| flushed: "store_runs C db rs \<Longrightarrow> mset (map fst order) = mset (map fst (db_head db)) \<Longrightarrow> Flush C order True db = (db', None) \<Longrightarrow>
    \<forall>k. block_ok C db k (series_of db k) [] \<Longrightarrow> store_runs C db' []"
| expired: "store_runs C db rs \<Longrightarrow> DeleteExpired C removes db cutoff = (db', n, e) \<Longrightarrow> store_runs C db' rs"
| restarted: "store_runs C db rs \<Longrightarrow> OpenStore C bsize (db_wal db) (db_blocks db) = Inr db' \<Longrightarrow> store_runs C db' rs"

lemma delete_subset: "set (AList.delete k xs) \<subseteq> set xs"
  by (auto simp: AList.delete_eq)

lemma blocks_ok_delete: "blocks_ok C dir \<Longrightarrow> blocks_ok C (AList.delete name dir)"
  using delete_subset [of name dir] by (force simp: blocks_ok_def distinct_delete)

lemma blocks_ok_update: "blocks_ok C dir \<Longrightarrow> file_ok C bytes \<Longrightarrow> blocks_ok C (AList.update name bytes dir)"
  using update_subset [of name bytes dir] by (force simp: blocks_ok_def distinct_update)

lemma flush_series_keeps:
  assumes "blocks_ok C (db_blocks db)" and "block_ok C db key (series_of db key) []"
    and "flushSeriesLocked C io db key = (db', None)"
  shows "db_wal db' = db_wal db \<and> blocks_ok C (db_blocks db') \<and> db_series db' = db_series db \<and>
    (\<forall>k. head_of db' k = (if k = key then [] else head_of db k))"
proof (cases "head_of db key = []")
  case True
  then show ?thesis using assms(1,3) by (auto simp: flushSeriesLocked_def)
next
  case False
  have "io = FlushOk" using False assms(3) by (auto simp: flushSeriesLocked_def Let_def split: flush_io.splits option.splits)
  then have db': "db' = db\<lparr>db_head := AList.delete key (AList.update key (sort_samples (head_of db key)) (db_head db)),
        db_blocks := AList.update (flushed_path db key) (tc_block C (flushed_block db key))
          (AList.delete (flushed_path db key @ dot_tmp) (db_blocks db))\<rparr>"
    using assms(3) flush_effect [OF False, of C] by simp
  have "file_ok C (tc_block C (flushed_block db key))" 
    using flushed_file [OF _ False] assms(2) by (simp add: block_ok_def flushed_block_of)
  then have "blocks_ok C (db_blocks db')" using db' blocks_ok_update blocks_ok_delete [OF assms(1)] by simp
  then show ?thesis using db' by (simp add: head_of_simps)
qed

lemma flush_all_keeps:
  assumes "blocks_ok C (db_blocks db)" and "\<forall>k. head_of db k = [] \<or> block_ok C db k (series_of db k) []"
    and "flush_all C order db = (db', None)"
  shows "db_wal db' = db_wal db \<and> blocks_ok C (db_blocks db')"
  using assms
proof (induction order arbitrary: db)
  case (Cons f order)
  obtain key io where f: "f = (key, io)" by fastforce
  obtain db1 where db1: "flushSeriesLocked C io db key = (db1, None)" "flush_all C order db1 = (db', None)"
    using Cons.prems(3) f by (auto split: prod.splits option.splits)
  have k: "db_wal db1 = db_wal db" "blocks_ok C (db_blocks db1)" "db_series db1 = db_series db"
    "\<forall>k. head_of db1 k = (if k = key then [] else head_of db k)"
  proof -
    consider "head_of db key = []" | "block_ok C db key (series_of db key) []" using Cons.prems(2) by blast
    then have "db_wal db1 = db_wal db \<and> blocks_ok C (db_blocks db1) \<and> db_series db1 = db_series db \<and>
        (\<forall>k. head_of db1 k = (if k = key then [] else head_of db k))"
    proof cases
      case 1
      then show ?thesis using db1(1) Cons.prems(1) by (auto simp: flushSeriesLocked_def)
    next
      case 2
      then show ?thesis by (rule flush_series_keeps [OF Cons.prems(1) _ db1(1)])
    qed
    then show "db_wal db1 = db_wal db" "blocks_ok C (db_blocks db1)" "db_series db1 = db_series db"
      "\<forall>k. head_of db1 k = (if k = key then [] else head_of db k)" by blast+
  qed
  have "\<forall>k. head_of db1 k = [] \<or> block_ok C db1 k (series_of db1 k) []" using k(3,4) Cons.prems(2) by (simp add: block_ok_def series_of_def)
  then show ?case using Cons.IH [OF k(2) _ db1(2)] k(1) by simp
qed simp

lemma delete_files_keeps:
  assumes "blocks_ok C (db_blocks db)" and "delete_files C removes cutoff fs db n = (db', n', e)"
  shows "db_wal db' = db_wal db \<and> blocks_ok C (db_blocks db')"
  using assms
proof (induction C removes cutoff fs db n rule: delete_files.induct)
  case (2 C removes cutoff name bytes rest db deleted)
  show ?case
  proof (cases "HasSuffix name dot_block \<and> (\<exists>b. readBlock C bytes = Inr b \<and> bk_End b <s cutoff \<and> removes name)")
    case True
    then show ?thesis using 2 blocks_ok_delete [OF 2(4), of name] by auto
  next
    case False
    then show ?thesis using 2 by (auto split: sum.splits if_splits)
  qed
qed simp

lemma write_keeps:
  assumes "log_holds C db rs" and "blocks_ok C (db_blocks db)" 
    and "Write C io fio db batch = (db', None)" and "\<forall>r \<in> set (batch_records batch). record_reads_back C r"
    and "db_blockSize db \<le> int (length (head_of db (fingerprint (pb_Series batch)) @ pb_Samples batch)) \<longrightarrow>
      block_ok C db (fingerprint (pb_Series batch)) (pb_Series batch) (pb_Samples batch)"
  shows "log_holds C db' (rs @ batch_records batch) \<and> blocks_ok C (db_blocks db')"
proof -
  let ?key = "fingerprint (pb_Series batch)"
  obtain db1 b where w0: "write_samples C io ?key (pb_Series batch) db (pb_Samples batch) = (db1, b)" by fastforce
  have b
  proof (rule ccontr)
    assume "\<not> b"
    with w0 have "snd (Write C io fio db batch) \<noteq> None" by (simp add: Write_def Let_def)
    then show False using assms(3) by simp
  qed
  then have w: "write_samples C io ?key (pb_Series batch) db (pb_Samples batch) = (db1, True)" using w0 by simp
  note log = write_samples_log [OF w]
  let ?db = "db1\<lparr>db_series := AList.update ?key (pb_Series batch) (db_series db1)\<rparr>"
  have named: "\<not> blank (sr_Name (pb_Series batch))" using assms(3) by (auto simp: Write_def)
  then have "io \<noteq> SyncFails" using assms(3) w by (auto simp: Write_def Let_def)
  with named have "Write C io fio db batch = (if int (length (head_of ?db ?key)) \<ge> db_blockSize ?db then flushSeriesLocked C fio ?db ?key else (?db, None))"
    by (simp add: Write_def w Let_def)
  then consider "db' = ?db" | "flushSeriesLocked C fio ?db ?key = (db', None)" "db_blockSize ?db \<le> int (length (head_of ?db ?key))"
    using assms(3) by (metis prod.inject)
  then have "db_wal db' = db_wal db1 \<and> blocks_ok C (db_blocks db')"
  proof cases
    case 1
    then show ?thesis using log assms(2) by simp
  next
    case 2
    have "block_ok C ?db ?key (series_of ?db ?key) []"
      using log assms(5) 2(2) by (simp add: block_ok_def head_of_simps series_of_def update_conv')
    with 2(1) log assms(2) show ?thesis using flush_series_keeps [of C ?db ?key fio db'] by auto
  qed
  then show ?thesis using assms(1,4) log by (auto simp: log_holds_def batch_records_def)
qed

lemma store_keeps_log:
  assumes "store_runs C db rs"
  shows "log_holds C db rs \<and> blocks_ok C (db_blocks db)"
  using assms
proof (induction rule: store_runs.induct)
  case (fresh bsize db)
  have "\<exists>db'. OpenStore C bsize [] [] = Inr db' \<and> db_blocks db' = [] \<and> db_wal db' = []"
    using open_after [of C "\<lparr>db_wal = [], db_blocks = [], db_head = [], db_series = [], db_blockSize = 0\<rparr>" "[]" bsize]
    by (auto simp: log_holds_def blocks_ok_def)
  then show ?case using fresh by (auto simp: log_holds_def blocks_ok_def)
next
  case (written db rs io fio batch db')
  then show ?case using write_keeps by blast
next
  case (flushed db rs order db')
  obtain db1 where f: "flush_all C order db = (db1, None)" "db' = db1\<lparr>db_wal := []\<rparr>"
    using flushed.hyps(3) by (auto simp: Flush_def split: prod.splits option.splits)
  then show ?case using flush_all_keeps [OF _ _ f(1)] flushed by (simp add: log_holds_def)
next
  case (expired db rs removes cutoff db' n e)
  then show ?case using delete_files_keeps by (fastforce simp: DeleteExpired_def log_holds_def)
next
  case (restarted db rs bsize db')
  then show ?case using open_after [of C db rs bsize] by (auto simp: log_holds_def)
qed

text \<open>
  C31: what a store acknowledged is found after a crash. Take any history of successful operations: batches written, also those that fill a block and
  are flushed on the way, flushes of the whole store, deletions of old blocks, restarts. Opening the store on the files it leaves succeeds, and a
  query then answers for its window what the blocks hold, with the records written since the log was last emptied over them: for a timestamp of
  these, the value written last. A query for a series whose samples in memory are those of the log, because it was not flushed since,
  answers what the running store would have answered. The records must be JSON lines of less than 64 KiB that read back, which the code does not
  check, blocks must read back and hold at most \<open>2 ^ 44\<close> samples. A write that failed is no part of the history; \<open>torn_record_blocks_open\<close> is one.
\<close>

theorem acknowledged_samples_survive_crash:
  assumes "store_runs C db rs"
  shows "\<exists>db'. OpenStore C bsize (db_wal db) (db_blocks db) = Inr db' \<and> store_runs C db' rs \<and>
    (\<forall>s start end_time. \<exists>ys. Query C db' s start end_time = Inr ys \<and> ascending ys \<and>
      value_at ys = (value_at (key_samples C (fingerprint s) (ReadDir (db_blocks db))) ++ value_at (samples_of (fingerprint s) rs)) |`
        {t. in_window start end_time t}) \<and>
    (\<forall>s start end_time. head_of db (fingerprint s) = samples_of (fingerprint s) rs \<longrightarrow>
      Query C db' s start end_time = Query C db s start end_time)"
proof -
  note keeps = store_keeps_log [OF assms]
  obtain db' where o: "OpenStore C bsize (db_wal db) (db_blocks db) = Inr db'" "db_blocks db' = db_blocks db"
    "\<forall>k. head_of db' k = samples_of k rs"
    using open_after keeps by blast
  have "all_samples C db' k = key_samples C k (ReadDir (db_blocks db)) @ samples_of k rs" for k
    using o(2,3) by (simp add: all_samples_def)
  then have "\<exists>ys. Query C db' s start end_time = Inr ys \<and> ascending ys \<and>
      value_at ys = (value_at (key_samples C (fingerprint s) (ReadDir (db_blocks db))) ++ value_at (samples_of (fingerprint s) rs)) |`
        {t. in_window start end_time t}" for s start end_time
    using query_reference [of C db' s start end_time] keeps o(2) latest_spec
      value_at_window [of "in_window start end_time" "all_samples C db' (fingerprint s)"] by (simp del: filter_append)
  moreover have "Query C db' s start end_time = Query C db s start end_time"
    if "head_of db (fingerprint s) = samples_of (fingerprint s) rs" for s start end_time
    using that o(2,3) by (simp add: Query_def)
  ultimately show ?thesis using o(1) store_runs.restarted [OF assms o(1)] by blast
qed

definition one_record_codec :: ts_codec where
  "one_record_codec = \<lparr>tc_wal = (\<lambda>_. Some [1, 2]),
     tc_unwal = (\<lambda>bs. if bs = [1, 2] then Some (sample_record (fingerprint sample_series) sample_series (sample_ts 7 70)) else None),
     tc_block = (\<lambda>_. []), tc_unblock = (\<lambda>_. None)\<rparr>"

definition sample_batch :: pointBatch where
  "sample_batch = \<lparr>pb_Series = sample_series, pb_Samples = [sample_ts 7 70]\<rparr>"

definition empty_db :: tsdb where
  "empty_db = \<lparr>db_wal = [], db_blocks = [], db_head = [], db_series = [], db_blockSize = 4096\<rparr>"

lemma empty_db_facts: "log_holds C empty_db []" "blocks_ok C (db_blocks empty_db)" "\<not> blank (sr_Name sample_series)"
  "line_ok [1, 2]" "short MaxScanTokenSize [1, 2]"
  by (simp_all add: log_holds_def empty_db_def blocks_ok_def blank_def TrimSpace_def is_space_def sample_series_def line_ok_def newline_def
    short_def MaxScanTokenSize_def)

text \<open>A store whose blocks hold one sample; after a restart with larger blocks a second value of the timestamp is written.\<close>

definition late_batch :: pointBatch where
  "late_batch = \<lparr>pb_Series = sample_series, pb_Samples = [sample_ts 7 71]\<rparr>"

definition two_line_codec :: ts_codec where
  "two_line_codec = \<lparr>tc_wal = (\<lambda>r. Some (if sm_Value (wr_Sample r) = 70 then [1] else [2])),
     tc_unwal = (\<lambda>bs. Some (sample_record (fingerprint sample_series) sample_series (sample_ts 7 (if bs = [1] then 70 else 71)))),
     tc_block = (\<lambda>_. []), tc_unblock = (\<lambda>_. Some (block_of sample_series [sample_ts 7 70]))\<rparr>"

lemma two_lines: "\<forall>r \<in> set (batch_records sample_batch) \<union> set (batch_records late_batch). record_reads_back two_line_codec r"
  by (auto simp: batch_records_def sample_batch_def late_batch_def two_line_codec_def sample_record_def sample_ts_def line_ok_def newline_def
    short_def MaxScanTokenSize_def intro!: reads_back_exactly)

theorem acknowledged_samples_survive_crash_witness:
  "\<exists>db0 db1 db2 db3 db4 ys. OpenStore two_line_codec 1 [] [] = Inr db0 \<and> Write two_line_codec WalOk FlushOk db0 sample_batch = (db1, None) \<and>
     length (db_blocks db1) = 1 \<and> OpenStore two_line_codec 0 (db_wal db1) (db_blocks db1) = Inr db2 \<and>
     Write two_line_codec WalOk FlushOk db2 late_batch = (db3, None) \<and> OpenStore two_line_codec 0 (db_wal db3) (db_blocks db3) = Inr db4 \<and>
     Query two_line_codec db4 sample_series 0 0 = Inr ys \<and> value_at ys 7 = Some 71"
proof -
  let ?C = two_line_codec and ?k = "fingerprint sample_series"
  define db0 where "db0 = empty_db\<lparr>db_blockSize := 1\<rparr>"
  have o0: "OpenStore ?C 1 [] [] = Inr db0"
    by (simp add: OpenStore_def loadBlockMetadata_def ReadDir_def replayWAL_def scan_loop_def db0_def empty_db_def)
  note records = two_lines [unfolded ball_Un]
  define db1 where "db1 = \<lparr>db_wal = [1, newline], db_blocks = [(block_path ?k 7 7, [])], db_head = [], db_series = [(?k, sample_series)], db_blockSize = 1\<rparr>"
  have w1: "Write ?C WalOk FlushOk db0 sample_batch = (db1, None)"
    using empty_db_facts(3) by (simp add: Write_def sample_batch_def db0_def db1_def empty_db_def two_line_codec_def sample_ts_def head_of_def
      flushSeriesLocked_def sort_samples_def Let_def wal_next_def)
  have "block_ok ?C db0 ?k sample_series [sample_ts 7 70]"
    by (simp add: block_ok_def db0_def empty_db_def head_of_def two_line_codec_def reads_back_exactly)
  then have r1: "store_runs ?C db1 (batch_records sample_batch)"
    using store_runs.written [OF store_runs.fresh [OF o0] w1 conjunct1 [OF records]] by (simp add: sample_batch_def)
  have k: "fingerprint (pb_Series sample_batch) = ?k" "fingerprint (pb_Series late_batch) = ?k" "pb_Samples late_batch = [sample_ts 7 71]"
    "\<not> blank (sr_Name (pb_Series late_batch))"
    using empty_db_facts(3) by (simp_all add: sample_batch_def late_batch_def)
  note keeps1 = store_keeps_log [OF r1]
  obtain db2 where o2: "OpenStore ?C 0 (db_wal db1) (db_blocks db1) = Inr db2" "db_blockSize db2 = 4096"
    "\<forall>k. head_of db2 k = samples_of k (batch_records sample_batch)"
    using open_after [OF conjunct1 [OF keeps1] conjunct2 [OF keeps1], of 0] by auto
  have h2: "length (head_of db2 ?k) = 1" using o2(3) by (simp add: samples_of_batch k) (simp add: sample_batch_def)
  obtain db3 e where w3: "Write ?C WalOk FlushOk db2 late_batch = (db3, e)" by fastforce
  obtain db' where "write_samples ?C WalOk ?k (pb_Series late_batch) db2 (pb_Samples late_batch) = (db', True)"
    by (simp add: k two_line_codec_def)
  then have "e = None" using w3 h2 o2(2) write_samples_log [of ?C WalOk ?k "pb_Series late_batch" db2 "pb_Samples late_batch" db'] k
    by (auto simp: Write_def Let_def head_of_simps)
  then have w3': "Write ?C WalOk FlushOk db2 late_batch = (db3, None)" using w3 by simp
  have r3: "store_runs ?C db3 (batch_records sample_batch @ batch_records late_batch)"
    using store_runs.written [OF store_runs.restarted [OF r1 o2(1)] w3' conjunct2 [OF records]] h2 o2(2) k by simp
  from acknowledged_samples_survive_crash [OF r3, of 0] obtain db4 ys where o4: "OpenStore ?C 0 (db_wal db3) (db_blocks db3) = Inr db4"
    "Query ?C db4 sample_series 0 0 = Inr ys"
    "value_at ys = (value_at (key_samples ?C ?k (ReadDir (db_blocks db3))) ++ value_at (samples_of ?k (batch_records sample_batch @ batch_records late_batch))) |`
        {t. in_window 0 0 t}" by blast
  have "value_at (samples_of ?k (batch_records sample_batch @ batch_records late_batch)) 7 = Some 71"
    by (simp add: samples_of_batch k value_at_cons) (simp add: value_at_def sample_ts_def)
  moreover have "in_window 0 0 7" by (simp add: in_window_def word_sless_alt)
  ultimately have "value_at ys 7 = Some 71" using o4(3) by (simp del: samples_of_simps add: map_add_Some_iff)
  moreover have "length (db_blocks db1) = 1" by (simp add: db1_def)
  ultimately show ?thesis using o0 w1 o2(1) w3' o4(1,2) by blast
qed

text \<open>
  a crash in the middle of a record keeps the store from opening: the log then ends with part of a line, which is no record, and the
  error of the decoder is returned instead of dropping the unacknowledged tail.
\<close>

theorem torn_record_blocks_open:
  assumes "log_holds C db rs" and "blocks_ok C (db_blocks db)" and "\<not> blank (sr_Name (pb_Series batch))"
    and "pb_Samples batch = [x]" and "tc_wal C (sample_record (fingerprint (pb_Series batch)) (pb_Series batch) x) = Some line"
    and "line_ok line" and "0 < k" and "k < length line" and "k < MaxScanTokenSize" and "tc_unwal C (dropCR (take k line)) = None"
    and "Write C (WalFails 0 k) fio db batch = (db', e)"
  shows "e = Some ErrStoreFile \<and> OpenStore C bsize (db_wal db') (db_blocks db') = Inl ErrWalRecord"
proof -
  let ?db0 = "\<lparr>db_wal = db_wal db', db_blocks = db_blocks db', db_head = [], db_series = [], db_blockSize = (if bsize \<le> 0 then 4096 else bsize)\<rparr>"
  have db': "db' = db\<lparr>db_wal := db_wal db @ take k line\<rparr>" "e = Some ErrStoreFile"
    using assms(3,4,5,8,11) by (simp_all add: Write_def Let_def sample_record_def)
  have ok: "\<forall>r \<in> set rs. record_reads_back C r" and wal: "db_wal db' = lines_file (wal_lines C rs) @ take k line"
    using assms(1) db'(1) by (simp_all add: log_holds_def)
  have "\<forall>(name, bytes) \<in> set (ReadDir (db_blocks db')). file_ok C bytes"
    using assms(2) ReadDir_set db'(1) by (auto simp: blocks_ok_def)
  then obtain ss where l: "loadBlockMetadata C ?db0 = Inr (?db0\<lparr>db_series := ss\<rparr>)"
    using load_files [of "ReadDir (db_blocks db')" C ?db0] by (auto simp: loadBlockMetadata_def)
  have torn: "newline \<notin> set (take k line)" "take k line \<noteq> []" "short MaxScanTokenSize (take k line)"
    using assms(6-9) by (auto simp: line_ok_def short_def dest: in_set_takeD)
  have ls: "\<forall>l \<in> set (wal_lines C rs). line_ok l" "\<forall>l \<in> set (wal_lines C rs). short MaxScanTokenSize l" using wal_lines_ok [OF ok] by simp_all
  have "scan_lines MaxScanTokenSize (db_wal db') = (wal_lines C rs @ [dropCR (take k line)], True)"
    using scan_file [OF ls(1), where rest = "take k line"] ls(2) scan_torn [OF torn] wal by simp
  moreover obtain d where "foldr_err (replay_sample C) (?db0\<lparr>db_series := ss\<rparr>) (wal_lines C rs) = Inr d"
    using replay_records [OF ok] by blast
  ultimately have "replayWAL C (?db0\<lparr>db_series := ss\<rparr>) = Inl ErrWalRecord"
    using assms(10) by (simp add: replayWAL_def scan_loop_def foldr_err_append replay_sample_def)
  then show ?thesis using l db'(2) by (simp add: OpenStore_def Let_def)
qed

theorem torn_record_blocks_open_witness:
  "\<exists>db'. Write one_record_codec (WalFails 0 1) FlushOk empty_db sample_batch = (db', Some ErrStoreFile) \<and>
     OpenStore one_record_codec 0 (db_wal db') (db_blocks db') = Inl ErrWalRecord"
proof -
  obtain db' e where w: "Write one_record_codec (WalFails 0 1) FlushOk empty_db sample_batch = (db', e)" by fastforce
  have n: "\<not> blank (sr_Name (pb_Series sample_batch))" "pb_Samples sample_batch = [sample_ts 7 70]"
    "tc_wal one_record_codec (sample_record (fingerprint (pb_Series sample_batch)) (pb_Series sample_batch) (sample_ts 7 70)) = Some [1, 2]"
    "tc_unwal one_record_codec (dropCR (take 1 [1, 2])) = None" "1 < MaxScanTokenSize"
    using empty_db_facts(3) by (simp_all add: sample_batch_def one_record_codec_def dropCR_def MaxScanTokenSize_def)
  from torn_record_blocks_open [OF empty_db_facts(1,2) n(1-3) empty_db_facts(4) _ _ n(5,4) w, of 0] w show ?thesis by simp
qed

end
