(* ===== verification/GoFloat.thy ===== *)
theory GoFloat
  imports Complex_Main Prelude
begin

text \<open>
  Go's \<^verbatim>\<open>float64\<close> as the search index uses it: a real number, and after every operation rounding to the nearest number with a
  significand of 53 bits, ties to even. The range of exponents is not bounded: the numbers the index computes with lie between
  \<open>2 ^ -100\<close> and \<open>2 ^ 100\<close>, far from the smallest and the largest \<^verbatim>\<open>float64\<close>. The relation \<open>near\<close> accounts for
  rounding errors: \<open>near k x y\<close> says that two numbers differ by no more than \<open>k\<close> roundings.
\<close>

subsection \<open>Rounding\<close>

definition round_even :: "real \<Rightarrow> int" where
  "round_even y =
     (let f = \<lfloor>y\<rfloor>; r = y - of_int f in if r < 1 / 2 \<or> (r = 1 / 2 \<and> even f) then f else f + 1)"

definition exponent_of :: "real \<Rightarrow> int" where "exponent_of x = \<lfloor>log 2 \<bar>x\<bar>\<rfloor> - 52"

definition round64 :: "real \<Rightarrow> real" where
  "round64 x =
     (if x = 0 then 0
      else let e = exponent_of x in of_int (round_even (x / 2 powr of_int e)) * 2 powr of_int e)"

definition fadd :: "real \<Rightarrow> real \<Rightarrow> real" where "fadd x y = round64 (x + y)"

definition fsub :: "real \<Rightarrow> real \<Rightarrow> real" where "fsub x y = round64 (x - y)"

definition fmul :: "real \<Rightarrow> real \<Rightarrow> real" where "fmul x y = round64 (x * y)"

definition fdiv :: "real \<Rightarrow> real \<Rightarrow> real" where "fdiv x y = round64 (x / y)"

text \<open>\<^verbatim>\<open>float64(x)\<close> of a \<^verbatim>\<open>uint32\<close> is exact.\<close>

definition of_uint32 :: "32 word \<Rightarrow> real" where "of_uint32 w = real (unat w)"

lemma of_uint32_nonneg [simp]: "0 \<le> of_uint32 w"
  unfolding of_uint32_def by (rule of_nat_0_le_iff)

lemma of_uint32_mono: "v \<le> w \<Longrightarrow> of_uint32 v \<le> of_uint32 w"
  unfolding of_uint32_def by (rule of_nat_mono) (simp add: word_le_nat_alt)

lemma round_even_error: "\<bar>of_int (round_even y) - y\<bar> \<le> 1 / 2"
proof -
  have "of_int \<lfloor>y\<rfloor> \<le> y" "y < of_int \<lfloor>y\<rfloor> + 1" by linarith+
  then show ?thesis by (auto simp: round_even_def Let_def)
qed

lemma round64_error: "\<bar>round64 x - x\<bar> \<le> \<bar>x\<bar> / 2 ^ 53"
proof (cases "x = 0")
  case False
  let ?e = "exponent_of x"
  let ?p = "2 powr of_int ?e :: real"
  have p: "?p > 0" by simp
  have "of_int \<lfloor>log 2 \<bar>x\<bar>\<rfloor> \<le> log 2 \<bar>x\<bar>" by linarith
  then have "2 powr of_int \<lfloor>log 2 \<bar>x\<bar>\<rfloor> \<le> \<bar>x\<bar>" using False by (subst powr_le_iff) auto
  moreover have "2 powr of_int \<lfloor>log 2 \<bar>x\<bar>\<rfloor> = ?p * 2 ^ 52"
    by (simp add: exponent_of_def powr_diff)
  ultimately have big: "?p * 2 ^ 52 \<le> \<bar>x\<bar>" by simp
  have "round64 x - x = (of_int (round_even (x / ?p)) - x / ?p) * ?p"
    using False p by (simp add: round64_def Let_def algebra_simps)
  then have "\<bar>round64 x - x\<bar> = \<bar>of_int (round_even (x / ?p)) - x / ?p\<bar> * ?p"
    using p by (simp add: abs_mult)
  also have "\<dots> \<le> 1 / 2 * ?p" using round_even_error p by (intro mult_right_mono) auto
  also have "\<dots> \<le> \<bar>x\<bar> / 2 ^ 53" using big by (simp add: field_simps)
  finally show ?thesis .
qed (simp add: round64_def)

subsection \<open>Nearness\<close>

definition ulp :: real where "ulp = 1 / 2 ^ 52"

definition near :: "nat \<Rightarrow> real \<Rightarrow> real \<Rightarrow> bool" where
  "near k x y \<longleftrightarrow> 0 \<le> x \<and> 0 \<le> y \<and> x \<le> y * (1 + ulp) ^ k \<and> y \<le> x * (1 + ulp) ^ k"

named_theorems nearness \<open>how roundings add up\<close>

lemma ulp_pos [simp]: "0 < ulp" "0 \<le> ulp" "0 < 1 + ulp" "0 \<le> 1 + ulp" "1 \<le> 1 + ulp"
  by (simp_all add: ulp_def)

lemma near_refl [simp]: "0 \<le> x \<Longrightarrow> near k x x"
  by (auto simp: near_def mult_le_cancel_left1 one_le_power)

lemma near_sym: "near k x y \<Longrightarrow> near k y x"
  by (simp add: near_def)

lemma near_nonneg: "near k x y \<Longrightarrow> 0 \<le> x" "near k x y \<Longrightarrow> 0 \<le> y"
  by (simp_all add: near_def)

lemma near_trans [nearness]:
  assumes "near j x y" "near k y z"
  shows "near (j + k) x z"
proof -
  let ?u = "1 + ulp"
  have "x \<le> y * ?u ^ j" "y \<le> z * ?u ^ k" "z \<le> y * ?u ^ k" "y \<le> x * ?u ^ j" using assms by (auto simp: near_def)
  then have "x \<le> (z * ?u ^ k) * ?u ^ j" "z \<le> (x * ?u ^ j) * ?u ^ k"
    by (meson order_trans mult_right_mono zero_le_power ulp_pos)+
  then show ?thesis using assms by (simp add: near_def power_add ac_simps)
qed

lemma near_mono: assumes "near j x y" "j \<le> k" shows "near k x y"
proof -
  have "(1 + ulp) ^ j \<le> (1 + ulp) ^ k" using assms(2) by (intro power_increasing) auto
  then have "x * (1 + ulp) ^ j \<le> x * (1 + ulp) ^ k" "y * (1 + ulp) ^ j \<le> y * (1 + ulp) ^ k"
    using assms(1) by (auto simp: near_def intro: mult_left_mono)
  then show ?thesis using assms(1) by (auto simp: near_def)
qed

lemma near_add [nearness]:
  assumes "near k a b" "near k x y"
  shows "near k (a + x) (b + y)"
  using assms by (auto simp: near_def distrib_right)

lemma near_mult [nearness]:
  assumes "near j a b" "near k x y"
  shows "near (j + k) (a * x) (b * y)"
proof -
  have "a * x \<le> (b * (1 + ulp) ^ j) * (y * (1 + ulp) ^ k)" "b * y \<le> (a * (1 + ulp) ^ j) * (x * (1 + ulp) ^ k)"
    using assms by (auto simp: near_def intro!: mult_mono)
  then show ?thesis using assms by (auto simp: near_def power_add ac_simps)
qed

lemma near_inverse:
  assumes "near k x y"
  shows "near k (1 / x) (1 / y)"
proof (cases "x = 0 \<or> y = 0")
  case True
  then have "x = 0" "y = 0" using assms by (auto simp: near_def)
  then show ?thesis by (simp add: near_def)
next
  case False
  then have "0 < x" "0 < y" using assms by (auto simp: near_def)
  then show ?thesis using assms by (simp add: near_def field_simps)
qed

lemma near_divide [nearness]: "near j a b \<Longrightarrow> near k x y \<Longrightarrow> near (j + k) (a / x) (b / y)"
  using near_mult [OF _ near_inverse, of j a b k x y] by simp

lemma round64_near [nearness]:
  assumes "0 \<le> x"
  shows "near 1 x (round64 x)"
proof -
  have e: "\<bar>round64 x - x\<bar> \<le> x / 2 ^ 53" using round64_error [of x] assms by simp
  then have b: "round64 x \<le> x + x / 2 ^ 53" "x - x / 2 ^ 53 \<le> round64 x" by linarith+
  have "x + x / 2 ^ 53 \<le> x * (1 + ulp)" using assms by (simp add: ulp_def algebra_simps)
  with b have "round64 x \<le> x * (1 + ulp)" by linarith
  moreover have lower: "x * (1 - 1 / 2 ^ 53) \<le> round64 x" using b by (simp add: algebra_simps)
  moreover have "x \<le> (x * (1 - 1 / 2 ^ 53)) * (1 + ulp)"
    using assms by (simp add: ulp_def field_simps)
  ultimately have "x \<le> round64 x * (1 + ulp)"
    by (meson order_trans mult_right_mono ulp_pos(4))
  moreover have "0 \<le> round64 x" using lower assms by (auto intro: order_trans [rotated])
  ultimately show ?thesis using assms \<open>round64 x \<le> x * (1 + ulp)\<close> by (simp add: near_def)
qed

lemma round64_step:
  assumes "near k x y"
  shows "near (Suc k) x (round64 y)"
  using near_trans [OF assms round64_near [OF near_nonneg(2) [OF assms]]] by simp

lemma fadd_near: "near k a b \<Longrightarrow> near k x y \<Longrightarrow> near (Suc k) (a + x) (fadd b y)"
  unfolding fadd_def by (intro round64_step near_add)

lemma fmul_near: "near j a b \<Longrightarrow> near k x y \<Longrightarrow> near (Suc (j + k)) (a * x) (fmul b y)"
  unfolding fmul_def by (intro round64_step near_mult)

lemma fdiv_near: "near j a b \<Longrightarrow> near k x y \<Longrightarrow> near (Suc (j + k)) (a / x) (fdiv b y)"
  unfolding fdiv_def by (intro round64_step near_divide)

lemma round64_nonneg [simp]: "0 \<le> x \<Longrightarrow> 0 \<le> round64 x"
  using near_nonneg(2) [OF round64_near] .

lemma near_le: "near k x y \<Longrightarrow> x \<le> y * (1 + ulp) ^ k"
  by (simp add: near_def)

lemma round_even_ge:
  assumes "of_int k \<le> y"
  shows "k \<le> round_even y"
proof -
  have "k \<le> \<lfloor>y\<rfloor>" using assms by (simp add: le_floor_iff)
  then show ?thesis by (simp add: round_even_def Let_def)
qed

lemma round_even_le:
  assumes "y \<le> of_int k"
  shows "round_even y \<le> k"
proof (cases "y = of_int k")
  case False
  then have "\<lfloor>y\<rfloor> < k" using assms by (simp add: floor_less_iff)
  then show ?thesis by (simp add: round_even_def Let_def)
qed (simp add: round_even_def)

lemma round_even_mono:
  assumes "x \<le> y"
  shows "round_even x \<le> round_even y"
proof (cases "\<lfloor>x\<rfloor> = \<lfloor>y\<rfloor>")
  case True
  then have "x - of_int \<lfloor>x\<rfloor> \<le> y - of_int \<lfloor>y\<rfloor>" using assms by simp
  then show ?thesis using True by (auto simp: round_even_def Let_def)
next
  case False
  then have "\<lfloor>x\<rfloor> + 1 \<le> \<lfloor>y\<rfloor>" using floor_mono [OF assms] by linarith
  moreover have "round_even x \<le> \<lfloor>x\<rfloor> + 1" "\<lfloor>y\<rfloor> \<le> round_even y" by (simp_all add: round_even_def Let_def)
  ultimately show ?thesis by linarith
qed

text \<open>A number between two powers of two stays between them.\<close>

lemma exponent_bounds:
  assumes "0 < x"
  shows "2 powr of_int (exponent_of x + 52) \<le> x" and "x < 2 powr of_int (exponent_of x + 53)"
proof -
  have "of_int \<lfloor>log 2 x\<rfloor> \<le> log 2 x" "log 2 x < of_int \<lfloor>log 2 x\<rfloor> + 1" by linarith+
  then show "2 powr of_int (exponent_of x + 52) \<le> x" "x < 2 powr of_int (exponent_of x + 53)"
    using assms by (simp_all add: exponent_of_def powr_le_iff less_powr_iff add.commute)
qed

lemma scaled_bounds:
  assumes "0 < x"
  defines "p \<equiv> 2 powr of_int (exponent_of x)"
  shows "of_int (2 ^ 52) \<le> x / p" and "x / p \<le> of_int (2 ^ 53)" and "0 < p" and "round64 x = of_int (round_even (x / p)) * p"
proof -
  have p: "0 < p" by (simp add: p_def)
  have "2 powr of_int (exponent_of x + 52) = of_int (2 ^ 52) * p" "2 powr of_int (exponent_of x + 53) = of_int (2 ^ 53) * p"
    by (simp_all add: p_def powr_add)
  with exponent_bounds [OF assms(1)] p show "of_int (2 ^ 52) \<le> x / p" "x / p \<le> of_int (2 ^ 53)"
    by (simp_all add: pos_le_divide_eq pos_divide_le_eq)
  show "0 < p" by (rule p)
  show "round64 x = of_int (round_even (x / p)) * p" using assms(1) by (simp add: round64_def Let_def p_def)
qed

lemma round64_between:
  assumes "0 < x"
  shows "2 powr of_int (exponent_of x + 52) \<le> round64 x" and "round64 x \<le> 2 powr of_int (exponent_of x + 53)"
proof -
  let ?p = "2 powr of_int (exponent_of x) :: real"
  note b = scaled_bounds [OF assms]
  have "of_int (2 ^ 52) \<le> (of_int (round_even (x / ?p)) :: real)" "(of_int (round_even (x / ?p)) :: real) \<le> of_int (2 ^ 53)"
    using round_even_ge [OF b(1)] round_even_le [OF b(2)] by linarith+
  then have "of_int (2 ^ 52) * ?p \<le> round64 x" "round64 x \<le> of_int (2 ^ 53) * ?p"
    unfolding b(4) using b(3) by (simp_all add: mult_right_mono)
  then show "2 powr of_int (exponent_of x + 52) \<le> round64 x" "round64 x \<le> 2 powr of_int (exponent_of x + 53)"
    by (simp_all add: powr_add)
qed

lemma round64_mono_pos:
  assumes "0 < x" "x \<le> y"
  shows "round64 x \<le> round64 y"
proof (cases "exponent_of x = exponent_of y")
  case True
  let ?p = "2 powr of_int (exponent_of x) :: real"
  have "x / ?p \<le> y / ?p" using assms by (intro divide_right_mono) auto
  then have "round_even (x / ?p) \<le> round_even (y / ?p)" by (rule round_even_mono)
  then have "of_int (round_even (x / ?p)) * ?p \<le> of_int (round_even (y / ?p)) * ?p" by (intro mult_right_mono) auto
  then show ?thesis using scaled_bounds(4) [of x] scaled_bounds(4) [of y] assms True by simp
next
  case False
  have "log 2 x \<le> log 2 y" using assms by simp
  then have "exponent_of x \<le> exponent_of y" using assms by (auto simp: exponent_of_def intro: floor_mono)
  then have "of_int (exponent_of x + 53) \<le> (of_int (exponent_of y + 52) :: real)" using False by linarith
  then have "(2 :: real) powr of_int (exponent_of x + 53) \<le> 2 powr of_int (exponent_of y + 52)" by (intro powr_mono) auto
  then show ?thesis using round64_between(2) [of x] round64_between(1) [of y] assms by linarith
qed

lemma round64_nonpos: "x \<le> 0 \<Longrightarrow> round64 x \<le> 0"
proof -
  assume x: "x \<le> 0"
  let ?p = "2 powr of_int (exponent_of x) :: real"
  have "x / ?p \<le> of_int 0" using x by (simp add: divide_le_0_iff)
  then have "round_even (x / ?p) \<le> 0" by (rule round_even_le)
  then have "of_int (round_even (x / ?p)) * ?p \<le> 0" by (intro mult_nonpos_nonneg) auto
  then show "round64 x \<le> 0" by (simp add: round64_def Let_def)
qed

lemma round64_pos: "0 < round64 x \<Longrightarrow> 0 < x"
  using round64_nonpos [of x] by linarith

text \<open>Whole numbers below \<open>2 ^ 53\<close> are exact.\<close>

lemma round_even_int [simp]: "round_even (of_int k) = k"
  by (simp add: round_even_def)

lemma round64_int:
  assumes "n < 2 ^ 53"
  shows "round64 (real n) = real n"
proof (cases "n = 0")
  case False
  let ?e = "exponent_of (real n)"
  have "log 2 (real n) < 53" using assms False by (simp add: log_less_iff)
  then have e: "?e \<le> 0" by (simp add: exponent_of_def)
  then have "2 powr of_int (- ?e) = (2 :: real) ^ nat (- ?e)" using powr_realpow [of 2 "nat (- ?e)"] by simp
  then have "real n / 2 powr of_int ?e = of_int (int n * 2 ^ nat (- ?e))"
    using powr_minus_divide [of 2 "- real_of_int ?e"] by simp
  then have "of_int (round_even (real n / 2 powr of_int ?e)) = real n / 2 powr of_int ?e" by (simp only: round_even_int)
  then show ?thesis using False by (simp add: round64_def Let_def)
qed (simp add: round64_def)

lemma round64_1 [simp]: "round64 1 = 1"
  using round64_int [of 1] by simp

lemma round64_0 [simp]: "round64 0 = 0"
  by (simp add: round64_def)

lemma round64_mono:
  assumes "0 \<le> x" "x \<le> y"
  shows "round64 x \<le> round64 y"
proof (cases "x = 0")
  case True
  then show ?thesis using assms round64_nonneg [of y] by simp
qed (use assms round64_mono_pos in simp)

lemma round64_ge_1: "1 \<le> x \<Longrightarrow> 1 \<le> round64 x"
  using round64_mono [of 1 x] by simp

end
