(* ===== verification/Frontier.thy ===== *)
theory Frontier
  imports GoLib
begin

text \<open>
  The impacts of a posting list in \<^verbatim>\<open>internal/search/index.go\<close>: a short list of pairs of a term frequency and a document
  length that dominates every posting of the term. \<open>frontier_insert\<close> is the body of \<^verbatim>\<open>addImpact\<close>; it keeps the list ascending in both
  components, never forgets what it dominates, and keeps it short.
\<close>

record impact =
  im_tf :: uint32
  im_length :: uint32

definition maxImpacts :: nat where "maxImpacts = 8"

text \<open>The loops \<^verbatim>\<open>for i < len(f) && P(f[i]) { i++ }\<close> and \<^verbatim>\<open>for i > 0 && P(f[i-1]) { i-- }\<close>.\<close>

definition scan_up :: "('a \<Rightarrow> bool) \<Rightarrow> 'a list \<Rightarrow> nat \<Rightarrow> nat" where
  "scan_up P f i = i + length (takeWhile P (drop i f))"

definition scan_down :: "('a \<Rightarrow> bool) \<Rightarrow> 'a list \<Rightarrow> nat \<Rightarrow> nat" where
  "scan_down P f i = i - length (takeWhile P (rev (take i f)))"

text \<open>The neighbours to merge: the first pair with the smallest difference of frequencies.\<close>

definition merge_at :: "impact list \<Rightarrow> nat" where
  "merge_at f =
     foldl (\<lambda>merge k. if im_tf (f ! (k + 1)) - im_tf (f ! k) < im_tf (f ! (merge + 1)) - im_tf (f ! merge) then k else merge)
       0 [1..<length f - 1]"

definition merge_impacts :: "impact list \<Rightarrow> impact list" where
  "merge_impacts f =
     (let merge = merge_at f;
          f = f[merge := (f ! merge)\<lparr>im_tf := im_tf (f ! (merge + 1))\<rparr>]
      in take (merge + 1) f @ drop (merge + 2) f)"

definition frontier_insert :: "impact list \<Rightarrow> uint32 \<Rightarrow> uint32 \<Rightarrow> impact list" where
  "frontier_insert f tf len =
     (let end_pos = scan_up (\<lambda>p. im_length p \<le> len) f 0 in
      if end_pos > 0 \<and> im_tf (f ! (end_pos - 1)) \<ge> tf then f
      else
        let start = scan_down (\<lambda>p. im_length p = len) f end_pos;
            end_pos = scan_up (\<lambda>p. im_tf p \<le> tf) f end_pos;
            f = (if start = end_pos then take start f @ [\<lparr>im_tf = tf, im_length = len\<rparr>] @ drop start f
                 else (take (start + 1) f @ drop end_pos f)[start := \<lparr>im_tf = tf, im_length = len\<rparr>])
        in if length f > maxImpacts then merge_impacts f else f)"

subsection \<open>What the frontier promises\<close>

definition frontier :: "impact list \<Rightarrow> bool" where
  "frontier f \<longleftrightarrow> sorted_wrt (\<lambda>p q. im_length p < im_length q \<and> im_tf p < im_tf q) f"

definition covers :: "impact \<Rightarrow> uint32 \<Rightarrow> uint32 \<Rightarrow> bool" where
  "covers p tf len \<longleftrightarrow> tf \<le> im_tf p \<and> im_length p \<le> len"

definition dominates :: "impact list \<Rightarrow> uint32 \<Rightarrow> uint32 \<Rightarrow> bool" where
  "dominates f tf len \<longleftrightarrow> (\<exists>p \<in> set f. covers p tf len)"

lemma covers_trans: "covers p (im_tf q) (im_length q) \<Longrightarrow> covers q tf len \<Longrightarrow> covers p tf len"
  by (auto simp: covers_def)

lemma dominates_replace:
  assumes "dominates (X @ M @ Y) tf len"
    and "\<forall>q \<in> set M. covers p (im_tf q) (im_length q)"
  shows "dominates (X @ p # Y) tf len"
  using assms by (auto simp: dominates_def intro: covers_trans)

text \<open>The list cut where the loops stop.\<close>

lemma scan_up_split:
  assumes "j = scan_up P f i" and "i \<le> length f"
  shows "drop i f = takeWhile P (drop i f) @ drop j f" and "take j f = take i f @ takeWhile P (drop i f)" and "i \<le> j" and "j \<le> length f"
    and "j < length f \<Longrightarrow> \<not> P (f ! j)"
proof -
  let ?w = "takeWhile P (drop i f)"
  have j: "j = i + length ?w" using assms(1) by (simp add: scan_up_def)
  have "dropWhile P (drop i f) = drop (length ?w) (drop i f)" by (rule dropWhile_eq_drop)
  then have dj: "drop j f = dropWhile P (drop i f)" by (simp add: j add.commute)
  then show "drop i f = ?w @ drop j f" by simp
  show "take j f = take i f @ ?w" by (simp add: j take_add takeWhile_eq_take [symmetric])
  show "i \<le> j" by (simp add: j)
  have "length ?w \<le> length (drop i f)" by (rule length_takeWhile_le)
  then show "j \<le> length f" using assms(2) by (simp add: j)
  show "\<not> P (f ! j)" if "j < length f"
    using nth_length_takeWhile [of P "drop i f"] that by (simp add: j)
qed

lemma last_take:
  assumes "0 < j" and "j \<le> length f"
  shows "take j f \<noteq> []" and "last (take j f) = f ! (j - 1)"
proof -
  show "take j f \<noteq> []" using assms by auto
  then have "last (take j f) = take j f ! (length (take j f) - 1)" by (rule last_conv_nth)
  then show "last (take j f) = f ! (j - 1)" using assms by (simp add: min_absorb2)
qed

lemma scan_down_split:
  assumes "j = scan_down P f i" and "i \<le> length f"
  shows "take i f = take j f @ rev (takeWhile P (rev (take i f)))" and "j \<le> i" and "j > 0 \<Longrightarrow> \<not> P (f ! (j - 1))"
proof -
  let ?w = "takeWhile P (rev (take i f))"
  have lw: "length ?w \<le> i" using length_takeWhile_le [of P "rev (take i f)"] assms(2) by simp
  have j: "j = i - length ?w" using assms(1) by (simp add: scan_down_def)
  have "take i f = rev (dropWhile P (rev (take i f))) @ rev ?w"
    by (metis rev_append rev_rev_ident takeWhile_dropWhile_id)
  moreover have pre: "rev (dropWhile P (rev (take i f))) = take j f"
    using lw assms(2) by (simp add: dropWhile_eq_drop rev_drop j min_def)
  ultimately show "take i f = take j f @ rev ?w" by simp
  show "j \<le> i" by (simp add: j)
  show "\<not> P (f ! (j - 1))" if "j > 0"
  proof -
    have "j \<le> length f" using \<open>j \<le> i\<close> assms(2) by simp
    then have "take j f \<noteq> []" "f ! (j - 1) = last (take j f)" using that last_take [of j f] by auto
    moreover from this(1) have "dropWhile P (rev (take i f)) \<noteq> []" using pre by (metis rev.simps(1))
    ultimately show ?thesis using hd_dropWhile [of P "rev (take i f)"] pre by (metis last_rev)
  qed
qed

subsection \<open>Inserting\<close>

lemma frontier_append:
  "frontier (X @ Y) \<longleftrightarrow> frontier X \<and> frontier Y \<and>
     (\<forall>p \<in> set X. \<forall>q \<in> set Y. im_length p < im_length q \<and> im_tf p < im_tf q)"
  by (simp add: frontier_def sorted_wrt_append)

lemma frontier_Cons:
  "frontier (p # Y) \<longleftrightarrow> frontier Y \<and> (\<forall>q \<in> set Y. im_length p < im_length q \<and> im_tf p < im_tf q)"
  by (auto simp: frontier_def)

lemma frontier_rest:
  assumes "frontier (p # Y)" and "im_length x < im_length p" "im_tf x < im_tf p"
  shows "\<forall>q \<in> set (p # Y). im_length x < im_length q \<and> im_tf x < im_tf q"
  using assms by (auto simp: frontier_Cons intro: less_trans)

lemma frontier_last:
  assumes "frontier X" and "X \<noteq> []" and "p \<in> set X"
  shows "im_length p \<le> im_length (last X)" "im_tf p \<le> im_tf (last X)"
proof -
  obtain Z where X: "X = Z @ [last X]" using assms(2) by (metis append_butlast_last_id)
  with assms(1,3) show "im_length p \<le> im_length (last X)" "im_tf p \<le> im_tf (last X)"
    by (metis (no_types, lifting) frontier_append Un_iff empty_iff less_imp_le list.set(1) list.set(2) order_refl set_append singletonD singletonI)+
qed

text \<open>Merging two neighbours into the larger frequency and the smaller length.\<close>

lemma merge_at_less:
  assumes "length f \<ge> 2"
  shows "merge_at f + 1 < length f"
proof -
  have step: "foldl (\<lambda>merge k. if im_tf (f ! (k + 1)) - im_tf (f ! k) < im_tf (f ! (merge + 1)) - im_tf (f ! merge) then k else merge) m ks + 1
      < length f" if "m + 1 < length f" "\<forall>k \<in> set ks. k + 1 < length f" for m ks
    using that by (induction ks arbitrary: m) auto
  show ?thesis unfolding merge_at_def using assms by (intro step) auto
qed

lemma merge_impacts_spec:
  assumes "frontier f" and "length f \<ge> 2"
  shows "frontier (merge_impacts f)" and "length (merge_impacts f) = length f - 1"
    and "dominates f tf len \<Longrightarrow> dominates (merge_impacts f) tf len"
proof -
  let ?m = "merge_at f"
  have m: "?m + 1 < length f" using merge_at_less [OF assms(2)] .
  define X p q Y where "X = take ?m f" and "p = f ! ?m" and "q = f ! (?m + 1)" and "Y = drop (?m + 2) f"
  have f: "f = X @ p # q # Y"
    using m by (simp add: X_def p_def q_def Y_def Cons_nth_drop_Suc)
  have len_X: "length X = ?m" using m by (simp add: X_def)
  have merged: "merge_impacts f = X @ p\<lparr>im_tf := im_tf q\<rparr> # Y"
  proof -
    have "f[?m := p\<lparr>im_tf := im_tf q\<rparr>] = X @ p\<lparr>im_tf := im_tf q\<rparr> # q # Y"
      by (subst f) (simp add: len_X [symmetric])
    then show ?thesis unfolding merge_impacts_def Let_def p_def [symmetric] q_def [symmetric]
      by (simp add: len_X [symmetric])
  qed
  have fr: "frontier (X @ p # q # Y)" using assms(1) f by simp
  then show "frontier (merge_impacts f)"
    unfolding merged by (auto simp: frontier_append frontier_Cons intro: less_trans)
  show "length (merge_impacts f) = length f - 1" unfolding merged by (subst f) simp
  assume "dominates f tf len"
  then have "dominates (X @ [p, q] @ Y) tf len" using f by simp
  then show "dominates (merge_impacts f) tf len" unfolding merged
    by (rule dominates_replace) (use fr in \<open>auto simp: covers_def frontier_append frontier_Cons\<close>)
qed

text \<open>The insertion without the merge.\<close>

lemma insert_point:
  assumes "frontier f" and "\<not> (e1 > 0 \<and> im_tf (f ! (e1 - 1)) \<ge> tf)"
    and e1: "e1 = scan_up (\<lambda>p. im_length p \<le> len) f 0"
    and s: "s = scan_down (\<lambda>p. im_length p = len) f e1"
    and e: "e = scan_up (\<lambda>p. im_tf p \<le> tf) f e1"
  shows "\<exists>M. f = take s f @ M @ drop e f \<and> s + length M = e \<and> e \<le> length f \<and>
    (\<forall>q \<in> set M. im_tf q \<le> tf \<and> len \<le> im_length q) \<and>
    (\<forall>q \<in> set (take s f). im_length q < len \<and> im_tf q < tf) \<and>
    (\<forall>q \<in> set (drop e f). len < im_length q \<and> tf < im_tf q)"
proof -
  note up1 = scan_up_split [OF e1, simplified]
  note down = scan_down_split [OF s up1(4)]
  note up2 = scan_up_split [OF e up1(4)]
  let ?A2 = "rev (takeWhile (\<lambda>p. im_length p = len) (rev (take e1 f)))"
  let ?B1 = "takeWhile (\<lambda>p. im_tf p \<le> tf) (drop e1 f)"
  have parts: "f = (take s f @ ?A2) @ (?B1 @ drop e f)"
    using down(1) up2(1) append_take_drop_id [of e1 f] by simp
  have A: "im_length q \<le> len" if "q \<in> set (take e1 f)" for q
    using that up1(2) by (metis set_takeWhileD)
  have A_tf: "im_tf q < tf" if "q \<in> set (take e1 f)" for q
  proof -
    from that have pos: "e1 > 0" by (cases e1) auto
    note ne = last_take(1) [OF pos up1(4)] and l = last_take(2) [OF pos up1(4)]
    have "frontier (take e1 f)" using assms(1) append_take_drop_id [of e1 f] by (metis frontier_append)
    with frontier_last(2) [OF this ne that] l assms(2) pos show ?thesis by auto
  qed
  have B: "len < im_length q" if "q \<in> set (drop e1 f)" for q
  proof (cases "drop e1 f")
    case (Cons p Y)
    then have "e1 < length f" "f ! e1 = p" by (metis drop_eq_Nil leI list.distinct(1), metis hd_drop_conv_nth leI drop_eq_Nil list.distinct(1) list.sel(1))
    then have p: "len < im_length p" using up1(5) by auto
    have "frontier (p # Y)" using assms(1) append_take_drop_id [of e1 f] Cons by (metis frontier_append)
    with that Cons p show ?thesis by (auto simp: frontier_Cons intro: less_trans)
  qed (use that in simp)
  have C: "len < im_length q \<and> tf < im_tf q" if "q \<in> set (drop e f)" for q
  proof (cases "drop e f")
    case (Cons p Y)
    then have "e < length f" "f ! e = p" by (metis drop_eq_Nil leI list.distinct(1), metis hd_drop_conv_nth leI drop_eq_Nil list.distinct(1) list.sel(1))
    then have p: "tf < im_tf p" using up2(5) by auto
    have "frontier (p # Y)" using assms(1) append_take_drop_id [of e f] Cons by (metis frontier_append)
    with that Cons p have "tf < im_tf q" by (auto simp: frontier_Cons intro: less_trans)
    moreover have "q \<in> set (drop e1 f)" using that up2(3) by (meson set_drop_subset_set_drop subsetD)
    ultimately show ?thesis using B by simp
  qed (use that in simp)
  have S: "im_length q < len \<and> im_tf q < tf" if "q \<in> set (take s f)" for q
  proof -
    from that have pos: "s > 0" by (cases s) auto
    have sl: "s \<le> length f" using down(2) up1(4) by simp
    note ne = last_take(1) [OF pos sl] and l = last_take(2) [OF pos sl]
    have sub: "set (take s f) \<subseteq> set (take e1 f)" using down(2) by (simp add: set_take_subset_set_take)
    have "im_length (f ! (s - 1)) < len"
      using down(3) [OF pos] A [of "last (take s f)"] last_in_set [OF ne] sub l by auto
    moreover have "frontier (take s f)" using assms(1) append_take_drop_id [of s f] by (metis frontier_append)
    ultimately show ?thesis using frontier_last(1) [OF _ ne that] l A_tf sub that by force
  qed
  have "\<forall>q \<in> set ?A2. im_length q = len \<and> im_tf q \<le> tf"
    using A_tf by (auto dest!: set_takeWhileD) (meson in_set_takeD less_imp_le)
  moreover have "\<forall>q \<in> set ?B1. im_tf q \<le> tf \<and> len \<le> im_length q"
    using B by (auto dest!: set_takeWhileD intro: less_imp_le)
  moreover have "s + length (?A2 @ ?B1) = e"
  proof -
    have "length (take e1 f) = length (take s f @ ?A2)" "length (take e f) = length (take e1 f @ ?B1)"
      using down(1) up2(2) by metis+
    then show ?thesis using down(2) up1(4) up2(3,4) by simp
  qed
  ultimately show ?thesis using parts S C up2(4) by (intro exI [of _ "?A2 @ ?B1"]) auto
qed

lemma frontier_insert_spec:
  assumes "frontier f" and "length f \<le> maxImpacts"
  shows "frontier (frontier_insert f tf len) \<and> length (frontier_insert f tf len) \<le> maxImpacts \<and>
    dominates (frontier_insert f tf len) tf len \<and>
    (\<forall>tf' len'. dominates f tf' len' \<longrightarrow> dominates (frontier_insert f tf len) tf' len')"
proof -
  define e1 where e1: "e1 = scan_up (\<lambda>p. im_length p \<le> len) f 0"
  define s where s: "s = scan_down (\<lambda>p. im_length p = len) f e1"
  define e where e: "e = scan_up (\<lambda>p. im_tf p \<le> tf) f e1"
  define new where "new = \<lparr>im_tf = tf, im_length = len\<rparr>"
  show ?thesis
  proof (cases "e1 > 0 \<and> im_tf (f ! (e1 - 1)) \<ge> tf")
    case True
    note up1 = scan_up_split [OF e1, simplified]
    have "f ! (e1 - 1) \<in> set (take e1 f)" using True last_take [of e1 f] up1(4) by (metis last_in_set)
    then have "im_length (f ! (e1 - 1)) \<le> len" "f ! (e1 - 1) \<in> set f"
      using up1(2) by (metis set_takeWhileD, meson in_set_takeD)
    then have "dominates f tf len" using True by (auto simp: dominates_def covers_def)
    moreover have "frontier_insert f tf len = f" using True by (simp add: frontier_insert_def e1 [symmetric] Let_def)
    ultimately show ?thesis using assms by simp
  next
    case False
    obtain M where M: "f = take s f @ M @ drop e f" "s + length M = e" "e \<le> length f"
      "\<forall>q \<in> set M. im_tf q \<le> tf \<and> len \<le> im_length q"
      "\<forall>q \<in> set (take s f). im_length q < len \<and> im_tf q < tf"
      "\<forall>q \<in> set (drop e f). len < im_length q \<and> tf < im_tf q"
      using insert_point [OF assms(1) False e1 s e] by blast
    define g where "g = take s f @ new # drop e f"
    have g: "(if s = e then take s f @ [new] @ drop s f else (take (s + 1) f @ drop e f)[s := new]) = g"
    proof (cases "s = e")
      case False
      then have "s < length f" using M(2,3) by simp
      then show ?thesis using False
        by (simp add: g_def take_Suc_conv_app_nth) (simp add: list_update_append min_def)
    qed (simp add: g_def)
    have ins: "frontier_insert f tf len = (if length g > maxImpacts then merge_impacts g else g)"
      using g unfolding frontier_insert_def e1 [symmetric] Let_def s [symmetric] e [symmetric] new_def [symmetric] if_not_P [OF False]
      by simp
    have ff: "frontier (take s f @ M @ drop e f)" using assms(1) M(1) by simp
    have fr: "frontier g" unfolding g_def using ff M(5,6) by (auto simp: frontier_append frontier_Cons new_def)
    have own: "dominates g tf len" by (auto simp: g_def dominates_def covers_def new_def)
    have keep: "dominates g tf' len'" if "dominates f tf' len'" for tf' len'
      unfolding g_def
      by (rule dominates_replace [of _ M]) (use that M(1,4) in \<open>auto simp: covers_def new_def\<close>)
    have len_g: "length g \<le> maxImpacts + 1" using assms(2) M(2,3) by (simp add: g_def)
    show ?thesis
    proof (cases "length g > maxImpacts")
      case True
      then have "length g \<ge> 2" by (simp add: maxImpacts_def)
      note merge_impacts_spec [OF fr this]
      with True len_g own keep show ?thesis unfolding ins by auto
    qed (use fr own keep in \<open>auto simp: ins\<close>)
  qed
qed

end
