(* ===== verification/TopK.thy ===== *)
theory TopK
  imports Complex_Main GoHeap Frontier "HOL-Library.List_Lexorder"
begin

text \<open>
  The bounded heap of \<^verbatim>\<open>internal/search/index.go\<close> that keeps the best hits of a query: \<open>topK\<close> with its operations, the order
  of the results, and the proof that after any sequence of offers the heap holds the best of the hits offered.
\<close>

subsection \<open>The order of hits\<close>

record hit =
  h_score :: real
  h_slot :: uint32
  h_id :: str

definition ranksBelow :: "hit \<Rightarrow> hit \<Rightarrow> bool" where
  "ranksBelow a b \<longleftrightarrow> (if h_score a \<noteq> h_score b then h_score a < h_score b else h_id a > h_id b)"

text \<open>The same order as a type, so that the lemmas on heaps and sorting apply: higher scores first, then smaller ids.\<close>

datatype standing = Standing (st_score: real) (st_id: str)

instantiation standing :: linorder
begin

definition less_eq_standing :: "standing \<Rightarrow> standing \<Rightarrow> bool" where
  "less_eq_standing a b \<longleftrightarrow> st_score a < st_score b \<or> (st_score a = st_score b \<and> st_id b \<le> st_id a)"

definition less_standing :: "standing \<Rightarrow> standing \<Rightarrow> bool" where
  "less_standing a b \<longleftrightarrow> st_score a < st_score b \<or> (st_score a = st_score b \<and> st_id b < st_id a)"

instance
  by standard (auto simp: less_eq_standing_def less_standing_def standing.expand intro: standing.expand)

end

definition standing :: "hit \<Rightarrow> standing" where "standing h = Standing (h_score h) (h_id h)"

lemma ranksBelow_standing: "ranksBelow a b \<longleftrightarrow> standing a < standing b"
  by (auto simp: ranksBelow_def standing_def less_standing_def)

lemma standing_score: "standing a \<le> standing b \<Longrightarrow> h_score a \<le> h_score b" "h_score a < h_score b \<Longrightarrow> standing a < standing b"
  by (auto simp: standing_def less_eq_standing_def less_standing_def)

subsection \<open>The heap\<close>

record topK =
  tk_limit :: nat
  tk_hits :: "hit list"

definition full :: "topK \<Rightarrow> bool" where "full t \<longleftrightarrow> length (tk_hits t) \<ge> tk_limit t"

function sift_up :: "hit list \<Rightarrow> nat \<Rightarrow> hit list" where
  "sift_up hits k =
     (if k = 0 then hits
      else
        let parent = (k - 1) div 2 in
        if \<not> ranksBelow (hits ! k) (hits ! parent) then hits else sift_up (swap_at hits parent k) parent)"
  by pat_completeness auto
termination
  by (relation "measure (\<lambda>(hits, k). k)") auto

definition lowest :: "hit list \<Rightarrow> nat \<Rightarrow> nat" where
  "lowest hits k =
     (let n = length hits; low = k;
          left = 2 * k + 1; low = (if left < n \<and> ranksBelow (hits ! left) (hits ! low) then left else low);
          right = 2 * k + 2
      in if right < n \<and> ranksBelow (hits ! right) (hits ! low) then right else low)"

lemma lowest_cases: "lowest hits k \<noteq> k \<Longrightarrow> lowest hits k < length hits \<and> k < lowest hits k"
  by (auto simp: lowest_def Let_def split: if_splits)

function sift_down :: "hit list \<Rightarrow> nat \<Rightarrow> hit list" where
  "sift_down hits k =
     (let low = lowest hits k in if low = k then hits else sift_down (swap_at hits k low) low)"
  by pat_completeness auto
termination
  by (relation "measure (\<lambda>(hits, k). length hits - k)") (auto dest!: lowest_cases)

declare sift_up.simps [simp del] sift_down.simps [simp del]

definition offer :: "topK \<Rightarrow> hit \<Rightarrow> topK \<times> bool" where
  "offer t h =
     (if length (tk_hits t) < tk_limit t
      then (t\<lparr>tk_hits := sift_up (tk_hits t @ [h]) (length (tk_hits t))\<rparr>, True)
      else if \<not> ranksBelow (tk_hits t ! 0) h then (t, False)
      else (t\<lparr>tk_hits := sift_down ((tk_hits t)[0 := h]) 0\<rparr>, True))"

subsection \<open>Sifting restores the order\<close>

definition heap :: "hit list \<Rightarrow> bool" where "heap hits \<longleftrightarrow> heap_n (length hits) (map standing hits)"

lemma sift_up_spec:
  assumes "k < length hits" and "near_n (length hits) k (map standing hits)" and "children_ok (length hits) k (map standing hits)"
  shows "heap (sift_up hits k) \<and> mset (sift_up hits k) = mset hits"
  using assms
proof (induction hits k rule: sift_up.induct)
  case (1 hits k)
  let ?ks = "map standing hits"
  have n: "length (map standing xs) = length xs" for xs by simp
  show ?case
  proof (cases "k = 0 \<or> \<not> ranksBelow (hits ! k) (hits ! par k)")
    case True
    then have "parent_ok k ?ks"
      using 1(2) par_less [of k] by (auto simp: parent_ok_def ranksBelow_standing not_less)
    with 1 True show ?thesis
      by (subst (1 2) sift_up.simps) (auto simp: heap_def Let_def par_def intro: heap_nI)
  next
    case False
    then have k: "0 < k" "\<not> k = 0" and below: "ranksBelow (hits ! k) (hits ! par k)" by auto
    let ?h = "swap_at hits (par k) k"
    have p: "par k < length hits" using par_less [OF k(1)] 1(2) by simp
    have lt: "?ks ! k < ?ks ! par k" using below 1(2) p by (simp add: ranksBelow_standing)
    have "near_n (length hits) (par k) (swap_at ?ks (par k) k) \<and> children_ok (length hits) (par k) (swap_at ?ks (par k) k)"
      by (rule near_up) (use 1 k lt in auto)
    then have "near_n (length ?h) (par k) (map standing ?h)" "children_ok (length ?h) (par k) (map standing ?h)"
      using map_swap_at [OF p 1(2), of standing] by simp_all
    moreover have "par k < length ?h" using p by simp
    ultimately have "heap (sift_up ?h (par k)) \<and> mset (sift_up ?h (par k)) = mset ?h"
      using 1(1) [OF k(2) refl] below by (simp add: par_def)
    moreover have "sift_up hits k = sift_up ?h (par k)"
      using k below by (subst sift_up.simps) (simp add: Let_def par_def)
    ultimately show ?thesis using p 1(2) by simp
  qed
qed

lemma lowest_spec:
  assumes "k < length hits"
  shows "lowest hits k = k \<Longrightarrow> children_ok (length hits) k (map standing hits)"
    and "lowest hits k \<noteq> k \<Longrightarrow> par (lowest hits k) = k \<and> standing (hits ! lowest hits k) < standing (hits ! k) \<and>
      (\<forall>c. 0 < c \<and> c < length hits \<and> par c = k \<longrightarrow> map standing hits ! lowest hits k \<le> map standing hits ! c)"
  unfolding children_ok_def all_children
  using assms by (auto simp: lowest_def Let_def ranksBelow_standing not_less split: if_splits)

lemma sift_down_spec:
  assumes "k < length hits" and "near_n (length hits) k (map standing hits)" and "parent_ok k (map standing hits)"
  shows "heap (sift_down hits k) \<and> mset (sift_down hits k) = mset hits"
  using assms
proof (induction hits k rule: sift_down.induct)
  case (1 hits k)
  let ?ks = "map standing hits" and ?low = "lowest hits k"
  show ?case
  proof (cases "?low = k")
    case True
    then show ?thesis using 1 lowest_spec(1) [OF 1(2) True]
      by (subst (1 2) sift_down.simps) (auto simp: heap_def Let_def intro: heap_nI)
  next
    case False
    note low = lowest_cases [OF False] lowest_spec(2) [OF 1(2) False]
    let ?h = "swap_at hits k ?low"
    have "near_n (length hits) ?low (swap_at ?ks k ?low) \<and> parent_ok ?low (swap_at ?ks k ?low)"
      by (rule near_down) (use 1 low in auto)
    then have "near_n (length ?h) ?low (map standing ?h)" "parent_ok ?low (map standing ?h)"
      using map_swap_at [of k hits ?low standing] low 1(2) by simp_all
    moreover have "?low < length ?h" using low by simp
    ultimately have "heap (sift_down ?h ?low) \<and> mset (sift_down ?h ?low) = mset ?h"
      using 1(1) [OF refl False] by simp
    moreover have "sift_down hits k = sift_down ?h ?low"
      using False by (subst sift_down.simps) (simp add: Let_def)
    ultimately show ?thesis using low 1(2) by simp
  qed
qed

subsection \<open>The best hits\<close>

definition is_best :: "nat \<Rightarrow> hit set \<Rightarrow> hit set \<Rightarrow> bool" where
  "is_best k S B \<longleftrightarrow> B \<subseteq> S \<and> card B = min k (card S) \<and> (\<forall>b \<in> B. \<forall>s \<in> S - B. standing s < standing b)"

definition best_hits :: "nat \<Rightarrow> hit list \<Rightarrow> hit list" where
  "best_hits k hs = take k (rev (sort_key standing hs))"

lemma is_best_all: "finite S \<Longrightarrow> card S \<le> k \<Longrightarrow> is_best k S B \<longleftrightarrow> B = S"
  by (auto simp: is_best_def min_absorb2 dest: card_subset_eq)

lemma is_best_skip:
  assumes "finite S" and "is_best k S B" and "card B = k" and "\<forall>b \<in> B. standing h < standing b"
  shows "is_best k (insert h S) B"
proof -
  have "k \<le> card S" using assms(2,3) unfolding is_best_def by linarith
  then show ?thesis using assms by (auto simp: is_best_def card_insert_if)
qed

lemma is_best_skip_all:
  assumes "finite S" "finite H" and "is_best k S B" and "card B = k" and "\<forall>h \<in> H. \<forall>b \<in> B. standing h < standing b"
  shows "is_best k (S \<union> H) B"
  using assms(2,5)
proof (induction H)
  case (insert h H)
  then have "is_best k (insert h (S \<union> H)) B" using assms(1,4) by (intro is_best_skip) auto
  then show ?case by simp
qed (use assms(3) in simp)

lemma is_best_replace:
  assumes "finite S" and "is_best k S B" and "card B = k" and "r \<in> B" "\<forall>b \<in> B. standing r \<le> standing b"
    and "h \<notin> S" "standing r < standing h" "inj_on standing S"
  shows "is_best k (insert h S) (insert h (B - {r}))"
proof -
  have B: "finite B" "B \<subseteq> S" using assms(1,2) by (auto simp: is_best_def intro: finite_subset)
  then have "h \<notin> B" using assms(6) by auto
  then have "card (insert h (B - {r})) = k" using B(1) assms(3,4) by (simp add: card_insert_if card_Diff_singleton) (metis card_gt_0_iff Suc_pred empty_iff)
  moreover have "k \<le> card S" using assms(2,3) unfolding is_best_def by linarith
  moreover have "standing s < standing b" if "b \<in> insert h (B - {r})" "s \<in> insert h S - insert h (B - {r})" for b s
  proof -
    have s: "s = r \<or> s \<in> S - B" using that(2) by auto
    have le: "standing s \<le> standing r"
      using s assms(2,4) by (auto simp: is_best_def intro: less_imp_le)
    have "standing r < standing b"
    proof (cases "b = h")
      case False
      then have "b \<in> B" "b \<noteq> r" using that(1) by auto
      then have "standing r \<noteq> standing b" using assms(4,8) B(2) by (auto dest: inj_onD)
      with \<open>b \<in> B\<close> assms(5) show ?thesis by (simp add: order_less_le)
    qed (use assms(7) in simp)
    with le show ?thesis by simp
  qed
  ultimately show ?thesis using assms(1,6) B by (auto simp: is_best_def card_insert_if)
qed

text \<open>Sorting the best hits gives the front of all hits sorted.\<close>

lemma sorted_standing_unique:
  assumes "distinct xs" "distinct ys" "set xs = set ys" "inj_on standing (set xs)"
    and "sorted (map standing xs)" "sorted (map standing ys)"
  shows "xs = ys"
proof -
  have d: "distinct (map standing xs)" "distinct (map standing ys)" using assms by (simp_all add: distinct_map)
  have "map standing xs = map standing ys"
    using assms d by (intro sorted_distinct_set_unique) auto
  then show ?thesis using assms(3,4) by (metis map_inj_on Un_absorb)
qed

lemma is_best_best_hits:
  assumes "distinct bs" "distinct hs" and "is_best k (set hs) (set bs)" and "inj_on standing (set hs)"
  shows "rev (sort_key standing bs) = best_hits k hs"
proof -
  define X Y where "X = rev (sort_key standing bs)" and "Y = rev (sort_key standing (filter (\<lambda>h. h \<notin> set bs) hs))"
  have sub: "set bs \<subseteq> set hs" and card: "card (set bs) = min k (card (set hs))"
    and above: "\<And>b s. b \<in> set bs \<Longrightarrow> s \<in> set hs \<Longrightarrow> s \<notin> set bs \<Longrightarrow> standing s < standing b"
    using assms(3) by (auto simp: is_best_def)
  have "rev (X @ Y) = sort_key standing hs"
  proof (rule sorted_standing_unique)
    show "distinct (rev (X @ Y))" using assms(1,2) by (auto simp: X_def Y_def)
    show "set (rev (X @ Y)) = set (sort_key standing hs)" using sub by (auto simp: X_def Y_def)
    then show "inj_on standing (set (rev (X @ Y)))" using assms(4) by simp
    show "sorted (map standing (rev (X @ Y)))"
      using above by (auto simp: X_def Y_def sorted_append intro: less_imp_le)
  qed (use assms(2) in auto)
  then have "rev (sort_key standing hs) = X @ Y" by (metis rev_rev_ident)
  moreover have "length X = min k (length hs)" using card distinct_card [OF assms(1)] distinct_card [OF assms(2)] by (simp add: X_def)
  moreover have "length X + length Y = length hs" using arg_cong [OF calculation(1), of length] by simp
  ultimately have "best_hits k hs = X" by (auto simp: best_hits_def min_def)
  then show ?thesis by (simp add: X_def)
qed

subsection \<open>What the heap holds\<close>

definition holds_best :: "topK \<Rightarrow> hit set \<Rightarrow> bool" where
  "holds_best t S \<longleftrightarrow> heap (tk_hits t) \<and> distinct (tk_hits t) \<and> is_best (tk_limit t) S (set (tk_hits t))"

lemma root_lowest:
  assumes "heap hits" and "hits \<noteq> []" and "b \<in> set hits"
  shows "standing (hits ! 0) \<le> standing b"
proof -
  obtain c where "c < length hits" "b = hits ! c" using assms(3) by (metis in_set_conv_nth)
  moreover have "0 < length hits" using assms(2) by simp
  ultimately show ?thesis using heap_root [OF assms(1) [unfolded heap_def], of c] by simp
qed

lemma full_iff:
  assumes "holds_best t S" "finite S"
  shows "full t \<longleftrightarrow> card (set (tk_hits t)) = tk_limit t"
  using assms distinct_card [of "tk_hits t"] by (auto simp: full_def holds_best_def is_best_def)

lemma root_in: "full t \<Longrightarrow> 0 < tk_limit t \<Longrightarrow> tk_hits t \<noteq> [] \<and> tk_hits t ! 0 \<in> set (tk_hits t)"
  by (cases "tk_hits t") (auto simp: full_def)

text \<open>A hit that ranks below the root of a full heap is not among the best.\<close>

lemma holds_best_skip:
  assumes "holds_best t S" and "finite S" "finite H" and "full t" "0 < tk_limit t"
    and "\<forall>h \<in> H. standing h < standing (tk_hits t ! 0)"
  shows "holds_best t (S \<union> H)"
proof -
  have "\<forall>h \<in> H. \<forall>b \<in> set (tk_hits t). standing h < standing b"
    using assms(1,6) root_lowest [of "tk_hits t"] root_in [OF assms(4,5)] by (auto simp: holds_best_def intro: less_le_trans)
  then show ?thesis using assms(1-3) full_iff [OF assms(1,2)] assms(4) is_best_skip_all [OF assms(2,3)]
    by (auto simp: holds_best_def)
qed

lemma offer_spec:
  assumes best: "holds_best t S" and fin: "finite S" and "0 < tk_limit t" and new: "h \<notin> S" and inj: "inj_on standing (insert h S)"
    and off: "offer t h = (t', taken)"
  shows "holds_best t' (insert h S)" and "tk_limit t' = tk_limit t" and "\<not> taken \<longrightarrow> t' = t" and "taken \<longrightarrow> tk_hits t' \<noteq> []"
    and "full t \<longrightarrow> full t' \<and> standing (tk_hits t ! 0) \<le> standing (tk_hits t' ! 0)"
proof -
  let ?hits = "tk_hits t"
  have t: "heap ?hits" "distinct ?hits" "is_best (tk_limit t) S (set ?hits)" using best by (auto simp: holds_best_def)
  have sub: "set ?hits \<subseteq> S" using t(3) by (simp add: is_best_def)
  have nh: "h \<notin> set ?hits" using sub new by auto
  note inj' = inj_on_subset [OF inj subset_insertI]
  have goal: "holds_best t' (insert h S) \<and> tk_limit t' = tk_limit t \<and> (\<not> taken \<longrightarrow> t' = t) \<and> (taken \<longrightarrow> tk_hits t' \<noteq> []) \<and>
      (full t \<longrightarrow> full t' \<and> (\<forall>b \<in> set (tk_hits t'). standing (?hits ! 0) \<le> standing b))"
  proof (cases "full t")
    case False
    let ?new = "sift_up (?hits @ [h]) (length ?hits)"
    have "near_n (length (?hits @ [h])) (length ?hits) (map standing (?hits @ [h]))"
      unfolding near_n_def
    proof (intro allI impI conjI)
      fix c assume c: "0 < c \<and> c < length (?hits @ [h])"
      then have "par c < length ?hits" using par_less [of c] by simp
      then show "map standing (?hits @ [h]) ! par c \<le> map standing (?hits @ [h]) ! c"
        if "c \<noteq> length ?hits \<and> par c \<noteq> length ?hits"
      proof -
        have "c < length ?hits" using that c by simp
        moreover from this have "map standing ?hits ! par c \<le> map standing ?hits ! c" using t(1) c by (simp add: heap_def heap_n_def)
        ultimately show ?thesis using \<open>par c < length ?hits\<close> by (simp add: nth_append)
      qed
      show "map standing (?hits @ [h]) ! par (length ?hits) \<le> map standing (?hits @ [h]) ! c"
        if "par c = length ?hits \<and> 0 < length ?hits"
        using that \<open>par c < length ?hits\<close> by simp
    qed
    moreover have "children_ok (length (?hits @ [h])) (length ?hits) (map standing (?hits @ [h]))"
      by (auto simp: children_ok_def par_eq dest!: par_eq [THEN iffD1, OF conjI])
    ultimately have s: "heap ?new" "mset ?new = mset (?hits @ [h])" using sift_up_spec [of "length ?hits" "?hits @ [h]"] by auto
    then have set: "set ?new = insert h (set ?hits)" "distinct ?new"
      using t(2) nh mset_eq_setD [OF s(2)] mset_eq_imp_distinct_iff [OF s(2)] by auto
    have few: "card (set ?hits) < tk_limit t" using False distinct_card [OF t(2)] by (simp add: full_def)
    then have all: "set ?hits = S" using t(3) fin card_subset_eq [of S "set ?hits"] by (auto simp: is_best_def min_def split: if_splits)
    then have "is_best (tk_limit t) (insert h S) (insert h (set ?hits))"
      using few fin new by (subst is_best_all) auto
    with s set off False show ?thesis by (auto simp: offer_def full_def holds_best_def not_le)
  next
    case True
    note root = root_in [OF True assms(3)]
    have low: "\<forall>b \<in> set ?hits. standing (?hits ! 0) \<le> standing b" using root_lowest [OF t(1)] root by blast
    have cardB: "card (set ?hits) = tk_limit t" using full_iff [OF best fin] True by simp
    show ?thesis
    proof (cases "ranksBelow (?hits ! 0) h")
      case False
      have "standing h \<noteq> standing (?hits ! 0)" using inj new root sub by (auto dest!: inj_onD)
      then have "standing h < standing (?hits ! 0)" using False by (simp add: ranksBelow_standing)
      then have "holds_best t (S \<union> {h})" using holds_best_skip [OF best fin _ True assms(3), of "{h}"] by simp
      then show ?thesis using off False True low by (auto simp: offer_def full_def)
    next
      case above: True
      obtain r rest where hits: "?hits = r # rest" using root by (cases ?hits) auto
      let ?new = "sift_down (?hits[0 := h]) 0"
      have "near_n (length (?hits[0 := h])) 0 (map standing (?hits[0 := h]))"
        by (rule near_n_change [of _ _ "map standing ?hits"])
          (use t(1) hits in \<open>auto simp: heap_def intro!: near_nI nth_list_update_neq simp: map_update\<close>)
      moreover have "parent_ok 0 (map standing (?hits[0 := h]))" by (simp add: parent_ok_def)
      ultimately have s: "heap ?new" "mset ?new = mset (h # rest)"
        using sift_down_spec [of 0 "?hits[0 := h]"] hits by auto
      then have set: "set ?new = insert h (set rest)" "distinct ?new"
        using t(2) nh hits mset_eq_setD [OF s(2)] mset_eq_imp_distinct_iff [OF s(2)] by auto
      have "set rest = set ?hits - {r}" using hits t(2) by auto
      moreover have "is_best (tk_limit t) (insert h S) (insert h (set ?hits - {r}))"
        using is_best_replace [OF fin t(3) cardB, of r h] low above new inj' hits by (auto simp: ranksBelow_standing)
      ultimately have "is_best (tk_limit t) (insert h S) (set ?new)" by (simp add: set)
      moreover have "length ?new = length ?hits" using arg_cong [OF s(2), of size] hits by simp
      moreover have "\<forall>b \<in> set ?new. standing (?hits ! 0) \<le> standing b"
        using low hits above set by (auto simp: ranksBelow_standing)
      moreover have "?new \<noteq> []" using set by auto
      ultimately show ?thesis using s set off True above by (auto simp: offer_def full_def holds_best_def)
    qed
  qed
  then show "holds_best t' (insert h S)" "tk_limit t' = tk_limit t" "\<not> taken \<longrightarrow> t' = t" "taken \<longrightarrow> tk_hits t' \<noteq> []" by blast+
  show "full t \<longrightarrow> full t' \<and> standing (tk_hits t ! 0) \<le> standing (tk_hits t' ! 0)"
    using goal root_in [of t'] assms(3) by auto
qed

lemma holds_best_empty: "holds_best \<lparr>tk_limit = k, tk_hits = []\<rparr> {}"
  by (simp add: holds_best_def heap_def heap_n_def is_best_def)

end
