(* ===== verification/SearchIndex.thy ===== *)
theory SearchIndex
  imports Frontier "HOL-Library.AList"
begin

text \<open>
  The inverted index of \<^verbatim>\<open>internal/search/index.go\<close>: its state and the operations that change it. Every stored version of a document has a
  slot; replacing a document tombstones its slot, and compaction renumbers the live ones. A Go map is an association list;
  the loops over the terms of a document or of the index treat every term on its own, so their order does not matter. The Unicode tables behind
  \<^verbatim>\<open>unicode.IsLetter\<close>, \<^verbatim>\<open>unicode.IsDigit\<close> and \<^verbatim>\<open>strings.ToLower\<close> are the argument \<open>U\<close>.
\<close>

subsection \<open>Documents and their terms\<close>

record sdoc =
  sd_ID :: str
  sd_Title :: str
  sd_Body :: str

record unicode =
  is_letter :: "rune \<Rightarrow> bool"
  is_digit :: "rune \<Rightarrow> bool"
  to_lower :: "rune \<Rightarrow> rune"

definition zero_sdoc :: sdoc where "zero_sdoc = \<lparr>sd_ID = [], sd_Title = [], sd_Body = []\<rparr>"

definition tokenize :: "unicode \<Rightarrow> str \<Rightarrow> str list" where
  "tokenize U text_value = fields_loop (\<lambda>r. \<not> is_letter U r \<and> \<not> is_digit U r) [] (map (to_lower U) text_value)"

definition count_term :: "(str \<times> nat) list \<Rightarrow> str \<Rightarrow> (str \<times> nat) list" where
  "count_term freq t =
     (if byte_len t > 1 then AList.update t ((case map_of freq t of None \<Rightarrow> 0 | Some c \<Rightarrow> c) + 1) freq else freq)"

definition frequencies :: "unicode \<Rightarrow> sdoc \<Rightarrow> (str \<times> nat) list \<times> nat" where
  "frequencies U doc =
     (let terms = tokenize U (sd_Title doc @ [32] @ sd_Body doc) in (foldl count_term [] terms, length terms))"

subsection \<open>State\<close>

record posting =
  p_doc :: uint32
  p_tf :: uint32

record termPostings =
  tp_postings :: "posting list"
  tp_df :: int
  tp_impacts :: "impact list"

record index =
  ix_slots :: "(str \<times> uint32) list"
  ix_docs :: "sdoc list"
  ix_lengths :: "uint32 list"
  ix_live :: "bool list"
  ix_terms :: "(str \<times> termPostings) list"
  ix_tokens :: int
  ix_dead :: int

definition compactMinDead :: int where "compactMinDead = 64"

definition compactDeadRatio :: int where "compactDeadRatio = 4"

definition noDoc :: uint32 where "noDoc = 0xFFFFFFFF"

definition NewIndex :: index where
  "NewIndex = \<lparr>ix_slots = [], ix_docs = [], ix_lengths = [], ix_live = [], ix_terms = [], ix_tokens = 0, ix_dead = 0\<rparr>"

definition index_Len :: "index \<Rightarrow> nat" where "index_Len i = length (ix_slots i)"

subsection \<open>Operations\<close>

definition addImpact :: "termPostings \<Rightarrow> uint32 \<Rightarrow> uint32 \<Rightarrow> termPostings" where
  "addImpact t tf len = t\<lparr>tp_impacts := frontier_insert (tp_impacts t) tf len\<rparr>"

definition retire_term :: "(str \<times> termPostings) list \<Rightarrow> str \<Rightarrow> (str \<times> termPostings) list" where
  "retire_term terms t =
     (case map_of terms t of
        None \<Rightarrow> terms
      | Some e \<Rightarrow>
          let e = e\<lparr>tp_df := tp_df e - 1\<rparr> in
          if tp_df e \<le> 0 then AList.delete t terms else AList.update t e terms)"

definition retire :: "unicode \<Rightarrow> index \<Rightarrow> uint32 \<Rightarrow> index" where
  "retire U i slot =
     (let old = ix_docs i ! unat slot;
          oldTerms = fst (frequencies U old)
      in i\<lparr>ix_terms := foldl retire_term (ix_terms i) (map fst oldTerms),
           ix_tokens := ix_tokens i - uint (ix_lengths i ! unat slot),
           ix_live := (ix_live i)[unat slot := False],
           ix_docs := (ix_docs i)[unat slot := zero_sdoc],
           ix_slots := AList.delete (sd_ID old) (ix_slots i),
           ix_dead := ix_dead i + 1\<rparr>)"

text \<open>The loop that numbers the live slots, and the next number.\<close>

fun remap_loop :: "uint32 \<Rightarrow> bool list \<Rightarrow> uint32 list \<times> uint32" where
  "remap_loop nxt [] = ([], nxt)"
| "remap_loop nxt (alive # rest) =
     (if alive then (case remap_loop (nxt + 1) rest of (remap, n) \<Rightarrow> (nxt # remap, n))
      else (case remap_loop nxt rest of (remap, n) \<Rightarrow> (noDoc # remap, n)))"

definition compact_posting :: "uint32 list \<Rightarrow> uint32 list \<Rightarrow> termPostings \<Rightarrow> posting \<Rightarrow> termPostings" where
  "compact_posting remap lengths e p =
     (let to_slot = remap ! unat (p_doc p) in
      if to_slot \<noteq> noDoc
      then addImpact (e\<lparr>tp_postings := tp_postings e @ [\<lparr>p_doc = to_slot, p_tf = p_tf p\<rparr>]\<rparr>) (p_tf p) (lengths ! unat (p_doc p))
      else e)"

definition compact_entry :: "uint32 list \<Rightarrow> uint32 list \<Rightarrow> termPostings \<Rightarrow> termPostings" where
  "compact_entry remap lengths e =
     foldl (compact_posting remap lengths) (e\<lparr>tp_postings := [], tp_impacts := []\<rparr>) (tp_postings e)"

definition move_slot :: "uint32 list \<Rightarrow> index \<Rightarrow> nat \<Rightarrow> index" where
  "move_slot remap i slot =
     (let to_slot = remap ! slot; n = unat to_slot in
      if to_slot = noDoc then i
      else i\<lparr>ix_docs := (ix_docs i)[n := ix_docs i ! slot],
             ix_lengths := (ix_lengths i)[n := ix_lengths i ! slot],
             ix_live := (ix_live i)[n := True],
             ix_slots := AList.update (sd_ID (ix_docs i ! slot)) to_slot (ix_slots i)\<rparr>)"

definition compact_index :: "index \<Rightarrow> index" where
  "compact_index i =
     (case remap_loop 0 (ix_live i) of (remap, nxt) \<Rightarrow>
        let i = i\<lparr>ix_terms := map (\<lambda>(t, e). (t, compact_entry remap (ix_lengths i) e)) (ix_terms i)\<rparr>;
            i = foldl (move_slot remap) i [0..<length remap];
            n = unat nxt
        in i\<lparr>ix_docs := take n (ix_docs i), ix_lengths := take n (ix_lengths i), ix_live := take n (ix_live i), ix_dead := 0\<rparr>)"

definition upsert_term :: "uint32 \<Rightarrow> uint32 \<Rightarrow> (str \<times> termPostings) list \<Rightarrow> str \<times> nat \<Rightarrow> (str \<times> termPostings) list" where
  "upsert_term slot len terms tc =
     (case tc of (t, count) \<Rightarrow>
        let e = (case map_of terms t of None \<Rightarrow> \<lparr>tp_postings = [], tp_df = 0, tp_impacts = []\<rparr> | Some e \<Rightarrow> e);
            e = e\<lparr>tp_postings := tp_postings e @ [\<lparr>p_doc = slot, p_tf = of_nat count\<rparr>], tp_df := tp_df e + 1\<rparr>
        in AList.update t (addImpact e (of_nat count) len) terms)"

definition Upsert :: "unicode \<Rightarrow> index \<Rightarrow> sdoc \<Rightarrow> index" where
  "Upsert U i doc =
     (case frequencies U doc of (freq, len) \<Rightarrow>
        let i = (case map_of (ix_slots i) (sd_ID doc) of Some slot \<Rightarrow> retire U i slot | None \<Rightarrow> i);
            slot = of_nat (length (ix_docs i));
            i = i\<lparr>ix_docs := ix_docs i @ [doc], ix_lengths := ix_lengths i @ [of_nat len], ix_live := ix_live i @ [True],
                  ix_slots := AList.update (sd_ID doc) slot (ix_slots i), ix_tokens := ix_tokens i + int len,
                  ix_terms := foldl (upsert_term slot (of_nat len)) (ix_terms i) freq\<rparr>
        in if ix_dead i \<ge> compactMinDead \<and> ix_dead i * compactDeadRatio \<ge> int (length (ix_slots i)) then compact_index i else i)"

subsection \<open>The documents of an index\<close>

text \<open>The abstraction: the live documents in the order of their slots. Storing a document replaces the one with its id.\<close>

definition live_docs :: "index \<Rightarrow> sdoc list" where
  "live_docs i = map fst (filter snd (zip (ix_docs i) (ix_live i)))"

definition put_doc :: "sdoc \<Rightarrow> sdoc list \<Rightarrow> sdoc list" where
  "put_doc doc ds = filter (\<lambda>d. sd_ID d \<noteq> sd_ID doc) ds @ [doc]"

definition doc_length :: "unicode \<Rightarrow> sdoc \<Rightarrow> nat" where "doc_length U d = snd (frequencies U d)"

definition tf_of :: "unicode \<Rightarrow> sdoc \<Rightarrow> str \<Rightarrow> uint32 option" where
  "tf_of U d t = map_option of_nat (map_of (fst (frequencies U d)) t)"

definition is_live :: "index \<Rightarrow> uint32 \<Rightarrow> bool" where
  "is_live i s \<longleftrightarrow> unat s < length (ix_docs i) \<and> ix_live i ! unat s"

definition doc_at :: "index \<Rightarrow> uint32 \<Rightarrow> sdoc" where "doc_at i s = ix_docs i ! unat s"

definition entry_ok :: "unicode \<Rightarrow> index \<Rightarrow> str \<Rightarrow> termPostings \<Rightarrow> bool" where
  "entry_ok U i t e \<longleftrightarrow>
     sorted_wrt (\<lambda>p q. p_doc p < p_doc q) (tp_postings e) \<and>
     (\<forall>p \<in> set (tp_postings e). unat (p_doc p) < length (ix_docs i)) \<and>
     (\<forall>p. is_live i (p_doc p) \<longrightarrow> (p \<in> set (tp_postings e) \<longleftrightarrow> tf_of U (doc_at i (p_doc p)) t = Some (p_tf p))) \<and>
     frontier (tp_impacts e) \<and> length (tp_impacts e) \<le> maxImpacts \<and>
     (\<forall>p \<in> set (tp_postings e). dominates (tp_impacts e) (p_tf p) (ix_lengths i ! unat (p_doc p)))"

definition df_of :: "unicode \<Rightarrow> sdoc list \<Rightarrow> str \<Rightarrow> nat" where
  "df_of U ds t = length (filter (\<lambda>d. tf_of U d t \<noteq> None) ds)"

definition terms_ok :: "unicode \<Rightarrow> index \<Rightarrow> sdoc list \<Rightarrow> bool" where
  "terms_ok U i ds \<longleftrightarrow> distinct (map fst (ix_terms i)) \<and>
     (\<forall>t. case map_of (ix_terms i) t of
        None \<Rightarrow> df_of U ds t = 0
      | Some e \<Rightarrow> entry_ok U i t e \<and> tp_df e = int (df_of U ds t) \<and> tp_df e > 0)"

definition slots_ok :: "unicode \<Rightarrow> index \<Rightarrow> bool" where
  "slots_ok U i \<longleftrightarrow> length (ix_lengths i) = length (ix_docs i) \<and> length (ix_live i) = length (ix_docs i) \<and>
     length (ix_docs i) \<le> unat noDoc \<and> distinct (map fst (ix_slots i)) \<and>
     (\<forall>k s. map_of (ix_slots i) k = Some s \<longleftrightarrow> is_live i s \<and> sd_ID (doc_at i s) = k) \<and>
     (\<forall>s. is_live i s \<longrightarrow> uint (ix_lengths i ! unat s) = int (doc_length U (doc_at i s)))"

definition index_ok :: "unicode \<Rightarrow> index \<Rightarrow> bool" where
  "index_ok U i \<longleftrightarrow> slots_ok U i \<and> terms_ok U i (live_docs i) \<and>
     ix_tokens i = int (sum_list (map (doc_length U) (live_docs i))) \<and>
     ix_dead i = int (length (ix_docs i)) - int (length (live_docs i))"

end
