(* ===== verification/SearchQuery.thy ===== *)
theory SearchQuery
  imports GoFloat TopK SearchIndex
begin

text \<open>
  Queries of \<^verbatim>\<open>internal/search/index.go\<close>: the cursors over posting lists, the evaluation with MaxScore pruning and the exhaustive one.
  Every floating-point operation of the code is an operation of \<open>GoFloat\<close>, in the order the code has; \<^verbatim>\<open>math.Log\<close> is the
  argument \<open>lg\<close>. A threshold of minus infinity is \<open>None\<close>.
\<close>

subsection \<open>Scores\<close>

text \<open>\<^verbatim>\<open>tf * 2.2 / (tf + 1.2*(1-0.75+0.75*length/avgLength))\<close>; the constant \<^verbatim>\<open>1-0.75\<close> is computed by the compiler.\<close>

definition bm25 :: "uint32 \<Rightarrow> uint32 \<Rightarrow> real \<Rightarrow> real" where
  "bm25 tf len avg =
     (let t = of_uint32 tf in
      fdiv (fmul t (round64 2.2))
        (fadd t (fmul (round64 1.2) (fadd 0.25 (fdiv (fmul 0.75 (of_uint32 len)) avg)))))"

definition idf_of :: "(real \<Rightarrow> real) \<Rightarrow> real \<Rightarrow> real \<Rightarrow> real" where
  "idf_of lg n df = lg (fadd 1 (fdiv (fadd (fsub n df) 0.5) (fadd df 0.5)))"

definition bound :: "termPostings \<Rightarrow> real \<Rightarrow> real \<Rightarrow> real" where
  "bound t idf avg =
     foldl (\<lambda>best p. let contribution = fmul idf (bm25 (im_tf p) (im_length p) avg) in if contribution > best then contribution else best)
       0 (tp_impacts t)"

definition below :: "real \<Rightarrow> real option \<Rightarrow> bool" where
  "below x threshold = (case threshold of None \<Rightarrow> False | Some t \<Rightarrow> x < t)"

subsection \<open>Cursors\<close>

record cursor =
  cu_postings :: "posting list"
  cu_pos :: nat
  cu_idf :: real
  cu_bound :: real

definition cursor_doc :: "cursor \<Rightarrow> uint32" where
  "cursor_doc c = (if cu_pos c < length (cu_postings c) then p_doc (cu_postings c ! cu_pos c) else noDoc)"

text \<open>The galloping loop of \<open>seek\<close>, with the step written as a power of two, and the binary search after it.\<close>

function gallop :: "posting list \<Rightarrow> uint32 \<Rightarrow> nat \<Rightarrow> nat \<Rightarrow> nat \<Rightarrow> nat \<times> nat" where
  "gallop p target_doc lo hi k =
     (if hi < length p \<and> p_doc (p ! hi) < target_doc then gallop p target_doc hi (hi + 2 ^ (k + 1)) (k + 1) else (lo, hi))"
  by pat_completeness auto
termination
  by (relation "measure (\<lambda>(p, target_doc, lo, hi, k). length p - hi)") (auto intro: diff_less_mono2)

function bisect :: "posting list \<Rightarrow> uint32 \<Rightarrow> nat \<Rightarrow> nat \<Rightarrow> nat" where
  "bisect p target_doc lo hi =
     (if lo + 1 < hi
      then let mid = (lo + hi) div 2 in
        if p_doc (p ! mid) < target_doc then bisect p target_doc mid hi else bisect p target_doc lo mid
      else hi)"
  by pat_completeness auto
termination
  by (relation "measure (\<lambda>(p, target_doc, lo, hi). hi - lo)") auto

declare gallop.simps [simp del] bisect.simps [simp del]

definition seek :: "cursor \<Rightarrow> uint32 \<Rightarrow> cursor" where
  "seek c target_doc =
     (let p = cu_postings c; lo = cu_pos c in
      if lo \<ge> length p \<or> p_doc (p ! lo) \<ge> target_doc then c
      else case gallop p target_doc lo (lo + 1) 0 of (lo, hi) \<Rightarrow> c\<lparr>cu_pos := bisect p target_doc lo (min hi (length p))\<rparr>)"

definition contribution :: "cursor \<Rightarrow> uint32 \<Rightarrow> real \<Rightarrow> real" where
  "contribution c len avg = fmul (cu_idf c) (bm25 (p_tf (cu_postings c ! cu_pos c)) len avg)"

text \<open>The document under the cursor with number \<open>k\<close>.\<close>

definition doc_under :: "cursor list \<Rightarrow> nat \<Rightarrow> uint32" where
  "doc_under cursors k = (if k < length cursors then cursor_doc (cursors ! k) else noDoc)"

definition next_doc :: "cursor list \<Rightarrow> nat list \<Rightarrow> uint32" where
  "next_doc cursors ks = foldl (\<lambda>d k. if doc_under cursors k < d then doc_under cursors k else d) noDoc ks"

definition advance :: "cursor list \<Rightarrow> nat list \<Rightarrow> uint32 \<Rightarrow> cursor list" where
  "advance cursors ks d =
     foldl (\<lambda>cs k. if doc_under cs k = d then cs[k := (cs ! k)\<lparr>cu_pos := cu_pos (cs ! k) + 1\<rparr>] else cs) cursors ks"

subsection \<open>Pruning\<close>

text \<open>The second loop of \<^verbatim>\<open>competitive\<close>, from the largest bound down; the last argument counts the cursors left to probe.\<close>

fun probe :: "nat list \<Rightarrow> real list \<Rightarrow> uint32 \<Rightarrow> uint32 \<Rightarrow> real \<Rightarrow> real option \<Rightarrow> real \<Rightarrow> cursor list \<Rightarrow> real \<Rightarrow> nat \<Rightarrow> cursor list \<times> bool" where
  "probe nonEssential pre d len avg threshold slack cursors part 0 = (cursors, True)"
| "probe nonEssential pre d len avg threshold slack cursors part (Suc j) =
     (if below (fmul (fadd part (pre ! j)) slack) threshold then (cursors, False)
      else
        let k = nonEssential ! j;
            c = seek (cursors ! k) d;
            part = (if cursor_doc c = d then fadd part (contribution c len avg) else part)
        in probe nonEssential pre d len avg threshold slack (cursors[k := c]) part j)"

definition competitive :: "cursor list \<Rightarrow> nat list \<Rightarrow> nat list \<Rightarrow> real list \<Rightarrow> uint32 \<Rightarrow> uint32 \<Rightarrow> real \<Rightarrow> real option \<Rightarrow> real \<Rightarrow> cursor list \<times> bool" where
  "competitive cursors nonEssential ess pre d len avg threshold slack =
     (if nonEssential = [] then (cursors, True)
      else
        let part = foldl (\<lambda>part k. if doc_under cursors k = d then fadd part (contribution (cursors ! k) len avg) else part) 0 ess
        in probe nonEssential pre d len avg threshold slack cursors part (length nonEssential))"

definition exactScore :: "cursor list \<Rightarrow> uint32 \<Rightarrow> uint32 \<Rightarrow> real \<Rightarrow> real" where
  "exactScore cursors d len avg =
     foldl (\<lambda>score c. if cu_pos c \<ge> length (cu_postings c) \<or> p_doc (cu_postings c ! cu_pos c) \<noteq> d then score
        else fadd score (contribution c len avg)) 0 cursors"

type_synonym pruning = "cursor list \<times> topK \<times> real option \<times> nat"

text \<open>What the loop does with a live document; the number is the count of non-essential cursors.\<close>

definition visit :: "index \<Rightarrow> real \<Rightarrow> nat list \<Rightarrow> real list \<Rightarrow> real \<Rightarrow> uint32 \<Rightarrow> pruning \<Rightarrow> pruning" where
  "visit i avg order pre slack d s =
     (case s of (cursors, tk, threshold, essential) \<Rightarrow>
        let len = ix_lengths i ! unat d in
        case competitive cursors (take essential order) (drop essential order) pre d len avg threshold slack of
          (cursors, False) \<Rightarrow> (cursors, tk, threshold, essential)
        | (cursors, True) \<Rightarrow>
            let score = exactScore cursors d len avg in
            if \<not> full tk \<or> \<not> below score threshold
            then (case offer tk \<lparr>h_score = score, h_slot = d, h_id = sd_ID (ix_docs i ! unat d)\<rparr> of
                (tk, taken) \<Rightarrow>
                  if taken \<and> full tk
                  then let threshold = Some (h_score (tk_hits tk ! 0)) in
                    (cursors, tk, threshold, scan_up (\<lambda>p. below (fmul p slack) threshold) pre essential)
                  else (cursors, tk, threshold, essential))
            else (cursors, tk, threshold, essential))"

subsection \<open>The loop ends\<close>

definition ahead :: "cursor \<Rightarrow> cursor \<Rightarrow> bool" where
  "ahead c c' \<longleftrightarrow> cu_postings c' = cu_postings c \<and> cu_idf c' = cu_idf c \<and> cu_bound c' = cu_bound c \<and> cu_pos c \<le> cu_pos c'"

definition all_ahead :: "cursor list \<Rightarrow> cursor list \<Rightarrow> bool" where
  "all_ahead = list_all2 ahead"

definition steps_left :: "cursor list \<Rightarrow> nat" where
  "steps_left cs = (\<Sum>k < length cs. length (cu_postings (cs ! k)) - cu_pos (cs ! k))"

lemma all_ahead_refl [simp]: "all_ahead cs cs"
  by (simp add: all_ahead_def list_all2_refl ahead_def)

lemma all_ahead_trans: "all_ahead a b \<Longrightarrow> all_ahead b c \<Longrightarrow> all_ahead a c"
  unfolding all_ahead_def by (rule list_all2_trans [of ahead ahead ahead]) (auto simp: ahead_def)

lemma all_ahead_length: "all_ahead cs cs' \<Longrightarrow> length cs' = length cs"
  unfolding all_ahead_def by (simp add: list_all2_lengthD)

lemma all_ahead_nth: "all_ahead cs cs' \<Longrightarrow> k < length cs \<Longrightarrow> ahead (cs ! k) (cs' ! k)"
  unfolding all_ahead_def by (rule list_all2_nthD)

lemma all_ahead_update:
  assumes "ahead (cs ! k) c"
  shows "all_ahead cs (cs[k := c])"
proof (cases "k < length cs")
  case True
  then show ?thesis using assms by (auto simp: all_ahead_def list_all2_conv_all_nth nth_list_update ahead_def)
qed (simp add: list_update_beyond)

lemma steps_left_less:
  assumes "all_ahead cs cs'" and "k < length cs" "cu_pos (cs ! k) < length (cu_postings (cs ! k))" "cu_pos (cs ! k) < cu_pos (cs' ! k)"
  shows "steps_left cs' < steps_left cs"
proof -
  have "length cs' = length cs" by (rule all_ahead_length [OF assms(1)])
  moreover have "(\<Sum>k < length cs. length (cu_postings (cs' ! k)) - cu_pos (cs' ! k)) <
      (\<Sum>k < length cs. length (cu_postings (cs ! k)) - cu_pos (cs ! k))"
    using assms(2-4) all_ahead_nth [OF assms(1)]
    by (intro sum_strict_mono_ex1) (auto simp: ahead_def intro!: bexI [of _ k] diff_le_mono2 diff_less_mono2)
  ultimately show ?thesis by (simp add: steps_left_def)
qed

lemma bisect_bounds: "lo < hi \<Longrightarrow> lo < bisect p d lo hi \<and> bisect p d lo hi \<le> hi"
proof (induction p d lo hi rule: bisect.induct)
  case (1 p d lo hi)
  show ?case
  proof (cases "lo + 1 < hi")
    case True
    then have "lo < (lo + hi) div 2" "(lo + hi) div 2 < hi" by auto
    with 1 True show ?thesis by (subst (1 2) bisect.simps) (fastforce simp: Let_def)
  qed (use 1 in \<open>simp add: bisect.simps\<close>)
qed

lemma gallop_bounds:
  assumes "gallop p d lo hi k = (lo', hi')" and "lo < hi" and "lo < length p"
  shows "lo \<le> lo' \<and> lo' < hi' \<and> lo' < length p"
  using assms
proof (induction p d lo hi k rule: gallop.induct)
  case (1 p d lo hi k)
  show ?case
  proof (cases "hi < length p \<and> p_doc (p ! hi) < d")
    case True
    then have "gallop p d hi (hi + 2 ^ (k + 1)) (k + 1) = (lo', hi')" using 1(2) by (simp add: gallop.simps)
    from 1(1) [OF True this] True 1(3) show ?thesis by simp
  next
    case False
    then have "lo' = lo" "hi' = hi" using 1(2) by (auto simp: gallop.simps)
    with 1(3,4) show ?thesis by simp
  qed
qed

lemma seek_fields: "cu_postings (seek c d) = cu_postings c" "cu_idf (seek c d) = cu_idf c" "cu_bound (seek c d) = cu_bound c"
  "cu_pos c \<le> cu_pos (seek c d)"
proof -
  show "cu_postings (seek c d) = cu_postings c" "cu_idf (seek c d) = cu_idf c" "cu_bound (seek c d) = cu_bound c"
    by (auto simp: seek_def Let_def split: prod.split)
  show "cu_pos c \<le> cu_pos (seek c d)"
  proof (cases "cu_pos c \<ge> length (cu_postings c) \<or> p_doc (cu_postings c ! cu_pos c) \<ge> d")
    case False
    obtain lo hi where g: "gallop (cu_postings c) d (cu_pos c) (cu_pos c + 1) 0 = (lo, hi)" by fastforce
    then have b: "cu_pos c \<le> lo \<and> lo < hi \<and> lo < length (cu_postings c)" using gallop_bounds False by auto
    then have "lo < bisect (cu_postings c) d lo (min hi (length (cu_postings c)))" using bisect_bounds by simp
    with b g False show ?thesis by (simp add: seek_def Let_def)
  qed (simp add: seek_def)
qed

lemma seek_moves: "ahead c (seek c d)"
  by (simp add: ahead_def seek_fields)

lemma probe_moves: "all_ahead cursors (fst (probe ne pre d len avg threshold slack cursors part j))"
proof (induction j arbitrary: cursors part)
  case (Suc j)
  have "all_ahead cursors (cursors[ne ! j := seek (cursors ! (ne ! j)) d])"
    by (rule all_ahead_update [OF seek_moves])
  with Suc show ?case by (auto simp: Let_def intro: all_ahead_trans)
qed simp

lemma competitive_moves: "all_ahead cursors (fst (competitive cursors ne ess pre d len avg threshold slack))"
  by (simp add: competitive_def Let_def probe_moves)

lemma visit_moves:
  assumes "visit i avg order pre slack d (cursors, tk, threshold, essential) = (cursors', tk', threshold', essential')"
  shows "all_ahead cursors cursors'" and "essential \<le> essential'"
proof -
  obtain cs ok where c: "competitive cursors (take essential order) (drop essential order) pre d (ix_lengths i ! unat d) avg threshold slack = (cs, ok)"
    by fastforce
  have "cursors' = cs" "essential \<le> essential'"
    using assms by (auto simp: visit_def Let_def c scan_up_def split: bool.splits if_splits prod.splits)
  then show "all_ahead cursors cursors'" "essential \<le> essential'"
    using competitive_moves [of cursors "take essential order" "drop essential order" pre d "ix_lengths i ! unat d" avg threshold slack]
    by (simp_all add: c)
qed

lemma advance_step:
  "all_ahead cs (if doc_under cs k = d then cs[k := (cs ! k)\<lparr>cu_pos := cu_pos (cs ! k) + 1\<rparr>] else cs)"
  by (auto intro!: all_ahead_update simp: ahead_def)

lemma advance_moves: "all_ahead cs (advance cs ks d)"
  unfolding advance_def
proof (induction ks arbitrary: cs)
  case (Cons k ks)
  then show ?case using all_ahead_trans [OF advance_step Cons] by simp
qed simp

lemma advance_advances:
  assumes "k \<in> set ks" "k < length cs" "doc_under cs k = d"
  shows "cu_pos (cs ! k) < cu_pos (advance cs ks d ! k)"
  using assms
proof (induction ks arbitrary: cs)
  case (Cons j ks)
  let ?cs = "if doc_under cs j = d then cs[j := (cs ! j)\<lparr>cu_pos := cu_pos (cs ! j) + 1\<rparr>] else cs"
  have rest: "advance cs (j # ks) d = advance ?cs ks d" by (simp add: advance_def)
  show ?case
  proof (cases "j = k")
    case True
    then have "cu_pos (cs ! k) < cu_pos (?cs ! k)" using Cons.prems by simp
    moreover have "cu_pos (?cs ! k) \<le> cu_pos (advance ?cs ks d ! k)"
      using all_ahead_nth [OF advance_moves, of k ?cs ks d] Cons.prems(2) by (simp add: ahead_def split: if_splits)
    ultimately show ?thesis unfolding rest by linarith
  next
    case False
    then have "?cs ! k = cs ! k" "length ?cs = length cs" by auto
    then show ?thesis using Cons.IH [of ?cs] Cons.prems False unfolding rest by (auto simp: doc_under_def)
  qed
qed simp

lemma next_doc_le: "next_doc cs ks \<le> noDoc" and next_doc_under: "next_doc cs ks \<noteq> noDoc \<Longrightarrow> \<exists>k \<in> set ks. doc_under cs k = next_doc cs ks"
  and next_doc_least: "k \<in> set ks \<Longrightarrow> next_doc cs ks \<le> doc_under cs k"
proof -
  define step where "step = (\<lambda>d k. if doc_under cs k < d then doc_under cs k else d)"
  have "foldl step d ks \<le> d \<and> (foldl step d ks \<noteq> d \<longrightarrow> (\<exists>k \<in> set ks. doc_under cs k = foldl step d ks)) \<and>
      (\<forall>k \<in> set ks. foldl step d ks \<le> doc_under cs k)" for d
  proof (induction ks arbitrary: d)
    case (Cons k ks)
    from Cons [of "step d k"] show ?case by (auto simp: step_def intro: order_trans split: if_splits)
  qed simp
  from this [of noDoc] show "next_doc cs ks \<le> noDoc"
    "next_doc cs ks \<noteq> noDoc \<Longrightarrow> \<exists>k \<in> set ks. doc_under cs k = next_doc cs ks"
    "k \<in> set ks \<Longrightarrow> next_doc cs ks \<le> doc_under cs k"
    by (auto simp: next_doc_def step_def)
qed

lemma doc_under_some: "doc_under cs k \<noteq> noDoc \<Longrightarrow> k < length cs \<and> cu_pos (cs ! k) < length (cu_postings (cs ! k))"
  by (auto simp: doc_under_def cursor_doc_def split: if_splits)

lemma steps_left_le:
  assumes "all_ahead cs cs'"
  shows "steps_left cs' \<le> steps_left cs"
  using all_ahead_nth [OF assms] all_ahead_length [OF assms]
  by (auto simp: steps_left_def ahead_def intro!: sum_mono diff_le_mono2)

lemma round_progress:
  assumes "d = next_doc cs (drop essential order)" "d \<noteq> noDoc" and "all_ahead cs cs'"
  shows "steps_left (advance cs' (drop essential order) d) < steps_left cs"
proof -
  obtain k where k: "k \<in> set (drop essential order)" "doc_under cs k = d" using next_doc_under assms(1,2) by metis
  then have inside: "k < length cs" "cu_pos (cs ! k) < length (cu_postings (cs ! k))" using doc_under_some assms(2) by auto
  have ahead': "ahead (cs ! k) (cs' ! k)" "length cs' = length cs"
    using all_ahead_nth [OF assms(3) inside(1)] all_ahead_length [OF assms(3)] by auto
  have more: "all_ahead cs' (advance cs' (drop essential order) d)" by (rule advance_moves)
  show ?thesis
  proof (cases "cu_pos (cs' ! k) = cu_pos (cs ! k)")
    case True
    then have "doc_under cs' k = d" using k(2) ahead' inside by (auto simp: doc_under_def cursor_doc_def ahead_def)
    then have "cu_pos (cs' ! k) < cu_pos (advance cs' (drop essential order) d ! k)"
      using advance_advances k(1) inside(1) ahead'(2) by simp
    then show ?thesis using True all_ahead_trans [OF assms(3) more] steps_left_less inside by metis
  next
    case False
    then have "steps_left cs' < steps_left cs" using steps_left_less [OF assms(3) inside] ahead' by (simp add: ahead_def)
    then show ?thesis using steps_left_le [OF more] by simp
  qed
qed

text \<open>A round passes a posting or makes a cursor non-essential.\<close>

function pruned_loop :: "index \<Rightarrow> real \<Rightarrow> nat list \<Rightarrow> real list \<Rightarrow> real \<Rightarrow> pruning \<Rightarrow> topK" where
  "pruned_loop i avg order pre slack (cursors, tk, threshold, essential) =
     (if essential \<ge> length order then tk
      else
        let d = next_doc cursors (drop essential order) in
        if d = noDoc then tk
        else case (if ix_live i ! unat d then visit i avg order pre slack d (cursors, tk, threshold, essential)
                   else (cursors, tk, threshold, essential)) of
          (cursors, tk, threshold, essential) \<Rightarrow>
            pruned_loop i avg order pre slack (advance cursors (drop essential order) d, tk, threshold, essential))"
  by pat_completeness auto
termination
proof (relation "measures [\<lambda>(i, avg, order, pre, slack, cursors, tk, threshold, essential). length order - essential,
    \<lambda>(i, avg, order, pre, slack, cursors, tk, threshold, essential). steps_left cursors]", goal_cases)
  case (2 i avg order pre slack cursors tk threshold essential d cursors' y tk' z threshold' essential')
  have eq: "(if ix_live i ! unat d then visit i avg order pre slack d (cursors, tk, threshold, essential)
      else (cursors, tk, threshold, essential)) = (cursors', tk', threshold', essential')"
    using 2(4-6) by simp
  then have "all_ahead cursors cursors' \<and> essential \<le> essential'"
    using visit_moves [of i avg order pre slack d cursors tk threshold essential cursors' tk' threshold' essential']
    by (cases "ix_live i ! unat d") simp_all
  then show ?case using 2(1-3) round_progress [OF 2(2,3), of cursors'] by (cases "essential' = essential") auto
qed simp

declare pruned_loop.simps [simp del]

subsection \<open>Evaluating a query\<close>

definition prefix_sums :: "real list \<Rightarrow> real list" where
  "prefix_sums bs = map (\<lambda>j. foldl fadd 0 (take (Suc j) bs)) [0..<length bs]"

definition scorePruned :: "index \<Rightarrow> cursor list \<Rightarrow> real \<Rightarrow> topK \<Rightarrow> topK" where
  "scorePruned i cursors avg tk =
     (let order = sort_key (\<lambda>k. cu_bound (cursors ! k)) [0..<length cursors];
          pre = prefix_sums (map (\<lambda>k. cu_bound (cursors ! k)) order);
          slack = fadd 1 (fmul (real (length cursors + 16)) (round64 (1 / 10 ^ 12)))
      in pruned_loop i avg order pre slack (cursors, tk, None, 0))"

text \<open>The dense accumulator: scores, the documents matched and the order in which they were found.\<close>

type_synonym accumulator = "real list \<times> bool list \<times> uint32 list"

definition add_posting :: "index \<Rightarrow> real \<Rightarrow> real \<Rightarrow> accumulator \<Rightarrow> posting \<Rightarrow> accumulator" where
  "add_posting i avg idf acc p =
     (case acc of (scores, matched, touched) \<Rightarrow>
        let n = unat (p_doc p) in
        if \<not> ix_live i ! n then acc
        else
          (scores[n := fadd (scores ! n) (fmul idf (bm25 (p_tf p) (ix_lengths i ! n) avg))], matched[n := True],
           if matched ! n then touched else touched @ [p_doc p]))"

definition offer_touched :: "index \<Rightarrow> real list \<Rightarrow> topK \<Rightarrow> uint32 \<Rightarrow> topK" where
  "offer_touched i scores tk d =
     (let score = scores ! unat d in
      if \<not> full tk \<or> score \<ge> h_score (tk_hits tk ! 0)
      then fst (offer tk \<lparr>h_score = score, h_slot = d, h_id = sd_ID (ix_docs i ! unat d)\<rparr>)
      else tk)"

definition scoreExhaustive :: "index \<Rightarrow> cursor list \<Rightarrow> real \<Rightarrow> topK \<Rightarrow> topK" where
  "scoreExhaustive i cursors avg tk =
     (let n = length (ix_docs i);
          (scores, matched, touched) =
            foldl (\<lambda>acc c. foldl (add_posting i avg (cu_idf c)) acc (cu_postings c)) (replicate n 0, replicate n False, []) cursors
      in foldl (offer_touched i scores) tk touched)"

fun cursors_loop :: "(real \<Rightarrow> real) \<Rightarrow> index \<Rightarrow> real \<Rightarrow> real \<Rightarrow> str set \<Rightarrow> str list \<Rightarrow> cursor list" where
  "cursors_loop lg i n avg seen [] = []"
| "cursors_loop lg i n avg seen (t # ts) =
     (if t \<in> seen then cursors_loop lg i n avg seen ts
      else case map_of (ix_terms i) t of
        None \<Rightarrow> cursors_loop lg i n avg (insert t seen) ts
      | Some e \<Rightarrow>
          let idf = idf_of lg n (round64 (of_int (tp_df e))) in
          \<lparr>cu_postings = tp_postings e, cu_pos = 0, cu_idf = idf, cu_bound = bound e idf avg\<rparr> # cursors_loop lg i n avg (insert t seen) ts)"

definition maxPrunedTerms :: nat where "maxPrunedTerms = 16"

record search_result =
  r_ID :: str
  r_Title :: str
  r_Score :: real

definition Search :: "unicode \<Rightarrow> (real \<Rightarrow> real) \<Rightarrow> index \<Rightarrow> str \<Rightarrow> int \<Rightarrow> search_result list" where
  "Search U lg i query limit =
     (if limit \<le> 0 \<or> length (ix_slots i) = 0 then []
      else
        let n = round64 (real (length (ix_slots i)));
            avg = fdiv (round64 (of_int (ix_tokens i))) n;
            cursors = cursors_loop lg i n avg {} (tokenize U query);
            tk = \<lparr>tk_limit = nat limit, tk_hits = []\<rparr>;
            tk = (if length cursors > maxPrunedTerms then scoreExhaustive i cursors avg tk
                   else if length cursors > 0 then scorePruned i cursors avg tk else tk)
        in map (\<lambda>h. \<lparr>r_ID = h_id h, r_Title = sd_Title (ix_docs i ! unat (h_slot h)), r_Score = h_score h\<rparr>)
             (rev (sort_key standing (tk_hits tk))))"

end
