(* ===== verification/SearchBound.thy ===== *)
theory SearchBound
  imports SearchQuery
begin

text \<open>
  What the numbers of a query are worth. A cursor that has been moved to a document knows its contribution; rounded sums of contributions
  are near the exact ones; the bound of a term exceeds every contribution up to a few roundings; and the slack of the code covers all
  roundings, so that a document is only given up when its score is below the threshold.
\<close>

subsection \<open>Positions of cursors\<close>

definition ascending_docs :: "posting list \<Rightarrow> bool" where
  "ascending_docs ps \<longleftrightarrow> sorted_wrt (\<lambda>p q. p_doc p < p_doc q) ps"

definition tf_in :: "posting list \<Rightarrow> uint32 \<Rightarrow> uint32 option" where
  "tf_in ps d = map_option p_tf (find (\<lambda>p. p_doc p = d) ps)"

definition behind :: "cursor \<Rightarrow> nat \<Rightarrow> bool" where
  "behind c f \<longleftrightarrow> (\<forall>j < cu_pos c. j < length (cu_postings c) \<longrightarrow> unat (p_doc (cu_postings c ! j)) < f)"

definition positioned :: "cursor \<Rightarrow> nat \<Rightarrow> bool" where
  "positioned c f \<longleftrightarrow> behind c f \<and> (\<forall>j. cu_pos c \<le> j \<and> j < length (cu_postings c) \<longrightarrow> f \<le> unat (p_doc (cu_postings c ! j)))"

lemma ascending_nth: "ascending_docs ps \<Longrightarrow> j < k \<Longrightarrow> k < length ps \<Longrightarrow> p_doc (ps ! j) < p_doc (ps ! k)"
  unfolding ascending_docs_def by (rule sorted_wrt_nth_less)

lemma tf_in_nth:
  assumes "ascending_docs ps" and "j < length ps"
  shows "tf_in ps (p_doc (ps ! j)) = Some (p_tf (ps ! j))"
proof -
  have "find (\<lambda>p. p_doc p = p_doc (ps ! j)) ps = Some (ps ! j)"
    unfolding find_Some_iff using assms ascending_nth [OF assms(1)] by (metis less_irrefl order_less_trans)
  then show ?thesis by (simp add: tf_in_def)
qed

lemma tf_in_some: "tf_in ps d = Some tf \<Longrightarrow> \<exists>j < length ps. ps ! j = \<lparr>p_doc = d, p_tf = tf\<rparr>"
  by (auto simp: tf_in_def find_Some_iff intro!: posting.equality)

lemma tf_in_iff:
  assumes "ascending_docs ps"
  shows "tf_in ps d = Some tf \<longleftrightarrow> \<lparr>p_doc = d, p_tf = tf\<rparr> \<in> set ps"
proof
  assume "\<lparr>p_doc = d, p_tf = tf\<rparr> \<in> set ps"
  then obtain j where "j < length ps" "ps ! j = \<lparr>p_doc = d, p_tf = tf\<rparr>" by (metis in_set_conv_nth)
  then show "tf_in ps d = Some tf" using tf_in_nth [OF assms, of j] by simp
qed (auto dest!: tf_in_some simp: in_set_conv_nth)

lemma tf_in_None: "tf_in ps d = None \<longleftrightarrow> (\<forall>p \<in> set ps. p_doc p \<noteq> d)"
  by (auto simp: tf_in_def find_None_iff)

text \<open>A cursor moved to a document is on its posting if it has one.\<close>

lemma positioned_on:
  assumes "ascending_docs (cu_postings c)" and "positioned c (unat d)" and "d \<noteq> noDoc"
  shows "cursor_doc c = d \<longleftrightarrow> tf_in (cu_postings c) d \<noteq> None"
    and "cursor_doc c = d \<Longrightarrow> cu_pos c < length (cu_postings c) \<and> tf_in (cu_postings c) d = Some (p_tf (cu_postings c ! cu_pos c))"
proof -
  let ?ps = "cu_postings c"
  show on: "cu_pos c < length ?ps \<and> tf_in ?ps d = Some (p_tf (?ps ! cu_pos c))" if "cursor_doc c = d"
    using that assms(1,3) tf_in_nth [of ?ps "cu_pos c"] by (auto simp: cursor_doc_def split: if_splits)
  show "cursor_doc c = d \<longleftrightarrow> tf_in ?ps d \<noteq> None"
  proof
    assume "tf_in ?ps d \<noteq> None"
    then obtain j where j: "j < length ?ps" "p_doc (?ps ! j) = d" by (auto dest!: tf_in_some)
    have "cu_pos c \<le> j" using assms(2) j by (auto simp: positioned_def behind_def not_less [symmetric])
    moreover have "\<not> cu_pos c < j"
    proof
      assume less: "cu_pos c < j"
      then have "p_doc (?ps ! cu_pos c) < d" using ascending_nth [OF assms(1) less] j by simp
      moreover have "unat d \<le> unat (p_doc (?ps ! cu_pos c))" using assms(2) less j by (auto simp: positioned_def)
      ultimately show False by (simp add: word_less_nat_alt)
    qed
    ultimately show "cursor_doc c = d" using j by (auto simp: cursor_doc_def)
  qed (use on in auto)
qed

lemma bisect_spec:
  assumes "ascending_docs p" and "lo < hi" "hi \<le> length p" and "p_doc (p ! lo) < d" and "hi < length p \<Longrightarrow> d \<le> p_doc (p ! hi)"
  shows "lo < bisect p d lo hi \<and> bisect p d lo hi \<le> hi \<and> p_doc (p ! (bisect p d lo hi - 1)) < d \<and>
    (bisect p d lo hi < length p \<longrightarrow> d \<le> p_doc (p ! bisect p d lo hi))"
  using assms
proof (induction p d lo hi rule: bisect.induct)
  case (1 p d lo hi)
  show ?case
  proof (cases "lo + 1 < hi")
    case True
    let ?mid = "(lo + hi) div 2"
    have mid: "lo < ?mid" "?mid < hi" using True by auto
    show ?thesis
    proof (cases "p_doc (p ! ?mid) < d")
      case less: True
      have "bisect p d lo hi = bisect p d ?mid hi" using True less by (subst bisect.simps) (simp add: Let_def)
      with 1(1) [OF True refl less] 1(3-) mid less show ?thesis by auto
    next
      case False
      have "bisect p d lo hi = bisect p d lo ?mid" using True False by (subst bisect.simps) (simp add: Let_def)
      with 1(2) [OF True refl False] 1(3-) mid False show ?thesis by (auto simp: not_less)
    qed
  next
    case False
    then have "hi = lo + 1" using 1(4) by simp
    moreover have "bisect p d lo hi = hi" using False by (simp add: bisect.simps)
    ultimately show ?thesis using 1 by auto
  qed
qed

lemma gallop_spec:
  assumes "gallop p d lo hi k = (lo', hi')" and "lo < hi" and "lo < length p" and "p_doc (p ! lo) < d"
  shows "lo' < hi' \<and> lo' < length p \<and> p_doc (p ! lo') < d \<and> (hi' < length p \<longrightarrow> d \<le> p_doc (p ! hi'))"
  using assms
proof (induction p d lo hi k rule: gallop.induct)
  case (1 p d lo hi k)
  show ?case
  proof (cases "hi < length p \<and> p_doc (p ! hi) < d")
    case True
    then have "gallop p d hi (hi + 2 ^ (k + 1)) (k + 1) = (lo', hi')" using 1(2) by (simp add: gallop.simps)
    from 1(1) [OF True this] True show ?thesis by simp
  next
    case False
    then have "lo' = lo" "hi' = hi" using 1(2) by (auto simp: gallop.simps)
    with 1(3-5) False show ?thesis by auto
  qed
qed

lemma seek_positioned:
  assumes asc: "ascending_docs (cu_postings c)" and beh: "behind c (unat d)"
  shows "positioned (seek c d) (unat d)"
proof -
  let ?p = "cu_postings c"
  have after: "unat d \<le> unat (p_doc (?p ! j))" if "d \<le> p_doc (?p ! n)" "n \<le> j" "j < length ?p" for n j
    using that ascending_nth [OF asc, of n j] by (cases "n = j") (auto simp: word_le_nat_alt word_less_nat_alt)
  show ?thesis
  proof (cases "cu_pos c \<ge> length ?p \<or> p_doc (?p ! cu_pos c) \<ge> d")
    case True
    then have "seek c d = c" by (auto simp: seek_def)
    with True beh after show ?thesis by (fastforce simp: positioned_def)
  next
    case False
    then have lo: "cu_pos c < length ?p" "p_doc (?p ! cu_pos c) < d" by auto
    obtain lo' hi' where g: "gallop ?p d (cu_pos c) (cu_pos c + 1) 0 = (lo', hi')" by fastforce
    from gallop_spec [OF g _ lo] have g': "lo' < hi'" "lo' < length ?p" "p_doc (?p ! lo') < d" "hi' < length ?p \<longrightarrow> d \<le> p_doc (?p ! hi')"
      by auto
    let ?q = "bisect ?p d lo' (min hi' (length ?p))"
    have q: "lo' < ?q" "?q \<le> length ?p" "p_doc (?p ! (?q - 1)) < d" "?q < length ?p \<longrightarrow> d \<le> p_doc (?p ! ?q)"
      using bisect_spec [OF asc, of lo' "min hi' (length ?p)" d] g' by (auto simp: min_def split: if_splits)
    have s: "seek c d = c\<lparr>cu_pos := ?q\<rparr>" using False g by (simp add: seek_def Let_def)
    have "unat (p_doc (?p ! j)) < unat d" if "j < ?q" for j
    proof -
      have "p_doc (?p ! j) \<le> p_doc (?p ! (?q - 1))"
      proof (cases "j = ?q - 1")
        case False
        then have "j < ?q - 1" "?q - 1 < length ?p" using that q(1,2) by linarith+
        from ascending_nth [OF asc this] show ?thesis by simp
      qed simp
      with q(3) show ?thesis by (simp add: word_less_nat_alt word_le_nat_alt)
    qed
    with q(4) after show ?thesis by (auto simp: positioned_def behind_def s)
  qed
qed

subsection \<open>Scores by document\<close>

definition part_of :: "cursor \<Rightarrow> uint32 \<Rightarrow> uint32 \<Rightarrow> real \<Rightarrow> real option" where
  "part_of c d len avg = map_option (\<lambda>tf. fmul (cu_idf c) (bm25 tf len avg)) (tf_in (cu_postings c) d)"

definition add_part :: "real \<Rightarrow> real option \<Rightarrow> real" where
  "add_part s x = (case x of None \<Rightarrow> s | Some y \<Rightarrow> fadd s y)"

definition value_of :: "real option \<Rightarrow> real" where "value_of x = (case x of None \<Rightarrow> 0 | Some y \<Rightarrow> y)"

definition doc_score :: "cursor list \<Rightarrow> uint32 \<Rightarrow> uint32 \<Rightarrow> real \<Rightarrow> real" where
  "doc_score cs d len avg = foldl add_part 0 (map (\<lambda>c. part_of c d len avg) cs)"

lemma contribution_part:
  assumes "ascending_docs (cu_postings c)" and "positioned c (unat d)" and "d \<noteq> noDoc"
  shows "part_of c d len avg = (if cursor_doc c = d then Some (contribution c len avg) else None)"
  using positioned_on [OF assms] by (auto simp: part_of_def contribution_def)

lemma exactScore_eq:
  assumes "\<forall>c \<in> set cs. ascending_docs (cu_postings c) \<and> positioned c (unat d)" and "d \<noteq> noDoc"
  shows "exactScore cs d len avg = doc_score cs d len avg"
proof -
  have "foldl (\<lambda>score c. if cu_pos c \<ge> length (cu_postings c) \<or> p_doc (cu_postings c ! cu_pos c) \<noteq> d then score
        else fadd score (contribution c len avg)) s cs = foldl add_part s (map (\<lambda>c. part_of c d len avg) cs)" for s
    using assms(1)
  proof (induction cs arbitrary: s)
    case (Cons c cs)
    have "(if cu_pos c \<ge> length (cu_postings c) \<or> p_doc (cu_postings c ! cu_pos c) \<noteq> d then s else fadd s (contribution c len avg)) =
        add_part s (part_of c d len avg)"
      using Cons.prems contribution_part [of c d len avg] assms(2)
      by (auto simp: add_part_def cursor_doc_def split: if_splits)
    with Cons show ?case by simp
  qed simp
  then show ?thesis by (simp add: exactScore_def doc_score_def)
qed

lemma same_parts: "map cu_postings cs = map cu_postings cs' \<Longrightarrow> map cu_idf cs = map cu_idf cs' \<Longrightarrow>
  map (\<lambda>c. part_of c d len avg) cs = map (\<lambda>c. part_of c d len avg) cs'"
  by (induction cs cs' rule: list_induct2') (auto simp: part_of_def)

subsection \<open>Rounded scores\<close>

definition exact_bm25 :: "real \<Rightarrow> real \<Rightarrow> real \<Rightarrow> real" where
  "exact_bm25 t l avg = t * round64 2.2 / (t + round64 1.2 * (0.25 + 0.75 * l / avg))"

lemma bm25_near:
  assumes "0 \<le> avg"
  shows "near 7 (exact_bm25 (of_uint32 tf) (of_uint32 len) avg) (bm25 tf len avg)"
proof -
  let ?t = "of_uint32 tf" and ?l = "of_uint32 len"
  have c: "0 \<le> round64 2.2" "0 \<le> round64 1.2" by simp_all
  have num: "near (Suc 0) (?t * round64 2.2) (fmul ?t (round64 2.2))"
    using fmul_near [of 0 ?t ?t 0 "round64 2.2" "round64 2.2"] c by simp
  have "near (Suc 0) (0.75 * ?l) (fmul 0.75 ?l)" using fmul_near [of 0 "0.75" "0.75" 0 ?l ?l] by simp
  from fdiv_near [OF this, of 0 avg avg] assms have "near (Suc (Suc 0)) (0.75 * ?l / avg) (fdiv (fmul 0.75 ?l) avg)" by simp
  from fadd_near [OF near_refl this, of "0.25"]
  have "near (Suc (Suc (Suc 0))) (0.25 + 0.75 * ?l / avg) (fadd 0.25 (fdiv (fmul 0.75 ?l) avg))" by simp
  from fmul_near [OF near_refl [OF c(2), of 0] this]
  have "near 4 (round64 1.2 * (0.25 + 0.75 * ?l / avg)) (fmul (round64 1.2) (fadd 0.25 (fdiv (fmul 0.75 ?l) avg)))"
    by (simp add: numeral_eq_Suc)
  from fadd_near [OF near_refl this, of ?t]
  have "near 5 (?t + round64 1.2 * (0.25 + 0.75 * ?l / avg)) (fadd ?t (fmul (round64 1.2) (fadd 0.25 (fdiv (fmul 0.75 ?l) avg))))"
    by (simp add: numeral_eq_Suc)
  from fdiv_near [OF num this] show ?thesis
    by (simp add: exact_bm25_def bm25_def Let_def numeral_eq_Suc)
qed

lemma exact_bm25_mono:
  assumes "0 \<le> avg" "0 \<le> t" "t \<le> t'" "0 \<le> l'" "l' \<le> l"
  shows "exact_bm25 t l avg \<le> exact_bm25 t' l' avg"
proof -
  have "1 \<le> round64 1.2" by (rule round64_ge_1) simp
  then have c: "0 < round64 1.2" "0 \<le> round64 2.2" by simp_all
  define K K' where "K = round64 1.2 * (0.25 + 0.75 * l / avg)" and "K' = round64 1.2 * (0.25 + 0.75 * l' / avg)"
  have "0.75 * l' / avg \<le> 0.75 * l / avg" using assms by (intro divide_right_mono) auto
  then have K: "K' \<le> K" using c unfolding K_def K'_def by (intro mult_left_mono) auto
  have pos: "0 < K'" using c assms unfolding K'_def by (intro mult_pos_pos add_pos_nonneg divide_nonneg_nonneg) auto
  have "t * K' \<le> t' * K" using assms K pos by (intro mult_mono) auto
  then have "t * (t' + K') \<le> t' * (t + K)" by (simp add: algebra_simps)
  then have "t / (t + K) \<le> t' / (t' + K')" using assms K pos by (simp add: divide_le_eq le_divide_eq field_simps)
  then have "t / (t + K) * round64 2.2 \<le> t' / (t' + K') * round64 2.2" using c by (intro mult_right_mono)
  then show ?thesis unfolding exact_bm25_def K_def [symmetric] K'_def [symmetric] by simp
qed

lemma bm25_nonneg: "0 \<le> avg \<Longrightarrow> 0 \<le> bm25 tf len avg"
  using near_nonneg(2) [OF bm25_near] .

lemma fmul_nonneg: "0 \<le> x \<Longrightarrow> 0 \<le> y \<Longrightarrow> 0 \<le> fmul x y"
  by (simp add: fmul_def)

lemma contribution_near:
  assumes "0 \<le> idf" "0 \<le> avg"
  shows "near 8 (idf * exact_bm25 (of_uint32 tf) (of_uint32 len) avg) (fmul idf (bm25 tf len avg))"
  using fmul_near [OF near_refl [OF assms(1), of 0] bm25_near [OF assms(2)], of tf len] by (simp add: numeral_eq_Suc)

lemma bound_max:
  fixes x :: real
  assumes "\<forall>p \<in> set ps. f p \<ge> 0" and "0 \<le> x"
  defines "b \<equiv> foldl (\<lambda>best p. let contribution = f p in if contribution > best then contribution else best) x ps"
  shows "x \<le> b \<and> (\<forall>p \<in> set ps. f p \<le> b)"
  unfolding b_def using assms(2)
proof (induction ps arbitrary: x)
  case (Cons p ps)
  have "0 \<le> max x (f p)" using Cons.prems by simp
  moreover have "(let contribution = f p in if contribution > x then contribution else x) = max x (f p)" by (simp add: Let_def)
  ultimately show ?case using Cons.IH [of "max x (f p)"] by auto
qed simp

text \<open>The frontier of a term bounds the contribution of every posting it dominates.\<close>

lemma bound_covers:
  assumes "0 \<le> idf" "0 \<le> avg" and "dominates (tp_impacts e) tf len"
  shows "fmul idf (bm25 tf len avg) \<le> bound e idf avg * (1 + ulp) ^ 16"
proof -
  obtain p where p: "p \<in> set (tp_impacts e)" "tf \<le> im_tf p" "im_length p \<le> len"
    using assms(3) by (auto simp: dominates_def covers_def)
  have "fmul idf (bm25 tf len avg) \<le> idf * exact_bm25 (of_uint32 tf) (of_uint32 len) avg * (1 + ulp) ^ 8"
    using contribution_near [OF assms(1,2), of tf len] by (simp add: near_def)
  also have "\<dots> \<le> idf * exact_bm25 (of_uint32 (im_tf p)) (of_uint32 (im_length p)) avg * (1 + ulp) ^ 8"
    using p assms(1,2) exact_bm25_mono [of avg "of_uint32 tf" "of_uint32 (im_tf p)" "of_uint32 (im_length p)" "of_uint32 len"]
    by (intro mult_right_mono mult_left_mono) (auto intro: of_uint32_mono)
  also have "\<dots> \<le> fmul idf (bm25 (im_tf p) (im_length p) avg) * (1 + ulp) ^ 8 * (1 + ulp) ^ 8"
    using contribution_near [OF assms(1,2), of "im_tf p" "im_length p"] by (intro mult_right_mono) (auto simp: near_def)
  also have "\<dots> = fmul idf (bm25 (im_tf p) (im_length p) avg) * (1 + ulp) ^ 16"
    by (simp add: power_add [symmetric] mult.assoc)
  also have "\<dots> \<le> bound e idf avg * (1 + ulp) ^ 16"
    using bound_max [of "tp_impacts e" "\<lambda>p. fmul idf (bm25 (im_tf p) (im_length p) avg)" 0] p(1) assms(1,2)
    unfolding bound_def by (intro mult_right_mono) (auto simp: fmul_nonneg bm25_nonneg)
  finally show ?thesis .
qed

lemma bound_nonneg:
  assumes "0 \<le> idf" "0 \<le> avg"
  shows "0 \<le> bound e idf avg"
  using bound_max [of "tp_impacts e" "\<lambda>p. fmul idf (bm25 (im_tf p) (im_length p) avg)" 0] assms
  unfolding bound_def by (auto simp: fmul_nonneg bm25_nonneg)

subsection \<open>Rounded sums\<close>

definition nonneg_parts :: "real option list \<Rightarrow> bool" where
  "nonneg_parts xs \<longleftrightarrow> (\<forall>x \<in> set xs. 0 \<le> value_of x)"

lemma add_parts_near:
  assumes "nonneg_parts xs" and "near k a s"
  shows "near (k + length xs) (a + sum_list (map value_of xs)) (foldl add_part s xs)"
  using assms
proof (induction xs arbitrary: k a s)
  case (Cons x xs)
  have "near (Suc k) (a + value_of x) (add_part s x)"
  proof (cases x)
    case None
    then show ?thesis using near_mono [OF Cons.prems(2), of "Suc k"] by (simp add: value_of_def add_part_def)
  next
    case (Some y)
    then show ?thesis using fadd_near [OF Cons.prems(2) near_refl] Cons.prems(1)
      by (simp add: value_of_def add_part_def nonneg_parts_def)
  qed
  from Cons.IH [OF _ this] Cons.prems(1) show ?case by (simp add: nonneg_parts_def ac_simps)
qed simp

lemma sums_near:
  assumes "\<forall>b \<in> set bs. 0 \<le> b"
  shows "near (length bs) (sum_list bs) (foldl fadd 0 bs)"
proof -
  have "foldl fadd s bs = foldl add_part s (map Some bs)" for s
    by (induction bs arbitrary: s) (simp_all add: add_part_def)
  moreover have "nonneg_parts (map Some bs)" using assms by (simp add: nonneg_parts_def value_of_def)
  moreover have "map value_of (map Some bs) = bs" by (simp add: value_of_def comp_def)
  ultimately show ?thesis using add_parts_near [of "map Some bs" 0 0 0] by (simp del: map_map)
qed

lemma prefix_near:
  assumes "\<forall>b \<in> set bs. 0 \<le> b" and "j < length bs"
  shows "near (Suc j) (sum_list (take (Suc j) bs)) (prefix_sums bs ! j)"
proof -
  have "near (length (take (Suc j) bs)) (sum_list (take (Suc j) bs)) (foldl fadd 0 (take (Suc j) bs))"
    using assms(1) by (intro sums_near) (auto dest: in_set_takeD)
  then show ?thesis using assms(2) by (simp add: prefix_sums_def min_absorb2)
qed

subsection \<open>The slack covers the roundings\<close>

definition slack_of :: "nat \<Rightarrow> real" where
  "slack_of m = fadd 1 (fmul (real (m + 16)) (round64 (1 / 10 ^ 12)))"

lemma power_small: "0 \<le> x \<Longrightarrow> x * real n < 1 \<Longrightarrow> (1 + x) ^ n \<le> 1 / (1 - x * real n)" for x :: real
proof -
  assume x: "0 \<le> x" "x * real n < 1"
  have "x \<le> 1 \<or> n = 0"
  proof (cases n)
    case (Suc k)
    have "0 \<le> x * real k" using x by simp
    moreover have "x + x * real k < 1" using x Suc by (simp add: algebra_simps)
    ultimately have "x \<le> 1" by linarith
    then show ?thesis ..
  qed simp
  then have "1 - x * real n \<le> (1 - x) ^ n"
    using Bernoulli_inequality [of "- x" n] by (auto simp: algebra_simps)
  moreover have "(1 + x) ^ n * (1 - x) ^ n \<le> 1"
  proof -
    have "((1 + x) * (1 - x)) ^ n \<le> 1"
    proof (cases "n = 0")
      case False
      then have "0 \<le> (1 + x) * (1 - x)" using \<open>x \<le> 1 \<or> n = 0\<close> x by simp
      moreover have "(1 + x) * (1 - x) \<le> 1" by (simp add: algebra_simps)
      ultimately show ?thesis by (intro power_le_one)
    qed simp
    then show ?thesis by (simp add: power_mult_distrib)
  qed
  ultimately have "(1 + x) ^ n * (1 - x * real n) \<le> 1"
    using x by (meson mult_left_mono order_trans zero_le_power add_nonneg_nonneg zero_le_one)
  then show "(1 + x) ^ n \<le> 1 / (1 - x * real n)" using x by (simp add: le_divide_eq)
qed

lemma slack_enough: "(1 + ulp) ^ 50 \<le> slack_of m"
proof -
  have "near 1 (1 / 10 ^ 12) (round64 (1 / 10 ^ 12))" by (rule round64_near) simp
  from fmul_near [OF near_refl this, of "real (m + 16)" 0]
  have "near 2 (real (m + 16) * (1 / 10 ^ 12)) (fmul (real (m + 16)) (round64 (1 / 10 ^ 12)))" by (simp add: numeral_2_eq_2)
  from fadd_near [OF near_refl this, of 1]
  have "near 3 (1 + real (m + 16) * (1 / 10 ^ 12)) (slack_of m)" by (simp add: slack_of_def numeral_3_eq_3)
  then have "1 + real (m + 16) * (1 / 10 ^ 12) \<le> slack_of m * (1 + ulp) ^ 3" by (simp add: near_def)
  moreover have "1 + 1 / 10 ^ 12 \<le> 1 + real (m + 16) * (1 / 10 ^ 12)" by simp
  ultimately have a: "1 + 1 / 10 ^ 12 \<le> slack_of m * (1 + ulp) ^ 3" by linarith
  have "(1 + ulp) ^ 53 \<le> 1 / (1 - ulp * 53)" using power_small [of ulp 53] by (simp add: ulp_def)
  also have "\<dots> \<le> 1 + 1 / 10 ^ 12" by (simp add: ulp_def)
  finally have "(1 + ulp) ^ 50 * (1 + ulp) ^ 3 \<le> slack_of m * (1 + ulp) ^ 3" using a by (simp only: power_add [symmetric]) simp
  then show ?thesis by (rule mult_right_le_imp_le) simp
qed

text \<open>
  When the exact total is at most the exact bound up to the roundings of one contribution, and both were computed with few roundings,
  the computed score does not exceed the computed bound with its slack.
\<close>

lemma slack_covers:
  assumes "near a s score" and "s \<le> limit * (1 + ulp) ^ 16" and "near b limit computed" and "a + b \<le> 33"
  shows "score \<le> fmul computed (slack_of m)"
proof -
  let ?u = "1 + ulp"
  have "score \<le> s * ?u ^ a" using assms(1) by (simp add: near_def)
  also have "\<dots> \<le> limit * ?u ^ 16 * ?u ^ a" using assms(2) by (intro mult_right_mono) auto
  also have "\<dots> \<le> computed * ?u ^ b * ?u ^ 16 * ?u ^ a" using assms(3) by (intro mult_right_mono) (auto simp: near_def)
  also have "\<dots> = computed * ?u ^ (a + b + 16)" by (simp add: power_add ac_simps)
  also have "\<dots> \<le> computed * ?u ^ 49"
    using assms(3,4) by (intro mult_left_mono power_increasing) (auto simp: near_def)
  finally have fin: "score \<le> computed * ?u ^ 49" .
  have c: "0 \<le> computed" using assms(3) by (simp add: near_def)
  have "0 \<le> slack_of m" using slack_enough [of m] by (meson order_trans zero_le_power ulp_pos(4))
  then have "near 1 (computed * slack_of m) (fmul computed (slack_of m))"
    unfolding fmul_def using c by (intro round64_near) simp
  then have "computed * slack_of m \<le> fmul computed (slack_of m) * ?u" by (simp add: near_def)
  moreover have "computed * ?u ^ 50 \<le> computed * slack_of m" using slack_enough c by (intro mult_left_mono)
  moreover have "computed * ?u ^ 50 = computed * ?u ^ 49 * ?u" by (simp add: power_Suc2 [symmetric] mult.assoc)
  ultimately have "computed * ?u ^ 49 * ?u \<le> fmul computed (slack_of m) * ?u" by linarith
  then have "computed * ?u ^ 49 \<le> fmul computed (slack_of m)" by simp
  with fin show ?thesis by linarith
qed

end
