(* ===== verification/SearchKeeps.thy ===== *)
theory SearchKeeps
  imports SearchIndex
begin

text \<open>
  The operations of the search index keep it in order: storing a document, replacing one and compacting the slots. The live
  documents change as a list of documents with distinct ids does.
\<close>

subsection \<open>Loops over the terms\<close>

lemma delete_distinct_keys: "distinct (map fst m) \<Longrightarrow> distinct (map fst (AList.delete k m))"
  by (auto simp: AList.delete_eq filter_map distinct_map inj_on_def)

text \<open>A loop whose step treats the entry of its key only.\<close>

lemma foldl_keys:
  assumes step: "\<And>m x. map_of (step m x) = (map_of m)(key x := g x (map_of m (key x)))"
    and "distinct (map key xs)"
  shows "map_of (foldl step m xs) t =
    (case map_of (map (\<lambda>x. (key x, x)) xs) t of None \<Rightarrow> map_of m t | Some x \<Rightarrow> g x (map_of m t))"
  using assms(2)
proof (induction xs arbitrary: m)
  case (Cons x xs)
  have "map_of (map (\<lambda>x. (key x, x)) xs) (key x) = None" using Cons.prems by (auto simp: map_of_eq_None_iff)
  with Cons show ?case by (auto simp: step split: option.split)
qed simp

lemma foldl_distinct:
  assumes "\<And>m x. distinct (map fst m) \<Longrightarrow> distinct (map fst (step m x))" and "distinct (map fst m)"
  shows "distinct (map fst (foldl step m xs))"
  using assms(2) by (induction xs arbitrary: m) (auto intro: assms(1))

definition upserted :: "uint32 \<Rightarrow> uint32 \<Rightarrow> uint32 \<Rightarrow> termPostings option \<Rightarrow> termPostings" where
  "upserted slot len tf entry =
     (let e = (case entry of None \<Rightarrow> \<lparr>tp_postings = [], tp_df = 0, tp_impacts = []\<rparr> | Some e \<Rightarrow> e) in
      e\<lparr>tp_postings := tp_postings e @ [\<lparr>p_doc = slot, p_tf = tf\<rparr>], tp_df := tp_df e + 1,
        tp_impacts := frontier_insert (tp_impacts e) tf len\<rparr>)"

lemma upsert_terms:
  assumes "distinct (map fst freq)"
  shows "map_of (foldl (upsert_term slot len) terms freq) t =
    (case map_of freq t of None \<Rightarrow> map_of terms t | Some c \<Rightarrow> Some (upserted slot len (of_nat c) (map_of terms t)))"
proof -
  have step: "map_of (upsert_term slot len m x) =
      (map_of m)(fst x := Some (upserted slot len (of_nat (snd x)) (map_of m (fst x))))" for m x
    by (cases x) (simp add: upsert_term_def upserted_def addImpact_def update_conv' Let_def)
  have "map_of (map (\<lambda>x. (fst x, x)) freq) t = map_option (Pair t) (map_of freq t)" by (induction freq) auto
  then show ?thesis
    by (simp add: foldl_keys [of "upsert_term slot len" fst "\<lambda>x o'. Some (upserted slot len (of_nat (snd x)) o')", OF step assms]
        split: option.split)
qed

definition retired :: "termPostings option \<Rightarrow> termPostings option" where
  "retired entry = (case entry of None \<Rightarrow> None | Some e \<Rightarrow> if tp_df e - 1 \<le> 0 then None else Some (e\<lparr>tp_df := tp_df e - 1\<rparr>))"

lemma retire_terms:
  assumes "distinct (map fst freq)"
  shows "map_of (foldl retire_term terms (map fst freq)) t =
    (if map_of freq t = None then map_of terms t else retired (map_of terms t))"
proof -
  have step: "map_of (retire_term m x) = (map_of m)(x := retired (map_of m x))" for m x
    by (auto simp: retire_term_def retired_def update_conv' delete_conv' Let_def split: option.split)
  have "map_of (map (\<lambda>x. (x, x)) (map fst freq)) t = map_option (\<lambda>_. t) (map_of freq t)" by (induction freq) auto
  then show ?thesis
    using foldl_keys [of retire_term "\<lambda>x. x" "\<lambda>x. retired", OF step, of "map fst freq" terms t] assms
    by (cases "map_of freq t") simp_all
qed

lemma retire_terms_distinct: "distinct (map fst terms) \<Longrightarrow> distinct (map fst (foldl retire_term terms ts))"
  by (rule foldl_distinct)
    (auto simp: retire_term_def distinct_update delete_distinct_keys Let_def split: option.split)

lemma upsert_terms_distinct: "distinct (map fst terms) \<Longrightarrow> distinct (map fst (foldl (upsert_term slot len) terms freq))"
  by (rule foldl_distinct) (auto simp: upsert_term_def distinct_update Let_def)

subsection \<open>Term frequencies\<close>

lemma frequencies_distinct: "distinct (map fst (fst (frequencies U d)))"
  unfolding frequencies_def Let_def
  by (simp, rule foldl_distinct) (auto simp: count_term_def distinct_update)

lemma tf_of_length:
  assumes "tf_of U d t \<noteq> None"
  shows "doc_length U d > 0"
  using assms by (auto simp: tf_of_def doc_length_def frequencies_def Let_def)

subsection \<open>Live documents\<close>

lemma unat_uint32: "n < 2 ^ 32 \<Longrightarrow> unat (of_nat n :: uint32) = n"
  by (simp add: unat_of_nat take_bit_nat_eq_self)

lemma slots_okD:
  assumes "slots_ok U i"
  shows "length (ix_lengths i) = length (ix_docs i)" and "length (ix_live i) = length (ix_docs i)"
    and "length (ix_docs i) < 2 ^ 32" and "distinct (map fst (ix_slots i))"
    and "map_of (ix_slots i) k = Some s \<longleftrightarrow> is_live i s \<and> sd_ID (doc_at i s) = k"
    and "is_live i s \<Longrightarrow> uint (ix_lengths i ! unat s) = int (doc_length U (doc_at i s))"
proof -
  note ok = assms [unfolded slots_ok_def]
  show "length (ix_lengths i) = length (ix_docs i)" by (rule ok [THEN conjunct1])
  show "length (ix_live i) = length (ix_docs i)" by (rule ok [THEN conjunct2, THEN conjunct1])
  note ok = ok [THEN conjunct2, THEN conjunct2]
  have "length (ix_docs i) \<le> unat noDoc" by (rule ok [THEN conjunct1])
  then show "length (ix_docs i) < 2 ^ 32" by (simp add: noDoc_def)
  note ok = ok [THEN conjunct2]
  show "distinct (map fst (ix_slots i))" by (rule ok [THEN conjunct1])
  show "map_of (ix_slots i) k = Some s \<longleftrightarrow> is_live i s \<and> sd_ID (doc_at i s) = k"
    by (rule ok [THEN conjunct2, THEN conjunct1, rule_format])
  show "uint (ix_lengths i ! unat s) = int (doc_length U (doc_at i s))" if "is_live i s"
    by (rule ok [THEN conjunct2, THEN conjunct2, rule_format, OF that])
qed

lemma live_docs_set:
  assumes "slots_ok U i"
  shows "set (live_docs i) = doc_at i ` {s. is_live i s}"
proof (intro set_eqI iffI)
  fix d assume "d \<in> set (live_docs i)"
  then obtain n where n: "n < length (ix_docs i)" "ix_live i ! n" "d = ix_docs i ! n"
    by (auto simp: live_docs_def set_zip)
  then have "unat (of_nat n :: uint32) = n" using slots_okD(3) [OF assms] by (intro unat_uint32) simp
  with n show "d \<in> doc_at i ` {s. is_live i s}" by (intro image_eqI [of _ _ "of_nat n"]) (auto simp: doc_at_def is_live_def)
next
  fix d assume "d \<in> doc_at i ` {s. is_live i s}"
  then obtain s where s: "is_live i s" "d = doc_at i s" by blast
  then have "(d, True) \<in> set (zip (ix_docs i) (ix_live i))"
    using slots_okD(2) [OF assms] by (auto simp: set_zip is_live_def doc_at_def intro!: exI [of _ "unat s"])
  then show "d \<in> set (live_docs i)" by (force simp: live_docs_def)
qed

lemma live_unique:
  assumes "slots_ok U i" and "is_live i s" "is_live i s'" and "sd_ID (doc_at i s) = sd_ID (doc_at i s')"
  shows "s = s'"
proof -
  have a: "map_of (ix_slots i) (sd_ID (doc_at i s)) = Some s"
    by (rule slots_okD(5) [OF assms(1), THEN iffD2]) (simp add: assms(2))
  have b: "map_of (ix_slots i) (sd_ID (doc_at i s')) = Some s'"
    by (rule slots_okD(5) [OF assms(1), THEN iffD2]) (simp add: assms(3))
  show ?thesis using a b assms(4) by (metis option.inject)
qed

lemma live_docs_split:
  assumes "slots_ok U i" and "is_live i s"
  shows "live_docs i = map fst (filter snd (zip (take (unat s) (ix_docs i)) (take (unat s) (ix_live i)))) @
    doc_at i s # map fst (filter snd (zip (drop (Suc (unat s)) (ix_docs i)) (drop (Suc (unat s)) (ix_live i))))"
proof -
  let ?n = "unat s"
  have n: "?n < length (ix_docs i)" "?n < length (ix_live i)" "ix_live i ! ?n"
    using assms(2) slots_okD(2) [OF assms(1)] by (auto simp: is_live_def)
  have "zip (ix_docs i) (ix_live i) = zip (take ?n (ix_docs i) @ ix_docs i ! ?n # drop (Suc ?n) (ix_docs i))
      (take ?n (ix_live i) @ ix_live i ! ?n # drop (Suc ?n) (ix_live i))"
    by (simp only: id_take_nth_drop [OF n(1), symmetric] id_take_nth_drop [OF n(2), symmetric])
  also have "\<dots> = zip (take ?n (ix_docs i)) (take ?n (ix_live i)) @
      (ix_docs i ! ?n, True) # zip (drop (Suc ?n) (ix_docs i)) (drop (Suc ?n) (ix_live i))"
    using n by (subst zip_append) auto
  finally show ?thesis by (simp add: live_docs_def doc_at_def)
qed

lemma live_docs_distinct:
  assumes "slots_ok U i"
  shows "distinct (map sd_ID (live_docs i))"
proof -
  note ok = slots_okD(2,3) [OF assms]
  have "distinct (map sd_ID (map fst (filter snd (zip (take n (ix_docs i)) (take n (ix_live i))))))" if "n \<le> length (ix_docs i)" for n
    using that
  proof (induction n)
    case (Suc n)
    let ?p = "map fst (filter snd (zip (take n (ix_docs i)) (take n (ix_live i))))"
    have n: "unat (of_nat n :: uint32) = n" using Suc.prems ok by (intro unat_uint32) simp
    have new: "sd_ID (ix_docs i ! n) \<notin> sd_ID ` set ?p" if "ix_live i ! n"
    proof
      assume "sd_ID (ix_docs i ! n) \<in> sd_ID ` set ?p"
      then obtain m where m: "m < n" "ix_live i ! m" "sd_ID (ix_docs i ! m) = sd_ID (ix_docs i ! n)"
        using Suc.prems by (auto simp: set_zip)
      have mm: "unat (of_nat m :: uint32) = m" using m Suc.prems ok by (intro unat_uint32) simp
      from live_unique [OF assms, of "of_nat m" "of_nat n"] m that Suc.prems n mm
      have "(of_nat m :: uint32) = of_nat n" by (simp add: is_live_def doc_at_def)
      then have "unat (of_nat m :: uint32) = unat (of_nat n :: uint32)" by simp
      with n mm m(1) show False by simp
    qed
    then show ?case using Suc ok by (auto simp: take_Suc_conv_app_nth)
  qed simp
  from this [of "length (ix_docs i)"] ok show ?thesis by (simp add: live_docs_def)
qed

lemma slots_length:
  assumes "slots_ok U i"
  shows "length (ix_slots i) = length (live_docs i)"
proof -
  have keys: "set (map fst (ix_slots i)) = set (map sd_ID (live_docs i))"
  proof (intro set_eqI)
    fix k
    have "k \<in> set (map fst (ix_slots i)) \<longleftrightarrow> (\<exists>s. map_of (ix_slots i) k = Some s)"
      by (metis map_of_eq_None_iff not_None_eq set_map)
    also have "\<dots> \<longleftrightarrow> k \<in> set (map sd_ID (live_docs i))"
      using slots_okD(5) [OF assms] live_docs_set [OF assms] by (auto simp: image_iff)
    finally show "k \<in> set (map fst (ix_slots i)) \<longleftrightarrow> k \<in> set (map sd_ID (live_docs i))" .
  qed
  from distinct_card [OF slots_okD(4) [OF assms]] distinct_card [OF live_docs_distinct [OF assms]] keys show ?thesis by simp
qed

subsection \<open>Retiring a slot\<close>

lemma entry_ok_weaken:
  assumes "entry_ok U i t e" and "length (ix_docs i') = length (ix_docs i)" "ix_lengths i' = ix_lengths i"
    and "\<And>s. is_live i' s \<Longrightarrow> is_live i s \<and> doc_at i' s = doc_at i s"
    and "tp_postings e' = tp_postings e" "tp_impacts e' = tp_impacts e"
  shows "entry_ok U i' t e'"
  using assms unfolding entry_ok_def by metis

lemma df_of_simps [simp]:
  "df_of U [] t = 0"
  "df_of U (d # ds) t = (if tf_of U d t = None then 0 else 1) + df_of U ds t"
  "df_of U (ds @ es) t = df_of U ds t + df_of U es t"
  by (auto simp: df_of_def)

lemma df_of_zero: "df_of U ds t = 0 \<longleftrightarrow> (\<forall>d \<in> set ds. tf_of U d t = None)"
  by (auto simp: df_of_def filter_empty_conv)

lemma distinct_filter_out:
  assumes "distinct (map f (A @ d # B))"
  shows "filter (\<lambda>x. f x \<noteq> f d) (A @ d # B) = A @ B"
proof -
  have "f d \<notin> f ` (set A \<union> set B)" using assms by auto
  then have "\<forall>x \<in> set A \<union> set B. f x \<noteq> f d" by (metis image_eqI)
  then show ?thesis by (auto simp: filter_id_conv)
qed

lemma retire_live:
  assumes "slots_ok U i" and "is_live i s" and "i' = retire U i s"
  shows "is_live i' s' \<longleftrightarrow> is_live i s' \<and> s' \<noteq> s" and "s' \<noteq> s \<Longrightarrow> doc_at i' s' = doc_at i s'"
proof -
  have "s' = s \<longleftrightarrow> unat s' = unat s" by (simp add: word_unat_eq_iff)
  then show "is_live i' s' \<longleftrightarrow> is_live i s' \<and> s' \<noteq> s" "s' \<noteq> s \<Longrightarrow> doc_at i' s' = doc_at i s'"
    using assms(2,3) slots_okD(2) [OF assms(1)] by (auto simp: is_live_def doc_at_def retire_def Let_def nth_list_update)
qed

lemma retire_docs:
  assumes ok: "slots_ok U i" and s: "is_live i s"
  defines "A \<equiv> map fst (filter snd (zip (take (unat s) (ix_docs i)) (take (unat s) (ix_live i))))"
    and "B \<equiv> map fst (filter snd (zip (drop (Suc (unat s)) (ix_docs i)) (drop (Suc (unat s)) (ix_live i))))"
  shows "live_docs i = A @ doc_at i s # B" and "live_docs (retire U i s) = A @ B"
    and "live_docs (retire U i s) = filter (\<lambda>d. sd_ID d \<noteq> sd_ID (doc_at i s)) (live_docs i)"
proof -
  let ?n = "unat s"
  have n: "?n < length (ix_docs i)" "?n < length (ix_live i)"
    using s slots_okD(2) [OF ok] by (auto simp: is_live_def)
  show split: "live_docs i = A @ doc_at i s # B" using live_docs_split [OF ok s] by (simp add: A_def B_def)
  have "zip ((ix_docs i)[?n := z]) ((ix_live i)[?n := False]) =
      zip (take ?n (ix_docs i)) (take ?n (ix_live i)) @ (z, False) # zip (drop (Suc ?n) (ix_docs i)) (drop (Suc ?n) (ix_live i))" for z
    using n by (simp add: upd_conv_take_nth_drop min_absorb2)
  then show gone: "live_docs (retire U i s) = A @ B"
    by (simp add: live_docs_def retire_def Let_def A_def B_def)
  show "live_docs (retire U i s) = filter (\<lambda>d. sd_ID d \<noteq> sd_ID (doc_at i s)) (live_docs i)"
    using live_docs_distinct [OF ok] distinct_filter_out [of sd_ID A "doc_at i s" B] by (simp add: split gone)
qed

lemma retire_slots:
  assumes ok: "slots_ok U i" and s: "is_live i s"
  shows "slots_ok U (retire U i s)"
proof -
  let ?i = "retire U i s"
  have fields: "length (ix_docs ?i) = length (ix_docs i)" "ix_lengths ?i = ix_lengths i" "length (ix_live ?i) = length (ix_live i)"
    "ix_slots ?i = AList.delete (sd_ID (doc_at i s)) (ix_slots i)"
    by (simp_all add: retire_def Let_def doc_at_def)
  have slot: "map_of (ix_slots ?i) k = Some s' \<longleftrightarrow> is_live ?i s' \<and> sd_ID (doc_at ?i s') = k" for k s'
  proof (cases "s' = s")
    case True
    then show ?thesis using slots_okD(5) [OF ok, of k s] retire_live(1) [OF ok s refl, of s'] by (auto simp: fields delete_conv')
  next
    case False
    have "k \<noteq> sd_ID (doc_at i s)" if "is_live i s'" "sd_ID (doc_at i s') = k"
      using live_unique [OF ok that(1) s] that False by auto
    then show ?thesis
      using slots_okD(5) [OF ok, of k s'] retire_live [OF ok s refl, of s'] False by (auto simp: fields delete_conv')
  qed
  have len: "uint (ix_lengths ?i ! unat s') = int (doc_length U (doc_at ?i s'))" if "is_live ?i s'" for s'
    using that retire_live [OF ok s refl, of s'] slots_okD(6) [OF ok, of s'] by (simp add: fields)
  show ?thesis
    unfolding slots_ok_def
    using slot len slots_okD(1-4) [OF ok] by (auto simp: fields delete_distinct_keys noDoc_def)
qed

lemma retire_ok:
  assumes ok: "index_ok U i" and s: "is_live i s"
  shows "index_ok U (retire U i s)"
proof -
  let ?i = "retire U i s"
  let ?old = "doc_at i s"
  have sl: "slots_ok U i" and te: "terms_ok U i (live_docs i)" using ok by (auto simp: index_ok_def)
  obtain A B where parts: "live_docs i = A @ ?old # B" "live_docs ?i = A @ B" using retire_docs [OF sl s] by blast
  have fields: "length (ix_docs ?i) = length (ix_docs i)" "ix_lengths ?i = ix_lengths i"
    "ix_terms ?i = foldl retire_term (ix_terms i) (map fst (fst (frequencies U ?old)))"
    "ix_tokens ?i = ix_tokens i - uint (ix_lengths i ! unat s)" "ix_dead ?i = ix_dead i + 1"
    by (simp_all add: retire_def Let_def doc_at_def)
  have df: "df_of U (live_docs i) t = df_of U (live_docs ?i) t + (if tf_of U ?old t = None then 0 else 1)" for t
    by (simp add: parts)
  have entry: "entry_ok U ?i t e'" if "entry_ok U i t e" "tp_postings e' = tp_postings e" "tp_impacts e' = tp_impacts e" for t e e'
    using that(1) fields(1,2) _ that(2,3) by (rule entry_ok_weaken) (use retire_live [OF sl s refl] in blast)
  have "terms_ok U ?i (live_docs ?i)"
    unfolding terms_ok_def
  proof (intro conjI allI)
    show "distinct (map fst (ix_terms ?i))"
      using te by (simp add: fields terms_ok_def retire_terms_distinct)
    fix t
    let ?e = "map_of (ix_terms i) t"
    have te_t: "case ?e of None \<Rightarrow> df_of U (live_docs i) t = 0
        | Some e \<Rightarrow> entry_ok U i t e \<and> tp_df e = int (df_of U (live_docs i) t) \<and> tp_df e > 0"
      using te unfolding terms_ok_def by blast
    have now: "map_of (ix_terms ?i) t = (if tf_of U ?old t = None then ?e else retired ?e)"
      by (simp add: fields retire_terms [OF frequencies_distinct] tf_of_def)
    show "case map_of (ix_terms ?i) t of None \<Rightarrow> df_of U (live_docs ?i) t = 0
        | Some e \<Rightarrow> entry_ok U ?i t e \<and> tp_df e = int (df_of U (live_docs ?i) t) \<and> tp_df e > 0"
      using te_t df [of t] entry [of t] unfolding now
      by (cases ?e; cases "tf_of U ?old t") (auto simp: retired_def)
  qed
  moreover have "length (live_docs i) = Suc (length (live_docs ?i))" by (simp add: parts)
  moreover have "uint (ix_lengths i ! unat s) = int (doc_length U ?old)" using slots_okD(6) [OF sl s] .
  ultimately show ?thesis
    using ok retire_slots [OF sl s] unfolding index_ok_def fields by (simp add: parts)
qed

subsection \<open>Adding a slot\<close>

definition store_doc :: "unicode \<Rightarrow> index \<Rightarrow> sdoc \<Rightarrow> index" where
  "store_doc U i doc =
     (let slot = of_nat (length (ix_docs i)); len = doc_length U doc in
      i\<lparr>ix_docs := ix_docs i @ [doc], ix_lengths := ix_lengths i @ [of_nat len], ix_live := ix_live i @ [True],
        ix_slots := AList.update (sd_ID doc) slot (ix_slots i), ix_tokens := ix_tokens i + int len,
        ix_terms := foldl (upsert_term slot (of_nat len)) (ix_terms i) (fst (frequencies U doc))\<rparr>)"

lemma store_live:
  assumes ok: "slots_ok U i" and room: "length (ix_docs i) < unat noDoc"
  defines "slot \<equiv> of_nat (length (ix_docs i)) :: uint32"
  shows "unat slot = length (ix_docs i)"
    and "is_live (store_doc U i doc) s \<longleftrightarrow> is_live i s \<or> s = slot"
    and "is_live (store_doc U i doc) s \<Longrightarrow> doc_at (store_doc U i doc) s = (if s = slot then doc else doc_at i s)"
proof -
  show u: "unat slot = length (ix_docs i)" using room unfolding slot_def by (intro unat_uint32) (simp add: noDoc_def)
  have eq: "s = slot \<longleftrightarrow> unat s = length (ix_docs i)" for s by (simp add: word_unat_eq_iff u)
  show "is_live (store_doc U i doc) s \<longleftrightarrow> is_live i s \<or> s = slot"
    using slots_okD(2) [OF ok] by (auto simp: is_live_def store_doc_def Let_def nth_append eq)
  show "doc_at (store_doc U i doc) s = (if s = slot then doc else doc_at i s)" if "is_live (store_doc U i doc) s"
    using that by (auto simp: is_live_def doc_at_def store_doc_def Let_def nth_append eq)
qed

lemma store_docs:
  assumes "slots_ok U i"
  shows "live_docs (store_doc U i doc) = live_docs i @ [doc]"
  using slots_okD(2) [OF assms] by (simp add: live_docs_def store_doc_def Let_def)

lemma store_slots:
  assumes ok: "slots_ok U i" and room: "length (ix_docs i) < unat noDoc" and fresh: "map_of (ix_slots i) (sd_ID doc) = None"
    and small: "doc_length U doc < 2 ^ 32"
  shows "slots_ok U (store_doc U i doc)"
proof -
  let ?i = "store_doc U i doc"
  define slot where "slot = (of_nat (length (ix_docs i)) :: uint32)"
  note live = store_live [OF ok room, folded slot_def]
  have fields: "ix_docs ?i = ix_docs i @ [doc]" "ix_lengths ?i = ix_lengths i @ [of_nat (doc_length U doc)]" "ix_live ?i = ix_live i @ [True]"
    "ix_slots ?i = AList.update (sd_ID doc) slot (ix_slots i)"
    by (simp_all add: store_doc_def Let_def slot_def)
  have dead: "\<not> is_live i slot" by (simp add: is_live_def live(1))
  have other: "sd_ID (doc_at i s) \<noteq> sd_ID doc" if "is_live i s" for s
    using slots_okD(5) [OF ok, of "sd_ID doc" s] that fresh by auto
  have slot: "map_of (ix_slots ?i) k = Some s \<longleftrightarrow> is_live ?i s \<and> sd_ID (doc_at ?i s) = k" for k s
  proof (cases "s = slot")
    case True
    then show ?thesis using slots_okD(5) [OF ok, of k slot] live(2,3) [of doc slot] dead by (auto simp: fields update_conv')
  next
    case False
    then show ?thesis using slots_okD(5) [OF ok, of k s] live(2,3) [of doc s] other [of s] by (auto simp: fields update_conv')
  qed
  have len: "uint (ix_lengths ?i ! unat s) = int (doc_length U (doc_at ?i s))" if "is_live ?i s" for s
  proof (cases "s = slot")
    case True
    then show ?thesis using live(1) live(3) [OF that] slots_okD(1) [OF ok] small
      by (simp add: fields nth_append uint_nat unat_uint32)
  next
    case False
    then have "is_live i s" using that live(2) by blast
    then show ?thesis using live(3) [OF that] False slots_okD(1) [OF ok] slots_okD(6) [OF ok]
      by (auto simp: fields nth_append is_live_def)
  qed
  show ?thesis
    unfolding slots_ok_def
    using slot len slots_okD(1-4) [OF ok] room by (auto simp: fields distinct_update)
qed

text \<open>The entry of a term of the new document, which may not have had one.\<close>

lemma entry_ok_empty:
  assumes "slots_ok U i" and "df_of U (live_docs i) t = 0"
  shows "entry_ok U i t \<lparr>tp_postings = [], tp_df = 0, tp_impacts = []\<rparr>"
proof -
  have "tf_of U (doc_at i s) t = None" if "is_live i s" for s
    using that assms live_docs_set [OF assms(1)] by (auto simp: df_of_zero)
  then show ?thesis by (auto simp: entry_ok_def frontier_def)
qed

lemma store_entry:
  fixes doc :: sdoc
  assumes ok: "slots_ok U i" and room: "length (ix_docs i) < unat noDoc" and e: "entry_ok U i t e"
  defines "slot \<equiv> of_nat (length (ix_docs i)) :: uint32" and "len \<equiv> of_nat (doc_length U doc) :: uint32"
  shows "tf_of U doc t = None \<Longrightarrow> entry_ok U (store_doc U i doc) t e"
    and "tf_of U doc t = Some tf \<Longrightarrow> entry_ok U (store_doc U i doc) t (upserted slot len tf (Some e))"
proof -
  let ?i = "store_doc U i doc"
  note live = store_live [OF ok room, folded slot_def]
  have lens: "ix_lengths ?i ! unat s = (if s = slot then len else ix_lengths i ! unat s)" if "unat s \<le> length (ix_docs i)" for s
    using that slots_okD(1) [OF ok] live(1) by (auto simp: store_doc_def Let_def nth_append len_def word_unat_eq_iff)
  have inside: "unat (p_doc p) < length (ix_docs i)" if "p \<in> set (tp_postings e)" for p
    using e that by (simp add: entry_ok_def)
  have docs: "length (ix_docs ?i) = Suc (length (ix_docs i))" by (simp add: store_doc_def Let_def)
  have below: "p_doc p < slot" if "p \<in> set (tp_postings e)" for p
    using inside [OF that] live(1) by (simp add: word_less_nat_alt)
  have has: "p \<in> set (tp_postings e) \<longleftrightarrow> tf_of U (doc_at i (p_doc p)) t = Some (p_tf p)" if "is_live i (p_doc p)" for p
    using e that by (simp add: entry_ok_def)
  have new: "p_doc p \<noteq> slot" if "p \<in> set (tp_postings e)" for p using below [OF that] by auto
  have dom: "dominates (tp_impacts e) (p_tf p) (ix_lengths i ! unat (p_doc p))" if "p \<in> set (tp_postings e)" for p
    using e that by (simp add: entry_ok_def)
  show "entry_ok U ?i t e" if "tf_of U doc t = None"
    using e that has new dom inside lens live(2,3) unfolding entry_ok_def docs by (metis less_SucI less_imp_le option.distinct(1))
  assume tf: "tf_of U doc t = Some tf"
  let ?e = "upserted slot len tf (Some e)"
  have fields: "tp_postings ?e = tp_postings e @ [\<lparr>p_doc = slot, p_tf = tf\<rparr>]" "tp_impacts ?e = frontier_insert (tp_impacts e) tf len"
    by (simp_all add: upserted_def Let_def)
  have fr: "frontier (tp_impacts e)" "length (tp_impacts e) \<le> maxImpacts" using e by (auto simp: entry_ok_def)
  note ins = frontier_insert_spec [OF fr, of tf len]
  show "entry_ok U ?i t ?e"
    unfolding entry_ok_def fields docs
  proof (intro conjI ballI allI impI)
    show "sorted_wrt (\<lambda>p q. p_doc p < p_doc q) (tp_postings e @ [\<lparr>p_doc = slot, p_tf = tf\<rparr>])"
      using e below by (simp add: entry_ok_def sorted_wrt_append)
    show "unat (p_doc p) < Suc (length (ix_docs i))" if "p \<in> set (tp_postings e @ [\<lparr>p_doc = slot, p_tf = tf\<rparr>])" for p
      using that inside live(1) by (auto intro: less_SucI)
    show "p \<in> set (tp_postings e @ [\<lparr>p_doc = slot, p_tf = tf\<rparr>]) \<longleftrightarrow> tf_of U (doc_at ?i (p_doc p)) t = Some (p_tf p)"
      if "is_live ?i (p_doc p)" for p
    proof (cases "p_doc p = slot")
      case True
      then have "p \<notin> set (tp_postings e)" using new by auto
      then show ?thesis using live(3) [OF that] tf True by (cases p) auto
    next
      case False
      then show ?thesis using live(2) [of doc "p_doc p"] live(3) [OF that] that has [of p] by auto
    qed
    show "dominates (frontier_insert (tp_impacts e) tf len) (p_tf p) (ix_lengths ?i ! unat (p_doc p))"
      if "p \<in> set (tp_postings e @ [\<lparr>p_doc = slot, p_tf = tf\<rparr>])" for p
    proof (cases "p \<in> set (tp_postings e)")
      case True
      then show ?thesis using ins dom [OF True] lens [of "p_doc p"] inside [OF True] new [OF True] by simp
    next
      case False
      then show ?thesis using that ins lens [of slot] live(1) by auto
    qed
  qed (use ins in auto)
qed

lemma store_ok:
  assumes ok: "index_ok U i" and room: "length (ix_docs i) < unat noDoc" and fresh: "map_of (ix_slots i) (sd_ID doc) = None"
    and small: "doc_length U doc < 2 ^ 32"
  shows "index_ok U (store_doc U i doc)"
proof -
  let ?i = "store_doc U i doc"
  define slot len where "slot = (of_nat (length (ix_docs i)) :: uint32)" and "len = (of_nat (doc_length U doc) :: uint32)"
  have sl: "slots_ok U i" and te: "terms_ok U i (live_docs i)" using ok by (auto simp: index_ok_def)
  note docs = store_docs [OF sl, of doc]
  note entry = store_entry [OF sl room, of _ _ doc, folded slot_def len_def]
  have terms: "ix_terms ?i = foldl (upsert_term slot len) (ix_terms i) (fst (frequencies U doc))"
    by (simp add: store_doc_def Let_def slot_def len_def)
  have "terms_ok U ?i (live_docs ?i)"
    unfolding terms_ok_def
  proof (intro conjI allI)
    show "distinct (map fst (ix_terms ?i))"
      using te by (simp add: terms terms_ok_def upsert_terms_distinct)
    fix t
    let ?e = "map_of (ix_terms i) t"
    let ?zero = "\<lparr>tp_postings = [], tp_df = 0, tp_impacts = []\<rparr>"
    have te_t: "case ?e of None \<Rightarrow> df_of U (live_docs i) t = 0
        | Some e \<Rightarrow> entry_ok U i t e \<and> tp_df e = int (df_of U (live_docs i) t) \<and> tp_df e > 0"
      using te unfolding terms_ok_def by blast
    have now: "map_of (ix_terms ?i) t =
        (case tf_of U doc t of None \<Rightarrow> ?e | Some tf \<Rightarrow> Some (upserted slot len tf ?e))"
      by (simp add: terms upsert_terms [OF frequencies_distinct] tf_of_def split: option.split)
    show "case map_of (ix_terms ?i) t of None \<Rightarrow> df_of U (live_docs ?i) t = 0
        | Some e \<Rightarrow> entry_ok U ?i t e \<and> tp_df e = int (df_of U (live_docs ?i) t) \<and> tp_df e > 0"
    proof (cases ?e)
      case None
      then have "entry_ok U i t ?zero" using te_t entry_ok_empty [OF sl] by simp
      moreover have "upserted slot len tf None = upserted slot len tf (Some ?zero)" for tf by (simp add: upserted_def)
      ultimately show ?thesis using te_t None entry [of t ?zero] unfolding now docs
        by (cases "tf_of U doc t") (auto simp: upserted_def Let_def)
    next
      case (Some e)
      then show ?thesis using te_t entry [of t e] unfolding now docs
        by (cases "tf_of U doc t") (auto simp: upserted_def Let_def)
    qed
  qed
  then show ?thesis
    using ok store_slots [OF sl room fresh small] unfolding index_ok_def by (simp add: docs) (simp add: store_doc_def Let_def)
qed

end
