(* ===== verification/SearchPrune.thy ===== *)
theory SearchPrune
  imports SearchBound SearchKeeps
begin

text \<open>
  Pruning loses nothing. The invariant of the loop says that the heap holds the best of the documents passed so far, that the
  essential cursors stand at the first document not passed, and that a document only the others have scores below the threshold.
\<close>

subsection \<open>The plan of a query\<close>

definition cursor_ok :: "index \<Rightarrow> real \<Rightarrow> cursor \<Rightarrow> bool" where
  "cursor_ok i avg c \<longleftrightarrow> ascending_docs (cu_postings c) \<and> (\<forall>p \<in> set (cu_postings c). p_doc p \<noteq> noDoc) \<and>
     0 \<le> cu_idf c \<and> 0 \<le> cu_bound c \<and>
     (\<forall>d tf. is_live i d \<and> tf_in (cu_postings c) d = Some tf \<longrightarrow>
        fmul (cu_idf c) (bm25 tf (ix_lengths i ! unat d) avg) \<le> cu_bound c * (1 + ulp) ^ 16)"

definition matches :: "cursor list \<Rightarrow> uint32 \<Rightarrow> bool" where
  "matches cs d \<longleftrightarrow> (\<exists>c \<in> set cs. tf_in (cu_postings c) d \<noteq> None)"

definition hit_of :: "index \<Rightarrow> cursor list \<Rightarrow> real \<Rightarrow> uint32 \<Rightarrow> hit" where
  "hit_of i cs avg d =
     \<lparr>h_score = doc_score cs d (ix_lengths i ! unat d) avg, h_slot = d, h_id = sd_ID (ix_docs i ! unat d)\<rparr>"

definition hits_below :: "index \<Rightarrow> cursor list \<Rightarrow> real \<Rightarrow> nat \<Rightarrow> hit set" where
  "hits_below i cs avg f = hit_of i cs avg ` {d. is_live i d \<and> matches cs d \<and> unat d < f}"

lemma hits_finite [simp]: "finite (hits_below i cs avg f)"
  by (simp add: hits_below_def)

lemma standing_inj:
  assumes "slots_ok U i"
  shows "inj_on standing (hit_of i cs avg ` {d. is_live i d})"
proof (rule inj_onI)
  fix x y assume x: "x \<in> hit_of i cs avg ` {d. is_live i d}" and y: "y \<in> hit_of i cs avg ` {d. is_live i d}" and eq: "standing x = standing y"
  then obtain d d' where d: "is_live i d" "x = hit_of i cs avg d" "is_live i d'" "y = hit_of i cs avg d'" by auto
  then have "sd_ID (doc_at i d) = sd_ID (doc_at i d')" using eq by (simp add: standing_def hit_of_def doc_at_def)
  then show "x = y" using live_unique [OF assms d(1,3)] d by simp
qed

lemma hits_inj:
  assumes "slots_ok U i" and "is_live i d"
  shows "inj_on standing (insert (hit_of i cs avg d) (hits_below i cs avg f))"
  by (rule inj_on_subset [OF standing_inj [OF assms(1)]]) (use assms(2) in \<open>auto simp: hits_below_def\<close>)

definition order_ok :: "cursor list \<Rightarrow> nat list \<Rightarrow> bool" where
  "order_ok cs order \<longleftrightarrow> distinct order \<and> set order = {..<length cs}"

definition plan_ok :: "index \<Rightarrow> cursor list \<Rightarrow> real \<Rightarrow> nat list \<Rightarrow> real list \<Rightarrow> real \<Rightarrow> bool" where
  "plan_ok i cs avg order pre slack \<longleftrightarrow> 0 \<le> avg \<and> length cs \<le> 16 \<and> (\<forall>c \<in> set cs. cursor_ok i avg c) \<and> order_ok cs order \<and>
     pre = prefix_sums (map (\<lambda>k. cu_bound (cs ! k)) order) \<and> slack = slack_of (length cs)"

lemma order_length: "order_ok cs order \<Longrightarrow> length order = length cs"
  unfolding order_ok_def by (metis card_lessThan distinct_card)

lemma order_sum:
  fixes g :: "cursor \<Rightarrow> real"
  assumes "order_ok cs order"
  shows "sum_list (map g cs) = sum_list (map (\<lambda>k. g (cs ! k)) order)"
proof -
  have "sum_list (map g cs) = (\<Sum>k < length cs. g (cs ! k))"
    using sum_list_sum_nth [of "map g cs"] by (simp add: atLeast0LessThan)
  also have "\<dots> = sum_list (map (\<lambda>k. g (cs ! k)) order)"
    using assms by (simp add: order_ok_def sum_list_distinct_conv_sum_set)
  finally show ?thesis .
qed

definition value_at_doc :: "index \<Rightarrow> cursor list \<Rightarrow> real \<Rightarrow> uint32 \<Rightarrow> nat \<Rightarrow> real" where
  "value_at_doc i cs avg d k = value_of (part_of (cs ! k) d (ix_lengths i ! unat d) avg)"

lemma value_at_doc_eq: "value_at_doc i cs avg d = (\<lambda>k. value_of (part_of (cs ! k) d (ix_lengths i ! unat d) avg))"
  by (simp add: value_at_doc_def fun_eq_iff)

lemma value_bounds:
  assumes "cursor_ok i avg (cs ! k)" and "0 \<le> avg" and "is_live i d"
  shows "0 \<le> value_at_doc i cs avg d k" and "value_at_doc i cs avg d k \<le> cu_bound (cs ! k) * (1 + ulp) ^ 16"
  using assms by (auto simp: value_at_doc_def value_of_def part_of_def cursor_ok_def fmul_nonneg bm25_nonneg split: option.split)

lemma sum_value_bounds:
  assumes "\<forall>k \<in> set ks. cursor_ok i avg (cs ! k)" and "0 \<le> avg" and "is_live i d"
  shows "sum_list (map (value_at_doc i cs avg d) ks) \<le> sum_list (map (\<lambda>k. cu_bound (cs ! k)) ks) * (1 + ulp) ^ 16"
    and "0 \<le> sum_list (map (value_at_doc i cs avg d) ks)"
proof -
  have "sum_list (map (value_at_doc i cs avg d) ks) \<le> sum_list (map (\<lambda>k. cu_bound (cs ! k) * (1 + ulp) ^ 16) ks)"
    using assms by (intro sum_list_mono) (auto intro: value_bounds)
  then show "sum_list (map (value_at_doc i cs avg d) ks) \<le> sum_list (map (\<lambda>k. cu_bound (cs ! k)) ks) * (1 + ulp) ^ 16"
    by (simp add: sum_list_mult_const)
  show "0 \<le> sum_list (map (value_at_doc i cs avg d) ks)"
    using assms by (intro sum_list_nonneg) (auto intro: value_bounds)
qed

lemma score_near:
  assumes "plan_ok i cs avg order pre slack" and "is_live i d"
  shows "near (length cs) (sum_list (map (value_at_doc i cs avg d) order)) (doc_score cs d (ix_lengths i ! unat d) avg)"
proof -
  let ?xs = "map (\<lambda>c. part_of c d (ix_lengths i ! unat d) avg) cs"
  have ok: "0 \<le> avg" "\<forall>c \<in> set cs. cursor_ok i avg c" and o: "order_ok cs order" using assms(1) by (auto simp: plan_ok_def)
  have "nonneg_parts ?xs" using ok
    by (auto simp: nonneg_parts_def value_of_def part_of_def cursor_ok_def fmul_nonneg bm25_nonneg split: option.split)
  from add_parts_near [OF this near_refl, of 0 0]
  have "near (length cs) (sum_list (map value_of ?xs)) (doc_score cs d (ix_lengths i ! unat d) avg)"
    by (simp add: doc_score_def)
  moreover have "sum_list (map value_of ?xs) = sum_list (map (value_at_doc i cs avg d) order)"
    using order_sum [OF o, of "\<lambda>c. value_of (part_of c d (ix_lengths i ! unat d) avg)"] by (simp add: comp_def value_at_doc_eq)
  ultimately show ?thesis by simp
qed

lemma plan_prefix:
  assumes "plan_ok i cs avg order pre slack" and "j < length order"
  shows "near (Suc j) (sum_list (map (\<lambda>k. cu_bound (cs ! k)) (take (Suc j) order))) (pre ! j)"
proof -
  have "\<forall>b \<in> set (map (\<lambda>k. cu_bound (cs ! k)) order). 0 \<le> b"
    using assms(1) by (auto simp: plan_ok_def order_ok_def cursor_ok_def)
  from prefix_near [OF this, of j] assms show ?thesis by (simp add: plan_ok_def take_map)
qed

text \<open>A document that no essential cursor has.\<close>

lemma not_essential:
  assumes plan: "plan_ok i cs avg order pre slack" and live: "is_live i d" and n: "0 < n" "n \<le> length order"
    and none: "\<forall>k \<in> set (drop n order). tf_in (cu_postings (cs ! k)) d = None"
  shows "doc_score cs d (ix_lengths i ! unat d) avg \<le> fmul (pre ! (n - 1)) slack"
proof -
  have ok: "0 \<le> avg" "\<forall>k \<in> set order. cursor_ok i avg (cs ! k)" "length cs \<le> 16" "slack = slack_of (length cs)" "length order = length cs"
    using plan order_length by (auto simp: plan_ok_def order_ok_def)
  let ?v = "value_at_doc i cs avg d"
  have "\<forall>k \<in> set (drop n order). ?v k = 0" using none by (simp add: value_at_doc_def part_of_def value_of_def)
  then have "sum_list (map ?v (drop n order)) = 0" by (simp add: sum_list_0 map_replicate_const [symmetric] cong: map_cong)
  then have "sum_list (map ?v order) = sum_list (map ?v (take n order))"
    by (metis add.right_neutral append_take_drop_id map_append sum_list_append)
  also have "\<dots> \<le> sum_list (map (\<lambda>k. cu_bound (cs ! k)) (take n order)) * (1 + ulp) ^ 16"
    using ok live by (intro sum_value_bounds) (auto dest: in_set_takeD)
  finally have le: "sum_list (map ?v order) \<le> sum_list (map (\<lambda>k. cu_bound (cs ! k)) (take n order)) * (1 + ulp) ^ 16" .
  have "near n (sum_list (map (\<lambda>k. cu_bound (cs ! k)) (take n order))) (pre ! (n - 1))"
    using plan_prefix [OF plan, of "n - 1"] n by simp
  from slack_covers [OF score_near [OF plan live] le this] ok n show ?thesis by simp
qed

subsection \<open>Probing a candidate\<close>

definition all_behind :: "cursor list \<Rightarrow> nat \<Rightarrow> bool" where "all_behind cs f \<longleftrightarrow> (\<forall>c \<in> set cs. behind c f)"

definition all_at :: "cursor list \<Rightarrow> nat list \<Rightarrow> nat \<Rightarrow> bool" where "all_at cs ks f \<longleftrightarrow> (\<forall>k \<in> set ks. positioned (cs ! k) f)"

lemma ahead_part: "ahead c c' \<Longrightarrow> part_of c' d len avg = part_of c d len avg"
  by (simp add: ahead_def part_of_def)

lemma seek_behind: "ascending_docs (cu_postings c) \<Longrightarrow> behind c (unat d) \<Longrightarrow> behind (seek c d) (unat d)"
  using seek_positioned by (simp add: positioned_def)

lemma probe_step:
  assumes "order_ok cs (ne @ es)" and "length cs' = length cs" and "j < length ne" and "all_at cs' (es @ drop (Suc j) ne) f"
    and "positioned c f"
  shows "all_at (cs'[ne ! j := c]) (es @ drop j ne) f"
proof -
  have d: "distinct (ne @ es)" "ne ! j < length cs'" using assms(1-3) nth_mem [of j ne] by (auto simp: order_ok_def)
  have "distinct ((take j ne @ ne ! j # drop (Suc j) ne) @ es)"
    using d(1) by (simp only: id_take_nth_drop [OF assms(3), symmetric])
  then have "ne ! j \<notin> set (es @ drop (Suc j) ne)" by auto
  moreover have "drop j ne = ne ! j # drop (Suc j) ne" by (rule Cons_nth_drop_Suc [OF assms(3), symmetric])
  ultimately show ?thesis using assms(4,5) d(2) by (auto simp: all_at_def nth_list_update)
qed

lemma probe_spec:
  assumes plan: "plan_ok i cs avg (ne @ es) pre slack" and live: "is_live i d" and d: "d \<noteq> noDoc"
    and "all_ahead cs cs'" and "all_behind cs' (unat d)" and "j \<le> length ne" and "all_at cs' (es @ drop j ne) (unat d)"
    and "near (length es + (length ne - j)) (sum_list (map (value_at_doc i cs avg d) (es @ drop j ne))) part"
    and "probe ne pre d (ix_lengths i ! unat d) avg threshold slack cs' part j = (cs'', ok)"
  shows "all_ahead cs cs'' \<and> all_behind cs'' (unat d) \<and> all_at cs'' es (unat d) \<and> (ok \<longrightarrow> all_at cs'' (es @ ne) (unat d)) \<and>
    (\<not> ok \<longrightarrow> below (doc_score cs d (ix_lengths i ! unat d) avg) threshold)"
  using assms(4-)
proof (induction j arbitrary: cs' part)
  case 0
  then show ?case by (auto simp: all_at_def)
next
  case (Suc j)
  let ?len = "ix_lengths i ! unat d" and ?v = "value_at_doc i cs avg d"
  have ok: "0 \<le> avg" "\<forall>c \<in> set cs. cursor_ok i avg c" "length cs \<le> 16" "slack = slack_of (length cs)" "order_ok cs (ne @ es)"
    using plan by (auto simp: plan_ok_def)
  have lens: "length (ne @ es) = length cs" by (rule order_length [OF ok(5)])
  have j: "j < length ne" using Suc.prems(3) by simp
  have len': "length cs' = length cs" by (rule all_ahead_length [OF Suc.prems(1)])
  have tail: "drop j ne = ne ! j # drop (Suc j) ne" by (rule Cons_nth_drop_Suc [OF j, symmetric])
  show ?case
  proof (cases "below (fmul (fadd part (pre ! j)) slack) threshold")
    case True
    let ?seen = "es @ drop (Suc j) ne" and ?rest = "take (Suc j) ne"
    have res: "cs'' = cs'" "\<not> ok" using Suc.prems(6) True by auto
    have members: "\<forall>k \<in> set (ne @ es). cursor_ok i avg (cs ! k)" using ok(2,5) by (auto simp: order_ok_def)
    have "sum_list (map ?v (ne @ es)) = sum_list (map ?v ?seen) + sum_list (map ?v ?rest)"
      by (metis (no_types, lifting) add.commute append_assoc append_take_drop_id map_append sum_list_append)
    also have "\<dots> \<le> sum_list (map ?v ?seen) * (1 + ulp) ^ 16 + sum_list (map (\<lambda>k. cu_bound (cs ! k)) ?rest) * (1 + ulp) ^ 16"
    proof (intro add_mono)
      have "0 \<le> sum_list (map ?v ?seen)"
        using members by (intro sum_value_bounds(2) [OF _ ok(1) live]) (auto dest: in_set_dropD)
      then show "sum_list (map ?v ?seen) \<le> sum_list (map ?v ?seen) * (1 + ulp) ^ 16"
        by (simp add: mult_le_cancel_left1 one_le_power del: map_append sum_list_append)
      show "sum_list (map ?v ?rest) \<le> sum_list (map (\<lambda>k. cu_bound (cs ! k)) ?rest) * (1 + ulp) ^ 16"
        using members by (intro sum_value_bounds(1) [OF _ ok(1) live]) (auto dest: in_set_takeD)
    qed
    finally have le: "sum_list (map ?v (ne @ es)) \<le>
        (sum_list (map ?v ?seen) + sum_list (map (\<lambda>k. cu_bound (cs ! k)) ?rest)) * (1 + ulp) ^ 16"
      by (simp only: distrib_right)
    have "near (length cs) (sum_list (map ?v ?seen)) part"
      by (rule near_mono [OF Suc.prems(5)]) (use lens Suc.prems(3) in simp)
    moreover have "near (length cs) (sum_list (map (\<lambda>k. cu_bound (cs ! k)) ?rest)) (pre ! j)"
    proof (rule near_mono)
      show "near (Suc j) (sum_list (map (\<lambda>k. cu_bound (cs ! k)) ?rest)) (pre ! j)"
        using plan_prefix [OF plan, of j] j by simp
    qed (use lens j in simp)
    ultimately have "near (Suc (length cs)) (sum_list (map ?v ?seen) + sum_list (map (\<lambda>k. cu_bound (cs ! k)) ?rest)) (fadd part (pre ! j))"
      by (rule fadd_near)
    from slack_covers [OF score_near [OF plan live] le this]
    have "doc_score cs d ?len avg \<le> fmul (fadd part (pre ! j)) slack" using ok by simp
    then have "below (doc_score cs d ?len avg) threshold" using True by (auto simp: below_def split: option.splits)
    with res Suc.prems show ?thesis by (auto simp: all_at_def)
  next
    case False
    let ?k = "ne ! j"
    let ?c = "seek (cs' ! ?k) d"
    have k: "?k < length cs" using ok(5) j by (auto simp: order_ok_def)
    have ah: "ahead (cs ! ?k) (cs' ! ?k)" by (rule all_ahead_nth [OF Suc.prems(1) k])
    have "cursor_ok i avg (cs ! ?k)" using ok(2) k by simp
    then have asc: "ascending_docs (cu_postings (cs' ! ?k))" using ah by (simp add: cursor_ok_def ahead_def)
    have beh: "behind (cs' ! ?k) (unat d)" using Suc.prems(2) k len' by (simp add: all_behind_def)
    have pos: "positioned ?c (unat d)" by (rule seek_positioned [OF asc beh])
    let ?part = "if cursor_doc ?c = d then fadd part (contribution ?c ?len avg) else part"
    have same: "part_of ?c d ?len avg = part_of (cs ! ?k) d ?len avg"
      using ahead_part [OF ah] ahead_part [OF seek_moves] by simp
    have asc': "ascending_docs (cu_postings ?c)" using asc by (simp add: seek_fields)
    have part: "?part = add_part part (part_of (cs ! ?k) d ?len avg)"
      using contribution_part [OF asc' pos d, of ?len avg] same by (simp add: add_part_def)
    have "nonneg_parts [part_of (cs ! ?k) d ?len avg]"
      using value_bounds(1) [of i avg cs ?k d] ok(1,2) k live by (simp add: nonneg_parts_def value_at_doc_def)
    from add_parts_near [OF this Suc.prems(5)]
    have "near (Suc (length es + (length ne - Suc j))) (sum_list (map ?v (es @ drop (Suc j) ne)) + ?v ?k) ?part"
      unfolding part by (simp add: value_at_doc_eq)
    moreover have "Suc (length es + (length ne - Suc j)) = length es + (length ne - j)" using j by simp
    moreover have "sum_list (map ?v (es @ drop (Suc j) ne)) + ?v ?k = sum_list (map ?v (es @ drop j ne))" by (simp add: tail)
    ultimately have near': "near (length es + (length ne - j)) (sum_list (map ?v (es @ drop j ne))) ?part" by metis
    show ?thesis
    proof (rule Suc.IH)
      show "all_ahead cs (cs'[?k := ?c])" by (rule all_ahead_trans [OF Suc.prems(1) all_ahead_update [OF seek_moves]])
      show "all_behind (cs'[?k := ?c]) (unat d)"
        using Suc.prems(2) pos by (auto simp: all_behind_def positioned_def dest: set_update_subset_insert [THEN subsetD])
      show "all_at (cs'[?k := ?c]) (es @ drop j ne) (unat d)" by (rule probe_step [OF ok(5) len' j Suc.prems(4) pos])
      show "probe ne pre d ?len avg threshold slack (cs'[?k := ?c]) ?part j = (cs'', ok)"
        using Suc.prems(6) False by (simp add: Let_def)
    qed (use near' j in auto)
  qed
qed

lemma essential_sum_near:
  assumes plan: "plan_ok i cs avg order pre slack" and live: "is_live i d" and d: "d \<noteq> noDoc"
    and ah: "all_ahead cs cs'" and at: "all_at cs' ks (unat d)" and sub: "set ks \<subseteq> {..<length cs}"
  defines "len \<equiv> ix_lengths i ! unat d"
  shows "near (length ks) (sum_list (map (value_at_doc i cs avg d) ks))
    (foldl (\<lambda>part k. if doc_under cs' k = d then fadd part (contribution (cs' ! k) len avg) else part) 0 ks)"
proof -
  have ok: "0 \<le> avg" "\<forall>c \<in> set cs. cursor_ok i avg c" using plan by (auto simp: plan_ok_def)
  have len': "length cs' = length cs" by (rule all_ahead_length [OF ah])
  have fold: "foldl (\<lambda>part k. if doc_under cs' k = d then fadd part (contribution (cs' ! k) len avg) else part) s ks =
      foldl add_part s (map (\<lambda>k. part_of (cs ! k) d len avg) ks)" for s
    using at sub
  proof (induction ks arbitrary: s)
    case (Cons k ks)
    then have k: "k < length cs" "positioned (cs' ! k) (unat d)" by (auto simp: all_at_def)
    have a: "ahead (cs ! k) (cs' ! k)" by (rule all_ahead_nth [OF ah k(1)])
    have "cursor_ok i avg (cs ! k)" using ok(2) k by simp
    then have "ascending_docs (cu_postings (cs' ! k))" using a by (simp add: cursor_ok_def ahead_def)
    from contribution_part [OF this k(2) d, of len avg] ahead_part [OF a, of d len avg]
    have "(if doc_under cs' k = d then fadd s (contribution (cs' ! k) len avg) else s) = add_part s (part_of (cs ! k) d len avg)"
      using k len' by (auto simp: doc_under_def add_part_def)
    moreover have "all_at cs' ks (unat d)" "set ks \<subseteq> {..<length cs}" using Cons.prems by (auto simp: all_at_def)
    ultimately show ?case using Cons.IH by simp
  qed simp
  have "nonneg_parts (map (\<lambda>k. part_of (cs ! k) d len avg) ks)"
    using value_bounds(1) [of i avg cs _ d] ok sub live by (fastforce simp: nonneg_parts_def value_at_doc_def len_def)
  from add_parts_near [OF this near_refl, of 0 0]
  show ?thesis unfolding fold by (simp add: value_at_doc_eq comp_def len_def)
qed

lemma competitive_spec:
  assumes plan: "plan_ok i cs avg (ne @ es) pre slack" and live: "is_live i d" and d: "d \<noteq> noDoc"
    and ah: "all_ahead cs cs'" and beh: "all_behind cs' (unat d)" and at: "all_at cs' es (unat d)"
    and res: "competitive cs' ne es pre d (ix_lengths i ! unat d) avg threshold slack = (cs'', ok)"
  shows "all_ahead cs cs'' \<and> all_behind cs'' (unat d) \<and> all_at cs'' es (unat d) \<and> (ok \<longrightarrow> all_at cs'' (es @ ne) (unat d)) \<and>
    (\<not> ok \<longrightarrow> below (doc_score cs d (ix_lengths i ! unat d) avg) threshold)"
proof (cases "ne = []")
  case True
  then show ?thesis using assms by (auto simp: competitive_def)
next
  case False
  have sub: "set es \<subseteq> {..<length cs}" using plan by (auto simp: plan_ok_def order_ok_def)
  show ?thesis
    by (rule probe_spec [OF plan live d ah beh order_refl, of _ threshold])
      (use at essential_sum_near [OF plan live d ah at sub] res False in \<open>simp_all add: competitive_def\<close>)
qed

subsection \<open>The loop invariant\<close>

definition loop_inv :: "index \<Rightarrow> cursor list \<Rightarrow> real \<Rightarrow> nat list \<Rightarrow> real list \<Rightarrow> real \<Rightarrow> nat \<Rightarrow> nat \<Rightarrow> pruning \<Rightarrow> bool" where
  "loop_inv i cs avg order pre slack limit f s \<longleftrightarrow>
     (case s of (cs', tk, threshold, essential) \<Rightarrow>
        all_ahead cs cs' \<and> all_behind cs' f \<and> all_at cs' (drop essential order) f \<and>
        holds_best tk (hits_below i cs avg f) \<and> tk_limit tk = limit \<and>
        threshold = (if full tk then Some (h_score (tk_hits tk ! 0)) else None) \<and>
        (0 < essential \<longrightarrow> below (fmul (pre ! (essential - 1)) slack) threshold) \<and> essential \<le> length order)"

lemma below_standing:
  assumes "below (h_score h) (if full tk then Some (h_score (tk_hits tk ! 0)) else None)"
  shows "full tk \<and> standing h < standing (tk_hits tk ! 0)"
  using assms standing_score(2) by (auto simp: below_def split: if_splits)

lemma all_behind_mono: "all_behind cs f \<Longrightarrow> f \<le> g \<Longrightarrow> all_behind cs g"
  by (force simp: all_behind_def behind_def)

lemma not_on_cursor:
  assumes "positioned c f" and "f \<le> unat d" and "unat d < g"
    and "\<forall>j. cu_pos c \<le> j \<and> j < length (cu_postings c) \<longrightarrow> g \<le> unat (p_doc (cu_postings c ! j))"
  shows "tf_in (cu_postings c) d = None"
proof -
  have "p_doc (cu_postings c ! j) \<noteq> d" if "j < length (cu_postings c)" for j
  proof (cases "j < cu_pos c")
    case True
    then have "unat (p_doc (cu_postings c ! j)) < f" using assms(1) that by (simp add: positioned_def behind_def)
    with assms(2) show ?thesis by auto
  next
    case False
    then have "g \<le> unat (p_doc (cu_postings c ! j))" using assms(4) that by simp
    with assms(3) show ?thesis by auto
  qed
  then show ?thesis unfolding tf_in_None by (metis in_set_conv_nth)
qed

text \<open>Documents only the non-essential cursors have may be passed.\<close>

lemma skip_ahead:
  assumes plan: "plan_ok i cs avg order pre slack" and slots: "slots_ok U i" and limit: "0 < limit"
    and inv: "loop_inv i cs avg order pre slack limit f (cs', tk, threshold, essential)" and "f \<le> g"
    and far: "\<forall>k \<in> set (drop essential order). \<forall>j. cu_pos (cs' ! k) \<le> j \<and> j < length (cu_postings (cs' ! k)) \<longrightarrow>
      g \<le> unat (p_doc (cu_postings (cs' ! k) ! j))"
  shows "loop_inv i cs avg order pre slack limit g (cs', tk, threshold, essential)"
proof -
  have ah: "all_ahead cs cs'" and at: "all_at cs' (drop essential order) f" and best: "holds_best tk (hits_below i cs avg f)"
    and thr: "threshold = (if full tk then Some (h_score (tk_hits tk ! 0)) else None)" and lim: "tk_limit tk = limit"
    and low: "0 < essential \<longrightarrow> below (fmul (pre ! (essential - 1)) slack) threshold" and ess: "essential \<le> length order"
    using inv by (auto simp: loop_inv_def)
  have o: "order_ok cs order" using plan by (simp add: plan_ok_def)
  let ?new = "hit_of i cs avg ` {d. is_live i d \<and> matches cs d \<and> f \<le> unat d \<and> unat d < g}"
  have below: "full tk \<and> standing h < standing (tk_hits tk ! 0)" if new: "h \<in> ?new" for h
  proof -
    from new obtain d where d: "is_live i d" "matches cs d" "f \<le> unat d" "unat d < g" "h = hit_of i cs avg d" by auto
    have none: "\<forall>k \<in> set (drop essential order). tf_in (cu_postings (cs ! k)) d = None"
    proof
      fix k assume k: "k \<in> set (drop essential order)"
      then have "k < length cs" using o by (auto simp: order_ok_def dest!: in_set_dropD)
      then have "cu_postings (cs' ! k) = cu_postings (cs ! k)" using all_ahead_nth [OF ah] by (simp add: ahead_def)
      moreover have "tf_in (cu_postings (cs' ! k)) d = None"
        using not_on_cursor [of "cs' ! k" f d g] at k far d(3,4) by (auto simp: all_at_def)
      ultimately show "tf_in (cu_postings (cs ! k)) d = None" by simp
    qed
    have "essential \<noteq> 0"
    proof
      assume "essential = 0"
      then have "\<forall>k < length cs. tf_in (cu_postings (cs ! k)) d = None" using none o by (simp add: order_ok_def)
      with d(2) show False by (auto simp: matches_def in_set_conv_nth)
    qed
    then have "h_score h \<le> fmul (pre ! (essential - 1)) slack" "below (fmul (pre ! (essential - 1)) slack) threshold"
      using not_essential [OF plan d(1) _ ess none] low by (simp_all add: d(5) hit_of_def)
    then have "below (h_score h) threshold" by (auto simp: below_def split: option.splits)
    then show ?thesis unfolding thr by (rule below_standing)
  qed
  have all: "hits_below i cs avg g = hits_below i cs avg f \<union> ?new" using \<open>f \<le> g\<close> by (fastforce simp: hits_below_def)
  have "holds_best tk (hits_below i cs avg g)"
  proof (cases "?new = {}")
    case True
    show ?thesis unfolding all True using best by simp
  next
    case False
    then have "full tk" using below by blast
    then show ?thesis unfolding all using holds_best_skip [OF best hits_finite _ _ _, of ?new] below lim limit by auto
  qed
  moreover have "all_at cs' (drop essential order) g"
    using far at \<open>f \<le> g\<close> by (force simp: all_at_def positioned_def behind_def)
  ultimately show ?thesis using inv \<open>f \<le> g\<close> by (auto simp: loop_inv_def intro: all_behind_mono)
qed

text \<open>A round of the loop on a live document.\<close>

lemma scan_up_below:
  assumes "e \<le> length pre" and "0 < e \<longrightarrow> P (pre ! (e - 1))"
  shows "e \<le> scan_up P pre e \<and> scan_up P pre e \<le> length pre \<and> (0 < scan_up P pre e \<longrightarrow> P (pre ! (scan_up P pre e - 1)))"
proof -
  note up = scan_up_split [OF refl assms(1), of P]
  have "P (pre ! (scan_up P pre e - 1))" if "scan_up P pre e > e"
  proof -
    have "takeWhile P (drop e pre) \<noteq> []" using that by (auto simp: scan_up_def)
    then have "last (take (scan_up P pre e) pre) = last (takeWhile P (drop e pre))" unfolding up(2) by simp
    moreover have "P (last (takeWhile P (drop e pre)))"
      using last_in_set [OF \<open>takeWhile P (drop e pre) \<noteq> []\<close>] set_takeWhileD by fast
    ultimately show ?thesis using last_take(2) [of "scan_up P pre e" pre] that up(4) by simp
  qed
  then show ?thesis using up(3,4) assms(2) by (cases "scan_up P pre e = e") auto
qed

definition visited :: "index \<Rightarrow> cursor list \<Rightarrow> real \<Rightarrow> nat list \<Rightarrow> real list \<Rightarrow> real \<Rightarrow> nat \<Rightarrow> nat \<Rightarrow> pruning \<Rightarrow> bool" where
  "visited i cs avg order pre slack limit f s \<longleftrightarrow>
     (case s of (cs', tk, threshold, essential) \<Rightarrow>
        all_ahead cs cs' \<and> all_behind cs' f \<and> all_at cs' (drop essential order) f \<and>
        holds_best tk (hits_below i cs avg (Suc f)) \<and> tk_limit tk = limit \<and>
        threshold = (if full tk then Some (h_score (tk_hits tk ! 0)) else None) \<and>
        (0 < essential \<longrightarrow> below (fmul (pre ! (essential - 1)) slack) threshold) \<and> essential \<le> length order)"

lemma hits_Suc:
  "hits_below i cs avg (Suc (unat d)) =
     (if is_live i d \<and> matches cs d then insert (hit_of i cs avg d) (hits_below i cs avg (unat d)) else hits_below i cs avg (unat d))"
proof -
  have "unat x < Suc (unat d) \<longleftrightarrow> unat x < unat d \<or> x = d" for x by (auto simp: less_Suc_eq word_unat_eq_iff)
  then have "{x. is_live i x \<and> matches cs x \<and> unat x < Suc (unat d)} =
      (if is_live i d \<and> matches cs d then insert d {x. is_live i x \<and> matches cs x \<and> unat x < unat d}
       else {x. is_live i x \<and> matches cs x \<and> unat x < unat d})" by auto
  then show ?thesis by (simp add: hits_below_def)
qed

lemma below_root: "below x (if full tk then Some (h_score (tk_hits tk ! 0)) else None) \<longleftrightarrow> full tk \<and> x < h_score (tk_hits tk ! 0)"
  by (simp add: below_def)

lemma offered_hit:
  assumes slots: "slots_ok U i" and live: "is_live i d" and m: "matches cs d" and limit: "0 < tk_limit tk"
    and best: "holds_best tk (hits_below i cs avg (unat d))" and off: "offer tk (hit_of i cs avg d) = (tk', taken)"
  shows "holds_best tk' (hits_below i cs avg (Suc (unat d)))" and "tk_limit tk' = tk_limit tk" and "\<not> taken \<longrightarrow> tk' = tk"
    and "full tk \<longrightarrow> full tk' \<and> h_score (tk_hits tk ! 0) \<le> h_score (tk_hits tk' ! 0)"
proof -
  have new: "hit_of i cs avg d \<notin> hits_below i cs avg (unat d)"
    by (auto simp: hits_below_def hit_of_def)
  note spec = offer_spec [OF best hits_finite limit new hits_inj [OF slots live] off]
  show "holds_best tk' (hits_below i cs avg (Suc (unat d)))" using spec(1) live m by (simp add: hits_Suc)
  show "tk_limit tk' = tk_limit tk" "\<not> taken \<longrightarrow> tk' = tk" by (rule spec)+
  show "full tk \<longrightarrow> full tk' \<and> h_score (tk_hits tk ! 0) \<le> h_score (tk_hits tk' ! 0)"
    using spec(5) standing_score(1) by blast
qed

lemma skipped_hit:
  assumes "0 < tk_limit tk" "holds_best tk (hits_below i cs avg (unat d))"
    and "below (doc_score cs d (ix_lengths i ! unat d) avg) (if full tk then Some (h_score (tk_hits tk ! 0)) else None)"
  shows "holds_best tk (hits_below i cs avg (Suc (unat d)))"
proof -
  have "full tk \<and> standing (hit_of i cs avg d) < standing (tk_hits tk ! 0)"
    using assms(3) by (intro below_standing) (simp add: hit_of_def)
  then have "holds_best tk (hits_below i cs avg (unat d) \<union> {hit_of i cs avg d})"
    using assms(1,2) by (intro holds_best_skip) auto
  then show ?thesis using assms(2) by (simp add: hits_Suc)
qed

lemma at_document:
  assumes plan: "plan_ok i cs avg order pre slack" and d: "d \<noteq> noDoc" and ah: "all_ahead cs cs'"
    and at: "all_at cs' (drop n order @ take n order) (unat d)"
  shows "\<forall>k < length cs. positioned (cs' ! k) (unat d)" and "exactScore cs' d len avg = doc_score cs d len avg"
proof -
  have "set (drop n order @ take n order) = {..<length cs}"
    using plan by (metis Un_commute append_take_drop_id order_ok_def plan_ok_def set_append)
  then show every: "\<forall>k < length cs. positioned (cs' ! k) (unat d)" using at by (auto simp: all_at_def)
  have "ascending_docs (cu_postings (cs' ! k))" if k: "k < length cs" for k
  proof -
    have "cs ! k \<in> set cs" using k by simp
    then have "ascending_docs (cu_postings (cs ! k))" using plan by (auto simp: plan_ok_def cursor_ok_def)
    then show ?thesis using all_ahead_nth [OF ah k] by (simp add: ahead_def)
  qed
  then have "\<forall>c \<in> set cs'. ascending_docs (cu_postings c) \<and> positioned c (unat d)"
    using every all_ahead_length [OF ah] by (auto simp: in_set_conv_nth)
  from exactScore_eq [OF this d] have "exactScore cs' d len avg = doc_score cs' d len avg" .
  also have "map (\<lambda>c. part_of c d len avg) cs' = map (\<lambda>c. part_of c d len avg) cs"
    using all_ahead_length [OF ah] all_ahead_nth [OF ah] ahead_part by (intro nth_equalityI) auto
  then have "doc_score cs' d len avg = doc_score cs d len avg" by (simp add: doc_score_def)
  finally show "exactScore cs' d len avg = doc_score cs d len avg" .
qed

lemma visit_spec:
  assumes plan: "plan_ok i cs avg order pre slack" and slots: "slots_ok U i" and limit: "0 < limit"
    and live: "is_live i d" and d: "d \<noteq> noDoc" and m: "matches cs d"
    and inv: "loop_inv i cs avg order pre slack limit (unat d) (cs', tk, threshold, essential)"
  shows "visited i cs avg order pre slack limit (unat d) (visit i avg order pre slack d (cs', tk, threshold, essential))"
proof -
  let ?len = "ix_lengths i ! unat d"
  have I: "all_ahead cs cs'" "all_behind cs' (unat d)" "all_at cs' (drop essential order) (unat d)"
    "holds_best tk (hits_below i cs avg (unat d))" "tk_limit tk = limit"
    and thr: "threshold = (if full tk then Some (h_score (tk_hits tk ! 0)) else None)"
    and low: "0 < essential \<longrightarrow> below (fmul (pre ! (essential - 1)) slack) threshold" and ess: "essential \<le> length order"
    using inv by (auto simp: loop_inv_def)
  have plan': "plan_ok i cs avg (take essential order @ drop essential order) pre slack" using plan by simp
  have pre: "length pre = length order" using plan by (simp add: plan_ok_def prefix_sums_def)
  obtain cs'' ok where c: "competitive cs' (take essential order) (drop essential order) pre d ?len avg threshold slack = (cs'', ok)" by fastforce
  note spec = competitive_spec [OF plan' live d I(1-3) c]
  show ?thesis
  proof (cases "ok \<and> (\<not> full tk \<or> \<not> below (exactScore cs'' d ?len avg) threshold)")
    case False
    have "below (doc_score cs d ?len avg) threshold"
    proof (cases ok)
      case True
      then have "all_at cs'' (drop essential order @ take essential order) (unat d)" using spec by simp
      from at_document(2) [OF plan d _ this, of ?len] spec False True show ?thesis by simp
    qed (use spec in simp)
    then have "holds_best tk (hits_below i cs avg (Suc (unat d)))" using skipped_hit I(4,5) limit unfolding thr by blast
    moreover have "visit i avg order pre slack d (cs', tk, threshold, essential) = (cs'', tk, threshold, essential)"
      using False by (cases ok) (auto simp: visit_def c Let_def)
    ultimately show ?thesis using spec I thr low ess by (simp add: visited_def)
  next
    case True
    then have at: "all_at cs'' (drop essential order @ take essential order) (unat d)" using spec by simp
    note here = at_document [OF plan d _ at]
    have every: "\<forall>k < length cs. positioned (cs'' ! k) (unat d)" using here(1) spec by blast
    have hit: "\<lparr>h_score = exactScore cs'' d ?len avg, h_slot = d, h_id = sd_ID (ix_docs i ! unat d)\<rparr> = hit_of i cs avg d"
      using here(2) [of ?len] spec by (simp add: hit_of_def)
    obtain tk' taken where off: "offer tk (hit_of i cs avg d) = (tk', taken)" by fastforce
    have lim: "0 < tk_limit tk" using I(5) limit by simp
    note off' = offered_hit [OF slots live m lim I(4) off]
    have v: "visit i avg order pre slack d (cs', tk, threshold, essential) =
        (if taken \<and> full tk'
         then (cs'', tk', Some (h_score (tk_hits tk' ! 0)), scan_up (\<lambda>p. below (fmul p slack) (Some (h_score (tk_hits tk' ! 0)))) pre essential)
         else (cs'', tk', threshold, essential))"
      using True by (simp add: visit_def c Let_def hit off)
    have later: "all_at cs'' (drop e order) (unat d)" for e
      using every plan by (auto simp: all_at_def plan_ok_def order_ok_def dest!: in_set_dropD)
    show ?thesis
    proof (cases "taken \<and> full tk'")
      case True
      let ?P = "\<lambda>p. below (fmul p slack) (Some (h_score (tk_hits tk' ! 0)))"
      have "0 < essential \<longrightarrow> ?P (pre ! (essential - 1))"
        using low off'(4) unfolding thr below_root by (auto simp: below_def)
      from scan_up_below [of essential pre ?P, OF _ this] ess pre
      have "0 < scan_up ?P pre essential \<longrightarrow> ?P (pre ! (scan_up ?P pre essential - 1))" "scan_up ?P pre essential \<le> length order" by auto
      then show ?thesis using spec off' later I(5) True by (simp add: visited_def v)
    next
      case False
      then have "threshold = (if full tk' then Some (h_score (tk_hits tk' ! 0)) else None)"
        using thr off'(3,4) by auto
      moreover have "visit i avg order pre slack d (cs', tk, threshold, essential) = (cs'', tk', threshold, essential)"
        unfolding v by (rule if_not_P [OF False])
      ultimately show ?thesis using spec off'(1,2) I(5) low ess later [of essential] by (simp add: visited_def)
    qed
  qed
qed

end
