(* ===== verification/SearchLoop.thy ===== *)
theory SearchLoop
  imports SearchPrune
begin

text \<open>
  Both evaluations of a query, the pruned one and the exhaustive one, leave the best hits among all live documents that have a
  term of the query.
\<close>

subsection \<open>The pruned evaluation\<close>

lemma advance_nth:
  assumes "distinct ks" and "k < length cs"
  shows "advance cs ks d ! k =
    (if k \<in> set ks \<and> doc_under cs k = d then (cs ! k)\<lparr>cu_pos := cu_pos (cs ! k) + 1\<rparr> else cs ! k)"
  using assms
proof (induction ks arbitrary: cs)
  case Nil
  then show ?case by (simp add: advance_def)
next
  case (Cons j ks)
  let ?cs = "if doc_under cs j = d then cs[j := (cs ! j)\<lparr>cu_pos := cu_pos (cs ! j) + 1\<rparr>] else cs"
  have rest: "advance cs (j # ks) d = advance ?cs ks d" by (simp add: advance_def)
  have same: "doc_under ?cs k' = doc_under cs k'" if "k' \<noteq> j" for k' using that by (simp add: doc_under_def)
  have "k < length ?cs" using Cons.prems(2) by simp
  note IH = Cons.IH [OF _ this]
  show ?case
  proof (cases "k = j")
    case True
    then have "k \<notin> set ks" "distinct ks" using Cons.prems(1) by auto
    then have "advance ?cs ks d ! k = ?cs ! k" using IH by simp
    then show ?thesis unfolding rest using True Cons.prems(2) by simp
  next
    case False
    then have "?cs ! k = cs ! k" "doc_under ?cs k = doc_under cs k" using same [of k] by auto
    then show ?thesis unfolding rest using IH Cons.prems(1) False by simp
  qed
qed

lemma unat_slot: "unat (w :: uint32) < 2 ^ 32"
  using unsigned_less [of w, where ?'a = nat] by simp

lemma noDoc_max: "w \<le> noDoc"
  using unat_slot [of w] by (simp add: word_le_nat_alt noDoc_def)

lemma positioned_next:
  assumes asc: "ascending_docs (cu_postings c)" and p: "positioned c (unat d)" and d: "d \<noteq> noDoc"
  shows "cursor_doc c = d \<Longrightarrow> positioned (c\<lparr>cu_pos := cu_pos c + 1\<rparr>) (Suc (unat d))"
    and "cursor_doc c \<noteq> d \<Longrightarrow> positioned c (Suc (unat d))"
proof -
  let ?ps = "cu_postings c"
  have beh: "behind c (unat d)" and rest: "\<And>j. cu_pos c \<le> j \<Longrightarrow> j < length ?ps \<Longrightarrow> unat d \<le> unat (p_doc (?ps ! j))"
    using p by (auto simp: positioned_def)
  show "positioned (c\<lparr>cu_pos := cu_pos c + 1\<rparr>) (Suc (unat d))" if on: "cursor_doc c = d"
  proof -
    have here: "cu_pos c < length ?ps" "p_doc (?ps ! cu_pos c) = d" using on d by (auto simp: cursor_doc_def split: if_splits)
    have "Suc (unat d) \<le> unat (p_doc (?ps ! j))" if "cu_pos c < j" "j < length ?ps" for j
      using ascending_nth [OF asc that] here by (simp add: word_less_nat_alt Suc_le_eq)
    then show ?thesis using beh here by (auto simp: positioned_def behind_def less_Suc_eq)
  qed
  assume off: "cursor_doc c \<noteq> d"
  have "Suc (unat d) \<le> unat (p_doc (?ps ! j))" if "cu_pos c \<le> j" "j < length ?ps" for j
  proof -
    have here: "cu_pos c < length ?ps" "p_doc (?ps ! cu_pos c) \<noteq> d" using off that by (auto simp: cursor_doc_def)
    then have "unat d < unat (p_doc (?ps ! cu_pos c))" using rest [of "cu_pos c"] by (simp add: order_less_le word_unat_eq_iff)
    moreover have "unat (p_doc (?ps ! cu_pos c)) \<le> unat (p_doc (?ps ! j))"
      using ascending_nth [OF asc, of "cu_pos c" j] that by (cases "cu_pos c = j") (auto simp: word_less_nat_alt)
    ultimately show ?thesis by simp
  qed
  then show "positioned c (Suc (unat d))" using beh by (auto simp: positioned_def behind_def less_Suc_eq)
qed

lemma advanced:
  assumes plan: "plan_ok i cs avg order pre slack" and d: "d \<noteq> noDoc"
    and v: "visited i cs avg order pre slack limit (unat d) (cs', tk, threshold, essential)"
  shows "loop_inv i cs avg order pre slack limit (Suc (unat d)) (advance cs' (drop essential order) d, tk, threshold, essential)"
proof -
  let ?ks = "drop essential order"
  let ?cs = "advance cs' ?ks d"
  have I: "all_ahead cs cs'" "all_behind cs' (unat d)" "all_at cs' ?ks (unat d)" using v by (auto simp: visited_def)
  have len: "length cs' = length cs" "length ?cs = length cs'" using all_ahead_length [OF I(1)] all_ahead_length [OF advance_moves] by auto
  have dist: "distinct ?ks" "set ?ks \<subseteq> {..<length cs}" using plan by (auto simp: plan_ok_def order_ok_def dest: in_set_dropD)
  have asc: "ascending_docs (cu_postings (cs' ! k))" if "k < length cs" for k
  proof -
    have "cursor_ok i avg (cs ! k)" using that plan by (simp add: plan_ok_def)
    then show ?thesis using all_ahead_nth [OF I(1) that] by (simp add: cursor_ok_def ahead_def)
  qed
  have at: "positioned (?cs ! k) (Suc (unat d))" if "k \<in> set ?ks" for k
  proof -
    have k: "k < length cs'" "positioned (cs' ! k) (unat d)" "doc_under cs' k = cursor_doc (cs' ! k)"
      using that dist(2) len I(3) by (auto simp: all_at_def doc_under_def)
    then show ?thesis using positioned_next [OF asc k(2) d] that len by (auto simp: advance_nth [OF dist(1) k(1)])
  qed
  have "behind (?cs ! k) (Suc (unat d))" if k: "k < length cs'" for k
  proof (cases "k \<in> set ?ks")
    case False
    then show ?thesis using I(2) k by (auto simp: advance_nth [OF dist(1) k] all_behind_def behind_def intro: less_SucI)
  qed (use at in \<open>auto simp: positioned_def\<close>)
  then have "all_behind ?cs (Suc (unat d))" using len by (auto simp: all_behind_def in_set_conv_nth)
  moreover have "all_at ?cs ?ks (Suc (unat d))" using at by (simp add: all_at_def)
  ultimately show ?thesis using v all_ahead_trans [OF I(1) advance_moves] by (auto simp: visited_def loop_inv_def)
qed

lemma far_enough:
  assumes plan: "plan_ok i cs avg order pre slack"
    and inv: "loop_inv i cs avg order pre slack limit f (cs', tk, threshold, essential)"
    and k: "k \<in> set (drop essential order)" and j: "cu_pos (cs' ! k) \<le> j" "j < length (cu_postings (cs' ! k))"
  shows "next_doc cs' (drop essential order) \<noteq> noDoc \<and>
    unat (next_doc cs' (drop essential order)) \<le> unat (p_doc (cu_postings (cs' ! k) ! j))"
proof -
  have ah: "all_ahead cs cs'" using inv by (simp add: loop_inv_def)
  have klen: "k < length cs" "k < length cs'"
    using k plan all_ahead_length [OF ah] by (auto simp: plan_ok_def order_ok_def dest!: in_set_dropD)
  have "cursor_ok i avg (cs ! k)" using klen plan by (simp add: plan_ok_def)
  then have c: "ascending_docs (cu_postings (cs' ! k))" "\<forall>p \<in> set (cu_postings (cs' ! k)). p_doc p \<noteq> noDoc"
    using all_ahead_nth [OF ah klen(1)] by (auto simp: cursor_ok_def ahead_def)
  have here: "cu_pos (cs' ! k) < length (cu_postings (cs' ! k))" using j by simp
  then have under: "doc_under cs' k = p_doc (cu_postings (cs' ! k) ! cu_pos (cs' ! k))" using klen by (simp add: doc_under_def cursor_doc_def)
  then have "doc_under cs' k \<noteq> noDoc" using c(2) here by simp
  moreover have le: "next_doc cs' (drop essential order) \<le> doc_under cs' k" by (rule next_doc_least [OF k])
  ultimately have "next_doc cs' (drop essential order) \<noteq> noDoc" using noDoc_max [of "doc_under cs' k"] by auto
  moreover have "doc_under cs' k \<le> p_doc (cu_postings (cs' ! k) ! j)"
    unfolding under using ascending_nth [OF c(1), of "cu_pos (cs' ! k)" j] j by (cases "cu_pos (cs' ! k) = j") auto
  ultimately show ?thesis using le by (simp add: word_le_nat_alt)
qed

lemma next_doc_matches:
  assumes "all_ahead cs cs'" and "set ks \<subseteq> {..<length cs}" and "next_doc cs' ks \<noteq> noDoc"
  shows "matches cs (next_doc cs' ks)"
proof -
  obtain k where k: "k \<in> set ks" "doc_under cs' k = next_doc cs' ks" using next_doc_under assms(3) by metis
  then have "k < length cs" using assms(2) by auto
  note a = all_ahead_nth [OF assms(1) this] all_ahead_length [OF assms(1)]
  have "cu_pos (cs' ! k) < length (cu_postings (cs' ! k))" "p_doc (cu_postings (cs' ! k) ! cu_pos (cs' ! k)) = next_doc cs' ks"
    using k(2) assms(3) by (auto simp: doc_under_def cursor_doc_def split: if_splits)
  then have "\<exists>p \<in> set (cu_postings (cs' ! k)). p_doc p = next_doc cs' ks" by (metis nth_mem)
  then have "tf_in (cu_postings (cs ! k)) (next_doc cs' ks) \<noteq> None" using a(1) by (auto simp: tf_in_None ahead_def)
  then show ?thesis using \<open>k < length cs\<close> by (auto simp: matches_def)
qed

lemma pruned_loop_correct:
  assumes "plan_ok i cs avg order pre slack" and "slots_ok U i" and "0 < limit" and "f \<le> 2 ^ 32"
    and "\<forall>c \<in> set cs. \<forall>p \<in> set (cu_postings c). unat (p_doc p) < length (ix_docs i)"
    and "loop_inv i cs avg order pre slack limit f (cs', tk, threshold, essential)"
  shows "holds_best (pruned_loop i avg order pre slack (cs', tk, threshold, essential)) (hits_below i cs avg (2 ^ 32)) \<and>
    tk_limit (pruned_loop i avg order pre slack (cs', tk, threshold, essential)) = limit"
  using assms
proof (induction i avg order pre slack "(cs', tk, threshold, essential)" arbitrary: cs' tk threshold essential f rule: pruned_loop.induct)
  case (1 i avg order pre slack cs' tk threshold essential)
  note plan = 1(2) and slots = 1(3) and limit = 1(4) and small = 1(5) and inside = 1(6) and inv = 1(7)
  let ?d = "next_doc cs' (drop essential order)"
  let ?result = "pruned_loop i avg order pre slack (cs', tk, threshold, essential)"
  note far = far_enough [OF plan inv]
  have sub: "set (drop essential order) \<subseteq> {..<length cs}" using plan by (auto simp: plan_ok_def order_ok_def dest: in_set_dropD)
  show ?case
  proof (cases "essential \<ge> length order \<or> ?d = noDoc")
    case True
    then have "\<forall>k \<in> set (drop essential order). \<forall>j. cu_pos (cs' ! k) \<le> j \<and> j < length (cu_postings (cs' ! k)) \<longrightarrow>
        2 ^ 32 \<le> unat (p_doc (cu_postings (cs' ! k) ! j))"
      using far by auto
    from skip_ahead [OF plan slots limit inv small this]
    have "holds_best tk (hits_below i cs avg (2 ^ 32)) \<and> tk_limit tk = limit" by (simp add: loop_inv_def)
    moreover have "?result = tk" using True by (subst pruned_loop.simps) (auto simp: Let_def)
    ultimately show ?thesis by simp
  next
    case False
    then have go: "\<not> length order \<le> essential" "?d \<noteq> noDoc" by auto
    have ah: "all_ahead cs cs'" using inv by (simp add: loop_inv_def)
    have m: "matches cs ?d" by (rule next_doc_matches [OF ah sub go(2)])
    then obtain c where "c \<in> set cs" "tf_in (cu_postings c) ?d \<noteq> None" by (auto simp: matches_def)
    then obtain p where "p \<in> set (cu_postings c)" "p_doc p = ?d" by (auto simp: tf_in_None)
    then have "unat ?d < length (ix_docs i)" using inside \<open>c \<in> set cs\<close> by metis
    then have live: "is_live i ?d \<longleftrightarrow> ix_live i ! unat ?d" by (simp add: is_live_def)
    have dsmall: "Suc (unat ?d) \<le> 2 ^ 32" using unat_slot [of ?d] by simp
    have front: "f \<le> unat ?d"
    proof -
      obtain k where k: "k \<in> set (drop essential order)" "doc_under cs' k = ?d" using next_doc_under go(2) by metis
      then have "positioned (cs' ! k) f" using inv by (auto simp: loop_inv_def all_at_def)
      then show ?thesis using k(2) go(2) by (auto simp: doc_under_def cursor_doc_def positioned_def split: if_splits)
    qed
    have inv_d: "loop_inv i cs avg order pre slack limit (unat ?d) (cs', tk, threshold, essential)"
      by (rule skip_ahead [OF plan slots limit inv front]) (use far in blast)
    obtain cs'' tk' threshold' essential' where round_result:
      "(if ix_live i ! unat ?d then visit i avg order pre slack ?d (cs', tk, threshold, essential) else (cs', tk, threshold, essential)) =
        (cs'', tk', threshold', essential')" by (metis prod_cases4)
    have "visited i cs avg order pre slack limit (unat ?d) (cs'', tk', threshold', essential')"
    proof (cases "is_live i ?d")
      case True
      from visit_spec [OF plan slots limit True go(2) m inv_d] round_result True live show ?thesis by simp
    next
      case False
      then have "(cs'', tk', threshold', essential') = (cs', tk, threshold, essential)" using round_result live by simp
      then show ?thesis using inv_d False unfolding visited_def loop_inv_def hits_Suc by auto
    qed
    from advanced [OF plan go(2) this]
    have next_inv: "loop_inv i cs avg order pre slack limit (Suc (unat ?d)) (advance cs'' (drop essential' order) ?d, tk', threshold', essential')" .
    have "?result = pruned_loop i avg order pre slack (advance cs'' (drop essential' order) ?d, tk', threshold', essential')"
      using go round_result by (subst pruned_loop.simps) (simp add: Let_def)
    then show ?thesis
      using 1(1) [OF go(1) refl go(2) round_result [symmetric] refl refl plan slots limit dsmall inside next_inv] by simp
  qed
qed

lemma sort_key_order_ok: "order_ok cs (sort_key f [0..<length cs])"
  by (auto simp: order_ok_def)

text \<open>Whatever order of equal bounds the sort leaves, the heap ends with the best hits.\<close>

lemma scorePruned_correct:
  assumes "slots_ok U i" and "0 < limit" and "0 \<le> avg" and "length cs \<le> 16" and "\<forall>c \<in> set cs. cursor_ok i avg c \<and> cu_pos c = 0"
    and "\<forall>c \<in> set cs. \<forall>p \<in> set (cu_postings c). unat (p_doc p) < length (ix_docs i)"
  shows "holds_best (scorePruned i cs avg \<lparr>tk_limit = limit, tk_hits = []\<rparr>) (hits_below i cs avg (2 ^ 32)) \<and>
    tk_limit (scorePruned i cs avg \<lparr>tk_limit = limit, tk_hits = []\<rparr>) = limit"
proof -
  let ?order = "sort_key (\<lambda>k. cu_bound (cs ! k)) [0..<length cs]"
  let ?pre = "prefix_sums (map (\<lambda>k. cu_bound (cs ! k)) ?order)"
  have plan: "plan_ok i cs avg ?order ?pre (slack_of (length cs))"
    using assms sort_key_order_ok by (simp add: plan_ok_def)
  have "all_behind cs 0" "all_at cs ?order 0" using assms(5) by (auto simp: all_behind_def behind_def all_at_def positioned_def)
  moreover have "holds_best \<lparr>tk_limit = limit, tk_hits = []\<rparr> (hits_below i cs avg 0)"
    using holds_best_empty by (simp add: hits_below_def)
  moreover have "\<not> full \<lparr>tk_limit = limit, tk_hits = []\<rparr>" using assms(2) by (simp add: full_def)
  ultimately have "loop_inv i cs avg ?order ?pre (slack_of (length cs)) limit 0 (cs, \<lparr>tk_limit = limit, tk_hits = []\<rparr>, None, 0)"
    by (simp add: loop_inv_def)
  from pruned_loop_correct [OF plan assms(1,2) _ assms(6) this] show ?thesis
    by (simp add: scorePruned_def slack_of_def Let_def)
qed

subsection \<open>The exhaustive evaluation\<close>

lemma tf_in_Cons [simp]: "tf_in (p # ps) d = (if p_doc p = d then Some (p_tf p) else tf_in ps d)" and tf_in_Nil [simp]: "tf_in [] d = None"
  by (simp_all add: tf_in_def)

definition touched_ok :: "index \<Rightarrow> bool list \<Rightarrow> uint32 list \<Rightarrow> bool" where
  "touched_ok i matched touched \<longleftrightarrow> distinct touched \<and> set touched = {d. is_live i d \<and> matched ! unat d}"

lemma postings_loop:
  assumes "ascending_docs ps" and "\<forall>p \<in> set ps. unat (p_doc p) < length (ix_docs i)"
    and "length scores = length (ix_docs i)" "length matched = length (ix_docs i)" and "touched_ok i matched touched"
    and "foldl (add_posting i avg idf) (scores, matched, touched) ps = (scores', matched', touched')"
  shows "length scores' = length (ix_docs i) \<and> length matched' = length (ix_docs i) \<and> touched_ok i matched' touched' \<and>
    (\<forall>d. is_live i d \<longrightarrow>
       scores' ! unat d = add_part (scores ! unat d) (map_option (\<lambda>tf. fmul idf (bm25 tf (ix_lengths i ! unat d) avg)) (tf_in ps d)) \<and>
       (matched' ! unat d \<longleftrightarrow> matched ! unat d \<or> tf_in ps d \<noteq> None))"
  using assms
proof (induction ps arbitrary: scores matched touched)
  case Nil
  then show ?case by (simp add: add_part_def)
next
  case (Cons p ps)
  let ?n = "unat (p_doc p)"
  have asc: "ascending_docs ps" and head: "\<forall>q \<in> set ps. p_doc p < p_doc q" using Cons.prems(1) by (auto simp: ascending_docs_def)
  have n: "?n < length (ix_docs i)" using Cons.prems(2) by simp
  have none: "tf_in ps (p_doc p) = None" using head by (auto simp: tf_in_None)
  obtain s1 m1 t1 where one: "add_posting i avg idf (scores, matched, touched) p = (s1, m1, t1)" by (rule prod_cases3)
  have eqs: "s1 = (if ix_live i ! ?n then scores[?n := fadd (scores ! ?n) (fmul idf (bm25 (p_tf p) (ix_lengths i ! ?n) avg))] else scores)"
    "m1 = (if ix_live i ! ?n then matched[?n := True] else matched)"
    "t1 = (if ix_live i ! ?n \<and> \<not> matched ! ?n then touched @ [p_doc p] else touched)"
    using one by (auto simp: add_posting_def Let_def split: if_splits)
  have live: "is_live i (p_doc p) \<longleftrightarrow> ix_live i ! ?n" using n by (simp add: is_live_def)
  have same: "unat d = ?n \<longleftrightarrow> d = p_doc p" for d by (simp add: word_unat_eq_iff)
  have touched: "touched_ok i m1 t1"
  proof (cases "ix_live i ! ?n")
    case True
    then have "m1 ! unat d \<longleftrightarrow> matched ! unat d \<or> d = p_doc p" for d using n Cons.prems(4) same [of d] by (auto simp: eqs nth_list_update)
    then have now: "{d. is_live i d \<and> m1 ! unat d} = insert (p_doc p) {d. is_live i d \<and> matched ! unat d}" using live True by auto
    have old: "distinct touched" "set touched = {d. is_live i d \<and> matched ! unat d}" using Cons.prems(5) by (simp_all add: touched_ok_def)
    show ?thesis
    proof (cases "matched ! ?n")
      case m: True
      then have "p_doc p \<in> set touched" using live True unfolding old(2) by simp
      moreover have "t1 = touched" using m by (simp add: eqs)
      ultimately show ?thesis unfolding touched_ok_def now old(2) [symmetric] using old(1) by auto
    next
      case m: False
      then have "p_doc p \<notin> set touched" unfolding old(2) by simp
      moreover have "t1 = touched @ [p_doc p]" using m True by (simp add: eqs)
      ultimately show ?thesis unfolding touched_ok_def now old(2) [symmetric] using old(1) by auto
    qed
  next
    case False
    then have "m1 = matched" "t1 = touched" by (simp_all add: eqs)
    then show ?thesis using Cons.prems(5) by simp
  qed
  have rest: "foldl (add_posting i avg idf) (s1, m1, t1) ps = (scores', matched', touched')" using Cons.prems(6) one by simp
  have l1: "length s1 = length (ix_docs i)" and l2: "length m1 = length (ix_docs i)" using Cons.prems(3,4) by (auto simp: eqs)
  have inside: "\<forall>p \<in> set ps. unat (p_doc p) < length (ix_docs i)" using Cons.prems(2) by simp
  note IH = Cons.IH [OF asc inside l1 l2 touched rest]
  have each: "scores' ! unat d = add_part (scores ! unat d) (map_option (\<lambda>tf. fmul idf (bm25 tf (ix_lengths i ! unat d) avg)) (tf_in (p # ps) d)) \<and>
      (matched' ! unat d \<longleftrightarrow> matched ! unat d \<or> tf_in (p # ps) d \<noteq> None)" if d: "is_live i d" for d
  proof (cases "d = p_doc p")
    case True
    then have "s1 ! ?n = fadd (scores ! ?n) (fmul idf (bm25 (p_tf p) (ix_lengths i ! ?n) avg))" "m1 ! ?n"
      using d live n Cons.prems(3,4) by (auto simp: eqs)
    then show ?thesis using IH d True none by (simp add: add_part_def)
  next
    case False
    then have "unat d \<noteq> ?n" by (simp add: word_unat_eq_iff)
    then have "s1 ! unat d = scores ! unat d" "m1 ! unat d = matched ! unat d" by (simp_all add: eqs)
    then show ?thesis using IH d False by simp
  qed
  show ?case
  proof (intro conjI)
    show "length scores' = length (ix_docs i)" "length matched' = length (ix_docs i)" "touched_ok i matched' touched'"
      using IH by (simp_all only:)
  qed (intro allI impI, rule each)
qed

lemma cursors_loop_correct:
  assumes "\<forall>c \<in> set cs. ascending_docs (cu_postings c) \<and> (\<forall>p \<in> set (cu_postings c). unat (p_doc p) < length (ix_docs i))"
    and "length scores = length (ix_docs i)" "length matched = length (ix_docs i)" and "touched_ok i matched touched"
    and "foldl (\<lambda>acc c. foldl (add_posting i avg (cu_idf c)) acc (cu_postings c)) (scores, matched, touched) cs = (scores', matched', touched')"
  shows "touched_ok i matched' touched' \<and>
    (\<forall>d. is_live i d \<longrightarrow>
       scores' ! unat d = foldl add_part (scores ! unat d) (map (\<lambda>c. part_of c d (ix_lengths i ! unat d) avg) cs) \<and>
       (matched' ! unat d \<longleftrightarrow> matched ! unat d \<or> matches cs d))"
  using assms
proof (induction cs arbitrary: scores matched touched)
  case Nil
  then show ?case by (simp add: matches_def)
next
  case (Cons c cs)
  obtain s1 m1 t1 where one: "foldl (add_posting i avg (cu_idf c)) (scores, matched, touched) (cu_postings c) = (s1, m1, t1)"
    by (rule prod_cases3)
  from postings_loop [OF _ _ Cons.prems(2-4) one] Cons.prems(1)
  have step: "length s1 = length (ix_docs i)" "length m1 = length (ix_docs i)" "touched_ok i m1 t1"
    "\<And>d. is_live i d \<Longrightarrow> s1 ! unat d = add_part (scores ! unat d) (part_of c d (ix_lengths i ! unat d) avg) \<and>
       (m1 ! unat d \<longleftrightarrow> matched ! unat d \<or> tf_in (cu_postings c) d \<noteq> None)"
    by (simp_all add: part_of_def)
  have "foldl (\<lambda>acc c. foldl (add_posting i avg (cu_idf c)) acc (cu_postings c)) (s1, m1, t1) cs = (scores', matched', touched')"
    using Cons.prems(5) one by simp
  from Cons.IH [OF _ step(1-3) this] Cons.prems(1) step(4) show ?case by (auto simp: matches_def)
qed

lemma offers_loop:
  assumes slots: "slots_ok U i" and "0 < tk_limit tk" and "distinct ds" "\<forall>d \<in> set ds. is_live i d"
    and scores: "\<forall>d. is_live i d \<longrightarrow> scores ! unat d = doc_score cs d (ix_lengths i ! unat d) avg"
    and "D \<subseteq> {d. is_live i d}" "D \<inter> set ds = {}" and "holds_best tk (hit_of i cs avg ` D)"
  shows "holds_best (foldl (offer_touched i scores) tk ds) (hit_of i cs avg ` (D \<union> set ds)) \<and>
    tk_limit (foldl (offer_touched i scores) tk ds) = tk_limit tk"
  using assms(2-4,6-8)
proof (induction ds arbitrary: tk D)
  case (Cons d ds)
  let ?h = "hit_of i cs avg d" and ?S = "hit_of i cs avg ` D"
  have live: "is_live i d" using Cons.prems(3) by simp
  have hit: "\<lparr>h_score = scores ! unat d, h_slot = d, h_id = sd_ID (ix_docs i ! unat d)\<rparr> = ?h"
    using scores live by (simp add: hit_of_def)
  have new: "?h \<notin> ?S" using Cons.prems(5) by (auto simp: hit_of_def)
  have fin: "finite ?S" by simp
  have inj: "inj_on standing (insert ?h ?S)"
    by (rule inj_on_subset [OF standing_inj [OF slots]]) (use Cons.prems(4) live in auto)
  let ?tk = "offer_touched i scores tk d"
  have "holds_best ?tk (insert ?h ?S) \<and> tk_limit ?tk = tk_limit tk"
  proof (cases "\<not> full tk \<or> scores ! unat d \<ge> h_score (tk_hits tk ! 0)")
    case True
    obtain tk' taken where off: "offer tk ?h = (tk', taken)" by fastforce
    have "?tk = tk'" using True off hit by (simp add: offer_touched_def Let_def)
    with offer_spec(1,2) [OF Cons.prems(6) fin Cons.prems(1) new inj off] show ?thesis by simp
  next
    case False
    then have "full tk" "standing ?h < standing (tk_hits tk ! 0)"
      using standing_score(2) [of ?h "tk_hits tk ! 0"] scores live by (auto simp: hit_of_def)
    from holds_best_skip [OF Cons.prems(6) fin _ this(1) Cons.prems(1), of "{?h}"] this(2)
    have "holds_best tk (insert ?h ?S)" by simp
    moreover have "?tk = tk" using False by (simp add: offer_touched_def Let_def)
    ultimately show ?thesis by simp
  qed
  then have "holds_best ?tk (hit_of i cs avg ` insert d D)" "tk_limit ?tk = tk_limit tk" by simp_all
  from Cons.IH [of ?tk "insert d D"] this Cons.prems live show ?case by auto
qed simp

lemma scoreExhaustive_correct:
  assumes "slots_ok U i" and "0 < limit"
    and "\<forall>c \<in> set cs. ascending_docs (cu_postings c) \<and> (\<forall>p \<in> set (cu_postings c). unat (p_doc p) < length (ix_docs i))"
  shows "holds_best (scoreExhaustive i cs avg \<lparr>tk_limit = limit, tk_hits = []\<rparr>) (hits_below i cs avg (2 ^ 32)) \<and>
    tk_limit (scoreExhaustive i cs avg \<lparr>tk_limit = limit, tk_hits = []\<rparr>) = limit"
proof -
  let ?n = "length (ix_docs i)"
  obtain scores matched touched where loop:
    "foldl (\<lambda>acc c. foldl (add_posting i avg (cu_idf c)) acc (cu_postings c)) (replicate ?n 0, replicate ?n False, []) cs =
      (scores, matched, touched)" by (rule prod_cases3)
  have "touched_ok i (replicate ?n False) []" by (auto simp: touched_ok_def is_live_def)
  note all = cursors_loop_correct [OF assms(3) length_replicate length_replicate this loop]
  have start: "replicate ?n (0 :: real) ! unat d = 0" "\<not> replicate ?n False ! unat d" if "is_live i d" for d
    using that by (auto simp: is_live_def)
  have res: "touched_ok i matched touched" "\<forall>d. is_live i d \<longrightarrow> scores ! unat d = doc_score cs d (ix_lengths i ! unat d) avg"
    "\<forall>d. is_live i d \<longrightarrow> (matched ! unat d \<longleftrightarrow> matches cs d)"
    using all start by (auto simp: doc_score_def)
  let ?tk = "\<lparr>tk_limit = limit, tk_hits = []\<rparr>"
  have d: "distinct touched" "\<forall>d \<in> set touched. is_live i d" "set touched = {d. is_live i d \<and> matches cs d}"
    using res(1,3) by (auto simp: touched_ok_def)
  have "hit_of i cs avg ` set touched = hits_below i cs avg (2 ^ 32)"
    using unat_slot by (auto simp: hits_below_def d(3))
  moreover have "holds_best ?tk (hit_of i cs avg ` {})" using holds_best_empty by simp
  from offers_loop [OF assms(1) _ d(1,2) res(2) _ _ this] assms(2)
  have "holds_best (foldl (offer_touched i scores) ?tk touched) (hit_of i cs avg ` set touched) \<and>
    tk_limit (foldl (offer_touched i scores) ?tk touched) = limit" by simp
  ultimately show ?thesis by (simp add: scoreExhaustive_def loop Let_def)
qed

end
