(* ===== verification/SearchCompact.thy ===== *)
theory SearchCompact
  imports SearchKeeps
begin

text \<open>
  Compaction of the search index: the live slots are numbered densely in their order, every posting list is rewritten
  and the documents move down in place. The live documents stay the same list. The theory ends with what \<^verbatim>\<open>Upsert\<close> does as a whole.
\<close>

subsection \<open>Numbering the live slots\<close>

definition rank :: "bool list \<Rightarrow> nat \<Rightarrow> nat" where "rank lv k = length (filter (\<lambda>b. b) (take k lv))"

definition sel :: "bool list \<Rightarrow> 'a list \<Rightarrow> 'a list" where "sel lv xs = map fst (filter snd (zip xs lv))"

lemma rank_simps [simp]: "rank lv 0 = 0" "rank (b # lv) (Suc k) = (if b then 1 else 0) + rank lv k"
  by (simp_all add: rank_def)

lemma rank_Suc: "k < length lv \<Longrightarrow> rank lv (Suc k) = rank lv k + (if lv ! k then 1 else 0)"
  by (simp add: rank_def take_Suc_conv_app_nth)

lemma rank_le: "rank lv k \<le> k"
  unfolding rank_def by (rule order_trans [OF length_filter_le]) simp

lemma rank_mono: "j \<le> k \<Longrightarrow> rank lv j \<le> rank lv k"
proof (induction lv arbitrary: j k)
  case (Cons b lv)
  then show ?case by (cases j; cases k) auto
qed (simp add: rank_def)

lemma rank_less:
  assumes "j < k" "j < length lv" "lv ! j"
  shows "rank lv j < rank lv k"
  using rank_Suc [OF assms(2)] rank_mono [of "Suc j" k lv] assms by simp

lemma rank_less_iff:
  assumes "j < length lv" "lv ! j" "k < length lv" "lv ! k"
  shows "rank lv j < rank lv k \<longleftrightarrow> j < k" and "rank lv j = rank lv k \<longleftrightarrow> j = k"
  using rank_less [of j k lv] rank_less [of k j lv] assms by (metis less_asym less_irrefl nat_neq_iff)+

lemma rank_onto: "j < rank lv (length lv) \<Longrightarrow> \<exists>k < length lv. lv ! k \<and> rank lv k = j"
proof (induction lv arbitrary: j)
  case (Cons b lv)
  show ?case
  proof (cases "b \<and> j = 0")
    case True
    then show ?thesis by (intro exI [of _ 0]) simp
  next
    case False
    then have "j - (if b then 1 else 0) < rank lv (length lv)" using Cons.prems by auto
    from Cons.IH [OF this] obtain k where "k < length lv" "lv ! k" "rank lv k = j - (if b then 1 else 0)" by blast
    then show ?thesis using False by (intro exI [of _ "Suc k"]) auto
  qed
qed (simp add: rank_def)

lemma sel_length: "length xs = length lv \<Longrightarrow> length (sel lv xs) = rank lv (length lv)"
proof (induction lv arbitrary: xs)
  case (Cons b lv)
  then show ?case by (cases xs) (auto simp: sel_def)
qed (simp add: sel_def rank_def)

lemma sel_nth: "length xs = length lv \<Longrightarrow> k < length lv \<Longrightarrow> lv ! k \<Longrightarrow> sel lv xs ! rank lv k = xs ! k"
proof (induction lv arbitrary: xs k)
  case (Cons b lv)
  then show ?case by (cases xs; cases k) (auto simp: sel_def)
qed simp

lemma sel_live: "sel lv lv = replicate (rank lv (length lv)) True"
proof (induction lv)
  case (Cons b lv)
  then show ?case by (cases b) (auto simp: sel_def)
qed (simp add: sel_def rank_def)

lemma remap_loop_eq:
  "remap_loop nxt lv =
     (map (\<lambda>k. if lv ! k then nxt + of_nat (rank lv k) else noDoc) [0..<length lv], nxt + of_nat (rank lv (length lv)))"
proof (induction lv arbitrary: nxt)
  case (Cons b lv)
  have upt: "[0..<Suc (length lv)] = 0 # map Suc [0..<length lv]" by (simp only: map_Suc_upt upt_conv_Cons [OF zero_less_Suc])
  show ?case by (cases b) (auto simp: Cons upt comp_def ac_simps simp del: upt_Suc)
qed (simp add: rank_def)

subsection \<open>Moving the slots down\<close>

text \<open>The front of the list holds the live elements found so far, the rest is as it was.\<close>

definition moved :: "bool list \<Rightarrow> 'a list \<Rightarrow> nat \<Rightarrow> 'a list" where
  "moved lv xs k = take (rank lv k) (sel lv xs) @ drop (rank lv k) xs"

lemma moved_0 [simp]: "moved lv xs 0 = xs"
  by (simp add: moved_def)

lemma moved_length: "length xs = length lv \<Longrightarrow> length (moved lv xs k) = length xs"
  using rank_mono [of k "length lv" lv] rank_le [of lv "length lv"] rank_le [of lv k]
  by (cases "k \<le> length lv") (auto simp: moved_def sel_length rank_def)

lemma moved_nth:
  assumes "length xs = length lv" and "k < length lv"
  shows "moved lv xs k ! k = xs ! k"
proof -
  have "rank lv k \<le> rank lv (length lv)" using assms(2) by (intro rank_mono) simp
  then show ?thesis using assms rank_le [of lv k] by (simp add: moved_def nth_append sel_length min_absorb2)
qed

lemma moved_Suc:
  assumes "length xs = length lv" and "k < length lv"
  shows "moved lv xs (Suc k) = (if lv ! k then (moved lv xs k)[rank lv k := xs ! k] else moved lv xs k)"
proof (cases "lv ! k")
  case True
  have r: "rank lv k < rank lv (length lv)" using rank_less [of k "length lv" lv] assms(2) True by simp
  then have less: "rank lv k < length (sel lv xs)" by (simp add: sel_length assms(1))
  have len: "length (take (rank lv k) (sel lv xs)) = rank lv k" using less by simp
  have "rank lv k < length xs" using rank_le [of lv k] assms by simp
  then have tail: "drop (rank lv k) xs = xs ! rank lv k # drop (Suc (rank lv k)) xs" by (rule Cons_nth_drop_Suc [symmetric])
  have "take (Suc (rank lv k)) (sel lv xs) = take (rank lv k) (sel lv xs) @ [xs ! k]"
    using take_Suc_conv_app_nth [OF less] sel_nth [OF assms True] by simp
  then show ?thesis using True rank_Suc [OF assms(2)] len unfolding moved_def
    by (simp add: tail list_update_append)
qed (simp add: moved_def rank_Suc [OF assms(2)])

lemma moved_all: "length xs = length lv \<Longrightarrow> take (rank lv (length lv)) (moved lv xs (length lv)) = sel lv xs"
  using sel_length [of xs lv] by (simp add: moved_def)

definition moved_slots :: "index \<Rightarrow> nat \<Rightarrow> (str \<times> uint32) list" where
  "moved_slots i k =
     foldl (\<lambda>m k. if ix_live i ! k then AList.update (sd_ID (ix_docs i ! k)) (of_nat (rank (ix_live i) k)) m else m) (ix_slots i) [0..<k]"

definition remap_of :: "index \<Rightarrow> uint32 list" where
  "remap_of i = map (\<lambda>k. if ix_live i ! k then of_nat (rank (ix_live i) k) else noDoc) [0..<length (ix_live i)]"

lemma rank_fits:
  assumes "slots_ok U i" and "k \<le> length (ix_docs i)"
  shows "unat (of_nat (rank (ix_live i) k) :: uint32) = rank (ix_live i) k"
  using rank_le [of "ix_live i" k] assms(2) slots_okD(3) [OF assms(1)] by (intro unat_uint32) simp

lemma rank_not_noDoc:
  assumes "slots_ok U i" and "k < length (ix_docs i)"
  shows "of_nat (rank (ix_live i) k) \<noteq> noDoc"
proof
  assume "of_nat (rank (ix_live i) k) = noDoc"
  then have "unat (of_nat (rank (ix_live i) k) :: uint32) = unat noDoc" by simp
  then have "rank (ix_live i) k = unat noDoc" using rank_fits [OF assms(1), of k] assms(2) by simp
  moreover have "length (ix_docs i) \<le> unat noDoc" using assms(1) by (simp only: slots_ok_def)
  ultimately show False using rank_le [of "ix_live i" k] assms(2) by simp
qed

lemma move_loop:
  assumes ok: "slots_ok U i" and "k \<le> length (ix_docs i)"
  shows "foldl (move_slot (remap_of i)) i [0..<k] =
    i\<lparr>ix_docs := moved (ix_live i) (ix_docs i) k, ix_lengths := moved (ix_live i) (ix_lengths i) k,
      ix_live := moved (ix_live i) (ix_live i) k, ix_slots := moved_slots i k\<rparr>"
  using assms(2)
proof (induction k)
  case 0
  then show ?case by (simp add: moved_slots_def)
next
  case (Suc k)
  then have k: "k < length (ix_docs i)" by simp
  note lens = slots_okD(1,2) [OF ok]
  have remap: "remap_of i ! k = (if ix_live i ! k then of_nat (rank (ix_live i) k) else noDoc)"
    using k lens by (simp add: remap_of_def)
  have sel_k: "ix_live i ! k \<Longrightarrow> sel (ix_live i) (ix_live i) ! rank (ix_live i) k" using sel_nth [of "ix_live i" "ix_live i" k] k lens by simp
  show ?case
    using Suc.IH k lens rank_fits [OF ok, of k] rank_not_noDoc [OF ok k]
    by (auto simp: move_slot_def Let_def remap moved_nth moved_Suc moved_slots_def)
qed

lemma moved_slots_distinct: "distinct (map fst (ix_slots i)) \<Longrightarrow> distinct (map fst (moved_slots i k))"
  unfolding moved_slots_def by (rule foldl_distinct) (auto simp: distinct_update)

lemma moved_slots_map:
  assumes ok: "slots_ok U i" and "k \<le> length (ix_docs i)"
  shows "map_of (moved_slots i k) d =
    map_option (\<lambda>s. if unat s < k then of_nat (rank (ix_live i) (unat s)) else s) (map_of (ix_slots i) d)"
  using assms(2)
proof (induction k)
  case 0
  then show ?case by (simp add: moved_slots_def option.map_ident)
next
  case (Suc k)
  then have k: "k < length (ix_docs i)" by simp
  have u: "unat (of_nat k :: uint32) = k" using k slots_okD(3) [OF ok] by (intro unat_uint32) simp
  have own: "s = of_nat k \<longleftrightarrow> unat s = k" for s :: uint32 using u by (metis word_unat_eq_iff)
  have at: "is_live i (of_nat k) \<longleftrightarrow> ix_live i ! k" "doc_at i (of_nat k) = ix_docs i ! k"
    using k u by (simp_all add: is_live_def doc_at_def)
  have IH: "map_of (moved_slots i k) d =
      map_option (\<lambda>s. if unat s < k then of_nat (rank (ix_live i) (unat s)) else s) (map_of (ix_slots i) d)"
    using Suc by simp
  have step: "moved_slots i (Suc k) = (if ix_live i ! k
      then AList.update (sd_ID (ix_docs i ! k)) (of_nat (rank (ix_live i) k)) (moved_slots i k) else moved_slots i k)"
    by (simp add: moved_slots_def)
  show ?case
  proof (cases "ix_live i ! k \<and> sd_ID (ix_docs i ! k) = d")
    case True
    then have "map_of (ix_slots i) d = Some (of_nat k)" using slots_okD(5) [OF ok, of d "of_nat k"] at by simp
    then show ?thesis using True u by (simp add: step update_conv')
  next
    case False
    have "unat s \<noteq> k" if "map_of (ix_slots i) d = Some s" for s
      using that False slots_okD(5) [OF ok, of d s] at own by auto
    then have "map_option (\<lambda>s. if unat s < Suc k then of_nat (rank (ix_live i) (unat s)) else s) (map_of (ix_slots i) d) =
        map_option (\<lambda>s. if unat s < k then of_nat (rank (ix_live i) (unat s)) else s) (map_of (ix_slots i) d)"
      by (cases "map_of (ix_slots i) d") (auto simp: less_Suc_eq)
    then show ?thesis using False IH by (auto simp: step update_conv')
  qed
qed

subsection \<open>Rewriting the posting lists\<close>

definition renumber :: "index \<Rightarrow> posting \<Rightarrow> posting" where
  "renumber i p = \<lparr>p_doc = of_nat (rank (ix_live i) (unat (p_doc p))), p_tf = p_tf p\<rparr>"

definition posting_live :: "index \<Rightarrow> posting \<Rightarrow> bool" where "posting_live i p \<longleftrightarrow> is_live i (p_doc p)"

lemma compact_entry_spec:
  assumes ok: "slots_ok U i" and "\<forall>p \<in> set (tp_postings e). unat (p_doc p) < length (ix_docs i)"
  shows "tp_postings (compact_entry (remap_of i) (ix_lengths i) e) = map (renumber i) (filter (posting_live i) (tp_postings e)) \<and>
    tp_df (compact_entry (remap_of i) (ix_lengths i) e) = tp_df e \<and>
    frontier (tp_impacts (compact_entry (remap_of i) (ix_lengths i) e)) \<and>
    length (tp_impacts (compact_entry (remap_of i) (ix_lengths i) e)) \<le> maxImpacts \<and>
    (\<forall>p \<in> set (filter (posting_live i) (tp_postings e)).
       dominates (tp_impacts (compact_entry (remap_of i) (ix_lengths i) e)) (p_tf p) (ix_lengths i ! unat (p_doc p)))"
proof -
  define run_to where "run_to ps = foldl (compact_posting (remap_of i) (ix_lengths i)) (e\<lparr>tp_postings := [], tp_impacts := []\<rparr>) ps" for ps
  have "tp_postings (run_to ps) = map (renumber i) (filter (posting_live i) ps) \<and> tp_df (run_to ps) = tp_df e \<and>
      frontier (tp_impacts (run_to ps)) \<and> length (tp_impacts (run_to ps)) \<le> maxImpacts \<and>
      (\<forall>p \<in> set (filter (posting_live i) ps). dominates (tp_impacts (run_to ps)) (p_tf p) (ix_lengths i ! unat (p_doc p)))"
    if "\<forall>p \<in> set ps. unat (p_doc p) < length (ix_docs i)" for ps
    using that
  proof (induction ps rule: rev_induct)
    case Nil
    then show ?case by (simp add: run_to_def frontier_def)
  next
    case (snoc p ps)
    then have p: "unat (p_doc p) < length (ix_docs i)" by simp
    have to_slot: "remap_of i ! unat (p_doc p) = (if posting_live i p then of_nat (rank (ix_live i) (unat (p_doc p))) else noDoc)"
      using p slots_okD(2) [OF ok] by (simp add: remap_of_def posting_live_def is_live_def)
    have step: "run_to (ps @ [p]) = compact_posting (remap_of i) (ix_lengths i) (run_to ps) p" by (simp add: run_to_def)
    show ?case
    proof (cases "posting_live i p")
      case True
      have IH: "frontier (tp_impacts (run_to ps))" "length (tp_impacts (run_to ps)) \<le> maxImpacts" using snoc by auto
      from True show ?thesis
        using snoc rank_not_noDoc [OF ok p] frontier_insert_spec [OF IH, of "p_tf p" "ix_lengths i ! unat (p_doc p)"]
        by (auto simp: step compact_posting_def to_slot Let_def addImpact_def renumber_def)
    next
      case False
      then show ?thesis using snoc by (simp add: step compact_posting_def to_slot Let_def)
    qed
  qed
  from this [of "tp_postings e"] assms(2) show ?thesis unfolding run_to_def compact_entry_def by blast
qed

subsection \<open>The compacted index\<close>

lemma terms_irrelevant [simp]:
  "remap_of (i\<lparr>ix_terms := T\<rparr>) = remap_of i" "moved_slots (i\<lparr>ix_terms := T\<rparr>) k = moved_slots i k"
  by (simp_all add: remap_of_def moved_slots_def cong: if_cong)

lemma compact_fields:
  assumes ok: "slots_ok U i"
  shows "ix_docs (compact_index i) = live_docs i" and "ix_lengths (compact_index i) = sel (ix_live i) (ix_lengths i)"
    and "ix_live (compact_index i) = replicate (length (live_docs i)) True"
    and "ix_slots (compact_index i) = moved_slots i (length (ix_docs i))"
    and "ix_terms (compact_index i) = map (\<lambda>(t, e). (t, compact_entry (remap_of i) (ix_lengths i) e)) (ix_terms i)"
    and "ix_tokens (compact_index i) = ix_tokens i" and "ix_dead (compact_index i) = 0"
proof -
  let ?n = "length (ix_docs i)"
  note lens = slots_okD(1,2) [OF ok]
  have remap: "remap_loop 0 (ix_live i) = (remap_of i, of_nat (rank (ix_live i) ?n))"
    by (simp add: remap_loop_eq remap_of_def lens)
  let ?j = "i\<lparr>ix_terms := map (\<lambda>(t, e). (t, compact_entry (remap_of i) (ix_lengths i) e)) (ix_terms i)\<rparr>"
  have "slots_ok U ?j" using ok unfolding slots_ok_def is_live_def doc_at_def by simp
  from move_loop [OF this, of ?n]
  have loop: "foldl (move_slot (remap_of i)) ?j [0..<?n] =
      ?j\<lparr>ix_docs := moved (ix_live i) (ix_docs i) ?n, ix_lengths := moved (ix_live i) (ix_lengths i) ?n,
        ix_live := moved (ix_live i) (ix_live i) ?n, ix_slots := moved_slots i ?n\<rparr>"
    by simp
  have len_remap: "length (remap_of i) = ?n" by (simp add: remap_of_def lens)
  have live: "live_docs i = sel (ix_live i) (ix_docs i)" by (simp add: live_docs_def sel_def)
  have n: "length (live_docs i) = rank (ix_live i) ?n" using sel_length [of "ix_docs i" "ix_live i"] lens by (simp add: live)
  note alls = moved_all [of _ "ix_live i", unfolded lens(2)]
  show "ix_docs (compact_index i) = live_docs i" "ix_lengths (compact_index i) = sel (ix_live i) (ix_lengths i)"
    "ix_live (compact_index i) = replicate (length (live_docs i)) True"
    "ix_slots (compact_index i) = moved_slots i ?n"
    "ix_terms (compact_index i) = map (\<lambda>(t, e). (t, compact_entry (remap_of i) (ix_lengths i) e)) (ix_terms i)"
    "ix_tokens (compact_index i) = ix_tokens i" "ix_dead (compact_index i) = 0"
    using alls [of "ix_docs i"] alls [of "ix_lengths i"] alls [of "ix_live i"] lens sel_live [of "ix_live i"]
    by (simp_all add: compact_index_def remap Let_def len_remap loop rank_fits [OF ok order_refl] live n [unfolded live])
qed

lemma compact_live:
  assumes ok: "slots_ok U i"
  shows "is_live (compact_index i) s \<longleftrightarrow> unat s < length (live_docs i)"
    and "is_live (compact_index i) s \<Longrightarrow>
      \<exists>s'. is_live i s' \<and> s = of_nat (rank (ix_live i) (unat s')) \<and> unat s = rank (ix_live i) (unat s') \<and>
        doc_at (compact_index i) s = doc_at i s' \<and> ix_lengths (compact_index i) ! unat s = ix_lengths i ! unat s'"
    and "is_live i s' \<Longrightarrow> is_live (compact_index i) (of_nat (rank (ix_live i) (unat s'))) \<and>
      doc_at (compact_index i) (of_nat (rank (ix_live i) (unat s'))) = doc_at i s'"
proof -
  let ?n = "length (ix_docs i)"
  note lens = slots_okD(1,2) [OF ok]
  note fields = compact_fields [OF ok]
  have live: "live_docs i = sel (ix_live i) (ix_docs i)" by (simp add: live_docs_def sel_def)
  have n: "length (live_docs i) = rank (ix_live i) ?n" using sel_length [of "ix_docs i" "ix_live i"] lens by (simp add: live)
  show live_iff: "is_live (compact_index i) s \<longleftrightarrow> unat s < length (live_docs i)" for s by (auto simp: is_live_def fields)
  show "\<exists>s'. is_live i s' \<and> s = of_nat (rank (ix_live i) (unat s')) \<and> unat s = rank (ix_live i) (unat s') \<and>
        doc_at (compact_index i) s = doc_at i s' \<and> ix_lengths (compact_index i) ! unat s = ix_lengths i ! unat s'"
    if "is_live (compact_index i) s"
  proof -
    from that live_iff n have "unat s < rank (ix_live i) (length (ix_live i))" by (simp add: lens)
    then obtain k where k: "k < length (ix_live i)" "ix_live i ! k" "rank (ix_live i) k = unat s" using rank_onto by blast
    have u: "unat (of_nat k :: uint32) = k" using k(1) lens slots_okD(3) [OF ok] by (intro unat_uint32) simp
    have "s = of_nat (rank (ix_live i) k)" by (simp add: k(3))
    moreover have "is_live i (of_nat k)" using k u lens by (simp add: is_live_def)
    moreover have "sel (ix_live i) (ix_docs i) ! unat s = ix_docs i ! k" "sel (ix_live i) (ix_lengths i) ! unat s = ix_lengths i ! k"
      using sel_nth [of "ix_docs i" "ix_live i" k] sel_nth [of "ix_lengths i" "ix_live i" k] k lens by simp_all
    ultimately show ?thesis using u k(3)
      by (intro exI [of _ "of_nat k"]) (auto simp: doc_at_def fields live)
  qed
  assume s': "is_live i s'"
  then have k: "unat s' < ?n" "ix_live i ! unat s'" by (auto simp: is_live_def)
  have u: "unat (of_nat (rank (ix_live i) (unat s')) :: uint32) = rank (ix_live i) (unat s')" using rank_fits [OF ok] k by simp
  have "rank (ix_live i) (unat s') < length (live_docs i)" using rank_less [of "unat s'" ?n "ix_live i"] k lens n by simp
  moreover have "live_docs i ! rank (ix_live i) (unat s') = ix_docs i ! unat s'"
    using sel_nth [of "ix_docs i" "ix_live i" "unat s'"] k lens by (simp add: live)
  ultimately show "is_live (compact_index i) (of_nat (rank (ix_live i) (unat s'))) \<and>
      doc_at (compact_index i) (of_nat (rank (ix_live i) (unat s'))) = doc_at i s'"
    by (simp add: live_iff u doc_at_def fields)
qed

lemma compact_docs:
  assumes "slots_ok U i"
  shows "live_docs (compact_index i) = live_docs i"
proof -
  have "live_docs (compact_index i) = map fst (filter snd (zip (live_docs i) (replicate (length (live_docs i)) True)))"
    using compact_fields(1,3) [OF assms] by (simp add: live_docs_def)
  also have "\<dots> = live_docs i"
    by (simp add: zip_replicate2 filter_map comp_def)
  finally show ?thesis .
qed

lemma compact_slots:
  assumes ok: "slots_ok U i"
  shows "slots_ok U (compact_index i)"
proof -
  let ?i = "compact_index i"
  note fields = compact_fields [OF ok]
  note lens = slots_okD(1,2) [OF ok]
  have n: "length (live_docs i) = rank (ix_live i) (length (ix_docs i))"
    using sel_length [of "ix_docs i" "ix_live i"] lens by (simp add: live_docs_def sel_def)
  have "length (live_docs i) \<le> unat noDoc"
    using rank_le [of "ix_live i" "length (ix_docs i)"] ok unfolding slots_ok_def n by linarith
  moreover have "length (sel (ix_live i) (ix_lengths i)) = length (live_docs i)"
    using sel_length [of "ix_lengths i" "ix_live i"] lens n by simp
  moreover have "map_of (ix_slots ?i) d = Some s \<longleftrightarrow> is_live ?i s \<and> sd_ID (doc_at ?i s) = d" for d s
  proof
    assume "map_of (ix_slots ?i) d = Some s"
    then obtain s' where s': "map_of (ix_slots i) d = Some s'"
      "s = (if unat s' < length (ix_docs i) then of_nat (rank (ix_live i) (unat s')) else s')"
      by (auto simp: fields moved_slots_map [OF ok order_refl])
    then have "is_live i s'" "sd_ID (doc_at i s') = d" using slots_okD(5) [OF ok] by auto
    moreover from this(1) have "unat s' < length (ix_docs i)" by (simp add: is_live_def)
    ultimately show "is_live ?i s \<and> sd_ID (doc_at ?i s) = d" using s' compact_live(3) [OF ok] by simp
  next
    assume s: "is_live ?i s \<and> sd_ID (doc_at ?i s) = d"
    then obtain s' where s': "is_live i s'" "s = of_nat (rank (ix_live i) (unat s'))" "doc_at ?i s = doc_at i s'"
      using compact_live(2) [OF ok] by blast
    then have "map_of (ix_slots i) d = Some s'" using slots_okD(5) [OF ok] s by simp
    moreover have "unat s' < length (ix_docs i)" using s'(1) by (simp add: is_live_def)
    ultimately show "map_of (ix_slots ?i) d = Some s" using s' by (simp add: fields moved_slots_map [OF ok order_refl])
  qed
  moreover have "uint (ix_lengths ?i ! unat s) = int (doc_length U (doc_at ?i s))" if "is_live ?i s" for s
    using compact_live(2) [OF ok that] slots_okD(6) [OF ok] by auto
  ultimately show ?thesis
    unfolding slots_ok_def using moved_slots_distinct [OF slots_okD(4) [OF ok]] by (simp add: fields)
qed

lemma compact_entry_ok:
  assumes ok: "slots_ok U i" and e: "entry_ok U i t e"
  shows "entry_ok U (compact_index i) t (compact_entry (remap_of i) (ix_lengths i) e)"
proof -
  let ?i = "compact_index i"
  let ?e = "compact_entry (remap_of i) (ix_lengths i) e"
  have inside: "\<forall>p \<in> set (tp_postings e). unat (p_doc p) < length (ix_docs i)" using e by (simp add: entry_ok_def)
  note spec = compact_entry_spec [OF ok inside]
  let ?ps = "filter (posting_live i) (tp_postings e)"
  have ps: "tp_postings ?e = map (renumber i) ?ps" using spec by blast
  have live_ps: "is_live i (p_doc p)" if "p \<in> set ?ps" for p using that by (simp add: posting_live_def)
  have num: "unat (p_doc (renumber i p)) = rank (ix_live i) (unat (p_doc p))" if "p \<in> set ?ps" for p
    using live_ps [OF that] rank_fits [OF ok, of "unat (p_doc p)"] by (simp add: renumber_def is_live_def)
  have mono: "p_doc (renumber i p) < p_doc (renumber i q)" if "p \<in> set ?ps" "q \<in> set ?ps" "p_doc p < p_doc q" for p q
    using that num live_ps rank_less [of "unat (p_doc p)" "unat (p_doc q)" "ix_live i"] slots_okD(2) [OF ok]
    by (simp add: word_less_nat_alt is_live_def)
  have "sorted_wrt (\<lambda>p q. p_doc p < p_doc q) ?ps" using e by (simp add: entry_ok_def sorted_wrt_filter)
  then have sorted_e: "sorted_wrt (\<lambda>p q. p_doc p < p_doc q) (tp_postings ?e)"
    unfolding ps sorted_wrt_map by (rule sorted_wrt_mono_rel [rotated]) (use mono in blast)
  have has: "p \<in> set (tp_postings ?e) \<longleftrightarrow> tf_of U (doc_at ?i (p_doc p)) t = Some (p_tf p)" if lp: "is_live ?i (p_doc p)" for p
  proof -
    obtain s where s: "is_live i s" "p_doc p = of_nat (rank (ix_live i) (unat s))" "unat (p_doc p) = rank (ix_live i) (unat s)"
      "doc_at ?i (p_doc p) = doc_at i s"
      using compact_live(2) [OF ok lp] by blast
    have "p \<in> set (tp_postings ?e) \<longleftrightarrow> \<lparr>p_doc = s, p_tf = p_tf p\<rparr> \<in> set ?ps"
    proof
      assume "p \<in> set (tp_postings ?e)"
      then obtain q where q: "q \<in> set ?ps" "p = renumber i q" by (auto simp: ps)
      have "rank (ix_live i) (unat (p_doc q)) = rank (ix_live i) (unat s)" using num [OF q(1)] q(2) s(3) by simp
      then have "unat (p_doc q) = unat s"
        using rank_less_iff(2) [of "unat (p_doc q)" "ix_live i" "unat s"] live_ps [OF q(1)] s(1) slots_okD(2) [OF ok]
        by (simp add: is_live_def)
      then have "q = \<lparr>p_doc = s, p_tf = p_tf p\<rparr>" using q(2) by (cases q) (simp add: renumber_def word_unat_eq_iff)
      with q(1) show "\<lparr>p_doc = s, p_tf = p_tf p\<rparr> \<in> set ?ps" by simp
    next
      assume m: "\<lparr>p_doc = s, p_tf = p_tf p\<rparr> \<in> set ?ps"
      have "renumber i \<lparr>p_doc = s, p_tf = p_tf p\<rparr> = p" using s(2) by (cases p) (simp add: renumber_def)
      with m show "p \<in> set (tp_postings ?e)" unfolding ps set_map by (metis image_eqI)
    qed
    also have "\<dots> \<longleftrightarrow> tf_of U (doc_at i s) t = Some (p_tf p)"
      using e s(1) by (simp add: entry_ok_def posting_live_def)
    finally show ?thesis by (simp add: s(4))
  qed
  have dom: "dominates (tp_impacts ?e) (p_tf p) (ix_lengths ?i ! unat (p_doc p))" if "p \<in> set (tp_postings ?e)" for p
  proof -
    from that obtain q where q: "q \<in> set ?ps" "p = renumber i q" by (auto simp: ps)
    have k: "unat (p_doc q) < length (ix_live i)" "ix_live i ! unat (p_doc q)"
      using live_ps [OF q(1)] slots_okD(2) [OF ok] by (auto simp: is_live_def)
    have "ix_lengths ?i ! unat (p_doc p) = ix_lengths i ! unat (p_doc q)"
      using sel_nth [of "ix_lengths i" "ix_live i"] k slots_okD(1,2) [OF ok] num [OF q(1)] q(2) compact_fields(2) [OF ok] by simp
    then show ?thesis using spec q by (auto simp: renumber_def)
  qed
  have inside': "unat (p_doc p) < length (ix_docs ?i)" if "p \<in> set (tp_postings ?e)" for p
  proof -
    from that obtain q where q: "q \<in> set ?ps" "p = renumber i q" by (auto simp: ps)
    then have "is_live ?i (p_doc p)" using compact_live(3) [OF ok live_ps [OF q(1)]] by (simp add: renumber_def)
    then show ?thesis by (simp add: is_live_def)
  qed
  show ?thesis unfolding entry_ok_def using sorted_e has dom inside' spec by blast
qed

lemma compact_ok:
  assumes "index_ok U i"
  shows "index_ok U (compact_index i)"
proof -
  have ok: "slots_ok U i" and te: "terms_ok U i (live_docs i)" using assms by (auto simp: index_ok_def)
  note fields = compact_fields [OF ok]
  have keys: "map_of (ix_terms (compact_index i)) t = map_option (compact_entry (remap_of i) (ix_lengths i)) (map_of (ix_terms i) t)" for t
    unfolding fields by (simp add: map_of_map)
  have df: "tp_df (compact_entry (remap_of i) (ix_lengths i) e) = tp_df e" if "entry_ok U i t e" for t e
    using compact_entry_spec [OF ok] that by (simp add: entry_ok_def)
  have "terms_ok U (compact_index i) (live_docs i)"
    unfolding terms_ok_def
  proof (intro conjI allI)
    show "distinct (map fst (ix_terms (compact_index i)))"
      using te by (simp add: fields terms_ok_def comp_def case_prod_unfold)
    fix t
    show "case map_of (ix_terms (compact_index i)) t of None \<Rightarrow> df_of U (live_docs i) t = 0
      | Some e \<Rightarrow> entry_ok U (compact_index i) t e \<and> tp_df e = int (df_of U (live_docs i) t) \<and> tp_df e > 0"
      using te compact_entry_ok [OF ok, of t] df [of t] unfolding terms_ok_def keys
      by (cases "map_of (ix_terms i) t") (auto dest!: spec [of _ t])
  qed
  then show ?thesis
    using assms compact_slots [OF ok] unfolding index_ok_def by (simp add: compact_docs [OF ok] fields)
qed

subsection \<open>Storing a document\<close>

definition few_dead :: "index \<Rightarrow> bool" where
  "few_dead i \<longleftrightarrow> ix_dead i < compactMinDead \<or> ix_dead i * compactDeadRatio < int (index_Len i)"

lemma Upsert_eq:
  "Upsert U i doc =
     (let i = (case map_of (ix_slots i) (sd_ID doc) of Some slot \<Rightarrow> retire U i slot | None \<Rightarrow> i);
          i = store_doc U i doc
      in if ix_dead i \<ge> compactMinDead \<and> ix_dead i * compactDeadRatio \<ge> int (length (ix_slots i)) then compact_index i else i)"
  by (cases "frequencies U doc") (simp add: Upsert_def store_doc_def doc_length_def Let_def)

lemma retire_length [simp]: "length (ix_docs (retire U i s)) = length (ix_docs i)"
  by (simp add: retire_def Let_def)

lemma upsert_ok:
  assumes ok: "index_ok U i" and room: "length (ix_docs i) < unat noDoc" and small: "doc_length U doc < 2 ^ 32"
  shows "index_ok U (Upsert U i doc)" and "live_docs (Upsert U i doc) = put_doc doc (live_docs i)" and "few_dead (Upsert U i doc)"
proof -
  define j where "j = (case map_of (ix_slots i) (sd_ID doc) of Some slot \<Rightarrow> retire U i slot | None \<Rightarrow> i)"
  have sl: "slots_ok U i" using ok by (simp add: index_ok_def)
  have j: "index_ok U j \<and> length (ix_docs j) = length (ix_docs i) \<and> map_of (ix_slots j) (sd_ID doc) = None \<and>
      live_docs j = filter (\<lambda>d. sd_ID d \<noteq> sd_ID doc) (live_docs i)"
  proof (cases "map_of (ix_slots i) (sd_ID doc)")
    case None
    then have "\<forall>d \<in> set (live_docs i). sd_ID d \<noteq> sd_ID doc"
      using slots_okD(5) [OF sl, of "sd_ID doc"] live_docs_set [OF sl] by auto
    then show ?thesis using None ok by (simp add: j_def filter_id_conv)
  next
    case (Some s)
    then have s: "is_live i s" "sd_ID (doc_at i s) = sd_ID doc" using slots_okD(5) [OF sl] by auto
    have "map_of (ix_slots (retire U i s)) (sd_ID doc) = None"
      using s(2) by (simp add: retire_def Let_def doc_at_def delete_conv')
    then show ?thesis using Some retire_ok [OF ok s(1)] retire_docs(3) [OF sl s(1)] s(2) by (simp add: j_def)
  qed
  then have jok: "index_ok U j" and jfree: "map_of (ix_slots j) (sd_ID doc) = None" and jroom: "length (ix_docs j) < unat noDoc"
    using room by auto
  have jsl: "slots_ok U j" using jok by (simp add: index_ok_def)
  define k where "k = store_doc U j doc"
  have k: "index_ok U k" "live_docs k = put_doc doc (live_docs i)"
    using store_ok [OF jok jroom jfree small] store_docs [OF jsl] j by (simp_all add: k_def put_doc_def)
  then have ksl: "slots_ok U k" by (simp add: index_ok_def)
  have up: "Upsert U i doc =
      (if ix_dead k \<ge> compactMinDead \<and> ix_dead k * compactDeadRatio \<ge> int (length (ix_slots k)) then compact_index k else k)"
    by (simp add: Upsert_eq j_def [symmetric] k_def [symmetric] Let_def)
  show "index_ok U (Upsert U i doc)" "live_docs (Upsert U i doc) = put_doc doc (live_docs i)" "few_dead (Upsert U i doc)"
    using k compact_ok [OF k(1)] compact_docs [OF ksl] compact_fields(7) [OF ksl]
    by (auto simp: up few_dead_def index_Len_def compactMinDead_def)
qed

lemma new_index_ok: "index_ok U NewIndex" "live_docs NewIndex = []" "few_dead NewIndex"
  by (auto simp: index_ok_def slots_ok_def terms_ok_def NewIndex_def is_live_def live_docs_def few_dead_def compactMinDead_def)

lemma few_dead_slots:
  assumes "index_ok U i" "few_dead i"
  shows "length (ix_docs i) \<le> 64 + 5 * length (live_docs i) div 4"
proof -
  have "int (length (ix_docs i)) = ix_dead i + int (length (live_docs i))" "index_Len i = length (live_docs i)"
    using assms(1) slots_length by (auto simp: index_ok_def index_Len_def)
  then show ?thesis using assms(2) by (auto simp: few_dead_def compactMinDead_def compactDeadRatio_def)
qed

lemma put_docs_ids:
  "sd_ID ` set (foldl (\<lambda>ds d. put_doc d ds) ds docs) = sd_ID ` set ds \<union> sd_ID ` set docs"
  by (induction docs arbitrary: ds) (auto simp: put_doc_def)

lemma upserts_ok:
  assumes "\<forall>d \<in> set docs. doc_length U d < 2 ^ 32" and "card (sd_ID ` set docs) \<le> 2 ^ 31"
  shows "index_ok U (foldl (Upsert U) NewIndex docs) \<and>
    live_docs (foldl (Upsert U) NewIndex docs) = foldl (\<lambda>ds d. put_doc d ds) [] docs \<and>
    length (ix_docs (foldl (Upsert U) NewIndex docs)) \<le> 64 + 5 * index_Len (foldl (Upsert U) NewIndex docs) div 4"
proof -
  have "index_ok U (foldl (Upsert U) NewIndex docs) \<and> few_dead (foldl (Upsert U) NewIndex docs) \<and>
      live_docs (foldl (Upsert U) NewIndex docs) = foldl (\<lambda>ds d. put_doc d ds) [] docs"
    using assms
  proof (induction docs rule: rev_induct)
    case Nil
    then show ?case by (simp add: new_index_ok)
  next
    case (snoc d docs)
    let ?i = "foldl (Upsert U) NewIndex docs"
    have "card (sd_ID ` set docs) \<le> card (sd_ID ` set (docs @ [d]))" by (intro card_mono) auto
    then have IH: "index_ok U ?i" "few_dead ?i" "live_docs ?i = foldl (\<lambda>ds d. put_doc d ds) [] docs"
      and few: "card (sd_ID ` set docs) \<le> 2 ^ 31"
      using snoc by auto
    have "length (live_docs ?i) = card (sd_ID ` set docs)"
      using distinct_card [OF live_docs_distinct, of U ?i] IH put_docs_ids [of "[]" docs] by (simp add: index_ok_def)
    then have "length (ix_docs ?i) < unat noDoc" using few_dead_slots [OF IH(1,2)] few by (simp add: noDoc_def)
    from upsert_ok [OF IH(1) this, of d] snoc.prems IH(3) show ?case by simp
  qed
  moreover from this have "index_Len (foldl (Upsert U) NewIndex docs) = length (live_docs (foldl (Upsert U) NewIndex docs))"
    using slots_length by (auto simp: index_ok_def index_Len_def)
  ultimately show ?thesis using few_dead_slots by metis
qed

text \<open>
  C5: whatever documents are stored, the index is in order: its slots, posting lists, frequencies, frontiers and totals describe exactly the
  last version of every document, and at most 64 slots or a fifth of all slots are dead.
\<close>

theorem index_holds_latest_documents:
  assumes "\<forall>d \<in> set docs. doc_length U d < 2 ^ 32" and "card (sd_ID ` set docs) \<le> 2 ^ 31"
  shows "index_ok U (foldl (Upsert U) NewIndex docs) \<and>
    live_docs (foldl (Upsert U) NewIndex docs) = foldl (\<lambda>ds d. put_doc d ds) [] docs \<and>
    length (ix_docs (foldl (Upsert U) NewIndex docs)) \<le> 64 + 5 * index_Len (foldl (Upsert U) NewIndex docs) div 4"
  using assms by (rule upserts_ok)

definition ascii :: unicode where
  "ascii = \<lparr>is_letter = (\<lambda>r. 97 \<le> r \<and> r \<le> 122), is_digit = (\<lambda>r. 48 \<le> r \<and> r \<le> 57),
     to_lower = (\<lambda>r. if 65 \<le> r \<and> r \<le> 90 then r + 32 else r)\<rparr>"

definition sample_doc :: "str \<Rightarrow> str \<Rightarrow> sdoc" where
  "sample_doc d t = \<lparr>sd_ID = d, sd_Title = t, sd_Body = [97, 98, 32, 65, 66]\<rparr>"

theorem index_holds_latest_documents_witness:
  "live_docs (foldl (Upsert ascii) NewIndex [sample_doc [1] [], sample_doc [2] [], sample_doc [1] [99, 99]]) =
    [sample_doc [2] [], sample_doc [1] [99, 99]]"
proof -
  let ?docs = "[sample_doc [1] [], sample_doc [2] [], sample_doc [1] [99, 99]]"
  have "\<forall>d \<in> set ?docs. doc_length ascii d < 2 ^ 32"
    by (simp add: doc_length_def frequencies_def tokenize_def sample_doc_def ascii_def Let_def)
  moreover have "card (sd_ID ` set ?docs) \<le> 2 ^ 31"
    by (simp add: sample_doc_def card_insert_if)
  ultimately have "live_docs (foldl (Upsert ascii) NewIndex ?docs) = foldl (\<lambda>ds d. put_doc d ds) [] ?docs"
    using index_holds_latest_documents [of ?docs ascii] by blast
  then show ?thesis by (simp add: put_doc_def sample_doc_def)
qed

end
