(* ===== verification/SearchExact.thy ===== *)
theory SearchExact
  imports SearchLoop SearchCompact
begin

text \<open>
  The result of a query, without an index: the stored documents that contain a term of the query, ranked by the same rounded scores.
  The search with its posting lists, pruning and heaps computes exactly this list.
\<close>

subsection \<open>The specification\<close>

definition log_law :: "(real \<Rightarrow> real) \<Rightarrow> bool" where
  "log_law lg \<longleftrightarrow> (\<forall>x \<ge> 1. 0 \<le> lg x)"

text \<open>The terms of a query, each at its first occurrence.\<close>

definition query_terms :: "unicode \<Rightarrow> str \<Rightarrow> str list" where
  "query_terms U query = rev (remdups (rev (tokenize U query)))"

definition avg_length :: "unicode \<Rightarrow> sdoc list \<Rightarrow> real" where
  "avg_length U ds = fdiv (round64 (real (sum_list (map (doc_length U) ds)))) (real (length ds))"

definition spec_part :: "unicode \<Rightarrow> (real \<Rightarrow> real) \<Rightarrow> sdoc list \<Rightarrow> sdoc \<Rightarrow> str \<Rightarrow> real option" where
  "spec_part U lg ds d t =
     map_option (\<lambda>tf. fmul (idf_of lg (real (length ds)) (real (df_of U ds t))) (bm25 tf (of_nat (doc_length U d)) (avg_length U ds)))
       (tf_of U d t)"

definition spec_score :: "unicode \<Rightarrow> (real \<Rightarrow> real) \<Rightarrow> sdoc list \<Rightarrow> str list \<Rightarrow> sdoc \<Rightarrow> real" where
  "spec_score U lg ds ts d = foldl add_part 0 (map (spec_part U lg ds d) ts)"

definition spec_standing :: "unicode \<Rightarrow> (real \<Rightarrow> real) \<Rightarrow> sdoc list \<Rightarrow> str list \<Rightarrow> sdoc \<Rightarrow> standing" where
  "spec_standing U lg ds ts d = Standing (spec_score U lg ds ts d) (sd_ID d)"

definition spec_search :: "unicode \<Rightarrow> (real \<Rightarrow> real) \<Rightarrow> sdoc list \<Rightarrow> str \<Rightarrow> int \<Rightarrow> search_result list" where
  "spec_search U lg ds query limit =
     (let ts = query_terms U query;
          found = filter (\<lambda>d. \<exists>t \<in> set ts. tf_of U d t \<noteq> None) ds
      in map (\<lambda>d. \<lparr>r_ID = sd_ID d, r_Title = sd_Title d, r_Score = spec_score U lg ds ts d\<rparr>)
           (take (nat limit) (rev (sort_key (spec_standing U lg ds ts) found))))"

subsection \<open>Sorting\<close>

lemma insort_key_map: "insort_key f (g x) (map g xs) = map g (insort_key (\<lambda>x. f (g x)) x xs)"
  by (induction xs) auto

lemma sort_key_map: "sort_key f (map g xs) = map g (sort_key (\<lambda>x. f (g x)) xs)"
  by (induction xs) (auto simp: insort_key_map)

lemma sort_key_same:
  assumes "\<forall>x \<in> set xs. f x = g x"
  shows "sort_key f xs = sort_key g xs"
  using assms
proof (induction xs)
  case (Cons x xs)
  have "insort_key f x ys = insort_key g x ys" if "\<forall>y \<in> set ys. f y = g y" for ys
    using that Cons.prems by (induction ys) auto
  from this [of "sort_key g xs"] Cons show ?case by simp
qed simp

subsection \<open>Inverse document frequencies\<close>

lemma idf_nonneg:
  assumes "log_law lg" and "df \<le> n" and "0 \<le> df"
  shows "0 \<le> idf_of lg n df"
proof -
  have "0 \<le> fdiv (fadd (fsub n df) 0.5) (fadd df 0.5)"
    using assms(2,3) by (simp add: fdiv_def fadd_def fsub_def)
  then have "1 \<le> fadd 1 (fdiv (fadd (fsub n df) 0.5) (fadd df 0.5))" unfolding fadd_def by (intro round64_ge_1) simp
  then show ?thesis using assms(1) by (simp add: idf_of_def log_law_def)
qed

subsection \<open>Cursors\<close>

definition cursor_for :: "(real \<Rightarrow> real) \<Rightarrow> index \<Rightarrow> real \<Rightarrow> real \<Rightarrow> str \<Rightarrow> cursor" where
  "cursor_for lg i n avg t =
     (let e = the (map_of (ix_terms i) t); idf = idf_of lg n (round64 (of_int (tp_df e)))
      in \<lparr>cu_postings = tp_postings e, cu_pos = 0, cu_idf = idf, cu_bound = bound e idf avg\<rparr>)"

lemma remdups_snoc: "remdups (xs @ [x]) = filter (\<lambda>y. y \<noteq> x) (remdups xs) @ [x]"
  by (induction xs) auto

lemma cursors_loop_eq:
  "cursors_loop lg i n avg seen ts =
    map (cursor_for lg i n avg) (filter (\<lambda>t. t \<notin> seen \<and> map_of (ix_terms i) t \<noteq> None) (rev (remdups (rev ts))))"
proof (induction ts arbitrary: seen)
  case (Cons t ts)
  have "filter (\<lambda>s. s \<notin> seen \<and> map_of (ix_terms i) s \<noteq> None) (filter (\<lambda>s. s \<noteq> t) us) =
      filter (\<lambda>s. s \<notin> insert t seen \<and> map_of (ix_terms i) s \<noteq> None) us" for us
    by (induction us) auto
  moreover have "filter (\<lambda>s. s \<notin> insert t seen \<and> map_of (ix_terms i) s \<noteq> None) us =
      filter (\<lambda>s. s \<notin> seen \<and> map_of (ix_terms i) s \<noteq> None) us" if "t \<in> seen" for us
    using that by (simp add: insert_absorb)
  ultimately show ?case using Cons
    by (auto simp: remdups_snoc rev_filter [symmetric] cursor_for_def Let_def split: option.split)
qed simp

lemma tf_in_postings:
  assumes "entry_ok U i t e" and "is_live i d"
  shows "tf_in (tp_postings e) d = tf_of U (doc_at i d) t"
proof -
  have asc: "ascending_docs (tp_postings e)" using assms(1) by (simp add: entry_ok_def ascending_docs_def)
  have "tf_in (tp_postings e) d = Some tf \<longleftrightarrow> tf_of U (doc_at i d) t = Some tf" for tf
    using assms tf_in_iff [OF asc, of d tf] by (fastforce simp: entry_ok_def)
  then show ?thesis by (metis not_Some_eq)
qed

lemma terms_okD:
  assumes "index_ok U i"
  shows "map_of (ix_terms i) t = None \<Longrightarrow> df_of U (live_docs i) t = 0"
    and "map_of (ix_terms i) t = Some e \<Longrightarrow> entry_ok U i t e \<and> tp_df e = int (df_of U (live_docs i) t)"
  using assms by (auto simp: index_ok_def terms_ok_def dest!: spec [of _ t])

lemma df_le: "df_of U ds t \<le> length ds"
  by (simp add: df_of_def)

lemma live_docs_length:
  assumes "slots_ok U i"
  shows "length (live_docs i) < 2 ^ 32"
proof -
  have "length (live_docs i) \<le> length (ix_docs i)" unfolding live_docs_def
    using slots_okD(2) [OF assms] by (metis length_filter_le length_map length_zip min.idem)
  then show ?thesis using slots_okD(3) [OF assms] by simp
qed

text \<open>What the cursors of a query know is what the documents say.\<close>

definition cursors_of :: "unicode \<Rightarrow> (real \<Rightarrow> real) \<Rightarrow> index \<Rightarrow> str list \<Rightarrow> cursor list" where
  "cursors_of U lg i ts =
     map (cursor_for lg i (real (length (live_docs i))) (avg_length U (live_docs i))) (filter (\<lambda>t. map_of (ix_terms i) t \<noteq> None) ts)"

lemma avg_length_nonneg: "0 \<le> avg_length U ds"
  by (simp add: avg_length_def fdiv_def sum_list_nonneg)

lemma cursor_fields:
  assumes "index_ok U i" and "map_of (ix_terms i) t = Some e"
  shows "cursor_for lg i n avg t =
    \<lparr>cu_postings = tp_postings e, cu_pos = 0, cu_idf = idf_of lg n (real (df_of U (live_docs i) t)),
      cu_bound = bound e (idf_of lg n (real (df_of U (live_docs i) t))) avg\<rparr>"
proof -
  have "df_of U (live_docs i) t < 2 ^ 32"
    using df_le [of U "live_docs i" t] live_docs_length [of U i] assms(1) by (simp add: index_ok_def)
  then have "round64 (real (df_of U (live_docs i) t)) = real (df_of U (live_docs i) t)" by (intro round64_int) simp
  then show ?thesis using terms_okD(2) [OF assms] by (simp add: cursor_for_def assms(2) Let_def)
qed

lemma cursor_for_ok:
  assumes log: "log_law lg" and ok: "index_ok U i" and t: "map_of (ix_terms i) t = Some e"
  defines "n \<equiv> real (length (live_docs i))" and "avg \<equiv> avg_length U (live_docs i)"
  shows "cursor_ok i avg (cursor_for lg i n avg t)"
proof -
  have e: "entry_ok U i t e" using terms_okD(2) [OF ok t] by simp
  have len: "length (ix_docs i) \<le> unat noDoc" using ok by (simp add: index_ok_def slots_ok_def)
  have idf: "0 \<le> idf_of lg n (real (df_of U (live_docs i) t))"
    unfolding n_def by (rule idf_nonneg [OF log]) (use df_le in auto)
  have avg: "0 \<le> avg" by (simp add: avg_def avg_length_nonneg)
  have asc: "ascending_docs (tp_postings e)" using e by (simp add: entry_ok_def ascending_docs_def)
  have "p_doc p \<noteq> noDoc" if "p \<in> set (tp_postings e)" for p
    using that e len by (auto simp: entry_ok_def)
  moreover have "fmul (idf_of lg n (real (df_of U (live_docs i) t))) (bm25 tf (ix_lengths i ! unat d) avg) \<le>
      bound e (idf_of lg n (real (df_of U (live_docs i) t))) avg * (1 + ulp) ^ 16"
    if "tf_in (tp_postings e) d = Some tf" for d tf
  proof -
    have "\<lparr>p_doc = d, p_tf = tf\<rparr> \<in> set (tp_postings e)" using that tf_in_iff [OF asc] by simp
    then have "dominates (tp_impacts e) tf (ix_lengths i ! unat d)" using e by (fastforce simp: entry_ok_def)
    then show ?thesis by (rule bound_covers [OF idf avg])
  qed
  ultimately show ?thesis
    using asc idf bound_nonneg [OF idf avg] by (simp add: cursor_ok_def cursor_fields [OF ok t])
qed

lemma part_of_spec:
  assumes ok: "index_ok U i" and t: "map_of (ix_terms i) t = Some e" and d: "is_live i d"
  defines "n \<equiv> real (length (live_docs i))" and "avg \<equiv> avg_length U (live_docs i)"
  shows "part_of (cursor_for lg i n avg t) d (ix_lengths i ! unat d) avg = spec_part U lg (live_docs i) (doc_at i d) t"
    and "tf_in (cu_postings (cursor_for lg i n avg t)) d = tf_of U (doc_at i d) t"
proof -
  have e: "entry_ok U i t e" using terms_okD(2) [OF ok t] by simp
  have "uint (ix_lengths i ! unat d) = int (doc_length U (doc_at i d))"
    using ok slots_okD(6) [OF _ d] by (simp add: index_ok_def)
  then have "ix_lengths i ! unat d = of_nat (doc_length U (doc_at i d))" by (metis of_int_of_nat_eq word_of_int_uint)
  with tf_in_postings [OF e d] show "tf_in (cu_postings (cursor_for lg i n avg t)) d = tf_of U (doc_at i d) t"
    "part_of (cursor_for lg i n avg t) d (ix_lengths i ! unat d) avg = spec_part U lg (live_docs i) (doc_at i d) t"
    by (simp_all add: part_of_def spec_part_def cursor_fields [OF ok t] n_def avg_def)
qed

lemma no_term:
  assumes "index_ok U i" and "map_of (ix_terms i) t = None" and "is_live i d"
  shows "tf_of U (doc_at i d) t = None"
proof -
  have "doc_at i d \<in> set (live_docs i)" using assms(1,3) live_docs_set by (auto simp: index_ok_def)
  then show ?thesis using terms_okD(1) [OF assms(1,2)] by (simp add: df_of_zero)
qed

lemma parts_filter:
  assumes "\<forall>t \<in> set ts. \<not> P t \<longrightarrow> f t = None"
  shows "foldl add_part s (map f (filter P ts)) = foldl add_part s (map f ts)"
  using assms by (induction ts arbitrary: s) (auto simp: add_part_def)

lemma score_spec:
  assumes ok: "index_ok U i" and d: "is_live i d"
  shows "doc_score (cursors_of U lg i ts) d (ix_lengths i ! unat d) (avg_length U (live_docs i)) =
      spec_score U lg (live_docs i) ts (doc_at i d)"
    and "matches (cursors_of U lg i ts) d \<longleftrightarrow> (\<exists>t \<in> set ts. tf_of U (doc_at i d) t \<noteq> None)"
proof -
  let ?known = "\<lambda>t. map_of (ix_terms i) t \<noteq> None"
  have "map (\<lambda>c. part_of c d (ix_lengths i ! unat d) (avg_length U (live_docs i))) (cursors_of U lg i ts) =
      map (spec_part U lg (live_docs i) (doc_at i d)) (filter ?known ts)"
    using part_of_spec(1) [OF ok _ d] by (auto simp: cursors_of_def)
  moreover have "spec_part U lg (live_docs i) (doc_at i d) t = None" if "\<not> ?known t" for t
    using no_term [OF ok _ d] that by (simp add: spec_part_def)
  ultimately show "doc_score (cursors_of U lg i ts) d (ix_lengths i ! unat d) (avg_length U (live_docs i)) =
      spec_score U lg (live_docs i) ts (doc_at i d)"
    using parts_filter [of ts ?known "spec_part U lg (live_docs i) (doc_at i d)" 0] by (simp add: doc_score_def spec_score_def)
  show "matches (cursors_of U lg i ts) d \<longleftrightarrow> (\<exists>t \<in> set ts. tf_of U (doc_at i d) t \<noteq> None)"
    using part_of_spec(2) [OF ok _ d] no_term [OF ok _ d] by (fastforce simp: matches_def cursors_of_def)
qed

subsection \<open>Ranking\<close>

definition live_slots :: "index \<Rightarrow> uint32 list" where
  "live_slots i = filter (is_live i) (map of_nat [0..<length (ix_docs i)])"

lemma live_slots_docs:
  assumes "slots_ok U i"
  shows "live_docs i = map (doc_at i) (live_slots i)" and "set (live_slots i) = {d. is_live i d}" and "distinct (live_slots i)"
proof -
  let ?n = "length (ix_docs i)"
  have small: "k < 2 ^ 32" if "k < ?n" for k using that slots_okD(3) [OF assms] by simp
  have num: "unat (of_nat k :: uint32) = k" if "k < ?n" for k by (rule unat_uint32, rule small, rule that)
  have "zip (ix_docs i) (ix_live i) = map (\<lambda>k. (ix_docs i ! k, ix_live i ! k)) [0..<?n]"
    using slots_okD(2) [OF assms] by (intro nth_equalityI) auto
  moreover have "live_slots i = map of_nat (filter (\<lambda>k. ix_live i ! k) [0..<?n])"
    unfolding live_slots_def filter_map by (rule arg_cong [where f = "map of_nat"], rule filter_cong) (auto simp: is_live_def num)
  ultimately show "live_docs i = map (doc_at i) (live_slots i)"
    by (auto simp: live_docs_def filter_map comp_def doc_at_def num)
  show "set (live_slots i) = {d. is_live i d}"
    unfolding live_slots_def by (auto simp: is_live_def image_iff intro!: bexI [of _ "unat _"])
  have "inj_on (of_nat :: nat \<Rightarrow> uint32) (set [0..<?n])" using num by (intro inj_on_inverseI [of _ unat]) auto
  then show "distinct (live_slots i)" by (simp add: live_slots_def distinct_map)
qed


lemma search_cursors:
  assumes ok: "index_ok U i" and some: "live_docs i \<noteq> []"
  shows "cursors_loop lg i (round64 (real (length (ix_slots i)))) (avg_length U (live_docs i)) {} (tokenize U query) = cursors_of U lg i (query_terms U query)"
    and "fdiv (round64 (of_int (ix_tokens i))) (round64 (real (length (ix_slots i)))) = avg_length U (live_docs i)"
proof -
  have sl: "slots_ok U i" using ok by (simp add: index_ok_def)
  have n: "round64 (real (length (ix_slots i))) = real (length (live_docs i))"
    unfolding slots_length [OF sl] by (rule round64_int) (use live_docs_length [OF sl] in simp)
  show avg: "fdiv (round64 (of_int (ix_tokens i))) (round64 (real (length (ix_slots i)))) = avg_length U (live_docs i)"
    unfolding n using ok by (simp add: avg_length_def index_ok_def)
  show "cursors_loop lg i (round64 (real (length (ix_slots i)))) (avg_length U (live_docs i)) {} (tokenize U query) = cursors_of U lg i (query_terms U query)"
    unfolding n by (simp add: cursors_loop_eq cursors_of_def query_terms_def)
qed

lemma cursors_of_ok:
  assumes "log_law lg" and "index_ok U i" and "c \<in> set (cursors_of U lg i ts)"
  shows "cursor_ok i (avg_length U (live_docs i)) c" and "cu_pos c = 0" and "\<forall>p \<in> set (cu_postings c). unat (p_doc p) < length (ix_docs i)"
proof -
  obtain t e where t: "map_of (ix_terms i) t = Some e"
    "c = cursor_for lg i (real (length (live_docs i))) (avg_length U (live_docs i)) t"
    using assms(3) by (auto simp: cursors_of_def)
  show "cursor_ok i (avg_length U (live_docs i)) c" unfolding t(2) by (rule cursor_for_ok [OF assms(1,2) t(1)])
  show "cu_pos c = 0" "\<forall>p \<in> set (cu_postings c). unat (p_doc p) < length (ix_docs i)"
    using terms_okD(2) [OF assms(2) t(1)] by (auto simp: t(2) cursor_fields [OF assms(2) t(1)] entry_ok_def)
qed

text \<open>Both evaluations leave the best matching documents in the heap.\<close>

lemma evaluate_best:
  fixes ts :: "str list"
  assumes log: "log_law lg" and ok: "index_ok U i" and limit: "0 < limit"
  defines "cs \<equiv> cursors_of U lg i ts" and "avg \<equiv> avg_length U (live_docs i)" and "tk \<equiv> \<lparr>tk_limit = limit, tk_hits = []\<rparr>"
  defines "best \<equiv> (if length cs > maxPrunedTerms then scoreExhaustive i cs avg tk else if length cs > 0 then scorePruned i cs avg tk else tk)"
  shows "holds_best best (hits_below i cs avg (2 ^ 32)) \<and> tk_limit best = limit"
proof -
  have sl: "slots_ok U i" using ok by (simp add: index_ok_def)
  have cs: "\<forall>c \<in> set cs. cursor_ok i avg c \<and> cu_pos c = 0" "\<forall>c \<in> set cs. \<forall>p \<in> set (cu_postings c). unat (p_doc p) < length (ix_docs i)"
    using cursors_of_ok [OF log ok] unfolding cs_def avg_def by blast+
  have avg: "0 \<le> avg" by (simp add: avg_def avg_length_nonneg)
  have ex: "\<forall>c \<in> set cs. ascending_docs (cu_postings c) \<and> (\<forall>p \<in> set (cu_postings c). unat (p_doc p) < length (ix_docs i))"
    using cs by (auto simp: cursor_ok_def)
  consider "length cs > maxPrunedTerms" | "0 < length cs" "length cs \<le> 16" | "cs = []"
    by (fastforce simp: maxPrunedTerms_def)
  then show ?thesis
  proof cases
    case 1
    then show ?thesis using scoreExhaustive_correct [OF sl limit ex] by (simp add: best_def tk_def)
  next
    case 2
    then show ?thesis using scorePruned_correct [OF sl limit avg 2(2) cs] by (simp add: best_def tk_def maxPrunedTerms_def)
  next
    case 3
    then show ?thesis using holds_best_empty by (simp add: best_def tk_def hits_below_def matches_def maxPrunedTerms_def)
  qed
qed

lemma best_documents:
  assumes ok: "index_ok U i" and best: "holds_best tk (hits_below i (cursors_of U lg i ts) (avg_length U (live_docs i)) (2 ^ 32))"
  shows "map (\<lambda>h. \<lparr>r_ID = h_id h, r_Title = sd_Title (ix_docs i ! unat (h_slot h)), r_Score = h_score h\<rparr>) (rev (sort_key standing (tk_hits tk))) =
    map (\<lambda>d. \<lparr>r_ID = sd_ID d, r_Title = sd_Title d, r_Score = spec_score U lg (live_docs i) ts d\<rparr>)
      (take (tk_limit tk) (rev (sort_key (spec_standing U lg (live_docs i) ts) (filter (\<lambda>d. \<exists>t \<in> set ts. tf_of U d t \<noteq> None) (live_docs i)))))"
proof -
  let ?cs = "cursors_of U lg i ts" and ?avg = "avg_length U (live_docs i)"
  let ?hit = "hit_of i ?cs ?avg"
  have sl: "slots_ok U i" using ok by (simp add: index_ok_def)
  note live = live_slots_docs [OF sl]
  define ss where "ss = filter (matches ?cs) (live_slots i)"
  have ss: "\<forall>d \<in> set ss. is_live i d" using live(2) by (auto simp: ss_def)
  have hits: "hits_below i ?cs ?avg (2 ^ 32) = set (map ?hit ss)"
    using live(2) unat_slot by (auto simp: hits_below_def ss_def)
  have "inj_on standing (?hit ` {d. is_live i d})" by (rule standing_inj [OF sl])
  then have inj: "inj_on standing (set (map ?hit ss))" by (rule inj_on_subset) (use ss in auto)
  have "inj_on ?hit (set ss)" by (rule inj_onI) (simp add: hit_of_def)
  then have d: "distinct (map ?hit ss)" using live(3) by (simp add: distinct_map ss_def)
  have b: "distinct (tk_hits tk)" "is_best (tk_limit tk) (set (map ?hit ss)) (set (tk_hits tk))"
    using best unfolding hits holds_best_def by blast+
  have "rev (sort_key standing (tk_hits tk)) = best_hits (tk_limit tk) (map ?hit ss)"
    by (rule is_best_best_hits [OF b(1) d b(2) inj])
  also have "\<dots> = map ?hit (take (tk_limit tk) (rev (sort_key (\<lambda>d. standing (?hit d)) ss)))"
    by (simp add: best_hits_def sort_key_map rev_map take_map)
  also have "sort_key (\<lambda>d. standing (?hit d)) ss = sort_key (\<lambda>d. spec_standing U lg (live_docs i) ts (doc_at i d)) ss"
    using ss score_spec(1) [OF ok] by (intro sort_key_same) (auto simp: standing_def hit_of_def spec_standing_def doc_at_def)
  finally have found: "rev (sort_key standing (tk_hits tk)) =
      map ?hit (take (tk_limit tk) (rev (sort_key (\<lambda>d. spec_standing U lg (live_docs i) ts (doc_at i d)) ss)))" .
  have "filter (\<lambda>d. \<exists>t \<in> set ts. tf_of U d t \<noteq> None) (live_docs i) = map (doc_at i) ss"
    unfolding live(1) filter_map ss_def comp_def
    by (rule arg_cong [where f = "map (doc_at i)"], rule filter_cong) (use live(2) score_spec(2) [OF ok] in \<open>auto\<close>)
  then show ?thesis unfolding found
    using ss score_spec(1) [OF ok]
    by (auto simp: sort_key_map rev_map take_map hit_of_def doc_at_def dest!: in_set_takeD)
qed

lemma search_exact:
  assumes "index_ok U i" and "log_law lg"
  shows "Search U lg i query limit = spec_search U lg (live_docs i) query limit"
proof (cases "limit \<le> 0 \<or> live_docs i = []")
  case True
  moreover have "length (ix_slots i) = length (live_docs i)" using assms(1) slots_length by (auto simp: index_ok_def)
  ultimately show ?thesis by (auto simp: Search_def spec_search_def Let_def)
next
  case False
  then have some: "live_docs i \<noteq> []" and limit: "0 < nat limit" by auto
  have len: "length (ix_slots i) = length (live_docs i)" using assms(1) slots_length by (auto simp: index_ok_def)
  let ?cs = "cursors_of U lg i (query_terms U query)" and ?avg = "avg_length U (live_docs i)"
  let ?tk = "\<lparr>tk_limit = nat limit, tk_hits = []\<rparr>"
  let ?best = "if length ?cs > maxPrunedTerms then scoreExhaustive i ?cs ?avg ?tk else if length ?cs > 0 then scorePruned i ?cs ?avg ?tk else ?tk"
  have "\<not> (limit \<le> 0 \<or> length (ix_slots i) = 0)" using False len by simp
  then have "Search U lg i query limit =
      map (\<lambda>h. \<lparr>r_ID = h_id h, r_Title = sd_Title (ix_docs i ! unat (h_slot h)), r_Score = h_score h\<rparr>) (rev (sort_key standing (tk_hits ?best)))"
    by (simp only: Search_def Let_def if_False search_cursors [OF assms(1) some])
  also have "\<dots> = spec_search U lg (live_docs i) query limit"
  proof -
    have best: "holds_best ?best (hits_below i ?cs ?avg (2 ^ 32))" "tk_limit ?best = nat limit"
      using evaluate_best [OF assms(2,1) limit, of "query_terms U query"] by blast+
    show ?thesis by (simp only: best_documents [OF assms(1) best(1)] best(2) spec_search_def Let_def)
  qed
  finally show ?thesis .
qed


text \<open>
  C4: a search returns exactly what ranking every stored document would return: posting lists, galloping cursors, MaxScore pruning with its slack
  against rounding, and the bounded heap change nothing, not even the last bit of a score or the order of equal scores.
\<close>

theorem search_is_exact:
  assumes "index_ok U i" and "log_law lg"
  shows "Search U lg i query limit = spec_search U lg (live_docs i) query limit"
  using assms by (rule search_exact)

definition sample_index :: index where
  "sample_index = foldl (Upsert ascii) NewIndex [sample_doc [1] [], sample_doc [2] [], sample_doc [1] [99, 99]]"

definition other_index :: index where
  "other_index = foldl (Upsert ascii) NewIndex [sample_doc [1] [99, 99], sample_doc [2] []]"

lemma sample_index_ok: "index_ok ascii sample_index" "live_docs sample_index = [sample_doc [2] [], sample_doc [1] [99, 99]]"
  and other_index_ok: "index_ok ascii other_index" "live_docs other_index = [sample_doc [1] [99, 99], sample_doc [2] []]"
proof -
  have ok: "index_ok ascii (foldl (Upsert ascii) NewIndex docs) \<and> live_docs (foldl (Upsert ascii) NewIndex docs) = foldl (\<lambda>ds d. put_doc d ds) [] docs"
    if "set docs \<subseteq> {sample_doc [1] [], sample_doc [2] [], sample_doc [1] [99, 99]}" for docs
  proof -
    have small: "\<forall>d \<in> set docs. doc_length ascii d < 2 ^ 32"
      using that by (auto simp: doc_length_def frequencies_def tokenize_def sample_doc_def ascii_def Let_def)
    have "sd_ID ` set docs \<subseteq> {[1], [2]}" using that by (auto simp: sample_doc_def)
    then have "card (sd_ID ` set docs) \<le> card {[1 :: rune], [2]}" by (intro card_mono) auto
    then have "card (sd_ID ` set docs) \<le> 2 ^ 31" by simp
    from upserts_ok [OF small this] show ?thesis by blast
  qed
  have "foldl (\<lambda>ds d. put_doc d ds) [] [sample_doc [1] [], sample_doc [2] [], sample_doc [1] [99, 99]] =
      [sample_doc [2] [], sample_doc [1] [99, 99]]"
    and "foldl (\<lambda>ds d. put_doc d ds) [] [sample_doc [1] [99, 99], sample_doc [2] []] = [sample_doc [1] [99, 99], sample_doc [2] []]"
    by (simp_all add: put_doc_def sample_doc_def)
  with ok [of "[sample_doc [1] [], sample_doc [2] [], sample_doc [1] [99, 99]]"] ok [of "[sample_doc [1] [99, 99], sample_doc [2] []]"]
  show "index_ok ascii sample_index" "live_docs sample_index = [sample_doc [2] [], sample_doc [1] [99, 99]]"
    "index_ok ascii other_index" "live_docs other_index = [sample_doc [1] [99, 99], sample_doc [2] []]"
    unfolding sample_index_def other_index_def by simp_all
qed

lemma log_law_linear: "log_law (\<lambda>x. x - 1)"
  by (simp add: log_law_def)

theorem search_is_exact_witness:
  "Search ascii (\<lambda>x. x - 1) sample_index [67, 67] 1 = spec_search ascii (\<lambda>x. x - 1) [sample_doc [2] [], sample_doc [1] [99, 99]] [67, 67] 1"
  using search_is_exact [OF sample_index_ok(1) log_law_linear, of "[67, 67]" 1] by (simp only: sample_index_ok(2))

subsection \<open>The history of an index does not matter\<close>

lemma spec_search_mset:
  assumes "mset ds = mset ds'" and "distinct (map sd_ID ds)"
  shows "spec_search U lg ds query limit = spec_search U lg ds' query limit"
proof -
  let ?ts = "query_terms U query"
  have len: "length ds = length ds'" using assms(1) by (metis size_mset)
  have "mset (map (doc_length U) ds) = mset (map (doc_length U) ds')" using assms(1) by simp
  then have tokens: "sum_list (map (doc_length U) ds) = sum_list (map (doc_length U) ds')"
    unfolding sum_mset_sum_list [symmetric] by (rule arg_cong)
  have df: "df_of U ds t = df_of U ds' t" for t
    unfolding df_of_def size_mset [symmetric] mset_filter assms(1) ..
  have score: "spec_score U lg ds = spec_score U lg ds'"
    by (simp add: spec_score_def spec_part_def [abs_def] avg_length_def len tokens df fun_eq_iff)
  let ?P = "\<lambda>d. \<exists>t \<in> set ?ts. tf_of U d t \<noteq> None" and ?K = "spec_standing U lg ds ?ts"
  have K: "spec_standing U lg ds' ?ts = ?K" by (simp add: spec_standing_def score fun_eq_iff)
  have m: "mset (filter ?P ds) = mset (filter ?P ds')" using assms(1) by (simp add: mset_filter)
  have "inj_on sd_ID (set ds)" using assms(2) by (simp add: distinct_map)
  then have "inj_on ?K (set (filter ?P ds))" by (auto simp: inj_on_def spec_standing_def)
  then have "sort_key ?K (filter ?P ds) = sort_key ?K (filter ?P ds')"
    using m by (intro sort_key_inj_key_eq) simp_all
  then show ?thesis by (simp only: spec_search_def Let_def K score)
qed

text \<open>
  two indexes that hold the same documents answer every query alike, whatever updates, removals and compactions made them.
\<close>

theorem search_ignores_history:
  assumes "index_ok U i" "index_ok U j" and "mset (live_docs i) = mset (live_docs j)" and "log_law lg"
  shows "Search U lg i query limit = Search U lg j query limit"
proof -
  have eq: "Search U lg k query limit = spec_search U lg (live_docs k) query limit" if "index_ok U k" for k
    using that assms(4) by (rule search_exact)
  have "distinct (map sd_ID (live_docs i))" using assms(1) live_docs_distinct by (auto simp: index_ok_def)
  from spec_search_mset [OF assms(3) this] eq assms(1,2) show ?thesis by simp
qed


theorem search_ignores_history_witness:
  "Search ascii (\<lambda>x. x - 1) sample_index [67, 67] 1 = Search ascii (\<lambda>x. x - 1) other_index [67, 67] 1"
  by (rule search_ignores_history [OF sample_index_ok(1) other_index_ok(1) _ log_law_linear]) (simp add: sample_index_ok(2) other_index_ok(2))

end
