(* ===== verification/SearchSnapshot.thy ===== *)
theory SearchSnapshot
  imports SearchExact TsCodec
begin

text \<open>
  Snapshots of the search index, \<^verbatim>\<open>internal/search/snapshot.go\<close>: documents in the order of their ids, posting lists as gaps and
  frequencies in variable-length integers. A snapshot is the value given to \<^verbatim>\<open>gob\<close> and \<^verbatim>\<open>gzip\<close>; its map of postings is an
  association list, whose order matters only for which of several errors is reported.
\<close>

subsection \<open>Writing\<close>

record disk_snapshot =
  ds_Version :: int
  ds_Docs :: "sdoc list"
  ds_Lengths :: "int list"
  ds_Postings :: "(str \<times> byte list) list"

definition snapshotVersion :: int where "snapshotVersion = 1"

text \<open>The loop that numbers the documents: the ordinal of every slot.\<close>

definition set_ordinals :: "nat \<Rightarrow> uint32 list \<Rightarrow> uint32 list" where
  "set_ordinals n slots = foldl (\<lambda>ords (k, slot). ords[unat slot := of_nat k]) (replicate n 0) (enumerate 0 slots)"

fun encode_postings :: "int \<Rightarrow> posting list \<Rightarrow> byte list" where
  "encode_postings previous [] = []"
| "encode_postings previous (p # live) =
     (let ordinal = uint (p_doc p); gap = ordinal - previous in
      PutUvarint (of_int gap) @ PutUvarint (ucast (p_tf p)) @ encode_postings ordinal live)"

definition live_postings :: "index \<Rightarrow> uint32 list \<Rightarrow> termPostings \<Rightarrow> posting list" where
  "live_postings i ordinals e =
     sort_key p_doc (map (\<lambda>p. p\<lparr>p_doc := ordinals ! unat (p_doc p)\<rparr>) (filter (\<lambda>p. ix_live i ! unat (p_doc p)) (tp_postings e)))"

definition WriteSnapshot :: "index \<Rightarrow> disk_snapshot" where
  "WriteSnapshot i =
     (let ids = sort (map fst (ix_slots i));
          slots = map (\<lambda>k. the (map_of (ix_slots i) k)) ids;
          ordinals = set_ordinals (length (ix_docs i)) slots
      in \<lparr>ds_Version = snapshotVersion, ds_Docs = map (\<lambda>slot. ix_docs i ! unat slot) slots,
          ds_Lengths = map (\<lambda>slot. uint (ix_lengths i ! unat slot)) slots,
          ds_Postings = map (\<lambda>(t, e). (t, encode_postings (-1) (live_postings i ordinals e))) (ix_terms i)\<rparr>)"

subsection \<open>Reading\<close>

datatype snap_error = ErrSnapVersion int | ErrTable | ErrTooManyDocs nat | ErrDuplicateDoc str | ErrDocLength int str
  | ErrPosting str | ErrFrequency str | ErrGap uint64 str | ErrOrdinal int

fun read_docs :: "nat \<Rightarrow> (sdoc \<times> int) list \<Rightarrow> index \<Rightarrow> (snap_error, index) result" where
  "read_docs ordinal [] i = Inr i"
| "read_docs ordinal ((doc, len) # docs) i =
     (if map_of (ix_slots i) (sd_ID doc) \<noteq> None then Inl (ErrDuplicateDoc (sd_ID doc))
      else if len < 0 \<or> len > 2 ^ 32 - 1 then Inl (ErrDocLength len (sd_ID doc))
      else read_docs (ordinal + 1) docs (i\<lparr>ix_slots := AList.update (sd_ID doc) (of_nat ordinal) (ix_slots i),
        ix_lengths := (ix_lengths i)[ordinal := of_int len], ix_live := (ix_live i)[ordinal := True], ix_tokens := ix_tokens i + len\<rparr>))"

lemma Uvarint_consumes:
  assumes "Uvarint bs = Some (v, rest)"
  shows "length rest < length bs"
proof -
  have "Uvarint_loop k x bs = Some (v, rest) \<Longrightarrow> length rest < length bs" for k x
    by (induction bs arbitrary: k x) (fastforce split: if_splits)+
  then show ?thesis using assms by (simp add: Uvarint_def)
qed

definition append_posting :: "uint32 list \<Rightarrow> termPostings \<Rightarrow> posting \<Rightarrow> termPostings" where
  "append_posting lengths e p = addImpact (e\<lparr>tp_postings := tp_postings e @ [p]\<rparr>) (p_tf p) (lengths ! unat (p_doc p))"

function read_postings :: "str \<Rightarrow> nat \<Rightarrow> uint32 list \<Rightarrow> int \<Rightarrow> byte list \<Rightarrow> termPostings \<Rightarrow> (snap_error, termPostings) result" where
  "read_postings t n lengths previous encoded e =
     (if encoded = [] then Inr e
      else (case Uvarint encoded of
        None \<Rightarrow> Inl (ErrPosting t)
      | Some (gap, encoded) \<Rightarrow>
          (case Uvarint encoded of
             None \<Rightarrow> Inl (ErrFrequency t)
           | Some (frequency, encoded) \<Rightarrow>
               if frequency > 0xFFFFFFFF then Inl (ErrFrequency t)
               else if gap = 0 \<or> gap > of_nat n then Inl (ErrGap gap t)
               else
                 let ordinal = previous + uint gap in
                 if ordinal < 0 \<or> ordinal \<ge> int n then Inl (ErrOrdinal ordinal)
                 else read_postings t n lengths ordinal encoded
                   (append_posting lengths e \<lparr>p_doc = of_int ordinal, p_tf = ucast frequency\<rparr>))))"
  by pat_completeness auto
termination
  by (relation "measure (\<lambda>(t, n, lengths, previous, encoded, e). length encoded)") (auto dest!: Uvarint_consumes)

declare read_postings.simps [simp del]

fun read_terms :: "nat \<Rightarrow> (str \<times> byte list) list \<Rightarrow> index \<Rightarrow> (snap_error, index) result" where
  "read_terms n [] i = Inr i"
| "read_terms n ((t, encoded) # rest) i =
     (case read_postings t n (ix_lengths i) (-1) encoded \<lparr>tp_postings = [], tp_df = 0, tp_impacts = []\<rparr> of
        Inl err \<Rightarrow> Inl err
      | Inr e \<Rightarrow>
          let e = e\<lparr>tp_df := int (length (tp_postings e))\<rparr> in
          read_terms n rest (if tp_df e > 0 then i\<lparr>ix_terms := AList.update t e (ix_terms i)\<rparr> else i))"

definition ReadSnapshot :: "disk_snapshot \<Rightarrow> (snap_error, index) result" where
  "ReadSnapshot snapshot =
     (let n = length (ds_Docs snapshot) in
      if ds_Version snapshot \<noteq> snapshotVersion then Inl (ErrSnapVersion (ds_Version snapshot))
      else if n \<noteq> length (ds_Lengths snapshot) then Inl ErrTable
      else if n \<ge> unat noDoc then Inl (ErrTooManyDocs n)
      else rbind (read_docs 0 (zip (ds_Docs snapshot) (ds_Lengths snapshot))
          (NewIndex\<lparr>ix_docs := ds_Docs snapshot, ix_lengths := replicate n 0, ix_live := replicate n False\<rparr>))
        (read_terms n (ds_Postings snapshot)))"


subsection \<open>Reading one posting list\<close>

lemma posting_eq [simp]: "\<lparr>p_doc = p_doc p, p_tf = p_tf p\<rparr> = p"
  by simp

abbreviation ascending :: "posting list \<Rightarrow> bool" where "ascending ps \<equiv> sorted_wrt (\<lambda>p q. p_doc p < p_doc q) ps"

definition covered :: "uint32 list \<Rightarrow> termPostings \<Rightarrow> bool" where
  "covered lengths e \<longleftrightarrow> frontier (tp_impacts e) \<and> length (tp_impacts e) \<le> maxImpacts \<and>
     (\<forall>p \<in> set (tp_postings e). dominates (tp_impacts e) (p_tf p) (lengths ! unat (p_doc p)))"

lemma append_postings:
  shows "tp_postings (foldl (append_posting lengths) e ps) = tp_postings e @ ps"
    and "covered lengths e \<Longrightarrow> covered lengths (foldl (append_posting lengths) e ps)"
proof -
  show "tp_postings (foldl (append_posting lengths) e ps) = tp_postings e @ ps"
    by (induction ps arbitrary: e) (simp_all add: append_posting_def addImpact_def)
  have step: "covered lengths (append_posting lengths e p)" if "covered lengths e" for e p
    using that frontier_insert_spec [of "tp_impacts e" "p_tf p" "lengths ! unat (p_doc p)"]
    by (auto simp: covered_def append_posting_def addImpact_def)
  show "covered lengths e \<Longrightarrow> covered lengths (foldl (append_posting lengths) e ps)"
    by (induction ps arbitrary: e) (auto intro: step)
qed

lemma uint_of_int32: "0 \<le> x \<Longrightarrow> x < 2 ^ 32 \<Longrightarrow> uint (of_int x :: uint32) = x"
  by (simp add: word_of_int_eq_iff uint_word_of_int take_bit_int_eq_self)

text \<open>Whatever the bytes are, what is read is ascending and in range.\<close>

lemma read_postings_range:
  assumes "read_postings t n lengths previous encoded e = Inr e'" and "-1 \<le> previous" and "n \<le> 2 ^ 32"
  shows "\<exists>ps. e' = foldl (append_posting lengths) e ps \<and> ascending ps \<and>
    (\<forall>p \<in> set ps. previous < uint (p_doc p) \<and> uint (p_doc p) < int n)"
  using assms
proof (induction t n lengths previous encoded e rule: read_postings.induct)
  case (1 t n lengths previous encoded e)
  show ?case
  proof (cases "encoded = []")
    case True
    then have "e' = e" using "1.prems"(1) by (simp add: read_postings.simps)
    then show ?thesis by (intro exI [of _ "[]"]) simp
  next
    case False
    then obtain gap enc f enc' where u: "Uvarint encoded = Some (gap, enc)" "Uvarint enc = Some (f, enc')"
      and ok: "\<not> f > 0xFFFFFFFF" "\<not> (gap = 0 \<or> gap > of_nat n)" "\<not> (previous + uint gap < 0 \<or> previous + uint gap \<ge> int n)"
      and rec: "read_postings t n lengths (previous + uint gap) enc' (append_posting lengths e \<lparr>p_doc = of_int (previous + uint gap), p_tf = ucast f\<rparr>) = Inr e'"
      using "1.prems"(1) by (subst (asm) read_postings.simps) (auto simp: Let_def split: option.splits if_splits)
    define x where "x = previous + uint gap"
    let ?p = "\<lparr>p_doc = of_int x, p_tf = ucast f\<rparr> :: posting"
    have x: "previous < x" "0 \<le> x" "x < int n" using ok uint_0_iff [of gap] uint_ge_0 [of gap] unfolding x_def by linarith+
    then have p: "uint (p_doc ?p) = x" using uint_of_int32 [of x] "1.prems"(3) by simp
    have rec: "read_postings t n lengths x enc' (append_posting lengths e ?p) = Inr e'" using rec by (simp only: x_def)
    from "1.IH" [OF False u(1) refl u(2) refl ok(1,2) x_def ok(3) [folded x_def] rec _ "1.prems"(3)] x(2)
    obtain ps where ps: "e' = foldl (append_posting lengths) (append_posting lengths e ?p) ps" "ascending ps"
      "\<forall>q \<in> set ps. x < uint (p_doc q) \<and> uint (p_doc q) < int n" by auto
    with x p show ?thesis by (intro exI [of _ "?p # ps"]) (auto simp: word_less_def)
  qed
qed


lemma PutUvarint_nonempty: "PutUvarint v \<noteq> []"
  by (subst PutUvarint.simps) simp

lemma read_encoded:
  assumes "ascending ps" and "\<forall>p \<in> set ps. previous < uint (p_doc p) \<and> uint (p_doc p) < int n" and "-1 \<le> previous" and "n \<le> 2 ^ 32"
  shows "read_postings t n lengths previous (encode_postings previous ps) e = Inr (foldl (append_posting lengths) e ps)"
  using assms
proof (induction ps arbitrary: previous e)
  case Nil
  then show ?case by (simp add: read_postings.simps)
next
  case (Cons p ps)
  define gap where "gap = uint (p_doc p) - previous"
  have gap: "0 < gap" "gap \<le> int n" "gap < 2 ^ 64" using Cons.prems by (auto simp: gap_def)
  then have g: "uint (of_int gap :: uint64) = gap" by (simp add: uint_word_of_int take_bit_int_eq_self)
  have n: "uint (of_nat n :: uint64) = int n" using Cons.prems(4) by (simp add: unsigned_of_nat take_bit_nat_eq_self)
  have small: "\<not> (of_int gap :: uint64) = 0" "\<not> (of_int gap :: uint64) > of_nat n"
    using g gap n by (auto simp: word_less_def simp flip: uint_0_iff)
  have tf: "\<not> (ucast (p_tf p) :: uint64) > 0xFFFFFFFF" "ucast (ucast (p_tf p) :: uint64) = p_tf p"
    using unsigned_less [of "p_tf p", where ?'a = int]
    by (simp_all add: word_less_def unsigned_ucast_eq take_bit_int_eq_self take_bit_word_eq_self)
  define w where "w = (of_int gap :: uint64)"
  define tf where "tf = (ucast (p_tf p) :: uint64)"
  have "read_postings t n lengths (uint (p_doc p)) (encode_postings (uint (p_doc p)) ps) (append_posting lengths e p) =
      Inr (foldl (append_posting lengths) (append_posting lengths e p) ps)"
    by (rule Cons.IH) (use Cons.prems in \<open>auto simp: word_less_def intro: order_trans [OF _ uint_ge_0]\<close>)
  moreover have "previous + uint w = uint (p_doc p)" unfolding w_def g by (simp add: gap_def)
  moreover have "uint (p_doc p) < int n" using Cons.prems(2) by simp
  moreover have "encode_postings previous (p # ps) = PutUvarint w @ PutUvarint tf @ encode_postings (uint (p_doc p)) ps"
    by (simp add: w_def tf_def gap_def Let_def)
  moreover have "\<lparr>p_doc = of_int (uint (p_doc p)), p_tf = ucast tf\<rparr> = p" by (simp add: tf_def tf)
  ultimately show ?case
    using small [folded w_def] tf(1) [folded tf_def] by (subst read_postings.simps) (simp add: PutUvarint_nonempty Let_def del: encode_postings.simps)
qed

subsection \<open>Reading documents and terms\<close>

lemma read_docs_ok:
  assumes "distinct (map fst (ix_slots i))" and "length (ix_lengths i) = k + length xs" "length (ix_live i) = k + length xs"
  shows "read_docs k xs i = Inr i' \<longleftrightarrow>
    distinct (map fst (ix_slots i) @ map (sd_ID \<circ> fst) xs) \<and> (\<forall>x \<in> set xs. 0 \<le> snd x \<and> snd x \<le> 2 ^ 32 - 1) \<and>
    i' = i\<lparr>ix_slots := ix_slots i @ zip (map (sd_ID \<circ> fst) xs) (map of_nat [k..<k + length xs]),
      ix_lengths := take k (ix_lengths i) @ map (of_int \<circ> snd) xs, ix_live := take k (ix_live i) @ replicate (length xs) True,
      ix_tokens := ix_tokens i + sum_list (map snd xs)\<rparr>"
  using assms
proof (induction xs arbitrary: k i)
  case (Cons x xs)
  obtain doc len where x: "x = (doc, len)" by fastforce
  let ?i = "i\<lparr>ix_slots := ix_slots i @ [(sd_ID doc, of_nat k)], ix_lengths := (ix_lengths i)[k := of_int len],
      ix_live := (ix_live i)[k := True], ix_tokens := ix_tokens i + len\<rparr>"
  show ?case
  proof (cases "map_of (ix_slots i) (sd_ID doc) = None \<and> 0 \<le> len \<and> len \<le> 2 ^ 32 - 1")
    case True
    then have new: "sd_ID doc \<notin> fst ` set (ix_slots i)" by (simp add: map_of_eq_None_iff)
    have "read_docs k (x # xs) i = read_docs (k + 1) xs ?i" using True by (auto simp: x update_absent)
    moreover have "take (Suc k) ((ix_lengths i)[k := of_int len]) = take k (ix_lengths i) @ [of_int len]"
        "take (Suc k) ((ix_live i)[k := True]) = take k (ix_live i) @ [True]"
      using Cons.prems(2,3) by (simp_all add: take_Suc_conv_app_nth)
    moreover have "[k..<k + length (x # xs)] = k # [Suc k..<Suc k + length xs]" by (simp add: upt_rec)
    ultimately show ?thesis using Cons.IH [of ?i "k + 1"] Cons.prems new True by (auto simp: x add.assoc)
  next
    case False
    then show ?thesis by (auto simp: x map_of_eq_None_iff)
  qed
qed (cases i; auto)

definition no_postings :: termPostings where "no_postings = \<lparr>tp_postings = [], tp_df = 0, tp_impacts = []\<rparr>"

definition term_entry :: "uint32 list \<Rightarrow> posting list \<Rightarrow> termPostings" where
  "term_entry lengths ps = (foldl (append_posting lengths) no_postings ps)\<lparr>tp_df := int (length ps)\<rparr>"

lemma term_entry_fields [simp]: "tp_postings (term_entry lengths ps) = ps" "tp_df (term_entry lengths ps) = int (length ps)"
  by (simp_all add: term_entry_def append_postings no_postings_def)

lemma term_entry_covered: "covered lengths (term_entry lengths ps)"
proof -
  have "covered lengths no_postings" by (simp add: covered_def no_postings_def frontier_def)
  then have "covered lengths (foldl (append_posting lengths) no_postings ps)" by (rule append_postings)
  then show ?thesis by (simp add: covered_def term_entry_def)
qed

lemma read_terms_ok:
  assumes "distinct (map fst (ix_terms i) @ map fst posts)"
    and "\<forall>(t, enc) \<in> set posts. read_postings t n (ix_lengths i) (-1) enc no_postings = Inr (foldl (append_posting (ix_lengths i)) no_postings (g t))"
  shows "read_terms n posts i =
    Inr (i\<lparr>ix_terms := ix_terms i @ map (\<lambda>(t, enc). (t, term_entry (ix_lengths i) (g t))) (filter (\<lambda>(t, enc). g t \<noteq> []) posts)\<rparr>)"
  using assms
proof (induction posts arbitrary: i)
  case (Cons p posts)
  obtain t enc where p: "p = (t, enc)" by fastforce
  let ?e = "(foldl (append_posting (ix_lengths i)) no_postings (g t))\<lparr>tp_df := int (length (g t))\<rparr>"
  let ?i = "if g t = [] then i else i\<lparr>ix_terms := ix_terms i @ [(t, ?e)]\<rparr>"
  have "map_of (ix_terms i) t = None" using Cons.prems(1) p by (auto simp: map_of_eq_None_iff)
  moreover have "tp_postings (foldl (append_posting (ix_lengths i)) no_postings (g t)) = g t" by (simp add: append_postings no_postings_def)
  ultimately have "read_terms n (p # posts) i = read_terms n posts ?i"
    using Cons.prems(2) by (simp add: p no_postings_def [symmetric] update_absent)
  also have "\<dots> = Inr (?i\<lparr>ix_terms := ix_terms ?i @ map (\<lambda>(t, enc). (t, term_entry (ix_lengths ?i) (g t))) (filter (\<lambda>(t, enc). g t \<noteq> []) posts)\<rparr>)"
    by (rule Cons.IH) (use Cons.prems p in auto)
  finally show ?case by (simp add: p term_entry_def)
qed simp

lemma read_terms_range:
  assumes "read_terms n posts i = Inr i'" and "n \<le> 2 ^ 32"
    and "\<forall>(t, e) \<in> set (ix_terms i). \<exists>ps. e = term_entry (ix_lengths i) ps \<and> ps \<noteq> [] \<and> ascending ps \<and> (\<forall>p \<in> set ps. unat (p_doc p) < n)"
    and "distinct (map fst (ix_terms i))"
  shows "\<exists>terms. i' = i\<lparr>ix_terms := terms\<rparr> \<and> distinct (map fst terms) \<and>
    (\<forall>(t, e) \<in> set terms. \<exists>ps. e = term_entry (ix_lengths i) ps \<and> ps \<noteq> [] \<and> ascending ps \<and> (\<forall>p \<in> set ps. unat (p_doc p) < n))"
  using assms
proof (induction posts arbitrary: i)
  case Nil
  then show ?case by (intro exI [of _ "ix_terms i"]) simp
next
  case (Cons p posts)
  obtain t enc where p: "p = (t, enc)" by fastforce
  obtain e where e: "read_postings t n (ix_lengths i) (-1) enc no_postings = Inr e"
    and rest: "read_terms n posts (if tp_postings e = [] then i else i\<lparr>ix_terms := AList.update t (e\<lparr>tp_df := int (length (tp_postings e))\<rparr>) (ix_terms i)\<rparr>) = Inr i'"
    using Cons.prems(1) by (auto simp: p no_postings_def [symmetric] Let_def split: sum.splits if_splits)
  obtain ps where ps: "e = foldl (append_posting (ix_lengths i)) no_postings ps" "ascending ps" "\<forall>p \<in> set ps. uint (p_doc p) < int n"
    using read_postings_range [OF e _ Cons.prems(2)] by auto
  then have te: "tp_postings e = ps" "e\<lparr>tp_df := int (length ps)\<rparr> = term_entry (ix_lengths i) ps"
    by (simp_all add: append_postings no_postings_def term_entry_def)
  have less: "\<forall>p \<in> set ps. unat (p_doc p) < n" using ps(3) by (metis nat_less_iff uint_ge_0 unat_eq_nat_uint)
  define j where "j = (if ps = [] then i else i\<lparr>ix_terms := AList.update t (term_entry (ix_lengths i) ps) (ix_terms i)\<rparr>)"
  have rest: "read_terms n posts j = Inr i'" using rest by (simp only: te j_def)
  have "\<exists>terms. i' = j\<lparr>ix_terms := terms\<rparr> \<and> distinct (map fst terms) \<and>
    (\<forall>(t, e) \<in> set terms. \<exists>ps. e = term_entry (ix_lengths j) ps \<and> ps \<noteq> [] \<and> ascending ps \<and> (\<forall>p \<in> set ps. unat (p_doc p) < n))"
  proof (rule Cons.IH [OF rest Cons.prems(2)])
    show "\<forall>(t, e) \<in> set (ix_terms j). \<exists>ps. e = term_entry (ix_lengths j) ps \<and> ps \<noteq> [] \<and> ascending ps \<and> (\<forall>p \<in> set ps. unat (p_doc p) < n)"
      using Cons.prems(3) ps(2) less by (auto simp: j_def dest!: update_members)
    show "distinct (map fst (ix_terms j))" using Cons.prems(4) by (simp add: j_def distinct_update)
  qed
  then show ?case by (cases "ps = []") (auto simp: j_def)
qed


subsection \<open>The documents of a snapshot\<close>

lemma set_ordinals_nth:
  assumes "distinct slots" and "\<forall>s \<in> set slots. unat s < n" and "j < length slots"
  shows "set_ordinals n slots ! unat (slots ! j) = of_nat j" and "length (set_ordinals n slots) = n"
proof -
  have len: "length (set_ordinals n xs) = n" for xs by (induction xs rule: rev_induct) (simp_all add: set_ordinals_def enumerate_append_eq)
  have "set_ordinals n slots ! unat (slots ! j) = of_nat j" using assms
  proof (induction slots rule: rev_induct)
    case (snoc x xs)
    have step: "set_ordinals n (xs @ [x]) = (set_ordinals n xs)[unat x := of_nat (length xs)]"
      by (simp add: set_ordinals_def enumerate_append_eq)
    show ?case
    proof (cases "j = length xs")
      case True
      then show ?thesis using snoc.prems(2) len by (simp add: step)
    next
      case False
      then have j: "j < length xs" using snoc.prems(3) by simp
      then have "xs ! j \<noteq> x" using snoc.prems(1) nth_mem [OF j] by auto
      then have "unat (xs ! j) \<noteq> unat x" using word_unat_eq_iff by blast
      then show ?thesis using snoc j by (simp add: step nth_append)
    qed
  qed simp
  then show "set_ordinals n slots ! unat (slots ! j) = of_nat j" .
  show "length (set_ordinals n slots) = n" by (rule len)
qed

definition snapshot_slots :: "index \<Rightarrow> uint32 list" where
  "snapshot_slots i = map (\<lambda>k. the (map_of (ix_slots i) k)) (sort (map fst (ix_slots i)))"

lemma snapshot_slots:
  assumes ok: "slots_ok U i"
  shows "distinct (snapshot_slots i)" and "set (snapshot_slots i) = {s. is_live i s}"
    and "mset (map (doc_at i) (snapshot_slots i)) = mset (live_docs i)" and "length (snapshot_slots i) = length (live_docs i)"
    and "distinct (map (sd_ID \<circ> doc_at i) (snapshot_slots i))"
proof -
  let ?ids = "sort (map fst (ix_slots i))"
  have ids: "distinct ?ids" "set ?ids = fst ` set (ix_slots i)" using slots_okD(4) [OF ok] by simp_all
  have look: "map_of (ix_slots i) k = Some (the (map_of (ix_slots i) k))" if "k \<in> set ?ids" for k
    using that ids(2) by (metis map_of_eq_None_iff option.collapse)
  have slot: "is_live i (the (map_of (ix_slots i) k)) \<and> sd_ID (doc_at i (the (map_of (ix_slots i) k))) = k" if "k \<in> set ?ids" for k
    using look [OF that] slots_okD(5) [OF ok] by blast
  have ids_of: "map (sd_ID \<circ> doc_at i) (snapshot_slots i) = ?ids" unfolding snapshot_slots_def using slot by (auto intro!: map_idI)
  then show d: "distinct (map (sd_ID \<circ> doc_at i) (snapshot_slots i))" using ids(1) by simp
  then show "distinct (snapshot_slots i)" by (simp add: distinct_map)
  show s: "set (snapshot_slots i) = {s. is_live i s}"
  proof (intro set_eqI iffI)
    fix s assume "s \<in> {s. is_live i s}"
    then have "map_of (ix_slots i) (sd_ID (doc_at i s)) = Some s" using slots_okD(5) [OF ok] by blast
    then show "s \<in> set (snapshot_slots i)"
      using ids(2) by (auto simp: snapshot_slots_def image_iff dest: map_of_SomeD intro!: bexI [of _ "(sd_ID (doc_at i s), s)"])
  qed (use slot in \<open>auto simp: snapshot_slots_def\<close>)
  have "distinct (map (doc_at i) (snapshot_slots i))" using d by (auto simp: distinct_map intro: inj_on_imageI2)
  moreover have "set (map (doc_at i) (snapshot_slots i)) = set (live_docs i)" using live_docs_set [OF ok] s by simp
  ultimately show m: "mset (map (doc_at i) (snapshot_slots i)) = mset (live_docs i)"
    using live_docs_distinct [OF ok] by (metis distinct_map set_eq_iff_mset_eq_distinct)
  show "length (snapshot_slots i) = length (live_docs i)" using arg_cong [OF m, of size] by simp
qed


lemma live_postings_ok:
  assumes ok: "slots_ok U i" and e: "entry_ok U i t e"
    and ords: "ords = set_ordinals (length (ix_docs i)) (snapshot_slots i)"
  shows "ascending (live_postings i ords e)"
    and "\<forall>p \<in> set (live_postings i ords e). unat (p_doc p) < length (snapshot_slots i)"
    and "j < length (snapshot_slots i) \<Longrightarrow>
      \<lparr>p_doc = of_nat j, p_tf = tf\<rparr> \<in> set (live_postings i ords e) \<longleftrightarrow> tf_of U (doc_at i (snapshot_slots i ! j)) t = Some tf"
proof -
  let ?S = "snapshot_slots i" and ?P = "filter (\<lambda>p. ix_live i ! unat (p_doc p)) (tp_postings e)"
  let ?f = "\<lambda>p :: posting. p\<lparr>p_doc := ords ! unat (p_doc p)\<rparr>"
  note S = snapshot_slots [OF ok]
  have "length (live_docs i) \<le> length (zip (ix_docs i) (ix_live i))" unfolding live_docs_def length_map by (rule length_filter_le)
  then have small: "length ?S < 2 ^ 32" using S(4) slots_okD(2,3) [OF ok] by simp
  have ord: "ords ! unat (?S ! j) = of_nat j" if "j < length ?S" for j
    unfolding ords by (rule set_ordinals_nth [OF S(1) _ that]) (use S(2) in \<open>auto simp: is_live_def\<close>)
  have num: "unat (of_nat j :: uint32) = j" if "j < length ?S" for j using that small by (intro unat_uint32) simp
  have live: "p \<in> set ?P \<longleftrightarrow> p \<in> set (tp_postings e) \<and> is_live i (p_doc p)" for p
    using e by (auto simp: entry_ok_def is_live_def)
  have slot: "\<exists>j < length ?S. p_doc p = ?S ! j" if "p \<in> set ?P" for p
    using that S(2) unfolding live by (metis in_set_conv_nth mem_Collect_eq)
  have inj: "inj_on (\<lambda>p. ords ! unat (p_doc p)) (set ?P)"
  proof (rule inj_onI)
    fix p q assume pq: "p \<in> set ?P" "q \<in> set ?P" "ords ! unat (p_doc p) = ords ! unat (p_doc q)"
    obtain j k where jk: "j < length ?S" "p_doc p = ?S ! j" "k < length ?S" "p_doc q = ?S ! k" using slot pq(1,2) by meson
    then have "j = k" using pq(3) ord num by metis
    then have "p_doc p = p_doc q" using jk by simp
    then show "p = q" using pq(1,2) e unfolding live by (auto simp: entry_ok_def)
  qed
  have "distinct (map p_doc ?P)"
  proof -
    have "sorted_wrt (<) (map p_doc (tp_postings e))" using e by (simp add: entry_ok_def sorted_wrt_map)
    then have "distinct (map p_doc (tp_postings e))" by (simp add: strict_sorted_iff)
    then show ?thesis by (rule distinct_map_filter)
  qed
  then have "distinct ?P" by (simp add: distinct_map)
  then have "distinct (map (\<lambda>p. ords ! unat (p_doc p)) ?P)" using inj by (simp add: distinct_map)
  then have "distinct (map p_doc (map ?f ?P))" by (simp add: comp_def)
  then have "distinct (map p_doc (live_postings i ords e))"
    unfolding live_postings_def distinct_map set_sort distinct_sort .
  moreover have "sorted (map p_doc (live_postings i ords e))" by (simp add: live_postings_def)
  ultimately show "ascending (live_postings i ords e)" by (simp add: strict_sorted_iff flip: sorted_wrt_map)
  have mem: "q \<in> set (live_postings i ords e) \<longleftrightarrow> (\<exists>p \<in> set ?P. q = ?f p)" for q by (auto simp: live_postings_def)
  show "\<forall>p \<in> set (live_postings i ords e). unat (p_doc p) < length ?S"
  proof
    fix q assume "q \<in> set (live_postings i ords e)"
    then obtain p j where "q = ?f p" "j < length ?S" "p_doc p = ?S ! j" using mem slot by meson
    then show "unat (p_doc q) < length ?S" using ord num by simp
  qed
  show "\<lparr>p_doc = of_nat j, p_tf = tf\<rparr> \<in> set (live_postings i ords e) \<longleftrightarrow> tf_of U (doc_at i (?S ! j)) t = Some tf" if j: "j < length ?S"
  proof -
    have "\<lparr>p_doc = of_nat j, p_tf = tf\<rparr> \<in> set (live_postings i ords e) \<longleftrightarrow> \<lparr>p_doc = ?S ! j, p_tf = tf\<rparr> \<in> set ?P"
    proof
      assume "\<lparr>p_doc = of_nat j, p_tf = tf\<rparr> \<in> set (live_postings i ords e)"
      then obtain p k where p: "p \<in> set ?P" "\<lparr>p_doc = of_nat j, p_tf = tf\<rparr> = ?f p" "k < length ?S" "p_doc p = ?S ! k" using mem slot by meson
      have "of_nat j = (of_nat k :: uint32)" using arg_cong [OF p(2), of p_doc] ord [OF p(3)] p(4) by simp
      moreover have "p_tf p = tf" using arg_cong [OF p(2), of p_tf] by simp
      moreover from calculation have "j = k" using num [OF j] num [OF p(3)] by metis
      ultimately have "\<lparr>p_doc = p_doc p, p_tf = p_tf p\<rparr> = \<lparr>p_doc = ?S ! j, p_tf = tf\<rparr>" using p(4) by simp
      then have "p = \<lparr>p_doc = ?S ! j, p_tf = tf\<rparr>" by (simp only: posting_eq)
      then show "\<lparr>p_doc = ?S ! j, p_tf = tf\<rparr> \<in> set ?P" using p(1) by simp
    next
      assume "\<lparr>p_doc = ?S ! j, p_tf = tf\<rparr> \<in> set ?P"
      then show "\<lparr>p_doc = of_nat j, p_tf = tf\<rparr> \<in> set (live_postings i ords e)"
        unfolding mem using ord [OF j] by (intro bexI [of _ "\<lparr>p_doc = ?S ! j, p_tf = tf\<rparr>"]) simp_all
    qed
    moreover have "is_live i (?S ! j)" using S(2) nth_mem [OF j] by simp
    ultimately show ?thesis unfolding live using e by (simp add: entry_ok_def)
  qed
qed


lemma df_of_mset: "mset ds = mset ds' \<Longrightarrow> df_of U ds t = df_of U ds' t"
  unfolding df_of_def by (metis mset_filter size_mset)

text \<open>An index whose slots are all live, from its documents and the postings of every term.\<close>

lemma dense_index_ok:
  assumes docs: "length (ix_docs i) < unat noDoc" "distinct (map sd_ID (ix_docs i))" "\<forall>d \<in> set (ix_docs i). doc_length U d < 2 ^ 32"
    and i: "ix_slots i = zip (map sd_ID (ix_docs i)) (map of_nat [0..<length (ix_docs i)])"
      "ix_lengths i = map (of_nat \<circ> doc_length U) (ix_docs i)" "ix_live i = replicate (length (ix_docs i)) True"
      "ix_tokens i = int (sum_list (map (doc_length U) (ix_docs i)))" "ix_dead i = 0"
    and terms: "distinct (map fst (ix_terms i))"
      "\<And>t. map_of (ix_terms i) t = None \<Longrightarrow> df_of U (ix_docs i) t = 0"
      "\<And>t e. map_of (ix_terms i) t = Some e \<Longrightarrow> \<exists>ps. e = term_entry (ix_lengths i) ps \<and> ps \<noteq> [] \<and> ascending ps \<and>
        (\<forall>p \<in> set ps. unat (p_doc p) < length (ix_docs i)) \<and>
        (\<forall>j < length (ix_docs i). \<forall>tf. \<lparr>p_doc = of_nat j, p_tf = tf\<rparr> \<in> set ps \<longleftrightarrow> tf_of U (ix_docs i ! j) t = Some tf)"
  shows "index_ok U i" and "live_docs i = ix_docs i"
proof -
  let ?n = "length (ix_docs i)"
  have "filter snd (zip ds (replicate (length ds) True)) = zip ds (replicate (length ds) True)" for ds :: "sdoc list"
    by (rule filter_True) (auto dest: set_zip_rightD)
  then show live: "live_docs i = ix_docs i" by (simp add: live_docs_def i(3))
  have n: "?n < 2 ^ 32" using docs(1) by (simp add: noDoc_def)
  have num: "unat (of_nat j :: uint32) = j" if "j < ?n" for j using that n by (intro unat_uint32) simp
  have is_live: "is_live i s \<longleftrightarrow> unat s < ?n" for s by (auto simp: is_live_def i(3))
  have look: "map_of (ix_slots i) k = Some s \<longleftrightarrow> is_live i s \<and> sd_ID (doc_at i s) = k" for k s
  proof -
    have "distinct (map fst (ix_slots i))" using docs(2) by (simp add: i(1))
    then have "map_of (ix_slots i) k = Some s \<longleftrightarrow> (k, s) \<in> set (ix_slots i)" by (rule map_of_eq_Some_iff)
    moreover have "ix_slots i = map (\<lambda>j. (sd_ID (ix_docs i ! j), of_nat j)) [0..<?n]" unfolding i(1) by (rule nth_equalityI) simp_all
    then have "(k, s) \<in> set (ix_slots i) \<longleftrightarrow> (\<exists>j < ?n. k = sd_ID (ix_docs i ! j) \<and> s = of_nat j)" by auto
    moreover have "(\<exists>j < ?n. k = sd_ID (ix_docs i ! j) \<and> s = of_nat j) \<longleftrightarrow> unat s < ?n \<and> sd_ID (ix_docs i ! unat s) = k"
    proof
      assume "unat s < ?n \<and> sd_ID (ix_docs i ! unat s) = k"
      then show "\<exists>j < ?n. k = sd_ID (ix_docs i ! j) \<and> s = of_nat j" by (intro exI [of _ "unat s"]) simp
    qed (use num in auto)
    ultimately show ?thesis by (simp add: is_live doc_at_def)
  qed
  have "slots_ok U i"
    using docs look n by (auto simp: slots_ok_def i(1,2,3) is_live doc_at_def unsigned_of_nat take_bit_nat_eq_self)
  moreover have "entry_ok U i t e \<and> tp_df e = int (df_of U (ix_docs i) t) \<and> df_of U (ix_docs i) t > 0" if e: "map_of (ix_terms i) t = Some e" for t e
  proof -
    obtain ps where ps: "e = term_entry (ix_lengths i) ps" "ps \<noteq> []" "ascending ps" "\<forall>p \<in> set ps. unat (p_doc p) < ?n"
      and tf: "\<And>j tf. j < ?n \<Longrightarrow> \<lparr>p_doc = of_nat j, p_tf = tf\<rparr> \<in> set ps \<longleftrightarrow> tf_of U (ix_docs i ! j) t = Some tf" using terms(3) [OF e] by blast
    have "p \<in> set ps \<longleftrightarrow> tf_of U (doc_at i (p_doc p)) t = Some (p_tf p)" if "unat (p_doc p) < ?n" for p
      using tf [OF that, of "p_tf p"] by (cases p) (simp add: doc_at_def)
    then have "entry_ok U i t e" using term_entry_covered [of "ix_lengths i" ps] ps(3,4) by (simp add: entry_ok_def covered_def ps(1) is_live)
    moreover have "length ps = df_of U (ix_docs i) t"
    proof -
      let ?D = "map (unat \<circ> p_doc) ps"
      have "distinct (map p_doc ps)" using ps(3) by (simp add: strict_sorted_iff [of "map p_doc ps", THEN iffD1] sorted_wrt_map)
      then have "distinct ?D" by (auto simp: distinct_map inj_on_def word_unat_eq_iff)
      moreover have "set ?D = {j. j < ?n \<and> tf_of U (ix_docs i ! j) t \<noteq> None}"
      proof (intro set_eqI iffI)
        fix j assume "j \<in> set ?D"
        then obtain p where p: "p \<in> set ps" "j = unat (p_doc p)" by auto
        then show "j \<in> {j. j < ?n \<and> tf_of U (ix_docs i ! j) t \<noteq> None}" using tf [of j "p_tf p"] ps(4) by auto
      next
        fix j assume "j \<in> {j. j < ?n \<and> tf_of U (ix_docs i ! j) t \<noteq> None}"
        then obtain x where "j < ?n" "\<lparr>p_doc = of_nat j, p_tf = x\<rparr> \<in> set ps" using tf by auto
        then show "j \<in> set ?D" using num by force
      qed
      ultimately have "length ?D = card {j. j < ?n \<and> tf_of U (ix_docs i ! j) t \<noteq> None}" by (metis distinct_card)
      then show ?thesis by (simp add: df_of_def length_filter_conv_card)
    qed
    ultimately show ?thesis using ps(1,2) by (cases ps) auto
  qed
  ultimately show "index_ok U i"
    using terms(1,2) by (auto simp: index_ok_def terms_ok_def live i(4,5) split: option.split)
qed


definition dense_index :: "unicode \<Rightarrow> sdoc list \<Rightarrow> (str \<times> termPostings) list \<Rightarrow> index" where
  "dense_index U docs terms =
     \<lparr>ix_slots = zip (map sd_ID docs) (map of_nat [0..<length docs]), ix_docs = docs, ix_lengths = map (of_nat \<circ> doc_length U) docs,
      ix_live = replicate (length docs) True, ix_terms = terms, ix_tokens = int (sum_list (map (doc_length U) docs)), ix_dead = 0\<rparr>"

lemma read_written_docs:
  assumes "distinct (map sd_ID docs)" and "\<forall>d \<in> set docs. doc_length U d < 2 ^ 32"
  shows "read_docs 0 (zip docs (map (int \<circ> doc_length U) docs))
    (NewIndex\<lparr>ix_docs := docs, ix_lengths := replicate (length docs) 0, ix_live := replicate (length docs) False\<rparr>) = Inr (dense_index U docs [])"
proof -
  have z: "zip docs (map (int \<circ> doc_length U) docs) = map (\<lambda>d. (d, int (doc_length U d))) docs"
    by (rule nth_equalityI) simp_all
  have sum: "int (sum_list (map f ds)) = sum_list (map (\<lambda>d. int (f d)) ds)" for f and ds :: "sdoc list" by (induction ds) simp_all
  show ?thesis unfolding z
    by (subst read_docs_ok) (use assms in \<open>auto simp: NewIndex_def dense_index_def comp_def sum\<close>)
qed

subsection \<open>Properties\<close>

lemma WriteSnapshot_fields:
  "ds_Version (WriteSnapshot i) = snapshotVersion" "ds_Docs (WriteSnapshot i) = map (doc_at i) (snapshot_slots i)"
  "ds_Lengths (WriteSnapshot i) = map (\<lambda>s. uint (ix_lengths i ! unat s)) (snapshot_slots i)"
  "ds_Postings (WriteSnapshot i) =
     map (\<lambda>(t, e). (t, encode_postings (-1) (live_postings i (set_ordinals (length (ix_docs i)) (snapshot_slots i)) e))) (ix_terms i)"
  by (simp_all add: WriteSnapshot_def snapshot_slots_def Let_def doc_at_def comp_def)

definition snapshot_docs :: "index \<Rightarrow> sdoc list" where "snapshot_docs i = map (doc_at i) (snapshot_slots i)"

definition snapshot_postings :: "index \<Rightarrow> str \<Rightarrow> posting list" where
  "snapshot_postings i t = (case map_of (ix_terms i) t of None \<Rightarrow> []
     | Some e \<Rightarrow> live_postings i (set_ordinals (length (ix_docs i)) (snapshot_slots i)) e)"

definition snapshot_terms :: "unicode \<Rightarrow> index \<Rightarrow> (str \<times> termPostings) list" where
  "snapshot_terms U i =
     map (\<lambda>(t, e). (t, term_entry (map (of_nat \<circ> doc_length U) (snapshot_docs i)) (snapshot_postings i t)))
       (filter (\<lambda>(t, e). snapshot_postings i t \<noteq> []) (ix_terms i))"

lemma snapshot_docs_ok:
  assumes ok: "slots_ok U i"
  shows "distinct (map sd_ID (snapshot_docs i))" and "\<forall>d \<in> set (snapshot_docs i). doc_length U d < 2 ^ 32"
    and "ds_Lengths (WriteSnapshot i) = map (int \<circ> doc_length U) (snapshot_docs i)"
    and "mset (snapshot_docs i) = mset (live_docs i)" and "length (snapshot_docs i) = length (live_docs i)"
proof -
  note S = snapshot_slots [OF ok]
  have len: "uint (ix_lengths i ! unat k) = int (doc_length U (doc_at i k))" if "k \<in> set (snapshot_slots i)" for k
    using slots_okD(6) [OF ok, of k] S(2) that by simp
  show "\<forall>d \<in> set (snapshot_docs i). doc_length U d < 2 ^ 32"
  proof
    fix d assume "d \<in> set (snapshot_docs i)"
    then obtain k where "k \<in> set (snapshot_slots i)" "d = doc_at i k" by (auto simp: snapshot_docs_def)
    then show "doc_length U d < 2 ^ 32" using len [of k] uint_lt2p [of "ix_lengths i ! unat k"] by simp
  qed
  show "ds_Lengths (WriteSnapshot i) = map (int \<circ> doc_length U) (snapshot_docs i)" using len by (simp add: WriteSnapshot_fields snapshot_docs_def)
  show "distinct (map sd_ID (snapshot_docs i))" "mset (snapshot_docs i) = mset (live_docs i)" "length (snapshot_docs i) = length (live_docs i)"
    using S(3,4,5) by (simp_all add: snapshot_docs_def)
qed

lemma snapshot_postings_ok:
  assumes ok: "index_ok U i" and e: "map_of (ix_terms i) t = Some e"
  shows "ascending (snapshot_postings i t)" and "\<forall>p \<in> set (snapshot_postings i t). unat (p_doc p) < length (snapshot_docs i)"
    and "\<forall>j < length (snapshot_docs i). \<forall>tf.
      \<lparr>p_doc = of_nat j, p_tf = tf\<rparr> \<in> set (snapshot_postings i t) \<longleftrightarrow> tf_of U (snapshot_docs i ! j) t = Some tf"
proof -
  have s: "slots_ok U i" and "terms_ok U i (live_docs i)" using ok by (simp_all add: index_ok_def)
  then have "entry_ok U i t e" using e unfolding terms_ok_def by (metis (mono_tags, lifting) option.simps(5))
  note live = live_postings_ok [OF s this refl]
  have eq: "snapshot_postings i t = live_postings i (set_ordinals (length (ix_docs i)) (snapshot_slots i)) e" using e by (simp add: snapshot_postings_def)
  show "ascending (snapshot_postings i t)" unfolding eq by (rule live(1))
  show "\<forall>p \<in> set (snapshot_postings i t). unat (p_doc p) < length (snapshot_docs i)" using live(2) by (simp add: eq snapshot_docs_def)
  show "\<forall>j < length (snapshot_docs i). \<forall>tf.
      \<lparr>p_doc = of_nat j, p_tf = tf\<rparr> \<in> set (snapshot_postings i t) \<longleftrightarrow> tf_of U (snapshot_docs i ! j) t = Some tf"
    using live(3) by (simp add: eq snapshot_docs_def)
qed

lemma read_written_terms:
  assumes ok: "index_ok U i" and n: "length (snapshot_docs i) \<le> 2 ^ 32"
  shows "read_terms (length (snapshot_docs i)) (ds_Postings (WriteSnapshot i)) (dense_index U (snapshot_docs i) []) =
    Inr (dense_index U (snapshot_docs i) (snapshot_terms U i))"
proof (subst read_terms_ok [of _ _ _ "snapshot_postings i"])
  let ?i = "dense_index U (snapshot_docs i) []"
  have dist: "distinct (map fst (ix_terms i))" using ok by (simp add: index_ok_def terms_ok_def)
  then show "distinct (map fst (ix_terms ?i) @ map fst (ds_Postings (WriteSnapshot i)))"
    by (simp add: WriteSnapshot_fields dense_index_def comp_def case_prod_unfold)
  show "\<forall>(t, enc) \<in> set (ds_Postings (WriteSnapshot i)). read_postings t (length (snapshot_docs i)) (ix_lengths ?i) (-1) enc no_postings =
      Inr (foldl (append_posting (ix_lengths ?i)) no_postings (snapshot_postings i t))"
  proof (intro ballI, clarify)
    fix t enc assume "(t, enc) \<in> set (ds_Postings (WriteSnapshot i))"
    then obtain e where e: "map_of (ix_terms i) t = Some e" "enc = encode_postings (-1) (snapshot_postings i t)"
      using dist by (auto simp: WriteSnapshot_fields snapshot_postings_def)
    have "\<forall>p \<in> set (snapshot_postings i t). -1 < uint (p_doc p) \<and> uint (p_doc p) < int (length (snapshot_docs i))"
    proof
      fix p assume "p \<in> set (snapshot_postings i t)"
      then have "unat (p_doc p) < length (snapshot_docs i)" using snapshot_postings_ok(2) [OF ok e(1)] by blast
      then have "uint (p_doc p) < int (length (snapshot_docs i))" by (simp only: unat_eq_nat_uint nat_less_iff [OF uint_ge_0])
      then show "-1 < uint (p_doc p) \<and> uint (p_doc p) < int (length (snapshot_docs i))" using uint_ge_0 [of "p_doc p"] by linarith
    qed
    then show "read_postings t (length (snapshot_docs i)) (ix_lengths ?i) (-1) enc no_postings =
        Inr (foldl (append_posting (ix_lengths ?i)) no_postings (snapshot_postings i t))"
      unfolding e(2) by (rule read_encoded [OF snapshot_postings_ok(1) [OF ok e(1)]]) (use n in auto)
  qed
qed (simp add: dense_index_def snapshot_terms_def WriteSnapshot_fields filter_map comp_def case_prod_unfold)

lemma map_of_kept: "map_of (map (\<lambda>(t, e). (t, F t)) (filter (\<lambda>(t, e). P t) m)) t =
    (case map_of m t of None \<Rightarrow> None | Some e \<Rightarrow> if P t then Some (F t) else None)"
  by (induction m) (auto split: option.splits)

lemma read_index_ok:
  assumes ok: "index_ok U i" and few: "length (live_docs i) < unat noDoc"
  defines "i' \<equiv> dense_index U (snapshot_docs i) (snapshot_terms U i)"
  shows "index_ok U i'" and "live_docs i' = snapshot_docs i"
proof -
  have s: "slots_ok U i" and t: "terms_ok U i (live_docs i)" using ok by (simp_all add: index_ok_def)
  let ?docs = "snapshot_docs i" and ?L = "map (of_nat \<circ> doc_length U) (snapshot_docs i)"
  note docs = snapshot_docs_ok [OF s]
  have look: "map_of (snapshot_terms U i) t = (case map_of (ix_terms i) t of None \<Rightarrow> None
      | Some e \<Rightarrow> if snapshot_postings i t \<noteq> [] then Some (term_entry ?L (snapshot_postings i t)) else None)" for t
    unfolding snapshot_terms_def by (rule map_of_kept)
  have empty: "df_of U ?docs t = 0" if none: "map_of (snapshot_terms U i) t = None" for t
  proof (cases "map_of (ix_terms i) t")
    case None
    then have "df_of U (live_docs i) t = 0" using t unfolding terms_ok_def by (metis (mono_tags, lifting) option.simps(4))
    then show ?thesis using df_of_mset [OF docs(4)] by simp
  next
    case (Some e)
    then have "snapshot_postings i t = []" using none look [of t] by (simp split: if_splits)
    then have "tf_of U (?docs ! j) t = None" if "j < length ?docs" for j
      using snapshot_postings_ok(3) [OF ok Some] that by (cases "tf_of U (?docs ! j) t") auto
    then show ?thesis by (auto simp: df_of_zero in_set_conv_nth)
  qed
  have shape: "\<exists>ps. e = term_entry ?L ps \<and> ps \<noteq> [] \<and> ascending ps \<and> (\<forall>p \<in> set ps. unat (p_doc p) < length ?docs) \<and>
      (\<forall>j < length ?docs. \<forall>tf. \<lparr>p_doc = of_nat j, p_tf = tf\<rparr> \<in> set ps \<longleftrightarrow> tf_of U (?docs ! j) t = Some tf)"
    if e: "map_of (snapshot_terms U i) t = Some e" for t e
  proof -
    obtain e0 where e0: "map_of (ix_terms i) t = Some e0" "e = term_entry ?L (snapshot_postings i t)" "snapshot_postings i t \<noteq> []"
      using e look [of t] by (auto split: option.splits if_splits)
    with snapshot_postings_ok [OF ok e0(1)] show ?thesis by (intro exI [of _ "snapshot_postings i t"]) blast
  qed
  have "distinct (map fst (snapshot_terms U i))"
    using t by (simp add: terms_ok_def snapshot_terms_def comp_def case_prod_unfold distinct_map_filter)
  then show "index_ok U i'" "live_docs i' = ?docs"
    using dense_index_ok [of i' U] docs(1,2,5) few empty shape by (simp_all add: i'_def dense_index_def)
qed

text \<open>
  C8: a snapshot is read back: the index that was written and the one that is read hold the same documents, keep the invariant of the index, and
  answer every query alike; tombstones are gone.
\<close>

theorem snapshot_restores_index:
  assumes ok: "index_ok U i" and few: "length (live_docs i) < unat noDoc" and "log_law lg"
  shows "\<exists>i'. ReadSnapshot (WriteSnapshot i) = Inr i' \<and> index_ok U i' \<and> mset (live_docs i') = mset (live_docs i) \<and> ix_dead i' = 0 \<and>
    Search U lg i' query limit = Search U lg i query limit"
proof (intro exI conjI)
  have s: "slots_ok U i" using ok by (simp add: index_ok_def)
  note docs = snapshot_docs_ok [OF s] and final = read_index_ok [OF ok few]
  have n: "length (snapshot_docs i) < unat noDoc" "length (snapshot_docs i) \<le> 2 ^ 32" using few docs(5) by (simp_all add: noDoc_def)
  show "ReadSnapshot (WriteSnapshot i) = Inr (dense_index U (snapshot_docs i) (snapshot_terms U i))"
    using n(1) read_written_docs [OF docs(1,2)] read_written_terms [OF ok n(2)]
    by (simp add: ReadSnapshot_def WriteSnapshot_fields(1,2) snapshot_docs_def [symmetric] docs(3))
  show "index_ok U (dense_index U (snapshot_docs i) (snapshot_terms U i))" by (rule final(1))
  show same: "mset (live_docs (dense_index U (snapshot_docs i) (snapshot_terms U i))) = mset (live_docs i)" by (simp add: final(2) docs(4))
  show "ix_dead (dense_index U (snapshot_docs i) (snapshot_terms U i)) = 0" by (simp add: dense_index_def)
  show "Search U lg (dense_index U (snapshot_docs i) (snapshot_terms U i)) query limit = Search U lg i query limit"
    by (rule search_ignores_history [OF final(1) ok same assms(3)])
qed

theorem snapshot_restores_index_witness:
  "\<exists>i'. ReadSnapshot (WriteSnapshot sample_index) = Inr i' \<and> Search ascii (\<lambda>x. x - 1) i' [67, 67] 1 = Search ascii (\<lambda>x. x - 1) sample_index [67, 67] 1"
proof -
  have "length (live_docs sample_index) < unat noDoc" by (simp add: sample_index_ok(2) noDoc_def)
  from snapshot_restores_index [OF sample_index_ok(1) this log_law_linear, of "[67, 67]" 1] show ?thesis by blast
qed

text \<open>
  C38: whatever the file holds, a snapshot that is accepted gives an index without dangling references: every id leads to the slot of its document,
  posting lists ascend and name existing slots, and their frontiers bound every posting, so that no query leaves a list.
\<close>

theorem accepted_snapshot_is_well_formed:
  assumes "ReadSnapshot snapshot = Inr i"
  shows "length (ix_lengths i) = length (ix_docs i) \<and> ix_live i = replicate (length (ix_docs i)) True \<and>
    (\<forall>(k, s) \<in> set (ix_slots i). unat s < length (ix_docs i) \<and> sd_ID (doc_at i s) = k) \<and>
    (\<forall>(t, e) \<in> set (ix_terms i). tp_df e = int (length (tp_postings e)) \<and> tp_df e > 0 \<and> ascending (tp_postings e) \<and>
      (\<forall>p \<in> set (tp_postings e). unat (p_doc p) < length (ix_docs i)) \<and> covered (ix_lengths i) e)"
proof -
  let ?docs = "ds_Docs snapshot" and ?n = "length (ds_Docs snapshot)"
  let ?j = "NewIndex\<lparr>ix_docs := ?docs, ix_lengths := replicate ?n 0, ix_live := replicate ?n False\<rparr>"
  have ok: "?n = length (ds_Lengths snapshot)" "?n < unat noDoc" and body: "rbind (read_docs 0 (zip ?docs (ds_Lengths snapshot)) ?j) (read_terms ?n (ds_Postings snapshot)) = Inr i"
    using assms unfolding ReadSnapshot_def Let_def by (simp_all only: split: if_splits) (simp_all only: sum.distinct not_le not_not)
  have n: "length (ds_Lengths snapshot) = ?n" "?n < unat noDoc" by (rule ok(1) [symmetric], rule ok(2))
  obtain k where k: "read_docs 0 (zip ?docs (ds_Lengths snapshot)) ?j = Inr k" and i: "read_terms ?n (ds_Postings snapshot) k = Inr i"
    using body by (cases "read_docs 0 (zip ?docs (ds_Lengths snapshot)) ?j") simp_all
  have z: "length (zip ?docs (ds_Lengths snapshot)) = ?n" using n(1) by simp
  have small: "?n \<le> 2 ^ 32" using n(2) by (simp add: noDoc_def)
  have "k = ?j\<lparr>ix_slots := ix_slots ?j @ zip (map (sd_ID \<circ> fst) (zip ?docs (ds_Lengths snapshot))) (map of_nat [0..<0 + ?n]),
      ix_lengths := take 0 (ix_lengths ?j) @ map (of_int \<circ> snd) (zip ?docs (ds_Lengths snapshot)),
      ix_live := take 0 (ix_live ?j) @ replicate ?n True, ix_tokens := ix_tokens ?j + sum_list (map snd (zip ?docs (ds_Lengths snapshot)))\<rparr>"
    using read_docs_ok [of ?j 0 "zip ?docs (ds_Lengths snapshot)" k, THEN iffD1, OF _ _ _ k] z by (simp add: NewIndex_def)
  then have kf: "ix_docs k = ?docs" "length (ix_lengths k) = ?n" "ix_live k = replicate ?n True" "ix_terms k = []"
    "ix_slots k = zip (map (sd_ID \<circ> fst) (zip ?docs (ds_Lengths snapshot))) (map of_nat [0..<?n])"
    using n(1) by (simp_all add: NewIndex_def)
  have ids: "map (sd_ID \<circ> fst) (zip ?docs (ds_Lengths snapshot)) = map sd_ID ?docs" using n(1) by (simp flip: map_map)
  obtain terms where t: "i = k\<lparr>ix_terms := terms\<rparr>"
    "\<forall>(t, e) \<in> set terms. \<exists>ps. e = term_entry (ix_lengths k) ps \<and> ps \<noteq> [] \<and> ascending ps \<and> (\<forall>p \<in> set ps. unat (p_doc p) < ?n)"
    using read_terms_range [OF i small] by (auto simp: kf(4))
  have "unat s < ?n \<and> sd_ID (?docs ! unat s) = x" if xs: "(x, s) \<in> set (ix_slots k)" for x s
  proof -
    obtain j where "j < ?n" "x = sd_ID (?docs ! j)" "s = of_nat j" using xs unfolding kf(5) ids by (auto simp: set_zip)
    then show ?thesis using small unat_uint32 [of j] by simp
  qed
  then have "\<forall>(x, s) \<in> set (ix_slots i). unat s < length (ix_docs i) \<and> sd_ID (doc_at i s) = x" by (auto simp: t(1) kf(1) doc_at_def)
  moreover have "tp_df e = int (length (tp_postings e)) \<and> tp_df e > 0 \<and> ascending (tp_postings e) \<and>
      (\<forall>p \<in> set (tp_postings e). unat (p_doc p) < length (ix_docs i)) \<and> covered (ix_lengths i) e" if xe: "(x, e) \<in> set (ix_terms i)" for x e
  proof -
    obtain ps where "e = term_entry (ix_lengths k) ps" "ps \<noteq> []" "ascending ps" "\<forall>p \<in> set ps. unat (p_doc p) < ?n"
      using t xe by auto
    then show ?thesis using term_entry_covered [of "ix_lengths k" ps] by (simp add: t(1) kf(1))
  qed
  ultimately show ?thesis using kf(1,2,3) by (auto simp: t(1))
qed

definition small_snapshot :: disk_snapshot where
  "small_snapshot = \<lparr>ds_Version = 1, ds_Docs = [sample_doc [1] []], ds_Lengths = [7], ds_Postings = [([99, 100], [1, 5])]\<rparr>"

theorem accepted_snapshot_is_well_formed_witness:
  "\<exists>i. ReadSnapshot small_snapshot = Inr i \<and> (\<forall>(t, e) \<in> set (ix_terms i). tp_df e > 0)"
proof -
  have u: "Uvarint [1, 5] = Some (1, [5])" "Uvarint [5] = Some (5, [])" by (simp_all add: Uvarint_def MaxVarintLen64_def)
  have p: "read_postings [99, 100] 1 [7] (-1) [1, 5] e = Inr (append_posting [7] e \<lparr>p_doc = 0, p_tf = 5\<rparr>)" for e
    by (subst read_postings.simps, simp add: u, subst read_postings.simps, simp)
  obtain i where "ReadSnapshot small_snapshot = Inr i"
    by (simp add: ReadSnapshot_def small_snapshot_def snapshotVersion_def noDoc_def NewIndex_def p [simplified] append_posting_def addImpact_def)
  with accepted_snapshot_is_well_formed [OF this] show ?thesis by (intro exI [of _ i]) auto
qed

end
