(* ===== verification/SearchNode.thy ===== *)
theory SearchNode
  imports SearchExact Scanner
begin

text \<open>
  A search node: the log of documents of \<^verbatim>\<open>internal/search/wal.go\<close> and the handlers of \<^verbatim>\<open>Node\<close> in
  \<^verbatim>\<open>internal/search/http.go\<close>. A request logs its document under the lock of the log and stores it in the index under the lock of the
  index; requests interleave between the two. The JSON encodings are the argument \<open>C\<close>.
\<close>

subsection \<open>The log\<close>

record doc_codec =
  dc_doc :: "sdoc \<Rightarrow> byte list option"
  dc_rec :: "sdoc \<Rightarrow> uint32 \<Rightarrow> byte list option"
  dc_unrec :: "byte list \<Rightarrow> (sdoc \<times> uint32) option"

text \<open>A write that succeeds, one that stops after some bytes, one whose \<^verbatim>\<open>Sync\<close> fails.\<close>

datatype doc_io = DocSynced | DocTorn nat | DocUnsynced

datatype wal_error = ErrDecodeDoc | ErrDocChecksum | ErrDocTooLong

definition doc_record :: "doc_codec \<Rightarrow> sdoc \<Rightarrow> byte list option" where
  "doc_record C doc = (case dc_doc C doc of None \<Rightarrow> None | Some payload \<Rightarrow> dc_rec C doc (ChecksumIEEE payload))"

definition wal_Append :: "doc_codec \<Rightarrow> doc_io \<Rightarrow> byte list \<Rightarrow> sdoc \<Rightarrow> byte list \<times> bool" where
  "wal_Append C io wal doc =
     (case doc_record C doc of
        None \<Rightarrow> (wal, False)
      | Some line \<Rightarrow>
          (case io of
             DocSynced \<Rightarrow> (wal @ line @ [newline], True)
           | DocTorn k \<Rightarrow> (wal @ take k (line @ [newline]), False)
           | DocUnsynced \<Rightarrow> (wal @ line @ [newline], False)))"

definition replay_document :: "unicode \<Rightarrow> doc_codec \<Rightarrow> index \<Rightarrow> byte list \<Rightarrow> (wal_error, index) result" where
  "replay_document U C i token =
     (case dc_unrec C token of
        None \<Rightarrow> Inl ErrDecodeDoc
      | Some (doc, checksum) \<Rightarrow>
          if ChecksumIEEE (case dc_doc C doc of None \<Rightarrow> [] | Some payload \<Rightarrow> payload) \<noteq> checksum then Inl ErrDocChecksum
          else Inr (Upsert U i doc))"

definition maxWALLine :: nat where "maxWALLine = 16 * 1024 * 1024"

definition wal_Replay :: "unicode \<Rightarrow> doc_codec \<Rightarrow> byte list \<Rightarrow> index \<Rightarrow> (wal_error, index) result" where
  "wal_Replay U C wal i = scan_loop maxWALLine (replay_document U C) ErrDocTooLong wal i"

subsection \<open>Handlers\<close>

text \<open>The requests whose document is logged and not stored yet, by a number of the request.\<close>

record search_node =
  nd_wal :: "byte list"
  nd_index :: index
  nd_pending :: "(nat \<times> sdoc) list"

datatype doc_response = DocBadRequest | DocDurabilityFailure | DocCreated str

definition node_log :: "doc_codec \<Rightarrow> doc_io \<Rightarrow> search_node \<Rightarrow> nat \<Rightarrow> sdoc \<Rightarrow> search_node \<times> bool" where
  "node_log C io n r doc =
     (case wal_Append C io (nd_wal n) doc of
        (wal, ok) \<Rightarrow> (n\<lparr>nd_wal := wal, nd_pending := (if ok then nd_pending n @ [(r, doc)] else nd_pending n)\<rparr>, ok))"

definition node_store :: "unicode \<Rightarrow> search_node \<Rightarrow> nat \<Rightarrow> search_node" where
  "node_store U n r =
     (case map_of (nd_pending n) r of
        None \<Rightarrow> n
      | Some doc \<Rightarrow> n\<lparr>nd_index := Upsert U (nd_index n) doc, nd_pending := AList.delete r (nd_pending n)\<rparr>)"

text \<open>A request served without another in between; the body is what the JSON decoder makes of it.\<close>

definition node_handleDocument :: "unicode \<Rightarrow> doc_codec \<Rightarrow> doc_io \<Rightarrow> search_node \<Rightarrow> nat \<Rightarrow> sdoc option \<Rightarrow> search_node \<times> doc_response" where
  "node_handleDocument U C io n r body =
     (case body of
        None \<Rightarrow> (n, DocBadRequest)
      | Some doc \<Rightarrow>
          if blank (sd_ID doc) then (n, DocBadRequest)
          else (case node_log C io n r doc of
            (n, False) \<Rightarrow> (n, DocDurabilityFailure)
          | (n, True) \<Rightarrow> (node_store U n r, DocCreated (sd_ID doc))))"

definition search_limit :: "int \<Rightarrow> int" where
  "search_limit limit = (if limit \<le> 0 \<or> limit > 100 then 10 else limit)"

definition node_handleSearch :: "unicode \<Rightarrow> (real \<Rightarrow> real) \<Rightarrow> search_node \<Rightarrow> str \<Rightarrow> int \<Rightarrow> search_result list" where
  "node_handleSearch U lg n q limit = Search U lg (nd_index n) q (search_limit limit)"

definition new_node :: search_node where "new_node = \<lparr>nd_wal = [], nd_index = NewIndex, nd_pending = []\<rparr>"

text \<open>Starting a node from its log.\<close>

definition start_node :: "unicode \<Rightarrow> doc_codec \<Rightarrow> byte list \<Rightarrow> (wal_error, search_node) result" where
  "start_node U C wal = rbind (wal_Replay U C wal NewIndex) (\<lambda>i. Inr \<lparr>nd_wal = wal, nd_index = i, nd_pending = []\<rparr>)"

subsection \<open>Interleaved requests\<close>

datatype node_event = LogDoc nat sdoc | StoreDoc nat

definition node_step :: "unicode \<Rightarrow> doc_codec \<Rightarrow> search_node \<Rightarrow> node_event \<Rightarrow> search_node" where
  "node_step U C n ev = (case ev of LogDoc r doc \<Rightarrow> fst (node_log C DocSynced n r doc) | StoreDoc r \<Rightarrow> node_store U n r)"

definition logged_doc :: "node_event \<Rightarrow> sdoc option" where
  "logged_doc ev = (case ev of LogDoc r doc \<Rightarrow> Some doc | StoreDoc r \<Rightarrow> None)"

text \<open>No two requests for the same document are under way at the same time.\<close>

fun separate :: "unicode \<Rightarrow> doc_codec \<Rightarrow> search_node \<Rightarrow> node_event list \<Rightarrow> bool" where
  "separate U C n [] = True"
| "separate U C n (ev # evs) =
     ((case ev of LogDoc r doc \<Rightarrow> r \<notin> fst ` set (nd_pending n) \<and> sd_ID doc \<notin> (sd_ID \<circ> snd) ` set (nd_pending n) | StoreDoc r \<Rightarrow> True) \<and>
      separate U C (node_step U C n ev) evs)"

definition doc_law :: "doc_codec \<Rightarrow> bool" where
  "doc_law C \<longleftrightarrow> (\<forall>doc. dc_doc C doc \<noteq> None) \<and>
     (\<forall>doc checksum line. dc_rec C doc checksum = Some line \<longrightarrow> line_ok line \<and> dc_unrec C line = Some (doc, checksum))"

subsection \<open>Storing documents in another order\<close>

abbreviation put_docs :: "sdoc list \<Rightarrow> sdoc list \<Rightarrow> sdoc list" where "put_docs \<equiv> foldl (\<lambda>ds d. put_doc d ds)"

lemma put_doc_mset: "mset ds = mset ds' \<Longrightarrow> mset (put_doc d ds) = mset (put_doc d ds')"
  by (metis mset_append mset_filter put_doc_def)

lemma put_docs_mset: "mset ds = mset ds' \<Longrightarrow> mset (put_docs ds docs) = mset (put_docs ds' docs)"
  by (induction docs rule: rev_induct) (auto intro: put_doc_mset)

lemma put_doc_swap:
  assumes "sd_ID d \<noteq> sd_ID e"
  shows "mset (put_doc d (put_doc e ds)) = mset (put_doc e (put_doc d ds))"
  using assms by (simp add: put_doc_def conj_commute)

lemma put_docs_move:
  assumes "sd_ID d \<notin> sd_ID ` set docs"
  shows "mset (put_docs ds (docs @ [d])) = mset (put_docs (put_doc d ds) docs)"
  using assms
proof (induction docs rule: rev_induct)
  case (snoc e docs)
  then have "mset (put_doc d (put_doc e (put_docs ds docs))) = mset (put_doc e (put_doc d (put_docs ds docs)))"
    by (intro put_doc_swap) auto
  also have "\<dots> = mset (put_doc e (put_docs (put_doc d ds) docs))" using snoc by (intro put_doc_mset) simp
  finally show ?case by simp
qed simp

lemma put_docs_pending:
  assumes "map_of pending r = Some d" and "distinct (map fst pending)" "distinct (map (sd_ID \<circ> snd) pending)"
  shows "mset (put_docs ds (map snd pending)) = mset (put_docs (put_doc d ds) (map snd (AList.delete r pending)))"
proof -
  obtain A B where AB: "pending = A @ (r, d) # B" using map_of_SomeD [OF assms(1)] by (auto dest: split_list)
  then have "r \<notin> fst ` set A" "r \<notin> fst ` set B" using assms(2) by auto
  then have "filter (\<lambda>(k, _). r \<noteq> k) A = A" "filter (\<lambda>(k, _). r \<noteq> k) B = B" by (force simp: filter_id_conv)+
  then have "AList.delete r pending = A @ B" by (simp add: AList.delete_eq AB)
  moreover have "mset (put_docs (put_docs ds (map snd A @ [d])) (map snd B)) = mset (put_docs (put_docs (put_doc d ds) (map snd A)) (map snd B))"
    by (intro put_docs_mset put_docs_move) (use assms(3) AB in auto)
  ultimately show ?thesis by (simp add: AB)
qed


subsection \<open>What is logged and what is stored\<close>

definition doc_line :: "doc_codec \<Rightarrow> sdoc \<Rightarrow> byte list" where "doc_line C d = the (doc_record C d)"

definition encodable :: "doc_codec \<Rightarrow> sdoc \<Rightarrow> bool" where "encodable C d \<longleftrightarrow> doc_record C d \<noteq> None"

definition logged_docs :: "node_event list \<Rightarrow> sdoc list" where "logged_docs evs = List.map_filter logged_doc evs"

lemma logged_docs_simps [simp]:
  "logged_docs [] = []" "logged_docs (LogDoc r d # evs) = d # logged_docs evs" "logged_docs (StoreDoc r # evs) = logged_docs evs"
  by (simp_all add: logged_docs_def List.map_filter_simps logged_doc_def)

text \<open>
  The node after some events: its log holds the lines of the logged documents, its index came from storing some of them, and storing those under
  way as well gives the documents that the log gives.
\<close>

definition node_ok :: "unicode \<Rightarrow> doc_codec \<Rightarrow> sdoc list \<Rightarrow> sdoc list \<Rightarrow> search_node \<Rightarrow> bool" where
  "node_ok U C docs stored n \<longleftrightarrow>
     nd_wal n = lines_file (map (doc_line C) docs) \<and> nd_index n = foldl (Upsert U) NewIndex stored \<and> set stored \<subseteq> set docs \<and>
     set (map snd (nd_pending n)) \<subseteq> set docs \<and>
     distinct (map fst (nd_pending n)) \<and> distinct (map (sd_ID \<circ> snd) (nd_pending n)) \<and>
     mset (put_docs (put_docs [] stored) (map snd (nd_pending n))) = mset (put_docs [] docs)"

lemma node_step_ok:
  assumes ok: "node_ok U C docs stored n" and sep: "separate U C n [ev]" and enc: "\<forall>d \<in> set (logged_docs [ev]). encodable C d"
  shows "\<exists>stored'. node_ok U C (docs @ logged_docs [ev]) stored' (node_step U C n ev)"
proof (cases ev)
  case (LogDoc r d)
  then have line: "doc_record C d = Some (doc_line C d)" using enc by (auto simp: encodable_def doc_line_def)
  have step: "node_step U C n (LogDoc r d) = n\<lparr>nd_wal := nd_wal n @ doc_line C d @ [newline], nd_pending := nd_pending n @ [(r, d)]\<rparr>"
    by (simp add: node_step_def node_log_def wal_Append_def line)
  have "mset (put_doc d (put_docs (put_docs [] stored) (map snd (nd_pending n)))) = mset (put_doc d (put_docs [] docs))"
    using ok by (intro put_doc_mset) (simp add: node_ok_def)
  then have "node_ok U C (docs @ [d]) stored (node_step U C n (LogDoc r d))"
    using ok sep by (auto simp: node_ok_def step LogDoc)
  then show ?thesis by (auto simp: LogDoc)
next
  case (StoreDoc r)
  show ?thesis
  proof (cases "map_of (nd_pending n) r")
    case None
    then have "node_step U C n ev = n" by (simp add: StoreDoc node_step_def node_store_def)
    then show ?thesis using ok StoreDoc by auto
  next
    case (Some d)
    then have step: "node_step U C n (StoreDoc r) = n\<lparr>nd_index := Upsert U (nd_index n) d, nd_pending := AList.delete r (nd_pending n)\<rparr>"
      by (simp add: node_step_def node_store_def)
    have d: "d \<in> set docs" using ok map_of_SomeD [OF Some] by (force simp: node_ok_def)
    have sub: "set (AList.delete r (nd_pending n)) \<subseteq> set (nd_pending n)" by (auto simp: AList.delete_eq)
    have "mset (put_docs (put_docs [] stored) (map snd (nd_pending n))) =
        mset (put_docs (put_doc d (put_docs [] stored)) (map snd (AList.delete r (nd_pending n))))"
      using ok by (intro put_docs_pending [OF Some]) (simp_all add: node_ok_def)
    then have "node_ok U C docs (stored @ [d]) (node_step U C n (StoreDoc r))"
      using ok d sub by (auto simp: node_ok_def step AList.delete_eq distinct_map_filter)
    then show ?thesis by (auto simp: StoreDoc)
  qed
qed

lemma node_steps_ok:
  assumes "node_ok U C docs stored n" and "separate U C n evs" and "\<forall>d \<in> set (logged_docs evs). encodable C d"
  shows "\<exists>stored'. node_ok U C (docs @ logged_docs evs) stored' (foldl (node_step U C) n evs)"
  using assms
proof (induction evs arbitrary: docs stored n)
  case (Cons ev evs)
  have split: "logged_docs (ev # evs) = logged_docs [ev] @ logged_docs evs" by (cases ev) simp_all
  have "separate U C n [ev]" "\<forall>d \<in> set (logged_docs [ev]). encodable C d" using Cons.prems(2,3) split by auto
  from node_step_ok [OF Cons.prems(1) this] obtain stored'
    where "node_ok U C (docs @ logged_docs [ev]) stored' (node_step U C n ev)" by blast
  from Cons.IH [OF this] Cons.prems(2,3) split show ?case by auto
qed auto

lemma new_node_ok: "node_ok U C [] [] new_node"
  by (simp add: node_ok_def new_node_def)

lemma replay_lines:
  assumes law: "doc_law C" and "\<forall>d \<in> set docs. encodable C d"
  shows "\<forall>l \<in> set (map (doc_line C) docs). line_ok l"
    and "foldr_err (replay_document U C) i (map (doc_line C) docs) = Inr (foldl (Upsert U) i docs)"
proof -
  have line: "line_ok (doc_line C d) \<and> replay_document U C i (doc_line C d) = Inr (Upsert U i d)" if "d \<in> set docs" for d i
  proof -
    obtain payload where p: "dc_doc C d = Some payload" using law unfolding doc_law_def by (metis option.exhaust)
    have "dc_rec C d (ChecksumIEEE payload) = Some (doc_line C d)"
      using assms(2) that p by (auto simp: encodable_def doc_line_def doc_record_def)
    then show ?thesis using law p by (auto simp: doc_law_def replay_document_def)
  qed
  then show "\<forall>l \<in> set (map (doc_line C) docs). line_ok l" by simp
  show "foldr_err (replay_document U C) i (map (doc_line C) docs) = Inr (foldl (Upsert U) i docs)"
    using line by (induction docs arbitrary: i) simp_all
qed

lemma replay_short:
  assumes law: "doc_law C" and "\<forall>d \<in> set docs. encodable C d \<and> short maxWALLine (doc_line C d)"
  shows "start_node U C (lines_file (map (doc_line C) docs)) =
    Inr \<lparr>nd_wal = lines_file (map (doc_line C) docs), nd_index = foldl (Upsert U) NewIndex docs, nd_pending = []\<rparr>"
  using replay_lines(1) [OF law, of docs] replay_lines(2) [OF law, of docs U NewIndex] assms(2)
    scan_loop_file [of "map (doc_line C) docs" maxWALLine "replay_document U C" ErrDocTooLong NewIndex]
  by (simp add: start_node_def wal_Replay_def)

text \<open>
  C6: a search node that is started again when no request is under way answers every query as before: however logging and storing of requests
  interleaved, the log leads to an index with the same documents. That holds as long as every append to the log succeeded, no two requests for the
  same document overlapped, every document can be encoded to a line of less than 16 MiB and has less than \<open>2 ^ 32\<close> terms, and there are at most
  \<open>2 ^ 31\<close> ids; \<open>overlapping_requests_diverge\<close> and \<open>long_document_blocks_start\<close> show the first two limits, which the code does not keep.
\<close>

theorem restart_answers_alike:
  assumes law: "doc_law C" and n: "n = foldl (node_step U C) new_node evs" "separate U C new_node evs" "nd_pending n = []"
    and docs: "\<forall>d \<in> set (logged_docs evs). encodable C d \<and> short maxWALLine (doc_line C d) \<and> doc_length U d < 2 ^ 32"
    and few: "card (sd_ID ` set (logged_docs evs)) \<le> 2 ^ 31" and "log_law lg"
  shows "\<exists>n'. start_node U C (nd_wal n) = Inr n' \<and> node_handleSearch U lg n' q limit = node_handleSearch U lg n q limit"
proof -
  let ?docs = "logged_docs evs"
  obtain stored where ok: "node_ok U C ?docs stored n"
    using node_steps_ok [OF new_node_ok n(2)] docs by (auto simp: n(1))
  let ?i = "foldl (Upsert U) NewIndex ?docs" and ?s = "foldl (Upsert U) NewIndex stored"
  have wal: "nd_wal n = lines_file (map (doc_line C) ?docs)" "nd_index n = ?s" "set stored \<subseteq> set ?docs"
    and m: "mset (put_docs [] stored) = mset (put_docs [] ?docs)" using ok n(3) by (simp_all add: node_ok_def)
  have "card (sd_ID ` set stored) \<le> 2 ^ 31" using card_mono [of "sd_ID ` set ?docs" "sd_ID ` set stored"] wal(3) few by fastforce
  then have i: "index_ok U ?s" "live_docs ?s = put_docs [] stored" "index_ok U ?i" "live_docs ?i = put_docs [] ?docs"
    using upserts_ok [of stored U] upserts_ok [of ?docs U] docs few wal(3) by auto
  have "Search U lg ?i q (search_limit limit) = Search U lg ?s q (search_limit limit)"
    by (rule search_ignores_history [OF i(3,1) _ assms(7)]) (simp add: i(2,4) m)
  then show ?thesis using replay_short [OF law, of ?docs U] docs wal by (simp add: node_handleSearch_def)
qed

text \<open>
  two overlapping requests for one document can be logged in one order and stored in the other: both are acknowledged, the running node
  holds the first, and after a restart it holds the second.
\<close>

theorem overlapping_requests_diverge:
  assumes law: "doc_law C" and "a \<noteq> b" "sd_ID a = sd_ID b" and "n = foldl (node_step U C) new_node [LogDoc 1 a, LogDoc 2 b, StoreDoc 2, StoreDoc 1]"
    and docs: "\<forall>d \<in> {a, b}. encodable C d \<and> short maxWALLine (doc_line C d) \<and> doc_length U d < 2 ^ 32"
  shows "live_docs (nd_index n) = [a] \<and> (\<exists>n'. start_node U C (nd_wal n) = Inr n' \<and> live_docs (nd_index n') = [b])"
proof -
  have line: "doc_record C d = Some (doc_line C d)" if "d \<in> {a, b}" for d using docs that by (auto simp: encodable_def doc_line_def)
  have n: "nd_index n = foldl (Upsert U) NewIndex [b, a]" "nd_wal n = lines_file (map (doc_line C) [a, b])"
    by (simp_all add: assms(4) node_step_def node_log_def node_store_def wal_Append_def new_node_def line)
  have "live_docs (foldl (Upsert U) NewIndex [x, y]) = [y]" if "{x, y} = {a, b}" for x y
    using upserts_ok [of "[x, y]" U] docs that assms(2,3) by (auto simp: put_doc_def card_insert_if doubleton_eq_iff)
  then show ?thesis using replay_short [OF law, of "[a, b]" U] docs by (simp add: n insert_commute)
qed

text \<open>
  a document whose line in the log is 16 MiB or longer is acknowledged, and from then on the node cannot be started.
\<close>

theorem long_document_blocks_start:
  assumes law: "doc_law C" and n: "n = foldl (node_step U C) new_node evs" "separate U C new_node evs"
    and docs: "\<forall>d \<in> set (logged_docs evs). encodable C d" and d: "encodable C d" "\<not> blank (sd_ID d)" "\<not> short maxWALLine (doc_line C d)"
    and req: "node_handleDocument U C DocSynced n r (Some d) = (n', response)" and short: "\<forall>d \<in> set (logged_docs evs). short maxWALLine (doc_line C d)"
  shows "response = DocCreated (sd_ID d) \<and> start_node U C (nd_wal n') = Inl ErrDocTooLong"
proof -
  let ?docs = "logged_docs evs @ [d]"
  obtain stored where "node_ok U C (logged_docs evs) stored n" using node_steps_ok [OF new_node_ok n(2) docs] by (auto simp: n(1))
  then have wal: "nd_wal n = lines_file (map (doc_line C) (logged_docs evs))" by (simp add: node_ok_def)
  have line: "doc_record C d = Some (doc_line C d)" using d(1) by (auto simp: encodable_def doc_line_def)
  have store: "nd_wal (node_store U n r) = nd_wal n" for n r by (simp add: node_store_def split: option.split)
  have res: "response = DocCreated (sd_ID d)" "nd_wal n' = lines_file (map (doc_line C) ?docs)"
    using req d(2) by (auto simp: node_handleDocument_def node_log_def wal_Append_def line store wal)
  have "takeWhile (\<lambda>l. short maxWALLine l) (map (doc_line C) ?docs) = map (doc_line C) (logged_docs evs)"
    using short d(3) by (simp add: takeWhile_append)
  then have "foldr_err (replay_document U C) NewIndex (takeWhile (short maxWALLine) (map (doc_line C) ?docs)) = Inr (foldl (Upsert U) NewIndex (logged_docs evs))"
    using replay_lines(2) [OF law docs] by simp
  moreover have "\<forall>l \<in> set (map (doc_line C) ?docs). line_ok l" using replay_lines(1) [OF law, of ?docs] docs d(1) by auto
  ultimately have "scan_loop maxWALLine (replay_document U C) ErrDocTooLong (lines_file (map (doc_line C) ?docs)) NewIndex = Inl ErrDocTooLong"
    using d(3) by (intro scan_loop_long) auto
  then show ?thesis by (simp add: res start_node_def wal_Replay_def)
qed


text \<open>
  A crash in the middle of a write leaves a piece of a line that does not decode, and the node cannot be started.
\<close>

theorem torn_document_blocks_start:
  assumes law: "doc_law C" and docs: "\<forall>d \<in> set docs. encodable C d \<and> short maxWALLine (doc_line C d)"
    and torn: "wal_Append C (DocTorn k) (lines_file (map (doc_line C) docs)) d = (wal, ok)" "encodable C d" "0 < k" "k < length (doc_line C d)" "k < maxWALLine"
      "dc_unrec C (dropCR (take k (doc_line C d))) = None"
  shows "start_node U C wal = Inl ErrDecodeDoc"
proof -
  let ?ls = "map (doc_line C) docs" and ?torn = "take k (doc_line C d)"
  have line: "doc_record C d = Some (doc_line C d)" using torn(2) by (auto simp: encodable_def doc_line_def)
  have wal: "wal = lines_file ?ls @ ?torn" using torn(1,4) by (simp add: wal_Append_def line)
  have "newline \<notin> set (doc_line C d)" using replay_lines(1) [OF law, of "[d]"] torn(2) by (simp add: line_ok_def)
  then have t: "newline \<notin> set ?torn" "?torn \<noteq> []" "short maxWALLine ?torn" using torn(3,4,5) by (auto simp: short_def dest: in_set_takeD)
  have "scan_lines maxWALLine wal = (?ls @ [dropCR ?torn], True)"
    using scan_file [of ?ls maxWALLine ?torn] replay_lines(1) [OF law, of docs] docs scan_torn [OF t] by (simp add: wal)
  then show ?thesis
    using replay_lines(2) [OF law, of docs U NewIndex] docs torn(6)
    by (simp add: start_node_def wal_Replay_def scan_loop_def foldr_err_append replay_document_def)
qed

subsection \<open>Concrete nodes\<close>

definition long_doc :: sdoc where "long_doc = sample_doc [3] []"

definition small_doc_codec :: doc_codec where
  "small_doc_codec =
     \<lparr>dc_doc = (\<lambda>_. Some [65]),
      dc_rec = (\<lambda>d s. if s \<noteq> ChecksumIEEE [65] then None else if d = sample_doc [1] [] then Some [65] else if d = sample_doc [1] [99, 99] then Some [66]
        else if d = long_doc then Some (replicate maxWALLine 67) else None),
      dc_unrec = (\<lambda>line. if line = [65] then Some (sample_doc [1] [], ChecksumIEEE [65]) else if line = [66] then Some (sample_doc [1] [99, 99], ChecksumIEEE [65])
        else if line = replicate maxWALLine 67 then Some (long_doc, ChecksumIEEE [65]) else None)\<rparr>"

lemma long_line: "replicate maxWALLine (67 :: byte) \<noteq> xs" if "length xs < 2"
proof
  assume "replicate maxWALLine (67 :: byte) = xs"
  then have "maxWALLine = length xs" by (metis length_replicate)
  with that show False by (simp add: maxWALLine_def)
qed

lemma small_doc_law: "doc_law small_doc_codec"
  using long_line [of "[65]"] long_line [of "[66]"] long_line [of "[]"] by (auto simp: doc_law_def small_doc_codec_def line_ok_def newline_def sample_doc_def)

lemma small_doc_lines:
  "doc_record small_doc_codec (sample_doc [1] []) = Some [65]" "doc_record small_doc_codec (sample_doc [1] [99, 99]) = Some [66]"
  "doc_record small_doc_codec long_doc = Some (replicate maxWALLine 67)"
  by (simp_all add: doc_record_def small_doc_codec_def sample_doc_def long_doc_def)

lemma small_doc_facts:
  "d \<in> {sample_doc [1] [], sample_doc [1] [99, 99]} \<Longrightarrow> encodable small_doc_codec d \<and> short maxWALLine (doc_line small_doc_codec d) \<and> doc_length ascii d < 2 ^ 32"
proof -
  have "doc_length ascii (sample_doc x t) < 2 ^ 32" if "t = [] \<or> t = [99, 99]" for x t
    using that by (auto simp: doc_length_def frequencies_def tokenize_def sample_doc_def ascii_def Let_def)
  then show "d \<in> {sample_doc [1] [], sample_doc [1] [99, 99]} \<Longrightarrow> encodable small_doc_codec d \<and> short maxWALLine (doc_line small_doc_codec d) \<and> doc_length ascii d < 2 ^ 32"
    using small_doc_lines by (auto simp: encodable_def doc_line_def short_def maxWALLine_def)
qed

definition one_request :: "node_event list" where "one_request = [LogDoc 1 (sample_doc [1] []), StoreDoc 1]"

lemma one_request_facts:
  "separate ascii small_doc_codec new_node one_request" "nd_pending (foldl (node_step ascii small_doc_codec) new_node one_request) = []"
  "logged_docs one_request = [sample_doc [1] []]"
  using small_doc_lines(1)
  by (simp_all add: one_request_def new_node_def node_step_def node_log_def wal_Append_def node_store_def)

theorem restart_answers_alike_witness:
  "\<exists>n'. start_node ascii small_doc_codec (nd_wal (foldl (node_step ascii small_doc_codec) new_node one_request)) = Inr n' \<and>
     node_handleSearch ascii (\<lambda>x. x - 1) n' [97, 98] 5 = node_handleSearch ascii (\<lambda>x. x - 1) (foldl (node_step ascii small_doc_codec) new_node one_request) [97, 98] 5"
  by (rule restart_answers_alike [OF small_doc_law refl one_request_facts(1,2) _ _ log_law_linear])
    (use small_doc_facts in \<open>simp_all add: one_request_facts(3)\<close>)

theorem overlapping_requests_diverge_witness:
  "live_docs (nd_index (foldl (node_step ascii small_doc_codec) new_node
     [LogDoc 1 (sample_doc [1] []), LogDoc 2 (sample_doc [1] [99, 99]), StoreDoc 2, StoreDoc 1])) = [sample_doc [1] []]"
  using overlapping_requests_diverge [OF small_doc_law _ _ refl, of "sample_doc [1] []" "sample_doc [1] [99, 99]" ascii] small_doc_facts
  by (simp add: sample_doc_def)

theorem long_document_blocks_start_witness:
  "start_node ascii small_doc_codec (nd_wal (fst (node_handleDocument ascii small_doc_codec DocSynced new_node 1 (Some long_doc)))) = Inl ErrDocTooLong"
proof -
  obtain n' response where req: "node_handleDocument ascii small_doc_codec DocSynced new_node 1 (Some long_doc) = (n', response)" by fastforce
  have "encodable small_doc_codec long_doc" "\<not> short maxWALLine (doc_line small_doc_codec long_doc)"
    using small_doc_lines(3) by (simp_all add: encodable_def doc_line_def short_def)
  moreover have "\<not> blank (sd_ID long_doc)" by (simp add: long_doc_def sample_doc_def blank_def TrimSpace_def is_space_def)
  ultimately have "start_node ascii small_doc_codec (nd_wal n') = Inl ErrDocTooLong"
    using long_document_blocks_start [OF small_doc_law _ _ _ _ _ _ req, of "[]"] by simp
  with req show ?thesis by (simp only: fst_conv)
qed

end
