(* ===== verification/SearchShard.thy ===== *)
theory SearchShard
  imports SearchNode
begin

text \<open>
  The coordinator of \<^verbatim>\<open>internal/search/http.go\<close>: which shard holds a document, when a write is acknowledged, how the answers of
  the shards are merged, and how a shard is searched with hedged requests. Replies, timers and deadlines are events; \<^verbatim>\<open>sort.Slice\<close>,
  which leaves the order of equal elements open, is the argument \<open>S\<close>.
\<close>

subsection \<open>Shards\<close>

record replicaSet =
  sh_Name :: str
  sh_Replicas :: "str list"

definition shard_score :: "str \<Rightarrow> replicaSet \<Rightarrow> uint64" where
  "shard_score k shard = fnv64a (bytes_of (k @ [0] @ sh_Name shard))"

definition shard_step :: "str \<Rightarrow> uint64 \<times> replicaSet \<Rightarrow> replicaSet \<Rightarrow> uint64 \<times> replicaSet" where
  "shard_step k best_selected shard =
     (case best_selected of (best, selected) \<Rightarrow> if shard_score k shard \<ge> best then (shard_score k shard, shard) else (best, selected))"

definition ShardFor :: "replicaSet list \<Rightarrow> str \<Rightarrow> replicaSet option" where
  "ShardFor shards k = (if shards = [] then None else Some (snd (foldl (shard_step k) (0, hd shards) shards)))"

subsection \<open>Writes\<close>

definition write_quorum :: "replicaSet \<Rightarrow> nat" where "write_quorum shard = length (sh_Replicas shard) div 2 + 1"

definition choose_shard :: "replicaSet list \<Rightarrow> sdoc option \<Rightarrow> (nat, replicaSet) result" where
  "choose_shard shards body =
     (case body of
        None \<Rightarrow> Inl 400
      | Some doc \<Rightarrow> if sd_ID doc = [] then Inl 400 else (case ShardFor shards (sd_ID doc) of None \<Rightarrow> Inl 503 | Some shard \<Rightarrow> Inr shard))"

definition acknowledge :: "replicaSet \<Rightarrow> bool list \<Rightarrow> (nat, nat) result" where
  "acknowledge shard outcomes =
     (let successes = length (filter id outcomes) in if successes < write_quorum shard then Inl 503 else Inr successes)"

text \<open>The response, a status or the shard and the number of acknowledgements, by what the replicas of the shard answered.\<close>

definition coordinator_handleDocument :: "replicaSet list \<Rightarrow> sdoc option \<Rightarrow> (replicaSet \<Rightarrow> bool list) \<Rightarrow> (nat, replicaSet \<times> nat) result" where
  "coordinator_handleDocument shards body outcomes =
     rbind (choose_shard shards body) (\<lambda>shard. rbind (acknowledge shard (outcomes shard)) (\<lambda>n. Inr (shard, n)))"

subsection \<open>Merging\<close>

definition merge_responses :: "(search_result list \<Rightarrow> search_result list) \<Rightarrow> int \<Rightarrow> search_result list option list \<Rightarrow> (search_result list \<times> nat) option" where
  "merge_responses S limit responses =
     (let every = concat (map the (filter (\<lambda>r. r \<noteq> None) responses)); failed = length (filter (\<lambda>r. r = None) responses) in
      if failed = length responses then None
      else let every = S every in Some (if int (length every) > limit then take (nat limit) every else every, failed))"

text \<open>What \<^verbatim>\<open>sort.Slice\<close> promises for the order of descending scores.\<close>

definition score_sort :: "(search_result list \<Rightarrow> search_result list) \<Rightarrow> bool" where
  "score_sort S \<longleftrightarrow> (\<forall>rs. mset (S rs) = mset rs \<and> sorted_wrt (\<lambda>a b. r_Score a \<ge> r_Score b) (S rs))"

subsection \<open>Hedged requests\<close>

record hedge =
  hg_requests :: "str list"
  hg_next :: nat
  hg_pending :: nat
  hg_timer :: bool
  hg_lastErr :: "str option"
  hg_result :: "(str, search_result list) result option"

definition hedge_launch :: "replicaSet \<Rightarrow> hedge \<Rightarrow> hedge" where
  "hedge_launch shard h =
     h\<lparr>hg_requests := hg_requests h @ [sh_Replicas shard ! hg_next h], hg_next := hg_next h + 1, hg_pending := hg_pending h + 1\<rparr>"

definition hedge_schedule :: "replicaSet \<Rightarrow> int \<Rightarrow> hedge \<Rightarrow> hedge" where
  "hedge_schedule shard delay h = h\<lparr>hg_timer := delay \<ge> 0 \<and> hg_next h < length (sh_Replicas shard)\<rparr>"

definition hedge_begin :: "replicaSet \<Rightarrow> int \<Rightarrow> hedge" where
  "hedge_begin shard delay =
     (let h = \<lparr>hg_requests = [], hg_next = 0, hg_pending = 0, hg_timer = False, hg_lastErr = None, hg_result = None\<rparr> in
      if sh_Replicas shard = [] then h\<lparr>hg_result := Some (Inl (sh_Name shard))\<rparr> else hedge_schedule shard delay (hedge_launch shard h))"

datatype hedge_event = Replied "(str, search_result list) result" | HedgeDue | ContextDone str

definition hedge_step :: "replicaSet \<Rightarrow> int \<Rightarrow> hedge \<Rightarrow> hedge_event \<Rightarrow> hedge" where
  "hedge_step shard delay h ev =
     (case ev of
        Replied (Inr results) \<Rightarrow> h\<lparr>hg_pending := hg_pending h - 1, hg_result := Some (Inr results)\<rparr>
      | Replied (Inl err) \<Rightarrow>
          let h = h\<lparr>hg_pending := hg_pending h - 1, hg_lastErr := Some err\<rparr>;
              h = (if hg_next h < length (sh_Replicas shard) then hedge_schedule shard delay (hedge_launch shard h) else h)
          in if hg_pending h > 0 then h else h\<lparr>hg_result := Some (Inl err)\<rparr>
      | HedgeDue \<Rightarrow> hedge_schedule shard delay (hedge_launch shard h)
      | ContextDone err \<Rightarrow> h\<lparr>hg_result := Some (Inl (case hg_lastErr h of None \<Rightarrow> err | Some e \<Rightarrow> e))\<rparr>)"

text \<open>The channels that \<^verbatim>\<open>select\<close> can receive from.\<close>

definition hedge_enabled :: "hedge \<Rightarrow> hedge_event \<Rightarrow> bool" where
  "hedge_enabled h ev \<longleftrightarrow> hg_result h = None \<and> (case ev of Replied _ \<Rightarrow> hg_pending h > 0 | HedgeDue \<Rightarrow> hg_timer h | ContextDone _ \<Rightarrow> True)"

inductive searchShard :: "replicaSet \<Rightarrow> int \<Rightarrow> hedge_event list \<Rightarrow> hedge \<Rightarrow> bool" for shard delay where
  started: "searchShard shard delay [] (hedge_begin shard delay)"
| received: "searchShard shard delay evs h \<Longrightarrow> hedge_enabled h ev \<Longrightarrow> searchShard shard delay (evs @ [ev]) (hedge_step shard delay h ev)"

definition coordinator_delay :: "int \<Rightarrow> int" where "coordinator_delay d = (if d = 0 then 50000000 else d)"

subsection \<open>Keys move to a new shard only\<close>

lemma shard_step_cases: "shard_step k acc s = acc \<or> shard_step k acc s = (shard_score k s, s)"
  by (cases acc) (simp add: shard_step_def)

lemma larger_best:
  assumes "fst acc \<le> fst acc'"
  shows "foldl (shard_step k) acc' ys = acc' \<or> foldl (shard_step k) acc' ys = foldl (shard_step k) acc ys"
  using assms
proof (induction ys arbitrary: acc)
  case (Cons y ys)
  obtain b s b' s' where acc: "acc = (b, s)" "acc' = (b', s')" by fastforce
  show ?case
  proof (cases "shard_score k y \<ge> b'")
    case True
    then have "shard_step k acc' y = shard_step k acc y" using order_trans [of b b'] Cons.prems by (simp add: acc shard_step_def)
    then show ?thesis by simp
  next
    case False
    then have "shard_step k acc' y = acc'" "fst (shard_step k acc y) \<le> fst acc'" using Cons.prems by (auto simp: acc shard_step_def)
    then show ?thesis using Cons.IH [of "shard_step k acc y"] by simp
  qed
qed simp

text \<open>
  adding a shard moves no key from one old shard to another, and removing one moves only the keys it held: a key is either on the new shard or
  where it was without it.
\<close>

theorem keys_move_to_new_shard_only:
  assumes "xs @ ys \<noteq> []"
  shows "ShardFor (xs @ new # ys) k = Some new \<or> ShardFor (xs @ new # ys) k = ShardFor (xs @ ys) k"
proof -
  have start: "shard_step k (0, s) x = (shard_score k x, x)" for s x by (simp add: shard_step_def)
  have first: "foldl (shard_step k) (0, s) zs = foldl (shard_step k) (0, s') zs" if "zs \<noteq> []" for s s' zs
    using that by (cases zs) (simp_all add: start)
  define acc where "acc = foldl (shard_step k) (0, hd (xs @ ys)) xs"
  have old: "ShardFor (xs @ ys) k = Some (snd (foldl (shard_step k) acc ys))" using assms by (simp add: ShardFor_def acc_def)
  have full: "ShardFor (xs @ new # ys) k = Some (snd (foldl (shard_step k) (shard_step k acc new) ys))"
    using first [of "xs @ new # ys" "hd (xs @ new # ys)" "hd (xs @ ys)"] by (simp add: ShardFor_def acc_def)
  show ?thesis
  proof (cases "shard_step k acc new = acc")
    case True
    then show ?thesis using old full by simp
  next
    case False
    then have new: "shard_step k acc new = (shard_score k new, new)" using shard_step_cases by blast
    then have "fst acc \<le> fst (shard_step k acc new)" using False by (cases acc) (auto simp: shard_step_def split: if_splits)
    from larger_best [OF this, of k ys] show ?thesis using old full new by auto
  qed
qed

theorem keys_move_to_new_shard_only_witness:
  "ShardFor [\<lparr>sh_Name = [97], sh_Replicas = []\<rparr>, \<lparr>sh_Name = [98], sh_Replicas = []\<rparr>] [107] \<in>
     {Some \<lparr>sh_Name = [98], sh_Replicas = []\<rparr>, ShardFor [\<lparr>sh_Name = [97], sh_Replicas = []\<rparr>] [107]}"
  using keys_move_to_new_shard_only [of "[\<lparr>sh_Name = [97], sh_Replicas = []\<rparr>]" "[]" "\<lparr>sh_Name = [98], sh_Replicas = []\<rparr>" "[107]"] by simp


subsection \<open>Merging loses nothing\<close>

lemma take_insort:
  fixes xs :: "'a :: linorder list"
  shows "sorted xs \<Longrightarrow> take k (insort x (take k xs)) = take k (insort x xs)"
proof (induction xs arbitrary: k)
  case (Cons y xs)
  then show ?case by (cases k) (auto simp: take_Cons')
qed simp

lemma sorted_foldr_insort: "sorted s \<Longrightarrow> sorted (foldr insort b s)"
  by (induction b) (simp_all add: sorted_insort)

lemma take_foldr_insort:
  fixes s :: "'a :: linorder list"
  assumes "sorted s"
  shows "take k (foldr insort b s) = take k (foldr insort b (take k s))"
proof (induction b)
  case (Cons x b)
  have s: "sorted (foldr insort b s)" "sorted (foldr insort b (take k s))"
    using assms sorted_foldr_insort sorted_wrt_take by blast+
  have "take k (insort x (foldr insort b s)) = take k (insort x (take k (foldr insort b s)))" using take_insort [OF s(1)] by metis
  also have "\<dots> = take k (insort x (foldr insort b (take k s)))" using take_insort [OF s(2)] Cons by metis
  finally show ?case by simp
qed simp

definition least :: "nat \<Rightarrow> 'a :: linorder list \<Rightarrow> 'a list" where "least k xs = take k (sort xs)"

lemma least_append: "least k (b @ a) = least k (b @ least k a)"
proof -
  have sort: "sort (b @ a) = foldr insort b (sort a)" for b a :: "'a list" by (simp add: sort_key_def)
  have "sort (least k a) = least k a" by (simp add: least_def sorted_sort_id sorted_wrt_take)
  then show ?thesis using take_foldr_insort [OF sorted_sort [of a], of k b] by (simp add: least_def sort)
qed

lemma least_mset: "mset xs = mset ys \<Longrightarrow> least k xs = least k ys"
  unfolding least_def by (metis properties_for_sort sorted_sort mset_sort)

lemma least_append_left: "least k (a @ b) = least k (least k a @ b)"
proof -
  have "least k (a @ b) = least k (b @ a)" "least k (b @ least k a) = least k (least k a @ b)" by (rule least_mset, simp)+
  then show ?thesis using least_append [of k b a] by simp
qed

lemma least_concat: "least k (concat (map (least k) xss)) = least k (concat xss)"
proof (induction xss)
  case (Cons xs xss)
  have "least k (least k xs @ concat (map (least k) xss)) = least k (least k xs @ concat xss)"
    using Cons least_append [of k "least k xs"] by metis
  then show ?case using least_append_left [of k xs "concat xss"] by simp
qed simp

lemma score_sort_least:
  assumes "score_sort S"
  shows "map (\<lambda>r. - r_Score r) (take k (S rs)) = least k (map (\<lambda>r. - r_Score r) rs)"
proof -
  have "mset (S rs) = mset rs" "sorted_wrt (\<lambda>a b. r_Score a \<ge> r_Score b) (S rs)" using assms by (simp_all add: score_sort_def)
  then have "mset (map (\<lambda>r. - r_Score r) (S rs)) = mset (map (\<lambda>r. - r_Score r) rs)" "sorted (map (\<lambda>r. - r_Score r) (S rs))"
    by (simp_all add: sorted_map)
  then have "sort (map (\<lambda>r. - r_Score r) rs) = map (\<lambda>r. - r_Score r) (S rs)" by (intro properties_for_sort)
  then show ?thesis by (simp add: least_def take_map)
qed

lemma spec_search_least:
  "map (\<lambda>r. - r_Score r) (spec_search U lg ds q limit) = least (nat limit) (map (\<lambda>r. - r_Score r) (spec_search U lg ds q (int (length ds))))"
proof -
  let ?ts = "query_terms U q"
  let ?found = "filter (\<lambda>d. \<exists>t \<in> set ?ts. tf_of U d t \<noteq> None) ds"
  let ?ranked = "rev (sort_key (spec_standing U lg ds ?ts) ?found)"
  let ?score = "\<lambda>d. - spec_score U lg ds ?ts d"
  have "sorted_wrt (\<lambda>a b. spec_standing U lg ds ?ts b \<le> spec_standing U lg ds ?ts a) ?ranked"
    using sorted_sort_key [of "spec_standing U lg ds ?ts" ?found] by (simp add: sorted_wrt_rev sorted_map)
  then have "sorted_wrt (\<lambda>a b. ?score a \<le> ?score b) ?ranked"
    by (rule sorted_wrt_mono_rel [rotated]) (auto simp: spec_standing_def less_eq_standing_def less_standing_def)
  then have sorted: "sorted (map ?score ?ranked)" by (simp add: sorted_map)
  define R where "R = ?ranked"
  have spec: "spec_search U lg ds q n = map (\<lambda>d. \<lparr>r_ID = sd_ID d, r_Title = sd_Title d, r_Score = spec_score U lg ds ?ts d\<rparr>) (take (nat n) R)" for n
    by (simp add: spec_search_def Let_def R_def)
  have "length R \<le> length ds" by (simp add: R_def)
  moreover have "sort (map ?score R) = map ?score R" unfolding R_def by (rule sorted_sort_id [OF sorted])
  ultimately show ?thesis by (simp add: spec least_def comp_def take_map)
qed

definition hits_of :: "unicode \<Rightarrow> (real \<Rightarrow> real) \<Rightarrow> str \<Rightarrow> index option \<Rightarrow> search_result list" where
  "hits_of U lg q shard = (case shard of None \<Rightarrow> [] | Some i \<Rightarrow> spec_search U lg (live_docs i) q (int (length (live_docs i))))"

text \<open>
  C7: every shard sends only its best hits, yet the merged answer has the scores of the best hits of all documents of the shards that answered, and
  says how many shards did not.
\<close>

theorem merged_answer_is_best:
  assumes "score_sort S" and "log_law lg" and "\<forall>i. Some i \<in> set shards \<longrightarrow> index_ok U i" and "0 < limit" and "\<exists>i. Some i \<in> set shards"
    and responses: "responses = map (map_option (\<lambda>i. Search U lg i q limit)) shards"
  shows "\<exists>merged. merge_responses S limit responses = Some (merged, length (filter (\<lambda>a. a = None) shards)) \<and>
    map r_Score merged = map r_Score (take (nat limit) (S (concat (map (hits_of U lg q) shards)))) \<and>
    set merged \<subseteq> set (concat (map (hits_of U lg q) shards))"
proof (intro exI conjI)
  let ?k = "nat limit" and ?neg = "map (\<lambda>r. - r_Score r)" and ?all = "concat (map (hits_of U lg q) shards)"
  define sent where "sent = (\<lambda>a. case a of None \<Rightarrow> [] | Some i \<Rightarrow> Search U lg i q limit)"
  have every: "concat (map the (filter (\<lambda>r. r \<noteq> None) responses)) = concat (map sent shards)"
    unfolding responses by (induction shards) (auto simp: sent_def split: option.splits)
  have failed: "length (filter (\<lambda>r. r = None) responses) = length (filter (\<lambda>a. a = None) shards)"
    by (simp add: responses filter_map comp_def)
  have "length (filter (\<lambda>a. a = None) shards) \<noteq> length shards" using assms(5) length_filter_less [of _ shards "\<lambda>a. a = None"] by force
  then show "merge_responses S limit responses =
      Some (take ?k (S (concat (map sent shards))), length (filter (\<lambda>a. a = None) shards))"
    unfolding merge_responses_def Let_def every failed using assms(4) by (simp add: responses)
  have exact: "Search U lg i q limit = spec_search U lg (live_docs i) q limit" if "Some i \<in> set shards" for i
    using search_exact assms(2,3) that by blast
  have "?neg (sent a) = least ?k (?neg (hits_of U lg q a))" if a: "a \<in> set shards" for a
  proof (cases a)
    case (Some i)
    then show ?thesis using exact [of i] a spec_search_least [of U lg "live_docs i" q limit] by (simp add: sent_def hits_of_def)
  qed (simp add: sent_def hits_of_def least_def)
  then have negs: "map (?neg \<circ> sent) shards = map (least ?k \<circ> (?neg \<circ> hits_of U lg q)) shards" by (intro map_cong) simp_all
  have "?neg (take ?k (S (concat (map sent shards)))) = least ?k (concat (map (?neg \<circ> sent) shards))"
    by (simp add: score_sort_least [OF assms(1)] map_concat)
  also have "\<dots> = least ?k (concat (map (least ?k) (map (?neg \<circ> hits_of U lg q) shards)))" by (simp only: negs map_map)
  also have "\<dots> = least ?k (?neg ?all)" unfolding least_concat by (simp add: map_concat)
  also have "\<dots> = ?neg (take ?k (S ?all))" by (simp add: score_sort_least [OF assms(1)])
  finally have "map uminus (?neg (take ?k (S (concat (map sent shards))))) = map uminus (?neg (take ?k (S ?all)))" by (rule arg_cong)
  then show "map r_Score (take ?k (S (concat (map sent shards)))) = map r_Score (take ?k (S ?all))" by (simp add: comp_def)
  have same: "set (S rs) = set rs" for rs using assms(1) by (metis score_sort_def set_mset_mset)
  have "set (sent a) \<subseteq> set (hits_of U lg q a)" if a: "a \<in> set shards" for a
  proof (cases a)
    case (Some i)
    then show ?thesis using exact [of i] a by (auto simp: sent_def hits_of_def spec_search_def Let_def dest: in_set_takeD)
  qed (simp add: sent_def)
  then have "set (concat (map sent shards)) \<subseteq> set ?all" unfolding set_concat set_map image_image by (rule UN_mono [OF order_refl])
  then show "set (take ?k (S (concat (map sent shards)))) \<subseteq> set ?all"
    using set_take_subset [of ?k "S (concat (map sent shards))"] same by blast
qed


definition by_score :: "search_result list \<Rightarrow> search_result list" where "by_score rs = rev (sort_key r_Score rs)"

lemma by_score: "score_sort by_score"
proof -
  have "sorted_wrt (\<lambda>x y. r_Score x \<le> r_Score y) (sort_key r_Score rs)" for rs :: "search_result list" using sorted_sort_key [of r_Score rs] by (simp add: sorted_map)
  then show ?thesis by (simp add: score_sort_def by_score_def sorted_wrt_rev)
qed

theorem merged_answer_is_best_witness:
  "\<exists>merged. merge_responses by_score 1 [None, Some (Search ascii (\<lambda>x. x - 1) sample_index [67, 67] 1)] = Some (merged, 1) \<and>
     set merged \<subseteq> set (hits_of ascii (\<lambda>x. x - 1) [67, 67] (Some sample_index))"
  using merged_answer_is_best [OF by_score log_law_linear, of "[None, Some sample_index]" ascii 1 _ "[67, 67]", OF _ _ _ refl] sample_index_ok(1)
  by (force simp: hits_of_def)

subsection \<open>Searching a shard ends\<close>

definition failures :: "hedge_event list \<Rightarrow> str list" where
  "failures evs = concat (map (\<lambda>ev. case ev of Replied (Inl err) \<Rightarrow> [err] | _ \<Rightarrow> []) evs)"

definition hedge_ok :: "replicaSet \<Rightarrow> hedge_event list \<Rightarrow> hedge \<Rightarrow> bool" where
  "hedge_ok shard evs h \<longleftrightarrow>
     (let n = length (sh_Replicas shard) in
      hg_requests h = take (hg_next h) (sh_Replicas shard) \<and> hg_next h \<le> n \<and> (hg_timer h \<longrightarrow> hg_next h < n) \<and>
      (case hg_result h of
         None \<Rightarrow> hg_pending h > 0 \<and> hg_pending h + length (failures evs) = hg_next h \<and> length evs + 2 * (n - hg_next h) + hg_pending h \<le> 2 * n - 1
       | Some (Inr results) \<Rightarrow> length evs \<le> 2 * n - 1 \<and> evs \<noteq> [] \<and> last evs = Replied (Inr results)
       | Some (Inl err) \<Rightarrow> length evs \<le> 2 * n - 1 \<and>
           (n > 0 \<longrightarrow> (\<exists>e. ContextDone e \<in> set evs) \<or> hg_next h = n \<and> length (failures evs) = n \<and> err = last (failures evs))))"

lemma hedge_begin_ok: "hedge_ok shard [] (hedge_begin shard delay)"
  by (cases "sh_Replicas shard")
    (auto simp: hedge_ok_def hedge_begin_def hedge_launch_def hedge_schedule_def Let_def failures_def)

lemma hedge_step_ok:
  assumes ok: "hedge_ok shard evs h" and en: "hedge_enabled h ev"
  shows "hedge_ok shard (evs @ [ev]) (hedge_step shard delay h ev)"
proof (cases ev)
  case (Replied outcome)
  show ?thesis
  proof (cases outcome)
    case (Inl err)
    then show ?thesis using ok en
      by (auto simp: Replied hedge_ok_def hedge_step_def hedge_enabled_def hedge_launch_def hedge_schedule_def Let_def failures_def take_Suc_conv_app_nth)
  next
    case (Inr results)
    then show ?thesis using ok en by (auto simp: Replied hedge_ok_def hedge_step_def hedge_enabled_def Let_def failures_def)
  qed
next
  case HedgeDue
  then show ?thesis using ok en
    by (auto simp: hedge_ok_def hedge_step_def hedge_enabled_def hedge_launch_def hedge_schedule_def Let_def failures_def take_Suc_conv_app_nth)
next
  case (ContextDone err)
  then show ?thesis using ok en by (auto simp: hedge_ok_def hedge_step_def hedge_enabled_def Let_def failures_def)
qed

lemma searchShard_ok: "searchShard shard delay evs h \<Longrightarrow> hedge_ok shard evs h"
  by (induction rule: searchShard.induct) (auto intro: hedge_begin_ok hedge_step_ok)

text \<open>
  C39: searching a shard ends after at most twice as many events as it has replicas, and until it ends a reply is outstanding; the replicas are
  asked one after the other, each at most once, and no index leaves their list.
\<close>

theorem searchShard_terminates:
  assumes "searchShard shard delay evs h"
  shows "length evs \<le> 2 * length (sh_Replicas shard) \<and> (hg_result h = None \<longrightarrow> hg_pending h > 0 \<and> length evs < 2 * length (sh_Replicas shard)) \<and>
    hg_requests h = take (hg_next h) (sh_Replicas shard) \<and> hg_next h \<le> length (sh_Replicas shard)"
  using searchShard_ok [OF assms] by (auto simp: hedge_ok_def Let_def split: option.splits sum.splits)

text \<open>
  an answer of a shard is the reply of one of its replicas, and if the query is not cut off an error means that every replica was asked and
  failed; the error is the last one.
\<close>

theorem searchShard_answer:
  assumes "searchShard shard delay evs h" and "sh_Replicas shard \<noteq> []"
  shows "(hg_result h = Some (Inr results) \<longrightarrow> evs \<noteq> [] \<and> last evs = Replied (Inr results)) \<and>
    (hg_result h = Some (Inl err) \<and> (\<forall>e. ContextDone e \<notin> set evs) \<longrightarrow>
      hg_requests h = sh_Replicas shard \<and> length (failures evs) = length (sh_Replicas shard) \<and> err = last (failures evs))"
  using searchShard_ok [OF assms(1)] assms(2) by (auto simp: hedge_ok_def Let_def split: option.splits sum.splits)

definition two_replicas :: replicaSet where "two_replicas = \<lparr>sh_Name = [97], sh_Replicas = [[49], [50]]\<rparr>"

lemma two_replicas_run:
  "searchShard two_replicas 50 [HedgeDue, Replied (Inl [120]), Replied (Inl [121])]
    (foldl (hedge_step two_replicas 50) (hedge_begin two_replicas 50) [HedgeDue, Replied (Inl [120]), Replied (Inl [121])])"
proof -
  note defs = hedge_enabled_def hedge_begin_def hedge_step_def hedge_launch_def hedge_schedule_def two_replicas_def Let_def
  have "searchShard two_replicas 50 ([] @ [HedgeDue]) (hedge_step two_replicas 50 (hedge_begin two_replicas 50) HedgeDue)"
    by (rule received [OF started]) (simp add: defs)
  then have "searchShard two_replicas 50 (([] @ [HedgeDue]) @ [Replied (Inl [120])])
      (hedge_step two_replicas 50 (hedge_step two_replicas 50 (hedge_begin two_replicas 50) HedgeDue) (Replied (Inl [120])))"
    by (rule received) (simp add: defs)
  then have "searchShard two_replicas 50 ((([] @ [HedgeDue]) @ [Replied (Inl [120])]) @ [Replied (Inl [121])])
      (hedge_step two_replicas 50 (hedge_step two_replicas 50 (hedge_step two_replicas 50 (hedge_begin two_replicas 50) HedgeDue) (Replied (Inl [120]))) (Replied (Inl [121])))"
    by (rule received) (simp add: defs)
  then show ?thesis by simp
qed

theorem searchShard_terminates_witness: "length [HedgeDue, Replied (Inl [120]), Replied (Inl [121])] \<le> 2 * length (sh_Replicas two_replicas)"
  using searchShard_terminates [OF two_replicas_run] by blast

theorem searchShard_answer_witness:
  "hg_requests (foldl (hedge_step two_replicas 50) (hedge_begin two_replicas 50) [HedgeDue, Replied (Inl [120]), Replied (Inl [121])]) = [[49], [50]]"
proof -
  have "hg_result (foldl (hedge_step two_replicas 50) (hedge_begin two_replicas 50) [HedgeDue, Replied (Inl [120]), Replied (Inl [121])]) = Some (Inl [121])"
    by (simp add: hedge_begin_def hedge_step_def hedge_launch_def hedge_schedule_def two_replicas_def Let_def)
  then show ?thesis using searchShard_answer [OF two_replicas_run, of _ "[121]"] by (simp add: two_replicas_def)
qed

subsection \<open>Quorums\<close>

text \<open>
  two acknowledged writes of documents with the same id were accepted by a common replica of the shard.
\<close>

theorem acknowledged_writes_overlap:
  assumes "coordinator_handleDocument shards (Some d) xs = Inr (shard, m)" and "coordinator_handleDocument shards (Some d') ys = Inr (shard', n)"
    and "sd_ID d = sd_ID d'" and "\<forall>s. length (xs s) = length (sh_Replicas s) \<and> length (ys s) = length (sh_Replicas s)"
  shows "shard' = shard \<and> (\<exists>r < length (sh_Replicas shard). xs shard ! r \<and> ys shard ! r)"
proof -
  have same: "shard' = shard" and q: "length (filter id (xs shard)) \<ge> write_quorum shard" "length (filter id (ys shard)) \<ge> write_quorum shard"
    using assms(1,2,3) by (auto simp: coordinator_handleDocument_def choose_shard_def acknowledge_def Let_def split: if_splits option.splits)
  let ?n = "length (sh_Replicas shard)"
  let ?X = "{r. r < ?n \<and> xs shard ! r}" and ?Y = "{r. r < ?n \<and> ys shard ! r}"
  have "\<exists>r < ?n. xs shard ! r \<and> ys shard ! r"
  proof (rule ccontr)
    assume "\<not> (\<exists>r < ?n. xs shard ! r \<and> ys shard ! r)"
    then have "card (?X \<union> ?Y) = card ?X + card ?Y" by (intro card_Un_disjoint) auto
    moreover have "card (?X \<union> ?Y) \<le> card {..<?n}" by (intro card_mono) auto
    moreover have "card ?X \<ge> write_quorum shard" "card ?Y \<ge> write_quorum shard" using q assms(4) by (simp_all add: length_filter_conv_card)
    ultimately show False by (simp add: write_quorum_def)
  qed
  then show ?thesis using same by simp
qed

theorem acknowledged_writes_overlap_witness:
  "\<exists>r < 1. (\<lambda>s. map (\<lambda>_. True) (sh_Replicas s)) \<lparr>sh_Name = [97], sh_Replicas = [[49]]\<rparr> ! r"
proof -
  let ?s = "\<lparr>sh_Name = [97], sh_Replicas = [[49]]\<rparr>" and ?all = "\<lambda>s. map (\<lambda>_. True) (sh_Replicas s)"
  have "coordinator_handleDocument [?s] (Some (sample_doc [1] [])) ?all = Inr (?s, 1)"
    by (simp add: coordinator_handleDocument_def choose_shard_def acknowledge_def write_quorum_def ShardFor_def shard_step_def sample_doc_def)
  from acknowledged_writes_overlap [OF this this refl] show ?thesis by simp
qed

end
