(* ===== verification/Sha256.thy ===== *)
theory Sha256
  imports GoLib
begin

unbundle bit_operations_syntax

text \<open>
  \<^verbatim>\<open>sha256.Sum256\<close> of Go's library, which the assignment of subjects to arms uses: padding to blocks of 64 bytes, the message schedule, and 64
  rounds on eight words per block.
\<close>

text \<open>The constants are the first 32 bits of the fractional parts of roots of primes: cube roots of the first 64, square roots of the first eight.\<close>

definition int_root :: "nat \<Rightarrow> int \<Rightarrow> int" where
  "int_root k n = foldl (\<lambda>r b. if (r + 2 ^ b) ^ k \<le> n then r + 2 ^ b else r) 0 (List.rev [0..<40])"

definition root_fraction :: "nat \<Rightarrow> int \<Rightarrow> uint32" where
  "root_fraction k p = word_of_int (int_root k (p * 2 ^ (32 * k)))"

definition round_primes :: "int list" where
  "round_primes = filter (\<lambda>p. \<forall>d \<in> set [2..p - 1]. p mod d \<noteq> 0) [2..311]"

definition round_constants :: "uint32 list" where
  "round_constants = map (root_fraction 3) round_primes"

definition initial_hash :: "uint32 list" where
  "initial_hash = map (root_fraction 2) [2, 3, 5, 7, 11, 13, 17, 19]"

definition rotr :: "nat \<Rightarrow> uint32 \<Rightarrow> uint32" where
  "rotr n w = drop_bit n w OR push_bit (32 - n) w"

definition big_endian :: "byte list \<Rightarrow> nat" where
  "big_endian bs = foldl (\<lambda>n b. n * 256 + unat b) 0 bs"

definition be_bytes :: "nat \<Rightarrow> nat \<Rightarrow> byte list" where
  "be_bytes k n = map (\<lambda>i. word_of_nat (n div 256 ^ (k - 1 - i))) [0..<k]"

text \<open>The padded message, and lists in pieces of a fixed length.\<close>

definition sha_pad :: "byte list \<Rightarrow> byte list" where
  "sha_pad m = m @ [0x80] @ replicate ((119 - length m mod 64) mod 64) 0 @ be_bytes 8 (8 * length m)"

definition pieces :: "nat \<Rightarrow> 'a list \<Rightarrow> 'a list list" where
  "pieces k xs = map (\<lambda>i. take k (drop (i * k) xs)) [0..<length xs div k]"

definition schedule_word :: "uint32 list \<Rightarrow> uint32" where
  "schedule_word w =
     (let n = length w; a = w ! (n - 15); b = w ! (n - 2);
          s0 = rotr 7 a XOR rotr 18 a XOR drop_bit 3 a;
          s1 = rotr 17 b XOR rotr 19 b XOR drop_bit 10 b
      in w ! (n - 16) + s0 + w ! (n - 7) + s1)"

fun schedule :: "nat \<Rightarrow> uint32 list \<Rightarrow> uint32 list" where
  "schedule 0 w = w"
| "schedule (Suc k) w = schedule k (w @ [schedule_word w])"

definition sha_round :: "uint32 list \<Rightarrow> uint32 \<times> uint32 \<Rightarrow> uint32 list" where
  "sha_round s kw =
     (case s of [a, b, c, d, e, f, g, h] \<Rightarrow>
        let s1 = rotr 6 e XOR rotr 11 e XOR rotr 25 e;
            ch = (e AND f) XOR (NOT e AND g);
            t1 = h + s1 + ch + fst kw + snd kw;
            s0 = rotr 2 a XOR rotr 13 a XOR rotr 22 a;
            maj = (a AND b) XOR (a AND c) XOR (b AND c)
        in [t1 + s0 + maj, a, b, c, d + t1, e, f, g]
      | _ \<Rightarrow> s)"

definition sha_block :: "uint32 list \<Rightarrow> byte list \<Rightarrow> uint32 list" where
  "sha_block hash block =
     (let w = schedule 48 (map (\<lambda>p. word_of_nat (big_endian p)) (pieces 4 block))
      in map2 (+) hash (foldl sha_round hash (zip round_constants w)))"

definition sha256 :: "byte list \<Rightarrow> byte list" where
  "sha256 m = concat (map (\<lambda>w. be_bytes 4 (unat w)) (foldl sha_block initial_hash (pieces 64 (sha_pad m))))"

lemma length_be_bytes [simp]: "length (be_bytes k n) = k"
  by (simp add: be_bytes_def)

lemma sha_block_length: "length hash = 8 \<Longrightarrow> length (sha_block hash block) = 8"
proof -
  assume l: "length hash = 8"
  have "length (foldl sha_round s kws) = length s" for s kws
    by (induction kws arbitrary: s) (auto simp: sha_round_def Let_def split: list.split)
  then show ?thesis using l by (simp add: sha_block_def Let_def)
qed

lemma length_sha256: "length (sha256 m) = 32"
proof -
  have "length (foldl sha_block hash bs) = 8" if "length hash = 8" for hash bs
    using that by (induction bs arbitrary: hash) (auto intro: sha_block_length)
  from this [of initial_hash] have "length (foldl sha_block initial_hash (pieces 64 (sha_pad m))) = 8"
    by (simp add: initial_hash_def)
  then show ?thesis by (simp add: sha256_def length_concat comp_def sum_list_triv)
qed

end
