(* ===== verification/Experiment.thy ===== *)
theory Experiment
  imports GoFloat Sha256 "HOL-Library.AList"
begin

text \<open>
  The state of an impact experiment in \<^verbatim>\<open>internal/experiments/engine.go\<close> and how one event changes it: assignment to an arm,
  deduplication, the watermark, attribution of outcomes to the first exposure, incremental aggregates, expiry of subjects, and the
  statistics of a result. A Go map is an association list; no result depends on the order of its entries. Floating-point operations are those
  of \<open>GoFloat\<close>.
\<close>

subsection \<open>Configuration and events\<close>

datatype exp_status = Draft | Running | Stopped | Completed | OtherStatus str

record exp_config =
  x_ID :: str
  x_Name :: str
  x_Hypothesis :: str
  x_Status :: exp_status
  x_TreatmentAllocation :: real
  x_TreatmentArm :: str
  x_ControlArm :: str
  x_OutcomeName :: str
  x_ObservationWindowSeconds :: int
  x_AllowedLatenessSeconds :: int
  x_ConfigVersion :: int
  x_AnalysisDocID :: str
  x_StartTime :: time
  x_EndTime :: time
  x_CreatedAt :: time
  x_UpdatedAt :: time

datatype event_type = Assignment | Exposure | Outcome | OtherType str

record event =
  v_EventID :: str
  v_ExperimentID :: str
  v_Type :: event_type
  v_SubjectID :: str
  v_Arm :: str
  v_Timestamp :: time
  v_OutcomeName :: str
  v_Value :: "real option"
  v_ConfigVersion :: int

subsection \<open>State\<close>

record diagnostics =
  dg_Received :: int
  dg_Accepted :: int
  dg_Duplicates :: int
  dg_Rejected :: int
  dg_Late :: int
  dg_UnmatchedOutcomes :: int
  dg_ProcessingLag :: "real \<times> real \<times> real"
  dg_ProcessingLagSamples :: int
  dg_WatermarkLag :: real
  dg_AckLatency :: "real \<times> real \<times> real"
  dg_AckLatencySamples :: int
  dg_StateSubjects :: int
  dg_StateBytesEstimate :: int
  dg_EventsPerSecond :: real
  dg_RecoveryTime :: real

record exp_snapshot =
  sn_EventTime :: time
  sn_TreatmentN :: int
  sn_ControlN :: int
  sn_AbsoluteLift :: real
  sn_ConfidenceLow :: real
  sn_ConfidenceHigh :: real

record exp_result =
  rs_ExperimentID :: str
  rs_TreatmentSampleSize :: int
  rs_ControlSampleSize :: int
  rs_TreatmentConversions :: int
  rs_ControlConversions :: int
  rs_TreatmentConversionRate :: real
  rs_ControlConversionRate :: real
  rs_AbsoluteLift :: real
  rs_RelativeLift :: "real option"
  rs_IncrementalConversions :: real
  rs_IncrementalOutcomeValue :: real
  rs_ConfidenceLow :: real
  rs_ConfidenceHigh :: real
  rs_InsufficientData :: bool
  rs_Recommendation :: str
  rs_Diagnostics :: diagnostics
  rs_History :: "exp_snapshot list"
  rs_UpdatedAt :: time

datatype receipt_status = Duplicate | Rejected | Late | Accepted

record receipt =
  rc_EventID :: str
  rc_Status :: receipt_status
  rc_Arm :: str
  rc_Partition :: uint32

record contribution =
  co_arm :: str
  co_exposed :: bool
  co_converted :: bool
  co_value :: real

record outcomeEvent =
  oe_at :: time
  oe_value :: real

record subjectState =
  sb_arm :: str
  sb_exposures :: "time list"
  sb_outcomes :: "outcomeEvent list"
  sb_latest :: time
  sb_current :: contribution

record aggregate =
  ag_treatmentN :: int
  ag_controlN :: int
  ag_treatmentY :: int
  ag_controlY :: int
  ag_treatmentValue :: real
  ag_controlValue :: real

record sampleWindow =
  sw_values :: "real list"
  sw_next :: nat

record experimentState =
  es_config :: exp_config
  es_subjects :: "(str \<times> subjectState) list"
  es_seen :: "str list"
  es_aggregate :: aggregate
  es_diagnostics :: diagnostics
  es_maxEventTime :: time
  es_latestArrival :: time
  es_lags :: sampleWindow
  es_ackLatencies :: sampleWindow
  es_history :: "exp_snapshot list"

subsection \<open>Windows of samples\<close>

definition latencyWindow :: nat where "latencyWindow = 2048"

definition window_add :: "sampleWindow \<Rightarrow> real \<Rightarrow> sampleWindow" where
  "window_add w x =
     (if length (sw_values w) < latencyWindow then w\<lparr>sw_values := sw_values w @ [x]\<rparr>
      else w\<lparr>sw_values := (sw_values w)[sw_next w := x], sw_next := (sw_next w + 1) mod latencyWindow\<rparr>)"

definition percentile :: "real list \<Rightarrow> real \<Rightarrow> real" where
  "percentile sorted_values p =
     (let i = \<lceil>fmul (fdiv p 100) (round64 (real (length sorted_values)))\<rceil> - 1 in sorted_values ! nat (if i < 0 then 0 else i))"

definition percentiles :: "sampleWindow \<Rightarrow> real \<times> real \<times> real" where
  "percentiles w =
     (if sw_values w = [] then (0, 0, 0)
      else let s = sort (sw_values w) in (percentile s 50, percentile s 95, percentile s 99))"

subsection \<open>Assignment\<close>

text \<open>\<^verbatim>\<open>fmt.Sprintf("%s\x00%d\x00%s", ...)\<close>; the allocation is a share of \<^verbatim>\<open>float64(^uint64(0))\<close>, which rounds to \<open>2 ^ 64\<close>.\<close>

definition assignment_key :: "exp_config \<Rightarrow> str \<Rightarrow> byte list" where
  "assignment_key config subjectID =
     bytes_of (x_ID config @ [0] @ decimal (x_ConfigVersion config) @ [0] @ subjectID)"

definition assign :: "exp_config \<Rightarrow> str \<Rightarrow> str" where
  "assign config subjectID =
     (let digest = sha256 (assignment_key config subjectID);
          v = big_endian (take 8 digest);
          threshold = nat \<lfloor>fmul (x_TreatmentAllocation config) (2 ^ 64)\<rfloor>
      in if v \<le> threshold then x_TreatmentArm config else x_ControlArm config)"

definition partition_of :: "str \<Rightarrow> uint32" where
  "partition_of subjectID = fnv32a (bytes_of subjectID) mod 64"

subsection \<open>Contributions\<close>

definition no_contribution :: contribution where
  "no_contribution = \<lparr>co_arm = [], co_exposed = False, co_converted = False, co_value = 0\<rparr>"

text \<open>Exposures are sorted in place, so that the subject changes too.\<close>

definition add_outcome :: "time \<Rightarrow> int \<Rightarrow> contribution \<Rightarrow> outcomeEvent \<Rightarrow> contribution" where
  "add_outcome exposure window c outcome =
     (if \<not> oe_at outcome < exposure \<and> \<not> oe_at outcome > exposure + window
      then c\<lparr>co_converted := True, co_value := fadd (co_value c) (oe_value outcome)\<rparr> else c)"

definition calculateContribution :: "subjectState \<Rightarrow> int \<Rightarrow> subjectState \<times> contribution" where
  "calculateContribution subject window =
     (let c = no_contribution\<lparr>co_arm := sb_arm subject\<rparr> in
      if sb_exposures subject = [] then (subject, c)
      else
        let subject = subject\<lparr>sb_exposures := sort (sb_exposures subject)\<rparr>;
            exposure = hd (sb_exposures subject)
        in (subject, foldl (add_outcome exposure window) (c\<lparr>co_exposed := True\<rparr>) (sb_outcomes subject)))"

definition addContribution :: "aggregate \<Rightarrow> contribution \<Rightarrow> str \<Rightarrow> aggregate" where
  "addContribution a c treatmentArm =
     (if \<not> co_exposed c then a
      else if co_arm c = [] then a
      else if co_arm c = treatmentArm
      then a\<lparr>ag_treatmentN := ag_treatmentN a + 1, ag_treatmentY := ag_treatmentY a + (if co_converted c then 1 else 0),
             ag_treatmentValue := fadd (ag_treatmentValue a) (co_value c)\<rparr>
      else a\<lparr>ag_controlN := ag_controlN a + 1, ag_controlY := ag_controlY a + (if co_converted c then 1 else 0),
             ag_controlValue := fadd (ag_controlValue a) (co_value c)\<rparr>)"

definition removeContribution :: "aggregate \<Rightarrow> contribution \<Rightarrow> str \<Rightarrow> aggregate" where
  "removeContribution a c treatmentArm =
     (if \<not> co_exposed c then a
      else if co_arm c = treatmentArm
      then a\<lparr>ag_treatmentN := ag_treatmentN a - 1, ag_treatmentY := ag_treatmentY a - (if co_converted c then 1 else 0),
             ag_treatmentValue := fsub (ag_treatmentValue a) (co_value c)\<rparr>
      else a\<lparr>ag_controlN := ag_controlN a - 1, ag_controlY := ag_controlY a - (if co_converted c then 1 else 0),
             ag_controlValue := fsub (ag_controlValue a) (co_value c)\<rparr>)"

subsection \<open>Statistics\<close>

definition conversion_rate :: "int \<Rightarrow> int \<Rightarrow> real" where
  "conversion_rate y n = (if n > 0 then fdiv (round64 (of_int y)) (round64 (of_int n)) else 0)"

definition mean_value :: "real \<Rightarrow> int \<Rightarrow> real" where
  "mean_value v n = (if n > 0 then fdiv v (round64 (of_int n)) else 0)"

definition standard_error :: "int \<Rightarrow> int \<Rightarrow> real \<Rightarrow> real \<Rightarrow> real" where
  "standard_error tn cn treatmentRate controlRate =
     (if tn > 0 \<and> cn > 0
      then round64 (sqrt (fadd (fdiv (fmul treatmentRate (fsub 1 treatmentRate)) (round64 (of_int tn)))
        (fdiv (fmul controlRate (fsub 1 controlRate)) (round64 (of_int cn)))))
      else 0)"

definition snapshotFor :: "experimentState \<Rightarrow> exp_snapshot" where
  "snapshotFor st =
     (let a = es_aggregate st;
          treatmentRate = conversion_rate (ag_treatmentY a) (ag_treatmentN a);
          controlRate = conversion_rate (ag_controlY a) (ag_controlN a);
          lift = fsub treatmentRate controlRate;
          se = standard_error (ag_treatmentN a) (ag_controlN a) treatmentRate controlRate
      in \<lparr>sn_EventTime = es_maxEventTime st, sn_TreatmentN = ag_treatmentN a, sn_ControlN = ag_controlN a, sn_AbsoluteLift = lift,
          sn_ConfidenceLow = fsub lift (fmul (round64 1.96) se), sn_ConfidenceHigh = fadd lift (fmul (round64 1.96) se)\<rparr>)"

text \<open>The three recommendations as strings of the code.\<close>

definition launch :: str where "launch = map of_char ''launch''"
definition stop_it :: str where "stop_it = map of_char ''stop''"
definition continue_it :: str where "continue_it = map of_char ''continue collecting data''"

definition insufficient :: "aggregate \<Rightarrow> bool" where
  "insufficient a \<longleftrightarrow> ag_treatmentN a < 30 \<or> ag_controlN a < 30 \<or> ag_treatmentY a < 5 \<or> ag_controlY a < 5 \<or>
     ag_treatmentN a - ag_treatmentY a < 5 \<or> ag_controlN a - ag_controlY a < 5"

text \<open>\<^verbatim>\<open>Duration.Seconds\<close> and durations in milliseconds.\<close>

definition duration_seconds :: "int \<Rightarrow> real" where
  "duration_seconds d =
     (let whole = sgn d * (\<bar>d\<bar> div 1000000000); rest = d - whole * 1000000000
      in fadd (round64 (of_int whole)) (fdiv (round64 (of_int rest)) (10 ^ 9)))"

definition milliseconds :: "int \<Rightarrow> real" where
  "milliseconds d = fdiv (round64 (of_int d)) (10 ^ 6)"

definition watermark :: "experimentState \<Rightarrow> time" where
  "watermark st = es_maxEventTime st + seconds (- x_AllowedLatenessSeconds (es_config st))"

definition unmatched :: "subjectState \<Rightarrow> int" where
  "unmatched s = (if sb_outcomes s \<noteq> [] \<and> sb_exposures s = [] then int (length (sb_outcomes s)) else 0)"

definition result_diagnostics :: "experimentState \<Rightarrow> time \<Rightarrow> diagnostics" where
  "result_diagnostics st now =
     (let d = es_diagnostics st; start = x_StartTime (es_config st); elapsed = duration_seconds (time_Sub now start) in
      d\<lparr>dg_UnmatchedOutcomes := dg_UnmatchedOutcomes d + sum_list (map (unmatched \<circ> snd) (es_subjects st)),
        dg_StateSubjects := int (length (es_subjects st)),
        dg_StateBytesEstimate := int (length (es_seen st)) * 32 +
          sum_list (map (\<lambda>(k, s). int (byte_len k + 96 + length (sb_exposures s) * 24 + length (sb_outcomes s) * 32)) (es_subjects st)),
        dg_EventsPerSecond := (if start \<noteq> zero_time \<and> elapsed > 0 then fdiv (round64 (of_int (dg_Received d))) elapsed else dg_EventsPerSecond d),
        dg_ProcessingLag := percentiles (es_lags st), dg_ProcessingLagSamples := int (length (sw_values (es_lags st))),
        dg_AckLatency := percentiles (es_ackLatencies st), dg_AckLatencySamples := int (length (sw_values (es_ackLatencies st))),
        dg_WatermarkLag :=
          (if es_maxEventTime st \<noteq> zero_time \<and> es_latestArrival st \<noteq> zero_time
           then max 0 (milliseconds (time_Sub (es_latestArrival st) (watermark st))) else dg_WatermarkLag d)\<rparr>)"

definition resultFor :: "experimentState \<Rightarrow> time \<Rightarrow> exp_result" where
  "resultFor st now =
     (let a = es_aggregate st;
          treatmentRate = conversion_rate (ag_treatmentY a) (ag_treatmentN a);
          controlRate = conversion_rate (ag_controlY a) (ag_controlN a);
          lift = fsub treatmentRate controlRate;
          treatmentMean = mean_value (ag_treatmentValue a) (ag_treatmentN a);
          controlMean = mean_value (ag_controlValue a) (ag_controlN a);
          se = standard_error (ag_treatmentN a) (ag_controlN a) treatmentRate controlRate;
          low = fsub lift (fmul (round64 1.96) se);
          high = fadd lift (fmul (round64 1.96) se)
      in \<lparr>rs_ExperimentID = x_ID (es_config st), rs_TreatmentSampleSize = ag_treatmentN a, rs_ControlSampleSize = ag_controlN a,
          rs_TreatmentConversions = ag_treatmentY a, rs_ControlConversions = ag_controlY a,
          rs_TreatmentConversionRate = treatmentRate, rs_ControlConversionRate = controlRate, rs_AbsoluteLift = lift,
          rs_RelativeLift = (if controlRate > 0 then Some (fdiv lift controlRate) else None),
          rs_IncrementalConversions = fmul lift (round64 (of_int (ag_treatmentN a))),
          rs_IncrementalOutcomeValue = fmul (fsub treatmentMean controlMean) (round64 (of_int (ag_treatmentN a))),
          rs_ConfidenceLow = low, rs_ConfidenceHigh = high, rs_InsufficientData = insufficient a,
          rs_Recommendation = (if insufficient a then continue_it else if low > 0 then launch else if high < 0 then stop_it else continue_it),
          rs_Diagnostics = result_diagnostics st now, rs_History = es_history st, rs_UpdatedAt = now\<rparr>)"

end
