(* ===== verification/ExpEngine.thy ===== *)
theory ExpEngine
  imports Experiment Scanner
begin

text \<open>
  The experiments engine of \<^verbatim>\<open>internal/experiments/engine.go\<close>: what one event does to an experiment, and the engine with its write-ahead
  log. The JSON encoding of log records is the argument \<open>C\<close>, the wall clock and the time an acknowledgement takes are
  arguments of the operations, and a failing write leaves some of the bytes of its record in the file.
\<close>

subsection \<open>One event\<close>

definition rejects :: "experimentState \<Rightarrow> event \<Rightarrow> str \<Rightarrow> bool" where
  "rejects st event expectedArm \<longleftrightarrow>
     v_ConfigVersion event \<noteq> x_ConfigVersion (es_config st) \<or> (v_Arm event \<noteq> [] \<and> v_Arm event \<noteq> expectedArm) \<or>
     (v_Type event = Outcome \<and> v_OutcomeName event \<noteq> x_OutcomeName (es_config st))"

definition is_late :: "experimentState \<Rightarrow> event \<Rightarrow> bool" where
  "is_late st event \<longleftrightarrow> es_maxEventTime st \<noteq> zero_time \<and> v_Timestamp event < watermark st"

text \<open>The subject with the event's time, exposure or outcome.\<close>

definition new_subject :: "str \<Rightarrow> subjectState" where
  "new_subject arm = \<lparr>sb_arm = arm, sb_exposures = [], sb_outcomes = [], sb_latest = zero_time, sb_current = no_contribution\<rparr>"

definition record_event :: "subjectState \<Rightarrow> event \<Rightarrow> subjectState" where
  "record_event subject event =
     (let subject = (if v_Timestamp event > sb_latest subject then subject\<lparr>sb_latest := v_Timestamp event\<rparr> else subject) in
      case v_Type event of
        Exposure \<Rightarrow> subject\<lparr>sb_exposures := sb_exposures subject @ [v_Timestamp event]\<rparr>
      | Outcome \<Rightarrow>
          let x = (case v_Value event of Some x \<Rightarrow> x | None \<Rightarrow> 1) in
          subject\<lparr>sb_outcomes := sb_outcomes subject @ [\<lparr>oe_at = v_Timestamp event, oe_value = x\<rparr>]\<rparr>
      | _ \<Rightarrow> subject)"

definition deadline :: "subjectState \<Rightarrow> int \<Rightarrow> time" where
  "deadline subject window =
     (if sb_exposures subject \<noteq> [] then hd (sb_exposures subject) + window else sb_latest subject + window)"

definition expireSubjects :: "experimentState \<Rightarrow> experimentState" where
  "expireSubjects st =
     (let window = seconds (x_ObservationWindowSeconds (es_config st));
          expired = (\<lambda>(k, s). watermark st > deadline s window);
          d = es_diagnostics st
      in st\<lparr>es_diagnostics := d\<lparr>dg_UnmatchedOutcomes := dg_UnmatchedOutcomes d +
               sum_list (map (unmatched \<circ> snd) (filter expired (es_subjects st)))\<rparr>,
            es_subjects := filter (\<lambda>ks. \<not> expired ks) (es_subjects st)\<rparr>)"

text \<open>The lag of an event against the arrival of its batch; a record without arrival time adds no sample.\<close>

definition note_lag :: "experimentState \<Rightarrow> event \<Rightarrow> time \<Rightarrow> experimentState" where
  "note_lag st event arrivedAt =
     (if arrivedAt = zero_time then st
      else
        let lag = milliseconds (time_Sub arrivedAt (v_Timestamp event)) in
        st\<lparr>es_lags := window_add (es_lags st) (if lag < 0 then 0 else lag)\<rparr>)"

definition attribute :: "experimentState \<Rightarrow> event \<Rightarrow> str \<Rightarrow> experimentState" where
  "attribute st event expectedArm =
     (let arm = x_TreatmentArm (es_config st);
          subject = (case map_of (es_subjects st) (v_SubjectID event) of Some s \<Rightarrow> s | None \<Rightarrow> new_subject expectedArm);
          subject = record_event subject event;
          a = removeContribution (es_aggregate st) (sb_current subject) arm
      in case calculateContribution subject (seconds (x_ObservationWindowSeconds (es_config st))) of
        (subject, c) \<Rightarrow>
          st\<lparr>es_subjects := AList.update (v_SubjectID event) (subject\<lparr>sb_current := c\<rparr>) (es_subjects st),
             es_aggregate := addContribution a c arm\<rparr>)"

definition count_accepted :: "experimentState \<Rightarrow> experimentState" where
  "count_accepted st =
     (let d = es_diagnostics st;
          st = st\<lparr>es_diagnostics := d\<lparr>dg_Accepted := dg_Accepted d + 1\<rparr>\<rparr>;
          n = dg_Accepted d + 1;
          st = (if n mod 128 = 0
            then let history = es_history st @ [snapshotFor st] in
              st\<lparr>es_history := (if length history > 256 then drop (length history - 256) history else history)\<rparr>
            else st)
      in if n mod 256 = 0 then expireSubjects st else st)"

definition applyEvent :: "experimentState \<Rightarrow> event \<Rightarrow> time \<Rightarrow> experimentState \<times> receipt" where
  "applyEvent st event arrivedAt =
     (let st = (if arrivedAt > es_latestArrival st then st\<lparr>es_latestArrival := arrivedAt\<rparr> else st);
          r = \<lparr>rc_EventID = v_EventID event, rc_Status = Duplicate, rc_Arm = [], rc_Partition = partition_of (v_SubjectID event)\<rparr>;
          d = es_diagnostics st; d = d\<lparr>dg_Received := dg_Received d + 1\<rparr>
      in if v_EventID event \<in> set (es_seen st)
         then (st\<lparr>es_diagnostics := d\<lparr>dg_Duplicates := dg_Duplicates d + 1\<rparr>\<rparr>, r)
         else
           let st = st\<lparr>es_seen := es_seen st @ [v_EventID event]\<rparr>;
               expectedArm = assign (es_config st) (v_SubjectID event);
               r = r\<lparr>rc_Arm := expectedArm\<rparr>
           in if rejects st event expectedArm
              then (st\<lparr>es_diagnostics := d\<lparr>dg_Rejected := dg_Rejected d + 1\<rparr>\<rparr>, r\<lparr>rc_Status := Rejected\<rparr>)
              else if is_late st event
              then (st\<lparr>es_diagnostics := d\<lparr>dg_Late := dg_Late d + 1\<rparr>\<rparr>, r\<lparr>rc_Status := Late\<rparr>)
              else
                let st = st\<lparr>es_diagnostics := d\<rparr>;
                    st = (if v_Timestamp event > es_maxEventTime st then st\<lparr>es_maxEventTime := v_Timestamp event\<rparr> else st);
                    st = note_lag st event arrivedAt;
                    st = attribute st event expectedArm
                in (count_accepted st, r\<lparr>rc_Status := Accepted\<rparr>))"

subsection \<open>The log\<close>

datatype record_kind = KindExperiment | KindEvent | KindEvents | OtherKind str

record exp_record =
  er_Kind :: record_kind
  er_Experiment :: "exp_config option"
  er_Event :: "event option"
  er_Events :: "event list"
  er_ArrivedAt :: "time option"

record exp_codec =
  enc_exp :: "exp_record \<Rightarrow> byte list option"
  dec_exp :: "byte list \<Rightarrow> exp_record option"

datatype exp_error = ErrFieldsRequired | ErrAllocation | ErrObservationWindow | ErrLateness | ErrSameArms | ErrExperimentExists
  | ErrNotExist | ErrStatus | ErrCannotStart exp_status | ErrCannotStop exp_status | ErrSubjectRequired
  | ErrNoEvents | ErrMixed | ErrEventFields | ErrEventTimestamp | ErrEventType | ErrNotRunning exp_status
  | ErrExpIO | ErrReplayRecord | ErrPrecedes | ErrInvalidRecord

record engine =
  en_wal :: "byte list"
  en_states :: "(str \<times> experimentState) list"

text \<open>A write that stops after some bytes, or one whose \<^verbatim>\<open>Sync\<close> fails.\<close>

datatype exp_io = AppendOk | WriteFails nat | SyncFails

definition append_record :: "exp_codec \<Rightarrow> exp_io \<Rightarrow> engine \<Rightarrow> exp_record \<Rightarrow> engine \<times> exp_error option" where
  "append_record C io e r =
     (case enc_exp C r of
        None \<Rightarrow> (e, Some ErrExpIO)
      | Some payload \<Rightarrow>
          (case io of
             AppendOk \<Rightarrow> (e\<lparr>en_wal := en_wal e @ payload @ [newline]\<rparr>, None)
           | WriteFails k \<Rightarrow> (e\<lparr>en_wal := en_wal e @ take k (payload @ [newline])\<rparr>, Some ErrExpIO)
           | SyncFails \<Rightarrow> (e\<lparr>en_wal := en_wal e @ payload @ [newline]\<rparr>, Some ErrExpIO)))"

definition empty_window :: sampleWindow where "empty_window = \<lparr>sw_values = [], sw_next = 0\<rparr>"

definition new_diagnostics :: diagnostics where
  "new_diagnostics = \<lparr>dg_Received = 0, dg_Accepted = 0, dg_Duplicates = 0, dg_Rejected = 0, dg_Late = 0, dg_UnmatchedOutcomes = 0,
     dg_ProcessingLag = (0, 0, 0), dg_ProcessingLagSamples = 0, dg_WatermarkLag = 0, dg_AckLatency = (0, 0, 0), dg_AckLatencySamples = 0,
     dg_StateSubjects = 0, dg_StateBytesEstimate = 0, dg_EventsPerSecond = 0, dg_RecoveryTime = 0\<rparr>"

definition new_state :: "exp_config \<Rightarrow> experimentState" where
  "new_state config =
     \<lparr>es_config = config, es_subjects = [], es_seen = [],
      es_aggregate = \<lparr>ag_treatmentN = 0, ag_controlN = 0, ag_treatmentY = 0, ag_controlY = 0, ag_treatmentValue = 0, ag_controlValue = 0\<rparr>,
      es_diagnostics = new_diagnostics, es_maxEventTime = zero_time, es_latestArrival = zero_time,
      es_lags = empty_window, es_ackLatencies = empty_window, es_history = []\<rparr>"

definition applyExperiment :: "(str \<times> experimentState) list \<Rightarrow> exp_config \<Rightarrow> (str \<times> experimentState) list" where
  "applyExperiment states config =
     AList.update (x_ID config)
       (case map_of states (x_ID config) of None \<Rightarrow> new_state config | Some st \<Rightarrow> st\<lparr>es_config := config\<rparr>) states"

definition experiment_record :: "exp_config \<Rightarrow> exp_record" where
  "experiment_record config =
     \<lparr>er_Kind = KindExperiment, er_Experiment = Some config, er_Event = None, er_Events = [], er_ArrivedAt = None\<rparr>"

definition events_record :: "event list \<Rightarrow> time \<Rightarrow> exp_record" where
  "events_record events arrivedAt =
     \<lparr>er_Kind = KindEvents, er_Experiment = None, er_Event = None, er_Events = events, er_ArrivedAt = Some arrivedAt\<rparr>"

subsection \<open>Operations\<close>

definition with_default :: "'a \<Rightarrow> 'a \<Rightarrow> 'a \<Rightarrow> 'a" where
  "with_default zero x y = (if x = zero then y else x)"

text \<open>The identifier \<open>rid\<close> is the one drawn at random; the last step of the checks before the lock is taken.\<close>

definition Create_config :: "exp_config \<Rightarrow> str \<Rightarrow> time \<Rightarrow> (exp_error, exp_config) result" where
  "Create_config config rid now =
     (let config = config\<lparr>x_Name := TrimSpace (x_Name config), x_Hypothesis := TrimSpace (x_Hypothesis config),
            x_OutcomeName := TrimSpace (x_OutcomeName config), x_AnalysisDocID := TrimSpace (x_AnalysisDocID config)\<rparr>
      in if x_Name config = [] \<or> x_Hypothesis config = [] \<or> x_OutcomeName config = [] then Inl ErrFieldsRequired
      else
        let config = config\<lparr>x_TreatmentAllocation := with_default 0 (x_TreatmentAllocation config) 0.5\<rparr> in
        if x_TreatmentAllocation config \<le> 0 \<or> x_TreatmentAllocation config \<ge> 1 then Inl ErrAllocation
        else
          let config = config\<lparr>x_ObservationWindowSeconds := with_default 0 (x_ObservationWindowSeconds config) 604800\<rparr> in
          if x_ObservationWindowSeconds config < 1 then Inl ErrObservationWindow
          else
            let config = config\<lparr>x_AllowedLatenessSeconds := with_default 0 (x_AllowedLatenessSeconds config) 120\<rparr> in
            if x_AllowedLatenessSeconds config < 0 then Inl ErrLateness
            else
              let config = config\<lparr>x_TreatmentArm := with_default [] (x_TreatmentArm config) (map of_char ''treatment''),
                    x_ControlArm := with_default [] (x_ControlArm config) (map of_char ''control'')\<rparr> in
              if x_TreatmentArm config = x_ControlArm config then Inl ErrSameArms
              else Inr (config\<lparr>x_ID := with_default [] (x_ID config) rid, x_ConfigVersion := with_default 0 (x_ConfigVersion config) 1,
                x_Status := Draft, x_CreatedAt := now, x_UpdatedAt := now\<rparr>))"

definition Create :: "exp_codec \<Rightarrow> exp_io \<Rightarrow> engine \<Rightarrow> exp_config \<Rightarrow> str \<Rightarrow> time \<Rightarrow> engine \<times> (exp_error, exp_config) result" where
  "Create C io e config rid now =
     (case Create_config config rid now of
        Inl err \<Rightarrow> (e, Inl err)
      | Inr config \<Rightarrow>
          if map_of (en_states e) (x_ID config) \<noteq> None then (e, Inl ErrExperimentExists)
          else (case append_record C io e (experiment_record config) of
            (e, Some err) \<Rightarrow> (e, Inl err)
          | (e, None) \<Rightarrow> (e\<lparr>en_states := applyExperiment (en_states e) config\<rparr>, Inr config)))"

definition List_experiments :: "engine \<Rightarrow> exp_config list" where
  "List_experiments e = sort_key (\<lambda>c. - x_UpdatedAt c) (map (es_config \<circ> snd) (en_states e))"

definition Get :: "engine \<Rightarrow> str \<Rightarrow> time \<Rightarrow> (exp_config \<times> exp_result) option" where
  "Get e k now = map_option (\<lambda>st. (es_config st, resultFor st now)) (map_of (en_states e) k)"

definition Count :: "engine \<Rightarrow> nat" where "Count e = length (en_states e)"

definition next_config :: "exp_config \<Rightarrow> exp_status \<Rightarrow> time \<Rightarrow> exp_config" where
  "next_config config status now =
     (let config = config\<lparr>x_Status := status, x_UpdatedAt := now\<rparr>;
          config = (if status = Running \<and> x_StartTime config = zero_time then config\<lparr>x_StartTime := x_UpdatedAt config\<rparr> else config)
      in if status = Stopped \<or> status = Completed then config\<lparr>x_EndTime := x_UpdatedAt config\<rparr> else config)"

definition SetStatus :: "exp_codec \<Rightarrow> exp_io \<Rightarrow> engine \<Rightarrow> str \<Rightarrow> exp_status \<Rightarrow> time \<Rightarrow> time \<Rightarrow> engine \<times> (exp_error, exp_config \<times> exp_result) result" where
  "SetStatus C io e k status now later =
     (if status \<noteq> Running \<and> status \<noteq> Stopped \<and> status \<noteq> Completed then (e, Inl ErrStatus)
      else (case map_of (en_states e) k of
        None \<Rightarrow> (e, Inl ErrNotExist)
      | Some st \<Rightarrow>
          let config = es_config st in
          if status = Running \<and> x_Status config \<noteq> Draft \<and> x_Status config \<noteq> Stopped then (e, Inl (ErrCannotStart (x_Status config)))
          else if (status = Stopped \<or> status = Completed) \<and> x_Status config \<noteq> Running then (e, Inl (ErrCannotStop (x_Status config)))
          else
            let config = next_config config status now in
            (case append_record C io e (experiment_record config) of
               (e, Some err) \<Rightarrow> (e, Inl err)
             | (e, None) \<Rightarrow>
                 (e\<lparr>en_states := applyExperiment (en_states e) config\<rparr>,
                  Inr (config, resultFor (st\<lparr>es_config := config\<rparr>) later)))))"

definition Assign :: "engine \<Rightarrow> str \<Rightarrow> str \<Rightarrow> (exp_error, str \<times> uint32) result" where
  "Assign e k subjectID =
     (case map_of (en_states e) k of
        None \<Rightarrow> Inl ErrNotExist
      | Some st \<Rightarrow> if blank subjectID then Inl ErrSubjectRequired else Inr (assign (es_config st) subjectID, partition_of subjectID))"

definition validateEvent :: "event \<Rightarrow> exp_error option" where
  "validateEvent event =
     (if blank (v_EventID event) \<or> blank (v_ExperimentID event) \<or> blank (v_SubjectID event) then Some ErrEventFields
      else if v_Timestamp event = zero_time then Some ErrEventTimestamp
      else if v_Type event \<noteq> Assignment \<and> v_Type event \<noteq> Exposure \<and> v_Type event \<noteq> Outcome then Some ErrEventType
      else None)"

fun check_events :: "str \<Rightarrow> event list \<Rightarrow> exp_error option" where
  "check_events k [] = None"
| "check_events k (event # events) =
     (if v_ExperimentID event \<noteq> k then Some ErrMixed
      else case validateEvent event of Some err \<Rightarrow> Some err | None \<Rightarrow> check_events k events)"

fun apply_events :: "experimentState \<Rightarrow> time \<Rightarrow> event list \<Rightarrow> experimentState \<times> receipt list" where
  "apply_events st arrivedAt [] = (st, [])"
| "apply_events st arrivedAt (event # events) =
     (case applyEvent st event arrivedAt of (st, r) \<Rightarrow>
      case apply_events st arrivedAt events of (st, rs) \<Rightarrow> (st, r # rs))"

text \<open>\<open>now\<close> is the wall clock when the batch comes, \<open>later\<close> when the result is built, \<open>ack\<close> what the acknowledgement took.\<close>

definition ProcessBatchAt :: "exp_codec \<Rightarrow> exp_io \<Rightarrow> engine \<Rightarrow> event list \<Rightarrow> time \<Rightarrow> time \<Rightarrow> time \<Rightarrow> int \<Rightarrow> engine \<times> (exp_error, receipt list \<times> exp_result) result" where
  "ProcessBatchAt C io e events arrivedAt now later ack =
     (if events = [] then (e, Inl ErrNoEvents)
      else
        let arrivedAt = with_default zero_time arrivedAt now; k = v_ExperimentID (hd events) in
        case map_of (en_states e) k of
          None \<Rightarrow> (e, Inl ErrNotExist)
        | Some st \<Rightarrow>
            (case check_events (x_ID (es_config st)) events of
               Some err \<Rightarrow> (e, Inl err)
             | None \<Rightarrow>
                 if x_Status (es_config st) \<noteq> Running then (e, Inl (ErrNotRunning (x_Status (es_config st))))
                 else (case append_record C io e (events_record events arrivedAt) of
                   (e, Some err) \<Rightarrow> (e, Inl err)
                 | (e, None) \<Rightarrow>
                     (case apply_events st arrivedAt events of
                        (st, receipts) \<Rightarrow>
                          let st = st\<lparr>es_ackLatencies := window_add (es_ackLatencies st) (milliseconds ack)\<rparr> in
                          (e\<lparr>en_states := AList.update k st (en_states e)\<rparr>, Inr (receipts, resultFor st later))))))"

definition ProcessBatch :: "exp_codec \<Rightarrow> exp_io \<Rightarrow> engine \<Rightarrow> event list \<Rightarrow> time \<Rightarrow> time \<Rightarrow> int \<Rightarrow> engine \<times> (exp_error, receipt list \<times> exp_result) result" where
  "ProcessBatch C io e events now later ack = ProcessBatchAt C io e events zero_time now later ack"

definition Process :: "exp_codec \<Rightarrow> exp_io \<Rightarrow> engine \<Rightarrow> event \<Rightarrow> time \<Rightarrow> time \<Rightarrow> int \<Rightarrow> engine \<times> (exp_error, receipt \<times> exp_result) result" where
  "Process C io e event now later ack =
     (case ProcessBatch C io e [event] now later ack of
        (e, Inl err) \<Rightarrow> (e, Inl err)
      | (e, Inr (receipts, result)) \<Rightarrow> (e, Inr (receipts ! 0, result)))"

subsection \<open>Replay\<close>

definition replay_event :: "time \<Rightarrow> (str \<times> experimentState) list \<Rightarrow> event \<Rightarrow> (exp_error, (str \<times> experimentState) list) result" where
  "replay_event arrivedAt states event =
     (case map_of states (v_ExperimentID event) of
        None \<Rightarrow> Inl ErrPrecedes
      | Some st \<Rightarrow> Inr (AList.update (v_ExperimentID event) (fst (applyEvent st event arrivedAt)) states))"

definition replay_record :: "(str \<times> experimentState) list \<Rightarrow> exp_record \<Rightarrow> (exp_error, (str \<times> experimentState) list) result" where
  "replay_record states r =
     (case (er_Kind r, er_Experiment r, er_Event r) of
        (KindExperiment, Some config, _) \<Rightarrow> Inr (applyExperiment states config)
      | (KindEvent, _, Some event) \<Rightarrow> replay_event zero_time states event
      | (KindEvents, _, _) \<Rightarrow>
          if er_Events r = [] then Inl ErrInvalidRecord
          else foldr_err (replay_event (case er_ArrivedAt r of None \<Rightarrow> zero_time | Some t \<Rightarrow> t)) states (er_Events r)
      | _ \<Rightarrow> Inl ErrInvalidRecord)"

text \<open>A partial last line is ignored and cut off; the number is that of the valid bytes.\<close>

function replay_log :: "exp_codec \<Rightarrow> byte list \<Rightarrow> (str \<times> experimentState) list \<Rightarrow> nat \<Rightarrow> (exp_error, (str \<times> experimentState) list \<times> nat) result" where
  "replay_log C bytes states validBytes =
     (case ReadBytes bytes of
        None \<Rightarrow> Inr (states, validBytes)
      | Some (line, rest) \<Rightarrow>
          (case dec_exp C (line @ [newline]) of
             None \<Rightarrow> Inl ErrReplayRecord
           | Some r \<Rightarrow>
               (case replay_record states r of
                  Inl err \<Rightarrow> Inl err
                | Inr states \<Rightarrow> replay_log C rest states (validBytes + length line + 1))))"
  by pat_completeness auto
termination
  by (relation "measure (\<lambda>(C, bytes, states, validBytes). length bytes)") (auto dest: ReadBytes_length)

declare replay_log.simps [simp del]

text \<open>Opening the file; \<open>took\<close> is the time recovery took, in milliseconds.\<close>

definition Open :: "exp_codec \<Rightarrow> byte list \<Rightarrow> real \<Rightarrow> (exp_error, engine) result" where
  "Open C file_bytes took =
     rbind (replay_log C file_bytes [] 0)
       (\<lambda>(states, validBytes). Inr \<lparr>en_wal = take validBytes file_bytes,
          en_states = map (\<lambda>(k, st). (k, st\<lparr>es_diagnostics := (es_diagnostics st)\<lparr>dg_RecoveryTime := took\<rparr>\<rparr>)) states\<rparr>)"


subsection \<open>A small experiment\<close>

definition sample_config :: exp_config where
  "sample_config = \<lparr>x_ID = [120], x_Name = [110], x_Hypothesis = [104], x_Status = Draft, x_TreatmentAllocation = 0.5, x_TreatmentArm = [116],
     x_ControlArm = [99], x_OutcomeName = [111], x_ObservationWindowSeconds = 60, x_AllowedLatenessSeconds = 10, x_ConfigVersion = 1,
     x_AnalysisDocID = [], x_StartTime = zero_time, x_EndTime = zero_time, x_CreatedAt = 5, x_UpdatedAt = 5\<rparr>"

definition sample_event :: event where
  "sample_event = \<lparr>v_EventID = [101], v_ExperimentID = [120], v_Type = Exposure, v_SubjectID = [115], v_Arm = [], v_Timestamp = 100,
     v_OutcomeName = [], v_Value = None, v_ConfigVersion = 1\<rparr>"

end
