(* ===== verification/ExpRecovery.thy ===== *)
theory ExpRecovery
  imports ExpEngine
begin

text \<open>
  What the log of the experiments engine is worth: opening it gives the state of the running engine back, up to the measurements of the process
  itself, whatever a crash left of the last record; and delivering a batch again changes nothing but the counters of deliveries.
\<close>

subsection \<open>State without the measurements of one process\<close>

definition erase :: "experimentState \<Rightarrow> experimentState" where
  "erase st = st\<lparr>es_ackLatencies := empty_window, es_diagnostics := (es_diagnostics st)\<lparr>dg_RecoveryTime := 0\<rparr>\<rparr>"

definition erase_all :: "(str \<times> experimentState) list \<Rightarrow> (str \<times> experimentState) list" where
  "erase_all = map (\<lambda>(k, st). (k, erase st))"

definition same_states :: "engine \<Rightarrow> engine \<Rightarrow> bool" where
  "same_states e e' \<longleftrightarrow> erase_all (en_states e) = erase_all (en_states e')"

lemma erase_fields [simp]:
  "es_config (erase st) = es_config st" "es_subjects (erase st) = es_subjects st" "es_seen (erase st) = es_seen st"
  "es_aggregate (erase st) = es_aggregate st" "es_maxEventTime (erase st) = es_maxEventTime st"
  "es_latestArrival (erase st) = es_latestArrival st" "es_lags (erase st) = es_lags st" "es_history (erase st) = es_history st"
  "es_diagnostics (erase st) = (es_diagnostics st)\<lparr>dg_RecoveryTime := 0\<rparr>" "es_ackLatencies (erase st) = empty_window"
  by (simp_all add: erase_def)

lemma erase_idem [simp]: "erase (erase st) = erase st"
  by (simp add: erase_def)

lemma recovery_last [simp]:
  "d\<lparr>dg_RecoveryTime := x, dg_Received := n\<rparr> = d\<lparr>dg_Received := n, dg_RecoveryTime := x\<rparr>"
  "d\<lparr>dg_RecoveryTime := x, dg_Accepted := n\<rparr> = d\<lparr>dg_Accepted := n, dg_RecoveryTime := x\<rparr>"
  "d\<lparr>dg_RecoveryTime := x, dg_Duplicates := n\<rparr> = d\<lparr>dg_Duplicates := n, dg_RecoveryTime := x\<rparr>"
  "d\<lparr>dg_RecoveryTime := x, dg_Rejected := n\<rparr> = d\<lparr>dg_Rejected := n, dg_RecoveryTime := x\<rparr>"
  "d\<lparr>dg_RecoveryTime := x, dg_Late := n\<rparr> = d\<lparr>dg_Late := n, dg_RecoveryTime := x\<rparr>"
  "d\<lparr>dg_RecoveryTime := x, dg_UnmatchedOutcomes := n\<rparr> = d\<lparr>dg_UnmatchedOutcomes := n, dg_RecoveryTime := x\<rparr>"
  by simp_all

lemma erase_updates [simp]:
  "erase (st\<lparr>es_latestArrival := t\<rparr>) = (erase st)\<lparr>es_latestArrival := t\<rparr>"
  "erase (st\<lparr>es_maxEventTime := t\<rparr>) = (erase st)\<lparr>es_maxEventTime := t\<rparr>"
  "erase (st\<lparr>es_seen := ids\<rparr>) = (erase st)\<lparr>es_seen := ids\<rparr>"
  "erase (st\<lparr>es_lags := w\<rparr>) = (erase st)\<lparr>es_lags := w\<rparr>"
  "erase (st\<lparr>es_history := h\<rparr>) = (erase st)\<lparr>es_history := h\<rparr>"
  "erase (st\<lparr>es_subjects := ss\<rparr>) = (erase st)\<lparr>es_subjects := ss\<rparr>"
  "erase (st\<lparr>es_aggregate := a\<rparr>) = (erase st)\<lparr>es_aggregate := a\<rparr>"
  "erase (st\<lparr>es_config := c\<rparr>) = (erase st)\<lparr>es_config := c\<rparr>"
  "erase (st\<lparr>es_ackLatencies := w\<rparr>) = erase st"
  "erase (st\<lparr>es_diagnostics := d\<rparr>) = (erase st)\<lparr>es_diagnostics := d\<lparr>dg_RecoveryTime := 0\<rparr>\<rparr>"
  by (simp_all add: erase_def)

lemma erase_steps:
  "watermark (erase st) = watermark st" "rejects (erase st) event arm \<longleftrightarrow> rejects st event arm" "is_late (erase st) event \<longleftrightarrow> is_late st event"
  "snapshotFor (erase st) = snapshotFor st"
  "erase (note_lag st event arr) = note_lag (erase st) event arr"
  "erase (attribute st event arm) = attribute (erase st) event arm"
  "erase (expireSubjects st) = expireSubjects (erase st)"
  by (simp_all add: watermark_def rejects_def is_late_def snapshotFor_def note_lag_def attribute_def expireSubjects_def Let_def split: prod.split)

lemma erase_count: "erase (count_accepted st) = count_accepted (erase st)"
proof -
  have "snapshotFor (st\<lparr>es_diagnostics := d\<rparr>) = snapshotFor st" for st d by (simp add: snapshotFor_def)
  then show ?thesis by (simp add: count_accepted_def Let_def erase_steps)
qed

lemma applyEvent_erase: "applyEvent (erase st) event arr = (erase (fst (applyEvent st event arr)), snd (applyEvent st event arr))"
proof -
  have "rejects (st\<lparr>es_seen := ids\<rparr>) event arm \<longleftrightarrow> rejects st event arm" "is_late (st\<lparr>es_seen := ids\<rparr>) event \<longleftrightarrow> is_late st event"
    "rejects (st\<lparr>es_latestArrival := t\<rparr>) event arm \<longleftrightarrow> rejects st event arm" "is_late (st\<lparr>es_latestArrival := t\<rparr>) event \<longleftrightarrow> is_late st event"
    for st ids arm t by (simp_all add: rejects_def is_late_def watermark_def)
  then show ?thesis by (simp add: applyEvent_def Let_def erase_steps erase_count)
qed


subsection \<open>Delivering events again\<close>

lemma seen_keeps: "v_EventID event \<in> set (es_seen (fst (applyEvent st event arr)))" "set (es_seen st) \<subseteq> set (es_seen (fst (applyEvent st event arr)))"
  "es_config (fst (applyEvent st event arr)) = es_config st"
proof -
  have n: "es_seen (count_accepted st) = es_seen st" "es_config (count_accepted st) = es_config st" for st
    by (simp_all add: count_accepted_def expireSubjects_def Let_def)
  have a: "es_seen (attribute st event arm) = es_seen st" "es_config (attribute st event arm) = es_config st" for st arm
    by (simp_all add: attribute_def Let_def split: prod.split)
  have l: "es_seen (note_lag st event arr) = es_seen st" "es_config (note_lag st event arr) = es_config st" for st
    by (simp_all add: note_lag_def Let_def)
  show "v_EventID event \<in> set (es_seen (fst (applyEvent st event arr)))" "set (es_seen st) \<subseteq> set (es_seen (fst (applyEvent st event arr)))"
    "es_config (fst (applyEvent st event arr)) = es_config st"
    by (auto simp: applyEvent_def Let_def n a l)
qed

lemma apply_events_keeps:
  "set (es_seen st) \<subseteq> set (es_seen (fst (apply_events st arr events)))"
  "v_EventID ` set events \<subseteq> set (es_seen (fst (apply_events st arr events)))"
  "es_config (fst (apply_events st arr events)) = es_config st"
proof (induction events arbitrary: st)
  case (Cons event events)
  have eq: "fst (apply_events st arr (event # events)) = fst (apply_events (fst (applyEvent st event arr)) arr events)" for st
    by (simp split: prod.split)
  { case (1 st) show ?case unfolding eq using Cons.IH(1) [of "fst (applyEvent st event arr)"] seen_keeps(2) [of st event arr] by blast }
  { case (2 st) show ?case unfolding eq using Cons.IH(1,2) [of "fst (applyEvent st event arr)"] seen_keeps(1) [of event st arr] by auto }
  { case (3 st) show ?case unfolding eq using Cons.IH(3) [of "fst (applyEvent st event arr)"] seen_keeps(3) by simp }
qed simp_all

definition count_duplicates :: "experimentState \<Rightarrow> time \<Rightarrow> nat \<Rightarrow> experimentState" where
  "count_duplicates st arrivedAt n =
     st\<lparr>es_latestArrival := (if n > 0 \<and> arrivedAt > es_latestArrival st then arrivedAt else es_latestArrival st),
        es_diagnostics := (es_diagnostics st)\<lparr>dg_Received := dg_Received (es_diagnostics st) + int n,
          dg_Duplicates := dg_Duplicates (es_diagnostics st) + int n\<rparr>\<rparr>"

lemma duplicate_event:
  "v_EventID event \<in> set (es_seen st) \<Longrightarrow> fst (applyEvent st event arr) = count_duplicates st arr 1 \<and> rc_Status (snd (applyEvent st event arr)) = Duplicate"
  by (simp add: applyEvent_def count_duplicates_def Let_def)

lemma count_duplicates_more:
  "count_duplicates (count_duplicates st arr (Suc 0)) arr n = count_duplicates st arr (Suc n)"
  by (simp add: count_duplicates_def)

lemma count_duplicates_none: "count_duplicates st arr 0 = st"
  by (simp add: count_duplicates_def)

lemma duplicate_events:
  assumes "v_EventID ` set events \<subseteq> set (es_seen st)"
  shows "fst (apply_events st arr events) = count_duplicates st arr (length events) \<and>
    (\<forall>r \<in> set (snd (apply_events st arr events)). rc_Status r = Duplicate)"
  using assms
proof (induction events arbitrary: st)
  case (Cons event events)
  let ?st = "count_duplicates st arr 1"
  have "es_seen ?st = es_seen st" by (simp add: count_duplicates_def)
  with Cons.prems have "v_EventID ` set events \<subseteq> set (es_seen ?st)" by simp
  note IH = Cons.IH [OF this]
  have "fst (applyEvent st event arr) = ?st" "rc_Status (snd (applyEvent st event arr)) = Duplicate"
    using duplicate_event [of event st arr] Cons.prems by simp_all
  then show ?case using IH count_duplicates_more [of st arr "length events"] by (auto split: prod.split)
qed (simp add: count_duplicates_none)

subsection \<open>Replay\<close>

definition exp_codec_law :: "exp_codec \<Rightarrow> bool" where
  "exp_codec_law C \<longleftrightarrow> (\<forall>r line. enc_exp C r = Some line \<longrightarrow> newline \<notin> set line \<and> dec_exp C (line @ [newline]) = Some r)"

definition logged :: "exp_codec \<Rightarrow> exp_record list \<Rightarrow> byte list \<Rightarrow> bool" where
  "logged C rs bytes \<longleftrightarrow> (\<exists>ls. bytes = lines_file ls \<and> list_all2 (\<lambda>r l. enc_exp C r = Some l) rs ls)"

lemma logged_more:
  assumes "logged C rs bytes" and "enc_exp C r = Some line"
  shows "logged C (rs @ [r]) (bytes @ line @ [newline])"
proof -
  obtain ls where "bytes = lines_file ls" "list_all2 (\<lambda>r l. enc_exp C r = Some l) rs ls" using assms(1) by (auto simp: logged_def)
  then show ?thesis using assms(2) unfolding logged_def
    by (intro exI [of _ "ls @ [line]"]) (auto intro: list_all2_appendI)
qed

lemma replay_log_lines:
  assumes "exp_codec_law C" and "list_all2 (\<lambda>r l. enc_exp C r = Some l) rs ls"
  shows "replay_log C (lines_file ls @ rest) states n =
    rbind (foldr_err replay_record states rs) (\<lambda>states. replay_log C rest states (n + length (lines_file ls)))"
  using assms(2)
proof (induction rs ls arbitrary: states n rule: list_all2_induct)
  case Nil
  then show ?case by simp
next
  case (Cons r rs l ls)
  have l: "newline \<notin> set l" "dec_exp C (l @ [newline]) = Some r" using assms(1) Cons.hyps(1) by (auto simp: exp_codec_law_def)
  have "ReadBytes (l @ newline # lines_file ls @ rest) = Some (l, lines_file ls @ rest)" using l(1) ReadBytes_line by blast
  then show ?case using l(2) Cons.IH
    by (subst replay_log.simps) (simp add: add.assoc split: sum.split)
qed

lemma replay_log_torn: "newline \<notin> set torn \<Longrightarrow> replay_log C torn states n = Inr (states, n)"
  using ReadBytes_none [of torn] by (subst replay_log.simps) simp

lemma map_of_erase_all [simp]: "map_of (erase_all states) k = map_option erase (map_of states k)"
  by (simp add: erase_all_def map_of_map)

lemma erase_all_update: "erase_all (AList.update k st states) = AList.update k (erase st) (erase_all states)"
  by (induction states) (auto simp: erase_all_def)

lemma erase_new [simp]: "erase (new_state config) = new_state config"
  by (simp add: erase_def new_state_def new_diagnostics_def)

lemma applyExperiment_erase: "applyExperiment (erase_all states) config = erase_all (applyExperiment states config)"
  by (simp add: applyExperiment_def erase_all_update split: option.split)

lemma replay_event_erase:
  assumes "map_of states (v_ExperimentID event) = Some st"
  shows "replay_event arr (erase_all states) event = Inr (erase_all (AList.update (v_ExperimentID event) (fst (applyEvent st event arr)) states))"
  using assms by (simp add: replay_event_def erase_all_update applyEvent_erase)

lemma update_twice: "AList.update k y (AList.update k x m) = AList.update k y m"
  by (induction m) auto

lemma replay_events_erase:
  assumes "map_of states k = Some st" and "\<forall>v \<in> set events. v_ExperimentID v = k"
  shows "foldr_err (replay_event arr) (erase_all states) events =
    Inr (erase_all (if events = [] then states else AList.update k (fst (apply_events st arr events)) states))"
  using assms
proof (induction events arbitrary: states st)
  case (Cons v vs)
  let ?st = "fst (applyEvent st v arr)" and ?states = "AList.update k (fst (applyEvent st v arr)) states"
  have v: "v_ExperimentID v = k" using Cons.prems(2) by simp
  have one: "replay_event arr (erase_all states) v = Inr (erase_all ?states)"
    using replay_event_erase [of states v st arr] Cons.prems(1) v by simp
  have "map_of ?states k = Some ?st" by (simp add: update_conv')
  from Cons.IH [OF this] Cons.prems(2)
  have "foldr_err (replay_event arr) (erase_all ?states) vs =
      Inr (erase_all (if vs = [] then ?states else AList.update k (fst (apply_events ?st arr vs)) ?states))" by simp
  then show ?case by (simp add: one update_twice split: prod.split)
qed simp


subsection \<open>Requests\<close>

datatype exp_request = CreateReq exp_config str time | StatusReq str exp_status time time | BatchReq "event list" time time time int

definition execute :: "exp_codec \<Rightarrow> exp_io \<Rightarrow> engine \<Rightarrow> exp_request \<Rightarrow> engine" where
  "execute C io e req =
     (case req of
        CreateReq config rid now \<Rightarrow> fst (Create C io e config rid now)
      | StatusReq k status now later \<Rightarrow> fst (SetStatus C io e k status now later)
      | BatchReq events arrivedAt now later ack \<Rightarrow> fst (ProcessBatchAt C io e events arrivedAt now later ack))"

definition new_engine :: engine where "new_engine = \<lparr>en_wal = [], en_states = []\<rparr>"

definition keys_ok :: "(str \<times> experimentState) list \<Rightarrow> bool" where
  "keys_ok states \<longleftrightarrow> (\<forall>k st. map_of states k = Some st \<longrightarrow> x_ID (es_config st) = k)"

definition durable :: "exp_codec \<Rightarrow> engine \<Rightarrow> bool" where
  "durable C e \<longleftrightarrow> keys_ok (en_states e) \<and>
     (\<exists>rs. logged C rs (en_wal e) \<and> foldr_err replay_record [] rs = Inr (erase_all (en_states e)))"

text \<open>
  Every request does nothing, or appends one record whose replay has the effect of the request.
\<close>

definition effect :: "exp_codec \<Rightarrow> engine \<Rightarrow> exp_request \<Rightarrow> (exp_record \<times> (str \<times> experimentState) list) option \<Rightarrow> bool" where
  "effect C e req x \<longleftrightarrow>
     (case x of
        None \<Rightarrow> (\<forall>io. execute C io e req = e)
      | Some (r, states) \<Rightarrow>
          keys_ok states \<and> replay_record (erase_all (en_states e)) r = Inr (erase_all states) \<and>
          (\<exists>line. enc_exp C r = Some line \<and> (\<forall>io. execute C io e req =
             (let e' = fst (append_record C io e r) in if io = AppendOk then e'\<lparr>en_states := states\<rparr> else e'))))"

lemma append_record_states: "en_states (fst (append_record C io e r)) = en_states e"
  by (auto simp: append_record_def split: option.split exp_io.split)

lemma append_record_error:
  assumes "enc_exp C r = Some line"
  shows "snd (append_record C io e r) = None \<longleftrightarrow> io = AppendOk"
  using assms by (auto simp: append_record_def split: exp_io.split)

lemma append_nothing:
  assumes "enc_exp C r = None"
  shows "append_record C io e r = (e, Some ErrExpIO)"
  using assms by (simp add: append_record_def)

lemma keys_ok_update:
  assumes "keys_ok states" and "x_ID (es_config st) = k"
  shows "keys_ok (AList.update k st states)"
  using assms by (auto simp: keys_ok_def update_conv')

lemma keys_ok_apply: "keys_ok states \<Longrightarrow> keys_ok (applyExperiment states config)"
  unfolding applyExperiment_def by (rule keys_ok_update) (auto simp: new_state_def split: option.split)

lemma create_effect:
  assumes "keys_ok (en_states e)"
  shows "\<exists>x. effect C e (CreateReq config rid now) x"
proof (cases "Create_config config rid now")
  case (Inl err)
  then have "effect C e (CreateReq config rid now) None" by (simp add: effect_def execute_def Create_def)
  then show ?thesis ..
next
  case (Inr c)
  show ?thesis
  proof (cases "map_of (en_states e) (x_ID c) \<noteq> None \<or> enc_exp C (experiment_record c) = None")
    case True
    then have "effect C e (CreateReq config rid now) None"
      using Inr append_nothing [of C "experiment_record c"] by (auto simp: effect_def execute_def Create_def)
    then show ?thesis ..
  next
    case False
    then obtain line where line: "enc_exp C (experiment_record c) = Some line" by auto
    let ?states = "applyExperiment (en_states e) c"
    have "replay_record (erase_all (en_states e)) (experiment_record c) = Inr (erase_all ?states)"
      by (simp add: replay_record_def experiment_record_def applyExperiment_erase)
    moreover have "execute C io e (CreateReq config rid now) =
        (let e' = fst (append_record C io e (experiment_record c)) in if io = AppendOk then e'\<lparr>en_states := ?states\<rparr> else e')" for io
      using False Inr append_record_error [OF line, of io e] append_record_states [of C io e "experiment_record c"]
      by (auto simp: execute_def Create_def Let_def split: prod.split option.split)
    ultimately have "effect C e (CreateReq config rid now) (Some (experiment_record c, ?states))"
      using assms line keys_ok_apply by (simp add: effect_def)
    then show ?thesis ..
  qed
qed


lemma status_effect:
  assumes keys: "keys_ok (en_states e)"
  shows "\<exists>x. effect C e (StatusReq k status now later) x"
proof (cases "(status \<noteq> Running \<and> status \<noteq> Stopped \<and> status \<noteq> Completed) \<or> map_of (en_states e) k = None")
  case True
  then have "effect C e (StatusReq k status now later) None" by (auto simp: effect_def execute_def SetStatus_def)
  then show ?thesis ..
next
  case False
  then obtain st where st: "map_of (en_states e) k = Some st" by auto
  let ?c = "next_config (es_config st) status now"
  show ?thesis
  proof (cases "(status = Running \<and> x_Status (es_config st) \<noteq> Draft \<and> x_Status (es_config st) \<noteq> Stopped) \<or>
      ((status = Stopped \<or> status = Completed) \<and> x_Status (es_config st) \<noteq> Running) \<or> enc_exp C (experiment_record ?c) = None")
    case True
    then have "effect C e (StatusReq k status now later) None"
      using False st append_nothing [of C "experiment_record ?c"] by (auto simp: effect_def execute_def SetStatus_def Let_def)
    then show ?thesis ..
  next
    case allowed: False
    then obtain line where line: "enc_exp C (experiment_record ?c) = Some line" by auto
    let ?states = "applyExperiment (en_states e) ?c"
    have "replay_record (erase_all (en_states e)) (experiment_record ?c) = Inr (erase_all ?states)"
      by (simp add: replay_record_def experiment_record_def applyExperiment_erase)
    moreover have "execute C io e (StatusReq k status now later) =
        (let e' = fst (append_record C io e (experiment_record ?c)) in if io = AppendOk then e'\<lparr>en_states := ?states\<rparr> else e')" for io
    proof -
      obtain e' res where ap: "append_record C io e (experiment_record ?c) = (e', res)" by fastforce
      then have "res = None \<longleftrightarrow> io = AppendOk" "en_states e' = en_states e"
        using append_record_error [OF line, of io e] append_record_states [of C io e "experiment_record ?c"] by simp_all
      moreover have "execute C io e (StatusReq k status now later) =
          fst (case (e', res) of (e, Some err) \<Rightarrow> (e, Inl err)
            | (e, None) \<Rightarrow> (e\<lparr>en_states := applyExperiment (en_states e) ?c\<rparr>, Inr (?c, resultFor (st\<lparr>es_config := ?c\<rparr>) later)))"
        unfolding execute_def exp_request.case SetStatus_def Let_def using False allowed st ap by (simp only: option.case) auto
      ultimately show ?thesis using ap by (cases res) (auto simp: Let_def)
    qed
    ultimately have "effect C e (StatusReq k status now later) (Some (experiment_record ?c, ?states))"
      using keys line keys_ok_apply by (simp add: effect_def)
    then show ?thesis ..
  qed
qed

lemma check_events_ok: "check_events k events = None \<Longrightarrow> \<forall>v \<in> set events. v_ExperimentID v = k \<and> validateEvent v = None"
  by (induction events) (auto split: if_splits option.splits)

lemma batch_effect:
  assumes keys: "keys_ok (en_states e)"
  shows "\<exists>x. effect C e (BatchReq events arrivedAt now later ack) x"
proof (cases "events = [] \<or> map_of (en_states e) (v_ExperimentID (hd events)) = None")
  case True
  then have "effect C e (BatchReq events arrivedAt now later ack) None"
    by (auto simp: effect_def execute_def ProcessBatchAt_def Let_def)
  then show ?thesis ..
next
  case False
  let ?k = "v_ExperimentID (hd events)" and ?arr = "with_default zero_time arrivedAt now"
  let ?r = "events_record events ?arr"
  obtain st where st: "map_of (en_states e) ?k = Some st" using False by auto
  have k: "x_ID (es_config st) = ?k" using keys st by (auto simp: keys_ok_def)
  show ?thesis
  proof (cases "check_events ?k events \<noteq> None \<or> x_Status (es_config st) \<noteq> Running \<or> enc_exp C ?r = None")
    case True
    then have "effect C e (BatchReq events arrivedAt now later ack) None"
      using False st k append_nothing [of C ?r]
      by (auto simp: effect_def execute_def ProcessBatchAt_def Let_def split: option.split)
    then show ?thesis ..
  next
    case allowed: False
    then obtain line where line: "enc_exp C ?r = Some line" by auto
    let ?st = "fst (apply_events st ?arr events)"
    let ?st' = "?st\<lparr>es_ackLatencies := window_add (es_ackLatencies ?st) (milliseconds ack)\<rparr>"
    let ?states = "AList.update ?k ?st' (en_states e)"
    have all: "\<forall>v \<in> set events. v_ExperimentID v = ?k" using check_events_ok [of ?k events] allowed by auto
    have "erase_all ?states = erase_all (AList.update ?k ?st (en_states e))" by (simp add: erase_all_update)
    then have "replay_record (erase_all (en_states e)) ?r = Inr (erase_all ?states)"
      using replay_events_erase [OF st all, of ?arr] False by (simp add: replay_record_def events_record_def)
    moreover have "execute C io e (BatchReq events arrivedAt now later ack) =
        (let e' = fst (append_record C io e ?r) in if io = AppendOk then e'\<lparr>en_states := ?states\<rparr> else e')" for io
    proof -
      obtain e' res where ap: "append_record C io e ?r = (e', res)" by fastforce
      then have r: "res = None \<longleftrightarrow> io = AppendOk" "en_states e' = en_states e"
        using append_record_error [OF line, of io e] append_record_states [of C io e ?r] by simp_all
      show ?thesis
        using False st allowed ap r k
        by (cases res) (auto simp: execute_def ProcessBatchAt_def Let_def split: prod.split option.split)
    qed
    moreover have "keys_ok ?states" using keys k by (intro keys_ok_update) (simp_all add: apply_events_keeps)
    ultimately have "effect C e (BatchReq events arrivedAt now later ack) (Some (?r, ?states))" using line by (simp add: effect_def)
    then show ?thesis ..
  qed
qed

lemma request_effect: "keys_ok (en_states e) \<Longrightarrow> \<exists>x. effect C e req x"
  by (cases req) (simp_all only: create_effect status_effect batch_effect)

lemma append_ok:
  assumes "enc_exp C r = Some line"
  shows "fst (append_record C AppendOk e r) = e\<lparr>en_wal := en_wal e @ line @ [newline]\<rparr>"
  using assms by (simp add: append_record_def)

lemma execute_durable:
  assumes "durable C e"
  shows "durable C (execute C AppendOk e req)"
proof -
  obtain rs where rs: "logged C rs (en_wal e)" "foldr_err replay_record [] rs = Inr (erase_all (en_states e))" and keys: "keys_ok (en_states e)"
    using assms by (auto simp: durable_def)
  obtain x where x: "effect C e req x" using request_effect [OF keys] by blast
  show ?thesis
  proof (cases x)
    case None
    then show ?thesis using x assms by (simp add: effect_def)
  next
    case (Some rst)
    obtain r states where [simp]: "rst = (r, states)" by fastforce
    obtain line where line: "enc_exp C r = Some line" and run: "execute C AppendOk e req = e\<lparr>en_wal := en_wal e @ line @ [newline], en_states := states\<rparr>"
      using x Some append_ok by (auto simp: effect_def Let_def)
    have "foldr_err replay_record [] (rs @ [r]) = Inr (erase_all states)"
      using rs(2) x Some by (simp add: foldr_err_append effect_def)
    moreover have "keys_ok states" using x Some by (simp add: effect_def)
    ultimately show ?thesis using logged_more [OF rs(1) line] unfolding run durable_def by auto
  qed
qed

lemma new_durable: "durable C new_engine"
  by (auto simp: durable_def new_engine_def keys_ok_def logged_def erase_all_def intro!: exI [of _ "[]"])

lemma executions_durable: "durable C (foldl (execute C AppendOk) new_engine reqs)"
  by (induction reqs rule: rev_induct) (simp_all add: new_durable execute_durable)


subsection \<open>Crashes\<close>

lemma open_logged:
  assumes law: "exp_codec_law C" and "logged C rs bytes" and "foldr_err replay_record [] rs = Inr states" and "newline \<notin> set torn"
  shows "Open C (bytes @ torn) took = Inr \<lparr>en_wal = bytes,
    en_states = map (\<lambda>(k, st). (k, st\<lparr>es_diagnostics := (es_diagnostics st)\<lparr>dg_RecoveryTime := took\<rparr>\<rparr>)) states\<rparr>"
proof -
  obtain ls where ls: "bytes = lines_file ls" "list_all2 (\<lambda>r l. enc_exp C r = Some l) rs ls" using assms(2) by (auto simp: logged_def)
  show ?thesis using replay_log_lines [OF law ls(2), of torn "[]" 0] assms(3,4) by (simp add: Open_def ls(1) replay_log_torn)
qed

lemma erase_opened:
  "erase_all (map (\<lambda>(k, st). (k, st\<lparr>es_diagnostics := (es_diagnostics st)\<lparr>dg_RecoveryTime := took\<rparr>\<rparr>)) (erase_all states)) = erase_all states"
  by (induction states) (auto simp: erase_all_def)

lemma open_durable:
  assumes "exp_codec_law C" and "durable C e" and "newline \<notin> set torn"
  shows "\<exists>e'. Open C (en_wal e @ torn) took = Inr e' \<and> en_wal e' = en_wal e \<and> same_states e' e"
proof -
  obtain rs where "logged C rs (en_wal e)" "foldr_err replay_record [] rs = Inr (erase_all (en_states e))"
    using assms(2) by (auto simp: durable_def)
  from open_logged [OF assms(1) this assms(3), of took] show ?thesis by (simp add: same_states_def erase_opened)
qed

text \<open>A crash leaves the complete record of the request in the file, or nothing but a piece of a line behind the records before.\<close>

lemma file_after_crash:
  assumes law: "exp_codec_law C" and keys: "keys_ok (en_states e)"
  shows "en_wal (execute C io e req) = en_wal (execute C AppendOk e req) \<or>
    (io \<noteq> AppendOk \<and> (\<exists>torn. newline \<notin> set torn \<and> en_wal (execute C io e req) = en_wal e @ torn))"
proof -
  obtain x where x: "effect C e req x" using request_effect [OF keys] by blast
  show ?thesis
  proof (cases x)
    case None
    then show ?thesis using x by (simp add: effect_def)
  next
    case (Some rst)
    obtain r states where [simp]: "rst = (r, states)" by fastforce
    obtain line where line: "enc_exp C r = Some line"
      and run: "\<And>io. execute C io e req = (let e' = fst (append_record C io e r) in if io = AppendOk then e'\<lparr>en_states := states\<rparr> else e')"
      using x Some by (auto simp: effect_def)
    have full: "en_wal (execute C AppendOk e req) = en_wal e @ line @ [newline]" using append_ok [OF line] by (simp add: run)
    have "newline \<notin> set (take n line)" for n using law line in_set_takeD by (fastforce simp: exp_codec_law_def)
    moreover have "en_wal (execute C (WriteFails n) e req) = en_wal e @ take n (line @ [newline])" for n
      using line by (simp add: run append_record_def)
    moreover have "take n (line @ [newline]) = (if n > length line then line @ [newline] else take n line)" for n by simp
    moreover have "en_wal (execute C SyncFails e req) = en_wal (execute C AppendOk e req)" using line full by (simp add: run append_record_def)
    ultimately show ?thesis using full by (cases io) (auto split: if_splits)
  qed
qed

lemma open_after_crash:
  assumes law: "exp_codec_law C" and d: "durable C e"
  shows "\<exists>e'. Open C (en_wal (execute C io e req)) took = Inr e' \<and>
    (same_states e' e \<and> en_wal e' = en_wal e \<and> io \<noteq> AppendOk \<or>
     same_states e' (execute C AppendOk e req) \<and> en_wal e' = en_wal (execute C AppendOk e req))"
proof -
  have keys: "keys_ok (en_states e)" using d by (simp add: durable_def)
  from file_after_crash [OF law keys, of io req] show ?thesis
  proof
    assume file_eq: "en_wal (execute C io e req) = en_wal (execute C AppendOk e req)"
    from open_durable [OF law execute_durable [OF d, of req], of "[]" took] show ?thesis unfolding file_eq by auto
  next
    assume "io \<noteq> AppendOk \<and> (\<exists>torn. newline \<notin> set torn \<and> en_wal (execute C io e req) = en_wal e @ torn)"
    then obtain torn where torn: "newline \<notin> set torn" "io \<noteq> AppendOk" and file_eq: "en_wal (execute C io e req) = en_wal e @ torn" by blast
    from open_durable [OF law d torn(1), of took] torn(2) show ?thesis unfolding file_eq by auto
  qed
qed

lemma same_states_durable:
  assumes "durable C e" and "same_states e' e" and "en_wal e' = en_wal e"
  shows "durable C e'"
proof -
  have "x_ID (es_config st) = k" if st: "map_of (en_states e') k = Some st" for k st
  proof -
    have "map_of (erase_all (en_states e')) k = map_of (erase_all (en_states e)) k" using assms(2) by (simp only: same_states_def)
    then have "map_option erase (map_of (en_states e) k) = Some (erase st)" by (simp only: map_of_erase_all st option.map)
    then obtain st0 where st0: "map_of (en_states e) k = Some st0" "erase st0 = erase st" by auto
    have "x_ID (es_config st0) = k" using assms(1) st0(1) by (simp add: durable_def keys_ok_def)
    then show ?thesis using arg_cong [OF st0(2), of es_config] by simp
  qed
  then have "keys_ok (en_states e')" by (simp add: keys_ok_def)
  then show ?thesis using assms by (simp add: durable_def same_states_def)
qed

text \<open>
  The lives of an engine: it serves requests, and is stopped at the latest at the first write that does not end well; what the file then holds it is
  opened on again.
\<close>

inductive engine_runs :: "exp_codec \<Rightarrow> engine \<Rightarrow> bool" for C where
  fresh: "engine_runs C new_engine"
| served: "engine_runs C e \<Longrightarrow> engine_runs C (execute C AppendOk e req)"
| restarted: "engine_runs C e \<Longrightarrow> Open C (en_wal (execute C io e req)) took = Inr e' \<Longrightarrow> engine_runs C e'"

lemma runs_durable:
  assumes law: "exp_codec_law C" and "engine_runs C e"
  shows "durable C e"
  using assms(2)
proof induction
  case (restarted e io req took e')
  from open_after_crash [OF law restarted(3), of io req took] restarted(2)
  have "same_states e' e \<and> en_wal e' = en_wal e \<or> same_states e' (execute C AppendOk e req) \<and> en_wal e' = en_wal (execute C AppendOk e req)" by auto
  then show ?case using same_states_durable restarted(3) execute_durable by blast
qed (simp_all add: new_durable execute_durable)

text \<open>
  C10: an engine that is stopped at the latest when a write fails can be opened again, wherever in the bytes of the write the failure or the crash
  fell, and as often as this happens. It then holds the state before the last request or the state after it, never a part of a batch, and the
  state after it if its write ended well: an acknowledged request is not lost.
\<close>

theorem experiments_survive_crash:
  assumes law: "exp_codec_law C" and e: "engine_runs C e"
  shows "\<exists>e'. Open C (en_wal (execute C io e req)) took = Inr e' \<and> engine_runs C e' \<and>
    (same_states e' e \<and> io \<noteq> AppendOk \<or> same_states e' (execute C AppendOk e req))"
  using open_after_crash [OF law runs_durable [OF law e], of io req took] engine_runs.restarted [OF e] by blast

definition sample_records :: "exp_record list" where
  "sample_records = [experiment_record sample_config, experiment_record (next_config sample_config Running 6)]"

definition sample_exp_codec :: exp_codec where
  "sample_exp_codec =
     \<lparr>enc_exp = (\<lambda>r. if r = sample_records ! 0 then Some [65] else if r = sample_records ! 1 then Some [66] else None),
      dec_exp = (\<lambda>line. if line = [65, newline] then Some (sample_records ! 0) else if line = [66, newline] then Some (sample_records ! 1) else None)\<rparr>"

lemma sample_exp_codec_law: "exp_codec_law sample_exp_codec"
  by (simp add: exp_codec_law_def sample_exp_codec_def newline_def)

lemma sample_create: "Create_config sample_config [] 5 = Inr sample_config"
  by (simp add: Create_config_def sample_config_def TrimSpace_def is_space_def with_default_def Let_def)

theorem experiments_survive_crash_witness:
  "Count (execute sample_exp_codec AppendOk new_engine (CreateReq sample_config [] 5)) = 1 \<and>
   (\<exists>e' e''. Open sample_exp_codec (en_wal (execute sample_exp_codec (WriteFails 1)
      (execute sample_exp_codec AppendOk new_engine (CreateReq sample_config [] 5)) (StatusReq [120] Running 6 7))) 3 = Inr e' \<and>
      Open sample_exp_codec (en_wal (execute sample_exp_codec AppendOk e' (StatusReq [120] Running 6 7))) 4 = Inr e'')"
proof
  let ?e = "execute sample_exp_codec AppendOk new_engine (CreateReq sample_config [] 5)"
  show "Count ?e = 1"
    by (simp add: Count_def execute_def Create_def sample_create new_engine_def append_record_def sample_exp_codec_def sample_records_def
      applyExperiment_def)
  have runs: "engine_runs sample_exp_codec ?e" by (intro engine_runs.intros)
  show "\<exists>e' e''. Open sample_exp_codec (en_wal (execute sample_exp_codec (WriteFails 1) ?e (StatusReq [120] Running 6 7))) 3 = Inr e' \<and>
      Open sample_exp_codec (en_wal (execute sample_exp_codec AppendOk e' (StatusReq [120] Running 6 7))) 4 = Inr e''"
    using experiments_survive_crash [OF sample_exp_codec_law runs, of "WriteFails 1" "StatusReq [120] Running 6 7" 3]
      experiments_survive_crash [OF sample_exp_codec_law, of _ AppendOk "StatusReq [120] Running 6 7" 4] by blast
qed


subsection \<open>Redelivery\<close>

lemma same_states_lookup:
  assumes "same_states e e'" and "map_of (en_states e) k = Some st"
  shows "\<exists>st'. map_of (en_states e') k = Some st' \<and> erase st' = erase st"
proof -
  have "map_of (erase_all (en_states e)) k = map_of (erase_all (en_states e')) k"
    using assms(1) by (simp only: same_states_def)
  then have "Some (erase st) = map_option erase (map_of (en_states e') k)" by (simp only: map_of_erase_all assms(2) option.map)
  then show ?thesis by (cases "map_of (en_states e') k") auto
qed

lemma erase_eq:
  assumes "erase st' = erase st"
  shows "es_config st' = es_config st" "es_subjects st' = es_subjects st" "es_seen st' = es_seen st" "es_aggregate st' = es_aggregate st"
    "es_maxEventTime st' = es_maxEventTime st" "es_history st' = es_history st" "es_lags st' = es_lags st"
  using arg_cong [OF assms, of es_config] arg_cong [OF assms, of es_subjects] arg_cong [OF assms, of es_seen]
    arg_cong [OF assms, of es_aggregate] arg_cong [OF assms, of es_maxEventTime] arg_cong [OF assms, of es_history]
    arg_cong [OF assms, of es_lags] by simp_all

text \<open>
  C11: delivering an acknowledged batch once more, to the same engine or to one opened again after a crash, is acknowledged too; every
  event is reported as a duplicate, and subjects, aggregates, event times, lags and history stay as they were.
\<close>

theorem redelivery_is_absorbed:
  assumes first: "ProcessBatchAt C AppendOk e events arrived now later ack = (e1, Inr (receipts, result))"
    and "keys_ok (en_states e)" and "same_states e1 e1'"
    and enc: "enc_exp C (events_record events (with_default zero_time arrived' now')) \<noteq> None"
  shows "\<exists>e2 receipts' result' st1 st2.
    ProcessBatchAt C AppendOk e1' events arrived' now' later' ack' = (e2, Inr (receipts', result')) \<and>
    (\<forall>r \<in> set receipts'. rc_Status r = Duplicate) \<and>
    map_of (en_states e1) (v_ExperimentID (hd events)) = Some st1 \<and> map_of (en_states e2) (v_ExperimentID (hd events)) = Some st2 \<and>
    es_subjects st2 = es_subjects st1 \<and> es_aggregate st2 = es_aggregate st1 \<and> es_seen st2 = es_seen st1 \<and>
    es_maxEventTime st2 = es_maxEventTime st1 \<and> es_lags st2 = es_lags st1 \<and> es_history st2 = es_history st1"
proof -
  let ?k = "v_ExperimentID (hd events)" and ?arr = "with_default zero_time arrived now" and ?arr' = "with_default zero_time arrived' now'"
  obtain st where st: "map_of (en_states e) ?k = Some st" and some: "events \<noteq> []" and checked: "check_events (x_ID (es_config st)) events = None"
    and run: "x_Status (es_config st) = Running"
    using first by (auto simp: ProcessBatchAt_def Let_def split: if_splits option.splits)
  let ?s = "fst (apply_events st ?arr events)"
  let ?st1 = "?s\<lparr>es_ackLatencies := window_add (es_ackLatencies ?s) (milliseconds ack)\<rparr>"
  have "en_states e1 = AList.update ?k ?st1 (en_states e)"
    using first st some checked run
    by (auto simp: ProcessBatchAt_def Let_def append_record_def split: option.splits prod.splits)
  then have st1: "map_of (en_states e1) ?k = Some ?st1" by (simp add: update_conv')
  obtain st1' where st1': "map_of (en_states e1') ?k = Some st1'" "erase st1' = erase ?st1"
    using same_states_lookup [OF assms(3) st1] by blast
  note same = erase_eq [OF st1'(2)]
  have seen: "v_EventID ` set events \<subseteq> set (es_seen st1')" using apply_events_keeps(2) same(3) by simp
  have config: "es_config st1' = es_config st" using apply_events_keeps(3) same(1) by simp
  obtain st2 receipts' where app: "apply_events st1' ?arr' events = (st2, receipts')" by fastforce
  have dup: "st2 = count_duplicates st1' ?arr' (length events)" "\<forall>r \<in> set receipts'. rc_Status r = Duplicate"
    using duplicate_events [OF seen, of ?arr'] by (simp_all add: app)
  obtain line where line: "enc_exp C (events_record events ?arr') = Some line" using enc by blast
  let ?st2 = "st2\<lparr>es_ackLatencies := window_add (es_ackLatencies st2) (milliseconds ack')\<rparr>"
  let ?e2 = "e1'\<lparr>en_wal := en_wal e1' @ line @ [newline], en_states := AList.update ?k ?st2 (en_states e1')\<rparr>"
  have "ProcessBatchAt C AppendOk e1' events arrived' now' later' ack' = (?e2, Inr (receipts', resultFor ?st2 later'))"
    using some st1'(1) checked run app line by (simp add: ProcessBatchAt_def Let_def config append_record_def)
  moreover have "map_of (en_states ?e2) ?k = Some ?st2" by (simp add: update_conv')
  ultimately show ?thesis using dup st1 same by (intro exI conjI) (assumption | simp add: dup(1) count_duplicates_def)+
qed


definition sample_engine :: engine where
  "sample_engine = \<lparr>en_wal = [], en_states = [([120], new_state (sample_config\<lparr>x_Status := Running\<rparr>))]\<rparr>"

theorem redelivery_is_absorbed_witness:
  "\<exists>e1 receipts result e2 receipts' result'.
    ProcessBatchAt \<lparr>enc_exp = (\<lambda>_. Some [65]), dec_exp = (\<lambda>_. None)\<rparr> AppendOk sample_engine [sample_event] 200 200 201 9 = (e1, Inr (receipts, result)) \<and>
    ProcessBatchAt \<lparr>enc_exp = (\<lambda>_. Some [65]), dec_exp = (\<lambda>_. None)\<rparr> AppendOk e1 [sample_event] 300 300 301 9 = (e2, Inr (receipts', result')) \<and>
    (\<forall>r \<in> set receipts'. rc_Status r = Duplicate)"
proof -
  let ?C = "\<lparr>enc_exp = (\<lambda>_. Some [65]), dec_exp = (\<lambda>_. None)\<rparr> :: exp_codec"
  have "check_events [120] [sample_event] = None"
    by (simp add: validateEvent_def sample_event_def blank_def TrimSpace_def is_space_def zero_time_def)
  then have "\<exists>e1 receipts result. ProcessBatchAt ?C AppendOk sample_engine [sample_event] 200 200 201 9 = (e1, Inr (receipts, result))"
    by (simp add: ProcessBatchAt_def Let_def sample_engine_def new_state_def sample_config_def append_record_def del: check_events.simps apply_events.simps
      split: prod.split) (simp add: sample_event_def)
  then obtain e1 receipts result where one: "ProcessBatchAt ?C AppendOk sample_engine [sample_event] 200 200 201 9 = (e1, Inr (receipts, result))" by blast
  have "keys_ok (en_states sample_engine)" by (simp add: keys_ok_def sample_engine_def new_state_def sample_config_def)
  from redelivery_is_absorbed [OF one this, of e1 300 300 301 9] one show ?thesis by (simp add: same_states_def) blast
qed


subsection \<open>A failed write that is not undone\<close>

text \<open>What JSON promises beyond the round trip: a piece of one value followed by another value is no value.\<close>

definition glued_law :: "exp_codec \<Rightarrow> bool" where
  "glued_law C \<longleftrightarrow> (\<forall>r line n r' line'. enc_exp C r = Some line \<longrightarrow> enc_exp C r' = Some line' \<longrightarrow> 0 < n \<longrightarrow>
     dec_exp C (take n line @ line' @ [newline]) = None)"

text \<open>
  a write that fails in the middle of a record leaves its piece in the file; the next request is acknowledged, its record continues that line,
  and from then on the engine cannot be opened.
\<close>

theorem request_after_failed_write_blocks_open:
  assumes law: "exp_codec_law C" and glued: "glued_law C" and e: "e = foldl (execute C AppendOk) new_engine reqs"
    and failed: "e1 = execute C (WriteFails n) e req" "en_wal e1 \<noteq> en_wal e" "en_wal e1 \<noteq> en_wal (execute C AppendOk e req)"
    and next_one: "e2 = execute C AppendOk e1 req'" "en_wal e2 \<noteq> en_wal e1"
  shows "Open C (en_wal e2) took = Inl ErrReplayRecord"
proof -
  have d: "durable C e" unfolding e by (rule executions_durable)
  then obtain rs where rs: "logged C rs (en_wal e)" "foldr_err replay_record [] rs = Inr (erase_all (en_states e))" and keys: "keys_ok (en_states e)"
    by (auto simp: durable_def)
  obtain r states line where line: "enc_exp C r = Some line"
    and run: "\<And>io. execute C io e req = (let e' = fst (append_record C io e r) in if io = AppendOk then e'\<lparr>en_states := states\<rparr> else e')"
    using request_effect [OF keys, of C req] failed(1,2) by (auto simp: effect_def split: option.splits)
  have e1: "en_wal e1 = en_wal e @ take n line" "0 < n" "en_states e1 = en_states e"
    using failed line by (cases "n \<le> length line"; auto simp: run append_record_def)+
  obtain r' states' line' where line': "enc_exp C r' = Some line'"
    and run': "\<And>io. execute C io e1 req' = (let e' = fst (append_record C io e1 r') in if io = AppendOk then e'\<lparr>en_states := states'\<rparr> else e')"
    using request_effect [of e1 C req'] keys e1(3) next_one by (auto simp: effect_def split: option.splits)
  have e2: "en_wal e2 = en_wal e @ (take n line @ line') @ newline # []" using line' by (simp add: next_one(1) run' append_record_def e1(1))
  obtain ls where ls: "en_wal e = lines_file ls" "list_all2 (\<lambda>r l. enc_exp C r = Some l) rs ls" using rs(1) by (auto simp: logged_def)
  have "newline \<notin> set (take n line @ line')" using law line line' by (auto simp: exp_codec_law_def dest: in_set_takeD)
  then have "ReadBytes ((take n line @ line') @ newline # []) = Some (take n line @ line', [])" by (rule ReadBytes_line)
  moreover have "dec_exp C (take n line @ line' @ [newline]) = None" using glued line line' e1(2) by (auto simp: glued_law_def)
  ultimately have "replay_log C ((take n line @ line') @ newline # []) st m = Inl ErrReplayRecord" for st m
    by (subst replay_log.simps) simp
  then show ?thesis using replay_log_lines [OF law ls(2), of "(take n line @ line') @ newline # []" "[]" 0] rs(2)
    by (simp add: Open_def e2 ls(1) del: append.assoc append_assoc)
qed

definition wide_codec :: exp_codec where
  "wide_codec = \<lparr>enc_exp = (\<lambda>r. map_option (\<lambda>l. l @ l) (enc_exp sample_exp_codec r)),
     dec_exp = (\<lambda>line. if line = [65, 65, newline] then Some (sample_records ! 0) else if line = [66, 66, newline] then Some (sample_records ! 1) else None)\<rparr>"

theorem request_after_failed_write_blocks_open_witness:
  "Open wide_codec (en_wal (execute wide_codec AppendOk (execute wide_codec (WriteFails 1)
      (foldl (execute wide_codec AppendOk) new_engine []) (CreateReq sample_config [] 5)) (CreateReq sample_config [] 5))) 3 = Inl ErrReplayRecord"
proof (rule request_after_failed_write_blocks_open [OF _ _ refl refl _ _ refl])
  show "exp_codec_law wide_codec" by (auto simp: exp_codec_law_def wide_codec_def sample_exp_codec_def newline_def)
  show "glued_law wide_codec"
    by (auto simp: glued_law_def wide_codec_def sample_exp_codec_def newline_def take_Cons' split: if_splits)
qed (simp_all add: execute_def Create_def sample_create new_engine_def append_record_def wide_codec_def sample_exp_codec_def sample_records_def)

end
