(* ===== verification/ExpCounts.thy ===== *)
theory ExpCounts
  imports ExpEngine "HOL-Library.Multiset"
begin

text \<open>
  What the incremental aggregates count. Taking a subject's old contribution out and its new one in keeps the numbers equal to a count over the
  contributions of all subjects, those in memory and those that expired; until the first expiry they are the numbers that a batch evaluation of
  the accepted events gives, in whatever order those came.
\<close>

subsection \<open>Counting contributions\<close>

definition arms_ok :: "exp_config \<Rightarrow> bool" where
  "arms_ok config \<longleftrightarrow> x_TreatmentArm config \<noteq> [] \<and> x_ControlArm config \<noteq> [] \<and> x_TreatmentArm config \<noteq> x_ControlArm config"

definition num :: "('a \<Rightarrow> bool) \<Rightarrow> 'a list \<Rightarrow> int" where
  "num P xs = int (length (filter P xs))"

lemma num_simps [simp]: "num P [] = 0" "num P (x # xs) = (if P x then 1 else 0) + num P xs" "num P (xs @ ys) = num P xs + num P ys"
  by (simp_all add: num_def)

lemma num_filter: "num P xs = num P (filter Q xs) + num P (filter (\<lambda>x. \<not> Q x) xs)"
  by (induction xs) auto

lemma num_map: "num P (map f xs) = num (\<lambda>x. P (f x)) xs"
  by (induction xs) auto

lemma num_cong: "(\<And>x. x \<in> set xs \<Longrightarrow> P x = Q x) \<Longrightarrow> num P xs = num Q xs"
  unfolding num_def by (metis filter_cong)

lemma num_mono: "(\<And>x. P x \<Longrightarrow> Q x) \<Longrightarrow> num P xs \<le> num Q xs"
  by (induction xs) auto

lemma num_nonneg [simp]: "0 \<le> num P xs"
  by (simp add: num_def)

definition exposed_to :: "str \<Rightarrow> contribution \<Rightarrow> bool" where "exposed_to arm c \<longleftrightarrow> co_exposed c \<and> co_arm c = arm"

definition exposed_else :: "str \<Rightarrow> contribution \<Rightarrow> bool" where "exposed_else arm c \<longleftrightarrow> co_exposed c \<and> co_arm c \<noteq> arm"

text \<open>The numbers of an aggregate are those of a list of contributions.\<close>

definition tallies :: "aggregate \<Rightarrow> str \<Rightarrow> contribution list \<Rightarrow> bool" where
  "tallies a arm cs \<longleftrightarrow>
     ag_treatmentN a = num (exposed_to arm) cs \<and> ag_treatmentY a = num (\<lambda>c. exposed_to arm c \<and> co_converted c) cs \<and>
     ag_controlN a = num (exposed_else arm) cs \<and> ag_controlY a = num (\<lambda>c. exposed_else arm c \<and> co_converted c) cs"

definition currents :: "(str \<times> subjectState) list \<Rightarrow> contribution list" where
  "currents subjects = map (\<lambda>(k, s). sb_current s) subjects"

definition subject_ok :: "exp_config \<Rightarrow> str \<times> subjectState \<Rightarrow> bool" where
  "subject_ok config ks \<longleftrightarrow>
     (case ks of (k, s) \<Rightarrow> sb_arm s = assign config k \<and> sorted (sb_exposures s) \<and>
        sb_current s = snd (calculateContribution s (seconds (x_ObservationWindowSeconds config))))"

definition subjects_ok :: "experimentState \<Rightarrow> bool" where
  "subjects_ok st \<longleftrightarrow> distinct (map fst (es_subjects st)) \<and> (\<forall>ks \<in> set (es_subjects st). subject_ok (es_config st) ks)"

lemma assign_arm: "arms_ok config \<Longrightarrow> assign config k \<noteq> []"
  by (simp add: arms_ok_def assign_def Let_def)

lemma calculate_fields:
  assumes "calculateContribution s w = (s', c)"
  shows "s' = s\<lparr>sb_exposures := sort (sb_exposures s)\<rparr>" and "co_arm c = sb_arm s" and "co_exposed c \<longleftrightarrow> sb_exposures s \<noteq> []"
    and "co_converted c \<longleftrightarrow> sb_exposures s \<noteq> [] \<and>
      (\<exists>x \<in> set (sb_outcomes s). Min (set (sb_exposures s)) \<le> oe_at x \<and> oe_at x \<le> Min (set (sb_exposures s)) + w)"
proof -
  have loop: "co_arm (foldl (add_outcome e w) c xs) = co_arm c" "co_exposed (foldl (add_outcome e w) c xs) = co_exposed c"
    "co_converted (foldl (add_outcome e w) c xs) \<longleftrightarrow> co_converted c \<or> (\<exists>x \<in> set xs. e \<le> oe_at x \<and> oe_at x \<le> e + w)" for e c xs
    by (induction xs arbitrary: c) (auto simp: add_outcome_def)
  have "hd (sort xs) = Min (set xs)" if "xs \<noteq> []" for xs :: "time list"
  proof -
    have "sort xs \<noteq> []" using that by (metis set_empty set_sort)
    then have "hd (sort xs) = Min (set (sort xs))" using sorted_sort [of xs]
      by (cases "sort xs") (auto intro!: Min_eqI [symmetric])
    then show ?thesis by simp
  qed
  with assms loop show "s' = s\<lparr>sb_exposures := sort (sb_exposures s)\<rparr>" "co_arm c = sb_arm s" "co_exposed c \<longleftrightarrow> sb_exposures s \<noteq> []"
    "co_converted c \<longleftrightarrow> sb_exposures s \<noteq> [] \<and>
      (\<exists>x \<in> set (sb_outcomes s). Min (set (sb_exposures s)) \<le> oe_at x \<and> oe_at x \<le> Min (set (sb_exposures s)) + w)"
    by (auto simp: calculateContribution_def Let_def no_contribution_def split: if_splits)
qed

lemma calculate_current: "snd (calculateContribution (s\<lparr>sb_current := c\<rparr>) w) = snd (calculateContribution s w)"
  by (simp add: calculateContribution_def Let_def)

lemma calculate_sorted: "snd (calculateContribution (s\<lparr>sb_exposures := sort (sb_exposures s)\<rparr>) w) = snd (calculateContribution s w)"
  by (cases s) (simp add: calculateContribution_def Let_def sorted_sort_id flip: set_empty)

lemma tallies_remove:
  assumes "tallies a arm (c # cs)"
  shows "tallies (removeContribution a c arm) arm cs"
  using assms by (auto simp: tallies_def removeContribution_def exposed_to_def exposed_else_def)

lemma tallies_add:
  assumes "tallies a arm cs" and "co_arm c \<noteq> []"
  shows "tallies (addContribution a c arm) arm (c # cs)"
  using assms by (auto simp: tallies_def addContribution_def exposed_to_def exposed_else_def)

lemma tallies_mset:
  assumes "mset cs = mset cs'"
  shows "tallies a arm cs \<longleftrightarrow> tallies a arm cs'"
proof -
  have "num P cs = num P cs'" for P using assms unfolding num_def by (metis mset_filter size_mset)
  then show ?thesis by (simp add: tallies_def)
qed


subsection \<open>One event\<close>

lemma update_present:
  assumes "map_of m k = Some x"
  shows "\<exists>A B. m = A @ (k, x) # B \<and> AList.update k y m = A @ (k, y) # B"
  using assms
proof (induction m)
  case (Cons p m)
  obtain k' x' where p: "p = (k', x')" by fastforce
  show ?case
  proof (cases "k' = k")
    case True
    then show ?thesis using Cons.prems p by (intro exI [of _ "[]"] exI [of _ m]) auto
  next
    case False
    then obtain A B where "m = A @ (k, x) # B" "AList.update k y m = A @ (k, y) # B" using Cons p by auto
    then show ?thesis using False p by (intro exI [of _ "p # A"] exI [of _ B]) auto
  qed
qed simp

definition tallied :: "experimentState \<Rightarrow> contribution list \<Rightarrow> bool" where
  "tallied st gone \<longleftrightarrow> subjects_ok st \<and> tallies (es_aggregate st) (x_TreatmentArm (es_config st)) (currents (es_subjects st) @ gone)"

lemma tallied_cong:
  assumes "es_config st' = es_config st" "es_subjects st' = es_subjects st" "es_aggregate st' = es_aggregate st"
  shows "tallied st' gone \<longleftrightarrow> tallied st gone"
  using assms by (simp add: tallied_def subjects_ok_def)

lemma record_event_fields [simp]: "sb_arm (record_event s event) = sb_arm s" "sb_current (record_event s event) = sb_current s"
  by (auto simp: record_event_def Let_def split: event_type.split)

definition subject_of :: "experimentState \<Rightarrow> event \<Rightarrow> str \<Rightarrow> subjectState" where
  "subject_of st event arm = (case map_of (es_subjects st) (v_SubjectID event) of Some s \<Rightarrow> s | None \<Rightarrow> new_subject arm)"

text \<open>The subject that attribution stores.\<close>

lemma attribute_eq:
  assumes "s = record_event (subject_of st event arm) event"
    and "c = snd (calculateContribution s (seconds (x_ObservationWindowSeconds (es_config st))))"
  shows "attribute st event arm =
    st\<lparr>es_subjects := AList.update (v_SubjectID event) (s\<lparr>sb_exposures := sort (sb_exposures s), sb_current := c\<rparr>) (es_subjects st),
       es_aggregate := addContribution (removeContribution (es_aggregate st) (sb_current (subject_of st event arm)) (x_TreatmentArm (es_config st))) c
         (x_TreatmentArm (es_config st))\<rparr>"
proof -
  obtain s' c' where calc: "calculateContribution s (seconds (x_ObservationWindowSeconds (es_config st))) = (s', c')" by fastforce
  then have "c' = c" "s' = s\<lparr>sb_exposures := sort (sb_exposures s)\<rparr>" using assms(2) calculate_fields(1) by auto
  with calc have "calculateContribution (record_event (subject_of st event arm) event) (seconds (x_ObservationWindowSeconds (es_config st))) =
      (s\<lparr>sb_exposures := sort (sb_exposures s)\<rparr>, c)" by (simp add: assms(1))
  then show ?thesis by (simp add: attribute_def Let_def subject_of_def [symmetric])
qed

lemma attribute_tallied:
  fixes event :: event
  assumes ok: "tallied st gone" and arms: "arms_ok (es_config st)"
  defines "arm \<equiv> assign (es_config st) (v_SubjectID event)"
  shows "tallied (attribute st event arm) gone"
proof -
  let ?T = "x_TreatmentArm (es_config st)" and ?k = "v_SubjectID event" and ?w = "seconds (x_ObservationWindowSeconds (es_config st))"
  define s0 where "s0 = subject_of st event arm"
  define s where "s = record_event s0 event"
  define c where "c = snd (calculateContribution s ?w)"
  let ?s = "s\<lparr>sb_exposures := sort (sb_exposures s), sb_current := c\<rparr>"
  have at: "attribute st event arm = st\<lparr>es_subjects := AList.update ?k ?s (es_subjects st),
      es_aggregate := addContribution (removeContribution (es_aggregate st) (sb_current s0) ?T) c ?T\<rparr>"
    unfolding s0_def s_def c_def by (rule attribute_eq) simp_all
  have dist: "distinct (map fst (es_subjects st))" and each: "\<forall>ks \<in> set (es_subjects st). subject_ok (es_config st) ks"
    using ok by (simp_all add: tallied_def subjects_ok_def)
  have arm0: "sb_arm s0 = arm"
    using each map_of_SomeD by (fastforce simp: s0_def subject_of_def arm_def subject_ok_def new_subject_def split: option.split)
  obtain s' where "calculateContribution s ?w = (s', c)" by (metis c_def prod.collapse)
  from calculate_fields(2) [OF this] have c_arm: "co_arm c \<noteq> []" using arm0 assign_arm [OF arms] by (simp add: s_def arm_def)
  have "subject_ok (es_config st) (?k, ?s)"
    using arm0 calculate_current [of c "s\<lparr>sb_exposures := sort (sb_exposures s)\<rparr>" ?w] calculate_sorted [of s ?w]
    by (simp add: subject_ok_def s_def arm_def c_def)
  then have subjects: "subjects_ok (attribute st event arm)"
    using dist each update_members [of _ ?k ?s "es_subjects st"] by (fastforce simp: at subjects_ok_def distinct_update)
  have "tallies (addContribution (removeContribution (es_aggregate st) (sb_current s0) ?T) c ?T) ?T
      (currents (AList.update ?k ?s (es_subjects st)) @ gone)"
  proof (cases "map_of (es_subjects st) ?k")
    case None
    then have "sb_current s0 = no_contribution" by (simp add: s0_def subject_of_def new_subject_def)
    then have "removeContribution (es_aggregate st) (sb_current s0) ?T = es_aggregate st"
      by (simp add: removeContribution_def no_contribution_def)
    moreover have "tallies (es_aggregate st) ?T (currents (es_subjects st) @ gone)" using ok by (simp add: tallied_def)
    ultimately have "tallies (addContribution (removeContribution (es_aggregate st) (sb_current s0) ?T) c ?T) ?T
        (c # currents (es_subjects st) @ gone)" using tallies_add c_arm by simp
    then show ?thesis by (subst tallies_mset [of _ "c # currents (es_subjects st) @ gone"])
      (simp_all add: update_absent [OF None] currents_def)
  next
    case (Some x)
    then have x: "s0 = x" by (simp add: s0_def subject_of_def)
    obtain A B where AB: "es_subjects st = A @ (?k, s0) # B" "AList.update ?k ?s (es_subjects st) = A @ (?k, ?s) # B"
      using update_present [OF Some, of ?s] x by blast
    have "tallies (es_aggregate st) ?T (sb_current s0 # currents A @ currents B @ gone)"
      using ok by (subst tallies_mset [of _ "currents (es_subjects st) @ gone"]) (simp_all add: tallied_def AB currents_def)
    from tallies_add [OF tallies_remove [OF this] c_arm]
    show ?thesis unfolding AB(2) by (subst tallies_mset [of _ "c # currents A @ currents B @ gone"]) (simp_all add: currents_def)
  qed
  then show ?thesis using subjects by (simp add: tallied_def at)
qed

lemma expire_tallied:
  assumes "tallied st gone"
  shows "\<exists>gone'. tallied (expireSubjects st) gone'"
proof -
  obtain P where P: "es_subjects (expireSubjects st) = filter (\<lambda>ks. \<not> P ks) (es_subjects st)" by (auto simp: expireSubjects_def Let_def)
  have rest: "es_config (expireSubjects st) = es_config st" "es_aggregate (expireSubjects st) = es_aggregate st"
    by (simp_all add: expireSubjects_def Let_def)
  have part: "mset (currents m) = mset (currents (filter (\<lambda>ks. \<not> P ks) m) @ currents (filter P m))" for m
    by (induction m) (auto simp: currents_def)
  have same: "mset (currents (es_subjects st) @ gone) =
      mset (currents (filter (\<lambda>ks. \<not> P ks) (es_subjects st)) @ currents (filter P (es_subjects st)) @ gone)"
    by (simp only: mset_append part [of "es_subjects st"] add.assoc)
  have "tallies (es_aggregate st) (x_TreatmentArm (es_config st)) (currents (es_subjects st) @ gone)"
    using assms by (simp add: tallied_def)
  then have "tallies (es_aggregate st) (x_TreatmentArm (es_config st))
      (currents (filter (\<lambda>ks. \<not> P ks) (es_subjects st)) @ currents (filter P (es_subjects st)) @ gone)"
    by (rule tallies_mset [OF same, THEN iffD1])
  moreover have "subjects_ok (expireSubjects st)"
    using assms by (simp add: tallied_def subjects_ok_def P rest distinct_map_filter)
  ultimately have "tallied (expireSubjects st) (currents (filter P (es_subjects st)) @ gone)" by (simp add: tallied_def P rest)
  then show ?thesis ..
qed

lemma count_tallied:
  assumes "tallied st gone"
  shows "\<exists>gone'. tallied (count_accepted st) gone'"
    and "(dg_Accepted (es_diagnostics st) + 1) mod 256 \<noteq> 0 \<Longrightarrow> tallied (count_accepted st) gone"
proof -
  let ?st = "st\<lparr>es_diagnostics := d, es_history := h\<rparr>"
  have plain: "tallied (st\<lparr>es_diagnostics := d, es_history := h\<rparr>) gone" "tallied (st\<lparr>es_diagnostics := d\<rparr>) gone" for d h
    using assms by (subst tallied_cong [of _ st]; simp)+
  show "\<exists>gone'. tallied (count_accepted st) gone'"
    using plain expire_tallied [OF plain(1)] expire_tallied [OF plain(2)] by (auto simp: count_accepted_def Let_def)
  show "tallied (count_accepted st) gone" if "(dg_Accepted (es_diagnostics st) + 1) mod 256 \<noteq> 0"
    using plain that by (auto simp: count_accepted_def Let_def)
qed


text \<open>An event that is not accepted leaves subjects and aggregates alone.\<close>

lemma applyEvent_cases:
  assumes "applyEvent st event arr = (st', r)"
  shows "rc_Status r \<noteq> Accepted \<Longrightarrow> es_config st' = es_config st \<and> es_subjects st' = es_subjects st \<and> es_aggregate st' = es_aggregate st \<and>
      dg_Accepted (es_diagnostics st') = dg_Accepted (es_diagnostics st)"
    and "rc_Status r = Accepted \<Longrightarrow> \<exists>st1. es_config st1 = es_config st \<and> es_subjects st1 = es_subjects st \<and> es_aggregate st1 = es_aggregate st \<and>
      dg_Accepted (es_diagnostics st1) = dg_Accepted (es_diagnostics st) \<and>
      st' = count_accepted (attribute st1 event (assign (es_config st) (v_SubjectID event)))"
proof -
  have lag: "es_config (note_lag s event arr) = es_config s" "es_subjects (note_lag s event arr) = es_subjects s"
    "es_aggregate (note_lag s event arr) = es_aggregate s" "es_diagnostics (note_lag s event arr) = es_diagnostics s" for s
    by (simp_all add: note_lag_def Let_def)
  show "es_config st' = es_config st \<and> es_subjects st' = es_subjects st \<and> es_aggregate st' = es_aggregate st \<and>
      dg_Accepted (es_diagnostics st') = dg_Accepted (es_diagnostics st)" if "rc_Status r \<noteq> Accepted"
    using assms that by (auto simp: applyEvent_def Let_def split: if_splits)
  show "\<exists>st1. es_config st1 = es_config st \<and> es_subjects st1 = es_subjects st \<and> es_aggregate st1 = es_aggregate st \<and>
      dg_Accepted (es_diagnostics st1) = dg_Accepted (es_diagnostics st) \<and>
      st' = count_accepted (attribute st1 event (assign (es_config st) (v_SubjectID event)))" if "rc_Status r = Accepted"
  proof -
    let ?a = "if arr > es_latestArrival st then st\<lparr>es_latestArrival := arr\<rparr> else st"
    let ?b = "?a\<lparr>es_seen := es_seen ?a @ [v_EventID event],
      es_diagnostics := (es_diagnostics ?a)\<lparr>dg_Received := dg_Received (es_diagnostics ?a) + 1\<rparr>\<rparr>"
    let ?c = "if v_Timestamp event > es_maxEventTime ?b then ?b\<lparr>es_maxEventTime := v_Timestamp event\<rparr> else ?b"
    have "st' = count_accepted (attribute (note_lag ?c event arr) event (assign (es_config st) (v_SubjectID event)))"
      using assms that by (auto simp: applyEvent_def Let_def split: if_splits)
    then show ?thesis by (intro exI [of _ "note_lag ?c event arr"]) (simp add: lag)
  qed
qed

lemma attribute_fields: "es_config (attribute st event arm) = es_config st" "es_diagnostics (attribute st event arm) = es_diagnostics st"
  by (simp_all add: attribute_def Let_def split: prod.split)

lemma count_fields: "es_config (count_accepted st) = es_config st" "dg_Accepted (es_diagnostics (count_accepted st)) = dg_Accepted (es_diagnostics st) + 1"
  by (simp_all add: count_accepted_def expireSubjects_def Let_def)

definition deliver :: "experimentState \<Rightarrow> event \<times> time \<Rightarrow> experimentState" where
  "deliver st va = fst (applyEvent st (fst va) (snd va))"

definition is_accepted :: "experimentState \<Rightarrow> event \<times> time \<Rightarrow> bool" where
  "is_accepted st va \<longleftrightarrow> rc_Status (snd (applyEvent st (fst va) (snd va))) = Accepted"

definition stream :: "exp_config \<Rightarrow> (event \<times> time) list \<Rightarrow> experimentState" where
  "stream config vas = foldl deliver (new_state config) vas"

fun accepted :: "experimentState \<Rightarrow> (event \<times> time) list \<Rightarrow> event list" where
  "accepted st [] = []"
| "accepted st (va # vas) = (if is_accepted st va then [fst va] else []) @ accepted (deliver st va) vas"

lemma accepted_append: "accepted st (xs @ ys) = accepted st xs @ accepted (foldl deliver st xs) ys"
  by (induction xs arbitrary: st) auto

lemma deliver_cases:
  shows "\<not> is_accepted st va \<Longrightarrow> es_config (deliver st va) = es_config st \<and> es_subjects (deliver st va) = es_subjects st \<and>
      es_aggregate (deliver st va) = es_aggregate st \<and> dg_Accepted (es_diagnostics (deliver st va)) = dg_Accepted (es_diagnostics st)"
    and "is_accepted st va \<Longrightarrow> \<exists>st1. es_config st1 = es_config st \<and> es_subjects st1 = es_subjects st \<and> es_aggregate st1 = es_aggregate st \<and>
      dg_Accepted (es_diagnostics st1) = dg_Accepted (es_diagnostics st) \<and>
      deliver st va = count_accepted (attribute st1 (fst va) (assign (es_config st) (v_SubjectID (fst va))))"
proof -
  obtain st' r where eq: "applyEvent st (fst va) (snd va) = (st', r)" by fastforce
  then have d: "deliver st va = st'" and i: "is_accepted st va \<longleftrightarrow> rc_Status r = Accepted" by (simp_all add: is_accepted_def deliver_def)
  show "\<not> is_accepted st va \<Longrightarrow> es_config (deliver st va) = es_config st \<and> es_subjects (deliver st va) = es_subjects st \<and>
      es_aggregate (deliver st va) = es_aggregate st \<and> dg_Accepted (es_diagnostics (deliver st va)) = dg_Accepted (es_diagnostics st)"
    and "is_accepted st va \<Longrightarrow> \<exists>st1. es_config st1 = es_config st \<and> es_subjects st1 = es_subjects st \<and> es_aggregate st1 = es_aggregate st \<and>
      dg_Accepted (es_diagnostics st1) = dg_Accepted (es_diagnostics st) \<and>
      deliver st va = count_accepted (attribute st1 (fst va) (assign (es_config st) (v_SubjectID (fst va))))"
    unfolding d i by (rule applyEvent_cases [OF eq], assumption)+
qed

lemma deliver_tallied:
  assumes ok: "tallied st gone" and arms: "arms_ok (es_config st)"
  shows "\<exists>gone'. tallied (deliver st va) gone'" and "es_config (deliver st va) = es_config st"
    and "dg_Accepted (es_diagnostics (deliver st va)) < 256 \<Longrightarrow> 0 \<le> dg_Accepted (es_diagnostics st) \<Longrightarrow> tallied (deliver st va) gone"
proof -
  let ?goals = "(\<exists>gone'. tallied (deliver st va) gone') \<and> es_config (deliver st va) = es_config st \<and>
    (dg_Accepted (es_diagnostics (deliver st va)) < 256 \<and> 0 \<le> dg_Accepted (es_diagnostics st) \<longrightarrow> tallied (deliver st va) gone)"
  have ?goals
  proof (cases "is_accepted st va")
    case False
    then have "tallied (deliver st va) gone" using deliver_cases(1) [OF False] ok tallied_cong by blast
    then show ?thesis using deliver_cases(1) [OF False] by blast
  next
    case True
    obtain st1 where st1: "es_config st1 = es_config st" "es_subjects st1 = es_subjects st" "es_aggregate st1 = es_aggregate st"
      "dg_Accepted (es_diagnostics st1) = dg_Accepted (es_diagnostics st)"
      and d: "deliver st va = count_accepted (attribute st1 (fst va) (assign (es_config st) (v_SubjectID (fst va))))"
      using deliver_cases(2) [OF True] by blast
    have "tallied st1 gone" using ok tallied_cong [OF st1(1-3)] by simp
    from attribute_tallied [OF this] arms st1(1)
    have t: "tallied (attribute st1 (fst va) (assign (es_config st) (v_SubjectID (fst va)))) gone" by simp
    have n: "(dg_Accepted (es_diagnostics st) + 1) mod 256 \<noteq> 0" if "dg_Accepted (es_diagnostics (deliver st va)) < 256" "0 \<le> dg_Accepted (es_diagnostics st)"
      using that st1(4) by (simp add: d count_fields attribute_fields)
    show ?thesis using count_tallied(1) [OF t] count_tallied(2) [OF t] n st1(1,4) by (simp add: d count_fields attribute_fields)
  qed
  then show "\<exists>gone'. tallied (deliver st va) gone'" "es_config (deliver st va) = es_config st"
    "dg_Accepted (es_diagnostics (deliver st va)) < 256 \<Longrightarrow> 0 \<le> dg_Accepted (es_diagnostics st) \<Longrightarrow> tallied (deliver st va) gone" by blast+
qed

lemma new_tallied: "tallied (new_state config) []"
  by (simp add: tallied_def new_state_def subjects_ok_def tallies_def currents_def)

lemma deliveries_tallied:
  assumes "arms_ok config"
  shows "(\<exists>gone. tallied (stream config vas) gone) \<and> es_config (stream config vas) = config"
proof (induction vas rule: rev_induct)
  case Nil
  show ?case using new_tallied [of config] by (auto simp: stream_def new_state_def)
next
  case (snoc va vas)
  then obtain gone where g: "tallied (stream config vas) gone" and c: "es_config (stream config vas) = config" by blast
  have "arms_ok (es_config (stream config vas))" using assms c by simp
  from deliver_tallied(1,2) [OF g this, of va] c show ?case by (simp add: stream_def)
qed

text \<open>
  after any deliveries the numbers of an experiment are a count over contributions, one for every subject in memory and one for every
  subject that expired; so conversions never exceed samples and no number is negative.
\<close>

theorem aggregates_count_contributions:
  assumes "arms_ok config" and "st = stream config vas"
  shows "(\<exists>gone. tallies (es_aggregate st) (x_TreatmentArm config) (currents (es_subjects st) @ gone)) \<and>
    0 \<le> ag_treatmentY (es_aggregate st) \<and> ag_treatmentY (es_aggregate st) \<le> ag_treatmentN (es_aggregate st) \<and>
    0 \<le> ag_controlY (es_aggregate st) \<and> ag_controlY (es_aggregate st) \<le> ag_controlN (es_aggregate st)"
proof -
  obtain gone where "tallies (es_aggregate st) (x_TreatmentArm config) (currents (es_subjects st) @ gone)"
    using deliveries_tallied [OF assms(1), of vas] by (auto simp: tallied_def assms(2))
  moreover have "num (\<lambda>c. P c \<and> co_converted c) cs \<le> num P cs" for P cs by (rule num_mono) simp
  ultimately show ?thesis by (auto simp: tallies_def simp del: num_simps)
qed


subsection \<open>The batch evaluation\<close>

definition event_times :: "event list \<Rightarrow> str \<Rightarrow> event_type \<Rightarrow> time set" where
  "event_times acc k ty = v_Timestamp ` {v \<in> set acc. v_SubjectID v = k \<and> v_Type v = ty}"

definition spec_exposed :: "event list \<Rightarrow> str \<Rightarrow> bool" where
  "spec_exposed acc k \<longleftrightarrow> event_times acc k Exposure \<noteq> {}"

text \<open>An outcome within the window that the first exposure opens.\<close>

definition spec_converted :: "int \<Rightarrow> event list \<Rightarrow> str \<Rightarrow> bool" where
  "spec_converted w acc k \<longleftrightarrow> spec_exposed acc k \<and>
     (\<exists>t \<in> event_times acc k Outcome. Min (event_times acc k Exposure) \<le> t \<and> t \<le> Min (event_times acc k Exposure) + w)"

definition remembers :: "experimentState \<Rightarrow> event list \<Rightarrow> bool" where
  "remembers st acc \<longleftrightarrow>
     (\<forall>k. case map_of (es_subjects st) k of
        None \<Rightarrow> \<forall>v \<in> set acc. v_SubjectID v \<noteq> k
      | Some s \<Rightarrow> set (sb_exposures s) = event_times acc k Exposure \<and> oe_at ` set (sb_outcomes s) = event_times acc k Outcome)"

lemma remembersD:
  assumes "remembers st acc"
  shows "map_of (es_subjects st) k = None \<Longrightarrow> \<forall>v \<in> set acc. v_SubjectID v \<noteq> k"
    and "map_of (es_subjects st) k = Some s \<Longrightarrow> set (sb_exposures s) = event_times acc k Exposure"
    and "map_of (es_subjects st) k = Some s \<Longrightarrow> oe_at ` set (sb_outcomes s) = event_times acc k Outcome"
  using spec [OF assms [unfolded remembers_def], of k] by simp_all

lemma event_times_simps:
  "event_times [] k ty = {}"
  "event_times (acc @ [v]) k ty = event_times acc k ty \<union> (if v_SubjectID v = k \<and> v_Type v = ty then {v_Timestamp v} else {})"
  by (auto simp: event_times_def)

lemma event_times_none: "\<forall>v \<in> set acc. v_SubjectID v \<noteq> k \<Longrightarrow> event_times acc k ty = {}"
  by (auto simp: event_times_def)

lemma record_event_times:
  "set (sb_exposures (record_event s v)) = set (sb_exposures s) \<union> (if v_Type v = Exposure then {v_Timestamp v} else {})"
  "oe_at ` set (sb_outcomes (record_event s v)) = oe_at ` set (sb_outcomes s) \<union> (if v_Type v = Outcome then {v_Timestamp v} else {})"
  by (auto simp: record_event_def Let_def split: event_type.split)

lemma attribute_remembers:
  assumes "remembers st acc"
  shows "remembers (attribute st event arm) (acc @ [event])"
proof -
  define s0 where "s0 = subject_of st event arm"
  obtain c where at: "es_subjects (attribute st event arm) =
      AList.update (v_SubjectID event) ((record_event s0 event)\<lparr>sb_exposures := sort (sb_exposures (record_event s0 event)), sb_current := c\<rparr>) (es_subjects st)"
    using attribute_eq [of _ st event arm, OF refl refl] by (auto simp: s0_def)
  have old: "set (sb_exposures s0) = event_times acc (v_SubjectID event) Exposure \<and> oe_at ` set (sb_outcomes s0) = event_times acc (v_SubjectID event) Outcome"
    using remembersD [OF assms, of "v_SubjectID event"] event_times_none [of acc "v_SubjectID event"]
    by (cases "map_of (es_subjects st) (v_SubjectID event)") (simp_all add: s0_def subject_of_def new_subject_def)
  show ?thesis
    unfolding remembers_def at
  proof (intro allI)
    fix k
    show "case map_of (AList.update (v_SubjectID event) ((record_event s0 event)\<lparr>sb_exposures := sort (sb_exposures (record_event s0 event)), sb_current := c\<rparr>) (es_subjects st)) k of
        None \<Rightarrow> \<forall>v \<in> set (acc @ [event]). v_SubjectID v \<noteq> k
      | Some s \<Rightarrow> set (sb_exposures s) = event_times (acc @ [event]) k Exposure \<and> oe_at ` set (sb_outcomes s) = event_times (acc @ [event]) k Outcome"
      using old record_event_times [of s0 event] remembersD [OF assms, of k]
      by (cases "k = v_SubjectID event"; cases "map_of (es_subjects st) k") (simp_all add: update_conv' event_times_simps)
  qed
qed

lemma count_keeps:
  assumes "(dg_Accepted (es_diagnostics st) + 1) mod 256 \<noteq> 0"
  shows "es_subjects (count_accepted st) = es_subjects st"
  using assms by (simp add: count_accepted_def Let_def)

lemma stream_remembers:
  assumes "arms_ok config" and "length (accepted (new_state config) vas) < 256"
  shows "tallied (stream config vas) [] \<and> remembers (stream config vas) (accepted (new_state config) vas) \<and>
    dg_Accepted (es_diagnostics (stream config vas)) = int (length (accepted (new_state config) vas)) \<and> es_config (stream config vas) = config"
  using assms(2)
proof (induction vas rule: rev_induct)
  case Nil
  show ?case using new_tallied [of config] by (simp add: stream_def new_state_def remembers_def new_diagnostics_def)
next
  case (snoc va vas)
  let ?st = "stream config vas" and ?acc = "accepted (new_state config) vas"
  have acc: "accepted (new_state config) (vas @ [va]) = ?acc @ (if is_accepted ?st va then [fst va] else [])"
    by (simp add: accepted_append stream_def)
  then have "length ?acc < 256" using snoc.prems by simp
  note IH = snoc.IH [OF this]
  have st: "stream config (vas @ [va]) = deliver ?st va" by (simp add: stream_def)
  have ok: "tallied ?st []" "arms_ok (es_config ?st)" "0 \<le> dg_Accepted (es_diagnostics ?st)" using IH assms(1) by simp_all
  have t: "tallied (deliver ?st va) []" if "dg_Accepted (es_diagnostics (deliver ?st va)) < 256"
    using deliver_tallied(3) [OF ok(1,2) that ok(3)] .
  show ?case
  proof (cases "is_accepted ?st va")
    case False
    note same = deliver_cases(1) [OF False]
    have "dg_Accepted (es_diagnostics (deliver ?st va)) < 256" using same IH snoc.prems acc by simp
    then show ?thesis using IH t same by (simp add: st acc False remembers_def)
  next
    case True
    obtain st1 where st1: "es_config st1 = es_config ?st" "es_subjects st1 = es_subjects ?st"
      "dg_Accepted (es_diagnostics st1) = dg_Accepted (es_diagnostics ?st)"
      and d: "deliver ?st va = count_accepted (attribute st1 (fst va) (assign (es_config ?st) (v_SubjectID (fst va))))"
      using deliver_cases(2) [OF True] by blast
    let ?at = "attribute st1 (fst va) (assign (es_config ?st) (v_SubjectID (fst va)))"
    have n: "dg_Accepted (es_diagnostics (deliver ?st va)) = int (length ?acc) + 1" using IH st1(3) by (simp add: d count_fields attribute_fields)
    have small: "int (length ?acc) + 1 < 256" using snoc.prems acc True by simp
    have "remembers st1 ?acc" using IH st1(2) by (simp add: remembers_def)
    from attribute_remembers [OF this, of "fst va" "assign (es_config ?st) (v_SubjectID (fst va))"]
    have "remembers ?at (?acc @ [fst va])" .
    moreover have "es_subjects (deliver ?st va) = es_subjects ?at"
      unfolding d by (rule count_keeps) (use IH st1(3) small in \<open>simp add: attribute_fields\<close>)
    ultimately have "remembers (deliver ?st va) (?acc @ [fst va])" by (simp add: remembers_def)
    then show ?thesis using t n small IH deliver_tallied(2) [OF ok(1,2), of va] by (simp add: st acc True)
  qed
qed

text \<open>Contributions of the subjects in memory, by key.\<close>

lemma num_card:
  assumes "distinct (map fst m)"
  shows "num P (currents m) = int (card {k. \<exists>s. map_of m k = Some s \<and> P (sb_current s)})"
proof -
  let ?m = "filter (\<lambda>(k, s). P (sb_current s)) m"
  have "num P (currents m) = int (length ?m)"
    by (induction m) (auto simp: currents_def)
  moreover have "length ?m = card (set (map fst ?m))"
    using distinct_card [OF distinct_map_filter [OF assms], of "\<lambda>(k, s). P (sb_current s)"] by (simp only: length_map)
  moreover have "set (map fst ?m) = {k. \<exists>s. map_of m k = Some s \<and> P (sb_current s)}"
    using assms by force
  ultimately show ?thesis by simp
qed

lemma remembered_contribution:
  assumes "subject_ok config (k, s)" and "set (sb_exposures s) = event_times acc k Exposure" "oe_at ` set (sb_outcomes s) = event_times acc k Outcome"
  shows "co_arm (sb_current s) = assign config k" and "co_exposed (sb_current s) \<longleftrightarrow> spec_exposed acc k"
    and "co_converted (sb_current s) \<longleftrightarrow> spec_converted (seconds (x_ObservationWindowSeconds config)) acc k"
proof -
  have "sb_current s = snd (calculateContribution s (seconds (x_ObservationWindowSeconds config)))" and arm: "sb_arm s = assign config k"
    using assms(1) by (simp_all add: subject_ok_def)
  then obtain s' where calc: "calculateContribution s (seconds (x_ObservationWindowSeconds config)) = (s', sb_current s)"
    by (metis prod.collapse)
  have e: "sb_exposures s \<noteq> [] \<longleftrightarrow> event_times acc k Exposure \<noteq> {}" using assms(2) by (metis set_empty)
  show "co_arm (sb_current s) = assign config k" "co_exposed (sb_current s) \<longleftrightarrow> spec_exposed acc k"
    using calculate_fields(2,3) [OF calc] arm e by (simp_all add: spec_exposed_def)
  show "co_converted (sb_current s) \<longleftrightarrow> spec_converted (seconds (x_ObservationWindowSeconds config)) acc k"
    unfolding calculate_fields(4) [OF calc] spec_converted_def spec_exposed_def e assms(2) assms(3) [symmetric] by simp
qed

theorem aggregates_count_contributions_witness:
  "0 \<le> ag_treatmentY (es_aggregate (stream sample_config [(sample_event, 200)])) \<and>
   ag_treatmentY (es_aggregate (stream sample_config [(sample_event, 200)])) \<le> ag_treatmentN (es_aggregate (stream sample_config [(sample_event, 200)]))"
proof -
  have "arms_ok sample_config" by (simp add: arms_ok_def sample_config_def)
  from aggregates_count_contributions [OF this refl, of "[(sample_event, 200)]"] show ?thesis by blast
qed

text \<open>
  C9: until the first expiry the incremental numbers are those of a batch evaluation of the accepted events: the subjects with an exposure,
  and those with an outcome in the window their first exposure opens, by the arm they are assigned to. In which order exposures and outcomes
  came does not matter.
\<close>

theorem results_are_those_of_accepted_events:
  assumes "arms_ok config" and "acc = accepted (new_state config) vas" and "length acc < 256"
    and "w = seconds (x_ObservationWindowSeconds config)" and "T = x_TreatmentArm config"
  shows "ag_treatmentN (es_aggregate (stream config vas)) = int (card {k. spec_exposed acc k \<and> assign config k = T}) \<and>
    ag_treatmentY (es_aggregate (stream config vas)) = int (card {k. spec_converted w acc k \<and> assign config k = T}) \<and>
    ag_controlN (es_aggregate (stream config vas)) = int (card {k. spec_exposed acc k \<and> assign config k \<noteq> T}) \<and>
    ag_controlY (es_aggregate (stream config vas)) = int (card {k. spec_converted w acc k \<and> assign config k \<noteq> T})"
proof -
  let ?st = "stream config vas"
  have inv: "tallied ?st []" "remembers ?st acc" "es_config ?st = config" using stream_remembers [OF assms(1)] assms(2,3) by simp_all
  have dist: "distinct (map fst (es_subjects ?st))" and each: "\<forall>ks \<in> set (es_subjects ?st). subject_ok config ks"
    and t: "tallies (es_aggregate ?st) T (currents (es_subjects ?st))"
    using inv assms(5) by (simp_all add: tallied_def subjects_ok_def)
  have known: "co_arm (sb_current s) = assign config k \<and> (co_exposed (sb_current s) \<longleftrightarrow> spec_exposed acc k) \<and>
      (co_converted (sb_current s) \<longleftrightarrow> spec_converted w acc k)" if "map_of (es_subjects ?st) k = Some s" for k s
  proof -
    have ok: "subject_ok config (k, s)" using each map_of_SomeD [OF that] by blast
    note remembered_contribution [OF ok remembersD(2) [OF inv(2) that] remembersD(3) [OF inv(2) that]]
    then show ?thesis by (simp add: assms(4))
  qed
  have some: "\<exists>s. map_of (es_subjects ?st) k = Some s" if "spec_exposed acc k" for k
  proof (rule ccontr)
    assume "\<nexists>s. map_of (es_subjects ?st) k = Some s"
    then have "map_of (es_subjects ?st) k = None" by simp
    from remembersD(1) [OF inv(2) this] have "\<forall>v \<in> set acc. v_SubjectID v \<noteq> k" .
    then show False using that event_times_none [of acc k] by (simp add: spec_exposed_def)
  qed
  have conv: "spec_converted w acc k \<Longrightarrow> spec_exposed acc k" for k by (simp add: spec_converted_def)
  have keys: "{k. \<exists>s. map_of (es_subjects ?st) k = Some s \<and> P (sb_current s)} = {k. Q k}"
    if same: "\<And>k s. map_of (es_subjects ?st) k = Some s \<Longrightarrow> P (sb_current s) \<longleftrightarrow> Q k" and ex: "\<And>k. Q k \<Longrightarrow> spec_exposed acc k" for P Q
  proof (intro Collect_cong iffI)
    fix k assume "Q k"
    then obtain s where "map_of (es_subjects ?st) k = Some s" using some ex by blast
    with \<open>Q k\<close> same show "\<exists>s. map_of (es_subjects ?st) k = Some s \<and> P (sb_current s)" by blast
  qed (use same in blast)
  have "{k. \<exists>s. map_of (es_subjects ?st) k = Some s \<and> exposed_to T (sb_current s)} = {k. spec_exposed acc k \<and> assign config k = T}"
    by (rule keys) (simp_all add: known exposed_to_def conj_commute)
  moreover have "{k. \<exists>s. map_of (es_subjects ?st) k = Some s \<and> exposed_to T (sb_current s) \<and> co_converted (sb_current s)} =
      {k. spec_converted w acc k \<and> assign config k = T}"
    by (rule keys) (use conv in \<open>auto simp: known exposed_to_def\<close>)
  moreover have "{k. \<exists>s. map_of (es_subjects ?st) k = Some s \<and> exposed_else T (sb_current s)} = {k. spec_exposed acc k \<and> assign config k \<noteq> T}"
    by (rule keys) (simp_all add: known exposed_else_def conj_commute)
  moreover have "{k. \<exists>s. map_of (es_subjects ?st) k = Some s \<and> exposed_else T (sb_current s) \<and> co_converted (sb_current s)} =
      {k. spec_converted w acc k \<and> assign config k \<noteq> T}"
    by (rule keys) (use conv in \<open>auto simp: known exposed_else_def\<close>)
  ultimately show ?thesis using t num_card [OF dist] by (simp add: tallies_def)
qed


theorem results_are_those_of_accepted_events_witness:
  "ag_treatmentN (es_aggregate (stream sample_config [(sample_event, 200)])) =
    int (card {k. k = [115] \<and> assign sample_config k = [116]})"
proof -
  let ?acc = "accepted (new_state sample_config) [(sample_event, 200)]"
  have acc: "?acc = [sample_event]"
    by (simp add: is_accepted_def applyEvent_def Let_def new_state_def rejects_def is_late_def sample_event_def sample_config_def)
  have "arms_ok sample_config" by (simp add: arms_ok_def sample_config_def)
  from results_are_those_of_accepted_events [OF this acc [symmetric] _ refl refl]
  have "ag_treatmentN (es_aggregate (stream sample_config [(sample_event, 200)])) =
      int (card {k. spec_exposed [sample_event] k \<and> assign sample_config k = x_TreatmentArm sample_config})" by simp
  moreover have "spec_exposed [sample_event] k \<longleftrightarrow> k = [115]" for k
    by (auto simp: spec_exposed_def event_times_def sample_event_def)
  moreover have "x_TreatmentArm sample_config = [116]" by (simp add: sample_config_def)
  ultimately show ?thesis by simp
qed

end
