(* ===== verification/ExpStats.thy ===== *)
theory ExpStats
  imports ExpCounts
begin

text \<open>
  What the results of an experiment mean: rates, recommendations and the windows of samples behind the percentiles. And where they do not
  mean what they should: a subject that expired is counted again, and a lateness of more than 292 years makes every event late.
\<close>

subsection \<open>Rates and recommendations\<close>

lemma conversion_rate_eq:
  assumes "0 \<le> y" "y \<le> n" "0 < n" "n < 2 ^ 53"
  shows "conversion_rate y n = round64 (of_int y / of_int n)"
proof -
  have "round64 (of_int k) = of_int k" if "0 \<le> k" "k < 2 ^ 53" for k :: int
    using round64_int [of "nat k"] that by simp
  then show ?thesis using assms by (simp add: conversion_rate_def fdiv_def)
qed

lemma conversion_rate_bounds:
  assumes "0 \<le> y" "y \<le> n" "n < 2 ^ 53"
  shows "0 \<le> conversion_rate y n" and "conversion_rate y n \<le> 1"
proof -
  have "0 \<le> conversion_rate y n \<and> conversion_rate y n \<le> 1"
  proof (cases "0 < n")
    case True
    then have "0 \<le> of_int y / (of_int n :: real)" "of_int y / (of_int n :: real) \<le> 1" using assms by simp_all
    then show ?thesis using round64_mono [of "of_int y / of_int n" 1] True assms by (simp add: conversion_rate_eq)
  qed (simp add: conversion_rate_def)
  then show "0 \<le> conversion_rate y n" "conversion_rate y n \<le> 1" by simp_all
qed

lemma conversion_rate_less:
  assumes "0 \<le> y" "y \<le> n" "0 < n" "n < 2 ^ 53" and "0 \<le> y'" "y' \<le> n'" "0 < n'" "n' < 2 ^ 53"
    and "conversion_rate y n < conversion_rate y' n'"
  shows "y * n' < y' * n"
proof (rule ccontr)
  assume "\<not> y * n' < y' * n"
  then have "(of_int (y' * n) :: real) \<le> of_int (y * n')" by linarith
  then have "of_int y' / of_int n' \<le> (of_int y / of_int n :: real)" using assms(3,7) by (simp add: field_simps)
  then have "round64 (of_int y' / of_int n') \<le> round64 (of_int y / of_int n)" using assms by (intro round64_mono) auto
  then show False using assms by (simp add: conversion_rate_eq)
qed

lemma standard_error_nonneg:
  assumes "0 \<le> r" "r \<le> 1" "0 \<le> r'" "r' \<le> 1"
  shows "0 \<le> standard_error tn cn r r'"
  using assms by (auto simp: standard_error_def fadd_def fdiv_def fmul_def fsub_def)

lemma sure_difference:
  assumes "0 \<le> z" and "0 < fsub (fsub a b) z"
  shows "b < a"
  using assms round64_pos [of "fsub a b - z"] round64_pos [of "a - b"] by (simp add: fsub_def)

lemma sure_negative:
  assumes "0 \<le> z" and "fadd (fsub a b) z < 0"
  shows "a < b"
proof (rule ccontr)
  assume "\<not> a < b"
  then have "0 \<le> fsub a b" by (simp add: fsub_def)
  then have "0 \<le> fadd (fsub a b) z" using assms(1) by (simp add: fadd_def)
  then show False using assms(2) by simp
qed

lemma recommendation_cases:
  "launch \<noteq> stop_it" "launch \<noteq> continue_it" "stop_it \<noteq> continue_it"
  by (simp_all add: launch_def stop_it_def continue_it_def)

text \<open>
  C40: an experiment recommends to launch only if both arms have at least 30 samples, 5 conversions and 5 samples without one, and the share of
  conversions in treatment is truly higher, rounding notwithstanding; it recommends to stop only if the share is truly lower.
\<close>

theorem recommendations_are_justified:
  assumes "a = es_aggregate st" and "ag_treatmentN a < 2 ^ 53" "ag_controlN a < 2 ^ 53"
    and "rs_Recommendation (resultFor st now) \<noteq> continue_it"
  shows "30 \<le> ag_treatmentN a \<and> 30 \<le> ag_controlN a \<and> 5 \<le> ag_treatmentY a \<and> 5 \<le> ag_controlY a \<and>
    5 \<le> ag_treatmentN a - ag_treatmentY a \<and> 5 \<le> ag_controlN a - ag_controlY a \<and>
    (if rs_Recommendation (resultFor st now) = launch then ag_controlY a * ag_treatmentN a < ag_treatmentY a * ag_controlN a
     else rs_Recommendation (resultFor st now) = stop_it \<and> ag_treatmentY a * ag_controlN a < ag_controlY a * ag_treatmentN a)"
proof -
  define t c where "t = conversion_rate (ag_treatmentY a) (ag_treatmentN a)" and "c = conversion_rate (ag_controlY a) (ag_controlN a)"
  define z where "z = fmul (round64 1.96) (standard_error (ag_treatmentN a) (ag_controlN a) t c)"
  have r: "rs_Recommendation (resultFor st now) =
      (if insufficient a then continue_it else if fsub (fsub t c) z > 0 then launch else if fadd (fsub t c) z < 0 then stop_it else continue_it)"
    unfolding resultFor_def Let_def assms(1) [symmetric] t_def [symmetric] c_def [symmetric] z_def [symmetric] by simp
  then have enough: "\<not> insufficient a" using assms(4) by auto
  then have n: "0 \<le> ag_treatmentY a" "ag_treatmentY a \<le> ag_treatmentN a" "0 < ag_treatmentN a"
      "0 \<le> ag_controlY a" "ag_controlY a \<le> ag_controlN a" "0 < ag_controlN a" by (auto simp: insufficient_def)
  have z: "0 \<le> z" unfolding z_def fmul_def t_def c_def using conversion_rate_bounds n assms(2,3) by (intro round64_nonneg mult_nonneg_nonneg standard_error_nonneg) auto
  have up: "c < t \<Longrightarrow> ag_controlY a * ag_treatmentN a < ag_treatmentY a * ag_controlN a"
    unfolding t_def c_def by (rule conversion_rate_less) (use n assms(2,3) in auto)
  have down: "t < c \<Longrightarrow> ag_treatmentY a * ag_controlN a < ag_controlY a * ag_treatmentN a"
    unfolding t_def c_def by (rule conversion_rate_less) (use n assms(2,3) in auto)
  have "rs_Recommendation (resultFor st now) = launch \<and> c < t \<or> rs_Recommendation (resultFor st now) = stop_it \<and> t < c"
    using enough sure_difference [OF z, of t c] sure_negative [OF z, of t c] assms(4) unfolding r by presburger
  then show ?thesis using enough up down recommendation_cases by (auto simp: insufficient_def)
qed

definition clear_state :: experimentState where
  "clear_state = (new_state sample_config)\<lparr>es_aggregate :=
     \<lparr>ag_treatmentN = 640, ag_controlN = 640, ag_treatmentY = 480, ag_controlY = 160, ag_treatmentValue = 0, ag_controlValue = 0\<rparr>\<rparr>"

lemma round64_about:
  assumes "0 \<le> x" "x \<le> y"
  shows "round64 x \<le> (101 / 100) * y" and "(99 / 100) * x \<le> round64 x"
proof -
  have "\<bar>round64 x - x\<bar> \<le> (1 / 100) * x" using round64_error [of x] assms by simp
  then show "round64 x \<le> (101 / 100) * y" "(99 / 100) * x \<le> round64 x" using assms by linarith+
qed

lemma clear_recommendation: "rs_Recommendation (resultFor clear_state 0) = launch"
proof -
  let ?a = "es_aggregate clear_state"
  define t c where "t = conversion_rate 480 640" and "c = conversion_rate 160 640"
  have t: "(74 / 100) \<le> t" "t \<le> (76 / 100)" and c: "(24 / 100) \<le> c" "c \<le> (26 / 100)"
    using round64_about [of "480 / 640" "480 / 640"] round64_about [of "160 / 640" "160 / 640"]
    by (simp_all add: t_def c_def conversion_rate_eq)
  have part: "fdiv (fmul r (fsub 1 r)) (round64 640) \<le> (13 / 10000) \<and> 0 \<le> fdiv (fmul r (fsub 1 r)) (round64 640)" if "(2 / 10) \<le> r" "r \<le> (8 / 10)" for r :: real
  proof -
    have f: "0 \<le> fsub 1 r" "fsub 1 r \<le> (81 / 100)" using round64_about(1) [of "1 - r" "8 / 10"] that by (simp_all add: fsub_def)
    then have "r * fsub 1 r \<le> (8 / 10) * (81 / 100)" using that by (intro mult_mono) auto
    then have "fmul r (fsub 1 r) \<le> (66 / 100)" "0 \<le> fmul r (fsub 1 r)"
      using round64_about(1) [of "r * fsub 1 r" "648 / 1000"] f that by (simp_all add: fmul_def)
    then show ?thesis
      using round64_about(1) [of "fmul r (fsub 1 r) / 640" "(66 / 100) / 640"] round64_int [of 640] by (simp add: fdiv_def)
  qed
  define v where "v = fadd (fdiv (fmul t (fsub 1 t)) (round64 640)) (fdiv (fmul c (fsub 1 c)) (round64 640))"
  have "0 \<le> v" "v \<le> (36 / 10000)"
    using part [of t] part [of c] t c round64_about(1) [of "fdiv (fmul t (fsub 1 t)) (round64 640) + fdiv (fmul c (fsub 1 c)) (round64 640)" "26 / 10000"]
    by (simp_all add: v_def fadd_def)
  then have "0 \<le> sqrt v" "sqrt v \<le> sqrt (9 / 2500)" by simp_all
  moreover have "sqrt (9 / 2500) = 3 / 50" using real_sqrt_abs [of "3 / 50"] by (simp add: power2_eq_square)
  ultimately have "0 \<le> sqrt v" "sqrt v \<le> 6 / 100" by simp_all
  then have se: "0 \<le> round64 (sqrt v)" "round64 (sqrt v) \<le> (61 / 1000)" using round64_about(1) [of "sqrt v" "6 / 100"] by simp_all
  define q :: real where "q = round64 1.96"
  have q: "0 \<le> q" "q \<le> 2" using round64_about(1) [of "49 / 25" "49 / 25"] by (simp_all add: q_def)
  have m: "0 \<le> q * round64 (sqrt v)" "q * round64 (sqrt v) \<le> 2 * (61 / 1000)"
    using mult_nonneg_nonneg [OF q(1) se(1)] mult_mono [OF q(2) se(2)] se(1) by simp_all
  then have z: "fmul q (round64 (sqrt v)) \<le> 2 / 10" using round64_about(1) [OF m] by (simp add: fmul_def)
  have d: "4 / 10 \<le> fsub t c" using round64_about(2) [of "t - c" "t - c"] t c by (simp add: fsub_def)
  define w where "w = fsub t c - fmul q (round64 (sqrt v))"
  have "1 / 10 \<le> w" using d z by (simp add: w_def)
  then have "0 < round64 w" using round64_about(2) [of w w] by simp
  then have "0 < fsub (fsub t c) (fmul q (round64 (sqrt v)))" unfolding w_def fsub_def [of "fsub t c"] .
  moreover have "standard_error 640 640 t c = round64 (sqrt v)" by (simp add: standard_error_def v_def)
  ultimately have "0 < fsub (fsub t c) (fmul (round64 1.96) (standard_error 640 640 t c))" by (simp add: q_def)
  moreover have "es_aggregate clear_state = \<lparr>ag_treatmentN = 640, ag_controlN = 640, ag_treatmentY = 480, ag_controlY = 160,
      ag_treatmentValue = 0, ag_controlValue = 0\<rparr>" by (simp add: clear_state_def)
  ultimately show ?thesis
    unfolding resultFor_def Let_def t_def c_def by (simp only: aggregate.simps exp_result.simps insufficient_def) simp
qed

theorem recommendations_are_justified_witness:
  "ag_controlY (es_aggregate clear_state) * ag_treatmentN (es_aggregate clear_state) < ag_treatmentY (es_aggregate clear_state) * ag_controlN (es_aggregate clear_state)"
proof -
  have "ag_treatmentN (es_aggregate clear_state) < 2 ^ 53" "ag_controlN (es_aggregate clear_state) < 2 ^ 53" by (simp_all add: clear_state_def)
  from recommendations_are_justified [OF refl this, of 0] show ?thesis using clear_recommendation recommendation_cases by auto
qed

subsection \<open>Percentiles\<close>

lemma rotate_replace:
  assumes "n < length v"
  shows "rotate (Suc n) (v[n := x]) = tl (rotate n v) @ [x]"
proof -
  have "rotate n v = drop n v @ take n v" using assms by (simp add: rotate_drop_take)
  moreover have "rotate (Suc n) (v[n := x]) = drop (Suc n) v @ take n v @ [x]"
    using assms by (cases "Suc n = length v") (simp_all add: rotate_drop_take take_Suc_conv_app_nth upd_conv_take_nth_drop take_update_swap)
  ultimately show ?thesis using assms by (simp add: drop_Suc tl_drop)
qed

lemma window_ring:
  defines "w \<equiv> \<lambda>xs. foldl window_add empty_window xs"
  shows "rotate (sw_next (w xs)) (sw_values (w xs)) = drop (length xs - latencyWindow) xs \<and> sw_next (w xs) < latencyWindow \<and>
    (length xs < latencyWindow \<longrightarrow> sw_next (w xs) = 0)"
proof (induction xs rule: rev_induct)
  case Nil
  show ?case by (simp add: w_def empty_window_def latencyWindow_def)
next
  case (snoc x xs)
  let ?v = "sw_values (w xs)" and ?n = "sw_next (w xs)"
  have step: "w (xs @ [x]) = window_add (w xs) x" by (simp add: w_def)
  have len: "length ?v = length xs - (length xs - latencyWindow)" using snoc by (metis length_drop length_rotate)
  show ?case
  proof (cases "length xs < latencyWindow")
    case True
    then have n: "?n = 0" using snoc by blast
    from snoc have "rotate ?n ?v = drop (length xs - latencyWindow) xs" by blast
    with n True have "?v = xs" by simp
    with n show ?thesis using True len by (simp add: step window_add_def latencyWindow_def)
  next
    case False
    then have full: "length ?v = latencyWindow" using len by simp
    have w: "w (xs @ [x]) = (w xs)\<lparr>sw_values := ?v[?n := x], sw_next := Suc ?n mod latencyWindow\<rparr>"
      using full by (simp add: step window_add_def)
    have "rotate (Suc ?n mod latencyWindow) (?v[?n := x]) = rotate (Suc ?n) (?v[?n := x])"
      using full rotate_conv_mod [of "Suc ?n" "?v[?n := x]"] by simp
    also have "\<dots> = tl (drop (length xs - latencyWindow) xs) @ [x]" using rotate_replace [of ?n ?v x] snoc full by simp
    also have "\<dots> = drop (length (xs @ [x]) - latencyWindow) (xs @ [x])"
    proof -
      have "length (xs @ [x]) - latencyWindow = Suc (length xs - latencyWindow)" "Suc (length xs - latencyWindow) \<le> length xs"
        using False by (simp_all add: latencyWindow_def)
      then show ?thesis by (simp only: drop_append) (simp add: drop_Suc tl_drop)
    qed
    finally show ?thesis using False by (simp add: w latencyWindow_def)
  qed
qed

text \<open>
  the window behind the percentiles holds exactly the latest 2048 samples, and computing a percentile of it never leaves the list.
\<close>

theorem window_holds_latest_samples:
  assumes "w = foldl window_add empty_window xs"
  shows "mset (sw_values w) = mset (drop (length xs - latencyWindow) xs) \<and>
    (sw_values w \<noteq> [] \<longrightarrow> fst (percentiles w) \<in> set (sw_values w) \<and> fst (snd (percentiles w)) \<in> set (sw_values w) \<and>
      snd (snd (percentiles w)) \<in> set (sw_values w))"
proof -
  have "mset (rotate n v) = mset v" for n and v :: "real list"
    by (metis rotate_drop_take append_take_drop_id mset_append union_commute)
  then have m: "mset (sw_values w) = mset (drop (length xs - latencyWindow) xs)" using window_ring [of xs] assms by metis
  have size: "length (sw_values w) \<le> 2048" using arg_cong [OF m, of size] by (simp add: latencyWindow_def)
  have inside: "percentile s p \<in> set s" if "s \<noteq> []" "length s \<le> 2048" "0 \<le> p" "p \<le> 100" for s p
  proof -
    let ?n = "real (length s)"
    have q: "0 \<le> fdiv p 100" "fdiv p 100 \<le> 1" using that(3,4) round64_mono [of "p / 100" 1] by (simp_all add: fdiv_def)
    have "fmul (fdiv p 100) ?n \<le> round64 ?n"
      unfolding fmul_def using q by (intro round64_mono) (auto intro: mult_left_le_one_le)
    then have "fmul (fdiv p 100) (round64 ?n) \<le> ?n" using round64_int [of "length s"] that(2) by simp
    then have "\<lceil>fmul (fdiv p 100) (round64 ?n)\<rceil> \<le> int (length s)" by (simp add: ceiling_le_iff)
    then have "nat (if \<lceil>fmul (fdiv p 100) (round64 ?n)\<rceil> - 1 < 0 then 0 else \<lceil>fmul (fdiv p 100) (round64 ?n)\<rceil> - 1) < length s"
      using that(1) by (cases s) auto
    then show ?thesis by (simp add: percentile_def Let_def)
  qed
  show ?thesis
  proof (intro conjI impI m)
    assume "sw_values w \<noteq> []"
    then show "fst (percentiles w) \<in> set (sw_values w)" "fst (snd (percentiles w)) \<in> set (sw_values w)" "snd (snd (percentiles w)) \<in> set (sw_values w)"
      using inside [of "sort (sw_values w)"] size by (simp_all add: percentiles_def Let_def flip: set_empty)
  qed
qed


theorem window_holds_latest_samples_witness:
  "mset (sw_values (window_add empty_window 7)) = {#7#}"
  using window_holds_latest_samples [of "window_add empty_window 7" "[7]"] by (simp add: latencyWindow_def)

subsection \<open>A subject that expired\<close>

lemma count_aggregate: "es_aggregate (count_accepted st) = es_aggregate st"
  by (simp add: count_accepted_def expireSubjects_def Let_def)

text \<open>
  a subject whose window has passed is dropped with its arm's count kept; when a further exposure of it is accepted it enters as a new
  subject, and the count of its arm grows by one again.
\<close>

theorem expired_subject_is_counted_again:
  assumes "map_of (es_subjects st) k = Some s" and "distinct (map fst (es_subjects st))"
    and "watermark st > deadline s (seconds (x_ObservationWindowSeconds (es_config st)))"
    and "v_SubjectID event = k" and "v_Type event = Exposure" and "arms_ok (es_config st)"
    and "applyEvent (expireSubjects st) event arrivedAt = (st', r)" and "rc_Status r = Accepted"
  shows "ag_treatmentN (es_aggregate st') + ag_controlN (es_aggregate st') = ag_treatmentN (es_aggregate st) + ag_controlN (es_aggregate st) + 1"
proof -
  let ?e = "expireSubjects st" and ?w = "seconds (x_ObservationWindowSeconds (es_config st))" and ?arm = "assign (es_config st) k"
  have keep: "es_config ?e = es_config st" "es_aggregate ?e = es_aggregate st" by (simp_all add: expireSubjects_def Let_def)
  have "(k, x) \<notin> set (es_subjects ?e)" for x
    using assms(2,3) map_of_is_SomeI [OF assms(2), of k x] assms(1) by (auto simp: expireSubjects_def Let_def)
  then have gone: "map_of (es_subjects ?e) k = None" by (auto simp: map_of_eq_None_iff)
  from applyEvent_cases(2) [OF assms(7,8)] obtain st1 where st1: "es_config st1 = es_config st" "es_subjects st1 = es_subjects ?e"
    "es_aggregate st1 = es_aggregate st" "st' = count_accepted (attribute st1 event ?arm)" by (auto simp: keep assms(4))
  define n where "n = record_event (new_subject ?arm) event"
  have of_new: "subject_of st1 event ?arm = new_subject ?arm" using gone by (simp add: subject_of_def st1(2) assms(4))
  obtain s' c where calc: "calculateContribution n ?w = (s', c)" by fastforce
  have "co_exposed c" "co_arm c \<noteq> []"
    using calculate_fields(2,3) [OF calc] assign_arm [OF assms(6)] by (simp_all add: n_def record_event_def new_subject_def assms(5) Let_def)
  moreover have "es_aggregate st' = addContribution (es_aggregate st) c (x_TreatmentArm (es_config st))"
    using calc by (simp add: st1(4) count_aggregate attribute_eq [OF refl refl] of_new st1(1,3) n_def [symmetric])
      (simp add: new_subject_def no_contribution_def removeContribution_def)
  ultimately show ?thesis by (simp add: addContribution_def)
qed

definition expiring_state :: experimentState where
  "expiring_state = (new_state sample_config)\<lparr>es_subjects := [([115], (new_subject [116])\<lparr>sb_exposures := [100],
     sb_current := \<lparr>co_arm = [116], co_exposed = True, co_converted = False, co_value = 0\<rparr>\<rparr>)],
     es_aggregate := (es_aggregate (new_state sample_config))\<lparr>ag_treatmentN := 1\<rparr>, es_maxEventTime := 10 ^ 12\<rparr>"

theorem expired_subject_is_counted_again_witness:
  "\<exists>st' r. applyEvent (expireSubjects expiring_state) (sample_event\<lparr>v_Timestamp := 10 ^ 12\<rparr>) (10 ^ 12) = (st', r) \<and>
     ag_treatmentN (es_aggregate st') + ag_controlN (es_aggregate st') = 2"
proof -
  let ?v = "sample_event\<lparr>v_Timestamp := 10 ^ 12\<rparr>"
  obtain st' r where run: "applyEvent (expireSubjects expiring_state) ?v (10 ^ 12) = (st', r)" by fastforce
  have s: "seconds 60 = 60000000000" "seconds (-10) = - 10000000000" by (simp_all add: seconds_def wrap64_def)
  have arms: "arms_ok (es_config expiring_state)" by (simp add: arms_ok_def expiring_state_def new_state_def sample_config_def)
  have past: "watermark expiring_state > deadline ((new_subject [116])\<lparr>sb_exposures := [100],
      sb_current := \<lparr>co_arm = [116], co_exposed = True, co_converted = False, co_value = 0\<rparr>\<rparr>) (seconds (x_ObservationWindowSeconds (es_config expiring_state)))"
    by (simp add: watermark_def deadline_def expiring_state_def new_state_def sample_config_def s)
  have "rc_Status r = Accepted"
    using run by (auto simp: applyEvent_def Let_def rejects_def is_late_def watermark_def expireSubjects_def expiring_state_def new_state_def sample_config_def
        sample_event_def s zero_time_def split: if_splits)
  from expired_subject_is_counted_again [OF _ _ past _ _ arms run this] have
    "ag_treatmentN (es_aggregate st') + ag_controlN (es_aggregate st') = 2"
    by (simp add: expiring_state_def new_state_def sample_event_def)
  with run show ?thesis by blast
qed

subsection \<open>A lateness too large\<close>

lemma wrap64_once:
  assumes "n = m - 2 ^ 64" and "- (2 ^ 63) \<le> m" "m < 2 ^ 63"
  shows "wrap64 n = m"
proof -
  have "(n + 2 ^ 63) mod 2 ^ 64 = (n + 2 ^ 63 + 2 ^ 64) mod 2 ^ 64" by (rule mod_add_self2 [symmetric])
  also have "n + 2 ^ 63 + 2 ^ 64 = m + 2 ^ 63" using assms(1) by simp
  also have "(m + 2 ^ 63) mod 2 ^ 64 = m + 2 ^ 63" using assms(2,3) by (intro mod_pos_pos_trivial) auto
  finally show ?thesis by (simp add: wrap64_mod)
qed

text \<open>
  an allowed lateness between 292 and 584 years, which creation accepts, wraps to a watermark after the latest event: from the second event on,
  every event up to that time is late, although the configuration allows nearly any delay.
\<close>

theorem large_lateness_refuses_events:
  assumes "Create_config given rid now = Inr config" and "9223372036 < x_AllowedLatenessSeconds given" "x_AllowedLatenessSeconds given < 18446744073"
    and "es_config st = config" and "es_maxEventTime st \<noteq> zero_time" and "v_Timestamp event \<le> es_maxEventTime st"
    and "v_EventID event \<notin> set (es_seen st)" and "\<not> rejects st event (assign config (v_SubjectID event))"
  shows "rc_Status (snd (applyEvent st event arrivedAt)) = Late"
proof -
  let ?L = "x_AllowedLatenessSeconds given"
  have L: "x_AllowedLatenessSeconds config = ?L" using assms(1,2) by (auto simp: Create_config_def Let_def with_default_def split: if_splits)
  have "seconds (- ?L) = - (?L * 1000000000) + 2 ^ 64" unfolding seconds_def by (rule wrap64_once) (use assms(2,3) in auto)
  then have "is_late st event" using assms(2,3,5,6) by (simp add: is_late_def watermark_def assms(4) L)
  then have "is_late st' event" if "es_config st' = es_config st" "es_maxEventTime st' = es_maxEventTime st" for st'
    using that by (simp add: is_late_def watermark_def)
  moreover have "\<not> rejects st' event (assign config (v_SubjectID event))" if "es_config st' = es_config st" for st'
    using that assms(8) by (simp add: rejects_def)
  ultimately show ?thesis using assms(4,7) by (simp add: applyEvent_def Let_def)
qed


definition patient_config :: exp_config where "patient_config = sample_config\<lparr>x_AllowedLatenessSeconds := 10000000000\<rparr>"

theorem large_lateness_refuses_events_witness:
  "\<exists>config. Create_config patient_config [] 5 = Inr config \<and>
     rc_Status (snd (applyEvent ((new_state config)\<lparr>es_maxEventTime := 100\<rparr>) sample_event 200)) = Late"
proof -
  let ?st = "(new_state patient_config)\<lparr>es_maxEventTime := 100\<rparr>"
  have create: "Create_config patient_config [] 5 = Inr patient_config"
    by (simp add: Create_config_def patient_config_def sample_config_def with_default_def Let_def TrimSpace_def is_space_def)
  moreover have "rc_Status (snd (applyEvent ?st sample_event 200)) = Late"
    by (rule large_lateness_refuses_events [OF create])
      (simp_all add: patient_config_def new_state_def sample_event_def sample_config_def zero_time_def rejects_def)
  ultimately show ?thesis by blast
qed

end
