(* ===== verification/Catalog.thy ===== *)
theory Catalog
  imports Complex_Main SearchIndex "HOL-Library.Multiset"
begin

text \<open>
  \<^verbatim>\<open>internal/atlas/catalog.go\<close>: the entries and runs of the knowledge base, kept in memory and in one JSON file that every change replaces as a whole. JSON is
  the argument \<open>K\<close>; what the system calls of a change come to is an argument, as are the clock and the random bytes.
\<close>

subsection \<open>Entries and runs\<close>

record source =
  so_Provider :: str
  so_ID :: str
  so_URL :: str
  so_Path :: str
  so_MIMEType :: str
  so_ModifiedAt :: time
  so_ContentSHA256 :: str

record catalog_entry =
  ce_ID :: str
  ce_Title :: str
  ce_Body :: str
  ce_Type :: str
  ce_Tags :: "str list"
  ce_Source :: "source option"
  ce_CreatedAt :: time
  ce_UpdatedAt :: time

record catalog_run =
  cr_ID :: str
  cr_Name :: str
  cr_Model :: str
  cr_Dataset :: str
  cr_Status :: str
  cr_Score :: "real option"
  cr_Parameters :: "(str \<times> str) list"
  cr_Notes :: str
  cr_CreatedAt :: time
  cr_UpdatedAt :: time

type_synonym catalog_data = "(str \<times> catalog_entry) list \<times> (str \<times> catalog_run) list"

record catalog_codec =
  ck_marshal :: "catalog_data \<Rightarrow> byte list option"
  ck_unmarshal :: "byte list \<Rightarrow> ((str \<times> catalog_entry) list option \<times> (str \<times> catalog_run) list option) option"

text \<open>The catalog's file, if there is one, and the temporary file beside it.\<close>

record catalog =
  ca_file :: "byte list option"
  ca_tmp :: "byte list option"
  ca_entries :: "(str \<times> catalog_entry) list"
  ca_runs :: "(str \<times> catalog_run) list"

datatype catalog_error = ErrReadFile | ErrCatalogJSON | ErrTitleRequired | ErrNameRequired | ErrSourceRequired | ErrPersist

definition OpenCatalog :: "catalog_codec \<Rightarrow> bool \<Rightarrow> byte list option \<Rightarrow> byte list option \<Rightarrow> (catalog_error, catalog) result" where
  "OpenCatalog K readable file tmp =
     (case file of
        None \<Rightarrow> Inr \<lparr>ca_file = None, ca_tmp = tmp, ca_entries = [], ca_runs = []\<rparr>
      | Some payload \<Rightarrow>
          if \<not> readable then Inl ErrReadFile
          else (case ck_unmarshal K payload of
             None \<Rightarrow> Inl ErrCatalogJSON
           | Some (entries, runs) \<Rightarrow>
               Inr \<lparr>ca_file = file, ca_tmp = tmp, ca_entries = (case entries of None \<Rightarrow> [] | Some es \<Rightarrow> es),
                    ca_runs = (case runs of None \<Rightarrow> [] | Some rs \<Rightarrow> rs)\<rparr>))"

subsection \<open>Persisting\<close>

text \<open>All system calls succeed; or one fails, with what the temporary file holds then; or the rename fails, the temporary file being complete.\<close>

datatype persist_io = PersistDone | PersistTorn "byte list option" | RenameFailed

definition persistLocked :: "catalog_codec \<Rightarrow> persist_io \<Rightarrow> catalog \<Rightarrow> catalog \<times> bool" where
  "persistLocked K io c =
     (case ck_marshal K (ca_entries c, ca_runs c) of
        None \<Rightarrow> (c, False)
      | Some payload \<Rightarrow>
          (case io of
             PersistDone \<Rightarrow> (c\<lparr>ca_file := Some payload, ca_tmp := None\<rparr>, True)
           | PersistTorn left_over \<Rightarrow> (c\<lparr>ca_tmp := left_over\<rparr>, False)
           | RenameFailed \<Rightarrow> (c\<lparr>ca_tmp := Some payload\<rparr>, False)))"

text \<open>Storing under a key; if that cannot be persisted the previous value is put back.\<close>

definition put_back :: "str \<Rightarrow> 'v option \<Rightarrow> (str \<times> 'v) list \<Rightarrow> (str \<times> 'v) list" where
  "put_back k previous m = (case previous of Some v \<Rightarrow> AList.update k v m | None \<Rightarrow> AList.delete k m)"

definition ToLower :: "unicode \<Rightarrow> str \<Rightarrow> str" where "ToLower U s = map (to_lower U) s"

fun tags_loop :: "unicode \<Rightarrow> str list \<Rightarrow> str list \<Rightarrow> str list" where
  "tags_loop U [] seen = seen"
| "tags_loop U (tag # tags) seen =
     (let tag = ToLower U (TrimSpace tag) in
      if tag = [] \<or> tag \<in> set seen then tags_loop U tags seen
      else if length (seen @ [tag]) = 8 then seen @ [tag]
      else tags_loop U tags (seen @ [tag]))"

definition normalizeTags :: "unicode \<Rightarrow> str list \<Rightarrow> str list" where
  "normalizeTags U tags = tags_loop U tags []"

text \<open>Twelve random bytes, or the time if there are none; \<open>stamp\<close> is the time as \<^verbatim>\<open>RFC3339Nano\<close> writes it.\<close>

definition newID :: "byte list option \<Rightarrow> str \<Rightarrow> str" where
  "newID random stamp = (case random of Some bs \<Rightarrow> hex_string bs | None \<Rightarrow> hex_string (bytes_of stamp))"

definition trim_source :: "unicode \<Rightarrow> source \<Rightarrow> source" where
  "trim_source U s =
     s\<lparr>so_Provider := TrimSpace (so_Provider s), so_ID := TrimSpace (so_ID s), so_URL := TrimSpace (so_URL s), so_Path := TrimSpace (so_Path s),
       so_MIMEType := TrimSpace (so_MIMEType s), so_ContentSHA256 := ToLower U (TrimSpace (so_ContentSHA256 s))\<rparr>"

text \<open>The entry as it is stored: trimmed, with its defaults, an identifier and the times.\<close>

definition prepare_entry :: "unicode \<Rightarrow> time \<Rightarrow> str \<Rightarrow> catalog_entry \<Rightarrow> (catalog_error, catalog_entry) result" where
  "prepare_entry U now fresh entry =
     (let entry = entry\<lparr>ce_Title := TrimSpace (ce_Title entry), ce_Body := TrimSpace (ce_Body entry), ce_Type := TrimSpace (ce_Type entry)\<rparr> in
      if ce_Title entry = [] then Inl ErrTitleRequired
      else
        let entry = (if ce_Type entry = [] then entry\<lparr>ce_Type := map of_char ''Note''\<rparr> else entry);
            entry = (if ce_ID entry = [] then entry\<lparr>ce_ID := fresh\<rparr> else entry);
            entry = (if ce_CreatedAt entry = zero_time then entry\<lparr>ce_CreatedAt := now\<rparr> else entry);
            entry = entry\<lparr>ce_UpdatedAt := now, ce_Tags := normalizeTags U (ce_Tags entry), ce_Source := map_option (trim_source U) (ce_Source entry)\<rparr>
        in case ce_Source entry of
             Some s \<Rightarrow> if so_Provider s = [] \<or> so_ID s = [] then Inl ErrSourceRequired else Inr entry
           | None \<Rightarrow> Inr entry)"

definition SaveEntry :: "unicode \<Rightarrow> catalog_codec \<Rightarrow> persist_io \<Rightarrow> time \<Rightarrow> str \<Rightarrow> catalog \<Rightarrow> catalog_entry \<Rightarrow>
    catalog \<times> (catalog_error, catalog_entry) result" where
  "SaveEntry U K io now fresh c entry =
     (case prepare_entry U now fresh entry of
        Inl e \<Rightarrow> (c, Inl e)
      | Inr entry \<Rightarrow>
          let previous = map_of (ca_entries c) (ce_ID entry) in
          case persistLocked K io (c\<lparr>ca_entries := AList.update (ce_ID entry) entry (ca_entries c)\<rparr>) of
            (c, True) \<Rightarrow> (c, Inr entry)
          | (c, False) \<Rightarrow> (c\<lparr>ca_entries := put_back (ce_ID entry) previous (ca_entries c)\<rparr>, Inl ErrPersist))"

definition prepare_run :: "time \<Rightarrow> str \<Rightarrow> catalog_run \<Rightarrow> (catalog_error, catalog_run) result" where
  "prepare_run now fresh r =
     (let r = r\<lparr>cr_Name := TrimSpace (cr_Name r)\<rparr> in
      if cr_Name r = [] then Inl ErrNameRequired
      else
        let r = (if cr_Status r = [] then r\<lparr>cr_Status := map of_char ''Queued''\<rparr> else r);
            r = (if cr_ID r = [] then r\<lparr>cr_ID := fresh\<rparr> else r);
            r = (if cr_CreatedAt r = zero_time then r\<lparr>cr_CreatedAt := now\<rparr> else r)
        in Inr (r\<lparr>cr_UpdatedAt := now\<rparr>))"

definition SaveRun :: "catalog_codec \<Rightarrow> persist_io \<Rightarrow> time \<Rightarrow> str \<Rightarrow> catalog \<Rightarrow> catalog_run \<Rightarrow> catalog \<times> (catalog_error, catalog_run) result" where
  "SaveRun K io now fresh c r =
     (case prepare_run now fresh r of
        Inl e \<Rightarrow> (c, Inl e)
      | Inr r \<Rightarrow>
          let previous = map_of (ca_runs c) (cr_ID r) in
          case persistLocked K io (c\<lparr>ca_runs := AList.update (cr_ID r) r (ca_runs c)\<rparr>) of
            (c, True) \<Rightarrow> (c, Inr r)
          | (c, False) \<Rightarrow> (c\<lparr>ca_runs := put_back (cr_ID r) previous (ca_runs c)\<rparr>, Inl ErrPersist))"

subsection \<open>Reading\<close>

text \<open>Latest change first; among equal times the order of the code is not determined, the model takes one.\<close>

definition Entries :: "catalog \<Rightarrow> catalog_entry list" where
  "Entries c = sort_key (\<lambda>e. - ce_UpdatedAt e) (map snd (ca_entries c))"

definition Runs :: "catalog \<Rightarrow> catalog_run list" where
  "Runs c = sort_key (\<lambda>r. - cr_UpdatedAt r) (map snd (ca_runs c))"

definition Entry :: "catalog \<Rightarrow> str \<Rightarrow> catalog_entry option" where "Entry c id' = map_of (ca_entries c) id'"

definition Counts :: "catalog \<Rightarrow> nat \<times> nat" where "Counts c = (length (ca_entries c), length (ca_runs c))"

subsection \<open>The invariant\<close>

text \<open>The file is read as these entries and runs, in any order.\<close>

definition file_holds :: "catalog_codec \<Rightarrow> byte list \<Rightarrow> (str \<times> catalog_entry) list \<Rightarrow> (str \<times> catalog_run) list \<Rightarrow> bool" where
  "file_holds K payload es rs \<longleftrightarrow> (\<exists>es' rs'. ck_unmarshal K payload = Some (Some es', Some rs') \<and> mset es' = mset es \<and> mset rs' = mset rs)"

text \<open>JSON gives back what it was given, up to the order of the keys.\<close>

definition catalog_law :: "catalog_codec \<Rightarrow> bool" where
  "catalog_law K \<longleftrightarrow> (\<forall>es rs payload. ck_marshal K (es, rs) = Some payload \<longrightarrow> file_holds K payload es rs)"

text \<open>Memory says what the file says.\<close>

definition catalog_ok :: "catalog_codec \<Rightarrow> catalog \<Rightarrow> bool" where
  "catalog_ok K c \<longleftrightarrow> distinct (map fst (ca_entries c)) \<and> distinct (map fst (ca_runs c)) \<and>
     (case ca_file c of
        None \<Rightarrow> ca_entries c = [] \<and> ca_runs c = []
      | Some payload \<Rightarrow> file_holds K payload (ca_entries c) (ca_runs c))"

lemma put_back_update:
  assumes "distinct (map fst m)"
  shows "put_back k (map_of m k) (AList.update k v m) = m"
proof (cases "map_of m k")
  case None
  then have "AList.update k v m = m @ [(k, v)]" by (rule update_absent)
  moreover have "AList.delete k m = m" using None by (simp add: AList.delete_id map_of_eq_None_iff)
  ultimately show ?thesis by (simp add: put_back_def None AList.delete_eq)
next
  case (Some w)
  have "AList.update k w (AList.update k v m) = m" using Some assms
    by (induction m) auto
  then show ?thesis by (simp add: put_back_def Some)
qed

lemma persist_entries:
  assumes ok: "catalog_ok K c" and law: "catalog_law K"
    and p: "persistLocked K io (c\<lparr>ca_entries := AList.update k e (ca_entries c)\<rparr>) = (c', done_ok)"
  shows "if done_ok then catalog_ok K c' \<and> ca_entries c' = AList.update k e (ca_entries c) \<and> ca_runs c' = ca_runs c
    else catalog_ok K (c'\<lparr>ca_entries := ca_entries c\<rparr>) \<and> ca_file c' = ca_file c \<and> ca_entries c' = AList.update k e (ca_entries c) \<and> ca_runs c' = ca_runs c"
  using ok p law distinct_update [of "ca_entries c" k e]
  by (auto simp: persistLocked_def catalog_ok_def catalog_law_def split: option.splits persist_io.splits)

lemma persist_runs:
  assumes ok: "catalog_ok K c" and law: "catalog_law K"
    and p: "persistLocked K io (c\<lparr>ca_runs := AList.update k r (ca_runs c)\<rparr>) = (c', done_ok)"
  shows "if done_ok then catalog_ok K c' \<and> ca_runs c' = AList.update k r (ca_runs c) \<and> ca_entries c' = ca_entries c
    else catalog_ok K (c'\<lparr>ca_runs := ca_runs c\<rparr>) \<and> ca_file c' = ca_file c \<and> ca_runs c' = AList.update k r (ca_runs c) \<and> ca_entries c' = ca_entries c"
  using ok p law distinct_update [of "ca_runs c" k r]
  by (auto simp: persistLocked_def catalog_ok_def catalog_law_def split: option.splits persist_io.splits)

subsection \<open>What a save does\<close>

lemma SaveEntry_cases:
  assumes ok: "catalog_ok K c" and law: "catalog_law K" and s: "SaveEntry U K io now fresh c entry = (c', res)"
  shows "catalog_ok K c' \<and> ca_runs c' = ca_runs c \<and>
    (case res of Inl e \<Rightarrow> ca_entries c' = ca_entries c \<and> ca_file c' = ca_file c
     | Inr e \<Rightarrow> prepare_entry U now fresh entry = Inr e \<and> ca_entries c' = AList.update (ce_ID e) e (ca_entries c))"
proof (cases "prepare_entry U now fresh entry")
  case (Inl e)
  from s ok Inl have "res = Inl e \<and> c' = c" by (simp add: SaveEntry_def)
  then show ?thesis using ok by simp
next
  case (Inr e)
  obtain c1 done_ok where p: "persistLocked K io (c\<lparr>ca_entries := AList.update (ce_ID e) e (ca_entries c)\<rparr>) = (c1, done_ok)"
    by (cases "persistLocked K io (c\<lparr>ca_entries := AList.update (ce_ID e) e (ca_entries c)\<rparr>)")
  have "distinct (map fst (ca_entries c))" using ok by (simp add: catalog_ok_def)
  note restored = put_back_update [OF this]
  show ?thesis
  proof (cases done_ok)
    case True
    with s Inr p have "c' = c1 \<and> res = Inr e" by (simp add: SaveEntry_def)
    then show ?thesis using persist_entries [OF ok law p] True Inr by simp
  next
    case False
    with s Inr p have "c' = c1\<lparr>ca_entries := put_back (ce_ID e) (map_of (ca_entries c) (ce_ID e)) (ca_entries c1)\<rparr> \<and> res = Inl ErrPersist"
      by (auto simp: SaveEntry_def)
    then show ?thesis using persist_entries [OF ok law p] False restored by simp
  qed
qed

lemma SaveRun_cases:
  assumes ok: "catalog_ok K c" and law: "catalog_law K" and s: "SaveRun K io now fresh c r = (c', res)"
  shows "catalog_ok K c' \<and> ca_entries c' = ca_entries c \<and>
    (case res of Inl e \<Rightarrow> ca_runs c' = ca_runs c \<and> ca_file c' = ca_file c
     | Inr r' \<Rightarrow> prepare_run now fresh r = Inr r' \<and> ca_runs c' = AList.update (cr_ID r') r' (ca_runs c))"
proof (cases "prepare_run now fresh r")
  case (Inl e)
  from s ok Inl have "res = Inl e \<and> c' = c" by (simp add: SaveRun_def)
  then show ?thesis using ok by simp
next
  case (Inr e)
  obtain c1 done_ok where p: "persistLocked K io (c\<lparr>ca_runs := AList.update (cr_ID e) e (ca_runs c)\<rparr>) = (c1, done_ok)"
    by (cases "persistLocked K io (c\<lparr>ca_runs := AList.update (cr_ID e) e (ca_runs c)\<rparr>)")
  have "distinct (map fst (ca_runs c))" using ok by (simp add: catalog_ok_def)
  note restored = put_back_update [OF this]
  show ?thesis
  proof (cases done_ok)
    case True
    with s Inr p have "c' = c1 \<and> res = Inr e" by (simp add: SaveRun_def)
    then show ?thesis using persist_runs [OF ok law p] True Inr by simp
  next
    case False
    with s Inr p have "c' = c1\<lparr>ca_runs := put_back (cr_ID e) (map_of (ca_runs c) (cr_ID e)) (ca_runs c1)\<rparr> \<and> res = Inl ErrPersist"
      by (auto simp: SaveRun_def)
    then show ?thesis using persist_runs [OF ok law p] False restored by simp
  qed
qed

text \<open>Opened again, whatever the temporary file holds, the catalog has the same entries and runs.\<close>

lemma reopen_catalog:
  assumes "catalog_ok K c"
  shows "\<exists>c2. OpenCatalog K True (ca_file c) tmp = Inr c2 \<and> mset (ca_entries c2) = mset (ca_entries c) \<and> mset (ca_runs c2) = mset (ca_runs c)"
  using assms by (auto simp: catalog_ok_def OpenCatalog_def file_holds_def split: option.splits)

subsection \<open>Tags\<close>

lemma tags_loop_spec:
  assumes "distinct seen" "length seen < 8" "\<forall>t \<in> set seen. t \<noteq> []"
  shows "distinct (tags_loop U tags seen) \<and> length (tags_loop U tags seen) \<le> 8 \<and> (\<forall>t \<in> set (tags_loop U tags seen). t \<noteq> []) \<and>
    set (tags_loop U tags seen) \<subseteq> set seen \<union> (\<lambda>t. ToLower U (TrimSpace t)) ` set tags"
  using assms
proof (induction U tags seen rule: tags_loop.induct)
  case (1 U seen)
  then show ?case by simp
next
  case (2 U tag tags seen)
  let ?t = "ToLower U (TrimSpace tag)"
  consider (skip) "?t = [] \<or> ?t \<in> set seen" | (full) "\<not> (?t = [] \<or> ?t \<in> set seen)" "length (seen @ [?t]) = 8"
    | (go) "\<not> (?t = [] \<or> ?t \<in> set seen)" "length (seen @ [?t]) \<noteq> 8" by blast
  then show ?case
  proof cases
    case skip
    then have "tags_loop U (tag # tags) seen = tags_loop U tags seen" by simp
    then show ?thesis using 2(1) [OF refl skip 2(3-5)] by auto
  next
    case full
    then have "tags_loop U (tag # tags) seen = seen @ [?t]" by simp
    then show ?thesis using full 2(3-5) by auto
  next
    case go
    then have "tags_loop U (tag # tags) seen = tags_loop U tags (seen @ [?t])" by simp
    then show ?thesis using 2(2) [OF refl go] go 2(3-5) by auto
  qed
qed

lemma normalizeTags_spec:
  "distinct (normalizeTags U tags) \<and> length (normalizeTags U tags) \<le> 8 \<and> [] \<notin> set (normalizeTags U tags) \<and>
   set (normalizeTags U tags) \<subseteq> (\<lambda>t. ToLower U (TrimSpace t)) ` set tags"
  using tags_loop_spec [of "[]" U tags] by (auto simp: normalizeTags_def)

text \<open>A stored entry has a title, a type and an identifier, unless the random bytes fail and the time is written as nothing.\<close>

lemma prepared_entry:
  assumes "prepare_entry U now fresh entry = Inr e"
  shows "ce_Title e \<noteq> []" "ce_Type e \<noteq> []" "fresh \<noteq> [] \<Longrightarrow> ce_ID e \<noteq> []" "ce_UpdatedAt e = now" "ce_Tags e = normalizeTags U (ce_Tags entry)"
    "ce_ID entry \<noteq> [] \<Longrightarrow> ce_ID e = ce_ID entry"
  using assms by (auto simp: prepare_entry_def Let_def split: if_splits option.splits)

lemma prepared_run:
  assumes "prepare_run now fresh r = Inr r'"
  shows "cr_Name r' \<noteq> []" "fresh \<noteq> [] \<Longrightarrow> cr_ID r' \<noteq> []" "cr_UpdatedAt r' = now" "cr_ID r \<noteq> [] \<Longrightarrow> cr_ID r' = cr_ID r"
  using assms by (auto simp: prepare_run_def Let_def split: if_splits)

subsection \<open>The catalog over time\<close>

text \<open>Started on an empty directory; every save ends in some way, and the process can be stopped and started at any time.\<close>

inductive catalog_reachable :: "unicode \<Rightarrow> catalog_codec \<Rightarrow> catalog \<Rightarrow> bool" for U K where
  first_open: "OpenCatalog K True None tmp = Inr c \<Longrightarrow> catalog_reachable U K c"
| saved_entry: "catalog_reachable U K c \<Longrightarrow> SaveEntry U K io now fresh c entry = (c', res) \<Longrightarrow> catalog_reachable U K c'"
| saved_run: "catalog_reachable U K c \<Longrightarrow> SaveRun K io now fresh c r = (c', res) \<Longrightarrow> catalog_reachable U K c'"
| opened_again: "catalog_reachable U K c \<Longrightarrow> OpenCatalog K True (ca_file c) tmp = Inr c' \<Longrightarrow> catalog_reachable U K c'"

lemma reopened_ok:
  assumes "catalog_ok K c" and "OpenCatalog K True (ca_file c) tmp = Inr c'"
  shows "catalog_ok K c'" and "mset (ca_entries c') = mset (ca_entries c)" and "mset (ca_runs c') = mset (ca_runs c)"
proof -
  have keys: "distinct (map fst (ca_entries c')) = distinct (map fst (ca_entries c))" if "mset (ca_entries c') = mset (ca_entries c)"
    using that by (metis mset_eq_imp_distinct_iff mset_map)
  have keys': "distinct (map fst (ca_runs c')) = distinct (map fst (ca_runs c))" if "mset (ca_runs c') = mset (ca_runs c)"
    using that by (metis mset_eq_imp_distinct_iff mset_map)
  show m: "mset (ca_entries c') = mset (ca_entries c)" "mset (ca_runs c') = mset (ca_runs c)"
    using assms by (auto simp: catalog_ok_def OpenCatalog_def file_holds_def split: option.splits)
  show "catalog_ok K c'"
    using assms keys [OF m(1)] keys' [OF m(2)] m
    by (auto simp: catalog_ok_def OpenCatalog_def file_holds_def split: option.splits)
qed

lemma catalog_reachable_ok:
  assumes "catalog_reachable U K c" and law: "catalog_law K"
  shows "catalog_ok K c"
  using assms(1)
proof induction
  case (first_open tmp c)
  then show ?case by (auto simp: OpenCatalog_def catalog_ok_def)
next
  case (saved_entry c io now fresh entry c' res)
  then show ?case using SaveEntry_cases [OF _ law] by blast
next
  case (saved_run c io now fresh r c' res)
  then show ?case using SaveRun_cases [OF _ law] by blast
next
  case (opened_again c tmp c')
  then show ?case using reopened_ok(1) by blast
qed

lemma same_lookup:
  assumes "mset m' = mset m" and "distinct (map fst m)"
  shows "map_of m' = map_of m"
  using assms by (metis map_of_inject_set mset_eq_setD mset_eq_imp_distinct_iff mset_map)

text \<open>
  C28: A save that is acknowledged is kept and one that is refused or fails changes nothing; started again, wherever the process was stopped,
  the catalog has the same entries and runs, whatever the temporary file holds.
\<close>

theorem catalog_survives_crash:
  assumes law: "catalog_law K" and reach: "catalog_reachable U K c"
    and save: "SaveEntry U K io now fresh c entry = (c', res)"
  shows "(case res of
        Inl e \<Rightarrow> Entry c' = Entry c \<and> ca_file c' = ca_file c
      | Inr e \<Rightarrow> Entry c' = (Entry c)(ce_ID e \<mapsto> e) \<and> ce_Title e \<noteq> [] \<and> distinct (ce_Tags e) \<and> length (ce_Tags e) \<le> 8) \<and>
    ca_runs c' = ca_runs c \<and>
    (\<exists>c2. OpenCatalog K True (ca_file c') tmp = Inr c2 \<and> Entry c2 = Entry c' \<and> map_of (ca_runs c2) = map_of (ca_runs c') \<and> Counts c2 = Counts c')"
proof -
  note cases' = SaveEntry_cases [OF catalog_reachable_ok [OF reach law] law save]
  then have ok: "catalog_ok K c'" by blast
  obtain c2 where c2: "OpenCatalog K True (ca_file c') tmp = Inr c2" using reopen_catalog [OF ok] by blast
  note m = reopened_ok(2,3) [OF ok c2]
  have "map_of (ca_entries c2) = map_of (ca_entries c')" "map_of (ca_runs c2) = map_of (ca_runs c')"
    using ok by (auto simp: catalog_ok_def intro!: same_lookup m)
  moreover have "Counts c2 = Counts c'" using mset_eq_length [OF m(1)] mset_eq_length [OF m(2)] by (simp add: Counts_def)
  ultimately show ?thesis
    using cases' c2 prepared_entry(1,5) normalizeTags_spec
    by (auto simp: Entry_def fun_eq_iff update_conv' split: sum.splits)
qed

text \<open>One entry saved in an empty catalog.\<close>

definition first_entry :: catalog_entry where
  "first_entry = \<lparr>ce_ID = [97], ce_Title = [116], ce_Body = [98], ce_Type = [78], ce_Tags = [], ce_Source = None, ce_CreatedAt = 1, ce_UpdatedAt = 2\<rparr>"

text \<open>A later version of it, and a codec that knows the catalogs with one of them.\<close>

definition later_entry :: catalog_entry where "later_entry = first_entry\<lparr>ce_Body := [99], ce_UpdatedAt := 3\<rparr>"

definition two_codec :: catalog_codec where
  "two_codec =
     \<lparr>ck_marshal = (\<lambda>d. if d = ([([97], first_entry)], []) then Some [123] else if d = ([([97], later_entry)], []) then Some [124] else None),
      ck_unmarshal = (\<lambda>payload. if payload = [123] then Some (Some [([97], first_entry)], Some [])
        else if payload = [124] then Some (Some [([97], later_entry)], Some []) else None)\<rparr>"

definition empty_catalog :: catalog where
  "empty_catalog = \<lparr>ca_file = None, ca_tmp = None, ca_entries = [], ca_runs = []\<rparr>"

definition no_case :: unicode where "no_case = \<lparr>is_letter = (\<lambda>r. True), is_digit = (\<lambda>r. False), to_lower = (\<lambda>r. r)\<rparr>"

lemma two_codec_law: "catalog_law two_codec"
  by (auto simp: catalog_law_def two_codec_def file_holds_def split: if_splits)

lemma empty_reachable: "catalog_reachable U K empty_catalog"
  by (rule catalog_reachable.first_open [of K None]) (simp add: OpenCatalog_def empty_catalog_def)

lemma first_prepared: "prepare_entry no_case 2 [120] first_entry = Inr first_entry"
  by (simp add: prepare_entry_def first_entry_def TrimSpace_def is_space_def normalizeTags_def zero_time_def Let_def)

lemma later_prepared: "prepare_entry no_case 3 [120] later_entry = Inr later_entry"
  by (simp add: prepare_entry_def later_entry_def first_entry_def TrimSpace_def is_space_def normalizeTags_def zero_time_def Let_def)

lemma first_saved:
  "SaveEntry no_case two_codec PersistDone 2 [120] empty_catalog first_entry =
    (\<lparr>ca_file = Some [123], ca_tmp = None, ca_entries = [([97], first_entry)], ca_runs = []\<rparr>, Inr first_entry)"
proof -
  have "ce_ID first_entry = [97]" by (simp add: first_entry_def)
  then show ?thesis by (simp add: SaveEntry_def first_prepared persistLocked_def two_codec_def empty_catalog_def)
qed

theorem catalog_survives_crash_witness:
  "\<exists>c2. OpenCatalog two_codec True (ca_file (fst (SaveEntry no_case two_codec PersistDone 2 [120] empty_catalog first_entry))) (Some [0]) = Inr c2 \<and>
     Entry c2 [97] = Some first_entry"
proof -
  have "ce_ID first_entry = [97]" by (simp add: first_entry_def)
  then show ?thesis
    using catalog_survives_crash [OF two_codec_law empty_reachable first_saved, of "Some [0]"] by (auto simp: first_saved)
qed

end
