(* ===== verification/AtlasServer.thy ===== *)
theory AtlasServer
  imports Catalog SearchNode Invoke TsStore ExpEngine Queue
begin

text \<open>
  The Atlas server of \<^verbatim>\<open>internal/atlas/server.go\<close>: how its parts are opened, the entries and runs of the knowledge base, search over entries and live
  documents, and the counters it shows. The parts are the models of their own theories; encodings, clock, disk outcomes and random bytes are arguments.
  One request is served without another in between, except that documents may change at any time.
\<close>

subsection \<open>State\<close>

record requestBucket =
  rb_Minute :: int
  rb_Count :: uint64

record atlas =
  at_catalog :: catalog
  at_docs :: store
  at_origins :: "str list"
  at_index :: index
  at_wal :: "byte list"
  at_metrics :: tsdb
  at_impact :: engine
  at_queue :: queue
  at_started :: time
  at_requests :: uint64
  at_searchTimes :: "int list"
  at_traffic :: "requestBucket list"

record atlas_codec =
  ac_catalog :: catalog_codec
  ac_doc :: doc_codec
  ac_rec :: rec_codec
  ac_ts :: ts_codec
  ac_exp :: exp_codec
  ac_queue :: Queue.codec

text \<open>What is in the data directory, and how the system calls of the start end.\<close>

record atlas_files =
  af_catalog :: "byte list option"
  af_catalog_tmp :: "byte list option"
  af_wal :: "byte list"
  af_samples :: "byte list"
  af_blocks :: "(str \<times> byte list) list"
  af_events :: "byte list"
  af_jobs :: "byte list option"
  af_journal :: "byte list"
  af_docs :: dir

record atlas_io =
  ao_directory :: bool
  ao_catalog :: bool
  ao_wal :: bool
  ao_queue :: bool
  ao_objects :: bool
  ao_locked :: bool
  ao_names :: "str list option"
  ao_logs :: "str \<Rightarrow> bool"
  ao_read :: "str \<Rightarrow> disk"
  ao_took :: real

datatype atlas_error = ErrDataDir | ErrAtCatalog catalog_error | ErrWALFile | ErrAtWAL wal_error | ErrAtMetrics ts_error | ErrAtImpact exp_error
  | ErrAtQueue queue_error | ErrObjects | ErrWriter | ErrAtDocs store_error

definition at_err :: "('e \<Rightarrow> atlas_error) \<Rightarrow> ('e, 'a) result \<Rightarrow> (atlas_error, 'a) result" where
  "at_err f r = (case r of Inl e \<Rightarrow> Inl (f e) | Inr x \<Rightarrow> Inr x)"

subsection \<open>Live documents in the index\<close>

definition docPrefix :: str where "docPrefix = map of_char ''doc:''"

definition live_document :: "docInfo \<Rightarrow> str \<Rightarrow> sdoc" where
  "live_document i text_value = \<lparr>sd_ID = docPrefix @ i_id i, sd_Title = i_title i, sd_Body = text_value\<rparr>"

definition indexDoc :: "unicode \<Rightarrow> atlas \<Rightarrow> docInfo \<Rightarrow> str \<Rightarrow> atlas" where
  "indexDoc U a i text_value = a\<lparr>at_index := Upsert U (at_index a) (live_document i text_value)\<rparr>"

definition each_doc :: "unicode \<Rightarrow> rec_codec \<Rightarrow> atlas_io \<Rightarrow> time \<Rightarrow> atlas \<Rightarrow> docInfo \<Rightarrow> atlas" where
  "each_doc U J io now a i =
     (case Read J (ao_logs io (i_id i)) now (ao_read io (i_id i)) [] [] (at_docs a) (i_id i) of
        (st, Inr sn) \<Rightarrow> indexDoc U (a\<lparr>at_docs := st\<rparr>) (sn_doc sn) (sn_text sn)
      | (st, Inl e) \<Rightarrow> a\<lparr>at_docs := st\<rparr>)"

definition Each :: "unicode \<Rightarrow> rec_codec \<Rightarrow> atlas_io \<Rightarrow> time \<Rightarrow> atlas \<Rightarrow> atlas" where
  "Each U J io now a = foldl (each_doc U J io now) a (List_docs (at_docs a))"

subsection \<open>Opening\<close>

definition entry_document :: "catalog_entry \<Rightarrow> sdoc" where
  "entry_document e = \<lparr>sd_ID = ce_ID e, sd_Title = ce_Title e, sd_Body = ce_Body e @ [0x20] @ join_space (ce_Tags e)\<rparr>"

text \<open>\<^verbatim>\<open>strings.TrimRight(s, "/")\<close>\<close>

definition trim_slashes :: "str \<Rightarrow> str" where
  "trim_slashes s = List.rev (dropWhile (\<lambda>r. r = 0x2F) (List.rev s))"

definition allowed_origins :: "str list \<Rightarrow> str list" where
  "allowed_origins os = filter (\<lambda>s. s \<noteq> []) (map (\<lambda>s. trim_slashes (TrimSpace s)) os)"

definition no_traffic :: "requestBucket list" where "no_traffic = replicate 12 \<lparr>rb_Minute = 0, rb_Count = 0\<rparr>"

definition catalog_index :: "unicode \<Rightarrow> catalog \<Rightarrow> index" where
  "catalog_index U c = foldl (\<lambda>i e. Upsert U i (entry_document e)) NewIndex (Entries c)"

text \<open>
  The parts, up to the live documents. \<open>writer\<close> is the Writer agent if one is configured, or nothing if its configuration is refused.
\<close>

definition open_parts :: "unicode \<Rightarrow> atlas_codec \<Rightarrow> atlas_io \<Rightarrow> time \<Rightarrow> agentInfo list option \<Rightarrow> str list \<Rightarrow> atlas_files \<Rightarrow>
    (atlas_error, atlas) result" where
  "open_parts U C io now writer origins files =
     (if \<not> ao_directory io then Inl ErrDataDir
      else rbind (at_err ErrAtCatalog (OpenCatalog (ac_catalog C) (ao_catalog io) (af_catalog files) (af_catalog_tmp files))) (\<lambda>catalog.
        if \<not> ao_wal io then Inl ErrWALFile
        else rbind (at_err ErrAtWAL (wal_Replay U (ac_doc C) (af_wal files) (catalog_index U catalog))) (\<lambda>index.
        rbind (at_err ErrAtMetrics (TsStore.OpenStore (ac_ts C) 1024 (af_samples files) (af_blocks files))) (\<lambda>metrics.
        rbind (at_err ErrAtImpact (Open (ac_exp C) (af_events files) (ao_took io))) (\<lambda>impact.
        rbind (at_err ErrAtQueue (OpenQueue (ac_queue C) (ao_queue io) (af_jobs files) (af_journal files))) (\<lambda>queue.
          if \<not> ao_objects io then Inl ErrObjects
          else case writer of
            None \<Rightarrow> Inl ErrWriter
          | Some agents \<Rightarrow>
              rbind (at_err ErrAtDocs (DocStore.OpenStore (ac_rec C) (ao_logs io) now (ao_locked io) 0 0 agents (ao_names io) (af_docs files))) (\<lambda>docs.
                Inr \<lparr>at_catalog = catalog, at_docs = docs, at_origins = allowed_origins origins, at_index = index, at_wal = af_wal files,
                  at_metrics = metrics, at_impact = impact, at_queue = queue, at_started = now, at_requests = 0, at_searchTimes = [],
                  at_traffic = no_traffic\<rparr>)))))))"

text \<open>The text of the live documents is rebuilt from their own logs.\<close>

definition OpenWithOptions :: "unicode \<Rightarrow> atlas_codec \<Rightarrow> atlas_io \<Rightarrow> time \<Rightarrow> agentInfo list option \<Rightarrow> str list \<Rightarrow> atlas_files \<Rightarrow>
    (atlas_error, atlas) result" where
  "OpenWithOptions U C io now writer origins files =
     rbind (open_parts U C io now writer origins files) (\<lambda>a. Inr (Each U (ac_rec C) io now a))"

text \<open>Documents first: each session flushes the edits it has accepted.\<close>

definition Close_server :: "rec_codec \<Rightarrow> (str \<Rightarrow> disk) \<Rightarrow> atlas \<Rightarrow> atlas" where
  "Close_server J disk a = a\<lparr>at_docs := Close_store J disk (at_docs a), at_queue := Queue.Close (at_queue a)\<rparr>"

subsection \<open>Entries and runs\<close>

datatype entry_response = EntryBadJSON | EntryRefused catalog_error | EntryNotIndexed | EntryCreated catalog_entry

definition entries_post :: "unicode \<Rightarrow> atlas_codec \<Rightarrow> persist_io \<Rightarrow> doc_io \<Rightarrow> time \<Rightarrow> str \<Rightarrow> atlas \<Rightarrow> catalog_entry option \<Rightarrow> atlas \<times> entry_response" where
  "entries_post U C io wal_io now fresh a body =
     (case body of
        None \<Rightarrow> (a, EntryBadJSON)
      | Some entry \<Rightarrow>
          (case SaveEntry U (ac_catalog C) io now fresh (at_catalog a) entry of
             (c, Inl e) \<Rightarrow> (a\<lparr>at_catalog := c\<rparr>, EntryRefused e)
           | (c, Inr saved) \<Rightarrow>
               let a = a\<lparr>at_catalog := c\<rparr>; document = entry_document saved in
               (case wal_Append (ac_doc C) wal_io (at_wal a) document of
                  (wal, False) \<Rightarrow> (a\<lparr>at_wal := wal\<rparr>, EntryNotIndexed)
                | (wal, True) \<Rightarrow> (a\<lparr>at_wal := wal, at_index := Upsert U (at_index a) document\<rparr>, EntryCreated saved))))"

datatype run_response = RunBadJSON | RunRefused catalog_error | RunSaved catalog_run

definition runs_post :: "atlas_codec \<Rightarrow> persist_io \<Rightarrow> time \<Rightarrow> str \<Rightarrow> atlas \<Rightarrow> catalog_run option \<Rightarrow> atlas \<times> run_response" where
  "runs_post C io now fresh a body =
     (case body of
        None \<Rightarrow> (a, RunBadJSON)
      | Some r \<Rightarrow>
          (case SaveRun (ac_catalog C) io now fresh (at_catalog a) r of
             (c, Inl e) \<Rightarrow> (a\<lparr>at_catalog := c\<rparr>, RunRefused e)
           | (c, Inr saved) \<Rightarrow> (a\<lparr>at_catalog := c\<rparr>, RunSaved saved)))"

definition updateRun :: "atlas_codec \<Rightarrow> persist_io \<Rightarrow> time \<Rightarrow> str \<Rightarrow> atlas \<Rightarrow> str \<Rightarrow> catalog_run option \<Rightarrow> atlas \<times> run_response" where
  "updateRun C io now fresh a id' body = runs_post C io now fresh a (map_option (\<lambda>r. r\<lparr>cr_ID := id'\<rparr>) body)"

subsection \<open>Search\<close>

definition dots :: str where "dots = map of_char ''...''"

definition snippet :: "str \<Rightarrow> nat \<Rightarrow> str" where
  "snippet text_value limit =
     (let text_value = join_space (fields_loop is_space [] text_value) in
      if length text_value > limit then TrimSpace (take limit text_value) @ dots else text_value)"

text \<open>A live document is looked for first, so that an entry cannot pose as one by its id.\<close>

definition lookup :: "atlas \<Rightarrow> str \<Rightarrow> catalog_entry option" where
  "lookup a id' =
     (if HasPrefix id' docPrefix then
        (case Summary (at_docs a) (drop (length docPrefix) id') of
           None \<Rightarrow> None
         | Some su \<Rightarrow>
             Some \<lparr>ce_ID = id', ce_Title = i_title (su_info su), ce_Body = snippet (su_snippet su) 280, ce_Type = map of_char ''Doc'', ce_Tags = [],
               ce_Source = None, ce_CreatedAt = i_createdAt (su_info su), ce_UpdatedAt = i_updatedAt (su_info su)\<rparr>)
      else Entry (at_catalog a) id')"

definition agentSearch :: "unicode \<Rightarrow> (real \<Rightarrow> real) \<Rightarrow> atlas \<Rightarrow> str \<Rightarrow> int \<Rightarrow> Invoke.hit list" where
  "agentSearch U lg a query limit =
     List.map_filter (\<lambda>r. map_option (\<lambda>e. \<lparr>ht_ID = ce_ID e, ht_Title = ce_Title e, ht_Type = ce_Type e, ht_Snippet = snippet (ce_Body e) 160,
         ht_Score = r_Score r\<rparr>) (lookup a (r_ID r)))
       (Search U lg (at_index a) query limit)"

definition maxSearchTimes :: nat where "maxSearchTimes = 512"

definition note_time :: "int \<Rightarrow> int list \<Rightarrow> int list" where
  "note_time elapsed ds =
     (let ds = ds @ [elapsed] in if length ds > maxSearchTimes then drop (length ds - maxSearchTimes) ds else ds)"

definition at_limit :: "int \<Rightarrow> int" where "at_limit limit = (if limit < 1 \<or> limit > 100 then 20 else limit)"

definition search_handler :: "unicode \<Rightarrow> (real \<Rightarrow> real) \<Rightarrow> int \<Rightarrow> atlas \<Rightarrow> str \<Rightarrow> int \<Rightarrow> atlas \<times> (catalog_entry \<times> real) list" where
  "search_handler U lg elapsed a query limit =
     (let query = TrimSpace query; limit = at_limit limit in
      if query = [] then (a, [])
      else
        let ranked = Search U lg (at_index a) query limit;
            a = a\<lparr>at_searchTimes := note_time elapsed (at_searchTimes a)\<rparr>
        in (a, List.map_filter (\<lambda>r. map_option (\<lambda>e. (e, r_Score r)) (lookup a (r_ID r))) ranked))"

subsection \<open>Counters\<close>

text \<open>Without the numbers of the Go runtime and the uptime.\<close>

text \<open>Minutes since 1970; the clock is after that.\<close>

definition unix_minute :: "time \<Rightarrow> int" where "unix_minute now = now div (60 * 10 ^ 9)"

definition observe :: "time \<Rightarrow> atlas \<Rightarrow> atlas" where
  "observe now a =
     (let minute = unix_minute now;
          k = nat (minute mod int (length (at_traffic a)));
          bucket = at_traffic a ! k;
          bucket = (if rb_Minute bucket \<noteq> minute then \<lparr>rb_Minute = minute, rb_Count = 0\<rparr> else bucket)
      in a\<lparr>at_requests := at_requests a + 1, at_traffic := (at_traffic a)[k := bucket\<lparr>rb_Count := rb_Count bucket + 1\<rparr>]\<rparr>)"

definition history_bucket :: "requestBucket list \<Rightarrow> int \<Rightarrow> requestBucket" where
  "history_bucket traffic current =
     (let bucket = traffic ! nat (current mod int (length traffic)) in
      if rb_Minute bucket \<noteq> current then \<lparr>rb_Minute = current, rb_Count = 0\<rparr> else bucket)"

definition request_history :: "time \<Rightarrow> atlas \<Rightarrow> requestBucket list" where
  "request_history now a =
     map (\<lambda>offset. history_bucket (at_traffic a) (unix_minute now - int offset)) (List.rev [0..<length (at_traffic a)])"

definition p95 :: "int list \<Rightarrow> int" where
  "p95 ds = (let ds = sort ds in if length ds > 0 then ds ! ((length ds - 1) * 95 div 100) else 0)"

record signal_values =
  sg_requests :: uint64
  sg_history :: "requestBucket list"
  sg_p95_microseconds :: int
  sg_samples :: nat
  sg_series :: nat

definition signals :: "time \<Rightarrow> atlas \<Rightarrow> signal_values" where
  "signals now a =
     \<lparr>sg_requests = at_requests a, sg_history = request_history now a, sg_p95_microseconds = p95 (at_searchTimes a) div 1000,
      sg_samples = length (at_searchTimes a), sg_series = SeriesCount (at_metrics a)\<rparr>"

record health_values =
  hv_documents :: nat
  hv_entries :: nat
  hv_runs :: nat
  hv_experiments :: nat
  hv_docs :: nat
  hv_series :: nat
  hv_jobs :: nat

definition health :: "atlas \<Rightarrow> health_values" where
  "health a =
     (case Counts (at_catalog a) of (entries, runs) \<Rightarrow>
        \<lparr>hv_documents = index_Len (at_index a), hv_entries = entries, hv_runs = runs, hv_experiments = ExpEngine.Count (at_impact a),
         hv_docs = DocStore.Count (at_docs a), hv_series = SeriesCount (at_metrics a), hv_jobs = length (q_jobs (at_queue a))\<rparr>)"

subsection \<open>Origins\<close>

text \<open>\<^verbatim>\<open>strings.Cut\<close>\<close>

fun Cut :: "str \<Rightarrow> str \<Rightarrow> (str \<times> str) option" where
  "Cut [] sep = (if sep = [] then Some ([], []) else None)"
| "Cut (r # rs) sep =
     (if HasPrefix (r # rs) sep then Some ([], drop (length sep) (r # rs))
      else map_option (\<lambda>(a, b). (r # a, b)) (Cut rs sep))"

definition originAllowed :: "str list \<Rightarrow> str \<Rightarrow> str \<Rightarrow> bool" where
  "originAllowed origins origin host =
     (if origins = [] then True
      else if (case Cut origin (map of_char ''://'') of Some (scheme, sameHost) \<Rightarrow> sameHost = host | None \<Rightarrow> False) then True
      else origin \<in> set origins)"

text \<open>A request that is refused, a preflight answered at once, or one that is served; with the origin that may read the answer.\<close>

datatype cors_outcome = OriginRefused | Preflight "str option" | Served "str option"

definition cors :: "atlas \<Rightarrow> str \<Rightarrow> str \<Rightarrow> bool \<Rightarrow> cors_outcome" where
  "cors a origin host options =
     (if origin \<noteq> [] \<and> \<not> originAllowed (at_origins a) origin host then OriginRefused
      else
        let allowed = (if origin \<noteq> [] then Some origin else None) in
        if options then Preflight allowed else Served allowed)"

end
