(* ===== verification/Synthetic.thy ===== *)
theory Synthetic
  imports ExpEngine "HOL-Library.Multiset"
begin

text \<open>
  The generator of synthetic events of \<^verbatim>\<open>internal/experiments/synthetic.go\<close>: events of made-up subjects, a transport delay for every record,
  duplicates, and a consumer that polls once per second. The random numbers come from \<^verbatim>\<open>math/rand\<close>, a source with a state of any
  type; what is relied on are the ranges its functions document.
\<close>

subsection \<open>Random numbers\<close>

record 'g rand_source =
  rd_Intn :: "int \<Rightarrow> 'g \<Rightarrow> int \<times> 'g"
  rd_Int63n :: "int \<Rightarrow> 'g \<Rightarrow> int \<times> 'g"
  rd_Float64 :: "'g \<Rightarrow> real \<times> 'g"
  rd_ExpFloat64 :: "'g \<Rightarrow> real \<times> 'g"

definition rand_law :: "'g rand_source \<Rightarrow> bool" where
  "rand_law R \<longleftrightarrow> (\<forall>n g. 0 < n \<longrightarrow> 0 \<le> fst (rd_Intn R n g) \<and> fst (rd_Intn R n g) < n) \<and>
     (\<forall>n g. 0 < n \<longrightarrow> 0 \<le> fst (rd_Int63n R n g) \<and> fst (rd_Int63n R n g) < n) \<and>
     (\<forall>g. 0 \<le> fst (rd_Float64 R g) \<and> fst (rd_Float64 R g) < 1) \<and> (\<forall>g. 0 \<le> fst (rd_ExpFloat64 R g))"

subsection \<open>Configuration\<close>

record synthetic_config =
  sc_Subjects :: int
  sc_ControlRate :: real
  sc_AbsoluteLift :: real
  sc_DuplicatePct :: real
  sc_Seed :: int

datatype synthetic_error = ErrSubjects | ErrRates | ErrDuplicatePct

definition synthetic_defaults :: "synthetic_config \<Rightarrow> synthetic_config" where
  "synthetic_defaults config =
     config\<lparr>sc_Subjects := with_default 0 (sc_Subjects config) 5000, sc_ControlRate := with_default 0 (sc_ControlRate config) (round64 0.08),
       sc_AbsoluteLift := with_default 0 (sc_AbsoluteLift config) (round64 0.04), sc_DuplicatePct := with_default 0 (sc_DuplicatePct config) (round64 0.03),
       sc_Seed := with_default 0 (sc_Seed config) 20261007\<rparr>"

definition synthetic_check :: "synthetic_config \<Rightarrow> synthetic_error option" where
  "synthetic_check config =
     (if sc_Subjects config < 100 \<or> sc_Subjects config > 100000 then Some ErrSubjects
      else if sc_ControlRate config \<le> 0 \<or> sc_ControlRate config \<ge> 1 \<or> fadd (sc_ControlRate config) (sc_AbsoluteLift config) \<le> 0 \<or>
        fadd (sc_ControlRate config) (sc_AbsoluteLift config) \<ge> 1 then Some ErrRates
      else if sc_DuplicatePct config < 0 \<or> sc_DuplicatePct config > 0.5 then Some ErrDuplicatePct
      else None)"

subsection \<open>The events of a subject\<close>

text \<open>Durations in nanoseconds; 1 January 2026, 12:00 UTC.\<close>

definition second_ns :: int where "second_ns = 10 ^ 9"
definition millisecond_ns :: int where "millisecond_ns = 10 ^ 6"
definition synthetic_start :: time where "synthetic_start = 1767268800 * second_ns"

text \<open>\<^verbatim>\<open>%08d\<close>\<close>

definition eight_digits :: "nat \<Rightarrow> str" where
  "eight_digits n = (let d = decimal (int n) in replicate (8 - length d) 0x30 @ d)"

definition synthetic_event :: "exp_config \<Rightarrow> string \<Rightarrow> nat \<Rightarrow> event_type \<Rightarrow> str \<Rightarrow> str \<Rightarrow> time \<Rightarrow> event" where
  "synthetic_event experiment' prefix i kind subject arm t =
     \<lparr>v_EventID = map of_char prefix @ eight_digits i, v_ExperimentID = x_ID experiment', v_Type = kind, v_SubjectID = subject, v_Arm = arm,
      v_Timestamp = t, v_OutcomeName = [], v_Value = None, v_ConfigVersion = x_ConfigVersion experiment'\<rparr>"

definition subject_name :: "nat \<Rightarrow> str" where "subject_name i = map of_char ''synthetic-'' @ eight_digits i"

definition click_event :: "'g rand_source \<Rightarrow> exp_config \<Rightarrow> nat \<Rightarrow> str \<Rightarrow> str \<Rightarrow> time \<Rightarrow> 'g \<Rightarrow> event list \<times> 'g" where
  "click_event R experiment' i subject arm t g =
     (case rd_Float64 R g of (x, g) \<Rightarrow>
        if x < round64 0.18 then
          (case rd_Intn R 90 g of (k, g) \<Rightarrow> ([synthetic_event experiment' ''c-'' i Exposure subject arm (t + (2 + k) * second_ns)], g))
        else ([], g))"

definition outcome_event :: "'g rand_source \<Rightarrow> exp_config \<Rightarrow> synthetic_config \<Rightarrow> nat \<Rightarrow> str \<Rightarrow> str \<Rightarrow> time \<Rightarrow> 'g \<Rightarrow> event list \<times> 'g" where
  "outcome_event R experiment' config i subject arm t g =
     (let rate = (if arm = x_TreatmentArm experiment' then fadd (sc_ControlRate config) (sc_AbsoluteLift config) else sc_ControlRate config) in
      case rd_Float64 R g of (x, g) \<Rightarrow>
        if x < rate then
          (case rd_Float64 R g of (y, g) \<Rightarrow>
           case rd_Intn R (3 * 24 * 60 * 60) g of (k, g) \<Rightarrow>
             ([(synthetic_event experiment' ''o-'' i Outcome subject arm (t + (5 + k) * second_ns))
                 \<lparr>v_OutcomeName := x_OutcomeName experiment', v_Value := Some (fadd 25 (fmul y 175))\<rparr>], g))
        else ([], g))"

definition subject_events :: "'g rand_source \<Rightarrow> exp_config \<Rightarrow> synthetic_config \<Rightarrow> nat \<Rightarrow> 'g \<Rightarrow> event list \<times> 'g" where
  "subject_events R experiment' config i g =
     (let subject = subject_name i; arm = assign experiment' subject in
      case rd_Intn R 1000 g of (ms, g) \<Rightarrow>
        let t = synthetic_start + (int i mod 1800) * second_ns + ms * millisecond_ns in
        case click_event R experiment' i subject arm t g of (click, g) \<Rightarrow>
        case outcome_event R experiment' config i subject arm t g of (outcome, g) \<Rightarrow>
          ([synthetic_event experiment' ''a-'' i Assignment subject arm t,
            synthetic_event experiment' ''i-'' i Exposure subject arm (t + second_ns)] @ click @ outcome, g))"

text \<open>A step repeated for every element, the state of the generator passed on.\<close>

fun for_each :: "('a \<Rightarrow> 'g \<Rightarrow> 'b \<times> 'g) \<Rightarrow> 'a list \<Rightarrow> 'g \<Rightarrow> 'b list \<times> 'g" where
  "for_each f [] g = ([], g)"
| "for_each f (x # xs) g = (case f x g of (y, g) \<Rightarrow> case for_each f xs g of (ys, g) \<Rightarrow> (y # ys, g))"

definition synthetic_events :: "'g rand_source \<Rightarrow> exp_config \<Rightarrow> synthetic_config \<Rightarrow> 'g \<Rightarrow> event list \<times> 'g" where
  "synthetic_events R experiment' config g =
     (case for_each (subject_events R experiment' config) [0..<nat (sc_Subjects config)] g of (ess, g) \<Rightarrow> (concat ess, g))"

subsection \<open>Delivery\<close>

definition transportDelay :: "'g rand_source \<Rightarrow> int \<Rightarrow> 'g \<Rightarrow> int \<times> 'g" where
  "transportDelay R skew g =
     (case rd_ExpFloat64 R g of (x, g) \<Rightarrow>
        let jitter = fmul (min x 20) (of_int (250 * millisecond_ns));
            delay = 50 * millisecond_ns + skew + \<lfloor>jitter\<rfloor>
        in case rd_Float64 R g of (y, g) \<Rightarrow>
          if y < round64 0.01 then (case rd_Int63n R (40 * second_ns) g of (k, g) \<Rightarrow> (delay + (5 * second_ns + k), g))
          else (delay, g))"

text \<open>Which of the records are delivered twice.\<close>

definition duplicate_draw :: "'g rand_source \<Rightarrow> synthetic_config \<Rightarrow> nat \<Rightarrow> 'g \<Rightarrow> nat list \<times> 'g" where
  "duplicate_draw R config i g = (case rd_Float64 R g of (x, g) \<Rightarrow> (if x < sc_DuplicatePct config then [i] else [], g))"

definition record_arrival :: "'g rand_source \<Rightarrow> int list \<Rightarrow> event \<Rightarrow> 'g \<Rightarrow> time \<times> 'g" where
  "record_arrival R partitionSkew e g =
     (case transportDelay R (partitionSkew ! unat (partition_of (v_SubjectID e))) g of (delay, g) \<Rightarrow> (v_Timestamp e + delay, g))"

definition duplicate_arrival :: "'g rand_source \<Rightarrow> time list \<Rightarrow> nat \<Rightarrow> 'g \<Rightarrow> time \<times> 'g" where
  "duplicate_arrival R arrivals i g = (case rd_Int63n R (19 * second_ns) g of (k, g) \<Rightarrow> (arrivals ! i + (second_ns + k), g))"

text \<open>All records with the times they arrive: the events, then the duplicates.\<close>

definition synthetic_stream :: "'g rand_source \<Rightarrow> exp_config \<Rightarrow> synthetic_config \<Rightarrow> 'g \<Rightarrow> event list \<times> time list" where
  "synthetic_stream R experiment' config g =
     (case synthetic_events R experiment' config g of (events, g) \<Rightarrow>
      case for_each (duplicate_draw R config) [0..<length events] g of (duplicates, g) \<Rightarrow>
      case for_each (\<lambda>_. rd_Int63n R (2 * second_ns)) [0..<64 :: nat] g of (partitionSkew, g) \<Rightarrow>
      case for_each (record_arrival R partitionSkew) events g of (arrivals, g) \<Rightarrow>
      case for_each (duplicate_arrival R arrivals) (concat duplicates) g of (again, g) \<Rightarrow>
        (events @ map ((!) events) (concat duplicates), arrivals @ again))"

subsection \<open>Polling\<close>

record synthetic_batch =
  sy_ArrivedAt :: time
  sy_Events :: "event list"

definition syntheticPollInterval :: int where "syntheticPollInterval = second_ns"
definition syntheticMaxBatch :: nat where "syntheticMaxBatch = 500"

text \<open>The first poll at or after an arrival.\<close>

definition poll_for :: "time \<Rightarrow> time" where
  "poll_for arrival =
     (let poll = arrival - arrival mod syntheticPollInterval in
      if poll < arrival then poll + syntheticPollInterval else poll)"

text \<open>The records of one poll and those that remain.\<close>

fun take_poll :: "nat \<Rightarrow> time \<Rightarrow> time list \<Rightarrow> nat list \<Rightarrow> nat list \<times> nat list" where
  "take_poll k poll arrivals [] = ([], [])"
| "take_poll k poll arrivals (i # is) =
     (if k = 0 \<or> arrivals ! i > poll then ([], i # is)
      else case take_poll (k - 1) poll arrivals is of (batch, rest) \<Rightarrow> (i # batch, rest))"

lemma take_poll_append: "take_poll k poll arrivals is = (batch, rest) \<Longrightarrow> batch @ rest = is"
  by (induction k poll arrivals "is" arbitrary: batch rule: take_poll.induct) (auto split: if_splits prod.splits)

lemma poll_for_ge: "arrival \<le> poll_for arrival"
proof -
  have "arrival mod 1000000000 < 1000000000" by simp
  then have "arrival mod 1000000000 \<le> 1000000000" by linarith
  then show ?thesis by (simp add: poll_for_def Let_def syntheticPollInterval_def second_ns_def)
qed

lemma take_poll_first:
  assumes "take_poll syntheticMaxBatch (poll_for (arrivals ! i)) arrivals (i # is) = (batch, rest)"
  shows "length rest < length (i # is)"
proof -
  have "batch \<noteq> []" using assms poll_for_ge [of "arrivals ! i"] by (auto simp: syntheticMaxBatch_def split: prod.splits)
  then show ?thesis using arg_cong [OF take_poll_append [OF assms], of length] by (cases batch) auto
qed

function batches_loop :: "event list \<Rightarrow> time list \<Rightarrow> nat list \<Rightarrow> synthetic_batch list" where
  "batches_loop events arrivals [] = []"
| "batches_loop events arrivals (i # is) =
     (let poll = poll_for (arrivals ! i) in
      case take_poll syntheticMaxBatch poll arrivals (i # is) of (batch, rest) \<Rightarrow>
        \<lparr>sy_ArrivedAt = poll, sy_Events = map ((!) events) batch\<rparr> # batches_loop events arrivals rest)"
  by pat_completeness auto
termination
  by (relation "measure (\<lambda>(events, arrivals, is). length is)") (use take_poll_first in \<open>auto dest!: sym [of "(_, _)"]\<close>)

definition SyntheticBatches :: "'g rand_source \<Rightarrow> (int \<Rightarrow> 'g) \<Rightarrow> exp_config \<Rightarrow> synthetic_config \<Rightarrow> (synthetic_error, synthetic_batch list) result" where
  "SyntheticBatches R source_of experiment' config =
     (let config = synthetic_defaults config in
      case synthetic_check config of
        Some err \<Rightarrow> Inl err
      | None \<Rightarrow>
          (case synthetic_stream R experiment' config (source_of (sc_Seed config)) of (events, arrivals) \<Rightarrow>
             let order = sort_key ((!) arrivals) [0..<length events] in
             Inr (batches_loop events arrivals order)))"

subsection \<open>Bounds on the delivery\<close>

lemma for_each_all:
  assumes "\<And>x g. x \<in> set xs \<Longrightarrow> P x (fst (f x g))"
  shows "list_all2 P xs (fst (for_each f xs g))"
  using assms
proof (induction xs arbitrary: g)
  case (Cons x xs)
  obtain y g1 where y: "f x g = (y, g1)" by fastforce
  obtain ys g2 where ys: "for_each f xs g1 = (ys, g2)" by fastforce
  have "P x y" using Cons.prems [of x g] y by simp
  moreover have "list_all2 P xs ys" using Cons.IH [of g1] Cons.prems ys by auto
  ultimately show ?case using y ys by simp
qed simp

lemma rand_laws:
  assumes "rand_law R"
  shows "0 < n \<Longrightarrow> rd_Int63n R n g = (k, g') \<Longrightarrow> 0 \<le> k \<and> k < n" and "rd_ExpFloat64 R g = (x, g') \<Longrightarrow> 0 \<le> x"
  using assms unfolding rand_law_def by (metis fst_conv)+

lemma transportDelay_bounds:
  assumes law: "rand_law R" and skew: "0 \<le> skew" "skew < 2 * second_ns"
  shows "0 \<le> fst (transportDelay R skew g) \<and> fst (transportDelay R skew g) < 53 * second_ns"
proof -
  obtain x g1 where x: "rd_ExpFloat64 R g = (x, g1)" by fastforce
  obtain y g2 where y: "rd_Float64 R g1 = (y, g2)" by fastforce
  obtain k g3 where k: "rd_Int63n R (40 * second_ns) g2 = (k, g3)" by fastforce
  have kb: "0 \<le> k \<and> k < 40 * second_ns" using rand_laws(1) [OF law _ k] by (simp add: second_ns_def)
  let ?j = "fmul (min x 20) (of_int (250 * millisecond_ns))"
  have "0 \<le> x" using rand_laws(2) [OF law x] .
  then have j: "0 \<le> ?j" "?j \<le> round64 (real 5000000000)"
    unfolding fmul_def millisecond_ns_def by (auto intro!: round64_mono)
  moreover have "round64 (real 5000000000) = real 5000000000" by (rule round64_int) simp
  ultimately have le: "?j \<le> real 5000000000" by (simp only:)
  define J where "J = \<lfloor>?j\<rfloor>"
  have "0 \<le> J \<and> J \<le> 5000000000" using j(1) le unfolding J_def by linarith
  moreover have "fst (transportDelay R skew g) =
      50 * millisecond_ns + skew + J + (if y < round64 0.01 then 5 * second_ns + k else 0)"
    by (simp add: transportDelay_def x y k Let_def J_def)
  ultimately show ?thesis using skew kb unfolding second_ns_def millisecond_ns_def by (auto split: if_splits)
qed

text \<open>Every record arrives at most 53 seconds after its event, a duplicate at most 73.\<close>

lemma duplicates_in_range:
  assumes ds: "for_each (duplicate_draw R config) [0..<n] g = (ds, g')" and i: "i \<in> set (concat ds)"
  shows "i < n"
proof -
  have "set (fst (duplicate_draw R config i g)) \<subseteq> {i}" for i g by (auto simp: duplicate_draw_def split: prod.split)
  from for_each_all [of "[0..<n]" "\<lambda>i d. set d \<subseteq> {i}" "duplicate_draw R config" g, OF this]
  have "list_all2 (\<lambda>i d. set d \<subseteq> {i}) [0..<n] ds" by (simp add: ds)
  then show ?thesis using i by (fastforce simp: list_all2_conv_all_nth in_set_conv_nth)
qed

lemma synthetic_stream_arrivals:
  assumes law: "rand_law R" and st: "synthetic_stream R experiment' config g = (events, arrivals)"
  shows "list_all2 (\<lambda>e a. v_Timestamp e \<le> a \<and> a < v_Timestamp e + 73 * second_ns) events arrivals"
    and "\<forall>i < length (fst (synthetic_events R experiment' config g)). i < length events \<and>
      events ! i = fst (synthetic_events R experiment' config g) ! i \<and> arrivals ! i < v_Timestamp (events ! i) + 53 * second_ns"
proof -
  obtain es g1 where es: "synthetic_events R experiment' config g = (es, g1)" by fastforce
  obtain ds g2 where ds: "for_each (duplicate_draw R config) [0..<length es] g1 = (ds, g2)" by fastforce
  obtain sk g3 where sk: "for_each (\<lambda>_. rd_Int63n R (2 * second_ns)) [0..<64 :: nat] g2 = (sk, g3)" by fastforce
  obtain ar g4 where ar: "for_each (record_arrival R sk) es g3 = (ar, g4)" by fastforce
  obtain ag g5 where ag: "for_each (duplicate_arrival R ar) (concat ds) g4 = (ag, g5)" by fastforce
  have sec: "0 < second_ns" by (simp add: second_ns_def)
  have skew: "list_all2 (\<lambda>_ k. 0 \<le> k \<and> k < 2 * second_ns) [0..<64 :: nat] sk"
    using for_each_all [of "[0..<64 :: nat]" "\<lambda>_ k. 0 \<le> k \<and> k < 2 * second_ns" "\<lambda>_. rd_Int63n R (2 * second_ns)" g2] law sec
    by (simp add: sk rand_law_def)
  have part: "unat (partition_of s) < 64" for s
    by (simp add: partition_of_def unat_mod)
  have "list_all2 (\<lambda>e a. v_Timestamp e \<le> a \<and> a < v_Timestamp e + 53 * second_ns) es ar"
  proof -
    have "v_Timestamp e \<le> fst (record_arrival R sk e g) \<and> fst (record_arrival R sk e g) < v_Timestamp e + 53 * second_ns" for e g
      using transportDelay_bounds [OF law, of "sk ! unat (partition_of (v_SubjectID e))" g] skew part [of "v_SubjectID e"]
      by (auto simp: record_arrival_def list_all2_conv_all_nth split: prod.split)
    from for_each_all [of es "\<lambda>e a. v_Timestamp e \<le> a \<and> a < v_Timestamp e + 53 * second_ns" "record_arrival R sk" g3, OF this]
    show ?thesis by (simp add: ar)
  qed
  then have ar_ok: "length ar = length es" "\<And>i. i < length es \<Longrightarrow> v_Timestamp (es ! i) \<le> ar ! i \<and> ar ! i < v_Timestamp (es ! i) + 53 * second_ns"
    by (auto simp: list_all2_conv_all_nth)
  note dup = duplicates_in_range [OF ds]
  have "list_all2 (\<lambda>i a. ar ! i \<le> a \<and> a < ar ! i + 20 * second_ns) (concat ds) ag"
  proof -
    have "ar ! i \<le> fst (duplicate_arrival R ar i g) \<and> fst (duplicate_arrival R ar i g) < ar ! i + 20 * second_ns" for i g
      using rand_laws(1) [OF law, of "19 * second_ns"] sec by (fastforce simp: duplicate_arrival_def split: prod.split)
    from for_each_all [of "concat ds" "\<lambda>i a. ar ! i \<le> a \<and> a < ar ! i + 20 * second_ns" "duplicate_arrival R ar" g4, OF this]
    show ?thesis by (simp add: ag)
  qed
  then have "list_all2 (\<lambda>i a. v_Timestamp (es ! i) \<le> a \<and> a < v_Timestamp (es ! i) + 73 * second_ns) (concat ds) ag"
    by (rule list.rel_mono_strong) (use ar_ok(2) [OF dup] in fastforce)
  then have "list_all2 (\<lambda>e a. v_Timestamp e \<le> a \<and> a < v_Timestamp e + 73 * second_ns) (map ((!) es) (concat ds)) ag"
    by (simp add: list.rel_map)
  moreover have "list_all2 (\<lambda>e a. v_Timestamp e \<le> a \<and> a < v_Timestamp e + 73 * second_ns) es ar"
    using ar_ok sec by (fastforce simp: list_all2_conv_all_nth)
  moreover have stream: "events = es @ map ((!) es) (concat ds)" "arrivals = ar @ ag" using st by (simp_all add: synthetic_stream_def es ds sk ar ag)
  ultimately show "list_all2 (\<lambda>e a. v_Timestamp e \<le> a \<and> a < v_Timestamp e + 73 * second_ns) events arrivals"
    by (simp add: list_all2_appendI)
  show "\<forall>i < length (fst (synthetic_events R experiment' config g)). i < length events \<and>
      events ! i = fst (synthetic_events R experiment' config g) ! i \<and> arrivals ! i < v_Timestamp (events ! i) + 53 * second_ns"
    using ar_ok by (simp add: es stream nth_append)
qed

subsection \<open>Polls\<close>

lemma poll_for_bounds: "poll_for a mod second_ns = 0" "poll_for a < a + second_ns"
proof -
  have m: "0 \<le> a mod 1000000000" "a mod 1000000000 < 1000000000" by simp_all
  have "(a - a mod 1000000000) mod 1000000000 = 0" by (simp add: mod_diff_eq)
  then show "poll_for a mod second_ns = 0"
    by (simp add: poll_for_def Let_def syntheticPollInterval_def second_ns_def mod_add_self2)
  define k where "k = a mod 1000000000"
  have "poll_for a = (if a - k < a then a - k + 1000000000 else a - k)"
    by (simp only: poll_for_def Let_def syntheticPollInterval_def second_ns_def k_def) simp
  moreover have "0 \<le> k" "k < 1000000000" using m by (simp_all add: k_def)
  ultimately show "poll_for a < a + second_ns" unfolding second_ns_def by (simp split: if_splits)
qed

lemma poll_for_mono:
  assumes "a \<le> b"
  shows "poll_for a \<le> poll_for b"
proof (rule ccontr)
  assume "\<not> poll_for a \<le> poll_for b"
  then have "0 < poll_for a - poll_for b" by simp
  moreover have "second_ns dvd poll_for a - poll_for b" using poll_for_bounds(1) by (simp add: mod_0_imp_dvd dvd_diff)
  ultimately have "second_ns \<le> poll_for a - poll_for b" by (rule zdvd_imp_le [rotated])
  then show False using poll_for_bounds(2) [of a] poll_for_ge [of b] assms by linarith
qed

lemma take_poll_spec:
  assumes "take_poll k poll arrivals is = (batch, rest)"
  shows "length batch \<le> k" and "\<forall>i \<in> set batch. arrivals ! i \<le> poll"
  using assms by (induction k poll arrivals "is" arbitrary: batch rule: take_poll.induct) (auto split: if_splits prod.splits)

text \<open>The indices each poll returns: in order, at most 500, arrived by then and less than a second before.\<close>

definition poll_ok :: "event list \<Rightarrow> time list \<Rightarrow> synthetic_batch \<Rightarrow> nat list \<Rightarrow> bool" where
  "poll_ok events arrivals b js \<longleftrightarrow> sy_Events b = map ((!) events) js \<and> js \<noteq> [] \<and> length js \<le> 500 \<and>
     (\<forall>j \<in> set js. arrivals ! j \<le> sy_ArrivedAt b \<and> sy_ArrivedAt b < arrivals ! j + second_ns)"

lemma batches_loop_spec:
  assumes "sorted (map ((!) arrivals) is)"
  shows "(\<exists>jss. list_all2 (poll_ok events arrivals) (batches_loop events arrivals is) jss \<and> concat jss = is) \<and>
    sorted (map sy_ArrivedAt (batches_loop events arrivals is)) \<and>
    (\<forall>b \<in> set (batches_loop events arrivals is). poll_for (arrivals ! hd is) \<le> sy_ArrivedAt b)"
  using assms
proof (induction events arrivals "is" rule: batches_loop.induct)
  case (1 events arrivals)
  then show ?case by (simp add: exI [of _ "[]"])
next
  case (2 events arrivals i "is")
  let ?poll = "poll_for (arrivals ! i)"
  obtain batch rest where t: "take_poll syntheticMaxBatch ?poll arrivals (i # is) = (batch, rest)" by fastforce
  have split: "batch @ rest = i # is" by (rule take_poll_append [OF t])
  have "batch \<noteq> []" using take_poll_first [OF t] split by auto
  have sorted: "sorted (map ((!) arrivals) (batch @ rest))" using 2(2) by (simp only: split)
  then have first: "arrivals ! i \<le> arrivals ! j" if "j \<in> set (batch @ rest)" for j
    using 2(2) that by (auto simp: split)
  have "poll_ok events arrivals \<lparr>sy_ArrivedAt = ?poll, sy_Events = map ((!) events) batch\<rparr> batch"
    using take_poll_spec [OF t] \<open>batch \<noteq> []\<close> first poll_for_bounds(2) [of "arrivals ! i"]
    by (force simp: poll_ok_def syntheticMaxBatch_def)
  moreover have later: "sorted (map ((!) arrivals) rest)" using sorted by (simp add: sorted_append)
  note IH = 2(1) [OF refl t [symmetric] later]
  moreover have "?poll \<le> sy_ArrivedAt b" if "b \<in> set (batches_loop events arrivals rest)" for b
  proof -
    have "rest \<noteq> []" using that by auto
    then have "?poll \<le> poll_for (arrivals ! hd rest)" using first by (intro poll_for_mono) simp
    then show ?thesis using IH that by fastforce
  qed
  moreover obtain jss where "list_all2 (poll_ok events arrivals) (batches_loop events arrivals rest) jss" "concat jss = rest" using IH by blast
  moreover have "batches_loop events arrivals (i # is) =
      \<lparr>sy_ArrivedAt = ?poll, sy_Events = map ((!) events) batch\<rparr> # batches_loop events arrivals rest"
    by (simp only: batches_loop.simps Let_def t prod.case)
  moreover have "concat (batch # jss) = i # is" using split \<open>concat jss = rest\<close> by simp
  moreover have "list_all2 (poll_ok events arrivals) (\<lparr>sy_ArrivedAt = ?poll, sy_Events = map ((!) events) batch\<rparr> # batches_loop events arrivals rest) (batch # jss)"
    using calculation by simp
  ultimately show ?case using IH by (intro conjI exI [of _ "batch # jss"]) (simp_all del: concat.simps)
qed

lemma synthetic_polls:
  assumes law: "rand_law R" and bs: "SyntheticBatches R source_of experiment' config = Inr bs"
  obtains events arrivals jss where
    "synthetic_stream R experiment' (synthetic_defaults config) (source_of (sc_Seed (synthetic_defaults config))) = (events, arrivals)"
    "list_all2 (poll_ok events arrivals) bs jss" "mset (concat jss) = mset [0..<length events]" "sorted (map ((!) arrivals) (concat jss))"
    "sorted (map sy_ArrivedAt bs)"
proof -
  let ?c = "synthetic_defaults config"
  obtain events arrivals where st: "synthetic_stream R experiment' ?c (source_of (sc_Seed ?c)) = (events, arrivals)" by fastforce
  let ?order = "sort_key ((!) arrivals) [0..<length events]"
  have b: "bs = batches_loop events arrivals ?order"
    using bs by (auto simp: SyntheticBatches_def Let_def st split: option.splits)
  obtain jss where jss: "list_all2 (poll_ok events arrivals) bs jss" "concat jss = ?order" and polls: "sorted (map sy_ArrivedAt bs)"
    using batches_loop_spec [of arrivals ?order events] by (auto simp: b)
  show ?thesis by (rule that [OF st jss(1)]) (simp_all add: jss(2) polls)
qed

lemma poll_ok_events:
  assumes "list_all2 (poll_ok events arrivals) bs jss"
  shows "concat (map sy_Events bs) = map ((!) events) (concat jss)"
  using assms by (induction rule: list_all2_induct) (simp_all add: poll_ok_def)

lemma poll_ok_member:
  assumes "list_all2 P bs jss"
  shows "b \<in> set bs \<Longrightarrow> \<exists>js \<in> set jss. P b js" and "js \<in> set jss \<Longrightarrow> \<exists>b \<in> set bs. P b js"
  using assms by (induction rule: list_all2_induct) auto

text \<open>
  C12: The simulated delivery is as documented: batches of 1 to 500 records in the order of their polls bring every generated event and every duplicate
  exactly once; no record comes before its event or more than 74 seconds after it, and every event comes within 54 seconds.
\<close>

theorem synthetic_delivery:
  assumes law: "rand_law R" and bs: "SyntheticBatches R source_of experiment' config = Inr bs"
  shows "sorted (map sy_ArrivedAt bs) \<and>
    mset (concat (map sy_Events bs)) =
      mset (fst (synthetic_stream R experiment' (synthetic_defaults config) (source_of (sc_Seed (synthetic_defaults config))))) \<and>
    (\<forall>b \<in> set bs. 1 \<le> length (sy_Events b) \<and> length (sy_Events b) \<le> syntheticMaxBatch \<and>
       (\<forall>e \<in> set (sy_Events b). v_Timestamp e \<le> sy_ArrivedAt b \<and> sy_ArrivedAt b < v_Timestamp e + 74 * second_ns)) \<and>
    (\<forall>e \<in> set (fst (synthetic_events R experiment' (synthetic_defaults config) (source_of (sc_Seed (synthetic_defaults config))))).
       \<exists>b \<in> set bs. e \<in> set (sy_Events b) \<and> sy_ArrivedAt b < v_Timestamp e + 54 * second_ns)"
proof -
  let ?c = "synthetic_defaults config"
  let ?es = "fst (synthetic_events R experiment' ?c (source_of (sc_Seed ?c)))"
  obtain events arrivals jss where st: "synthetic_stream R experiment' ?c (source_of (sc_Seed ?c)) = (events, arrivals)"
    and jss: "list_all2 (poll_ok events arrivals) bs jss" "mset (concat jss) = mset [0..<length events]" and polls: "sorted (map sy_ArrivedAt bs)"
    by (rule synthetic_polls [OF law bs])
  note arr = synthetic_stream_arrivals [OF law st]
  have index: "j < length events" if "js \<in> set jss" "j \<in> set js" for js j
    using that mset_eq_setD [OF jss(2)] by auto
  have times: "v_Timestamp (events ! j) \<le> arrivals ! j \<and> arrivals ! j < v_Timestamp (events ! j) + 73 * second_ns" if "j < length events" for j
    using arr(1) that by (simp add: list_all2_conv_all_nth)
  have "mset (concat (map sy_Events bs)) = image_mset ((!) events) (mset [0..<length events])"
    using jss(2) poll_ok_events [OF jss(1)] by (simp only: mset_map)
  also have "\<dots> = mset events" by (simp only: mset_map [symmetric] map_nth)
  finally have all: "mset (concat (map sy_Events bs)) = mset events" .
  have each_batch: "1 \<le> length (sy_Events b) \<and> length (sy_Events b) \<le> syntheticMaxBatch \<and>
      (\<forall>e \<in> set (sy_Events b). v_Timestamp e \<le> sy_ArrivedAt b \<and> sy_ArrivedAt b < v_Timestamp e + 74 * second_ns)" if b: "b \<in> set bs" for b
  proof -
    obtain js where js: "js \<in> set jss" "poll_ok events arrivals b js" using poll_ok_member(1) [OF jss(1) b] by blast
    then have ev: "sy_Events b = map ((!) events) js" "js \<noteq> []" "length js \<le> 500" by (simp_all add: poll_ok_def)
    have "v_Timestamp (events ! j) \<le> sy_ArrivedAt b \<and> sy_ArrivedAt b < v_Timestamp (events ! j) + 74 * second_ns" if "j \<in> set js" for j
    proof -
      have "arrivals ! j \<le> sy_ArrivedAt b" "sy_ArrivedAt b < arrivals ! j + second_ns" using js(2) that by (simp_all add: poll_ok_def)
      then show ?thesis using times [OF index [OF js(1) that]] by linarith
    qed
    then show ?thesis using ev by (auto simp: syntheticMaxBatch_def Suc_le_eq)
  qed
  have "\<exists>b \<in> set bs. e \<in> set (sy_Events b) \<and> sy_ArrivedAt b < v_Timestamp e + 54 * second_ns" if e: "e \<in> set ?es" for e
  proof -
    obtain i where i: "i < length ?es" "e = ?es ! i" using e by (auto simp: in_set_conv_nth)
    then have ev: "i < length events" "e = events ! i" "arrivals ! i < v_Timestamp e + 53 * second_ns" using arr(2) by auto
    then have "i \<in> set (concat jss)" unfolding mset_eq_setD [OF jss(2)] by simp
    then obtain js where js: "js \<in> set jss" "i \<in> set js" by auto
    then obtain b where b: "b \<in> set bs" "poll_ok events arrivals b js" using poll_ok_member(2) [OF jss(1)] by blast
    then have "e \<in> set (sy_Events b)" "sy_ArrivedAt b < arrivals ! i + second_ns" using js(2) ev(2) by (auto simp: poll_ok_def)
    moreover have "sy_ArrivedAt b < v_Timestamp e + 54 * second_ns" using calculation(2) ev(3) by (simp add: second_ns_def)
    ultimately show ?thesis using b(1) by blast
  qed
  then show ?thesis using all each_batch polls st by (simp only: fst_conv) blast
qed

subsection \<open>The engine and the stream\<close>

text \<open>The batches delivered to an experiment, one after the other.\<close>

fun deliver_batches :: "experimentState \<Rightarrow> synthetic_batch list \<Rightarrow> experimentState \<times> receipt list" where
  "deliver_batches st [] = (st, [])"
| "deliver_batches st (b # bs) =
     (case apply_events st (sy_ArrivedAt b) (sy_Events b) of (st, rs) \<Rightarrow>
      case deliver_batches st bs of (st, rs') \<Rightarrow> (st, rs @ rs'))"

lemma maxEventTime_step:
  assumes "applyEvent st e a = (st', r)"
  shows "es_config st' = es_config st \<and> (es_maxEventTime st' = es_maxEventTime st \<or> es_maxEventTime st' = v_Timestamp e) \<and>
    (rc_Status r = Late \<longrightarrow> es_maxEventTime st \<noteq> zero_time \<and> v_Timestamp e < watermark st)"
proof -
  have lag: "es_maxEventTime (note_lag s e a) = es_maxEventTime s" "es_config (note_lag s e a) = es_config s" for s
    by (simp_all add: note_lag_def Let_def)
  have att: "es_maxEventTime (attribute s e x) = es_maxEventTime s" "es_config (attribute s e x) = es_config s" for s x
    by (simp_all add: attribute_def Let_def split: prod.split)
  have cnt: "es_maxEventTime (count_accepted s) = es_maxEventTime s" "es_config (count_accepted s) = es_config s" for s
    by (simp_all add: count_accepted_def expireSubjects_def Let_def)
  show ?thesis using assms
    by (auto simp: applyEvent_def is_late_def watermark_def Let_def lag att cnt split: if_splits)
qed

text \<open>Events of which none is more than \<open>k\<close> before an earlier one.\<close>

lemma apply_events_in_time:
  assumes "apply_events st a es = (st', rs)" and "sorted_wrt (\<lambda>e f. v_Timestamp e < v_Timestamp f + k) es"
    and "es_maxEventTime st = zero_time \<or> (\<forall>f \<in> set es. es_maxEventTime st < v_Timestamp f + k)"
    and "seconds (- x_AllowedLatenessSeconds (es_config st)) \<le> - k"
  shows "es_config st' = es_config st \<and> (\<forall>r \<in> set rs. rc_Status r \<noteq> Late) \<and>
    (es_maxEventTime st' = es_maxEventTime st \<or> es_maxEventTime st' \<in> v_Timestamp ` set es)"
  using assms
proof (induction es arbitrary: st rs)
  case (Cons e es)
  obtain st1 r where one: "applyEvent st e a = (st1, r)" by fastforce
  obtain rs' where rest: "apply_events st1 a es = (st', rs')" and rs: "rs = r # rs'" using Cons.prems(1) one by (auto split: prod.splits)
  note step = maxEventTime_step [OF one]
  have "rc_Status r \<noteq> Late"
  proof
    assume "rc_Status r = Late"
    then have "es_maxEventTime st < v_Timestamp e + k" "v_Timestamp e < es_maxEventTime st - k"
      using step Cons.prems(3,4) by (auto simp: watermark_def)
    then show False by linarith
  qed
  moreover have "es_maxEventTime st1 = zero_time \<or> (\<forall>f \<in> set es. es_maxEventTime st1 < v_Timestamp f + k)"
    using step Cons.prems(2,3) by auto
  ultimately show ?case using Cons.IH [OF rest] Cons.prems(2,4) step rs by auto
qed auto

lemma deliver_in_time:
  assumes "deliver_batches st bs = (st', rs)" and "sorted_wrt (\<lambda>e f. v_Timestamp e < v_Timestamp f + k) (concat (map sy_Events bs))"
    and "es_maxEventTime st = zero_time \<or> (\<forall>f \<in> set (concat (map sy_Events bs)). es_maxEventTime st < v_Timestamp f + k)"
    and "seconds (- x_AllowedLatenessSeconds (es_config st)) \<le> - k"
  shows "\<forall>r \<in> set rs. rc_Status r \<noteq> Late"
  using assms
proof (induction bs arbitrary: st rs)
  case (Cons b bs)
  obtain st1 rs1 where one: "apply_events st (sy_ArrivedAt b) (sy_Events b) = (st1, rs1)" by fastforce
  obtain rs2 where rest: "deliver_batches st1 bs = (st', rs2)" and rs: "rs = rs1 @ rs2" using Cons.prems(1) one by (auto split: prod.splits)
  have ordered: "sorted_wrt (\<lambda>e f. v_Timestamp e < v_Timestamp f + k) (sy_Events b)"
    "sorted_wrt (\<lambda>e f. v_Timestamp e < v_Timestamp f + k) (concat (map sy_Events bs))"
    "\<forall>e \<in> set (sy_Events b). \<forall>f \<in> set (concat (map sy_Events bs)). v_Timestamp e < v_Timestamp f + k"
    using Cons.prems(2) by (simp_all add: sorted_wrt_append)
  have batch: "es_config st1 = es_config st" "\<forall>r \<in> set rs1. rc_Status r \<noteq> Late"
    "es_maxEventTime st1 = es_maxEventTime st \<or> es_maxEventTime st1 \<in> v_Timestamp ` set (sy_Events b)"
    using apply_events_in_time [OF one ordered(1) _ Cons.prems(4)] Cons.prems(3) by auto
  have "es_maxEventTime st1 = zero_time \<or> (\<forall>f \<in> set (concat (map sy_Events bs)). es_maxEventTime st1 < v_Timestamp f + k)"
    using batch(3) Cons.prems(3) ordered(3) by auto
  from Cons.IH [OF rest ordered(2) this] batch Cons.prems(4) rs show ?case by auto
qed simp

text \<open>
  The generator and the engine fit: an experiment that allows a lateness of 74 seconds or more, and no event before, accepts none of the synthetic
  records as late, whatever the random numbers.
\<close>

theorem synthetic_events_are_in_time:
  assumes law: "rand_law R" and bs: "SyntheticBatches R source_of experiment' config = Inr bs"
    and fresh: "es_maxEventTime st = zero_time" and lateness: "74 \<le> x_AllowedLatenessSeconds (es_config st)" "x_AllowedLatenessSeconds (es_config st) \<le> 9000000000"
    and run': "deliver_batches st bs = (st', rs)"
  shows "\<forall>r \<in> set rs. rc_Status r \<noteq> Late"
proof -
  let ?c = "synthetic_defaults config"
  obtain events arrivals jss where st: "synthetic_stream R experiment' ?c (source_of (sc_Seed ?c)) = (events, arrivals)"
    and jss: "list_all2 (poll_ok events arrivals) bs jss" "mset (concat jss) = mset [0..<length events]" "sorted (map ((!) arrivals) (concat jss))"
    by (rule synthetic_polls [OF law bs])
  have times: "v_Timestamp (events ! j) \<le> arrivals ! j \<and> arrivals ! j < v_Timestamp (events ! j) + 73 * second_ns" if "j \<in> set (concat jss)" for j
  proof -
    have "j \<in> set [0..<length events]" using mset_eq_setD [OF jss(2)] that by blast
    then have "j < length events" by simp
    then show ?thesis using synthetic_stream_arrivals(1) [OF law st] by (simp add: list_all2_conv_all_nth)
  qed
  have "sorted_wrt (\<lambda>i j. arrivals ! i \<le> arrivals ! j) (concat jss)" using jss(3) by (simp add: sorted_wrt_map)
  then have "sorted_wrt (\<lambda>i j. v_Timestamp (events ! i) < v_Timestamp (events ! j) + 74 * second_ns) (concat jss)"
  proof (rule sorted_wrt_mono_rel [rotated])
    fix i j
    assume "i \<in> set (concat jss)" "j \<in> set (concat jss)" "arrivals ! i \<le> arrivals ! j"
    then show "v_Timestamp (events ! i) < v_Timestamp (events ! j) + 74 * second_ns"
      using times [of i] times [of j] by (simp add: second_ns_def)
  qed
  then have ordered: "sorted_wrt (\<lambda>e f. v_Timestamp e < v_Timestamp f + 74 * second_ns) (concat (map sy_Events bs))"
    by (simp add: poll_ok_events [OF jss(1)] sorted_wrt_map)
  have "seconds (- x_AllowedLatenessSeconds (es_config st)) \<le> - (74 * second_ns)"
    using lateness wrap64_small [of "- x_AllowedLatenessSeconds (es_config st) * 1000000000"] by (simp add: seconds_def second_ns_def)
  then show ?thesis using deliver_in_time [OF run' ordered] fresh by blast
qed

subsection \<open>A small stream\<close>

text \<open>A source that always draws the middle, and a hundred subjects.\<close>

definition middle_source :: "unit rand_source" where
  "middle_source = \<lparr>rd_Intn = (\<lambda>n g. (n div 2, g)), rd_Int63n = (\<lambda>n g. (n div 2, g)), rd_Float64 = (\<lambda>g. (1 / 2, g)), rd_ExpFloat64 = (\<lambda>g. (1, g))\<rparr>"

definition small_stream :: synthetic_config where
  "small_stream = \<lparr>sc_Subjects = 100, sc_ControlRate = 1 / 4, sc_AbsoluteLift = 1 / 4, sc_DuplicatePct = 1 / 4, sc_Seed = 1\<rparr>"

lemma middle_source_law: "rand_law middle_source"
proof -
  have "n div 2 < n" if "0 < n" for n :: int using that by linarith
  then show ?thesis by (simp add: rand_law_def middle_source_def)
qed

lemma small_stream_runs: "\<exists>bs. SyntheticBatches middle_source (\<lambda>_. ()) experiment' small_stream = Inr bs"
proof -
  have "\<bar>round64 (1 / 2) - 1 / 2\<bar> \<le> \<bar>1 / 2\<bar> / 2 ^ 53" by (rule round64_error)
  then have "0 < round64 (1 / 2)" "round64 (1 / 2) < 1" by (auto simp: abs_if split: if_splits)
  then have "synthetic_check (synthetic_defaults small_stream) = None"
    by (simp add: synthetic_check_def synthetic_defaults_def small_stream_def with_default_def fadd_def)
  then show ?thesis by (simp add: SyntheticBatches_def Let_def split: prod.split)
qed

theorem synthetic_delivery_witness:
  "\<exists>bs. SyntheticBatches middle_source (\<lambda>_. ()) sample_config small_stream = Inr bs \<and>
     (\<forall>b \<in> set bs. length (sy_Events b) \<le> 500 \<and> (\<forall>e \<in> set (sy_Events b). v_Timestamp e \<le> sy_ArrivedAt b))"
proof -
  obtain bs where bs: "SyntheticBatches middle_source (\<lambda>_. ()) sample_config small_stream = Inr bs" using small_stream_runs by blast
  from synthetic_delivery [OF middle_source_law this] bs show ?thesis by (auto simp: syntheticMaxBatch_def)
qed

theorem synthetic_events_are_in_time_witness:
  "\<exists>bs. SyntheticBatches middle_source (\<lambda>_. ()) sample_config small_stream = Inr bs \<and>
     (\<forall>r \<in> set (snd (deliver_batches (new_state (sample_config\<lparr>x_AllowedLatenessSeconds := 120\<rparr>)) bs)). rc_Status r \<noteq> Late)"
proof -
  obtain bs where bs: "SyntheticBatches middle_source (\<lambda>_. ()) sample_config small_stream = Inr bs" using small_stream_runs by blast
  obtain st' rs where run': "deliver_batches (new_state (sample_config\<lparr>x_AllowedLatenessSeconds := 120\<rparr>)) bs = (st', rs)" by fastforce
  have "es_maxEventTime (new_state (sample_config\<lparr>x_AllowedLatenessSeconds := 120\<rparr>)) = zero_time"
    "x_AllowedLatenessSeconds (es_config (new_state (sample_config\<lparr>x_AllowedLatenessSeconds := 120\<rparr>))) = 120" by (simp_all add: new_state_def)
  with synthetic_events_are_in_time [OF middle_source_law bs _ _ _ run'] bs run' show ?thesis by simp
qed

end
