(* ===== verification/AtlasImpact.thy ===== *)
theory AtlasImpact
  imports AtlasServer Synthetic
begin

text \<open>
  The impact experiments of the Atlas server, \<^verbatim>\<open>internal/atlas/impact.go\<close>: the handlers around the engine, the entry that records a conclusion in
  the knowledge base, and the samples that record results in the time series. How \<^verbatim>\<open>fmt\<close> writes a number with two decimals is the
  argument \<open>two_decimals\<close>; bodies are what the JSON decoder makes of them.
\<close>

subsection \<open>Responses\<close>

definition impact_error_status :: "exp_error \<Rightarrow> nat" where "impact_error_status err = (if err = ErrNotExist then 404 else 400)"

datatype 'a impact_response = ImpactBadBody | ImpactRefused nat exp_error | ImpactOk 'a

definition impact_result :: "atlas \<Rightarrow> engine \<times> (exp_error, 'a) result \<Rightarrow> atlas \<times> 'a impact_response" where
  "impact_result a er =
     (case er of
        (e, Inl err) \<Rightarrow> (a\<lparr>at_impact := e\<rparr>, ImpactRefused (impact_error_status err) err)
      | (e, Inr x) \<Rightarrow> (a\<lparr>at_impact := e\<rparr>, ImpactOk x))"

subsection \<open>Experiments\<close>

definition impactExperiments_list :: "time \<Rightarrow> atlas \<Rightarrow> (exp_config \<times> exp_result option) list" where
  "impactExperiments_list now a =
     map (\<lambda>c. (c, map_option snd (ExpEngine.Get (at_impact a) (x_ID c) now))) (List_experiments (at_impact a))"

definition impactExperiments_create :: "exp_codec \<Rightarrow> exp_io \<Rightarrow> str \<Rightarrow> time \<Rightarrow> time \<Rightarrow> atlas \<Rightarrow> exp_config option \<Rightarrow>
    atlas \<times> (exp_config \<times> exp_result option) impact_response" where
  "impactExperiments_create E io rid now later a body =
     (case body of
        None \<Rightarrow> (a, ImpactBadBody)
      | Some config \<Rightarrow>
          (case ExpEngine.Create E io (at_impact a) config rid now of
             (e, Inl err) \<Rightarrow> (a\<lparr>at_impact := e\<rparr>, ImpactRefused 400 err)
           | (e, Inr created) \<Rightarrow> (a\<lparr>at_impact := e\<rparr>, ImpactOk (created, map_option snd (ExpEngine.Get e (x_ID created) later)))))"

definition impactExperiment :: "time \<Rightarrow> atlas \<Rightarrow> str \<Rightarrow> (exp_config \<times> exp_result) impact_response" where
  "impactExperiment now a id' =
     (case ExpEngine.Get (at_impact a) id' now of None \<Rightarrow> ImpactRefused 404 ErrNotExist | Some cr \<Rightarrow> ImpactOk cr)"

definition startImpactExperiment :: "exp_codec \<Rightarrow> exp_io \<Rightarrow> time \<Rightarrow> time \<Rightarrow> atlas \<Rightarrow> str \<Rightarrow> atlas \<times> (exp_config \<times> exp_result) impact_response" where
  "startImpactExperiment E io now later a id' = impact_result a (SetStatus E io (at_impact a) id' exp_status.Running now later)"

subsection \<open>Conclusions\<close>

definition conclusion_body :: "(real \<Rightarrow> str) \<Rightarrow> exp_config \<Rightarrow> exp_result \<Rightarrow> str" where
  "conclusion_body two_decimals experiment' r =
     (let lit = map of_char; percent = (\<lambda>x. two_decimals (fmul x 100));
          relative = (case rs_RelativeLift r of None \<Rightarrow> lit ''undefined because the control rate was zero'' | Some x \<Rightarrow> percent x @ lit ''%'');
          body = lit ''Hypothesis: '' @ x_Hypothesis experiment' @ [10] @ lit ''Outcome: '' @ x_OutcomeName experiment' @ [10] @
            lit ''Treatment: '' @ decimal (rs_TreatmentSampleSize r) @ lit '' subjects, '' @ percent (rs_TreatmentConversionRate r) @
            lit ''% conversion. Control: '' @ decimal (rs_ControlSampleSize r) @ lit '' subjects, '' @ percent (rs_ControlConversionRate r) @
            lit ''% conversion. Absolute lift: '' @ percent (rs_AbsoluteLift r) @ lit '' percentage points (95% CI '' @ percent (rs_ConfidenceLow r) @
            lit '' to '' @ percent (rs_ConfidenceHigh r) @ lit ''); relative lift: '' @ relative @ lit ''. Decision: '' @ rs_Recommendation r @ lit ''.''
      in if x_AnalysisDocID experiment' \<noteq> [] then body @ lit '' Analysis live doc: #docs/'' @ x_AnalysisDocID experiment' @ lit ''.'' else body)"

definition conclusion_entry :: "unicode \<Rightarrow> (real \<Rightarrow> str) \<Rightarrow> exp_config \<Rightarrow> exp_result \<Rightarrow> catalog_entry" where
  "conclusion_entry U two_decimals experiment' r =
     \<lparr>ce_ID = map of_char ''impact-'' @ x_ID experiment', ce_Title = map of_char ''Impact conclusion: '' @ x_Name experiment',
      ce_Body = conclusion_body two_decimals experiment' r, ce_Type = map of_char ''Run log'',
      ce_Tags = [map of_char ''impact-experiment'', map of_char ''causal-lift'', ToLower U (x_OutcomeName experiment')],
      ce_Source = None, ce_CreatedAt = zero_time, ce_UpdatedAt = zero_time\<rparr>"

datatype index_error = IndexCatalog catalog_error | IndexWAL

definition indexImpactConclusion :: "unicode \<Rightarrow> (real \<Rightarrow> str) \<Rightarrow> atlas_codec \<Rightarrow> persist_io \<Rightarrow> doc_io \<Rightarrow> time \<Rightarrow> str \<Rightarrow> atlas \<Rightarrow> exp_config \<Rightarrow> exp_result \<Rightarrow>
    atlas \<times> (index_error, catalog_entry) result" where
  "indexImpactConclusion U two_decimals C io wal_io now fresh a experiment' r =
     (case SaveEntry U (ac_catalog C) io now fresh (at_catalog a) (conclusion_entry U two_decimals experiment' r) of
        (c, Inl e) \<Rightarrow> (a\<lparr>at_catalog := c\<rparr>, Inl (IndexCatalog e))
      | (c, Inr entry) \<Rightarrow>
          let a = a\<lparr>at_catalog := c\<rparr>; document = entry_document entry in
          (case wal_Append (ac_doc C) wal_io (at_wal a) document of
             (wal, False) \<Rightarrow> (a\<lparr>at_wal := wal\<rparr>, Inl IndexWAL)
           | (wal, True) \<Rightarrow> (a\<lparr>at_wal := wal, at_index := Upsert U (at_index a) document\<rparr>, Inr entry)))"

datatype stop_response = StopRefused nat exp_error | StopNotIndexed index_error | StopIndexed exp_config exp_result catalog_entry

definition stopImpactExperiment :: "unicode \<Rightarrow> (real \<Rightarrow> str) \<Rightarrow> atlas_codec \<Rightarrow> exp_io \<Rightarrow> persist_io \<Rightarrow> doc_io \<Rightarrow> time \<Rightarrow> time \<Rightarrow> str \<Rightarrow> atlas \<Rightarrow> str \<Rightarrow>
    atlas \<times> stop_response" where
  "stopImpactExperiment U two_decimals C eio io wal_io now later fresh a id' =
     (case SetStatus (ac_exp C) eio (at_impact a) id' exp_status.Completed now later of
        (e, Inl err) \<Rightarrow> (a\<lparr>at_impact := e\<rparr>, StopRefused (impact_error_status err) err)
      | (e, Inr (experiment', r)) \<Rightarrow>
          (case indexImpactConclusion U two_decimals C io wal_io later fresh (a\<lparr>at_impact := e\<rparr>) experiment' r of
             (a, Inl err) \<Rightarrow> (a, StopNotIndexed err)
           | (a, Inr entry) \<Rightarrow> (a, StopIndexed experiment' r entry)))"

subsection \<open>Assignments and events\<close>

record assignmentRequest =
  ag_SubjectID :: str
  ag_EventID :: str
  ag_Timestamp :: time

datatype assignment_answer = Assigned str str str int uint32 "(receipt \<times> exp_result) option"

definition assignImpactSubject :: "exp_codec \<Rightarrow> exp_io \<Rightarrow> time \<Rightarrow> time \<Rightarrow> int \<Rightarrow> atlas \<Rightarrow> str \<Rightarrow> assignmentRequest option \<Rightarrow>
    atlas \<times> assignment_answer impact_response" where
  "assignImpactSubject E io now later ack a id' body =
     (case body of
        None \<Rightarrow> (a, ImpactBadBody)
      | Some request \<Rightarrow>
          (case ExpEngine.Get (at_impact a) id' now of
             None \<Rightarrow> (a, ImpactRefused 404 ErrNotExist)
           | Some (experiment', _) \<Rightarrow>
               (case Assign (at_impact a) (x_ID experiment') (ag_SubjectID request) of
                  Inl err \<Rightarrow> (a, ImpactRefused (impact_error_status err) err)
                | Inr (arm, part) \<Rightarrow>
                    let assigned = Assigned (x_ID experiment') (ag_SubjectID request) arm (x_ConfigVersion experiment') part in
                    if ag_EventID request = [] then (a, ImpactOk (assigned None))
                    else
                      let event = \<lparr>v_EventID = ag_EventID request, v_ExperimentID = x_ID experiment', v_Type = Assignment, v_SubjectID = ag_SubjectID request,
                            v_Arm = arm, v_Timestamp = (if ag_Timestamp request = zero_time then now else ag_Timestamp request),
                            v_OutcomeName = [], v_Value = None, v_ConfigVersion = x_ConfigVersion experiment'\<rparr>
                      in case Process E io (at_impact a) event now later ack of
                           (e, Inl err) \<Rightarrow> (a\<lparr>at_impact := e\<rparr>, ImpactRefused (impact_error_status err) err)
                         | (e, Inr rr) \<Rightarrow> (a\<lparr>at_impact := e\<rparr>, ImpactOk (assigned (Some rr))))))"

text \<open>The events of a body: a batch, or a single event. Events without an experiment get that of the URL; another one is refused.\<close>

definition body_events :: "event list option \<Rightarrow> event option \<Rightarrow> event list option" where
  "body_events batch single =
     (if batch = None \<or> batch = Some [] then
        (case single of None \<Rightarrow> None | Some e \<Rightarrow> if v_EventID e = [] then None else Some [e])
      else batch)"

fun fill_experiment :: "str \<Rightarrow> event list \<Rightarrow> event list option" where
  "fill_experiment id' [] = Some []"
| "fill_experiment id' (e # es) =
     (let e = (if v_ExperimentID e = [] then e\<lparr>v_ExperimentID := id'\<rparr> else e) in
      if v_ExperimentID e \<noteq> id' then None else map_option ((#) e) (fill_experiment id' es))"

text \<open>One sample per measure, each in a series of its own; failures are ignored.\<close>

definition impact_measures :: "exp_result \<Rightarrow> (str \<times> real) list" where
  "impact_measures r =
     [(map of_char ''impact_absolute_lift'', rs_AbsoluteLift r),
      (map of_char ''impact_treatment_conversion_rate'', rs_TreatmentConversionRate r),
      (map of_char ''impact_control_conversion_rate'', rs_ControlConversionRate r),
      (map of_char ''impact_processing_lag_p95_ms'', fst (snd (dg_ProcessingLag (rs_Diagnostics r))))]"

text \<open>
  The measures come in the order of a Go map, each with the outcome of its system calls. \<open>bits\<close> is the bit pattern of a \<^verbatim>\<open>float64\<close>.
\<close>

definition impact_point :: "(real \<Rightarrow> uint64) \<Rightarrow> time \<Rightarrow> exp_result \<Rightarrow> str \<Rightarrow> pointBatch" where
  "impact_point bits now r name =
     \<lparr>pb_Series = \<lparr>sr_Name = name, sr_Labels = [(map of_char ''experiment'', rs_ExperimentID r)]\<rparr>,
      pb_Samples = [\<lparr>sm_Timestamp = word_of_int (now div 10 ^ 6), sm_Value = bits (the (map_of (impact_measures r) name))\<rparr>]\<rparr>"

definition recordImpactMetrics :: "ts_codec \<Rightarrow> (real \<Rightarrow> uint64) \<Rightarrow> (str \<times> wal_io \<times> flush_io) list \<Rightarrow> time \<Rightarrow> exp_result \<Rightarrow> tsdb \<Rightarrow> tsdb" where
  "recordImpactMetrics C bits order now r db =
     foldl (\<lambda>db (name, io, fio). fst (Write C io fio db (impact_point bits now r name))) db order"

definition ingestImpactEvents :: "atlas_codec \<Rightarrow> exp_io \<Rightarrow> (real \<Rightarrow> uint64) \<Rightarrow> (str \<times> wal_io \<times> flush_io) list \<Rightarrow> time \<Rightarrow> time \<Rightarrow> int \<Rightarrow> time \<Rightarrow>
    atlas \<Rightarrow> str \<Rightarrow> event list option \<Rightarrow> event option \<Rightarrow> atlas \<times> (receipt list \<times> exp_result) impact_response" where
  "ingestImpactEvents C io bits order now later ack recorded a id' batch single =
     (case body_events batch single of
        None \<Rightarrow> (a, ImpactBadBody)
      | Some events \<Rightarrow>
          (case fill_experiment id' events of
             None \<Rightarrow> (a, ImpactRefused 400 ErrMixed)
           | Some events \<Rightarrow>
               (case ProcessBatch (ac_exp C) io (at_impact a) events now later ack of
                  (e, Inl err) \<Rightarrow> (a\<lparr>at_impact := e\<rparr>, ImpactRefused (impact_error_status err) err)
                | (e, Inr (receipts, r)) \<Rightarrow>
                    (a\<lparr>at_impact := e, at_metrics := recordImpactMetrics (ac_ts C) bits order recorded r (at_metrics a)\<rparr>,
                     ImpactOk (receipts, r)))))"

subsection \<open>The demonstration\<close>

text \<open>An empty body is accepted and leaves the configuration zero.\<close>

datatype demo_body = DemoBadBody | DemoEmpty | DemoConfig synthetic_config

definition zero_config :: synthetic_config where
  "zero_config = \<lparr>sc_Subjects = 0, sc_ControlRate = 0, sc_AbsoluteLift = 0, sc_DuplicatePct = 0, sc_Seed = 0\<rparr>"

definition zero_result :: exp_result where
  "zero_result = \<lparr>rs_ExperimentID = [], rs_TreatmentSampleSize = 0, rs_ControlSampleSize = 0, rs_TreatmentConversions = 0, rs_ControlConversions = 0,
     rs_TreatmentConversionRate = 0, rs_ControlConversionRate = 0, rs_AbsoluteLift = 0, rs_RelativeLift = None, rs_IncrementalConversions = 0,
     rs_IncrementalOutcomeValue = 0, rs_ConfidenceLow = 0, rs_ConfidenceHigh = 0, rs_InsufficientData = False, rs_Recommendation = [],
     rs_Diagnostics = new_diagnostics, rs_History = [], rs_UpdatedAt = zero_time\<rparr>"

definition demo_config :: "demo_body \<Rightarrow> synthetic_config" where
  "demo_config body = (case body of DemoConfig c \<Rightarrow> c | _ \<Rightarrow> zero_config)"

text \<open>The clocks and the system calls of one round.\<close>

record demo_step =
  ds_io :: exp_io
  ds_now :: time
  ds_later :: time
  ds_ack :: int
  ds_recorded :: time
  ds_order :: "(str \<times> wal_io \<times> flush_io) list"

fun demo_loop :: "atlas_codec \<Rightarrow> (real \<Rightarrow> uint64) \<Rightarrow> (nat \<Rightarrow> demo_step) \<Rightarrow> nat \<Rightarrow> nat \<Rightarrow> nat \<Rightarrow> exp_result \<Rightarrow> synthetic_batch list \<Rightarrow> atlas \<Rightarrow>
    atlas \<times> (exp_error, exp_result \<times> nat) result" where
  "demo_loop C bits steps index deliveries recorded r [] a = (a, Inr (r, deliveries))"
| "demo_loop C bits steps index deliveries recorded r (batch # batches) a =
     (let d = steps index in
      case ProcessBatchAt (ac_exp C) (ds_io d) (at_impact a) (sy_Events batch) (sy_ArrivedAt batch) (ds_now d) (ds_later d) (ds_ack d) of
        (e, Inl err) \<Rightarrow> (a\<lparr>at_impact := e\<rparr>, Inl err)
      | (e, Inr (receipts, r)) \<Rightarrow>
          let a = a\<lparr>at_impact := e\<rparr>; deliveries = deliveries + length (sy_Events batch) in
          if deliveries - recorded \<ge> 500 \<or> batches = []
          then demo_loop C bits steps (Suc index) deliveries deliveries r batches
            (a\<lparr>at_metrics := recordImpactMetrics (ac_ts C) bits (ds_order d) (ds_recorded d) r (at_metrics a)\<rparr>)
          else demo_loop C bits steps (Suc index) deliveries recorded r batches a)"

record synthetic_summary =
  ss_Subjects :: int
  ss_KnownControlRate :: real
  ss_KnownAbsoluteLift :: real
  ss_EstimatedAbsoluteLift :: real
  ss_AbsoluteEstimationError :: real
  ss_Deliveries :: nat
  ss_Batches :: nat

definition demo_summary :: "synthetic_config \<Rightarrow> exp_result \<Rightarrow> nat \<Rightarrow> nat \<Rightarrow> synthetic_summary" where
  "demo_summary config r deliveries batches =
     (let known = with_default 0 (sc_AbsoluteLift config) (round64 0.04) in
      \<lparr>ss_Subjects = rs_TreatmentSampleSize r + rs_ControlSampleSize r,
       ss_KnownControlRate = with_default 0 (sc_ControlRate config) (round64 0.08), ss_KnownAbsoluteLift = known,
       ss_EstimatedAbsoluteLift = rs_AbsoluteLift r, ss_AbsoluteEstimationError = \<bar>fsub (rs_AbsoluteLift r) known\<bar>,
       ss_Deliveries = deliveries, ss_Batches = batches\<rparr>)"

datatype demo_response = DemoBad | DemoNotFound | DemoRefused synthetic_error | DemoFailed nat exp_error | DemoOk synthetic_summary exp_result

definition runImpactDemo :: "'g rand_source \<Rightarrow> (int \<Rightarrow> 'g) \<Rightarrow> atlas_codec \<Rightarrow> (real \<Rightarrow> uint64) \<Rightarrow> (nat \<Rightarrow> demo_step) \<Rightarrow> time \<Rightarrow> atlas \<Rightarrow> str \<Rightarrow> demo_body \<Rightarrow>
    atlas \<times> demo_response" where
  "runImpactDemo R source_of C bits steps now a id' body =
     (case ExpEngine.Get (at_impact a) id' now of
        None \<Rightarrow> (a, DemoNotFound)
      | Some (experiment', _) \<Rightarrow>
          if body = DemoBadBody then (a, DemoBad)
          else
            let config = demo_config body in
            (case SyntheticBatches R source_of experiment' config of
               Inl err \<Rightarrow> (a, DemoRefused err)
             | Inr batches \<Rightarrow>
                 (case demo_loop C bits steps 0 0 0 zero_result batches a of
                    (a, Inl err) \<Rightarrow> (a, DemoFailed (impact_error_status err) err)
                  | (a, Inr (r, deliveries)) \<Rightarrow> (a, DemoOk (demo_summary config r deliveries (length batches)) r))))"

text \<open>A conclusion changes catalog, log and index as the request for an entry would.\<close>

lemma conclusion_is_posted:
  assumes "indexImpactConclusion U two_decimals C io wal_io now fresh a experiment' r = (a', res)"
  shows "\<exists>res'. entries_post U C io wal_io now fresh a (Some (conclusion_entry U two_decimals experiment' r)) = (a', res') \<and>
    (\<forall>entry. res = Inr entry \<longleftrightarrow> res' = EntryCreated entry)"
  using assms unfolding indexImpactConclusion_def entries_post_def
  by (auto simp: Let_def split: prod.splits sum.splits bool.splits)

end
