(* ===== verification/AtlasProps.thy ===== *)
theory AtlasProps
  imports AtlasImpact
begin

text \<open>
  What the Atlas server keeps: the search index agrees with the catalog as long as every write ends well, and what happens when one does not; and
  the counts of requests by minute.
\<close>

subsection \<open>The documents of an index\<close>

text \<open>The index is in order and holds these documents, with identifiers from a set of at most half the slots.\<close>

definition few_ids :: "str set \<Rightarrow> bool" where "few_ids I \<longleftrightarrow> finite I \<and> card I \<le> 2 ^ 31"

definition indexed :: "unicode \<Rightarrow> str set \<Rightarrow> index \<Rightarrow> sdoc set \<Rightarrow> bool" where
  "indexed U I i D \<longleftrightarrow> index_ok U i \<and> few_dead i \<and> set (live_docs i) = D \<and> sd_ID ` D \<subseteq> I"

definition indexable :: "unicode \<Rightarrow> str set \<Rightarrow> sdoc \<Rightarrow> bool" where "indexable U I d \<longleftrightarrow> sd_ID d \<in> I \<and> doc_length U d < 2 ^ 32"

definition put_in :: "sdoc set \<Rightarrow> sdoc \<Rightarrow> sdoc set" where "put_in D d = {x \<in> D. sd_ID x \<noteq> sd_ID d} \<union> {d}"

lemma indexed_new: "indexed U I NewIndex {}"
  by (simp add: indexed_def new_index_ok)

lemma indexed_upsert:
  assumes I: "few_ids I" and i: "indexed U I i D" and d: "indexable U I d"
  shows "indexed U I (Upsert U i d) (put_in D d)"
proof -
  have ok: "index_ok U i" "few_dead i" "set (live_docs i) = D" "sd_ID ` D \<subseteq> I" using i by (simp_all add: indexed_def)
  have "length (live_docs i) = card (sd_ID ` D)"
    using distinct_card [OF live_docs_distinct, of U i] ok(1,3) by (simp add: index_ok_def)
  also have "\<dots> \<le> 2 ^ 31" using card_mono [OF _ ok(4)] I by (simp add: few_ids_def)
  finally have "length (ix_docs i) < unat noDoc" using few_dead_slots [OF ok(1,2)] by (simp add: noDoc_def)
  from upsert_ok [OF ok(1) this] d ok(3,4) show ?thesis by (auto simp: indexed_def indexable_def put_in_def put_doc_def)
qed

lemma indexed_upserts:
  assumes "few_ids I" and "indexed U I i D" and "\<forall>d \<in> set ds. indexable U I d"
  shows "indexed U I (foldl (Upsert U) i ds) (foldl put_in D ds)"
  using assms(2,3)
  by (induction ds arbitrary: i D) (use indexed_upsert [OF assms(1)] in auto)

lemma foldl_put_in:
  "foldl put_in D ds = {x \<in> D. sd_ID x \<notin> sd_ID ` set ds} \<union> foldl put_in {} ds"
proof (induction ds rule: rev_induct)
  case (snoc d ds)
  have "foldl put_in D (ds @ [d]) = put_in (foldl put_in D ds) d" by simp
  also have "\<dots> = {x \<in> D. sd_ID x \<notin> sd_ID ` set (ds @ [d])} \<union> put_in (foldl put_in {} ds) d"
    by (subst snoc) (auto simp: put_in_def)
  finally show ?case by simp
qed simp

lemma put_in_ids: "sd_ID ` put_in D d = insert (sd_ID d) (sd_ID ` D)"
proof
  show "insert (sd_ID d) (sd_ID ` D) \<subseteq> sd_ID ` put_in D d"
  proof
    fix k
    assume "k \<in> insert (sd_ID d) (sd_ID ` D)"
    then show "k \<in> sd_ID ` put_in D d" by (cases "k = sd_ID d") (auto simp: put_in_def)
  qed
qed (auto simp: put_in_def)

lemma foldl_put_in_ids: "sd_ID ` foldl put_in {} ds = sd_ID ` set ds"
  by (induction ds rule: rev_induct) (simp_all add: put_in_ids)

lemma foldl_put_in_distinct:
  assumes "distinct (map sd_ID ds)"
  shows "foldl put_in {} ds = set ds"
  using assms
proof (induction ds rule: rev_induct)
  case (snoc d ds)
  have "sd_ID d \<notin> sd_ID ` set ds" using snoc(2) by simp
  then have "\<forall>x \<in> set ds. sd_ID x \<noteq> sd_ID d" by (metis image_eqI)
  then have "{x \<in> set ds. sd_ID x \<noteq> sd_ID d} = set ds" by blast
  then show ?case using snoc by (simp add: put_in_def)
qed simp

text \<open>Storing again what is there already changes nothing.\<close>

lemma foldl_put_in_again:
  assumes "foldl put_in {} ds \<subseteq> D" and "inj_on sd_ID D"
  shows "foldl put_in D ds = D"
proof -
  have "x \<in> foldl put_in {} ds" if x: "x \<in> D" "sd_ID x \<in> sd_ID ` set ds" for x
  proof -
    obtain y where "y \<in> foldl put_in {} ds" "sd_ID y = sd_ID x" using x(2) foldl_put_in_ids [of ds] by (metis imageE)
    then show ?thesis using assms x(1) by (metis inj_onD subsetD)
  qed
  then show ?thesis using assms(1) by (subst foldl_put_in) auto
qed

subsection \<open>Entries and live documents\<close>

definition is_doc :: "sdoc \<Rightarrow> bool" where "is_doc d \<longleftrightarrow> HasPrefix (sd_ID d) docPrefix"

definition entry_docs :: "catalog \<Rightarrow> sdoc set" where "entry_docs c = entry_document ` snd ` set (ca_entries c)"

lemma live_document_is_doc [simp]: "is_doc (live_document i t)"
  by (simp add: is_doc_def live_document_def)

lemma put_in_doc:
  assumes "is_doc d"
  shows "{x \<in> put_in D d. \<not> is_doc x} = {x \<in> D. \<not> is_doc x}"
  using assms by (auto simp: put_in_def is_doc_def)

lemma put_in_entry:
  assumes "\<not> is_doc d"
  shows "{x \<in> put_in D d. \<not> is_doc x} = put_in {x \<in> D. \<not> is_doc x} d"
  using assms by (auto simp: put_in_def)

lemma foldl_put_in_docs:
  assumes "\<forall>d \<in> set ds. is_doc d"
  shows "{x \<in> foldl put_in D ds. \<not> is_doc x} = {x \<in> D. \<not> is_doc x}"
  using assms by (induction ds arbitrary: D) (simp_all add: put_in_doc)

text \<open>The documents that the start reads from the logs, in the order of the list.\<close>

fun docs_read :: "rec_codec \<Rightarrow> atlas_io \<Rightarrow> time \<Rightarrow> store \<Rightarrow> docInfo list \<Rightarrow> sdoc list" where
  "docs_read J io now st [] = []"
| "docs_read J io now st (i # is) =
     (case Read J (ao_logs io (i_id i)) now (ao_read io (i_id i)) [] [] st (i_id i) of
        (st, Inr sn) \<Rightarrow> live_document (sn_doc sn) (sn_text sn) # docs_read J io now st is
      | (st, Inl e) \<Rightarrow> docs_read J io now st is)"

definition read_at_start :: "rec_codec \<Rightarrow> atlas_io \<Rightarrow> time \<Rightarrow> atlas \<Rightarrow> sdoc list" where
  "read_at_start J io now a = docs_read J io now (at_docs a) (List_docs (at_docs a))"

lemma each_doc_foldl:
  "at_index (foldl (each_doc U J io now) a is) = foldl (Upsert U) (at_index a) (docs_read J io now (at_docs a) is) \<and>
   at_catalog (foldl (each_doc U J io now) a is) = at_catalog a \<and> at_wal (foldl (each_doc U J io now) a is) = at_wal a"
proof (induction "is" arbitrary: a)
  case (Cons i "is")
  obtain st r where "Read J (ao_logs io (i_id i)) now (ao_read io (i_id i)) [] [] (at_docs a) (i_id i) = (st, r)" by fastforce
  then show ?case using Cons [of "each_doc U J io now a i"] by (cases r) (simp_all add: each_doc_def indexDoc_def)
qed simp

lemma Each_fields:
  "at_index (Each U J io now a) = foldl (Upsert U) (at_index a) (read_at_start J io now a)"
  "at_catalog (Each U J io now a) = at_catalog a" "at_wal (Each U J io now a) = at_wal a"
  using each_doc_foldl by (simp_all add: Each_def read_at_start_def)

lemma read_at_start_docs: "\<forall>d \<in> set (read_at_start J io now a). is_doc d"
proof -
  have "\<forall>d \<in> set (docs_read J io now st is). is_doc d" for st "is"
  proof (induction "is" arbitrary: st)
    case (Cons i "is")
    obtain st' r where "Read J (ao_logs io (i_id i)) now (ao_read io (i_id i)) [] [] st (i_id i) = (st', r)" by fastforce
    then show ?case using Cons [of st'] by (cases r) simp_all
  qed simp
  then show ?thesis by (simp add: read_at_start_def)
qed

subsection \<open>A server over time\<close>

text \<open>A document of an entry that the log can hold; with them every write succeeds.\<close>

definition loggable :: "unicode \<Rightarrow> atlas_codec \<Rightarrow> str set \<Rightarrow> sdoc \<Rightarrow> bool" where
  "loggable U C I d \<longleftrightarrow> indexable U I d \<and> \<not> is_doc d \<and> encodable (ac_doc C) d \<and> short maxWALLine (doc_line (ac_doc C) d)"

text \<open>
  The server is started on an empty directory, serves entries and the conclusions of experiments whose records are appended to the log (whatever
  becomes of the catalog's file) and runs, and live documents change; it can be stopped between requests and started again on its files.
\<close>

inductive atlas_reachable :: "unicode \<Rightarrow> atlas_codec \<Rightarrow> str set \<Rightarrow> atlas \<Rightarrow> bool" for U C I where
  started: "open_parts U C io now writer origins files = Inr a \<Longrightarrow> af_catalog files = None \<Longrightarrow> af_wal files = [] \<Longrightarrow>
    \<forall>d \<in> set (read_at_start (ac_rec C) io now a). indexable U I d \<Longrightarrow> atlas_reachable U C I (Each U (ac_rec C) io now a)"
| posted: "atlas_reachable U C I a \<Longrightarrow> entries_post U C io DocSynced now fresh a body = (a', res) \<Longrightarrow>
    \<forall>entry e. body = Some entry \<longrightarrow> prepare_entry U now fresh entry = Inr e \<longrightarrow> loggable U C I (entry_document e) \<Longrightarrow> atlas_reachable U C I a'"
| concluded: "atlas_reachable U C I a \<Longrightarrow> indexImpactConclusion U two_decimals C io DocSynced now fresh a experiment' r = (a', cres) \<Longrightarrow>
    \<forall>e. prepare_entry U now fresh (conclusion_entry U two_decimals experiment' r) = Inr e \<longrightarrow> loggable U C I (entry_document e) \<Longrightarrow>
    atlas_reachable U C I a'"
| run_posted: "atlas_reachable U C I a \<Longrightarrow> runs_post C io now fresh a rbody = (a', rres) \<Longrightarrow> atlas_reachable U C I a'"
| doc_changed: "atlas_reachable U C I a \<Longrightarrow> indexable U I (live_document i t) \<Longrightarrow> atlas_reachable U C I (indexDoc U a i t)"
| elsewhere: "atlas_reachable U C I a \<Longrightarrow> at_catalog a' = at_catalog a \<Longrightarrow> at_index a' = at_index a \<Longrightarrow> at_wal a' = at_wal a \<Longrightarrow>
    atlas_reachable U C I a'"
| restarted: "atlas_reachable U C I a \<Longrightarrow> open_parts U C io now writer origins files = Inr a' \<Longrightarrow> af_catalog files = ca_file (at_catalog a) \<Longrightarrow>
    af_wal files = at_wal a \<Longrightarrow> \<forall>d \<in> set (read_at_start (ac_rec C) io now a'). indexable U I d \<Longrightarrow> atlas_reachable U C I (Each U (ac_rec C) io now a')"

definition catalog_in_order :: "atlas_codec \<Rightarrow> catalog \<Rightarrow> bool" where
  "catalog_in_order C c \<longleftrightarrow> catalog_ok (ac_catalog C) c \<and> (\<forall>k e. (k, e) \<in> set (ca_entries c) \<longrightarrow> ce_ID e = k)"

definition log_lists :: "unicode \<Rightarrow> atlas_codec \<Rightarrow> str set \<Rightarrow> byte list \<Rightarrow> sdoc set \<Rightarrow> bool" where
  "log_lists U C I wal D \<longleftrightarrow> (\<exists>ds. wal = lines_file (map (doc_line (ac_doc C)) ds) \<and> (\<forall>d \<in> set ds. loggable U C I d) \<and> foldl put_in {} ds = D)"

definition index_holds :: "unicode \<Rightarrow> str set \<Rightarrow> index \<Rightarrow> sdoc set \<Rightarrow> bool" where
  "index_holds U I i E \<longleftrightarrow> (\<exists>D. indexed U I i D \<and> {d \<in> D. \<not> is_doc d} = E)"

definition atlas_ok :: "unicode \<Rightarrow> atlas_codec \<Rightarrow> str set \<Rightarrow> atlas \<Rightarrow> bool" where
  "atlas_ok U C I a \<longleftrightarrow> catalog_in_order C (at_catalog a) \<and> log_lists U C I (at_wal a) (entry_docs (at_catalog a)) \<and>
     index_holds U I (at_index a) (entry_docs (at_catalog a))"

lemma update_values:
  assumes "distinct (map fst m)"
  shows "(k', e') \<in> set (AList.update k v m) \<longleftrightarrow> (if k' = k then e' = v else (k', e') \<in> set m)"
proof -
  have "distinct (map fst (AList.update k v m))" using assms by (rule distinct_update)
  then have "(k', e') \<in> set (AList.update k v m) \<longleftrightarrow> map_of (AList.update k v m) k' = Some e'" by simp
  also have "\<dots> \<longleftrightarrow> (if k' = k then e' = v else map_of m k' = Some e')" by (auto simp: update_conv')
  finally show ?thesis using assms by simp
qed

lemma entry_document_ID [simp]: "sd_ID (entry_document e) = ce_ID e"
  by (simp add: entry_document_def)

lemma entry_docs_member: "x \<in> entry_docs c \<longleftrightarrow> (\<exists>k e. (k, e) \<in> set (ca_entries c) \<and> x = entry_document e)"
  by (force simp: entry_docs_def)

lemma entry_docs_update:
  assumes "distinct (map fst (ca_entries c))" and keys: "\<forall>k e. (k, e) \<in> set (ca_entries c) \<longrightarrow> ce_ID e = k"
    and c': "ca_entries c' = AList.update (ce_ID e) e (ca_entries c)"
  shows "entry_docs c' = put_in (entry_docs c) (entry_document e)"
proof (rule set_eqI)
  fix x
  have "x \<in> entry_docs c' \<longleftrightarrow> x = entry_document e \<or> (\<exists>k y. k \<noteq> ce_ID e \<and> (k, y) \<in> set (ca_entries c) \<and> x = entry_document y)"
    unfolding entry_docs_member c' update_values [OF assms(1)] by (metis (full_types))
  also have "\<dots> \<longleftrightarrow> x \<in> put_in (entry_docs c) (entry_document e)"
    using keys by (auto simp: put_in_def entry_docs_member)
  finally show "x \<in> entry_docs c' \<longleftrightarrow> x \<in> put_in (entry_docs c) (entry_document e)" .
qed

lemma entry_docs_inj:
  assumes "catalog_in_order C c"
  shows "inj_on sd_ID (entry_docs c)"
proof -
  have dist: "distinct (map fst (ca_entries c))" and keys: "\<forall>k e. (k, e) \<in> set (ca_entries c) \<longrightarrow> ce_ID e = k"
    using assms by (simp_all add: catalog_in_order_def catalog_ok_def)
  then have "x = y" if "(k, x) \<in> set (ca_entries c)" "(l, y) \<in> set (ca_entries c)" "ce_ID x = ce_ID y" for k x l y
    using that eq_key_imp_eq_value [OF dist, of k x y] by metis
  then show ?thesis by (intro inj_onI) (metis entry_docs_member entry_document_ID)
qed

subsection \<open>Every step keeps the server in order\<close>

lemma index_holds_upsert:
  assumes I: "few_ids I" and i: "index_holds U I i E" and d: "indexable U I d"
  shows "index_holds U I (Upsert U i d) (if is_doc d then E else put_in E d)"
  using i indexed_upsert [OF I _ d] put_in_doc put_in_entry unfolding index_holds_def by metis

lemma index_holds_docs:
  assumes I: "few_ids I" and i: "index_holds U I i E" and ds: "\<forall>d \<in> set ds. indexable U I d \<and> is_doc d"
  shows "index_holds U I (foldl (Upsert U) i ds) E"
  using i ds
proof (induction ds arbitrary: i)
  case (Cons d ds)
  then show ?case using index_holds_upsert [OF I Cons(2), of d] by simp
qed simp

lemma prepared_in_order:
  assumes "catalog_in_order C c" and "catalog_law (ac_catalog C)" and "SaveEntry U (ac_catalog C) io now fresh c entry = (c', res)"
  shows "catalog_in_order C c' \<and>
    (case res of Inl e \<Rightarrow> entry_docs c' = entry_docs c
     | Inr e \<Rightarrow> prepare_entry U now fresh entry = Inr e \<and> entry_docs c' = put_in (entry_docs c) (entry_document e))"
proof -
  have ok: "catalog_ok (ac_catalog C) c" and keys: "\<forall>k e. (k, e) \<in> set (ca_entries c) \<longrightarrow> ce_ID e = k"
    using assms(1) by (simp_all add: catalog_in_order_def)
  then have dist: "distinct (map fst (ca_entries c))" by (simp add: catalog_ok_def)
  note cases' = SaveEntry_cases [OF ok assms(2,3)]
  show ?thesis
  proof (cases res)
    case (Inl e)
    then show ?thesis using cases' keys by (simp add: catalog_in_order_def entry_docs_def)
  next
    case (Inr e)
    then have "ca_entries c' = AList.update (ce_ID e) e (ca_entries c)" using cases' by simp
    then show ?thesis using cases' Inr keys entry_docs_update [OF dist keys] update_values [OF dist]
      by (auto simp: catalog_in_order_def split: if_splits)
  qed
qed

lemma log_holds_append:
  assumes "log_lists U C I wal D" and "loggable U C I d" and "wal_Append (ac_doc C) DocSynced wal d = (wal', ok)"
  shows "ok \<and> log_lists U C I wal' (put_in D d)"
proof -
  obtain ds where ds: "wal = lines_file (map (doc_line (ac_doc C)) ds)" "\<forall>d \<in> set ds. loggable U C I d" "foldl put_in {} ds = D"
    using assms(1) by (auto simp: log_lists_def)
  have "doc_record (ac_doc C) d = Some (doc_line (ac_doc C) d)" using assms(2) by (auto simp: loggable_def encodable_def doc_line_def)
  then have "ok \<and> wal' = lines_file (map (doc_line (ac_doc C)) (ds @ [d]))" using assms(3) by (auto simp: wal_Append_def ds(1))
  then show ?thesis using ds assms(2) unfolding log_lists_def by (intro conjI exI [of _ "ds @ [d]"]) auto
qed

lemma post_keeps:
  assumes law: "catalog_law (ac_catalog C)" and I: "few_ids I" and ok: "atlas_ok U C I a"
    and post: "entries_post U C io DocSynced now fresh a body = (a', res)"
    and fit: "\<forall>entry e. body = Some entry \<longrightarrow> prepare_entry U now fresh entry = Inr e \<longrightarrow> loggable U C I (entry_document e)"
  shows "atlas_ok U C I a'"
proof (cases body)
  case None
  then show ?thesis using post ok by (simp add: entries_post_def)
next
  case (Some entry)
  obtain c r where s: "SaveEntry U (ac_catalog C) io now fresh (at_catalog a) entry = (c, r)" by fastforce
  have a: "catalog_in_order C (at_catalog a)" "log_lists U C I (at_wal a) (entry_docs (at_catalog a))"
      "index_holds U I (at_index a) (entry_docs (at_catalog a))" using ok by (simp_all add: atlas_ok_def)
  note saved = prepared_in_order [OF a(1) law s]
  show ?thesis
  proof (cases r)
    case (Inl e)
    then show ?thesis using post Some s saved a by (auto simp: entries_post_def atlas_ok_def)
  next
    case (Inr e)
    then have l: "loggable U C I (entry_document e)" using fit Some saved by simp
    obtain wal done_ok where w: "wal_Append (ac_doc C) DocSynced (at_wal a) (entry_document e) = (wal, done_ok)" by fastforce
    have fit': "indexable U I (entry_document e)" "\<not> is_doc (entry_document e)" using l by (simp_all add: loggable_def)
    show ?thesis
      using post Some s Inr saved w log_holds_append [OF a(2) l w] index_holds_upsert [OF I a(3) fit'(1)] fit'(2)
      by (auto simp: entries_post_def atlas_ok_def Let_def)
  qed
qed

lemma catalog_index_holds:
  assumes I: "few_ids I" and c: "catalog_in_order C c" and fit: "\<forall>d \<in> entry_docs c. indexable U I d"
  shows "indexed U I (catalog_index U c) (entry_docs c)"
proof -
  let ?ds = "map entry_document (Entries c)"
  have dist: "distinct (map fst (ca_entries c))" and keys: "\<forall>k e. (k, e) \<in> set (ca_entries c) \<longrightarrow> ce_ID e = k"
    using c by (simp_all add: catalog_in_order_def catalog_ok_def)
  have set_ds: "set ?ds = entry_docs c" by (simp add: Entries_def entry_docs_def)
  have "map ce_ID (map snd (ca_entries c)) = map fst (ca_entries c)" using keys by auto
  with dist have "distinct (map ce_ID (map snd (ca_entries c)))" by metis
  moreover have "mset (map ce_ID (Entries c)) = mset (map ce_ID (map snd (ca_entries c)))"
    by (simp only: Entries_def mset_map mset_sort)
  ultimately have "distinct (map ce_ID (Entries c))" by (metis mset_eq_imp_distinct_iff)
  then have "distinct (map sd_ID ?ds)" by (simp add: comp_def)
  then have "foldl put_in {} ?ds = entry_docs c" using foldl_put_in_distinct set_ds by blast
  moreover have "catalog_index U c = foldl (Upsert U) NewIndex ?ds" by (simp add: catalog_index_def foldl_map)
  ultimately show ?thesis using indexed_upserts [OF I indexed_new, of ?ds U] fit set_ds by metis
qed

lemma open_parts_fields:
  assumes "open_parts U C io now writer origins files = Inr a"
  shows "OpenCatalog (ac_catalog C) (ao_catalog io) (af_catalog files) (af_catalog_tmp files) = Inr (at_catalog a)"
    and "wal_Replay U (ac_doc C) (af_wal files) (catalog_index U (at_catalog a)) = Inr (at_index a)" and "at_wal a = af_wal files"
proof -
  obtain c i where c: "OpenCatalog (ac_catalog C) (ao_catalog io) (af_catalog files) (af_catalog_tmp files) = Inr c"
    and i: "wal_Replay U (ac_doc C) (af_wal files) (catalog_index U c) = Inr i" and a: "at_catalog a = c" "at_index a = i" "at_wal a = af_wal files"
    using assms unfolding open_parts_def
    by (auto simp: rbind_eq_Inr at_err_def split: if_splits sum.splits option.splits)
  then show "OpenCatalog (ac_catalog C) (ao_catalog io) (af_catalog files) (af_catalog_tmp files) = Inr (at_catalog a)"
    "wal_Replay U (ac_doc C) (af_wal files) (catalog_index U (at_catalog a)) = Inr (at_index a)" "at_wal a = af_wal files" by simp_all
qed

lemma opened_readable:
  assumes "OpenCatalog K readable file tmp = Inr c"
  shows "OpenCatalog K True file tmp = Inr c"
  using assms by (auto simp: OpenCatalog_def split: option.splits if_splits)

lemma replayed:
  assumes law: "doc_law (ac_doc C)" and "\<forall>d \<in> set ds. loggable U C I d"
  shows "wal_Replay U (ac_doc C) (lines_file (map (doc_line (ac_doc C)) ds)) i = Inr (foldl (Upsert U) i ds)"
proof -
  have enc: "\<forall>d \<in> set ds. encodable (ac_doc C) d" and short: "\<forall>l \<in> set (map (doc_line (ac_doc C)) ds). short maxWALLine l"
    using assms(2) by (auto simp: loggable_def)
  show ?thesis unfolding wal_Replay_def
    by (simp add: scan_loop_file [OF replay_lines(1) [OF law enc] short] replay_lines(2) [OF law enc])
qed

text \<open>What the start makes of a catalog in order and of a log whose documents are the latest or older versions of entries.\<close>

lemma opened_index:
  assumes law: "doc_law (ac_doc C)" and I: "few_ids I" and c: "catalog_in_order C (at_catalog a)"
    and fit: "\<forall>d \<in> entry_docs (at_catalog a). indexable U I d" and log: "log_lists U C I (af_wal files) D"
    and opened: "open_parts U C io now writer origins files = Inr a"
  shows "indexed U I (at_index a) ({d \<in> entry_docs (at_catalog a). sd_ID d \<notin> sd_ID ` D} \<union> D)"
proof -
  obtain ds where ds: "af_wal files = lines_file (map (doc_line (ac_doc C)) ds)" "\<forall>d \<in> set ds. loggable U C I d" "foldl put_in {} ds = D"
    using log by (auto simp: log_lists_def)
  have "at_index a = foldl (Upsert U) (catalog_index U (at_catalog a)) ds"
    using open_parts_fields(2) [OF opened] replayed [OF law ds(2)] by (simp add: ds(1))
  moreover have "\<forall>d \<in> set ds. indexable U I d" using ds(2) by (auto simp: loggable_def)
  ultimately have "indexed U I (at_index a) (foldl put_in (entry_docs (at_catalog a)) ds)"
    using indexed_upserts [OF I catalog_index_holds [OF I c fit]] by simp
  moreover have "sd_ID ` D = sd_ID ` set ds" using foldl_put_in_ids [of ds] by (simp add: ds(3))
  ultimately show ?thesis using foldl_put_in [of "entry_docs (at_catalog a)" ds] by (simp add: ds(3))
qed

lemma log_holds_fits:
  assumes "log_lists U C I wal D"
  shows "\<forall>d \<in> D. indexable U I d \<and> \<not> is_doc d"
proof -
  have "foldl put_in {} ds \<subseteq> set ds" for ds :: "sdoc list" by (induction ds rule: rev_induct) (auto simp: put_in_def)
  then show ?thesis using assms by (auto simp: log_lists_def loggable_def)
qed

text \<open>A catalog opened again is in order, with the same entries.\<close>

lemma reopened_in_order:
  assumes c: "catalog_in_order C c" and opened: "open_parts U C io now writer origins files = Inr a" "af_catalog files = ca_file c"
  shows "catalog_in_order C (at_catalog a)" and "entry_docs (at_catalog a) = entry_docs c" and "set (ca_entries (at_catalog a)) = set (ca_entries c)"
proof -
  have "OpenCatalog (ac_catalog C) True (ca_file c) (af_catalog_tmp files) = Inr (at_catalog a)"
    using opened_readable [OF open_parts_fields(1) [OF opened(1)]] opened(2) by simp
  moreover have "catalog_ok (ac_catalog C) c" using c by (simp add: catalog_in_order_def)
  ultimately have re: "catalog_ok (ac_catalog C) (at_catalog a)" "mset (ca_entries (at_catalog a)) = mset (ca_entries c)"
    using reopened_ok by blast+
  then show same: "set (ca_entries (at_catalog a)) = set (ca_entries c)" using mset_eq_setD by blast
  then show "catalog_in_order C (at_catalog a)" "entry_docs (at_catalog a) = entry_docs c"
    using c re(1) by (simp_all add: catalog_in_order_def entry_docs_def)
qed

lemma restart_keeps:
  assumes laws: "doc_law (ac_doc C)" and I: "few_ids I" and ok: "atlas_ok U C I a"
    and opened: "open_parts U C io now writer origins files = Inr a'" "af_catalog files = ca_file (at_catalog a)" "af_wal files = at_wal a"
    and read': "\<forall>d \<in> set (read_at_start (ac_rec C) io now a'). indexable U I d"
  shows "atlas_ok U C I (Each U (ac_rec C) io now a')"
proof -
  let ?E = "entry_docs (at_catalog a)"
  have a: "catalog_in_order C (at_catalog a)" "log_lists U C I (at_wal a) ?E" using ok by (simp_all add: atlas_ok_def)
  note re = reopened_in_order [OF a(1) opened(1,2)]
  have E: "\<forall>d \<in> ?E. indexable U I d \<and> \<not> is_doc d" by (rule log_holds_fits [OF a(2)])
  have "{d \<in> ?E. sd_ID d \<notin> sd_ID ` ?E} \<union> ?E = ?E" by blast
  then have "indexed U I (at_index a') ?E"
    using opened_index [OF laws I re(1) _ _ opened(1), of ?E] E a(2) by (simp add: re(2) opened(3))
  then have "index_holds U I (at_index a') ?E" unfolding index_holds_def using E by (intro exI [of _ ?E]) auto
  moreover have "\<forall>d \<in> set (read_at_start (ac_rec C) io now a'). indexable U I d \<and> is_doc d" using read' read_at_start_docs by blast
  ultimately have "index_holds U I (at_index (Each U (ac_rec C) io now a')) ?E" by (simp add: Each_fields index_holds_docs [OF I])
  then show ?thesis using re(1,2) a(2) open_parts_fields(3) [OF opened(1)] by (simp add: atlas_ok_def Each_fields opened(3))
qed

lemma reachable_in_order:
  assumes law: "catalog_law (ac_catalog C)" "doc_law (ac_doc C)" and I: "few_ids I" and reach: "atlas_reachable U C I a"
  shows "atlas_ok U C I a"
  using reach
proof induction
  case (started io now writer origins files a)
  have c: "at_catalog a = \<lparr>ca_file = None, ca_tmp = af_catalog_tmp files, ca_entries = [], ca_runs = []\<rparr>"
    using opened_readable [OF open_parts_fields(1) [OF started(1)]] started(2) by (auto simp: OpenCatalog_def)
  then have order: "catalog_in_order C (at_catalog a)" and none: "entry_docs (at_catalog a) = {}"
    by (simp_all add: catalog_in_order_def catalog_ok_def entry_docs_def)
  have log: "log_lists U C I (af_wal files) {}" unfolding log_lists_def using started(3) by (intro exI [of _ "[]"]) simp
  have "index_holds U I (at_index a) {}"
    using opened_index [OF law(2) I order _ log started(1)] none unfolding index_holds_def by (intro exI [of _ "{}"]) simp
  moreover have "\<forall>d \<in> set (read_at_start (ac_rec C) io now a). indexable U I d \<and> is_doc d" using started(4) read_at_start_docs by blast
  ultimately have "index_holds U I (at_index (Each U (ac_rec C) io now a)) {}" by (simp add: Each_fields index_holds_docs [OF I])
  then show ?case using order none log open_parts_fields(3) [OF started(1)] by (simp add: atlas_ok_def Each_fields)
next
  case (posted a io now fresh body a' res)
  then show ?case using post_keeps [OF law(1) I] by blast
next
  case (concluded a two_decimals io now fresh experiment' r a' cres)
  obtain res where "entries_post U C io DocSynced now fresh a (Some (conclusion_entry U two_decimals experiment' r)) = (a', res)"
    using conclusion_is_posted [OF concluded(2)] by blast
  from post_keeps [OF law(1) I concluded(4) this] show ?case using concluded(3) by blast
next
  case (run_posted a io now fresh rbody a' rres)
  have same: "at_index a' = at_index a \<and> at_wal a' = at_wal a \<and>
      (at_catalog a' = at_catalog a \<or> (\<exists>x r. SaveRun (ac_catalog C) io now fresh (at_catalog a) x = (at_catalog a', r)))"
    using run_posted(2) by (auto simp: runs_post_def split: option.splits prod.splits sum.splits)
  moreover have "catalog_ok (ac_catalog C) (at_catalog a)" using run_posted(3) by (simp add: atlas_ok_def catalog_in_order_def)
  ultimately have "catalog_ok (ac_catalog C) (at_catalog a') \<and> ca_entries (at_catalog a') = ca_entries (at_catalog a)"
    using SaveRun_cases [OF _ law(1)] by metis
  then show ?case using run_posted(3) same by (simp add: atlas_ok_def catalog_in_order_def entry_docs_def)
next
  case (doc_changed a i t)
  then have "index_holds U I (at_index a) (entry_docs (at_catalog a))" by (simp add: atlas_ok_def)
  from index_holds_upsert [OF I this doc_changed(2)] doc_changed(3) show ?case by (simp add: atlas_ok_def indexDoc_def)
next
  case (elsewhere a a')
  then show ?case by (simp add: atlas_ok_def)
next
  case (restarted a io now writer origins files a')
  then show ?case using restart_keeps [OF law(2) I] by blast
qed

lemma lookup_entry:
  assumes c: "catalog_in_order C (at_catalog a)" and d: "d \<in> entry_docs (at_catalog a)" "\<not> is_doc d"
  shows "\<exists>e. lookup a (sd_ID d) = Some e \<and> entry_document e = d"
proof -
  obtain k e where e: "(k, e) \<in> set (ca_entries (at_catalog a))" "d = entry_document e" using d(1) by (auto simp: entry_docs_member)
  have "distinct (map fst (ca_entries (at_catalog a)))" "ce_ID e = k" using c e(1) by (simp_all add: catalog_in_order_def catalog_ok_def)
  with e d(2) show ?thesis by (auto simp: lookup_def Entry_def is_doc_def)
qed

subsection \<open>Properties\<close>

text \<open>
  C16: The knowledge base is searchable as it is, as long as every entry saved also reached the search log: at any time between requests, also after
  restarts, the entries in the index are exactly those of the catalog in their last version, and every hit that is not a live document is shown with
  the entry of its identifier and title. Here every append to the log succeeds (what becomes of the catalog's file does not matter), no entry has an
  identifier with the prefix of live documents, log lines are shorter than 16 MiB, and identifiers and terms are no more than the index can number.
  C35 is what happens after an append that failed, \<open>entry_hides_document\<close> what an entry with the prefix does.
\<close>

theorem knowledge_is_searchable:
  assumes "catalog_law (ac_catalog C)" and "doc_law (ac_doc C)" and "few_ids I" and "atlas_reachable U C I a" and "log_law lg"
  shows "{d \<in> set (live_docs (at_index a)). \<not> HasPrefix (sd_ID d) docPrefix} = entry_document ` set (Entries (at_catalog a)) \<and>
    (\<forall>r \<in> set (Search U lg (at_index a) query limit). \<not> HasPrefix (r_ID r) docPrefix \<longrightarrow>
       (\<exists>e. lookup a (r_ID r) = Some e \<and> ce_ID e = r_ID r \<and> ce_Title e = r_Title r))"
proof -
  have ok: "catalog_in_order C (at_catalog a)" "index_holds U I (at_index a) (entry_docs (at_catalog a))"
    using reachable_in_order [OF assms(1-4)] by (simp_all add: atlas_ok_def)
  then have i: "index_ok U (at_index a)" and docs: "{d \<in> set (live_docs (at_index a)). \<not> is_doc d} = entry_docs (at_catalog a)"
    by (auto simp: index_holds_def indexed_def)
  have "\<exists>e. lookup a (r_ID r) = Some e \<and> ce_ID e = r_ID r \<and> ce_Title e = r_Title r"
    if r: "r \<in> set (Search U lg (at_index a) query limit)" "\<not> HasPrefix (r_ID r) docPrefix" for r
  proof -
    obtain d where d: "d \<in> set (live_docs (at_index a))" "r_ID r = sd_ID d" "r_Title r = sd_Title d"
      using r(1) by (auto simp: search_exact [OF i assms(5)] spec_search_def Let_def dest!: in_set_takeD)
    then have "d \<in> entry_docs (at_catalog a)" "\<not> is_doc d" using docs r(2) by (auto simp: is_doc_def)
    from lookup_entry [OF ok(1) this] d show ?thesis by (auto simp: entry_document_def)
  qed
  moreover have "entry_docs (at_catalog a) = entry_document ` set (Entries (at_catalog a))" by (simp add: entry_docs_def Entries_def)
  ultimately show ?thesis using docs by (auto simp: is_doc_def)
qed

text \<open>
  C35: When an entry is changed and its record cannot be appended to the log, the answer says that a restart will rebuild the index. It does not:
  the start stores the old version from the log over the new one of the catalog, and searches find the old text from then on.
\<close>

theorem restart_brings_back_old_version:
  assumes law: "catalog_law (ac_catalog C)" "doc_law (ac_doc C)" and I: "few_ids I" and reach: "atlas_reachable U C I a"
    and old: "Entry (at_catalog a) (ce_ID e) = Some old" and new: "prepare_entry U now fresh entry = Inr e" "entry_document e \<noteq> entry_document old"
    and room: "indexable U I (entry_document e)"
    and post: "entries_post U C io (DocTorn 0) now fresh a (Some entry) = (a1, EntryNotIndexed)"
    and opened: "open_parts U C io2 now2 writer origins files = Inr a2" "af_catalog files = ca_file (at_catalog a1)" "af_wal files = at_wal a1"
      "\<forall>d \<in> set (read_at_start (ac_rec C) io2 now2 a2). indexable U I d"
  shows "Entry (at_catalog a2) (ce_ID e) = Some e \<and>
    {d \<in> set (live_docs (at_index (Each U (ac_rec C) io2 now2 a2))). sd_ID d = ce_ID e} = {entry_document old}"
proof -
  let ?E = "entry_docs (at_catalog a)"
  have ok: "catalog_in_order C (at_catalog a)" "log_lists U C I (at_wal a) ?E" using reachable_in_order [OF law I reach] by (simp_all add: atlas_ok_def)
  have fit: "\<forall>d \<in> ?E. indexable U I d \<and> \<not> is_doc d" by (rule log_holds_fits [OF ok(2)])
  obtain c r where s: "SaveEntry U (ac_catalog C) io now fresh (at_catalog a) entry = (c, r)" by fastforce
  note saved = prepared_in_order [OF ok(1) law(1) s]
  have r: "r = Inr e" and a1: "at_catalog a1 = c" "at_wal a1 = at_wal a"
    using post s new(1) saved
    by (auto simp: entries_post_def wal_Append_def Let_def split: sum.splits option.splits prod.splits)
  have c: "catalog_in_order C c" "entry_docs c = put_in ?E (entry_document e)" using saved r by auto
  have memb: "entry_document old \<in> ?E" using old by (auto simp: entry_docs_member Entry_def dest: map_of_SomeD)
  have same_ID: "ce_ID old = ce_ID e" using ok(1) old by (auto simp: catalog_in_order_def Entry_def dest: map_of_SomeD)
  have known: "ce_ID e \<in> sd_ID ` ?E" using memb same_ID by (metis entry_document_ID imageI)
  have re: "catalog_in_order C (at_catalog a2)" "entry_docs (at_catalog a2) = put_in ?E (entry_document e)"
      "set (ca_entries (at_catalog a2)) = set (ca_entries c)"
    using reopened_in_order [OF c(1) opened(1)] opened(2) c(2) a1(1) by auto
  have "\<forall>d \<in> put_in ?E (entry_document e). indexable U I d" using fit room by (auto simp: put_in_def)
  then have "indexed U I (at_index a2) ({d \<in> put_in ?E (entry_document e). sd_ID d \<notin> sd_ID ` ?E} \<union> ?E)"
    using opened_index [OF law(2) I re(1) _ _ opened(1), of ?E] ok(2) opened(3) a1(2) re(2) by simp
  moreover have "{d \<in> put_in ?E (entry_document e). sd_ID d \<notin> sd_ID ` ?E} = {}"
    using known by (auto simp: put_in_def)
  ultimately have "index_holds U I (at_index a2) ?E" unfolding index_holds_def using fit by (intro exI [of _ ?E]) auto
  moreover have "\<forall>d \<in> set (read_at_start (ac_rec C) io2 now2 a2). indexable U I d \<and> is_doc d" using opened(4) read_at_start_docs by blast
  ultimately have "index_holds U I (at_index (Each U (ac_rec C) io2 now2 a2)) ?E" by (simp add: Each_fields index_holds_docs [OF I])
  then have E: "{d \<in> set (live_docs (at_index (Each U (ac_rec C) io2 now2 a2))). \<not> is_doc d} = ?E"
    by (auto simp: index_holds_def indexed_def)
  have "{d \<in> set (live_docs (at_index (Each U (ac_rec C) io2 now2 a2))). sd_ID d = ce_ID e} = {d \<in> ?E. sd_ID d = ce_ID e}"
    using fit memb same_ID by (auto simp: is_doc_def E [symmetric])
  also have "\<dots> = {entry_document old}"
    using memb same_ID inj_onD [OF entry_docs_inj [OF ok(1)]] by auto
  finally have found: "{d \<in> set (live_docs (at_index (Each U (ac_rec C) io2 now2 a2))). sd_ID d = ce_ID e} = {entry_document old}" .
  have "catalog_ok (ac_catalog C) (at_catalog a)" using ok(1) by (simp add: catalog_in_order_def)
  from SaveEntry_cases [OF this law(1) s] have "map_of (ca_entries c) (ce_ID e) = Some e" by (simp add: r update_conv')
  then have "(ce_ID e, e) \<in> set (ca_entries (at_catalog a2))" using re(3) by (auto dest: map_of_SomeD)
  moreover have "distinct (map fst (ca_entries (at_catalog a2)))" using re(1) by (simp add: catalog_in_order_def catalog_ok_def)
  ultimately show ?thesis using found by (simp add: Entry_def)
qed

text \<open>
  An entry whose identifier is that of a live document takes its place in the index: the words of the document are not found any more until it changes
  again, and what the entry's words find is shown as the document, never as the entry.
\<close>

theorem entry_hides_document:
  assumes "few_ids I" and "indexed U I (at_index a) D" and "indexable U I (entry_document e)" and "HasPrefix (ce_ID e) docPrefix"
    and post: "entries_post U C io wal_io now fresh a body = (a', EntryCreated e)"
  shows "{d \<in> set (live_docs (at_index a')). sd_ID d = ce_ID e} = {entry_document e} \<and>
    (\<forall>shown. lookup a' (ce_ID e) = Some shown \<longrightarrow> ce_Type shown = map of_char ''Doc'')"
proof -
  have "at_index a' = Upsert U (at_index a) (entry_document e)"
    using post by (auto simp: entries_post_def Let_def split: option.splits prod.splits sum.splits bool.splits)
  then have "set (live_docs (at_index a')) = put_in D (entry_document e)" using indexed_upsert [OF assms(1-3)] by (simp add: indexed_def)
  then show ?thesis using assms(4) by (auto simp: put_in_def lookup_def split: option.splits)
qed

subsection \<open>A small server\<close>

text \<open>Codecs that know one entry in two versions; a server started on an empty directory.\<close>

definition one_doc_codec :: doc_codec where
  "one_doc_codec =
     \<lparr>dc_doc = (\<lambda>_. Some [65]),
      dc_rec = (\<lambda>d s. if d = entry_document first_entry \<and> s = ChecksumIEEE [65] then Some [66] else None),
      dc_unrec = (\<lambda>line. if line = [66] then Some (entry_document first_entry, ChecksumIEEE [65]) else None)\<rparr>"

definition small_codec :: atlas_codec where
  "small_codec =
     \<lparr>ac_catalog = two_codec, ac_doc = one_doc_codec, ac_rec = plain_codec,
      ac_ts = \<lparr>tc_wal = (\<lambda>_. None), tc_unwal = (\<lambda>_. None), tc_block = (\<lambda>_. []), tc_unblock = (\<lambda>_. None)\<rparr>,
      ac_exp = \<lparr>enc_exp = (\<lambda>_. None), dec_exp = (\<lambda>_. None)\<rparr>,
      ac_queue = \<lparr>enc_record = (\<lambda>_. None), dec_record = (\<lambda>_. None), enc_file = (\<lambda>_. None), dec_file = (\<lambda>_. None)\<rparr>\<rparr>"

definition calm :: atlas_io where
  "calm = \<lparr>ao_directory = True, ao_catalog = True, ao_wal = True, ao_queue = True, ao_objects = True, ao_locked = False, ao_names = Some [],
     ao_logs = (\<lambda>_. True), ao_read = (\<lambda>_. DiskOk), ao_took = 0\<rparr>"

definition files_of :: "byte list option \<Rightarrow> byte list \<Rightarrow> atlas_files" where
  "files_of file wal = \<lparr>af_catalog = file, af_catalog_tmp = None, af_wal = wal, af_samples = [], af_blocks = [], af_events = [],
     af_jobs = None, af_journal = [], af_docs = (\<lambda>_. None)\<rparr>"

definition server_on :: "catalog \<Rightarrow> index \<Rightarrow> byte list \<Rightarrow> atlas" where
  "server_on c i wal =
     \<lparr>at_catalog = c,
      at_docs = \<lparr>st_dir = (\<lambda>_. None), st_sessions = [], st_damaged = [], st_closed = False, st_agents = [(ai_ID librarian, librarian)],
        st_budget = newBudget (nat (with_default_int 0 30)) (with_default_int 0 2)\<rparr>,
      at_origins = [], at_index = i, at_wal = wal,
      at_metrics = \<lparr>db_wal = [], db_blocks = [], db_head = [], db_series = [], db_blockSize = 1024\<rparr>,
      at_impact = \<lparr>en_wal = [], en_states = []\<rparr>,
      at_queue = \<lparr>q_jobs = [], q_keys = [], q_index = newLeaseIndex, q_open = True, q_snapshot = None, q_journal = [],
        q_journalSize = 0, q_journalRecords = 0, q_seq = 0, q_compactMin = journalCompactMin, q_snapshotDue = True\<rparr>,
      at_started = 1, at_requests = 0, at_searchTimes = [], at_traffic = no_traffic\<rparr>"

lemma server_fields [simp]:
  "at_catalog (server_on c i wal) = c" "at_index (server_on c i wal) = i" "at_wal (server_on c i wal) = wal"
  by (simp_all add: server_on_def)

lemma no_documents:
  "read_at_start J io now (server_on c i wal) = []" "Each U J io now (server_on c i wal) = server_on c i wal"
  by (simp_all add: read_at_start_def Each_def server_on_def List_docs_def published_docs_def List.map_filter_simps)

lemma small_parts:
  assumes "OpenCatalog two_codec True file None = Inr c" and "wal_Replay U one_doc_codec wal (catalog_index U c) = Inr i"
  shows "open_parts U small_codec calm 1 (Some []) [] (files_of file wal) = Inr (server_on c i wal)"
proof -
  have "Open (ac_exp small_codec) [] 0 = Inr \<lparr>en_wal = [], en_states = []\<rparr>"
    by (simp add: Open_def replay_log.simps)
  moreover have "TsStore.OpenStore (ac_ts small_codec) 1024 [] [] = Inr (at_metrics (server_on c i wal))"
    by (simp add: server_on_def TsStore.OpenStore_def loadBlockMetadata_def ReadDir_def replayWAL_def scan_loop_def)
  moreover have "OpenQueue (ac_queue small_codec) True None [] = Inr (at_queue (server_on c i wal))"
    by (simp add: server_on_def OpenQueue_def openJournal_def)
  moreover have "DocStore.OpenStore (ac_rec small_codec) (\<lambda>_. True) 1 False 0 0 [] (Some []) (\<lambda>_. None) = Inr (at_docs (server_on c i wal))"
    by (simp add: server_on_def DocStore.OpenStore_def)
  ultimately show "open_parts U small_codec calm 1 (Some []) [] (files_of file wal) = Inr (server_on c i wal)"
    using assms by (simp add: open_parts_def calm_def files_of_def at_err_def small_codec_def server_on_def allowed_origins_def)
qed

definition with_entry :: "byte list \<Rightarrow> catalog_entry \<Rightarrow> catalog" where
  "with_entry file e = \<lparr>ca_file = Some file, ca_tmp = None, ca_entries = [([97], e)], ca_runs = []\<rparr>"

lemma small_laws: "catalog_law (ac_catalog small_codec)" "doc_law (ac_doc small_codec)" "few_ids {[97]}"
proof -
  show "catalog_law (ac_catalog small_codec)" using two_codec_law by (simp add: small_codec_def)
  show "doc_law (ac_doc small_codec)" by (auto simp: small_codec_def doc_law_def one_doc_codec_def line_ok_def newline_def)
qed (simp add: few_ids_def)

lemma small_documents:
  "indexable no_case {[97]} (entry_document first_entry)" "indexable no_case {[97]} (entry_document later_entry)"
  "loggable no_case small_codec {[97]} (entry_document first_entry)"
  "entry_document first_entry \<noteq> entry_document later_entry"
proof -
  have len: "doc_length no_case (entry_document (first_entry\<lparr>ce_Body := [x], ce_UpdatedAt := u\<rparr>)) < 2 ^ 32" for x u
    by (simp add: doc_length_def frequencies_def tokenize_def entry_document_def first_entry_def no_case_def Let_def)
  have "first_entry\<lparr>ce_Body := [98], ce_UpdatedAt := 2\<rparr> = first_entry" by (simp add: first_entry_def)
  with len [of 2 98] len [of 3 99] show "indexable no_case {[97]} (entry_document first_entry)" "indexable no_case {[97]} (entry_document later_entry)"
    by (simp_all add: indexable_def later_entry_def first_entry_def)
  moreover have "doc_record one_doc_codec (entry_document first_entry) = Some [66]" by (simp add: doc_record_def one_doc_codec_def)
  moreover have "\<not> is_doc (entry_document first_entry)" by (simp add: is_doc_def first_entry_def HasPrefix_def docPrefix_def)
  ultimately show "loggable no_case small_codec {[97]} (entry_document first_entry)"
    by (simp add: loggable_def encodable_def doc_line_def small_codec_def short_def maxWALLine_def)
  show "entry_document first_entry \<noteq> entry_document later_entry" by (simp add: entry_document_def later_entry_def first_entry_def)
qed

lemma small_run:
  shows "atlas_reachable no_case small_codec {[97]} (server_on empty_catalog NewIndex [])"
    and "entries_post no_case small_codec PersistDone DocSynced 2 [120] (server_on empty_catalog NewIndex []) (Some first_entry) =
      (server_on (with_entry [123] first_entry) (Upsert no_case NewIndex (entry_document first_entry)) [66, newline], EntryCreated first_entry)"
    and "atlas_reachable no_case small_codec {[97]}
      (server_on (with_entry [123] first_entry) (Upsert no_case NewIndex (entry_document first_entry)) [66, newline])"
proof -
  have "OpenCatalog two_codec True None None = Inr empty_catalog" by (simp add: OpenCatalog_def empty_catalog_def)
  moreover have "wal_Replay no_case one_doc_codec [] (catalog_index no_case empty_catalog) = Inr NewIndex"
    by (simp add: wal_Replay_def scan_loop_def catalog_index_def empty_catalog_def Entries_def)
  ultimately have op: "open_parts no_case small_codec calm 1 (Some []) [] (files_of None []) = Inr (server_on empty_catalog NewIndex [])"
    by (rule small_parts)
  have "atlas_reachable no_case small_codec {[97]} (Each no_case (ac_rec small_codec) calm 1 (server_on empty_catalog NewIndex []))"
    by (rule atlas_reachable.started [OF op]) (simp_all add: files_of_def no_documents)
  then show reach: "atlas_reachable no_case small_codec {[97]} (server_on empty_catalog NewIndex [])"
    by (simp add: no_documents)
  have "SaveEntry no_case two_codec PersistDone 2 [120] empty_catalog first_entry = (with_entry [123] first_entry, Inr first_entry)"
    using first_saved by (simp add: with_entry_def)
  moreover have "doc_record one_doc_codec (entry_document first_entry) = Some [66]" by (simp add: doc_record_def one_doc_codec_def)
  ultimately show post: "entries_post no_case small_codec PersistDone DocSynced 2 [120] (server_on empty_catalog NewIndex []) (Some first_entry) =
      (server_on (with_entry [123] first_entry) (Upsert no_case NewIndex (entry_document first_entry)) [66, newline], EntryCreated first_entry)"
    by (simp add: entries_post_def small_codec_def server_on_def wal_Append_def)
  show "atlas_reachable no_case small_codec {[97]}
      (server_on (with_entry [123] first_entry) (Upsert no_case NewIndex (entry_document first_entry)) [66, newline])"
    by (rule atlas_reachable.posted [OF reach post]) (use small_documents(3) in \<open>auto simp: first_prepared\<close>)
qed

theorem knowledge_is_searchable_witness:
  "entry_document first_entry \<in> set (live_docs (Upsert no_case NewIndex (entry_document first_entry))) \<and> \<not> is_doc (entry_document first_entry)"
  using small_documents(3) knowledge_is_searchable [OF small_laws small_run(3) log_law_linear, of "[]" 1]
  by (auto simp: with_entry_def Entries_def is_doc_def loggable_def)

lemma small_update:
  "entries_post no_case small_codec PersistDone (DocTorn 0) 3 [120]
     (server_on (with_entry [123] first_entry) (Upsert no_case NewIndex (entry_document first_entry)) [66, newline]) (Some later_entry) =
   (server_on (with_entry [124] later_entry) (Upsert no_case NewIndex (entry_document first_entry)) [66, newline], EntryNotIndexed)"
proof -
  have ids: "ce_ID later_entry = [97]" "first_entry \<noteq> later_entry" by (simp_all add: later_entry_def first_entry_def)
  then have "SaveEntry no_case two_codec PersistDone 3 [120] (with_entry [123] first_entry) later_entry = (with_entry [124] later_entry, Inr later_entry)"
    by (simp add: SaveEntry_def later_prepared persistLocked_def two_codec_def with_entry_def)
  moreover have "doc_record one_doc_codec (entry_document later_entry) = None"
    using small_documents(4) by (simp add: doc_record_def one_doc_codec_def)
  ultimately show ?thesis by (simp add: entries_post_def small_codec_def server_on_def wal_Append_def)
qed

theorem restart_brings_back_old_version_witness:
  "\<exists>a. open_parts no_case small_codec calm 1 (Some []) [] (files_of (Some [124]) [66, newline]) = Inr a \<and>
     Entry (at_catalog a) [97] = Some later_entry \<and>
     {d \<in> set (live_docs (at_index (Each no_case plain_codec calm 1 a))). sd_ID d = [97]} = {entry_document first_entry}"
proof -
  let ?i = "catalog_index no_case (with_entry [124] later_entry)"
  have "OpenCatalog two_codec True (Some [124]) None = Inr (with_entry [124] later_entry)"
    by (simp add: OpenCatalog_def with_entry_def two_codec_def)
  moreover have "wal_Replay no_case one_doc_codec (lines_file (map (doc_line (ac_doc small_codec)) [entry_document first_entry])) ?i =
      Inr (Upsert no_case ?i (entry_document first_entry))"
    using replayed [OF small_laws(2), of "[entry_document first_entry]" no_case "{[97]}" ?i] small_documents(3) by (simp add: small_codec_def)
  moreover have "lines_file (map (doc_line (ac_doc small_codec)) [entry_document first_entry]) = [66, newline]"
    by (simp add: small_codec_def doc_line_def doc_record_def one_doc_codec_def)
  ultimately have op: "open_parts no_case small_codec calm 1 (Some []) [] (files_of (Some [124]) [66, newline]) =
      Inr (server_on (with_entry [124] later_entry) (Upsert no_case ?i (entry_document first_entry)) [66, newline])"
    using small_parts by metis
  have ids: "ce_ID later_entry = [97]" by (simp add: later_entry_def first_entry_def)
  from restart_brings_back_old_version [OF small_laws small_run(3) _ later_prepared _ _ small_update op, of first_entry] small_documents ids
  have "Entry (with_entry [124] later_entry) [97] = Some later_entry \<and>
      {d \<in> set (live_docs (Upsert no_case ?i (entry_document first_entry))). sd_ID d = [97]} = {entry_document first_entry}"
    by (simp add: with_entry_def Entry_def files_of_def no_documents)
  then show ?thesis using op by (simp add: no_documents)
qed

end
