(* ===== verification/AtlasCounters.thy ===== *)
theory AtlasCounters
  imports AtlasProps
begin

text \<open>The counters of the Atlas server: requests by minute in a ring of twelve buckets, and the times of the latest searches.\<close>

subsection \<open>Requests by minute\<close>

definition in_minute :: "time list \<Rightarrow> int \<Rightarrow> nat" where
  "in_minute ts m = length (filter (\<lambda>t. unix_minute t = m) ts)"

lemma in_minute_simps [simp]:
  "in_minute [] m = 0" "in_minute (ts @ [t]) m = in_minute ts m + (if unix_minute t = m then 1 else 0)"
  by (simp_all add: in_minute_def)

lemma in_minute_none: "\<forall>t \<in> set ts. unix_minute t \<noteq> m \<Longrightarrow> in_minute ts m = 0"
  by (simp add: in_minute_def)

text \<open>A bucket counts the latest minute that falls into it, or is as it was at the start.\<close>

definition bucket_ok :: "time list \<Rightarrow> int \<Rightarrow> requestBucket \<Rightarrow> bool" where
  "bucket_ok ts j b \<longleftrightarrow>
     (\<forall>t \<in> set ts. unix_minute t mod 12 \<noteq> j) \<and> b = \<lparr>rb_Minute = 0, rb_Count = 0\<rparr> \<or>
     (\<exists>t \<in> set ts. unix_minute t = rb_Minute b) \<and> rb_Minute b mod 12 = j \<and>
     (\<forall>t \<in> set ts. unix_minute t mod 12 = j \<longrightarrow> unix_minute t \<le> rb_Minute b) \<and> rb_Count b = of_nat (in_minute ts (rb_Minute b))"

definition traffic_ok :: "time list \<Rightarrow> requestBucket list \<Rightarrow> bool" where
  "traffic_ok ts traffic \<longleftrightarrow> length traffic = 12 \<and> (\<forall>j < 12. bucket_ok ts (int j) (traffic ! j))"

lemma minute_mono: "t \<le> u \<Longrightarrow> unix_minute t \<le> unix_minute u"
  by (simp add: unix_minute_def zdiv_mono1)

text \<open>One more request, no earlier than those before.\<close>

definition counted :: "int \<Rightarrow> requestBucket \<Rightarrow> requestBucket" where
  "counted m b = (let b = (if rb_Minute b \<noteq> m then \<lparr>rb_Minute = m, rb_Count = 0\<rparr> else b) in b\<lparr>rb_Count := rb_Count b + 1\<rparr>)"

lemma counted_fields: "rb_Minute (counted m b) = m" "rb_Count (counted m b) = (if rb_Minute b \<noteq> m then 1 else rb_Count b + 1)"
  by (simp_all add: counted_def)

lemma bucket_other:
  assumes "bucket_ok ts j b" and "unix_minute t mod 12 \<noteq> j"
  shows "bucket_ok (ts @ [t]) j b"
  using assms by (auto simp: bucket_ok_def)

lemma bucket_counted:
  assumes ok: "bucket_ok ts (unix_minute t mod 12) b" and later: "\<forall>u \<in> set ts. u \<le> t"
  shows "bucket_ok (ts @ [t]) (unix_minute t mod 12) (counted (unix_minute t) b)"
proof -
  let ?m = "unix_minute t"
  have le: "unix_minute u \<le> ?m" if "u \<in> set ts" for u using later that minute_mono by blast
  have "rb_Count (counted ?m b) = of_nat (in_minute ts ?m + 1)"
  proof (cases "\<exists>u \<in> set ts. unix_minute u mod 12 = ?m mod 12")
    case False
    then have "b = \<lparr>rb_Minute = 0, rb_Count = 0\<rparr>" using ok by (auto simp: bucket_ok_def)
    moreover have "in_minute ts ?m = 0" using False by (intro in_minute_none) auto
    ultimately show ?thesis by (simp add: counted_fields)
  next
    case True
    then have b: "\<exists>u \<in> set ts. unix_minute u = rb_Minute b" "rb_Count b = of_nat (in_minute ts (rb_Minute b))"
      "\<forall>u \<in> set ts. unix_minute u mod 12 = ?m mod 12 \<longrightarrow> unix_minute u \<le> rb_Minute b"
      using ok by (auto simp: bucket_ok_def)
    then have "in_minute ts ?m = 0" if "rb_Minute b \<noteq> ?m" using that le by (intro in_minute_none) force
    then show ?thesis using b(2) by (auto simp: counted_fields)
  qed
  then show ?thesis using le by (auto simp: bucket_ok_def counted_fields)
qed

lemma observe_traffic:
  "at_traffic (observe t a) = (let k = nat (unix_minute t mod int (length (at_traffic a))) in
     (at_traffic a)[k := counted (unix_minute t) (at_traffic a ! k)])"
  by (simp add: observe_def counted_def Let_def)

lemma observe_ok:
  assumes "traffic_ok ts (at_traffic a)" and "\<forall>u \<in> set ts. u \<le> t"
  shows "traffic_ok (ts @ [t]) (at_traffic (observe t a))"
proof -
  have len: "length (at_traffic a) = 12" using assms(1) by (simp add: traffic_ok_def)
  define k where "k = nat (unix_minute t mod 12)"
  have k: "k < 12" "int k = unix_minute t mod 12" by (simp_all add: k_def nat_less_iff)
  have "bucket_ok (ts @ [t]) (int j) ((at_traffic a)[k := counted (unix_minute t) (at_traffic a ! k)] ! j)" if "j < 12" for j
  proof (cases "j = k")
    case True
    have "bucket_ok ts (unix_minute t mod 12) (at_traffic a ! k)" using assms(1) k by (metis traffic_ok_def)
    from bucket_counted [OF this assms(2)] show ?thesis using True k len by simp
  next
    case False
    then have "unix_minute t mod 12 \<noteq> int j" using k(2) by simp
    then show ?thesis using assms(1) that False by (simp add: traffic_ok_def bucket_other)
  qed
  moreover have "at_traffic (observe t a) = (at_traffic a)[k := counted (unix_minute t) (at_traffic a ! k)]"
    by (simp add: observe_traffic len k_def Let_def)
  ultimately show ?thesis by (simp add: traffic_ok_def len)
qed

lemma observations_ok:
  assumes "at_traffic a = no_traffic" and "sorted ts"
  shows "traffic_ok ts (at_traffic (foldl (\<lambda>a t. observe t a) a ts)) \<and> at_requests (foldl (\<lambda>a t. observe t a) a ts) = at_requests a + of_nat (length ts)"
  using assms(2)
proof (induction ts rule: rev_induct)
  case Nil
  then show ?case by (auto simp: assms(1) no_traffic_def traffic_ok_def bucket_ok_def)
next
  case (snoc t ts)
  then have "sorted ts" "\<forall>u \<in> set ts. u \<le> t" by (auto simp: sorted_append)
  then show ?case using snoc(1) observe_ok by (auto simp: observe_def Let_def)
qed

lemma history_bucket_counts:
  assumes ok: "traffic_ok ts traffic" and now: "\<forall>t \<in> set ts. unix_minute t \<le> m" and c: "m - 12 < c"
  shows "history_bucket traffic c = \<lparr>rb_Minute = c, rb_Count = of_nat (in_minute ts c)\<rparr>"
proof -
  let ?b = "traffic ! nat (c mod 12)"
  have len: "length traffic = 12" and "nat (c mod 12) < 12" using ok by (simp_all add: traffic_ok_def nat_less_iff)
  then have "bucket_ok ts (int (nat (c mod 12))) ?b" using ok unfolding traffic_ok_def by blast
  then have b: "bucket_ok ts (c mod 12) ?b" and h: "history_bucket traffic c = (if rb_Minute ?b \<noteq> c then \<lparr>rb_Minute = c, rb_Count = 0\<rparr> else ?b)"
    by (simp_all add: history_bucket_def Let_def len)
  show ?thesis
  proof (cases "\<exists>t \<in> set ts. unix_minute t = c")
    case False
    then have "in_minute ts c = 0" by (intro in_minute_none) auto
    moreover have "?b = \<lparr>rb_Minute = 0, rb_Count = 0\<rparr>" if "rb_Minute ?b = c" using b False that by (auto simp: bucket_ok_def)
    ultimately show ?thesis by (auto simp: h)
  next
    case True
    then have "c \<le> rb_Minute ?b" "rb_Minute ?b \<le> m" "rb_Minute ?b mod 12 = c mod 12" and count: "rb_Count ?b = of_nat (in_minute ts (rb_Minute ?b))"
      using b now by (auto simp: bucket_ok_def)
    then have "12 dvd rb_Minute ?b - c" "rb_Minute ?b - c < 12" using c by (simp_all add: mod_eq_dvd_iff)
    with \<open>c \<le> rb_Minute ?b\<close> have "rb_Minute ?b = c" using zdvd_imp_le [of 12 "rb_Minute ?b - c"] by fastforce
    then show ?thesis using count by (simp add: h)
  qed
qed

text \<open>
  The history of requests is exact: after requests at any times, in order, it lists the last twelve minutes in order, each with the number of
  requests in that minute, whatever older counts the ring still holds.
\<close>

theorem history_counts_minutes:
  assumes "at_traffic a = no_traffic" and "sorted ts" and "\<forall>t \<in> set ts. t \<le> now"
  shows "request_history now (foldl (\<lambda>a t. observe t a) a ts) =
    map (\<lambda>m. \<lparr>rb_Minute = m, rb_Count = of_nat (length (filter (\<lambda>t. unix_minute t = m) ts))\<rparr>) [unix_minute now - 11..unix_minute now]"
proof -
  let ?tr = "at_traffic (foldl (\<lambda>a t. observe t a) a ts)"
  have ok: "traffic_ok ts ?tr" using observations_ok [OF assms(1,2)] by blast
  then have len: "length ?tr = 12" by (simp add: traffic_ok_def)
  have "\<forall>t \<in> set ts. unix_minute t \<le> unix_minute now" using assms(3) minute_mono by blast
  note counts = history_bucket_counts [OF ok this]
  have offsets: "map (\<lambda>k. unix_minute now - int k) (List.rev [0..<12]) = [unix_minute now - 11..unix_minute now]"
    by (rule nth_equalityI) (simp_all add: rev_nth)
  have "request_history now (foldl (\<lambda>a t. observe t a) a ts) = map (history_bucket ?tr) (map (\<lambda>k. unix_minute now - int k) (List.rev [0..<12]))"
    by (simp add: request_history_def len)
  also have "\<dots> = map (\<lambda>m. \<lparr>rb_Minute = m, rb_Count = of_nat (in_minute ts m)\<rparr>) [unix_minute now - 11..unix_minute now]"
    unfolding offsets by (intro map_cong refl counts) auto
  finally show ?thesis by (simp add: in_minute_def)
qed

theorem history_counts_minutes_witness:
  "request_history (700 * 60 * 10 ^ 9) (foldl (\<lambda>a t. observe t a) (server_on empty_catalog NewIndex []) [5, 700 * 60 * 10 ^ 9]) ! 11 =
     \<lparr>rb_Minute = 700, rb_Count = 1\<rparr>"
proof -
  have "at_traffic (server_on empty_catalog NewIndex []) = no_traffic" by (simp add: server_on_def)
  from history_counts_minutes [OF this, of "[5, 700 * 60 * 10 ^ 9]" "700 * 60 * 10 ^ 9"] show ?thesis
    by (simp add: unix_minute_def)
qed

subsection \<open>Times of searches\<close>

text \<open>The latest 512 times are kept, and the percentile is one of them.\<close>

lemma note_times: "foldl (\<lambda>ds d. note_time d ds) [] ds = drop (length ds - maxSearchTimes) ds"
proof (induction ds rule: rev_induct)
  case (snoc d ds)
  have "note_time d (drop (length ds - maxSearchTimes) ds) = drop (length (ds @ [d]) - maxSearchTimes) (ds @ [d])"
  proof (cases "length ds < 512")
    case False
    then have "Suc (length ds - 512) = length ds - 511" by simp
    then show ?thesis using False by (simp add: note_time_def maxSearchTimes_def Let_def)
  qed (simp add: note_time_def maxSearchTimes_def)
  then show ?case using snoc by simp
qed simp

lemma p95_among: "ds \<noteq> [] \<Longrightarrow> p95 ds \<in> set ds"
proof -
  assume "ds \<noteq> []"
  then have "(length ds - 1) * 95 div 100 < length (sort ds)" by (cases "length ds") auto
  from nth_mem [OF this] have "sort ds ! ((length ds - 1) * 95 div 100) \<in> set ds" by simp
  then show ?thesis using \<open>ds \<noteq> []\<close> unfolding p95_def Let_def by (simp only: length_sort length_greater_0_conv if_True not_False_eq_True)
qed

end
