(* ===== verification/ImpactProps.thy ===== *)
theory ImpactProps
  imports AtlasProps AtlasImpact ExpRecovery
begin

text \<open>
  What holds of the impact experiments of the Atlas server: a conclusion that cannot be written is lost, and the demonstration brings the synthetic
  stream to the engine.
\<close>

subsection \<open>Conclusions are final\<close>

lemma conclusion_keeps_impact:
  "indexImpactConclusion U two_decimals C io wal_io now fresh a experiment' r = (a', res) \<Longrightarrow> at_impact a' = at_impact a"
  unfolding indexImpactConclusion_def by (auto simp: Let_def split: prod.splits sum.splits bool.splits)

text \<open>What an experiment becomes is kept with its configuration.\<close>

definition status_of :: "engine \<Rightarrow> str \<Rightarrow> exp_status option" where
  "status_of e k = map_option (\<lambda>st. x_Status (es_config st)) (map_of (en_states e) k)"

lemma SetStatus_done:
  assumes ids: "keys_ok (en_states e)" and set: "SetStatus J io e k status now later = (e', Inr (experiment', r))"
  shows "status_of e' k = Some status" "x_ID experiment' = k" "x_Status experiment' = status"
proof -
  obtain st where st: "map_of (en_states e) k = Some st"
    and e': "en_states e' = applyExperiment (en_states e) (next_config (es_config st) status now)"
    and c: "experiment' = next_config (es_config st) status now"
  proof (cases "map_of (en_states e) k")
    case None
    then show thesis using set by (simp add: SetStatus_def split: if_splits)
  next
    case (Some st)
    obtain e1 f where app: "append_record J io e (experiment_record (next_config (es_config st) status now)) = (e1, f)" by fastforce
    have "f = None \<and> e' = e1\<lparr>en_states := applyExperiment (en_states e1) (next_config (es_config st) status now)\<rparr> \<and>
        experiment' = next_config (es_config st) status now"
      using set app Some by (cases f) (auto simp: SetStatus_def Let_def split: if_splits)
    then show thesis using that [OF Some] append_record_states [of J io e "experiment_record (next_config (es_config st) status now)"] app by simp
  qed
  have id': "x_ID (es_config st) = k" using ids st unfolding keys_ok_def by blast
  have n: "x_ID (next_config (es_config st) status now) = k" "x_Status (next_config (es_config st) status now) = status"
    using id' by (simp_all add: next_config_def Let_def)
  show "status_of e' k = Some status" using n st by (simp add: status_of_def e' applyExperiment_def update_conv')
  show "x_ID experiment' = k" "x_Status experiment' = status" using n c by simp_all
qed

lemma completed_is_final:
  assumes "status_of e k = Some exp_status.Completed"
  shows "SetStatus J io e k exp_status.Completed now later = (e, Inl (ErrCannotStop exp_status.Completed))"
    and "SetStatus J io e k exp_status.Running now later = (e, Inl (ErrCannotStart exp_status.Completed))"
  using assms unfolding SetStatus_def status_of_def by (auto simp: Let_def)

text \<open>
  The experiment is completed before its conclusion is written. When that fails, neither stopping again nor starting is accepted any more, so
  that the conclusion is never written.
\<close>

theorem failed_conclusion_is_final:
  assumes ids: "keys_ok (en_states (at_impact a))"
    and stop: "stopImpactExperiment U two_decimals C eio io wal_io now later fresh a k = (a', StopNotIndexed err)"
  shows "stopImpactExperiment U two_decimals C eio2 io2 wal_io2 now2 later2 fresh2 a' k =
      (a', StopRefused 400 (ErrCannotStop exp_status.Completed)) \<and>
    startImpactExperiment (ac_exp C) eio2 now2 later2 a' k = (a', ImpactRefused 400 (ErrCannotStart exp_status.Completed))"
proof -
  obtain e experiment' r where set: "SetStatus (ac_exp C) eio (at_impact a) k exp_status.Completed now later = (e, Inr (experiment', r))"
    and concl: "indexImpactConclusion U two_decimals C io wal_io later fresh (a\<lparr>at_impact := e\<rparr>) experiment' r = (a', Inl err)"
    using stop unfolding stopImpactExperiment_def by (auto split: prod.splits sum.splits)
  have "at_impact a' = e" using conclusion_keeps_impact [OF concl] by simp
  then have final: "status_of (at_impact a') k = Some exp_status.Completed" using SetStatus_done(1) [OF ids set] by simp
  have same: "a'\<lparr>at_impact := at_impact a'\<rparr> = a'" by simp
  show ?thesis
    using completed_is_final [OF final] same
    by (simp add: stopImpactExperiment_def startImpactExperiment_def impact_result_def impact_error_status_def)
qed

subsection \<open>What the demonstration brings about\<close>

definition of_demo :: "str \<Rightarrow> event \<Rightarrow> bool" where
  "of_demo k v \<longleftrightarrow> v_ExperimentID v = k \<and> synthetic_start \<le> v_Timestamp v \<and> \<not> blank (v_EventID v) \<and> \<not> blank (v_SubjectID v) \<and>
     v_Type v \<in> {Assignment, Exposure, Outcome}"

lemma blank_iff: "blank s \<longleftrightarrow> (\<forall>r \<in> set s. is_space r)"
proof
  assume "blank s"
  then have all: "\<forall>r \<in> set (dropWhile is_space s). is_space r" by (simp add: blank_def TrimSpace_def dropWhile_eq_Nil_conv)
  then have "dropWhile is_space s = []" using hd_dropWhile [of is_space s] hd_in_set [of "dropWhile is_space s"] by metis
  then show "\<forall>r \<in> set s. is_space r" by (simp add: dropWhile_eq_Nil_conv)
qed (simp add: blank_def TrimSpace_def dropWhile_eq_Nil_conv [THEN iffD2])

lemma synthetic_names: "\<not> blank (97 # s)" "\<not> blank (99 # s)" "\<not> blank (105 # s)" "\<not> blank (111 # s)" "\<not> blank (subject_name i)"
  by (auto simp: blank_iff subject_name_def is_space_def)

lemma synthetic_events_of_demo:
  assumes law: "rand_law R"
  shows "\<forall>v \<in> set (fst (synthetic_events R experiment' config g)). of_demo (x_ID experiment') v"
proof -
  have n: "0 < n \<Longrightarrow> rd_Intn R n h = (k, h') \<Longrightarrow> 0 \<le> k" for n h k h'
    using law unfolding rand_law_def by (metis fst_conv)
  have one: "\<forall>v \<in> set (fst (subject_events R experiment' config i h)). of_demo (x_ID experiment') v" for i h
  proof -
    let ?subject = "subject_name i" and ?arm = "assign experiment' (subject_name i)"
    obtain ms h1 where ms: "rd_Intn R 1000 h = (ms, h1)" by fastforce
    define t where "t = synthetic_start + (int i mod 1800) * second_ns + ms * millisecond_ns"
    have t: "synthetic_start \<le> t" using n [OF _ ms] by (simp add: t_def second_ns_def millisecond_ns_def)
    obtain click h2 where click: "click_event R experiment' i ?subject ?arm t h1 = (click, h2)" by fastforce
    obtain outcome h3 where outcome: "outcome_event R experiment' config i ?subject ?arm t h2 = (outcome, h3)" by fastforce
    have "\<forall>v \<in> set click. of_demo (x_ID experiment') v"
    proof -
      obtain x u where x: "rd_Float64 R h1 = (x, u)" by fastforce
      obtain k w where k: "rd_Intn R 90 u = (k, w)" by fastforce
      show ?thesis using click t n [OF _ k]
        by (auto simp: click_event_def x k synthetic_event_def of_demo_def synthetic_names second_ns_def split: if_splits)
    qed
    moreover have "\<forall>v \<in> set outcome. of_demo (x_ID experiment') v"
    proof -
      obtain x u where x: "rd_Float64 R h2 = (x, u)" by fastforce
      obtain y w where y: "rd_Float64 R u = (y, w)" by fastforce
      obtain k z where k: "rd_Intn R (3 * 24 * 60 * 60) w = (k, z)" by fastforce
      show ?thesis using outcome t n [OF _ k]
        by (auto simp: outcome_event_def x y k [simplified] synthetic_event_def of_demo_def synthetic_names second_ns_def Let_def split: if_splits)
    qed
    moreover have "fst (subject_events R experiment' config i h) =
        [synthetic_event experiment' ''a-'' i Assignment ?subject ?arm t, synthetic_event experiment' ''i-'' i Exposure ?subject ?arm (t + second_ns)] @
        click @ outcome"
      using click outcome by (simp add: subject_events_def Let_def ms t_def)
    ultimately show ?thesis using t by (auto simp: synthetic_event_def of_demo_def synthetic_names second_ns_def)
  qed
  obtain ess g' where ess: "for_each (subject_events R experiment' config) [0..<nat (sc_Subjects config)] g = (ess, g')" by fastforce
  from for_each_all [of "[0..<nat (sc_Subjects config)]" "\<lambda>i es. \<forall>v \<in> set es. of_demo (x_ID experiment') v"
      "subject_events R experiment' config" g, OF one]
  have "list_all2 (\<lambda>i es. \<forall>v \<in> set es. of_demo (x_ID experiment') v) [0..<nat (sc_Subjects config)] ess" by (simp add: ess)
  then have "\<forall>es \<in> set ess. \<forall>v \<in> set es. of_demo (x_ID experiment') v" by (induction rule: list_all2_induct) simp_all
  then show ?thesis using ess by (simp add: synthetic_events_def)
qed

lemma synthetic_stream_of_demo:
  assumes law: "rand_law R"
  shows "\<forall>v \<in> set (fst (synthetic_stream R experiment' config g)). of_demo (x_ID experiment') v"
proof -
  obtain es g1 where es: "synthetic_events R experiment' config g = (es, g1)" by fastforce
  obtain ds g2 where ds: "for_each (duplicate_draw R config) [0..<length es] g1 = (ds, g2)" by fastforce
  have "set (fst (synthetic_stream R experiment' config g)) \<subseteq> set es"
    by (auto simp: synthetic_stream_def es ds split: prod.split intro!: nth_mem duplicates_in_range [OF ds])
  then show ?thesis using synthetic_events_of_demo [OF law, of experiment' config g] es by auto
qed

lemma batches_of_demo:
  assumes law: "rand_law R" and bs: "SyntheticBatches R source_of experiment' config = Inr bs" and b: "b \<in> set bs"
  shows "sy_Events b \<noteq> []" "\<forall>v \<in> set (sy_Events b). of_demo (x_ID experiment') v" "sy_ArrivedAt b \<noteq> zero_time"
proof -
  note d = synthetic_delivery [OF law bs]
  show "sy_Events b \<noteq> []" using d b by fastforce
  have "set (concat (map sy_Events bs)) =
      set (fst (synthetic_stream R experiment' (synthetic_defaults config) (source_of (sc_Seed (synthetic_defaults config)))))"
    using d by (metis mset_eq_setD)
  then show all: "\<forall>v \<in> set (sy_Events b). of_demo (x_ID experiment') v" using synthetic_stream_of_demo [OF law] b by fastforce
  obtain v where v: "v \<in> set (sy_Events b)" using \<open>sy_Events b \<noteq> []\<close> by (cases "sy_Events b") auto
  then have "synthetic_start \<le> sy_ArrivedAt b" using all d b by (fastforce simp: of_demo_def)
  then show "sy_ArrivedAt b \<noteq> zero_time" by (auto simp: synthetic_start_def second_ns_def zero_time_def)
qed

text \<open>One round: the state of the experiment, the others, and the receipts.\<close>

lemma apply_events_erase:
  "apply_events (erase st) arr events = (erase (fst (apply_events st arr events)), snd (apply_events st arr events))"
  by (induction events arbitrary: st) (simp_all add: applyEvent_erase split: prod.split)

lemma of_demo_valid: "\<not> blank k \<Longrightarrow> \<forall>v \<in> set events. of_demo k v \<Longrightarrow> check_events k events = None"
  by (induction events) (auto simp: of_demo_def validateEvent_def synthetic_start_def second_ns_def zero_time_def)

lemma round_result:
  assumes events: "events \<noteq> []" "\<forall>v \<in> set events. of_demo k v" and k: "\<not> blank k" and arr: "arr \<noteq> zero_time"
    and st: "map_of (en_states e) k = Some st" "x_ID (es_config st) = k" "x_Status (es_config st) = Running"
    and enc: "enc_exp J (events_record events arr) \<noteq> None"
  obtains e' receipts r st' where "ProcessBatchAt J AppendOk e events arr now later ack = (e', Inr (receipts, r))"
    "map_of (en_states e') k = Some st'" "apply_events (erase st) arr events = (erase st', receipts)" "es_config st' = es_config st"
    "\<forall>k'. k' \<noteq> k \<longrightarrow> map_of (en_states e') k' = map_of (en_states e) k'"
proof -
  have hd: "v_ExperimentID (hd events) = k" using events by (simp add: of_demo_def)
  obtain line where line: "enc_exp J (events_record events arr) = Some line" using enc by blast
  obtain st1 rs where one: "apply_events st arr events = (st1, rs)" by fastforce
  let ?st = "st1\<lparr>es_ackLatencies := window_add (es_ackLatencies st1) (milliseconds ack)\<rparr>"
  let ?e = "e\<lparr>en_wal := en_wal e @ line @ [newline], en_states := AList.update k ?st (en_states e)\<rparr>"
  show thesis
  proof (rule that [of ?e rs "resultFor ?st later" ?st])
    show "ProcessBatchAt J AppendOk e events arr now later ack = (?e, Inr (rs, resultFor ?st later))"
      using events(1) arr of_demo_valid [OF k events(2)] st
      by (simp add: ProcessBatchAt_def Let_def with_default_def hd append_record_def line one)
    show "apply_events (erase st) arr events = (erase ?st, rs)" using apply_events_erase [of st arr events] one by simp
    show "es_config ?st = es_config st" using apply_events_keeps(3) [of st arr events] one by simp
  qed (simp_all add: update_conv')
qed

lemma demo_loop_result:
  assumes k: "\<not> blank k" and io: "\<And>n. ds_io (steps n) = AppendOk"
    and "\<forall>b \<in> set bs. sy_Events b \<noteq> [] \<and> (\<forall>v \<in> set (sy_Events b). of_demo k v) \<and> sy_ArrivedAt b \<noteq> zero_time"
    and "\<forall>b \<in> set bs. enc_exp (ac_exp C) (events_record (sy_Events b) (sy_ArrivedAt b)) \<noteq> None"
    and "map_of (en_states (at_impact a)) k = Some st" "x_ID (es_config st) = k" "x_Status (es_config st) = Running"
  shows "\<exists>a' r' st'. demo_loop C bits steps index deliveries recorded r bs a = (a', Inr (r', deliveries + length (concat (map sy_Events bs)))) \<and>
    map_of (en_states (at_impact a')) k = Some st' \<and> fst (deliver_batches (erase st) bs) = erase st' \<and>
    (\<forall>k'. k' \<noteq> k \<longrightarrow> map_of (en_states (at_impact a')) k' = map_of (en_states (at_impact a)) k')"
  using assms(3-)
proof (induction bs arbitrary: index deliveries recorded r a st)
  case Nil
  then show ?case by simp
next
  case (Cons b bs)
  let ?d = "steps index"
  obtain e receipts r1 st1 where run': "ProcessBatchAt (ac_exp C) AppendOk (at_impact a) (sy_Events b) (sy_ArrivedAt b) (ds_now ?d) (ds_later ?d)
        (ds_ack ?d) = (e, Inr (receipts, r1))"
      and st1: "map_of (en_states e) k = Some st1" "apply_events (erase st) (sy_ArrivedAt b) (sy_Events b) = (erase st1, receipts)"
        "es_config st1 = es_config st" "\<forall>k'. k' \<noteq> k \<longrightarrow> map_of (en_states e) k' = map_of (en_states (at_impact a)) k'"
    using round_result [OF _ _ k _ Cons.prems(3-5), of "sy_Events b" "sy_ArrivedAt b"] Cons.prems(1,2) by (metis list.set_intros(1))
  obtain recorded1 a1 where step: "demo_loop C bits steps index deliveries recorded r (b # bs) a =
      demo_loop C bits steps (Suc index) (deliveries + length (sy_Events b)) recorded1 r1 bs a1" and a1: "at_impact a1 = e"
    by (cases "(deliveries + length (sy_Events b)) - recorded \<ge> 500 \<or> bs = []") (auto simp: run' io Let_def)
  have "\<forall>b \<in> set bs. sy_Events b \<noteq> [] \<and> (\<forall>v \<in> set (sy_Events b). of_demo k v) \<and> sy_ArrivedAt b \<noteq> zero_time"
    "\<forall>b \<in> set bs. enc_exp (ac_exp C) (events_record (sy_Events b) (sy_ArrivedAt b)) \<noteq> None" using Cons.prems(1,2) by simp_all
  from Cons.IH [OF this, of a1 st1 "Suc index" "deliveries + length (sy_Events b)" recorded1 r1] st1 a1 Cons.prems(4,5)
  obtain a' r' st' where "demo_loop C bits steps (Suc index) (deliveries + length (sy_Events b)) recorded1 r1 bs a1 =
        (a', Inr (r', deliveries + length (sy_Events b) + length (concat (map sy_Events bs))))"
      "map_of (en_states (at_impact a')) k = Some st'" "fst (deliver_batches (erase st1) bs) = erase st'"
      "\<forall>k'. k' \<noteq> k \<longrightarrow> map_of (en_states (at_impact a')) k' = map_of (en_states e) k'"
    by auto
  then show ?case using step st1(2,4) by (auto split: prod.split)
qed

text \<open>
  C36: On a running experiment with an identifier that is not blank the demonstration runs to its end, if its batches can be encoded and every write to
  the log succeeds. The experiment is then in the state that the synthetic stream brings about, delivery by delivery on its own clock; the summary
  counts every delivery; other experiments are as before. If no event came before, and the allowed lateness is at least 74 and at most
  9,000,000,000 seconds (beyond which a duration wraps around), no delivery is late.
\<close>

theorem demo_delivers_the_stream:
  assumes law: "rand_law R" and st: "map_of (en_states (at_impact a)) k = Some st" "x_ID (es_config st) = k" "x_Status (es_config st) = Running"
    and k: "\<not> blank k" and body: "body \<noteq> DemoBadBody" and bs: "SyntheticBatches R source_of (es_config st) (demo_config body) = Inr bs"
    and io: "\<And>n. ds_io (steps n) = AppendOk"
    and enc: "\<forall>b \<in> set bs. enc_exp (ac_exp C) (events_record (sy_Events b) (sy_ArrivedAt b)) \<noteq> None"
  shows "\<exists>a' summary r st' receipts. runImpactDemo R source_of C bits steps now a k body = (a', DemoOk summary r) \<and>
    ss_Deliveries summary = length (concat (map sy_Events bs)) \<and> ss_Batches summary = length bs \<and>
    map_of (en_states (at_impact a')) k = Some st' \<and> deliver_batches (erase st) bs = (erase st', receipts) \<and>
    (\<forall>k'. k' \<noteq> k \<longrightarrow> map_of (en_states (at_impact a')) k' = map_of (en_states (at_impact a)) k') \<and>
    (es_maxEventTime st = zero_time \<longrightarrow> 74 \<le> x_AllowedLatenessSeconds (es_config st) \<longrightarrow> x_AllowedLatenessSeconds (es_config st) \<le> 9000000000 \<longrightarrow>
      (\<forall>rc \<in> set receipts. rc_Status rc \<noteq> Late))"
proof -
  have "\<forall>b \<in> set bs. sy_Events b \<noteq> [] \<and> (\<forall>v \<in> set (sy_Events b). of_demo k v) \<and> sy_ArrivedAt b \<noteq> zero_time"
    using batches_of_demo [OF law bs] st(2) by blast
  from demo_loop_result [where C = C and steps = steps and bits = bits and index = 0 and deliveries = 0 and recorded = 0 and r = zero_result, OF k io this enc st]
  obtain a' r st' where loop: "demo_loop C bits steps 0 0 0 zero_result bs a = (a', Inr (r, length (concat (map sy_Events bs))))"
    and st': "map_of (en_states (at_impact a')) k = Some st'" "fst (deliver_batches (erase st) bs) = erase st'"
      "\<forall>k'. k' \<noteq> k \<longrightarrow> map_of (en_states (at_impact a')) k' = map_of (en_states (at_impact a)) k'"
    by auto
  have run': "runImpactDemo R source_of C bits steps now a k body =
      (a', DemoOk (demo_summary (demo_config body) r (length (concat (map sy_Events bs))) (length bs)) r)"
    using body bs loop by (simp add: runImpactDemo_def ExpEngine.Get_def st(1))
  obtain receipts where d: "deliver_batches (erase st) bs = (erase st', receipts)" using st'(2) by (metis prod.collapse)
  have "\<forall>rc \<in> set receipts. rc_Status rc \<noteq> Late"
    if "es_maxEventTime st = zero_time" "74 \<le> x_AllowedLatenessSeconds (es_config st)" "x_AllowedLatenessSeconds (es_config st) \<le> 9000000000"
    using synthetic_events_are_in_time [OF law bs _ _ _ d] that by simp
  then show ?thesis using run' st'(1,3) d
    by (intro exI [of _ a'] exI [of _ "demo_summary (demo_config body) r (length (concat (map sy_Events bs))) (length bs)"] exI [of _ r]
      exI [of _ st'] exI [of _ receipts]) (simp add: demo_summary_def Let_def)
qed

definition demo_codec :: atlas_codec where "demo_codec = small_codec\<lparr>ac_exp := \<lparr>enc_exp = (\<lambda>_. Some [65]), dec_exp = (\<lambda>_. None)\<rparr>\<rparr>"

definition demo_state :: experimentState where
  "demo_state = new_state (sample_config\<lparr>x_Status := Running, x_AllowedLatenessSeconds := 120\<rparr>)"

definition demo_atlas :: atlas where
  "demo_atlas = (server_on empty_catalog NewIndex [])\<lparr>at_impact := \<lparr>en_wal = [], en_states = [([120], demo_state)]\<rparr>\<rparr>"

definition quiet_step :: demo_step where
  "quiet_step = \<lparr>ds_io = AppendOk, ds_now = 7, ds_later = 8, ds_ack = 1000, ds_recorded = 8, ds_order = []\<rparr>"

theorem demo_delivers_the_stream_witness:
  "\<exists>a' summary r st' bs receipts. runImpactDemo middle_source (\<lambda>_. ()) demo_codec (\<lambda>_. 0) (\<lambda>_. quiet_step) 7 demo_atlas [120] (DemoConfig small_stream) =
      (a', DemoOk summary r) \<and> deliver_batches (erase demo_state) bs = (erase st', receipts) \<and> (\<forall>rc \<in> set receipts. rc_Status rc \<noteq> Late)"
proof -
  obtain bs where bs: "SyntheticBatches middle_source (\<lambda>_. ()) (es_config demo_state) (demo_config (DemoConfig small_stream)) = Inr bs"
    using small_stream_runs by (auto simp: demo_config_def)
  have st: "map_of (en_states (at_impact demo_atlas)) [120] = Some demo_state" "x_ID (es_config demo_state) = [120]" "x_Status (es_config demo_state) = Running"
    "es_maxEventTime demo_state = zero_time" "x_AllowedLatenessSeconds (es_config demo_state) = 120"
    by (simp_all add: demo_atlas_def demo_state_def new_state_def sample_config_def)
  from demo_delivers_the_stream [where C = demo_codec and steps = "\<lambda>_. quiet_step" and bits = "\<lambda>_. 0" and now = 7,
      OF middle_source_law st(1-3) _ _ bs] st(4,5)
  show ?thesis by (fastforce simp: blank_iff is_space_def demo_codec_def quiet_step_def)
qed

lemma torn_save_fails: "\<exists>c err. SaveEntry U K (PersistTorn x) now fresh c0 entry = (c, Inl err)"
proof (cases "prepare_entry U now fresh entry")
  case (Inr prepared)
  let ?c = "c0\<lparr>ca_entries := AList.update (ce_ID prepared) prepared (ca_entries c0)\<rparr>"
  obtain c ok where "persistLocked K (PersistTorn x) ?c = (c, ok)" by fastforce
  moreover from this have "\<not> ok" by (auto simp: persistLocked_def split: option.splits if_splits)
  ultimately show ?thesis using Inr by (simp add: SaveEntry_def)
qed (simp add: SaveEntry_def)

theorem failed_conclusion_is_final_witness:
  "\<exists>a' err. stopImpactExperiment U two_decimals demo_codec AppendOk (PersistTorn None) DocSynced 7 8 [120] demo_atlas [120] = (a', StopNotIndexed err) \<and>
     stopImpactExperiment U two_decimals demo_codec AppendOk PersistDone DocSynced 9 10 [120] a' [120] =
       (a', StopRefused 400 (ErrCannotStop exp_status.Completed))"
proof -
  have st: "map_of (en_states (at_impact demo_atlas)) [120] = Some demo_state" "x_Status (es_config demo_state) = Running"
    "keys_ok (en_states (at_impact demo_atlas))"
    by (simp_all add: demo_atlas_def demo_state_def new_state_def sample_config_def keys_ok_def)
  obtain e x r where set: "SetStatus (ac_exp demo_codec) AppendOk (at_impact demo_atlas) [120] exp_status.Completed 7 8 = (e, Inr (x, r))"
    using st by (simp add: SetStatus_def Let_def append_record_def demo_codec_def)
  obtain c err where "SaveEntry U (ac_catalog demo_codec) (PersistTorn None) 8 [120] (at_catalog demo_atlas) (conclusion_entry U two_decimals x r) = (c, Inl err)"
    using torn_save_fails by blast
  then obtain a' where stop: "stopImpactExperiment U two_decimals demo_codec AppendOk (PersistTorn None) DocSynced 7 8 [120] demo_atlas [120] =
      (a', StopNotIndexed (IndexCatalog err))"
    by (simp add: stopImpactExperiment_def set indexImpactConclusion_def)
  from failed_conclusion_is_final [OF st(3) this] stop show ?thesis by blast
qed

end
