(* ===== verification/Spec2Isabelle.thy ===== *)
theory Spec2Isabelle
  imports LogLimits Invoke Provenance QueueProps RaftReplicate RaftFaults TsRecovery SearchExact SearchSnapshot SearchShard ExpRecovery ExpStats AtlasCounters ImpactProps
begin

text \<open>
  Verification of the core of Atlas Research, a monorepo of Go services.

  Parts of the program and the theories that model them.

  \<^item> The collaborative editor (\<^verbatim>\<open>internal/collab\<close>). Clients send operations, arrays of retains, deletes and inserts over UTF-16
    units; a session transforms an operation past the ones committed since the client's revision, applies it, appends it to the
    document's log and then sends it on. \<open>Utf16\<close> and \<open>Edits\<close> hold strings and the reference algebra of edit scripts; \<open>OT\<close>,
    \<open>Normal\<close> and \<open>Positions\<close> model \<^verbatim>\<open>ot.go\<close>, \<open>Wire\<close> its JSON form and the guards on text, \<open>DocState\<close> and \<open>CatchUp\<close> model
    \<^verbatim>\<open>state.go\<close>, \<open>OpLog\<close> models \<^verbatim>\<open>oplog.go\<close>, \<open>Session\<close> and \<open>SessionProps\<close> model the actor of \<^verbatim>\<open>session.go\<close>, \<open>LogLimits\<close>
    relates its limits to those of the decoder, \<open>Agent\<close> models the budget, reads and proposals of \<^verbatim>\<open>agent.go\<close>, \<open>Invoke\<close> the
    handler that calls agents and lets them search and write. \<open>LogReads\<close> says which of a log's bytes are read back, \<open>DocStore\<close> and
    \<open>StoreProps\<close> model the directory of documents (\<^verbatim>\<open>store.go\<close>), and \<open>Provenance\<close> attributes every unit of the text to its author.
  \<^item> The queue of video jobs (\<^verbatim>\<open>internal/video\<close>). Workers lease jobs; a journal and snapshots make every change durable. \<open>GoHeap\<close> models
    \<^verbatim>\<open>container/heap\<close> of Go's library, \<open>JobHeap\<close> and \<open>LeaseIndex\<close> model \<^verbatim>\<open>index.go\<close>, \<open>Queue\<close> models \<^verbatim>\<open>queue.go\<close>, whose
    journal has the line format of \<open>OpLog\<close>, and \<open>QueueProps\<close> states what it guarantees.
  \<^item> The replicated key-value store (\<^verbatim>\<open>engineering-labs/quorum-kv/internal/kv\<close>), a Raft implementation. \<open>KVState\<close> models
    \<^verbatim>\<open>state.go\<close>, \<open>Scanner\<close> the reading of log files line by line, \<open>RaftStore\<close> models \<^verbatim>\<open>storage.go\<close>, \<open>Raft\<close> the locked sections of
    \<^verbatim>\<open>raft.go\<close>. \<open>RaftHandlers\<close> says what the handlers change, \<open>RaftSafety\<close> interleaves them in a cluster, \<open>RaftReplicate\<close> follows
    a leader bringing a follower up to date, \<open>RaftFaults\<close> is about restarts and failing writes.
  \<^item> The time-series store (\<^verbatim>\<open>internal/tsdb\<close>). \<open>TsCodec\<close> models \<^verbatim>\<open>codec.go\<close>, \<open>TsStore\<close> models \<^verbatim>\<open>store.go\<close>, \<open>TsProps\<close> is about
    queries and flushes, \<open>TsRecovery\<close> about opening after a crash.
  \<^item> The search service (\<^verbatim>\<open>internal/search\<close>). Nodes hold an inverted index and rank documents by BM25; a coordinator spreads
    documents over shards of replicas. \<open>GoFloat\<close> has the floating-point operations, \<open>SearchIndex\<close>, \<open>SearchKeeps\<close> and
    \<open>SearchCompact\<close> model the tokenizer, the updates and the compaction of \<^verbatim>\<open>index.go\<close>, \<open>Frontier\<close> and \<open>TopK\<close> its galloping
    cursors and bounded heap, \<open>SearchQuery\<close> its evaluation; \<open>SearchBound\<close>, \<open>SearchPrune\<close>, \<open>SearchLoop\<close> and
    \<open>SearchExact\<close> show that pruned evaluation loses nothing. \<open>SearchSnapshot\<close> models \<^verbatim>\<open>snapshot.go\<close>, \<open>SearchNode\<close> the log
    and the node's handlers (\<^verbatim>\<open>wal.go\<close>, \<^verbatim>\<open>http.go\<close>), \<open>SearchShard\<close> the coordinator (\<^verbatim>\<open>http.go\<close>).
  \<^item> The experiments engine (\<^verbatim>\<open>internal/experiments\<close>). Subjects are assigned to variants by a hash, events are attributed within
    a lateness window and counted. \<open>Sha256\<close> models the hash, \<open>Experiment\<close> the definitions and assignment, \<open>ExpEngine\<close> the state and
    its operations with their log, \<open>ExpRecovery\<close> restarts, \<open>ExpCounts\<close> relates counters to the accepted events, \<open>ExpStats\<close>
    the analysis and the recommendations (all of \<^verbatim>\<open>engine.go\<close>), \<open>Synthetic\<close> the generator of demonstration events (\<^verbatim>\<open>synthetic.go\<close>).
  \<^item> The Atlas server (\<^verbatim>\<open>internal/atlas\<close>), which puts these services behind one API. \<open>Catalog\<close> models the log of entries, runs and documents
    (\<^verbatim>\<open>catalog.go\<close>), \<open>AtlasServer\<close> the handlers over catalog, index, queue and metrics (\<^verbatim>\<open>server.go\<close>), \<open>AtlasImpact\<close> those over
    the experiments engine (\<^verbatim>\<open>impact.go\<close>); \<open>AtlasProps\<close> relates the catalog to the search index across restarts, \<open>ImpactProps\<close> is about
    conclusions and the demonstration, \<open>AtlasCounters\<close> about the request counters.
  \<^item> \<open>Prelude\<close> and \<open>GoLib\<close> hold what all of them share: results with errors, maps as association lists, operations of Go's library.

  How state and operations correspond. A Go struct is a record with the same fields and the operations keep their names;
  a method is a function from the record to the record it leaves and its results. A returned error is \<open>Inl\<close> or \<open>Some\<close> of
  the component's error type, a run-time panic is a constructor of it. Mutable objects that are shared (connections, index
  entries) live in a store from addresses to values. Maps are association lists where their order can matter to
  the code or their keys are listed, and functions otherwise. Files are their bytes; a system call is represented by its
  outcome, an argument that says whether it fails and how much of the data reached the file. JSON, gob and gzip
  are parameters, and the theorems that need it assume that decoding gives back what was encoded. Goroutines are the
  sequences of locked sections they execute: a session is a list of events in any order, a Raft cluster a step relation in which
  sections of all nodes interleave, messages are lost, repeated and delayed, and nodes restart.

  Interfaces are locales, interpreted on the model: \<open>heap_interface\<close> and \<open>entry_order\<close> (the order a heap is kept in, interpreted for
  both heaps of the index), \<open>entry_store\<close> (what a Raft node needs of its log file, interpreted for the WAL), and those of the
  editor in the theories that use them.

  What the lemmas show. Editor: transformation converges, composition and application are exact, the wire form is faithful, every record
  keeps the document in order and replay rebuilds the live state; messages keep the session in order, resent operations have no effect,
  nothing is sent before it is durable, and a returning client is sent exactly what it missed; suggestions and proposals stay on the text their
  agent read; a document's directory survives a crash at any point of its creation, and the authors of its text add up to its length. Queue: the index describes the jobs, a lease takes the first due job and protects it, acknowledged changes survive, back-off is
  bounded. Raft: one leader per term, logs agree up to a common entry, replication ends and repairs a follower's log, acknowledged writes survive
  a restart. Time series: the codec reads back, queries list one value of every timestamp, a flush to disjoint blocks keeps answers, and what was written since the log
  was emptied is answered after a restart. Search: every
  operation keeps the index dense, pruned and exhaustive evaluation return the same results, compaction, snapshots and restarts keep answers,
  adding a shard moves documents to it only, merged answers are the best of all shards, a hedged search ends and answers when a replica does.
  Experiments: an assignment is stable, counters are those of the accepted events, restarts keep the state, recommendations need samples and
  an interval clear of zero, and the synthetic stream delivers a fixed number of events, each within the lateness window.
  Atlas: an entry can be found as soon as its request succeeds, the catalog reads back after a crash, request counts fall into their minutes, the demonstration
  brings the whole synthetic stream to its experiment. Where the code does not do
  what it means to, a theorem says what it does: \<open>committed_edit_breaks_log\<close>, \<open>create_takes_over_job\<close>, \<open>new_leader_reads_stale_value\<close>,
  \<open>long_entry_blocks_restart\<close>, \<open>failed_write_forgets_vote\<close>, \<open>retry_acknowledges_unwritten_entries\<close>, \<open>second_block_replaces_first\<close>,
  \<open>torn_record_blocks_open\<close>, \<open>overlapping_requests_diverge\<close>, \<open>long_document_blocks_start\<close>,
  \<open>torn_document_blocks_start\<close>, \<open>expired_subject_is_counted_again\<close>, \<open>large_lateness_refuses_events\<close>,
  \<open>request_after_failed_write_blocks_open\<close>, \<open>damaged_file_is_cut\<close>, \<open>restart_brings_back_old_version\<close>, \<open>entry_hides_document\<close>,
  \<open>failed_conclusion_is_final\<close>.

  Bounds and fuel. All loops of the code are total functions but the rounds of \<open>replicate_rounds\<close>, which carry fuel: the length of the
  leader's log is enough, since every refused round lowers the index to try. Integers are words where the code relies on their width (units,
  checksums, variable-length integers, timestamps of samples, the back-off product) and unbounded otherwise; terms and indexes of Raft are natural
  numbers. The codec's round trip is stated for at most \<open>2 ^ 44\<close> samples, beyond which the decoder panics.

  A float64 is a real rounded after every operation to 53 bits, with an unbounded range of exponents: overflow, underflow and NaN do not
  occur, and no multiplication is fused with an addition. \<^verbatim>\<open>math.Log\<close> and the Unicode tables are parameters.

  Not modelled: HTTP and WebSocket transport, timers and goroutine life cycles, the clients of external services, upload files and the encoder, the
  handlers of Atlas that only pass requests on to those services, its importer, the JavaScript clients and the Java part. Memory visibility is not modelled: every section
  under a mutex is atomic. In the Raft cluster disks work; a crash happens between sections. A theorem about recovery names the failures it allows: those
  that say every append succeeded (\<open>restart_answers_alike\<close>, \<open>knowledge_is_searchable\<close>, \<open>acknowledged_samples_survive_crash\<close>)
  have a counterpart above that shows what a failed one does.

  Where a definition is coarser than the code: \<open>enqueue\<close> drops every message to a closed connection, which the code may still put into a queue nobody reads;
  \<open>openFileLog\<close> does not distinguish a failed cut of a torn tail from a cut whose synchronisation fails, both of which refuse the log; \<open>scorePruned\<close> sorts the
  bounds of terms stably, the code in some order of equal bounds; \<open>replicate_rounds\<close> runs the rounds of one leader without other sections between them;
  \<open>Invoke\<close> takes what other runs do to the budget from start to end of a run as one change (\<open>sr_budget\<close>).
\<close>

end
